(* ===== verification/Micron_Prelude.thy ===== *)
theory Micron_Prelude
  imports Main "HOL-Library.Signed_Division" "HOL-Library.Word" "HOL-Library.Multiset"
begin

text \<open>
  Shared vocabulary of the development: the integer casts of the source
  (\<^verbatim>\<open>static_cast<u32>\<close> and its kin, written as reduction modulo the width), C++ division
  (\<open>sdiv\<close>, \<open>smod\<close> of the library round towards zero as C++ does), element swaps on lists,
  and the collections of facts the component theories extend.

  Signed arithmetic is exact: an overflow of a signed C++ integer has no defined behaviour, so
  the theorems state the ranges in which the values stay.  Unsigned arithmetic wraps and is
  written with the casts below.
\<close>

named_theorems cast_simps \<open>casts are the identity on values of their range\<close>
named_theorems cdiv_simps \<open>C++ division of non-negative values\<close>
named_theorems len_simps \<open>length facts of the array operations\<close>
named_theorems mset_simps \<open>permutation facts of the array operations\<close>

subsection \<open>Integer casts\<close>

type_synonym i32 = int
type_synonym i64 = int
type_synonym u8 = int
type_synonym u16 = int
type_synonym u32 = int
type_synonym u64 = int

definition to_u8 :: "int \<Rightarrow> u8" where "to_u8 x = x mod 256"
definition to_u16 :: "int \<Rightarrow> u16" where "to_u16 x = x mod 65536"
definition to_u32 :: "int \<Rightarrow> u32" where "to_u32 x = x mod 4294967296"
definition to_u64 :: "int \<Rightarrow> u64" where "to_u64 x = x mod 18446744073709551616"
definition to_i32 :: "int \<Rightarrow> i32" where
  "to_i32 x = (x + 2147483648) mod 4294967296 - 2147483648"
definition to_i64 :: "int \<Rightarrow> i64" where
  "to_i64 x = (x + 9223372036854775808) mod 18446744073709551616 - 9223372036854775808"

definition is_u32 :: "int \<Rightarrow> bool" where "is_u32 x \<longleftrightarrow> 0 \<le> x \<and> x < 4294967296"
definition is_u64 :: "int \<Rightarrow> bool" where "is_u64 x \<longleftrightarrow> 0 \<le> x \<and> x < 18446744073709551616"
definition is_i32 :: "int \<Rightarrow> bool" where "is_i32 x \<longleftrightarrow> - 2147483648 \<le> x \<and> x \<le> 2147483647"
definition is_i64 :: "int \<Rightarrow> bool" where
  "is_i64 x \<longleftrightarrow> - 9223372036854775808 \<le> x \<and> x \<le> 9223372036854775807"

lemma to_u8_id [cast_simps]: "0 \<le> x \<Longrightarrow> x < 256 \<Longrightarrow> to_u8 x = x"
  by (simp add: to_u8_def)

lemma to_u16_id [cast_simps]: "0 \<le> x \<Longrightarrow> x < 65536 \<Longrightarrow> to_u16 x = x"
  by (simp add: to_u16_def)

lemma to_u32_id [cast_simps]: "0 \<le> x \<Longrightarrow> x < 4294967296 \<Longrightarrow> to_u32 x = x"
  by (simp add: to_u32_def)

lemma to_u64_id [cast_simps]: "0 \<le> x \<Longrightarrow> x < 18446744073709551616 \<Longrightarrow> to_u64 x = x"
  by (simp add: to_u64_def)

lemma to_i32_id [cast_simps]: "- 2147483648 \<le> x \<Longrightarrow> x \<le> 2147483647 \<Longrightarrow> to_i32 x = x"
  by (simp add: to_i32_def)

lemma to_i64_id [cast_simps]:
  "- 9223372036854775808 \<le> x \<Longrightarrow> x \<le> 9223372036854775807 \<Longrightarrow> to_i64 x = x"
  by (simp add: to_i64_def)

lemma to_u32_range: "0 \<le> to_u32 x \<and> to_u32 x < 4294967296"
  by (simp add: to_u32_def)

lemma to_i32_range: "is_i32 (to_i32 x)"
proof -
  have "0 \<le> (x + 2147483648) mod 4294967296" "(x + 2147483648) mod 4294967296 < 4294967296"
    by simp_all
  then show ?thesis unfolding is_i32_def to_i32_def by linarith
qed

subsection \<open>Division that rounds towards zero\<close>

lemma sdiv_nonneg [cdiv_simps]: "0 \<le> a \<Longrightarrow> 0 < b \<Longrightarrow> (a::int) sdiv b = a div b"
  by (cases "a = 0") (auto simp: signed_divide_int_def)

lemma smod_nonneg [cdiv_simps]: "0 \<le> a \<Longrightarrow> 0 < b \<Longrightarrow> (a::int) smod b = a mod b"
  by (cases "a = 0") (auto simp: signed_modulo_int_def)

lemma smod_eq_0_iff: "(a::int) smod b = 0 \<longleftrightarrow> b dvd a"
proof -
  have "a smod b = sgn a * (\<bar>a\<bar> mod \<bar>b\<bar>)"
    by (simp add: signed_modulo_int_def)
  then have "a smod b = 0 \<longleftrightarrow> a = 0 \<or> \<bar>b\<bar> dvd \<bar>a\<bar>"
    by (simp add: sgn_0_0 dvd_eq_mod_eq_0)
  then show ?thesis by auto
qed

lemma sdiv_smod_split:
  assumes "b \<noteq> (0::int)"
  obtains r where "a smod b = sgn a * r" "0 \<le> r" "r < \<bar>b\<bar>" "a = (a sdiv b) * b + a smod b"
proof
  show "a smod b = sgn a * (\<bar>a\<bar> mod \<bar>b\<bar>)" by (simp add: signed_modulo_int_def)
  show "a = (a sdiv b) * b + a smod b" by (simp only: sdiv_mult_smod_eq)
qed (use assms in simp_all)

lemma div_int_witness:
  "a = q * b + s \<Longrightarrow> 0 \<le> s \<and> s < b \<or> b < s \<and> s \<le> 0 \<Longrightarrow> a div b = (q::int)"
  by auto

lemma div_Suc_int: "0 < n \<Longrightarrow> (k + 1) div n = k div n + (if n dvd k + 1 then 1 else (0::int))"
proof -
  assume n: "0 < n"
  have k: "k = n * (k div n) + k mod n" by simp
  have b: "0 \<le> k mod n" "k mod n < n" using n by simp_all
  show ?thesis
  proof (cases "k mod n = n - 1")
    case True
    then have "k + 1 = n * (k div n) + n" using k by linarith
    then have "k + 1 = (k div n + 1) * n" by (simp add: algebra_simps)
    then show ?thesis using n by (metis dvd_triv_right div_mult_self_is_m less_numeral_extra(3) nonzero_mult_div_cancel_right)
  next
    case False
    have eq: "k + 1 = n * (k div n) + (k mod n + 1)" by simp
    have "(k + 1) div n = k div n" "(k + 1) mod n = k mod n + 1"
      using int_div_pos_eq [OF eq] int_mod_pos_eq [OF eq] False b by auto
    then show ?thesis using b by (simp add: dvd_eq_mod_eq_0)
  qed
qed

lemma div_growth: "x \<le> y \<Longrightarrow> 0 < n \<Longrightarrow> (y::int) div n - x div n \<le> y - x"
proof -
  assume a: "x \<le> y" "0 < n"
  have "1 * (y - x) \<le> n * (y - x)" using a by (intro mult_right_mono) auto
  then have "(x + (y - x)) div n \<le> (x + n * (y - x)) div n"
    using a by (intro zdiv_mono1) auto
  also have "\<dots> = x div n + (y - x)" using a by simp
  finally show ?thesis by simp
qed

end
