(* ===== verification/Chrono_Calendar.thy ===== *)
theory Chrono_Calendar
  imports Micron_Prelude
begin

text \<open>
  The proleptic Gregorian calendar of \<^verbatim>\<open>src/src/chrono/calendar.hpp\<close>: the floor division, the
  two conversions between day numbers and civil dates, weekdays, ordinal days and ISO week
  dates, and the \<^verbatim>\<open>year_month_day\<close> wrapper class.
\<close>

subsection \<open>Floor division\<close>

definition floor_div :: "i64 \<Rightarrow> i64 \<Rightarrow> i64" where
  "floor_div a b =
     (let q = a sdiv b
      in if a smod b \<noteq> 0 \<and> (a < 0) \<noteq> (b < 0) then q - 1 else q)"

definition floor_mod :: "i64 \<Rightarrow> i64 \<Rightarrow> i64" where
  "floor_mod a b = a - floor_div a b * b"

subsection \<open>Civil dates\<close>

record civil_date =
  cd_y :: i32
  cd_m :: u32
  cd_d :: u32

definition is_leap :: "i32 \<Rightarrow> bool" where
  "is_leap y \<longleftrightarrow> (y smod 4 = 0 \<and> y smod 100 \<noteq> 0) \<or> y smod 400 = 0"

definition dm_table :: "int list" where
  "dm_table = [0, 31, 28, 31, 30, 31, 30, 31, 31, 30, 31, 30, 31]"

definition days_in_month :: "i32 \<Rightarrow> u32 \<Rightarrow> u32" where
  "days_in_month y m =
     (if m = 2 then (if is_leap y then 29 else 28)
      else if 1 \<le> m \<and> m \<le> 12 then dm_table ! nat m else 0)"

definition days_in_year :: "i32 \<Rightarrow> u32" where
  "days_in_year y = (if is_leap y then 366 else 365)"

definition days_from_civil :: "i32 \<Rightarrow> u32 \<Rightarrow> u32 \<Rightarrow> i64" where
  "days_from_civil y0 m d =
     (let y = y0 - (if m \<le> 2 then 1 else 0);
          era = floor_div y 400;
          yoe = y - era * 400;
          doy = (153 * (m + (if m > 2 then -3 else 9)) + 2) sdiv 5 + d - 1;
          doe = yoe * 365 + yoe sdiv 4 - yoe sdiv 100 + doy
      in era * 146097 + doe - 719468)"

definition civil_from_days :: "i64 \<Rightarrow> civil_date" where
  "civil_from_days z0 =
     (let z = z0 + 719468;
          era = floor_div z 146097;
          doe = z - era * 146097;
          yoe = (doe - doe sdiv 1460 + doe sdiv 36524 - doe sdiv 146096) sdiv 365;
          y = yoe + era * 400;
          doy = doe - (365 * yoe + yoe sdiv 4 - yoe sdiv 100);
          mp = (5 * doy + 2) sdiv 153;
          d = to_u32 (doy - (153 * mp + 2) sdiv 5 + 1);
          m = to_u32 (if mp < 10 then mp + 3 else mp - 9)
      in \<lparr>cd_y = to_i32 (y + (if m \<le> 2 then 1 else 0)), cd_m = m, cd_d = d\<rparr>)"

definition civil_valid :: "i32 \<Rightarrow> u32 \<Rightarrow> u32 \<Rightarrow> bool" where
  "civil_valid y m d \<longleftrightarrow> 1 \<le> m \<and> m \<le> 12 \<and> 1 \<le> d \<and> d \<le> days_in_month y m"

subsection \<open>Weekday, ordinal and ISO week date\<close>

definition weekday_from_days :: "i64 \<Rightarrow> u32" where
  "weekday_from_days z = to_u32 (floor_mod (z + 4) 7)"

definition weekday_of :: "i32 \<Rightarrow> u32 \<Rightarrow> u32 \<Rightarrow> u32" where
  "weekday_of y m d = weekday_from_days (days_from_civil y m d)"

definition iso_weekday_of :: "i32 \<Rightarrow> u32 \<Rightarrow> u32 \<Rightarrow> u32" where
  "iso_weekday_of y m d = (let w = weekday_of y m d in if w = 0 then 7 else w)"

definition day_of_year :: "i32 \<Rightarrow> u32 \<Rightarrow> u32 \<Rightarrow> u32" where
  "day_of_year y m d = to_u32 (days_from_civil y m d - days_from_civil y 1 1 + 1)"

record iso_week =
  iw_year :: i32
  iw_week :: u32
  iw_weekday :: u32

definition iso_week_date :: "i32 \<Rightarrow> u32 \<Rightarrow> u32 \<Rightarrow> iso_week" where
  "iso_week_date y m d =
     (let z = days_from_civil y m d;
          wd = to_u32 (to_u32 (floor_mod (z + 3) 7) + 1);
          thursday = z + (4 - wd);
          tc = civil_from_days thursday;
          jan1 = days_from_civil (cd_y tc) 1 1
      in \<lparr>iw_year = cd_y tc, iw_week = to_u32 ((thursday - jan1) sdiv 7 + 1), iw_weekday = wd\<rparr>)"

definition month_abbr :: "string list" where
  "month_abbr = [''???'', ''Jan'', ''Feb'', ''Mar'', ''Apr'', ''May'', ''Jun'',
     ''Jul'', ''Aug'', ''Sep'', ''Oct'', ''Nov'', ''Dec'']"

definition month_name :: "string list" where
  "month_name = [''???'', ''January'', ''February'', ''March'', ''April'', ''May'', ''June'',
     ''July'', ''August'', ''September'', ''October'', ''November'', ''December'']"

definition weekday_abbr :: "string list" where
  "weekday_abbr = [''Sun'', ''Mon'', ''Tue'', ''Wed'', ''Thu'', ''Fri'', ''Sat'']"

definition weekday_name :: "string list" where
  "weekday_name = [''Sunday'', ''Monday'', ''Tuesday'', ''Wednesday'', ''Thursday'',
     ''Friday'', ''Saturday'']"

subsection \<open>The wrapper class \<open>year_month_day\<close>\<close>

record year_month_day =
  yr :: i32
  mo :: u32
  dy :: u32

definition year_is_leap :: "i32 \<Rightarrow> bool" where
  "year_is_leap y \<longleftrightarrow> (y smod 4 = 0 \<and> y smod 100 \<noteq> 0) \<or> y smod 400 = 0"

definition month_ok :: "u32 \<Rightarrow> bool" where
  "month_ok m \<longleftrightarrow> 1 \<le> m \<and> m \<le> 12"

definition day_ok :: "u32 \<Rightarrow> bool" where
  "day_ok d \<longleftrightarrow> 1 \<le> d \<and> d \<le> 31"

definition ymd_from_unix :: "i64 \<Rightarrow> year_month_day" where
  "ymd_from_unix unix_sec =
     (let c = civil_from_days (floor_div unix_sec 86400)
      in \<lparr>yr = cd_y c, mo = cd_m c, dy = cd_d c\<rparr>)"

definition ymd_from_days :: "i64 \<Rightarrow> year_month_day" where
  "ymd_from_days days =
     (let c = civil_from_days days in \<lparr>yr = cd_y c, mo = cd_m c, dy = cd_d c\<rparr>)"

definition ymd_to_days :: "year_month_day \<Rightarrow> i64" where
  "ymd_to_days t = days_from_civil (yr t) (mo t) (dy t)"

definition ymd_to_unix :: "year_month_day \<Rightarrow> i64" where
  "ymd_to_unix t = ymd_to_days t * 86400"

definition ymd_ok :: "year_month_day \<Rightarrow> bool" where
  "ymd_ok t = civil_valid (yr t) (mo t) (dy t)"

definition ymd_weekday :: "year_month_day \<Rightarrow> u32" where
  "ymd_weekday t = weekday_from_days (ymd_to_days t)"

definition ymd_day_of_year :: "year_month_day \<Rightarrow> u32" where
  "ymd_day_of_year t = day_of_year (yr t) (mo t) (dy t)"

subsection \<open>Floor division is the floor\<close>

lemma floor_div_eq: "b \<noteq> 0 \<Longrightarrow> floor_div a b = a div b"
proof -
  assume b: "b \<noteq> 0"
  obtain r where s: "a smod b = sgn a * r" and r: "0 \<le> r" "r < \<bar>b\<bar>"
    and eq: "a = (a sdiv b) * b + a smod b"
    using sdiv_smod_split [OF b] by blast
  show ?thesis
  proof (cases "a smod b \<noteq> 0 \<and> (a < 0) \<noteq> (b < 0)")
    case True
    have "a = (a sdiv b - 1) * b + (a smod b + b)" using eq by (simp add: algebra_simps)
    moreover have "0 \<le> a smod b + b \<and> a smod b + b < b \<or> b < a smod b + b \<and> a smod b + b \<le> 0"
      using True r unfolding s by (auto simp: sgn_if split: if_splits)
    ultimately have "a div b = a sdiv b - 1" by (rule div_int_witness)
    with True show ?thesis by (simp add: floor_div_def)
  next
    case False
    have "0 \<le> a smod b \<and> a smod b < b \<or> b < a smod b \<and> a smod b \<le> 0"
      using False r b unfolding s by (auto simp: sgn_if split: if_splits)
    with eq have "a div b = a sdiv b" by (rule div_int_witness)
    with False show ?thesis by (auto simp: floor_div_def)
  qed
qed

lemma floor_mod_eq: "b \<noteq> 0 \<Longrightarrow> floor_mod a b = a mod b"
  by (simp add: floor_mod_def floor_div_eq minus_div_mult_eq_mod)

lemma is_leap_dvd: "is_leap y \<longleftrightarrow> (4 dvd y \<and> \<not> 100 dvd y) \<or> 400 dvd y"
  by (simp add: is_leap_def smod_eq_0_iff)

subsection \<open>Years that start in March\<close>

text \<open>
  \<open>ystart k\<close> is the number of days before 1 March of year \<open>k\<close>, \<open>mstart p\<close> the number of days
  before the \<open>p\<close>-th month of such a year.  The day conversions are the closed form
  \<open>ystart + mstart\<close> and its inversion.
\<close>

definition ystart :: "int \<Rightarrow> int" where
  "ystart k = 365 * k + k div 4 - k div 100 + k div 400"

definition mstart :: "int \<Rightarrow> int" where
  "mstart p = (153 * p + 2) div 5"

definition march_year :: "int \<Rightarrow> int \<Rightarrow> int" where
  "march_year y m = y - (if m \<le> 2 then 1 else 0)"

definition march_month :: "int \<Rightarrow> int" where
  "march_month m = m + (if m > 2 then -3 else 9)"

lemma ystart_era: "ystart (e * 400 + k) = e * 146097 + ystart k"
proof -
  have "(e * 400 + k) div 4 = e * 100 + k div 4" by simp
  moreover have "(e * 400 + k) div 100 = e * 4 + k div 100" by simp
  moreover have "(e * 400 + k) div 400 = e + k div 400" by simp
  ultimately show ?thesis by (simp add: ystart_def)
qed

lemma ystart_Suc: "ystart (k + 1) = ystart k + (if is_leap (k + 1) then 366 else 365)"
proof -
  have "400 dvd k + 1 \<Longrightarrow> 100 dvd k + 1" "100 dvd k + 1 \<Longrightarrow> 4 dvd k + 1"
    using dvd_trans [of 100 400 "k + 1"] dvd_trans [of 4 100 "k + 1"] by simp_all
  then show ?thesis
    unfolding ystart_def is_leap_dvd
      div_Suc_int [of 4 k, simplified] div_Suc_int [of 100 k, simplified]
      div_Suc_int [of 400 k, simplified]
    by (cases "4 dvd k + 1"; cases "100 dvd k + 1"; cases "400 dvd k + 1") simp_all
qed

text \<open>The numerator of the year-of-era quotient of \<^verbatim>\<open>civil_from_days\<close>.\<close>

definition yoe_num :: "int \<Rightarrow> int" where
  "yoe_num x = x - x div 1460 + x div 36524 - x div 146096"

lemma yoe_num_mono: "0 \<le> x \<Longrightarrow> x \<le> y \<Longrightarrow> y < 146096 \<Longrightarrow> yoe_num x \<le> yoe_num y"
  using div_growth [of x y 1460] zdiv_mono1 [of x y 36524] unfolding yoe_num_def by simp

lemma yoe_table:
  "list_all (\<lambda>k. 365 * k \<le> yoe_num (ystart k) \<and> yoe_num (ystart (k + 1) - 1) < 365 * (k + 1)) [0..399]"
  by code_simp

lemma yoe_bounds:
  "0 \<le> k \<Longrightarrow> k < 400 \<Longrightarrow> 365 * k \<le> yoe_num (ystart k)"
  "0 \<le> k \<Longrightarrow> k < 400 \<Longrightarrow> yoe_num (ystart (k + 1) - 1) < 365 * (k + 1)"
  using yoe_table by (auto simp: list_all_iff)

lemma ystart_mono: "x \<le> y \<Longrightarrow> ystart x \<le> ystart y"
  using div_growth [of x y 100] zdiv_mono1 [of x y 4] zdiv_mono1 [of x y 400]
  unfolding ystart_def by simp

lemma ystart_400: "ystart 400 = 146097" "ystart 0 = 0"
  by (simp_all add: ystart_def)

lemma yoe_range:
  assumes "0 \<le> x" "x < 146097"
  shows "0 \<le> yoe_num x div 365 \<and> yoe_num x div 365 < 400"
proof (cases "x = 146096")
  case True
  then show ?thesis by (simp add: yoe_num_def)
next
  case False
  then have "yoe_num 0 \<le> yoe_num x" "yoe_num x \<le> yoe_num 146095"
    using assms by (auto intro: yoe_num_mono)
  then have "0 \<le> yoe_num x" "yoe_num x < 146000" by (simp_all add: yoe_num_def)
  then show ?thesis by linarith
qed

lemma yoe_correct:
  assumes x: "0 \<le> x" "x < 146097" and k: "k = yoe_num x div 365"
  shows "ystart k \<le> x" "x < ystart (k + 1)"
proof -
  have kr: "0 \<le> k" "k < 400" using yoe_range [OF x] k by auto
  have q: "365 * k \<le> yoe_num x" "yoe_num x < 365 * (k + 1)" using k by auto
  have last: "x < 146096" if "k \<noteq> 399" using that k x by (cases "x = 146096") (auto simp: yoe_num_def)
  show "ystart k \<le> x"
  proof (rule ccontr)
    assume a: "\<not> ystart k \<le> x"
    then have k0: "0 < k" using kr x by (cases "k = 0") (auto simp: ystart_def)
    have "ystart k \<le> 146096" using ystart_mono [of k 399] kr by (simp add: ystart_def)
    with a k0 have "yoe_num x \<le> yoe_num (ystart (k - 1 + 1) - 1)"
      using x by (intro yoe_num_mono) auto
    also have "\<dots> < 365 * k" using yoe_bounds(2) [of "k - 1"] k0 kr by simp
    finally show False using q by simp
  qed
  show "x < ystart (k + 1)"
  proof (cases "k = 399")
    case True
    then show ?thesis using x by (simp add: ystart_400)
  next
    case False
    show ?thesis
    proof (rule ccontr)
      assume "\<not> x < ystart (k + 1)"
      moreover have "0 \<le> ystart (k + 1)" using ystart_mono [of 0 "k + 1"] kr by (simp add: ystart_400)
      ultimately have "yoe_num (ystart (k + 1)) \<le> yoe_num x"
        using x last False by (intro yoe_num_mono) auto
      then show False using yoe_bounds(1) [of "k + 1"] kr q False by simp
    qed
  qed
qed
lemma march_year_split:
  "0 \<le> march_year y m - march_year y m div 400 * 400"
  "march_year y m - march_year y m div 400 * 400 < 400"
  by (simp_all add: minus_div_mult_eq_mod)

lemma days_from_civil_closed:
  assumes "1 \<le> m"
  shows "days_from_civil y m d = ystart (march_year y m) + mstart (march_month m) + d - 1 - 719468"
proof -
  let ?y = "march_year y m"
  let ?e = "?y div 400" let ?k = "?y - ?y div 400 * 400"
  have k: "0 \<le> ?k" "?k < 400" by (rule march_year_split)+
  have "ystart ?y = ystart (?e * 400 + ?k)" by simp
  also have "\<dots> = ?e * 146097 + (?k * 365 + ?k div 4 - ?k div 100)"
    using k unfolding ystart_era by (simp add: ystart_def)
  finally have ys: "ystart ?y = ?e * 146097 + (?k * 365 + ?k sdiv 4 - ?k sdiv 100)"
    using k by (simp add: sdiv_nonneg)
  have ms: "mstart (march_month m) = (153 * (m + (if m > 2 then -3 else 9)) + 2) sdiv 5"
    using assms by (simp add: mstart_def march_month_def sdiv_nonneg)
  have my: "y - (if m \<le> 2 then 1 else 0) = ?y" by (simp add: march_year_def)
  show ?thesis
    unfolding days_from_civil_def Let_def floor_div_eq [OF numeral_neq_zero] my ms [symmetric] ys
    by linarith
qed

lemma mstart_bounds: "5 * mstart p \<le> 153 * p + 2" "153 * p + 2 < 5 * mstart p + 5"
  unfolding mstart_def by linarith+

lemma mstart_bounds_Suc: "5 * mstart (p + 1) \<le> 153 * p + 155" "153 * p + 155 < 5 * mstart (p + 1) + 5"
  using mstart_bounds [of "p + 1"] by simp_all

lemma mstart_inverse:
  assumes "p = (5 * doy + 2) div 153"
  shows "mstart p \<le> doy" "doy < mstart (p + 1)"
proof -
  have "153 * p \<le> 5 * doy + 2" "5 * doy + 2 < 153 * p + 153" unfolding assms by linarith+
  then show "mstart p \<le> doy" "doy < mstart (p + 1)"
    using mstart_bounds [of p] mstart_bounds_Suc [of p] by linarith+
qed

lemma mstart_unique:
  assumes "mstart p \<le> doy" "doy < mstart (p + 1)"
  shows "(5 * doy + 2) div 153 = p"
proof -
  have "153 * p \<le> 5 * doy + 2" "5 * doy + 2 < 153 * p + 153"
    using assms mstart_bounds [of p] mstart_bounds_Suc [of p] by linarith+
  then show ?thesis by linarith
qed

lemma mp_range: "0 \<le> doy \<Longrightarrow> doy \<le> (365::int) \<Longrightarrow> 0 \<le> (5 * doy + 2) div 153 \<and> (5 * doy + 2) div 153 \<le> 11"
  by linarith

lemma mstart_step: "mstart (p + 1) - mstart p \<le> 31"
  using mstart_bounds [of p] mstart_bounds_Suc [of p] by linarith

lemma era_of_days:
  assumes "z = e * 146097 + x" "0 \<le> x" "x < 146097" "k = yoe_num x div 365"
  shows "ystart (e * 400 + k) \<le> z" "z < ystart (e * 400 + k + 1)"
    "z - ystart (e * 400 + k) = x - (365 * k + k div 4 - k div 100)"
proof -
  have k: "0 \<le> k" "k < 400" using yoe_range assms by auto
  have "ystart (e * 400 + k) = e * 146097 + ystart k" "ystart (e * 400 + (k + 1)) = e * 146097 + ystart (k + 1)"
    by (simp_all only: ystart_era)
  moreover have "ystart k = 365 * k + k div 4 - k div 100" using k by (simp add: ystart_def)
  ultimately show "ystart (e * 400 + k) \<le> z" "z < ystart (e * 400 + k + 1)"
    "z - ystart (e * 400 + k) = x - (365 * k + k div 4 - k div 100)"
    using yoe_correct [OF assms(2,3,4)] assms(1) by (simp_all add: add.assoc)
qed

text \<open>\<open>civil_from_days\<close> in terms of the March year and the day inside it.\<close>

lemma civil_from_days_closed:
  obtains Y doy p where
    "z + 719468 = ystart Y + doy" "0 \<le> doy" "ystart Y + doy < ystart (Y + 1)"
    "p = (5 * doy + 2) div 153" "0 \<le> p" "p \<le> 11"
    "civil_from_days z = \<lparr>cd_y = to_i32 (Y + (if p < 10 then 0 else 1)),
       cd_m = (if p < 10 then p + 3 else p - 9), cd_d = doy - mstart p + 1\<rparr>"
proof -
  define z' where "z' = z + 719468"
  define e where "e = z' div 146097"
  define x where "x = z' - e * 146097"
  define k where "k = yoe_num x div 365"
  define Y where "Y = e * 400 + k"
  define doy where "doy = z' - ystart Y"
  define p where "p = (5 * doy + 2) div 153"
  have x: "0 \<le> x" "x < 146097" unfolding x_def e_def by (simp_all add: minus_div_mult_eq_mod)
  have zx: "z' = e * 146097 + x" by (simp add: x_def)
  have k: "0 \<le> k" "k < 400" using yoe_range [OF x] k_def by auto
  note era = era_of_days [OF zx x k_def, folded Y_def]
  have doy: "0 \<le> doy" "ystart Y + doy < ystart (Y + 1)" using era by (simp_all add: doy_def)
  have "doy \<le> 365" using doy ystart_Suc [of Y] by (simp split: if_splits)
  with doy have p: "0 \<le> p" "p \<le> 11" unfolding p_def using mp_range by auto
  have day: "0 < doy - mstart p + 1" "doy - mstart p + 1 \<le> 31"
    using mstart_inverse [OF p_def] mstart_step [of p] by simp_all
  have mon: "to_u32 (if p < 10 then p + 3 else p - 9) = (if p < 10 then p + 3 else p - 9)"
    "to_u32 (doy - mstart p + 1) = doy - mstart p + 1"
    using p day by (auto simp: cast_simps)
  have n0: "0 \<le> x - x div 1460 + x div 36524 - x div 146096" 
    using x yoe_range [OF x] by (simp add: yoe_num_def)
  have yoe: "(x - x sdiv 1460 + x sdiv 36524 - x sdiv 146096) sdiv 365 = k"
    using x n0 by (simp add: sdiv_nonneg k_def yoe_num_def)
  have dy: "x - (365 * k + k sdiv 4 - k sdiv 100) = doy"
    using era(3) k by (simp add: sdiv_nonneg doy_def)
  have mp: "(5 * doy + 2) sdiv 153 = p" "(153 * p + 2) sdiv 5 = mstart p"
    using doy p by (simp_all add: sdiv_nonneg p_def mstart_def)
  have "civil_from_days z = \<lparr>cd_y = to_i32 (Y + (if p < 10 then 0 else 1)),
       cd_m = (if p < 10 then p + 3 else p - 9), cd_d = doy - mstart p + 1\<rparr>"
    unfolding civil_from_days_def Let_def z'_def [symmetric] floor_div_eq [OF numeral_neq_zero]
      e_def [symmetric] x_def [symmetric] yoe dy mp mon
    using p by (auto simp: Y_def add.commute)
  moreover have "z + 719468 = ystart Y + doy" by (simp add: doy_def z'_def)
  ultimately show ?thesis using that [OF _ doy p_def p] by blast
qed

lemma march_month_lengths:
  assumes "1 \<le> m" "m \<le> 12" "m \<noteq> 2"
  shows "mstart (march_month m + 1) - mstart (march_month m) = days_in_month y m"
proof -
  have "m \<in> {1..12} - {2}" using assms by simp
  also have "{1..12} - {2::int} = {1,3,4,5,6,7,8,9,10,11,12}" by code_simp
  finally have "m = 1 \<or> m = 3 \<or> m = 4 \<or> m = 5 \<or> m = 6 \<or> m = 7 \<or> m = 8 \<or> m = 9 \<or> m = 10 \<or> m = 11 \<or> m = 12" by simp
  then show ?thesis
    by (elim disjE) (simp_all add: mstart_def march_month_def days_in_month_def dm_table_def)
qed

lemma february_length: "days_in_month y 2 = (if is_leap y then 29 else 28)"
  by (simp add: days_in_month_def)

lemma year_day_end:
  assumes "civil_valid y m d"
  shows "0 \<le> march_month m \<and> march_month m \<le> 11"
    "mstart (march_month m) \<le> mstart (march_month m) + d - 1"
    "mstart (march_month m) + d - 1 < mstart (march_month m + 1)"
    "ystart (march_year y m) + mstart (march_month m) + d - 1 < ystart (march_year y m + 1)"
proof -
  have m: "1 \<le> m" "m \<le> 12" "1 \<le> d" "d \<le> days_in_month y m" using assms by (auto simp: civil_valid_def)
  show "0 \<le> march_month m \<and> march_month m \<le> 11" using m by (auto simp: march_month_def)
  show "mstart (march_month m) \<le> mstart (march_month m) + d - 1" using m by simp
  show "mstart (march_month m) + d - 1 < mstart (march_month m + 1)"
  proof (cases "m = 2")
    case True
    then show ?thesis using m by (auto simp: february_length march_month_def mstart_def split: if_splits)
  next
    case False
    then show ?thesis using march_month_lengths [of m y] m by simp
  qed
  show "ystart (march_year y m) + mstart (march_month m) + d - 1 < ystart (march_year y m + 1)"
  proof (cases "m = 2")
    case True
    then show ?thesis using m ystart_Suc [of "y - 1"]
      by (auto simp: february_length march_month_def march_year_def mstart_def split: if_splits)
  next
    case False
    have "march_month m + 1 \<le> 11" using False m by (auto simp: march_month_def)
    then have "mstart (march_month m + 1) \<le> mstart 11" unfolding mstart_def by (intro zdiv_mono1) auto
    then have "mstart (march_month m) + days_in_month y m \<le> 337"
      using march_month_lengths [of m y] False m by (simp add: mstart_def)
    then show ?thesis using m ystart_Suc [of "march_year y m"] by (auto split: if_splits)
  qed
qed

lemma ystart_unique:
  assumes "ystart Y + a = ystart Y' + b" "0 \<le> a" "ystart Y + a < ystart (Y + 1)"
    "0 \<le> b" "ystart Y' + b < ystart (Y' + 1)"
  shows "Y = Y'"
proof (rule ccontr)
  assume "Y \<noteq> Y'"
  then consider "Y + 1 \<le> Y'" | "Y' + 1 \<le> Y" by linarith
  then show False
  proof cases
    case 1 then have "ystart (Y + 1) \<le> ystart Y'" by (rule ystart_mono)
    with assms show False by linarith
  next
    case 2 then have "ystart (Y' + 1) \<le> ystart Y" by (rule ystart_mono)
    with assms show False by linarith
  qed
qed

lemma civil_from_days_from_civil:
  assumes v: "civil_valid y m d" and y: "is_i32 y"
  shows "civil_from_days (days_from_civil y m d) = \<lparr>cd_y = y, cd_m = m, cd_d = d\<rparr>"
proof -
  have m: "1 \<le> m" "m \<le> 12" using v by (auto simp: civil_valid_def)
  let ?z = "days_from_civil y m d" and ?p = "march_month m"
  have z: "?z + 719468 = ystart (march_year y m) + (mstart ?p + d - 1)"
    using days_from_civil_closed [OF m(1)] by simp
  note ye = year_day_end [OF v]
  have doy0: "0 \<le> mstart ?p + d - 1" using ye(1,2) by (simp add: mstart_def) linarith
  show ?thesis
  proof (rule civil_from_days_closed [of ?z])
    fix Y doy p
    assume a: "?z + 719468 = ystart Y + doy" "0 \<le> doy" "ystart Y + doy < ystart (Y + 1)"
      "p = (5 * doy + 2) div 153"
      "civil_from_days ?z = \<lparr>cd_y = to_i32 (Y + (if p < 10 then 0 else 1)),
         cd_m = (if p < 10 then p + 3 else p - 9), cd_d = doy - mstart p + 1\<rparr>"
    have Y: "Y = march_year y m"
      using ystart_unique [of Y doy "march_year y m" "mstart ?p + d - 1"] a(1-3) z ye(4) doy0 by simp
    then have doy: "doy = mstart ?p + d - 1" using a(1) z by simp
    have p: "p = ?p" unfolding a(4) doy using ye(2,3) by (intro mstart_unique) auto
    show ?thesis unfolding a(5) p doy Y
      using m y by (auto simp: march_month_def march_year_def is_i32_def cast_simps)
  qed
qed

lemma civil_from_days_valid:
  assumes lo: "days_from_civil (-2147483648) 1 1 \<le> z" and hi: "z \<le> days_from_civil 2147483647 12 31"
  defines "c \<equiv> civil_from_days z"
  shows "civil_valid (cd_y c) (cd_m c) (cd_d c)" "is_i32 (cd_y c)"
    "days_from_civil (cd_y c) (cd_m c) (cd_d c) = z"
proof -
  obtain Y doy p where a: "z + 719468 = ystart Y + doy" "0 \<le> doy" "ystart Y + doy < ystart (Y + 1)"
      "p = (5 * doy + 2) div 153" "0 \<le> p" "p \<le> 11"
    and c: "c = \<lparr>cd_y = to_i32 (Y + (if p < 10 then 0 else 1)),
       cd_m = (if p < 10 then p + 3 else p - 9), cd_d = doy - mstart p + 1\<rparr>"
    unfolding c_def by (rule civil_from_days_closed)
  have lo': "ystart (-2147483649) + 306 \<le> ystart Y + doy"
    using lo a(1) by (simp add: days_from_civil_closed march_year_def march_month_def mstart_def)
  have hi': "ystart Y + doy \<le> ystart 2147483647 + 305"
    using hi a(1) by (simp add: days_from_civil_closed march_year_def march_month_def mstart_def)
  have Y1: "-2147483649 \<le> Y" 
  proof (rule ccontr)
    assume "\<not> -2147483649 \<le> Y"
    then have "ystart (Y + 1) \<le> ystart (-2147483649)" by (intro ystart_mono) simp
    with lo' a(3) show False by linarith
  qed
  have Y2: "Y \<le> 2147483647"
  proof (rule ccontr)
    assume "\<not> Y \<le> 2147483647"
    then have "ystart (2147483647 + 1) \<le> ystart Y" by (intro ystart_mono) simp
    with hi' a(2) ystart_Suc [of 2147483647] show False by (simp split: if_splits)
  qed
  have p10: "10 \<le> p" if "Y = -2147483649" using that lo' a(4) by simp
  have p9: "p < 10" if "Y = 2147483647" using that hi' a(4) by simp
  have yi: "is_i32 (Y + (if p < 10 then 0 else 1))"
    using Y1 Y2 p10 p9 by (cases "p < 10"; cases "Y = -2147483649"; cases "Y = 2147483647")
      (auto simp: is_i32_def)
  then have cy: "cd_y c = Y + (if p < 10 then 0 else 1)" 
    unfolding c is_i32_def by (simp add: to_i32_id)
  show "is_i32 (cd_y c)" using yi by (simp add: cy)
  have mm: "march_month (cd_m c) = p" "march_year (cd_y c) (cd_m c) = Y" "1 \<le> cd_m c" "cd_m c \<le> 12"
    using a(5,6) cy by (auto simp: c march_month_def march_year_def)
  show "days_from_civil (cd_y c) (cd_m c) (cd_d c) = z"
    unfolding days_from_civil_closed [OF mm(3)] mm using a(1) by (simp add: c)
  have d: "1 \<le> cd_d c" "cd_d c \<le> mstart (p + 1) - mstart p"
    using mstart_inverse [OF a(4)] by (simp_all add: c)
  show "civil_valid (cd_y c) (cd_m c) (cd_d c)"
  proof (cases "cd_m c = 2")
    case True
    then have p: "p = 11" using mm(1) by (simp add: march_month_def)
    have "doy < (if is_leap (Y + 1) then 366 else 365)" using a(3) ystart_Suc [of Y] by simp
    then show ?thesis using d True cy p
      by (auto simp: civil_valid_def february_length c mstart_def split: if_splits)
  next
    case False
    then show ?thesis using d march_month_lengths [of "cd_m c" "cd_y c"] mm by (simp add: civil_valid_def)
  qed
qed

lemma days_from_civil_day: "1 \<le> m \<Longrightarrow> days_from_civil y m d = days_from_civil y m 1 + d - 1"
  by (simp add: days_from_civil_closed)

lemma days_from_civil_next_month:
  assumes "1 \<le> m" "m < 12"
  shows "days_from_civil y (m + 1) 1 = days_from_civil y m 1 + days_in_month y m"
proof (cases "m = 2")
  case True
  then show ?thesis using ystart_Suc [of "y - 1"]
    by (simp add: days_from_civil_closed march_year_def march_month_def february_length mstart_def)
next
  case False
  then have "march_month (m + 1) = march_month m + 1" "march_year y (m + 1) = march_year y m"
    using assms by (auto simp: march_month_def march_year_def)
  then show ?thesis using assms False march_month_lengths [of m y]
    by (simp add: days_from_civil_closed)
qed

lemma days_from_civil_next_year:
  "days_from_civil (y + 1) 1 1 = days_from_civil y 12 1 + 31"
  by (simp add: days_from_civil_closed march_year_def march_month_def mstart_def)

definition next_day :: "civil_date \<Rightarrow> civil_date" where
  "next_day c =
     (if cd_d c < days_in_month (cd_y c) (cd_m c) then c\<lparr>cd_d := cd_d c + 1\<rparr>
      else if cd_m c < 12 then c\<lparr>cd_m := cd_m c + 1, cd_d := 1\<rparr>
      else \<lparr>cd_y = cd_y c + 1, cd_m = 1, cd_d = 1\<rparr>)"

lemma days_in_month_pos: "1 \<le> m \<Longrightarrow> m \<le> 12 \<Longrightarrow> 28 \<le> days_in_month y m"
  using march_month_lengths [of m y] mstart_bounds [of "march_month m"]
    mstart_bounds_Suc [of "march_month m"]
  by (cases "m = 2") (auto simp: february_length)

lemma days_in_month_le: "1 \<le> m \<Longrightarrow> m \<le> 12 \<Longrightarrow> days_in_month y m \<le> 31"
proof -
  assume "1 \<le> m" "m \<le> 12"
  then have "m = 1 \<or> m = 2 \<or> m = 3 \<or> m = 4 \<or> m = 5 \<or> m = 6 \<or> m = 7 \<or> m = 8 \<or> m = 9 \<or> m = 10 \<or> m = 11 \<or> m = 12"
    by presburger
  then show ?thesis by (elim disjE) (simp_all add: days_in_month_def dm_table_def)
qed

lemma civil_valid_parts:
  assumes "civil_valid y m d"
  shows "1 \<le> m" "m \<le> 12" "1 \<le> d" "d \<le> days_in_month y m"
  using assms by (simp_all add: civil_valid_def)

lemma next_day_valid:
  assumes v: "civil_valid (cd_y c) (cd_m c) (cd_d c)"
  shows "civil_valid (cd_y (next_day c)) (cd_m (next_day c)) (cd_d (next_day c)) \<and>
    days_from_civil (cd_y (next_day c)) (cd_m (next_day c)) (cd_d (next_day c)) =
       days_from_civil (cd_y c) (cd_m c) (cd_d c) + 1"
proof -
  note m = civil_valid_parts [OF v]
  consider (same_month) "cd_d c < days_in_month (cd_y c) (cd_m c)"
    | (next_month) "\<not> cd_d c < days_in_month (cd_y c) (cd_m c)" "cd_m c < 12"
    | (next_year) "\<not> cd_d c < days_in_month (cd_y c) (cd_m c)" "\<not> cd_m c < 12" by blast
  then show ?thesis
  proof cases
    case same_month
    then have n: "next_day c = c\<lparr>cd_d := cd_d c + 1\<rparr>" by (simp only: next_day_def if_True)
    show ?thesis unfolding n using same_month m
        days_from_civil_day [OF m(1), of "cd_y c" "cd_d c"] days_from_civil_day [OF m(1), of "cd_y c" "cd_d c + 1"]
      by (simp add: civil_valid_def)
  next
    case next_month
    then have n: "next_day c = c\<lparr>cd_m := cd_m c + 1, cd_d := 1\<rparr>"
      by (simp only: next_day_def if_True if_False)
    have "28 \<le> days_in_month (cd_y c) (cd_m c + 1)"
      using m next_month by (intro days_in_month_pos) linarith+
    then show ?thesis unfolding n using next_month m
        days_from_civil_day [OF m(1), of "cd_y c" "cd_d c"] days_from_civil_next_month [OF m(1), of "cd_y c"]
      by (simp add: civil_valid_def)
  next
    case next_year
    then have n: "next_day c = \<lparr>cd_y = cd_y c + 1, cd_m = 1, cd_d = 1\<rparr>"
      by (simp only: next_day_def if_False)
    have e: "cd_m c = 12" using next_year m by linarith
    have "cd_d c = 31" using next_year m unfolding e by (simp add: days_in_month_def dm_table_def)
    then show ?thesis unfolding n e
      using days_from_civil_day [of 12 "cd_y c" 31] days_from_civil_next_year [of "cd_y c"]
      by (simp add: civil_valid_def days_in_month_def dm_table_def)
  qed
qed

lemma days_from_civil_mono_year:
  assumes "civil_valid y m d"
  shows "days_from_civil y 1 1 \<le> days_from_civil y m d" "days_from_civil y m d \<le> days_from_civil y 12 31"
    "days_from_civil y 12 31 - days_from_civil y 1 1 = days_in_year y - 1"
proof -
  have m: "1 \<le> m" "m \<le> 12" "1 \<le> d" "d \<le> days_in_month y m" using assms by (auto simp: civil_valid_def)
  note ye = year_day_end [OF assms]
  have p: "mstart (march_month m) \<le> mstart 11" "0 \<le> mstart (march_month m)"
    using ye(1) unfolding mstart_def by (auto intro: zdiv_mono1)
  have p9: "mstart (march_month m + 1) \<le> mstart 10" if "3 \<le> m"
    using that m unfolding mstart_def march_month_def by (intro zdiv_mono1) auto
  have p10: "mstart 10 \<le> mstart (march_month m)" if "m \<le> 2"
    using that m unfolding mstart_def march_month_def by (intro zdiv_mono1) auto
  have y: "ystart y = ystart (y - 1) + days_in_year y" 
    using ystart_Suc [of "y - 1"] by (simp add: days_in_year_def)
  have d: "365 \<le> days_in_year y" by (simp add: days_in_year_def)
  show "days_from_civil y 1 1 \<le> days_from_civil y m d"
    using m p p10 y d ye(2)
    by (cases "m \<le> 2") (auto simp: days_from_civil_closed march_year_def march_month_def mstart_def)
  show "days_from_civil y m d \<le> days_from_civil y 12 31"
    using m p9 y ye(3,4)
    by (cases "m \<le> 2") (auto simp: days_from_civil_closed march_year_def march_month_def mstart_def)
  show "days_from_civil y 12 31 - days_from_civil y 1 1 = days_in_year y - 1"
    using y by (simp add: days_from_civil_closed march_year_def march_month_def mstart_def)
qed

lemma is_i32_if_days:
  assumes "days_from_civil y 1 1 \<le> days_from_civil 2147483647 12 31"
    "days_from_civil (-2147483648) 1 1 \<le> days_from_civil y 12 31"
  shows "is_i32 y"
proof -
  have "ystart (y - 1) < ystart 2147483647" "ystart (-2147483649) < ystart y"
    using assms by (simp_all add: days_from_civil_closed march_year_def march_month_def mstart_def)
  then have "\<not> 2147483647 \<le> y - 1" "\<not> y \<le> -2147483649"
    using ystart_mono [of 2147483647 "y - 1"] ystart_mono [of y "-2147483649"] by linarith+
  then show ?thesis by (simp add: is_i32_def)
qed

lemma days_before_month:
  assumes "1 \<le> m" "m \<le> 12"
  shows "days_from_civil y m 1 - days_from_civil y 1 1 = (\<Sum>k\<in>{1..<m}. days_in_month y k)"
  using assms
proof (induction m rule: int_ge_induct)
  case base
  then show ?case by simp
next
  case (step i)
  have "{1..<i + 1} = insert i {1..<i}" using step.hyps by auto
  then show ?case using step days_from_civil_next_month [of i y] by simp
qed

lemma day_of_year_sum:
  assumes v: "civil_valid y m d"
  shows "day_of_year y m d = (\<Sum>k\<in>{1..<m}. days_in_month y k) + d"
    and "1 \<le> day_of_year y m d \<and> day_of_year y m d \<le> days_in_year y"
proof -
  have m: "1 \<le> m" "m \<le> 12" using v by (auto simp: civil_valid_def)
  note mono = days_from_civil_mono_year [OF v]
  have "days_in_year y \<le> 366" by (simp add: days_in_year_def)
  then have eq: "day_of_year y m d = days_from_civil y m d - days_from_civil y 1 1 + 1"
    using mono by (simp add: day_of_year_def to_u32_id)
  show "day_of_year y m d = (\<Sum>k\<in>{1..<m}. days_in_month y k) + d"
    unfolding eq days_before_month [OF m, of y, symmetric] using days_from_civil_day [OF m(1), of y d] by simp
  show "1 \<le> day_of_year y m d \<and> day_of_year y m d \<le> days_in_year y"
    unfolding eq using mono by simp
qed

lemma weekday_from_days_eq: "weekday_from_days z = (z + 4) mod 7"
proof -
  have "0 \<le> (z + 4) mod 7" "(z + 4) mod 7 < 7" by simp_all
  then show ?thesis by (simp add: weekday_from_days_def floor_mod_eq to_u32_id)
qed

text \<open>The Monday of ISO week 1: the Monday of the week that holds 4 January.\<close>

definition iso_week1_monday :: "int \<Rightarrow> int" where
  "iso_week1_monday y = (let j = days_from_civil y 1 4 in j - (j + 3) mod 7)"

lemma iso_week_arith:
  assumes "j \<le> 7 * (t::int)"
  shows "7 * t - 3 = (j + 3 - (j + 3 + 3) mod 7) + 7 * ((7 * t - j) div 7)"
  using assms by presburger

lemma iso_week_date_correct:
  assumes v: "civil_valid y m d" and y: "-2147483648 < y" "y < 2147483647"
  defines "w \<equiv> iso_week_date y m d"
  shows "1 \<le> iw_weekday w \<and> iw_weekday w \<le> 7" "1 \<le> iw_week w \<and> iw_week w \<le> 53"
    "days_from_civil y m d = iso_week1_monday (iw_year w) + 7 * (iw_week w - 1) + (iw_weekday w - 1)"
proof -
  define z where "z = days_from_civil y m d"
  define wd where "wd = (z + 3) mod 7 + 1"
  have wd: "1 \<le> wd" "wd \<le> 7" unfolding wd_def
    using pos_mod_sign [of 7 "z + 3"] pos_mod_bound [of 7 "z + 3"] by linarith+
  have wdc: "to_u32 (to_u32 (floor_mod (z + 3) 7) + 1) = wd"
    using wd unfolding wd_def by (simp add: floor_mod_eq to_u32_id)
  define th where "th = z + (4 - wd)"
  have th7: "th = 7 * ((z + 3) div 7)" unfolding th_def wd_def using div_mult_mod_eq [of "z + 3" 7] by linarith
  note mono = days_from_civil_mono_year [OF v]
  have "days_from_civil (-2147483648) 1 1 + 3 \<le> days_from_civil y 1 1"
    "days_from_civil y 12 31 + 3 \<le> days_from_civil 2147483647 12 31"
    using ystart_mono [of "-2147483648" "y - 1"] ystart_mono [of y "2147483646"] y
    by (simp_all add: days_from_civil_closed march_year_def march_month_def ystart_def)
  then have rng: "days_from_civil (-2147483648) 1 1 \<le> th" "th \<le> days_from_civil 2147483647 12 31"
    using mono wd unfolding th_def z_def by linarith+
  define c where "c = civil_from_days th"
  note cv = civil_from_days_valid [OF rng, folded c_def]
  define j where "j = days_from_civil (cd_y c) 1 1"
  have j: "j \<le> th" "th - j \<le> 365"
    using days_from_civil_mono_year [OF cv(1)] cv(3) unfolding j_def days_in_year_def
    by (auto split: if_splits)
  have wk: "to_u32 ((th - j) sdiv 7 + 1) = (th - j) div 7 + 1"
    using j by (simp add: sdiv_nonneg to_u32_id)
  have w: "iw_year w = cd_y c" "iw_week w = (th - j) div 7 + 1" "iw_weekday w = wd"
    unfolding w_def iso_week_date_def Let_def z_def [symmetric] wdc th_def [symmetric]
      c_def [symmetric] j_def [symmetric] wk by simp_all
  show "1 \<le> iw_weekday w \<and> iw_weekday w \<le> 7" using wd by (simp add: w)
  show "1 \<le> iw_week w \<and> iw_week w \<le> 53" using j unfolding w by linarith
  have "days_from_civil (cd_y c) 1 4 = j + 3" using days_from_civil_day [of 1 "cd_y c" 4] by (simp add: j_def)
  then have "iso_week1_monday (cd_y c) = j + 3 - (j + 3 + 3) mod 7" by (simp add: iso_week1_monday_def)
  then show "days_from_civil y m d = iso_week1_monday (iw_year w) + 7 * (iw_week w - 1) + (iw_weekday w - 1)"
    using iso_week_arith [of j "(z + 3) div 7"] j(1) th7 unfolding w z_def [symmetric] by (simp add: th_def)
qed

subsection \<open>Properties\<close>

text \<open>For every day number whose year fits 32 bits, \<open>civil_from_days\<close> yields a valid
  Gregorian date whose year needed no truncation, and \<open>days_from_civil\<close> maps that date back to
  the day number.\<close>

theorem civil_from_days_roundtrip:
  assumes "days_from_civil (-2147483648) 1 1 \<le> z" "z \<le> days_from_civil 2147483647 12 31"
  shows "civil_valid (cd_y (civil_from_days z)) (cd_m (civil_from_days z)) (cd_d (civil_from_days z)) \<and>
    is_i32 (cd_y (civil_from_days z)) \<and>
    days_from_civil (cd_y (civil_from_days z)) (cd_m (civil_from_days z))
      (cd_d (civil_from_days z)) = z"
  using civil_from_days_valid [OF assms] by simp

theorem civil_from_days_roundtrip_witness:
  "days_from_civil (cd_y (civil_from_days (-719469))) (cd_m (civil_from_days (-719469)))
     (cd_d (civil_from_days (-719469))) = -719469"
  using civil_from_days_roundtrip [of "-719469"] by (simp add: days_from_civil_def floor_div_def)

text \<open>a valid date with a 32-bit year survives the trip to a day number and back.\<close>

theorem civil_date_roundtrip:
  assumes "civil_valid y m d" "is_i32 y"
  shows "civil_from_days (days_from_civil y m d) = \<lparr>cd_y = y, cd_m = m, cd_d = d\<rparr>"
  using assms by (rule civil_from_days_from_civil)

theorem civil_date_roundtrip_witness:
  "civil_from_days (days_from_civil 2024 2 29) = \<lparr>cd_y = 2024, cd_m = 2, cd_d = 29\<rparr>"
  by (rule civil_date_roundtrip) (simp_all add: civil_valid_def days_in_month_def is_leap_def is_i32_def)

text \<open>C14: \<open>civil_from_days\<close> implements the calendar: day 0 is 1970-01-01, and the date of the
  following day is the calendar successor (next day of the month, else first of the next month,
  else New Year's Day), with the leap rule in the month lengths.\<close>

theorem civil_from_days_successor:
  assumes "days_from_civil (-2147483648) 1 1 \<le> z" "z < days_from_civil 2147483647 12 31"
  shows "civil_from_days 0 = \<lparr>cd_y = 1970, cd_m = 1, cd_d = 1\<rparr> \<and>
    civil_from_days (z + 1) = next_day (civil_from_days z)"
proof -
  let ?c = "civil_from_days z"
  have v: "civil_valid (cd_y ?c) (cd_m ?c) (cd_d ?c)" "days_from_civil (cd_y ?c) (cd_m ?c) (cd_d ?c) = z"
    using civil_from_days_valid [of z] assms by auto
  have n: "civil_valid (cd_y (next_day ?c)) (cd_m (next_day ?c)) (cd_d (next_day ?c))"
    "days_from_civil (cd_y (next_day ?c)) (cd_m (next_day ?c)) (cd_d (next_day ?c)) = z + 1"
    using next_day_valid [OF v(1)] v(2) by simp_all
  have "is_i32 (cd_y (next_day ?c))"
    using days_from_civil_mono_year(1,2) [OF n(1)] n(2) assms by (intro is_i32_if_days) linarith+
  then have "civil_from_days (z + 1) = next_day ?c"
    using civil_from_days_from_civil [OF n(1)] n(2) by simp
  moreover have "civil_from_days 0 = \<lparr>cd_y = 1970, cd_m = 1, cd_d = 1\<rparr>"
    by code_simp
  ultimately show ?thesis by blast
qed

theorem civil_from_days_successor_witness:
  "civil_from_days 19782 = next_day (civil_from_days 19781)"
  using civil_from_days_successor [of 19781] by (simp add: days_from_civil_def floor_div_def)

text \<open>The ISO week date of a valid date has a weekday in 1..7 and a week in 1..53, and it
  denotes the date: counting from the Monday of the week that holds 4 January of the ISO year
  gives the same day.\<close>

theorem iso_week_date_denotes:
  assumes "civil_valid y m d" "-2147483648 < y" "y < 2147483647"
  shows "iw_weekday (iso_week_date y m d) \<in> {1..7} \<and> iw_week (iso_week_date y m d) \<in> {1..53} \<and>
    days_from_civil y m d = iso_week1_monday (iw_year (iso_week_date y m d)) +
      7 * (iw_week (iso_week_date y m d) - 1) + (iw_weekday (iso_week_date y m d) - 1)"
  using iso_week_date_correct [OF assms] by simp

theorem iso_week_date_denotes_witness:
  "iw_week (iso_week_date 2021 1 3) \<in> {1..53}"
  using iso_week_date_denotes [of 2021 1 3] by (simp add: civil_valid_def days_in_month_def dm_table_def)

text \<open>the ordinal day of a valid date is the sum of the lengths of the earlier months plus
  the day, and lies between 1 and the length of the year.\<close>

theorem day_of_year_is_month_sum:
  assumes "civil_valid y m d"
  shows "day_of_year y m d = (\<Sum>k\<in>{1..<m}. days_in_month y k) + d \<and>
    1 \<le> day_of_year y m d \<and> day_of_year y m d \<le> days_in_year y"
  using day_of_year_sum [OF assms] by simp

theorem day_of_year_is_month_sum_witness: "day_of_year 2024 12 31 \<le> days_in_year 2024"
  using day_of_year_is_month_sum [of 2024 12 31] by (simp add: civil_valid_def days_in_month_def dm_table_def)

end
