(* ===== verification/Chrono_Civil.thy ===== *)
theory Chrono_Civil
  imports Chrono_Calendar
begin

text \<open>
  Local civil time of \<^verbatim>\<open>src/src/chrono/civil.hpp\<close>: the broken-down time \<open>civil\<close>, the time-zone
  table with its binary search for the offset in force, and the conversions between seconds
  since the epoch and civil time in both directions.  A null pointer of the table is \<open>None\<close>.
\<close>

record civil =
  c_y :: i32
  c_mo :: u32
  c_d :: u32
  c_h :: u32
  c_mi :: u32
  c_s :: u32
  c_ns :: u32
  c_off :: i32

definition civil_default :: civil where
  "civil_default = \<lparr>c_y = 1970, c_mo = 1, c_d = 1, c_h = 0, c_mi = 0, c_s = 0, c_ns = 0, c_off = 0\<rparr>"

definition civil_is_valid :: "civil \<Rightarrow> bool" where
  "civil_is_valid c \<longleftrightarrow> civil_valid (c_y c) (c_mo c) (c_d c) \<and> c_h c < 24 \<and> c_mi c < 60 \<and>
     c_s c < 61 \<and> c_ns c < 1000000000"

definition civil_eq :: "civil \<Rightarrow> civil \<Rightarrow> bool" where
  "civil_eq c o' \<longleftrightarrow> c_y c = c_y o' \<and> c_mo c = c_mo o' \<and> c_d c = c_d o' \<and> c_h c = c_h o' \<and>
     c_mi c = c_mi o' \<and> c_s c = c_s o' \<and> c_ns c = c_ns o' \<and> c_off c = c_off o'"

record tz_table =
  tz_trans :: "i64 list option"
  tz_off :: "i32 list"
  tz_n :: nat
  tz_first :: i32
  tz_loaded :: bool

definition tz_default :: tz_table where
  "tz_default = \<lparr>tz_trans = None, tz_off = [], tz_n = 0, tz_first = 0, tz_loaded = False\<rparr>"

definition tz_make :: "i64 list \<Rightarrow> i32 list \<Rightarrow> nat \<Rightarrow> i32 \<Rightarrow> tz_table" where
  "tz_make t o' cnt before =
     \<lparr>tz_trans = Some t, tz_off = o', tz_n = cnt, tz_first = before, tz_loaded = True\<rparr>"

definition tz_fixed :: "i32 \<Rightarrow> tz_table" where
  "tz_fixed offset_sec = tz_default\<lparr>tz_first := offset_sec, tz_loaded := True\<rparr>"

definition tz_utc :: tz_table where
  "tz_utc = tz_fixed 0"

text \<open>The search loop of \<open>offset_at\<close>: the last index in \<open>lo..hi\<close> whose transition is not
  after \<open>utc\<close>.\<close>

function offset_search :: "i64 list \<Rightarrow> i64 \<Rightarrow> nat \<Rightarrow> nat \<Rightarrow> nat" where
  "offset_search tr utc lo hi =
     (if lo < hi
      then let mid = lo + (hi - lo + 1) div 2
           in if tr ! mid \<le> utc then offset_search tr utc mid hi
              else offset_search tr utc lo (mid - 1)
      else lo)"
  by pat_completeness auto
termination
  by (relation "measure (\<lambda>(tr, utc, lo, hi). hi - lo)") auto

declare offset_search.simps [simp del]

definition offset_at :: "tz_table \<Rightarrow> i64 \<Rightarrow> i32" where
  "offset_at t utc =
     (case tz_trans t of
        None \<Rightarrow> if tz_loaded t then tz_first t else 0
      | Some tr \<Rightarrow>
          if \<not> tz_loaded t \<or> tz_n t = 0 then (if tz_loaded t then tz_first t else 0)
          else if utc < tr ! 0 then tz_first t
          else tz_off t ! offset_search tr utc 0 (tz_n t - 1))"

definition to_civil :: "i64 \<Rightarrow> i32 \<Rightarrow> civil" where
  "to_civil utc_sec off =
     (let local = utc_sec + off;
          days = floor_div local 86400;
          rem = local - days * 86400;
          cd = civil_from_days days
      in civil_default\<lparr>c_y := cd_y cd, c_mo := cd_m cd, c_d := cd_d cd,
           c_h := to_u32 (rem sdiv 3600), c_mi := to_u32 ((rem smod 3600) sdiv 60),
           c_s := to_u32 (rem smod 60), c_ns := 0, c_off := off\<rparr>)"

definition to_civil_ns :: "i64 \<Rightarrow> i32 \<Rightarrow> u32 \<Rightarrow> civil" where
  "to_civil_ns utc_sec off nsec = (to_civil utc_sec off)\<lparr>c_ns := nsec\<rparr>"

definition to_civil_tz :: "tz_table \<Rightarrow> i64 \<Rightarrow> civil" where
  "to_civil_tz t utc_sec = to_civil utc_sec (offset_at t utc_sec)"

definition civil_utc :: "i64 \<Rightarrow> civil" where
  "civil_utc utc_sec = to_civil utc_sec 0"

record timespec_t =
  tv_sec :: i64
  tv_nsec :: i64

definition to_civil_ts :: "timespec_t \<Rightarrow> i32 \<Rightarrow> civil" where
  "to_civil_ts ts off = to_civil_ns (tv_sec ts) off (to_u32 (tv_nsec ts))"

definition civil_secs :: "civil \<Rightarrow> i64" where
  "civil_secs c = days_from_civil (c_y c) (c_mo c) (c_d c) * 86400 + c_h c * 3600 + c_mi c * 60 + c_s c"

definition from_civil :: "civil \<Rightarrow> tz_table \<Rightarrow> i64" where
  "from_civil c t =
     (let local = civil_secs c
      in if \<not> tz_loaded t \<or> tz_n t = 0 \<or> tz_trans t = None
         then local - (if tz_loaded t then tz_first t else 0)
         else
           let a = offset_at t (local - 86400);
               b = offset_at t (local + 86400);
               ca = local - a;
               cb = local - b;
               va = (offset_at t ca = a);
               vb = (offset_at t cb = b)
           in if va \<and> vb then (if ca < cb then ca else cb)
              else if va then ca
              else if vb then cb
              else if ca > cb then ca else cb)"

definition offset_hours :: "i32 \<Rightarrow> i32" where
  "offset_hours off_sec = off_sec sdiv 3600"

definition offset_minutes :: "i32 \<Rightarrow> i32" where
  "offset_minutes off_sec =
     (let mag = (if off_sec < 0 then - off_sec else off_sec) in to_i32 ((mag smod 3600) sdiv 60))"

definition offset_negative :: "i32 \<Rightarrow> bool" where
  "offset_negative off_sec \<longleftrightarrow> off_sec < 0"

definition weekday_of_civil :: "civil \<Rightarrow> u32" where
  "weekday_of_civil c = weekday_of (c_y c) (c_mo c) (c_d c)"

definition day_of_year_civil :: "civil \<Rightarrow> u32" where
  "day_of_year_civil c = day_of_year (c_y c) (c_mo c) (c_d c)"

definition iso_week_date_civil :: "civil \<Rightarrow> iso_week" where
  "iso_week_date_civil c = iso_week_date (c_y c) (c_mo c) (c_d c)"

subsection \<open>The offset search\<close>

lemma offset_search_correct:
  assumes "sorted tr" "lo \<le> hi" "hi < length tr" "tr ! lo \<le> utc"
    and "\<And>k. hi < k \<Longrightarrow> k < length tr \<Longrightarrow> utc < tr ! k"
  shows "lo \<le> offset_search tr utc lo hi \<and> offset_search tr utc lo hi \<le> hi \<and>
    tr ! offset_search tr utc lo hi \<le> utc \<and>
    (\<forall>k. offset_search tr utc lo hi < k \<longrightarrow> k < length tr \<longrightarrow> utc < tr ! k)"
  using assms
proof (induction tr utc lo hi rule: offset_search.induct)
  case (1 tr utc lo hi)
  show ?case
  proof (cases "lo < hi")
    case False
    then have "offset_search tr utc lo hi = lo" by (simp add: offset_search.simps [of tr utc lo hi])
    then show ?thesis using 1 False by auto
  next
    case True
    define mid where "mid = lo + (hi - lo + 1) div 2"
    have mid: "lo < mid" "mid \<le> hi" using True unfolding mid_def by linarith+
    show ?thesis
    proof (cases "tr ! mid \<le> utc")
      case left: True
      have "offset_search tr utc lo hi = offset_search tr utc mid hi"
        using True left unfolding mid_def by (subst offset_search.simps) (simp only: Let_def if_True)
      with "1.IH"(1) [OF True mid_def left] "1.prems" mid left show ?thesis
        by (metis le_trans less_imp_le_nat)
    next
      case right: False
      have "utc < tr ! k" if k: "mid - 1 < k" "k < length tr" for k
      proof -
        have "mid \<le> k" using k mid by linarith
        then have "tr ! mid \<le> tr ! k" by (rule sorted_nth_mono [OF "1.prems"(1) _ k(2)])
        then show ?thesis using right by simp
      qed
      moreover have "offset_search tr utc lo hi = offset_search tr utc lo (mid - 1)"
        using True right unfolding mid_def by (subst offset_search.simps) (simp only: Let_def if_True if_False)
      moreover have "lo \<le> mid - 1" "mid - 1 < length tr" "mid - 1 \<le> hi" using mid "1.prems" by auto
      ultimately show ?thesis
        using "1.IH"(2) [OF True mid_def right] "1.prems" by (metis le_trans)
    qed
  qed
qed

definition tz_wf :: "tz_table \<Rightarrow> bool" where
  "tz_wf t \<longleftrightarrow> tz_loaded t \<and>
     (\<exists>tr. tz_trans t = Some tr \<and> tz_n t = length tr \<and> length (tz_off t) = length tr \<and> sorted tr)"

text \<open>What a transition table means: the offset of the last transition not after the instant,
  or the initial offset before the first one.\<close>

definition offset_rule :: "i64 list \<Rightarrow> i32 list \<Rightarrow> i32 \<Rightarrow> i64 \<Rightarrow> i32" where
  "offset_rule tr offs first utc =
     (let k = length (filter (\<lambda>x. x \<le> utc) tr) in if k = 0 then first else offs ! (k - 1))"

lemma filter_le_split:
  assumes "sorted tr" "s < length tr" "tr ! s \<le> utc"
    "\<And>k. s < k \<Longrightarrow> k < length tr \<Longrightarrow> utc < tr ! k"
  shows "length (filter (\<lambda>x. x \<le> utc) tr) = Suc s"
proof -
  have "x \<le> utc" if x: "x \<in> set (take (Suc s) tr)" for x
  proof -
    obtain i where i: "i < Suc s" "x = tr ! i"
      using x assms(2) by (auto simp: in_set_conv_nth)
    then show ?thesis using sorted_nth_mono [OF assms(1), of i s] assms(2,3) by simp
  qed
  then have "filter (\<lambda>x. x \<le> utc) (take (Suc s) tr) = take (Suc s) tr" by (simp add: filter_True)
  moreover have "utc < x" if "x \<in> set (drop (Suc s) tr)" for x
  proof -
    obtain i where "i < length (drop (Suc s) tr)" "x = drop (Suc s) tr ! i"
      using \<open>x \<in> set (drop (Suc s) tr)\<close> by (metis in_set_conv_nth)
    then show ?thesis using assms(2) by (auto intro!: assms(4))
  qed
  then have "filter (\<lambda>x. x \<le> utc) (drop (Suc s) tr) = []" by (auto simp: filter_empty_conv not_le)
  ultimately have "filter (\<lambda>x. x \<le> utc) (take (Suc s) tr @ drop (Suc s) tr) = take (Suc s) tr"
    by (simp only: filter_append append_Nil2)
  then show ?thesis using assms(2) by simp
qed

lemma offset_at_rule:
  assumes "tz_trans t = Some tr" "tz_loaded t" "tz_n t = length tr" "sorted tr"
  shows "offset_at t utc = offset_rule tr (tz_off t) (tz_first t) utc"
proof (cases "tr = [] \<or> utc < tr ! 0")
  case True
  then have "filter (\<lambda>x. x \<le> utc) tr = []"
    using sorted_nth_mono [OF assms(4), of 0] by (fastforce simp: filter_empty_conv in_set_conv_nth)
  then show ?thesis using True assms by (auto simp: offset_at_def offset_rule_def)
next
  case False
  define s where "s = offset_search tr utc 0 (length tr - 1)"
  have s: "s \<le> length tr - 1" "tr ! s \<le> utc" "\<And>k. s < k \<Longrightarrow> k < length tr \<Longrightarrow> utc < tr ! k"
    using offset_search_correct [of tr 0 "length tr - 1" utc] assms(4) False
    by (auto simp: s_def not_less)
  have "length (filter (\<lambda>x. x \<le> utc) tr) = Suc s"
  proof (rule filter_le_split [OF assms(4) _ s(2,3)])
    show "s < length tr" using s(1) False by (cases tr) auto
  qed
  then show ?thesis using False assms by (simp add: offset_at_def offset_rule_def s_def)
qed

subsection \<open>Seconds and civil time\<close>

definition secs_in_range :: "int \<Rightarrow> bool" where
  "secs_in_range l \<longleftrightarrow> days_from_civil (-2147483648) 1 1 * 86400 \<le> l \<and>
     l < (days_from_civil 2147483647 12 31 + 1) * 86400"

lemma day_split:
  fixes r :: int
  assumes "0 \<le> r" "r < 86400"
  shows "to_u32 (r sdiv 3600) = r div 3600" "to_u32 ((r smod 3600) sdiv 60) = r mod 3600 div 60"
    "to_u32 (r smod 60) = r mod 60" "r div 3600 * 3600 + r mod 3600 div 60 * 60 + r mod 60 = r"
    "r div 3600 < 24" "r mod 3600 div 60 < 60"
proof -
  have m: "0 \<le> r mod 3600" "r mod 3600 < 3600" "0 \<le> r mod 60" "r mod 60 < 60" by simp_all
  show "to_u32 (r sdiv 3600) = r div 3600" "r div 3600 < 24"
    using assms by (simp_all add: cdiv_simps to_u32_id)
  show "to_u32 ((r smod 3600) sdiv 60) = r mod 3600 div 60" "r mod 3600 div 60 < 60"
    using assms m by (simp_all add: cdiv_simps to_u32_id)
  show "to_u32 (r smod 60) = r mod 60" using assms m by (simp add: cdiv_simps to_u32_id)
  have "r mod 3600 mod 60 = r mod 60" by (rule mod_mod_cancel) simp
  then show "r div 3600 * 3600 + r mod 3600 div 60 * 60 + r mod 60 = r"
    using div_mult_mod_eq [of r 3600] div_mult_mod_eq [of "r mod 3600" 60] by linarith
qed

lemma c_off_to_civil: "c_off (to_civil utc off) = off"
  by (simp add: to_civil_def Let_def)

lemma to_civil_fields:
  assumes "l = utc + off"
  shows "to_civil utc off =
    (let cd = civil_from_days (l div 86400); r = l mod 86400 in
     \<lparr>c_y = cd_y cd, c_mo = cd_m cd, c_d = cd_d cd, c_h = r div 3600, c_mi = r mod 3600 div 60,
      c_s = r mod 60, c_ns = 0, c_off = off\<rparr>)"
proof -
  have r: "l - l div 86400 * 86400 = l mod 86400" by (simp add: minus_div_mult_eq_mod)
  have b: "0 \<le> l mod 86400" "l mod 86400 < 86400" by simp_all
  show ?thesis
    unfolding to_civil_def Let_def assms [symmetric] floor_div_eq [OF numeral_neq_zero] r
      day_split(1-3) [OF b] civil_default_def by simp
qed

lemma secs_in_range_day:
  assumes "secs_in_range l"
  shows "days_from_civil (-2147483648) 1 1 \<le> l div 86400" "l div 86400 \<le> days_from_civil 2147483647 12 31"
proof -
  have "l div 86400 * 86400 \<le> l" using div_mult_mod_eq [of l 86400] pos_mod_sign [of 86400 l] by linarith
  then have "l div 86400 * 86400 < (days_from_civil 2147483647 12 31 + 1) * 86400"
    using assms unfolding secs_in_range_def by (elim conjE) (rule le_less_trans)
  then have "l div 86400 < days_from_civil 2147483647 12 31 + 1" by (simp only: mult_less_cancel_right)
  then show "l div 86400 \<le> days_from_civil 2147483647 12 31" by simp
  have "days_from_civil (-2147483648) 1 1 * 86400 div 86400 \<le> l div 86400"
    using assms unfolding secs_in_range_def by (intro zdiv_mono1) auto
  then show "days_from_civil (-2147483648) 1 1 \<le> l div 86400" by simp
qed

lemma civil_secs_to_civil:
  assumes "secs_in_range (utc + off)"
  shows "civil_secs (to_civil utc off) = utc + off"
proof -
  define l where "l = utc + off"
  note rng = secs_in_range_day [OF assms, folded l_def]
  have b: "0 \<le> l mod 86400" "l mod 86400 < 86400" by simp_all
  have "civil_secs (to_civil utc off) = l div 86400 * 86400 + (l mod 86400)"
    unfolding to_civil_fields [OF l_def] Let_def civil_secs_def
    using civil_from_days_valid(3) [OF rng] day_split(4) [OF b] by (simp add: add.assoc)
  then show ?thesis by (simp add: l_def)
qed

lemma to_civil_is_valid:
  assumes "secs_in_range (utc + off)"
  shows "civil_is_valid (to_civil utc off) \<and> c_s (to_civil utc off) < 60"
proof -
  define l where "l = utc + off"
  note rng = secs_in_range_day [OF assms, folded l_def]
  have b: "0 \<le> l mod 86400" "l mod 86400 < 86400" by simp_all
  have s: "l mod 86400 mod 60 < 60" by simp
  show ?thesis
    unfolding to_civil_fields [OF l_def] Let_def civil_is_valid_def
    using civil_from_days_valid(1) [OF rng] day_split(5,6) [OF b] s by simp
qed

definition civil_wf :: "civil \<Rightarrow> bool" where
  "civil_wf c \<longleftrightarrow> is_i32 (c_y c) \<and> 0 \<le> c_h c \<and> 0 \<le> c_mi c \<and> 0 \<le> c_s c \<and> 0 \<le> c_ns c \<and> is_i32 (c_off c)"

lemma day_parts:
  fixes h mi s :: int
  assumes "0 \<le> h" "h < 24" "0 \<le> mi" "mi < 60" "0 \<le> s" "s < 60" and l: "l = D * 86400 + h * 3600 + mi * 60 + s"
  shows "l div 86400 = D" "l mod 86400 div 3600 = h" "l mod 86400 mod 3600 div 60 = mi"
    "l mod 86400 mod 60 = s"
proof -
  have r: "0 \<le> h * 3600 + mi * 60 + s" "h * 3600 + mi * 60 + s < 86400" using assms by linarith+
  have "l = 86400 * D + (h * 3600 + mi * 60 + s)" using l by simp
  from int_div_pos_eq [OF this r] int_mod_pos_eq [OF this r]
  have q: "l div 86400 = D" "l mod 86400 = h * 3600 + mi * 60 + s" .
  show "l div 86400 = D" by (rule q)
  have r1: "0 \<le> mi * 60 + s" "mi * 60 + s < 3600" using assms by linarith+
  have e1: "l mod 86400 = 3600 * h + (mi * 60 + s)" using q by simp
  have q1: "l mod 86400 mod 3600 = mi * 60 + s" by (rule int_mod_pos_eq [OF e1 r1])
  show "l mod 86400 div 3600 = h" by (rule int_div_pos_eq [OF e1 r1])
  show "l mod 86400 mod 3600 div 60 = mi"
    by (rule int_div_pos_eq [of _ 60 mi s]) (use q1 assms in simp_all)
  show "l mod 86400 mod 60 = s"
    by (rule int_mod_pos_eq [of _ 60 "h * 60 + mi" s]) (use q assms in simp_all)
qed

lemma to_civil_civil_secs:
  assumes wf: "civil_wf c" and v: "civil_is_valid c" and s: "c_s c < 60"
  shows "to_civil_ns (civil_secs c - c_off c) (c_off c) (c_ns c) = c"
proof -
  define l where "l = civil_secs c - c_off c + c_off c"
  have l: "l = days_from_civil (c_y c) (c_mo c) (c_d c) * 86400 + c_h c * 3600 + c_mi c * 60 + c_s c"
    by (simp add: l_def civil_secs_def)
  have hv: "0 \<le> c_h c" "c_h c < 24" "0 \<le> c_mi c" "c_mi c < 60" "0 \<le> c_s c" "c_s c < 60"
    using wf v s by (auto simp: civil_wf_def civil_is_valid_def)
  note p = day_parts [OF hv l]
  have cd: "civil_from_days (days_from_civil (c_y c) (c_mo c) (c_d c)) =
      \<lparr>cd_y = c_y c, cd_m = c_mo c, cd_d = c_d c\<rparr>"
    using civil_from_days_from_civil wf v by (simp add: civil_wf_def civil_is_valid_def)
  show ?thesis unfolding to_civil_ns_def to_civil_fields [OF l_def] Let_def p cd by simp
qed

subsection \<open>From local time back to UTC\<close>

text \<open>\<open>utc\<close> shows the local reading \<open>local\<close> under the table.\<close>

definition denotes_local :: "tz_table \<Rightarrow> i64 \<Rightarrow> i64 \<Rightarrow> bool" where
  "denotes_local t utc local \<longleftrightarrow> utc + offset_at t utc = local"

definition offsets_within_day :: "tz_table \<Rightarrow> bool" where
  "offsets_within_day t \<longleftrightarrow> \<bar>tz_first t\<bar> < 86400 \<and> (\<forall>x\<in>set (tz_off t). \<bar>x\<bar> < 86400)"

text \<open>Consecutive transitions lie more than two days apart, as in every zone of the tz database.\<close>

definition transitions_apart :: "tz_table \<Rightarrow> bool" where
  "transitions_apart t \<longleftrightarrow>
     (\<forall>tr. tz_trans t = Some tr \<longrightarrow> (\<forall>i. Suc i < length tr \<longrightarrow> tr ! i + 172800 < tr ! Suc i))"

lemma filter_le_mono: "x \<le> y \<Longrightarrow> length (filter (\<lambda>v. v \<le> x) tr) \<le> length (filter (\<lambda>v. v \<le> (y::int)) tr)"
  by (induction tr) auto

lemma filter_le_sorted_iff:
  assumes "sorted tr" "k < length tr"
  shows "k < length (filter (\<lambda>v. v \<le> x) tr) \<longleftrightarrow> tr ! k \<le> (x::int)"
  using assms
proof (induction tr arbitrary: k)
  case Nil
  then show ?case by simp
next
  case (Cons a tr)
  show ?case
  proof (cases "a \<le> x")
    case True
    then show ?thesis using Cons by (cases k) auto
  next
    case False
    then have e: "filter (\<lambda>v. v \<le> x) tr = []" using Cons.prems by (auto simp: filter_empty_conv)
    have "a \<le> (a # tr) ! k" using Cons.prems by (cases k) auto
    then show ?thesis using False e by auto
  qed
qed

text \<open>Inside a window of two days at most one transition falls, so the offset in force is the
  one at either end of the window.\<close>

lemma window_count:
  assumes "sorted tr" "\<And>i. Suc i < length tr \<Longrightarrow> tr ! i + 172800 < tr ! Suc i"
  shows "length (filter (\<lambda>v. v \<le> l + 86400) tr) \<le> Suc (length (filter (\<lambda>v. v \<le> l - (86400 :: int)) tr))"
proof (rule ccontr)
  assume a: "\<not> ?thesis"
  define k where "k = length (filter (\<lambda>v. v \<le> l - 86400) tr)"
  have k: "Suc k < length (filter (\<lambda>v. v \<le> l + 86400) tr)" using a by (simp add: k_def)
  then have len: "Suc k < length tr" using length_filter_le [of _ tr] by (metis less_le_trans)
  have "tr ! Suc k \<le> l + 86400" using filter_le_sorted_iff [OF assms(1) len] k by simp
  moreover have "\<not> tr ! k \<le> l - 86400" using filter_le_sorted_iff [OF assms(1), of k "l - 86400"] len by (simp add: k_def)
  moreover have "tr ! k + 172800 < tr ! Suc k" using assms(2) len by simp
  ultimately show False by linarith
qed

lemma window_offsets:
  assumes tr: "tz_trans t = Some tr" "tz_loaded t" "tz_n t = length tr" "sorted tr"
    and ap: "transitions_apart t" and w: "l - 86400 \<le> u" "u \<le> l + 86400"
  shows "offset_at t u = offset_at t (l - 86400) \<or> offset_at t u = offset_at t (l + 86400)"
proof -
  define N where "N x = length (filter (\<lambda>v. v \<le> x) tr)" for x :: int
  have mono: "N (l - 86400) \<le> N u" "N u \<le> N (l + 86400)" unfolding N_def using w by (auto intro: filter_le_mono)
  have "N (l + 86400) \<le> Suc (N (l - 86400))"
    unfolding N_def using ap tr(1) by (intro window_count [OF tr(4)]) (simp add: transitions_apart_def)
  then have "N u = N (l - 86400) \<or> N u = N (l + 86400)" using mono by linarith
  then show ?thesis unfolding offset_at_rule [OF tr] offset_rule_def N_def by (auto simp: Let_def)
qed

text \<open>When the offsets at the ends differ there is a transition in the window, and the offset is the first before it and the second from it on.\<close>

lemma window_transition:
  assumes tr: "tz_trans t = Some tr" "tz_loaded t" "tz_n t = length tr" "sorted tr"
    and ap: "transitions_apart t" and ne: "offset_at t (l - 86400) \<noteq> offset_at t (l + 86400)"
  obtains T where "l - 86400 < T" "T \<le> l + 86400"
    "\<And>u. l - 86400 \<le> u \<Longrightarrow> u < T \<Longrightarrow> offset_at t u = offset_at t (l - 86400)"
    "\<And>u. T \<le> u \<Longrightarrow> u \<le> l + 86400 \<Longrightarrow> offset_at t u = offset_at t (l + 86400)"
proof -
  define N where "N x = length (filter (\<lambda>v. v \<le> x) tr)" for x :: int
  have mono: "N x \<le> N y" if "x \<le> y" for x y unfolding N_def using that by (rule filter_le_mono)
  have off: "offset_at t x = offset_at t y" if "N x = N y" for x y
    using that unfolding offset_at_rule [OF tr] offset_rule_def N_def by simp
  define k where "k = N (l - 86400)"
  have "N (l + 86400) \<le> Suc k"
    unfolding N_def k_def using ap tr(1) by (intro window_count [OF tr(4)]) (simp add: transitions_apart_def)
  then have Sk: "N (l + 86400) = Suc k" using ne off [of "l - 86400" "l + 86400"] mono [of "l - 86400" "l + 86400"] by (fastforce simp: k_def)
  then have len: "k < length tr" unfolding N_def using length_filter_le [of _ tr] by (metis Suc_le_lessD)
  have iff: "k < N x \<longleftrightarrow> tr ! k \<le> x" for x unfolding N_def by (rule filter_le_sorted_iff [OF tr(4) len])
  show ?thesis
  proof (rule that [of "tr ! k"])
    show "l - 86400 < tr ! k" using iff [of "l - 86400"] by (simp add: k_def)
    show "tr ! k \<le> l + 86400" using iff [of "l + 86400"] Sk by simp
    show "offset_at t u = offset_at t (l - 86400)" if "l - 86400 \<le> u" "u < tr ! k" for u
      using iff [of u] mono [OF that(1)] that(2) by (intro off) (simp add: k_def)
    show "offset_at t u = offset_at t (l + 86400)" if "tr ! k \<le> u" "u \<le> l + 86400" for u
      using iff [of u] mono [OF that(2)] that(1) Sk by (intro off) simp
  qed
qed

lemma offset_rule_within:
  assumes "\<bar>first\<bar> < 86400" "\<forall>x\<in>set offs. \<bar>x\<bar> < 86400" "length offs = length tr"
  shows "\<bar>offset_rule tr offs first u\<bar> < 86400"
proof (cases "filter (\<lambda>x. x \<le> u) tr = []")
  case True
  then show ?thesis using assms by (simp add: offset_rule_def)
next
  case False
  then have "length (filter (\<lambda>x. x \<le> u) tr) - 1 < length offs"
    using length_filter_le [of "\<lambda>x. x \<le> u" tr] assms(3) by (metis Suc_pred' diff_Suc_1 length_greater_0_conv less_le_trans lessI)
  then show ?thesis using False assms(2) by (simp add: offset_rule_def)
qed

lemma from_civil_unfold:
  assumes "tz_trans t = Some tr" "tz_loaded t" "tz_n t \<noteq> 0" "l = civil_secs c" "a = offset_at t (l - 86400)" "b = offset_at t (l + 86400)"
  shows "from_civil c t =
     (if offset_at t (l - a) = a \<and> offset_at t (l - b) = b then (if l - a < l - b then l - a else l - b)
      else if offset_at t (l - a) = a then l - a
      else if offset_at t (l - b) = b then l - b
      else if l - a > l - b then l - a else l - b)"
  unfolding from_civil_def Let_def using assms by simp

lemma offset_at_within:
  assumes "tz_wf t" "offsets_within_day t"
  shows "\<bar>offset_at t u\<bar> < 86400"
proof -
  obtain tr where tr: "tz_trans t = Some tr" "tz_loaded t" "tz_n t = length tr" "sorted tr"
    and len: "length (tz_off t) = length tr" using assms(1) by (auto simp: tz_wf_def)
  show ?thesis unfolding offset_at_rule [OF tr] using offset_rule_within assms(2) len by (simp add: offsets_within_day_def)
qed

lemma from_civil_denotes:
  assumes wf: "tz_wf t" and ne: "tz_n t \<noteq> 0" and day: "offsets_within_day t" and ap: "transitions_apart t"
    and u: "denotes_local t u (civil_secs c)"
  shows "denotes_local t (from_civil c t) (civil_secs c) \<and> from_civil c t \<le> u"
proof -
  obtain tr where tr: "tz_trans t = Some tr" "tz_loaded t" "tz_n t = length tr" "sorted tr" using wf by (auto simp: tz_wf_def)
  define l where "l = civil_secs c"
  note eq = from_civil_unfold [OF tr(1,2) ne l_def refl refl]
  have ul: "u = l - offset_at t u" using u by (simp add: denotes_local_def l_def)
  have "offset_at t u = offset_at t (l - 86400) \<or> offset_at t u = offset_at t (l + 86400)"
    using ul offset_at_within [OF wf day, of u] by (intro window_offsets [OF tr ap]) linarith+
  then show ?thesis unfolding eq denotes_local_def l_def [symmetric] using ul by auto
qed

text \<open>A local time that no instant shows was skipped by a transition; it is read with the offset in force before.\<close>

definition skipped_at :: "tz_table \<Rightarrow> i64 \<Rightarrow> i64 \<Rightarrow> bool" where
  "skipped_at t local T \<longleftrightarrow> T + offset_at t (T - 1) \<le> local \<and> local < T + offset_at t T"

lemma from_civil_gap:
  assumes wf: "tz_wf t" and ne: "tz_n t \<noteq> 0" and day: "offsets_within_day t" and ap: "transitions_apart t"
    and no: "\<nexists>u. denotes_local t u (civil_secs c)"
  shows "\<exists>T. skipped_at t (civil_secs c) T \<and> from_civil c t = civil_secs c - offset_at t (T - 1) \<and> T \<le> from_civil c t"
proof -
  obtain tr where tr: "tz_trans t = Some tr" "tz_loaded t" "tz_n t = length tr" "sorted tr" using wf by (auto simp: tz_wf_def)
  define l where "l = civil_secs c"
  define a where "a = offset_at t (l - 86400)"
  define b where "b = offset_at t (l + 86400)"
  have within: "\<bar>a\<bar> < 86400" "\<bar>b\<bar> < 86400" unfolding a_def b_def by (rule offset_at_within [OF wf day])+
  have off: "offset_at t (l - x) \<noteq> x" for x using no [unfolded not_ex, rule_format, of "l - x"] by (simp add: denotes_local_def l_def)
  have at: "offset_at t (l - x) = a \<or> offset_at t (l - x) = b" if "\<bar>x\<bar> < 86400" for x
    unfolding a_def b_def using that by (intro window_offsets [OF tr ap]) linarith+
  have ab: "offset_at t (l - a) = b" "offset_at t (l - b) = a" "a \<noteq> b" using off [of a] off [of b] at within by metis+
  obtain T where T: "l - 86400 < T" "T \<le> l + 86400" "\<And>u. l - 86400 \<le> u \<Longrightarrow> u < T \<Longrightarrow> offset_at t u = a"
    "\<And>u. T \<le> u \<Longrightarrow> u \<le> l + 86400 \<Longrightarrow> offset_at t u = b"
    using window_transition [OF tr ap, of l] ab(3) unfolding a_def b_def by blast
  have "T \<le> l - a" using T(3) [of "l - a"] ab within by fastforce
  moreover have "l - b < T" using T(4) [of "l - b"] ab within by fastforce
  moreover have "offset_at t (T - 1) = a" "offset_at t T = b" using T by simp_all
  moreover have "from_civil c t = l - a"
    using from_civil_unfold [OF tr(1,2) ne l_def a_def b_def] off calculation(1,2) by simp
  ultimately show ?thesis unfolding skipped_at_def l_def [symmetric] by (intro exI [of _ T]) simp
qed

subsection \<open>Properties\<close>

text \<open>Breaking an instant down into civil time gives valid fields (seconds below 60), and
  the civil reading, taken as seconds, is the instant shifted by the offset; so the instant is
  recovered exactly.\<close>

theorem to_civil_roundtrip:
  assumes "secs_in_range (utc + off)"
  shows "civil_is_valid (to_civil utc off) \<and> c_s (to_civil utc off) < 60 \<and>
    civil_secs (to_civil utc off) - c_off (to_civil utc off) = utc"
  using to_civil_is_valid [OF assms] civil_secs_to_civil [OF assms]
  by (simp add: c_off_to_civil)

theorem to_civil_roundtrip_witness: "civil_is_valid (to_civil 1723645331 7200)"
  using to_civil_roundtrip [of 1723645331 7200]
  by (simp add: secs_in_range_def days_from_civil_def floor_div_def)

text \<open>a valid civil time with seconds below 60 survives the trip through UTC seconds, all
  fields included.\<close>

theorem civil_time_roundtrip:
  assumes "civil_wf c" "civil_is_valid c" "c_s c < 60"
  shows "to_civil_ns (civil_secs c - c_off c) (c_off c) (c_ns c) = c"
  using assms by (rule to_civil_civil_secs)

theorem civil_time_roundtrip_witness:
  "to_civil_ns (civil_secs (civil_default\<lparr>c_h := 23, c_off := -3600\<rparr>) + 3600) (-3600) 0 =
     civil_default\<lparr>c_h := 23, c_off := -3600\<rparr>"
proof -
  have "civil_wf (civil_default\<lparr>c_h := 23, c_off := -3600\<rparr>)"
    "civil_is_valid (civil_default\<lparr>c_h := 23, c_off := -3600\<rparr>)"
    "c_s (civil_default\<lparr>c_h := 23, c_off := -3600\<rparr>) < 60"
    by code_simp+
  from civil_time_roundtrip [OF this] show ?thesis by (simp add: civil_default_def)
qed

text \<open>The binary search of \<open>offset_at\<close> finds the offset of the last transition that is not
  after the instant, or the initial offset when there is none.\<close>

theorem offset_at_last_transition:
  assumes "tz_trans t = Some tr" "tz_loaded t" "tz_n t = length tr" "sorted tr"
  shows "offset_at t utc = offset_rule tr (tz_off t) (tz_first t) utc"
  using assms by (rule offset_at_rule)

theorem offset_at_last_transition_witness:
  "offset_at (tz_make [100, 200, 300] [1, 2, 3] 3 0) 250 = 2"
  using offset_at_last_transition [of "tz_make [100, 200, 300] [1, 2, 3] 3 0" "[100, 200, 300]" 250]
  by (simp add: tz_make_def offset_rule_def)

text \<open>C26: For a table whose offsets are below a day and whose transitions lie more than two days apart: when some instant shows the local
  reading, \<open>from_civil\<close> returns such an instant, the earliest one if the reading is repeated.  When no instant shows it, a transition skipped it;
  \<open>from_civil\<close> then reads it with the offset in force before the transition, and the result is not before the transition, so it does not show the
  given reading.\<close>

theorem from_civil_earliest:
  assumes "tz_wf t" "tz_n t \<noteq> 0" "offsets_within_day t" "transitions_apart t"
  shows "if \<exists>u. denotes_local t u (civil_secs c)
    then denotes_local t (from_civil c t) (civil_secs c) \<and> (\<forall>u. denotes_local t u (civil_secs c) \<longrightarrow> from_civil c t \<le> u)
    else \<exists>T. skipped_at t (civil_secs c) T \<and> from_civil c t = civil_secs c - offset_at t (T - 1) \<and> T \<le> from_civil c t"
  using from_civil_denotes [OF assms] from_civil_gap [OF assms] by auto

text \<open>A table with a step back of an hour and, later, a step forward: 15:10 on 12 January 1970 is shown twice, 13:00 on 20 August is skipped.\<close>

definition tz_example :: tz_table where
  "tz_example = tz_make [1000000, 20000000] [3600, 7200] 2 7200"

lemma tz_example_offset: "offset_at tz_example u = (if u < 1000000 then 7200 else if u < 20000000 then 3600 else 7200)"
  by (simp add: tz_example_def tz_make_def offset_at_rule [of _ "[1000000, 20000000]"] offset_rule_def)

lemma tz_example_ok: "tz_wf tz_example" "tz_n tz_example \<noteq> 0" "offsets_within_day tz_example" "transitions_apart tz_example"
  by (auto simp: tz_example_def tz_make_def tz_wf_def offsets_within_day_def transitions_apart_def less_Suc_eq)

theorem from_civil_earliest_witness:
  "denotes_local tz_example (from_civil (civil_default\<lparr>c_d := 12, c_h := 15, c_mi := 10\<rparr>) tz_example) 1005000 \<and>
   from_civil (civil_default\<lparr>c_d := 12, c_h := 15, c_mi := 10\<rparr>) tz_example \<le> 997800 \<and>
   (\<exists>T. skipped_at tz_example 20005200 T \<and>
      from_civil (civil_default\<lparr>c_mo := 8, c_d := 20, c_h := 13\<rparr>) tz_example = 20005200 - offset_at tz_example (T - 1))"
proof -
  let ?c = "civil_default\<lparr>c_d := 12, c_h := 15, c_mi := 10\<rparr>" and ?g = "civil_default\<lparr>c_mo := 8, c_d := 20, c_h := 13\<rparr>"
  have secs: "civil_secs ?c = 1005000" "civil_secs ?g = 20005200"
    by (simp_all add: civil_secs_def civil_default_def days_from_civil_def floor_div_def)
  have twice: "denotes_local tz_example 997800 1005000" "denotes_local tz_example 1001400 1005000"
    by (simp_all add: denotes_local_def tz_example_offset)
  have "\<nexists>u. denotes_local tz_example u 20005200" by (auto simp: denotes_local_def tz_example_offset split: if_splits)
  then show ?thesis
    using from_civil_earliest [OF tz_example_ok, of ?c] from_civil_earliest [OF tz_example_ok, of ?g] twice unfolding secs
    by (auto split: if_splits)
qed

end
