(* ===== verification/Chrono_Format.thy ===== *)
theory Chrono_Format
  imports Chrono_Civil
begin

text \<open>
  The timestamp writers of \<^verbatim>\<open>src/src/chrono/format.hpp\<close>.  Every writer drives a bounded buffer
  \<open>wbuf\<close> that stores at most \<open>cap\<close> bytes but counts all of them, so the same code measures and
  writes.  A writer is a function on \<open>wbuf\<close>; \<open>wseq\<close> runs a statement list.  The lemmas show that
  every writer appends a string that does not depend on the buffer.
\<close>

subsection \<open>The bounded buffer\<close>

datatype offset_style = Os_none | Os_z_or_colon | Os_colon | Os_compact | Os_z_or_compact

datatype date_sep = Sep_iso_t | Sep_space | Sep_none

record wbuf =
  wb_p :: "char list"
  wb_cap :: nat
  wb_n :: nat

definition wbuf_make :: "char list \<Rightarrow> nat \<Rightarrow> wbuf" where
  "wbuf_make b c = \<lparr>wb_p = b, wb_cap = c, wb_n = 0\<rparr>"

definition put :: "char \<Rightarrow> wbuf \<Rightarrow> wbuf" where
  "put ch w =
     (let w' = (if wb_n w < wb_cap w then w\<lparr>wb_p := (wb_p w)[wb_n w := ch]\<rparr> else w)
      in w'\<lparr>wb_n := wb_n w' + 1\<rparr>)"

definition put_n :: "string \<Rightarrow> nat \<Rightarrow> wbuf \<Rightarrow> wbuf" where
  "put_n s k w = fold (\<lambda>i. put (s ! i)) [0..<k] w"

definition put_cstr :: "string option \<Rightarrow> wbuf \<Rightarrow> wbuf" where
  "put_cstr s w = (case s of None \<Rightarrow> w | Some str \<Rightarrow> fold put str w)"

text \<open>The digits of the do-while loop of \<open>put_u\<close>, least significant first.\<close>

fun tmp_digits :: "nat \<Rightarrow> char list" where
  "tmp_digits v =
     char_of (48 + v mod 10) # (if v div 10 \<noteq> 0 then tmp_digits (v div 10) else [])"

declare tmp_digits.simps [simp del]

definition put_u :: "nat \<Rightarrow> nat \<Rightarrow> char \<Rightarrow> wbuf \<Rightarrow> wbuf" where
  "put_u v width fill w =
     (let tmp = tmp_digits v;
          w1 = (put fill ^^ (width - length tmp)) w
      in fold put (rev tmp) w1)"

definition put_i :: "i64 \<Rightarrow> nat \<Rightarrow> char \<Rightarrow> wbuf \<Rightarrow> wbuf" where
  "put_i v width fill w =
     (if v < 0 then put_u (nat (to_u64 (to_u64 (- (v + 1)) + 1))) width fill (put (CHR ''-'') w)
      else put_u (nat (to_u64 v)) width fill w)"

definition wseq :: "(wbuf \<Rightarrow> wbuf) list \<Rightarrow> wbuf \<Rightarrow> wbuf" where
  "wseq ops w = fold (\<lambda>f. f) ops w"

subsection \<open>Pieces of a timestamp\<close>

definition put_year :: "i32 \<Rightarrow> wbuf \<Rightarrow> wbuf" where
  "put_year y w =
     (if 0 \<le> y \<and> y \<le> 9999 then put_u (nat (to_u64 y)) 4 (CHR ''0'') w
      else
        let w1 = put (if y < 0 then CHR ''-'' else CHR ''+'') w;
            mag = (if y < 0 then - y else y)
        in put_u (nat (to_u64 mag)) 4 (CHR ''0'') w1)"

definition put_subsec :: "u32 \<Rightarrow> nat \<Rightarrow> wbuf \<Rightarrow> wbuf" where
  "put_subsec ns digits0 w =
     (if digits0 = 0 then w
      else
        let digits = (if digits0 > 9 then 9 else digits0);
            scale = ((\<lambda>s. to_u32 (s * 10)) ^^ (9 - digits)) 1
        in put_u (nat (ns div scale)) digits (CHR ''0'') (put (CHR ''.'') w))"

definition put_offset :: "i32 \<Rightarrow> offset_style \<Rightarrow> wbuf \<Rightarrow> wbuf" where
  "put_offset off os w =
     (if os = Os_none then w
      else if off = 0 \<and> (os = Os_z_or_colon \<or> os = Os_z_or_compact) then put (CHR ''Z'') w
      else
        let w1 = put (if off < 0 then CHR ''-'' else CHR ''+'') w;
            mag = to_u32 (if off < 0 then - off else off);
            w2 = put_u (nat (mag div 3600)) 2 (CHR ''0'') w1;
            w3 = (if os = Os_z_or_colon \<or> os = Os_colon then put (CHR '':'') w2 else w2)
        in put_u (nat ((mag mod 3600) div 60)) 2 (CHR ''0'') w3)"

abbreviation put2 :: "u32 \<Rightarrow> wbuf \<Rightarrow> wbuf" where
  "put2 v \<equiv> put_u (nat v) 2 (CHR ''0'')"

abbreviation put_str :: "string \<Rightarrow> wbuf \<Rightarrow> wbuf" where
  "put_str s \<equiv> put_cstr (Some s)"

subsection \<open>The formats\<close>

definition iso8601_impl ::
  "char list \<Rightarrow> nat \<Rightarrow> civil \<Rightarrow> nat \<Rightarrow> date_sep \<Rightarrow> offset_style \<Rightarrow> wbuf" where
  "iso8601_impl buf cap c subsec_digits sep os =
     wseq [put_year (c_y c), put (CHR ''-''), put2 (c_mo c), put (CHR ''-''), put2 (c_d c),
       put (if sep = Sep_space then CHR '' '' else CHR ''T''),
       put2 (c_h c), put (CHR '':''), put2 (c_mi c), put (CHR '':''), put2 (c_s c),
       put_subsec (c_ns c) subsec_digits, put_offset (c_off c) os] (wbuf_make buf cap)"

definition wday_index :: "u32 \<Rightarrow> nat" where
  "wday_index wd = nat (if wd < 7 then wd else 0)"

definition mon_index :: "u32 \<Rightarrow> nat" where
  "mon_index mon = nat (if mon \<le> 12 then mon else 0)"

definition rfc2822_impl :: "char list \<Rightarrow> nat \<Rightarrow> civil \<Rightarrow> bool \<Rightarrow> wbuf" where
  "rfc2822_impl buf cap c gmt_literal =
     (let wd = weekday_of (c_y c) (c_mo c) (c_d c)
      in wseq [put_str (weekday_abbr ! wday_index wd), put (CHR '',''), put (CHR '' ''),
           put2 (c_d c), put (CHR '' ''), put_str (month_abbr ! mon_index (c_mo c)), put (CHR '' ''),
           put_i (c_y c) 4 (CHR ''0''), put (CHR '' ''), put2 (c_h c), put (CHR '':''),
           put2 (c_mi c), put (CHR '':''), put2 (c_s c), put (CHR '' ''),
           (if gmt_literal then put_str ''GMT'' else put_offset (c_off c) Os_compact)]
         (wbuf_make buf cap))"

definition asctime_ops :: "civil \<Rightarrow> (wbuf \<Rightarrow> wbuf) list" where
  "asctime_ops c =
     (let wd = weekday_of (c_y c) (c_mo c) (c_d c)
      in [put_str (weekday_abbr ! wday_index wd), put (CHR '' ''),
          put_str (month_abbr ! mon_index (c_mo c)), put (CHR '' ''),
          put_u (nat (c_d c)) 2 (CHR '' ''), put (CHR '' ''),
          put2 (c_h c), put (CHR '':''), put2 (c_mi c), put (CHR '':''), put2 (c_s c),
          put (CHR '' ''), put_i (c_y c) 4 (CHR ''0'')])"

definition asctime_impl :: "char list \<Rightarrow> nat \<Rightarrow> civil \<Rightarrow> wbuf" where
  "asctime_impl buf cap c = wseq (asctime_ops c) (wbuf_make buf cap)"

definition compact_impl :: "char list \<Rightarrow> nat \<Rightarrow> civil \<Rightarrow> bool \<Rightarrow> wbuf" where
  "compact_impl buf cap c with_z =
     wseq [put_u (nat (to_u64 (if c_y c < 0 then 0 else c_y c))) 4 (CHR ''0''),
       put2 (c_mo c), put2 (c_d c), put (CHR ''T''), put2 (c_h c), put2 (c_mi c), put2 (c_s c),
       (if with_z then put (CHR ''Z'') else id)] (wbuf_make buf cap)"

subsection \<open>Public writers\<close>

text \<open>A writer returns the buffer and the size, or size 0 when the text does not fit.\<close>

definition write_result :: "nat \<Rightarrow> wbuf \<Rightarrow> char list \<times> nat" where
  "write_result cap w = (wb_p w, (if wb_n w \<le> cap then wb_n w else 0))"

definition iso8601_size :: "civil \<Rightarrow> nat \<Rightarrow> date_sep \<Rightarrow> offset_style \<Rightarrow> nat" where
  "iso8601_size c sd sep os = wb_n (iso8601_impl [] 0 c sd sep os)"

definition write_iso8601 ::
  "char list \<Rightarrow> nat \<Rightarrow> civil \<Rightarrow> nat \<Rightarrow> date_sep \<Rightarrow> offset_style \<Rightarrow> char list \<times> nat" where
  "write_iso8601 buf cap c sd sep os = write_result cap (iso8601_impl buf cap c sd sep os)"

definition write_rfc3339 :: "char list \<Rightarrow> nat \<Rightarrow> civil \<Rightarrow> nat \<Rightarrow> char list \<times> nat" where
  "write_rfc3339 buf cap c sd = write_iso8601 buf cap c sd Sep_iso_t Os_z_or_colon"

definition rfc3339_size :: "civil \<Rightarrow> nat \<Rightarrow> nat" where
  "rfc3339_size c sd = iso8601_size c sd Sep_iso_t Os_z_or_colon"

definition write_iso_full :: "char list \<Rightarrow> nat \<Rightarrow> civil \<Rightarrow> nat \<Rightarrow> char list \<times> nat" where
  "write_iso_full buf cap c sd = write_iso8601 buf cap c sd Sep_space Os_compact"

definition iso_full_size :: "civil \<Rightarrow> nat \<Rightarrow> nat" where
  "iso_full_size c sd = iso8601_size c sd Sep_space Os_compact"

definition write_rfc2822 :: "char list \<Rightarrow> nat \<Rightarrow> civil \<Rightarrow> char list \<times> nat" where
  "write_rfc2822 buf cap c = write_result cap (rfc2822_impl buf cap c False)"

definition rfc2822_size :: "civil \<Rightarrow> nat" where
  "rfc2822_size c = wb_n (rfc2822_impl [] 0 c False)"

definition write_http_date :: "char list \<Rightarrow> nat \<Rightarrow> civil \<Rightarrow> char list \<times> nat" where
  "write_http_date buf cap c = write_result cap (rfc2822_impl buf cap c True)"

definition http_date_size :: "civil \<Rightarrow> nat" where
  "http_date_size c = wb_n (rfc2822_impl [] 0 c True)"

definition write_asctime :: "char list \<Rightarrow> nat \<Rightarrow> civil \<Rightarrow> char list \<times> nat" where
  "write_asctime buf cap c = write_result cap (asctime_impl buf cap c)"

definition asctime_size :: "civil \<Rightarrow> nat" where
  "asctime_size c = wb_n (asctime_impl [] 0 c)"

definition write_compact :: "char list \<Rightarrow> nat \<Rightarrow> civil \<Rightarrow> bool \<Rightarrow> char list \<times> nat" where
  "write_compact buf cap c with_z = write_result cap (compact_impl buf cap c with_z)"

definition compact_size :: "civil \<Rightarrow> bool \<Rightarrow> nat" where
  "compact_size c with_z = wb_n (compact_impl [] 0 c with_z)"

definition write_log_stamp :: "char list \<Rightarrow> nat \<Rightarrow> civil \<Rightarrow> nat \<Rightarrow> char list \<times> nat" where
  "write_log_stamp buf cap c sd = write_iso8601 buf cap c sd Sep_space Os_none"

definition log_stamp_size :: "civil \<Rightarrow> nat \<Rightarrow> nat" where
  "log_stamp_size c sd = iso8601_size c sd Sep_space Os_none"

subsection \<open>\<open>strftime\<close>\<close>

definition year2 :: "i32 \<Rightarrow> nat" where
  "year2 y = nat (to_u64 ((y smod 100 + 100) smod 100))"

definition hour12 :: "u32 \<Rightarrow> u32" where
  "hour12 h = (if h mod 12 = 0 then 12 else h mod 12)"

definition strftime_spec :: "char \<Rightarrow> civil \<Rightarrow> wbuf \<Rightarrow> wbuf" where
  "strftime_spec f c =
     (let wd = weekday_of (c_y c) (c_mo c) (c_d c);
          doy = day_of_year (c_y c) (c_mo c) (c_d c);
          iw = iso_week_date (c_y c) (c_mo c) (c_d c)
      in
      if f = CHR ''a'' then put_str (weekday_abbr ! wday_index wd)
      else if f = CHR ''A'' then put_str (weekday_name ! wday_index wd)
      else if f = CHR ''b'' \<or> f = CHR ''h'' then put_str (month_abbr ! mon_index (c_mo c))
      else if f = CHR ''B'' then put_str (month_name ! mon_index (c_mo c))
      else if f = CHR ''c'' then wseq (asctime_ops c)
      else if f = CHR ''C'' then put_u (nat (to_u64 (if c_y c \<ge> 0 then c_y c sdiv 100 else 0))) 2 (CHR ''0'')
      else if f = CHR ''d'' then put2 (c_d c)
      else if f = CHR ''D'' then
        wseq [put2 (c_mo c), put (CHR ''/''), put2 (c_d c), put (CHR ''/''),
          put_u (year2 (c_y c)) 2 (CHR ''0'')]
      else if f = CHR ''e'' then put_u (nat (c_d c)) 2 (CHR '' '')
      else if f = CHR ''F'' then
        wseq [put_year (c_y c), put (CHR ''-''), put2 (c_mo c), put (CHR ''-''), put2 (c_d c)]
      else if f = CHR ''g'' then put_u (year2 (iw_year iw)) 2 (CHR ''0'')
      else if f = CHR ''G'' then put_i (iw_year iw) 4 (CHR ''0'')
      else if f = CHR ''H'' then put2 (c_h c)
      else if f = CHR ''I'' then put2 (hour12 (c_h c))
      else if f = CHR ''j'' then put_u (nat doy) 3 (CHR ''0'')
      else if f = CHR ''k'' then put_u (nat (c_h c)) 2 (CHR '' '')
      else if f = CHR ''l'' then put_u (nat (hour12 (c_h c))) 2 (CHR '' '')
      else if f = CHR ''m'' then put2 (c_mo c)
      else if f = CHR ''M'' then put2 (c_mi c)
      else if f = CHR ''n'' then put (CHR 0x0A)
      else if f = CHR ''p'' then put_str (if c_h c < 12 then ''AM'' else ''PM'')
      else if f = CHR ''P'' then put_str (if c_h c < 12 then ''am'' else ''pm'')
      else if f = CHR ''r'' then
        wseq [put2 (hour12 (c_h c)), put (CHR '':''), put2 (c_mi c), put (CHR '':''), put2 (c_s c),
          put (CHR '' ''), put_str (if c_h c < 12 then ''AM'' else ''PM'')]
      else if f = CHR ''R'' then wseq [put2 (c_h c), put (CHR '':''), put2 (c_mi c)]
      else if f = CHR ''s'' then put_i (civil_secs c - c_off c) 1 (CHR ''0'')
      else if f = CHR ''S'' then put2 (c_s c)
      else if f = CHR ''t'' then put (CHR 0x09)
      else if f = CHR ''T'' then
        wseq [put2 (c_h c), put (CHR '':''), put2 (c_mi c), put (CHR '':''), put2 (c_s c)]
      else if f = CHR ''u'' then put_u (nat (if wd = 0 then 7 else wd)) 1 (CHR ''0'')
      else if f = CHR ''U'' then put_u (nat (to_u32 (doy + 6 - wd) div 7)) 2 (CHR ''0'')
      else if f = CHR ''V'' then put2 (iw_week iw)
      else if f = CHR ''w'' then put_u (nat wd) 1 (CHR ''0'')
      else if f = CHR ''W'' then
        put_u (nat (to_u32 (doy + 6 - (if wd = 0 then 6 else to_u32 (wd - 1))) div 7)) 2 (CHR ''0'')
      else if f = CHR ''x'' then
        wseq [put2 (c_mo c), put (CHR ''/''), put2 (c_d c), put (CHR ''/''),
          put_u (year2 (c_y c)) 2 (CHR ''0'')]
      else if f = CHR ''X'' then
        wseq [put2 (c_h c), put (CHR '':''), put2 (c_mi c), put (CHR '':''), put2 (c_s c)]
      else if f = CHR ''y'' then put_u (year2 (c_y c)) 2 (CHR ''0'')
      else if f = CHR ''Y'' then put_year (c_y c)
      else if f = CHR ''z'' then put_offset (c_off c) Os_compact
      else if f = CHR ''Z'' then
        (if c_off c = 0 then put_str ''UTC'' else put_offset (c_off c) Os_compact)
      else if f = CHR ''%'' then put (CHR ''%'')
      else wseq [put (CHR ''%''), put f])"

fun strftime_loop :: "string \<Rightarrow> civil \<Rightarrow> wbuf \<Rightarrow> wbuf" where
  "strftime_loop [] c w = w"
| "strftime_loop (f # fs) c w =
     (if f \<noteq> CHR ''%'' then strftime_loop fs c (put f w)
      else (case fs of
              [] \<Rightarrow> put (CHR ''%'') w
            | g # gs \<Rightarrow> strftime_loop gs c (strftime_spec g c w)))"

definition strftime_impl :: "char list \<Rightarrow> nat \<Rightarrow> string option \<Rightarrow> civil \<Rightarrow> wbuf" where
  "strftime_impl buf cap fmt c =
     (case fmt of
        None \<Rightarrow> wbuf_make buf cap
      | Some f \<Rightarrow> strftime_loop f c (wbuf_make buf cap))"

definition strftime_size :: "string option \<Rightarrow> civil \<Rightarrow> nat" where
  "strftime_size fmt c = wb_n (strftime_impl [] 0 fmt c)"

definition write_strftime :: "char list \<Rightarrow> nat \<Rightarrow> string option \<Rightarrow> civil \<Rightarrow> char list \<times> nat" where
  "write_strftime buf cap fmt c = write_result cap (strftime_impl buf cap fmt c)"

subsection \<open>Durations\<close>

definition ns_per_us :: nat where "ns_per_us = 1000"
definition ns_per_ms :: nat where "ns_per_ms = 1000 * ns_per_us"
definition ns_per_s :: nat where "ns_per_s = 1000 * ns_per_ms"
definition ns_per_min :: nat where "ns_per_min = 60 * ns_per_s"
definition ns_per_hour :: nat where "ns_per_hour = 60 * ns_per_min"
definition ns_per_day :: nat where "ns_per_day = 24 * ns_per_hour"
definition ns_per_week :: nat where "ns_per_week = 7 * ns_per_day"

lemmas ns_per_defs = ns_per_us_def ns_per_ms_def ns_per_s_def ns_per_min_def ns_per_hour_def
  ns_per_day_def ns_per_week_def

abbreviation putn :: "nat \<Rightarrow> nat \<Rightarrow> wbuf \<Rightarrow> wbuf" where
  "putn v width \<equiv> put_u v width (CHR ''0'')"

definition dur_hms_impl :: "char list \<Rightarrow> nat \<Rightarrow> nat \<Rightarrow> wbuf" where
  "dur_hms_impl buf cap secs =
     (let w = wbuf_make buf cap;
          d = secs div 86400; h = (secs div 3600) mod 24; m = (secs div 60) mod 60
      in if d \<noteq> 0
         then wseq [putn d 1, put (CHR ''d''), put (CHR '' ''), putn h 2, put (CHR '':''), putn m 2] w
         else wseq [putn h 2, put (CHR '':''), putn m 2, put (CHR '':''), putn (secs mod 60) 2] w)"

definition dur_clock_impl :: "char list \<Rightarrow> nat \<Rightarrow> nat \<Rightarrow> nat \<Rightarrow> wbuf" where
  "dur_clock_impl buf cap ticks hz0 =
     (let w = wbuf_make buf cap;
          hz = (if hz0 = 0 then 1 else hz0);
          secs = ticks div hz
      in if secs < 3600
         then wseq [putn (secs div 60) 1, put (CHR '':''), putn (secs mod 60) 2, put (CHR ''.''),
                putn (nat (to_u64 (int (ticks mod hz) * 100)) div hz) 2] w
         else if secs < 86400
         then wseq [putn (secs div 3600) 1, put (CHR '':''), putn ((secs div 60) mod 60) 2,
                put (CHR '':''), putn (secs mod 60) 2] w
         else wseq [putn (secs div 86400) 1, put (CHR ''d''), put (CHR '' ''),
                putn ((secs div 3600) mod 24) 2, put (CHR '':''), putn ((secs div 60) mod 60) 2] w)"

definition dur_components :: "(nat \<times> string) list" where
  "dur_components = [(ns_per_week, ''w''), (ns_per_day, ''d''), (ns_per_hour, ''h''),
     (ns_per_min, ''m''), (ns_per_s, ''s''), (ns_per_ms, ''ms''), (ns_per_us, ''us''), (1, ''ns'')]"

fun dur_units_loop :: "(nat \<times> string) list \<Rightarrow> nat \<Rightarrow> wbuf \<Rightarrow> wbuf" where
  "dur_units_loop [] rest w = w"
| "dur_units_loop ((scale, suffix) # cs) rest w =
     (let v = rest div scale
      in if v = 0 then dur_units_loop cs rest w
         else
           let w1 = put_str suffix (putn v 1 w);
               rest' = rest - v * scale
           in if rest' = 0 then w1 else dur_units_loop cs rest' w1)"

definition dur_units_impl :: "char list \<Rightarrow> nat \<Rightarrow> nat \<Rightarrow> wbuf" where
  "dur_units_impl buf cap ns =
     (let w = wbuf_make buf cap
      in if ns = 0 then wseq [put (CHR ''0''), put (CHR ''s'')] w
         else dur_units_loop dur_components ns w)"

definition write_duration_hms :: "char list \<Rightarrow> nat \<Rightarrow> nat \<Rightarrow> char list \<times> nat" where
  "write_duration_hms buf cap secs = write_result cap (dur_hms_impl buf cap secs)"

definition duration_hms_size :: "nat \<Rightarrow> nat" where
  "duration_hms_size secs = wb_n (dur_hms_impl [] 0 secs)"

definition write_duration_clock :: "char list \<Rightarrow> nat \<Rightarrow> nat \<Rightarrow> nat \<Rightarrow> char list \<times> nat" where
  "write_duration_clock buf cap ticks hz = write_result cap (dur_clock_impl buf cap ticks hz)"

definition duration_clock_size :: "nat \<Rightarrow> nat \<Rightarrow> nat" where
  "duration_clock_size ticks hz = wb_n (dur_clock_impl [] 0 ticks hz)"

definition write_duration_units :: "char list \<Rightarrow> nat \<Rightarrow> nat \<Rightarrow> char list \<times> nat" where
  "write_duration_units buf cap ns = write_result cap (dur_units_impl buf cap ns)"

definition duration_units_size :: "nat \<Rightarrow> nat" where
  "duration_units_size ns = wb_n (dur_units_impl [] 0 ns)"

subsection \<open>A bounded sink\<close>

text \<open>
  The contract of the buffer: every byte is counted, a byte is stored while there is room, and
  a stored byte is never overwritten.
\<close>

locale bounded_sink =
  fixes emit :: "char \<Rightarrow> 'w \<Rightarrow> 'w"
    and written :: "'w \<Rightarrow> nat"
    and room :: "'w \<Rightarrow> nat"
    and stored :: "'w \<Rightarrow> char list"
    and untouched :: "'w \<Rightarrow> char list"
    and sink_ok :: "'w \<Rightarrow> bool"
  assumes written_emit: "written (emit c w) = Suc (written w)"
    and ok_emit: "sink_ok w \<Longrightarrow> sink_ok (emit c w)"
    and room_emit: "room (emit c w) = room w - 1"
    and stored_emit: "sink_ok w \<Longrightarrow> stored (emit c w) = stored w @ take (room w) [c]"
    and untouched_emit: "sink_ok w \<Longrightarrow> untouched (emit c w) = drop (min 1 (room w)) (untouched w)"
begin

lemma written_fold: "written (fold emit s w) = written w + length s"
  by (induction s arbitrary: w) (auto simp: written_emit)

lemma ok_fold: "sink_ok w \<Longrightarrow> sink_ok (fold emit s w)"
  by (induction s arbitrary: w) (auto simp: ok_emit)

lemma room_fold: "room (fold emit s w) = room w - length s"
  by (induction s arbitrary: w) (auto simp: room_emit)

lemma stored_fold: "sink_ok w \<Longrightarrow> stored (fold emit s w) = stored w @ take (room w) s"
proof (induction s arbitrary: w)
  case (Cons c s)
  have "stored (fold emit s (emit c w)) = stored (emit c w) @ take (room w - 1) s"
    using Cons by (simp add: ok_emit room_emit)
  then show ?case using Cons.prems by (cases "room w") (auto simp: stored_emit)
qed simp

lemma untouched_fold: "sink_ok w \<Longrightarrow> untouched (fold emit s w) = drop (min (length s) (room w)) (untouched w)"
proof (induction s arbitrary: w)
  case (Cons c s)
  have "untouched (fold emit s (emit c w)) = drop (min (length s) (room w - 1)) (drop (min 1 (room w)) (untouched w))"
    using Cons by (simp add: ok_emit room_emit untouched_emit)
  then show ?case by (cases "room w") auto
qed simp

end

definition wb_ok :: "wbuf \<Rightarrow> bool" where
  "wb_ok w \<longleftrightarrow> wb_cap w \<le> length (wb_p w)"

definition wb_stored :: "wbuf \<Rightarrow> char list" where
  "wb_stored w = take (min (wb_n w) (wb_cap w)) (wb_p w)"

definition wb_untouched :: "wbuf \<Rightarrow> char list" where
  "wb_untouched w = drop (min (wb_n w) (wb_cap w)) (wb_p w)"

interpretation wb: bounded_sink put wb_n "\<lambda>w. wb_cap w - wb_n w" wb_stored wb_untouched wb_ok
proof unfold_locales
  fix c w
  show "wb_n (put c w) = Suc (wb_n w)" "wb_cap (put c w) - wb_n (put c w) = wb_cap w - wb_n w - 1"
    by (simp_all add: put_def Let_def)
  assume ok: "wb_ok w"
  then show "wb_ok (put c w)" by (simp add: wb_ok_def put_def Let_def)
  show "wb_stored (put c w) = wb_stored w @ take (wb_cap w - wb_n w) [c]"
    using ok by (cases "wb_n w < wb_cap w") (auto simp: wb_stored_def wb_ok_def put_def Let_def take_Suc_conv_app_nth)
  show "wb_untouched (put c w) = drop (min 1 (wb_cap w - wb_n w)) (wb_untouched w)"
    using ok by (cases "wb_n w < wb_cap w") (auto simp: wb_untouched_def wb_ok_def put_def Let_def)
qed

subsection \<open>The text of every writer\<close>

named_theorems text_simps \<open>writers as appended texts\<close>

definition u_text :: "nat \<Rightarrow> nat \<Rightarrow> char \<Rightarrow> string" where
  "u_text v width fill = replicate (width - length (tmp_digits v)) fill @ rev (tmp_digits v)"

definition i_text :: "int \<Rightarrow> nat \<Rightarrow> char \<Rightarrow> string" where
  "i_text v width fill =
     (if v < 0 then CHR ''-'' # u_text (nat (to_u64 (to_u64 (- (v + 1)) + 1))) width fill
      else u_text (nat (to_u64 v)) width fill)"

definition year_text :: "int \<Rightarrow> string" where
  "year_text y =
     (if 0 \<le> y \<and> y \<le> 9999 then u_text (nat (to_u64 y)) 4 (CHR ''0'')
      else (if y < 0 then CHR ''-'' else CHR ''+'') #
        u_text (nat (to_u64 (if y < 0 then - y else y))) 4 (CHR ''0''))"

definition subsec_text :: "int \<Rightarrow> nat \<Rightarrow> string" where
  "subsec_text ns digits =
     (if digits = 0 then []
      else let k = min digits 9
           in CHR ''.'' # u_text (nat (ns div ((\<lambda>s. to_u32 (s * 10)) ^^ (9 - k)) 1)) k (CHR ''0''))"

definition offset_text :: "int \<Rightarrow> offset_style \<Rightarrow> string" where
  "offset_text off os =
     (if os = Os_none then []
      else if off = 0 \<and> (os = Os_z_or_colon \<or> os = Os_z_or_compact) then ''Z''
      else
        let mag = to_u32 (if off < 0 then - off else off)
        in (if off < 0 then CHR ''-'' else CHR ''+'') # u_text (nat (mag div 3600)) 2 (CHR ''0'') @
           (if os = Os_z_or_colon \<or> os = Os_colon then '':'' else []) @
           u_text (nat ((mag mod 3600) div 60)) 2 (CHR ''0''))"

abbreviation d2 :: "int \<Rightarrow> string" where
  "d2 v \<equiv> u_text (nat v) 2 (CHR ''0'')"

definition date_text :: "civil \<Rightarrow> string" where
  "date_text c = year_text (c_y c) @ ''-'' @ d2 (c_mo c) @ ''-'' @ d2 (c_d c)"

definition time_text :: "civil \<Rightarrow> string" where
  "time_text c = d2 (c_h c) @ '':'' @ d2 (c_mi c) @ '':'' @ d2 (c_s c)"

definition iso8601_text :: "civil \<Rightarrow> nat \<Rightarrow> date_sep \<Rightarrow> offset_style \<Rightarrow> string" where
  "iso8601_text c sd sep os =
     date_text c @ (if sep = Sep_space then '' '' else ''T'') @ time_text c @
     subsec_text (c_ns c) sd @ offset_text (c_off c) os"

lemma fold_put_replicate: "(put c ^^ k) w = fold put (replicate k c) w"
  by (induction k arbitrary: w) (simp_all add: funpow_swap1)

lemma put_u_text [text_simps]: "put_u v width fill w = fold put (u_text v width fill) w"
  unfolding put_u_def u_text_def Let_def fold_put_replicate by (simp only: fold_append comp_apply)

lemma put_i_text [text_simps]: "put_i v width fill w = fold put (i_text v width fill) w"
  by (simp add: put_i_def i_text_def text_simps)

lemma put_cstr_text [text_simps]: "put_cstr (Some s) w = fold put s w"
  by (simp add: put_cstr_def)

lemma put_year_text [text_simps]: "put_year y w = fold put (year_text y) w"
  by (simp add: put_year_def year_text_def text_simps Let_def)

lemma put_subsec_text [text_simps]: "put_subsec ns k w = fold put (subsec_text ns k) w"
  by (simp add: put_subsec_def subsec_text_def text_simps Let_def min_def)

lemma put_offset_text [text_simps]: "put_offset off os w = fold put (offset_text off os) w"
  by (simp add: put_offset_def offset_text_def text_simps Let_def)

lemma wseq_simps [text_simps]: "wseq [] w = w" "wseq (f # fs) w = wseq fs (f w)"
  by (simp_all add: wseq_def)

lemma iso8601_impl_text:
  "iso8601_impl buf cap c sd sep os = fold put (iso8601_text c sd sep os) (wbuf_make buf cap)"
  by (simp add: iso8601_impl_def iso8601_text_def date_text_def time_text_def text_simps)

text \<open>A writer is a text: what it appends does not depend on the buffer.\<close>

definition appends :: "(wbuf \<Rightarrow> wbuf) \<Rightarrow> bool" where
  "appends f \<longleftrightarrow> (\<exists>s. \<forall>w. f w = fold put s w)"

lemma appends_fold [intro]: "appends (fold put s)"
  by (auto simp: appends_def)

lemma appends_put [intro]: "appends (put c)"
  unfolding appends_def by (rule exI [of _ "[c]"]) simp

lemma appends_id [intro]: "appends id" "appends (\<lambda>w. w)"
  unfolding appends_def by (rule exI [of _ "[]"], simp)+

lemma appends_comp: "appends f \<Longrightarrow> appends g \<Longrightarrow> appends (\<lambda>w. g (f w))"
  unfolding appends_def by (metis fold_append comp_apply)

lemma appends_pieces [intro]:
  "appends (put_u n width fill)" "appends (put_i v width fill)" "appends (put_str s)"
  "appends (put_year y)" "appends (put_subsec ns k)" "appends (put_offset off os)"
  by (auto simp: appends_def text_simps)

lemma appends_wseq [intro]: "list_all appends ops \<Longrightarrow> appends (wseq ops)"
proof (induction ops)
  case Nil
  have "wseq [] = (\<lambda>w. w)" by (rule ext) (simp add: text_simps)
  then show ?case using appends_id(2) by simp
next
  case (Cons f ops)
  have "wseq (f # ops) = (\<lambda>w. wseq ops (f w))" by (rule ext) (simp add: text_simps)
  then show ?case using Cons appends_comp [of f "wseq ops"] by simp
qed

lemma appends_if: "appends f \<Longrightarrow> appends g \<Longrightarrow> appends (if b then f else g)"
  by simp

lemma appends_asctime [intro]: "appends (wseq (asctime_ops c))"
  by (rule appends_wseq) (simp add: asctime_ops_def Let_def appends_put appends_pieces)

lemma appends_spec [intro]: "appends (strftime_spec f c)"
  unfolding strftime_spec_def Let_def
  by (intro appends_if appends_put appends_pieces appends_asctime appends_wseq)
     (simp_all add: appends_put appends_pieces)

lemma appends_strftime [intro]: "appends (strftime_loop fs c)"
proof (induction fs rule: length_induct)
  case (1 fs)
  show ?case
  proof (cases fs)
    case Nil
    then have "strftime_loop fs c = (\<lambda>w. w)" by (intro ext) simp
    then show ?thesis using appends_id(2) by simp
  next
    case (Cons f gs)
    consider "f \<noteq> CHR ''%''" | "f = CHR ''%''" "gs = []" | g hs where "f = CHR ''%''" "gs = g # hs"
      by (cases gs) auto
    then show ?thesis
    proof cases
      case 1
      then have "strftime_loop fs c = (\<lambda>w. strftime_loop gs c (put f w))" using Cons by (intro ext) simp
      then show ?thesis using "1.IH" Cons appends_comp [OF appends_put] by simp
    next
      case 2
      then have "strftime_loop fs c = put f" using Cons by (intro ext) simp
      then show ?thesis using appends_put by simp
    next
      case 3
      then have "strftime_loop fs c = (\<lambda>w. strftime_loop hs c (strftime_spec g c w))"
        using Cons by (intro ext) simp
      then show ?thesis using "1.IH" Cons 3 appends_comp [OF appends_spec] by simp
    qed
  qed
qed

lemma appends_dur_units [intro]: "appends (dur_units_loop cs rest)"
proof (induction cs arbitrary: rest)
  case Nil
  have "dur_units_loop [] rest = (\<lambda>w. w)" by (intro ext) simp
  then show ?case using appends_id(2) by simp
next
  case (Cons p cs)
  obtain scale suffix where p: "p = (scale, suffix)" by (cases p)
  let ?v = "rest div scale"
  have item: "appends (\<lambda>w. put_str suffix (putn ?v 1 w))"
    by (rule appends_comp [OF appends_pieces(1) appends_pieces(3)])
  have "dur_units_loop (p # cs) rest =
      (if ?v = 0 then dur_units_loop cs rest
       else if rest - ?v * scale = 0 then (\<lambda>w. put_str suffix (putn ?v 1 w))
       else (\<lambda>w. dur_units_loop cs (rest - ?v * scale) (put_str suffix (putn ?v 1 w))))"
    by (intro ext) (simp add: p Let_def)
  then show ?case using Cons item appends_comp [OF item Cons] by presburger
qed

subsection \<open>What every public writer promises\<close>

text \<open>
  \<open>bounded_writer wr sz\<close>: \<open>wr\<close> writes one fixed text of \<open>sz\<close> bytes.  With room for it the whole
  text is stored and its size returned, otherwise the prefix that fits is stored and 0 returned;
  no byte after the text or after the capacity is changed.
\<close>

definition bounded_writer :: "(char list \<Rightarrow> nat \<Rightarrow> char list \<times> nat) \<Rightarrow> nat \<Rightarrow> bool" where
  "bounded_writer wr sz \<longleftrightarrow>
     (\<exists>s. length s = sz \<and>
       (\<forall>buf cap. cap \<le> length buf \<longrightarrow>
          wr buf cap = (take cap s @ drop (min sz cap) buf, if sz \<le> cap then sz else 0)))"

lemma write_result_fold:
  assumes "cap \<le> length buf"
  shows "write_result cap (fold put s (wbuf_make buf cap)) =
    (take cap s @ drop (min (length s) cap) buf, if length s \<le> cap then length s else 0)"
proof -
  let ?w = "wbuf_make buf cap"
  have ok: "wb_ok ?w" using assms by (simp add: wb_ok_def wbuf_make_def)
  have n: "wb_n (fold put s ?w) = length s" using wb.written_fold [of s ?w] by (simp add: wbuf_make_def)
  have "wb_stored (fold put s ?w) = take cap s"
    using wb.stored_fold [OF ok, of s] by (simp add: wbuf_make_def wb_stored_def)
  moreover have "wb_untouched (fold put s ?w) = drop (min (length s) cap) buf"
    using wb.untouched_fold [OF ok, of s] by (simp add: wbuf_make_def wb_untouched_def)
  moreover have "wb_p (fold put s ?w) = wb_stored (fold put s ?w) @ wb_untouched (fold put s ?w)"
    by (simp add: wb_stored_def wb_untouched_def)
  ultimately show ?thesis by (simp add: write_result_def n)
qed

lemma bounded_writerI:
  assumes "appends f"
  shows "bounded_writer (\<lambda>buf cap. write_result cap (f (wbuf_make buf cap))) (wb_n (f (wbuf_make [] 0)))"
proof -
  obtain s where s: "\<And>w. f w = fold put s w" using assms by (auto simp: appends_def)
  have "wb_n (f (wbuf_make [] 0)) = length s"
    using wb.written_fold [of s "wbuf_make [] 0"] by (simp add: s wbuf_make_def)
  then show ?thesis unfolding bounded_writer_def by (auto simp: s write_result_fold)
qed

lemma appends_iso8601: "appends (fold put (iso8601_text c sd sep os))"
  by (rule appends_fold)

lemma bounded_iso8601: "bounded_writer (\<lambda>buf cap. write_iso8601 buf cap c sd sep os) (iso8601_size c sd sep os)"
  using bounded_writerI [OF appends_iso8601, of c sd sep os]
  by (simp add: write_iso8601_def iso8601_size_def iso8601_impl_text)

lemma bounded_rfc2822:
  "bounded_writer (\<lambda>buf cap. write_result cap (rfc2822_impl buf cap c gmt)) (wb_n (rfc2822_impl [] 0 c gmt))"
  unfolding rfc2822_impl_def Let_def
  by (rule bounded_writerI, rule appends_wseq) (simp add: appends_put appends_pieces)

lemma bounded_compact: "bounded_writer (\<lambda>buf cap. write_compact buf cap c z) (compact_size c z)"
  unfolding write_compact_def compact_size_def compact_impl_def
  by (rule bounded_writerI, rule appends_wseq) (simp add: appends_put appends_pieces appends_id)

lemma bounded_strftime: "bounded_writer (\<lambda>buf cap. write_strftime buf cap fmt c) (strftime_size fmt c)"
proof (cases fmt)
  case None
  then show ?thesis using bounded_writerI [OF appends_id(2)]
    by (simp add: write_strftime_def strftime_size_def strftime_impl_def)
next
  case (Some f)
  then show ?thesis using bounded_writerI [OF appends_strftime [of f c]]
    by (simp add: write_strftime_def strftime_size_def strftime_impl_def)
qed

lemma bounded_duration_hms: "bounded_writer (\<lambda>buf cap. write_duration_hms buf cap secs) (duration_hms_size secs)"
  unfolding write_duration_hms_def duration_hms_size_def dur_hms_impl_def Let_def
  by (cases "secs div 86400 = 0"; simp only: if_True if_False not_not simp_thms; rule bounded_writerI; rule appends_wseq;
      simp add: appends_put appends_pieces)

lemma bounded_duration_clock:
  "bounded_writer (\<lambda>buf cap. write_duration_clock buf cap ticks hz) (duration_clock_size ticks hz)"
proof -
  let ?hz = "if hz = 0 then 1 else hz"
  consider "ticks div ?hz < 3600" | "\<not> ticks div ?hz < 3600" "ticks div ?hz < 86400"
    | "\<not> ticks div ?hz < 3600" "\<not> ticks div ?hz < 86400" by argo
  then show ?thesis
    unfolding write_duration_clock_def duration_clock_size_def dur_clock_impl_def Let_def
    by cases (simp only: if_True if_False; rule bounded_writerI; rule appends_wseq;
      simp add: appends_put appends_pieces)+
qed

lemma bounded_duration_units: "bounded_writer (\<lambda>buf cap. write_duration_units buf cap ns) (duration_units_size ns)"
  unfolding write_duration_units_def duration_units_size_def dur_units_impl_def Let_def
  by (cases "ns = 0"; simp only: if_True if_False simp_thms; rule bounded_writerI; (rule appends_dur_units | rule appends_wseq);
      simp add: appends_put)

text \<open>C36: Every public writer (ISO 8601, RFC 2822, HTTP date, asctime, compact, \<open>strftime\<close> with any format,
  and the three duration writers) is memory safe and agrees with its size function: it writes exactly
  \<open>min size cap\<close> bytes, returns the size when the text fits and 0 when it does not.\<close>

theorem writers_bounded:
  "bounded_writer (\<lambda>buf cap. write_iso8601 buf cap c sd sep os) (iso8601_size c sd sep os)
   \<and> bounded_writer (\<lambda>buf cap. write_rfc2822 buf cap c) (rfc2822_size c)
   \<and> bounded_writer (\<lambda>buf cap. write_http_date buf cap c) (http_date_size c)
   \<and> bounded_writer (\<lambda>buf cap. write_asctime buf cap c) (asctime_size c)
   \<and> bounded_writer (\<lambda>buf cap. write_compact buf cap c z) (compact_size c z)
   \<and> bounded_writer (\<lambda>buf cap. write_strftime buf cap fmt c) (strftime_size fmt c)
   \<and> bounded_writer (\<lambda>buf cap. write_duration_hms buf cap secs) (duration_hms_size secs)
   \<and> bounded_writer (\<lambda>buf cap. write_duration_clock buf cap ticks hz) (duration_clock_size ticks hz)
   \<and> bounded_writer (\<lambda>buf cap. write_duration_units buf cap ns) (duration_units_size ns)"
  using bounded_iso8601 bounded_rfc2822 bounded_compact bounded_strftime bounded_duration_hms
    bounded_duration_clock bounded_duration_units bounded_writerI [OF appends_asctime [of c]]
  by (simp add: write_rfc2822_def rfc2822_size_def write_http_date_def http_date_size_def
      write_asctime_def asctime_size_def asctime_impl_def)

subsection \<open>Digits and sizes\<close>

lemma tmp_digits_length: "v < 10 ^ k \<Longrightarrow> 0 < k \<Longrightarrow> length (tmp_digits v) \<le> k"
proof (induction v arbitrary: k rule: tmp_digits.induct)
  case (1 v)
  show ?case
  proof (cases "v div 10 = 0")
    case True
    then show ?thesis using 1 by (subst tmp_digits.simps) simp
  next
    case False
    then have "0 < k - 1" using 1 by (cases k; cases "k - 1") auto
    moreover have "v div 10 < 10 ^ (k - 1)" using 1 by (cases k) auto
    ultimately have "length (tmp_digits (v div 10)) \<le> k - 1" using 1 False by blast
    then show ?thesis using False 1 by (subst tmp_digits.simps) simp
  qed
qed

lemma tmp_digits_nonempty: "0 < length (tmp_digits v)"
  by (subst tmp_digits.simps) simp

lemma u_text_length: "v < 10 ^ k \<Longrightarrow> 0 < k \<Longrightarrow> width \<le> k \<Longrightarrow> length (u_text v width f) \<le> k"
  using tmp_digits_length [of v k] by (simp add: u_text_def)

lemma u_text_length_fixed: "v < 10 ^ width \<Longrightarrow> 0 < width \<Longrightarrow> length (u_text v width f) = width"
  using tmp_digits_length [of v width] by (simp add: u_text_def)

lemma d2_length: "0 \<le> v \<Longrightarrow> v < 100 \<Longrightarrow> length (u_text (nat v) 2 f) = 2"
  by (rule u_text_length_fixed) auto

text \<open>The scratch array \<open>tmp[24]\<close> of \<open>put_u\<close> holds every \<^verbatim>\<open>u64\<close>.\<close>

lemma tmp_digits_u64: "v < 18446744073709551616 \<Longrightarrow> length (tmp_digits v) \<le> 20"
  by (rule tmp_digits_length) auto

lemma abs_text_length:
  assumes "is_i32 v"
  shows "length (u_text (nat \<bar>v\<bar>) 4 f) \<le> 10"
  using assms by (intro u_text_length) (auto simp: is_i32_def)

lemma i_text_length: "is_i32 v \<Longrightarrow> length (i_text v 4 f) \<le> 11"
proof -
  assume v: "is_i32 v"
  then have c: "to_u64 v = v" if "0 \<le> v" using that by (intro to_u64_id) (auto simp: is_i32_def)
  have d: "to_u64 (to_u64 (- (v + 1)) + 1) = - v" if "v < 0"
    using that v by (simp add: is_i32_def to_u64_id)
  show ?thesis
    using v c d abs_text_length [OF v, of f] by (auto simp: i_text_def)
qed

lemma year_text_length: "is_i32 y \<Longrightarrow> length (year_text y) \<le> 11"
proof -
  assume y: "is_i32 y"
  then have c: "to_u64 y = y" if "0 \<le> y" using that by (intro to_u64_id) (auto simp: is_i32_def)
  have d: "to_u64 (- y) = - y" if "y < 0"
    using that y by (intro to_u64_id) (auto simp: is_i32_def)
  show ?thesis
    using y c d abs_text_length [OF y, of "CHR ''0''"] by (auto simp: year_text_def)
qed

lemma subsec_scale: "k \<le> 9 \<Longrightarrow> ((\<lambda>s. to_u32 (s * 10)) ^^ k) 1 = 10 ^ k"
proof (induction k)
  case (Suc k)
  have "(10::int) ^ Suc k \<le> 10 ^ 9" using Suc.prems by (intro power_increasing) auto
  then show ?case using Suc by (simp add: to_u32_id mult.commute)
qed simp

lemma subsec_text_eq:
  assumes "0 \<le> ns" "0 < k"
  shows "subsec_text ns k = CHR ''.'' # u_text (nat ns div 10 ^ (9 - min k 9)) (min k 9) (CHR ''0'')"
proof -
  have "nat (ns div 10 ^ (9 - min k 9)) = nat ns div 10 ^ (9 - min k 9)"
    using assms by (simp add: nat_div_distrib nat_power_eq)
  then show ?thesis using assms by (simp add: subsec_text_def Let_def subsec_scale)
qed

lemma subsec_text_length:
  assumes "0 \<le> ns" "ns < 1000000000"
  shows "length (subsec_text ns k) = (if k = 0 then 0 else 1 + min k 9)"
proof (cases "k = 0")
  case False
  define j where "j = min k 9"
  have j: "0 < j" "j \<le> 9" using False by (auto simp: j_def)
  have "nat ns < 10 ^ j * 10 ^ (9 - j)" using assms j by (simp flip: power_add)
  then have "nat ns div 10 ^ (9 - j) < 10 ^ j" by (simp add: less_mult_imp_div_less)
  then show ?thesis using False assms j subsec_text_eq [of ns k] u_text_length_fixed
    by (simp add: j_def)
qed (simp add: subsec_text_def)

lemma offset_text_length:
  assumes "is_i32 off"
  shows "length (offset_text off os) \<le> 10"
proof -
  define m where "m = to_u32 (if off < 0 then - off else off)"
  have m: "m = \<bar>off\<bar>" using assms by (auto simp: m_def is_i32_def to_u32_id)
  have "m div 3600 \<le> 2147483648 div 3600" using assms m by (intro zdiv_mono1) (auto simp: is_i32_def)
  then have "length (u_text (nat (m div 3600)) 2 (CHR ''0'')) \<le> 6"
    using m by (intro u_text_length) auto
  moreover have "m mod 3600 < 3600" "0 \<le> m mod 3600" by auto
  then have "length (u_text (nat (m mod 3600 div 60)) 2 (CHR ''0'')) = 2"
    by (intro d2_length) auto
  ultimately show ?thesis unfolding offset_text_def m_def [symmetric] Let_def by auto
qed

definition iso8601_max :: nat where "iso8601_max = 48"
definition rfc2822_max :: nat where "rfc2822_max = 48"
definition asctime_max :: nat where "asctime_max = 32"
definition compact_max :: nat where "compact_max = 16"
definition duration_max :: nat where "duration_max = 64"

lemma written_make [simp]: "wb_n (wbuf_make b c) = 0"
  by (simp add: wbuf_make_def)

lemmas size_simps = text_simps wb.written_fold wb.written_emit written_make

definition fields_ok :: "civil \<Rightarrow> bool" where
  "fields_ok c \<longleftrightarrow> civil_wf c \<and> civil_is_valid c"

lemma fields_two_digits:
  assumes "fields_ok c"
  shows "length (u_text (nat (c_mo c)) 2 f) = 2" "length (u_text (nat (c_d c)) 2 f) = 2"
    "length (u_text (nat (c_h c)) 2 f) = 2" "length (u_text (nat (c_mi c)) 2 f) = 2"
    "length (u_text (nat (c_s c)) 2 f) = 2"
proof -
  have "c_d c \<le> 31" using assms days_in_month_le [of "c_mo c" "c_y c"] by (auto simp: fields_ok_def civil_is_valid_def civil_valid_def)
  then show "length (u_text (nat (c_mo c)) 2 f) = 2" "length (u_text (nat (c_d c)) 2 f) = 2"
    "length (u_text (nat (c_h c)) 2 f) = 2" "length (u_text (nat (c_mi c)) 2 f) = 2"
    "length (u_text (nat (c_s c)) 2 f) = 2"
    using assms by (auto simp: fields_ok_def civil_wf_def civil_is_valid_def civil_valid_def intro!: d2_length)
qed

lemma abbr_length [simp]: "length (weekday_abbr ! wday_index wd) = 3" "length (month_abbr ! mon_index m) = 3"
proof -
  have a: "list_all (\<lambda>s. length s = 3) weekday_abbr" "list_all (\<lambda>s. length s = 3) month_abbr"
    by (simp_all add: weekday_abbr_def month_abbr_def)
  have "wday_index wd < length weekday_abbr" "mon_index m < length month_abbr"
    by (auto simp: wday_index_def mon_index_def weekday_abbr_def month_abbr_def)
  then show "length (weekday_abbr ! wday_index wd) = 3" "length (month_abbr ! mon_index m) = 3"
    using a by (simp_all add: list_all_length)
qed

lemma fields_ranges:
  assumes "fields_ok c"
  shows "is_i32 (c_y c)" "is_i32 (c_off c)" "0 \<le> c_ns c" "c_ns c < 1000000000"
  using assms by (simp_all add: fields_ok_def civil_wf_def civil_is_valid_def)

lemma iso8601_size_le: "fields_ok c \<Longrightarrow> iso8601_size c sd sep os \<le> 46"
  using year_text_length [of "c_y c"] subsec_text_length [of "c_ns c" sd] offset_text_length [of "c_off c" os]
  by (auto simp: iso8601_size_def iso8601_impl_text iso8601_text_def date_text_def time_text_def size_simps
      fields_two_digits fields_ranges)

lemma rfc2822_size_le: "fields_ok c \<Longrightarrow> wb_n (rfc2822_impl [] 0 c gmt) \<le> 44"
  using i_text_length [of "c_y c" "CHR ''0''"] offset_text_length [of "c_off c" Os_compact]
  by (auto simp: rfc2822_impl_def Let_def size_simps fields_two_digits fields_ranges)

lemma asctime_size_le: "fields_ok c \<Longrightarrow> asctime_size c \<le> 31"
  using i_text_length [of "c_y c" "CHR ''0''"]
  by (auto simp: asctime_size_def asctime_impl_def asctime_ops_def Let_def size_simps fields_two_digits fields_ranges)

lemma compact_size_le: "fields_ok c \<Longrightarrow> c_y c \<le> 9999 \<Longrightarrow> compact_size c z \<le> 16"
proof -
  assume a: "fields_ok c" "c_y c \<le> 9999"
  have y: "to_u64 (if c_y c < 0 then 0 else c_y c) = (if c_y c < 0 then 0 else c_y c)"
    using a by (intro to_u64_id) auto
  have "length (u_text (nat (if c_y c < 0 then 0 else c_y c)) 4 (CHR ''0'')) = 4"
    using a by (intro u_text_length_fixed) auto
  then show ?thesis using a by (auto simp: compact_size_def compact_impl_def size_simps y fields_two_digits)
qed

lemma u_len1: "v < 10 ^ k \<Longrightarrow> 0 < k \<Longrightarrow> length (u_text v 1 f) \<le> k"
  by (rule u_text_length) auto

lemma duration_hms_size_le: "secs < 18446744073709551616 \<Longrightarrow> duration_hms_size secs \<le> 22"
proof -
  assume "secs < 18446744073709551616"
  then have "secs div 86400 < 10 ^ 15" by (simp add: div_less_iff_less_mult)
  then have "length (u_text (secs div 86400) 1 (CHR ''0'')) \<le> 15" by (rule u_len1) simp
  then show ?thesis
    by (simp add: duration_hms_size_def dur_hms_impl_def Let_def size_simps u_text_length_fixed)
qed

lemma duration_clock_size_le: "ticks < 18446744073709551616 \<Longrightarrow> duration_clock_size ticks hz \<le> 22"
proof -
  assume t: "ticks < 18446744073709551616"
  define h where "h = (if hz = 0 then 1 else hz)"
  have h: "0 < h" by (simp add: h_def)
  have s: "ticks div h < 18446744073709551616" using t div_le_dividend [of ticks h] by linarith
  then have "ticks div h div 86400 < 10 ^ 15" by (simp add: div_less_iff_less_mult)
  then have a: "length (u_text (ticks div h div 86400) 1 (CHR ''0'')) \<le> 15" by (rule u_len1) simp
  have "to_u64 (int (ticks mod h) * 100) \<le> int (ticks mod h) * 100"
    unfolding to_u64_def by (rule zmod_le_nonneg_dividend) simp
  then have "nat (to_u64 (int (ticks mod h) * 100)) \<le> ticks mod h * 100" by linarith
  also have "\<dots> < 100 * h" using h by simp
  finally have "nat (to_u64 (int (ticks mod h) * 100)) div h < 100"
    using h by (simp add: div_less_iff_less_mult)
  then have b: "length (u_text (nat (to_u64 (int (ticks mod h) * 100)) div h) 2 (CHR ''0'')) = 2"
    by (intro u_text_length_fixed) auto
  have c: "length (u_text (ticks div h div 60) 1 (CHR ''0'')) \<le> 2" if "ticks div h < 3600"
    using that by (intro u_len1) auto
  have d: "length (u_text (ticks div h div 3600) 1 (CHR ''0'')) \<le> 2" if "ticks div h < 86400"
    using that by (intro u_len1) auto
  show ?thesis
    using a b c d unfolding duration_clock_size_def dur_clock_impl_def h_def [symmetric] Let_def
    by (auto simp: size_simps u_text_length_fixed)
qed

text \<open>The length of a unit list: a component of \<open>rest\<close> is at most \<open>rest div scale\<close>.\<close>

fun dur_units_text :: "(nat \<times> string) list \<Rightarrow> nat \<Rightarrow> string" where
  "dur_units_text [] rest = []"
| "dur_units_text ((scale, suffix) # cs) rest =
     (let v = rest div scale
      in if v = 0 then dur_units_text cs rest
         else u_text v 1 (CHR ''0'') @ suffix @
           (if rest mod scale = 0 then [] else dur_units_text cs (rest mod scale)))"

lemma dur_units_loop_text [text_simps]: "dur_units_loop cs rest w = fold put (dur_units_text cs rest) w"
  by (induction cs rest w rule: dur_units_loop.induct)
     (auto simp: Let_def text_simps minus_div_mult_eq_mod)

text \<open>\<open>widths cs ks\<close>: the units of \<open>cs\<close> are increasingly fine, and each count has at most \<open>ks\<close> digits.\<close>

fun widths_ok :: "nat \<Rightarrow> (nat \<times> string) list \<Rightarrow> nat list \<Rightarrow> bool" where
  "widths_ok bound [] ks = True"
| "widths_ok bound ((scale, suffix) # cs) ks =
     (case ks of [] \<Rightarrow> False
      | k # ks' \<Rightarrow> 0 < scale \<and> 0 < k \<and> bound \<le> scale * 10 ^ k \<and> scale \<le> bound \<and> widths_ok scale cs ks')"

lemma dur_units_text_length:
  "widths_ok bound cs ks \<Longrightarrow> rest < bound \<Longrightarrow>
   length (dur_units_text cs rest) \<le> (\<Sum>p\<leftarrow>cs. length (snd p)) + sum_list ks"
proof (induction cs arbitrary: bound ks rest)
  case (Cons p cs)
  obtain scale suffix where p: "p = (scale, suffix)" by (cases p)
  obtain k ks' where k: "ks = k # ks'" using Cons.prems p by (cases ks) auto
  have w: "0 < scale" "0 < k" "bound \<le> scale * 10 ^ k" "widths_ok scale cs ks'" using Cons.prems p k by auto
  have "rest div scale < 10 ^ k" using Cons.prems(2) w by (simp add: div_less_iff_less_mult mult.commute)
  then have u: "length (u_text (rest div scale) 1 (CHR ''0'')) \<le> k" using w by (intro u_len1)
  have m: "length (dur_units_text cs (rest mod scale)) \<le> (\<Sum>p\<leftarrow>cs. length (snd p)) + sum_list ks'"
    using Cons.IH [OF w(4)] w(1) by simp
  moreover have "rest mod scale = rest" if "rest div scale = 0" using that w by (simp add: div_eq_0_iff)
  ultimately show ?case using u by (auto simp: p k Let_def)
qed simp

lemma duration_units_size_le: "ns < 18446744073709551616 \<Longrightarrow> duration_units_size ns \<le> 32"
proof -
  assume ns: "ns < 18446744073709551616"
  have "widths_ok 18446744073709551616 dur_components [5, 1, 2, 2, 2, 3, 3, 3]"
    by (simp add: dur_components_def ns_per_defs)
  from dur_units_text_length [OF this ns]
  have "length (dur_units_text dur_components ns) \<le> 32"
    by (simp add: dur_components_def)
  then show ?thesis by (auto simp: duration_units_size_def dur_units_impl_def Let_def size_simps dur_units_loop_text)
qed

text \<open>The advertised buffer sizes are enough: for a valid civil time with a 32-bit year and offset the ISO 8601
  and RFC 2822 texts fit 48 bytes at every precision and style, asctime fits 32, the compact form fits 16
  for years up to 9999, and all duration texts of a 64-bit count fit 64.\<close>

theorem sizes_within_maxima:
  assumes "fields_ok c" "ns < 2 ^ 64"
  shows "iso8601_size c sd sep os \<le> iso8601_max \<and> rfc2822_size c \<le> rfc2822_max \<and> http_date_size c \<le> rfc2822_max
    \<and> asctime_size c \<le> asctime_max \<and> (c_y c \<le> 9999 \<longrightarrow> compact_size c z \<le> compact_max)
    \<and> duration_hms_size ns \<le> duration_max \<and> duration_clock_size ns hz \<le> duration_max
    \<and> duration_units_size ns \<le> duration_max"
  using iso8601_size_le [OF assms(1), of sd sep os] rfc2822_size_le [OF assms(1), of True]
    rfc2822_size_le [OF assms(1), of False] asctime_size_le [OF assms(1)]
    compact_size_le [OF assms(1)] duration_hms_size_le [of ns] duration_clock_size_le [of ns hz]
    duration_units_size_le [of ns] assms(2)
  by (simp add: iso8601_max_def rfc2822_max_def asctime_max_def compact_max_def duration_max_def
      rfc2822_size_def http_date_size_def le_trans)

definition ex_civil :: civil where
  "ex_civil = \<lparr>c_y = 2026, c_mo = 8, c_d = 14, c_h = 14, c_mi = 22, c_s = 11, c_ns = 123456789, c_off = 7200\<rparr>"

lemma ex_civil_ok: "fields_ok ex_civil"
  by code_simp

theorem sizes_within_maxima_witness:
  "fields_ok ex_civil \<and> (90061000000001::nat) < 2 ^ 64 \<and> iso8601_size ex_civil 9 Sep_iso_t Os_colon \<le> iso8601_max
   \<and> duration_units_size 90061000000001 \<le> duration_max"
  using sizes_within_maxima [OF ex_civil_ok, of 90061000000001 9 Sep_iso_t Os_colon] ex_civil_ok by simp

text \<open>The composite conversions of \<open>strftime\<close> are their expansions, and \<open>strftime\<close> reproduces the dedicated
  writers: \<open>%FT%T\<close> and its expansion give the ISO 8601 text, \<open>%c\<close> the asctime text, and for years 0 to 9999
  \<open>%a, %d %b %Y %T GMT\<close> gives the HTTP date.\<close>

theorem strftime_equivalences:
  "write_strftime buf cap (Some ''%F'') c = write_strftime buf cap (Some ''%Y-%m-%d'') c
   \<and> write_strftime buf cap (Some ''%T'') c = write_strftime buf cap (Some ''%H:%M:%S'') c
   \<and> write_strftime buf cap (Some ''%D'') c = write_strftime buf cap (Some ''%m/%d/%y'') c
   \<and> write_strftime buf cap (Some ''%r'') c = write_strftime buf cap (Some ''%I:%M:%S %p'') c
   \<and> write_strftime buf cap (Some ''%FT%T'') c = write_iso8601 buf cap c 0 Sep_iso_t Os_none
   \<and> write_strftime buf cap (Some ''%F %T'') c = write_log_stamp buf cap c 0
   \<and> write_strftime buf cap (Some ''%c'') c = write_asctime buf cap c
   \<and> (0 \<le> c_y c \<and> c_y c \<le> 9999 \<longrightarrow>
        write_strftime buf cap (Some ''%a, %d %b %Y %T GMT'') c = write_http_date buf cap c)"
proof -
  have y: "year_text (c_y c) = i_text (c_y c) 4 (CHR ''0'')" if "0 \<le> c_y c" "c_y c \<le> 9999"
    using that by (simp add: year_text_def i_text_def)
  show ?thesis
    by (intro conjI impI)
       (simp_all add: write_strftime_def strftime_impl_def strftime_spec_def text_simps write_iso8601_def
         write_log_stamp_def iso8601_impl_def asctime_impl_def write_asctime_def write_http_date_def
         rfc2822_impl_def Let_def y subsec_text_def offset_text_def)
qed

theorem strftime_equivalences_witness:
  "0 \<le> c_y ex_civil \<and> c_y ex_civil \<le> 9999 \<and>
   write_strftime (replicate 40 CHR ''x'') 40 (Some ''%a, %d %b %Y %T GMT'') ex_civil =
     write_http_date (replicate 40 CHR ''x'') 40 ex_civil"
  using strftime_equivalences [of "replicate 40 CHR ''x''" 40 ex_civil] by (simp add: ex_civil_def)

end
