(* ===== verification/Chrono_Parse.thy ===== *)
theory Chrono_Parse
  imports Chrono_Format
begin

text \<open>
  The parsers of \<^verbatim>\<open>src/src/chrono/parse.hpp\<close>.  A parser walks an index over the first \<open>n\<close> bytes
  of the input; a helper that returns \<^verbatim>\<open>false\<close> is \<open>None\<close> (no caller reads the index after a failure),
  a result carries its error as an option.  A null pointer is \<open>None\<close>.
\<close>

subsection \<open>Errors and results\<close>

datatype parse_err =
  Empty | Malformed | Bad_year | Bad_month | Bad_day | Bad_hour | Bad_minute | Bad_second
  | Bad_offset | Bad_weekday | Trailing | Overflow | No_offset

record civil_result =
  cr_c :: civil
  cr_err :: "parse_err option"
  cr_has_offset :: bool

definition civil_result0 :: civil_result where
  "civil_result0 = \<lparr>cr_c = civil_default, cr_err = None, cr_has_offset = False\<rparr>"

definition civil_result_ok :: "civil_result \<Rightarrow> bool" where
  "civil_result_ok r \<longleftrightarrow> cr_err r = None"

abbreviation fail_with :: "civil_result \<Rightarrow> parse_err \<Rightarrow> civil_result" where
  "fail_with r e \<equiv> r\<lparr>cr_err := Some e\<rparr>"

record dur_result =
  dr_ns :: u64
  dr_err :: "parse_err option"
  dr_forever :: bool

definition dur_result0 :: dur_result where
  "dur_result0 = \<lparr>dr_ns = 0, dr_err = None, dr_forever = False\<rparr>"

subsection \<open>Scanning helpers\<close>

definition is_digit :: "char \<Rightarrow> bool" where
  "is_digit c \<longleftrightarrow> 48 \<le> (of_char c :: nat) \<and> (of_char c :: nat) \<le> 57"

definition digit_val :: "char \<Rightarrow> int" where
  "digit_val c = int (of_char c) - 48"

fun fixed_digits_loop :: "string \<Rightarrow> nat \<Rightarrow> nat \<Rightarrow> u32 \<Rightarrow> (nat \<times> u32) option" where
  "fixed_digits_loop s i 0 out = Some (i, out)"
| "fixed_digits_loop s i (Suc k) out =
     (if \<not> is_digit (s ! i) then None
      else fixed_digits_loop s (i + 1) k (to_u32 (out * 10 + digit_val (s ! i))))"

definition fixed_digits :: "string \<Rightarrow> nat \<Rightarrow> nat \<Rightarrow> nat \<Rightarrow> (nat \<times> u32) option" where
  "fixed_digits s n i cnt = (if i + cnt > n then None else fixed_digits_loop s i cnt 0)"

function some_digits_loop :: "string \<Rightarrow> nat \<Rightarrow> nat \<Rightarrow> nat \<Rightarrow> u64 \<Rightarrow> nat \<Rightarrow> nat \<times> u64 \<times> nat" where
  "some_digits_loop s n i mx out taken =
     (if i < n \<and> taken < mx \<and> is_digit (s ! i)
      then some_digits_loop s n (i + 1) mx (to_u64 (out * 10 + digit_val (s ! i))) (taken + 1)
      else (i, out, taken))"
  by auto
termination by (relation "measure (\<lambda>(s, n, i, _). n - i)") auto

definition some_digits :: "string \<Rightarrow> nat \<Rightarrow> nat \<Rightarrow> nat \<Rightarrow> (nat \<times> u64 \<times> nat) option" where
  "some_digits s n i mx =
     (case some_digits_loop s n i mx 0 0 of (i', out, taken) \<Rightarrow>
        if taken \<noteq> 0 then Some (i', out, taken) else None)"

text \<open>The skipping loops \<^verbatim>\<open>while ( i < n && P(s[i]) ) ++i\<close>.\<close>

function skip_while :: "(char \<Rightarrow> bool) \<Rightarrow> string \<Rightarrow> nat \<Rightarrow> nat \<Rightarrow> nat" where
  "skip_while P s n i = (if i < n \<and> P (s ! i) then skip_while P s n (i + 1) else i)"
  by auto
termination by (relation "measure (\<lambda>(P, s, n, i). n - i)") auto

declare some_digits_loop.simps [simp del] skip_while.simps [simp del]

definition ascii_lower :: "char \<Rightarrow> char" where
  "ascii_lower a =
     (if 65 \<le> (of_char a :: nat) \<and> (of_char a :: nat) \<le> 90 then char_of ((of_char a :: nat) + 32) else a)"

definition ieq :: "string \<Rightarrow> nat \<Rightarrow> nat \<Rightarrow> string \<Rightarrow> nat \<Rightarrow> bool" where
  "ieq s n i lit k \<longleftrightarrow>
     (if i + k > n then False
      else list_all (\<lambda>j. ascii_lower (s ! (i + j)) = ascii_lower (lit ! j)) [0..<k])"

definition parse_year :: "string \<Rightarrow> nat \<Rightarrow> nat \<Rightarrow> (nat \<times> i32) option" where
  "parse_year s n i0 =
     (let expanded = (i0 < n \<and> (s ! i0 = CHR ''+'' \<or> s ! i0 = CHR ''-''));
          neg = (expanded \<and> s ! i0 = CHR ''-'');
          i = (if expanded then i0 + 1 else i0)
      in case some_digits s n i (if expanded then 9 else 4) of
           None \<Rightarrow> None
         | Some (i', v, taken) \<Rightarrow>
             if \<not> expanded \<and> taken \<noteq> 4 then None
             else if expanded \<and> taken < 4 then None
             else if v > 2000000000 then None
             else Some (i', to_i32 (if neg then - to_i64 v else to_i64 v)))"

definition offset_minutes_part :: "string \<Rightarrow> nat \<Rightarrow> nat \<Rightarrow> (nat \<times> u32) option" where
  "offset_minutes_part s n i =
     (if i < n \<and> s ! i = CHR '':'' then fixed_digits s n (i + 1) 2
      else if i < n \<and> is_digit (s ! i) then fixed_digits s n i 2
      else Some (i, 0))"

definition parse_offset :: "string \<Rightarrow> nat \<Rightarrow> nat \<Rightarrow> (nat \<times> i32) option" where
  "parse_offset s n i =
     (if i \<ge> n then None
      else if s ! i = CHR ''Z'' \<or> s ! i = CHR ''z'' then Some (i + 1, 0)
      else if s ! i \<noteq> CHR ''+'' \<and> s ! i \<noteq> CHR ''-'' then None
      else
        let neg = (s ! i = CHR ''-'')
        in case fixed_digits s n (i + 1) 2 of
             None \<Rightarrow> None
           | Some (i1, hh) \<Rightarrow>
               (case offset_minutes_part s n i1 of
                  None \<Rightarrow> None
                | Some (i2, mm) \<Rightarrow>
                    if hh > 23 \<or> mm > 59 then None
                    else
                      let mag = hh * 3600 + mm * 60
                      in Some (i2, if neg then - mag else mag)))"

subsection \<open>ISO 8601 and RFC 3339\<close>

text \<open>The tail of \<open>parse_iso8601\<close>: the optional offset, then the end of the input.\<close>

definition iso_offset :: "string \<Rightarrow> nat \<Rightarrow> civil_result \<Rightarrow> nat \<Rightarrow> civil_result" where
  "iso_offset s n r i =
     (if i < n then
        (case parse_offset s n i of
           None \<Rightarrow> fail_with r Bad_offset
         | Some (i', off) \<Rightarrow>
             let r' = r\<lparr>cr_c := (cr_c r)\<lparr>c_off := off\<rparr>, cr_has_offset := True\<rparr>
             in if i' \<noteq> n then fail_with r' Trailing else r')
      else if i \<noteq> n then fail_with r Trailing else r)"

definition iso_fraction :: "string \<Rightarrow> nat \<Rightarrow> civil_result \<Rightarrow> nat \<Rightarrow> civil_result" where
  "iso_fraction s n r i =
     (if i < n \<and> (s ! i = CHR ''.'' \<or> s ! i = CHR '','') then
        (case some_digits s n (i + 1) 9 of
           None \<Rightarrow> fail_with r Malformed
         | Some (i', frac, taken) \<Rightarrow>
             let ns = to_u32 (((\<lambda>f. to_u64 (f * 10)) ^^ (9 - taken)) frac)
             in iso_offset s n (r\<lparr>cr_c := (cr_c r)\<lparr>c_ns := ns\<rparr>\<rparr>) (skip_while is_digit s n i'))
      else iso_offset s n r i)"

definition opt_seconds :: "string \<Rightarrow> nat \<Rightarrow> nat \<Rightarrow> (nat \<times> u32) option" where
  "opt_seconds s n i = (if i < n \<and> s ! i = CHR '':'' then fixed_digits s n (i + 1) 2 else Some (i, 0))"

definition iso_time :: "string \<Rightarrow> nat \<Rightarrow> civil_result \<Rightarrow> nat \<Rightarrow> civil_result" where
  "iso_time s n r i =
     (case fixed_digits s n i 2 of
        None \<Rightarrow> fail_with r Bad_hour
      | Some (i1, h) \<Rightarrow>
          if i1 \<ge> n \<or> s ! i1 \<noteq> CHR '':'' then fail_with r Malformed
          else (case fixed_digits s n (i1 + 1) 2 of
              None \<Rightarrow> fail_with r Bad_minute
            | Some (i2, mi) \<Rightarrow>
                (case opt_seconds s n i2 of
                   None \<Rightarrow> fail_with r Bad_second
                 | Some (i3, sec) \<Rightarrow>
                     if h > 23 then fail_with r Bad_hour
                     else if mi > 59 then fail_with r Bad_minute
                     else if sec > 60 then fail_with r Bad_second
                     else iso_fraction s n (r\<lparr>cr_c := (cr_c r)\<lparr>c_h := h, c_mi := mi, c_s := sec\<rparr>\<rparr>) i3)))"

definition parse_iso8601 :: "string option \<Rightarrow> nat \<Rightarrow> civil_result" where
  "parse_iso8601 sp n =
     (case sp of None \<Rightarrow> fail_with civil_result0 Empty
      | Some s \<Rightarrow>
        if n = 0 then fail_with civil_result0 Empty
        else (case parse_year s n 0 of None \<Rightarrow> fail_with civil_result0 Bad_year
        | Some (i1, y) \<Rightarrow>
          if i1 \<ge> n \<or> s ! i1 \<noteq> CHR ''-'' then fail_with civil_result0 Malformed
          else (case fixed_digits s n (i1 + 1) 2 of None \<Rightarrow> fail_with civil_result0 Bad_month
          | Some (i2, mon) \<Rightarrow>
            if i2 \<ge> n \<or> s ! i2 \<noteq> CHR ''-'' then fail_with civil_result0 Malformed
            else (case fixed_digits s n (i2 + 1) 2 of None \<Rightarrow> fail_with civil_result0 Bad_day
            | Some (i3, d) \<Rightarrow>
              if mon < 1 \<or> mon > 12 then fail_with civil_result0 Bad_month
              else if d < 1 \<or> d > days_in_month y mon then fail_with civil_result0 Bad_day
              else
                let r = civil_result0\<lparr>cr_c := civil_default\<lparr>c_y := y, c_mo := mon, c_d := d\<rparr>\<rparr>
                in if i3 = n then r
                   else if s ! i3 \<noteq> CHR ''T'' \<and> s ! i3 \<noteq> CHR ''t'' \<and> s ! i3 \<noteq> CHR '' '' then fail_with r Malformed
                   else iso_time s n r (i3 + 1)))))"

definition parse_rfc3339 :: "string option \<Rightarrow> nat \<Rightarrow> civil_result" where
  "parse_rfc3339 s n =
     (let r = parse_iso8601 s n
      in if \<not> civil_result_ok r then r
         else if \<not> cr_has_offset r then fail_with r No_offset
         else r)"

definition to_unix :: "civil_result \<Rightarrow> i64" where
  "to_unix r =
     (let c0 = cr_c r;
          c = (if c_s c0 = 60 then c0\<lparr>c_s := 59\<rparr> else c0)
      in civil_secs c - c_off c)"

subsection \<open>RFC 2822\<close>

definition is_space :: "char \<Rightarrow> bool" where
  "is_space c \<longleftrightarrow> c = CHR '' ''"

definition rfc_weekday :: "string \<Rightarrow> nat \<Rightarrow> nat option" where
  "rfc_weekday s n =
     (if 4 \<le> n \<and> \<not> is_digit (s ! 0) then
        if list_ex (\<lambda>k. ieq s n 0 (weekday_abbr ! k) 3) [0..<7] then
          (let i = (if 3 < n \<and> s ! 3 = CHR '','' then 4 else 3) in Some (skip_while is_space s n i))
        else None
      else Some 0)"

definition rfc_month :: "string \<Rightarrow> nat \<Rightarrow> nat \<Rightarrow> nat" where
  "rfc_month s n i = (case filter (\<lambda>k. ieq s n i (month_abbr ! k) 3) [1..<13] of [] \<Rightarrow> 0 | k # _ \<Rightarrow> k)"

definition rfc_offset :: "string \<Rightarrow> nat \<Rightarrow> nat \<Rightarrow> (nat \<times> i32 \<times> bool) option" where
  "rfc_offset s n i =
     (if i < n then
        if ieq s n i ''GMT'' 3 \<or> ieq s n i ''UTC'' 3 then Some (i + 3, 0, True)
        else if ieq s n i ''UT'' 2 then Some (i + 2, 0, True)
        else (case parse_offset s n i of None \<Rightarrow> None | Some (i', off) \<Rightarrow> Some (i', off, True))
      else Some (i, 0, False))"

text \<open>The end of \<open>parse_rfc2822\<close>: trailing blanks, then the range checks.\<close>

definition rfc_finish ::
  "string \<Rightarrow> nat \<Rightarrow> nat \<Rightarrow> u64 \<Rightarrow> u32 \<Rightarrow> u64 \<Rightarrow> u32 \<Rightarrow> u32 \<Rightarrow> u32 \<Rightarrow> i32 \<Rightarrow> bool \<Rightarrow> civil_result" where
  "rfc_finish s n i yv mon dv h mi sec off has =
     (let r = civil_result0\<lparr>cr_has_offset := has\<rparr>;
          j = skip_while (\<lambda>c. c = CHR '' '' \<or> c = CHR 0x0D \<or> c = CHR 0x0A) s n i;
          y = to_i32 yv; d = to_u32 dv
      in if j \<noteq> n then fail_with r Trailing
         else if d < 1 \<or> d > days_in_month y mon then fail_with r Bad_day
         else if h > 23 then fail_with r Bad_hour
         else if mi > 59 then fail_with r Bad_minute
         else if sec > 60 then fail_with r Bad_second
         else r\<lparr>cr_c := civil_default\<lparr>c_y := y, c_mo := mon, c_d := d, c_h := h, c_mi := mi, c_s := sec, c_off := off\<rparr>\<rparr>)"

definition rfc_time :: "string \<Rightarrow> nat \<Rightarrow> nat \<Rightarrow> u64 \<Rightarrow> u32 \<Rightarrow> u64 \<Rightarrow> civil_result" where
  "rfc_time s n i yv mon dv =
     (case fixed_digits s n i 2 of None \<Rightarrow> fail_with civil_result0 Bad_hour
      | Some (i1, h) \<Rightarrow>
        if i1 \<ge> n \<or> s ! i1 \<noteq> CHR '':'' then fail_with civil_result0 Malformed
        else (case fixed_digits s n (i1 + 1) 2 of None \<Rightarrow> fail_with civil_result0 Bad_minute
        | Some (i2, mi) \<Rightarrow>
          (case opt_seconds s n i2 of None \<Rightarrow> fail_with civil_result0 Bad_second
          | Some (i3, sec) \<Rightarrow>
            (case rfc_offset s n (skip_while is_space s n i3) of None \<Rightarrow> fail_with civil_result0 Bad_offset
            | Some (i4, off, has) \<Rightarrow> rfc_finish s n i4 yv mon dv h mi sec off has))))"

definition parse_rfc2822 :: "string option \<Rightarrow> nat \<Rightarrow> civil_result" where
  "parse_rfc2822 sp n =
     (case sp of None \<Rightarrow> fail_with civil_result0 Empty
      | Some s \<Rightarrow>
        if n = 0 then fail_with civil_result0 Empty
        else (case rfc_weekday s n of None \<Rightarrow> fail_with civil_result0 Bad_weekday
        | Some i0 \<Rightarrow>
          (case some_digits s n i0 2 of None \<Rightarrow> fail_with civil_result0 Bad_day
          | Some (i1, dv, _) \<Rightarrow>
            let i2 = skip_while is_space s n i1; mon = rfc_month s n i2
            in if mon = 0 then fail_with civil_result0 Bad_month
               else (case some_digits s n (skip_while is_space s n (i2 + 3)) 4 of
                   None \<Rightarrow> fail_with civil_result0 Bad_year
                 | Some (i3, yv0, taken) \<Rightarrow>
                     let yv = (if taken = 2 then to_u64 (yv0 + (if yv0 < 50 then 2000 else 1900)) else yv0)
                     in rfc_time s n (skip_while is_space s n i3) yv (int mon) dv))))"

subsection \<open>Deadlines\<close>

record until_spec =
  us_c :: civil
  us_secs :: i64
  us_err :: "parse_err option"
  us_utc :: bool
  us_epoch :: bool
  us_time_only :: bool

definition until_spec0 :: until_spec where
  "until_spec0 = \<lparr>us_c = civil_default, us_secs = 0, us_err = None, us_utc = False, us_epoch = False,
     us_time_only = False\<rparr>"

abbreviation until_fail :: "until_spec \<Rightarrow> parse_err \<Rightarrow> until_spec" where
  "until_fail u e \<equiv> u\<lparr>us_err := Some e\<rparr>"

text \<open>The \<^verbatim>\<open>@SECONDS\<close> form.\<close>

definition until_at :: "string \<Rightarrow> nat \<Rightarrow> until_spec" where
  "until_at s n =
     (let signed = (1 < n \<and> (s ! 1 = CHR ''-'' \<or> s ! 1 = CHR ''+''));
          neg = (signed \<and> s ! 1 = CHR ''-'')
      in case some_digits s n (if signed then 2 else 1) 19 of
           None \<Rightarrow> until_fail until_spec0 Malformed
         | Some (i, v, _) \<Rightarrow>
             if i \<noteq> n then until_fail until_spec0 Trailing
             else if v > 9223372036854775807 then until_fail until_spec0 Overflow
             else until_spec0\<lparr>us_epoch := True, us_secs := (if neg then - to_i64 v else to_i64 v)\<rparr>)"

text \<open>The \<^verbatim>\<open>HH:MM[:SS]\<close> form.\<close>

definition until_clock :: "string \<Rightarrow> nat \<Rightarrow> until_spec \<Rightarrow> until_spec" where
  "until_clock s len u =
     (case fixed_digits s len 0 2 of None \<Rightarrow> until_fail u Bad_hour
      | Some (i1, h) \<Rightarrow>
        if i1 \<ge> len \<or> s ! i1 \<noteq> CHR '':'' then until_fail u Malformed
        else (case fixed_digits s len (i1 + 1) 2 of None \<Rightarrow> until_fail u Bad_minute
        | Some (i2, mi) \<Rightarrow>
          (case opt_seconds s len i2 of None \<Rightarrow> until_fail u Bad_second
          | Some (i3, sec) \<Rightarrow>
            if i3 \<noteq> len then until_fail u Trailing
            else if h > 23 then until_fail u Bad_hour
            else if mi > 59 then until_fail u Bad_minute
            else if sec > 59 then until_fail u Bad_second
            else u\<lparr>us_time_only := True, us_c := (us_c u)\<lparr>c_h := h, c_mi := mi, c_s := sec\<rparr>\<rparr>)))"

definition parse_until :: "string option \<Rightarrow> nat \<Rightarrow> until_spec" where
  "parse_until sp n =
     (case sp of None \<Rightarrow> until_fail until_spec0 Empty
      | Some s \<Rightarrow>
        if n = 0 then until_fail until_spec0 Empty
        else if s ! 0 = CHR ''@'' then until_at s n
        else
          let utc = (s ! (n - 1) = CHR ''Z'' \<or> s ! (n - 1) = CHR ''z'');
              len = (if utc then n - 1 else n);
              u = until_spec0\<lparr>us_utc := utc\<rparr>;
              has_dash = list_ex (\<lambda>k. s ! k = CHR ''-'') [0..<len]
          in if \<not> has_dash then until_clock s len u
             else
               let r = parse_iso8601 (Some s) len
               in case cr_err r of
                    Some e \<Rightarrow> until_fail u e
                  | None \<Rightarrow> if cr_has_offset r then until_fail u Trailing else u\<lparr>us_c := cr_c r\<rparr>)"

definition until_epoch :: "until_spec \<Rightarrow> i64 \<Rightarrow> tz_table \<Rightarrow> i64" where
  "until_epoch u now t =
     (if us_epoch u then us_secs u
      else
        let resolve = (\<lambda>c. if us_utc u then civil_secs c else from_civil c t);
            today = to_civil now (if us_utc u then 0 else offset_at t now);
            c = (if us_time_only u then (us_c u)\<lparr>c_y := c_y today, c_mo := c_mo today, c_d := c_d today\<rparr> else us_c u);
            e = resolve c
        in if us_time_only u \<and> e \<le> now then
             let mid = c\<lparr>c_h := 0, c_mi := 0, c_s := 0\<rparr>;
                 nxt = to_civil (civil_secs mid + 86400) 0
             in resolve (c\<lparr>c_y := c_y nxt, c_mo := c_mo nxt, c_d := c_d nxt\<rparr>)
           else e)"

subsection \<open>Durations\<close>

definition u64_max :: int where
  "u64_max = 18446744073709551615"

definition dur_pow10 :: "nat \<Rightarrow> u64" where
  "dur_pow10 e = ((\<lambda>v. to_u64 (v * 10)) ^^ e) 1"

definition dur_unit :: "string \<Rightarrow> nat \<Rightarrow> nat \<Rightarrow> nat \<times> u64" where
  "dur_unit s n i =
     (if i + 1 < n \<and> s ! i = CHR ''n'' \<and> s ! (i + 1) = CHR ''s'' then (2, 1)
      else if i + 1 < n \<and> s ! i = CHR ''u'' \<and> s ! (i + 1) = CHR ''s'' then (2, int ns_per_us)
      else if i + 1 < n \<and> s ! i = CHR ''m'' \<and> s ! (i + 1) = CHR ''s'' then (2, int ns_per_ms)
      else if i < n \<and> s ! i = CHR ''s'' then (1, int ns_per_s)
      else if i < n \<and> s ! i = CHR ''m'' then (1, int ns_per_min)
      else if i < n \<and> s ! i = CHR ''h'' then (1, int ns_per_hour)
      else if i < n \<and> s ! i = CHR ''d'' then (1, int ns_per_day)
      else if i < n \<and> s ! i = CHR ''w'' then (1, int ns_per_week)
      else (0, int ns_per_s))"

definition dur_add :: "u64 \<Rightarrow> u64 \<Rightarrow> u64 option" where
  "dur_add acc v = (if acc > u64_max - v then None else Some (to_u64 (acc + v)))"

definition dur_mul :: "u64 \<Rightarrow> u64 \<Rightarrow> u64 option" where
  "dur_mul a b = (if a \<noteq> 0 \<and> b > u64_max div a then None else Some (to_u64 (a * b)))"

definition dur_fraction :: "string \<Rightarrow> nat \<Rightarrow> nat \<Rightarrow> (nat \<times> u64 \<times> nat) option" where
  "dur_fraction s n i =
     (if i < n \<and> s ! i = CHR ''.'' then
        (case some_digits s n (i + 1) 9 of None \<Rightarrow> None
         | Some (i', frac, ftaken) \<Rightarrow> Some (skip_while is_digit s n i', frac, ftaken))
      else Some (i, 0, 0))"

definition dur_part :: "u64 \<Rightarrow> u64 \<Rightarrow> nat \<Rightarrow> u64 \<Rightarrow> u64 option" where
  "dur_part whole frac ftaken scale =
     (case dur_mul whole scale of None \<Rightarrow> None
      | Some part \<Rightarrow>
          if ftaken \<noteq> 0 then
            (case dur_mul frac scale of None \<Rightarrow> None
             | Some num \<Rightarrow> dur_add part (num div dur_pow10 ftaken))
          else Some part)"

text \<open>One turn of the loop: the next index and tot, or the error.\<close>

definition dur_item :: "string \<Rightarrow> nat \<Rightarrow> nat \<Rightarrow> u64 \<Rightarrow> parse_err + nat \<times> u64" where
  "dur_item s n i tot =
     (case some_digits s n i 19 of None \<Rightarrow> Inl Malformed
      | Some (i1, whole, _) \<Rightarrow>
        (case dur_fraction s n i1 of None \<Rightarrow> Inl Malformed
         | Some (i2, frac, ftaken) \<Rightarrow>
           (case dur_unit s n i2 of (slen, scale) \<Rightarrow>
              (case dur_part whole frac ftaken scale of None \<Rightarrow> Inl Overflow
               | Some part \<Rightarrow>
                 (case dur_add tot part of None \<Rightarrow> Inl Overflow
                  | Some tot' \<Rightarrow>
                    if slen = 0 \<and> i2 + slen \<noteq> n then Inl Trailing else Inr (i2 + slen, tot'))))))"

lemma some_digits_loop_bounds:
  "some_digits_loop s n i mx out taken = (i', out', taken') \<Longrightarrow>
   i \<le> i' \<and> taken \<le> taken' \<and> i' - i = taken' - taken \<and> (i \<le> n \<longrightarrow> i' \<le> n)"
proof (induction s n i mx out taken rule: some_digits_loop.induct)
  case (1 s n i mx out taken)
  show ?case
  proof (cases "i < n \<and> taken < mx \<and> is_digit (s ! i)")
    case True
    then have "some_digits_loop s n (i + 1) mx (to_u64 (out * 10 + digit_val (s ! i))) (taken + 1) = (i', out', taken')"
      using "1.prems" by (subst (asm) some_digits_loop.simps) simp
    from "1.IH" [OF True this] show ?thesis using True by auto
  next
    case False
    then show ?thesis using "1.prems" by (subst (asm) some_digits_loop.simps) auto
  qed
qed

lemma some_digits_progress: "some_digits s n i mx = Some (i', v, t) \<Longrightarrow> i < i' \<and> (i \<le> n \<longrightarrow> i' \<le> n)"
  using some_digits_loop_bounds [of s n i mx 0 0] by (auto simp: some_digits_def split: prod.splits if_splits)

lemma skip_while_bounds: "i \<le> skip_while P s n i \<and> (i \<le> n \<longrightarrow> skip_while P s n i \<le> n)"
  by (induction P s n i rule: skip_while.induct) (subst (1 2) skip_while.simps, auto)

lemma dur_fraction_bounds: "dur_fraction s n i = Some (i', fr, ft) \<Longrightarrow> i \<le> i' \<and> (i \<le> n \<longrightarrow> i' \<le> n)"
proof (cases "i < n \<and> s ! i = CHR ''.''")
  case True
  assume "dur_fraction s n i = Some (i', fr, ft)"
  then obtain k where k: "some_digits s n (i + 1) 9 = Some (k, fr, ft)" "i' = skip_while is_digit s n k"
    using True by (auto simp: dur_fraction_def split: option.splits)
  then show ?thesis using True some_digits_progress [OF k(1)] skip_while_bounds [of k is_digit s n] by auto
qed (auto simp: dur_fraction_def)

lemma dur_item_progress: "dur_item s n i tot = Inr (i', tot') \<Longrightarrow> i < i'"
proof -
  assume a: "dur_item s n i tot = Inr (i', tot')"
  obtain i1 w wt where s: "some_digits s n i 19 = Some (i1, w, wt)"
    using a by (cases "some_digits s n i 19") (auto simp: dur_item_def)
  obtain i2 fr ft where f: "dur_fraction s n i1 = Some (i2, fr, ft)"
    using a s by (cases "dur_fraction s n i1") (auto simp: dur_item_def)
  obtain sl sc where u: "dur_unit s n i2 = (sl, sc)" by (cases "dur_unit s n i2")
  have "i' = i2 + sl"
    using a by (simp add: dur_item_def s f u split: option.splits if_splits)
  then show ?thesis using some_digits_progress [OF s] dur_fraction_bounds [OF f] by linarith
qed

function dur_loop :: "string \<Rightarrow> nat \<Rightarrow> nat \<Rightarrow> u64 \<Rightarrow> bool \<Rightarrow> parse_err + u64" where
  "dur_loop s n i tot any =
     (if i < n then
        (case dur_item s n i tot of
           Inl e \<Rightarrow> Inl e
         | Inr (i', tot') \<Rightarrow> dur_loop s n i' tot' True)
      else if \<not> any then Inl Malformed else Inr tot)"
  by auto
termination by (relation "measure (\<lambda>(s, n, i, _). n - i)") (auto dest: dur_item_progress [OF sym] dur_item_progress)

declare dur_loop.simps [simp del]

definition parse_duration_ns :: "string option \<Rightarrow> nat \<Rightarrow> dur_result" where
  "parse_duration_ns sp n =
     (case sp of None \<Rightarrow> dur_result0\<lparr>dr_err := Some Empty\<rparr>
      | Some s \<Rightarrow>
        if n = 0 then dur_result0\<lparr>dr_err := Some Empty\<rparr>
        else if ieq s n 0 ''infinity'' 8 \<and> n = 8 then dur_result0\<lparr>dr_forever := True, dr_ns := u64_max\<rparr>
        else if ieq s n 0 ''inf'' 3 \<and> n = 3 then dur_result0\<lparr>dr_forever := True, dr_ns := u64_max\<rparr>
        else (case dur_loop s n 0 0 False of
            Inl e \<Rightarrow> dur_result0\<lparr>dr_err := Some e\<rparr>
          | Inr tot \<Rightarrow> dur_result0\<lparr>dr_ns := tot\<rparr>))"

subsection \<open>What is left of the input\<close>

definition rest_at :: "string \<Rightarrow> nat \<Rightarrow> nat \<Rightarrow> string \<Rightarrow> bool" where
  "rest_at s n i xs \<longleftrightarrow> i \<le> n \<and> n \<le> length s \<and> drop i (take n s) = xs"

lemma rest_at_Nil: "rest_at s n i [] \<Longrightarrow> i = n"
  by (auto simp: rest_at_def)

lemma rest_at_Cons:
  assumes "rest_at s n i (x # xs)"
  shows "i < n" "s ! i = x" "rest_at s n (Suc i) xs"
proof -
  have d: "drop i (take n s) = x # xs" "i \<le> n" "n \<le> length s" using assms by (auto simp: rest_at_def)
  then show i: "i < n" by (cases "i = n") auto
  have "take n s ! i = x" using d by (metis nth_drop nth_Cons_0 add_0_right length_take min.absorb2)
  then show "s ! i = x" using i by simp
  have "drop (Suc i) (take n s) = tl (drop i (take n s))" by (simp add: drop_Suc tl_drop)
  then show "rest_at s n (Suc i) xs" using d i by (simp add: rest_at_def)
qed

lemma rest_at_append: "rest_at s n i (xs @ ys) \<Longrightarrow> rest_at s n (i + length xs) ys"
  by (induction xs arbitrary: i) (auto dest!: rest_at_Cons(3) simp flip: add_Suc)

lemma rest_at_start: "n \<le> length s \<Longrightarrow> take n s = xs \<Longrightarrow> rest_at s n 0 xs"
  by (simp add: rest_at_def)

subsection \<open>Digits read back\<close>

definition dec_val :: "string \<Rightarrow> int" where
  "dec_val ds = foldl (\<lambda>a c. a * 10 + digit_val c) 0 ds"

lemma dec_val_snoc: "dec_val (ds @ [c]) = dec_val ds * 10 + digit_val c"
  by (simp add: dec_val_def)

lemma digit_char: "d < 10 \<Longrightarrow> is_digit (char_of (48 + d :: nat)) \<and> digit_val (char_of (48 + d :: nat)) = int d"
  by (simp add: is_digit_def digit_val_def)

lemma digit_val_range: "is_digit c \<Longrightarrow> 0 \<le> digit_val c \<and> digit_val c \<le> 9"
proof -
  assume "is_digit c"
  then have "48 \<le> (of_char c :: nat)" "(of_char c :: nat) \<le> 57" by (auto simp: is_digit_def)
  then show ?thesis unfolding digit_val_def by linarith
qed

lemma dec_val_range: "list_all is_digit ds \<Longrightarrow> 0 \<le> dec_val ds \<and> dec_val ds < 10 ^ length ds"
proof (induction ds rule: rev_induct)
  case (snoc c ds)
  then show ?case using digit_val_range [of c] by (auto simp: dec_val_snoc)
qed (simp add: dec_val_def)

lemma tmp_digits_val: "list_all is_digit (tmp_digits v) \<and> dec_val (rev (tmp_digits v)) = int v"
proof (induction v rule: tmp_digits.induct)
  case (1 v)
  show ?case
  proof (cases "v div 10 = 0")
    case True
    then show ?thesis using digit_char [of v] by (subst (1 2) tmp_digits.simps) (simp add: dec_val_def)
  next
    case False
    have "int (v div 10) * 10 + int (v mod 10) = int v" by presburger
    then show ?thesis
      using 1 False digit_char [of "v mod 10"] by (subst (1 2) tmp_digits.simps) (simp add: dec_val_snoc)
  qed
qed

lemma dec_val_zeros: "dec_val (replicate k (CHR ''0'') @ ds) = dec_val ds"
  by (induction k) (simp_all add: dec_val_def digit_val_def)

lemma u_text_val: "dec_val (u_text v width (CHR ''0'')) = int v"
  using tmp_digits_val [of v] by (simp add: u_text_def dec_val_zeros)

lemma u_text_digits: "list_all is_digit (u_text v width (CHR ''0''))"
  using tmp_digits_val [of v] by (simp add: u_text_def list_all_iff set_replicate_conv_if is_digit_def)

lemma u_text_nonempty: "u_text v width f \<noteq> []"
  using tmp_digits_nonempty [of v] by (auto simp: u_text_def)

lemma fixed_digits_loop_at:
  assumes "rest_at s n i (ds @ r)" "list_all is_digit ds" "dec_val pre * 10 ^ length ds + 10 ^ length ds \<le> 4294967296"
    and "list_all is_digit pre"
  shows "fixed_digits_loop s i (length ds) (dec_val pre) = Some (i + length ds, dec_val (pre @ ds))"
  using assms
proof (induction ds arbitrary: i pre)
  case (Cons c ds)
  have c: "s ! i = c" "is_digit c" "rest_at s n (Suc i) (ds @ r)" using Cons.prems rest_at_Cons by auto
  have r: "0 \<le> dec_val pre" using dec_val_range Cons.prems by blast
  have p: "(1::int) \<le> 10 ^ length ds" by simp
  have b: "(dec_val pre * 10 + 10) * 10 ^ length ds \<le> 4294967296"
    using Cons.prems(3) by (simp add: algebra_simps)
  moreover have "dec_val pre * 10 + 10 \<le> (dec_val pre * 10 + 10) * 10 ^ length ds"
    using r p mult_left_mono [OF p, of "dec_val pre * 10 + 10"] by simp
  ultimately have "dec_val pre * 10 + digit_val c < 4294967296" using digit_val_range [OF c(2)] by linarith
  then have t: "to_u32 (dec_val pre * 10 + digit_val c) = dec_val (pre @ [c])"
    using r digit_val_range [OF c(2)] by (simp add: dec_val_snoc to_u32_id)
  have "(dec_val (pre @ [c]) + 1) * 10 ^ length ds \<le> (dec_val pre * 10 + 10) * 10 ^ length ds"
    using digit_val_range [OF c(2)] by (intro mult_right_mono) (auto simp: dec_val_snoc)
  then have "dec_val (pre @ [c]) * 10 ^ length ds + 10 ^ length ds \<le> 4294967296"
    using b by (simp add: algebra_simps)
  from Cons.IH [OF c(3) _ this] show ?case using Cons.prems c by (simp add: t)
qed simp

lemma fixed2_at:
  assumes "rest_at s n i (d2 v @ r)" "0 \<le> v" "v < 100"
  shows "fixed_digits s n i 2 = Some (i + 2, v) \<and> rest_at s n (i + 2) r"
proof -
  have l: "length (d2 v) = 2" using assms d2_length by simp
  have "rest_at s n (i + 2) r" using rest_at_append [OF assms(1)] l by simp
  moreover have "dec_val (d2 v) = v" using assms u_text_val by simp
  moreover have "fixed_digits_loop s i (length (d2 v)) (dec_val []) = Some (i + length (d2 v), dec_val ([] @ d2 v))"
    by (rule fixed_digits_loop_at [OF assms(1)]) (simp_all add: u_text_digits l, simp add: dec_val_def)
  then have "fixed_digits_loop s i 2 0 = Some (i + 2, dec_val (d2 v))" using l by (simp add: dec_val_def)
  ultimately show ?thesis by (auto simp: fixed_digits_def rest_at_def)
qed

definition stops :: "nat \<Rightarrow> nat \<Rightarrow> string \<Rightarrow> bool" where
  "stops k mx r \<longleftrightarrow> k = mx \<or> r = [] \<or> \<not> is_digit (hd r)"

lemma some_digits_loop_at:
  assumes "rest_at s n i (ds @ r)" "list_all is_digit (pre @ ds)" "length pre + length ds \<le> mx"
    "length pre + length ds \<le> 19" "stops (length pre + length ds) mx r"
  shows "some_digits_loop s n i mx (dec_val pre) (length pre) =
    (i + length ds, dec_val (pre @ ds), length pre + length ds)"
  using assms
proof (induction ds arbitrary: i pre)
  case Nil
  then have "\<not> (i < n \<and> length pre < mx \<and> is_digit (s ! i))"
    using rest_at_Nil rest_at_Cons(2) by (cases r) (auto simp: stops_def)
  then show ?case by (subst some_digits_loop.simps) auto
next
  case (Cons c ds)
  have c: "s ! i = c" "is_digit c" "rest_at s n (Suc i) (ds @ r)" "i < n" using Cons.prems rest_at_Cons by auto
  have "0 \<le> dec_val (pre @ [c]) \<and> dec_val (pre @ [c]) < 10 ^ length (pre @ [c])"
    using Cons.prems by (intro dec_val_range) simp
  moreover have "(10::int) ^ length (pre @ [c]) \<le> 10 ^ 19"
    using Cons.prems by (intro power_increasing) auto
  ultimately have t: "to_u64 (dec_val pre * 10 + digit_val c) = dec_val (pre @ [c])"
    by (simp add: dec_val_snoc to_u64_id)
  have "some_digits_loop s n i mx (dec_val pre) (length pre) =
      some_digits_loop s n (Suc i) mx (dec_val (pre @ [c])) (length (pre @ [c]))"
    using c Cons.prems by (subst some_digits_loop.simps) (simp add: t)
  also have "\<dots> = (Suc i + length ds, dec_val ((pre @ [c]) @ ds), length (pre @ [c]) + length ds)"
    using Cons.IH [OF c(3), of "pre @ [c]"] Cons.prems by simp
  finally show ?case by simp
qed

lemma some_digits_at:
  assumes "rest_at s n i (ds @ r)" "list_all is_digit ds" "ds \<noteq> []" "length ds \<le> mx" "length ds \<le> 19"
    "stops (length ds) mx r"
  shows "some_digits s n i mx = Some (i + length ds, dec_val ds, length ds) \<and> rest_at s n (i + length ds) r"
proof -
  have "some_digits_loop s n i mx (dec_val []) (length ([]::string)) = (i + length ds, dec_val ([] @ ds), length ([]::string) + length ds)"
    using assms by (intro some_digits_loop_at) auto
  then show ?thesis using assms rest_at_append [OF assms(1)] by (simp add: some_digits_def dec_val_def)
qed

subsection \<open>Parsers on the writers' texts\<close>

lemma year_text_parse:
  assumes "rest_at s n i (year_text y @ CHR ''-'' # r)" "\<bar>y\<bar> \<le> 999999999"
  shows "\<exists>j. parse_year s n i = Some (j, y) \<and> rest_at s n j (CHR ''-'' # r)"
proof (cases "0 \<le> y \<and> y \<le> 9999")
  case True
  define ds where "ds = u_text (nat y) 4 (CHR ''0'')"
  have t: "year_text y = ds" using True by (simp add: year_text_def ds_def to_u64_id)
  have l: "length ds = 4" unfolding ds_def using True by (intro u_text_length_fixed) auto
  have dd: "list_all is_digit ds" "dec_val ds = y" using True by (simp_all add: ds_def u_text_digits u_text_val)
  have "\<not> (i < n \<and> (s ! i = CHR ''+'' \<or> s ! i = CHR ''-''))"
    using assms(1) t l dd(1) rest_at_Cons(2) by (cases ds) (auto simp: is_digit_def)
  moreover have "some_digits s n i 4 = Some (i + length ds, dec_val ds, length ds) \<and> rest_at s n (i + length ds) (CHR ''-'' # r)"
    using assms(1) t l dd(1) by (intro some_digits_at) (auto simp: stops_def)
  ultimately show ?thesis using True l dd by (auto simp: parse_year_def to_i32_id to_i64_id)
next
  case False
  define m where "m = \<bar>y\<bar>"
  define ds where "ds = u_text (nat m) 4 (CHR ''0'')"
  have t: "year_text y = (if y < 0 then CHR ''-'' else CHR ''+'') # ds"
    using False assms(2) by (auto simp: year_text_def ds_def m_def to_u64_id)
  have l: "length ds \<le> 9" unfolding ds_def using assms(2) by (intro u_text_length) (auto simp: m_def)
  have l4: "4 \<le> length ds" by (simp add: ds_def u_text_def)
  have dd: "list_all is_digit ds" "dec_val ds = m" by (simp_all add: ds_def u_text_digits u_text_val m_def)
  have i: "i < n" "s ! i = (if y < 0 then CHR ''-'' else CHR ''+'')" "rest_at s n (Suc i) (ds @ CHR ''-'' # r)"
    using assms(1) t rest_at_Cons by auto
  have "some_digits s n (Suc i) 9 = Some (Suc i + length ds, dec_val ds, length ds) \<and> rest_at s n (Suc i + length ds) (CHR ''-'' # r)"
    using i(3) l l4 dd(1) by (intro some_digits_at) (auto simp: stops_def is_digit_def)
  then show ?thesis using i l4 dd assms(2) by (auto simp: parse_year_def m_def to_i32_id to_i64_id)
qed

definition offset_parsable :: "int \<Rightarrow> bool" where
  "offset_parsable off \<longleftrightarrow> \<bar>off\<bar> < 86400 \<and> 60 dvd off"

lemma offset_text_parse:
  assumes "rest_at s n i (offset_text off os @ r)" "offset_parsable off" "os \<noteq> Os_none" "r = [] \<or> \<not> is_digit (hd r) \<and> hd r \<noteq> CHR '':''"
  shows "\<exists>j. parse_offset s n i = Some (j, off) \<and> rest_at s n j r \<and> i < n"
proof (cases "off = 0 \<and> (os = Os_z_or_colon \<or> os = Os_z_or_compact)")
  case True
  then have "offset_text off os = ''Z''" by (auto simp: offset_text_def)
  then show ?thesis using True assms(1) rest_at_Cons [of s n i "CHR ''Z''" r] by (auto simp: parse_offset_def)
next
  case False
  define m where "m = \<bar>off\<bar>"
  have m: "to_u32 (if off < 0 then - off else off) = m" "0 \<le> m" "m < 86400"
    using assms(2) by (auto simp: m_def offset_parsable_def to_u32_id)
  have "60 dvd m" using assms(2) by (simp add: m_def offset_parsable_def)
  then obtain k where k: "m = 60 * k" by (elim dvdE)
  define H M where "H = m div 3600" and "M = m mod 3600 div 60"
  have "m mod 3600 = 60 * (k mod 60)" using mult_mod_right [of 60 k 60] by (simp add: k)
  then have "H = k div 60" "M = k mod 60" by (simp_all add: H_def M_def k)
  then have mm: "m = H * 3600 + M * 60" using div_mult_mod_eq [of k 60] k by linarith
  have "H \<le> 86399 div 3600" unfolding H_def using m by (intro zdiv_mono1) auto
  moreover have "m mod 3600 < 3600" by simp
  then have "M \<le> 3599 div 60" unfolding M_def by (intro zdiv_mono1) auto
  ultimately have hr: "0 \<le> H" "H \<le> 23" "0 \<le> M" "M \<le> 59" using m(2) by (auto simp: H_def M_def)
  let ?sg = "if off < 0 then CHR ''-'' else CHR ''+''"
  let ?col = "if os = Os_z_or_colon \<or> os = Os_colon then '':'' else []"
  have t: "offset_text off os = ?sg # d2 (H) @ ?col @ d2 (M)"
    using False assms(3) by (simp add: offset_text_def m Let_def H_def M_def)
  have i: "i < n" "s ! i = ?sg" "rest_at s n (Suc i) (d2 (H) @ ?col @ d2 (M) @ r)"
    using assms(1) rest_at_Cons unfolding t by auto
  have h: "fixed_digits s n (Suc i) 2 = Some (Suc i + 2, H) \<and> rest_at s n (Suc i + 2) (?col @ d2 (M) @ r)"
    using i(3) hr by (intro fixed2_at) auto
  have mp: "\<exists>j. offset_minutes_part s n (Suc i + 2) = Some (j, M) \<and> rest_at s n j r"
  proof (cases "os = Os_z_or_colon \<or> os = Os_colon")
    case True
    then have c: "rest_at s n (Suc i + 2) (CHR '':'' # d2 (M) @ r)" using h by simp
    have "fixed_digits s n (Suc (Suc i + 2)) 2 = Some (Suc (Suc i + 2) + 2, M) \<and> rest_at s n (Suc (Suc i + 2) + 2) r"
      using rest_at_Cons(3) [OF c] hr by (intro fixed2_at) auto
    then show ?thesis using rest_at_Cons(1,2) [OF c] by (auto simp: offset_minutes_part_def)
  next
    case no: False
    have c: "rest_at s n (Suc i + 2) (d2 (M) @ r)" using h no by simp
    have f: "fixed_digits s n (Suc i + 2) 2 = Some (Suc i + 2 + 2, M) \<and> rest_at s n (Suc i + 2 + 2) r"
      using c hr by (intro fixed2_at) auto
    obtain x xs where x: "d2 (M) = x # xs" using u_text_nonempty by (meson neq_Nil_conv)
    have "is_digit x" using u_text_digits [of "nat (M)" 2] by (simp add: x)
    moreover have "s ! (Suc i + 2) = x" "Suc i + 2 < n" using rest_at_Cons(1,2) [of s n "Suc i + 2" x "xs @ r"] c x by auto
    ultimately show ?thesis using f by (auto simp: offset_minutes_part_def is_digit_def)
  qed
  obtain j where j: "offset_minutes_part s n (Suc i + 2) = Some (j, M)" "rest_at s n j r" using mp by blast
  have "(if off < 0 then - m else m) = off" by (auto simp: m_def)
  then have o: "(if off < 0 then - (H * 3600 + M * 60) else H * 3600 + M * 60) = off" unfolding mm [symmetric] .
  have neg: "(s ! i = CHR ''-'') = (off < 0)" "s ! i \<noteq> CHR ''Z''" "s ! i \<noteq> CHR ''z''" "s ! i = CHR ''+'' \<or> s ! i = CHR ''-''"
    using i(2) by auto
  have "parse_offset s n i = Some (j, off)"
    using i(1) neg h j hr o by (simp add: parse_offset_def Let_def)
  then show ?thesis using j i(1) by blast
qed

lemma iso_fraction_parse:
  assumes "rest_at s n i (subsec_text ns 9 @ r)" "0 \<le> ns" "ns < 1000000000" "r = [] \<or> \<not> is_digit (hd r)"
  shows "\<exists>j. iso_fraction s n res i = iso_offset s n (res\<lparr>cr_c := (cr_c res)\<lparr>c_ns := ns\<rparr>\<rparr>) j \<and> rest_at s n j r"
proof -
  define ds where "ds = u_text (nat ns) 9 (CHR ''0'')"
  have t: "subsec_text ns 9 = CHR ''.'' # ds" using subsec_text_eq [OF assms(2), of 9] by (simp add: ds_def)
  have l: "length ds = 9" unfolding ds_def using assms by (intro u_text_length_fixed) auto
  have dd: "list_all is_digit ds" "dec_val ds = ns" using assms by (simp_all add: ds_def u_text_digits u_text_val)
  have i: "i < n" "s ! i = CHR ''.''" "rest_at s n (Suc i) (ds @ r)" using assms(1) rest_at_Cons unfolding t by auto
  have f: "some_digits s n (Suc i) 9 = Some (Suc i + length ds, dec_val ds, length ds) \<and> rest_at s n (Suc i + length ds) r"
    using i(3) l dd by (intro some_digits_at) (auto simp: stops_def)
  have "skip_while is_digit s n (Suc i + length ds) = Suc i + length ds"
    using f assms(4) rest_at_Nil rest_at_Cons(2) by (subst skip_while.simps, cases r) auto
  then show ?thesis using i f l dd assms by (auto simp: iso_fraction_def to_u32_id)
qed

lemma offset_text_head: "offset_text off os @ [] = x # xs \<Longrightarrow> \<not> is_digit x"
  by (auto simp: offset_text_def Let_def is_digit_def split: if_splits)

lemma iso_time_parse:
  assumes "rest_at s n i (time_text c @ subsec_text (c_ns c) 9 @ offset_text (c_off c) os)" "fields_ok c"
    "offset_parsable (c_off c)" "os \<noteq> Os_none"
  shows "iso_time s n res i = res\<lparr>cr_c := (cr_c res)\<lparr>c_h := c_h c, c_mi := c_mi c, c_s := c_s c, c_ns := c_ns c,
    c_off := c_off c\<rparr>, cr_has_offset := True\<rparr>"
proof -
  let ?t = "subsec_text (c_ns c) 9 @ offset_text (c_off c) os"
  have fr: "0 \<le> c_h c" "c_h c < 24" "0 \<le> c_mi c" "c_mi c < 60" "0 \<le> c_s c" "c_s c < 61" "0 \<le> c_ns c" "c_ns c < 1000000000"
    using assms(2) by (auto simp: fields_ok_def civil_wf_def civil_is_valid_def)
  have r0: "rest_at s n i (d2 (c_h c) @ CHR '':'' # d2 (c_mi c) @ CHR '':'' # d2 (c_s c) @ ?t)"
    using assms(1) by (simp add: time_text_def)
  have h: "fixed_digits s n i 2 = Some (i + 2, c_h c)" and r1: "rest_at s n (i + 2) (CHR '':'' # d2 (c_mi c) @ CHR '':'' # d2 (c_s c) @ ?t)"
    using fixed2_at [OF r0] fr by auto
  note c1 = rest_at_Cons [OF r1]
  have m: "fixed_digits s n (Suc (i + 2)) 2 = Some (Suc (i + 2) + 2, c_mi c)" and r2: "rest_at s n (Suc (i + 2) + 2) (CHR '':'' # d2 (c_s c) @ ?t)"
    using fixed2_at [OF c1(3)] fr by auto
  note c2 = rest_at_Cons [OF r2]
  have sec: "fixed_digits s n (Suc (Suc (i + 2) + 2)) 2 = Some (Suc (Suc (i + 2) + 2) + 2, c_s c)"
    and r3: "rest_at s n (Suc (Suc (i + 2) + 2) + 2) ?t"
    using fixed2_at [OF c2(3)] fr by auto
  let ?res = "res\<lparr>cr_c := (cr_c res)\<lparr>c_h := c_h c, c_mi := c_mi c, c_s := c_s c\<rparr>\<rparr>"
  have "offset_text (c_off c) os = [] \<or> \<not> is_digit (hd (offset_text (c_off c) os))"
    using offset_text_head [of "c_off c" os] by (cases "offset_text (c_off c) os") auto
  then obtain j where j: "iso_fraction s n ?res (Suc (Suc (i + 2) + 2) + 2) =
      iso_offset s n (?res\<lparr>cr_c := (cr_c ?res)\<lparr>c_ns := c_ns c\<rparr>\<rparr>) j" "rest_at s n j (offset_text (c_off c) os)"
    using iso_fraction_parse [OF r3 fr(7,8)] by blast
  have r4: "rest_at s n j (offset_text (c_off c) os @ [])" using j by simp
  obtain k where "parse_offset s n j = Some (k, c_off c)" "rest_at s n k []" "j < n"
    using offset_text_parse [OF r4 assms(3,4)] by auto
  then have "iso_offset s n (?res\<lparr>cr_c := (cr_c ?res)\<lparr>c_ns := c_ns c\<rparr>\<rparr>) j =
     res\<lparr>cr_c := (cr_c res)\<lparr>c_h := c_h c, c_mi := c_mi c, c_s := c_s c, c_ns := c_ns c, c_off := c_off c\<rparr>, cr_has_offset := True\<rparr>"
    using rest_at_Nil by (simp add: iso_offset_def Let_def)
  then show ?thesis using h m sec c1 c2 fr j(1) by (simp add: iso_time_def opt_seconds_def)
qed

lemma iso8601_text_parse:
  assumes "rest_at s n 0 (iso8601_text c 9 sep os)" "fields_ok c"
    "offset_parsable (c_off c)" "\<bar>c_y c\<bar> \<le> 999999999" "os \<noteq> Os_none"
  shows "parse_iso8601 (Some s) n = \<lparr>cr_c = c, cr_err = None, cr_has_offset = True\<rparr>"
proof -
  let ?t = "time_text c @ subsec_text (c_ns c) 9 @ offset_text (c_off c) os"
  let ?sep = "if sep = Sep_space then CHR '' '' else CHR ''T''"
  have v: "civil_valid (c_y c) (c_mo c) (c_d c)" using assms(2) by (simp add: fields_ok_def civil_is_valid_def)
  have d: "1 \<le> c_mo c" "c_mo c \<le> 12" "1 \<le> c_d c" "c_d c \<le> days_in_month (c_y c) (c_mo c)"
    using v by (auto simp: civil_valid_def)
  have d31: "c_d c \<le> 31" using d days_in_month_le [of "c_mo c" "c_y c"] by linarith
  have r0: "rest_at s n 0 (year_text (c_y c) @ CHR ''-'' # d2 (c_mo c) @ CHR ''-'' # d2 (c_d c) @ ?sep # ?t)"
    using assms(1) by (cases "sep = Sep_space") (auto simp: iso8601_text_def date_text_def)
  have n: "n \<noteq> 0" using r0 by (cases n) (auto simp: rest_at_def)
  obtain j where y: "parse_year s n 0 = Some (j, c_y c)"
    and r1: "rest_at s n j (CHR ''-'' # d2 (c_mo c) @ CHR ''-'' # d2 (c_d c) @ ?sep # ?t)"
    using year_text_parse [OF r0 assms(4)] by blast
  note c1 = rest_at_Cons [OF r1]
  have mo: "fixed_digits s n (Suc j) 2 = Some (Suc j + 2, c_mo c)"
    and r2: "rest_at s n (Suc j + 2) (CHR ''-'' # d2 (c_d c) @ ?sep # ?t)"
    using fixed2_at [OF c1(3)] d by auto
  note c2 = rest_at_Cons [OF r2]
  have dd: "fixed_digits s n (Suc (Suc j + 2)) 2 = Some (Suc (Suc j + 2) + 2, c_d c)"
    and r3: "rest_at s n (Suc (Suc j + 2) + 2) (?sep # ?t)"
    using fixed2_at [OF c2(3)] d d31 by auto
  note c3 = rest_at_Cons [OF r3]
  show ?thesis
    using n y mo dd c1 c2 c3(1,2) d iso_time_parse [OF c3(3) assms(2,3,5)]
    by (cases c) (simp add: parse_iso8601_def Let_def civil_result0_def civil_default_def)
qed

lemma written_prefix:
  assumes "cap \<le> length buf" "length txt \<le> cap"
  shows "case write_result cap (fold put txt (wbuf_make buf cap)) of (b, n) \<Rightarrow> rest_at b n 0 txt"
  using assms by (simp add: write_result_fold rest_at_def)

subsection \<open>RFC 2822 read back\<close>

lemma rest_at_nth: "rest_at s n i (w @ r) \<Longrightarrow> j < length w \<Longrightarrow> s ! (i + j) = w ! j"
proof -
  assume a: "rest_at s n i (w @ r)" "j < length w"
  then have d: "drop i (take n s) = w @ r" "i \<le> n" "n \<le> length s" by (auto simp: rest_at_def)
  have "length (drop i (take n s)) = length w + length r" unfolding d(1) by simp
  then have "i + j < n" using a d(2,3) by simp
  then have "drop i (take n s) ! j = s ! (i + j)" by (simp add: d(2,3))
  then show ?thesis using d a by (simp add: nth_append)
qed

lemma ieq_at:
  assumes "rest_at s n i (w @ r)" "length w = k" "length lit = k"
  shows "ieq s n i lit k \<longleftrightarrow> map ascii_lower w = map ascii_lower lit"
proof -
  have "i + k \<le> n" using rest_at_append [OF assms(1)] assms(2) by (simp add: rest_at_def)
  then have "ieq s n i lit k \<longleftrightarrow> (\<forall>j < k. ascii_lower (s ! (i + j)) = ascii_lower (lit ! j))"
    by (auto simp: ieq_def list_all_iff)
  also have "\<dots> \<longleftrightarrow> (\<forall>j < k. map ascii_lower w ! j = map ascii_lower lit ! j)"
    using rest_at_nth [OF assms(1)] assms(2,3) by simp
  also have "\<dots> \<longleftrightarrow> map ascii_lower w = map ascii_lower lit"
    using assms(2,3) by (simp add: list_eq_iff_nth_eq)
  finally show ?thesis .
qed

lemma ieq_head: "ascii_lower (s ! i) \<noteq> ascii_lower (lit ! 0) \<Longrightarrow> 0 < k \<Longrightarrow> \<not> ieq s n i lit k"
  by (auto simp: ieq_def list_all_iff intro!: bexI [of _ 0])

lemma skip_space_at: "rest_at s n i (CHR '' '' # x # xs) \<Longrightarrow> x \<noteq> CHR '' '' \<Longrightarrow>
    skip_while is_space s n i = Suc i \<and> rest_at s n (Suc i) (x # xs)"
  using rest_at_Cons [of s n i "CHR '' ''" "x # xs"] rest_at_Cons(2) [of s n "Suc i" x xs]
  by (subst skip_while.simps, subst skip_while.simps) (auto simp: is_space_def)

lemma month_lower:
  "map (map ascii_lower) month_abbr = [''???'', ''jan'', ''feb'', ''mar'', ''apr'', ''may'', ''jun'',
     ''jul'', ''aug'', ''sep'', ''oct'', ''nov'', ''dec'']"
  by (simp add: month_abbr_def ascii_lower_def char_of_def bit_Suc_0_iff)

lemma month_abbr_unique:
  assumes "m < 13" "k < 13"
  shows "map ascii_lower (month_abbr ! m) = map ascii_lower (month_abbr ! k) \<longleftrightarrow> m = k"
proof -
  let ?l = "map (map ascii_lower) month_abbr"
  have "distinct ?l" unfolding month_lower by simp
  moreover have l: "length month_abbr = 13" by (simp add: month_abbr_def)
  ultimately have "?l ! m = ?l ! k \<longleftrightarrow> m = k" using assms by (intro nth_eq_iff_index_eq) auto
  then show ?thesis using assms l by simp
qed

lemma month_abbr_shape: "m < 13 \<Longrightarrow> length (month_abbr ! m) = 3 \<and> hd (month_abbr ! m) \<noteq> CHR '' ''"
proof -
  assume "m < 13"
  moreover have "list_all (\<lambda>a. length a = 3 \<and> hd a \<noteq> CHR '' '') month_abbr" "length month_abbr = 13"
    by (simp_all add: month_abbr_def)
  ultimately show ?thesis by (simp add: list_all_length)
qed

lemma filter_eq_distinct: "distinct xs \<Longrightarrow> m \<in> set xs \<Longrightarrow> filter (\<lambda>k. m = k) xs = [m]"
  by (induction xs) (auto simp: filter_empty_conv)

lemma rfc_month_at: "rest_at s n i (month_abbr ! m @ r) \<Longrightarrow> 1 \<le> m \<Longrightarrow> m \<le> 12 \<Longrightarrow> rfc_month s n i = m"
proof -
  assume a: "rest_at s n i (month_abbr ! m @ r)" "1 \<le> m" "m \<le> 12"
  have "ieq s n i (month_abbr ! k) 3 \<longleftrightarrow> m = k" if "k < 13" for k
    using ieq_at [OF a(1), of 3] month_abbr_shape that a(3) month_abbr_unique [of m k] by simp
  then have "filter (\<lambda>k. ieq s n i (month_abbr ! k) 3) [1..<13] = filter (\<lambda>k. m = k) [1..<13]"
    by (intro filter_cong) auto
  then show ?thesis using filter_eq_distinct [of "[1..<13]" m] a(2,3) by (simp add: rfc_month_def)
qed

lemma weekday_abbr_heads: "k < 7 \<Longrightarrow> \<not> is_digit (hd (weekday_abbr ! k)) \<and> length (weekday_abbr ! k) = 3"
proof -
  assume "k < 7"
  moreover have "list_all (\<lambda>a. \<not> is_digit (hd a) \<and> length a = 3) weekday_abbr" "length weekday_abbr = 7"
    by (simp_all add: weekday_abbr_def is_digit_def)
  ultimately show ?thesis by (simp add: list_all_length)
qed

lemma digit_not_space: "is_digit x \<Longrightarrow> x \<noteq> CHR '' ''"
  by (auto simp: is_digit_def)

lemma u_text_Cons: "\<exists>x xs. u_text v width (CHR ''0'') = x # xs \<and> is_digit x"
  using u_text_nonempty [of v width "CHR ''0''"] u_text_digits [of v width] by (cases "u_text v width (CHR ''0'')") auto

lemma skip_space_digits:
  assumes "rest_at s n i (CHR '' '' # u_text v w (CHR ''0'') @ r)"
  shows "skip_while is_space s n i = Suc i \<and> rest_at s n (Suc i) (u_text v w (CHR ''0'') @ r)"
proof -
  obtain x xs where "u_text v w (CHR ''0'') = x # xs" "is_digit x" using u_text_Cons by blast
  then show ?thesis using assms skip_space_at [of s n i x "xs @ r"] digit_not_space by simp
qed

lemma wday_index_less: "wday_index wd < 7"
  by (auto simp: wday_index_def)

lemma rfc_weekday_at:
  assumes "rest_at s n 0 (weekday_abbr ! k @ CHR '','' # CHR '' '' # u_text v w (CHR ''0'') @ r)" "k < 7"
  shows "rfc_weekday s n = Some 5 \<and> rest_at s n 5 (u_text v w (CHR ''0'') @ r)"
proof -
  have w: "\<not> is_digit (hd (weekday_abbr ! k))" "length (weekday_abbr ! k) = 3" using weekday_abbr_heads assms(2) by auto
  have r3: "rest_at s n 3 (CHR '','' # CHR '' '' # u_text v w (CHR ''0'') @ r)"
    using rest_at_append [OF assms(1)] w by simp
  note c = rest_at_Cons [OF r3]
  have "s ! 0 = hd (weekday_abbr ! k)" using rest_at_nth [OF assms(1), of 0] w by (simp add: hd_conv_nth flip: length_greater_0_conv)
  moreover have "ieq s n 0 (weekday_abbr ! k) 3" using ieq_at [OF assms(1)] w by simp
  then have "list_ex (\<lambda>k. ieq s n 0 (weekday_abbr ! k) 3) [0..<7]" using assms(2) by (auto simp: list_ex_iff)
  moreover have "skip_while is_space s n 4 = 5 \<and> rest_at s n 5 (u_text v w (CHR ''0'') @ r)"
    using skip_space_digits [OF c(3)] by (simp add: eval_nat_numeral)
  ultimately show ?thesis using c w by (simp add: rfc_weekday_def)
qed

lemma rfc_offset_at:
  assumes "rest_at s n i (offset_text off Os_compact)" "offset_parsable off"
  shows "rfc_offset s n i = Some (n, off, True)"
proof -
  have r: "rest_at s n i (offset_text off Os_compact @ [])" using assms(1) by simp
  obtain j where j: "parse_offset s n i = Some (j, off)" "j = n" "i < n"
    using offset_text_parse [OF r assms(2)] rest_at_Nil by auto
  have "s ! i = CHR ''+'' \<or> s ! i = CHR ''-''"
    using assms(1) rest_at_Cons(2) by (fastforce simp: offset_text_def Let_def)
  then have "ascii_lower (s ! i) \<noteq> CHR ''g''" "ascii_lower (s ! i) \<noteq> CHR ''u''"
    by (auto simp: ascii_lower_def)
  moreover have "ascii_lower (CHR ''G'') = CHR ''g''" "ascii_lower (CHR ''U'') = CHR ''u''"
    by (simp_all add: ascii_lower_def char_of_def bit_Suc_0_iff)
  ultimately have "\<not> ieq s n i ''GMT'' 3" "\<not> ieq s n i ''UTC'' 3" "\<not> ieq s n i ''UT'' 2"
    using ieq_head [of s i "''GMT''" 3 n] ieq_head [of s i "''UTC''" 3 n] ieq_head [of s i "''UT''" 2 n] by auto
  then show ?thesis using j by (simp add: rfc_offset_def)
qed

lemma rfc_time_at:
  assumes "rest_at s n i (time_text c @ CHR '' '' # offset_text (c_off c) Os_compact)" "fields_ok c"
    "offset_parsable (c_off c)" "c_ns c = 0"
  shows "rfc_time s n i (c_y c) (c_mo c) (c_d c) = \<lparr>cr_c = c, cr_err = None, cr_has_offset = True\<rparr>"
proof -
  let ?o = "offset_text (c_off c) Os_compact"
  have fr: "0 \<le> c_h c" "c_h c < 24" "0 \<le> c_mi c" "c_mi c < 60" "0 \<le> c_s c" "c_s c < 61" "is_i32 (c_y c)"
    and v: "civil_valid (c_y c) (c_mo c) (c_d c)"
    using assms(2) by (auto simp: fields_ok_def civil_wf_def civil_is_valid_def)
  have d: "1 \<le> c_d c" "c_d c \<le> days_in_month (c_y c) (c_mo c)" "c_d c \<le> 31"
    using v days_in_month_le [of "c_mo c" "c_y c"] by (auto simp: civil_valid_def)
  have r0: "rest_at s n i (d2 (c_h c) @ CHR '':'' # d2 (c_mi c) @ CHR '':'' # d2 (c_s c) @ CHR '' '' # ?o)"
    using assms(1) by (simp add: time_text_def)
  have h: "fixed_digits s n i 2 = Some (i + 2, c_h c)" and r1: "rest_at s n (i + 2) (CHR '':'' # d2 (c_mi c) @ CHR '':'' # d2 (c_s c) @ CHR '' '' # ?o)"
    using fixed2_at [OF r0] fr by auto
  note c1 = rest_at_Cons [OF r1]
  have m: "fixed_digits s n (Suc (i + 2)) 2 = Some (Suc (i + 2) + 2, c_mi c)" and r2: "rest_at s n (Suc (i + 2) + 2) (CHR '':'' # d2 (c_s c) @ CHR '' '' # ?o)"
    using fixed2_at [OF c1(3)] fr by auto
  note c2 = rest_at_Cons [OF r2]
  let ?j = "Suc (Suc (i + 2) + 2) + 2"
  have sec: "fixed_digits s n (Suc (Suc (i + 2) + 2)) 2 = Some (?j, c_s c)"
    and r3: "rest_at s n ?j (CHR '' '' # ?o)"
    using fixed2_at [OF c2(3)] fr by auto
  obtain x xs where x: "?o = x # xs" "x \<noteq> CHR '' ''" by (auto simp: offset_text_def Let_def)
  have sk: "skip_while is_space s n ?j = Suc ?j" and r4: "rest_at s n (Suc ?j) ?o"
    using r3 skip_space_at [of s n ?j x xs] x by auto
  have e: "skip_while P s n n = n" for P by (subst skip_while.simps) simp
  have y: "to_i32 (c_y c) = c_y c" "to_u32 (c_d c) = c_d c" using fr d by (auto simp: is_i32_def to_i32_id to_u32_id)
  show ?thesis
    using h m sec c1 c2 sk rfc_offset_at [OF r4 assms(3)] fr d assms(4) y
    by (cases c) (simp add: rfc_time_def opt_seconds_def rfc_finish_def Let_def e civil_result0_def civil_default_def)
qed

definition rfc2822_text :: "civil \<Rightarrow> string" where
  "rfc2822_text c = weekday_abbr ! wday_index (weekday_of (c_y c) (c_mo c) (c_d c)) @ '', '' @ d2 (c_d c) @ '' '' @
     month_abbr ! mon_index (c_mo c) @ '' '' @ i_text (c_y c) 4 (CHR ''0'') @ '' '' @ time_text c @ '' '' @
     offset_text (c_off c) Os_compact"

lemma rfc2822_impl_text: "rfc2822_impl buf cap c False = fold put (rfc2822_text c) (wbuf_make buf cap)"
  by (simp add: rfc2822_impl_def rfc2822_text_def time_text_def Let_def text_simps)

lemma rfc2822_text_parse:
  assumes "rest_at s n 0 (rfc2822_text c)" "fields_ok c" "offset_parsable (c_off c)" "0 \<le> c_y c" "c_y c \<le> 9999" "c_ns c = 0"
  shows "parse_rfc2822 (Some s) n = \<lparr>cr_c = c, cr_err = None, cr_has_offset = True\<rparr>"
proof -
  let ?wd = "wday_index (weekday_of (c_y c) (c_mo c) (c_d c))"
  let ?t = "time_text c @ CHR '' '' # offset_text (c_off c) Os_compact"
  have v: "civil_valid (c_y c) (c_mo c) (c_d c)" using assms(2) by (simp add: fields_ok_def civil_is_valid_def)
  have d: "1 \<le> c_mo c" "c_mo c \<le> 12" "1 \<le> c_d c" "c_d c \<le> 31"
    using v days_in_month_le [of "c_mo c" "c_y c"] by (auto simp: civil_valid_def)
  have y: "i_text (c_y c) 4 (CHR ''0'') = u_text (nat (c_y c)) 4 (CHR ''0'')" using assms by (simp add: i_text_def to_u64_id)
  have mi: "mon_index (c_mo c) = nat (c_mo c)" using d by (simp add: mon_index_def)
  have r0: "rest_at s n 0 (weekday_abbr ! ?wd @ CHR '','' # CHR '' '' # d2 (c_d c) @ CHR '' '' # month_abbr ! nat (c_mo c) @
      CHR '' '' # u_text (nat (c_y c)) 4 (CHR ''0'') @ CHR '' '' # ?t)"
    using assms(1) by (simp add: rfc2822_text_def y mi)
  have w: "rfc_weekday s n = Some 5" and r1: "rest_at s n 5 (d2 (c_d c) @ CHR '' '' # month_abbr ! nat (c_mo c) @
      CHR '' '' # u_text (nat (c_y c)) 4 (CHR ''0'') @ CHR '' '' # ?t)"
    using rfc_weekday_at [OF r0 wday_index_less] by auto
  have l2: "length (d2 (c_d c)) = 2" using d d2_length by simp
  have dd: "some_digits s n 5 2 = Some (7, c_d c, 2)" and r2: "rest_at s n 7 (CHR '' '' # month_abbr ! nat (c_mo c) @
      CHR '' '' # u_text (nat (c_y c)) 4 (CHR ''0'') @ CHR '' '' # ?t)"
    using some_digits_at [OF r1 u_text_digits u_text_nonempty, of 2] l2 d by (auto simp: u_text_val stops_def)
  have ms: "length (month_abbr ! nat (c_mo c)) = 3" "hd (month_abbr ! nat (c_mo c)) \<noteq> CHR '' ''" using month_abbr_shape d by auto
  then obtain x xs where x: "month_abbr ! nat (c_mo c) = x # xs" "x \<noteq> CHR '' ''" by (cases "month_abbr ! nat (c_mo c)") auto
  have s2: "skip_while is_space s n 7 = 8" and r3: "rest_at s n 8 (month_abbr ! nat (c_mo c) @ CHR '' '' #
      u_text (nat (c_y c)) 4 (CHR ''0'') @ CHR '' '' # ?t)"
    using skip_space_at [of s n 7 x] r2 x by (auto simp: eval_nat_numeral)
  have mo: "rfc_month s n 8 = nat (c_mo c)" using rfc_month_at [OF r3] d by simp
  have s3: "skip_while is_space s n 11 = 12" and r4: "rest_at s n 12 (u_text (nat (c_y c)) 4 (CHR ''0'') @ CHR '' '' # ?t)"
    using skip_space_digits [of s n 11] rest_at_append [OF r3] ms by (auto simp: eval_nat_numeral)
  have l4: "length (u_text (nat (c_y c)) 4 (CHR ''0'')) = 4" using assms by (intro u_text_length_fixed) auto
  have yy: "some_digits s n 12 4 = Some (16, c_y c, 4)" and r5: "rest_at s n 16 (CHR '' '' # ?t)"
    using some_digits_at [OF r4 u_text_digits u_text_nonempty, of 4] l4 assms by (auto simp: u_text_val stops_def)
  have s4: "skip_while is_space s n 16 = 17" and r6: "rest_at s n 17 ?t"
    using skip_space_digits [of s n 16] r5 by (auto simp: time_text_def eval_nat_numeral)
  have "n \<noteq> 0" using rest_at_Cons(1) [OF r5] by simp
  then show ?thesis
    using w dd s2 mo s3 yy s4 rfc_time_at [OF r6 assms(2,3,6)] d by (simp add: parse_rfc2822_def Let_def)
qed

text \<open>The style \<^verbatim>\<open>date_sep::none\<close> is documented as the basic format 20260814T142211, but the writer treats it as \<^verbatim>\<open>date_sep::iso_t\<close>.\<close>

lemma write_iso8601_none: "write_iso8601 buf cap c d Sep_none os = write_iso8601 buf cap c d Sep_iso_t os"
  by (simp add: write_iso8601_def iso8601_impl_def)

text \<open>C20: ISO 8601 round trip through the buffer.  For every valid civil time with a year of at most nine digits and a
  whole-minute UTC offset below a day, writing with nine subsecond digits, the separator T or a space and any style that writes the offset into a
  buffer of the advertised size, and parsing the returned number of bytes, gives the same civil time.\<close>

theorem iso8601_roundtrip:
  assumes "fields_ok c" "offset_parsable (c_off c)" "\<bar>c_y c\<bar> \<le> 999999999" "os \<noteq> Os_none" "sep \<noteq> Sep_none"
    "iso8601_max \<le> cap" "cap \<le> length buf"
  shows "case write_iso8601 buf cap c 9 sep os of
      (b, n) \<Rightarrow> parse_iso8601 (Some b) n = \<lparr>cr_c = c, cr_err = None, cr_has_offset = True\<rparr>"
proof -
  have "length (iso8601_text c 9 sep os) \<le> 46"
    using iso8601_size_le [OF assms(1), of 9 sep os] by (simp add: iso8601_size_def iso8601_impl_text size_simps)
  then have "case write_iso8601 buf cap c 9 sep os of (b, n) \<Rightarrow> rest_at b n 0 (iso8601_text c 9 sep os)"
    using written_prefix [of cap buf] assms(6,7) by (simp add: write_iso8601_def iso8601_impl_text iso8601_max_def)
  then show ?thesis using iso8601_text_parse assms(1-4) by (auto split: prod.splits)
qed

theorem iso8601_roundtrip_witness:
  "fields_ok ex_civil \<and> offset_parsable (c_off ex_civil) \<and>
   (case write_iso8601 (replicate 64 CHR ''x'') 64 ex_civil 9 Sep_iso_t Os_z_or_colon of
      (b, n) \<Rightarrow> parse_iso8601 (Some b) n = \<lparr>cr_c = ex_civil, cr_err = None, cr_has_offset = True\<rparr>)"
proof -
  have a: "offset_parsable (c_off ex_civil)" "\<bar>c_y ex_civil\<bar> \<le> 999999999" "iso8601_max \<le> 64"
    by (auto simp: offset_parsable_def ex_civil_def iso8601_max_def)
  show ?thesis
    using iso8601_roundtrip [OF ex_civil_ok a(1,2) _ _ a(3), of Os_z_or_colon Sep_iso_t "replicate 64 CHR ''x''"] ex_civil_ok a(1)
    by (simp split: prod.splits)
qed

text \<open>RFC 2822 round trip through the buffer, for years 0 to 9999, whole seconds and whole-minute offsets.\<close>

theorem rfc2822_roundtrip:
  assumes "fields_ok c" "offset_parsable (c_off c)" "0 \<le> c_y c" "c_y c \<le> 9999" "c_ns c = 0"
    "rfc2822_max \<le> cap" "cap \<le> length buf"
  shows "case write_rfc2822 buf cap c of
      (b, n) \<Rightarrow> parse_rfc2822 (Some b) n = \<lparr>cr_c = c, cr_err = None, cr_has_offset = True\<rparr>"
proof -
  have "length (rfc2822_text c) \<le> 44"
    using rfc2822_size_le [OF assms(1), of False] by (simp add: rfc2822_impl_text size_simps)
  then have "case write_rfc2822 buf cap c of (b, n) \<Rightarrow> rest_at b n 0 (rfc2822_text c)"
    using written_prefix [of cap buf] assms(6,7) by (simp add: write_rfc2822_def rfc2822_impl_text rfc2822_max_def)
  then show ?thesis using rfc2822_text_parse assms(1-5) by (auto split: prod.splits)
qed

theorem rfc2822_roundtrip_witness:
  "case write_rfc2822 (replicate 64 CHR ''x'') 64 (ex_civil\<lparr>c_ns := 0\<rparr>) of
      (b, n) \<Rightarrow> parse_rfc2822 (Some b) n = \<lparr>cr_c = ex_civil\<lparr>c_ns := 0\<rparr>, cr_err = None, cr_has_offset = True\<rparr>"
proof -
  have a: "fields_ok (ex_civil\<lparr>c_ns := 0\<rparr>)" by code_simp
  have b: "offset_parsable (c_off (ex_civil\<lparr>c_ns := 0\<rparr>))" "0 \<le> c_y (ex_civil\<lparr>c_ns := 0\<rparr>)" "c_y (ex_civil\<lparr>c_ns := 0\<rparr>) \<le> 9999"
    "rfc2822_max \<le> 64"
    by (auto simp: offset_parsable_def ex_civil_def rfc2822_max_def)
  show ?thesis
    using rfc2822_roundtrip [OF a b(1-3) _ b(4), of "replicate 64 CHR ''x''"] by (simp split: prod.splits)
qed

subsection \<open>Durations read back\<close>

text \<open>A suffix that \<open>dur_unit\<close> recognises in front of the next count or the end.\<close>

definition unit_ok :: "nat \<times> string \<Rightarrow> bool" where
  "unit_ok p \<longleftrightarrow> snd p \<noteq> [] \<and> \<not> is_digit (hd (snd p)) \<and> hd (snd p) \<noteq> CHR ''.'' \<and>
     (\<forall>s n i r. rest_at s n i (snd p @ r) \<longrightarrow> r = [] \<or> is_digit (hd r) \<longrightarrow>
        dur_unit s n i = (length (snd p), int (fst p)))"

lemma unit_okI1:
  assumes "\<not> is_digit c" "c \<noteq> CHR ''.''"
    "\<And>s n i. i < n \<Longrightarrow> s ! i = c \<Longrightarrow> (i + 1 < n \<longrightarrow> s ! (i + 1) \<noteq> CHR ''s'') \<Longrightarrow> dur_unit s n i = (1, int sc)"
  shows "unit_ok (sc, [c])"
proof -
  have "dur_unit s n i = (1, int sc)" if a: "rest_at s n i (c # r)" "r = [] \<or> is_digit (hd r)" for s n i r
  proof (rule assms(3))
    show "i < n" "s ! i = c" using rest_at_Cons [OF a(1)] by auto
    show "i + 1 < n \<longrightarrow> s ! (i + 1) \<noteq> CHR ''s''"
      using rest_at_Cons(3) [OF a(1)] rest_at_Nil rest_at_Cons(2) a(2) by (cases r) (auto simp: is_digit_def)
  qed
  then show ?thesis using assms by (auto simp: unit_ok_def)
qed

lemma unit_okI2:
  assumes "\<not> is_digit c" "c \<noteq> CHR ''.''"
    "\<And>s n i. i + 1 < n \<Longrightarrow> s ! i = c \<Longrightarrow> s ! (i + 1) = CHR ''s'' \<Longrightarrow> dur_unit s n i = (2, int sc)"
  shows "unit_ok (sc, [c, CHR ''s''])"
proof -
  have "dur_unit s n i = (2, int sc)" if a: "rest_at s n i (c # CHR ''s'' # r)" for s n i r
    using assms(3) [of i n s] rest_at_Cons [OF a] rest_at_Cons [OF rest_at_Cons(3) [OF a]] by simp
  then show ?thesis using assms by (auto simp: unit_ok_def)
qed

lemma dur_components_ok: "list_all unit_ok dur_components"
  unfolding dur_components_def list.pred_inject
  by (intro conjI unit_okI1 unit_okI2 TrueI) (auto simp: dur_unit_def is_digit_def)

lemma dur_item_at:
  assumes "rest_at s n i (u_text v 1 (CHR ''0'') @ suf @ r)" "unit_ok (sc, suf)" "r = [] \<or> is_digit (hd r)"
    "v < 10 ^ 19" "0 < sc" "0 \<le> tot" "tot + int (v * sc) \<le> u64_max"
  shows "dur_item s n i tot = Inr (i + length (u_text v 1 (CHR ''0'')) + length suf, tot + int (v * sc))"
proof -
  let ?ds = "u_text v 1 (CHR ''0'')"
  have suf: "suf \<noteq> []" "\<not> is_digit (hd suf)" "hd suf \<noteq> CHR ''.''" using assms(2) by (auto simp: unit_ok_def)
  have l: "length ?ds \<le> 19" using assms(4) by (intro u_text_length) auto
  have d: "some_digits s n i 19 = Some (i + length ?ds, int v, length ?ds)" and r1: "rest_at s n (i + length ?ds) (suf @ r)"
    using some_digits_at [OF assms(1) u_text_digits u_text_nonempty l l] suf by (auto simp: u_text_val stops_def)
  have "s ! (i + length ?ds) \<noteq> CHR ''.''"
    using rest_at_Cons(2) r1 suf by (cases suf) auto
  then have f: "dur_fraction s n (i + length ?ds) = Some (i + length ?ds, 0, 0)" by (simp add: dur_fraction_def)
  have u: "dur_unit s n (i + length ?ds) = (length suf, int sc)" using assms(2,3) r1 by (auto simp: unit_ok_def)
  have ov: "int v * int sc \<le> u64_max" using assms(6,7) by simp
  have m: "dur_mul (int v) (int sc) = Some (int (v * sc))"
  proof (cases "v = 0")
    case False
    have "int sc \<le> u64_max div int v" using zdiv_mono1 [OF ov, of "int v"] False by simp
    moreover have "to_u64 (int v * int sc) = int v * int sc" using ov by (simp add: u64_max_def to_u64_id)
    ultimately show ?thesis by (simp add: dur_mul_def)
  qed (simp add: dur_mul_def to_u64_id)
  have a: "dur_add tot (int (v * sc)) = Some (tot + int (v * sc))"
    using assms(6,7) by (auto simp: dur_add_def to_u64_id u64_max_def)
  show ?thesis using d f u m a suf by (simp add: dur_item_def dur_part_def)
qed

lemma dur_units_text_head: "list_all unit_ok cs \<Longrightarrow> dur_units_text cs rest = [] \<or> is_digit (hd (dur_units_text cs rest))"
proof (induction cs arbitrary: rest)
  case (Cons p cs)
  obtain sc suf where p: "p = (sc, suf)" by (cases p)
  obtain x xs where "u_text (rest div sc) 1 (CHR ''0'') = x # xs" "is_digit x" using u_text_Cons by blast
  then show ?case using Cons p by (simp add: Let_def)
qed simp

lemma dur_loop_at:
  assumes "rest_at s n i (dur_units_text cs rest)" "list_all unit_ok cs" "widths_ok bound cs ks" "list_all (\<lambda>k. k \<le> 19) ks"
    "rest < bound" "0 < rest" "cs \<noteq> []" "fst (last cs) = 1" "0 \<le> tot" "tot + int rest \<le> u64_max"
  shows "dur_loop s n i tot any = Inr (tot + int rest)"
  using assms
proof (induction cs arbitrary: i rest bound ks tot any)
  case (Cons p cs)
  obtain sc suf where p: "p = (sc, suf)" by (cases p)
  obtain k ks' where ks: "ks = k # ks'" using Cons.prems(3) p by (cases ks) auto
  have w: "0 < sc" "0 < k" "bound \<le> sc * 10 ^ k" "widths_ok sc cs ks'" "k \<le> 19" "list_all (\<lambda>k. k \<le> 19) ks'"
    using Cons.prems(3,4) p ks by auto
  let ?v = "rest div sc" and ?m = "rest mod sc"
  have cs: "cs \<noteq> []" if "0 < ?m" using that Cons.prems(8) p by (cases cs) auto
  then have lst: "fst (last cs) = 1" if "0 < ?m" using that Cons.prems(8) by simp
  have mod_small: "?m = rest" if "?v = 0" using that w(1) by (simp add: div_eq_0_iff)
  have IH: "dur_loop s n j t b = Inr (t + int ?m)" if "rest_at s n j (dur_units_text cs ?m)" "0 < ?m" "0 \<le> t"
    "t + int ?m \<le> u64_max" for j t b
    using Cons.IH [OF that(1) _ w(4,6)] Cons.prems(2) w(1) that cs lst by simp
  show ?case
  proof (cases "?v = 0")
    case True
    have "?m = rest" using True mod_small by blast
    then show ?thesis using Cons.prems(1,6,9,10) True IH [of i tot any] p by simp
  next
    case False
    let ?ds = "u_text ?v 1 (CHR ''0'')"
    let ?r = "if ?m = 0 then [] else dur_units_text cs ?m"
    let ?j = "i + length ?ds + length suf"
    have r0: "rest_at s n i (?ds @ suf @ ?r)" using Cons.prems(1) False p by (simp add: Let_def)
    have rj: "rest_at s n ?j ?r" using rest_at_append [OF rest_at_append [OF r0]] by (simp add: add.assoc)
    have i: "i < n" using r0 u_text_Cons [of ?v 1] rest_at_Cons(1) by fastforce
    have hdr: "?r = [] \<or> is_digit (hd ?r)" using dur_units_text_head Cons.prems(2) by auto
    have "?v < 10 ^ k" using Cons.prems(5) w by (simp add: div_less_iff_less_mult mult.commute)
    also have "(10::nat) ^ k \<le> 10 ^ 19" using w by (intro power_increasing) auto
    finally have v: "?v < 10 ^ 19" .
    have split: "int rest = int (?v * sc) + int ?m" by (simp only: of_nat_add [symmetric] div_mult_mod_eq)
    have "unit_ok (sc, suf)" using Cons.prems(2) p by simp
    from dur_item_at [OF r0 this hdr v w(1) Cons.prems(9)]
    have it: "dur_item s n i tot = Inr (?j, tot + int (?v * sc))" using Cons.prems(10) split by simp
    have step: "dur_loop s n i tot any = dur_loop s n ?j (tot + int (?v * sc)) True"
      using i it by (subst dur_loop.simps) simp
    show ?thesis
    proof (cases "?m = 0")
      case True
      then have "?j = n" using rj rest_at_Nil by auto
      then have "dur_loop s n ?j (tot + int (?v * sc)) True = Inr (tot + int (?v * sc))" by (subst dur_loop.simps) simp
      then show ?thesis using step split True by simp
    next
      case m: False
      have rj': "rest_at s n ?j (dur_units_text cs ?m)" using rj m by simp
      have "dur_loop s n ?j (tot + int (?v * sc)) True = Inr (tot + int (?v * sc) + int ?m)"
        using m split Cons.prems(9,10) by (intro IH [OF rj']) linarith+
      then show ?thesis using step split by simp
    qed
  qed
qed simp

definition duration_text :: "nat \<Rightarrow> string" where
  "duration_text ns = (if ns = 0 then ''0s'' else dur_units_text dur_components ns)"

lemma dur_units_impl_text: "dur_units_impl buf cap ns = fold put (duration_text ns) (wbuf_make buf cap)"
  by (simp add: dur_units_impl_def duration_text_def Let_def text_simps dur_units_loop_text)

lemma tmp_digits_0: "tmp_digits 0 = ''0''"
  by (subst tmp_digits.simps) (simp add: char_of_def bit_Suc_0_iff)

lemma dur_units_text_nonempty: "0 < rest \<Longrightarrow> cs \<noteq> [] \<Longrightarrow> fst (last cs) = 1 \<Longrightarrow> dur_units_text cs rest \<noteq> []"
proof (induction cs arbitrary: rest)
  case (Cons p cs)
  then show ?case by (cases p; cases cs) (auto simp: Let_def u_text_nonempty)
qed simp

lemma duration_text_parse:
  assumes "rest_at s n 0 (duration_text ns)" "ns < 18446744073709551616"
  shows "parse_duration_ns (Some s) n = \<lparr>dr_ns = int ns, dr_err = None, dr_forever = False\<rparr>"
proof -
  have w: "widths_ok 18446744073709551616 dur_components [5, 1, 2, 2, 2, 3, 3, 3]"
    by (simp add: dur_components_def ns_per_defs)
  have ne: "dur_components \<noteq> []" "fst (last dur_components) = 1" by (simp_all add: dur_components_def)
  have loop: "dur_loop s n 0 0 False = Inr (int ns)"
  proof (cases "ns = 0")
    case True
    have z: "u_text 0 1 (CHR ''0'') = ''0''" by (simp add: u_text_def tmp_digits_0)
    then have r: "rest_at s n 0 (u_text 0 1 (CHR ''0'') @ ''s'' @ [])" using assms(1) True by (simp add: duration_text_def)
    have "unit_ok (ns_per_s, ''s'')" using dur_components_ok by (simp add: dur_components_def)
    from dur_item_at [OF r this, of 0] have it: "dur_item s n 0 0 = Inr (2, 0)"
      using z by (simp add: ns_per_defs u64_max_def)
    have "n = 2" using rest_at_Nil [OF rest_at_append, of s n 0 "''0s''"] r z by simp
    then show ?thesis using it True by (subst dur_loop.simps, simp) (subst dur_loop.simps, simp)
  next
    case False
    then have "dur_loop s n 0 0 False = Inr (0 + int ns)"
      using assms dur_components_ok w ne
      by (intro dur_loop_at [where ks = "[5, 1, 2, 2, 2, 3, 3, 3]" and bound = 18446744073709551616])
         (auto simp: duration_text_def u64_max_def)
    then show ?thesis by simp
  qed
  have "\<exists>x xs. duration_text ns = x # xs \<and> is_digit x"
    using dur_units_text_head [OF dur_components_ok, of ns] dur_units_text_nonempty [of ns, OF _ ne]
    by (cases "dur_units_text dur_components ns") (auto simp: duration_text_def is_digit_def)
  then obtain x where x: "s ! 0 = x" "is_digit x" "0 < n" using assms(1) rest_at_Cons(1,2) by metis
  then have "ascii_lower (s ! 0) \<noteq> CHR ''i''" by (auto simp: is_digit_def ascii_lower_def)
  moreover have "ascii_lower (CHR ''i'') = CHR ''i''" by (simp add: ascii_lower_def)
  ultimately have "\<not> ieq s n 0 ''infinity'' 8" "\<not> ieq s n 0 ''inf'' 3"
    using ieq_head [of s 0 "''infinity''" 8 n] ieq_head [of s 0 "''inf''" 3 n] by auto
  then show ?thesis using x loop by (simp add: parse_duration_ns_def dur_result0_def)
qed

text \<open>Duration round trip: every 64-bit nanosecond count written in units (such as \<open>1d2h3m4s5ms6us7ns\<close>) is read back
  exactly, with no error and not as \<open>forever\<close>.\<close>

theorem duration_roundtrip:
  assumes "ns < 2 ^ 64" "duration_max \<le> cap" "cap \<le> length buf"
  shows "case write_duration_units buf cap ns of
      (b, n) \<Rightarrow> parse_duration_ns (Some b) n = \<lparr>dr_ns = int ns, dr_err = None, dr_forever = False\<rparr>"
proof -
  have ns: "ns < 18446744073709551616" using assms(1) by simp
  have "length (duration_text ns) \<le> 32"
    using duration_units_size_le [OF ns] by (simp add: duration_units_size_def dur_units_impl_text size_simps)
  then have "case write_duration_units buf cap ns of (b, n) \<Rightarrow> rest_at b n 0 (duration_text ns)"
    using written_prefix [of cap buf] assms(2,3)
    by (simp add: write_duration_units_def dur_units_impl_text duration_max_def)
  then show ?thesis using duration_text_parse ns by (auto split: prod.splits)
qed

theorem duration_roundtrip_witness:
  "case write_duration_units (replicate 64 CHR ''x'') 64 93784005006007 of
      (b, n) \<Rightarrow> parse_duration_ns (Some b) n = \<lparr>dr_ns = 93784005006007, dr_err = None, dr_forever = False\<rparr>"
  using duration_roundtrip [of 93784005006007 64 "replicate 64 CHR ''x''"] by (simp add: duration_max_def split: prod.splits)

subsection \<open>Accepted input is valid\<close>

lemma fixed_digits_loop_nonneg: "fixed_digits_loop s i k out = Some (i', v) \<Longrightarrow> 0 \<le> out \<Longrightarrow> 0 \<le> v"
  by (induction s i k out rule: fixed_digits_loop.induct) (auto simp: to_u32_range split: if_splits)

lemma fixed_digits_nonneg: "fixed_digits s n i k = Some (i', v) \<Longrightarrow> 0 \<le> v"
  by (auto simp: fixed_digits_def split: if_splits dest: fixed_digits_loop_nonneg)

lemma some_digits_loop_range:
  assumes "some_digits_loop s n i mx out taken = (i', v, t)" "mx \<le> 19" "taken \<le> mx" "0 \<le> out" "out < 10 ^ taken"
  shows "t \<le> mx \<and> 0 \<le> v \<and> v < 10 ^ t"
  using assms
proof (induction s n i mx out taken rule: some_digits_loop.induct)
  case (1 s n i mx out taken)
  show ?case
  proof (cases "i < n \<and> taken < mx \<and> is_digit (s ! i)")
    case True
    let ?o = "out * 10 + digit_val (s ! i)"
    have dv: "0 \<le> digit_val (s ! i)" "digit_val (s ! i) \<le> 9" using True digit_val_range by auto
    have o: "0 \<le> ?o" "?o < 10 ^ (taken + 1)" using "1.prems"(4,5) dv by auto
    have "(10::int) ^ (taken + 1) \<le> 10 ^ 19" using True "1.prems"(2) by (intro power_increasing) auto
    then have "?o < 10 ^ 19" using o by linarith
    then have t: "to_u64 ?o = ?o" using o by (intro to_u64_id) auto
    have "some_digits_loop s n (i + 1) mx (to_u64 ?o) (taken + 1) = (i', v, t)"
      using "1.prems"(1) True by (subst (asm) some_digits_loop.simps) simp
    from "1.IH" [OF True this] show ?thesis using "1.prems"(2) o True by (simp add: t)
  next
    case False
    then have "(i', v, t) = (i, out, taken)" using "1.prems"(1) by (subst (asm) some_digits_loop.simps) auto
    then show ?thesis using "1.prems" by simp
  qed
qed

lemma some_digits_range: "some_digits s n i mx = Some (i', v, t) \<Longrightarrow> mx \<le> 19 \<Longrightarrow> 0 < t \<and> t \<le> mx \<and> 0 \<le> v \<and> v < 10 ^ t"
  using some_digits_loop_range [of s n i mx 0 0] by (auto simp: some_digits_def split: prod.splits if_splits)

lemma parse_offset_range: "parse_offset s n i = Some (i', off) \<Longrightarrow> offset_parsable off"
proof -
  assume a: "parse_offset s n i = Some (i', off)"
  have mm: "0 \<le> m" if "offset_minutes_part s n k = Some (l, m)" for k l m
    using that fixed_digits_nonneg by (auto simp: offset_minutes_part_def split: if_splits)
  show ?thesis
  proof (cases "off = 0")
    case False
    then obtain i1 hh i2 m where h: "fixed_digits s n (i + 1) 2 = Some (i1, hh)" "offset_minutes_part s n i1 = Some (i2, m)"
      "hh \<le> 23" "m \<le> 59" "off = hh * 3600 + m * 60 \<or> off = - (hh * 3600 + m * 60)"
      using a by (auto simp: parse_offset_def Let_def split: if_splits option.splits)
    have "hh * 3600 + m * 60 = 60 * (hh * 60 + m)" by simp
    then have "60 dvd off" using h(5) by (metis dvd_triv_left dvd_minus_iff)
    then show ?thesis using h fixed_digits_nonneg [OF h(1)] mm [OF h(2)] by (auto simp: offset_parsable_def)
  qed (simp add: offset_parsable_def)
qed

lemma offset_parsable_0 [simp]: "offset_parsable 0"
  by (simp add: offset_parsable_def)

lemma fields_ok_off: "fields_ok c \<Longrightarrow> offset_parsable off \<Longrightarrow> fields_ok (c\<lparr>c_off := off\<rparr>)"
  by (auto simp: fields_ok_def civil_wf_def civil_is_valid_def offset_parsable_def is_i32_def)

lemma fields_ok_ns: "fields_ok c \<Longrightarrow> 0 \<le> ns \<Longrightarrow> ns < 1000000000 \<Longrightarrow> fields_ok (c\<lparr>c_ns := ns\<rparr>)"
  by (auto simp: fields_ok_def civil_wf_def civil_is_valid_def)

lemma fields_ok_time:
  "fields_ok c \<Longrightarrow> 0 \<le> h \<Longrightarrow> h \<le> 23 \<Longrightarrow> 0 \<le> mi \<Longrightarrow> mi \<le> 59 \<Longrightarrow> 0 \<le> s \<Longrightarrow> s \<le> 60 \<Longrightarrow>
   fields_ok (c\<lparr>c_h := h, c_mi := mi, c_s := s\<rparr>)"
  by (auto simp: fields_ok_def civil_wf_def civil_is_valid_def)

lemma fields_ok_date: "is_i32 y \<Longrightarrow> civil_valid y m d \<Longrightarrow> fields_ok (civil_default\<lparr>c_y := y, c_mo := m, c_d := d\<rparr>)"
  by (auto simp: fields_ok_def civil_wf_def civil_is_valid_def civil_default_def is_i32_def)

text \<open>\<open>result_ok\<close>: if there is no error, the fields are valid, and the offset is the default unless one was read.\<close>

definition result_ok :: "civil_result \<Rightarrow> bool" where
  "result_ok r \<longleftrightarrow> (cr_err r = None \<longrightarrow> fields_ok (cr_c r) \<and> offset_parsable (c_off (cr_c r)) \<and>
     (\<not> cr_has_offset r \<longrightarrow> c_off (cr_c r) = 0))"

lemma result_ok_fail [simp]: "result_ok (fail_with r e)"
  by (simp add: result_ok_def)

lemma result_ok_offset: "fields_ok (cr_c r) \<Longrightarrow> c_off (cr_c r) = 0 \<Longrightarrow> result_ok (iso_offset s n r i)"
  by (auto simp: iso_offset_def Let_def result_ok_def offset_parsable_0 split: option.splits
      dest!: parse_offset_range intro: fields_ok_off)

lemma frac_scale: "0 \<le> v \<Longrightarrow> v < 10 ^ t \<Longrightarrow> t + k \<le> 9 \<Longrightarrow> ((\<lambda>f. to_u64 (f * 10)) ^^ k) v = v * 10 ^ k"
proof (induction k)
  case (Suc k)
  have "v * 10 ^ Suc k < 10 ^ t * 10 ^ Suc k" using Suc.prems by (intro mult_strict_right_mono) auto
  also have "\<dots> \<le> 10 ^ 9" using Suc.prems by (simp only: power_add [symmetric]) (intro power_increasing, auto)
  finally show ?case using Suc by (simp add: to_u64_id mult.commute mult.left_commute)
qed simp

lemma result_ok_fraction: "fields_ok (cr_c r) \<Longrightarrow> c_off (cr_c r) = 0 \<Longrightarrow> result_ok (iso_fraction s n r i)"
proof (cases "i < n \<and> (s ! i = CHR ''.'' \<or> s ! i = CHR '','')")
  case True
  assume a: "fields_ok (cr_c r)" "c_off (cr_c r) = 0"
  show ?thesis
  proof (cases "some_digits s n (i + 1) 9")
    case (Some p)
    obtain i' v t where p: "p = (i', v, t)" by (cases p)
    have b: "0 < t" "t \<le> 9" "0 \<le> v" "v < 10 ^ t" using some_digits_range [of s n "i + 1" 9 i' v t] Some p by auto
    have e: "((\<lambda>f. to_u64 (f * 10)) ^^ (9 - t)) v = v * 10 ^ (9 - t)" using b by (intro frac_scale) auto
    have "v * 10 ^ (9 - t) < 10 ^ t * 10 ^ (9 - t)" using b by (intro mult_strict_right_mono) auto
    then have "v * 10 ^ (9 - t) < 1000000000" using b by (simp flip: power_add)
    then have "fields_ok ((cr_c r)\<lparr>c_ns := to_u32 (((\<lambda>f. to_u64 (f * 10)) ^^ (9 - t)) v)\<rparr>)"
      using a b by (intro fields_ok_ns) (auto simp: e to_u32_id)
    then show ?thesis using Some True p a by (auto simp: iso_fraction_def Let_def intro!: result_ok_offset)
  qed (use True in \<open>auto simp: iso_fraction_def\<close>)
qed (auto simp: iso_fraction_def intro: result_ok_offset)

lemma opt_seconds_nonneg: "opt_seconds s n i = Some (i', v) \<Longrightarrow> 0 \<le> v"
  using fixed_digits_nonneg by (auto simp: opt_seconds_def split: if_splits)

lemma result_ok_time: "fields_ok (cr_c r) \<Longrightarrow> c_off (cr_c r) = 0 \<Longrightarrow> result_ok (iso_time s n r i)"
  unfolding iso_time_def
  by (auto split: option.splits intro!: result_ok_fraction fields_ok_time dest!: fixed_digits_nonneg opt_seconds_nonneg)

lemma parse_year_i32: "parse_year s n i = Some (i', y) \<Longrightarrow> is_i32 y"
  by (auto simp: parse_year_def Let_def to_i32_range split: option.splits if_splits)

lemma result_ok_iso8601: "result_ok (parse_iso8601 sp n)"
proof -
  have "result_ok (civil_result0\<lparr>cr_c := civil_default\<lparr>c_y := y, c_mo := m, c_d := d\<rparr>\<rparr>)"
    "result_ok (iso_time s n (civil_result0\<lparr>cr_c := civil_default\<lparr>c_y := y, c_mo := m, c_d := d\<rparr>\<rparr>) k)"
    if "is_i32 y" "\<not> m < 1" "\<not> 12 < m" "\<not> d < 1" "\<not> days_in_month y m < d" for y m d s k
  proof -
    have "civil_valid y m d" using that by (simp add: civil_valid_def)
    then have "fields_ok (civil_default\<lparr>c_y := y, c_mo := m, c_d := d\<rparr>)" using that by (intro fields_ok_date)
    then show "result_ok (civil_result0\<lparr>cr_c := civil_default\<lparr>c_y := y, c_mo := m, c_d := d\<rparr>\<rparr>)"
      "result_ok (iso_time s n (civil_result0\<lparr>cr_c := civil_default\<lparr>c_y := y, c_mo := m, c_d := d\<rparr>\<rparr>) k)"
      by (auto intro!: result_ok_time simp: civil_result0_def) (auto simp: result_ok_def offset_parsable_def civil_default_def)
  qed
  then show ?thesis unfolding parse_iso8601_def Let_def
    by (auto split: option.splits dest!: parse_year_i32)
qed

lemma rfc_month_range: "rfc_month s n i \<noteq> 0 \<Longrightarrow> 1 \<le> rfc_month s n i \<and> rfc_month s n i \<le> 12"
proof -
  assume a: "rfc_month s n i \<noteq> 0"
  let ?l = "filter (\<lambda>k. ieq s n i (month_abbr ! k) 3) [1..<13]"
  obtain k ks where k: "?l = k # ks" using a by (cases ?l) (auto simp: rfc_month_def)
  have "k \<in> set ?l" unfolding k by simp
  then show ?thesis using k by (auto simp: rfc_month_def)
qed

lemma rfc_offset_range: "rfc_offset s n i = Some (i', off, has) \<Longrightarrow> offset_parsable off \<and> (\<not> has \<longrightarrow> off = 0)"
  by (auto simp: rfc_offset_def split: if_splits option.splits dest!: parse_offset_range)

lemma result_ok_finish:
  assumes "1 \<le> m" "m \<le> 12" "0 \<le> h" "0 \<le> mi" "0 \<le> sec" "offset_parsable off" "\<not> has \<longrightarrow> off = 0"
  shows "result_ok (rfc_finish s n i yv m dv h mi sec off has)"
proof -
  let ?c = "civil_default\<lparr>c_y := to_i32 yv, c_mo := m, c_d := to_u32 dv, c_h := h, c_mi := mi, c_s := sec, c_off := off\<rparr>"
  have "fields_ok ?c" if "1 \<le> to_u32 dv" "to_u32 dv \<le> days_in_month (to_i32 yv) m" "h \<le> 23" "mi \<le> 59" "sec \<le> 60"
    using that assms by (intro fields_ok_off fields_ok_time fields_ok_date) (auto simp: civil_valid_def to_i32_range)
  then show ?thesis using assms by (auto simp: rfc_finish_def Let_def result_ok_def)
qed

lemma result_ok_rfc_time:
  assumes "1 \<le> m" "m \<le> 12"
  shows "result_ok (rfc_time s n i yv m dv)"
  using assms unfolding rfc_time_def
  by (auto split: option.splits intro!: result_ok_finish dest!: fixed_digits_nonneg opt_seconds_nonneg rfc_offset_range)

lemma result_ok_rfc2822: "result_ok (parse_rfc2822 sp n)"
  using rfc_month_range unfolding parse_rfc2822_def Let_def
  by (auto split: option.splits intro!: result_ok_rfc_time dest!: rfc_month_range)

text \<open>Whatever bytes they are given, the three timestamp parsers accept only valid civil times: an accepted result has
  an existing date, fields in range, a subsecond below one second and a whole-minute offset below a day, and
  \<open>parse_rfc3339\<close> accepts only inputs with an explicit offset.\<close>

theorem parsers_accept_valid:
  assumes "r = parse_iso8601 sp n \<or> r = parse_rfc3339 sp n \<or> r = parse_rfc2822 sp n" "civil_result_ok r"
  shows "fields_ok (cr_c r) \<and> offset_parsable (c_off (cr_c r)) \<and> (cr_has_offset r \<or> c_off (cr_c r) = 0)
    \<and> (r = parse_rfc3339 sp n \<longrightarrow> cr_has_offset r)"
proof -
  have "result_ok (parse_rfc3339 sp n)"
    using result_ok_iso8601 [of sp n] by (simp add: parse_rfc3339_def Let_def)
  moreover have "civil_result_ok (parse_rfc3339 sp n) \<Longrightarrow> cr_has_offset (parse_rfc3339 sp n)"
    by (auto simp: parse_rfc3339_def Let_def civil_result_ok_def split: if_splits)
  ultimately show ?thesis
    using assms result_ok_iso8601 [of sp n] result_ok_rfc2822 [of sp n] by (auto simp: result_ok_def civil_result_ok_def)
qed

theorem parsers_accept_valid_witness:
  "civil_result_ok (parse_iso8601 (Some ''2024-02-29T23:59:60Z'') 20)
   \<and> fields_ok (cr_c (parse_iso8601 (Some ''2024-02-29T23:59:60Z'') 20))"
proof -
  have "civil_result_ok (parse_iso8601 (Some ''2024-02-29T23:59:60Z'') 20)" by code_simp
  then show ?thesis using parsers_accept_valid [of _ "Some ''2024-02-29T23:59:60Z''" 20] by simp
qed

subsection \<open>Deadlines\<close>

definition secs_of_day :: "civil \<Rightarrow> int" where
  "secs_of_day c = c_h c * 3600 + c_mi c * 60 + c_s c"

lemma civil_secs_on_day:
  assumes "secs_in_range l"
  shows "civil_secs (c\<lparr>c_y := c_y (to_civil l 0), c_mo := c_mo (to_civil l 0), c_d := c_d (to_civil l 0)\<rparr>) =
    l div 86400 * 86400 + secs_of_day c"
  using civil_from_days_valid(3) [OF secs_in_range_day [OF assms]] to_civil_fields [of l l 0]
  by (simp add: civil_secs_def secs_of_day_def Let_def)

lemma until_clock_ranges:
  assumes "us_time_only (until_clock s len u)" "\<not> us_time_only u"
  shows "0 \<le> secs_of_day (us_c (until_clock s len u)) \<and> secs_of_day (us_c (until_clock s len u)) < 86400
    \<and> us_epoch (until_clock s len u) = us_epoch u"
proof -
  let ?tail = "\<lambda>h mi i3 sec. if i3 \<noteq> len then until_fail u Trailing else if h > 23 then until_fail u Bad_hour
      else if mi > 59 then until_fail u Bad_minute else if sec > 59 then until_fail u Bad_second
      else u\<lparr>us_time_only := True, us_c := (us_c u)\<lparr>c_h := h, c_mi := mi, c_s := sec\<rparr>\<rparr>"
  have nf: "\<not> us_time_only (until_fail u e)" for e using assms(2) by simp
  obtain i1 h where f1: "fixed_digits s len 0 2 = Some (i1, h)"
    using assms(1) nf unfolding until_clock_def by (cases "fixed_digits s len 0 2") (simp, fast)
  have c1: "\<not> (len \<le> i1 \<or> s ! i1 \<noteq> CHR '':'')"
  proof
    assume "len \<le> i1 \<or> s ! i1 \<noteq> CHR '':''"
    then show False using assms(1) nf unfolding until_clock_def f1 option.case prod.case by (simp only: if_True simp_thms)
  qed
  obtain i2 mi where f2: "fixed_digits s len (i1 + 1) 2 = Some (i2, mi)"
    using assms(1) nf unfolding until_clock_def f1 option.case prod.case if_not_P [OF c1]
    by (cases "fixed_digits s len (i1 + 1) 2") (simp, fast)
  obtain i3 sec where f3: "opt_seconds s len i2 = Some (i3, sec)"
    using assms(1) nf unfolding until_clock_def f1 f2 option.case prod.case if_not_P [OF c1]
    by (cases "opt_seconds s len i2") (simp, fast)
  have eq: "until_clock s len u = ?tail h mi i3 sec"
    unfolding until_clock_def f1 f2 f3 option.case prod.case if_not_P [OF c1] ..
  have "us_time_only (?tail h mi i3 sec)" using assms(1) unfolding eq .
  then have r: "\<not> i3 \<noteq> len" "\<not> h > 23" "\<not> mi > 59" "\<not> sec > 59" using assms(2) by (simp_all split: if_split_asm)
  then have e: "until_clock s len u = u\<lparr>us_time_only := True, us_c := (us_c u)\<lparr>c_h := h, c_mi := mi, c_s := sec\<rparr>\<rparr>"
    unfolding eq by simp
  show ?thesis
    using fixed_digits_nonneg [OF f1] fixed_digits_nonneg [OF f2] opt_seconds_nonneg [OF f3] r
    unfolding e by (simp add: secs_of_day_def)
qed

lemma parse_until_clock:
  assumes "us_time_only (parse_until sp n)"
  shows "0 \<le> secs_of_day (us_c (parse_until sp n)) \<and> secs_of_day (us_c (parse_until sp n)) < 86400
    \<and> \<not> us_epoch (parse_until sp n)"
proof -
  have at: "\<not> us_time_only (until_at s n)" for s
    by (auto simp: until_at_def Let_def until_spec0_def split: option.splits)
  obtain s where s: "sp = Some s" "n \<noteq> 0" "s ! 0 \<noteq> CHR ''@''"
  proof (cases sp)
    case (Some s)
    moreover have "n \<noteq> 0" using assms Some by (cases "n = 0") (simp_all add: parse_until_def until_spec0_def)
    moreover have "s ! 0 \<noteq> CHR ''@''"
      using assms Some at \<open>n \<noteq> 0\<close> by (cases "s ! 0 = CHR ''@''") (simp_all add: parse_until_def)
    ultimately show thesis using that by blast
  qed (use assms in \<open>simp add: parse_until_def until_spec0_def\<close>)
  define utc where "utc = (s ! (n - 1) = CHR ''Z'' \<or> s ! (n - 1) = CHR ''z'')"
  define len where "len = (if utc then n - 1 else n)"
  define u where "u = until_spec0\<lparr>us_utc := utc\<rparr>"
  have e: "parse_until sp n = (if \<not> list_ex (\<lambda>k. s ! k = CHR ''-'') [0..<len] then until_clock s len u
      else case cr_err (parse_iso8601 (Some s) len) of Some e \<Rightarrow> until_fail u e
        | None \<Rightarrow> if cr_has_offset (parse_iso8601 (Some s) len) then until_fail u Trailing
            else u\<lparr>us_c := cr_c (parse_iso8601 (Some s) len)\<rparr>)"
    using s by (simp only: parse_until_def Let_def option.case if_False simp_thms flip: utc_def len_def u_def)
  have nt: "\<not> us_time_only u" "\<not> us_epoch u" by (simp_all add: u_def until_spec0_def)
  have "parse_until sp n = until_clock s len u"
    using assms nt unfolding e by (cases "cr_err (parse_iso8601 (Some s) len)") (simp_all split: if_splits)
  then show ?thesis using until_clock_ranges [OF _ nt(1)] assms nt(2) by simp
qed

text \<open>A UTC clock time without a date (\<open>HH:MM[:SS]Z\<close>) resolves to its next occurrence: strictly after \<open>now\<close>, at most one
  day later, and at exactly that time of day.\<close>

theorem until_epoch_next_occurrence:
  assumes "u = parse_until sp n" "us_time_only u" "us_utc u" "secs_in_range now" "secs_in_range (now + 86400)"
  shows "now < until_epoch u now t \<and> until_epoch u now t \<le> now + 86400
    \<and> until_epoch u now t mod 86400 = secs_of_day (us_c u)"
proof -
  define c where "c = (us_c u)\<lparr>c_y := c_y (to_civil now 0), c_mo := c_mo (to_civil now 0), c_d := c_d (to_civil now 0)\<rparr>"
  let ?day = "now div 86400 * 86400" and ?tod = "secs_of_day (us_c u)"
  have tod: "0 \<le> ?tod" "?tod < 86400" "\<not> us_epoch u" using parse_until_clock assms(1,2) by auto
  have now: "now = ?day + now mod 86400" "0 \<le> now mod 86400" "now mod 86400 < 86400" by simp_all
  have c: "civil_secs c = ?day + ?tod" unfolding c_def by (rule civil_secs_on_day [OF assms(4)])
  have "civil_secs (c\<lparr>c_h := 0, c_mi := 0, c_s := 0\<rparr>) = ?day"
    using c by (simp add: civil_secs_def c_def secs_of_day_def)
  then have mid: "civil_secs (c\<lparr>c_h := 0, c_mi := 0, c_s := 0\<rparr>) + 86400 = ?day + 86400" by simp
  have rng: "secs_in_range (?day + 86400)" using assms(4,5) now unfolding secs_in_range_def by linarith
  let ?n = "to_civil (?day + 86400) 0"
  have "(?day + 86400) div 86400 * 86400 = ?day + 86400" by simp
  then have nxt: "civil_secs (c\<lparr>c_y := c_y ?n, c_mo := c_mo ?n, c_d := c_d ?n\<rparr>) = ?day + 86400 + ?tod"
    using civil_secs_on_day [OF rng, of c] by (simp add: c_def secs_of_day_def)
  have "until_epoch u now t = (if ?day + ?tod \<le> now then ?day + 86400 + ?tod else ?day + ?tod)"
    unfolding until_epoch_def Let_def using tod(3) assms(2,3) c nxt by (simp add: c_def [symmetric] mid)
  moreover have "(?day + ?tod) mod 86400 = ?tod" "(?day + 86400 + ?tod) mod 86400 = ?tod"
    using tod by (simp_all add: add.commute [of ?day] mod_add_right_eq add.assoc)
  ultimately show ?thesis using now tod by auto
qed

theorem until_epoch_next_occurrence_witness:
  "us_time_only (parse_until (Some ''06:30Z'') 6) \<and>
   1723645331 < until_epoch (parse_until (Some ''06:30Z'') 6) 1723645331 tz_default"
proof -
  have "us_time_only (parse_until (Some ''06:30Z'') 6)" "us_utc (parse_until (Some ''06:30Z'') 6)"
    "secs_in_range 1723645331" "secs_in_range (1723645331 + 86400)" by code_simp+
  then show ?thesis using until_epoch_next_occurrence by blast
qed

subsection \<open>Limits of the parsers\<close>

text \<open>Two limits: an expanded year of ten digits, which the ISO 8601 writer emits for 32-bit years from 1000000000 on,
  is not read back, and a fraction of nine digits overflows the 64-bit product for units from the minute up although the
  duration itself is small.\<close>

theorem parser_limits:
  "put_year 1000000000 w = fold put ''+1000000000'' w
   \<and> cr_err (parse_iso8601 (Some ''+1000000000-08-14'') 17) = Some Malformed
   \<and> parse_duration_ns (Some ''0.5h'') 4 = \<lparr>dr_ns = 1800000000000, dr_err = None, dr_forever = False\<rparr>
   \<and> dr_err (parse_duration_ns (Some ''0.500000000h'') 12) = Some Overflow"
proof (intro conjI)
  show "put_year 1000000000 w = fold put ''+1000000000'' w"
    by (simp add: text_simps year_text_def to_u64_def u_text_def tmp_digits.simps char_of_def bit_Suc_0_iff)
  show "cr_err (parse_iso8601 (Some ''+1000000000-08-14'') 17) = Some Malformed" by code_simp
  show "parse_duration_ns (Some ''0.5h'') 4 = \<lparr>dr_ns = 1800000000000, dr_err = None, dr_forever = False\<rparr>"
    by (simp add: parse_duration_ns_def ieq_def dur_loop.simps dur_item_def some_digits_def some_digits_loop.simps
        is_digit_def digit_val_def dur_fraction_def skip_while.simps dur_unit_def dur_part_def dur_mul_def dur_add_def
        ns_per_defs to_u64_def u64_max_def dur_pow10_def dur_result0_def)
  show "dr_err (parse_duration_ns (Some ''0.500000000h'') 12) = Some Overflow"
    by (simp add: parse_duration_ns_def ieq_def dur_loop.simps dur_item_def some_digits_def some_digits_loop.simps
        is_digit_def digit_val_def dur_fraction_def skip_while.simps dur_unit_def dur_part_def dur_mul_def dur_add_def
        ns_per_defs to_u64_def u64_max_def dur_pow10_def dur_result0_def)
qed

end
