(* ===== verification/Chrono_Epochs.thy ===== *)
theory Chrono_Epochs
  imports Chrono_Civil
begin

text \<open>
  Conversions between Unix time and the epochs of \<^verbatim>\<open>src/src/chrono/epochs.hpp\<close>: NTP, Windows FILETIME,
  GPS, TAI, (modified) Julian days and the packed MS-DOS date.  The packed formats use the bit operations of
  the source on non-negative integers; the lemmas turn them into arithmetic once.
\<close>

unbundle bit_operations_syntax

subsection \<open>Epochs\<close>

definition ntp_to_unix :: i64 where "ntp_to_unix = 2208988800"
definition filetime_to_unix :: i64 where "filetime_to_unix = 11644473600"
definition gps_to_unix :: i64 where "gps_to_unix = 315964800"
definition jdn_at_unix :: i64 where "jdn_at_unix = 2440588"
definition mjd_at_unix :: i64 where "mjd_at_unix = 40587"
definition sec_per_gps_week :: i64 where "sec_per_gps_week = 604800"

lemmas epoch_consts = ntp_to_unix_def filetime_to_unix_def gps_to_unix_def jdn_at_unix_def mjd_at_unix_def
  sec_per_gps_week_def

definition ntp_from_unix :: "i64 \<Rightarrow> i64" where
  "ntp_from_unix unix_sec = unix_sec + ntp_to_unix"

definition unix_from_ntp :: "i64 \<Rightarrow> i64" where
  "unix_from_ntp ntp_sec = ntp_sec - ntp_to_unix"

definition ntp_timestamp :: "i64 \<Rightarrow> u32 \<Rightarrow> u64" where
  "ntp_timestamp unix_sec nsec =
     (let s = to_u64 (ntp_from_unix unix_sec) AND 0xFFFFFFFF;
          frac = to_u64 (push_bit 32 nsec) div 1000000000
      in to_u64 (push_bit 32 s) OR frac)"

definition unix_sec_from_ntp_timestamp :: "u64 \<Rightarrow> i64 \<Rightarrow> i64" where
  "unix_sec_from_ntp_timestamp ts era = unix_from_ntp (to_i64 (drop_bit 32 ts) + era * 4294967296)"

definition nsec_from_ntp_timestamp :: "u64 \<Rightarrow> u32" where
  "nsec_from_ntp_timestamp ts = to_u32 (drop_bit 32 (to_u64 ((ts AND 0xFFFFFFFF) * 1000000000)))"

definition filetime_from_unix :: "i64 \<Rightarrow> u32 \<Rightarrow> i64" where
  "filetime_from_unix unix_sec nsec = (unix_sec + filetime_to_unix) * 10000000 + nsec div 100"

definition unix_from_filetime :: "i64 \<Rightarrow> i64" where
  "unix_from_filetime ft = floor_div ft 10000000 - filetime_to_unix"

definition nsec_from_filetime :: "i64 \<Rightarrow> u32" where
  "nsec_from_filetime ft = to_u32 (floor_mod ft 10000000 * 100)"

record gps_time =
  gps_week :: i64
  gps_tow :: i64

definition gps_from_unix :: "i64 \<Rightarrow> i32 \<Rightarrow> i64" where
  "gps_from_unix unix_sec tai_utc = unix_sec - gps_to_unix + (tai_utc - 19)"

definition unix_from_gps :: "i64 \<Rightarrow> i32 \<Rightarrow> i64" where
  "unix_from_gps gps_sec tai_utc = gps_sec + gps_to_unix - (tai_utc - 19)"

definition gps_week_tow :: "i64 \<Rightarrow> i32 \<Rightarrow> gps_time" where
  "gps_week_tow unix_sec tai_utc =
     (let g = gps_from_unix unix_sec tai_utc
      in \<lparr>gps_week = floor_div g sec_per_gps_week, gps_tow = floor_mod g sec_per_gps_week\<rparr>)"

definition unix_from_gps_week_tow :: "i64 \<Rightarrow> i64 \<Rightarrow> i32 \<Rightarrow> i64" where
  "unix_from_gps_week_tow week tow tai_utc = unix_from_gps (week * sec_per_gps_week + tow) tai_utc"

definition tai_from_unix :: "i64 \<Rightarrow> i32 \<Rightarrow> i64" where
  "tai_from_unix unix_sec tai_utc = unix_sec + tai_utc"

definition unix_from_tai :: "i64 \<Rightarrow> i32 \<Rightarrow> i64" where
  "unix_from_tai tai_sec tai_utc = tai_sec - tai_utc"

definition jdn :: "i64 \<Rightarrow> i64" where
  "jdn unix_sec =
     (let days = floor_div unix_sec 86400;
          secs = unix_sec - days * 86400
      in days + jdn_at_unix + (if secs \<ge> 43200 then 1 else 0))"

definition mjd :: "i64 \<Rightarrow> i64" where
  "mjd unix_sec = floor_div unix_sec 86400 + mjd_at_unix"

definition unix_from_mjd :: "i64 \<Rightarrow> i64" where
  "unix_from_mjd m = (m - mjd_at_unix) * 86400"

definition julian_date_x1e6 :: "i64 \<Rightarrow> i64" where
  "julian_date_x1e6 unix_sec = jdn_at_unix * 1000000 - 500000 + (unix_sec * 1000000) sdiv 86400"

record dos_datetime =
  dos_date :: u16
  dos_time :: u16

definition dos_from_civil :: "civil \<Rightarrow> dos_datetime" where
  "dos_from_civil c =
     (if c_y c < 1980 \<or> c_y c > 2107 then \<lparr>dos_date = 0, dos_time = 0\<rparr>
      else
        \<lparr>dos_date = to_u16 (push_bit 9 (to_u32 (c_y c - 1980) AND 0x7F) OR push_bit 5 (c_mo c AND 0x0F) OR (c_d c AND 0x1F)),
         dos_time = to_u16 (push_bit 11 (c_h c AND 0x1F) OR push_bit 5 (c_mi c AND 0x3F) OR ((c_s c div 2) AND 0x1F))\<rparr>)"

definition civil_from_dos :: "dos_datetime \<Rightarrow> civil" where
  "civil_from_dos v =
     civil_default\<lparr>c_y := (drop_bit 9 (dos_date v) AND 0x7F) + 1980, c_mo := drop_bit 5 (dos_date v) AND 0x0F,
       c_d := dos_date v AND 0x1F, c_h := drop_bit 11 (dos_time v) AND 0x1F, c_mi := drop_bit 5 (dos_time v) AND 0x3F,
       c_s := (dos_time v AND 0x1F) * 2\<rparr>"

subsection \<open>Packed fields as arithmetic\<close>

named_theorems bit_arith \<open>masks, shifts and packing as arithmetic\<close>

lemma and_masks [bit_arith]:
  fixes x :: int
  shows "x AND 0x0F = x mod 16" "x AND 0x1F = x mod 32" "x AND 0x3F = x mod 64" "x AND 0x7F = x mod 128"
    "x AND 0xFFFFFFFF = x mod 4294967296"
  using take_bit_eq_mask [of 4 x] take_bit_eq_mask [of 5 x] take_bit_eq_mask [of 6 x] take_bit_eq_mask [of 7 x]
    take_bit_eq_mask [of 32 x]
  by (simp_all add: take_bit_eq_mod mask_eq_exp_minus_1)

lemma or_pack:
  fixes a b :: int
  assumes "0 \<le> b" "b < 2 ^ n"
  shows "push_bit n a OR b = a * 2 ^ n + b"
proof -
  have "b = take_bit n b" using assms by (simp add: take_bit_int_eq_self)
  then have "push_bit n a AND b = 0"
    by (intro bit_eqI) (metis bit_and_iff bit_push_bit_iff bit_take_bit_iff bit_0_eq bot_apply bot_bool_def linorder_not_less)
  then have "push_bit n a + b = push_bit n a OR b" by (simp add: disjunctive_add_eq_or)
  then show ?thesis by (simp add: push_bit_eq_mult)
qed

lemmas shift_arith [bit_arith] = push_bit_eq_mult drop_bit_eq_div

lemma fields_pack3:
  fixes a b c :: int
  assumes "0 \<le> b" "b < 2 ^ m" "0 \<le> c" "c < 2 ^ n"
  shows "push_bit (m + n) a OR push_bit n b OR c = (a * 2 ^ m + b) * 2 ^ n + c"
proof -
  have "push_bit (m + n) a OR push_bit n b OR c = push_bit n (push_bit m a OR b) OR c"
    by (simp add: push_bit_or add.commute or.assoc)
  then show ?thesis using assms by (simp add: or_pack)
qed

lemma fields_unpack3:
  fixes a b c :: int
  assumes "0 \<le> b" "b < B" "0 \<le> c" "c < C" and v: "v = (a * B + b) * C + c"
  shows "v div C = a * B + b" "v mod C = c" "v div (B * C) = a" "v div C mod B = b"
proof -
  show 1: "v div C = a * B + b" "v mod C = c" using assms by auto
  have "v div (B * C) = v div C div B" using assms by (metis mult.commute zdiv_zmult2_eq less_le_trans not_less order.strict_iff_order)
  then show "v div (B * C) = a" using 1 assms by simp
  show "v div C mod B = b" using 1 assms by simp
qed

lemma dos_date_pack:
  fixes y m d :: int
  assumes "0 \<le> y" "y < 128" "0 \<le> m" "m < 16" "0 \<le> d" "d < 32"
  shows "to_u16 (push_bit 9 (y AND 0x7F) OR push_bit 5 (m AND 0x0F) OR (d AND 0x1F)) = (y * 16 + m) * 32 + d"
  using fields_pack3 [of m 4 d 5 y] assms by (simp add: and_masks to_u16_id)

lemma dos_time_pack:
  fixes h m s :: int
  assumes "0 \<le> h" "h < 32" "0 \<le> m" "m < 64" "0 \<le> s" "s < 32"
  shows "to_u16 (push_bit 11 (h AND 0x1F) OR push_bit 5 (m AND 0x3F) OR (s AND 0x1F)) = (h * 64 + m) * 32 + s"
  using fields_pack3 [of m 6 s 5 h] assms by (simp add: and_masks to_u16_id)

lemma civil_from_dos_pack:
  assumes "0 \<le> y" "y < 128" "0 \<le> m" "m < 16" "0 \<le> d" "d < 32" "0 \<le> h" "h < 32" "0 \<le> mi" "mi < 64" "0 \<le> s" "s < 32"
  shows "civil_from_dos \<lparr>dos_date = (y * 16 + m) * 32 + d, dos_time = (h * 64 + mi) * 32 + s\<rparr> =
    civil_default\<lparr>c_y := y + 1980, c_mo := m, c_d := d, c_h := h, c_mi := mi, c_s := s * 2\<rparr>"
proof -
  define D T where "D = (y * 16 + m) * 32 + d" and "T = (h * 64 + mi) * 32 + s"
  note d = fields_unpack3 [OF assms(3-6) D_def] and t = fields_unpack3 [OF assms(9-12) T_def]
  have e: "drop_bit 9 D = D div (16 * 32)" "drop_bit 5 D = D div 32" "drop_bit 11 T = T div (64 * 32)" "drop_bit 5 T = T div 32"
    by (simp_all add: drop_bit_eq_div)
  have "y mod 128 = y" "h mod 32 = h" using assms by simp_all
  then show ?thesis unfolding D_def [symmetric] T_def [symmetric] civil_from_dos_def dos_datetime.simps e and_masks d(2,3,4) t(2,3,4)
    by simp
qed

lemma fields_split3: "0 < B \<Longrightarrow> 0 < C \<Longrightarrow> v = (v div (B * C) * B + v div C mod B) * C + v mod (C::int)"
proof -
  assume "0 < B" "0 < C"
  then have "v div (B * C) = v div C div B" by (simp add: zdiv_zmult2_eq mult.commute [of B])
  then have "v div (B * C) * B + v div C mod B = v div C" by simp
  then show ?thesis by simp
qed

lemma dos_words:
  assumes "0 \<le> dd" "dd < 65536" "0 \<le> dt" "dt < 65536"
  shows "dos_from_civil (civil_from_dos \<lparr>dos_date = dd, dos_time = dt\<rparr>) = \<lparr>dos_date = dd, dos_time = dt\<rparr>"
proof -
  obtain y m d where d: "dd = (y * 16 + m) * 32 + d" "0 \<le> y" "y < 128" "0 \<le> m" "m < 16" "0 \<le> d" "d < 32"
  proof
    show "dd = (dd div (16 * 32) * 16 + dd div 32 mod 16) * 32 + dd mod 32" by (rule fields_split3) simp_all
    show "dd div (16 * 32) < 128" "0 \<le> dd div (16 * 32)" using assms by auto
  qed simp_all
  obtain h mi s where t: "dt = (h * 64 + mi) * 32 + s" "0 \<le> h" "h < 32" "0 \<le> mi" "mi < 64" "0 \<le> s" "s < 32"
  proof
    show "dt = (dt div (64 * 32) * 64 + dt div 32 mod 64) * 32 + dt mod 32" by (rule fields_split3) simp_all
    show "dt div (64 * 32) < 32" "0 \<le> dt div (64 * 32)" using assms by auto
  qed simp_all
  let ?c = "civil_default\<lparr>c_y := y + 1980, c_mo := m, c_d := d, c_h := h, c_mi := mi, c_s := s * 2\<rparr>"
  have "civil_from_dos \<lparr>dos_date = dd, dos_time = dt\<rparr> = ?c"
    unfolding d(1) t(1) by (rule civil_from_dos_pack [OF d(2-7) t(2-7)])
  moreover have "dos_from_civil ?c = \<lparr>dos_date = dd, dos_time = dt\<rparr>"
    using dos_date_pack [OF d(2-7)] dos_time_pack [OF t(2-7)] d(2,3) by (simp add: dos_from_civil_def to_u32_id d(1) t(1))
  ultimately show ?thesis by simp
qed

text \<open>The packed MS-DOS date-time is exact up to its two-second resolution: a valid civil time from 1980 to 2107 comes
  back with its seconds rounded down to even (and no subsecond or offset), and every pair of 16-bit words survives
  unpacking and packing unchanged.\<close>

theorem dos_roundtrip:
  "(civil_wf c \<and> civil_is_valid c \<and> 1980 \<le> c_y c \<and> c_y c \<le> 2107 \<longrightarrow>
      civil_from_dos (dos_from_civil c) = c\<lparr>c_s := c_s c - c_s c mod 2, c_ns := 0, c_off := 0\<rparr>)
   \<and> (0 \<le> dd \<and> dd < 65536 \<and> 0 \<le> dt \<and> dt < 65536 \<longrightarrow>
      dos_from_civil (civil_from_dos \<lparr>dos_date = dd, dos_time = dt\<rparr>) = \<lparr>dos_date = dd, dos_time = dt\<rparr>)"
proof (intro conjI impI)
  assume a: "civil_wf c \<and> civil_is_valid c \<and> 1980 \<le> c_y c \<and> c_y c \<le> 2107"
  then have v: "1 \<le> c_mo c" "c_mo c \<le> 12" "1 \<le> c_d c" "c_d c \<le> 31"
    using days_in_month_le [of "c_mo c" "c_y c"] by (auto simp: civil_is_valid_def civil_valid_def)
  have r: "0 \<le> c_h c" "c_h c < 24" "0 \<le> c_mi c" "c_mi c < 60" "0 \<le> c_s c" "c_s c < 61"
    using a by (auto simp: civil_wf_def civil_is_valid_def)
  have s2: "c_s c div 2 * 2 = c_s c - c_s c mod 2" by (simp add: minus_mod_eq_div_mult)
  have s: "0 \<le> c_s c div 2" "c_s c div 2 < 32" using r by auto
  have "dos_from_civil c = \<lparr>dos_date = ((c_y c - 1980) * 16 + c_mo c) * 32 + c_d c, dos_time = (c_h c * 64 + c_mi c) * 32 + c_s c div 2\<rparr>"
    using a v r s dos_date_pack [of "c_y c - 1980" "c_mo c" "c_d c"] dos_time_pack [of "c_h c" "c_mi c" "c_s c div 2"]
    by (simp add: dos_from_civil_def to_u32_id)
  then show "civil_from_dos (dos_from_civil c) = c\<lparr>c_s := c_s c - c_s c mod 2, c_ns := 0, c_off := 0\<rparr>"
    using civil_from_dos_pack [of "c_y c - 1980" "c_mo c" "c_d c" "c_h c" "c_mi c" "c_s c div 2"] a v r s s2
    by (cases c) (simp add: civil_default_def)
next
  assume a: "0 \<le> dd \<and> dd < 65536 \<and> 0 \<le> dt \<and> dt < 65536"
  then show "dos_from_civil (civil_from_dos \<lparr>dos_date = dd, dos_time = dt\<rparr>) = \<lparr>dos_date = dd, dos_time = dt\<rparr>"
    by (intro dos_words) auto
qed

definition dos_example :: civil where
  "dos_example = \<lparr>c_y = 2026, c_mo = 8, c_d = 14, c_h = 14, c_mi = 22, c_s = 11, c_ns = 5, c_off = 60\<rparr>"

theorem dos_roundtrip_witness:
  "c_s (civil_from_dos (dos_from_civil dos_example)) = 10
   \<and> dos_from_civil (civil_from_dos \<lparr>dos_date = 0x5D0E, dos_time = 0x72C5\<rparr>) = \<lparr>dos_date = 0x5D0E, dos_time = 0x72C5\<rparr>"
proof -
  have "civil_wf dos_example \<and> civil_is_valid dos_example \<and> 1980 \<le> c_y dos_example \<and> c_y dos_example \<le> 2107" by code_simp
  then show ?thesis using dos_roundtrip [of dos_example "0x5D0E" "0x72C5"] by (simp add: dos_example_def)
qed

text \<open>The NTP timestamp of a Unix time gives back the second (in its era) and a nanosecond count that is never larger
  and at most one smaller.\<close>

theorem ntp_timestamp_roundtrip:
  assumes "is_i64 (ntp_from_unix unix_sec)" "0 \<le> nsec" "nsec < 1000000000"
  shows "unix_sec_from_ntp_timestamp (ntp_timestamp unix_sec nsec) (ntp_from_unix unix_sec div 4294967296) = unix_sec
    \<and> nsec_from_ntp_timestamp (ntp_timestamp unix_sec nsec) \<in> {nsec - 1..nsec}"
proof -
  define n where "n = ntp_from_unix unix_sec"
  define s where "s = n mod 4294967296"
  define f where "f = nsec * 4294967296 div 1000000000"
  have s: "0 \<le> s" "s < 4294967296" by (simp_all add: s_def)
  have fd: "f * 1000000000 \<le> nsec * 4294967296" "nsec * 4294967296 < f * 1000000000 + 1000000000"
    using pos_mod_sign [of 1000000000 "nsec * 4294967296"] pos_mod_bound [of 1000000000 "nsec * 4294967296"]
      div_mult_mod_eq [of "nsec * 4294967296" 1000000000] by (simp_all add: f_def)
  have f: "0 \<le> f" "f < 4294967296" using fd assms(2,3) by linarith+
  have m: "to_u64 n mod 4294967296 = s" unfolding to_u64_def s_def by (rule mod_mod_cancel) simp
  have fr: "to_u64 (push_bit 32 nsec) = nsec * 4294967296" using assms(2,3) by (simp add: push_bit_eq_mult to_u64_id)
  have sh: "to_u64 (push_bit 32 s) = push_bit 32 s" using s by (simp add: push_bit_eq_mult to_u64_id)
  have ts: "ntp_timestamp unix_sec nsec = s * 4294967296 + f"
    using or_pack [of f 32 s] f by (simp add: ntp_timestamp_def Let_def and_masks fr f_def sh m flip: n_def)
  have q: "(s * 4294967296 + f) div 4294967296 = s" "(s * 4294967296 + f) mod 4294967296 = f" using f by auto
  have "n = n div 4294967296 * 4294967296 + s" by (simp add: s_def)
  then have sec: "unix_sec_from_ntp_timestamp (s * 4294967296 + f) (n div 4294967296) = unix_sec"
    using s q by (simp add: unix_sec_from_ntp_timestamp_def drop_bit_eq_div to_i64_id unix_from_ntp_def n_def ntp_from_unix_def)
  define g where "g = f * 1000000000 div 4294967296"
  have gd: "g * 4294967296 \<le> f * 1000000000" "f * 1000000000 < g * 4294967296 + 4294967296"
    using pos_mod_sign [of 4294967296 "f * 1000000000"] pos_mod_bound [of 4294967296 "f * 1000000000"]
      div_mult_mod_eq [of "f * 1000000000" 4294967296] by (simp_all add: g_def)
  have g: "g \<le> nsec" "nsec - 1 \<le> g" "0 \<le> g" using gd fd f by linarith+
  have "to_u64 (f * 1000000000) = f * 1000000000" using f by (intro to_u64_id) auto
  then have "nsec_from_ntp_timestamp (s * 4294967296 + f) = g"
    using q g assms(3) by (simp add: nsec_from_ntp_timestamp_def and_masks drop_bit_eq_div g_def to_u32_id)
  then show ?thesis using sec g by (simp add: ts flip: n_def)
qed

theorem ntp_timestamp_roundtrip_witness:
  "unix_sec_from_ntp_timestamp (ntp_timestamp 1723645331 500000000) (ntp_from_unix 1723645331 div 4294967296) = 1723645331"
  using ntp_timestamp_roundtrip [of 1723645331 500000000] by (simp add: is_i64_def ntp_from_unix_def ntp_to_unix_def)

text \<open>The remaining epochs invert: FILETIME keeps the second and the nanoseconds down to 100, GPS week and time of week
  (with the time of week inside its week), TAI and modified Julian days give the time back, and the Julian day number is the
  modified Julian day of noon-based days.\<close>

theorem epoch_conversions_invert:
  assumes "0 \<le> nsec" "nsec < 1000000000"
  shows "unix_from_filetime (filetime_from_unix s nsec) = s
    \<and> nsec_from_filetime (filetime_from_unix s nsec) = nsec - nsec mod 100
    \<and> unix_from_gps_week_tow (gps_week (gps_week_tow s k)) (gps_tow (gps_week_tow s k)) k = s
    \<and> gps_tow (gps_week_tow s k) \<in> {0..<sec_per_gps_week}
    \<and> unix_from_tai (tai_from_unix s k) k = s
    \<and> unix_from_mjd (mjd s) = s - s mod 86400 \<and> mjd (unix_from_mjd m) = m
    \<and> jdn s = mjd (s + 43200) + 2400001"
proof -
  have n: "0 \<le> nsec div 100" "nsec div 100 < 10000000" using assms by auto
  define w where "w = s + filetime_to_unix"
  have ft: "filetime_from_unix s nsec div 10000000 = s + filetime_to_unix" "filetime_from_unix s nsec mod 10000000 = nsec div 100"
    using n unfolding filetime_from_unix_def w_def [symmetric] by simp_all
  have e: "nsec div 100 * 100 = nsec - nsec mod 100" by (simp add: minus_mod_eq_div_mult)
  have f: "nsec_from_filetime (filetime_from_unix s nsec) = nsec - nsec mod 100"
  proof -
    have "to_u32 (nsec div 100 * 100) = nsec div 100 * 100" using n by (intro to_u32_id) linarith+
    then show ?thesis by (simp add: nsec_from_filetime_def floor_mod_eq ft e)
  qed
  have g: "unix_from_gps_week_tow (gps_week (gps_week_tow s k)) (gps_tow (gps_week_tow s k)) k = s"
    by (simp add: unix_from_gps_week_tow_def gps_week_tow_def Let_def floor_div_eq floor_mod_eq sec_per_gps_week_def
        unix_from_gps_def gps_from_unix_def)
  define q r where "q = s div 86400" and "r = s mod 86400"
  have qr: "s = q * 86400 + r" "0 \<le> r" "r < 86400" by (simp_all add: q_def r_def)
  have "(s + 43200) div 86400 = q + (if r \<ge> 43200 then 1 else 0)" using qr by auto
  then have j: "jdn s = mjd (s + 43200) + 2400001"
    using qr by (simp add: jdn_def mjd_def Let_def floor_div_eq epoch_consts flip: q_def)
  show ?thesis
    using f g j
    by (simp add: unix_from_filetime_def floor_div_eq ft gps_week_tow_def Let_def floor_mod_eq sec_per_gps_week_def
        unix_from_tai_def tai_from_unix_def unix_from_mjd_def mjd_def minus_mod_eq_div_mult)
qed

theorem epoch_conversions_invert_witness:
  "unix_from_filetime (filetime_from_unix 1723645331 123456789) = 1723645331
   \<and> jdn 1723645331 = mjd (1723645331 + 43200) + 2400001"
  using epoch_conversions_invert [of 123456789 1723645331 0 0] by simp

end
