(* ===== verification/Sort_Base.thy ===== *)
theory Sort_Base
  imports Micron_Prelude
begin

text \<open>
  What the sorting routines of \<^verbatim>\<open>src/src/sort\<close> share.  A container is the list of its elements, a
  comparator a boolean function.  The comparator contract of the library is the locale \<open>strict_weak\<close>; the
  contract of a sorting routine is \<open>sorter\<close>, and \<open>stable_sorter\<close> when it keeps the order of equivalent
  elements.  Routines that work on a range are described by \<open>seg_perm\<close>: they permute the range and leave the
  rest alone.
\<close>

subsection \<open>Swaps and ranges\<close>

definition swap_at :: "'a list \<Rightarrow> nat \<Rightarrow> nat \<Rightarrow> 'a list" where
  "swap_at xs i j = xs[i := xs ! j, j := xs ! i]"

lemma length_swap_at [simp, len_simps]: "length (swap_at xs i j) = length xs"
  by (simp add: swap_at_def)

lemma swap_at_same: "swap_at xs i i = xs"
  by (simp add: swap_at_def)

lemma mset_swap_at [simp, mset_simps]:
  "i < length xs \<Longrightarrow> j < length xs \<Longrightarrow> mset (swap_at xs i j) = mset xs"
  by (simp add: swap_at_def mset_swap)

lemma nth_swap_at:
  "i < length xs \<Longrightarrow> j < length xs \<Longrightarrow>
   swap_at xs i j ! k = (if k = i then xs ! j else if k = j then xs ! i else xs ! k)"
  by (auto simp: swap_at_def nth_list_update)

lemma swap_at_drop: "lo + i < length xs \<Longrightarrow> lo + j < length xs \<Longrightarrow>
    swap_at xs (lo + i) (lo + j) = take lo xs @ swap_at (drop lo xs) i j"
  by (rule nth_equalityI) (auto simp: nth_swap_at nth_append)

text \<open>\<open>ys\<close> is \<open>xs\<close> with the elements of the positions \<open>lo\<close> to \<open>hi - 1\<close> permuted.\<close>

definition seg_perm :: "nat \<Rightarrow> nat \<Rightarrow> 'a list \<Rightarrow> 'a list \<Rightarrow> bool" where
  "seg_perm lo hi xs ys \<longleftrightarrow> mset ys = mset xs \<and> (\<forall>k < length xs. k < lo \<or> hi \<le> k \<longrightarrow> ys ! k = xs ! k)"

lemma seg_perm_refl [simp]: "seg_perm lo hi xs xs"
  by (simp add: seg_perm_def)

lemma seg_perm_length: "seg_perm lo hi xs ys \<Longrightarrow> length ys = length xs"
  unfolding seg_perm_def using mset_eq_length by blast

lemma seg_perm_mset: "seg_perm lo hi xs ys \<Longrightarrow> mset ys = mset xs"
  by (simp add: seg_perm_def)

lemma seg_perm_outside: "seg_perm lo hi xs ys \<Longrightarrow> k < length xs \<Longrightarrow> k < lo \<or> hi \<le> k \<Longrightarrow> ys ! k = xs ! k"
  by (auto simp: seg_perm_def)

lemma seg_perm_trans: "seg_perm lo hi xs ys \<Longrightarrow> seg_perm lo hi ys zs \<Longrightarrow> seg_perm lo hi xs zs"
  using seg_perm_length [of lo hi xs ys] by (simp add: seg_perm_def)

lemma seg_perm_mono: "seg_perm lo hi xs ys \<Longrightarrow> lo' \<le> lo \<Longrightarrow> hi \<le> hi' \<Longrightarrow> seg_perm lo' hi' xs ys"
  by (auto simp: seg_perm_def)

lemma seg_perm_swap:
  "lo \<le> i \<Longrightarrow> i < hi \<Longrightarrow> lo \<le> j \<Longrightarrow> j < hi \<Longrightarrow> hi \<le> length xs \<Longrightarrow> seg_perm lo hi xs (swap_at xs i j)"
  by (auto simp: seg_perm_def nth_swap_at)

lemma seg_perm_slices:
  assumes "seg_perm lo hi xs ys" "hi \<le> length xs" "lo \<le> hi"
  shows "mset (take (hi - lo) (drop lo ys)) = mset (take (hi - lo) (drop lo xs))"
proof -
  have l: "length ys = length xs" using assms(1) by (rule seg_perm_length)
  have split: "zs = take lo zs @ take (hi - lo) (drop lo zs) @ drop hi zs" if "hi \<le> length zs" for zs :: "'a list"
    using that assms(3) by (metis append_take_drop_id drop_drop le_add_diff_inverse2)
  have "take lo ys = take lo xs" "drop hi ys = drop hi xs"
    using assms l by (auto simp: list_eq_iff_nth_eq seg_perm_def)
  moreover have "mset (take lo xs) + mset (take (hi - lo) (drop lo xs)) + mset (drop hi xs) = mset xs"
    "mset (take lo ys) + mset (take (hi - lo) (drop lo ys)) + mset (drop hi ys) = mset ys"
    using arg_cong [OF split [of xs], of mset] arg_cong [OF split [of ys], of mset] assms l by simp_all
  ultimately have "mset (take lo xs) + mset (take (hi - lo) (drop lo ys)) + mset (drop hi xs) =
      mset (take lo xs) + mset (take (hi - lo) (drop lo xs)) + mset (drop hi xs)"
    using assms(1) by (simp add: seg_perm_def)
  then show ?thesis by (metis add_left_imp_eq add_right_imp_eq)
qed

lemma seg_perm_nth:
  assumes "seg_perm lo hi xs ys" "hi \<le> length xs" "lo \<le> k" "k < hi"
  obtains k' where "lo \<le> k'" "k' < hi" "ys ! k = xs ! k'"
proof -
  have l: "length ys = length xs" using assms(1) by (rule seg_perm_length)
  have "set (take (hi - lo) (drop lo ys)) = set (take (hi - lo) (drop lo xs))"
    using seg_perm_slices [OF assms(1,2)] assms(3,4) by (metis mset_eq_setD less_imp_le_nat order_trans)
  moreover have "ys ! k \<in> set (take (hi - lo) (drop lo ys))"
    using assms(2-4) l by (auto simp: in_set_conv_nth intro!: exI [of _ "k - lo"])
  ultimately have "ys ! k \<in> set (take (hi - lo) (drop lo xs))" by simp
  then obtain m where "m < hi - lo" "m < length xs - lo" "ys ! k = xs ! (lo + m)"
    using assms(2) by (auto simp: in_set_conv_nth)
  then show ?thesis using that [of "lo + m"] by auto
qed

lemma seg_perm_all:
  assumes "seg_perm lo hi xs ys" "hi \<le> length xs" "\<And>k. lo \<le> k \<Longrightarrow> k < hi \<Longrightarrow> P (xs ! k)" "lo \<le> k" "k < hi"
  shows "P (ys ! k)"
  using seg_perm_nth [OF assms(1,2,4,5)] assms(3) by metis

subsection \<open>Comparators and the sorting contract\<close>

locale strict_weak =
  fixes cmp :: "'a \<Rightarrow> 'a \<Rightarrow> bool"
  assumes asym: "cmp x y \<Longrightarrow> \<not> cmp y x"
    and neg_trans: "\<not> cmp x y \<Longrightarrow> \<not> cmp y z \<Longrightarrow> \<not> cmp x z"
begin

lemma irrefl [simp]: "\<not> cmp x x"
  using asym by blast

lemma le_total: "\<not> cmp x y \<or> \<not> cmp y x"
  using asym by blast

lemma cmp_trans: "cmp x y \<Longrightarrow> cmp y z \<Longrightarrow> cmp x z"
  using asym neg_trans by blast

lemma le_cmp_trans: "\<not> cmp y x \<Longrightarrow> cmp y z \<Longrightarrow> cmp x z"
  using neg_trans by blast

lemma cmp_le_trans: "cmp x y \<Longrightarrow> \<not> cmp z y \<Longrightarrow> cmp x z"
  using neg_trans by blast

end

definition sorted_by :: "('a \<Rightarrow> 'a \<Rightarrow> bool) \<Rightarrow> 'a list \<Rightarrow> bool" where
  "sorted_by cmp xs \<longleftrightarrow> sorted_wrt (\<lambda>x y. \<not> cmp y x) xs"

lemma sorted_by_nth: "sorted_by cmp xs \<longleftrightarrow> (\<forall>i j. i < j \<longrightarrow> j < length xs \<longrightarrow> \<not> cmp (xs ! j) (xs ! i))"
  by (simp add: sorted_by_def sorted_wrt_iff_nth_less)

definition equiv_by :: "('a \<Rightarrow> 'a \<Rightarrow> bool) \<Rightarrow> 'a \<Rightarrow> 'a \<Rightarrow> bool" where
  "equiv_by cmp x y \<longleftrightarrow> \<not> cmp x y \<and> \<not> cmp y x"

definition stable_by :: "('a \<Rightarrow> 'a \<Rightarrow> bool) \<Rightarrow> 'a list \<Rightarrow> 'a list \<Rightarrow> bool" where
  "stable_by cmp xs ys \<longleftrightarrow> (\<forall>x. filter (equiv_by cmp x) ys = filter (equiv_by cmp x) xs)"

lemma stable_by_refl [simp]: "stable_by cmp xs xs"
  by (simp add: stable_by_def)

lemma stable_by_trans: "stable_by cmp xs ys \<Longrightarrow> stable_by cmp ys zs \<Longrightarrow> stable_by cmp xs zs"
  by (simp add: stable_by_def)

lemma stable_by_append: "stable_by cmp xs xs' \<Longrightarrow> stable_by cmp ys ys' \<Longrightarrow> stable_by cmp (xs @ ys) (xs' @ ys')"
  by (simp add: stable_by_def)

text \<open>Under a comparator by key, a sorted, stable permutation is the library's \<open>sort_key\<close>.\<close>

lemma strict_weak_key: "strict_weak (\<lambda>x y. key x < (key y :: 'k :: linorder))"
  by unfold_locales auto

lemma sort_key_unique:
  fixes key :: "'a \<Rightarrow> 'k :: linorder"
  assumes "mset ys = mset xs" "sorted_by (\<lambda>x y. key x < key y) ys" "stable_by (\<lambda>x y. key x < key y) xs ys"
  shows "ys = sort_key key xs"
proof (rule properties_for_sort_key [symmetric])
  show "mset ys = mset xs" by fact
  show "sorted (map key ys)" using assms(2) by (simp add: sorted_by_def sorted_map not_less)
  have "equiv_by (\<lambda>x y. key x < key y) k = (\<lambda>x. key k = key x)" for k by (auto simp: equiv_by_def fun_eq_iff)
  then show "filter (\<lambda>x. key k = key x) ys = filter (\<lambda>x. key k = key x) xs" for k
    using assms(3) by (auto simp: stable_by_def dest: spec [of _ k])
qed

locale sorter =
  fixes srt :: "('a \<Rightarrow> 'a \<Rightarrow> bool) \<Rightarrow> 'a list \<Rightarrow> 'a list"
  assumes srt_mset: "strict_weak cmp \<Longrightarrow> mset (srt cmp xs) = mset xs"
    and srt_sorted: "strict_weak cmp \<Longrightarrow> sorted_by cmp (srt cmp xs)"
begin

lemma srt_length: "strict_weak cmp \<Longrightarrow> length (srt cmp xs) = length xs"
  using srt_mset mset_eq_length by blast

text \<open>Where equivalent elements are equal there is only one sorted permutation.\<close>

lemma srt_unique:
  assumes "strict_weak cmp" "\<And>x y. equiv_by cmp x y \<Longrightarrow> x = y" "mset ys = mset xs" "sorted_by cmp ys"
  shows "srt cmp xs = ys"
proof -
  have uniq: "us = vs" if "mset us = mset vs" "sorted_by cmp us" "sorted_by cmp vs" for us vs
    using that
  proof (induction us arbitrary: vs)
    case (Cons u us)
    then obtain v vs' where vs: "vs = v # vs'" by (cases vs) auto
    have "u \<in> set vs" "v \<in> set (u # us)" using Cons.prems(1) vs by (metis list.set_intros(1) mset_eq_setD)+
    then have "u = v \<or> equiv_by cmp u v"
      using Cons.prems(2,3) vs by (auto simp: sorted_by_def equiv_by_def)
    then have "u = v" using assms(2) by blast
    then show ?case using Cons vs by (simp add: sorted_by_def)
  qed simp
  show ?thesis using uniq [of "srt cmp xs" ys] assms srt_mset srt_sorted by simp
qed

end

locale stable_sorter = sorter srt for srt :: "('a \<Rightarrow> 'a \<Rightarrow> bool) \<Rightarrow> 'a list \<Rightarrow> 'a list" +
  assumes srt_stable: "strict_weak cmp \<Longrightarrow> stable_by cmp xs (srt cmp xs)"
begin

lemma srt_is_sort_key: "srt (\<lambda>x y. key x < (key y :: 'k :: linorder)) xs = sort_key key xs"
  by (rule sort_key_unique) (simp_all add: srt_mset srt_sorted srt_stable strict_weak_key)

end

end
