(* ===== verification/Sort_Simple.thy ===== *)
theory Sort_Simple
  imports Sort_Base
begin

text \<open>
  The quadratic and gap sorts: \<^verbatim>\<open>insertion.hpp\<close>, \<^verbatim>\<open>bubble.hpp\<close>, \<^verbatim>\<open>comb.hpp\<close>, \<^verbatim>\<open>shell.hpp\<close> and the
  selection sort of \<^verbatim>\<open>select.hpp\<close> (all under \<^verbatim>\<open>src/src/sort\<close>).  Each loop is a recursion on its index, on
  the array as a list.  Insertion and bubble sort are proved stable sorters, the others sorters.
\<close>

subsection \<open>Insertion sort\<close>

text \<open>The inner loop: \<open>key\<close> travels left while it is smaller.\<close>

fun insertion_shift :: "('a \<Rightarrow> 'a \<Rightarrow> bool) \<Rightarrow> 'a \<Rightarrow> 'a list \<Rightarrow> nat \<Rightarrow> 'a list" where
  "insertion_shift cmp key arr j =
     (if j > 0 \<and> cmp key (arr ! (j - 1)) then insertion_shift cmp key (arr[j := arr ! (j - 1)]) (j - 1)
      else arr[j := key])"

declare insertion_shift.simps [simp del]

definition insertion_range :: "('a \<Rightarrow> 'a \<Rightarrow> bool) \<Rightarrow> 'a list \<Rightarrow> nat \<Rightarrow> nat \<Rightarrow> 'a list" where
  "insertion_range cmp arr start end = fold (\<lambda>i a. insertion_shift cmp (a ! i) a i) [start + 1..<end] arr"

definition insertion :: "('a \<Rightarrow> 'a \<Rightarrow> bool) \<Rightarrow> 'a list \<Rightarrow> 'a list" where
  "insertion cmp arr = insertion_range cmp arr 0 (length arr)"

definition insertion_lim :: "('a \<Rightarrow> 'a \<Rightarrow> bool) \<Rightarrow> 'a list \<Rightarrow> nat \<Rightarrow> 'a list" where
  "insertion_lim cmp arr lim = insertion_range cmp arr 0 (if lim < length arr then lim else length arr)"

definition insertion_less :: "'a :: linorder list \<Rightarrow> 'a list" where
  "insertion_less arr = insertion (<) arr"

definition insertion_less_lim :: "'a :: linorder list \<Rightarrow> nat \<Rightarrow> 'a list" where
  "insertion_less_lim arr lim = insertion_lim (<) arr lim"

text \<open>The iterator overload sorts the elements between two iterators; \<open>arr\<close> is that range.\<close>

definition insertion_it :: "('a \<Rightarrow> 'a \<Rightarrow> bool) \<Rightarrow> 'a list \<Rightarrow> 'a list" where
  "insertion_it cmp rng = fold (\<lambda>i a. insertion_shift cmp (a ! i) a i) [1..<length rng] rng"

subsection \<open>Bubble sort\<close>

function bubble_pass :: "('a \<Rightarrow> 'a \<Rightarrow> bool) \<Rightarrow> 'a list \<Rightarrow> nat \<Rightarrow> nat \<Rightarrow> nat \<Rightarrow> 'a list \<times> nat" where
  "bubble_pass cmp arr i n k =
     (if i < n then
        if cmp (arr ! i) (arr ! (i - 1)) then bubble_pass cmp (swap_at arr (i - 1) i) (i + 1) n i
        else bubble_pass cmp arr (i + 1) n k
      else (arr, k))"
  by auto
termination by (relation "measure (\<lambda>(_, _, i, n, _). n - i)") auto

declare bubble_pass.simps [simp del]

lemma bubble_pass_bound: "snd (bubble_pass cmp arr i n k) < n \<or> snd (bubble_pass cmp arr i n k) = k"
proof (induction cmp arr i n k rule: bubble_pass.induct)
  case (1 cmp arr i n k)
  then show ?case by (subst (1 2) bubble_pass.simps) auto
qed

lemma bubble_pass_shrinks: "(arr', k) = bubble_pass cmp arr 1 n 0 \<Longrightarrow> 1 \<le> n \<Longrightarrow> k < n"
  using bubble_pass_bound [of cmp arr 1 n 0] by (metis One_nat_def less_eq_Suc_le snd_conv)

function bubble_loop :: "('a \<Rightarrow> 'a \<Rightarrow> bool) \<Rightarrow> 'a list \<Rightarrow> nat \<Rightarrow> 'a list" where
  "bubble_loop cmp arr n =
     (if n \<ge> 1 then case bubble_pass cmp arr 1 n 0 of (arr', k) \<Rightarrow> bubble_loop cmp arr' k else arr)"
  by auto
termination
  by (relation "measure (\<lambda>(_, _, n). n)") (simp, unfold in_measure prod.case, rule bubble_pass_shrinks)

declare bubble_loop.simps [simp del]

definition bubble :: "('a \<Rightarrow> 'a \<Rightarrow> bool) \<Rightarrow> 'a list \<Rightarrow> 'a list" where
  "bubble cmp arr = bubble_loop cmp arr (length arr)"

definition bubble_it :: "('a \<Rightarrow> 'a \<Rightarrow> bool) \<Rightarrow> 'a list \<Rightarrow> 'a list" where
  "bubble_it cmp rng = bubble_loop cmp rng (length rng)"

definition bubble_less :: "'a :: linorder list \<Rightarrow> 'a list" where
  "bubble_less arr = bubble (<) arr"

subsection \<open>Selection sort\<close>

definition selection_min :: "('a \<Rightarrow> 'a \<Rightarrow> bool) \<Rightarrow> 'a list \<Rightarrow> nat \<Rightarrow> nat \<Rightarrow> nat" where
  "selection_min cmp arr i n = fold (\<lambda>j m. if cmp (arr ! j) (arr ! m) then j else m) [i + 1..<n] i"

definition selection_step :: "('a \<Rightarrow> 'a \<Rightarrow> bool) \<Rightarrow> nat \<Rightarrow> nat \<Rightarrow> 'a list \<Rightarrow> 'a list" where
  "selection_step cmp n i arr =
     (let m = selection_min cmp arr i n in if m \<noteq> i then swap_at arr i m else arr)"

definition selection :: "('a \<Rightarrow> 'a \<Rightarrow> bool) \<Rightarrow> 'a list \<Rightarrow> 'a list" where
  "selection cmp arr = fold (selection_step cmp (length arr)) [0..<length arr - 1] arr"

definition selection_it :: "('a \<Rightarrow> 'a \<Rightarrow> bool) \<Rightarrow> 'a list \<Rightarrow> 'a list" where
  "selection_it cmp rng = fold (selection_step cmp (length rng)) [0..<length rng - 1] rng"

definition selection_less :: "'a :: linorder list \<Rightarrow> 'a list" where
  "selection_less arr = selection (<) arr"

subsection \<open>Comb sort\<close>

definition comb_gap :: "nat \<Rightarrow> nat" where
  "comb_gap gap =
     (let g1 = (gap * 10) div 13;
          g2 = (if g1 = 9 \<or> g1 = 10 then 11 else g1)
      in if g2 < 1 then 1 else g2)"

function comb_pass :: "('a \<Rightarrow> 'a \<Rightarrow> bool) \<Rightarrow> 'a list \<Rightarrow> nat \<Rightarrow> nat \<Rightarrow> nat \<Rightarrow> bool \<Rightarrow> 'a list \<times> bool" where
  "comb_pass cmp arr gap n i swapped =
     (if i + gap < n then
        if cmp (arr ! (i + gap)) (arr ! i) then comb_pass cmp (swap_at arr i (i + gap)) gap n (i + 1) True
        else comb_pass cmp arr gap n (i + 1) swapped
      else (arr, swapped))"
  by auto
termination by (relation "measure (\<lambda>(_, _, gap, n, i, _). n - i)") auto

declare comb_pass.simps [simp del]

partial_function (option) comb_loop ::
  "('a \<Rightarrow> 'a \<Rightarrow> bool) \<Rightarrow> 'a list \<Rightarrow> nat \<Rightarrow> nat \<Rightarrow> bool \<Rightarrow> 'a list option" where
  [code]: "comb_loop cmp arr n gap swapped =
     (if gap > 1 \<or> swapped then
        case comb_pass cmp arr (comb_gap gap) n 0 False of
          (arr', swapped') \<Rightarrow> comb_loop cmp arr' n (comb_gap gap) swapped'
      else Some arr)"

definition comb :: "('a \<Rightarrow> 'a \<Rightarrow> bool) \<Rightarrow> 'a list \<Rightarrow> 'a list option" where
  "comb cmp arr = (if length arr < 2 then Some arr else comb_loop cmp arr (length arr) (length arr) True)"

definition comb_less :: "'a :: linorder list \<Rightarrow> 'a list option" where
  "comb_less arr = comb (<) arr"

subsection \<open>Shell sort\<close>

definition ciura :: "nat list" where
  "ciura = [1, 4, 10, 23, 57, 132, 301, 701, 1750]"

function shell_gaps :: "nat list \<Rightarrow> nat \<Rightarrow> nat list" where
  "shell_gaps gaps n =
     (if length gaps < 96 \<and> last gaps < n then shell_gaps (gaps @ [last gaps * 9 div 4]) n else gaps)"
  by auto
termination by (relation "measure (\<lambda>(gaps, n). 96 - length gaps)") auto

declare shell_gaps.simps [simp del]

text \<open>The inner loop at distance \<open>gap\<close>; every gap of the sequence is positive.\<close>

function shell_shift :: "('a \<Rightarrow> 'a \<Rightarrow> bool) \<Rightarrow> nat \<Rightarrow> 'a \<Rightarrow> 'a list \<Rightarrow> nat \<Rightarrow> 'a list" where
  "shell_shift cmp gap key arr j =
     (if 0 < gap \<and> j \<ge> gap \<and> cmp key (arr ! (j - gap)) then shell_shift cmp gap key (arr[j := arr ! (j - gap)]) (j - gap)
      else arr[j := key])"
  by auto
termination by (relation "measure (\<lambda>(_, _, _, _, j). j)") auto

declare shell_shift.simps [simp del]

definition shell_pass :: "('a \<Rightarrow> 'a \<Rightarrow> bool) \<Rightarrow> nat \<Rightarrow> nat \<Rightarrow> 'a list \<Rightarrow> 'a list" where
  "shell_pass cmp n gap arr =
     (if gap \<ge> n then arr else fold (\<lambda>i a. shell_shift cmp gap (a ! i) a i) [gap..<n] arr)"

definition shell :: "('a \<Rightarrow> 'a \<Rightarrow> bool) \<Rightarrow> 'a list \<Rightarrow> 'a list" where
  "shell cmp arr =
     (if length arr < 2 then arr
      else fold (shell_pass cmp (length arr)) (rev (shell_gaps ciura (length arr))) arr)"

definition shell_less :: "'a :: linorder list \<Rightarrow> 'a list" where
  "shell_less arr = shell (<) arr"

subsection \<open>Insertion sort is stable\<close>

text \<open>The inner loop on lists: \<open>key\<close> goes behind the last element it is not smaller than.\<close>

definition ins_list :: "('a \<Rightarrow> 'a \<Rightarrow> bool) \<Rightarrow> 'a \<Rightarrow> 'a list \<Rightarrow> 'a list" where
  "ins_list cmp key ys = rev (dropWhile (cmp key) (rev ys)) @ key # rev (takeWhile (cmp key) (rev ys))"

lemma insertion_shift_list:
  "j < length arr \<Longrightarrow> insertion_shift cmp key arr j = ins_list cmp key (take j arr) @ drop (Suc j) arr"
proof (induction j arbitrary: arr)
  case 0
  then show ?case by (subst insertion_shift.simps) (cases arr; simp add: ins_list_def)
next
  case (Suc j)
  have t: "take (Suc j) arr = take j arr @ [arr ! j]" using Suc.prems by (simp add: take_Suc_conv_app_nth)
  show ?case
  proof (cases "cmp key (arr ! j)")
    case True
    let ?a = "arr[Suc j := arr ! j]"
    have "insertion_shift cmp key arr (Suc j) = insertion_shift cmp key ?a j"
      using True by (subst insertion_shift.simps) simp
    also have "\<dots> = ins_list cmp key (take j arr) @ drop (Suc j) ?a" using Suc by simp
    also have "drop (Suc j) ?a = arr ! j # drop (Suc (Suc j)) arr"
      using Suc.prems by (simp add: drop_update_swap flip: Cons_nth_drop_Suc)
    finally show ?thesis using True t by (simp add: ins_list_def)
  next
    case False
    then have "insertion_shift cmp key arr (Suc j) = arr[Suc j := key]" by (subst insertion_shift.simps) simp
    also have "\<dots> = take (Suc j) arr @ key # drop (Suc (Suc j)) arr" using Suc.prems by (simp add: upd_conv_take_nth_drop)
    finally show ?thesis using False t by (simp add: ins_list_def)
  qed
qed

definition isort :: "('a \<Rightarrow> 'a \<Rightarrow> bool) \<Rightarrow> 'a list \<Rightarrow> 'a list" where
  "isort cmp xs = fold (ins_list cmp) xs []"

lemma length_ins_list: "length (ins_list cmp x ys) = Suc (length ys)"
proof -
  have "length (dropWhile (cmp x) (rev ys)) + length (takeWhile (cmp x) (rev ys)) = length ys"
    by (metis add.commute length_append length_rev takeWhile_dropWhile_id)
  then show ?thesis by (simp add: ins_list_def)
qed

lemma mset_ins_list: "mset (ins_list cmp x ys) = add_mset x (mset ys)"
proof -
  have "mset (dropWhile (cmp x) (rev ys)) + mset (takeWhile (cmp x) (rev ys)) = mset ys"
    by (metis add.commute mset_append mset_rev takeWhile_dropWhile_id)
  then show ?thesis by (simp add: ins_list_def)
qed

lemma length_isort: "length (isort cmp xs) = length xs"
  by (induction xs rule: rev_induct) (simp_all add: isort_def length_ins_list)

lemma mset_isort: "mset (isort cmp xs) = mset xs"
  by (induction xs rule: rev_induct) (simp_all add: isort_def mset_ins_list)

lemma insertion_fold:
  "e \<le> length arr \<Longrightarrow> 0 < e \<Longrightarrow>
   fold (\<lambda>i a. insertion_shift cmp (a ! i) a i) [1..<e] arr = isort cmp (take e arr) @ drop e arr"
proof (induction e)
  case (Suc e)
  show ?case
  proof (cases "e = 0")
    case True
    then show ?thesis using Suc.prems by (cases arr) (simp_all add: isort_def ins_list_def)
  next
    case False
    let ?a = "isort cmp (take e arr) @ drop e arr"
    have l: "length (isort cmp (take e arr)) = e" using Suc.prems by (simp add: length_isort)
    have n: "?a ! e = arr ! e" using Suc.prems l by (simp add: nth_append)
    have "fold (\<lambda>i a. insertion_shift cmp (a ! i) a i) [1..<Suc e] arr = insertion_shift cmp (?a ! e) ?a e"
      using Suc False by simp
    also have "\<dots> = ins_list cmp (arr ! e) (isort cmp (take e arr)) @ drop (Suc e) arr"
      using Suc.prems l n by (simp add: insertion_shift_list)
    also have "ins_list cmp (arr ! e) (isort cmp (take e arr)) = isort cmp (take (Suc e) arr)"
      using Suc.prems by (simp add: take_Suc_conv_app_nth isort_def)
    finally show ?thesis .
  qed
qed simp

lemma insertion_range_isort:
  assumes "e \<le> length arr"
  shows "insertion_range cmp arr 0 e = isort cmp (take e arr) @ drop e arr"
  using insertion_fold [OF assms] by (cases e) (simp_all add: insertion_range_def isort_def)

lemma insertion_eq_isort: "insertion cmp arr = isort cmp arr"
  by (simp add: insertion_def insertion_range_isort)

context strict_weak
begin

lemma ins_list_split:
  obtains L R where "ys = L @ R" "ins_list cmp x ys = L @ x # R" "\<And>b. b \<in> set R \<Longrightarrow> cmp x b" "L = [] \<or> \<not> cmp x (last L)"
proof
  show "ys = rev (dropWhile (cmp x) (rev ys)) @ rev (takeWhile (cmp x) (rev ys))"
    by (metis rev_append rev_rev_ident takeWhile_dropWhile_id)
  show "cmp x b" if "b \<in> set (rev (takeWhile (cmp x) (rev ys)))" for b using that by (auto dest: set_takeWhileD)
  show "rev (dropWhile (cmp x) (rev ys)) = [] \<or> \<not> cmp x (last (rev (dropWhile (cmp x) (rev ys))))"
    by (metis hd_dropWhile last_rev rev.simps(1))
qed (simp add: ins_list_def)

lemma sorted_ins_list:
  assumes "sorted_by cmp ys"
  shows "sorted_by cmp (ins_list cmp x ys)"
proof -
  obtain L R where LR: "ys = L @ R" "ins_list cmp x ys = L @ x # R" "\<And>b. b \<in> set R \<Longrightarrow> cmp x b" "L = [] \<or> \<not> cmp x (last L)"
    by (rule ins_list_split) blast
  have s: "sorted_wrt (\<lambda>x y. \<not> cmp y x) L" "sorted_wrt (\<lambda>x y. \<not> cmp y x) R" "\<forall>a\<in>set L. \<forall>b\<in>set R. \<not> cmp b a"
    using assms LR(1) by (simp_all add: sorted_by_def sorted_wrt_append)
  have L: "\<not> cmp x a" if "a \<in> set L" for a
  proof -
    obtain L' where L': "L = L' @ [last L]" using \<open>a \<in> set L\<close> by (metis append_butlast_last_id empty_iff list.set(1))
    have "\<forall>b\<in>set L'. \<not> cmp (last L) b" using s(1) by (subst (asm) L') (simp add: sorted_wrt_append)
    moreover have "a \<in> set L' \<or> a = last L" using \<open>a \<in> set L\<close> by (subst (asm) L') auto
    ultimately show ?thesis using LR(4) neg_trans \<open>a \<in> set L\<close> by fastforce
  qed
  have "\<forall>b\<in>set R. \<not> cmp b x" using LR(3) asym by blast
  then show ?thesis using s L LR(2) by (simp add: sorted_by_def sorted_wrt_append)
qed

lemma stable_ins_list: "filter (equiv_by cmp z) (ins_list cmp x ys) = filter (equiv_by cmp z) (ys @ [x])"
proof -
  obtain L R where LR: "ys = L @ R" "ins_list cmp x ys = L @ x # R" "\<And>b. b \<in> set R \<Longrightarrow> cmp x b" "L = [] \<or> \<not> cmp x (last L)"
    by (rule ins_list_split) blast
  have "\<not> equiv_by cmp z b" if "equiv_by cmp z x" "b \<in> set R" for b
    using LR(3) [OF that(2)] that(1) neg_trans [of x z b] by (auto simp: equiv_by_def)
  then have "filter (equiv_by cmp z) R = []" if "equiv_by cmp z x"
    using that by (simp add: filter_empty_conv)
  then show ?thesis unfolding LR(2) by (simp add: LR(1))
qed

lemma sorted_isort: "sorted_by cmp (isort cmp xs)"
proof (induction xs rule: rev_induct)
  case (snoc x xs)
  then show ?case using sorted_ins_list by (simp add: isort_def)
qed (simp add: isort_def sorted_by_def)

lemma stable_isort: "stable_by cmp xs (isort cmp xs)"
proof (induction xs rule: rev_induct)
  case (snoc x xs)
  then show ?case using stable_ins_list by (simp add: isort_def stable_by_def)
qed (simp add: isort_def)

end

interpretation ins: stable_sorter insertion
  by unfold_locales
     (simp_all add: insertion_eq_isort mset_isort strict_weak.sorted_isort strict_weak.stable_isort)

subsection \<open>Bubble sort is stable\<close>

text \<open>Everything before a position from \<open>k\<close> to \<open>i - 1\<close> is not larger than what is there.\<close>

definition tops :: "('a \<Rightarrow> 'a \<Rightarrow> bool) \<Rightarrow> nat \<Rightarrow> nat \<Rightarrow> 'a list \<Rightarrow> bool" where
  "tops cmp k i arr \<longleftrightarrow> (\<forall>p q. p < q \<longrightarrow> q < i \<longrightarrow> k \<le> q \<longrightarrow> \<not> cmp (arr ! q) (arr ! p))"

lemma sorted_by_tops: "sorted_by cmp arr \<longleftrightarrow> tops cmp 0 (length arr) arr"
  by (auto simp: sorted_by_nth tops_def)

context strict_weak
begin

lemma stable_swap_adjacent:
  assumes "Suc i < length arr" "cmp (arr ! Suc i) (arr ! i)"
  shows "stable_by cmp arr (swap_at arr i (Suc i))"
proof -
  have s: "arr = take i arr @ arr ! i # arr ! Suc i # drop (Suc (Suc i)) arr"
    using assms(1) by (metis Cons_nth_drop_Suc Suc_lessD append_take_drop_id)
  have w: "swap_at arr i (Suc i) = take i arr @ arr ! Suc i # arr ! i # drop (Suc (Suc i)) arr"
    using assms(1) by (intro nth_equalityI) (auto simp: nth_swap_at nth_append nth_Cons' intro!: arg_cong [where f = "(!) arr"])
  have "\<not> (equiv_by cmp x (arr ! i) \<and> equiv_by cmp x (arr ! Suc i))" for x
    using assms(2) neg_trans by (auto simp: equiv_by_def)
  then have "filter (equiv_by cmp x) [arr ! Suc i, arr ! i] = filter (equiv_by cmp x) [arr ! i, arr ! Suc i]" for x
    by auto
  then have "filter (equiv_by cmp x) (take i arr @ [arr ! Suc i, arr ! i] @ drop (Suc (Suc i)) arr) =
      filter (equiv_by cmp x) (take i arr @ [arr ! i, arr ! Suc i] @ drop (Suc (Suc i)) arr)" for x
    by (simp only: filter_append)
  then show ?thesis unfolding stable_by_def w using s by simp
qed

lemma bubble_pass_spec:
  assumes "bubble_pass cmp arr i n k = (arr', k')" "1 \<le> i" "i \<le> n" "n \<le> length arr" "k < i" "tops cmp k i arr"
  shows "seg_perm 0 n arr arr' \<and> stable_by cmp arr arr' \<and> tops cmp k' n arr'"
  using assms
proof (induction "n - i" arbitrary: arr i k rule: less_induct)
  case less
  note prems = less.prems
  show ?case
  proof (cases "i < n")
    case False
    then show ?thesis using prems by (subst (asm) bubble_pass.simps) auto
  next
    case i: True
    obtain j where j: "i = Suc j" using prems by (cases i) auto
    have jl: "Suc j < length arr" using i j prems by simp
    show ?thesis
    proof (cases "cmp (arr ! i) (arr ! (i - 1))")
      case True
      let ?a = "swap_at arr j (Suc j)"
      have e: "bubble_pass cmp ?a (i + 1) n i = (arr', k')"
        using prems(1) i True j by (subst (asm) bubble_pass.simps) simp
      have t: "tops cmp i (i + 1) ?a"
        unfolding tops_def
      proof (intro allI impI)
        fix p q assume pq: "p < q" "q < i + 1" "i \<le> q"
        then have "q = Suc j" "p \<le> j" using j by auto
        moreover have "\<not> cmp (arr ! j) (arr ! Suc j)" using True j asym by simp
        moreover have "\<not> cmp (arr ! j) (arr ! p)" if "p < j" using prems(5,6) that j by (simp add: tops_def)
        ultimately show "\<not> cmp (?a ! q) (?a ! p)" using jl by (cases "p = j") (simp_all add: nth_swap_at)
      qed
      have "seg_perm 0 n ?a arr' \<and> stable_by cmp ?a arr' \<and> tops cmp k' n arr'"
        using less.hyps [OF _ e] t i prems(3,4) j by simp
      moreover have "seg_perm 0 n arr ?a" using i j prems(4) by (intro seg_perm_swap) auto
      moreover have "stable_by cmp arr ?a" using True jl j by (intro stable_swap_adjacent) auto
      ultimately show ?thesis using seg_perm_trans stable_by_trans by blast
    next
      case False
      have e: "bubble_pass cmp arr (i + 1) n k = (arr', k')"
        using prems(1) i False by (subst (asm) bubble_pass.simps) simp
      have "tops cmp k (i + 1) arr"
        unfolding tops_def
      proof (intro allI impI)
        fix p q assume pq: "p < q" "q < i + 1" "k \<le> q"
        show "\<not> cmp (arr ! q) (arr ! p)"
        proof (cases "q = i")
          case True
          have "p = j \<or> \<not> cmp (arr ! j) (arr ! p)" using prems(5,6) pq True j by (auto simp: tops_def)
          then show ?thesis using False True j neg_trans by auto
        qed (use prems(6) pq in \<open>auto simp: tops_def\<close>)
      qed
      then show ?thesis using less.hyps [OF _ e] i prems by simp
    qed
  qed
qed

lemma tops_perm:
  assumes "seg_perm 0 n arr arr'" "tops cmp n (length arr) arr" "n \<le> length arr" "tops cmp k n arr'"
  shows "tops cmp k (length arr) arr'"
  unfolding tops_def
proof (intro allI impI)
  fix p q assume pq: "p < q" "q < length arr" "k \<le> q"
  show "\<not> cmp (arr' ! q) (arr' ! p)"
  proof (cases "q < n")
    case True
    then show ?thesis using pq assms(4) by (simp add: tops_def)
  next
    case False
    have q: "arr' ! q = arr ! q" using False pq seg_perm_outside [OF assms(1)] by simp
    show ?thesis
    proof (cases "p < n")
      case True
      have "\<not> cmp (arr ! q) (arr ! m)" if "m < n" for m using that False pq assms(2) by (auto simp: tops_def)
      then show ?thesis using seg_perm_all [OF assms(1,3), of "\<lambda>x. \<not> cmp (arr ! q) x" p] True q by simp
    next
      case p: False
      then have "arr' ! p = arr ! p" using pq seg_perm_outside [OF assms(1)] by simp
      then show ?thesis using q False pq p assms(2) by (auto simp: tops_def)
    qed
  qed
qed

lemma bubble_loop_spec:
  assumes "n \<le> length arr" "tops cmp n (length arr) arr"
  shows "mset (bubble_loop cmp arr n) = mset arr \<and> stable_by cmp arr (bubble_loop cmp arr n) \<and> sorted_by cmp (bubble_loop cmp arr n)"
  using assms
proof (induction n arbitrary: arr rule: less_induct)
  case (less n)
  show ?case
  proof (cases "1 \<le> n")
    case True
    obtain arr' k where p: "bubble_pass cmp arr 1 n 0 = (arr', k)" by (cases "bubble_pass cmp arr 1 n 0")
    have "tops cmp 0 1 arr" by (simp add: tops_def)
    then have s: "seg_perm 0 n arr arr'" "stable_by cmp arr arr'" "tops cmp k n arr'"
      using bubble_pass_spec [OF p] True less.prems by auto
    have k: "k < n" using bubble_pass_shrinks [of arr' k cmp arr n] p True by simp
    have l: "length arr' = length arr" using s(1) by (rule seg_perm_length)
    have "tops cmp k (length arr) arr'" by (rule tops_perm [OF s(1) less.prems(2,1) s(3)])
    then have "mset (bubble_loop cmp arr' k) = mset arr' \<and> stable_by cmp arr' (bubble_loop cmp arr' k)
        \<and> sorted_by cmp (bubble_loop cmp arr' k)"
      using less.IH [OF k, of arr'] k less.prems l by simp
    moreover have "bubble_loop cmp arr n = bubble_loop cmp arr' k" using True p by (subst bubble_loop.simps) simp
    ultimately show ?thesis using s seg_perm_mset stable_by_trans by metis
  next
    case False
    then have "n = 0" by simp
    then show ?thesis using less.prems by (subst (1 2 3) bubble_loop.simps) (simp add: sorted_by_tops)
  qed
qed

lemma bubble_spec:
  "mset (bubble cmp arr) = mset arr \<and> stable_by cmp arr (bubble cmp arr) \<and> sorted_by cmp (bubble cmp arr)"
  unfolding bubble_def by (rule bubble_loop_spec) (simp_all add: tops_def)

end

interpretation bub: stable_sorter bubble
  by unfold_locales (simp_all add: strict_weak.bubble_spec)

subsection \<open>Selection sort\<close>

definition sel_inv :: "('a \<Rightarrow> 'a \<Rightarrow> bool) \<Rightarrow> nat \<Rightarrow> 'a list \<Rightarrow> bool" where
  "sel_inv cmp i arr \<longleftrightarrow> (\<forall>p q. p < q \<longrightarrow> q < length arr \<longrightarrow> p < i \<longrightarrow> \<not> cmp (arr ! q) (arr ! p))"

lemma selection_min_bounds:
  assumes "i < n"
  shows "i \<le> selection_min cmp arr i n \<and> selection_min cmp arr i n < n"
proof -
  have "i \<le> fold (\<lambda>j m. if cmp (arr ! j) (arr ! m) then j else m) [i + 1..<k] i \<and>
      fold (\<lambda>j m. if cmp (arr ! j) (arr ! m) then j else m) [i + 1..<k] i < max k (Suc i)" for k
    by (induction k) auto
  from this [of n] show ?thesis using assms by (simp add: selection_min_def max_absorb1)
qed

context strict_weak
begin

lemma selection_min_least:
  assumes "i < n" "i \<le> q" "q < n"
  shows "\<not> cmp (arr ! q) (arr ! selection_min cmp arr i n)"
proof -
  let ?f = "\<lambda>k. fold (\<lambda>j m. if cmp (arr ! j) (arr ! m) then j else m) [i + 1..<k] i"
  have "\<forall>q. i \<le> q \<and> q < k \<longrightarrow> \<not> cmp (arr ! q) (arr ! ?f k)" if "i < k" for k
    using that
  proof (induction k)
    case (Suc k)
    show ?case
    proof (cases "i = k")
      case False
      then have IH: "\<forall>q. i \<le> q \<and> q < k \<longrightarrow> \<not> cmp (arr ! q) (arr ! ?f k)" and
        f: "?f (Suc k) = (if cmp (arr ! k) (arr ! ?f k) then k else ?f k)" using Suc by auto
      show ?thesis
      proof (intro allI impI)
        fix q assume q: "i \<le> q \<and> q < Suc k"
        show "\<not> cmp (arr ! q) (arr ! ?f (Suc k))"
        proof (cases "q = k")
          case True
          then show ?thesis unfolding f by simp
        next
          case False
          then have "\<not> cmp (arr ! q) (arr ! ?f k)" using IH q by simp
          moreover have "\<not> cmp (arr ! ?f k) (arr ! k)" if "cmp (arr ! k) (arr ! ?f k)" using that by (rule asym)
          ultimately show ?thesis unfolding f using neg_trans [of "arr ! q" "arr ! ?f k" "arr ! k"] by simp
        qed
      qed
    qed (auto simp: less_Suc_eq)
  qed simp
  then show ?thesis using assms by (simp add: selection_min_def)
qed

lemma selection_step_inv:
  assumes "sel_inv cmp i arr" "i < length arr"
  shows "sel_inv cmp (Suc i) (selection_step cmp (length arr) i arr) \<and> seg_perm i (length arr) arr (selection_step cmp (length arr) i arr)"
proof -
  define m where "m = selection_min cmp arr i (length arr)"
  define a where "a = swap_at arr i m"
  have m: "i \<le> m" "m < length arr" using selection_min_bounds [OF assms(2), of cmp arr] by (simp_all add: m_def)
  have e: "selection_step cmp (length arr) i arr = a"
    using m assms(2) by (auto simp: selection_step_def Let_def a_def swap_at_def simp flip: m_def)
  have p: "seg_perm i (length arr) arr a" unfolding a_def using m assms(2) by (intro seg_perm_swap) auto
  have "\<not> cmp (a ! q) (a ! p)" if "p < q" "q < length a" "p < Suc i" for p q
  proof (cases "p = i")
    case True
    have "\<not> cmp (arr ! k) (arr ! m)" if "i \<le> k" "k < length arr" for k
      using selection_min_least [OF assms(2) that] by (simp add: m_def)
    then have "\<not> cmp (a ! q) (arr ! m)"
      using seg_perm_all [OF p order.refl, of "\<lambda>x. \<not> cmp x (arr ! m)" q] that True by (simp add: a_def)
    then show ?thesis using True m assms(2) by (simp add: a_def nth_swap_at)
  next
    case False
    have ap: "a ! p = arr ! p" using seg_perm_outside [OF p, of p] that False assms(2) by simp
    have "\<not> cmp (arr ! k) (arr ! p)" if "p < k" "k < length arr" for k
      using assms(1) that False \<open>p < Suc i\<close> by (simp add: sel_inv_def)
    then have "\<not> cmp (a ! q) (arr ! p)"
      using seg_perm_all [OF seg_perm_mono [OF p, of "Suc p" "length arr"], of "\<lambda>x. \<not> cmp x (arr ! p)" q] that False
      by (simp add: a_def)
    then show ?thesis using ap by simp
  qed
  then show ?thesis using e p by (simp add: sel_inv_def)
qed

lemma selection_fold:
  assumes "k \<le> length arr"
  defines "a \<equiv> fold (selection_step cmp (length arr)) [0..<k] arr"
  shows "length a = length arr \<and> mset a = mset arr \<and> sel_inv cmp k a"
  using assms(1) unfolding a_def
proof (induction k)
  case (Suc k)
  let ?a = "fold (selection_step cmp (length arr)) [0..<k] arr"
  have a: "length ?a = length arr" "mset ?a = mset arr" "sel_inv cmp k ?a" using Suc by auto
  have "sel_inv cmp (Suc k) (selection_step cmp (length ?a) k ?a)" "seg_perm k (length ?a) ?a (selection_step cmp (length ?a) k ?a)"
    using selection_step_inv [OF a(3)] a(1) Suc.prems by auto
  then show ?case using a(1,2) seg_perm_length [of k] seg_perm_mset [of k] by fastforce
qed (simp add: sel_inv_def)

lemma selection_spec: "mset (selection cmp arr) = mset arr \<and> sorted_by cmp (selection cmp arr)"
  using selection_fold [of "length arr - 1" arr] by (auto simp: selection_def sorted_by_nth sel_inv_def)

end

interpretation sel: sorter selection
  by unfold_locales (simp_all add: strict_weak.selection_spec)

subsection \<open>Comb sort returns, and sorts\<close>

lemma comb_gap_pos: "1 \<le> comb_gap gap"
  by (simp add: comb_gap_def Let_def)

lemma comb_gap_less: "1 < gap \<Longrightarrow> comb_gap gap < gap"
  unfolding comb_gap_def Let_def by (auto split: if_splits)

lemma comb_pass_perm:
  "comb_pass cmp arr gap n i sw = (arr', sw') \<Longrightarrow> n \<le> length arr \<Longrightarrow> mset arr' = mset arr"
proof (induction cmp arr gap n i sw rule: comb_pass.induct)
  case (1 cmp arr gap n i sw)
  show ?case
  proof (cases "i + gap < n")
    case True
    show ?thesis
    proof (cases "cmp (arr ! (i + gap)) (arr ! i)")
      case c: True
      have "comb_pass cmp (swap_at arr i (i + gap)) gap n (i + 1) True = (arr', sw')"
        using "1.prems"(1) True c by (subst (asm) comb_pass.simps) simp
      then show ?thesis using "1.IH"(1) [OF True c] "1.prems"(2) True by simp
    next
      case c: False
      have "comb_pass cmp arr gap n (i + 1) sw = (arr', sw')"
        using "1.prems"(1) True c by (subst (asm) comb_pass.simps) simp
      then show ?thesis using "1.IH"(2) [OF True c] "1.prems"(2) by simp
    qed
  qed (use "1.prems" in \<open>subst (asm) comb_pass.simps, simp\<close>)
qed

lemma comb_pass_quiet:
  "comb_pass cmp arr gap n i sw = (arr', False) \<Longrightarrow>
   arr' = arr \<and> \<not> sw \<and> (\<forall>j \<ge> i. j + gap < n \<longrightarrow> \<not> cmp (arr ! (j + gap)) (arr ! j))"
proof (induction cmp arr gap n i sw rule: comb_pass.induct)
  case (1 cmp arr gap n i sw)
  show ?case
  proof (cases "i + gap < n")
    case True
    show ?thesis
    proof (cases "cmp (arr ! (i + gap)) (arr ! i)")
      case c: True
      have "comb_pass cmp (swap_at arr i (i + gap)) gap n (i + 1) True = (arr', False)"
        using "1.prems"(1) True c by (subst (asm) comb_pass.simps) simp
      then show ?thesis using "1.IH"(1) [OF True c] by simp
    next
      case c: False
      have "comb_pass cmp arr gap n (i + 1) sw = (arr', False)"
        using "1.prems"(1) True c by (subst (asm) comb_pass.simps) simp
      then have "arr' = arr \<and> \<not> sw \<and> (\<forall>j \<ge> i + 1. j + gap < n \<longrightarrow> \<not> cmp (arr ! (j + gap)) (arr ! j))"
        using "1.IH"(2) [OF True c] by simp
      then show ?thesis using c by (metis Suc_eq_plus1 le_antisym not_less_eq_eq)
    qed
  qed (use "1.prems" in \<open>subst (asm) comb_pass.simps, auto\<close>)
qed

lemma comb_pass_no_swap:
  "(\<And>j. i \<le> j \<Longrightarrow> j + gap < n \<Longrightarrow> \<not> cmp (arr ! (j + gap)) (arr ! j)) \<Longrightarrow> comb_pass cmp arr gap n i sw = (arr, sw)"
proof (induction "n - i" arbitrary: i rule: less_induct)
  case less
  have "comb_pass cmp arr gap n (i + 1) sw = (arr, sw)" if "i + gap < n" using less that by simp
  then show ?case using less.prems by (subst comb_pass.simps) simp
qed

context strict_weak
begin

lemma sorted_adjacent:
  assumes "\<And>j. j + 1 < length arr \<Longrightarrow> \<not> cmp (arr ! (j + 1)) (arr ! j)"
  shows "sorted_by cmp arr"
  unfolding sorted_by_def using assms neg_trans
  by (subst sorted_wrt_iff_nth_Suc_transp) (auto simp: transp_def)

lemma comb_pass_progress:
  assumes "comb_pass cmp arr 1 n i sw = (arr', sw')" "n = length arr" "i < k" "k \<le> n" "tops cmp k n arr"
    "\<And>p. p < i \<Longrightarrow> \<not> cmp (arr ! i) (arr ! p)"
  shows "tops cmp (k - 1) n arr'"
  using assms
proof (induction "n - i" arbitrary: arr i sw rule: less_induct)
  case less
  note prems = less.prems
  show ?case
  proof (cases "i + 1 < k")
    case False
    then have k: "k = i + 1" using prems by simp
    have "\<not> cmp (arr ! (j + 1)) (arr ! j)" if "i \<le> j" "j + 1 < n" for j
      using prems(5) that k by (simp add: tops_def)
    then have "arr' = arr" using comb_pass_no_swap [of i 1 n cmp arr sw] prems(1) by simp
    moreover have "tops cmp (k - 1) n arr"
      unfolding tops_def
    proof (intro allI impI)
      fix p q assume pq: "p < q" "q < n" "k - 1 \<le> q"
      then show "\<not> cmp (arr ! q) (arr ! p)"
        using prems(5,6) k by (cases "q = i") (auto simp: tops_def)
    qed
    ultimately show ?thesis by simp
  next
    case ik: True
    then have i: "i + 1 < n" using prems by simp
    show ?thesis
    proof (cases "cmp (arr ! (i + 1)) (arr ! i)")
      case True
      let ?a = "swap_at arr i (i + 1)"
      have e: "comb_pass cmp ?a 1 n (i + 1) True = (arr', sw')"
        using prems(1) i True by (subst (asm) comb_pass.simps) simp
      have sp: "seg_perm 0 k arr ?a" using ik prems by (intro seg_perm_swap) auto
      have t: "tops cmp k n ?a"
        using tops_perm [OF sp, of k] prems by (simp add: tops_def)
      have m: "\<not> cmp (?a ! (i + 1)) (?a ! p)" if "p < i + 1" for p
        using that prems(2,6) i True asym by (cases "p = i") (auto simp: nth_swap_at)
      show ?thesis using less.hyps [OF _ e] i ik prems t m by simp
    next
      case False
      have e: "comb_pass cmp arr 1 n (i + 1) sw = (arr', sw')"
        using prems(1) i False by (subst (asm) comb_pass.simps) simp
      have m: "\<not> cmp (arr ! (i + 1)) (arr ! p)" if "p < i + 1" for p
        using that prems(6) [of p] False neg_trans by (cases "p = i") auto
      show ?thesis using less.hyps [OF _ e] i ik prems m by simp
    qed
  qed
qed

lemma comb_loop_gap1:
  assumes "tops cmp k (length arr) arr" "k \<le> length arr"
  shows "\<exists>r. comb_loop cmp arr (length arr) 1 True = Some r \<and> mset r = mset arr \<and> sorted_by cmp r"
  using assms
proof (induction k arbitrary: arr)
  case 0
  have g: "comb_gap 1 = 1" by (simp add: comb_gap_def)
  have "sorted_by cmp arr" using "0.prems" by (simp add: sorted_by_tops)
  then have "comb_pass cmp arr 1 (length arr) 0 False = (arr, False)"
    by (intro comb_pass_no_swap) (simp add: sorted_by_nth)
  then have "comb_loop cmp arr (length arr) 1 True = Some arr"
    using g by (subst comb_loop.simps, simp) (subst comb_loop.simps, simp)
  then show ?case using \<open>sorted_by cmp arr\<close> by blast
next
  case (Suc k)
  have g: "comb_gap 1 = 1" by (simp add: comb_gap_def)
  obtain arr' sw' where p: "comb_pass cmp arr 1 (length arr) 0 False = (arr', sw')"
    by (cases "comb_pass cmp arr 1 (length arr) 0 False")
  have m: "mset arr' = mset arr" using comb_pass_perm [OF p] by simp
  then have l: "length arr' = length arr" by (rule mset_eq_length)
  have step: "comb_loop cmp arr (length arr) 1 True = comb_loop cmp arr' (length arr) 1 sw'"
    using g p by (subst comb_loop.simps) simp
  show ?case
  proof (cases sw')
    case True
    have "tops cmp (Suc k - 1) (length arr) arr'"
      using comb_pass_progress [OF p refl, of "Suc k"] Suc.prems by simp
    then show ?thesis using Suc.IH [of arr'] Suc.prems(2) l m step True by simp
  next
    case False
    then have q: "arr' = arr" "\<forall>j. j + 1 < length arr \<longrightarrow> \<not> cmp (arr ! (j + 1)) (arr ! j)"
      using comb_pass_quiet [of cmp arr 1 "length arr" 0 False arr'] p by auto
    have "comb_loop cmp arr' (length arr) 1 sw' = Some arr'" using False by (subst comb_loop.simps) simp
    then show ?thesis using step q sorted_adjacent by simp
  qed
qed

lemma comb_loop_spec:
  assumes "1 < gap"
  shows "\<exists>r. comb_loop cmp arr (length arr) gap sw = Some r \<and> mset r = mset arr \<and> sorted_by cmp r"
  using assms
proof (induction gap arbitrary: arr sw rule: less_induct)
  case (less gap)
  let ?g = "comb_gap gap"
  obtain arr' sw' where p: "comb_pass cmp arr ?g (length arr) 0 False = (arr', sw')"
    by (cases "comb_pass cmp arr ?g (length arr) 0 False")
  have m: "mset arr' = mset arr" using comb_pass_perm [OF p] by simp
  then have l: "length arr' = length arr" by (rule mset_eq_length)
  have step: "comb_loop cmp arr (length arr) gap sw = comb_loop cmp arr' (length arr') ?g sw'"
    using less.prems p l by (subst comb_loop.simps) simp
  consider "1 < ?g" | "?g = 1" "sw'" | "?g = 1" "\<not> sw'" using comb_gap_pos [of gap] by linarith
  then show ?case
  proof cases
    case 1
    then show ?thesis using less.IH [of ?g arr' sw'] comb_gap_less less.prems step m by simp
  next
    case 2
    have "tops cmp (length arr') (length arr') arr'" by (simp add: tops_def)
    then show ?thesis using comb_loop_gap1 [of "length arr'" arr'] step m 2 by simp
  next
    case 3
    then have q: "arr' = arr" "\<forall>j. j + 1 < length arr \<longrightarrow> \<not> cmp (arr ! (j + 1)) (arr ! j)"
      using comb_pass_quiet [of cmp arr 1 "length arr" 0 False arr'] p by auto
    have "comb_loop cmp arr' (length arr') ?g sw' = Some arr'" using 3 by (subst comb_loop.simps) simp
    then show ?thesis using step q sorted_adjacent by simp
  qed
qed

lemma comb_spec: "\<exists>r. comb cmp arr = Some r \<and> mset r = mset arr \<and> sorted_by cmp r"
proof (cases "length arr < 2")
  case True
  then show ?thesis by (auto simp: comb_def sorted_by_nth)
next
  case False
  then show ?thesis using comb_loop_spec [of "length arr" arr True] by (simp add: comb_def)
qed

end

text \<open>The returned array of a routine that is given as an option.\<close>

interpretation cmb: sorter "\<lambda>cmp arr. the (comb cmp arr)"
proof unfold_locales
  fix cmp :: "'a \<Rightarrow> 'a \<Rightarrow> bool" and xs :: "'a list"
  assume "strict_weak cmp"
  then obtain r where "comb cmp xs = Some r" "mset r = mset xs" "sorted_by cmp r" using strict_weak.comb_spec by blast
  then show "mset (the (comb cmp xs)) = mset xs" "sorted_by cmp (the (comb cmp xs))" by simp_all
qed

subsection \<open>Shell sort\<close>

lemma shell_shift_perm:
  "j < length arr \<Longrightarrow> mset (shell_shift cmp gap key arr j) = mset (arr[j := key])"
proof (induction cmp gap key arr j rule: shell_shift.induct)
  case (1 cmp gap key arr j)
  show ?case
  proof (cases "0 < gap \<and> j \<ge> gap \<and> cmp key (arr ! (j - gap))")
    case True
    let ?a = "arr[j := arr ! (j - gap)]"
    have "shell_shift cmp gap key arr j = shell_shift cmp gap key ?a (j - gap)"
      using True by (subst shell_shift.simps) simp
    then have "mset (shell_shift cmp gap key arr j) = mset (?a[j - gap := key])"
      using "1.IH" [OF True] "1.prems" by simp
    also have "?a[j - gap := key] = swap_at (arr[j := key]) (j - gap) j"
      using True "1.prems" by (intro nth_equalityI) (auto simp: nth_swap_at nth_list_update)
    finally show ?thesis using True "1.prems" by simp
  next
    case False
    then show ?thesis by (subst shell_shift.simps) (simp only: if_False)
  qed
qed

lemma shell_pass_perm: "n \<le> length arr \<Longrightarrow> mset (shell_pass cmp n gap arr) = mset arr"
proof -
  assume n: "n \<le> length arr"
  have "mset (fold (\<lambda>i a. shell_shift cmp gap (a ! i) a i) is a) = mset a"
    if "\<forall>i \<in> set is. i < length a" for "is" and a :: "'a list"
    using that
  proof (induction "is" arbitrary: a)
    case (Cons i "is")
    let ?a = "shell_shift cmp gap (a ! i) a i"
    have "mset ?a = mset a" using Cons.prems shell_shift_perm [of i a cmp gap "a ! i"] by simp
    then show ?case using Cons.IH [of ?a] Cons.prems mset_eq_length [of ?a a] by simp
  qed simp
  then show ?thesis using n by (simp add: shell_pass_def)
qed

lemma shell_shift_1: "shell_shift cmp 1 key arr j = insertion_shift cmp key arr j"
proof (induction j arbitrary: arr)
  case 0
  then show ?case by (subst shell_shift.simps, subst insertion_shift.simps) simp
next
  case (Suc j)
  then show ?case by (subst shell_shift.simps, subst insertion_shift.simps) simp
qed

lemma shell_pass_1: "2 \<le> length arr \<Longrightarrow> shell_pass cmp (length arr) 1 arr = insertion cmp arr"
  by (simp add: shell_pass_def shell_shift_1 [unfolded One_nat_def] insertion_def insertion_range_def)

lemma shell_gaps_Cons: "\<exists>ys. shell_gaps (g # gs) n = g # ys"
proof -
  have "\<exists>ys. shell_gaps gaps n = hd gaps # ys" if "gaps \<noteq> []" for gaps
    using that
  proof (induction gaps n rule: shell_gaps.induct)
    case (1 gaps n)
    show ?case
    proof (cases "length gaps < 96 \<and> last gaps < n")
      case True
      then show ?thesis using 1 by (subst shell_gaps.simps) simp
    next
      case False
      then show ?thesis using "1.prems" by (subst shell_gaps.simps) (auto simp: neq_Nil_conv)
    qed
  qed
  from this [of "g # gs"] show ?thesis by simp
qed

lemma shell_is_insertion:
  "\<exists>arr'. mset arr' = mset arr \<and> shell cmp arr = (if length arr < 2 then arr else insertion cmp arr')"
proof (cases "length arr < 2")
  case False
  obtain ys where ys: "shell_gaps ciura (length arr) = 1 # ys" using shell_gaps_Cons [of 1 "tl ciura" "length arr"] by (auto simp: ciura_def)
  let ?a = "fold (shell_pass cmp (length arr)) (rev ys) arr"
  have "mset (fold (shell_pass cmp (length arr)) gs arr) = mset arr" for gs
  proof (induction gs rule: rev_induct)
    case (snoc g gs)
    let ?b = "fold (shell_pass cmp (length arr)) gs arr"
    have "length ?b = length arr" using snoc by (rule mset_eq_length)
    then show ?case using snoc shell_pass_perm [of "length arr" ?b cmp g] by simp
  qed simp
  then have m: "mset ?a = mset arr" by blast
  then have l: "length ?a = length arr" by (rule mset_eq_length)
  have "shell cmp arr = shell_pass cmp (length arr) 1 ?a" using False ys by (simp add: shell_def)
  then have "shell cmp arr = insertion cmp ?a" using shell_pass_1 [of ?a cmp] l False by simp
  then show ?thesis using m False by auto
qed (auto simp: shell_def)

interpretation shl: sorter shell
proof unfold_locales
  fix cmp :: "'a \<Rightarrow> 'a \<Rightarrow> bool" and xs :: "'a list"
  assume c: "strict_weak cmp"
  obtain arr' where "mset arr' = mset xs" "shell cmp xs = (if length xs < 2 then xs else insertion cmp arr')"
    using shell_is_insertion by blast
  then show "mset (shell cmp xs) = mset xs" "sorted_by cmp (shell cmp xs)"
    using ins.srt_mset [OF c, of arr'] ins.srt_sorted [OF c, of arr'] by (auto simp: sorted_by_nth)
qed

end
