(* ===== verification/Sort_Heap.thy ===== *)
theory Sort_Heap
  imports Sort_Simple
begin

text \<open>
  Heap sort: \<^verbatim>\<open>src/src/sort/heap.hpp\<close>, and the heap sort of a range that introsort falls back to
  (\<^verbatim>\<open>__heap_range\<close> of \<^verbatim>\<open>src/src/sort/sort.hpp\<close>).  The two sift loops choose the child in a different order;
  they are proved to do the same under a strict weak order.
\<close>

subsection \<open>The routines\<close>

function sift_down :: "('a \<Rightarrow> 'a \<Rightarrow> bool) \<Rightarrow> 'a list \<Rightarrow> nat \<Rightarrow> nat \<Rightarrow> 'a list" where
  "sift_down cmp first root n =
     (let left = 2 * root + 1
      in if left \<ge> n then first
         else
           let s1 = (if cmp (first ! root) (first ! left) then left else root);
               right = left + 1;
               swap_i = (if right < n \<and> cmp (first ! s1) (first ! right) then right else s1)
           in if swap_i = root then first else sift_down cmp (swap_at first root swap_i) swap_i n)"
  by auto
termination by (relation "measure (\<lambda>(_, _, root, n). n - root)") (auto split: if_splits)

declare sift_down.simps [simp del]

definition make_heap :: "('a \<Rightarrow> 'a \<Rightarrow> bool) \<Rightarrow> 'a list \<Rightarrow> nat \<Rightarrow> 'a list" where
  "make_heap cmp c n = (if n < 2 then c else fold (\<lambda>i a. sift_down cmp a i n) (rev [0..<n div 2]) c)"

function sort_heap_loop :: "('a \<Rightarrow> 'a \<Rightarrow> bool) \<Rightarrow> 'a list \<Rightarrow> nat \<Rightarrow> 'a list" where
  "sort_heap_loop cmp c n =
     (if n > 1 then sort_heap_loop cmp (sift_down cmp (swap_at c 0 (n - 1)) 0 (n - 1)) (n - 1) else c)"
  by auto
termination by (relation "measure (\<lambda>(_, _, n). n)") auto

declare sort_heap_loop.simps [simp del]

definition sort_heap :: "('a \<Rightarrow> 'a \<Rightarrow> bool) \<Rightarrow> 'a list \<Rightarrow> nat \<Rightarrow> 'a list" where
  "sort_heap cmp c n = (if n < 2 then c else sort_heap_loop cmp c n)"

definition make_heap_all :: "('a \<Rightarrow> 'a \<Rightarrow> bool) \<Rightarrow> 'a list \<Rightarrow> 'a list" where
  "make_heap_all cmp c = make_heap cmp c (length c)"

definition heap :: "('a \<Rightarrow> 'a \<Rightarrow> bool) \<Rightarrow> 'a list \<Rightarrow> 'a list" where
  "heap cmp c = (let n = length c in sort_heap cmp (make_heap cmp c n) n)"

definition heap_less :: "'a :: linorder list \<Rightarrow> 'a list" where
  "heap_less c = heap (<) c"

definition as_heap :: "('a \<Rightarrow> 'a \<Rightarrow> bool) \<Rightarrow> 'a list \<Rightarrow> 'a list" where
  "as_heap cmp c = heap cmp c"

definition as_heap_lim :: "('a \<Rightarrow> 'a \<Rightarrow> bool) \<Rightarrow> 'a list \<Rightarrow> nat \<Rightarrow> 'a list" where
  "as_heap_lim cmp c lim =
     (let n = (if lim < length c then lim else length c) in sort_heap cmp (make_heap cmp c n) n)"

text \<open>The lambda \<^verbatim>\<open>sift\<close> and the two loops of \<^verbatim>\<open>__heap_range\<close>.\<close>

function range_sift :: "('a \<Rightarrow> 'a \<Rightarrow> bool) \<Rightarrow> 'a list \<Rightarrow> nat \<Rightarrow> nat \<Rightarrow> nat \<Rightarrow> 'a list" where
  "range_sift cmp a lo root cnt =
     (let child0 = 2 * root + 1
      in if child0 \<ge> cnt then a
         else
           let child = (if child0 + 1 < cnt \<and> cmp (a ! (lo + child0)) (a ! (lo + child0 + 1)) then child0 + 1 else child0)
           in if \<not> cmp (a ! (lo + root)) (a ! (lo + child)) then a
              else range_sift cmp (swap_at a (lo + root) (lo + child)) lo child cnt)"
  by auto
termination by (relation "measure (\<lambda>(_, _, lo, root, cnt). cnt - root)") (auto split: if_splits)

declare range_sift.simps [simp del]

function range_sort_loop :: "('a \<Rightarrow> 'a \<Rightarrow> bool) \<Rightarrow> 'a list \<Rightarrow> nat \<Rightarrow> nat \<Rightarrow> 'a list" where
  "range_sort_loop cmp a lo cnt =
     (if cnt > 1 then range_sort_loop cmp (range_sift cmp (swap_at a lo (lo + (cnt - 1))) lo 0 (cnt - 1)) lo (cnt - 1) else a)"
  by auto
termination by (relation "measure (\<lambda>(_, _, lo, cnt). cnt)") auto

declare range_sort_loop.simps [simp del]

definition heap_range :: "('a \<Rightarrow> 'a \<Rightarrow> bool) \<Rightarrow> 'a list \<Rightarrow> nat \<Rightarrow> nat \<Rightarrow> 'a list" where
  "heap_range cmp a lo hi =
     (let n = hi - lo + 1
      in range_sort_loop cmp (fold (\<lambda>start a. range_sift cmp a lo start n) (rev [0..<n div 2]) a) lo n)"

subsection \<open>The heap property\<close>

definition parent :: "nat \<Rightarrow> nat" where
  "parent c = (c - 1) div 2"

text \<open>\<open>hp s n\<close>: below positions from \<open>s\<close> on, no child is larger than its parent.\<close>

definition hp :: "('a \<Rightarrow> 'a \<Rightarrow> bool) \<Rightarrow> nat \<Rightarrow> nat \<Rightarrow> 'a list \<Rightarrow> bool" where
  "hp cmp s n arr \<longleftrightarrow> (\<forall>c. 0 < c \<longrightarrow> c < n \<longrightarrow> s \<le> parent c \<longrightarrow> \<not> cmp (arr ! parent c) (arr ! c))"

lemma parent_children: "0 < c \<Longrightarrow> parent c = r \<longleftrightarrow> c = 2 * r + 1 \<or> c = 2 * r + 2"
  by (auto simp: parent_def)

lemma parent_less: "0 < c \<Longrightarrow> parent c < c"
  by (auto simp: parent_def)

text \<open>What one turn of the sift chooses: the larger child if it is larger than the root.\<close>

definition sift_choice :: "('a \<Rightarrow> 'a \<Rightarrow> bool) \<Rightarrow> 'a list \<Rightarrow> nat \<Rightarrow> nat \<Rightarrow> nat" where
  "sift_choice cmp a root n =
     (let left = 2 * root + 1;
          s1 = (if cmp (a ! root) (a ! left) then left else root)
      in if left + 1 < n \<and> cmp (a ! s1) (a ! (left + 1)) then left + 1 else s1)"

lemma sift_down_unfold:
  "sift_down cmp a root n =
     (if 2 * root + 1 \<ge> n \<or> sift_choice cmp a root n = root then a
      else sift_down cmp (swap_at a root (sift_choice cmp a root n)) (sift_choice cmp a root n) n)"
  by (subst sift_down.simps) (auto simp: Let_def sift_choice_def)

lemma sift_choice_cases:
  assumes "2 * root + 1 < n" "sift_choice cmp a root n \<noteq> root"
  shows "root < sift_choice cmp a root n \<and> sift_choice cmp a root n < n \<and> parent (sift_choice cmp a root n) = root"
  using assms by (auto simp: sift_choice_def Let_def parent_def split: if_splits)

context strict_weak
begin

lemma sift_choice_largest:
  assumes "2 * root + 1 < n" "0 < c" "c < n" "parent c = root"
  shows "\<not> cmp (a ! sift_choice cmp a root n) (a ! c)"
    and "\<not> cmp (a ! sift_choice cmp a root n) (a ! root)"
    and "sift_choice cmp a root n \<noteq> root \<Longrightarrow> cmp (a ! root) (a ! sift_choice cmp a root n)"
proof -
  let ?l = "a ! (2 * root + 1)" and ?r = "a ! (2 * root + 2)" and ?x = "a ! root"
  have c: "c = 2 * root + 1 \<or> c = 2 * root + 2" using assms(2,4) parent_children by blast
  consider (lr) "cmp ?x ?l" "2 * root + 2 < n" "cmp ?l ?r" | (l) "cmp ?x ?l" "\<not> (2 * root + 2 < n \<and> cmp ?l ?r)"
    | (r) "\<not> cmp ?x ?l" "2 * root + 2 < n" "cmp ?x ?r" | (x) "\<not> cmp ?x ?l" "\<not> (2 * root + 2 < n \<and> cmp ?x ?r)"
    by blast
  then have "\<not> cmp (a ! sift_choice cmp a root n) (a ! c) \<and> \<not> cmp (a ! sift_choice cmp a root n) (a ! root)
    \<and> (sift_choice cmp a root n \<noteq> root \<longrightarrow> cmp (a ! root) (a ! sift_choice cmp a root n))"
  proof cases
    case lr
    then have e: "sift_choice cmp a root n = 2 * root + 2" by (simp add: sift_choice_def Let_def)
    have "cmp ?x ?r" using cmp_trans lr by blast
    then show ?thesis unfolding e using c lr asym by auto
  next
    case l
    then have e: "sift_choice cmp a root n = 2 * root + 1" by (simp add: sift_choice_def Let_def)
    show ?thesis unfolding e using c l asym assms(3) by auto
  next
    case r
    then have e: "sift_choice cmp a root n = 2 * root + 2" by (simp add: sift_choice_def Let_def)
    have "\<not> cmp ?r ?x" using asym r by blast
    then show ?thesis unfolding e using c r neg_trans [of ?r ?x ?l] by auto
  next
    case x
    then have e: "sift_choice cmp a root n = root" by (simp add: sift_choice_def Let_def)
    show ?thesis unfolding e using c x assms(3) by auto
  qed
  then show "\<not> cmp (a ! sift_choice cmp a root n) (a ! c)" "\<not> cmp (a ! sift_choice cmp a root n) (a ! root)"
    "sift_choice cmp a root n \<noteq> root \<Longrightarrow> cmp (a ! root) (a ! sift_choice cmp a root n)" by blast+
qed

lemma sift_down_spec:
  assumes "n \<le> length arr" "root < n"
    "\<And>c. 0 < c \<Longrightarrow> c < n \<Longrightarrow> s \<le> parent c \<Longrightarrow> parent c \<noteq> root \<Longrightarrow> \<not> cmp (arr ! parent c) (arr ! c)"
    "\<And>c. 0 < c \<Longrightarrow> c < n \<Longrightarrow> parent c = root \<Longrightarrow> 0 < root \<Longrightarrow> s \<le> parent root \<Longrightarrow> \<not> cmp (arr ! parent root) (arr ! c)"
  shows "hp cmp s n (sift_down cmp arr root n) \<and> seg_perm root n arr (sift_down cmp arr root n)"
  using assms
proof (induction "n - root" arbitrary: arr root rule: less_induct)
  case less
  note prems = less.prems
  let ?m = "sift_choice cmp arr root n"
  show ?case
  proof (cases "2 * root + 1 \<ge> n \<or> ?m = root")
    case True
    have "\<not> cmp (arr ! root) (arr ! c)" if "0 < c" "c < n" "parent c = root" for c
      using True that sift_choice_largest(1) [of root n c arr] parent_children [of c root] by auto
    then have "hp cmp s n arr" using prems(3) unfolding hp_def by metis
    then show ?thesis using True by (subst (1 2) sift_down_unfold) simp
  next
    case False
    then have l: "2 * root + 1 < n" "?m \<noteq> root" by auto
    have m: "root < ?m" "?m < n" "parent ?m = root" using sift_choice_cases [OF l] by auto
    let ?a = "swap_at arr root ?m"
    have nth: "?a ! k = (if k = root then arr ! ?m else if k = ?m then arr ! root else arr ! k)" for k
      using m prems(1,2) by (intro nth_swap_at) auto
    have big: "\<not> cmp (arr ! ?m) (arr ! c)" if "0 < c" "c < n" "parent c = root" for c
      using sift_choice_largest(1) [OF l(1) that] .
    have up: "cmp (arr ! root) (arr ! ?m)" using sift_choice_largest(3) [OF l(1), of ?m] m l by simp
    have A: "\<not> cmp (?a ! parent c) (?a ! c)" if c: "0 < c" "c < n" "s \<le> parent c" "parent c \<noteq> ?m" for c
    proof (cases "parent c = root")
      case True
      then show ?thesis using c big [of c] asym up parent_less [of c] nth by (cases "c = ?m") auto
    next
      case pr: False
      show ?thesis
      proof (cases "c = root")
        case True
        then have "\<not> cmp (arr ! parent root) (arr ! ?m)" using prems(4) [of ?m] m c by simp
        then show ?thesis using True pr c(4) nth m by simp
      next
        case False
        have "c \<noteq> ?m" using pr m(3) by blast
        then show ?thesis using False pr c prems(3) [of c] nth by simp
      qed
    qed
    have B: "\<not> cmp (?a ! parent ?m) (?a ! c)" if "0 < c" "c < n" "parent c = ?m" "0 < ?m" "s \<le> parent ?m" for c
    proof -
      have "c \<noteq> ?m" "c \<noteq> root" using parent_less [of c] that m by auto
      then show ?thesis using prems(3) [of c] that m nth by simp
    qed
    have IH: "hp cmp s n (sift_down cmp ?a ?m n) \<and> seg_perm ?m n ?a (sift_down cmp ?a ?m n)"
      using less.hyps [of ?m ?a] m prems(1) A B by simp
    have "seg_perm root n arr ?a" using m prems(1,2) by (intro seg_perm_swap) auto
    moreover have "seg_perm root n ?a (sift_down cmp ?a ?m n)" using IH m by (auto intro: seg_perm_mono)
    ultimately have "seg_perm root n arr (sift_down cmp ?a ?m n)" by (rule seg_perm_trans)
    then show ?thesis using IH l by (subst (1 2) sift_down_unfold) simp
  qed
qed

lemma make_heap_spec:
  assumes "n \<le> length arr"
  shows "hp cmp 0 n (make_heap cmp arr n) \<and> seg_perm 0 n arr (make_heap cmp arr n)"
proof (cases "n < 2")
  case True
  then show ?thesis by (auto simp: make_heap_def hp_def)
next
  case False
  define h where "h = n div 2"
  have step: "hp cmp (h - k) n (fold (\<lambda>i a. sift_down cmp a i n) (rev [h - k..<h]) arr) \<and>
      seg_perm 0 n arr (fold (\<lambda>i a. sift_down cmp a i n) (rev [h - k..<h]) arr)" if "k \<le> h" for k
    using that
  proof (induction k)
    case 0
    have "\<not> h \<le> parent c" if "0 < c" "c < n" for c using that by (auto simp: parent_def h_def)
    then show ?case by (auto simp: hp_def)
  next
    case (Suc k)
    let ?i = "h - Suc k" and ?a = "fold (\<lambda>i a. sift_down cmp a i n) (rev [h - k..<h]) arr"
    have IH: "hp cmp (h - k) n ?a" "seg_perm 0 n arr ?a" using Suc by auto
    have i: "Suc ?i = h - k" "?i < n" using Suc.prems by (auto simp: h_def)
    have e: "fold (\<lambda>i a. sift_down cmp a i n) (rev [?i..<h]) arr = sift_down cmp ?a ?i n"
      using Suc.prems i by (simp add: upt_conv_Cons)
    have "hp cmp ?i n (sift_down cmp ?a ?i n) \<and> seg_perm ?i n ?a (sift_down cmp ?a ?i n)"
    proof (rule sift_down_spec)
      show "n \<le> length ?a" using assms seg_perm_length [OF IH(2)] by simp
      show "?i < n" by fact
      show "\<not> cmp (?a ! parent c) (?a ! c)" if "0 < c" "c < n" "?i \<le> parent c" "parent c \<noteq> ?i" for c
        using IH(1) that i by (simp add: hp_def)
      show "\<not> cmp (?a ! parent ?i) (?a ! c)" if "0 < c" "c < n" "parent c = ?i" "0 < ?i" "?i \<le> parent ?i" for c
        using parent_less [of ?i] that by simp
    qed
    then show ?case unfolding e using IH(2) seg_perm_mono [of ?i n] seg_perm_trans by blast
  qed
  from step [of h] show ?thesis using False by (simp add: make_heap_def h_def)
qed

lemma hp_max: "hp cmp 0 n arr \<Longrightarrow> k < n \<Longrightarrow> \<not> cmp (arr ! 0) (arr ! k)"
proof (induction k rule: less_induct)
  case (less k)
  show ?case
  proof (cases "k = 0")
    case False
    then have "parent k < k" using parent_less by simp
    then have "\<not> cmp (arr ! 0) (arr ! parent k)" "\<not> cmp (arr ! parent k) (arr ! k)"
      using less False by (simp_all add: hp_def)
    then show ?thesis using neg_trans by blast
  qed simp
qed

lemma sort_heap_loop_spec:
  assumes "n \<le> length arr" "n \<le> N" "N \<le> length arr" "hp cmp 0 n arr" "tops cmp n N arr"
  shows "seg_perm 0 n arr (sort_heap_loop cmp arr n) \<and> tops cmp 0 N (sort_heap_loop cmp arr n)"
  using assms
proof (induction n arbitrary: arr)
  case (Suc m)
  show ?case
  proof (cases "m = 0")
    case True
    have "tops cmp 0 N arr" using Suc.prems(5) True by (auto simp: tops_def)
    then show ?thesis using True by (subst (1 2) sort_heap_loop.simps) simp
  next
    case False
    let ?a = "swap_at arr 0 m"
    let ?b = "sift_down cmp ?a 0 m"
    have nth: "?a ! k = (if k = 0 then arr ! m else if k = m then arr ! 0 else arr ! k)" for k
      using Suc.prems by (intro nth_swap_at) auto
    have "hp cmp 0 m ?b \<and> seg_perm 0 m ?a ?b"
    proof (rule sift_down_spec)
      show "\<not> cmp (?a ! parent c) (?a ! c)" if "0 < c" "c < m" "0 \<le> parent c" "parent c \<noteq> 0" for c
        using Suc.prems(4) that parent_less [of c] nth by (simp add: hp_def)
    qed (use Suc.prems False in auto)
    then have b: "hp cmp 0 m ?b" "seg_perm 0 m ?a ?b" by auto
    have a: "seg_perm 0 (Suc m) arr ?a" using Suc.prems by (intro seg_perm_swap) auto
    have ta: "tops cmp m N ?a"
      unfolding tops_def
    proof (intro allI impI)
      fix p q assume pq: "p < q" "q < N" "m \<le> q"
      show "\<not> cmp (?a ! q) (?a ! p)"
      proof (cases "q = m")
        case True
        then show ?thesis using hp_max [OF Suc.prems(4)] pq nth by simp
      next
        case False
        then have "\<not> cmp (arr ! q) (arr ! k)" if "k < q" for k using Suc.prems(5) pq that by (auto simp: tops_def)
        then show ?thesis using pq False nth [of p] nth [of q] by auto
      qed
    qed
    have l: "length ?b = length arr" using seg_perm_length [OF b(2)] by simp
    have tb: "tops cmp m N ?b"
      unfolding tops_def
    proof (intro allI impI)
      fix p q assume pq: "p < q" "q < N" "m \<le> q"
      have q: "?b ! q = ?a ! q" using seg_perm_outside [OF b(2)] pq Suc.prems by simp
      show "\<not> cmp (?b ! q) (?b ! p)"
      proof (cases "p < m")
        case True
        have "\<not> cmp (?a ! q) (?a ! k)" if "k < m" for k using ta pq that by (auto simp: tops_def)
        then show ?thesis using seg_perm_all [OF b(2), of "\<lambda>x. \<not> cmp (?a ! q) x" p] True q Suc.prems by simp
      next
        case False
        then have "?b ! p = ?a ! p" using seg_perm_outside [OF b(2)] pq Suc.prems by simp
        then show ?thesis using q ta pq by (simp add: tops_def)
      qed
    qed
    have IH: "seg_perm 0 m ?b (sort_heap_loop cmp ?b m) \<and> tops cmp 0 N (sort_heap_loop cmp ?b m)"
      using Suc.IH [of ?b] Suc.prems b tb l by simp
    have "seg_perm 0 (Suc m) arr (sort_heap_loop cmp ?b m)"
      using a b(2) IH seg_perm_mono [of 0 m _ _ 0 "Suc m"] seg_perm_trans by (metis le_SucI order.refl)
    moreover have "sort_heap_loop cmp arr (Suc m) = sort_heap_loop cmp ?b m"
      using False by (subst sort_heap_loop.simps) simp
    ultimately show ?thesis using IH by simp
  qed
next
  case 0
  then show ?case by (subst (1 2) sort_heap_loop.simps) (simp add: tops_def)
qed

lemma heap_prefix_spec:
  assumes "n \<le> length arr"
  shows "seg_perm 0 n arr (sort_heap cmp (make_heap cmp arr n) n) \<and> tops cmp 0 n (sort_heap cmp (make_heap cmp arr n) n)"
proof (cases "n < 2")
  case True
  then show ?thesis by (auto simp: sort_heap_def make_heap_def tops_def)
next
  case False
  let ?h = "make_heap cmp arr n"
  have h: "hp cmp 0 n ?h" "seg_perm 0 n arr ?h" using make_heap_spec [OF assms] by auto
  then have "seg_perm 0 n ?h (sort_heap_loop cmp ?h n) \<and> tops cmp 0 n (sort_heap_loop cmp ?h n)"
    using sort_heap_loop_spec [of n ?h n] assms seg_perm_length [OF h(2)] by (simp add: tops_def)
  then show ?thesis using False h seg_perm_trans by (auto simp: sort_heap_def)
qed

end

interpretation hps: sorter heap
proof unfold_locales
  fix cmp :: "'a \<Rightarrow> 'a \<Rightarrow> bool" and xs :: "'a list"
  assume "strict_weak cmp"
  then have s: "seg_perm 0 (length xs) xs (heap cmp xs)" "tops cmp 0 (length xs) (heap cmp xs)"
    using strict_weak.heap_prefix_spec [of cmp "length xs" xs] by (simp_all add: heap_def Let_def)
  show "mset (heap cmp xs) = mset xs" using s(1) by (rule seg_perm_mset)
  show "sorted_by cmp (heap cmp xs)" using s seg_perm_length [OF s(1)] by (simp add: sorted_by_tops)
qed

subsection \<open>The range version is the same heap sort, shifted\<close>

context strict_weak
begin

text \<open>Comparing the root first, or the children first, selects the same position.\<close>

lemma choice_agree:
  "(if has_r \<and> cmp (if cmp x l then l else x) r then R else if cmp x l then L else X) =
   (if cmp x (if has_r \<and> cmp l r then r else l) then (if has_r \<and> cmp l r then R else L) else X)"
  using cmp_trans [of x l r] neg_trans [of x l r] by auto

lemma range_sift_shift:
  assumes "lo + cnt \<le> length a" "root < cnt"
  shows "range_sift cmp a lo root cnt = take lo a @ sift_down cmp (drop lo a) root cnt"
  using assms
proof (induction "cnt - root" arbitrary: a root rule: less_induct)
  case less
  note prems = less.prems
  let ?d = "drop lo a"
  have d: "?d ! k = a ! (lo + k)" for k by (cases "lo \<le> length a") (use prems in auto)
  let ?l = "2 * root + 1"
  let ?c = "if ?l + 1 < cnt \<and> cmp (a ! (lo + ?l)) (a ! (lo + ?l + 1)) then ?l + 1 else ?l"
  show ?case
  proof (cases "?l \<ge> cnt")
    case True
    then show ?thesis by (subst range_sift.simps, subst sift_down.simps) simp
  next
    case False
    have neq: "?l + 1 \<noteq> root" "?l \<noteq> root" by auto
    have choice: "sift_choice cmp ?d root cnt = (if cmp (a ! (lo + root)) (a ! (lo + ?c)) then ?c else root)"
      using choice_agree [of "?l + 1 < cnt" "a ! (lo + root)" "a ! (lo + ?l)" "a ! (lo + ?l + 1)" "?l + 1" ?l root]
      unfolding sift_choice_def Let_def d if_distrib [of "(+) lo"] if_distrib [of "(!) a"] if_distrib [of "\<lambda>k. a ! (lo + k)"]
      by (simp only: add.assoc if_distrib)
    have unf: "range_sift cmp a lo root cnt = (if \<not> cmp (a ! (lo + root)) (a ! (lo + ?c)) then a
        else range_sift cmp (swap_at a (lo + root) (lo + ?c)) lo ?c cnt)"
      using False by (subst range_sift.simps) (simp only: Let_def if_False)
    have c: "root < ?c" "?c < cnt" using False by auto
    show ?thesis
    proof (cases "cmp (a ! (lo + root)) (a ! (lo + ?c))")
      case True
      let ?a = "swap_at a (lo + root) (lo + ?c)"
      have sw: "?a = take lo a @ swap_at ?d root ?c" using c prems by (intro swap_at_drop) auto
      have "range_sift cmp a lo root cnt = range_sift cmp ?a lo ?c cnt"
        unfolding unf by (simp only: True simp_thms if_False)
      also have "\<dots> = take lo ?a @ sift_down cmp (drop lo ?a) ?c cnt"
        using less.hyps [of ?c ?a] c prems by simp
      finally have e0: "range_sift cmp a lo root cnt = take lo ?a @ sift_down cmp (drop lo ?a) ?c cnt" .
      have td: "take lo ?a = take lo a" "drop lo ?a = swap_at ?d root ?c" unfolding sw using prems by simp_all
      have e: "range_sift cmp a lo root cnt = take lo a @ sift_down cmp (swap_at ?d root ?c) ?c cnt"
        using e0 unfolding td .
      have "sift_choice cmp ?d root cnt = ?c" unfolding choice by (simp only: True if_True)
      then have "sift_down cmp ?d root cnt = sift_down cmp (swap_at ?d root ?c) ?c cnt"
        using False c by (subst sift_down_unfold) (simp only: if_False, auto)
      then show ?thesis using e by simp
    next
      case no: False
      then have "sift_choice cmp ?d root cnt = root" using choice by simp
      then have "sift_down cmp ?d root cnt = ?d" by (subst sift_down_unfold) simp
      moreover have "range_sift cmp a lo root cnt = a" unfolding unf by (simp only: no simp_thms if_True)
      ultimately show ?thesis by simp
    qed
  qed
qed

lemma sift_down_length: "length (sift_down cmp a root n) = length a"
proof (induction "n - root" arbitrary: a root rule: less_induct)
  case less
  show ?case
  proof (cases "2 * root + 1 \<ge> n \<or> sift_choice cmp a root n = root")
    case True
    then show ?thesis by (subst sift_down_unfold) simp
  next
    case False
    then show ?thesis using less.hyps sift_choice_cases [of root n cmp a] by (subst sift_down_unfold) auto
  qed
qed

lemma range_build_shift:
  assumes "lo + n \<le> length a" "\<forall>i \<in> set is. i < n"
  shows "fold (\<lambda>start a. range_sift cmp a lo start n) is a = take lo a @ fold (\<lambda>i a. sift_down cmp a i n) is (drop lo a)
    \<and> length (fold (\<lambda>i a. sift_down cmp a i n) is (drop lo a)) = length a - lo"
  using assms
proof (induction "is" arbitrary: a)
  case (Cons i "is")
  let ?a = "take lo a @ sift_down cmp (drop lo a) i n"
  have e: "range_sift cmp a lo i n = ?a" using Cons.prems by (intro range_sift_shift) auto
  have "length (sift_down cmp (drop lo a) i n) = length a - lo" using sift_down_length by simp
  then show ?case using Cons.IH [of ?a] Cons.prems e by simp
qed simp

lemma range_sort_loop_shift:
  assumes "lo + cnt \<le> length a"
  shows "range_sort_loop cmp a lo cnt = take lo a @ sort_heap_loop cmp (drop lo a) cnt"
  using assms
proof (induction cnt arbitrary: a)
  case (Suc m)
  show ?case
  proof (cases "m = 0")
    case True
    then show ?thesis by (subst range_sort_loop.simps, subst sort_heap_loop.simps) simp
  next
    case False
    let ?d = "swap_at (drop lo a) 0 m"
    have sw: "swap_at a lo (lo + m) = take lo a @ ?d" using swap_at_drop [of lo 0 a m] Suc.prems by simp
    let ?b = "take lo a @ sift_down cmp ?d 0 m"
    have e: "range_sift cmp (swap_at a lo (lo + m)) lo 0 m = ?b"
      using range_sift_shift [of lo m "swap_at a lo (lo + m)" 0] Suc.prems False sw by simp
    have l: "length (sift_down cmp ?d 0 m) = length a - lo" using sift_down_length by simp
    have "range_sort_loop cmp a lo (Suc m) = range_sort_loop cmp ?b lo m"
      using False e by (subst range_sort_loop.simps) simp
    also have "\<dots> = take lo a @ sort_heap_loop cmp (sift_down cmp ?d 0 m) m"
      using Suc.IH [of ?b] Suc.prems l by simp
    finally show ?thesis using False by (subst sort_heap_loop.simps) simp
  qed
next
  case 0
  then show ?case by (subst range_sort_loop.simps, subst sort_heap_loop.simps) simp
qed

lemma heap_range_shift:
  assumes "lo < hi" "hi < length a"
  shows "heap_range cmp a lo hi = take lo a @ sort_heap cmp (make_heap cmp (drop lo a) (hi - lo + 1)) (hi - lo + 1)"
proof -
  let ?n = "hi - lo + 1"
  let ?h = "fold (\<lambda>i a. sift_down cmp a i ?n) (rev [0..<?n div 2]) (drop lo a)"
  have b: "fold (\<lambda>start a. range_sift cmp a lo start ?n) (rev [0..<?n div 2]) a = take lo a @ ?h" "length ?h = length a - lo"
  proof -
    have "\<forall>i \<in> set (rev [0..<?n div 2]). i < ?n" by auto
    from range_build_shift [OF _ this, of lo a]
    show "fold (\<lambda>start a. range_sift cmp a lo start ?n) (rev [0..<?n div 2]) a = take lo a @ ?h" "length ?h = length a - lo"
      using assms by simp_all
  qed
  have "heap_range cmp a lo hi = range_sort_loop cmp (take lo a @ ?h) lo ?n" by (simp only: heap_range_def Let_def b)
  also have "\<dots> = take lo a @ sort_heap_loop cmp ?h ?n"
    using range_sort_loop_shift [of lo ?n "take lo a @ ?h"] b(2) assms by simp
  finally show ?thesis using assms by (simp add: sort_heap_def make_heap_def)
qed

text \<open>The range is sorted and everything else stays.\<close>

lemma heap_range_spec:
  assumes "lo < hi" "hi < length a"
  shows "seg_perm lo (Suc hi) a (heap_range cmp a lo hi) \<and>
    (\<forall>i j. lo \<le> i \<longrightarrow> i < j \<longrightarrow> j \<le> hi \<longrightarrow> \<not> cmp (heap_range cmp a lo hi ! j) (heap_range cmp a lo hi ! i))"
proof -
  let ?n = "hi - lo + 1" and ?d = "drop lo a"
  let ?r = "sort_heap cmp (make_heap cmp ?d ?n) ?n"
  have s: "seg_perm 0 ?n ?d ?r" "tops cmp 0 ?n ?r" using heap_prefix_spec [of ?n ?d] assms by auto
  have l: "length ?r = length a - lo" using seg_perm_length [OF s(1)] by simp
  have e: "heap_range cmp a lo hi = take lo a @ ?r" by (rule heap_range_shift [OF assms])
  have nth: "heap_range cmp a lo hi ! k = (if k < lo then a ! k else ?r ! (k - lo))" if "k < length a" for k
    unfolding e using that assms by (auto simp: nth_append)
  have "mset (heap_range cmp a lo hi) = mset (take lo a @ ?d)" unfolding e using seg_perm_mset [OF s(1)] by (simp only: mset_append)
  moreover have "heap_range cmp a lo hi ! k = a ! k" if "k < length a" "k < lo \<or> Suc hi \<le> k" for k
    using nth [OF that(1)] seg_perm_outside [OF s(1), of "k - lo"] that assms by auto
  ultimately have "seg_perm lo (Suc hi) a (heap_range cmp a lo hi)" by (simp add: seg_perm_def)
  moreover have "\<not> cmp (heap_range cmp a lo hi ! j) (heap_range cmp a lo hi ! i)" if "lo \<le> i" "i < j" "j \<le> hi" for i j
    using s(2) that assms nth by (simp add: tops_def)
  ultimately show ?thesis by blast
qed

end

end
