(* ===== verification/Sort_Quick.thy ===== *)
theory Sort_Quick
  imports Sort_Heap
begin

text \<open>
  Quicksort, introsort and the selection family: \<^verbatim>\<open>quick.hpp\<close>, \<^verbatim>\<open>sort.hpp\<close> and \<^verbatim>\<open>select.hpp\<close> under
  \<^verbatim>\<open>src/src/sort\<close>.  Range bounds are natural numbers: the source's signed bounds are never negative, and
  where \<^verbatim>\<open>p - 1\<close> would be -1 the truncated 0 closes the same loop.  The partition contract \<open>pivoted\<close> and the
  order of a range up to a distance, \<open>ord_seg\<close>, carry all proofs.
\<close>

subsection \<open>Quicksort\<close>

definition q_med3_to_high :: "('a \<Rightarrow> 'a \<Rightarrow> bool) \<Rightarrow> 'a list \<Rightarrow> nat \<Rightarrow> nat \<Rightarrow> 'a list" where
  "q_med3_to_high cmp a lo hi =
     (let mid = lo + (hi - lo) div 2;
          a1 = (if cmp (a ! mid) (a ! lo) then swap_at a mid lo else a);
          a2 = (if cmp (a1 ! hi) (a1 ! lo) then swap_at a1 hi lo else a1);
          a3 = (if cmp (a2 ! hi) (a2 ! mid) then swap_at a2 hi mid else a2)
      in swap_at a3 mid hi)"

definition q_partition_step :: "('a \<Rightarrow> 'a \<Rightarrow> bool) \<Rightarrow> 'a \<Rightarrow> nat \<Rightarrow> 'a list \<times> int \<Rightarrow> 'a list \<times> int" where
  "q_partition_step cmp pivot j st =
     (case st of (a, i) \<Rightarrow>
        if cmp (a ! j) pivot then (if i + 1 \<noteq> int j then swap_at a (nat (i + 1)) j else a, i + 1)
        else (a, i))"

definition q_partition :: "('a \<Rightarrow> 'a \<Rightarrow> bool) \<Rightarrow> 'a list \<Rightarrow> nat \<Rightarrow> nat \<Rightarrow> 'a list \<times> nat" where
  "q_partition cmp a lo hi =
     (let pivot = a ! hi
      in case fold (q_partition_step cmp pivot) [lo..<hi] (a, int lo - 1) of
           (a', i) \<Rightarrow> (if i + 1 \<noteq> int hi then swap_at a' (nat (i + 1)) hi else a', nat (i + 1)))"

lemma q_partition_step_simp [simp]:
  "q_partition_step cmp pivot j (a, i) =
     (if cmp (a ! j) pivot then (if i + 1 \<noteq> int j then swap_at a (nat (i + 1)) j else a, i + 1) else (a, i))"
  by (simp add: q_partition_step_def)

lemma q_partition_bounds_aux:
  assumes "lo \<le> k"
  shows "int lo - 1 \<le> snd (fold (q_partition_step cmp pv) [lo..<k] (a, int lo - 1)) \<and>
    snd (fold (q_partition_step cmp pv) [lo..<k] (a, int lo - 1)) < int k"
  using assms
proof (induction rule: dec_induct)
  case (step k)
  then show ?case
    by (cases "fold (q_partition_step cmp pv) [lo..<k] (a, int lo - 1)") auto
qed simp

lemma q_partition_bounds: "q_partition cmp a lo hi = (a', p) \<Longrightarrow> lo \<le> hi \<Longrightarrow> lo \<le> p \<and> p \<le> hi"
  using q_partition_bounds_aux [of lo hi cmp "a ! hi" a]
  by (cases "fold (q_partition_step cmp (a ! hi)) [lo..<hi] (a, int lo - 1)") (auto simp: q_partition_def)

function quick_range :: "('a \<Rightarrow> 'a \<Rightarrow> bool) \<Rightarrow> 'a list \<Rightarrow> nat \<Rightarrow> nat \<Rightarrow> 'a list" where
  "quick_range cmp a low high =
     (if low < high then
        let a1 = (if high - low \<ge> 2 then q_med3_to_high cmp a low high else a)
        in case q_partition cmp a1 low high of
             (a2, p) \<Rightarrow>
               if p - low < high - p then
                 let a3 = (if low < p - 1 then quick_range cmp a2 low (p - 1) else a2)
                 in quick_range cmp a3 (p + 1) high
               else
                 let a3 = (if p + 1 < high then quick_range cmp a2 (p + 1) high else a2)
                 in quick_range cmp a3 low (p - 1)
      else a)"
  by auto
termination
  by (relation "measure (\<lambda>(_, _, low, high). high - low)")
     (auto dest!: q_partition_bounds [OF sym] simp del: q_partition_def)

declare quick_range.simps [simp del]

definition quick :: "('a \<Rightarrow> 'a \<Rightarrow> bool) \<Rightarrow> 'a list \<Rightarrow> 'a list" where
  "quick cmp arr = (if length arr > 1 then quick_range cmp arr 0 (length arr - 1) else arr)"

definition quick_it_less :: "'a :: linorder list \<Rightarrow> 'a list" where
  "quick_it_less rng = (if length rng > 0 then quick_range (<) rng 0 (length rng - 1) else rng)"

definition quick_it :: "('a \<Rightarrow> 'a \<Rightarrow> bool) \<Rightarrow> 'a list \<Rightarrow> 'a list" where
  "quick_it cmp rng = (if length rng > 0 then quick_range cmp rng 0 (length rng - 1) else rng)"

definition quick_lim :: "('a \<Rightarrow> 'a \<Rightarrow> bool) \<Rightarrow> 'a list \<Rightarrow> nat \<Rightarrow> 'a list" where
  "quick_lim cmp arr lim =
     (let n = (if lim < length arr then lim else length arr)
      in if n > 1 then quick_range cmp arr 0 (n - 1) else arr)"

definition quick_less :: "'a :: linorder list \<Rightarrow> 'a list" where
  "quick_less arr = quick (<) arr"

definition quick_less_lim :: "'a :: linorder list \<Rightarrow> nat \<Rightarrow> 'a list" where
  "quick_less_lim arr lim = quick_lim (<) arr lim"

subsection \<open>Introsort\<close>

function introsort :: "('a \<Rightarrow> 'a \<Rightarrow> bool) \<Rightarrow> 'a list \<Rightarrow> nat \<Rightarrow> nat \<Rightarrow> nat \<Rightarrow> 'a list" where
  "introsort cmp a lo hi depth =
     (if hi - lo > 24 then
        if depth = 0 then heap_range cmp a lo hi
        else
          let a1 = (if hi - lo \<ge> 2 then q_med3_to_high cmp a lo hi else a)
          in case q_partition cmp a1 lo hi of
               (a2, p) \<Rightarrow>
                 if p - lo < hi - p then
                   let a3 = (if lo < p - 1 then introsort cmp a2 lo (p - 1) (depth - 1) else a2)
                   in introsort cmp a3 (p + 1) hi (depth - 1)
                 else
                   let a3 = (if p + 1 < hi then introsort cmp a2 (p + 1) hi (depth - 1) else a2)
                   in introsort cmp a3 lo (p - 1) (depth - 1)
      else a)"
  by auto
termination by (relation "measure (\<lambda>(_, _, lo, hi, depth). depth)") auto

declare introsort.simps [simp del]

fun sort_depth :: "nat \<Rightarrow> nat" where
  "sort_depth t = (if t > 1 then 2 + sort_depth (t div 2) else 0)"

declare sort_depth.simps [simp del]

definition sort_dispatch :: "('a \<Rightarrow> 'a \<Rightarrow> bool) \<Rightarrow> 'a list \<Rightarrow> 'a list" where
  "sort_dispatch cmp arr =
     (let n = length arr
      in if n < 2 then arr
         else insertion_range cmp (introsort cmp arr 0 (n - 1) (sort_depth n)) 0 n)"

definition sort_less :: "'a :: linorder list \<Rightarrow> 'a list" where
  "sort_less arr = sort_dispatch (<) arr"

subsection \<open>Selection\<close>

function quickselect_range :: "('a \<Rightarrow> 'a \<Rightarrow> bool) \<Rightarrow> 'a list \<Rightarrow> nat \<Rightarrow> nat \<Rightarrow> nat \<Rightarrow> 'a list" where
  "quickselect_range cmp a lo hi k =
     (if lo < hi then
        let a1 = (if hi - lo \<ge> 2 then q_med3_to_high cmp a lo hi else a)
        in case q_partition cmp a1 lo hi of
             (a2, p) \<Rightarrow>
               if k = p then a2
               else if k < p then quickselect_range cmp a2 lo (p - 1) k
               else quickselect_range cmp a2 (p + 1) hi k
      else a)"
  by auto
termination
  by (relation "measure (\<lambda>(_, _, lo, hi, _). hi - lo)")
     (auto dest!: q_partition_bounds [OF sym] simp del: q_partition_def)

declare quickselect_range.simps [simp del]

definition nth_element :: "('a \<Rightarrow> 'a \<Rightarrow> bool) \<Rightarrow> 'a list \<Rightarrow> nat \<Rightarrow> 'a list" where
  "nth_element cmp arr k =
     (let n = length arr in if n < 2 \<or> k \<ge> n then arr else quickselect_range cmp arr 0 (n - 1) k)"

text \<open>\<open>quickselect\<close> returns the array and the element; on an empty container the source indexes out of range,
  which is \<open>None\<close> here.\<close>

definition quickselect :: "('a \<Rightarrow> 'a \<Rightarrow> bool) \<Rightarrow> 'a list \<Rightarrow> nat \<Rightarrow> ('a list \<times> 'a) option" where
  "quickselect cmp arr k =
     (let n = length arr;
          kk = (if k < n then k else if n \<noteq> 0 then n - 1 else 0);
          arr' = nth_element cmp arr kk
      in if kk < length arr' then Some (arr', arr' ! kk) else None)"

definition partial_sort :: "('a \<Rightarrow> 'a \<Rightarrow> bool) \<Rightarrow> 'a list \<Rightarrow> nat \<Rightarrow> 'a list" where
  "partial_sort cmp arr k =
     (let n = length arr; m = (if k < n then k else n)
      in if m < 1 \<or> n < 2 then arr
         else
           let a1 = (if m < n then quickselect_range cmp arr 0 (n - 1) (m - 1) else arr)
           in quick_range cmp a1 0 (m - 1))"

definition is_sorted :: "('a \<Rightarrow> 'a \<Rightarrow> bool) \<Rightarrow> 'a list \<Rightarrow> bool" where
  "is_sorted cmp arr = list_all (\<lambda>i. \<not> cmp (arr ! i) (arr ! (i - 1))) [1..<length arr]"

text \<open>The iterator returned is an index; the end iterator is the length.\<close>

definition is_sorted_until :: "('a \<Rightarrow> 'a \<Rightarrow> bool) \<Rightarrow> 'a list \<Rightarrow> nat" where
  "is_sorted_until cmp arr =
     (case filter (\<lambda>i. cmp (arr ! i) (arr ! (i - 1))) [1..<length arr] of [] \<Rightarrow> length arr | i # _ \<Rightarrow> i)"

definition nth_element_less :: "'a :: linorder list \<Rightarrow> nat \<Rightarrow> 'a list" where
  "nth_element_less arr k = nth_element (<) arr k"

definition quickselect_less :: "'a :: linorder list \<Rightarrow> nat \<Rightarrow> ('a list \<times> 'a) option" where
  "quickselect_less arr k =
     (let n = length arr;
          kk = (if k < n then k else if n \<noteq> 0 then n - 1 else 0);
          arr' = nth_element (<) arr kk
      in if kk < length arr' then Some (arr', arr' ! kk) else None)"

definition partial_sort_less :: "'a :: linorder list \<Rightarrow> nat \<Rightarrow> 'a list" where
  "partial_sort_less arr k = partial_sort (<) arr k"

definition is_sorted_less :: "'a :: linorder list \<Rightarrow> bool" where
  "is_sorted_less arr = is_sorted (<) arr"

definition is_sorted_until_less :: "'a :: linorder list \<Rightarrow> nat" where
  "is_sorted_until_less arr = is_sorted_until (<) arr"

subsection \<open>Sorted copies\<close>

text \<open>\<^verbatim>\<open>extract.hpp\<close>: the elements a container's iteration visits, in the order of the visit, are copied and sorted.\<close>

definition sorted_of :: "('a \<Rightarrow> 'a \<Rightarrow> bool) \<Rightarrow> 'a list \<Rightarrow> 'a list" where
  "sorted_of cmp c = sort_dispatch cmp (foldl (\<lambda>out e. out @ [e]) [] c)"

definition sorted_of_less :: "'a :: linorder list \<Rightarrow> 'a list" where
  "sorted_of_less c = sorted_of (<) c"

definition sort_into :: "('a \<Rightarrow> 'a \<Rightarrow> bool) \<Rightarrow> 'a list \<Rightarrow> 'a list \<Rightarrow> 'a list" where
  "sort_into cmp c out = foldl (\<lambda>out e. out @ [e]) out (sorted_of cmp c)"

definition sort_into_less :: "'a :: linorder list \<Rightarrow> 'a list \<Rightarrow> 'a list" where
  "sort_into_less c out = foldl (\<lambda>out e. out @ [e]) out (sorted_of_less c)"

subsection \<open>The partition contract\<close>

definition pivoted :: "('a \<Rightarrow> 'a \<Rightarrow> bool) \<Rightarrow> nat \<Rightarrow> nat \<Rightarrow> nat \<Rightarrow> 'a list \<Rightarrow> bool" where
  "pivoted cmp lo p hi a \<longleftrightarrow> (\<forall>k. lo \<le> k \<longrightarrow> k < p \<longrightarrow> cmp (a ! k) (a ! p)) \<and>
     (\<forall>k. p < k \<longrightarrow> k \<le> hi \<longrightarrow> \<not> cmp (a ! k) (a ! p))"

lemma q_partition_fold:
  assumes "lo \<le> k" "k \<le> hi" "hi < length a"
  shows "\<exists>b m. fold (q_partition_step cmp (a ! hi)) [lo..<k] (a, int lo - 1) = (b, int (lo + m) - 1) \<and> lo + m \<le> k \<and>
    seg_perm lo k a b \<and> (\<forall>x. lo \<le> x \<longrightarrow> x < lo + m \<longrightarrow> cmp (b ! x) (a ! hi)) \<and>
    (\<forall>x. lo + m \<le> x \<longrightarrow> x < k \<longrightarrow> \<not> cmp (b ! x) (a ! hi))"
  using assms(1,2)
proof (induction rule: dec_induct)
  case base
  show ?case by (rule exI [of _ a], rule exI [of _ 0]) simp
next
  case (step k)
  let ?pv = "a ! hi"
  obtain b m where IH: "fold (q_partition_step cmp ?pv) [lo..<k] (a, int lo - 1) = (b, int (lo + m) - 1)" "lo + m \<le> k"
    "seg_perm lo k a b" "\<forall>x. lo \<le> x \<longrightarrow> x < lo + m \<longrightarrow> cmp (b ! x) ?pv" "\<forall>x. lo + m \<le> x \<longrightarrow> x < k \<longrightarrow> \<not> cmp (b ! x) ?pv"
    using step by auto
  have l: "length b = length a" using IH(3) by (rule seg_perm_length)
  have kl: "k < length b" using step assms(3) l by simp
  have e: "fold (q_partition_step cmp ?pv) [lo..<Suc k] (a, int lo - 1) = q_partition_step cmp ?pv k (b, int (lo + m) - 1)"
    using step(1) IH(1) by simp
  show ?case
  proof (cases "cmp (b ! k) ?pv")
    case True
    let ?b = "swap_at b (lo + m) k"
    have eb: "q_partition_step cmp ?pv k (b, int (lo + m) - 1) = (?b, int (lo + Suc m) - 1)"
      using True swap_at_same [of b k] by (cases "lo + m = k") (auto simp: nat_int_add simp flip: of_nat_add)
    have nth: "?b ! x = (if x = lo + m then b ! k else if x = k then b ! (lo + m) else b ! x)" for x
      using IH(2) kl by (intro nth_swap_at) auto
    have "seg_perm lo (Suc k) b ?b" using IH(2) kl by (intro seg_perm_swap) auto
    then have sp: "seg_perm lo (Suc k) a ?b" using IH(3) seg_perm_mono seg_perm_trans by (metis le_SucI order.refl)
    show ?thesis
    proof (intro exI conjI)
      show "fold (q_partition_step cmp ?pv) [lo..<Suc k] (a, int lo - 1) = (?b, int (lo + Suc m) - 1)" using e eb by simp
      show "\<forall>x. lo \<le> x \<longrightarrow> x < lo + Suc m \<longrightarrow> cmp (?b ! x) ?pv" using IH(2,4) True nth by (auto simp: less_Suc_eq)
      show "\<forall>x. lo + Suc m \<le> x \<longrightarrow> x < Suc k \<longrightarrow> \<not> cmp (?b ! x) ?pv" using IH(5) nth by (auto simp: less_Suc_eq)
    qed (use IH(2) sp in auto)
  next
    case False
    show ?thesis
    proof (intro exI conjI)
      show "fold (q_partition_step cmp ?pv) [lo..<Suc k] (a, int lo - 1) = (b, int (lo + m) - 1)"
        using e False by simp
      show "\<forall>x. lo + m \<le> x \<longrightarrow> x < Suc k \<longrightarrow> \<not> cmp (b ! x) ?pv" using IH(5) False by (auto simp: less_Suc_eq)
    qed (use IH seg_perm_mono [OF IH(3)] in auto)
  qed
qed

lemma q_partition_spec:
  assumes "q_partition cmp a lo hi = (a', p)" "lo \<le> hi" "hi < length a"
  shows "lo \<le> p \<and> p \<le> hi \<and> seg_perm lo (Suc hi) a a' \<and> pivoted cmp lo p hi a'"
proof -
  obtain b m where b: "fold (q_partition_step cmp (a ! hi)) [lo..<hi] (a, int lo - 1) = (b, int (lo + m) - 1)" "lo + m \<le> hi"
    "seg_perm lo hi a b" "\<forall>x. lo \<le> x \<longrightarrow> x < lo + m \<longrightarrow> cmp (b ! x) (a ! hi)"
    "\<forall>x. lo + m \<le> x \<longrightarrow> x < hi \<longrightarrow> \<not> cmp (b ! x) (a ! hi)"
    using q_partition_fold [OF assms(2) order.refl assms(3), of cmp] by blast
  have l: "length b = length a" using b(3) by (rule seg_perm_length)
  have bh: "b ! hi = a ! hi" using b(3) assms(3) by (simp add: seg_perm_outside)
  have e: "p = lo + m" "a' = swap_at b (lo + m) hi"
    using assms(1) b(1) swap_at_same [of b hi]
    by (cases "lo + m = hi"; auto simp: q_partition_def Let_def nat_int_add simp flip: of_nat_add)+
  have nth: "a' ! x = (if x = lo + m then b ! hi else if x = hi then b ! (lo + m) else b ! x)" for x
    unfolding e using b(2) l assms(3) by (intro nth_swap_at) auto
  have "seg_perm lo (Suc hi) b a'" unfolding e using b(2) l assms(3) by (intro seg_perm_swap) auto
  then have "seg_perm lo (Suc hi) a a'" using b(3) seg_perm_mono seg_perm_trans by (metis le_SucI order.refl)
  moreover have "pivoted cmp lo p hi a'"
    unfolding pivoted_def
  proof (intro conjI allI impI)
    fix k assume "lo \<le> k" "k < p"
    then show "cmp (a' ! k) (a' ! p)" using b(2,4) nth e(1) bh by simp
  next
    fix k assume "p < k" "k \<le> hi"
    then show "\<not> cmp (a' ! k) (a' ! p)" using b(2,5) nth e(1) bh by simp
  qed
  ultimately show ?thesis using e(1) b(2) by simp
qed

lemma q_med3_perm:
  assumes "lo < hi" "hi < length a"
  shows "seg_perm lo (Suc hi) a (q_med3_to_high cmp a lo hi)"
proof -
  define mid where "mid = lo + (hi - lo) div 2"
  have mid: "lo \<le> mid" "mid < Suc hi" using assms by (auto simp: mid_def)
  have step: "seg_perm lo (Suc hi) x y \<Longrightarrow> lo \<le> i \<Longrightarrow> i < Suc hi \<Longrightarrow> lo \<le> j \<Longrightarrow> j < Suc hi \<Longrightarrow> length x = length a \<Longrightarrow>
      seg_perm lo (Suc hi) x (if b then swap_at y i j else y)" for x y :: "'a list" and i j b
    using seg_perm_swap [of lo i "Suc hi" j y] seg_perm_trans seg_perm_length [of lo "Suc hi" x y] assms(2) by auto
  define a1 where "a1 = (if cmp (a ! mid) (a ! lo) then swap_at a mid lo else a)"
  define a2 where "a2 = (if cmp (a1 ! hi) (a1 ! lo) then swap_at a1 hi lo else a1)"
  define a3 where "a3 = (if cmp (a2 ! hi) (a2 ! mid) then swap_at a2 hi mid else a2)"
  have "seg_perm lo (Suc hi) a a1" unfolding a1_def using mid assms by (intro step) auto
  then have "seg_perm lo (Suc hi) a a2" unfolding a2_def using mid assms by (intro step) auto
  then have "seg_perm lo (Suc hi) a a3" unfolding a3_def using mid assms by (intro step) auto
  then have "seg_perm lo (Suc hi) a (if True then swap_at a3 mid hi else a3)" using mid assms by (intro step) auto
  moreover have "q_med3_to_high cmp a lo hi = swap_at a3 mid hi"
    unfolding q_med3_to_high_def Let_def mid_def [symmetric] a1_def [symmetric] a2_def [symmetric] a3_def [symmetric] ..
  ultimately show ?thesis by simp
qed

text \<open>The first two steps of every round: a range that is pivoted.\<close>

lemma q_round:
  assumes "lo < hi" "hi < length a" "q_partition cmp (if hi - lo \<ge> 2 then q_med3_to_high cmp a lo hi else a) lo hi = (a2, p)"
  shows "lo \<le> p" "p \<le> hi" "seg_perm lo (Suc hi) a a2" "pivoted cmp lo p hi a2"
proof -
  let ?a1 = "if hi - lo \<ge> 2 then q_med3_to_high cmp a lo hi else a"
  have s1: "seg_perm lo (Suc hi) a ?a1" using q_med3_perm [OF assms(1,2)] by simp
  have "lo \<le> p \<and> p \<le> hi \<and> seg_perm lo (Suc hi) ?a1 a2 \<and> pivoted cmp lo p hi a2"
    using assms(1,2) seg_perm_length [OF s1] by (intro q_partition_spec [OF assms(3)]) auto
  then show "lo \<le> p" "p \<le> hi" "seg_perm lo (Suc hi) a a2" "pivoted cmp lo p hi a2"
    using s1 seg_perm_trans by blast+
qed

lemma pivoted_left:
  assumes "pivoted cmp lo p hi a" "seg_perm lo p a b" "p \<le> hi" "hi < length a"
  shows "pivoted cmp lo p hi b"
proof -
  have out: "b ! k = a ! k" if "p \<le> k" "k < length a" for k using seg_perm_outside [OF assms(2) that(2)] that by simp
  have "cmp (b ! k) (a ! p)" if "lo \<le> k" "k < p" for k
    using seg_perm_all [OF assms(2), of "\<lambda>x. cmp x (a ! p)" k] assms that by (auto simp: pivoted_def)
  then show ?thesis using assms out by (auto simp: pivoted_def)
qed

lemma pivoted_right:
  assumes "pivoted cmp lo p hi a" "seg_perm (p + 1) (Suc hi) a b" "p \<le> hi" "hi < length a"
  shows "pivoted cmp lo p hi b"
proof -
  have out: "b ! k = a ! k" if "k \<le> p" for k using seg_perm_outside [OF assms(2), of k] that assms by simp
  have "\<not> cmp (b ! k) (a ! p)" if "p < k" "k \<le> hi" for k
    using seg_perm_all [OF assms(2), of "\<lambda>x. \<not> cmp x (a ! p)" k] assms that by (auto simp: pivoted_def)
  then show ?thesis using assms out by (auto simp: pivoted_def)
qed

subsection \<open>Order up to a distance\<close>

definition ord_seg :: "('a \<Rightarrow> 'a \<Rightarrow> bool) \<Rightarrow> nat \<Rightarrow> nat \<Rightarrow> nat \<Rightarrow> 'a list \<Rightarrow> bool" where
  "ord_seg cmp d lo hi a \<longleftrightarrow> (\<forall>i j. lo \<le> i \<longrightarrow> i + d < j \<longrightarrow> j < hi \<longrightarrow> \<not> cmp (a ! j) (a ! i))"

lemma ord_seg_trivial: "hi \<le> lo + d + 1 \<Longrightarrow> ord_seg cmp d lo hi a"
  by (auto simp: ord_seg_def)

lemma ord_seg_outside:
  assumes "ord_seg cmp d lo hi a" "seg_perm l h a b" "hi \<le> length a" "hi \<le> l \<or> h \<le> lo"
  shows "ord_seg cmp d lo hi b"
proof -
  have "b ! k = a ! k" if "lo \<le> k" "k < hi" for k
    using seg_perm_outside [OF assms(2), of k] that assms(3,4) by auto
  then show ?thesis using assms(1) by (auto simp: ord_seg_def)
qed

context strict_weak
begin

lemma ord_seg_glue:
  assumes "pivoted cmp lo p hi a" "ord_seg cmp d lo p a" "ord_seg cmp d (p + 1) (Suc hi) a"
  shows "ord_seg cmp d lo (Suc hi) a"
  unfolding ord_seg_def
proof (intro allI impI)
  fix i j assume ij: "lo \<le> i" "i + d < j" "j < Suc hi"
  have left: "\<not> cmp (a ! p) (a ! i)" if "i < p" using assms(1) ij(1) that asym by (auto simp: pivoted_def)
  have right: "\<not> cmp (a ! j) (a ! p)" if "p < j" using assms(1) ij(3) that by (auto simp: pivoted_def)
  consider "j < p" | "p < i" | "i \<le> p" "p \<le> j" by linarith
  then show "\<not> cmp (a ! j) (a ! i)"
  proof cases
    case 1
    then show ?thesis using assms(2) ij by (simp add: ord_seg_def)
  next
    case 2
    then show ?thesis using assms(3) ij by (simp add: ord_seg_def)
  next
    case 3
    have "\<not> cmp (a ! j) (a ! p)" using right 3 by (cases "j = p") auto
    moreover have "\<not> cmp (a ! p) (a ! i)" using left 3 by (cases "i = p") auto
    ultimately show ?thesis using neg_trans by blast
  qed
qed

text \<open>Sorting the two sides of a pivoted range, in either order, orders the range.\<close>

lemma sides_left_first:
  assumes p: "lo \<le> p" "p \<le> hi" "hi < length a" "pivoted cmp lo p hi a"
    and l: "seg_perm lo p a b" "ord_seg cmp d lo p b"
    and r: "seg_perm (p + 1) (Suc hi) b c" "ord_seg cmp d (p + 1) (Suc hi) c"
  shows "seg_perm lo (Suc hi) a c \<and> ord_seg cmp d lo (Suc hi) c"
proof -
  have lb: "length b = length a" using l(1) by (rule seg_perm_length)
  have "pivoted cmp lo p hi c" using pivoted_right [OF pivoted_left [OF p(4) l(1) p(2,3)] r(1)] p lb by simp
  moreover have "ord_seg cmp d lo p c" using ord_seg_outside [OF l(2) r(1)] p lb by simp
  ultimately have "ord_seg cmp d lo (Suc hi) c" using ord_seg_glue r(2) by blast
  moreover have "seg_perm lo (Suc hi) a b" "seg_perm lo (Suc hi) b c"
    using seg_perm_mono [OF l(1)] seg_perm_mono [OF r(1)] p by auto
  ultimately show ?thesis using seg_perm_trans by blast
qed

lemma sides_right_first:
  assumes p: "lo \<le> p" "p \<le> hi" "hi < length a" "pivoted cmp lo p hi a"
    and r: "seg_perm (p + 1) (Suc hi) a b" "ord_seg cmp d (p + 1) (Suc hi) b"
    and l: "seg_perm lo p b c" "ord_seg cmp d lo p c"
  shows "seg_perm lo (Suc hi) a c \<and> ord_seg cmp d lo (Suc hi) c"
proof -
  have lb: "length b = length a" using r(1) by (rule seg_perm_length)
  have "pivoted cmp lo p hi c" using pivoted_left [OF pivoted_right [OF p(4) r(1) p(2,3)] l(1)] p lb by simp
  moreover have "ord_seg cmp d (p + 1) (Suc hi) c" using ord_seg_outside [OF r(2) l(1)] p lb by simp
  ultimately have "ord_seg cmp d lo (Suc hi) c" using ord_seg_glue l(2) by blast
  moreover have "seg_perm lo (Suc hi) a b" "seg_perm lo (Suc hi) b c"
    using seg_perm_mono [OF r(1)] seg_perm_mono [OF l(1)] p by auto
  ultimately show ?thesis using seg_perm_trans by blast
qed

text \<open>
  One round of quicksort and of introsort: whatever \<open>f\<close> does to every closed range inside the current one
  (it permutes it and orders it up to distance \<open>d\<close>), the round does to the whole range.
\<close>

lemma round_orders:
  assumes lh: "lo < hi" "hi < length a"
    and q: "q_partition cmp (if hi - lo \<ge> 2 then q_med3_to_high cmp a lo hi else a) lo hi = (a2, p)"
    and f: "\<And>x l h. length x = length a \<Longrightarrow> h \<le> hi \<Longrightarrow> h - l < hi - lo \<Longrightarrow>
      seg_perm l (Suc h) x (f x l h) \<and> ord_seg cmp d l (Suc h) (f x l h)"
    and triv: "\<And>x l h. \<not> l < h \<Longrightarrow> f x l h = x"
    and res: "res = (if p - lo < hi - p then f (if lo < p - 1 then f a2 lo (p - 1) else a2) (p + 1) hi
      else f (if p + 1 < hi then f a2 (p + 1) hi else a2) lo (p - 1))"
  shows "seg_perm lo (Suc hi) a res \<and> ord_seg cmp d lo (Suc hi) res"
proof -
  note r = q_round [OF lh q]
  have l2: "length a2 = length a" using r(3) by (rule seg_perm_length)
  have g: "(if l < h then f x l h else x) = f x l h" for x l h using triv by simp
  have L: "seg_perm lo p x (f x lo (p - 1)) \<and> ord_seg cmp d lo p (f x lo (p - 1))" if x: "length x = length a" for x
  proof (cases "lo < p - 1")
    case True
    then show ?thesis using f [OF x, of "p - 1" lo] r lh by simp
  next
    case False
    then show ?thesis using triv [OF False, of x] by (auto intro: ord_seg_trivial)
  qed
  have R: "seg_perm (p + 1) (Suc hi) x (f x (p + 1) hi) \<and> ord_seg cmp d (p + 1) (Suc hi) (f x (p + 1) hi)"
    if "length x = length a" for x using f [OF that, of hi "p + 1"] r lh by force
  have "seg_perm lo (Suc hi) a2 res \<and> ord_seg cmp d lo (Suc hi) res"
  proof (cases "p - lo < hi - p")
    case True
    have "length (f a2 lo (p - 1)) = length a" using L [OF l2] l2 seg_perm_length by metis
    then show ?thesis unfolding res g using True L [OF l2] R r(1,2,4) lh l2
      by (simp only: if_True) (intro sides_left_first [of lo p hi a2 "f a2 lo (p - 1)"]; simp)
  next
    case False
    have "length (f a2 (p + 1) hi) = length a" using R [OF l2] l2 seg_perm_length by metis
    then show ?thesis unfolding res g using False R [OF l2] L r(1,2,4) lh l2
      by (simp only: if_False) (intro sides_right_first [of lo p hi a2 "f a2 (p + 1) hi"]; simp)
  qed
  then show ?thesis using r(3) seg_perm_trans by blast
qed

lemma quick_range_spec:
  assumes "high < length a"
  shows "seg_perm low (Suc high) a (quick_range cmp a low high) \<and> ord_seg cmp 0 low (Suc high) (quick_range cmp a low high)"
  using assms
proof (induction "high - low" arbitrary: a low high rule: less_induct)
  case less
  have triv: "quick_range cmp x l h = x" if "\<not> l < h" for x l h using that by (subst quick_range.simps) simp
  show ?case
  proof (cases "low < high")
    case False
    then show ?thesis using triv [OF False] by (simp add: ord_seg_trivial)
  next
    case lh: True
    obtain a2 p where q: "q_partition cmp (if high - low \<ge> 2 then q_med3_to_high cmp a low high else a) low high = (a2, p)"
      by (cases "q_partition cmp (if high - low \<ge> 2 then q_med3_to_high cmp a low high else a) low high")
    show ?thesis
    proof (rule round_orders [OF lh less.prems q, where f = "quick_range cmp"])
      show "quick_range cmp a low high =
        (if p - low < high - p
         then quick_range cmp (if low < p - 1 then quick_range cmp a2 low (p - 1) else a2) (p + 1) high
         else quick_range cmp (if p + 1 < high then quick_range cmp a2 (p + 1) high else a2) low (p - 1))"
        using lh q by (subst quick_range.simps) (simp add: Let_def)
    qed (use less triv in auto)
  qed
qed

lemma introsort_spec:
  assumes "hi < length a"
  shows "seg_perm lo (Suc hi) a (introsort cmp a lo hi depth) \<and> ord_seg cmp 24 lo (Suc hi) (introsort cmp a lo hi depth)"
  using assms
proof (induction depth arbitrary: a lo hi)
  case 0
  then show ?case
  proof (cases "hi - lo > 24")
    case True
    then have "introsort cmp a lo hi 0 = heap_range cmp a lo hi" by (subst introsort.simps) simp
    then show ?thesis using heap_range_spec [of lo hi a] True 0 by (auto simp: ord_seg_def)
  qed (subst introsort.simps, auto intro!: ord_seg_trivial simp: introsort.simps)
next
  case (Suc depth)
  have triv: "introsort cmp x l h depth = x" if "\<not> l < h" for x l h using that by (subst introsort.simps) simp
  show ?case
  proof (cases "hi - lo > 24")
    case True
    then have lh: "lo < hi" by simp
    obtain a2 p where q: "q_partition cmp (if hi - lo \<ge> 2 then q_med3_to_high cmp a lo hi else a) lo hi = (a2, p)"
      by (cases "q_partition cmp (if hi - lo \<ge> 2 then q_med3_to_high cmp a lo hi else a) lo hi")
    show ?thesis
    proof (rule round_orders [OF lh Suc.prems q, where f = "\<lambda>x l h. introsort cmp x l h depth"])
      show "introsort cmp a lo hi (Suc depth) =
        (if p - lo < hi - p
         then introsort cmp (if lo < p - 1 then introsort cmp a2 lo (p - 1) depth else a2) (p + 1) hi depth
         else introsort cmp (if p + 1 < hi then introsort cmp a2 (p + 1) hi depth else a2) lo (p - 1) depth)"
        using True q by (subst introsort.simps) (simp add: Let_def)
    qed (use Suc triv in auto)
  next
    case False
    then have "introsort cmp a lo hi (Suc depth) = a" by (subst introsort.simps) simp
    then show ?thesis using False by (simp add: ord_seg_trivial)
  qed
qed

end

lemma ord_seg_sorted:
  "seg_perm 0 (length xs) xs ys \<Longrightarrow> ord_seg cmp 0 0 (length xs) ys \<Longrightarrow> mset ys = mset xs \<and> sorted_by cmp ys"
  using seg_perm_length [of 0 "length xs" xs ys] by (auto simp: seg_perm_def sorted_by_nth ord_seg_def)

lemma quick_whole:
  assumes "strict_weak cmp"
  shows "seg_perm 0 (length xs) xs (quick cmp xs) \<and> ord_seg cmp 0 0 (length xs) (quick cmp xs)"
proof (cases "length xs > 1")
  case True
  then have "Suc (length xs - 1) = length xs" by simp
  then show ?thesis
    using strict_weak.quick_range_spec [OF assms, of "length xs - 1" xs 0] True by (simp add: quick_def)
qed (simp add: quick_def ord_seg_trivial)

interpretation qck: sorter quick
  by unfold_locales (use ord_seg_sorted quick_whole in blast)+

lemma sort_dispatch_isort:
  assumes "strict_weak cmp"
  shows "\<exists>ys. mset ys = mset arr \<and> ord_seg cmp 24 0 (length arr) ys \<and> sort_dispatch cmp arr = insertion cmp ys"
proof (cases "length arr < 2")
  case True
  have "insertion cmp arr = arr" using True by (cases arr; cases "tl arr") (auto simp: insertion_eq_isort isort_def ins_list_def)
  then show ?thesis using True by (intro exI [of _ arr]) (auto simp: sort_dispatch_def ord_seg_trivial)
next
  case False
  let ?ys = "introsort cmp arr 0 (length arr - 1) (sort_depth (length arr))"
  have n: "Suc (length arr - 1) = length arr" using False by simp
  have "seg_perm 0 (length arr) arr ?ys \<and> ord_seg cmp 24 0 (length arr) ?ys"
    using strict_weak.introsort_spec [OF assms, of "length arr - 1" arr 0] n False by simp
  then show ?thesis using False
    by (intro exI [of _ ?ys])
       (auto simp: sort_dispatch_def Let_def insertion_def seg_perm_mset seg_perm_length)
qed

interpretation dsp: sorter sort_dispatch
  by unfold_locales (use sort_dispatch_isort ins.srt_mset ins.srt_sorted in metis)+

subsection \<open>Selection\<close>

definition nth_split :: "('a \<Rightarrow> 'a \<Rightarrow> bool) \<Rightarrow> nat \<Rightarrow> nat \<Rightarrow> nat \<Rightarrow> 'a list \<Rightarrow> bool" where
  "nth_split cmp lo k hi a \<longleftrightarrow> (\<forall>i. lo \<le> i \<longrightarrow> i < k \<longrightarrow> \<not> cmp (a ! k) (a ! i)) \<and>
     (\<forall>j. k < j \<longrightarrow> j \<le> hi \<longrightarrow> \<not> cmp (a ! j) (a ! k))"

context strict_weak
begin

lemma nth_split_left:
  assumes "pivoted cmp lo p hi a" "lo \<le> k" "k < p" "nth_split cmp lo k (p - 1) a"
  shows "nth_split cmp lo k hi a"
proof -
  have k: "cmp (a ! k) (a ! p)" using assms by (simp add: pivoted_def)
  have "\<not> cmp (a ! j) (a ! k)" if "k < j" "j \<le> hi" for j
  proof (cases "j < p")
    case False
    then have "j = p \<or> \<not> cmp (a ! j) (a ! p)" using assms(1) that by (cases "j = p") (auto simp: pivoted_def)
    then show ?thesis using k asym cmp_le_trans by blast
  qed (use assms(4) that in \<open>auto simp: nth_split_def\<close>)
  then show ?thesis using assms(4) by (simp add: nth_split_def)
qed

lemma nth_split_right:
  assumes "pivoted cmp lo p hi a" "p < k" "k \<le> hi" "nth_split cmp (p + 1) k hi a"
  shows "nth_split cmp lo k hi a"
proof -
  have k: "\<not> cmp (a ! k) (a ! p)" using assms by (simp add: pivoted_def)
  have "\<not> cmp (a ! k) (a ! i)" if "lo \<le> i" "i < k" for i
  proof (cases "p < i")
    case False
    then have "i = p \<or> cmp (a ! i) (a ! p)" using assms(1) that by (cases "i = p") (auto simp: pivoted_def)
    then show ?thesis using k asym neg_trans by blast
  qed (use assms(4) that in \<open>auto simp: nth_split_def\<close>)
  then show ?thesis using assms(4) by (simp add: nth_split_def)
qed

lemma nth_split_pivot: "pivoted cmp lo p hi a \<Longrightarrow> nth_split cmp lo p hi a"
  using asym by (auto simp: pivoted_def nth_split_def)

lemma quickselect_range_spec:
  assumes "lo \<le> k" "k \<le> hi" "hi < length a"
  shows "seg_perm lo (Suc hi) a (quickselect_range cmp a lo hi k) \<and> nth_split cmp lo k hi (quickselect_range cmp a lo hi k)"
  using assms
proof (induction "hi - lo" arbitrary: a lo hi rule: less_induct)
  case less
  show ?case
  proof (cases "lo < hi")
    case False
    then have "quickselect_range cmp a lo hi k = a" by (subst quickselect_range.simps) simp
    then show ?thesis using False less.prems by (auto simp: nth_split_def)
  next
    case lh: True
    let ?q = "\<lambda>x l h. quickselect_range cmp x l h k"
    obtain a2 p where q: "q_partition cmp (if hi - lo \<ge> 2 then q_med3_to_high cmp a lo hi else a) lo hi = (a2, p)"
      by (cases "q_partition cmp (if hi - lo \<ge> 2 then q_med3_to_high cmp a lo hi else a) lo hi")
    note r = q_round [OF lh less.prems(3) q]
    have l2: "length a2 = length a" using r(3) by (rule seg_perm_length)
    have e: "?q a lo hi = (if k = p then a2 else if k < p then ?q a2 lo (p - 1) else ?q a2 (p + 1) hi)"
      using lh q by (subst quickselect_range.simps) (simp add: Let_def)
    consider "k = p" | "k < p" | "p < k" by linarith
    then have "seg_perm lo (Suc hi) a2 (?q a lo hi) \<and> nth_split cmp lo k hi (?q a lo hi)"
    proof cases
      case 1
      then show ?thesis using e nth_split_pivot [OF r(4)] by simp
    next
      case 2
      then have L: "seg_perm lo p a2 (?q a2 lo (p - 1)) \<and> nth_split cmp lo k (p - 1) (?q a2 lo (p - 1))"
        using less.hyps [of "p - 1" lo a2] less.prems l2 r lh by simp
      then show ?thesis using e 2 nth_split_left [OF pivoted_left [OF r(4), of "?q a2 lo (p - 1)"]]
        less.prems l2 r seg_perm_mono [of lo p a2 _ lo "Suc hi"] by simp
    next
      case 3
      then have R: "seg_perm (p + 1) (Suc hi) a2 (?q a2 (p + 1) hi) \<and> nth_split cmp (p + 1) k hi (?q a2 (p + 1) hi)"
        using less.hyps [of hi "p + 1" a2] less.prems l2 r lh by simp
      then show ?thesis using e 3 nth_split_right [OF pivoted_right [OF r(4), of "?q a2 (p + 1) hi"]]
        less.prems l2 r seg_perm_mono [of "p + 1" "Suc hi" a2 _ lo "Suc hi"] by simp
    qed
    then show ?thesis using r(3) seg_perm_trans by blast
  qed
qed

lemma nth_element_spec:
  assumes "k < length arr"
  shows "mset (nth_element cmp arr k) = mset arr \<and> nth_split cmp 0 k (length arr - 1) (nth_element cmp arr k)"
proof (cases "length arr < 2")
  case True
  then have "k = 0" "length arr = 1" using assms by auto
  then show ?thesis by (simp add: nth_element_def nth_split_def)
next
  case False
  then have "Suc (length arr - 1) = length arr" by simp
  then show ?thesis using quickselect_range_spec [of 0 k "length arr - 1" arr] assms False
    by (auto simp: nth_element_def Let_def seg_perm_mset)
qed

text \<open>The prefix that \<open>partial_sort\<close> leaves is sorted and no later element comes before any of it.\<close>

lemma partial_sort_spec:
  assumes "m \<le> length arr" "0 < m"
  shows "mset (partial_sort cmp arr m) = mset arr \<and> ord_seg cmp 0 0 m (partial_sort cmp arr m) \<and>
    (\<forall>i j. i < m \<longrightarrow> m \<le> j \<longrightarrow> j < length arr \<longrightarrow> \<not> cmp (partial_sort cmp arr m ! j) (partial_sort cmp arr m ! i))"
proof (cases "length arr < 2")
  case True
  then have "m = 1" "length arr = 1" using assms by auto
  then show ?thesis by (auto simp: partial_sort_def ord_seg_def)
next
  case False
  define a1 where "a1 = (if m < length arr then quickselect_range cmp arr 0 (length arr - 1) (m - 1) else arr)"
  have sm: "Suc (m - 1) = m" "Suc (length arr - 1) = length arr" using assms False by auto
  have s1: "seg_perm 0 (length arr) arr a1" and n1: "m < length arr \<Longrightarrow> nth_split cmp 0 (m - 1) (length arr - 1) a1"
    using quickselect_range_spec [of 0 "m - 1" "length arr - 1" arr] assms sm by (auto simp: a1_def)
  have l1: "length a1 = length arr" using s1 by (rule seg_perm_length)
  let ?r = "quick_range cmp a1 0 (m - 1)"
  have e: "partial_sort cmp arr m = ?r" using assms False by (auto simp: partial_sort_def a1_def Let_def)
  have q: "seg_perm 0 m a1 ?r" "ord_seg cmp 0 0 m ?r" using quick_range_spec [of "m - 1" a1 0] sm assms l1 by auto
  have "\<not> cmp (?r ! j) (?r ! i)" if "i < m" "m \<le> j" "j < length arr" for i j
  proof -
    have rj: "?r ! j = a1 ! j" using seg_perm_outside [OF q(1)] that l1 by simp
    have ns: "nth_split cmp 0 (m - 1) (length arr - 1) a1" using n1 that by simp
    have "\<not> cmp (a1 ! j) (a1 ! k)" if "k < m" for k
    proof (cases "k = m - 1")
      case True
      have "m - 1 < j" "j \<le> length arr - 1" using that \<open>m \<le> j\<close> \<open>j < length arr\<close> by auto
      then show ?thesis using ns True by (simp add: nth_split_def)
    next
      case False
      then have "\<not> cmp (a1 ! (m - 1)) (a1 ! k)" "\<not> cmp (a1 ! j) (a1 ! (m - 1))"
        using ns \<open>m \<le> j\<close> \<open>j < length arr\<close> that unfolding nth_split_def by force+
      then show ?thesis using neg_trans by blast
    qed
    then show ?thesis using seg_perm_all [OF q(1), of "\<lambda>x. \<not> cmp (a1 ! j) x" i] assms(1) l1 that rj by simp
  qed
  then show ?thesis using e q(2) seg_perm_mset [OF s1] seg_perm_mset [OF q(1)] by simp
qed

lemma sorted_by_adjacent: "sorted_by cmp xs \<longleftrightarrow> (\<forall>i. 0 < i \<longrightarrow> i < length xs \<longrightarrow> \<not> cmp (xs ! i) (xs ! (i - 1)))"
proof
  assume h: "\<forall>i. 0 < i \<longrightarrow> i < length xs \<longrightarrow> \<not> cmp (xs ! i) (xs ! (i - 1))"
  have "\<not> cmp (xs ! (i + d)) (xs ! i)" if "i + d < length xs" for i d
    using that
  proof (induction d)
    case (Suc d)
    then show ?case using h neg_trans [of "xs ! (i + Suc d)" "xs ! (i + d)" "xs ! i"] by fastforce
  qed simp
  then show "sorted_by cmp xs" unfolding sorted_by_nth by (metis le_add_diff_inverse less_imp_le)
qed (auto simp: sorted_by_nth)

lemma is_sorted_spec: "is_sorted cmp arr \<longleftrightarrow> sorted_by cmp arr"
  by (auto simp: is_sorted_def list_all_iff sorted_by_adjacent)

lemma is_sorted_until_spec:
  "is_sorted_until cmp arr \<le> length arr \<and> sorted_by cmp (take (is_sorted_until cmp arr) arr) \<and>
   (\<forall>m \<le> length arr. sorted_by cmp (take m arr) \<longrightarrow> m \<le> is_sorted_until cmp arr)"
proof (cases "filter (\<lambda>i. cmp (arr ! i) (arr ! (i - 1))) [1..<length arr]")
  case Nil
  then have "is_sorted_until cmp arr = length arr" by (simp add: is_sorted_until_def)
  moreover have "sorted_by cmp arr" using Nil by (auto simp: filter_empty_conv sorted_by_adjacent)
  ultimately show ?thesis by simp
next
  case (Cons i rest)
  then have e: "is_sorted_until cmp arr = i" by (simp add: is_sorted_until_def)
  obtain us vs where s: "[1..<length arr] = us @ i # vs" "\<forall>u\<in>set us. \<not> cmp (arr ! u) (arr ! (u - 1))" "cmp (arr ! i) (arr ! (i - 1))"
    using Cons by (auto simp: filter_eq_Cons_iff)
  have i: "0 < i" "i < length arr" using s(1) by (metis in_set_conv_decomp atLeastLessThan_iff less_le_trans less_numeral_extra(1) set_upt)+
  have us: "us = [1..<i]"
  proof -
    have "length us < length [1..<length arr]" using arg_cong [OF s(1), of length] by simp
    then have "i = 1 + length us" using arg_cong [OF s(1), of "\<lambda>l. l ! length us"] by simp
    then show ?thesis using arg_cong [OF s(1), of "take (length us)"] i by (simp add: take_upt)
  qed
  have "sorted_by cmp (take i arr)" using s(2) us i by (auto simp: sorted_by_adjacent)
  moreover have "m \<le> i" if "m \<le> length arr" "sorted_by cmp (take m arr)" for m
  proof (rule ccontr)
    assume "\<not> m \<le> i"
    then show False using that s(3) i by (auto simp: sorted_by_adjacent)
  qed
  ultimately show ?thesis using e i by auto
qed

end

lemma push_back_loop: "foldl (\<lambda>out e. out @ [e]) out xs = out @ xs"
  by (induction xs arbitrary: out) auto

lemma sort_into_append: "sort_into cmp c out = out @ sort_dispatch cmp c"
  by (simp add: sort_into_def sorted_of_def push_back_loop)

interpretation sof: sorter sorted_of
  by unfold_locales (simp_all add: sorted_of_def push_back_loop dsp.srt_mset dsp.srt_sorted)

subsection \<open>Depth and prefix variants\<close>

lemma sort_depth_log: "0 < n \<Longrightarrow> \<exists>l. sort_depth n = 2 * l \<and> 2 ^ l \<le> n \<and> n < 2 ^ (l + 1)"
proof (induction n rule: sort_depth.induct)
  case (1 t)
  show ?case
  proof (cases "t > 1")
    case True
    then obtain l where "sort_depth (t div 2) = 2 * l" "2 ^ l \<le> t div 2" "t div 2 < 2 ^ (l + 1)" using 1 by fastforce
    moreover have "2 * k \<le> t \<and> t < 4 * k" if "k \<le> t div 2" "t div 2 < 2 * k" for k :: nat using that by linarith
    ultimately show ?thesis using True by (intro exI [of _ "Suc l"]) (simp add: sort_depth.simps [of t])
  next
    case False
    then have "t = 1" using 1 by simp
    then show ?thesis by (intro exI [of _ 0]) (simp add: sort_depth.simps)
  qed
qed

text \<open>Sorting the first \<open>n\<close> elements and leaving the others.\<close>

definition sorts_prefix :: "('a \<Rightarrow> 'a \<Rightarrow> bool) \<Rightarrow> nat \<Rightarrow> 'a list \<Rightarrow> 'a list \<Rightarrow> bool" where
  "sorts_prefix cmp n xs ys \<longleftrightarrow> mset (take n ys) = mset (take n xs) \<and> sorted_by cmp (take n ys) \<and> drop n ys = drop n xs"

lemma seg_perm_prefix:
  assumes "seg_perm 0 n xs ys" "n \<le> length xs" "ord_seg cmp 0 0 n ys"
  shows "sorts_prefix cmp n xs ys"
proof -
  have l: "length ys = length xs" using assms(1) by (rule seg_perm_length)
  have "drop n ys = drop n xs"
    using l seg_perm_outside [OF assms(1)] by (intro nth_equalityI) auto
  moreover have "mset (take n ys) = mset (take n xs)" using seg_perm_slices [OF assms(1,2)] by simp
  moreover have "sorted_by cmp (take n ys)" using assms(3) l by (auto simp: sorted_by_nth ord_seg_def)
  ultimately show ?thesis by (simp add: sorts_prefix_def)
qed

lemma quick_lim_prefix:
  assumes "strict_weak cmp"
  shows "sorts_prefix cmp (min lim (length arr)) arr (quick_lim cmp arr lim)"
proof -
  define n where "n = min lim (length arr)"
  have e: "quick_lim cmp arr lim = (if n > 1 then quick_range cmp arr 0 (n - 1) else arr)"
    by (auto simp: quick_lim_def n_def min_def Let_def)
  show ?thesis
  proof (cases "n > 1")
    case True
    then have m: "Suc (n - 1) = n" "n - 1 < length arr" by (auto simp: n_def)
    show ?thesis unfolding e n_def [symmetric]
      using strict_weak.quick_range_spec [OF assms m(2), of 0] m True by (simp add: seg_perm_prefix n_def)
  next
    case False
    then show ?thesis unfolding e n_def [symmetric] by (auto simp: sorts_prefix_def sorted_by_nth)
  qed
qed

end
