(* ===== verification/Sort_Merge.thy ===== *)
theory Sort_Merge
  imports Sort_Base
begin

text \<open>
  Merge sort: \<^verbatim>\<open>merge.hpp\<close> (top down and bottom up) and \<^verbatim>\<open>stable.hpp\<close>, which routes to it.  The scratch buffer of
  the source holds copies of the two runs and is not written while they are merged, so the model passes the two
  copies \<open>L\<close> and \<open>R\<close>.  The index loops are related to the merge of two lists; both sorts are stable.
\<close>

subsection \<open>The program\<close>

function merge_walk :: "('a \<Rightarrow> 'a \<Rightarrow> bool) \<Rightarrow> 'a list \<Rightarrow> 'a list \<Rightarrow> nat \<Rightarrow> nat \<Rightarrow> nat \<Rightarrow> 'a list \<Rightarrow> 'a list \<times> nat \<times> nat \<times> nat" where
  "merge_walk cmp L R i j k arr =
     (if i < length L \<and> j < length R then
        if cmp (R ! j) (L ! i) then merge_walk cmp L R i (j + 1) (k + 1) (arr[k := R ! j])
        else merge_walk cmp L R (i + 1) j (k + 1) (arr[k := L ! i])
      else (arr, i, j, k))"
  by auto
termination by (relation "measure (\<lambda>(_, L, R, i, j, _). (length L - i) + (length R - j))") auto

declare merge_walk.simps [simp del]

function merge_copy :: "'a list \<Rightarrow> nat \<Rightarrow> nat \<Rightarrow> 'a list \<Rightarrow> 'a list \<times> nat" where
  "merge_copy src i k arr =
     (if i < length src then merge_copy src (i + 1) (k + 1) (arr[k := src ! i]) else (arr, k))"
  by auto
termination by (relation "measure (\<lambda>(src, i, _, _). length src - i)") auto

declare merge_copy.simps [simp del]

definition merge_into :: "('a \<Rightarrow> 'a \<Rightarrow> bool) \<Rightarrow> 'a list \<Rightarrow> nat \<Rightarrow> nat \<Rightarrow> nat \<Rightarrow> 'a list" where
  "merge_into cmp arr left mid right =
     (let n1 = mid - left + 1; n2 = right - mid;
          L = map (\<lambda>i. arr ! (left + i)) [0..<n1];
          R = map (\<lambda>j. arr ! (mid + 1 + j)) [0..<n2]
      in case merge_walk cmp L R 0 0 left arr of
           (arr1, i, j, k) \<Rightarrow> (case merge_copy L i k arr1 of (arr2, k2) \<Rightarrow> fst (merge_copy R j k2 arr2)))"

definition merge_runs :: "('a \<Rightarrow> 'a \<Rightarrow> bool) \<Rightarrow> 'a list \<Rightarrow> nat \<Rightarrow> nat \<Rightarrow> nat \<Rightarrow> 'a list" where
  "merge_runs cmp arr left mid right = merge_into cmp arr left mid right"

function merge_sort_with :: "('a \<Rightarrow> 'a \<Rightarrow> bool) \<Rightarrow> 'a list \<Rightarrow> nat \<Rightarrow> nat \<Rightarrow> 'a list" where
  "merge_sort_with cmp arr left right =
     (if left \<ge> right then arr
      else
        let mid = left + (right - left) div 2;
            a1 = merge_sort_with cmp arr left mid;
            a2 = merge_sort_with cmp a1 (mid + 1) right
        in merge_into cmp a2 left mid right)"
  by auto
termination by (relation "measure (\<lambda>(_, _, left, right). right - left)") auto

declare merge_sort_with.simps [simp del]

definition merge_sort :: "('a \<Rightarrow> 'a \<Rightarrow> bool) \<Rightarrow> 'a list \<Rightarrow> nat \<Rightarrow> nat \<Rightarrow> 'a list" where
  "merge_sort cmp arr left right = (if left \<ge> right then arr else merge_sort_with cmp arr left right)"

definition merge :: "('a \<Rightarrow> 'a \<Rightarrow> bool) \<Rightarrow> 'a list \<Rightarrow> 'a list" where
  "merge cmp arr = (if length arr > 1 then merge_sort cmp arr 0 (length arr - 1) else arr)"

definition merge_less :: "'a :: linorder list \<Rightarrow> 'a list" where
  "merge_less arr = (if length arr > 1 then merge_sort (<) arr 0 (length arr - 1) else arr)"

definition merge_lim :: "('a \<Rightarrow> 'a \<Rightarrow> bool) \<Rightarrow> 'a list \<Rightarrow> nat \<Rightarrow> 'a list" where
  "merge_lim cmp arr lim =
     (let n = (if lim < length arr then lim else length arr)
      in if n > 1 then merge_sort cmp arr 0 (n - 1) else arr)"

definition merge_less_lim :: "'a :: linorder list \<Rightarrow> nat \<Rightarrow> 'a list" where
  "merge_less_lim arr lim =
     (let n = (if lim < length arr then lim else length arr)
      in if n > 1 then merge_sort (<) arr 0 (n - 1) else arr)"

text \<open>The iterator overloads; \<open>rng\<close> is the range between the iterators.\<close>

definition merge_it :: "('a \<Rightarrow> 'a \<Rightarrow> bool) \<Rightarrow> 'a list \<Rightarrow> 'a list" where
  "merge_it cmp rng = (let cnt = length rng in if cnt > 1 then merge_sort cmp rng 0 (cnt - 1) else rng)"

definition merge_less_it :: "'a :: linorder list \<Rightarrow> 'a list" where
  "merge_less_it rng = (let cnt = length rng in if cnt > 1 then merge_sort (<) rng 0 (cnt - 1) else rng)"

definition bottom_up_step :: "('a \<Rightarrow> 'a \<Rightarrow> bool) \<Rightarrow> nat \<Rightarrow> nat \<Rightarrow> nat \<Rightarrow> 'a list \<Rightarrow> 'a list" where
  "bottom_up_step cmp n width i arr =
     (let left = i; mid = i + width - 1; right = i + 2 * width - 1
      in if mid \<ge> n then arr
         else
           let right' = (if right \<ge> n then n - 1 else right)
           in if mid \<ge> right' then arr else merge_into cmp arr left mid right')"

function bottom_up_pass :: "('a \<Rightarrow> 'a \<Rightarrow> bool) \<Rightarrow> nat \<Rightarrow> nat \<Rightarrow> nat \<Rightarrow> 'a list \<Rightarrow> 'a list" where
  "bottom_up_pass cmp n width i arr =
     (if width > 0 \<and> i < n then bottom_up_pass cmp n width (i + 2 * width) (bottom_up_step cmp n width i arr) else arr)"
  by auto
termination by (relation "measure (\<lambda>(_, n, _, i, _). n - i)") auto

declare bottom_up_pass.simps [simp del]

function bottom_up_loop :: "('a \<Rightarrow> 'a \<Rightarrow> bool) \<Rightarrow> nat \<Rightarrow> nat \<Rightarrow> 'a list \<Rightarrow> 'a list" where
  "bottom_up_loop cmp n width arr =
     (if width > 0 \<and> width < n then bottom_up_loop cmp n (2 * width) (bottom_up_pass cmp n width 0 arr) else arr)"
  by auto
termination by (relation "measure (\<lambda>(_, n, width, _). n - width)") auto

declare bottom_up_loop.simps [simp del]

definition merge_sort_bottom_up :: "('a \<Rightarrow> 'a \<Rightarrow> bool) \<Rightarrow> 'a list \<Rightarrow> nat \<Rightarrow> 'a list" where
  "merge_sort_bottom_up cmp arr n = (if n < 2 then arr else bottom_up_loop cmp n 1 arr)"

definition merge_bottom_up :: "('a \<Rightarrow> 'a \<Rightarrow> bool) \<Rightarrow> 'a list \<Rightarrow> 'a list" where
  "merge_bottom_up cmp arr = (if length arr > 1 then merge_sort_bottom_up cmp arr (length arr) else arr)"

definition merge_bottom_up_less :: "'a :: linorder list \<Rightarrow> 'a list" where
  "merge_bottom_up_less arr = (if length arr > 1 then merge_sort_bottom_up (<) arr (length arr) else arr)"

definition merge_bottom_up_lim :: "('a \<Rightarrow> 'a \<Rightarrow> bool) \<Rightarrow> 'a list \<Rightarrow> nat \<Rightarrow> 'a list" where
  "merge_bottom_up_lim cmp arr lim =
     (let n = (if lim < length arr then lim else length arr)
      in if n > 1 then merge_sort_bottom_up cmp arr n else arr)"

definition merge_bottom_up_less_lim :: "'a :: linorder list \<Rightarrow> nat \<Rightarrow> 'a list" where
  "merge_bottom_up_less_lim arr lim =
     (let n = (if lim < length arr then lim else length arr)
      in if n > 1 then merge_sort_bottom_up (<) arr n else arr)"

definition stable :: "('a \<Rightarrow> 'a \<Rightarrow> bool) \<Rightarrow> 'a list \<Rightarrow> 'a list" where
  "stable cmp arr = merge cmp arr"

definition stable_less :: "'a :: linorder list \<Rightarrow> 'a list" where
  "stable_less arr = merge_less arr"

definition stable_lim :: "('a \<Rightarrow> 'a \<Rightarrow> bool) \<Rightarrow> 'a list \<Rightarrow> nat \<Rightarrow> 'a list" where
  "stable_lim cmp arr lim = merge_lim cmp arr lim"

definition stable_less_lim :: "'a :: linorder list \<Rightarrow> nat \<Rightarrow> 'a list" where
  "stable_less_lim arr lim = merge_less_lim arr lim"

definition stable_it :: "('a \<Rightarrow> 'a \<Rightarrow> bool) \<Rightarrow> 'a list \<Rightarrow> 'a list" where
  "stable_it cmp rng = merge_it cmp rng"

definition stable_less_it :: "'a :: linorder list \<Rightarrow> 'a list" where
  "stable_less_it rng = merge_less_it rng"

subsection \<open>The merge of two lists\<close>

fun merge_lists :: "('a \<Rightarrow> 'a \<Rightarrow> bool) \<Rightarrow> 'a list \<Rightarrow> 'a list \<Rightarrow> 'a list" where
  "merge_lists cmp [] rs = rs"
| "merge_lists cmp ls [] = ls"
| "merge_lists cmp (l # ls) (r # rs) =
     (if cmp r l then r # merge_lists cmp (l # ls) rs else l # merge_lists cmp ls (r # rs))"

lemma merge_lists_Nil2 [simp]: "merge_lists cmp ls [] = ls"
  by (cases ls) simp_all

lemma length_merge_lists [simp]: "length (merge_lists cmp ls rs) = length ls + length rs"
  by (induction cmp ls rs rule: merge_lists.induct) simp_all

lemma mset_merge_lists [simp]: "mset (merge_lists cmp ls rs) = mset ls + mset rs"
  by (induction cmp ls rs rule: merge_lists.induct) simp_all

lemma set_merge_lists [simp]: "set (merge_lists cmp ls rs) = set ls \<union> set rs"
  by (metis mset_merge_lists set_mset_mset set_mset_union)

text \<open>\<open>overwrite k xs arr\<close> is \<open>arr\<close> with \<open>xs\<close> written from index \<open>k\<close> on.\<close>

definition overwrite :: "nat \<Rightarrow> 'a list \<Rightarrow> 'a list \<Rightarrow> 'a list" where
  "overwrite k xs arr = take k arr @ xs @ drop (k + length xs) arr"

lemma overwrite_Nil [simp]: "overwrite k [] arr = arr"
  by (simp add: overwrite_def)

lemma overwrite_step: "k < length arr \<Longrightarrow> overwrite (k + 1) xs (arr[k := x]) = overwrite k (x # xs) arr"
  by (simp add: overwrite_def take_Suc_conv_app_nth)

lemma merge_copy_overwrite:
  "i \<le> length src \<Longrightarrow> k + (length src - i) \<le> length arr \<Longrightarrow>
   merge_copy src i k arr = (overwrite k (drop i src) arr, k + (length src - i))"
proof (induction src i k arr rule: merge_copy.induct)
  case (1 src i k arr)
  show ?case
  proof (cases "i < length src")
    case True
    then have "merge_copy src i k arr = merge_copy src (i + 1) (k + 1) (arr[k := src ! i])" by (subst merge_copy.simps) simp
    then show ?thesis using 1 True by (simp add: overwrite_step [unfolded Suc_eq_plus1 [symmetric]] Cons_nth_drop_Suc)
  qed (use 1 in \<open>simp add: merge_copy.simps\<close>)
qed

lemma merge_tail:
  assumes "i \<le> length L" "j \<le> length R" "i = length L \<or> j = length R"
    "k + (length L - i) + (length R - j) \<le> length arr"
  shows "(case merge_copy L i k arr of (arr2, k2) \<Rightarrow> fst (merge_copy R j k2 arr2)) =
    overwrite k (merge_lists cmp (drop i L) (drop j R)) arr"
  using assms by (auto simp: merge_copy_overwrite merge_copy.simps [of R "length R"])

lemma merge_walk_overwrite:
  assumes "i \<le> length L" "j \<le> length R" "k + (length L - i) + (length R - j) \<le> length arr"
  shows "(case merge_walk cmp L R i j k arr of
      (arr1, i', j', k') \<Rightarrow> (case merge_copy L i' k' arr1 of (arr2, k2) \<Rightarrow> fst (merge_copy R j' k2 arr2))) =
    overwrite k (merge_lists cmp (drop i L) (drop j R)) arr"
  using assms
proof (induction cmp L R i j k arr rule: merge_walk.induct)
  case (1 cmp L R i j k arr)
  show ?case
  proof (cases "i < length L \<and> j < length R")
    case False
    then show ?thesis using merge_tail [of i L j R k arr cmp] 1 by (subst merge_walk.simps) auto
  next
    case True
    then have d: "drop i L = L ! i # drop (Suc i) L" "drop j R = R ! j # drop (Suc j) R"
      by (simp_all add: Cons_nth_drop_Suc)
    have "k < length arr" using True 1 by linarith
    then show ?thesis using 1 True
      by (subst merge_walk.simps) (auto simp: d overwrite_step [unfolded Suc_eq_plus1 [symmetric]])
  qed
qed

definition seg_of :: "nat \<Rightarrow> nat \<Rightarrow> 'a list \<Rightarrow> 'a list" where
  "seg_of lo hi a = take (hi - lo) (drop lo a)"

lemma map_nth_seg_of: "lo + n \<le> length a \<Longrightarrow> map (\<lambda>i. a ! (lo + i)) [0..<n] = seg_of lo (lo + n) a"
  by (rule nth_equalityI) (auto simp: seg_of_def)

lemma merge_into_lists:
  assumes "left \<le> mid" "mid \<le> right" "right < length arr"
  shows "merge_into cmp arr left mid right =
    overwrite left (merge_lists cmp (seg_of left (mid + 1) arr) (seg_of (mid + 1) (right + 1) arr)) arr"
proof -
  have "map (\<lambda>i. arr ! (left + i)) [0..<mid - left + 1] = seg_of left (mid + 1) arr"
    using map_nth_seg_of [of left "mid - left + 1" arr] assms by simp
  moreover have "map (\<lambda>j. arr ! (mid + 1 + j)) [0..<right - mid] = seg_of (mid + 1) (right + 1) arr"
    using map_nth_seg_of [of "mid + 1" "right - mid" arr] assms by simp
  ultimately show ?thesis
    using merge_walk_overwrite [of 0 "seg_of left (mid + 1) arr" 0 "seg_of (mid + 1) (right + 1) arr" left arr cmp] assms
    by (simp only: merge_into_def Let_def drop0) (simp add: seg_of_def)
qed

subsection \<open>Sorted, stable slices\<close>

text \<open>What both sorts promise of a range: a stable, sorted rearrangement of it, the rest untouched.\<close>

definition stable_sort_of :: "('a \<Rightarrow> 'a \<Rightarrow> bool) \<Rightarrow> 'a list \<Rightarrow> 'a list \<Rightarrow> bool" where
  "stable_sort_of cmp xs ys \<longleftrightarrow> mset ys = mset xs \<and> sorted_by cmp ys \<and> stable_by cmp xs ys"

lemma stable_sort_of_length: "stable_sort_of cmp xs ys \<Longrightarrow> length ys = length xs"
  unfolding stable_sort_of_def using mset_eq_length by blast

lemma stable_sort_of_trivial: "length xs \<le> 1 \<Longrightarrow> stable_sort_of cmp xs xs"
  by (auto simp: stable_sort_of_def sorted_by_nth)

lemma length_seg_of [simp]: "length (seg_of lo hi a) = min (hi - lo) (length a - lo)"
  by (simp add: seg_of_def)

lemma seg_of_split: "lo \<le> m \<Longrightarrow> m \<le> hi \<Longrightarrow> seg_of lo hi a = seg_of lo m a @ seg_of m hi a"
  using take_add [of "m - lo" "hi - m" "drop lo a"] by (simp add: seg_of_def)

lemma length_overwrite [simp]: "lo + length xs \<le> length a \<Longrightarrow> length (overwrite lo xs a) = length a"
  by (auto simp: overwrite_def)

lemma nth_seg_of: "k < hi - lo \<Longrightarrow> lo + k < length a \<Longrightarrow> seg_of lo hi a ! k = a ! (lo + k)"
  by (simp add: seg_of_def)

lemma nth_overwrite:
  "lo + length xs \<le> length a \<Longrightarrow> k < length a \<Longrightarrow>
   overwrite lo xs a ! k = (if lo \<le> k \<and> k < lo + length xs then xs ! (k - lo) else a ! k)"
  by (auto simp: overwrite_def nth_append min_def)

lemma overwrite_seg_of: "hi \<le> length a \<Longrightarrow> lo \<le> hi \<Longrightarrow> overwrite lo (seg_of lo hi a) a = a"
  by (rule nth_equalityI) (auto simp: nth_overwrite nth_seg_of)

lemma seg_of_overwrite_same: "lo + length xs = hi \<Longrightarrow> hi \<le> length a \<Longrightarrow> seg_of lo hi (overwrite lo xs a) = xs"
  by (rule nth_equalityI) (auto simp: nth_overwrite nth_seg_of)

lemma seg_of_overwrite_other:
  "lo + length xs \<le> length a \<Longrightarrow> lo + length xs \<le> l \<or> h \<le> lo \<Longrightarrow> h \<le> length a \<Longrightarrow> seg_of l h (overwrite lo xs a) = seg_of l h a"
  by (rule nth_equalityI) (auto simp: nth_overwrite nth_seg_of)

lemma overwrite_overwrite:
  "m = lo + length xs \<Longrightarrow> m + length ys \<le> length a \<Longrightarrow> overwrite m ys (overwrite lo xs a) = overwrite lo (xs @ ys) a"
  by (rule nth_equalityI) (auto simp: nth_overwrite nth_append)

lemma overwrite_same: "length xs = length ys \<Longrightarrow> lo + length xs \<le> length a \<Longrightarrow> overwrite lo ys (overwrite lo xs a) = overwrite lo ys a"
  by (rule nth_equalityI) (auto simp: nth_overwrite)

context strict_weak
begin

lemma merge_lists_sorted: "sorted_by cmp ls \<Longrightarrow> sorted_by cmp rs \<Longrightarrow> sorted_by cmp (merge_lists cmp ls rs)"
proof (induction "length ls + length rs" arbitrary: ls rs rule: less_induct)
  case less
  show ?case
  proof (cases "ls = [] \<or> rs = []")
    case False
    then obtain l ls' r rs' where e: "ls = l # ls'" "rs = r # rs'" by (meson neq_Nil_conv)
    have l: "\<forall>x\<in>set ls'. \<not> cmp x l" and r: "\<forall>x\<in>set rs'. \<not> cmp x r" using less.prems e by (auto simp: sorted_by_def)
    show ?thesis
    proof (cases "cmp r l")
      case True
      have "\<not> cmp x r" if "x \<in> set ls" for x using that l e True asym neg_trans [of x l r] by auto
      then show ?thesis using less.hyps [of ls rs'] less.prems e True r by (auto simp: sorted_by_def)
    next
      case False
      have "\<not> cmp x l" if "x \<in> set rs" for x using that r e False neg_trans [of x r l] by auto
      then show ?thesis using less.hyps [of ls' rs] less.prems e False l by (auto simp: sorted_by_def)
    qed
  qed (use less.prems in auto)
qed

lemma merge_lists_stable:
  assumes "sorted_by cmp ls"
  shows "stable_by cmp (ls @ rs) (merge_lists cmp ls rs)"
  using assms
proof (induction "length ls + length rs" arbitrary: ls rs rule: less_induct)
  case less
  show ?case
  proof (cases "ls = [] \<or> rs = []")
    case False
    then obtain l ls' r rs' where e: "ls = l # ls'" "rs = r # rs'" by (meson neq_Nil_conv)
    show ?thesis
    proof (cases "cmp r l")
      case True
      have "\<not> cmp y r \<and> cmp r y" if "y \<in> set ls" for y
      proof -
        have "\<not> cmp y l" using that less.prems e by (auto simp: sorted_by_def)
        then have "cmp r y" using True cmp_le_trans by blast
        then show ?thesis using asym by blast
      qed
      then have "filter (equiv_by cmp x) ls = []" if "equiv_by cmp x r" for x
        using that neg_trans by (auto simp: filter_empty_conv equiv_by_def)
      moreover have "filter (equiv_by cmp x) (merge_lists cmp ls rs') = filter (equiv_by cmp x) ls @ filter (equiv_by cmp x) rs'" for x
        using less.hyps [of ls rs'] less.prems e by (simp add: stable_by_def)
      moreover have "merge_lists cmp ls rs = r # merge_lists cmp ls rs'" using e True by simp
      ultimately show ?thesis by (auto simp: stable_by_def e(2))
    next
      case False
      have "sorted_by cmp ls'" using less.prems e by (simp add: sorted_by_def)
      then show ?thesis using less.hyps [of ls' rs] e False by (simp add: stable_by_def)
    qed
  qed auto
qed

lemma merge_lists_sort:
  assumes "stable_sort_of cmp xs xs'" "stable_sort_of cmp ys ys'"
  shows "stable_sort_of cmp (xs @ ys) (merge_lists cmp xs' ys')"
  using assms merge_lists_sorted merge_lists_stable [of xs' ys'] stable_by_append stable_by_trans
  unfolding stable_sort_of_def by (metis mset_append mset_merge_lists)

lemma merge_sort_with_spec:
  assumes "right < length arr"
  shows "\<exists>ys. merge_sort_with cmp arr left right = overwrite left ys arr \<and> stable_sort_of cmp (seg_of left (right + 1) arr) ys"
  using assms
proof (induction "right - left" arbitrary: arr left right rule: less_induct)
  case less
  show ?case
  proof (cases "left \<ge> right")
    case True
    then have "merge_sort_with cmp arr left right = arr" by (subst merge_sort_with.simps) simp
    moreover have "stable_sort_of cmp (seg_of left (right + 1) arr) (seg_of left (right + 1) arr)"
      using True by (intro stable_sort_of_trivial) simp
    moreover have "overwrite left (seg_of left (right + 1) arr) arr = arr"
    proof (cases "left = right")
      case False
      then have "seg_of left (right + 1) arr = []" using True by (simp add: seg_of_def)
      then show ?thesis by simp
    qed (use less.prems in \<open>simp add: overwrite_seg_of\<close>)
    ultimately show ?thesis by metis
  next
    case False
    define mid where "mid = left + (right - left) div 2"
    have m: "left \<le> mid" "mid < right" using False by (auto simp: mid_def)
    obtain ys where ys: "merge_sort_with cmp arr left mid = overwrite left ys arr" "stable_sort_of cmp (seg_of left (mid + 1) arr) ys"
      using less.hyps [of mid left arr] diff_less_mono [OF m(2,1)] m less.prems by auto
    have ly: "length ys = mid + 1 - left" using stable_sort_of_length [OF ys(2)] m less.prems by simp
    let ?a1 = "overwrite left ys arr"
    have l1: "length ?a1 = length arr" using ly m less.prems by simp
    obtain zs where zs: "merge_sort_with cmp ?a1 (mid + 1) right = overwrite (mid + 1) zs ?a1"
      "stable_sort_of cmp (seg_of (mid + 1) (right + 1) ?a1) zs"
      using less.hyps [of right "mid + 1" ?a1] diff_less_mono2 [of left "mid + 1" right] m less.prems l1 by auto
    have s1: "seg_of (mid + 1) (right + 1) ?a1 = seg_of (mid + 1) (right + 1) arr"
      using ly m less.prems by (intro seg_of_overwrite_other) auto
    have lz: "length zs = right - mid" using stable_sort_of_length [OF zs(2)] m less.prems l1 by simp
    let ?a2 = "overwrite left (ys @ zs) arr"
    have a2: "overwrite (mid + 1) zs ?a1 = ?a2" using ly lz m less.prems by (intro overwrite_overwrite) auto
    have l2: "length ?a2 = length arr" using ly lz m less.prems by simp
    have sl: "seg_of left (mid + 1) ?a2 @ seg_of (mid + 1) (right + 1) ?a2 = ys @ zs"
      using seg_of_split [of left "mid + 1" "right + 1" ?a2] seg_of_overwrite_same [of left "ys @ zs" "right + 1" arr] ly lz m less.prems by simp
    have "seg_of left (mid + 1) ?a2 = ys" "seg_of (mid + 1) (right + 1) ?a2 = zs"
      using sl ly lz m less.prems l2 by (auto simp: append_eq_append_conv)
    then have "merge_into cmp ?a2 left mid right = overwrite left (merge_lists cmp ys zs) ?a2"
      using merge_into_lists [of left mid right ?a2 cmp] m less.prems l2 by simp
    also have "\<dots> = overwrite left (merge_lists cmp ys zs) arr" using ly lz m less.prems by (intro overwrite_same) auto
    finally have "merge_sort_with cmp arr left right = overwrite left (merge_lists cmp ys zs) arr"
      using False ys(1) zs(1) a2 by (subst merge_sort_with.simps) (simp add: Let_def mid_def)
    moreover have "stable_sort_of cmp (seg_of left (right + 1) arr) (merge_lists cmp ys zs)"
      using merge_lists_sort [OF ys(2) zs(2)] s1 seg_of_split [of left "mid + 1" "right + 1" arr] m by simp
    ultimately show ?thesis by blast
  qed
qed

end

subsection \<open>Bottom-up passes\<close>

text \<open>A pass of width \<open>w\<close> on the list it works on: neighbouring runs of \<open>w\<close> elements are merged.\<close>

function chunk_pass :: "('a \<Rightarrow> 'a \<Rightarrow> bool) \<Rightarrow> nat \<Rightarrow> 'a list \<Rightarrow> 'a list" where
  "chunk_pass cmp w xs =
     (if w > 0 \<and> xs \<noteq> [] then merge_lists cmp (take w xs) (take w (drop w xs)) @ chunk_pass cmp w (drop (2 * w) xs) else xs)"
  by auto
termination by (relation "measure (\<lambda>(_, _, xs). length xs)") auto

declare chunk_pass.simps [simp del]

lemma length_chunk_pass [simp]: "length (chunk_pass cmp w xs) = length xs"
proof (induction cmp w xs rule: chunk_pass.induct)
  case (1 cmp w xs)
  then show ?case by (subst chunk_pass.simps) auto
qed

lemma bottom_up_step_chunk:
  assumes "w > 0" "xs \<noteq> []" "n = length pre + length xs"
  shows "bottom_up_step cmp n w (length pre) (pre @ xs @ post) =
    (pre @ merge_lists cmp (take w xs) (take w (drop w xs))) @ drop (2 * w) xs @ post"
proof (cases "length xs \<le> w")
  case True
  then show ?thesis using assms by (auto simp: bottom_up_step_def Let_def)
next
  case False
  let ?l = "length pre" and ?a = "pre @ xs @ post"
  define right where "right = (if ?l + 2 * w - 1 \<ge> n then n - 1 else ?l + 2 * w - 1)"
  have r: "right + 1 = ?l + min (2 * w) (length xs)" using assms by (auto simp: right_def)
  have "bottom_up_step cmp n w ?l ?a = merge_into cmp ?a ?l (?l + w - 1) right"
    using assms False by (auto simp: bottom_up_step_def Let_def right_def)
  also have "\<dots> = overwrite ?l (merge_lists cmp (seg_of ?l (?l + w) ?a) (seg_of (?l + w) (right + 1) ?a)) ?a"
    using merge_into_lists [of ?l "?l + w - 1" right ?a cmp] assms False r by simp
  also have "seg_of ?l (?l + w) ?a = take w xs" using False by (simp add: seg_of_def)
  also have "seg_of (?l + w) (right + 1) ?a = take w (drop w xs)" using False r by (auto simp: seg_of_def min_def)
  finally show ?thesis using False by (auto simp: overwrite_def min_def mult_2)
qed

lemma bottom_up_pass_chunk:
  assumes "w > 0" "n = length pre + length xs"
  shows "bottom_up_pass cmp n w (length pre) (pre @ xs @ post) = pre @ chunk_pass cmp w xs @ post"
  using assms
proof (induction "length xs" arbitrary: pre xs rule: less_induct)
  case less
  show ?case
  proof (cases "xs = []")
    case True
    then show ?thesis using less.prems by (subst bottom_up_pass.simps, subst chunk_pass.simps) simp
  next
    case False
    let ?m = "merge_lists cmp (take w xs) (take w (drop w xs))"
    have e: "bottom_up_pass cmp n w (length pre) (pre @ xs @ post) =
      bottom_up_pass cmp n w (length pre + 2 * w) ((pre @ ?m) @ drop (2 * w) xs @ post)"
      using less.prems False by (subst bottom_up_pass.simps) (simp add: bottom_up_step_chunk)
    show ?thesis
    proof (cases "length xs \<le> 2 * w")
      case True
      then have "bottom_up_pass cmp n w (length pre + 2 * w) y = y" for y
        using less.prems by (subst bottom_up_pass.simps) simp
      then show ?thesis unfolding e using True False less.prems
        by (subst chunk_pass.simps) (simp add: chunk_pass.simps [of cmp w "[]"])
    next
      case longer: False
      have "length ?m = 2 * w" using longer by simp
      then show ?thesis unfolding e using less.hyps [of "drop (2 * w) xs" "pre @ ?m"] less.prems longer False
        by (subst chunk_pass.simps) (simp add: mult_2)
    qed
  qed
qed

text \<open>Runs of width \<open>w\<close> that are sorted.\<close>

function runs :: "('a \<Rightarrow> 'a \<Rightarrow> bool) \<Rightarrow> nat \<Rightarrow> 'a list \<Rightarrow> bool" where
  "runs cmp w xs = (if w = 0 \<or> xs = [] then w > 0 else sorted_by cmp (take w xs) \<and> runs cmp w (drop w xs))"
  by auto
termination by (relation "measure (\<lambda>(_, w, xs). length xs)") auto

declare runs.simps [simp del]

lemma runs_step: "w > 0 \<Longrightarrow> runs cmp w xs \<longleftrightarrow> sorted_by cmp (take w xs) \<and> runs cmp w (drop w xs)"
  by (cases "xs = []") (auto simp: runs.simps [of cmp w xs] runs.simps [of cmp w "[]"] sorted_by_def)

lemma runs_1: "runs cmp 1 xs"
proof (induction xs)
  case (Cons x xs)
  then show ?case by (subst runs_step) (simp_all add: sorted_by_def)
qed (simp add: runs.simps)

lemma runs_append: "w > 0 \<Longrightarrow> sorted_by cmp xs \<Longrightarrow> length xs = w \<or> length xs \<le> w \<and> ys = [] \<Longrightarrow> runs cmp w ys \<Longrightarrow> runs cmp w (xs @ ys)"
  by (subst runs_step) (auto simp: sorted_by_def)

context strict_weak
begin

lemma chunk_pass_runs:
  assumes "w > 0" "runs cmp w xs"
  shows "mset (chunk_pass cmp w xs) = mset xs \<and> stable_by cmp xs (chunk_pass cmp w xs) \<and> runs cmp (2 * w) (chunk_pass cmp w xs)"
  using assms(2)
proof (induction "length xs" arbitrary: xs rule: less_induct)
  case less
  show ?case
  proof (cases "xs = []")
    case True
    then show ?thesis using assms(1) by (simp add: chunk_pass.simps [of cmp w "[]"] runs.simps)
  next
    case False
    let ?u = "take w xs" and ?v = "take w (drop w xs)" and ?d = "drop (2 * w) xs"
    have e: "chunk_pass cmp w xs = merge_lists cmp ?u ?v @ chunk_pass cmp w ?d"
      using False assms(1) by (subst chunk_pass.simps) simp
    have x: "xs = (?u @ ?v) @ ?d" by (metis append_assoc append_take_drop_id drop_drop mult_2)
    have s: "sorted_by cmp ?u" "sorted_by cmp ?v" "runs cmp w ?d"
      using less.prems runs_step [OF assms(1), of cmp xs] runs_step [OF assms(1), of cmp "drop w xs"]
      by (simp_all add: mult_2)
    have IH: "mset (chunk_pass cmp w ?d) = mset ?d" "stable_by cmp ?d (chunk_pass cmp w ?d)" "runs cmp (2 * w) (chunk_pass cmp w ?d)"
      using less.hyps [of ?d] s(3) False assms(1) by auto
    have "mset (chunk_pass cmp w xs) = mset xs" unfolding e using IH(1) x
      by (metis mset_append mset_merge_lists)
    moreover have "stable_by cmp xs (chunk_pass cmp w xs)" unfolding e
      using stable_by_append [OF merge_lists_stable [OF s(1), of ?v] IH(2)] x by simp
    moreover have "runs cmp (2 * w) (chunk_pass cmp w xs)" unfolding e
      using merge_lists_sorted [OF s(1,2)] IH(3) assms(1) by (intro runs_append) (auto simp flip: length_0_conv)
    ultimately show ?thesis by blast
  qed
qed

lemma bottom_up_loop_spec:
  assumes "w > 0" "runs cmp w xs"
  shows "\<exists>ys. bottom_up_loop cmp (length xs) w (xs @ post) = ys @ post \<and> stable_sort_of cmp xs ys"
  using assms
proof (induction "length xs - w" arbitrary: w xs rule: less_induct)
  case less
  show ?case
  proof (cases "w < length xs")
    case True
    let ?c = "chunk_pass cmp w xs"
    note c = chunk_pass_runs [OF less.prems]
    have "bottom_up_loop cmp (length xs) w (xs @ post) = bottom_up_loop cmp (length ?c) (2 * w) (?c @ post)"
      using True less.prems bottom_up_pass_chunk [of w "length xs" "[]" xs cmp post]
      by (subst bottom_up_loop.simps) simp
    moreover obtain ys where "bottom_up_loop cmp (length ?c) (2 * w) (?c @ post) = ys @ post" "stable_sort_of cmp ?c ys"
      using less.hyps [of ?c "2 * w"] diff_less_mono2 [of w "2 * w" "length xs"] c True less.prems by auto
    ultimately show ?thesis using c stable_by_trans unfolding stable_sort_of_def by metis
  next
    case False
    then have "bottom_up_loop cmp (length xs) w (xs @ post) = xs @ post" by (subst bottom_up_loop.simps) simp
    moreover have "sorted_by cmp xs" using less.prems runs_step [of w cmp xs] False by simp
    ultimately show ?thesis by (auto simp: stable_sort_of_def)
  qed
qed

text \<open>Both programs stably sort the first \<open>n\<close> elements and leave the others.\<close>

lemma merge_prefix_spec:
  assumes "n \<le> length arr"
  shows "\<exists>ys. (if n > 1 then merge_sort cmp arr 0 (n - 1) else arr) = ys @ drop n arr \<and> stable_sort_of cmp (take n arr) ys"
proof (cases "n > 1")
  case True
  obtain ys where ys: "merge_sort_with cmp arr 0 (n - 1) = overwrite 0 ys arr" "stable_sort_of cmp (seg_of 0 (n - 1 + 1) arr) ys"
    using merge_sort_with_spec [of "n - 1" arr 0] True assms less_le_trans [OF diff_less [of 1 n]] by auto
  have n: "n - 1 + 1 = n" using True by simp
  have "length ys = n" using stable_sort_of_length [OF ys(2)] True assms by simp
  then show ?thesis using ys True n by (intro exI [of _ ys]) (auto simp: merge_sort_def overwrite_def seg_of_def)
next
  case False
  then show ?thesis by (intro exI [of _ "take n arr"]) (auto intro: stable_sort_of_trivial)
qed

lemma bottom_up_prefix_spec:
  assumes "n \<le> length arr"
  shows "\<exists>ys. (if n > 1 then merge_sort_bottom_up cmp arr n else arr) = ys @ drop n arr \<and> stable_sort_of cmp (take n arr) ys"
proof (cases "n > 1")
  case True
  then show ?thesis using bottom_up_loop_spec [of 1 "take n arr" "drop n arr"] runs_1 [of cmp "take n arr"] assms
    by (simp add: merge_sort_bottom_up_def)
next
  case False
  then show ?thesis by (intro exI [of _ "take n arr"]) (auto intro: stable_sort_of_trivial)
qed

lemma merge_spec: "stable_sort_of cmp arr (merge cmp arr)"
  using merge_prefix_spec [of "length arr" arr] by (auto simp: merge_def)

lemma merge_bottom_up_spec: "stable_sort_of cmp arr (merge_bottom_up cmp arr)"
  using bottom_up_prefix_spec [of "length arr" arr] by (auto simp: merge_bottom_up_def)

end

interpretation mrg: stable_sorter merge
  by unfold_locales (use strict_weak.merge_spec in \<open>auto simp: stable_sort_of_def\<close>)

interpretation bup: stable_sorter merge_bottom_up
  by unfold_locales (use strict_weak.merge_bottom_up_spec in \<open>auto simp: stable_sort_of_def\<close>)

interpretation stb: stable_sorter stable
  by unfold_locales (simp_all add: stable_def mrg.srt_mset mrg.srt_sorted mrg.srt_stable)

end
