(* ===== verification/Sort_Radix.thy ===== *)
theory Sort_Radix
  imports Sort_Merge "HOL-Library.Word"
begin

text \<open>
  The sorts without comparisons: \<^verbatim>\<open>radix.hpp\<close> and \<^verbatim>\<open>counting.hpp\<close>.  Keys are integers of a built-in type (projected by
  \<open>key\<close>); the biased keys are 64-bit words, as \<^verbatim>\<open>umax_t\<close> is.  Bucket counters are natural numbers: a counter is at most the
  number of elements, so the model assumes that this number fits the counter's type (\<^verbatim>\<open>usize\<close>, and \<^verbatim>\<open>i32\<close> in the first
  \<^verbatim>\<open>fradix\<close>).  Every sort is shown to be the library's stable \<open>sort_key\<close>.
\<close>

unbundle bit_operations_syntax

subsection \<open>The program\<close>

definition bucket_count :: "('a \<Rightarrow> nat) \<Rightarrow> nat \<Rightarrow> 'a list \<Rightarrow> nat list" where
  "bucket_count idx B arr = fold (\<lambda>x bk. bk[idx x := bk ! idx x + 1]) arr (replicate B 0)"

definition bucket_sums :: "nat list \<Rightarrow> nat list" where
  "bucket_sums bk = fold (\<lambda>i bk. bk[i := bk ! i + bk ! (i - 1)]) [1..<length bk] bk"

definition scatter_step :: "('a \<Rightarrow> nat) \<Rightarrow> 'a list \<Rightarrow> nat \<Rightarrow> 'a list \<times> nat list \<Rightarrow> 'a list \<times> nat list" where
  "scatter_step idx arr k st =
     (case st of (carr, bk) \<Rightarrow>
        let d = idx (arr ! k); p = bk ! d - 1 in (carr[p := arr ! k], bk[d := p]))"

definition bucket_sort :: "('a \<Rightarrow> nat) \<Rightarrow> nat \<Rightarrow> 'a list \<Rightarrow> 'a list \<Rightarrow> 'a list" where
  "bucket_sort idx B arr carr =
     fst (fold (scatter_step idx arr) (rev [0..<length arr]) (carr, bucket_sums (bucket_count idx B arr)))"

definition biased :: "('a \<Rightarrow> int) \<Rightarrow> 64 word \<Rightarrow> 'a \<Rightarrow> 64 word" where
  "biased key bias_min x = word_of_int (key x) - bias_min"

definition key_range :: "('a \<Rightarrow> int) \<Rightarrow> 'a list \<Rightarrow> int \<times> int" where
  "key_range key arr =
     fold (\<lambda>x (kmin, kmax). (if key x < kmin then key x else kmin, if kmax < key x then key x else kmax))
       (tl arr) (key (hd arr), key (hd arr))"

definition radix_pass :: "('a \<Rightarrow> int) \<Rightarrow> 64 word \<Rightarrow> nat \<Rightarrow> 'a list \<Rightarrow> 'a list \<Rightarrow> 'a list" where
  "radix_pass key bias_min shift arr carr =
     bucket_sort (\<lambda>x. unat (drop_bit shift (biased key bias_min x) AND 0xFF)) 256 arr carr"

function radix_loop :: "('a \<Rightarrow> int) \<Rightarrow> 64 word \<Rightarrow> 64 word \<Rightarrow> nat \<Rightarrow> 'a list \<Rightarrow> 'a list \<Rightarrow> 'a list" where
  "radix_loop key bias_min span shift arr carr =
     (if shift < 64 then
        if drop_bit shift span = 0 then arr
        else let arr' = radix_pass key bias_min shift arr carr in radix_loop key bias_min span (shift + 8) arr' arr'
      else arr)"
  by auto
termination by (relation "measure (\<lambda>(_, _, _, shift, _, _). 64 - shift)") auto

declare radix_loop.simps [simp del]

definition radix_int :: "('a \<Rightarrow> int) \<Rightarrow> 'a list \<Rightarrow> 'a list" where
  "radix_int key arr =
     (if length arr < 2 then arr
      else
        let (kmin, kmax) = key_range key arr;
            bias_min = word_of_int kmin;
            span = word_of_int kmax - word_of_int kmin
        in radix_loop key bias_min span 0 arr arr)"

definition radix :: "int list \<Rightarrow> int list" where
  "radix arr = radix_int (\<lambda>e. e) arr"

definition radix_key :: "('a \<Rightarrow> int) \<Rightarrow> 'a list \<Rightarrow> 'a list" where
  "radix_key key arr = radix_int key arr"

text \<open>The iterator overload repeats the loop on the range between the iterators; its scratch holds \<open>cnt\<close> default
  elements, all of which the first pass overwrites.\<close>

definition radix_it :: "int list \<Rightarrow> int list" where
  "radix_it rng =
     (if length rng < 2 then rng
      else
        let (vmin, vmax) = key_range (\<lambda>e. e) rng
        in radix_loop (\<lambda>e. e) (word_of_int vmin) (word_of_int vmax - word_of_int vmin) 0 rng (replicate (length rng) 0))"

definition counting_impl :: "('a \<Rightarrow> int) \<Rightarrow> 'a list \<Rightarrow> 'a list" where
  "counting_impl key arr =
     (let n = length arr
      in if n < 2 then arr
         else
           let (kmin, kmax) = key_range key arr;
               span = (word_of_int kmax - word_of_int kmin :: 64 word);
               n_u = (of_nat n :: 64 word);
               cap = (push_bit 27 1 :: 64 word)
           in if span = NOT 0 \<or> span > 4 * n_u \<or> span \<ge> cap then radix_key key arr
              else
                let range = span + 1; bias_min = word_of_int kmin
                in bucket_sort (\<lambda>x. unat (biased key bias_min x)) (unat range) arr arr)"

definition counting :: "int list \<Rightarrow> int list" where
  "counting arr = counting_impl (\<lambda>e. e) arr"

definition counting_key :: "('a \<Rightarrow> int) \<Rightarrow> 'a list \<Rightarrow> 'a list" where
  "counting_key key arr = counting_impl key arr"

text \<open>Floating-point values are their bit patterns, words of 32 or 64 bits.  The two buffers of the first overload swap
  roles after every byte; each pass writes all of its output buffer.\<close>

definition float_key :: "'w :: len word \<Rightarrow> 'w word" where
  "float_key u =
     (let top = LENGTH('w) - 1; signbit = push_bit top 1 in u XOR ((0 - drop_bit top u) OR signbit))"

definition float_unkey :: "'w :: len word \<Rightarrow> 'w word" where
  "float_unkey k =
     (let top = LENGTH('w) - 1; signbit = push_bit top 1 in k XOR ((drop_bit top k - 1) OR signbit))"

definition byte_of :: "nat \<Rightarrow> 'w :: len word \<Rightarrow> nat" where
  "byte_of b k = unat (drop_bit (b * 8) k AND 0xFF)"

definition fradix :: "'w :: len word list \<Rightarrow> 'w word list" where
  "fradix arr =
     (if length arr < 2 then arr
      else
        let keys = map float_key arr;
            keys' = fold (\<lambda>b keys. bucket_sort (byte_of b) 256 keys keys) [0..<LENGTH('w) div 8] keys
        in map float_unkey keys')"

definition fradix_key :: "('a \<Rightarrow> 'w :: len word) \<Rightarrow> 'a list \<Rightarrow> 'a list" where
  "fradix_key key arr =
     (if length arr < 2 then arr
      else
        let tkey = (\<lambda>e. float_key (key e))
        in fold (\<lambda>b arr. bucket_sort (\<lambda>e. byte_of b (tkey e)) 256 arr arr) [0..<LENGTH('w) div 8] arr)"

subsection \<open>Buckets\<close>

lemma bucket_count_fold:
  assumes "\<forall>x\<in>set arr. idx x < length bk"
  shows "length (fold (\<lambda>x bk. bk[idx x := bk ! idx x + 1]) arr bk) = length bk \<and>
    (\<forall>d < length bk. fold (\<lambda>x bk. bk[idx x := bk ! idx x + 1]) arr bk ! d = bk ! d + length (filter (\<lambda>x. idx x = d) arr))"
  using assms by (induction arr arbitrary: bk) (auto simp: nth_list_update)

lemma bucket_count_nth:
  assumes "\<forall>x\<in>set arr. idx x < B"
  shows "length (bucket_count idx B arr) = B" "d < B \<Longrightarrow> bucket_count idx B arr ! d = length (filter (\<lambda>x. idx x = d) arr)"
  using bucket_count_fold [of arr idx "replicate B 0"] assms by (auto simp: bucket_count_def)

lemma bucket_sums_fold:
  assumes "1 \<le> m" "m \<le> length bk"
  shows "length (fold (\<lambda>i bk. bk[i := bk ! i + bk ! (i - 1)]) [1..<m] bk) = length bk \<and>
    (\<forall>d < length bk. fold (\<lambda>i bk. bk[i := bk ! i + bk ! (i - 1)]) [1..<m] bk ! d =
      (if d < m then \<Sum>i\<le>d. bk ! i else bk ! d))"
  using assms
proof (induction m rule: dec_induct)
  case (step m)
  let ?F = "fold (\<lambda>i bk. bk[i := bk ! i + bk ! (i - 1)]) [1..<m] bk"
  have e: "fold (\<lambda>i bk. bk[i := bk ! i + bk ! (i - 1)]) [1..<Suc m] bk = ?F[m := ?F ! m + ?F ! (m - 1)]"
    using step.hyps by simp
  have IH: "length ?F = length bk" "\<And>d. d < length bk \<Longrightarrow> ?F ! d = (if d < m then \<Sum>i\<le>d. bk ! i else bk ! d)"
    using step by auto
  obtain k where k: "m = Suc k" using step.hyps by (cases m) auto
  have "?F ! m + ?F ! (m - 1) = (\<Sum>i\<le>m. bk ! i)" using IH(2) [of m] IH(2) [of k] step.prems k by (simp add: add.commute)
  then show ?case unfolding e using IH step.prems by (auto simp: nth_list_update less_Suc_eq)
qed auto

lemma bucket_sums_nth: "length (bucket_sums bk) = length bk" "d < length bk \<Longrightarrow> bucket_sums bk ! d = (\<Sum>i\<le>d. bk ! i)"
  using bucket_sums_fold [of "length bk" bk] by (cases "length bk", auto simp: bucket_sums_def)+

text \<open>\<open>below idx xs d\<close> counts the elements of \<open>xs\<close> in the buckets before \<open>d\<close>, which is where bucket \<open>d\<close> starts.\<close>

definition below :: "('a \<Rightarrow> nat) \<Rightarrow> 'a list \<Rightarrow> nat \<Rightarrow> nat" where
  "below idx xs d = length (filter (\<lambda>x. idx x < d) xs)"

lemma below_Suc: "below idx xs (Suc d) = below idx xs d + length (filter (\<lambda>x. idx x = d) xs)"
  by (induction xs) (auto simp: below_def less_Suc_eq)

lemma below_mono: "d \<le> e \<Longrightarrow> below idx xs d \<le> below idx xs e"
  by (induction e rule: dec_induct) (auto simp: below_Suc)

lemma below_le: "below idx xs d \<le> length xs"
  by (simp add: below_def)

lemma below_all: "\<forall>x\<in>set xs. idx x < B \<Longrightarrow> below idx xs B = length xs"
  by (simp add: below_def)

lemma below_0 [simp]: "below idx xs 0 = 0"
  by (simp add: below_def)

lemma bucket_ends:
  assumes "\<forall>x\<in>set arr. idx x < B"
  shows "length (bucket_sums (bucket_count idx B arr)) = B"
    "d < B \<Longrightarrow> bucket_sums (bucket_count idx B arr) ! d = below idx arr (Suc d)"
proof -
  show "length (bucket_sums (bucket_count idx B arr)) = B" using bucket_count_nth(1) [OF assms] bucket_sums_nth(1) by metis
  assume d: "d < B"
  have "(\<Sum>i\<le>e. length (filter (\<lambda>x. idx x = i) arr)) = below idx arr (Suc e)" for e
    by (induction e) (simp_all add: below_Suc)
  then show "bucket_sums (bucket_count idx B arr) ! d = below idx arr (Suc d)"
    using d bucket_count_nth [OF assms] bucket_sums_nth(2) [of d "bucket_count idx B arr"]
    by (metis (mono_tags, lifting) atMost_iff le_less_trans sum.cong)
qed

subsection \<open>The scatter\<close>

text \<open>With the elements from \<open>k\<close> on scattered, every bucket holds its share of them, in order, at its end.\<close>

definition scattered :: "('a \<Rightarrow> nat) \<Rightarrow> nat \<Rightarrow> 'a list \<Rightarrow> nat \<Rightarrow> 'a list \<Rightarrow> nat list \<Rightarrow> bool" where
  "scattered idx B arr k carr bk \<longleftrightarrow> length carr = length arr \<and> length bk = B \<and>
     (\<forall>d < B. bk ! d + length (filter (\<lambda>x. idx x = d) (drop k arr)) = below idx arr (Suc d) \<and>
        seg_of (bk ! d) (below idx arr (Suc d)) carr = filter (\<lambda>x. idx x = d) (drop k arr))"

lemma scattered_step:
  assumes s: "scattered idx B arr (Suc k) carr bk" and k: "k < length arr" and B: "\<forall>x\<in>set arr. idx x < B"
    and st: "scatter_step idx arr k (carr, bk) = (carr', bk')"
  shows "scattered idx B arr k carr' bk'"
proof -
  let ?x = "arr ! k" and ?E = "\<lambda>d. below idx arr (Suc d)" and ?f = "\<lambda>d k. filter (\<lambda>x. idx x = d) (drop k arr)"
  let ?d = "idx ?x"
  have d: "?d < B" using B k by simp
  have dk: "drop k arr = ?x # drop (Suc k) arr" using k by (simp add: Cons_nth_drop_Suc)
  have len: "length carr = length arr" "length bk = B" using s by (auto simp: scattered_def)
  have inv: "bk ! e + length (?f e (Suc k)) = ?E e" "seg_of (bk ! e) (?E e) carr = ?f e (Suc k)" if "e < B" for e
    using s that by (auto simp: scattered_def)
  have all: "length (?f e k) \<le> length (filter (\<lambda>x. idx x = e) arr)" for e
    by (metis append_take_drop_id filter_append le_add2 length_append)
  have pos: "below idx arr ?d < bk ! ?d" using inv(1) [OF d] all [of ?d] dk by (simp add: below_Suc)
  let ?p = "bk ! ?d - 1"
  have p: "below idx arr ?d \<le> ?p" "Suc ?p = bk ! ?d" "bk ! ?d \<le> ?E ?d" using pos inv(1) [OF d] by auto
  have pl: "?p < length carr" using p below_le [of idx arr "Suc ?d"] len by linarith
  have e: "carr' = carr[?p := ?x]" "bk' = bk[?d := ?p]" using st by (auto simp: scatter_step_def Let_def)
  have "bk' ! e + length (?f e k) = ?E e \<and> seg_of (bk' ! e) (?E e) carr' = ?f e k" if "e < B" for e
  proof (cases "e = ?d")
    case True
    have "seg_of ?p (?E ?d) carr' = ?x # seg_of (bk ! ?d) (?E ?d) carr"
    proof (rule nth_equalityI)
      show "length (seg_of ?p (?E ?d) carr') = length (?x # seg_of (bk ! ?d) (?E ?d) carr)"
        using p pl below_le [of idx arr "Suc ?d"] len e by auto
    next
      fix i assume "i < length (seg_of ?p (?E ?d) carr')"
      then show "seg_of ?p (?E ?d) carr' ! i = (?x # seg_of (bk ! ?d) (?E ?d) carr) ! i"
        using p pl len e by (cases i) (auto simp: nth_seg_of nth_list_update)
    qed
    then show ?thesis using True inv [OF d] e len d p dk by simp
  next
    case False
    have "?p < bk ! e \<or> ?E e \<le> ?p"
    proof (cases "e < ?d")
      case True
      then show ?thesis using below_mono [of "Suc e" ?d idx arr] p by linarith
    next
      case gt: False
      have "below idx arr e \<le> bk ! e"
        using inv(1) [OF that] all [of e] False dk below_Suc [of idx arr e] by simp
      then show ?thesis using below_mono [of "Suc ?d" e idx arr] gt False p by linarith
    qed
    then have "seg_of (bk ! e) (?E e) carr' = seg_of (bk ! e) (?E e) carr"
      by (intro nth_equalityI) (auto simp: e nth_seg_of nth_list_update)
    then show ?thesis using False inv [OF that] e len dk by simp
  qed
  then show ?thesis using len e by (auto simp: scattered_def)
qed

lemma scattered_fold:
  assumes "\<forall>x\<in>set arr. idx x < B" "length carr = length arr" "k \<le> length arr"
    and bk: "bk = bucket_sums (bucket_count idx B arr)"
  shows "\<exists>carr' bk'. fold (scatter_step idx arr) (rev [k..<length arr]) (carr, bk) = (carr', bk') \<and> scattered idx B arr k carr' bk'"
  using assms(3)
proof (induction k rule: inc_induct)
  case base
  then show ?case using assms bucket_ends [OF assms(1)] by (auto simp: scattered_def seg_of_def)
next
  case (step k)
  then obtain c b where cb: "fold (scatter_step idx arr) (rev [Suc k..<length arr]) (carr, bk) = (c, b)" "scattered idx B arr (Suc k) c b"
    by blast
  have "rev [k..<length arr] = rev [Suc k..<length arr] @ [k]" using step.hyps by (simp add: upt_conv_Cons)
  then have "fold (scatter_step idx arr) (rev [k..<length arr]) (carr, bk) = scatter_step idx arr k (c, b)"
    using cb(1) by simp
  then show ?case using scattered_step [OF cb(2) step.hyps(2) assms(1)] by (metis surj_pair)
qed

lemma scattered_concat:
  assumes s: "scattered idx B arr 0 carr bk" and m: "m \<le> B"
  shows "take (below idx arr m) carr = concat (map (\<lambda>d. filter (\<lambda>x. idx x = d) arr) [0..<m])"
  using m
proof (induction m)
  case (Suc m)
  have inv: "bk ! m + length (filter (\<lambda>x. idx x = m) arr) = below idx arr (Suc m)"
    "seg_of (bk ! m) (below idx arr (Suc m)) carr = filter (\<lambda>x. idx x = m) arr"
    using s Suc.prems by (auto simp: scattered_def)
  then have "bk ! m = below idx arr m" by (simp add: below_Suc)
  then show ?case using Suc inv(2) take_add [of "below idx arr m" "below idx arr (Suc m) - below idx arr m" carr] below_mono [of m "Suc m" idx arr]
    by (simp add: seg_of_def)
qed simp

lemma sorted_concat_buckets: "sorted (map idx (concat (map (\<lambda>d. filter (\<lambda>x. idx x = d) arr) [0..<m])))"
proof (induction m)
  case (Suc m)
  have "sorted (map idx (filter (\<lambda>x. idx x = m) arr))" by (induction arr) auto
  then show ?case using Suc by (auto simp: sorted_append)
qed simp

lemma filter_concat_buckets:
  "filter (\<lambda>x. idx x = e) (concat (map (\<lambda>d. filter (\<lambda>x. idx x = d) arr) [0..<m])) =
   (if e < m then filter (\<lambda>x. idx x = e) arr else [])"
  by (induction m) (auto simp: less_Suc_eq filter_empty_conv intro: filter_cong)

theorem bucket_sort_is_sort_key:
  assumes "\<forall>x\<in>set arr. idx x < B" "length carr = length arr"
  shows "bucket_sort idx B arr carr = sort_key idx arr"
proof -
  obtain c b where cb: "fold (scatter_step idx arr) (rev [0..<length arr]) (carr, bucket_sums (bucket_count idx B arr)) = (c, b)"
    "scattered idx B arr 0 c b" using scattered_fold [OF assms le0 refl] by blast
  have c: "c = concat (map (\<lambda>d. filter (\<lambda>x. idx x = d) arr) [0..<B])"
    using scattered_concat [OF cb(2) order.refl] cb(2) below_all [OF assms(1)] by (simp add: scattered_def)
  have f: "filter (\<lambda>x. idx x = e) c = filter (\<lambda>x. idx x = e) arr" for e
    unfolding c filter_concat_buckets using assms(1) by (auto intro!: filter_False [symmetric])
  have "count (mset c) x = count (mset arr) x" for x
    using arg_cong [OF f [of "idx x"], of "\<lambda>l. count (mset l) x"] by simp
  then have "mset c = mset arr" by (rule multiset_eqI)
  then have "sort_key idx arr = c"
  proof (rule properties_for_sort_key)
    show "filter (\<lambda>x. idx k = idx x) c = filter (\<lambda>x. idx k = idx x) arr" for k
      using f [of "idx k"] by (simp add: eq_commute [of "idx k"])
    show "sorted (map idx c)" unfolding c by (rule sorted_concat_buckets)
  qed
  then show ?thesis using cb(1) by (simp add: bucket_sort_def)
qed

subsection \<open>Least-significant-digit passes\<close>

lemma sorted_lex:
  assumes "\<And>x. g x < M" "sorted (map f zs)" "\<And>c. sorted (map g (filter (\<lambda>x. f x = c) zs))"
  shows "sorted (map (\<lambda>x. f x * M + g x :: nat) zs)"
  using assms(2,3)
proof (induction zs)
  case (Cons z zs)
  have "f z * M + g z \<le> f w * M + g w" if w: "w \<in> set zs" for w
  proof (cases "f w = f z")
    case True
    then show ?thesis using Cons.prems(2) [of "f z"] w by auto
  next
    case False
    then have "f z + 1 \<le> f w" using Cons.prems(1) w by force
    then have "(f z + 1) * M \<le> f w * M" by (rule mult_le_mono1)
    then show ?thesis using assms(1) [of z] by (simp add: algebra_simps)
  qed
  moreover have "sorted (map g (filter (\<lambda>x. f x = c) zs))" for c
    using Cons.prems(2) [of c] by (auto split: if_splits)
  ultimately show ?case using Cons by simp
qed simp

lemma sorted_filter_key: "sorted (map g zs) \<Longrightarrow> sorted (map g (filter P zs))"
  by (simp add: sorted_map sorted_wrt_filter)

lemma lsd_step:
  assumes "\<And>x. g x < M"
  shows "sort_key f (sort_key g xs) = sort_key (\<lambda>x. f x * M + g x :: nat) xs"
proof (rule properties_for_sort_key [symmetric])
  let ?r = "sort_key f (sort_key g xs)" and ?h = "\<lambda>x. f x * M + g x"
  show "mset ?r = mset xs" by simp
  have st: "filter (\<lambda>x. f x = c) ?r = filter (\<lambda>x. f x = c) (sort_key g xs)" for c by (rule sort_key_stable)
  show "sorted (map ?h ?r)"
    using assms st by (intro sorted_lex) (auto simp: sorted_filter_key)
  fix k
  have h: "(?h k = ?h x) = (g x = g k \<and> f x = f k)" for x
  proof -
    have "?h x div M = f x" "?h x mod M = g x" for x using assms [of x] by auto
    then show ?thesis by metis
  qed
  have "filter (\<lambda>x. g x = g k \<and> f x = f k) ?r = filter (\<lambda>x. g x = g k) (filter (\<lambda>x. f x = f k) ?r)"
    by (simp add: conj_commute)
  also have "\<dots> = filter (\<lambda>x. f x = f k) (filter (\<lambda>x. g x = g k) (sort_key g xs))" unfolding st by (simp add: conj_commute)
  also have "\<dots> = filter (\<lambda>x. f x = f k) (filter (\<lambda>x. g x = g k) xs)" by (simp only: sort_key_stable)
  finally show "filter (\<lambda>x. ?h k = ?h x) ?r = filter (\<lambda>x. ?h k = ?h x) xs" unfolding h by (simp add: conj_commute)
qed

lemma sort_key_same_order:
  fixes f :: "'a \<Rightarrow> 'k :: linorder" and g :: "'a \<Rightarrow> 'l :: linorder"
  assumes "\<And>x y. x \<in> set xs \<Longrightarrow> y \<in> set xs \<Longrightarrow> f x \<le> f y \<longleftrightarrow> g x \<le> g y"
  shows "sort_key f xs = sort_key g xs"
proof (rule properties_for_sort_key)
  show "mset (sort_key g xs) = mset xs" by simp
  have "sorted_wrt (\<lambda>x y. g x \<le> g y) (sort_key g xs)" using sorted_sort_key [of g xs] by (simp add: sorted_map)
  then have "sorted_wrt (\<lambda>x y. f x \<le> f y) (sort_key g xs)" by (rule sorted_wrt_mono_rel [rotated]) (auto simp: assms)
  then show "sorted (map f (sort_key g xs))" by (simp add: sorted_map)
  fix k
  show "filter (\<lambda>x. f k = f x) (sort_key g xs) = filter (\<lambda>x. f k = f x) xs"
  proof (cases "\<exists>y\<in>set xs. f k = f y")
    case True
    then obtain y where y: "y \<in> set xs" "f k = f y" by blast
    have e: "(f k = f x) = (g x = g y)" if "x \<in> set xs" for x
      using assms [OF y(1) that] assms [OF that y(1)] y(2) by (metis order.antisym order.refl)
    have "filter (\<lambda>x. f k = f x) (sort_key g xs) = filter (\<lambda>x. g x = g y) (sort_key g xs)"
      using e by (intro filter_cong) auto
    also have "\<dots> = filter (\<lambda>x. g x = g y) xs" by (rule sort_key_stable)
    also have "\<dots> = filter (\<lambda>x. f k = f x) xs" using e by (intro filter_cong) auto
    finally show ?thesis .
  next
    case False
    then have "filter (\<lambda>x. f k = f x) (sort_key g xs) = []" "filter (\<lambda>x. f k = f x) xs = []"
      by (simp_all add: filter_empty_conv)
    then show ?thesis by simp
  qed
qed

lemma byte_digit:
  fixes k :: "'w :: len word"
  assumes "8 \<le> LENGTH('w)"
  shows "unat (drop_bit s k AND 0xFF) = unat k div 2 ^ s mod 256"
proof -
  have "(0xFF :: 'w word) = mask 8" by (simp add: mask_eq_exp_minus_1)
  then have "drop_bit s k AND 0xFF = take_bit 8 (drop_bit s k)" by (simp add: take_bit_eq_mask)
  moreover have "unat (take_bit 8 (drop_bit s k)) = take_bit 8 (drop_bit s (unat k))"
    by (simp add: unsigned_take_bit_eq unsigned_drop_bit_eq take_bit_nat_eq_self [OF unsigned_less])
  ultimately show ?thesis by (simp only: take_bit_eq_mod drop_bit_eq_div) simp
qed

lemma byte_pass:
  assumes "arr = sort_key (\<lambda>x. K x mod 2 ^ s) xs" "length carr = length arr"
  shows "bucket_sort (\<lambda>x. K x div 2 ^ s mod 256) 256 arr carr = sort_key (\<lambda>x. K x mod 2 ^ (s + 8)) xs"
proof -
  have "bucket_sort (\<lambda>x. K x div 2 ^ s mod 256) 256 arr carr = sort_key (\<lambda>x. K x div 2 ^ s mod 256) arr"
    using assms by (intro bucket_sort_is_sort_key) auto
  also have "\<dots> = sort_key (\<lambda>x. (K x div 2 ^ s mod 256) * 2 ^ s + K x mod 2 ^ s) xs"
    unfolding assms(1) by (rule lsd_step) simp
  also have "(\<lambda>x. (K x div 2 ^ s mod 256) * 2 ^ s + K x mod 2 ^ s) = (\<lambda>x. K x mod 2 ^ (s + 8))"
    using mod_mult2_eq [of _ "2 ^ s" 256] by (auto simp: power_add mult.commute)
  finally show ?thesis .
qed

lemma radix_loop_sort_key:
  assumes "arr = sort_key (\<lambda>x. unat (biased key b x) mod 2 ^ s) xs" "length carr = length arr"
    "\<And>x. x \<in> set xs \<Longrightarrow> biased key b x \<le> span" "8 dvd s" "s \<le> 64"
  shows "radix_loop key b span s arr carr = sort_key (\<lambda>x. unat (biased key b x)) xs"
  using assms
proof (induction "64 - s" arbitrary: s arr carr rule: less_induct)
  case less
  let ?K = "\<lambda>x. unat (biased key b x)"
  have small: "arr = sort_key ?K xs" if "\<And>x. x \<in> set xs \<Longrightarrow> ?K x < 2 ^ s"
    unfolding less.prems(1) using that by (intro sort_key_same_order) simp
  consider "s = 64" | "s < 64" "drop_bit s span = 0" | "s < 64" "drop_bit s span \<noteq> 0" using less.prems by linarith
  then show ?case
  proof cases
    case 1
    have "?K x < 2 ^ s" for x using unsigned_less [of "biased key b x"] 1 by simp
    then show ?thesis using small 1 by (subst radix_loop.simps) simp
  next
    case 2
    have "drop_bit s (unat span) = 0" using arg_cong [OF 2(2), of unat] take_bit_nat_eq_self [OF unsigned_less, of span]
      by (simp add: unsigned_drop_bit_eq)
    then have "unat span div 2 ^ s = 0" by (simp add: drop_bit_eq_div)
    then have "unat span < 2 ^ s" by (simp add: div_eq_0_iff)
    then have "?K x < 2 ^ s" if "x \<in> set xs" for x using less.prems(3) [OF that] by (simp add: word_le_nat_alt)
    then show ?thesis using small 2 by (subst radix_loop.simps) simp
  next
    case 3
    have "radix_pass key b s arr carr = sort_key (\<lambda>x. ?K x mod 2 ^ (s + 8)) xs"
      using byte_pass [OF less.prems(1,2)] by (simp add: radix_pass_def byte_digit)
    moreover have "s + 8 \<le> 64" using 3(1) less.prems(4) by (auto elim!: dvdE)
    ultimately show ?thesis using less.hyps [of "s + 8" "radix_pass key b s arr carr" "radix_pass key b s arr carr"] less.prems 3
      by (subst radix_loop.simps) (simp add: Let_def)
  qed
qed

subsection \<open>Integer keys\<close>

definition key_fits :: "('a \<Rightarrow> int) \<Rightarrow> 'a list \<Rightarrow> bool" where
  "key_fits key arr \<longleftrightarrow> (\<forall>x\<in>set arr. - (2 ^ 63) \<le> key x \<and> key x < 2 ^ 63) \<or> (\<forall>x\<in>set arr. 0 \<le> key x \<and> key x < 2 ^ 64)"

lemma key_range_fold:
  fixes key :: "'a \<Rightarrow> int"
  assumes "fold (\<lambda>x (kmin, kmax). (if key x < kmin then key x else kmin, if kmax < key x then key x else kmax)) ys (a, b) = (kmin, kmax)"
    "a \<le> b"
  shows "kmin \<le> a \<and> b \<le> kmax \<and> (\<forall>x\<in>set ys. kmin \<le> key x \<and> key x \<le> kmax) \<and>
    kmin \<in> insert a (key ` set ys) \<and> kmax \<in> insert b (key ` set ys)"
  using assms
proof (induction ys arbitrary: a b)
  case (Cons y ys)
  let ?a = "if key y < a then key y else a" and ?b = "if b < key y then key y else b"
  have "kmin \<le> ?a \<and> ?b \<le> kmax \<and> (\<forall>x\<in>set ys. kmin \<le> key x \<and> key x \<le> kmax) \<and>
    kmin \<in> insert ?a (key ` set ys) \<and> kmax \<in> insert ?b (key ` set ys)"
    using Cons.prems by (intro Cons.IH) auto
  then show ?case by (auto split: if_splits)
qed simp

lemma key_range_spec:
  assumes "arr \<noteq> []" "key_range key arr = (kmin, kmax)"
  shows "\<forall>x\<in>set arr. kmin \<le> key x \<and> key x \<le> kmax" "kmin \<in> key ` set arr" "kmax \<in> key ` set arr"
  using assms key_range_fold [of key "tl arr" "key (hd arr)" "key (hd arr)" kmin kmax] by (cases arr; auto simp: key_range_def)+

lemma unat_biased:
  assumes "kmin \<le> k" "k - kmin < 2 ^ 64"
  shows "unat (word_of_int k - word_of_int kmin :: 64 word) = nat (k - kmin)"
proof -
  have "(word_of_int k - word_of_int kmin :: 64 word) = word_of_int (k - kmin)" by simp
  moreover have "uint (word_of_int (k - kmin) :: 64 word) = k - kmin"
    using assms by (subst uint_word_of_int_eq) (simp add: take_bit_int_eq_self)
  ultimately show ?thesis by (metis unat_eq_nat_uint)
qed

lemma biased_sort_key:
  assumes "arr \<noteq> []" "key_range key arr = (kmin, kmax)" "key_fits key arr"
  shows "\<And>x. x \<in> set arr \<Longrightarrow> biased key (word_of_int kmin) x \<le> word_of_int kmax - word_of_int kmin"
    and "sort_key (\<lambda>x. unat (biased key (word_of_int kmin) x)) arr = sort_key key arr"
proof -
  note r = key_range_spec [OF assms(1,2)]
  obtain x y where xy: "x \<in> set arr" "y \<in> set arr" "kmin = key x" "kmax = key y" using r(2,3) by blast
  have "- (2 ^ 63) \<le> kmin \<and> kmax < 2 ^ 63 \<or> 0 \<le> kmin \<and> kmax < 2 ^ 64" using xy assms(3) by (auto simp: key_fits_def)
  then have d: "kmax - kmin < 2 ^ 64" by auto
  have u: "unat (biased key (word_of_int kmin) x) = nat (key x - kmin)" if "x \<in> set arr" for x
    using unat_biased [of kmin "key x"] r(1) that d by (auto simp: biased_def)
  have s: "unat (word_of_int kmax - word_of_int kmin :: 64 word) = nat (kmax - kmin)"
    using unat_biased [OF _ d] r(1) assms(1) by (metis list.set_sel(1) order_trans)
  show "biased key (word_of_int kmin) x \<le> word_of_int kmax - word_of_int kmin" if "x \<in> set arr" for x
    using u [OF that] s r(1) that by (auto simp: word_le_nat_alt intro!: nat_mono)
  show "sort_key (\<lambda>x. unat (biased key (word_of_int kmin) x)) arr = sort_key key arr"
    using u r(1) by (intro sort_key_same_order) auto
qed

lemma sort_key_short: "length arr < 2 \<Longrightarrow> sort_key key arr = arr"
  by (cases arr; cases "tl arr") auto

lemma radix_int_sort_key:
  assumes "key_fits key arr"
  shows "radix_int key arr = sort_key key arr"
proof (cases "length arr < 2")
  case False
  then have ne: "arr \<noteq> []" by auto
  obtain kmin kmax where k: "key_range key arr = (kmin, kmax)" by (cases "key_range key arr")
  have "radix_int key arr = radix_loop key (word_of_int kmin) (word_of_int kmax - word_of_int kmin) 0 arr arr"
    using False k by (simp add: radix_int_def)
  also have "\<dots> = sort_key (\<lambda>x. unat (biased key (word_of_int kmin) x)) arr"
    using biased_sort_key(1) [OF ne k assms] by (intro radix_loop_sort_key) (auto simp: sort_key_const)
  finally show ?thesis using biased_sort_key(2) [OF ne k assms] by simp
qed (simp add: radix_int_def sort_key_short)

lemma radix_it_sort:
  assumes "key_fits (\<lambda>e. e) rng"
  shows "radix_it rng = sort rng"
proof (cases "length rng < 2")
  case False
  then have ne: "rng \<noteq> []" by auto
  obtain kmin kmax where k: "key_range (\<lambda>e. e) rng = (kmin, kmax)" by (cases "key_range (\<lambda>e. e) rng")
  have "radix_it rng = radix_loop (\<lambda>e. e) (word_of_int kmin) (word_of_int kmax - word_of_int kmin) 0 rng (replicate (length rng) 0)"
    using False k by (simp add: radix_it_def)
  also have "\<dots> = sort_key (\<lambda>x. unat (biased (\<lambda>e. e) (word_of_int kmin) x)) rng"
    using biased_sort_key(1) [OF ne k assms] by (intro radix_loop_sort_key) (auto simp: sort_key_const)
  finally show ?thesis using biased_sort_key(2) [OF ne k assms] by simp
qed (simp add: radix_it_def sort_key_short)

lemma counting_impl_sort_key:
  assumes "key_fits key arr"
  shows "counting_impl key arr = sort_key key arr"
proof (cases "length arr < 2")
  case False
  then have ne: "arr \<noteq> []" by auto
  obtain kmin kmax where k: "key_range key arr = (kmin, kmax)" by (cases "key_range key arr")
  let ?span = "word_of_int kmax - word_of_int kmin :: 64 word"
  let ?wide = "?span = NOT 0 \<or> ?span > 4 * of_nat (length arr) \<or> ?span \<ge> push_bit 27 1"
  have e: "counting_impl key arr = (if ?wide then radix_key key arr else
      bucket_sort (\<lambda>x. unat (biased key (word_of_int kmin) x)) (unat (?span + 1)) arr arr)"
    using False k by (simp add: counting_impl_def Let_def)
  show ?thesis
  proof (cases ?wide)
    case True
    then show ?thesis using e radix_int_sort_key [OF assms] by (simp add: radix_key_def)
  next
    case wide: False
    have s: "unat (?span + 1) = Suc (unat ?span)" using wide by (subst add.commute, intro unatSuc) (auto simp: add_eq_0_iff)
    have "unat (biased key (word_of_int kmin) x) < unat (?span + 1)" if "x \<in> set arr" for x
      using biased_sort_key(1) [OF ne k assms that] s by (simp add: word_le_nat_alt)
    then have "bucket_sort (\<lambda>x. unat (biased key (word_of_int kmin) x)) (unat (?span + 1)) arr arr =
      sort_key (\<lambda>x. unat (biased key (word_of_int kmin) x)) arr" by (intro bucket_sort_is_sort_key) auto
    then show ?thesis using e wide biased_sort_key(2) [OF ne k assms] by simp
  qed
qed (simp add: counting_impl_def sort_key_short)

subsection \<open>Floating-point keys\<close>

text \<open>The order of IEEE bit patterns: negative values by falling magnitude, then the others by rising magnitude, with
  \<open>-0\<close> just before \<open>+0\<close>.\<close>

definition float_rank :: "'w :: len word \<Rightarrow> int" where
  "float_rank u = (if 2 ^ (LENGTH('w) - 1) \<le> uint u then 2 ^ (LENGTH('w) - 1) - 1 - uint u else uint u)"

lemma float_top:
  fixes u :: "'w :: len word"
  shows "drop_bit (LENGTH('w) - 1) u = (if 2 ^ (LENGTH('w) - 1) \<le> uint u then 1 else 0)"
proof -
  define t where "t = LENGTH('w) - 1"
  have L: "LENGTH('w) = Suc t" by (simp add: t_def)
  have u: "0 \<le> uint u" "uint u < 2 * 2 ^ t" using uint_lt2p [of u] by (auto simp: L)
  have "uint u div 2 ^ t = (if 2 ^ t \<le> uint u then 1 else 0)"
  proof (cases "2 ^ t \<le> uint u")
    case True
    have "uint u div 2 ^ t = (uint u - 2 ^ t) div 2 ^ t + 1" using div_add_self2 [of "2 ^ t" "uint u - 2 ^ t"] by simp
    then show ?thesis using True u by (simp add: div_pos_pos_trivial)
  qed (use u in \<open>simp add: div_pos_pos_trivial\<close>)
  moreover have "uint (drop_bit t u) = uint u div 2 ^ t"
    by (simp add: unsigned_drop_bit_eq take_bit_int_eq_self [OF _ uint_lt2p] flip: drop_bit_eq_div)
  ultimately have "uint (drop_bit t u) = uint (if 2 ^ t \<le> uint u then 1 else 0 :: 'w word)" by simp
  then show ?thesis unfolding t_def by (simp add: word_uint_eq_iff)
qed

lemma float_key_cases:
  fixes u :: "'w :: len word"
  shows "float_key u = (if 2 ^ (LENGTH('w) - 1) \<le> uint u then NOT u else u XOR 2 ^ (LENGTH('w) - 1))"
  unfolding float_key_def Let_def float_top by (auto simp: push_bit_eq_mult)

lemma float_unkey_cases:
  fixes k :: "'w :: len word"
  shows "float_unkey k = (if 2 ^ (LENGTH('w) - 1) \<le> uint k then k XOR 2 ^ (LENGTH('w) - 1) else NOT k)"
  unfolding float_unkey_def Let_def float_top by (auto simp: push_bit_eq_mult)

lemma uint_float_key:
  fixes u :: "'w :: len word"
  shows "uint (float_key u) = float_rank u + 2 ^ (LENGTH('w) - 1)"
proof -
  define t where "t = LENGTH('w) - 1"
  have L: "LENGTH('w) = Suc t" by (simp add: t_def)
  have u: "0 \<le> uint u" "uint u < 2 * 2 ^ t" using uint_lt2p [of u] by (auto simp: L)
  have m: "uint (- 1 :: 'w word) = 2 * 2 ^ t - 1" by (simp add: unsigned_minus_1_eq_mask mask_eq_exp_minus_1 L)
  have "uint (NOT u) = 2 * 2 ^ t - 1 - uint u"
    using uint_sub_lem [of u "- 1"] m u by (simp add: not_eq_complement minus_diff_commute [of u 1])
  moreover have "uint (u XOR 2 ^ t) = uint u + 2 ^ t" if "\<not> 2 ^ t \<le> uint u"
  proof -
    have "drop_bit t u = 0" using float_top [of u] that by (simp add: t_def)
    then have "\<not> bit u t" by (simp add: bit_iff_odd_drop_bit)
    then have "u XOR 2 ^ t = u + 2 ^ t" by (simp add: disjunctive_add_eq_xor and_exp_eq_0_iff_not_bit)
    moreover have "uint (2 ^ t :: 'w word) = 2 ^ t"
      unfolding word_of_int_2p [symmetric] uint_word_of_int_eq using L by (simp add: take_bit_int_eq_self)
    ultimately show ?thesis using that uint_add_lem [of u "2 ^ t"] by (simp add: L)
  qed
  ultimately show ?thesis unfolding float_key_cases float_rank_def t_def [symmetric] by simp
qed

lemma float_key_inverse: "float_unkey (float_key u) = (u :: 'w :: len word)"
proof -
  have k: "uint (float_key u) = float_rank u + 2 ^ (LENGTH('w) - 1)" by (rule uint_float_key)
  show ?thesis
  proof (cases "2 ^ (LENGTH('w) - 1) \<le> uint u")
    case True
    then have "\<not> 2 ^ (LENGTH('w) - 1) \<le> uint (float_key u)" unfolding k by (simp add: float_rank_def)
    then show ?thesis unfolding float_unkey_cases using True by (simp add: float_key_cases)
  next
    case False
    then have "2 ^ (LENGTH('w) - 1) \<le> uint (float_key u)" unfolding k by (simp add: float_rank_def)
    then show ?thesis unfolding float_unkey_cases using False by (simp add: float_key_cases xor.assoc)
  qed
qed

lemma float_key_order:
  fixes u v :: "'w :: len word"
  shows "unat (float_key u) \<le> unat (float_key v) \<longleftrightarrow> float_rank u \<le> float_rank v"
proof -
  have "unat (float_key u) \<le> unat (float_key v) \<longleftrightarrow> uint (float_key u) \<le> uint (float_key v)"
    by (simp add: word_le_def flip: word_le_nat_alt)
  then show ?thesis by (simp add: uint_float_key)
qed

lemma byte_passes:
  fixes K :: "'a \<Rightarrow> 'w :: len word"
  assumes "8 \<le> LENGTH('w)"
  shows "fold (\<lambda>b arr. bucket_sort (\<lambda>e. byte_of b (K e)) 256 arr arr) [0..<m] arr = sort_key (\<lambda>x. unat (K x) mod 2 ^ (m * 8)) arr"
proof (induction m)
  case (Suc m)
  then show ?case
    using byte_pass [OF refl, of "sort_key (\<lambda>x. unat (K x) mod 2 ^ (m * 8)) arr" "\<lambda>x. unat (K x)" "m * 8" arr] assms
    by (simp add: byte_of_def byte_digit add.commute)
qed (simp add: sort_key_const)

lemma byte_passes_all:
  fixes K :: "'a \<Rightarrow> 'w :: len word"
  assumes "LENGTH('w) = 32 \<or> LENGTH('w) = 64"
  shows "fold (\<lambda>b arr. bucket_sort (\<lambda>e. byte_of b (K e)) 256 arr arr) [0..<LENGTH('w) div 8] arr = sort_key (\<lambda>x. unat (K x)) arr"
proof -
  have "8 \<le> LENGTH('w)" "LENGTH('w) div 8 * 8 = LENGTH('w)" using assms by auto
  then show ?thesis using byte_passes [of K "LENGTH('w) div 8" arr] by (simp add: unsigned_less)
qed

lemma sort_key_map: "sort_key f (map g xs) = map g (sort_key (\<lambda>x. f (g x)) xs)"
proof (rule properties_for_sort_key)
  show "mset (map g (sort_key (\<lambda>x. f (g x)) xs)) = mset (map g xs)" by simp
  show "sorted (map f (map g (sort_key (\<lambda>x. f (g x)) xs)))" using sorted_sort_key [of "\<lambda>x. f (g x)" xs] by (simp add: comp_def)
  show "filter (\<lambda>x. f k = f x) (map g (sort_key (\<lambda>x. f (g x)) xs)) = filter (\<lambda>x. f k = f x) (map g xs)" for k
    using sort_key_stable [of "\<lambda>x. f (g x)" "f k" xs] by (simp add: filter_map comp_def eq_commute [of "f k"])
qed

lemma fradix_key_sort_key:
  fixes key :: "'a \<Rightarrow> 'w :: len word"
  assumes "LENGTH('w) = 32 \<or> LENGTH('w) = 64"
  shows "fradix_key key arr = sort_key (\<lambda>x. float_rank (key x)) arr"
proof (cases "length arr < 2")
  case False
  have "fradix_key key arr = sort_key (\<lambda>x. unat (float_key (key x))) arr"
    using False byte_passes_all [OF assms] by (simp add: fradix_key_def Let_def)
  also have "\<dots> = sort_key (\<lambda>x. float_rank (key x)) arr" by (rule sort_key_same_order) (simp add: float_key_order)
  finally show ?thesis .
qed (simp add: fradix_key_def sort_key_short)

lemma fradix_sort_key:
  fixes arr :: "'w :: len word list"
  assumes "LENGTH('w) = 32 \<or> LENGTH('w) = 64"
  shows "fradix arr = sort_key float_rank arr"
proof (cases "length arr < 2")
  case False
  have "fradix arr = map float_unkey (sort_key unat (map float_key arr))"
    using False byte_passes_all [OF assms, of "\<lambda>x. x"] by (simp add: fradix_def Let_def)
  also have "\<dots> = sort_key (\<lambda>x. unat (float_key x)) arr" by (simp add: sort_key_map comp_def float_key_inverse)
  also have "\<dots> = sort_key float_rank arr" by (rule sort_key_same_order) (simp add: float_key_order)
  finally show ?thesis .
qed (simp add: fradix_def sort_key_short)

subsection \<open>The contract of the integer-key sorts\<close>

locale key_sorter =
  fixes ksrt :: "('a \<Rightarrow> int) \<Rightarrow> 'a list \<Rightarrow> 'a list"
  assumes ksrt_sort_key: "key_fits key xs \<Longrightarrow> ksrt key xs = sort_key key xs"
begin

lemma ksrt_correct:
  assumes "key_fits key xs"
  shows "mset (ksrt key xs) = mset xs \<and> sorted (map key (ksrt key xs)) \<and>
    (\<forall>c. filter (\<lambda>x. key x = c) (ksrt key xs) = filter (\<lambda>x. key x = c) xs)"
  using ksrt_sort_key [OF assms] sort_key_stable [of key _ xs] by simp

lemma ksrt_agrees_with_stable_sorter:
  assumes "key_fits key xs" "stable_sorter srt"
  shows "ksrt key xs = srt (\<lambda>x y. key x < key y) xs"
  using ksrt_sort_key [OF assms(1)] stable_sorter.srt_is_sort_key [OF assms(2), of key xs] by simp

end

interpretation rdx: key_sorter radix_key
  by unfold_locales (simp add: radix_key_def radix_int_sort_key)

interpretation cnt: key_sorter counting_key
  by unfold_locales (simp add: counting_key_def counting_impl_sort_key)

end
