(* ===== verification/Heap_Array.thy ===== *)
theory Heap_Array
  imports Sort_Heap
begin

text \<open>
  The array heaps: \<^verbatim>\<open>src/src/heap/binary_heap.hpp\<close> (a bounded max-heap) and \<^verbatim>\<open>src/src/heap/heapq.hpp\<close> (a growing min-heap), with
  the contract of a priority queue, \<open>prio_queue\<close>, and the loop \<^verbatim>\<open>drain_sorted\<close> of \<^verbatim>\<open>src/src/sort/extract.hpp\<close> as its client.
  The sifting loops are shown to be the one that heap sort uses.  Raw memory past the live elements is not part of the
  state: \<open>memory\<close> is the list of live elements.
\<close>

datatype heap_error = Library_error string | Wild_pointer

subsection \<open>Binary heap\<close>

record 'a binary_heap =
  memory :: "'a list"
  capacity :: nat

function bh_make_heap :: "'a :: linorder list \<Rightarrow> nat \<Rightarrow> 'a list" where
  "bh_make_heap mem j =
     (if j > 0 then
        let k = (j - 1) div 2
        in if \<not> mem ! k < mem ! j then mem else bh_make_heap (swap_at mem k j) k
      else mem)"
  by auto
termination by (relation "measure snd") auto

function bh_reduce_heap :: "'a :: linorder list \<Rightarrow> nat \<Rightarrow> 'a list" where
  "bh_reduce_heap mem j =
     (let left = 2 * j + 1; right = 2 * j + 2;
          max1 = (if left < length mem \<and> mem ! left > mem ! j then left else j);
          max = (if right < length mem \<and> mem ! right > mem ! max1 then right else max1)
      in if max = j then mem else bh_reduce_heap (swap_at mem j max) max)"
  by auto
termination by (relation "measure (\<lambda>(mem, j). length mem - j)") (auto split: if_splits)

declare bh_make_heap.simps [simp del] bh_reduce_heap.simps [simp del]

text \<open>The capacity is what fits into the block that the allocator hands out (\<^verbatim>\<open>immutable_resource.hpp\<close>, \<^verbatim>\<open>core_resource.hpp\<close>).  It is asked for the bytes of the elements, rounded up to the granularity
  of its policy (a page for \<^verbatim>\<open>allocator_serial\<close>); \<open>block k\<close> is the length of the block that the arena returns for \<open>k\<close> bytes, \<open>gran\<close> the granularity and
  \<open>elem\<close> the size of an element.  The number of bytes is taken to fit into 64 bits.\<close>

definition to_granularity :: "nat \<Rightarrow> nat \<Rightarrow> nat" where
  "to_granularity gran n = (if n = 0 then gran else if n mod gran \<noteq> 0 then n + (gran - n mod gran) else n)"

definition alloc_create :: "(nat \<Rightarrow> nat) \<Rightarrow> nat \<Rightarrow> nat \<Rightarrow> nat" where
  "alloc_create block gran n = block (to_granularity gran n)"

definition bh_new :: "(nat \<Rightarrow> nat) \<Rightarrow> nat \<Rightarrow> nat \<Rightarrow> nat \<Rightarrow> 'a binary_heap" where
  "bh_new block gran elem n = \<lparr>memory = [], capacity = alloc_create block gran (n * elem) div elem\<rparr>"


definition bh_insert :: "'a :: linorder binary_heap \<Rightarrow> 'a \<Rightarrow> 'a binary_heap" where
  "bh_insert h v =
     (if length (memory h) = capacity h then h
      else h\<lparr>memory := bh_make_heap (memory h @ [v]) (length (memory h))\<rparr>)"

definition bh_of_args :: "(nat \<Rightarrow> nat) \<Rightarrow> nat \<Rightarrow> nat \<Rightarrow> 'a :: linorder list \<Rightarrow> 'a binary_heap" where
  "bh_of_args block gran elem args = foldl bh_insert (bh_new block gran elem (length args)) args"

definition bh_clear :: "'a binary_heap \<Rightarrow> 'a binary_heap" where
  "bh_clear h = h\<lparr>memory := []\<rparr>"

definition bh_get :: "'a :: linorder binary_heap \<Rightarrow> heap_error + 'a \<times> 'a binary_heap" where
  "bh_get h =
     (if length (memory h) = 0 then Inl (Library_error ''micron::binary_heap::get() is empty'')
      else
        let v = memory h ! 0;
            len = length (memory h) - 1;
            mem = (if len \<noteq> 0 then (memory h)[0 := memory h ! len] else memory h)
        in Inr (v, h\<lparr>memory := bh_reduce_heap (take len mem) 0\<rparr>))"

definition bh_size :: "'a binary_heap \<Rightarrow> nat" where
  "bh_size h = length (memory h)"

definition bh_max_size :: "'a binary_heap \<Rightarrow> nat" where
  "bh_max_size h = capacity h"

definition bh_max :: "'a binary_heap \<Rightarrow> heap_error + 'a" where
  "bh_max h =
     (if length (memory h) = 0 then Inl (Library_error ''micron::binary_heap::max() is empty.'')
      else Inr (memory h ! 0))"

definition bh_for_each :: "('a \<Rightarrow> 's \<Rightarrow> 's) \<Rightarrow> 'a binary_heap \<Rightarrow> 's \<Rightarrow> 's" where
  "bh_for_each fn h s = fold (\<lambda>i. fn (memory h ! i)) [0..<length (memory h)] s"

text \<open>Move assignment: the target takes the source's memory, which is left empty.\<close>

definition bh_move_assign :: "'a binary_heap \<Rightarrow> 'a binary_heap \<times> 'a binary_heap" where
  "bh_move_assign src = (src, \<lparr>memory = [], capacity = 0\<rparr>)"

subsection \<open>Heap queue\<close>

type_synonym 'a heapq = "'a list"

function hq_sift_up :: "'a :: linorder heapq \<Rightarrow> nat \<Rightarrow> 'a heapq" where
  "hq_sift_up arr idx =
     (if idx > 0 then
        let par = (idx - 1) div 2
        in if arr ! idx < arr ! par then hq_sift_up (swap_at arr idx par) par else arr
      else arr)"
  by auto
termination by (relation "measure snd") auto

function hq_sift_down :: "'a :: linorder heapq \<Rightarrow> nat \<Rightarrow> 'a heapq" where
  "hq_sift_down arr idx =
     (let n = length arr; left = 2 * idx + 1; right = 2 * idx + 2;
          s1 = (if left < n \<and> arr ! left < arr ! idx then left else idx);
          smallest = (if right < n \<and> arr ! right < arr ! s1 then right else s1)
      in if smallest \<noteq> idx then hq_sift_down (swap_at arr idx smallest) smallest else arr)"
  by auto
termination by (relation "measure (\<lambda>(arr, idx). length arr - idx)") (auto split: if_splits)

declare hq_sift_up.simps [simp del] hq_sift_down.simps [simp del]

definition hq_copy :: "'a heapq \<Rightarrow> 'a heapq" where
  "hq_copy q = foldl (\<lambda>arr i. arr @ [q ! i]) [] [0..<length q]"


definition hq_of_vector :: "'a :: linorder list \<Rightarrow> 'a heapq" where
  "hq_of_vector v =
     (let arr = foldl (\<lambda>arr i. arr @ [v ! i]) [] [0..<length v]
      in fold (\<lambda>i arr. hq_sift_down arr i) (rev [0..<length arr div 2]) arr)"

definition hq_push :: "'a :: linorder heapq \<Rightarrow> 'a \<Rightarrow> 'a heapq" where
  "hq_push q val = (let arr = q @ [val] in hq_sift_up arr (length arr - 1))"

definition hq_pop :: "'a :: linorder heapq \<Rightarrow> heap_error + 'a \<times> 'a heapq" where
  "hq_pop q =
     (if q = [] then Inl (Library_error ''micron::heapq::pop() is empty'')
      else
        let min_val = q ! 0;
            arr = butlast (q[0 := last q])
        in Inr (min_val, if arr \<noteq> [] then hq_sift_down arr 0 else arr))"

definition hq_top :: "'a heapq \<Rightarrow> heap_error + 'a" where
  "hq_top q = (if q = [] then Inl (Library_error ''micron::heapq::top() is empty'') else Inr (q ! 0))"

definition hq_empty :: "'a heapq \<Rightarrow> bool" where
  "hq_empty q = (q = [])"

definition hq_size :: "'a heapq \<Rightarrow> nat" where
  "hq_size q = length q"

definition hq_data :: "'a heapq \<Rightarrow> 'a list" where
  "hq_data q = q"

definition hq_for_each :: "('a \<Rightarrow> 's \<Rightarrow> 's) \<Rightarrow> 'a heapq \<Rightarrow> 's \<Rightarrow> 's" where
  "hq_for_each fn q s = fold (\<lambda>i. fn (q ! i)) [0..<length q] s"

subsection \<open>Draining\<close>

text \<open>\<^verbatim>\<open>drain_sorted\<close> over a heap's \<open>size\<close> and its extraction; a run that never ends is \<open>None\<close>.\<close>

partial_function (option) drain_loop :: "('q \<Rightarrow> nat) \<Rightarrow> ('q \<Rightarrow> 'e + 'a \<times> 'q) \<Rightarrow> 'q \<Rightarrow> 'a list \<Rightarrow> ('e + 'a list \<times> 'q) option" where
  "drain_loop sz extr h out =
     (if sz h > 0 then
        case extr h of
          Inl e \<Rightarrow> Some (Inl e)
        | Inr (x, h') \<Rightarrow> drain_loop sz extr h' (out @ [x])
      else Some (Inr (out, h)))"

definition drain_sorted :: "('q \<Rightarrow> nat) \<Rightarrow> ('q \<Rightarrow> 'e + 'a \<times> 'q) \<Rightarrow> 'q \<Rightarrow> ('e + 'a list \<times> 'q) option" where
  "drain_sorted sz extr h = drain_loop sz extr h []"

subsection \<open>The contract of a priority queue\<close>

locale prio_queue =
  fixes wf :: "'q \<Rightarrow> bool" and elems :: "'q \<Rightarrow> 'a multiset" and above :: "'a \<Rightarrow> 'a \<Rightarrow> bool"
    and sz :: "'q \<Rightarrow> nat" and ins :: "'q \<Rightarrow> 'a \<Rightarrow> 'q" and room :: "'q \<Rightarrow> bool" and extr :: "'q \<Rightarrow> heap_error + 'a \<times> 'q"
  assumes above_weak: "strict_weak above"
    and sz_elems: "wf q \<Longrightarrow> sz q = size (elems q)"
    and insert_inv: "wf q \<Longrightarrow> wf (ins q x)"
    and insert_elems: "wf q \<Longrightarrow> room q \<Longrightarrow> elems (ins q x) = add_mset x (elems q)"
    and extract_empty: "wf q \<Longrightarrow> elems q = {#} \<Longrightarrow> \<exists>e. extr q = Inl e"
    and extract_first: "wf q \<Longrightarrow> elems q \<noteq> {#} \<Longrightarrow>
      \<exists>x q'. extr q = Inr (x, q') \<and> wf q' \<and> elems q = add_mset x (elems q') \<and> (\<forall>y\<in>#elems q. \<not> above y x)"
begin

lemma drain_loop_sorts:
  assumes "wf q"
  shows "\<exists>xs q'. drain_loop sz extr q out = Some (Inr (out @ xs, q')) \<and> mset xs = elems q \<and>
    sorted_by above xs \<and> wf q' \<and> elems q' = {#}"
  using assms
proof (induction "size (elems q)" arbitrary: q out)
  case 0
  then have "drain_loop sz extr q out = Some (Inr (out, q))" by (simp add: drain_loop.simps sz_elems)
  then show ?case using 0 by (intro exI [of _ "[]"] exI [of _ q]) (simp add: sorted_by_def)
next
  case (Suc n)
  then have ne: "elems q \<noteq> {#}" by auto
  obtain x q1 where x: "extr q = Inr (x, q1)" "wf q1" "elems q = add_mset x (elems q1)" "\<forall>y\<in>#elems q. \<not> above y x"
    using extract_first [OF Suc.prems ne] by blast
  obtain xs q' where IH: "drain_loop sz extr q1 (out @ [x]) = Some (Inr ((out @ [x]) @ xs, q'))" "mset xs = elems q1"
    "sorted_by above xs" "wf q'" "elems q' = {#}"
    using Suc.hyps(1) [of q1 "out @ [x]"] Suc.hyps(2) x by auto
  have "drain_loop sz extr q out = Some (Inr (out @ (x # xs), q'))"
    using IH(1) x(1) Suc.hyps(2) Suc.prems by (subst drain_loop.simps) (simp add: sz_elems)
  moreover have "\<forall>y\<in>set xs. \<not> above y x" using x(3,4) IH(2) by (metis set_mset_mset union_single_eq_member add_mset_add_single union_iff)
  ultimately show ?case using IH x(3) by (intro exI [of _ "x # xs"] exI [of _ q']) (auto simp: sorted_by_def)
qed

lemma drain_sorted_sorts:
  assumes "wf q"
  shows "\<exists>xs q'. drain_sorted sz extr q = Some (Inr (xs, q')) \<and> mset xs = elems q \<and> sorted_by above xs \<and> elems q' = {#}"
  using drain_loop_sorts [OF assms, of "[]"] by (auto simp: drain_sorted_def)

lemma insert_all_inv: "wf q \<Longrightarrow> wf (foldl ins q xs)"
  by (induction xs arbitrary: q) (auto simp: insert_inv)

end

subsection \<open>Sifting up\<close>

function up_heap :: "('a \<Rightarrow> 'a \<Rightarrow> bool) \<Rightarrow> 'a list \<Rightarrow> nat \<Rightarrow> 'a list" where
  "up_heap cmp a j = (if j > 0 \<and> cmp (a ! parent j) (a ! j) then up_heap cmp (swap_at a (parent j) j) (parent j) else a)"
  by auto
termination by (relation "measure (\<lambda>(_, _, j). j)") (auto simp: parent_less)

declare up_heap.simps [simp del]

lemma bh_make_heap_up: "bh_make_heap mem j = up_heap (<) mem j"
proof (induction mem j rule: bh_make_heap.induct)
  case (1 mem j)
  then show ?case by (subst bh_make_heap.simps, subst up_heap.simps) (auto simp: Let_def parent_def)
qed

lemma swap_at_commute: "swap_at xs i j = swap_at xs j i"
  by (cases "i = j") (auto simp: swap_at_def list_update_swap)

lemma hq_sift_up_up: "hq_sift_up arr idx = up_heap (\<lambda>x y. y < x) arr idx"
proof (induction arr idx rule: hq_sift_up.induct)
  case (1 arr idx)
  then show ?case
    by (subst hq_sift_up.simps, subst up_heap.simps) (auto simp: Let_def parent_def swap_at_commute [of _ idx])
qed

lemma bh_reduce_heap_sift: "bh_reduce_heap mem j = sift_down (<) mem j (length mem)"
proof (induction mem j rule: bh_reduce_heap.induct)
  case (1 mem j)
  then show ?case by (subst bh_reduce_heap.simps, subst sift_down.simps) (auto simp: Let_def split: if_splits)
qed

lemma hq_sift_down_sift: "hq_sift_down arr idx = sift_down (\<lambda>x y. y < x) arr idx (length arr)"
proof (induction arr idx rule: hq_sift_down.induct)
  case (1 arr idx)
  then show ?case by (subst hq_sift_down.simps, subst sift_down.simps) (auto simp: Let_def split: if_splits)
qed

context strict_weak
begin

lemma up_heap_spec:
  assumes "n \<le> length a" "j < n"
    "\<And>c. 0 < c \<Longrightarrow> c < n \<Longrightarrow> c \<noteq> j \<Longrightarrow> \<not> cmp (a ! parent c) (a ! c)"
    "\<And>c. 0 < c \<Longrightarrow> c < n \<Longrightarrow> parent c = j \<Longrightarrow> 0 < j \<Longrightarrow> \<not> cmp (a ! parent j) (a ! c)"
  shows "hp cmp 0 n (up_heap cmp a j) \<and> seg_perm 0 n a (up_heap cmp a j)"
  using assms
proof (induction j arbitrary: a rule: less_induct)
  case (less j)
  note prems = less.prems
  show ?case
  proof (cases "j > 0 \<and> cmp (a ! parent j) (a ! j)")
    case False
    then have "hp cmp 0 n a" using prems(3) unfolding hp_def by metis
    moreover have "up_heap cmp a j = a" using False by (subst up_heap.simps) auto
    ultimately show ?thesis by simp
  next
    case True
    let ?p = "parent j" and ?a = "swap_at a (parent j) j"
    have p: "?p < j" using True parent_less by simp
    have nth: "?a ! k = (if k = ?p then a ! j else if k = j then a ! ?p else a ! k)" for k
      using p prems(1,2) by (intro nth_swap_at) auto
    have A: "\<not> cmp (?a ! parent c) (?a ! c)" if c: "0 < c" "c < n" "c \<noteq> ?p" for c
    proof (cases "c = j")
      case True
      then show ?thesis using \<open>j > 0 \<and> _\<close> asym nth p by auto
    next
      case cj: False
      consider "parent c = j" | "parent c = ?p" "parent c \<noteq> j" | "parent c \<noteq> ?p" "parent c \<noteq> j" by blast
      then show ?thesis
      proof cases
        case 1
        then show ?thesis using prems(4) [of c] c cj True nth p by simp
      next
        case 2
        have "\<not> cmp (a ! ?p) (a ! c)" using prems(3) [OF c(1,2) cj] 2 by simp
        then have "\<not> cmp (a ! j) (a ! c)" using True asym neg_trans by blast
        then show ?thesis using 2 c cj nth by simp
      next
        case 3
        then show ?thesis using prems(3) [OF c(1,2) cj] nth c cj by simp
      qed
    qed
    have B: "\<not> cmp (?a ! parent ?p) (?a ! c)" if c: "0 < c" "c < n" "parent c = ?p" "0 < ?p" for c
    proof -
      have pp: "parent ?p < ?p" using that parent_less by simp
      have up: "\<not> cmp (a ! parent ?p) (a ! ?p)" using prems(3) [of ?p] that p prems(2) by simp
      show ?thesis
      proof (cases "c = j")
        case True
        then show ?thesis using up pp p nth by simp
      next
        case False
        then have "\<not> cmp (a ! ?p) (a ! c)" using prems(3) [of c] c by simp
        then have "\<not> cmp (a ! parent ?p) (a ! c)" using up neg_trans by blast
        moreover have "c \<noteq> ?p" using parent_less [of c] c by auto
        ultimately show ?thesis using False pp p nth by simp
      qed
    qed
    have IH: "hp cmp 0 n (up_heap cmp ?a ?p) \<and> seg_perm 0 n ?a (up_heap cmp ?a ?p)"
      using less.IH [OF p, of ?a] p prems(1,2) A B by simp
    moreover have "seg_perm 0 n a ?a" using p prems(1,2) by (intro seg_perm_swap) auto
    ultimately have "seg_perm 0 n a (up_heap cmp ?a ?p)" using seg_perm_trans by blast
    then show ?thesis using IH True by (subst (1 2) up_heap.simps) simp
  qed
qed

lemma push_heap:
  assumes "hp cmp 0 (length a) a"
  shows "hp cmp 0 (Suc (length a)) (up_heap cmp (a @ [x]) (length a)) \<and> mset (up_heap cmp (a @ [x]) (length a)) = add_mset x (mset a)"
proof -
  have "hp cmp 0 (Suc (length a)) (up_heap cmp (a @ [x]) (length a)) \<and>
    seg_perm 0 (Suc (length a)) (a @ [x]) (up_heap cmp (a @ [x]) (length a))"
  proof (rule up_heap_spec)
    show "\<not> cmp ((a @ [x]) ! parent c) ((a @ [x]) ! c)" if "0 < c" "c < Suc (length a)" "c \<noteq> length a" for c
      using assms that parent_less [of c] by (auto simp: hp_def nth_append)
    show "\<not> cmp ((a @ [x]) ! parent (length a)) ((a @ [x]) ! c)" if "0 < c" "c < Suc (length a)" "parent c = length a" for c
      using parent_less [of c] that by simp
  qed auto
  then show ?thesis using seg_perm_mset by fastforce
qed

text \<open>Removing the root: the last element takes its place and is sifted down.\<close>

lemma pop_heap:
  assumes "hp cmp 0 (length a) a" "a \<noteq> []" "m = length a - 1" "b = take m (a[0 := a ! m])"
  shows "hp cmp 0 m (sift_down cmp b 0 m)" "mset a = add_mset (a ! 0) (mset (sift_down cmp b 0 m))"
    "length (sift_down cmp b 0 m) = m" "\<forall>y\<in>set a. \<not> cmp (a ! 0) y"
proof -
  have m: "m < length a" "Suc m = length a" using assms(2,3) by auto
  have lb: "length b = m" using assms(4) m by simp
  have nb: "b ! k = (if k = 0 then a ! m else a ! k)" if "k < m" for k using that assms(2,4) m by (auto simp: nth_list_update)
  have s: "hp cmp 0 m (sift_down cmp b 0 m) \<and> seg_perm 0 m b (sift_down cmp b 0 m)"
  proof (cases "m = 0")
    case True
    then have "sift_down cmp b 0 m = b" by (subst sift_down.simps) simp
    then show ?thesis using True by (simp add: hp_def)
  next
    case False
    show ?thesis
    proof (rule sift_down_spec)
      show "\<not> cmp (b ! parent c) (b ! c)" if "0 < c" "c < m" "0 \<le> parent c" "parent c \<noteq> 0" for c
        using assms(1) that parent_less [of c] nb m by (simp add: hp_def)
    qed (use False lb in auto)
  qed
  then show "hp cmp 0 m (sift_down cmp b 0 m)" "length (sift_down cmp b 0 m) = m" using lb seg_perm_length by auto
  have "mset a = add_mset (a ! 0) (mset b)"
  proof (cases "m = 0")
    case True
    then have "length a = 1" using m by simp
    then show ?thesis using True lb by (cases a) auto
  next
    case False
    obtain x ys where a: "a = x # ys" using assms(2) by (cases a) auto
    then have "ys \<noteq> []" "m = length ys" using False m by auto
    then have "b = last ys # butlast ys" using assms(4) a by (simp add: last_conv_nth butlast_conv_take take_Cons' nth_Cons')
    moreover have "mset ys = add_mset (last ys) (mset (butlast ys))"
      using \<open>ys \<noteq> []\<close> by (metis append_butlast_last_id mset_append mset.simps union_mset_add_mset_right add.right_neutral)
    ultimately show ?thesis using a by simp
  qed
  then show "mset a = add_mset (a ! 0) (mset (sift_down cmp b 0 m))" using s seg_perm_mset by metis
  show "\<forall>y\<in>set a. \<not> cmp (a ! 0) y" using hp_max [OF assms(1)] by (auto simp: in_set_conv_nth)
qed

end

subsection \<open>Both heaps keep the contract\<close>

definition bh_inv :: "'a :: linorder binary_heap \<Rightarrow> bool" where
  "bh_inv h \<longleftrightarrow> length (memory h) \<le> capacity h \<and> hp (<) 0 (length (memory h)) (memory h)"

definition hq_inv :: "'a :: linorder heapq \<Rightarrow> bool" where
  "hq_inv q \<longleftrightarrow> hp (\<lambda>x y. y < x) 0 (length q) q"

lemma strict_weak_less: "strict_weak ((<) :: 'a :: linorder \<Rightarrow> 'a \<Rightarrow> bool)"
  by unfold_locales auto

lemma strict_weak_greater: "strict_weak (\<lambda>x y :: 'a :: linorder. y < x)"
  by unfold_locales auto

lemma bh_insert_full: "length (memory h) = capacity h \<Longrightarrow> bh_insert h v = h"
  by (simp add: bh_insert_def)

lemma bh_insert_room:
  assumes "bh_inv h" "length (memory h) < capacity h"
  shows "bh_inv (bh_insert h v) \<and> mset (memory (bh_insert h v)) = add_mset v (mset (memory h)) \<and> capacity (bh_insert h v) = capacity h"
proof -
  let ?m = "bh_make_heap (memory h @ [v]) (length (memory h))"
  have "hp (<) 0 (Suc (length (memory h))) ?m \<and> mset ?m = add_mset v (mset (memory h))"
    using strict_weak.push_heap [OF strict_weak_less, of "memory h" v] assms by (simp add: bh_make_heap_up bh_inv_def)
  moreover from this have "length ?m = Suc (length (memory h))" by (metis size_add_mset size_mset)
  ultimately show ?thesis using assms by (simp add: bh_insert_def bh_inv_def)
qed

lemma bh_insert_inv: "bh_inv h \<Longrightarrow> bh_inv (bh_insert h v)"
  using bh_insert_room [of h v] bh_insert_full [of h v] by (cases "length (memory h) < capacity h") (auto simp: bh_inv_def)

lemma bh_get_some:
  assumes "bh_inv h" "memory h \<noteq> []"
  shows "\<exists>h'. bh_get h = Inr (memory h ! 0, h') \<and> bh_inv h' \<and> capacity h' = capacity h \<and>
    mset (memory h) = add_mset (memory h ! 0) (mset (memory h')) \<and> (\<forall>y\<in>set (memory h). y \<le> memory h ! 0)"
proof -
  let ?a = "memory h"
  let ?len = "length ?a - 1"
  let ?b = "take ?len (?a[0 := ?a ! ?len])"
  have b: "take ?len (if ?len \<noteq> 0 then ?a[0 := ?a ! ?len] else ?a) = ?b" by simp
  have hp: "hp (<) 0 (length ?a) ?a" using assms(1) by (simp add: bh_inv_def)
  have lb: "length ?b = ?len" by simp
  note p = strict_weak.pop_heap [OF strict_weak_less hp assms(2) refl refl]
  have "bh_get h = Inr (?a ! 0, h\<lparr>memory := sift_down (<) ?b 0 ?len\<rparr>)"
    using assms(2) unfolding bh_get_def Let_def b bh_reduce_heap_sift lb by simp
  then show ?thesis using p assms by (intro exI [of _ "h\<lparr>memory := sift_down (<) ?b 0 ?len\<rparr>"]) (auto simp: bh_inv_def not_less)
qed

interpretation bhp: prio_queue bh_inv "\<lambda>h. mset (memory h)" "\<lambda>x y. y < x" bh_size bh_insert "\<lambda>h. length (memory h) < capacity h" bh_get
proof unfold_locales
  fix q :: "'a binary_heap"
  assume "bh_inv q" "mset (memory q) \<noteq> {#}"
  then show "\<exists>x q'. bh_get q = Inr (x, q') \<and> bh_inv q' \<and> mset (memory q) = add_mset x (mset (memory q')) \<and>
      (\<forall>y\<in>#mset (memory q). \<not> x < y)"
    using bh_get_some [of q] by (auto simp: not_less)
qed (auto simp: bh_size_def bh_insert_inv bh_insert_room bh_get_def)

lemma hq_push_spec:
  assumes "hq_inv q"
  shows "hq_inv (hq_push q v) \<and> mset (hq_push q v) = add_mset v (mset q)"
proof -
  have "hp (\<lambda>x y. y < x) 0 (Suc (length q)) (hq_push q v) \<and> mset (hq_push q v) = add_mset v (mset q)"
    using strict_weak.push_heap [OF strict_weak_greater, of q v] assms by (simp add: hq_push_def hq_sift_up_up hq_inv_def)
  moreover from this have "length (hq_push q v) = Suc (length q)" by (metis size_add_mset size_mset)
  ultimately show ?thesis by (simp add: hq_inv_def)
qed

lemma hq_pop_some:
  assumes "hq_inv q" "q \<noteq> []"
  shows "\<exists>q'. hq_pop q = Inr (q ! 0, q') \<and> hq_inv q' \<and> mset q = add_mset (q ! 0) (mset q') \<and> (\<forall>y\<in>set q. q ! 0 \<le> y)"
proof -
  let ?m = "length q - 1"
  let ?b = "take ?m (q[0 := q ! ?m])"
  have b: "butlast (q[0 := last q]) = ?b" using assms(2) by (simp add: butlast_conv_take last_conv_nth)
  have lb: "length ?b = ?m" by simp
  have e: "sift_down (\<lambda>x y. y < x) ?b 0 ?m = ?b" if "?b = []" using that assms(2) by (subst sift_down.simps) simp
  note p = strict_weak.pop_heap [OF strict_weak_greater, of q, OF _ assms(2) refl refl]
  have "hq_pop q = Inr (q ! 0, sift_down (\<lambda>x y. y < x) ?b 0 ?m)"
    using assms(2) e unfolding hq_pop_def Let_def b hq_sift_down_sift lb by simp
  then show ?thesis using p assms
    by (intro exI [of _ "sift_down (\<lambda>x y. y < x) ?b 0 ?m"]) (auto simp: hq_inv_def not_less)
qed

interpretation hqp: prio_queue hq_inv mset "(<)" hq_size hq_push "\<lambda>_. True" hq_pop
proof unfold_locales
  fix q :: "'a heapq"
  assume "hq_inv q" "mset q \<noteq> {#}"
  then show "\<exists>x q'. hq_pop q = Inr (x, q') \<and> hq_inv q' \<and> mset q = add_mset x (mset q') \<and> (\<forall>y\<in>#mset q. \<not> y < x)"
    using hq_pop_some [of q] by (auto simp: not_less)
qed (auto simp: hq_size_def hq_push_spec hq_pop_def)

text \<open>Building a heap queue from a vector heapifies a copy of it.\<close>

lemma copy_loop: "foldl (\<lambda>arr i. arr @ [v ! i]) [] [0..<n] = map ((!) v) [0..<n]"
  by (induction n) auto

lemma hq_copy_id: "hq_copy q = q"
  by (simp add: hq_copy_def copy_loop map_nth)

lemma length_sift_down_eq [simp]: "length (sift_down cmp a r n) = length a"
proof (induction cmp a r n rule: sift_down.induct)
  case (1 cmp a r n)
  then show ?case by (subst sift_down.simps) (auto simp: Let_def split: if_splits)
qed

lemma hq_of_vector_make_heap: "hq_of_vector v = make_heap (\<lambda>x y. y < x) v (length v)"
proof -
  have "fold (\<lambda>i arr. hq_sift_down arr i) js a = fold (\<lambda>i arr. sift_down (\<lambda>x y. y < x) arr i (length v)) js a"
    if "length a = length v" for a :: "'a list" and js
    using that by (induction js arbitrary: a) (auto simp: hq_sift_down_sift)
  then show ?thesis by (auto simp: hq_of_vector_def make_heap_def copy_loop map_nth Let_def)
qed

lemma hq_of_vector_spec: "hq_inv (hq_of_vector v) \<and> mset (hq_of_vector v) = mset v"
proof -
  have m: "hp (\<lambda>x y. y < x) 0 (length v) (hq_of_vector v) \<and> seg_perm 0 (length v) v (hq_of_vector v)"
    unfolding hq_of_vector_make_heap by (rule strict_weak.make_heap_spec [OF strict_weak_greater order.refl])
  then show ?thesis using seg_perm_mset seg_perm_length by (metis hq_inv_def)
qed

subsection \<open>Runs and the multiset specification\<close>













lemma bh_empty_errors:
  "memory h = [] \<Longrightarrow> bh_get h = Inl (Library_error ''micron::binary_heap::get() is empty'') \<and>
     bh_max h = Inl (Library_error ''micron::binary_heap::max() is empty.'')"
  by (simp add: bh_get_def bh_max_def)

text \<open>C21: A bounded heap that satisfies its invariant implements a bounded multiset: an insertion adds the value while
  there is room and changes nothing when it is full, \<open>max\<close> shows and \<open>get\<close> removes the maximum, and both report an error on
  the empty heap.\<close>

theorem binary_heap_refines_multiset:
  assumes "bh_inv h"
  shows "mset (memory (bh_insert h v)) = (if bh_size h < bh_max_size h then add_mset v (mset (memory h)) else mset (memory h)) \<and>
    (if memory h = []
     then bh_get h = Inl (Library_error ''micron::binary_heap::get() is empty'') \<and>
       bh_max h = Inl (Library_error ''micron::binary_heap::max() is empty.'')
     else bh_max h = Inr (Max (set (memory h))) \<and>
       (\<exists>h'. bh_get h = Inr (Max (set (memory h)), h') \<and> mset (memory h') = mset (memory h) - {#Max (set (memory h))#}))"
proof
  show "mset (memory (bh_insert h v)) = (if bh_size h < bh_max_size h then add_mset v (mset (memory h)) else mset (memory h))"
    using bh_insert_room [OF assms] bh_insert_full [of h v] assms by (auto simp: bh_size_def bh_max_size_def bh_inv_def)
  have "bh_max h = Inr (Max (set (memory h))) \<and>
      (\<exists>h'. bh_get h = Inr (Max (set (memory h)), h') \<and> mset (memory h') = mset (memory h) - {#Max (set (memory h))#})"
    if ne: "memory h \<noteq> []"
  proof -
    obtain h' where h': "bh_get h = Inr (memory h ! 0, h')" "mset (memory h) = add_mset (memory h ! 0) (mset (memory h'))"
      "\<forall>y\<in>set (memory h). y \<le> memory h ! 0" using bh_get_some [OF assms ne] by blast
    have m: "Max (set (memory h)) = memory h ! 0" using ne h'(3) by (intro Max_eqI) auto
    show ?thesis unfolding m using h'(1,2) ne by (simp add: bh_max_def)
  qed
  then show "if memory h = []
     then bh_get h = Inl (Library_error ''micron::binary_heap::get() is empty'') \<and>
       bh_max h = Inl (Library_error ''micron::binary_heap::max() is empty.'')
     else bh_max h = Inr (Max (set (memory h))) \<and>
       (\<exists>h'. bh_get h = Inr (Max (set (memory h)), h') \<and> mset (memory h') = mset (memory h) - {#Max (set (memory h))#})"
    using bh_empty_errors [of h] by (cases "memory h = []") simp_all
qed

text \<open>Three elements of 1200 bytes fill a page of 4096.\<close>

theorem binary_heap_refines_multiset_witness:
  "mset (memory (bh_insert (bh_of_args (\<lambda>k. k) 4096 1200 [2, 5, 3 :: int]) 9)) = {#2, 3, 5#} \<and>
   (\<exists>h'. bh_get (bh_of_args (\<lambda>k. k) 4096 1200 [2, 5, 3 :: int]) = Inr (5, h') \<and> mset (memory h') = {#2, 3#}) \<and>
   bh_get (bh_clear (bh_of_args (\<lambda>k. k) 4096 1200 [2, 5, 3 :: int])) = Inl (Library_error ''micron::binary_heap::get() is empty'')"
proof -
  let ?h = "bh_of_args (\<lambda>k. k) 4096 1200 [2, 5, 3 :: int]"
  have m: "memory ?h = [5, 2, 3]" "capacity ?h = 3"
    by (simp_all add: bh_of_args_def bh_new_def alloc_create_def to_granularity_def bh_insert_def bh_make_heap.simps swap_at_def)
  have i: "bh_inv ?h" using m by (auto simp: bh_inv_def hp_def parent_def less_Suc_eq numeral_3_eq_3)
  have c: "bh_inv (bh_clear ?h)" by (simp add: bh_inv_def bh_clear_def hp_def)
  show ?thesis
    using binary_heap_refines_multiset [OF i, of 9] binary_heap_refines_multiset [OF c, of 9] m
    by (auto simp: bh_size_def bh_max_size_def bh_clear_def add_mset_commute)
qed

text \<open>C33: A heap queue implements a multiset: \<open>push\<close> adds, \<open>top\<close> shows and \<open>pop\<close> removes the minimum, both report an error on
  the empty queue, and the constructor from a vector heapifies its elements.\<close>

theorem heapq_refines_multiset:
  assumes "hq_inv q"
  shows "hq_inv (hq_push q v) \<and> mset (hq_push q v) = add_mset v (mset q) \<and>
    (if q = []
     then hq_pop q = Inl (Library_error ''micron::heapq::pop() is empty'') \<and> hq_top q = Inl (Library_error ''micron::heapq::top() is empty'')
     else hq_top q = Inr (Min (set q)) \<and>
       (\<exists>q'. hq_pop q = Inr (Min (set q), q') \<and> hq_inv q' \<and> mset q' = mset q - {#Min (set q)#})) \<and>
    hq_inv (hq_of_vector xs) \<and> mset (hq_of_vector xs) = mset xs"
proof -
  have "hq_top q = Inr (Min (set q)) \<and> (\<exists>q'. hq_pop q = Inr (Min (set q), q') \<and> hq_inv q' \<and> mset q' = mset q - {#Min (set q)#})"
    if ne: "q \<noteq> []"
  proof -
    obtain q' where q': "hq_pop q = Inr (q ! 0, q')" "hq_inv q'" "mset q = add_mset (q ! 0) (mset q')" "\<forall>y\<in>set q. q ! 0 \<le> y"
      using hq_pop_some [OF assms ne] by blast
    have m: "Min (set q) = q ! 0" using ne q'(4) by (intro Min_eqI) auto
    show ?thesis unfolding m using q' ne by (simp add: hq_top_def)
  qed
  moreover have "q = [] \<Longrightarrow> hq_pop q = Inl (Library_error ''micron::heapq::pop() is empty'') \<and>
    hq_top q = Inl (Library_error ''micron::heapq::top() is empty'')" by (simp add: hq_pop_def hq_top_def)
  ultimately show ?thesis using hq_push_spec [OF assms, of v] hq_of_vector_spec [of xs] by presburger
qed

theorem heapq_refines_multiset_witness:
  "\<exists>q'. hq_pop (hq_of_vector [4, 2, 7 :: int]) = Inr (2, q') \<and> mset q' = {#4, 7#}"
proof -
  have e: "hq_of_vector [4, 2, 7 :: int] = [2, 4, 7]"
    by (simp add: hq_of_vector_def hq_sift_down.simps swap_at_def upt_rec Let_def)
  have "hq_inv [2, 4, 7 :: int]" using hq_of_vector_spec [of "[4, 2, 7 :: int]"] e by simp
  then show ?thesis using heapq_refines_multiset [of "[2, 4, 7 :: int]" 0 "[] :: int list"] e by auto
qed

end
