(* ===== verification/Sort_Results.thy ===== *)
theory Sort_Results
  imports Sort_Quick Sort_Merge Sort_Radix Heap_Array
begin

text \<open>
  What the sorting headers promise together: correctness of every comparison sort, stability, the sorts by key, selection,
  and the overloads that sort a prefix.
\<close>

section \<open>Shared facts\<close>

lemma sorted_by_take: "sorted_by cmp xs \<Longrightarrow> sorted_by cmp (take n xs)"
  by (auto simp: sorted_by_nth)

text \<open>An array split at \<open>k\<close> by rank: sorting both sides gives the sorted array.\<close>

lemma sort_split:
  fixes r :: "'a :: linorder list"
  assumes "k \<le> length r" "\<And>i j. i < k \<Longrightarrow> k \<le> j \<Longrightarrow> j < length r \<Longrightarrow> r ! i \<le> r ! j"
  shows "sort r = sort (take k r) @ sort (drop k r)"
proof (rule properties_for_sort)
  have "x \<le> y" if xy: "x \<in> set (take k r)" "y \<in> set (drop k r)" for x y
  proof -
    obtain i where i: "i < k" "x = r ! i" using xy(1) assms(1) by (auto simp: in_set_conv_nth)
    obtain j where j: "j < length r - k" "y = r ! (k + j)" using xy(2) by (auto simp: in_set_conv_nth)
    show ?thesis using assms(2) [of i "k + j"] i j by simp
  qed
  then show "sorted (sort (take k r) @ sort (drop k r))" by (simp add: sorted_append)
  show "mset (sort (take k r) @ sort (drop k r)) = mset r"
    using arg_cong [OF append_take_drop_id [of k r], of mset] by (simp del: append_take_drop_id)
qed

lemma nth_element_sort:
  fixes arr :: "'a :: linorder list"
  assumes "k < length arr"
  shows "mset (nth_element (<) arr k) = mset arr \<and> nth_element (<) arr k ! k = sort arr ! k \<and>
    (\<forall>i < k. nth_element (<) arr k ! i \<le> nth_element (<) arr k ! k)"
proof -
  let ?r = "nth_element (<) arr k"
  have m: "mset ?r = mset arr" and s: "nth_split (<) 0 k (length arr - 1) ?r"
    using strict_weak.nth_element_spec [OF strict_weak_less assms] by auto
  have l: "length ?r = length arr" using m mset_eq_length by blast
  have left: "?r ! i \<le> ?r ! k" if "i < k" for i using s that by (auto simp: nth_split_def not_less)
  have right: "?r ! k \<le> ?r ! j" if "k < j" "j < length arr" for j using s that by (auto simp: nth_split_def not_less)
  have "?r ! i \<le> ?r ! j" if "i < k" "k \<le> j" "j < length ?r" for i j
    using left [OF that(1)] right [of j] that l by (cases "j = k") (auto intro: order.trans)
  then have e1: "sort ?r = sort (take k ?r) @ sort (drop k ?r)" using assms l by (intro sort_split) auto
  have d: "drop k ?r = ?r ! k # drop (Suc k) ?r" using assms l by (simp add: Cons_nth_drop_Suc)
  have "sort (drop k ?r) = sort (take 1 (drop k ?r)) @ sort (drop 1 (drop k ?r))"
  proof (rule sort_split)
    show "drop k ?r ! i \<le> drop k ?r ! j" if "i < 1" "1 \<le> j" "j < length (drop k ?r)" for i j
      using right [of "k + j"] that l assms by simp
  qed (use assms l in simp)
  then have "sort (drop k ?r) ! 0 = ?r ! k" using d by simp
  then have "sort ?r ! k = ?r ! k" unfolding e1 using assms l by (simp add: nth_append)
  moreover have "sort ?r = sort arr" using m by (metis properties_for_sort mset_sort sorted_sort)
  ultimately show ?thesis using m left by simp
qed

lemma quickselect_sort:
  fixes arr :: "'a :: linorder list"
  assumes "k < length arr"
  shows "quickselect_less arr k = Some (nth_element_less arr k, sort arr ! k)"
proof -
  have "length (nth_element (<) arr k) = length arr" using nth_element_sort [OF assms] mset_eq_length by blast
  then show ?thesis using nth_element_sort [OF assms] assms by (simp add: quickselect_less_def nth_element_less_def Let_def)
qed

lemma partial_sort_sort:
  fixes arr :: "'a :: linorder list"
  assumes "m \<le> length arr"
  shows "mset (partial_sort (<) arr m) = mset arr \<and> take m (partial_sort (<) arr m) = take m (sort arr)"
proof (cases "m = 0")
  case False
  let ?r = "partial_sort (<) arr m"
  have s: "mset ?r = mset arr" "ord_seg (<) 0 0 m ?r" "\<forall>i j. i < m \<longrightarrow> m \<le> j \<longrightarrow> j < length arr \<longrightarrow> \<not> ?r ! j < ?r ! i"
    using strict_weak.partial_sort_spec [OF strict_weak_less assms] False by auto
  have l: "length ?r = length arr" using s(1) mset_eq_length by blast
  have "sort ?r = sort (take m ?r) @ sort (drop m ?r)" using s(3) assms l by (intro sort_split) (auto simp: not_less)
  moreover have "sorted (take m ?r)"
    using s(2) l assms by (auto simp: sorted_iff_nth_mono_less ord_seg_def not_less)
  moreover have "sort ?r = sort arr" using s(1) by (metis properties_for_sort mset_sort sorted_sort)
  ultimately show ?thesis using s(1) l assms by (simp add: sort_key_id_if_sorted sorted_sort_id)
qed (simp add: partial_sort_def Let_def)

lemma prefix_of_append:
  assumes "ys' = ys @ drop n xs" "mset ys = mset (take n xs)" "sorted_by cmp ys"
  shows "sorts_prefix cmp n xs ys'"
proof -
  have "length ys = length (take n xs)" using assms(2) mset_eq_length by blast
  then show ?thesis using assms by (cases "n \<le> length xs") (auto simp: sorts_prefix_def)
qed

lemma stable_sort_of_prefix: "ys' = ys @ drop n xs \<Longrightarrow> stable_sort_of cmp (take n xs) ys \<Longrightarrow> sorts_prefix cmp n xs ys'"
  by (rule prefix_of_append [of ys' ys]) (simp_all add: stable_sort_of_def)

lemma lim_min: "(if lim < length arr then lim else length arr) = min lim (length arr)"
  by simp

lemma insertion_lim_prefix:
  assumes "strict_weak cmp"
  shows "sorts_prefix cmp (min lim (length arr)) arr (insertion_lim cmp arr lim)"
  unfolding insertion_lim_def lim_min
  by (rule prefix_of_append [OF insertion_range_isort]) (simp_all add: mset_isort strict_weak.sorted_isort [OF assms])

lemma merge_lim_prefix:
  assumes "strict_weak cmp"
  shows "sorts_prefix cmp (min lim (length arr)) arr (merge_lim cmp arr lim)"
  unfolding merge_lim_def Let_def lim_min
  using strict_weak.merge_prefix_spec [OF assms, of "min lim (length arr)" arr] stable_sort_of_prefix by fastforce

lemma merge_bottom_up_lim_prefix:
  assumes "strict_weak cmp"
  shows "sorts_prefix cmp (min lim (length arr)) arr (merge_bottom_up_lim cmp arr lim)"
  unfolding merge_bottom_up_lim_def Let_def lim_min
  using strict_weak.bottom_up_prefix_spec [OF assms, of "min lim (length arr)" arr] stable_sort_of_prefix by fastforce

lemma as_heap_lim_prefix:
  assumes "strict_weak cmp"
  shows "sorts_prefix cmp (min lim (length arr)) arr (as_heap_lim cmp arr lim)"
  unfolding as_heap_lim_def Let_def lim_min
  using strict_weak.heap_prefix_spec [OF assms, of "min lim (length arr)" arr]
  by (intro seg_perm_prefix) (auto simp: tops_def ord_seg_def)

section \<open>Sorting\<close>

text \<open>C1: Under every strict weak order, each comparison sort returns a sorted permutation of its input.\<close>

theorem comparison_sorts_correct:
  assumes "strict_weak cmp"
  shows "list_all (\<lambda>srt. mset (srt cmp xs) = mset xs \<and> sorted_by cmp (srt cmp xs))
    [insertion, bubble, selection, shell, heap, quick, sort_dispatch, merge, merge_bottom_up, stable, sorted_of]"
  using assms
  by (simp add: ins.srt_mset ins.srt_sorted bub.srt_mset bub.srt_sorted sel.srt_mset sel.srt_sorted shl.srt_mset shl.srt_sorted
      hps.srt_mset hps.srt_sorted qck.srt_mset qck.srt_sorted dsp.srt_mset dsp.srt_sorted mrg.srt_mset mrg.srt_sorted
      bup.srt_mset bup.srt_sorted stb.srt_mset stb.srt_sorted sof.srt_mset sof.srt_sorted)

theorem comparison_sorts_correct_witness:
  "strict_weak (\<lambda>x y :: nat \<times> char. fst x < fst y) \<and>
   mset (sort_dispatch (\<lambda>x y. fst x < fst y) [(2 :: nat, CHR ''a''), (1, CHR ''b''), (2, CHR ''c'')]) =
     mset [(2 :: nat, CHR ''a''), (1, CHR ''b''), (2, CHR ''c'')] \<and>
   sorted_by (\<lambda>x y. fst x < fst y) (sort_dispatch (\<lambda>x y. fst x < fst y) [(2 :: nat, CHR ''a''), (1, CHR ''b''), (2, CHR ''c'')])"
  using comparison_sorts_correct [OF strict_weak_key [of fst], of "[(2 :: nat, CHR ''a''), (1, CHR ''b''), (2, CHR ''c'')]"]
    strict_weak_key [of "fst :: nat \<times> char \<Rightarrow> nat"] by simp

text \<open>C22: Insertion, bubble and both merge sorts, and \<open>stable\<close>, keep equal keys in their order: they are the library's stable sort.\<close>

theorem stable_sorts_are_sort_key:
  fixes key :: "'a \<Rightarrow> 'k :: linorder"
  shows "list_all (\<lambda>srt. srt (\<lambda>x y. key x < key y) xs = sort_key key xs) [insertion, bubble, merge, merge_bottom_up, stable]"
  by (simp add: ins.srt_is_sort_key bub.srt_is_sort_key mrg.srt_is_sort_key bup.srt_is_sort_key stb.srt_is_sort_key)

text \<open>C9: The integer-key sorts, radix sort and counting sort with all its fallbacks, sort stably by the key whenever the
  keys fit a signed or an unsigned 64-bit integer, and so agree with the comparison-based stable sort.\<close>

theorem integer_key_sorts_correct:
  assumes "key_fits key xs"
  shows "radix_key key xs = sort_key key xs \<and> counting_key key xs = sort_key key xs \<and>
    stable (\<lambda>x y. key x < key y) xs = radix_key key xs"
  using rdx.ksrt_sort_key [OF assms] cnt.ksrt_sort_key [OF assms]
    rdx.ksrt_agrees_with_stable_sorter [OF assms stb.stable_sorter_axioms] by simp

theorem integer_key_sorts_correct_witness:
  "radix_key fst [(300 :: int, True), (- 5, False), (300, False)] = [(- 5, False), (300, True), (300, False)] \<and>
   counting_key fst [(300 :: int, True), (- 5, False), (300, False)] = [(- 5, False), (300, True), (300, False)]"
proof -
  have "key_fits fst [(300 :: int, True), (- 5, False), (300, False)]" by (simp add: key_fits_def)
  then show ?thesis using integer_key_sorts_correct [of fst "[(300 :: int, True), (- 5, False), (300, False)]"] by simp
qed

text \<open>The floating-point radix sort orders bit patterns by sign and magnitude, \<open>-0\<close> before \<open>+0\<close>, stably, for single and
  double precision and for keys projected from larger elements.\<close>

theorem float_radix_sorts_by_value:
  fixes ds :: "64 word list" and fs :: "32 word list" and dkey :: "'a \<Rightarrow> 64 word" and fkey :: "'b \<Rightarrow> 32 word"
  shows "fradix ds = sort_key float_rank ds \<and> fradix fs = sort_key float_rank fs \<and>
    fradix_key dkey xs = sort_key (\<lambda>x. float_rank (dkey x)) xs \<and> fradix_key fkey ys = sort_key (\<lambda>y. float_rank (fkey y)) ys"
  by (simp add: fradix_sort_key fradix_key_sort_key)

text \<open>Comb sort returns: its loop, which runs until a pass with gap 1 swaps nothing, ends on every input and leaves a sorted
  permutation.\<close>

theorem comb_terminates:
  assumes "strict_weak cmp"
  shows "\<exists>r. comb cmp arr = Some r \<and> mset r = mset arr \<and> sorted_by cmp r"
  using strict_weak.comb_spec [OF assms] by blast

theorem comb_terminates_witness: "\<exists>r. comb (<) [3, 1, 2 :: int] = Some r \<and> mset r = {#1, 2, 3#} \<and> sorted r"
proof -
  obtain r where "comb (<) [3, 1, 2 :: int] = Some r" "mset r = mset [3, 1, 2]" "sorted_by (<) r"
    using comb_terminates [OF strict_weak_less] by blast
  then show ?thesis by (auto simp: sorted_by_def not_less add_mset_commute)
qed

text \<open>C19: Introsort permutes its range and, whatever the depth budget, leaves no two elements more than 24 places apart out of
  order, so the insertion sort that follows moves every element at most 24 places; the depth budget is twice the
  rounded-down binary logarithm of the length.\<close>

theorem introsort_nearly_sorts:
  assumes "strict_weak cmp" "hi < length a" "0 < n"
  shows "seg_perm lo (hi + 1) a (introsort cmp a lo hi depth) \<and>
    (\<forall>i j. lo \<le> i \<longrightarrow> i + 24 < j \<longrightarrow> j \<le> hi \<longrightarrow> \<not> cmp (introsort cmp a lo hi depth ! j) (introsort cmp a lo hi depth ! i)) \<and>
    (\<exists>l. sort_depth n = 2 * l \<and> 2 ^ l \<le> n \<and> n < 2 ^ (l + 1))"
  using strict_weak.introsort_spec [OF assms(1,2), of lo depth] sort_depth_log [OF assms(3)] by (simp add: ord_seg_def)

theorem introsort_nearly_sorts_witness:
  "seg_perm 0 30 (rev [0..<30]) (introsort (<) (rev [0..<30]) 0 29 (sort_depth 30)) \<and>
   \<not> introsort (<) (rev [0..<30]) 0 29 (sort_depth 30) ! 29 < introsort (<) (rev [0..<30]) 0 29 (sort_depth 30) ! 0"
  using introsort_nearly_sorts [OF strict_weak_less, of 29 "rev [0..<30]" 30 0 "sort_depth 30"] by simp

text \<open>\<open>nth_element\<close> and \<open>quickselect\<close> put the element of rank \<open>k\<close> at index \<open>k\<close> with no later one before it, \<open>partial_sort\<close> leaves
  the \<open>k\<close> smallest elements in order at the front, and both only permute the array.\<close>

theorem selection_correct:
  fixes arr :: "'a :: linorder list"
  assumes "k < length arr"
  shows "mset (nth_element_less arr k) = mset arr \<and> nth_element_less arr k ! k = sort arr ! k \<and>
    (\<forall>i < k. nth_element_less arr k ! i \<le> nth_element_less arr k ! k) \<and>
    quickselect_less arr k = Some (nth_element_less arr k, sort arr ! k) \<and>
    mset (partial_sort_less arr k) = mset arr \<and> take k (partial_sort_less arr k) = take k (sort arr)"
  using nth_element_sort [OF assms] quickselect_sort [OF assms] partial_sort_sort [of k arr] assms
  by (auto simp: nth_element_less_def partial_sort_less_def)

theorem selection_correct_witness:
  "quickselect_less [5, 1, 4, 2 :: int] 2 = Some (nth_element_less [5, 1, 4, 2] 2, 4) \<and> take 2 (partial_sort_less [5, 1, 4, 2 :: int] 2) = [1, 2]"
  using selection_correct [of 2 "[5, 1, 4, 2 :: int]"] by simp

text \<open>\<open>is_sorted\<close> decides sortedness, and \<open>is_sorted_until\<close> is the length of the longest sorted prefix.\<close>

theorem is_sorted_correct:
  assumes "strict_weak cmp"
  shows "(is_sorted cmp arr \<longleftrightarrow> sorted_by cmp arr) \<and> is_sorted_until cmp arr \<le> length arr \<and>
    (\<forall>m \<le> length arr. sorted_by cmp (take m arr) \<longleftrightarrow> m \<le> is_sorted_until cmp arr)"
proof -
  let ?u = "is_sorted_until cmp arr"
  have u: "?u \<le> length arr" "sorted_by cmp (take ?u arr)" "\<forall>m \<le> length arr. sorted_by cmp (take m arr) \<longrightarrow> m \<le> ?u"
    using strict_weak.is_sorted_until_spec [OF assms, of arr] by blast+
  have "sorted_by cmp (take m arr)" if "m \<le> ?u" for m
    using sorted_by_take [OF u(2), of m] that by (simp add: min_def)
  then show ?thesis using u strict_weak.is_sorted_spec [OF assms] by blast
qed

theorem is_sorted_correct_witness: "is_sorted_until (<) [1, 3, 2 :: int] = 2 \<and> \<not> is_sorted (<) [1, 3, 2 :: int]"
proof -
  have "\<not> sorted_by (<) [1, 3, 2 :: int]" by (simp add: sorted_by_def)
  moreover have "sorted_by (<) (take 2 [1, 3, 2 :: int])" "\<not> sorted_by (<) (take 3 [1, 3, 2 :: int])" by (simp_all add: sorted_by_def)
  ultimately show ?thesis using is_sorted_correct [OF strict_weak_less, of "[1, 3, 2 :: int]"]
    by (metis One_nat_def Suc_1 Suc_leI eval_nat_numeral(3) le_antisym length_Cons list.size(3) nat_le_linear not_less_eq_eq numeral_2_eq_2)
qed

text \<open>The overloads with a limit stably or unstably sort the first \<open>min lim n\<close> elements and leave every other element in its
  place.\<close>

theorem limited_sorts_prefix:
  assumes "strict_weak cmp"
  shows "list_all (\<lambda>srt. sorts_prefix cmp (min lim (length arr)) arr (srt cmp arr lim))
    [insertion_lim, quick_lim, merge_lim, merge_bottom_up_lim, as_heap_lim, stable_lim]"
  using assms by (simp add: insertion_lim_prefix quick_lim_prefix merge_lim_prefix merge_bottom_up_lim_prefix as_heap_lim_prefix stable_lim_def)

theorem limited_sorts_prefix_witness:
  "sorts_prefix (<) 2 [3, 1, 2 :: int] (quick_lim (<) [3, 1, 2] 2) \<and> drop 2 (quick_lim (<) [3, 1, 2 :: int] 2) = [2]"
proof -
  have "min 2 (length [3, 1, 2 :: int]) = 2" by simp
  then have "sorts_prefix (<) 2 [3, 1, 2 :: int] (quick_lim (<) [3, 1, 2] 2)"
    using limited_sorts_prefix [OF strict_weak_less, of 2 "[3, 1, 2 :: int]"] by (metis list.pred_inject(2))
  then show ?thesis by (auto simp: sorts_prefix_def)
qed

end
