(* ===== verification/Heap_Binomial.thy ===== *)
theory Heap_Binomial
  imports Heap_Array
begin

text \<open>
  The binomial heap of \<^verbatim>\<open>src/src/heap/binomial.hpp\<close>.  A node is a tree of its value, degree and children; the sibling
  pointers are the order of a list and the parent pointers the position in the tree, so a node pointer is a path: the
  index of the root, then the indices of the children.  The pool of recycled nodes holds no value and is left out.
  The trees are shown to be binomial and heap ordered, with distinct degrees in the root list.
\<close>

subsection \<open>The program\<close>

datatype 'a bnode = BNode (bvalue: 'a) (degree: nat) (children: "'a bnode list")

type_synonym node_ptr = "nat list"

record 'a binomial =
  root_list :: "'a bnode list"
  min_node :: "node_ptr option"
  node_count :: nat

definition bn_new :: "'a binomial" where
  "bn_new = \<lparr>root_list = [], min_node = None, node_count = 0\<rparr>"

definition bn_link :: "'a bnode \<Rightarrow> 'a bnode \<Rightarrow> 'a bnode" where
  "bn_link y z = BNode (bvalue z) (degree z + 1) (y # children z)"

fun merge_root_lists :: "'a bnode list \<Rightarrow> 'a bnode list \<Rightarrow> 'a bnode list" where
  "merge_root_lists [] h2 = h2"
| "merge_root_lists h1 [] = h1"
| "merge_root_lists (a # h1) (b # h2) =
     (if degree a \<le> degree b then a # merge_root_lists h1 (b # h2) else b # merge_root_lists (a # h1) h2)"

fun union_loop :: "('a \<Rightarrow> 'a \<Rightarrow> bool) \<Rightarrow> 'a bnode \<Rightarrow> 'a bnode list \<Rightarrow> 'a bnode list" where
  "union_loop cmp cur [] = [cur]"
| "union_loop cmp cur (nxt # rest) =
     (if degree cur \<noteq> degree nxt \<or> (rest \<noteq> [] \<and> degree (hd rest) = degree cur) then cur # union_loop cmp nxt rest
      else if cmp (bvalue cur) (bvalue nxt) then union_loop cmp (bn_link nxt cur) rest
      else union_loop cmp (bn_link cur nxt) rest)"

fun min_scan :: "('a \<Rightarrow> 'a \<Rightarrow> bool) \<Rightarrow> nat \<Rightarrow> 'a \<Rightarrow> nat \<Rightarrow> 'a bnode list \<Rightarrow> nat" where
  "min_scan cmp m v i [] = m"
| "min_scan cmp m v i (t # ts) =
     (if cmp (bvalue t) v then min_scan cmp i (bvalue t) (i + 1) ts else min_scan cmp m v (i + 1) ts)"

definition update_min :: "('a \<Rightarrow> 'a \<Rightarrow> bool) \<Rightarrow> 'a binomial \<Rightarrow> 'a binomial" where
  "update_min cmp h =
     (case root_list h of
        [] \<Rightarrow> h\<lparr>min_node := None\<rparr>
      | t # ts \<Rightarrow> h\<lparr>min_node := Some [min_scan cmp 0 (bvalue t) 1 ts]\<rparr>)"

text \<open>\<open>union_heap\<close> returns both heaps: the other one is emptied.\<close>

definition union_heap :: "('a \<Rightarrow> 'a \<Rightarrow> bool) \<Rightarrow> 'a binomial \<Rightarrow> 'a binomial \<Rightarrow> 'a binomial \<times> 'a binomial" where
  "union_heap cmp h other =
     (if root_list other = [] then (h, other)
      else
        case merge_root_lists (root_list h) (root_list other) of
          [] \<Rightarrow> (h\<lparr>root_list := [], min_node := None, node_count := node_count h + node_count other\<rparr>,
                 other\<lparr>root_list := [], node_count := 0\<rparr>)
        | cur # rest \<Rightarrow>
            let h' = update_min cmp (h\<lparr>root_list := union_loop cmp cur rest\<rparr>)
            in (h'\<lparr>node_count := node_count h' + node_count other\<rparr>, \<lparr>root_list = [], min_node = None, node_count = 0\<rparr>))"

definition bn_insert :: "('a \<Rightarrow> 'a \<Rightarrow> bool) \<Rightarrow> 'a binomial \<Rightarrow> 'a \<Rightarrow> 'a binomial" where
  "bn_insert cmp h value =
     (let temp = \<lparr>root_list = [BNode value 0 []], min_node = Some [0], node_count = 1\<rparr>
      in fst (union_heap cmp h temp))"

text \<open>The overload for an rvalue and \<open>emplace\<close>, which constructs the value in the node.\<close>

definition bn_insert_move :: "('a \<Rightarrow> 'a \<Rightarrow> bool) \<Rightarrow> 'a binomial \<Rightarrow> 'a \<Rightarrow> 'a binomial" where
  "bn_insert_move cmp h value =
     (let temp = \<lparr>root_list = [BNode value 0 []], min_node = Some [0], node_count = 1\<rparr>
      in fst (union_heap cmp h temp))"

definition bn_emplace :: "('a \<Rightarrow> 'a \<Rightarrow> bool) \<Rightarrow> ('args \<Rightarrow> 'a) \<Rightarrow> 'a binomial \<Rightarrow> 'args \<Rightarrow> 'a binomial" where
  "bn_emplace cmp construct h args =
     (let temp = \<lparr>root_list = [BNode (construct args) 0 []], min_node = Some [0], node_count = 1\<rparr>
      in fst (union_heap cmp h temp))"

text \<open>Move construction and assignment: the new state of the target and of the source.\<close>

definition bn_move :: "'a binomial \<Rightarrow> 'a binomial \<times> 'a binomial" where
  "bn_move src = (src, \<lparr>root_list = [], min_node = None, node_count = 0\<rparr>)"

fun node_at :: "'a bnode list \<Rightarrow> node_ptr \<Rightarrow> 'a bnode option" where
  "node_at ts [] = None"
| "node_at ts [i] = (if i < length ts then Some (ts ! i) else None)"
| "node_at ts (i # p) = (if i < length ts then node_at (children (ts ! i)) p else None)"

definition find_min :: "'a binomial \<Rightarrow> heap_error + 'a" where
  "find_min h =
     (case min_node h of
        None \<Rightarrow> Inl (Library_error ''micron::__binomial_heap::find_min() is empty'')
      | Some p \<Rightarrow> (case node_at (root_list h) p of None \<Rightarrow> Inl Wild_pointer | Some t \<Rightarrow> Inr (bvalue t)))"

text \<open>The loop that looks for \<open>min_node\<close> follows the root list, so a pointer that is not a root runs off its end.\<close>

definition extract_min :: "('a \<Rightarrow> 'a \<Rightarrow> bool) \<Rightarrow> 'a binomial \<Rightarrow> heap_error + 'a \<times> 'a binomial" where
  "extract_min cmp h =
     (case min_node h of
        None \<Rightarrow> Inl (Library_error ''micron::__binomial_heap::extract_min() is empty'')
      | Some [i] \<Rightarrow>
          if i < length (root_list h) then
            let m = root_list h ! i;
                h1 = h\<lparr>root_list := take i (root_list h) @ drop (i + 1) (root_list h)\<rparr>;
                reversed = rev (children m);
                child_heap = \<lparr>root_list = reversed, min_node = None, node_count = 0\<rparr>;
                h2 = h1\<lparr>node_count := node_count h1 - 1\<rparr>;
                h3 = fst (union_heap cmp h2 child_heap)
            in Inr (bvalue m, if reversed = [] then update_min cmp h3 else h3)
          else Inl Wild_pointer
      | Some _ \<Rightarrow> Inl Wild_pointer)"

definition bn_meld :: "('a \<Rightarrow> 'a \<Rightarrow> bool) \<Rightarrow> 'a binomial \<Rightarrow> 'a binomial \<Rightarrow> 'a binomial \<times> 'a binomial" where
  "bn_meld cmp h other = union_heap cmp h other"

definition bn_clear :: "'a binomial \<Rightarrow> 'a binomial" where
  "bn_clear h = \<lparr>root_list = [], min_node = None, node_count = 0\<rparr>"

definition bn_empty :: "'a binomial \<Rightarrow> bool" where
  "bn_empty h = (node_count h = 0)"

definition bn_size :: "'a binomial \<Rightarrow> nat" where
  "bn_size h = node_count h"

text \<open>\<open>find_recursive\<close> on a sibling list, whose first node has index \<open>i\<close>: the node, its children, then its siblings.\<close>

fun find_recursive :: "nat \<Rightarrow> 'a bnode list \<Rightarrow> 'a \<Rightarrow> node_ptr option" where
  "find_recursive i [] value = None"
| "find_recursive i (BNode v d cs # sibs) value =
     (if v = value then Some [i]
      else
        case find_recursive 0 cs value of
          Some p \<Rightarrow> Some (i # p)
        | None \<Rightarrow> find_recursive (i + 1) sibs value)"

definition bn_find :: "'a binomial \<Rightarrow> 'a \<Rightarrow> node_ptr option" where
  "bn_find h value = find_recursive 0 (root_list h) value"

text \<open>The loops that climb from a node to its root, on a sibling list: the new siblings and the pointer to the node where
  the climb stops.  \<open>decrease_climb\<close> sets the value and swaps while the child is smaller; \<open>delete_climb\<close> always swaps.\<close>

fun set_value :: "'a bnode \<Rightarrow> 'a \<Rightarrow> 'a bnode" where
  "set_value (BNode v d cs) w = BNode w d cs"

fun set_children :: "'a bnode \<Rightarrow> 'a bnode list \<Rightarrow> 'a bnode" where
  "set_children (BNode v d cs) cs' = BNode v d cs'"

definition swap_up :: "'a bnode \<Rightarrow> nat \<Rightarrow> 'a bnode" where
  "swap_up t j =
     (let c = children t ! j
      in BNode (bvalue c) (degree t) ((children t)[j := set_value c (bvalue t)]))"

fun decrease_climb :: "('a \<Rightarrow> 'a \<Rightarrow> bool) \<Rightarrow> 'a \<Rightarrow> 'a bnode list \<Rightarrow> node_ptr \<Rightarrow> 'a bnode list \<times> node_ptr" where
  "decrease_climb cmp new ts [] = (ts, [])"
| "decrease_climb cmp new ts [i] = (ts[i := set_value (ts ! i) new], [i])"
| "decrease_climb cmp new ts (i # j # p) =
     (case decrease_climb cmp new (children (ts ! i)) (j # p) of
        (cs, q) \<Rightarrow>
          let t = set_children (ts ! i) cs
          in if q = [j] \<and> cmp (bvalue (cs ! j)) (bvalue t) then (ts[i := swap_up t j], [i])
             else (ts[i := t], i # q))"

definition decrease_key :: "('a \<Rightarrow> 'a \<Rightarrow> bool) \<Rightarrow> 'a binomial \<Rightarrow> node_ptr \<Rightarrow> 'a \<Rightarrow> heap_error + 'a binomial" where
  "decrease_key cmp h node new_value =
     (case node_at (root_list h) node of
        None \<Rightarrow> Inl Wild_pointer
      | Some t \<Rightarrow>
          if \<not> cmp new_value (bvalue t) then Inr h
          else
            case decrease_climb cmp new_value (root_list h) node of
              (ts, cur) \<Rightarrow>
                let h1 = h\<lparr>root_list := ts\<rparr>
                in case min_node h1 of
                     None \<Rightarrow> Inr (h1\<lparr>min_node := Some cur\<rparr>)
                   | Some m \<Rightarrow>
                       (case (node_at ts cur, node_at ts m) of
                          (Some c, Some mt) \<Rightarrow> Inr (if cmp (bvalue c) (bvalue mt) then h1\<lparr>min_node := Some cur\<rparr> else h1)
                        | _ \<Rightarrow> Inl Wild_pointer))"

fun delete_climb :: "'a bnode list \<Rightarrow> node_ptr \<Rightarrow> 'a bnode list" where
  "delete_climb ts [] = ts"
| "delete_climb ts [i] = ts"
| "delete_climb ts (i # j # p) =
     (let t = set_children (ts ! i) (delete_climb (children (ts ! i)) (j # p)) in ts[i := swap_up t j])"

definition delete_node :: "('a \<Rightarrow> 'a \<Rightarrow> bool) \<Rightarrow> 'a binomial \<Rightarrow> node_ptr \<Rightarrow> heap_error + 'a \<times> 'a binomial" where
  "delete_node cmp h node =
     (case node_at (root_list h) node of
        None \<Rightarrow> Inl Wild_pointer
      | Some _ \<Rightarrow> extract_min cmp (h\<lparr>root_list := delete_climb (root_list h) node, min_node := Some [hd node]\<rparr>))"

subsection \<open>Binomial trees\<close>

text \<open>A binomial tree of degree \<open>d\<close> has children of degrees \<open>d - 1, \<dots>, 0\<close>, none of which is smaller than its root.\<close>

fun bt :: "('a \<Rightarrow> 'a \<Rightarrow> bool) \<Rightarrow> 'a bnode \<Rightarrow> bool" where
  "bt cmp (BNode v d cs) \<longleftrightarrow> map degree cs = rev [0..<d] \<and> (\<forall>c\<in>set cs. bt cmp c \<and> \<not> cmp (bvalue c) v)"

fun telems :: "'a bnode \<Rightarrow> 'a multiset" where
  "telems (BNode v d cs) = add_mset v (\<Sum>c\<leftarrow>cs. telems c)"

definition lelems :: "'a bnode list \<Rightarrow> 'a multiset" where
  "lelems ts = (\<Sum>t\<leftarrow>ts. telems t)"

lemma lelems_simps [simp]: "lelems [] = {#}" "lelems (t # ts) = telems t + lelems ts" "lelems (ts @ us) = lelems ts + lelems us"
  by (simp_all add: lelems_def)

lemma lelems_rev [simp]: "lelems (rev ts) = lelems ts"
  by (induction ts) simp_all

lemma telems_node: "telems t = add_mset (bvalue t) (lelems (children t))"
  by (cases t) (simp add: lelems_def)

lemma lelems_mset: "mset ts = mset us \<Longrightarrow> lelems ts = lelems us"
  unfolding lelems_def by (metis mset_map sum_mset_sum_list)

lemma bt_node: "bt cmp t \<longleftrightarrow> map degree (children t) = rev [0..<degree t] \<and> (\<forall>c\<in>set (children t). bt cmp c \<and> \<not> cmp (bvalue c) (bvalue t))"
  by (cases t) simp

lemma telems_bn_link: "telems (bn_link y z) = telems y + telems z"
  by (simp add: bn_link_def telems_node [of z] lelems_def)

lemma bn_link_simps [simp]: "degree (bn_link y z) = Suc (degree z)" "bvalue (bn_link y z) = bvalue z"
  by (simp_all add: bn_link_def)

lemma bt_bn_link: "bt cmp y \<Longrightarrow> bt cmp z \<Longrightarrow> degree y = degree z \<Longrightarrow> \<not> cmp (bvalue y) (bvalue z) \<Longrightarrow> bt cmp (bn_link y z)"
  by (auto simp: bt_node [of cmp z] bn_link_def)

lemma sum_powers: "Suc (\<Sum>i\<leftarrow>rev [0..<d]. 2 ^ i :: nat) = 2 ^ d"
  by (induction d) simp_all

lemma bt_size: "bt cmp t \<Longrightarrow> size (telems t) = 2 ^ degree t"
proof (induction t)
  case (BNode v d cs)
  have d: "map degree cs = rev [0..<d]" and c: "\<And>c. c \<in> set cs \<Longrightarrow> size (telems c) = 2 ^ degree c"
    using BNode by auto
  have "map (\<lambda>c. size (telems c)) cs = map (\<lambda>i. 2 ^ i) (map degree cs)" using c by simp
  then have "Suc (\<Sum>c\<leftarrow>cs. size (telems c)) = 2 ^ d" unfolding d using sum_powers [of d] by argo
  moreover have "size (\<Sum>c\<leftarrow>cs. telems c) = (\<Sum>c\<leftarrow>cs. size (telems c))" by (induction cs) simp_all
  ultimately show ?case by simp
qed

context strict_weak
begin

text \<open>The root of a tree is first among its elements.\<close>

lemma bt_root_least: "bt cmp t \<Longrightarrow> x \<in># telems t \<Longrightarrow> \<not> cmp x (bvalue t)"
proof (induction t arbitrary: x)
  case (BNode v d cs)
  have "x = v \<or> (\<exists>c\<in>set cs. x \<in># telems c)" using BNode.prems(2)
  proof -
    have "x \<in># (\<Sum>c\<leftarrow>cs. telems c) \<Longrightarrow> \<exists>c\<in>set cs. x \<in># telems c" by (induction cs) auto
    then show ?thesis using BNode.prems(2) by auto
  qed
  then show ?case
  proof
    assume "\<exists>c\<in>set cs. x \<in># telems c"
    then obtain c where c: "c \<in> set cs" "x \<in># telems c" by blast
    then have "\<not> cmp x (bvalue c)" "\<not> cmp (bvalue c) v" using BNode by auto
    then show ?thesis using neg_trans by auto
  qed simp
qed

end

subsection \<open>The union of root lists\<close>

lemma merge_root_lists_Nil2 [simp]: "merge_root_lists h [] = h"
  by (cases h) simp_all

lemma mset_merge_root_lists: "mset (merge_root_lists h1 h2) = mset h1 + mset h2"
  by (induction h1 h2 rule: merge_root_lists.induct) auto

lemma set_merge_root_lists: "set (merge_root_lists h1 h2) = set h1 \<union> set h2"
  by (metis mset_merge_root_lists set_mset_mset set_mset_union)

lemma sorted_merge_root_lists:
  "sorted (map degree h1) \<Longrightarrow> sorted (map degree h2) \<Longrightarrow> sorted (map degree (merge_root_lists h1 h2))"
  by (induction h1 h2 rule: merge_root_lists.induct) (auto simp: set_merge_root_lists)

definition deg_count :: "nat \<Rightarrow> 'a bnode list \<Rightarrow> nat" where
  "deg_count d ts = length (filter (\<lambda>t. degree t = d) ts)"

lemma deg_count_simps [simp]: "deg_count d [] = 0" "deg_count d (t # ts) = (if degree t = d then 1 else 0) + deg_count d ts"
  by (simp_all add: deg_count_def)

lemma deg_count_merge: "deg_count d (merge_root_lists h1 h2) = deg_count d h1 + deg_count d h2"
  by (induction h1 h2 rule: merge_root_lists.induct) auto

lemma deg_count_strict: "sorted_wrt (<) (map degree ts) \<Longrightarrow> deg_count d ts \<le> 1"
proof (induction ts)
  case (Cons t ts)
  have "deg_count d ts = 0" if "degree t = d" using Cons.prems that by (auto simp: deg_count_def filter_empty_conv)
  then show ?case using Cons by auto
qed simp

lemma deg_count_0: "deg_count d ts = 0 \<longleftrightarrow> (\<forall>t\<in>set ts. degree t \<noteq> d)"
  by (auto simp: deg_count_def filter_empty_conv)

lemma lelems_union_loop: "lelems (union_loop cmp cur ts) = telems cur + lelems ts"
proof (induction cmp cur ts rule: union_loop.induct)
  case (2 cmp cur nxt rest)
  then show ?case
    by (cases "degree cur \<noteq> degree nxt \<or> (rest \<noteq> [] \<and> degree (hd rest) = degree cur)"; cases "cmp (bvalue cur) (bvalue nxt)")
      (simp_all add: telems_bn_link ac_simps)
qed simp

context strict_weak
begin

lemma bt_union_loop: "bt cmp cur \<Longrightarrow> \<forall>t\<in>set ts. bt cmp t \<Longrightarrow> \<forall>t\<in>set (union_loop cmp cur ts). bt cmp t"
proof (induction ts arbitrary: cur)
  case (Cons nxt rest)
  have n: "bt cmp nxt" "\<forall>t\<in>set rest. bt cmp t" using Cons.prems(2) by simp_all
  consider (keep) "degree cur \<noteq> degree nxt \<or> (rest \<noteq> [] \<and> degree (hd rest) = degree cur)"
    | (low) "degree cur = degree nxt" "cmp (bvalue cur) (bvalue nxt)" "\<not> (rest \<noteq> [] \<and> degree (hd rest) = degree cur)"
    | (high) "degree cur = degree nxt" "\<not> cmp (bvalue cur) (bvalue nxt)" "\<not> (rest \<noteq> [] \<and> degree (hd rest) = degree cur)"
    by blast
  then show ?case
  proof cases
    case keep
    then have "union_loop cmp cur (nxt # rest) = cur # union_loop cmp nxt rest" by simp
    then show ?thesis using Cons.IH [OF n] Cons.prems(1) by simp
  next
    case low
    have "bt cmp (bn_link nxt cur)" using low n(1) Cons.prems(1) asym by (intro bt_bn_link) auto
    moreover have "union_loop cmp cur (nxt # rest) = union_loop cmp (bn_link nxt cur) rest" using low by auto
    ultimately show ?thesis using Cons.IH n(2) by metis
  next
    case high
    have "bt cmp (bn_link cur nxt)" using high n(1) Cons.prems(1) by (intro bt_bn_link) auto
    moreover have "union_loop cmp cur (nxt # rest) = union_loop cmp (bn_link cur nxt) rest" using high by auto
    ultimately show ?thesis using Cons.IH n(2) by metis
  qed
qed simp

lemma union_loop_strict:
  assumes "sorted (map degree (cur # ts))" "\<And>d. deg_count d ts \<le> 2"
  shows "sorted_wrt (<) (map degree (union_loop cmp cur ts)) \<and> (\<forall>t\<in>set (union_loop cmp cur ts). degree cur \<le> degree t) \<and>
    (deg_count (degree cur) ts = 1 \<longrightarrow> (\<forall>t\<in>set (union_loop cmp cur ts). degree cur < degree t))"
  using assms
proof (induction ts arbitrary: cur)
  case (Cons nxt rest)
  let ?d = "degree cur"
  have srt: "sorted (map degree (nxt # rest))" "?d \<le> degree nxt" using Cons.prems(1) by auto
  have cnt: "deg_count d rest \<le> 2" for d using Cons.prems(2) [of d] by (simp split: if_splits)
  consider (differ) "?d \<noteq> degree nxt" | (three) "?d = degree nxt" "rest \<noteq> [] \<and> degree (hd rest) = ?d"
    | (link) "?d = degree nxt" "\<not> (rest \<noteq> [] \<and> degree (hd rest) = ?d)" by blast
  then show ?case
  proof cases
    case differ
    have "deg_count ?d (nxt # rest) = 0" using differ srt unfolding deg_count_0 by fastforce
    then show ?thesis using Cons.IH [OF srt(1) cnt] differ srt(2) by auto
  next
    case three
    then have "deg_count ?d rest \<ge> 1" by (cases rest) auto
    moreover have "deg_count ?d (nxt # rest) \<le> 2" by (rule Cons.prems(2))
    ultimately have "deg_count ?d rest = 1" using three(1) by simp
    then have "deg_count (degree nxt) rest = 1" using three(1) by simp
    then show ?thesis using Cons.IH [OF srt(1) cnt] three by auto
  next
    case link
    have gt: "\<forall>t\<in>set rest. Suc ?d \<le> degree t"
    proof (cases rest)
      case (Cons r rs)
      then have "Suc ?d \<le> degree r" using link srt by auto
      then show ?thesis using srt(1) Cons by auto
    qed simp
    have IH: "sorted_wrt (<) (map degree (union_loop cmp c rest)) \<and> (\<forall>t\<in>set (union_loop cmp c rest). Suc ?d \<le> degree t)"
      if "degree c = Suc ?d" for c
      using Cons.IH [of c, OF _ cnt] that gt srt by auto
    then show ?thesis using link IH [of "bn_link nxt cur"] IH [of "bn_link cur nxt"] by auto
  qed
qed simp

end

subsection \<open>The invariant\<close>

definition bn_roots :: "('a \<Rightarrow> 'a \<Rightarrow> bool) \<Rightarrow> 'a bnode list \<Rightarrow> bool" where
  "bn_roots cmp ts \<longleftrightarrow> (\<forall>t\<in>set ts. bt cmp t) \<and> sorted_wrt (<) (map degree ts)"

definition bn_elems :: "'a binomial \<Rightarrow> 'a multiset" where
  "bn_elems h = lelems (root_list h)"

definition min_ok :: "('a \<Rightarrow> 'a \<Rightarrow> bool) \<Rightarrow> 'a bnode list \<Rightarrow> node_ptr option \<Rightarrow> bool" where
  "min_ok cmp ts m \<longleftrightarrow> (if ts = [] then m = None
     else \<exists>i < length ts. m = Some [i] \<and> (\<forall>t\<in>set ts. \<not> cmp (bvalue t) (bvalue (ts ! i))))"

definition bn_inv :: "('a \<Rightarrow> 'a \<Rightarrow> bool) \<Rightarrow> 'a binomial \<Rightarrow> bool" where
  "bn_inv cmp h \<longleftrightarrow> bn_roots cmp (root_list h) \<and> node_count h = size (bn_elems h) \<and> min_ok cmp (root_list h) (min_node h)"

lemma strict_imp_sorted: "sorted_wrt (<) xs \<Longrightarrow> sorted (xs :: nat list)"
  by (induction xs) auto

lemma bn_new_inv: "bn_inv cmp bn_new" "bn_elems bn_new = {#}"
  by (auto simp: bn_inv_def bn_new_def bn_roots_def min_ok_def bn_elems_def)

lemma update_min_simps [simp]: "root_list (update_min cmp h) = root_list h" "node_count (update_min cmp h) = node_count h"
  by (simp_all add: update_min_def split: list.split)

context strict_weak
begin

lemma min_scan_least:
  assumes "m < length pre" "v = bvalue (pre ! m)" "\<forall>t\<in>set pre. \<not> cmp (bvalue t) v"
  shows "min_scan cmp m v (length pre) ts < length (pre @ ts) \<and>
    (\<forall>t\<in>set (pre @ ts). \<not> cmp (bvalue t) (bvalue ((pre @ ts) ! min_scan cmp m v (length pre) ts)))"
  using assms
proof (induction ts arbitrary: pre m v)
  case Nil
  then show ?case by (auto simp: nth_append)
next
  case (Cons t ts)
  show ?case
  proof (cases "cmp (bvalue t) v")
    case True
    have "\<not> cmp (bvalue u) (bvalue t)" if "u \<in> set pre" for u using Cons.prems(3) that True cmp_trans by blast
    then show ?thesis using Cons.IH [of "length pre" "pre @ [t]" "bvalue t"] True by (simp add: nth_append)
  next
    case False
    then show ?thesis using Cons.IH [of m "pre @ [t]" v] Cons.prems by (simp add: nth_append)
  qed
qed

lemma update_min_ok: "min_ok cmp (root_list h) (min_node (update_min cmp h))"
proof (cases "root_list h")
  case (Cons t ts)
  then show ?thesis using min_scan_least [of 0 "[t]" "bvalue t" ts] by (auto simp: update_min_def min_ok_def)
qed (simp add: update_min_def min_ok_def)

lemma union_roots:
  assumes "bn_roots cmp ts" "bn_roots cmp us" "merge_root_lists ts us = cur # rest"
  shows "bn_roots cmp (union_loop cmp cur rest)" "lelems (union_loop cmp cur rest) = lelems ts + lelems us"
proof -
  have s: "sorted (map degree (cur # rest))"
    using assms sorted_merge_root_lists [of ts us] by (simp add: bn_roots_def strict_imp_sorted)
  have c: "deg_count d rest \<le> 2" for d
    using assms deg_count_merge [of d ts us] deg_count_strict [of ts d] deg_count_strict [of us d]
    by (simp add: bn_roots_def split: if_splits)
  have b: "bt cmp cur" "\<forall>t\<in>set rest. bt cmp t"
    using assms set_merge_root_lists [of ts us] by (auto simp: bn_roots_def)
  show "bn_roots cmp (union_loop cmp cur rest)"
    using union_loop_strict [OF s c] bt_union_loop [OF b] by (simp add: bn_roots_def)
  have "lelems (cur # rest) = lelems (ts @ us)"
    using mset_merge_root_lists [of ts us] assms(3) by (intro lelems_mset) simp
  then show "lelems (union_loop cmp cur rest) = lelems ts + lelems us" by (simp add: lelems_union_loop)
qed

text \<open>The union of two heaps; nothing is asked of the minimum pointers unless the other heap is empty.\<close>

lemma union_heap_spec:
  assumes "bn_roots cmp (root_list h)" "bn_roots cmp (root_list other)" "union_heap cmp h other = (h', other')"
  shows "bn_roots cmp (root_list h')" "lelems (root_list h') = lelems (root_list h) + lelems (root_list other)"
    "root_list other \<noteq> [] \<Longrightarrow> node_count h' = node_count h + node_count other \<and> min_ok cmp (root_list h') (min_node h') \<and> other' = bn_new"
    "root_list other = [] \<Longrightarrow> h' = h"
proof -
  show e: "root_list other = [] \<Longrightarrow> h' = h" using assms(3) by (simp add: union_heap_def)
  have ne: "bn_roots cmp (root_list h') \<and> lelems (root_list h') = lelems (root_list h) + lelems (root_list other) \<and>
     node_count h' = node_count h + node_count other \<and> min_ok cmp (root_list h') (min_node h') \<and> other' = bn_new"
    if o: "root_list other \<noteq> []"
  proof -
    have "set (merge_root_lists (root_list h) (root_list other)) \<noteq> {}" using o by (simp add: set_merge_root_lists)
    then obtain cur rest where m: "merge_root_lists (root_list h) (root_list other) = cur # rest"
      by (metis empty_set neq_Nil_conv)
    let ?u = "h\<lparr>root_list := union_loop cmp cur rest\<rparr>"
    have h': "h' = (update_min cmp ?u)\<lparr>node_count := node_count h + node_count other\<rparr>" "other' = bn_new"
      using assms(3) o m by (auto simp: union_heap_def Let_def bn_new_def)
    show ?thesis unfolding h' using union_roots [OF assms(1,2) m] update_min_ok [of ?u] by simp
  qed
  show "bn_roots cmp (root_list h')" "lelems (root_list h') = lelems (root_list h) + lelems (root_list other)"
    using ne e assms(1) by (cases "root_list other = []"; auto)+
  show "root_list other \<noteq> [] \<Longrightarrow> node_count h' = node_count h + node_count other \<and> min_ok cmp (root_list h') (min_node h') \<and> other' = bn_new"
    using ne by blast
qed

lemma meld_spec:
  assumes "bn_inv cmp h" "bn_inv cmp other"
  shows "bn_inv cmp (fst (bn_meld cmp h other)) \<and> bn_elems (fst (bn_meld cmp h other)) = bn_elems h + bn_elems other \<and>
    snd (bn_meld cmp h other) = bn_new"
proof -
  obtain h' o' where u: "union_heap cmp h other = (h', o')" by (cases "union_heap cmp h other")
  note s = union_heap_spec [OF _ _ u]
  show ?thesis
  proof (cases "root_list other = []")
    case True
    then have "other = bn_new" using assms(2) by (cases other) (auto simp: bn_inv_def min_ok_def bn_elems_def bn_new_def)
    then show ?thesis using assms True by (simp add: bn_meld_def union_heap_def bn_elems_def bn_new_def)
  next
    case False
    then show ?thesis using assms s u by (auto simp: bn_inv_def bn_elems_def bn_meld_def)
  qed
qed

lemma insert_spec:
  assumes "bn_inv cmp h"
  shows "bn_inv cmp (bn_insert cmp h x) \<and> bn_elems (bn_insert cmp h x) = add_mset x (bn_elems h)"
proof -
  let ?t = "\<lparr>root_list = [BNode x 0 []], min_node = Some [0], node_count = 1\<rparr>"
  have "bn_inv cmp ?t" "bn_elems ?t = {#x#}" by (simp_all add: bn_inv_def bn_roots_def min_ok_def bn_elems_def)
  then show ?thesis using meld_spec [OF assms, of ?t] by (simp add: bn_insert_def bn_meld_def Let_def)
qed

end

text \<open>Removing root \<open>i\<close>, whose own value may be out of order: only its children have to be binomial trees.\<close>

definition bt_kids :: "('a \<Rightarrow> 'a \<Rightarrow> bool) \<Rightarrow> 'a bnode \<Rightarrow> bool" where
  "bt_kids cmp t \<longleftrightarrow> map degree (children t) = rev [0..<degree t] \<and> (\<forall>c\<in>set (children t). bt cmp c)"

lemma bt_imp_kids: "bt cmp t \<Longrightarrow> bt_kids cmp t"
  by (simp add: bt_kids_def bt_node [of cmp t])

lemma lelems_remove: "i < length ts \<Longrightarrow> lelems ts = telems (ts ! i) + lelems (take i ts @ drop (Suc i) ts)"
  using id_take_nth_drop [of i ts] by (metis lelems_simps(2,3) add.left_commute)

lemma sorted_wrt_remove: "sorted_wrt P xs \<Longrightarrow> sorted_wrt P (take i xs @ drop (Suc i) xs)"
proof (induction xs arbitrary: i)
  case (Cons x xs)
  then show ?case by (cases i) (auto dest: in_set_takeD in_set_dropD)
qed simp

context strict_weak
begin

lemma extract_root_spec:
  assumes i: "min_node h = Some [i]" "i < length (root_list h)"
    and bt: "\<And>k. k < length (root_list h) \<Longrightarrow> k \<noteq> i \<Longrightarrow> bt cmp (root_list h ! k)" "bt_kids cmp (root_list h ! i)"
    and deg: "sorted_wrt (<) (map degree (root_list h))" and cnt: "node_count h = size (bn_elems h)"
  shows "\<exists>h'. extract_min cmp h = Inr (bvalue (root_list h ! i), h') \<and> bn_inv cmp h' \<and>
    bn_elems h = add_mset (bvalue (root_list h ! i)) (bn_elems h')"
proof -
  let ?ts = "root_list h" and ?m = "root_list h ! i"
  let ?r = "take i ?ts @ drop (i + 1) ?ts" and ?k = "rev (children ?m)"
  let ?h2 = "h\<lparr>root_list := ?r, node_count := node_count h - 1\<rparr>"
  let ?c = "\<lparr>root_list = ?k, min_node = None, node_count = 0\<rparr>"
  obtain h3 o3 where u: "union_heap cmp ?h2 ?c = (h3, o3)" by (cases "union_heap cmp ?h2 ?c")
  let ?h' = "if ?k = [] then update_min cmp h3 else h3"
  have e: "extract_min cmp h = Inr (bvalue ?m, ?h')"
    using i u by (cases "children ?m = []") (simp_all add: extract_min_def Let_def)
  have "\<forall>t\<in>set ?r. bt cmp t" using bt(1) by (auto simp: in_set_conv_nth)
  moreover have "sorted_wrt (<) (map degree ?r)"
    using sorted_wrt_remove [OF deg, of i] by (simp add: take_map drop_map)
  ultimately have r: "bn_roots cmp ?r" by (simp add: bn_roots_def)
  have "map degree ?k = [0..<degree ?m]" using bt(2) by (simp add: bt_kids_def rev_map [symmetric])
  then have k: "bn_roots cmp ?k" using bt(2) by (auto simp: bn_roots_def bt_kids_def)
  have s: "bn_roots cmp (root_list h3)" "lelems (root_list h3) = lelems ?r + lelems ?k"
    "?k \<noteq> [] \<Longrightarrow> node_count h3 = node_count h - 1 \<and> min_ok cmp (root_list h3) (min_node h3)"
    "?k = [] \<Longrightarrow> node_count h3 = node_count h - 1"
    using union_heap_spec [OF _ _ u] r k by auto
  have el: "bn_elems h = add_mset (bvalue ?m) (bn_elems ?h')"
    using lelems_remove [OF i(2)] s(2) telems_node [of ?m] by (auto simp: bn_elems_def)
  have "bn_inv cmp ?h'"
  proof (cases "?k = []")
    case True
    have h': "?h' = update_min cmp h3" using True by simp
    have "bn_elems (update_min cmp h3) = bn_elems h3" by (simp add: bn_elems_def)
    then show ?thesis unfolding h' using s(1,4) True cnt el update_min_ok [of h3]
      by (simp add: bn_inv_def)
  next
    case False
    then show ?thesis using s(1,3) cnt el by (simp add: bn_inv_def)
  qed
  then show ?thesis using e el by blast
qed

lemma lelems_least:
  assumes "\<forall>t\<in>set ts. bt cmp t" "\<forall>t\<in>set ts. \<not> cmp (bvalue t) v" "x \<in># lelems ts"
  shows "\<not> cmp x v"
proof -
  have "\<exists>t\<in>set ts. x \<in># telems t" using assms(3) by (induction ts) auto
  then obtain t where t: "t \<in> set ts" "x \<in># telems t" by blast
  then have "\<not> cmp x (bvalue t)" "\<not> cmp (bvalue t) v" using bt_root_least assms by auto
  then show ?thesis using neg_trans by blast
qed

lemma extract_min_spec:
  assumes "bn_inv cmp h" "bn_elems h \<noteq> {#}"
  shows "\<exists>x h'. extract_min cmp h = Inr (x, h') \<and> bn_inv cmp h' \<and> bn_elems h = add_mset x (bn_elems h') \<and>
    (\<forall>y\<in>#bn_elems h. \<not> cmp y x)"
proof -
  have "root_list h \<noteq> []" using assms(2) by (auto simp: bn_elems_def)
  then obtain i where i: "i < length (root_list h)" "min_node h = Some [i]"
    "\<forall>t\<in>set (root_list h). \<not> cmp (bvalue t) (bvalue (root_list h ! i))"
    using assms(1) by (auto simp: bn_inv_def min_ok_def)
  have r: "\<forall>t\<in>set (root_list h). bt cmp t" "sorted_wrt (<) (map degree (root_list h))" "node_count h = size (bn_elems h)"
    using assms(1) by (auto simp: bn_inv_def bn_roots_def)
  have "\<exists>h'. extract_min cmp h = Inr (bvalue (root_list h ! i), h') \<and> bn_inv cmp h' \<and>
    bn_elems h = add_mset (bvalue (root_list h ! i)) (bn_elems h')"
    using r i by (intro extract_root_spec) (auto intro: bt_imp_kids)
  moreover have "\<forall>y\<in>#bn_elems h. \<not> cmp y (bvalue (root_list h ! i))"
    using lelems_least [OF r(1) i(3)] by (auto simp: bn_elems_def)
  ultimately show ?thesis by blast
qed

lemma extract_min_empty:
  assumes "bn_inv cmp h" "bn_elems h = {#}"
  shows "extract_min cmp h = Inl (Library_error ''micron::__binomial_heap::extract_min() is empty'')"
proof -
  have "root_list h = []" using assms(2) by (cases "root_list h") (auto simp: bn_elems_def telems_node)
  then show ?thesis using assms(1) by (simp add: bn_inv_def min_ok_def extract_min_def)
qed

end

lemma bn_size_elems: "bn_inv cmp h \<Longrightarrow> bn_size h = size (bn_elems h)"
  by (simp add: bn_inv_def bn_size_def)

interpretation bnp: prio_queue "bn_inv (<)" bn_elems "(<) :: 'a :: linorder \<Rightarrow> 'a \<Rightarrow> bool" bn_size "bn_insert (<)" "\<lambda>_. True" "extract_min (<)"
proof unfold_locales
  fix q :: "'a binomial" and x :: 'a
  assume q: "bn_inv (<) q"
  show "bn_size q = size (bn_elems q)" using q by (rule bn_size_elems)
  show "bn_inv (<) (bn_insert (<) q x)" "bn_elems (bn_insert (<) q x) = add_mset x (bn_elems q)"
    using strict_weak.insert_spec [OF strict_weak_less q] by auto
  show "\<exists>e. extract_min (<) q = Inl e" if "bn_elems q = {#}"
    using strict_weak.extract_min_empty [OF strict_weak_less q that] by blast
  show "\<exists>x q'. extract_min (<) q = Inr (x, q') \<and> bn_inv (<) q' \<and> bn_elems q = add_mset x (bn_elems q') \<and> (\<forall>y\<in>#bn_elems q. \<not> y < x)"
    if "bn_elems q \<noteq> {#}" using strict_weak.extract_min_spec [OF strict_weak_less q that] .
qed auto

subsection \<open>Searching\<close>

lemma find_recursive_sound: "find_recursive i ts v = Some p \<Longrightarrow> \<exists>k q t. p = (i + k) # q \<and> node_at ts (k # q) = Some t \<and> bvalue t = v"
proof (induction i ts v arbitrary: p rule: find_recursive.induct)
  case (2 i v d cs sibs w)
  show ?case
  proof (cases "v = w")
    case True
    then show ?thesis using 2 by (intro exI [of _ 0]) auto
  next
    case nv: False
    show ?thesis
    proof (cases "find_recursive 0 cs w")
      case (Some q)
      then obtain k r t where "q = k # r" "node_at cs (k # r) = Some t" "bvalue t = w" using 2 nv by force
      then show ?thesis using 2 nv Some by (intro exI [of _ 0]) auto
    next
      case None
      then obtain k q t where "p = (i + 1 + k) # q" "node_at sibs (k # q) = Some t" "bvalue t = w" using 2 nv by auto
      then show ?thesis by (intro exI [of _ "Suc k"] exI [of _ q] exI [of _ t]) (cases q; auto split: if_splits)
    qed
  qed
qed simp

lemma find_recursive_complete: "find_recursive i ts v = None \<longleftrightarrow> v \<notin># lelems ts"
proof (induction i ts v rule: find_recursive.induct)
  case (2 i v d cs sibs w)
  then show ?case by (auto simp: lelems_def split: option.splits)
qed simp

subsection \<open>Decreasing a key and deleting a node\<close>

lemma set_value_simps [simp]:
  "bvalue (set_value t w) = w" "degree (set_value t w) = degree t" "children (set_value t w) = children t"
  by (cases t; simp)+

lemma set_children_simps [simp]:
  "bvalue (set_children t cs) = bvalue t" "degree (set_children t cs) = degree t" "children (set_children t cs) = cs"
  by (cases t; simp)+

lemma swap_up_simps [simp]:
  "bvalue (swap_up t j) = bvalue (children t ! j)" "degree (swap_up t j) = degree t"
  "children (swap_up t j) = (children t)[j := set_value (children t ! j) (bvalue t)]"
  by (simp_all add: swap_up_def Let_def)

lemma lelems_update: "i < length ts \<Longrightarrow> lelems (ts[i := t]) + telems (ts ! i) = lelems ts + telems t"
  using lelems_remove [of i "ts[i := t]"] lelems_remove [of i ts] by (simp add: take_update_cancel drop_update_cancel ac_simps)

lemma telems_swap_up:
  assumes "j < length (children t)"
  shows "telems (swap_up t j) = telems t"
proof -
  let ?c = "children t ! j" and ?s = "set_value (children t ! j) (bvalue t)"
  let ?K = "lelems (children ?c)"
  have "add_mset (bvalue ?c) (lelems ((children t)[j := ?s])) + ?K = add_mset (bvalue t) (lelems (children t)) + ?K"
    using lelems_update [OF assms, of ?s] by (simp add: telems_node [of ?c] telems_node [of ?s])
  then have "add_mset (bvalue ?c) (lelems ((children t)[j := ?s])) = add_mset (bvalue t) (lelems (children t))"
    by (simp only: add_right_cancel)
  then show ?thesis by (simp add: telems_node [of t] telems_node [of "swap_up t j"])
qed

lemma node_at_Cons: "p \<noteq> [] \<Longrightarrow> node_at ts (i # p) = (if i < length ts then node_at (children (ts ! i)) p else None)"
  by (cases p) simp_all

lemma all_except:
  assumes "P (xs ! j)" "\<And>k. k < length xs \<Longrightarrow> k \<noteq> j \<Longrightarrow> P (xs ! k)"
  shows "\<forall>x\<in>set xs. P x"
  using assms by (metis in_set_conv_nth)

lemma map_degree_set_value [simp]: "map degree (cs[j := set_value (cs ! j) v]) = map degree cs"
proof (rule nth_equalityI)
  show "map degree (cs[j := set_value (cs ! j) v]) ! k = map degree cs ! k"
    if "k < length (map degree (cs[j := set_value (cs ! j) v]))" for k
    using that by (cases "k = j") simp_all
qed simp

lemma all_update:
  assumes "\<And>k. k < length xs \<Longrightarrow> k \<noteq> j \<Longrightarrow> P (xs ! k)" "P y"
  shows "\<forall>x\<in>set (xs[j := y]). P x"
proof
  fix x assume "x \<in> set (xs[j := y])"
  then obtain k where k: "k < length xs" "x = xs[j := y] ! k" by (auto simp: in_set_conv_nth)
  then show "P x" using assms by (cases "k = j") simp_all
qed

text \<open>What a climb from path \<open>i # p\<close> leaves: only tree \<open>i\<close> changes, and it keeps its shape.\<close>

definition climb_shape :: "'a bnode list \<Rightarrow> 'a bnode list \<Rightarrow> nat \<Rightarrow> bool" where
  "climb_shape ts ts' i \<longleftrightarrow> length ts' = length ts \<and> map degree ts' = map degree ts \<and> (\<forall>k. k \<noteq> i \<longrightarrow> ts' ! k = ts ! k)"

lemma climb_shape_update: "degree t = degree (ts ! i) \<Longrightarrow> climb_shape ts (ts[i := t]) i"
  by (cases "i < length ts") (auto simp: climb_shape_def map_update list_update_same_conv list_update_beyond)

text \<open>What \<open>decrease_climb\<close> promises, old value \<open>v\<close> and new value \<open>new\<close>.  If the climb reaches the root, the children are still
  ordered after the old root.\<close>

definition decreased :: "('a \<Rightarrow> 'a \<Rightarrow> bool) \<Rightarrow> 'a \<Rightarrow> 'a \<Rightarrow> 'a bnode list \<Rightarrow> nat \<Rightarrow> 'a bnode list \<Rightarrow> node_ptr \<Rightarrow> bool" where
  "decreased cmp new v ts i ts' q \<longleftrightarrow> i < length ts \<and> climb_shape ts ts' i \<and> (\<forall>t\<in>set ts'. bt cmp t) \<and>
    add_mset v (lelems ts') = add_mset new (lelems ts) \<and> (\<exists>t. node_at ts' q = Some t \<and> bvalue t = new) \<and>
    (if q = [i] then cmp new (bvalue (ts ! i)) \<and> (\<forall>c\<in>set (children (ts' ! i)). \<not> cmp (bvalue c) (bvalue (ts ! i)))
     else bvalue (ts' ! i) = bvalue (ts ! i) \<and> (\<exists>q'. q = i # q' \<and> q' \<noteq> []))"

lemma decreasedD:
  assumes "decreased cmp new v ts i ts' q"
  shows "i < length ts" "length ts' = length ts" "map degree ts' = map degree ts" "\<And>k. k \<noteq> i \<Longrightarrow> ts' ! k = ts ! k"
    "\<forall>t\<in>set ts'. bt cmp t" "add_mset v (lelems ts') = add_mset new (lelems ts)" "\<exists>t. node_at ts' q = Some t \<and> bvalue t = new"
    "q = [i] \<Longrightarrow> cmp new (bvalue (ts ! i)) \<and> (\<forall>c\<in>set (children (ts' ! i)). \<not> cmp (bvalue c) (bvalue (ts ! i))) \<and> bvalue (ts' ! i) = new"
    "q \<noteq> [i] \<Longrightarrow> bvalue (ts' ! i) = bvalue (ts ! i)" "q \<noteq> []"
  using assms unfolding decreased_def climb_shape_def by (auto split: if_splits)

lemma lelems_update_eq:
  assumes "i < length ts" "add_mset v (telems w) = add_mset new (telems (ts ! i))"
  shows "add_mset v (lelems (ts[i := w])) = add_mset new (lelems ts)"
proof -
  have "add_mset v (lelems (ts[i := w])) + telems (ts ! i) = lelems ts + add_mset v (telems w)"
    using lelems_update [OF assms(1), of w] by simp
  also have "\<dots> = add_mset new (lelems ts) + telems (ts ! i)" unfolding assms(2) by simp
  finally show ?thesis by (simp only: add_right_cancel)
qed

context strict_weak
begin

lemma decreased_here:
  assumes "i < length ts" "\<forall>t\<in>set ts. bt cmp t" "cmp new (bvalue (ts ! i))"
  shows "decreased cmp new (bvalue (ts ! i)) ts i (ts[i := set_value (ts ! i) new]) [i]"
proof -
  let ?t = "set_value (ts ! i) new"
  have b: "bt cmp (ts ! i)" using assms by simp
  have c: "\<forall>c\<in>set (children (ts ! i)). \<not> cmp (bvalue c) (bvalue (ts ! i))" using b by (simp add: bt_node [of cmp "ts ! i"])
  then have "\<forall>c\<in>set (children (ts ! i)). \<not> cmp (bvalue c) new" using assms(3) cmp_trans by blast
  then have "bt cmp ?t" using b by (simp add: bt_node [of cmp ?t] bt_node [of cmp "ts ! i"])
  then have "\<forall>t\<in>set (ts[i := ?t]). bt cmp t" using assms(2) by (intro all_update) auto
  moreover have "add_mset (bvalue (ts ! i)) (telems ?t) = add_mset new (telems (ts ! i))"
    by (simp add: telems_node [of ?t] telems_node [of "ts ! i"])
  ultimately show ?thesis using assms c by (simp add: decreased_def climb_shape_update lelems_update_eq)
qed

lemma decreased_swap:
  assumes i: "i < length ts" and b: "\<forall>t\<in>set ts. bt cmp t" and d: "decreased cmp new v (children (ts ! i)) j cs [j]"
    and up: "cmp new (bvalue (ts ! i))"
  shows "decreased cmp new v ts i (ts[i := swap_up (set_children (ts ! i) cs) j]) [i]"
proof -
  let ?t = "ts ! i" and ?u = "set_children (ts ! i) cs"
  have bt: "bt cmp ?t" using b i by simp
  have kv: "\<forall>c\<in>set (children ?t). \<not> cmp (bvalue c) (bvalue ?t)" using bt by (simp add: bt_node [of cmp ?t])
  note dd = decreasedD [OF d]
  have jc: "j < length cs" using dd(1,2) by simp
  have "bt cmp (cs ! j)" using dd(5) jc by simp
  moreover have "\<not> cmp (bvalue c) (bvalue ?t)" if "c \<in> set (children (cs ! j))" for c
    using dd(8) [OF refl] that kv dd(1) neg_trans [of "bvalue c" "bvalue (children ?t ! j)" "bvalue ?t"] by simp
  ultimately have bj: "bt cmp (set_value (cs ! j) (bvalue ?t))"
    by (simp add: bt_node [of cmp "set_value (cs ! j) (bvalue ?t)"] bt_node [of cmp "cs ! j"])
  let ?cs = "cs[j := set_value (cs ! j) (bvalue ?t)]"
  have ge: "\<forall>c\<in>set ?cs. \<not> cmp (bvalue c) (bvalue ?t)"
    using kv dd(2,4) by (intro all_update) auto
  then have "\<forall>c\<in>set ?cs. \<not> cmp (bvalue c) new" using up cmp_trans by blast
  moreover have "\<forall>c\<in>set ?cs. bt cmp c" using dd(5) bj by (intro all_update) auto
  moreover have "map degree ?cs = rev [0..<degree ?t]" using dd(3) bt by (simp add: bt_node [of cmp ?t])
  ultimately have "bt cmp (swap_up ?u j)" using dd(8) by (simp add: bt_node [of cmp "swap_up ?u j"])
  then have B: "\<forall>t\<in>set (ts[i := swap_up ?u j]). bt cmp t" using b by (intro all_update) auto
  have "telems (swap_up ?u j) = telems ?u" using jc by (intro telems_swap_up) simp
  then have "add_mset v (telems (swap_up ?u j)) = add_mset new (telems ?t)"
    using arg_cong [OF dd(6), of "add_mset (bvalue ?t)"] by (simp add: telems_node [of ?u] telems_node [of ?t] add_mset_commute)
  then show ?thesis using i B up ge dd(8) by (simp add: decreased_def climb_shape_update lelems_update_eq)
qed

lemma decreased_stop:
  assumes i: "i < length ts" and b: "\<forall>t\<in>set ts. bt cmp t" and d: "decreased cmp new v (children (ts ! i)) j cs r"
    and stop: "\<not> (r = [j] \<and> cmp new (bvalue (ts ! i)))"
  shows "decreased cmp new v ts i (ts[i := set_children (ts ! i) cs]) (i # r)"
proof -
  let ?t = "ts ! i" and ?u = "set_children (ts ! i) cs"
  have bt: "bt cmp ?t" using b i by simp
  have kv: "\<forall>c\<in>set (children ?t). \<not> cmp (bvalue c) (bvalue ?t)" using bt by (simp add: bt_node [of cmp ?t])
  note dd = decreasedD [OF d]
  have "\<not> cmp (bvalue (cs ! j)) (bvalue ?t)"
  proof (cases "r = [j]")
    case True
    then show ?thesis using dd(8) [OF True] stop by simp
  next
    case False
    then show ?thesis using dd(9) [OF False] kv nth_mem [OF dd(1)] by simp
  qed
  moreover have "\<not> cmp (bvalue (cs ! k)) (bvalue ?t)" if "k < length cs" "k \<noteq> j" for k using dd(2,4) kv that by simp
  ultimately have "\<forall>c\<in>set cs. \<not> cmp (bvalue c) (bvalue ?t)" by (rule all_except)
  then have "bt cmp ?u" using dd(3,5) bt by (simp add: bt_node [of cmp ?u] bt_node [of cmp ?t])
  then have B: "\<forall>t\<in>set (ts[i := ?u]). bt cmp t" using b by (intro all_update) auto
  have "add_mset v (telems ?u) = add_mset new (telems ?t)"
    using arg_cong [OF dd(6), of "add_mset (bvalue ?t)"] by (simp add: telems_node [of ?u] telems_node [of ?t] add_mset_commute)
  then have E: "add_mset v (lelems (ts[i := ?u])) = add_mset new (lelems ts)" using i by (intro lelems_update_eq)
  have N: "\<exists>t. node_at (ts[i := ?u]) (i # r) = Some t \<and> bvalue t = new" using dd(7,10) i by (simp add: node_at_Cons)
  have C: "climb_shape ts (ts[i := ?u]) i" by (rule climb_shape_update) simp
  have "i # r \<noteq> [i]" "bvalue (ts[i := ?u] ! i) = bvalue ?t" using dd(10) i by simp_all
  then show ?thesis unfolding decreased_def using dd(10) by (intro conjI i B E N C) simp_all
qed

lemma decrease_climb_spec:
  assumes "node_at ts (i # p) = Some t0" "\<forall>t\<in>set ts. bt cmp t" "cmp new (bvalue t0)"
    "decrease_climb cmp new ts (i # p) = (ts', q)"
  shows "decreased cmp new (bvalue t0) ts i ts' q"
  using assms
proof (induction p arbitrary: ts i ts' q)
  case Nil
  then show ?case using decreased_here [of i ts new] by (auto split: if_splits)
next
  case (Cons j p)
  let ?t = "ts ! i"
  have i: "i < length ts" "node_at (children ?t) (j # p) = Some t0" using Cons.prems(1) by (auto split: if_splits)
  have "bt cmp ?t" using Cons.prems(2) i by simp
  then have kb: "\<forall>t\<in>set (children ?t). bt cmp t" by (simp add: bt_node [of cmp ?t])
  obtain cs r where r: "decrease_climb cmp new (children ?t) (j # p) = (cs, r)" by (cases "decrease_climb cmp new (children ?t) (j # p)")
  note d = Cons.IH [OF i(2) kb Cons.prems(3) r]
  have vj: "r = [j] \<Longrightarrow> bvalue (cs ! j) = new" using decreasedD(8) [OF d] by simp
  have e: "(ts', q) = (if r = [j] \<and> cmp (bvalue (cs ! j)) (bvalue ?t) then (ts[i := swap_up (set_children ?t cs) j], [i])
      else (ts[i := set_children ?t cs], i # r))"
    using Cons.prems(4) r by (simp add: Let_def)
  show ?case
  proof (cases "r = [j] \<and> cmp (bvalue (cs ! j)) (bvalue ?t)")
    case True
    then show ?thesis using e vj decreased_swap [OF i(1) Cons.prems(2)] d by simp
  next
    case False
    then have "\<not> (r = [j] \<and> cmp new (bvalue ?t))" using vj by auto
    moreover have "ts' = ts[i := set_children ?t cs]" "q = i # r" using e False by (simp_all only: if_False prod.inject)
    ultimately show ?thesis using decreased_stop [OF i(1) Cons.prems(2) d] by simp
  qed
qed

lemma decrease_key_spec:
  assumes "bn_inv cmp h" "node_at (root_list h) node = Some t0" "cmp new (bvalue t0)"
  shows "\<exists>h'. decrease_key cmp h node new = Inr h' \<and> bn_inv cmp h' \<and>
    add_mset (bvalue t0) (bn_elems h') = add_mset new (bn_elems h)"
proof -
  let ?ts = "root_list h"
  obtain i p where node: "node = i # p" using assms(2) by (cases node) auto
  obtain ts q where c: "decrease_climb cmp new ?ts (i # p) = (ts, q)" by (cases "decrease_climb cmp new ?ts (i # p)")
  have ne: "?ts \<noteq> []" using assms(2) node by (cases p) (auto split: if_splits)
  have r: "\<forall>t\<in>set ?ts. bt cmp t" "sorted_wrt (<) (map degree ?ts)" "node_count h = size (bn_elems h)"
    using assms(1) by (auto simp: bn_inv_def bn_roots_def)
  obtain m where m: "m < length ?ts" "min_node h = Some [m]" "\<forall>t\<in>set ?ts. \<not> cmp (bvalue t) (bvalue (?ts ! m))"
    using assms(1) ne by (auto simp: bn_inv_def min_ok_def)
  note d = decrease_climb_spec [OF assms(2) [unfolded node] r(1) assms(3) c]
  note l = decreasedD(1,2,3) [OF d] and out = decreasedD(4) [OF d] and bt = decreasedD(5) [OF d] and el = decreasedD(6) [OF d]
  obtain cn where cn: "node_at ts q = Some cn" "bvalue cn = new" using decreasedD(7) [OF d] by blast
  have lst: "ts \<noteq> []" using l by auto
  let ?h = "if cmp new (bvalue (ts ! m)) then h\<lparr>root_list := ts, min_node := Some q\<rparr> else h\<lparr>root_list := ts\<rparr>"
  have e: "decrease_key cmp h node new = Inr ?h" using assms(2,3) c cn m l by (simp add: decrease_key_def node)
  have least: "\<not> cmp (bvalue (?ts ! k)) (bvalue (?ts ! m))" if "k < length ?ts" for k using m(3) that by simp
  have "min_ok cmp ts (min_node ?h)"
  proof (cases "q = [i]")
    case True
    have vi: "bvalue (ts ! i) = new" "cmp new (bvalue (?ts ! i))" using decreasedD(8) [OF d True] by auto
    have "\<not> cmp (bvalue (ts ! k)) new" if "k < length ts" "cmp new (bvalue (?ts ! m)) \<or> m = i" for k
    proof (cases "k = i")
      case False
      have "cmp new (bvalue (?ts ! m))" using that(2) vi(2) by auto
      then show ?thesis using least [of k] that(1) l out [OF False] cmp_trans by metis
    qed (simp add: vi)
    moreover have "\<not> cmp (bvalue (ts ! k)) (bvalue (ts ! m))" if "k < length ts" "m \<noteq> i" "\<not> cmp new (bvalue (ts ! m))" for k
      using that least [of k] l out [of k] out [of m] vi(1) by (cases "k = i") auto
    ultimately show ?thesis using lst m l True vi out [of m] by (cases "m = i") (auto simp: min_ok_def in_set_conv_nth)
  next
    case False
    then have vi: "bvalue (ts ! i) = bvalue (?ts ! i)" using decreasedD(9) [OF d] by simp
    have v: "bvalue (ts ! k) = bvalue (?ts ! k)" for k using vi out by (cases "k = i") auto
    have "\<not> cmp new (bvalue (?ts ! m))"
    proof (rule lelems_least)
      show "\<forall>t\<in>set ts. bt cmp t" by (rule bt)
      show "\<forall>t\<in>set ts. \<not> cmp (bvalue t) (bvalue (?ts ! m))" using least v l by (auto simp: in_set_conv_nth)
      have "new \<noteq> bvalue t0" using assms(3) by auto
      then show "new \<in># lelems ts" using el by (metis insert_noteq_member)
    qed
    then show ?thesis using lst m l v least by (auto simp: min_ok_def in_set_conv_nth)
  qed
  moreover have "size (lelems ts) = size (lelems ?ts)" using arg_cong [OF el, of size] by simp
  ultimately have "bn_inv cmp ?h" using bt r l by (auto simp: bn_inv_def bn_roots_def bn_elems_def)
  then show ?thesis using e el by (auto simp: bn_elems_def)
qed

lemma delete_climb_spec:
  assumes "node_at ts (i # p) = Some t0" "\<forall>t\<in>set ts. bt cmp t" "delete_climb ts (i # p) = ts'"
  shows "i < length ts \<and> climb_shape ts ts' i \<and> lelems ts' = lelems ts \<and> bvalue (ts' ! i) = bvalue t0 \<and> bt_kids cmp (ts' ! i) \<and>
    (\<forall>c\<in>set (children (ts' ! i)). \<not> cmp (bvalue c) (bvalue (ts ! i)))"
  using assms
proof (induction p arbitrary: ts i ts')
  case Nil
  then have "i < length ts" "t0 = ts ! i" "ts' = ts" "bt cmp (ts ! i)" by (auto split: if_splits)
  then show ?case by (auto simp: climb_shape_def bt_kids_def bt_node [of cmp "ts ! i"])
next
  case (Cons j p)
  let ?t = "ts ! i"
  have i: "i < length ts" "node_at (children ?t) (j # p) = Some t0" using Cons.prems(1) by (auto split: if_splits)
  have b: "bt cmp ?t" using Cons.prems(2) i by simp
  then have kb: "\<forall>t\<in>set (children ?t). bt cmp t" and kv: "\<forall>c\<in>set (children ?t). \<not> cmp (bvalue c) (bvalue ?t)"
    by (auto simp: bt_node [of cmp ?t])
  let ?cs = "delete_climb (children ?t) (j # p)"
  note IH = Cons.IH [OF i(2) kb refl]
  have j: "j < length (children ?t)" and lc: "length ?cs = length (children ?t)" "map degree ?cs = map degree (children ?t)"
    and other: "\<And>k. k \<noteq> j \<Longrightarrow> ?cs ! k = children ?t ! k" and el: "lelems ?cs = lelems (children ?t)"
    and kids: "bt_kids cmp (?cs ! j)" and vj: "bvalue (?cs ! j) = bvalue t0"
    and cj: "\<forall>c\<in>set (children (?cs ! j)). \<not> cmp (bvalue c) (bvalue (children ?t ! j))"
    using IH unfolding climb_shape_def by blast+
  let ?u = "set_children ?t ?cs" and ?s = "set_value (?cs ! j) (bvalue ?t)"
  have ts': "ts' = ts[i := swap_up ?u j]" using Cons.prems(3) by (simp add: Let_def)
  have "\<not> cmp (bvalue (children ?t ! j)) (bvalue ?t)" using kv nth_mem [OF j] by blast
  then have "\<forall>c\<in>set (children (?cs ! j)). \<not> cmp (bvalue c) (bvalue ?t)" using cj neg_trans by blast
  then have bs: "bt cmp ?s" using kids by (simp add: bt_node [of cmp ?s] bt_kids_def)
  have "bt cmp (?cs ! k) \<and> \<not> cmp (bvalue (?cs ! k)) (bvalue ?t)" if "k < length ?cs" "k \<noteq> j" for k
    using other [OF that(2)] kb kv that(1) lc by simp
  then have all: "\<forall>c\<in>set (?cs[j := ?s]). bt cmp c \<and> \<not> cmp (bvalue c) (bvalue ?t)"
    using bs by (intro all_update) auto
  have "map degree (?cs[j := ?s]) = rev [0..<degree ?t]"
    using lc b by (simp add: bt_node [of cmp ?t])
  then have "bt_kids cmp (swap_up ?u j)" using all by (simp add: bt_kids_def)
  moreover have "telems (swap_up ?u j) = telems ?t" using telems_swap_up [of j ?u] j lc el by (simp add: telems_node [of ?u] telems_node [of ?t])
  then have "lelems ts' = lelems ts" using lelems_update [OF i(1), of "swap_up ?u j"] unfolding ts' by simp
  moreover have "climb_shape ts ts' i" unfolding ts' by (rule climb_shape_update) simp
  moreover have "ts' ! i = swap_up ?u j" unfolding ts' using i(1) by simp
  ultimately show ?case using i(1) vj all by (simp del: delete_climb.simps)
qed

lemma delete_node_spec:
  assumes "bn_inv cmp h" "node_at (root_list h) node = Some t0"
  shows "\<exists>h'. delete_node cmp h node = Inr (bvalue t0, h') \<and> bn_inv cmp h' \<and> bn_elems h = add_mset (bvalue t0) (bn_elems h')"
proof -
  let ?ts = "root_list h"
  obtain i p where node: "node = i # p" using assms(2) by (cases node) auto
  have r: "\<forall>t\<in>set ?ts. bt cmp t" "sorted_wrt (<) (map degree ?ts)" "node_count h = size (bn_elems h)"
    using assms(1) by (auto simp: bn_inv_def bn_roots_def)
  let ?ts' = "delete_climb ?ts (i # p)"
  note d = delete_climb_spec [OF assms(2) [unfolded node] r(1) refl]
  let ?h = "h\<lparr>root_list := ?ts', min_node := Some [i]\<rparr>"
  have l: "i < length ?ts" "length ?ts' = length ?ts" "map degree ?ts' = map degree ?ts" "\<And>k. k \<noteq> i \<Longrightarrow> ?ts' ! k = ?ts ! k"
    using d by (auto simp: climb_shape_def)
  have "\<exists>h'. extract_min cmp ?h = Inr (bvalue (root_list ?h ! i), h') \<and> bn_inv cmp h' \<and>
    bn_elems ?h = add_mset (bvalue (root_list ?h ! i)) (bn_elems h')"
  proof (rule extract_root_spec)
    show "bt cmp (root_list ?h ! k)" if "k < length (root_list ?h)" "k \<noteq> i" for k using l r(1) that by simp
    show "node_count ?h = size (bn_elems ?h)" using r(3) d by (simp add: bn_elems_def)
  qed (use l d r in simp_all)
  then show ?thesis using assms(2) d by (simp add: delete_node_def node bn_elems_def)
qed

end

subsection \<open>Results\<close>

text \<open>C5: On binomial heaps that satisfy the invariant, insertion, melding and the extraction of the minimum keep it and act
  on the contents as on a multiset; melding empties the other heap, \<open>find_min\<close> shows an element that no other one precedes,
  and extraction from the empty heap is the library error.\<close>

theorem binomial_heap_refines_multiset:
  assumes "strict_weak cmp" "bn_inv cmp h" "bn_inv cmp other"
  shows "bn_inv cmp (bn_insert cmp h x) \<and> bn_elems (bn_insert cmp h x) = add_mset x (bn_elems h) \<and>
    bn_inv cmp (fst (bn_meld cmp h other)) \<and> bn_elems (fst (bn_meld cmp h other)) = bn_elems h + bn_elems other \<and>
    snd (bn_meld cmp h other) = bn_new \<and> (bn_empty h \<longleftrightarrow> bn_elems h = {#}) \<and>
    (if bn_empty h then extract_min cmp h = Inl (Library_error ''micron::__binomial_heap::extract_min() is empty'')
     else \<exists>y h'. find_min h = Inr y \<and> extract_min cmp h = Inr (y, h') \<and> bn_inv cmp h' \<and>
       bn_elems h = add_mset y (bn_elems h') \<and> (\<forall>z\<in>#bn_elems h. \<not> cmp z y))"
proof -
  have e: "bn_empty h \<longleftrightarrow> bn_elems h = {#}" using assms(2) by (auto simp: bn_empty_def bn_inv_def)
  have "\<exists>y h'. find_min h = Inr y \<and> extract_min cmp h = Inr (y, h') \<and> bn_inv cmp h' \<and>
       bn_elems h = add_mset y (bn_elems h') \<and> (\<forall>z\<in>#bn_elems h. \<not> cmp z y)" if ne: "bn_elems h \<noteq> {#}"
  proof -
    obtain y h' where y: "extract_min cmp h = Inr (y, h')" "bn_inv cmp h'" "bn_elems h = add_mset y (bn_elems h')"
      "\<forall>z\<in>#bn_elems h. \<not> cmp z y" using strict_weak.extract_min_spec [OF assms(1,2) ne] by blast
    have "find_min h = Inr y" using y(1)
      by (auto simp: extract_min_def find_min_def Let_def split: option.splits list.splits if_splits)
    then show ?thesis using y by blast
  qed
  then show ?thesis
    using strict_weak.insert_spec [OF assms(1,2)] strict_weak.meld_spec [OF assms] strict_weak.extract_min_empty [OF assms(1,2)] e
    by simp
qed

theorem binomial_heap_refines_multiset_witness:
  "\<exists>h'. extract_min (<) (bn_insert (<) (bn_insert (<) bn_new 5) (3 :: int)) = Inr (3, h') \<and> bn_elems h' = {#5#}"
proof -
  have i: "bn_inv (<) (bn_insert (<) (bn_insert (<) bn_new 5) (3 :: int)) \<and> bn_elems (bn_insert (<) (bn_insert (<) bn_new 5) (3 :: int)) = {#3, 5#}"
    using strict_weak.insert_spec [OF strict_weak_less] bn_new_inv by metis
  then show ?thesis
    using binomial_heap_refines_multiset [OF strict_weak_less, of "bn_insert (<) (bn_insert (<) bn_new 5) (3 :: int)" bn_new 0] bn_new_inv
    by (force simp: add_eq_conv_ex)
qed

text \<open>Decreasing the key at a node and deleting a node keep the invariant and change exactly that element, whatever
  place in its tree the node has; a decrease that is none leaves the heap as it is.\<close>

theorem binomial_node_updates:
  assumes "strict_weak cmp" "bn_inv cmp h" "node_at (root_list h) node = Some t"
  shows "(if cmp new (bvalue t)
      then \<exists>h'. decrease_key cmp h node new = Inr h' \<and> bn_inv cmp h' \<and> bn_elems h' = add_mset new (bn_elems h - {#bvalue t#})
      else decrease_key cmp h node new = Inr h) \<and>
    (\<exists>h'. delete_node cmp h node = Inr (bvalue t, h') \<and> bn_inv cmp h' \<and> bn_elems h' = bn_elems h - {#bvalue t#})"
proof -
  obtain h1 where d: "delete_node cmp h node = Inr (bvalue t, h1)" "bn_inv cmp h1" "bn_elems h = add_mset (bvalue t) (bn_elems h1)"
    using strict_weak.delete_node_spec [OF assms] by blast
  have "\<exists>h'. decrease_key cmp h node new = Inr h' \<and> bn_inv cmp h' \<and> bn_elems h' = add_mset new (bn_elems h - {#bvalue t#})"
    if "cmp new (bvalue t)"
    using strict_weak.decrease_key_spec [OF assms that] d(3) by (auto simp: add_mset_commute)
  moreover have "decrease_key cmp h node new = Inr h" if "\<not> cmp new (bvalue t)" using that assms(3) by (simp add: decrease_key_def)
  ultimately show ?thesis using d by simp
qed

theorem binomial_node_updates_witness:
  "let h = bn_insert (<) (bn_insert (<) bn_new 5) (3 :: int)
   in node_at (root_list h) [0, 0] = Some (BNode 5 0 []) \<and>
     (\<exists>h'. decrease_key (<) h [0, 0] 1 = Inr h' \<and> bn_elems h' = {#1, 3#}) \<and>
     (\<exists>h'. delete_node (<) h [0, 0] = Inr (5, h') \<and> bn_elems h' = {#3#})"
proof -
  let ?h = "bn_insert (<) (bn_insert (<) bn_new 5) (3 :: int)"
  have i: "bn_inv (<) ?h \<and> bn_elems ?h = {#3, 5#}"
    using strict_weak.insert_spec [OF strict_weak_less] bn_new_inv by metis
  have n: "node_at (root_list ?h) [0, 0] = Some (BNode 5 0 [])"
    by (simp add: bn_insert_def union_heap_def bn_new_def update_min_def bn_link_def Let_def)
  show ?thesis using binomial_node_updates [OF strict_weak_less _ n, of 1] i n by (auto simp: Let_def)
qed

text \<open>\<open>find\<close> returns a pointer to a node that holds the value exactly when the heap contains it.\<close>

theorem binomial_find_correct:
  "case bn_find h v of
     None \<Rightarrow> v \<notin># bn_elems h
   | Some p \<Rightarrow> v \<in># bn_elems h \<and> (\<exists>t. node_at (root_list h) p = Some t \<and> bvalue t = v)"
proof (cases "bn_find h v")
  case None
  then show ?thesis using find_recursive_complete [of 0 "root_list h" v] by (simp add: bn_find_def bn_elems_def)
next
  case (Some p)
  then show ?thesis
    using find_recursive_sound [of 0 "root_list h" v p] find_recursive_complete [of 0 "root_list h" v]
    by (auto simp: bn_find_def bn_elems_def)
qed

lemma strict_nth_ge: "sorted_wrt (<) (ds :: nat list) \<Longrightarrow> i < length ds \<Longrightarrow> i \<le> ds ! i"
proof (induction i)
  case (Suc i)
  then have "ds ! i < ds ! Suc i" by (simp add: sorted_wrt_iff_nth_less)
  then show ?case using Suc by simp
qed simp

lemma strict_sum_powers: "sorted_wrt (<) (ds :: nat list) \<Longrightarrow> 2 ^ length ds \<le> (\<Sum>d\<leftarrow>ds. 2 ^ d) + (1 :: nat)"
proof (induction ds rule: rev_induct)
  case (snoc d ds)
  have "length ds \<le> d" using strict_nth_ge [OF snoc.prems, of "length ds"] by simp
  then have "(2 :: nat) ^ length ds \<le> 2 ^ d" by (intro power_increasing) auto
  moreover have "sorted_wrt (<) ds" using snoc.prems by (simp add: sorted_wrt_append)
  ultimately have "2 ^ length ds + 2 ^ length ds \<le> ((\<Sum>d\<leftarrow>ds. 2 ^ d) + 1) + (2 :: nat) ^ d" using snoc.IH by (intro add_mono) auto
  then show ?case by simp
qed simp

text \<open>A binomial heap of \<open>n\<close> elements has at most \<open>log\<^sub>2 (n + 1)\<close> trees, of different degrees, and a tree of degree \<open>d\<close> holds
  \<open>2 ^ d\<close> elements, so every loop over the root list or over a node's children is logarithmic.\<close>

theorem binomial_heap_bounds:
  assumes "bn_inv cmp h"
  shows "2 ^ length (root_list h) \<le> bn_size h + 1 \<and> distinct (map degree (root_list h)) \<and>
    (\<forall>t\<in>set (root_list h). size (telems t) = 2 ^ degree t \<and> length (children t) = degree t \<and> 2 ^ degree t \<le> bn_size h)"
proof -
  let ?ts = "root_list h"
  have b: "\<forall>t\<in>set ?ts. bt cmp t" and s: "sorted_wrt (<) (map degree ?ts)" and n: "bn_size h = size (lelems ?ts)"
    using assms by (auto simp: bn_inv_def bn_roots_def bn_size_def bn_elems_def)
  have sz: "size (lelems ts) = (\<Sum>d\<leftarrow>map degree ts. 2 ^ d)" if "\<forall>t\<in>set ts. bt cmp t" for ts
    using that by (induction ts) (auto simp: bt_size)
  have "2 ^ length ?ts \<le> bn_size h + 1" using strict_sum_powers [OF s] sz [OF b] n by simp
  moreover have "size (telems t) = 2 ^ degree t \<and> length (children t) = degree t \<and> 2 ^ degree t \<le> bn_size h" if t: "t \<in> set ?ts" for t
  proof -
    have bt: "bt cmp t" using b t by blast
    then have "length (children t) = degree t" by (metis bt_node length_map length_rev length_upt diff_zero)
    moreover have "size (telems t) \<le> size (lelems ?ts)" using t by (induction ?ts) (auto simp: lelems_def intro!: size_mset_mono dest!: split_list)
    ultimately show ?thesis using bt_size [OF bt] n by simp
  qed
  moreover have "distinct (map degree ?ts)" using s strict_sorted_iff by blast
  ultimately show ?thesis by blast
qed

theorem binomial_heap_bounds_witness:
  "2 ^ length (root_list (bn_insert (<) (bn_insert (<) bn_new 5) (3 :: int))) \<le> bn_size (bn_insert (<) (bn_insert (<) bn_new 5) (3 :: int)) + 1"
proof -
  have "bn_inv (<) (bn_insert (<) (bn_insert (<) bn_new 5) (3 :: int))"
    using strict_weak.insert_spec [OF strict_weak_less] bn_new_inv by metis
  then show ?thesis using binomial_heap_bounds [of "(<)" "bn_insert (<) (bn_insert (<) bn_new 5) (3 :: int)"] by blast
qed

text \<open>Draining any of the three heaps returns, leaves the heap empty and yields its elements in order: descending for the
  bounded heap, ascending for the heap queue and the binomial heap.\<close>

theorem heaps_drain_sorted:
  assumes "bh_inv h" "hq_inv q" "bn_inv (<) b"
  shows "(\<exists>xs h'. drain_sorted bh_size bh_get h = Some (Inr (xs, h')) \<and> mset xs = mset (memory h) \<and> sorted (rev xs) \<and> bh_size h' = 0) \<and>
    (\<exists>q'. drain_sorted hq_size hq_pop q = Some (Inr (sort q, q')) \<and> hq_size q' = 0) \<and>
    (\<exists>xs b'. drain_sorted bn_size (extract_min (<)) b = Some (Inr (xs, b')) \<and> mset xs = bn_elems b \<and> sorted xs \<and> bn_size b' = 0)"
proof -
  obtain xs h' where 1: "drain_sorted bh_size bh_get h = Some (Inr (xs, h'))" "mset xs = mset (memory h)"
    "sorted_by (\<lambda>x y. y < x) xs" "mset (memory h') = {#}" using bhp.drain_sorted_sorts [OF assms(1)] by blast
  obtain ys q' where 2: "drain_sorted hq_size hq_pop q = Some (Inr (ys, q'))" "mset ys = mset q" "sorted_by (<) ys" "mset q' = {#}"
    using hqp.drain_sorted_sorts [OF assms(2)] by blast
  obtain zs b' where 3: "drain_sorted bn_size (extract_min (<)) b = Some (Inr (zs, b'))" "mset zs = bn_elems b" "sorted_by (<) zs"
    "bn_elems b' = {#}" "bn_inv (<) b'" using bnp.drain_loop_sorts [OF assms(3), of "[]"] by (auto simp: drain_sorted_def)
  have "sorted (rev xs)" using 1(3) by (simp add: sorted_by_def sorted_wrt_rev not_less)
  moreover have "sorted ys" "sorted zs" using 2(3) 3(3) by (simp_all add: sorted_by_def not_less)
  moreover from this have "ys = sort q" using 2(2) by (metis properties_for_sort)
  ultimately show ?thesis using 1 2 3 by (auto simp: bh_size_def hq_size_def bn_size_elems)
qed

theorem heaps_drain_sorted_witness:
  "\<exists>q'. drain_sorted hq_size hq_pop (hq_of_vector [4, 2, 7 :: int]) = Some (Inr ([2, 4, 7], q')) \<and> hq_size q' = 0"
proof -
  have "hq_inv (hq_of_vector [4, 2, 7 :: int])" "mset (hq_of_vector [4, 2, 7 :: int]) = mset [2, 4, 7]"
    using hq_of_vector_spec [of "[4, 2, 7 :: int]"] by auto
  moreover from this have "sort (hq_of_vector [4, 2, 7 :: int]) = [2, 4, 7]" by (intro properties_for_sort) auto
  moreover have "bh_inv (bh_new (\<lambda>k. k) 4096 4 0 :: int binary_heap)" by (simp add: bh_inv_def bh_new_def hp_def)
  ultimately show ?thesis using heaps_drain_sorted [of "bh_new (\<lambda>k. k) 4096 4 0 :: int binary_heap" "hq_of_vector [4, 2, 7 :: int]" "bn_new :: int binomial"] bn_new_inv by auto
qed

end
