(* ===== verification/Lock_Base.thy ===== *)
theory Lock_Base
  imports "HOL-Library.Word"
begin

text \<open>
  What a lock promises, for the lock classes of \<^verbatim>\<open>src/src/mutex\<close>: a transition system of its threads, an invariant that every
  step keeps, and exclusion as a consequence of the invariant.  Threads take atomic steps one at a time, in any order
  (sequentially consistent memory); the acquire and release orders of the source are what makes this adequate for the
  data that the lock protects.
\<close>

type_synonym u32 = "32 word"

subsection \<open>Transition systems and invariants\<close>

locale invariant_system =
  fixes start :: "'s \<Rightarrow> bool"
    and step :: "'s \<Rightarrow> 's \<Rightarrow> bool"
    and inv :: "'s \<Rightarrow> bool"
  assumes start_inv: "start s \<Longrightarrow> inv s"
    and step_inv: "inv s \<Longrightarrow> step s s' \<Longrightarrow> inv s'"
begin

lemma run_inv: "inv s \<Longrightarrow> step\<^sup>*\<^sup>* s s' \<Longrightarrow> inv s'"
  by (rotate_tac, induction rule: rtranclp_induct) (auto intro: step_inv)

lemma reach_inv: "start s \<Longrightarrow> step\<^sup>*\<^sup>* s s' \<Longrightarrow> inv s'"
  using start_inv run_inv by blast

end

subsection \<open>Exclusive locks\<close>

locale exclusive_lock = invariant_system +
  fixes inside :: "'s \<Rightarrow> 't \<Rightarrow> bool"
  assumes inv_exclusive: "inv s \<Longrightarrow> inside s t \<Longrightarrow> inside s u \<Longrightarrow> t = u"
begin

lemma exclusion: "start s \<Longrightarrow> step\<^sup>*\<^sup>* s s' \<Longrightarrow> inside s' t \<Longrightarrow> inside s' u \<Longrightarrow> t = u"
  using reach_inv inv_exclusive by blast

end

subsection \<open>Reader-writer locks\<close>

locale shared_exclusive_lock = invariant_system +
  fixes reading writing :: "'s \<Rightarrow> 't \<Rightarrow> bool"
  assumes writers_exclusive: "inv s \<Longrightarrow> writing s t \<Longrightarrow> writing s u \<Longrightarrow> t = u"
    and readers_exclude_writers: "inv s \<Longrightarrow> writing s t \<Longrightarrow> \<not> reading s u"
begin

lemma shared_exclusion:
  "start s \<Longrightarrow> step\<^sup>*\<^sup>* s s' \<Longrightarrow> writing s' t \<Longrightarrow> \<not> reading s' u \<and> (writing s' v \<longrightarrow> v = t)"
  using reach_inv writers_exclusive readers_exclude_writers by blast

end

sublocale shared_exclusive_lock \<subseteq> writers: exclusive_lock start step inv writing
  by unfold_locales (rule writers_exclusive)

end
