(* ===== verification/Heap_Concurrent.thy ===== *)
theory Heap_Concurrent
  imports Heap_Array Lock_Base
begin

text \<open>
  Heap queues shared by threads (\<^verbatim>\<open>src/src/heap/heapq.hpp\<close>).  Every operation holds the mutex of its object; the two assignment operators
  hold the mutexes of both objects and take the one at the lower address first.  Objects are named by the addresses of their
  mutexes.  The mutex is the \<^verbatim>\<open>fast_mutex\<close> of \<open>Lock_Flag\<close>, taken here as one step that is possible when nobody holds it; because the
  holder is alone, what it does to the objects whose mutexes it holds is one step too.
\<close>

subsection \<open>Calls and their steps\<close>

datatype 'a hq_call = Call_push nat 'a | Call_pop nat | Call_look nat | Call_assign nat nat | Call_move nat nat

text \<open>The mutexes a call takes, in order.\<close>

definition lock_pair :: "nat \<Rightarrow> nat \<Rightarrow> nat list" where
  "lock_pair self other =
     (if self = other then []
      else let self_first = self < other
           in [if self_first then self else other, if self_first then other else self])"

fun hq_locks :: "'a hq_call \<Rightarrow> nat list" where
  "hq_locks (Call_push a v) = [a]"
| "hq_locks (Call_pop a) = [a]"
| "hq_locks (Call_look a) = [a]"
| "hq_locks (Call_assign a b) = lock_pair a b"
| "hq_locks (Call_move a b) = lock_pair a b"

text \<open>What the call does to the objects; \<open>pop\<close> on an empty queue throws and leaves it as it is.\<close>

fun hq_effect :: "'a :: linorder hq_call \<Rightarrow> (nat \<Rightarrow> 'a heapq) \<Rightarrow> nat \<Rightarrow> 'a heapq" where
  "hq_effect (Call_push a v) m = m(a := hq_push (m a) v)"
| "hq_effect (Call_pop a) m = (case hq_pop (m a) of Inl _ \<Rightarrow> m | Inr (_, q) \<Rightarrow> m(a := q))"
| "hq_effect (Call_look a) m = m"
| "hq_effect (Call_assign a b) m = (if a = b then m else m(a := hq_copy (m b)))"
| "hq_effect (Call_move a b) m = (if a = b then m else m(a := m b, b := []))"

text \<open>A thread is outside, or in a call with the mutexes it holds and those it still has to take, or on its way out with the
  mutexes it has still to release, the last taken first.\<close>

datatype 'a hq_pc = H_out | H_taking "'a hq_call" "nat list" "nat list" | H_leaving "nat list"

record ('t, 'a) hq_sys =
  objects :: "nat \<Rightarrow> 'a heapq"
  holder :: "nat \<Rightarrow> 't option"
  hpc :: "'t \<Rightarrow> 'a hq_pc"

inductive hq_begin :: "'t set \<Rightarrow> ('t, 'a :: linorder) hq_sys \<Rightarrow> ('t, 'a) hq_sys \<Rightarrow> bool" for ts where
  "t \<in> ts \<Longrightarrow> hpc s t = H_out \<Longrightarrow> hq_begin ts s (s\<lparr>hpc := (hpc s)(t := H_taking c [] (hq_locks c))\<rparr>)"

inductive hq_move :: "('t, 'a :: linorder) hq_sys \<Rightarrow> ('t, 'a) hq_sys \<Rightarrow> bool" where
  take_mutex: "hpc s t = H_taking c held (a # rest) \<Longrightarrow> holder s a = None \<Longrightarrow>
    hq_move s (s\<lparr>holder := (holder s)(a := Some t), hpc := (hpc s)(t := H_taking c (a # held) rest)\<rparr>)"
| work: "hpc s t = H_taking c held [] \<Longrightarrow>
    hq_move s (s\<lparr>objects := hq_effect c (objects s), hpc := (hpc s)(t := H_leaving held)\<rparr>)"
| release: "hpc s t = H_leaving (a # held) \<Longrightarrow>
    hq_move s (s\<lparr>holder := (holder s)(a := None), hpc := (hpc s)(t := H_leaving held)\<rparr>)"
| return: "hpc s t = H_leaving [] \<Longrightarrow> hq_move s (s\<lparr>hpc := (hpc s)(t := H_out)\<rparr>)"

definition hq_step :: "'t set \<Rightarrow> ('t, 'a :: linorder) hq_sys \<Rightarrow> ('t, 'a) hq_sys \<Rightarrow> bool" where
  "hq_step ts s s' \<longleftrightarrow> hq_begin ts s s' \<or> hq_move s s'"

definition hq_idle :: "(nat \<Rightarrow> 'a heapq) \<Rightarrow> ('t, 'a) hq_sys" where
  "hq_idle m = \<lparr>objects = m, holder = (\<lambda>_. None), hpc = (\<lambda>_. H_out)\<rparr>"

subsection \<open>The invariant\<close>

fun holding :: "'a hq_pc \<Rightarrow> nat list" where
  "holding H_out = []"
| "holding (H_taking c held rest) = held"
| "holding (H_leaving held) = held"

text \<open>The mutexes are taken in ascending order, each once.\<close>

fun order_ok :: "'a hq_pc \<Rightarrow> bool" where
  "order_ok (H_taking c held rest) = (sorted_wrt (<) (rev held @ rest))"
| "order_ok (H_leaving held) = distinct held"
| "order_ok H_out = True"

definition hq_sys_inv :: "'t set \<Rightarrow> ('t, 'a :: linorder) hq_sys \<Rightarrow> bool" where
  "hq_sys_inv ts s \<longleftrightarrow>
     {t. hpc s t \<noteq> H_out} \<subseteq> ts \<and> (\<forall>t. order_ok (hpc s t)) \<and>
     (\<forall>t a. holder s a = Some t \<longleftrightarrow> a \<in> set (holding (hpc s t))) \<and>
     (\<forall>a. hq_inv (objects s a))"

lemma lock_pair_sorted: "sorted_wrt (<) (lock_pair a b)"
  by (auto simp: lock_pair_def Let_def)

lemma hq_locks_sorted: "sorted_wrt (<) (hq_locks c)"
  by (cases c) (simp_all add: lock_pair_sorted)

lemma hq_inv_empty: "hq_inv ([] :: 'a :: linorder heapq)"
  using hq_of_vector_spec [of "[] :: 'a list"] by auto

lemma hq_pop_inv: "hq_inv q \<Longrightarrow> hq_pop q = Inr (x, q') \<Longrightarrow> hq_inv q'"
  using hq_pop_some [of q] by (cases "q = []") (auto simp: hq_pop_def)

lemma hq_effect_inv: "\<forall>a. hq_inv (m a) \<Longrightarrow> hq_inv (hq_effect c m a)"
  by (cases c) (auto simp: hq_push_spec hq_copy_id hq_inv_empty split: sum.splits dest: hq_pop_inv)

lemma hq_begin_inv: "hq_sys_inv ts s \<Longrightarrow> hq_begin ts s s' \<Longrightarrow> hq_sys_inv ts s'"
  by (erule hq_begin.cases) (auto simp: hq_sys_inv_def hq_locks_sorted)

lemma hq_move_inv:
  assumes inv: "hq_sys_inv ts s" and st: "hq_move s s'"
  shows "hq_sys_inv ts s'"
  using st
proof cases
  case (take_mutex t c held a rest)
  have h: "holder s b = Some u \<longleftrightarrow> b \<in> set (holding (hpc s u))" for b u using inv by (simp add: hq_sys_inv_def)
  have "holder s' b = Some u \<longleftrightarrow> b \<in> set (holding (hpc s' u))" for b u
    using take_mutex h [of b u] h [of a u] by auto
  moreover have "order_ok (hpc s t)" using inv by (simp add: hq_sys_inv_def)
  moreover have "t \<in> ts" using inv take_mutex by (auto simp: hq_sys_inv_def)
  ultimately show ?thesis using take_mutex inv by (auto simp: hq_sys_inv_def)
next
  case (work t c held)
  have "t \<in> ts" using inv work by (auto simp: hq_sys_inv_def)
  moreover have "order_ok (hpc s t)" using inv by (simp add: hq_sys_inv_def)
  then have "distinct held" using work by (simp add: strict_sorted_iff)
  ultimately show ?thesis using work inv hq_effect_inv [of "objects s" c] by (auto simp: hq_sys_inv_def)
next
  case (release t a held)
  have h: "holder s b = Some u \<longleftrightarrow> b \<in> set (holding (hpc s u))" for b u using inv by (simp add: hq_sys_inv_def)
  have d: "order_ok (hpc s t)" using inv by (simp add: hq_sys_inv_def)
  have "holder s' b = Some u \<longleftrightarrow> b \<in> set (holding (hpc s' u))" for b u
    using release d h [of b u] h [of a u] h [of a t] by auto
  moreover have "t \<in> ts" using inv release by (auto simp: hq_sys_inv_def)
  ultimately show ?thesis using release inv d by (auto simp: hq_sys_inv_def)
next
  case (return t) then show ?thesis using inv by (auto simp: hq_sys_inv_def)
qed

lemma hq_step_inv: "hq_sys_inv ts s \<Longrightarrow> hq_step ts s s' \<Longrightarrow> hq_sys_inv ts s'"
  using hq_begin_inv hq_move_inv by (auto simp: hq_step_def)

text \<open>Each mutex excludes.\<close>

interpretation hqm: exclusive_lock "\<lambda>s. \<exists>m. (\<forall>a. hq_inv (m a)) \<and> s = hq_idle m" "hq_step ts" "hq_sys_inv ts"
  "\<lambda>s t. a \<in> set (holding (hpc s t))" for ts :: "'t set" and a
proof unfold_locales
  show "\<exists>m. (\<forall>a. hq_inv (m a)) \<and> s = hq_idle m \<Longrightarrow> hq_sys_inv ts s" for s :: "('t, 'a) hq_sys"
    by (auto simp: hq_idle_def hq_sys_inv_def)
  show "t = u" if "hq_sys_inv ts s" "a \<in> set (holding (hpc s t))" "a \<in> set (holding (hpc s u))" for s :: "('t, 'a) hq_sys" and t u
  proof -
    have "holder s a = Some t" "holder s a = Some u" using that by (simp_all add: hq_sys_inv_def)
    then show ?thesis by simp
  qed
qed (rule hq_step_inv)

subsection \<open>No deadlock, and every call ends\<close>

fun call_left :: "'a hq_pc \<Rightarrow> nat" where
  "call_left H_out = 0"
| "call_left (H_leaving held) = Suc (length held)"
| "call_left (H_taking c held rest) = 2 + length held + 2 * length rest"

definition calls_left :: "'t set \<Rightarrow> ('t, 'a) hq_sys \<Rightarrow> nat" where
  "calls_left ts s = (\<Sum>t\<in>ts. call_left (hpc s t))"

lemma calls_left_upd:
  assumes "finite ts" "t \<in> ts" "hpc s' = (hpc s)(t := p)" "Suc (call_left p) = call_left (hpc s t)"
  shows "Suc (calls_left ts s') = calls_left ts s"
proof -
  have "(\<Sum>u\<in>ts - {t}. call_left (hpc s' u)) = (\<Sum>u\<in>ts - {t}. call_left (hpc s u))" using assms(3) by (intro sum.cong) auto
  then show ?thesis using assms unfolding calls_left_def by (simp add: sum.remove [OF assms(1,2)])
qed

lemma hq_move_left:
  assumes "hq_sys_inv ts s" "finite ts" "hq_move s s'"
  shows "Suc (calls_left ts s') = calls_left ts s"
proof -
  have ts: "hpc s t \<noteq> H_out \<Longrightarrow> t \<in> ts" for t using assms(1) by (auto simp: hq_sys_inv_def)
  from assms(3) show ?thesis
  proof cases
    case (take_mutex t c held a rest)
    then show ?thesis using ts [of t] by (intro calls_left_upd [OF assms(2), of t s' s "H_taking c (a # held) rest"]) simp_all
  next
    case (work t c held)
    then show ?thesis using ts [of t] by (intro calls_left_upd [OF assms(2), of t s' s "H_leaving held"]) simp_all
  next
    case (release t a held)
    then show ?thesis using ts [of t] by (intro calls_left_upd [OF assms(2), of t s' s "H_leaving held"]) simp_all
  next
    case (return t)
    then show ?thesis using ts [of t] by (intro calls_left_upd [OF assms(2), of t s' s H_out]) simp_all
  qed
qed

lemma hq_moves_left:
  assumes "hq_sys_inv ts s" "finite ts" "(hq_move ^^ n) s s'"
  shows "calls_left ts s' + n = calls_left ts s"
proof -
  have "hq_sys_inv ts s' \<and> calls_left ts s' + n = calls_left ts s" using assms(3)
  proof (induction n arbitrary: s')
    case (Suc n)
    then obtain r where r: "(hq_move ^^ n) s r" "hq_move r s'" by auto
    with Suc.IH [OF r(1)] show ?case using hq_move_left [of ts r s'] hq_move_inv [of ts r s'] assms(2) by auto
  qed (use assms in simp)
  then show ?thesis by simp
qed

text \<open>Of the threads that want a mutex, consider one that wants the highest: the holder of that mutex wants none.\<close>

lemma hq_no_deadlock:
  assumes inv: "hq_sys_inv ts s" and fin: "finite ts" and busy: "hpc s t \<noteq> H_out"
  shows "\<exists>s'. hq_move s s'"
proof (rule ccontr)
  assume stuck: "\<nexists>s'. hq_move s s'"
  define wants where "wants = {a. \<exists>u c held rest. hpc s u = H_taking c held (a # rest)}"
  have wanting: "\<exists>c held a rest. hpc s u = H_taking c held (a # rest)" if "hpc s u \<noteq> H_out" for u
  proof (cases "hpc s u")
    case (H_taking c held rest)
    then show ?thesis using stuck hq_move.work [of s u c held] by (cases rest) auto
  next
    case (H_leaving held)
    then show ?thesis using stuck hq_move.release [of s u] hq_move.return [of s u] by (cases held) auto
  qed (use that in simp)
  have "wants \<subseteq> (\<lambda>u. case hpc s u of H_taking c held (a # rest) \<Rightarrow> a | _ \<Rightarrow> 0) ` ts"
  proof
    fix a assume "a \<in> wants"
    then obtain u c held rest where u: "hpc s u = H_taking c held (a # rest)" by (auto simp: wants_def)
    then have "u \<in> ts" using inv by (auto simp: hq_sys_inv_def)
    then show "a \<in> (\<lambda>u. case hpc s u of H_taking c held (a # rest) \<Rightarrow> a | _ \<Rightarrow> 0) ` ts" using u by (auto simp: image_iff intro!: bexI [of _ u])
  qed
  then have fw: "finite wants" using fin finite_surj by blast
  have ne: "wants \<noteq> {}" using wanting [OF busy] unfolding wants_def by blast
  define a where "a = Max wants"
  have "a \<in> wants" unfolding a_def using fw ne by (rule Max_in)
  then obtain u c held rest where u: "hpc s u = H_taking c held (a # rest)" by (auto simp: wants_def)
  have "holder s a \<noteq> None" using stuck hq_move.take_mutex [OF u] by auto
  then obtain v where "holder s a = Some v" by auto
  then have v: "a \<in> set (holding (hpc s v))" using inv by (simp add: hq_sys_inv_def)
  then have "hpc s v \<noteq> H_out" by auto
  then obtain c' held' b rest' where v': "hpc s v = H_taking c' held' (b # rest')" using wanting by blast
  have "order_ok (hpc s v)" using inv by (simp add: hq_sys_inv_def)
  then have "a < b" using v v' by (simp add: sorted_wrt_append)
  moreover have "b \<le> a" unfolding a_def using fw v' by (intro Max_ge) (auto simp: wants_def)
  ultimately show False by simp
qed

text \<open>When no further call begins, the calls under way all return: a state in which nothing can move has no call left, and such a state is
  reached after exactly as many steps as the calls have left.\<close>

lemma hq_moves_inv: "hq_move\<^sup>*\<^sup>* s s' \<Longrightarrow> hq_sys_inv ts s \<Longrightarrow> hq_sys_inv ts s'"
  by (induction rule: rtranclp_induct) (auto intro: hq_move_inv)

lemma hq_all_return:
  assumes "hq_sys_inv ts s" "finite ts"
  shows "\<exists>s'. (hq_move ^^ calls_left ts s) s s' \<and> (\<forall>t. hpc s' t = H_out)"
  using assms(1)
proof (induction "calls_left ts s" arbitrary: s)
  case 0
  have "hpc s t = H_out" for t
    using hq_no_deadlock [OF 0(2) assms(2), of t] hq_move_left [OF 0(2) assms(2)] 0(1) by fastforce
  then show ?case using 0(1) by (metis relpowp_0_I)
next
  case (Suc n)
  have "\<exists>t. hpc s t \<noteq> H_out"
  proof (rule ccontr)
    assume "\<nexists>t. hpc s t \<noteq> H_out"
    then show False using Suc(2) by (simp add: calls_left_def)
  qed
  then obtain r where r: "hq_move s r" using hq_no_deadlock [OF Suc(3) assms(2)] by blast
  have n: "n = calls_left ts r" using hq_move_left [OF Suc(3) assms(2) r] Suc(2) by simp
  obtain s' where "(hq_move ^^ n) r s'" "\<forall>t. hpc s' t = H_out" using Suc(1) [OF n hq_move_inv [OF Suc(3) r]] n by auto
  then show ?case using r Suc(2) by (metis relpowp_Suc_I2)
qed

subsection \<open>Properties\<close>

text \<open>C4: Any number of threads call the operations of any number of heap queues, the assignments of two queues to each other included.  At
  every moment every queue is heap-ordered and each mutex is held by at most one thread; as long as a call is under way some
  thread in a call can go on, so there is no deadlock.  If from some moment on no new call begins, the calls under way all return, whatever the
  scheduler does: a run makes exactly as many steps as the calls have left, it can always be continued to that length, and when it cannot go on every
  thread is out of its call.  The mutex is not fair, so while new calls keep beginning a waiting one may be overtaken again and again; nothing is claimed of
  it then.\<close>

theorem heapq_threads_progress:
  fixes m :: "nat \<Rightarrow> 'a :: linorder heapq" and s :: "('t, 'a) hq_sys"
  assumes "finite ts" "\<And>a. hq_inv (m a)" "(hq_step ts)\<^sup>*\<^sup>* (hq_idle m) s"
  shows "(\<forall>a. hq_inv (objects s a))
       \<and> (\<forall>a t u. a \<in> set (holding (hpc s t)) \<and> a \<in> set (holding (hpc s u)) \<longrightarrow> t = u)
       \<and> ((\<exists>t. hpc s t \<noteq> H_out) \<longrightarrow> (\<exists>s'. hq_move s s'))
       \<and> (\<forall>n s'. (hq_move ^^ n) s s' \<longrightarrow> calls_left ts s' + n = calls_left ts s)
       \<and> (\<exists>s'. (hq_move ^^ calls_left ts s) s s' \<and> (\<forall>t. hpc s' t = H_out))
       \<and> (\<forall>s'. hq_move\<^sup>*\<^sup>* s s' \<and> (\<nexists>s''. hq_move s' s'') \<longrightarrow> (\<forall>t. hpc s' t = H_out))"
proof -
  have start: "\<exists>m'. (\<forall>a. hq_inv (m' a)) \<and> hq_idle m = (hq_idle m' :: ('t, 'a) hq_sys)" using assms(2) by blast
  have inv: "hq_sys_inv ts s" using hqm.reach_inv [OF start assms(3)] .
  have "\<forall>t. hpc s' t = H_out" if "hq_move\<^sup>*\<^sup>* s s' \<and> (\<nexists>s''. hq_move s' s'')" for s'
    using that hq_no_deadlock [OF hq_moves_inv [OF _ inv] assms(1), of s'] by blast
  then show ?thesis
    using inv hqm.inv_exclusive [OF inv] hq_no_deadlock [OF inv assms(1)] hq_moves_left [OF inv assms(1)] hq_all_return [OF inv assms(1)]
    by (auto simp: hq_sys_inv_def)
qed

theorem heapq_threads_progress_witness:
  "\<exists>s'. (hq_move ^^ 6) (hq_idle (\<lambda>_. [] :: int list)\<lparr>hpc := (\<lambda>_. H_out)(0 :: nat := H_taking (Call_assign 3 1) [] [1, 3])\<rparr>) s' \<and>
    (\<forall>t. hpc s' t = H_out)"
proof -
  let ?i = "hq_idle (\<lambda>_. []) :: (nat, int) hq_sys"
  let ?s = "?i\<lparr>hpc := (\<lambda>_. H_out)(0 := H_taking (Call_assign 3 1) [] [1, 3])\<rparr>"
  have "hq_begin {0, 1} ?i (?i\<lparr>hpc := (hpc ?i)(0 := H_taking (Call_assign 3 1) [] (hq_locks (Call_assign 3 1)))\<rparr>)"
    using hq_begin.intros [of 0 "{0, 1}" ?i "Call_assign 3 1"] by (simp add: hq_idle_def)
  then have "(hq_step {0, 1})\<^sup>*\<^sup>* ?i ?s" by (auto simp: hq_step_def hq_idle_def lock_pair_def)
  from heapq_threads_progress [OF _ _ this] have "\<exists>s'. (hq_move ^^ calls_left {0, 1} ?s) ?s s' \<and> (\<forall>t. hpc s' t = H_out)" by (simp add: hq_inv_empty)
  moreover have "calls_left {0, 1} ?s = 6" by (simp add: calls_left_def)
  ultimately show ?thesis by simp
qed

end
