(* ===== verification/Queue_Base.thy ===== *)
theory Queue_Base
  imports Main
begin

text \<open>
  The contract of a bounded first-in first-out queue, which the queues of \<^verbatim>\<open>src/src/queue\<close> implement: a call that stores reports
  whether there was room, a call that takes returns the oldest value or nothing.
\<close>

subsection \<open>The abstract queue\<close>

datatype 'a qop = Put 'a | Take

datatype 'a qres = Stored bool | Taken "'a option"

fun fifo_op :: "nat \<Rightarrow> 'a list \<Rightarrow> 'a qop \<Rightarrow> 'a qres \<times> 'a list" where
  "fifo_op cap q (Put v) = (Stored (length q < cap), if length q < cap then q @ [v] else q)"
| "fifo_op cap q Take = (Taken (case q of [] \<Rightarrow> None | v # _ \<Rightarrow> Some v), tl q)"

fun run_ops :: "('s \<Rightarrow> 'o \<Rightarrow> 'r \<times> 's) \<Rightarrow> 's \<Rightarrow> 'o list \<Rightarrow> 'r list \<times> 's" where
  "run_ops f s [] = ([], s)"
| "run_ops f s (x # xs) = (let (r, s') = f s x; (rs, t) = run_ops f s' xs in (r # rs, t))"

text \<open>The calls of an implementation, seen as the operations of the abstract queue.\<close>

fun queue_call :: "('q \<Rightarrow> 'a \<Rightarrow> bool \<times> 'q) \<Rightarrow> ('q \<Rightarrow> 'a option \<times> 'q) \<Rightarrow> 'q \<Rightarrow> 'a qop \<Rightarrow> 'a qres \<times> 'q" where
  "queue_call push pop q (Put v) = (let (ok, q') = push q v in (Stored ok, q'))"
| "queue_call push pop q Take = (let (x, q') = pop q in (Taken x, q'))"

subsection \<open>The contract\<close>

locale bounded_fifo =
  fixes cap :: nat
    and holds :: "'q \<Rightarrow> 'a list \<Rightarrow> bool"
    and push :: "'q \<Rightarrow> 'a \<Rightarrow> bool \<times> 'q"
    and pop :: "'q \<Rightarrow> 'a option \<times> 'q"
  assumes push_result: "holds r q \<Longrightarrow> fst (push r v) = (length q < cap)"
    and push_state: "holds r q \<Longrightarrow> holds (snd (push r v)) (if length q < cap then q @ [v] else q)"
    and pop_result: "holds r q \<Longrightarrow> fst (pop r) = (if q = [] then None else Some (hd q))"
    and pop_state: "holds r q \<Longrightarrow> holds (snd (pop r)) (tl q)"
begin

lemma call_refines:
  assumes "holds r q"
  shows "fst (queue_call push pop r x) = fst (fifo_op cap q x)"
    and "holds (snd (queue_call push pop r x)) (snd (fifo_op cap q x))"
proof -
  have "fst (queue_call push pop r x) = fst (fifo_op cap q x) \<and> holds (snd (queue_call push pop r x)) (snd (fifo_op cap q x))"
  proof (cases x)
    case (Put v) then show ?thesis using push_result [OF assms, of v] push_state [OF assms, of v] by (simp add: split_beta)
  next
    case Take then show ?thesis using pop_result [OF assms] pop_state [OF assms] by (cases q) (simp_all add: split_beta)
  qed
  then show "fst (queue_call push pop r x) = fst (fifo_op cap q x)"
    and "holds (snd (queue_call push pop r x)) (snd (fifo_op cap q x))" by simp_all
qed

lemma run_refines:
  assumes "holds r q"
  shows "fst (run_ops (queue_call push pop) r xs) = fst (run_ops (fifo_op cap) q xs)
       \<and> holds (snd (run_ops (queue_call push pop) r xs)) (snd (run_ops (fifo_op cap) q xs))"
  using assms
proof (induction xs arbitrary: r q)
  case (Cons x xs)
  from Cons.IH [OF call_refines(2) [OF Cons.prems, of x]] call_refines(1) [OF Cons.prems, of x]
  show ?case by (simp add: Let_def split_beta)
qed simp

end

lemma run_ops_append:
  "run_ops f s (xs @ ys) = (let (r, t) = run_ops f s xs; (r', u) = run_ops f t ys in (r @ r', u))"
  by (induction xs arbitrary: s) (auto simp: Let_def split_beta)

lemma fifo_puts: "length q + length vs \<le> cap \<Longrightarrow> run_ops (fifo_op cap) q (map Put vs) = (map (\<lambda>_. Stored True) vs, q @ vs)"
  by (induction vs arbitrary: q) auto

lemma fifo_takes: "run_ops (fifo_op cap) vs (map (\<lambda>_. Take) vs) = (map (\<lambda>v. Taken (Some v)) vs, [])"
  by (induction vs) auto

text \<open>What is stored comes out in the same order.\<close>

lemma fifo_roundtrip:
  "length vs \<le> cap \<Longrightarrow> fst (run_ops (fifo_op cap) [] (map Put vs @ map (\<lambda>_. Take) vs)) =
     map (\<lambda>_. Stored True) vs @ map (\<lambda>v. Taken (Some v)) vs"
  by (simp add: run_ops_append fifo_puts fifo_takes)

end
