(* ===== verification/Queue_Spsc.thy ===== *)
theory Queue_Spsc
  imports "HOL-Library.Word" Queue_Base
begin

text \<open>
  The single-producer single-consumer ring of \<^verbatim>\<open>src/src/queue/spsc_queue.hpp\<close>.  The free-running indices are 64-bit words that
  wrap around; a slot is the index masked by the capacity, a power of two.  The operations are first given as whole
  calls; then a producer and a consumer run them concurrently, one access to a shared location at a time, in any
  order.  The memory is sequentially consistent: the release store of an index and the acquire load that reads it order
  the slot accesses on both sides of them, which is what the source relies on.
\<close>

unbundle bit_operations_syntax

subsection \<open>The operations\<close>

type_synonym usize = "64 word"

definition next_pow2 :: "usize \<Rightarrow> usize" where
  "next_pow2 n0 =
     (let n = n0 - 1;
          n = n OR drop_bit 1 n;
          n = n OR drop_bit 2 n;
          n = n OR drop_bit 4 n;
          n = n OR drop_bit 8 n;
          n = n OR drop_bit 16 n;
          n = n OR drop_bit 32 n
      in n + 1)"

record 'a spsc =
  slots :: "'a list"
  head :: usize
  tail :: usize
  cached_head :: usize
  cached_tail :: usize

text \<open>The capacity is the template constant \<^verbatim>\<open>__spsc_capacity\<close>; the memory holds that many slots.\<close>

definition sq_mask :: "usize \<Rightarrow> usize" where
  "sq_mask cap = cap - 1"

definition slot_of :: "usize \<Rightarrow> usize \<Rightarrow> nat" where
  "slot_of cap i = unat (i AND sq_mask cap)"

definition sq_new :: "'a \<Rightarrow> usize \<Rightarrow> 'a spsc" where
  "sq_new zero cap = \<lparr>slots = replicate (unat cap) zero, head = 0, tail = 0, cached_head = 0, cached_tail = 0\<rparr>"

definition sq_clear :: "'a \<Rightarrow> usize \<Rightarrow> 'a spsc \<Rightarrow> 'a spsc" where
  "sq_clear zero cap q = \<lparr>slots = replicate (unat cap) zero, head = 0, tail = 0, cached_head = 0, cached_tail = 0\<rparr>"

definition sq_empty :: "'a spsc \<Rightarrow> bool" where
  "sq_empty q = (head q = tail q)"

definition sq_size :: "'a spsc \<Rightarrow> usize" where
  "sq_size q = tail q - head q"

definition sq_push :: "usize \<Rightarrow> 'a spsc \<Rightarrow> 'a \<Rightarrow> bool \<times> 'a spsc" where
  "sq_push cap q val =
     (let t = tail q;
          nxt = t + 1;
          avail = cap - (t - cached_head q);
          q1 = (if avail = 0 then q\<lparr>cached_head := head q\<rparr> else q);
          avail1 = (if avail = 0 then cap - (t - cached_head q1) else avail)
      in if avail1 = 0 then (False, q1)
         else (True, q1\<lparr>slots := (slots q1)[slot_of cap t := val], tail := nxt\<rparr>))"

definition sq_push_default :: "usize \<Rightarrow> 'a \<Rightarrow> 'a spsc \<Rightarrow> bool \<times> 'a spsc" where
  "sq_push_default cap dflt q = sq_push cap q dflt"

definition sq_push_move :: "usize \<Rightarrow> 'a spsc \<Rightarrow> 'a \<Rightarrow> bool \<times> 'a spsc" where
  "sq_push_move cap q val = sq_push cap q val"

definition sq_emplace :: "usize \<Rightarrow> ('args \<Rightarrow> 'a) \<Rightarrow> 'a spsc \<Rightarrow> 'args \<Rightarrow> bool \<times> 'a spsc" where
  "sq_emplace cap construct q args = sq_push cap q (construct args)"

text \<open>\<open>pop\<close> returns the value it stores through its out parameter.  Elements are values: a slot that was moved from or destroyed keeps
  the bits it had, and nothing reads them before the next \<open>push\<close> into it.  \<open>sq_drop\<close> is \<open>pop(void)\<close> for a type without a destructor, which
  overwrites the slot.\<close>

definition sq_pop :: "usize \<Rightarrow> 'a spsc \<Rightarrow> 'a option \<times> 'a spsc" where
  "sq_pop cap q =
     (let h = head q;
          avail = cached_tail q - h;
          q1 = (if avail = 0 then q\<lparr>cached_tail := tail q\<rparr> else q);
          avail1 = (if avail = 0 then cached_tail q1 - h else avail)
      in if avail1 = 0 then (None, q1)
         else (Some (slots q1 ! slot_of cap h), q1\<lparr>head := h + 1\<rparr>))"

definition sq_drop :: "usize \<Rightarrow> 'a \<Rightarrow> 'a spsc \<Rightarrow> bool \<times> 'a spsc" where
  "sq_drop cap zero q =
     (let h = head q;
          avail = cached_tail q - h;
          q1 = (if avail = 0 then q\<lparr>cached_tail := tail q\<rparr> else q);
          avail1 = (if avail = 0 then cached_tail q1 - h else avail)
      in if avail1 = 0 then (False, q1)
         else (True, q1\<lparr>slots := (slots q1)[slot_of cap h := zero], head := h + 1\<rparr>))"

definition sq_peek :: "usize \<Rightarrow> 'a spsc \<Rightarrow> 'a option" where
  "sq_peek cap q = (if head q \<noteq> tail q then Some (slots q ! slot_of cap (head q)) else None)"

definition sq_front :: "usize \<Rightarrow> 'a spsc \<Rightarrow> 'a" where
  "sq_front cap q = slots q ! slot_of cap (head q)"

definition sq_last :: "usize \<Rightarrow> 'a spsc \<Rightarrow> 'a" where
  "sq_last cap q = slots q ! slot_of cap (tail q - 1)"

definition sq_push_batch :: "usize \<Rightarrow> 'a spsc \<Rightarrow> 'a list \<Rightarrow> nat \<times> 'a spsc" where
  "sq_push_batch cap q items =
     (let t = tail q; n = of_nat (length items);
          avail = cap - (t - cached_head q);
          q1 = (if avail < n then q\<lparr>cached_head := head q\<rparr> else q);
          avail1 = (if avail < n then cap - (t - cached_head q1) else avail);
          to_push = (if avail1 < n then avail1 else n);
          slots' = fold (\<lambda>i s. s[slot_of cap (t + of_nat i) := items ! i]) [0..<unat to_push] (slots q1)
      in (unat to_push, q1\<lparr>slots := slots', tail := t + to_push\<rparr>))"

definition sq_pop_batch :: "usize \<Rightarrow> 'a spsc \<Rightarrow> nat \<Rightarrow> 'a list \<times> 'a spsc" where
  "sq_pop_batch cap q count =
     (let h = head q; n = of_nat count;
          avail = cached_tail q - h;
          q1 = (if avail < n then q\<lparr>cached_tail := tail q\<rparr> else q);
          avail1 = (if avail < n then cached_tail q1 - h else avail);
          to_pop = (if avail1 < n then avail1 else n)
      in (map (\<lambda>i. slots q1 ! slot_of cap (h + of_nat i)) [0..<unat to_pop], q1\<lparr>head := h + to_pop\<rparr>))"

text \<open>The constructor from a list ignores what \<open>push\<close> returns, so the values past the capacity are lost.\<close>

definition sq_of_list :: "'a \<Rightarrow> usize \<Rightarrow> 'a list \<Rightarrow> 'a spsc" where
  "sq_of_list zero cap lst = fold (\<lambda>v q. snd (sq_push cap q v)) lst (sq_new zero cap)"

subsection \<open>Producer and consumer\<close>

text \<open>Where a call of \<open>push\<close> or \<open>pop\<close> stands: about to look at its own index and cached copy, to reload the other side's index,
  to access the slot, to publish its own index.\<close>

datatype 'a producer = P_idle | P_begin 'a | P_reload 'a usize | P_write 'a usize | P_publish 'a usize

datatype 'a consumer = C_idle | C_begin | C_reload usize | C_read usize | C_publish 'a usize

record 'a sys =
  ring :: "'a spsc"
  prod :: "'a producer"
  cons :: "'a consumer"

datatype 'a event = Tau | Pushed 'a | Push_full | Popped 'a | Pop_empty

inductive sq_step :: "usize \<Rightarrow> 'a sys \<Rightarrow> 'a event \<Rightarrow> 'a sys \<Rightarrow> bool" for cap where
  push_call: "prod s = P_idle \<Longrightarrow> sq_step cap s Tau (s\<lparr>prod := P_begin v\<rparr>)"
| push_cached: "prod s = P_begin v \<Longrightarrow> t = tail (ring s) \<Longrightarrow> cap - (t - cached_head (ring s)) \<noteq> 0 \<Longrightarrow>
    sq_step cap s Tau (s\<lparr>prod := P_write v t\<rparr>)"
| push_stale: "prod s = P_begin v \<Longrightarrow> t = tail (ring s) \<Longrightarrow> cap - (t - cached_head (ring s)) = 0 \<Longrightarrow>
    sq_step cap s Tau (s\<lparr>prod := P_reload v t\<rparr>)"
| push_room: "prod s = P_reload v t \<Longrightarrow> r = (ring s)\<lparr>cached_head := head (ring s)\<rparr> \<Longrightarrow> cap - (t - cached_head r) \<noteq> 0 \<Longrightarrow>
    sq_step cap s Tau (s\<lparr>ring := r, prod := P_write v t\<rparr>)"
| push_full: "prod s = P_reload v t \<Longrightarrow> r = (ring s)\<lparr>cached_head := head (ring s)\<rparr> \<Longrightarrow> cap - (t - cached_head r) = 0 \<Longrightarrow>
    sq_step cap s Push_full (s\<lparr>ring := r, prod := P_idle\<rparr>)"
| push_write: "prod s = P_write v t \<Longrightarrow> r = (ring s)\<lparr>slots := (slots (ring s))[slot_of cap t := v]\<rparr> \<Longrightarrow>
    sq_step cap s Tau (s\<lparr>ring := r, prod := P_publish v t\<rparr>)"
| push_publish: "prod s = P_publish v t \<Longrightarrow> r = (ring s)\<lparr>tail := t + 1\<rparr> \<Longrightarrow>
    sq_step cap s (Pushed v) (s\<lparr>ring := r, prod := P_idle\<rparr>)"
| pop_call: "cons s = C_idle \<Longrightarrow> sq_step cap s Tau (s\<lparr>cons := C_begin\<rparr>)"
| pop_cached: "cons s = C_begin \<Longrightarrow> h = head (ring s) \<Longrightarrow> cached_tail (ring s) - h \<noteq> 0 \<Longrightarrow>
    sq_step cap s Tau (s\<lparr>cons := C_read h\<rparr>)"
| pop_stale: "cons s = C_begin \<Longrightarrow> h = head (ring s) \<Longrightarrow> cached_tail (ring s) - h = 0 \<Longrightarrow>
    sq_step cap s Tau (s\<lparr>cons := C_reload h\<rparr>)"
| pop_room: "cons s = C_reload h \<Longrightarrow> r = (ring s)\<lparr>cached_tail := tail (ring s)\<rparr> \<Longrightarrow> cached_tail r - h \<noteq> 0 \<Longrightarrow>
    sq_step cap s Tau (s\<lparr>ring := r, cons := C_read h\<rparr>)"
| pop_none: "cons s = C_reload h \<Longrightarrow> r = (ring s)\<lparr>cached_tail := tail (ring s)\<rparr> \<Longrightarrow> cached_tail r - h = 0 \<Longrightarrow>
    sq_step cap s Pop_empty (s\<lparr>ring := r, cons := C_idle\<rparr>)"
| pop_read: "cons s = C_read h \<Longrightarrow> sq_step cap s Tau (s\<lparr>cons := C_publish (slots (ring s) ! slot_of cap h) h\<rparr>)"
| pop_publish: "cons s = C_publish v h \<Longrightarrow> r = (ring s)\<lparr>head := h + 1\<rparr> \<Longrightarrow>
    sq_step cap s (Popped v) (s\<lparr>ring := r, cons := C_idle\<rparr>)"

text \<open>Runs, with the values pushed and popped so far.\<close>

fun pushed_of :: "'a event \<Rightarrow> 'a list" where
  "pushed_of (Pushed v) = [v]"
| "pushed_of _ = []"

fun popped_of :: "'a event \<Rightarrow> 'a list" where
  "popped_of (Popped v) = [v]"
| "popped_of _ = []"

inductive sq_run :: "'a \<Rightarrow> usize \<Rightarrow> 'a sys \<Rightarrow> 'a list \<Rightarrow> 'a list \<Rightarrow> bool" for zero cap where
  start: "sq_run zero cap \<lparr>ring = sq_new zero cap, prod = P_idle, cons = C_idle\<rparr> [] []"
| step: "sq_run zero cap s sent got \<Longrightarrow> sq_step cap s e s' \<Longrightarrow> sq_run zero cap s' (sent @ pushed_of e) (got @ popped_of e)"

text \<open>The abstract queue that the ring implements.\<close>

inductive fifo_step :: "nat \<Rightarrow> 'a list \<Rightarrow> 'a event \<Rightarrow> 'a list \<Rightarrow> bool" for cap where
  "fifo_step cap q Tau q"
| "length q < cap \<Longrightarrow> fifo_step cap q (Pushed v) (q @ [v])"
| "length q = cap \<Longrightarrow> fifo_step cap q Push_full q"
| "fifo_step cap (v # q) (Popped v) q"
| "fifo_step cap [] Pop_empty []"

subsection \<open>Capacity and slots\<close>

lemma unat_of_nat_usize: "n < 2 ^ 64 \<Longrightarrow> unat (of_nat n :: usize) = n"
  by (simp add: unsigned_of_nat take_bit_nat_eq_self)

lemma of_nat_usize_zero: "n < 2 ^ 64 \<Longrightarrow> (of_nat n :: usize) = 0 \<longleftrightarrow> n = 0"
  using unat_of_nat_usize [of n] by (simp add: unat_eq_0 [symmetric] del: unat_eq_0)

lemma two_power_less_64: "k < 64 \<Longrightarrow> (2::nat) ^ k < 2 ^ 64"
  by (rule power_strict_increasing) simp_all

lemma unat_exp: "k < 64 \<Longrightarrow> unat (2 ^ k :: usize) = 2 ^ k"
  using unat_of_nat_usize [OF two_power_less_64] by simp

lemma slot_of_nat:
  assumes "k < 64"
  shows "slot_of (2 ^ k) (of_nat n) = n mod 2 ^ k"
proof -
  have "slot_of (2 ^ k) (of_nat n) = unat (take_bit k (of_nat n :: usize))"
    by (simp add: slot_of_def sq_mask_def take_bit_eq_mask mask_eq_exp_minus_1)
  also have "\<dots> = take_bit k (take_bit 64 n)"
    by (simp add: unsigned_take_bit_eq unsigned_of_nat)
  also have "\<dots> = take_bit k n"
    using assms by (simp only: take_bit_take_bit min_absorb1 less_imp_le)
  also have "\<dots> = n mod 2 ^ k"
    by (simp add: take_bit_eq_mod)
  finally show ?thesis .
qed

lemma usize_diff: "b \<le> a \<Longrightarrow> (of_nat a :: usize) - of_nat b = of_nat (a - b)"
  by (simp add: of_nat_diff)

lemma room_zero:
  assumes "k < 64" "c \<le> t" "t \<le> c + 2 ^ k"
  shows "(2 ^ k :: usize) - (of_nat t - of_nat c) = 0 \<longleftrightarrow> t = c + 2 ^ k"
proof -
  have "(2 ^ k :: usize) - (of_nat t - of_nat c) = of_nat (2 ^ k - (t - c))"
    using assms by (simp add: of_nat_diff)
  moreover have "2 ^ k - (t - c) < 2 ^ 64"
    using two_power_less_64 [OF assms(1)] by linarith
  ultimately have "(2 ^ k :: usize) - (of_nat t - of_nat c) = 0 \<longleftrightarrow> 2 ^ k - (t - c) = 0"
    by (simp only: of_nat_usize_zero)
  with assms show ?thesis by auto
qed

lemma avail_zero:
  assumes "k < 64" "h \<le> t" "t \<le> h + 2 ^ k"
  shows "(of_nat t :: usize) - of_nat h = 0 \<longleftrightarrow> t = h"
proof -
  have "t - h < 2 ^ 64" using two_power_less_64 [OF assms(1)] assms by linarith
  then show ?thesis using assms by (simp only: usize_diff of_nat_usize_zero) auto
qed

lemma mod_eq_near:
  assumes "(a::nat) mod m = b mod m" "a \<le> b" "b < a + m"
  shows "a = b"
proof -
  have "m dvd b - a" using assms by (metis mod_eq_dvd_iff_nat)
  then have "b - a = 0 \<or> m \<le> b - a" using dvd_imp_le by blast
  with assms show ?thesis by linarith
qed

text \<open>Each line of the rounding doubles the reach of the bits of the number.\<close>

definition smeared :: "usize \<Rightarrow> nat \<Rightarrow> usize \<Rightarrow> bool" where
  "smeared x m y \<longleftrightarrow> (\<forall>j. bit y j \<longleftrightarrow> (\<exists>i<m. bit x (j + i)))"

lemma smeared_one: "smeared x 1 x"
  by (simp add: smeared_def)

lemma smeared_double:
  assumes "smeared x m y"
  shows "smeared x (m + m) (y OR drop_bit m y)"
  unfolding smeared_def
proof (intro allI iffI)
  fix j assume "bit (y OR drop_bit m y) j"
  then consider "bit y j" | "bit y (m + j)" by (auto simp: bit_or_iff bit_drop_bit_eq)
  then show "\<exists>i<m + m. bit x (j + i)"
  proof cases
    case 1 then show ?thesis using assms by (auto simp: smeared_def intro: trans_less_add1)
  next
    case 2
    then obtain i where "i < m" "bit x (m + j + i)" using assms by (auto simp: smeared_def)
    then show ?thesis by (intro exI [of _ "m + i"]) (simp add: ac_simps)
  qed
next
  fix j assume "\<exists>i<m + m. bit x (j + i)"
  then obtain i where i: "i < m + m" "bit x (j + i)" by blast
  show "bit (y OR drop_bit m y) j"
  proof (cases "i < m")
    case True then show ?thesis using assms i by (auto simp: smeared_def bit_or_iff)
  next
    case False
    then have "i - m < m" "bit x (m + j + (i - m))" using i by (auto simp: ac_simps)
    then have "bit y (m + j)" using assms unfolding smeared_def by blast
    then show ?thesis by (simp add: bit_or_iff bit_drop_bit_eq)
  qed
qed

lemma next_pow2_smeared: "\<exists>y. smeared (n - 1) 64 y \<and> next_pow2 n = y + 1"
proof -
  note d = smeared_double
  from d [OF d [OF d [OF d [OF d [OF d [OF smeared_one [of "n - 1"]]]]]]]
  show ?thesis unfolding next_pow2_def Let_def by (simp only: one_add_one numeral_plus_numeral add_num_simps) blast
qed

lemma bit_unat: "bit (x :: usize) i \<longleftrightarrow> odd (unat x div 2 ^ i)"
  by (metis bit_iff_odd bit_unsigned_iff possible_bit_nat)

lemma next_pow2_least:
  assumes "0 < unat n" "unat n \<le> 2 ^ 63"
  shows "\<exists>k < 64. next_pow2 n = 2 ^ k \<and> unat n \<le> 2 ^ k \<and> (\<forall>j. unat n \<le> 2 ^ j \<longrightarrow> k \<le> j)"
proof -
  define k where "k = (LEAST j. unat n \<le> 2 ^ j)"
  have le: "unat n \<le> 2 ^ k" unfolding k_def using assms(2) by (rule LeastI)
  have least: "k \<le> j" if "unat n \<le> 2 ^ j" for j unfolding k_def using that by (rule Least_le)
  have k64: "k < 64" using least [OF assms(2)] by simp
  obtain y where y: "smeared (n - 1) 64 y" "next_pow2 n = y + 1" using next_pow2_smeared by blast
  have x: "unat (n - 1) = unat n - 1" using assms(1) by (simp add: unat_minus_one unat_gt_0)
  have "bit y j \<longleftrightarrow> j < k" for j
  proof
    assume "bit y j"
    then obtain i where "bit (n - 1) (j + i)" using y by (auto simp: smeared_def)
    then have "unat (n - 1) div 2 ^ (j + i) \<noteq> 0" unfolding bit_unat by (intro notI) simp
    then have "2 ^ (j + i) < unat n" using x assms(1) by (simp add: div_eq_0_iff)
    then have "(2::nat) ^ (j + i) < 2 ^ k" using le by (rule less_le_trans)
    then show "j < k" by simp
  next
    assume j: "j < k"
    then have "\<not> unat n \<le> 2 ^ (k - 1)" using least [of "k - 1"] by auto
    then have lo: "2 ^ (k - 1) \<le> unat (n - 1)" using x by simp
    have "(2::nat) ^ k = 2 * 2 ^ (k - 1)" using j by (cases k) auto
    then have "unat (n - 1) < 2 * 2 ^ (k - 1)" using x le assms(1) by simp
    then have "unat (n - 1) div 2 ^ (k - 1) = 1" using lo by (intro div_nat_eqI) simp_all
    then have "bit (n - 1) (j + (k - 1 - j))" using j by (simp add: bit_unat)
    moreover have "k - 1 - j < 64" using k64 by simp
    ultimately show "bit y j" using y(1) unfolding smeared_def by blast
  qed
  then have "y = mask k" using k64 by (intro bit_eqI) (simp add: bit_mask_iff)
  then have "next_pow2 n = 2 ^ k" using y(2) by (simp add: mask_eq_exp_minus_1)
  with le least k64 show ?thesis by blast
qed

subsection \<open>The invariant of the concurrent ring\<close>

text \<open>
  The two free-running counts are those of the values sent and got; \<open>c\<close> and \<open>d\<close> are the counts that the cached copies stand for.
\<close>

fun prod_ok :: "nat \<Rightarrow> 'a spsc \<Rightarrow> nat \<Rightarrow> nat \<Rightarrow> 'a producer \<Rightarrow> bool" where
  "prod_ok k r T c P_idle = True"
| "prod_ok k r T c (P_begin v) = True"
| "prod_ok k r T c (P_reload v t) = (t = of_nat T)"
| "prod_ok k r T c (P_write v t) = (t = of_nat T \<and> T < c + 2 ^ k)"
| "prod_ok k r T c (P_publish v t) = (t = of_nat T \<and> T < c + 2 ^ k \<and> slots r ! (T mod 2 ^ k) = v)"

fun cons_ok :: "'a list \<Rightarrow> nat \<Rightarrow> nat \<Rightarrow> 'a consumer \<Rightarrow> bool" where
  "cons_ok sent H d C_idle = True"
| "cons_ok sent H d C_begin = True"
| "cons_ok sent H d (C_reload h) = (h = of_nat H)"
| "cons_ok sent H d (C_read h) = (h = of_nat H \<and> H < d)"
| "cons_ok sent H d (C_publish v h) = (h = of_nat H \<and> H < d \<and> v = sent ! H)"

definition ring_ok :: "nat \<Rightarrow> 'a spsc \<Rightarrow> 'a list \<Rightarrow> 'a list \<Rightarrow> nat \<Rightarrow> nat \<Rightarrow> bool" where
  "ring_ok k r sent got c d \<longleftrightarrow>
     length (slots r) = 2 ^ k \<and>
     head r = of_nat (length got) \<and> tail r = of_nat (length sent) \<and> cached_head r = of_nat c \<and> cached_tail r = of_nat d \<and>
     c \<le> length got \<and> length got \<le> d \<and> d \<le> length sent \<and> length sent \<le> c + 2 ^ k \<and>
     take (length got) sent = got \<and>
     (\<forall>i. length got \<le> i \<and> i < length sent \<longrightarrow> slots r ! (i mod 2 ^ k) = sent ! i)"

definition sq_good :: "nat \<Rightarrow> 'a sys \<Rightarrow> 'a list \<Rightarrow> 'a list \<Rightarrow> bool" where
  "sq_good k s sent got \<longleftrightarrow>
     (\<exists>c d. ring_ok k (ring s) sent got c d \<and> prod_ok k (ring s) (length sent) c (prod s) \<and> cons_ok sent (length got) d (cons s))"

lemma sq_good_start: "k < 64 \<Longrightarrow> sq_good k \<lparr>ring = sq_new zero (2 ^ k), prod = P_idle, cons = C_idle\<rparr> [] []"
  unfolding sq_good_def ring_ok_def sq_new_def by (intro exI [of _ 0]) (simp add: unat_exp)

lemma prod_ok_index [simp]:
  "prod_ok k (r\<lparr>head := x\<rparr>) T c p = prod_ok k r T c p"
  "prod_ok k (r\<lparr>cached_tail := x\<rparr>) T c p = prod_ok k r T c p"
  by (cases p; simp)+

lemma cons_ok_mono: "cons_ok sent H d p \<Longrightarrow> d \<le> length sent \<Longrightarrow> cons_ok (sent @ vs) H d p"
  by (cases p) (simp_all add: nth_append)

lemma ring_ok_reload_head:
  "ring_ok k r sent got c d \<Longrightarrow> ring_ok k (r\<lparr>cached_head := head r\<rparr>) sent got (length got) d"
  by (auto simp: ring_ok_def)

lemma ring_ok_reload_tail:
  "ring_ok k r sent got c d \<Longrightarrow> ring_ok k (r\<lparr>cached_tail := tail r\<rparr>) sent got c (length sent)"
  by (auto simp: ring_ok_def)

lemma ring_ok_write:
  assumes "k < 64" "ring_ok k r sent got c d" "length sent < c + 2 ^ k"
  shows "ring_ok k (r\<lparr>slots := (slots r)[length sent mod 2 ^ k := v]\<rparr>) sent got c d"
    and "(slots r)[length sent mod 2 ^ k := v] ! (length sent mod 2 ^ k) = v"
proof -
  have "(slots r)[length sent mod 2 ^ k := v] ! (i mod 2 ^ k) = slots r ! (i mod 2 ^ k)"
    if "length got \<le> i" "i < length sent" for i
  proof -
    have "length sent < i + 2 ^ k" using assms that by (simp add: ring_ok_def)
    then have "i mod 2 ^ k \<noteq> length sent mod 2 ^ k" using mod_eq_near [of i "2 ^ k" "length sent"] that by auto
    then show ?thesis by simp
  qed
  then show "ring_ok k (r\<lparr>slots := (slots r)[length sent mod 2 ^ k := v]\<rparr>) sent got c d"
    using assms(2) by (simp add: ring_ok_def)
  show "(slots r)[length sent mod 2 ^ k := v] ! (length sent mod 2 ^ k) = v"
    using assms(2) by (simp add: ring_ok_def)
qed

lemma ring_ok_publish_tail:
  assumes "ring_ok k r sent got c d" "length sent < c + 2 ^ k" "slots r ! (length sent mod 2 ^ k) = v"
  shows "ring_ok k (r\<lparr>tail := of_nat (length sent) + 1\<rparr>) (sent @ [v]) got c d"
  using assms by (auto simp: ring_ok_def nth_append less_Suc_eq)

lemma ring_ok_publish_head:
  assumes "ring_ok k r sent got c d" "length got < d"
  shows "ring_ok k (r\<lparr>head := of_nat (length got) + 1\<rparr>) sent (got @ [sent ! length got]) c d"
  using assms by (auto simp: ring_ok_def take_Suc_conv_app_nth)

lemma sq_good_intro:
  "ring_ok k (ring s) sent got c d \<Longrightarrow> prod_ok k (ring s) (length sent) c (prod s) \<Longrightarrow> cons_ok sent (length got) d (cons s) \<Longrightarrow>
   sq_good k s sent got"
  unfolding sq_good_def by blast

lemma ring_ok_room:
  assumes "k < 64" "ring_ok k r sent got c d"
  shows "(2 ^ k :: usize) - (tail r - cached_head r) = 0 \<longleftrightarrow> length sent = c + 2 ^ k"
    and "(2 ^ k :: usize) - (of_nat (length sent) - head r) = 0 \<longleftrightarrow> length sent = length got + 2 ^ k"
  using assms room_zero [of k c "length sent"] room_zero [of k "length got" "length sent"]
  by (auto simp: ring_ok_def)

lemma ring_ok_avail:
  assumes "k < 64" "ring_ok k r sent got c d"
  shows "cached_tail r - head r = 0 \<longleftrightarrow> d = length got"
    and "tail r - of_nat (length got) = 0 \<longleftrightarrow> length sent = length got"
  using assms avail_zero [of k "length got" d] avail_zero [of k "length got" "length sent"]
  by (auto simp: ring_ok_def)

lemma prod_ok_mono: "prod_ok k r T c p \<Longrightarrow> c \<le> c' \<Longrightarrow> prod_ok k r T c' p"
  by (cases p) auto

lemma cons_ok_bound: "cons_ok sent H d p \<Longrightarrow> d \<le> d' \<Longrightarrow> cons_ok sent H d' p"
  by (cases p) auto

lemma producer_step_good:
  assumes k: "k < 64" and g: "sq_good k s sent got" and st: "sq_step (2 ^ k) s e s'" and p: "prod s' \<noteq> prod s"
  shows "sq_good k s' (sent @ pushed_of e) (got @ popped_of e)"
proof -
  obtain c d where r: "ring_ok k (ring s) sent got c d"
    and po: "prod_ok k (ring s) (length sent) c (prod s)" and co: "cons_ok sent (length got) d (cons s)"
    using g by (auto simp: sq_good_def)
  note t = r [unfolded ring_ok_def]
  note intros = sq_good_intro [of k _ _ _ c d] sq_good_intro [of k _ _ _ "length got" d]
  from st p show ?thesis
  proof cases
    case (push_call v) then show ?thesis using r co by (intro intros(1)) auto
  next
    case (push_cached v t)
    then have "length sent < c + 2 ^ k" using ring_ok_room(1) [OF k r] t by auto
    then show ?thesis using push_cached r co t by (intro intros(1)) auto
  next
    case (push_stale v t) then show ?thesis using r co t by (intro intros(1)) auto
  next
    case (push_room v t r')
    then have tt: "t = of_nat (length sent)" using po by simp
    have "length sent \<noteq> length got + 2 ^ k" using push_room ring_ok_room(2) [OF k r] tt by simp
    then have "length sent < length got + 2 ^ k" using t by auto
    then show ?thesis using push_room ring_ok_reload_head [OF r] co tt by (intro intros(2)) auto
  next
    case (push_full v t r') then show ?thesis using ring_ok_reload_head [OF r] co by (intro intros(2)) auto
  next
    case (push_write v t r')
    then have tt: "t = of_nat (length sent)" "length sent < c + 2 ^ k" using po by simp_all
    from ring_ok_write [OF k r tt(2)] show ?thesis
      using push_write tt co by (intro intros(1)) (auto simp: slot_of_nat [OF k])
  next
    case (push_publish v t r')
    then have tt: "t = of_nat (length sent)" "length sent < c + 2 ^ k" "slots (ring s) ! (length sent mod 2 ^ k) = v"
      using po by simp_all
    from ring_ok_publish_tail [OF r tt(2,3)] show ?thesis
      using push_publish tt cons_ok_mono [OF co] t by (intro intros(1)) auto
  qed auto
qed

lemma consumer_step_good:
  assumes k: "k < 64" and g: "sq_good k s sent got" and st: "sq_step (2 ^ k) s e s'" and p: "cons s' \<noteq> cons s"
  shows "sq_good k s' (sent @ pushed_of e) (got @ popped_of e)"
proof -
  obtain c d where r: "ring_ok k (ring s) sent got c d"
    and po: "prod_ok k (ring s) (length sent) c (prod s)" and co: "cons_ok sent (length got) d (cons s)"
    using g by (auto simp: sq_good_def)
  note t = r [unfolded ring_ok_def]
  note intros = sq_good_intro [of k _ _ _ c d] sq_good_intro [of k _ _ _ c "length sent"]
  from st p show ?thesis
  proof cases
    case pop_call then show ?thesis using r po by (intro intros(1)) auto
  next
    case (pop_cached h)
    then have "length got < d" using ring_ok_avail(1) [OF k r] t by auto
    then show ?thesis using pop_cached r po t by (intro intros(1)) auto
  next
    case (pop_stale h) then show ?thesis using r po t by (intro intros(1)) auto
  next
    case (pop_room h r')
    then have hh: "h = of_nat (length got)" using co by simp
    have "length sent \<noteq> length got" using pop_room ring_ok_avail(2) [OF k r] hh by simp
    then have "length got < length sent" using t by auto
    then show ?thesis
      using pop_room(1-4) ring_ok_reload_tail [OF r] po hh by (intro intros(2)) simp_all
  next
    case (pop_none h r')
    then show ?thesis using ring_ok_reload_tail [OF r] po by (intro intros(2)) simp_all
  next
    case (pop_read h)
    then have hh: "h = of_nat (length got)" "length got < d" using co by simp_all
    then have "slots (ring s) ! slot_of (2 ^ k) h = sent ! length got" using t by (simp add: slot_of_nat [OF k])
    then show ?thesis using pop_read r po hh by (intro intros(1)) auto
  next
    case (pop_publish v h r')
    then have hh: "h = of_nat (length got)" "length got < d" "v = sent ! length got" using co by simp_all
    from ring_ok_publish_head [OF r hh(2)] show ?thesis
      using pop_publish hh po by (intro intros(1)) simp_all
  qed auto
qed

lemma sq_step_moves: "sq_step cap s e s' \<Longrightarrow> prod s' \<noteq> prod s \<or> cons s' \<noteq> cons s"
  by (erule sq_step.cases) auto

lemma sq_step_good:
  "k < 64 \<Longrightarrow> sq_good k s sent got \<Longrightarrow> sq_step (2 ^ k) s e s' \<Longrightarrow> sq_good k s' (sent @ pushed_of e) (got @ popped_of e)"
  using sq_step_moves producer_step_good consumer_step_good by metis

lemma sq_run_good: "sq_run zero (2 ^ k) s sent got \<Longrightarrow> k < 64 \<Longrightarrow> sq_good k s sent got"
  by (induction rule: sq_run.induct) (auto intro: sq_good_start sq_step_good)

lemma sq_good_fifo:
  assumes k: "k < 64" and g: "sq_good k s sent got" and st: "sq_step (2 ^ k) s e s'"
  shows "fifo_step (2 ^ k) (drop (length got) sent) e (drop (length (got @ popped_of e)) (sent @ pushed_of e))"
proof -
  obtain c d where r: "ring_ok k (ring s) sent got c d"
    and po: "prod_ok k (ring s) (length sent) c (prod s)" and co: "cons_ok sent (length got) d (cons s)"
    using g by (auto simp: sq_good_def)
  note t = r [unfolded ring_ok_def]
  have tau: ?thesis if "e = Tau" using that by (simp add: fifo_step.intros)
  from st show ?thesis
  proof cases
    case (push_full v t r')
    then have tt: "t = of_nat (length sent)" using po by simp
    have "length sent = length got + 2 ^ k" using push_full(4,5) ring_ok_room(2) [OF k r] unfolding tt by simp
    then show ?thesis using push_full(1) fifo_step.intros(3) [of "drop (length got) sent" "2 ^ k"] by simp
  next
    case (push_publish v t' r')
    then have "length sent - length got < 2 ^ k" using po t by auto
    then show ?thesis using push_publish t fifo_step.intros(2) [of "drop (length got) sent" "2 ^ k" v] by simp
  next
    case (pop_none h r')
    then have hh: "h = of_nat (length got)" using co by simp
    have "length sent = length got" using pop_none(4,5) ring_ok_avail(2) [OF k r] unfolding hh by simp
    then show ?thesis using pop_none(1) fifo_step.intros(5) by simp
  next
    case (pop_publish v h r')
    then have "length got < length sent" "v = sent ! length got" using co t by simp_all
    then show ?thesis using pop_publish fifo_step.intros(4) [of "2 ^ k" v "drop (Suc (length got)) sent"]
      by (simp add: Cons_nth_drop_Suc)
  qed (auto intro: fifo_step.intros)
qed

subsection \<open>Whole calls\<close>

text \<open>The ring \<open>r\<close> holds the queue \<open>q\<close>.\<close>

definition sq_holds :: "nat \<Rightarrow> 'a spsc \<Rightarrow> 'a list \<Rightarrow> bool" where
  "sq_holds k r q \<longleftrightarrow> (\<exists>sent got c d. ring_ok k r sent got c d \<and> q = drop (length got) sent)"

lemma sq_holdsE:
  assumes "sq_holds k r q"
  obtains sent got c d where "ring_ok k r sent got c d" "q = drop (length got) sent" "length q = length sent - length got"
    "length got \<le> length sent" "length sent \<le> length got + 2 ^ k"
proof -
  from assms obtain sent got c d where r: "ring_ok k r sent got c d" and q: "q = drop (length got) sent"
    unfolding sq_holds_def by blast
  from r have "length got \<le> length sent" "length sent \<le> length got + 2 ^ k" by (simp_all add: ring_ok_def)
  with r q that show thesis by simp
qed

lemma sq_holdsI: "ring_ok k r sent got c d \<Longrightarrow> q = drop (length got) sent \<Longrightarrow> sq_holds k r q"
  unfolding sq_holds_def by blast

lemma sq_holds_new: "k < 64 \<Longrightarrow> sq_holds k (sq_new zero (2 ^ k)) []"
  by (rule sq_holdsI [of _ _ "[]" "[]" 0 0]) (simp_all add: ring_ok_def sq_new_def unat_exp)

lemma sq_holds_clear: "k < 64 \<Longrightarrow> sq_holds k (sq_clear zero (2 ^ k) r) []"
  using sq_holds_new [of k zero] by (simp add: sq_new_def sq_clear_def)

text \<open>The test for room, with its reload of the other side's index, and the test for an element.\<close>

lemma push_test:
  assumes k: "k < 64" and r: "ring_ok k r sent got c d"
  defines "b \<equiv> ((2 ^ k :: usize) - (tail r - cached_head r) = 0)"
  defines "r1 \<equiv> (if b then r\<lparr>cached_head := head r\<rparr> else r)"
  shows "\<exists>c'. ring_ok k r1 sent got c' d \<and>
    ((if b then 2 ^ k - (tail r - cached_head r1) else 2 ^ k - (tail r - cached_head r)) = (0::usize) \<longleftrightarrow>
       length sent = length got + 2 ^ k) \<and> (length sent \<noteq> length got + 2 ^ k \<longrightarrow> length sent < c' + 2 ^ k)"
proof (cases b)
  case True
  then show ?thesis
    using ring_ok_reload_head [OF r] ring_ok_room(2) [OF k r] r unfolding r1_def
    by (intro exI [of _ "length got"]) (auto simp: ring_ok_def)
next
  case False
  then show ?thesis
    using r ring_ok_room(1) [OF k r] unfolding r1_def b_def by (intro exI [of _ c]) (auto simp: ring_ok_def)
qed

lemma pop_test:
  assumes k: "k < 64" and r: "ring_ok k r sent got c d"
  defines "b \<equiv> (cached_tail r - head r = 0)"
  defines "r1 \<equiv> (if b then r\<lparr>cached_tail := tail r\<rparr> else r)"
  shows "\<exists>d'. ring_ok k r1 sent got c d' \<and>
    ((if b then cached_tail r1 - head r else cached_tail r - head r) = 0 \<longleftrightarrow> length sent = length got) \<and>
    (length sent \<noteq> length got \<longrightarrow> length got < d')"
proof (cases b)
  case True
  then show ?thesis
    using ring_ok_reload_tail [OF r] ring_ok_avail(2) [OF k r] r unfolding r1_def
    by (intro exI [of _ "length sent"]) (auto simp: ring_ok_def)
next
  case False
  then show ?thesis
    using r ring_ok_avail(1) [OF k r] unfolding r1_def b_def by (intro exI [of _ d]) (auto simp: ring_ok_def)
qed

lemma sq_push_holds:
  assumes k: "k < 64" and h: "sq_holds k r q"
  shows "fst (sq_push (2 ^ k) r v) = (length q < 2 ^ k)"
    and "sq_holds k (snd (sq_push (2 ^ k) r v)) (if length q < 2 ^ k then q @ [v] else q)"
proof -
  from h obtain sent got c d where r: "ring_ok k r sent got c d" and q: "q = drop (length got) sent"
    "length q = length sent - length got" "length got \<le> length sent" "length sent \<le> length got + 2 ^ k"
    by (rule sq_holdsE)
  define b where "b = ((2 ^ k :: usize) - (tail r - cached_head r) = 0)"
  define r1 where "r1 = (if b then r\<lparr>cached_head := head r\<rparr> else r)"
  obtain c' where c': "ring_ok k r1 sent got c' d"
    "((if b then 2 ^ k - (tail r - cached_head r1) else 2 ^ k - (tail r - cached_head r)) = (0::usize)) =
       (length sent = length got + 2 ^ k)" "length sent \<noteq> length got + 2 ^ k \<longrightarrow> length sent < c' + 2 ^ k"
    using push_test [OF k r] unfolding b_def [symmetric] r1_def [symmetric] by blast
  have t: "tail r = of_nat (length sent)" using r by (simp add: ring_ok_def)
  have e: "sq_push (2 ^ k) r v = (if length sent = length got + 2 ^ k then (False, r1)
      else (True, r1\<lparr>slots := (slots r1)[length sent mod 2 ^ k := v], tail := of_nat (length sent) + 1\<rparr>))"
    unfolding sq_push_def Let_def b_def [symmetric] r1_def [symmetric] c'(2) unfolding t slot_of_nat [OF k] ..
  have l: "(length q < 2 ^ k) = (length sent \<noteq> length got + 2 ^ k)" using q by auto
  show "fst (sq_push (2 ^ k) r v) = (length q < 2 ^ k)" unfolding e l by simp
  show "sq_holds k (snd (sq_push (2 ^ k) r v)) (if length q < 2 ^ k then q @ [v] else q)"
  proof (cases "length sent = length got + 2 ^ k")
    case True then show ?thesis unfolding e l using sq_holdsI [OF c'(1)] q by simp
  next
    case False
    then have lt: "length sent < c' + 2 ^ k" using c' by simp
    from ring_ok_publish_tail [OF ring_ok_write(1) [OF k c'(1) lt] lt] ring_ok_write(2) [OF k c'(1) lt]
    have "ring_ok k (r1\<lparr>slots := (slots r1)[length sent mod 2 ^ k := v], tail := of_nat (length sent) + 1\<rparr>) (sent @ [v]) got c' d"
      by simp
    then show ?thesis unfolding e l using False q by (auto intro: sq_holdsI)
  qed
qed

text \<open>The state after the test of a call that takes an element, and the queue it holds.\<close>

lemma pop_cases:
  assumes k: "k < 64" and h: "sq_holds k r q"
  obtains sent got c d r1 where "ring_ok k r1 sent got c d" "q = drop (length got) sent" "(q = []) = (length sent = length got)"
    "q \<noteq> [] \<longrightarrow> length got < d" "slot_of (2 ^ k) (head r) = length got mod 2 ^ k"
    "r1 = (if cached_tail r - head r = 0 then r\<lparr>cached_tail := tail r\<rparr> else r)"
    "((if cached_tail r - head r = 0 then cached_tail r1 - head r else cached_tail r - head r) = 0) = (q = [])"
proof -
  from h obtain sent got c d where r: "ring_ok k r sent got c d" and q: "q = drop (length got) sent"
    "length q = length sent - length got" "length got \<le> length sent" "length sent \<le> length got + 2 ^ k"
    by (rule sq_holdsE)
  have e: "(q = []) = (length sent = length got)" using q by auto
  have "head r = of_nat (length got)" using r by (simp add: ring_ok_def)
  then have "slot_of (2 ^ k) (head r) = length got mod 2 ^ k" by (simp add: slot_of_nat [OF k])
  with pop_test [OF k r, folded e] q(1) show thesis by (elim exE conjE) (rule that [OF _ q(1) e]; simp only:)
qed

lemma ring_ok_front:
  "ring_ok k r sent got c d \<Longrightarrow> length got < length sent \<Longrightarrow> slots r ! (length got mod 2 ^ k) = sent ! length got"
  by (simp add: ring_ok_def)

lemma drop_split: "q = drop n xs \<Longrightarrow> q \<noteq> [] \<Longrightarrow> hd q = xs ! n \<and> tl q = drop (Suc n) xs"
  by (simp add: hd_drop_conv_nth tl_drop drop_Suc)

lemma sq_pop_holds:
  assumes k: "k < 64" and h: "sq_holds k r q"
  shows "fst (sq_pop (2 ^ k) r) = (if q = [] then None else Some (hd q))"
    and "sq_holds k (snd (sq_pop (2 ^ k) r)) (tl q)"
proof -
  from k h obtain sent got c d r1 where r1: "ring_ok k r1 sent got c d" and q: "q = drop (length got) sent"
    "(q = []) = (length sent = length got)" "q \<noteq> [] \<longrightarrow> length got < d" and i: "slot_of (2 ^ k) (head r) = length got mod 2 ^ k"
    and r1d: "r1 = (if cached_tail r - head r = 0 then r\<lparr>cached_tail := tail r\<rparr> else r)"
    and a: "((if cached_tail r - head r = 0 then cached_tail r1 - head r else cached_tail r - head r) = 0) = (q = [])"
    by (rule pop_cases)
  have hd1: "head r = of_nat (length got)" using r1 r1d by (auto simp: ring_ok_def split: if_splits)
  have e: "sq_pop (2 ^ k) r = (if q = [] then (None, r1)
      else (Some (slots r1 ! (length got mod 2 ^ k)), r1\<lparr>head := of_nat (length got) + 1\<rparr>))"
    unfolding sq_pop_def Let_def r1d [symmetric] a i unfolding hd1 ..
  show "fst (sq_pop (2 ^ k) r) = (if q = [] then None else Some (hd q))"
  proof (cases "q = []")
    case False
    then have "length got < length sent" using q(3) r1 by (auto simp: ring_ok_def)
    then show ?thesis unfolding e using False ring_ok_front [OF r1] drop_split [OF q(1) False] by simp
  qed (simp add: e)
  show "sq_holds k (snd (sq_pop (2 ^ k) r)) (tl q)"
  proof (cases "q = []")
    case True then show ?thesis unfolding e using sq_holdsI [OF r1] q by simp
  next
    case False
    then have "length got < d" using q by simp
    from sq_holdsI [OF ring_ok_publish_head [OF r1 this]] show ?thesis
      unfolding e using False drop_split [OF q(1) False] by simp
  qed
qed

lemma ring_ok_scrub:
  assumes "ring_ok k r sent got c d" "length got < d"
  shows "ring_ok k (r\<lparr>slots := (slots r)[length got mod 2 ^ k := z], head := of_nat (length got) + 1\<rparr>) sent
           (got @ [sent ! length got]) c d"
proof -
  have "(slots r)[length got mod 2 ^ k := z] ! (i mod 2 ^ k) = slots r ! (i mod 2 ^ k)"
    if "Suc (length got) \<le> i" "i < length sent" for i
  proof -
    have "i < length got + 2 ^ k" using assms that by (simp add: ring_ok_def)
    then have "length got mod 2 ^ k \<noteq> i mod 2 ^ k" using mod_eq_near [of "length got" "2 ^ k" i] that by auto
    then show ?thesis by simp
  qed
  with ring_ok_publish_head [OF assms] show ?thesis by (simp add: ring_ok_def)
qed

lemma sq_drop_holds:
  assumes k: "k < 64" and h: "sq_holds k r q"
  shows "fst (sq_drop (2 ^ k) z r) = (q \<noteq> [])"
    and "sq_holds k (snd (sq_drop (2 ^ k) z r)) (tl q)"
proof -
  from k h obtain sent got c d r1 where r1: "ring_ok k r1 sent got c d" and q: "q = drop (length got) sent"
    "(q = []) = (length sent = length got)" "q \<noteq> [] \<longrightarrow> length got < d" and i: "slot_of (2 ^ k) (head r) = length got mod 2 ^ k"
    and r1d: "r1 = (if cached_tail r - head r = 0 then r\<lparr>cached_tail := tail r\<rparr> else r)"
    and a: "((if cached_tail r - head r = 0 then cached_tail r1 - head r else cached_tail r - head r) = 0) = (q = [])"
    by (rule pop_cases)
  have hd1: "head r = of_nat (length got)" using r1 r1d by (auto simp: ring_ok_def split: if_splits)
  have e: "sq_drop (2 ^ k) z r = (if q = [] then (False, r1)
      else (True, r1\<lparr>slots := (slots r1)[length got mod 2 ^ k := z], head := of_nat (length got) + 1\<rparr>))"
    unfolding sq_drop_def Let_def r1d [symmetric] a i unfolding hd1 ..
  show "fst (sq_drop (2 ^ k) z r) = (q \<noteq> [])" by (simp add: e)
  show "sq_holds k (snd (sq_drop (2 ^ k) z r)) (tl q)"
  proof (cases "q = []")
    case True then show ?thesis unfolding e using sq_holdsI [OF r1] q by simp
  next
    case False
    then have "length got < d" using q by simp
    from sq_holdsI [OF ring_ok_scrub [OF r1 this]] show ?thesis
      unfolding e using False drop_split [OF q(1) False] by simp
  qed
qed

lemma sq_observers:
  assumes k: "k < 64" and h: "sq_holds k r q"
  shows "sq_empty r = (q = [])" and "unat (sq_size r) = length q"
    and "sq_peek (2 ^ k) r = (if q = [] then None else Some (hd q))"
    and "q \<noteq> [] \<Longrightarrow> sq_front (2 ^ k) r = hd q \<and> sq_last (2 ^ k) r = last q"
proof -
  from h obtain sent got c d where r: "ring_ok k r sent got c d" and q: "q = drop (length got) sent"
    "length q = length sent - length got" "length got \<le> length sent" "length sent \<le> length got + 2 ^ k"
    by (rule sq_holdsE)
  have ht: "head r = of_nat (length got)" "tail r = of_nat (length sent)" using r by (simp_all add: ring_ok_def)
  have ne: "(q = []) = (length sent = length got)" using q by auto
  have "(head r = tail r) = (tail r - of_nat (length got) = 0)" unfolding ht(1) by auto
  then have eq: "(head r = tail r) = (q = [])" unfolding ring_ok_avail(2) [OF k r] ne .
  then show "sq_empty r = (q = [])" by (simp add: sq_empty_def)
  have "sq_size r = of_nat (length q)" using q ht by (simp add: sq_size_def of_nat_diff)
  moreover have "length q < 2 ^ 64" using q two_power_less_64 [OF k] by linarith
  ultimately show "unat (sq_size r) = length q" by (simp only: unat_of_nat_usize)
  have hd: "slots r ! (length got mod 2 ^ k) = hd q" if "q \<noteq> []"
    using ring_ok_front [OF r] drop_split [OF q(1) that] that ne q(3) by simp
  then show "sq_peek (2 ^ k) r = (if q = [] then None else Some (hd q))"
    using eq by (simp add: sq_peek_def ht(1) slot_of_nat [OF k])
  show "sq_front (2 ^ k) r = hd q \<and> sq_last (2 ^ k) r = last q" if "q \<noteq> []"
  proof
    show "sq_front (2 ^ k) r = hd q" using hd [OF that] by (simp add: sq_front_def ht(1) slot_of_nat [OF k])
    have lt: "length got < length sent" using that ne q by simp
    have "tail r - 1 = of_nat (length sent - 1)" using lt ht by (simp add: of_nat_diff)
    then have "sq_last (2 ^ k) r = slots r ! ((length sent - 1) mod 2 ^ k)" by (simp add: sq_last_def slot_of_nat [OF k])
    also have "\<dots> = sent ! (length sent - 1)"
    proof -
      have "length got \<le> length sent - 1" "length sent - 1 < length sent" using lt by auto
      then show ?thesis using r unfolding ring_ok_def by blast
    qed
    also have "\<dots> = last q" using lt q(1) by (simp add: last_conv_nth last_drop)
    finally show "sq_last (2 ^ k) r = last q" .
  qed
qed

subsection \<open>Batches\<close>

lemma ring_ok_writes:
  assumes k: "k < 64" and r: "ring_ok k r sent got c d"
  shows "length sent + n \<le> c + 2 ^ k \<Longrightarrow> n \<le> length items \<Longrightarrow>
    ring_ok k (r\<lparr>slots := fold (\<lambda>i s. s[(length sent + i) mod 2 ^ k := items ! i]) [0..<n] (slots r),
                tail := of_nat (length sent + n)\<rparr>) (sent @ take n items) got c d"
proof (induction n)
  case 0 then show ?case using r by (simp add: ring_ok_def)
next
  case (Suc n)
  let ?r = "r\<lparr>slots := fold (\<lambda>i s. s[(length sent + i) mod 2 ^ k := items ! i]) [0..<n] (slots r),
                tail := of_nat (length sent + n)\<rparr>"
  let ?sent = "sent @ take n items"
  have r': "ring_ok k ?r ?sent got c d" using Suc by simp
  have l: "length ?sent = length sent + n" "length ?sent < c + 2 ^ k" using Suc.prems by simp_all
  note w = ring_ok_write [OF k r' l(2), of "items ! n"]
  from ring_ok_publish_tail [OF w(1) l(2)] w(2)
  have "ring_ok k (?r\<lparr>slots := (slots ?r)[length ?sent mod 2 ^ k := items ! n], tail := of_nat (length ?sent) + 1\<rparr>)
      (?sent @ [items ! n]) got c d" by simp
  moreover have "?sent @ [items ! n] = sent @ take (Suc n) items" using Suc.prems by (simp add: take_Suc_conv_app_nth)
  ultimately show ?case unfolding l(1) by (simp add: add.commute)
qed

lemma ring_ok_reads:
  assumes r: "ring_ok k r sent got c d"
  shows "length got + n \<le> d \<Longrightarrow>
    ring_ok k (r\<lparr>head := of_nat (length got + n)\<rparr>) sent (got @ take n (drop (length got) sent)) c d"
proof (induction n)
  case 0 then show ?case using r by (simp add: ring_ok_def)
next
  case (Suc n)
  let ?got = "got @ take n (drop (length got) sent)"
  have ds: "d \<le> length sent" using r by (simp add: ring_ok_def)
  have l: "length ?got = length got + n" using Suc.prems ds by simp
  have r': "ring_ok k (r\<lparr>head := of_nat (length got + n)\<rparr>) sent ?got c d" using Suc by simp
  have "length ?got < d" using l Suc.prems by simp
  note this [THEN ring_ok_publish_head [OF r']]
  moreover have "?got @ [sent ! length ?got] = got @ take (Suc n) (drop (length got) sent)"
    using Suc.prems ds l by (simp add: take_Suc_conv_app_nth)
  ultimately show ?case unfolding l by (simp add: add.commute)
qed

lemma min_usize:
  assumes "a < 2 ^ 64" "n < 2 ^ 64"
  shows "(if (of_nat a :: usize) < of_nat n then of_nat a else of_nat n) = (of_nat (min a n) :: usize)"
    and "((of_nat a :: usize) < of_nat n) = (a < n)"
proof -
  show "((of_nat a :: usize) < of_nat n) = (a < n)" unfolding word_less_nat_alt using assms by (simp only: unat_of_nat_usize)
  then show "(if (of_nat a :: usize) < of_nat n then of_nat a else of_nat n) = (of_nat (min a n) :: usize)"
    by (simp add: min_def)
qed

lemma sq_push_batch_holds:
  assumes k: "k < 64" and h: "sq_holds k r q" and n: "length items < 2 ^ 64"
  defines "m \<equiv> min (length items) (2 ^ k - length q)"
  shows "fst (sq_push_batch (2 ^ k) r items) = m"
    and "sq_holds k (snd (sq_push_batch (2 ^ k) r items)) (q @ take m items)"
proof -
  from h obtain sent got c d where r: "ring_ok k r sent got c d" and q: "q = drop (length got) sent"
    "length q = length sent - length got" "length got \<le> length sent" "length sent \<le> length got + 2 ^ k"
    by (rule sq_holdsE)
  have t: "tail r = of_nat (length sent)" using r by (simp add: ring_ok_def)
  define a where "a = 2 ^ k - (length sent - c)"
  have av: "(2 ^ k :: usize) - (tail r - cached_head r) = of_nat a" "c \<le> length got" "length sent \<le> c + 2 ^ k"
    using r unfolding a_def by (simp_all add: ring_ok_def of_nat_diff)
  have a64: "a < 2 ^ 64" "2 ^ k - length q < 2 ^ 64" unfolding a_def using two_power_less_64 [OF k] by linarith+
  define c' where "c' = (if a < length items then length got else c)"
  define r1 where "r1 = (if a < length items then r\<lparr>cached_head := head r\<rparr> else r)"
  have r1: "ring_ok k r1 sent got c' d" using r ring_ok_reload_head [OF r] by (simp add: r1_def c'_def)
  have "(2 ^ k :: usize) - (tail r - head r) = of_nat (2 ^ k - length q)"
    using r q by (simp add: ring_ok_def of_nat_diff)
  then have av1: "(if a < length items then 2 ^ k - (tail r - cached_head r1) else of_nat a) =
      (of_nat (if a < length items then 2 ^ k - length q else a) :: usize)" by (simp add: r1_def)
  have "min (if a < length items then 2 ^ k - length q else a) (length items) = m"
    unfolding m_def q(2) a_def using av(2,3) q(3,4) by (auto simp: min_def)
  then have mm: "(if (of_nat (if a < length items then 2 ^ k - length q else a) :: usize) < of_nat (length items)
      then of_nat (if a < length items then 2 ^ k - length q else a) else of_nat (length items)) = (of_nat m :: usize)"
    using min_usize(1) [of "if a < length items then 2 ^ k - length q else a" "length items"] a64 n by auto
  have um: "unat (of_nat m :: usize) = m" using n by (intro unat_of_nat_usize) (simp add: m_def)
  have ix: "slot_of (2 ^ k) (of_nat (length sent) + of_nat i) = (length sent + i) mod 2 ^ k" for i
    using slot_of_nat [OF k, of "length sent + i"] by simp
  have e: "sq_push_batch (2 ^ k) r items = (m, r1\<lparr>slots := fold (\<lambda>i s. s[(length sent + i) mod 2 ^ k := items ! i]) [0..<m] (slots r1),
                tail := of_nat (length sent + m)\<rparr>)"
    unfolding sq_push_batch_def Let_def av(1) min_usize(2) [OF a64(1) n] r1_def [symmetric] av1 mm um
    unfolding t ix by simp
  show "fst (sq_push_batch (2 ^ k) r items) = m" by (simp add: e)
  have "length sent + m \<le> c' + 2 ^ k" "m \<le> length items"
    unfolding c'_def m_def a_def using q av(2,3) by (auto simp: min_def a_def)
  from sq_holdsI [OF ring_ok_writes [OF k r1 this]]
  show "sq_holds k (snd (sq_push_batch (2 ^ k) r items)) (q @ take m items)" using q by (simp add: e)
qed

lemma sq_pop_batch_holds:
  assumes k: "k < 64" and h: "sq_holds k r q" and n: "n < 2 ^ 64"
  shows "fst (sq_pop_batch (2 ^ k) r n) = take n q"
    and "sq_holds k (snd (sq_pop_batch (2 ^ k) r n)) (drop n q)"
proof -
  from h obtain sent got c d where r: "ring_ok k r sent got c d" and q: "q = drop (length got) sent"
    "length q = length sent - length got" "length got \<le> length sent" "length sent \<le> length got + 2 ^ k"
    by (rule sq_holdsE)
  have t: "head r = of_nat (length got)" using r by (simp add: ring_ok_def)
  define a where "a = d - length got"
  have av: "cached_tail r - head r = of_nat a" "length got \<le> d" "d \<le> length sent"
    using r unfolding a_def by (simp_all add: ring_ok_def of_nat_diff)
  have a64: "a < 2 ^ 64" "length q < 2 ^ 64" unfolding a_def using two_power_less_64 [OF k] q av by linarith+
  define d' where "d' = (if a < n then length sent else d)"
  define r1 where "r1 = (if a < n then r\<lparr>cached_tail := tail r\<rparr> else r)"
  have r1: "ring_ok k r1 sent got c d'" using r ring_ok_reload_tail [OF r] by (simp add: r1_def d'_def)
  have "tail r - head r = of_nat (length q)" using r q by (simp add: ring_ok_def of_nat_diff)
  then have av1: "(if a < n then cached_tail r1 - head r else of_nat a) = (of_nat (if a < n then length q else a) :: usize)"
    by (simp add: r1_def)
  define m where "m = min (length q) n"
  have "min (if a < n then length q else a) n = m"
    unfolding m_def q(2) a_def using av(2,3) q(3,4) by (auto simp: min_def)
  then have mm: "(if (of_nat (if a < n then length q else a) :: usize) < of_nat n
      then of_nat (if a < n then length q else a) else of_nat n) = (of_nat m :: usize)"
    using min_usize(1) [of "if a < n then length q else a" n] a64 n by auto
  have um: "unat (of_nat m :: usize) = m" using n by (intro unat_of_nat_usize) (simp add: m_def)
  have ix: "slot_of (2 ^ k) (of_nat (length got) + of_nat i) = (length got + i) mod 2 ^ k" for i
    using slot_of_nat [OF k, of "length got + i"] by simp
  have e: "sq_pop_batch (2 ^ k) r n =
      (map (\<lambda>i. slots r1 ! ((length got + i) mod 2 ^ k)) [0..<m], r1\<lparr>head := of_nat (length got + m)\<rparr>)"
    unfolding sq_pop_batch_def Let_def av(1) min_usize(2) [OF a64(1) n] r1_def [symmetric] av1 mm um
    unfolding t ix by simp
  have tk: "take m q = take n q" "drop m q = drop n q" by (auto simp: m_def min_def)
  have "slots r1 ! ((length got + i) mod 2 ^ k) = q ! i" if "i < m" for i
    using r1 q that by (auto simp: ring_ok_def m_def)
  then have "map (\<lambda>i. slots r1 ! ((length got + i) mod 2 ^ k)) [0..<m] = take m q"
    by (intro nth_equalityI) (auto simp: m_def)
  then show "fst (sq_pop_batch (2 ^ k) r n) = take n q" by (simp add: e tk)
  have m: "length got + m \<le> d'" unfolding d'_def m_def a_def using q av(2,3) by (auto simp: a_def min_def)
  have "length (got @ take m (drop (length got) sent)) = m + length got" using q by (simp add: m_def)
  then have "drop m q = drop (length (got @ take m (drop (length got) sent))) sent" unfolding q(1) by (simp only: drop_drop)
  from sq_holdsI [OF ring_ok_reads [OF r1 m] this]
  show "sq_holds k (snd (sq_pop_batch (2 ^ k) r n)) (drop n q)" by (simp add: e tk)
qed

lemma sq_of_list_holds:
  assumes k: "k < 64"
  shows "sq_holds k (sq_of_list z (2 ^ k) vs) (take (2 ^ k) vs)"
proof -
  have "sq_holds k (fold (\<lambda>v q. snd (sq_push (2 ^ k) q v)) ws r) (q @ take (2 ^ k - length q) ws)"
    if "sq_holds k r q" for ws r q
    using that
  proof (induction ws arbitrary: r q)
    case (Cons w ws)
    note ih = Cons.IH [OF sq_push_holds(2) [OF k Cons.prems, of w]]
    show ?case
    proof (cases "2 ^ k - length q")
      case 0 then show ?thesis using ih by simp
    next
      case (Suc m)
      then have "length q < 2 ^ k" "2 ^ k - length (q @ [w]) = m" by simp_all
      then show ?thesis using ih Suc by simp
    qed
  qed simp
  from this [OF sq_holds_new [OF k], of vs z] show ?thesis by (simp add: sq_of_list_def)
qed

interpretation spq: bounded_fifo "2 ^ k" "\<lambda>r q. k < 64 \<and> sq_holds k r q" "sq_push (2 ^ k)" "sq_pop (2 ^ k)" for k :: nat
  by unfold_locales (auto simp: sq_push_holds sq_pop_holds dest: sq_push_holds(2) sq_pop_holds(2))

subsection \<open>Progress of a call\<close>

fun push_left :: "'a producer \<Rightarrow> nat" where
  "push_left P_idle = 0"
| "push_left (P_publish v t) = 1"
| "push_left (P_write v t) = 2"
| "push_left (P_reload v t) = 3"
| "push_left (P_begin v) = 4"

fun pop_left :: "'a consumer \<Rightarrow> nat" where
  "pop_left C_idle = 0"
| "pop_left (C_publish v h) = 1"
| "pop_left (C_read h) = 2"
| "pop_left (C_reload h) = 3"
| "pop_left C_begin = 4"

lemma push_left_pos: "prod s = p \<Longrightarrow> p \<noteq> P_idle \<Longrightarrow> 0 < push_left p"
  by (cases p) auto

lemma push_enabled:
  assumes "prod s \<noteq> P_idle"
  shows "\<exists>e s'. sq_step cap s e s' \<and> cons s' = cons s \<and> push_left (prod s') < push_left (prod s)"
proof (cases "prod s")
  case (P_begin v)
  show ?thesis
  proof (cases "cap - (tail (ring s) - cached_head (ring s)) = 0")
    case True with push_stale [OF P_begin refl True] P_begin show ?thesis by force
  next
    case False with push_cached [OF P_begin refl False] P_begin show ?thesis by force
  qed
next
  case (P_reload v t)
  show ?thesis
  proof (cases "cap - (t - cached_head ((ring s)\<lparr>cached_head := head (ring s)\<rparr>)) = 0")
    case True with push_full [OF P_reload refl True] P_reload show ?thesis by force
  next
    case False with push_room [OF P_reload refl False] P_reload show ?thesis by force
  qed
next
  case (P_write v t) with push_write [OF P_write refl] show ?thesis by force
next
  case (P_publish v t) with push_publish [OF P_publish refl] show ?thesis by force
qed (use assms in simp)

lemma pop_enabled:
  assumes "cons s \<noteq> C_idle"
  shows "\<exists>e s'. sq_step cap s e s' \<and> prod s' = prod s \<and> pop_left (cons s') < pop_left (cons s)"
proof (cases "cons s")
  case C_begin
  show ?thesis
  proof (cases "cached_tail (ring s) - head (ring s) = 0")
    case True with pop_stale [OF C_begin refl True] C_begin show ?thesis by force
  next
    case False with pop_cached [OF C_begin refl False] C_begin show ?thesis by force
  qed
next
  case (C_reload h)
  show ?thesis
  proof (cases "cached_tail ((ring s)\<lparr>cached_tail := tail (ring s)\<rparr>) - h = 0")
    case True with pop_none [OF C_reload refl True] C_reload show ?thesis by force
  next
    case False with pop_room [OF C_reload refl False] C_reload show ?thesis by force
  qed
next
  case (C_read h) with pop_read [OF C_read] show ?thesis by force
next
  case (C_publish v h) with pop_publish [OF C_publish refl] show ?thesis by force
qed (use assms in simp)

lemma step_progress:
  "sq_step cap s e s' \<Longrightarrow> prod s \<noteq> P_idle \<Longrightarrow> prod s' = prod s \<or> push_left (prod s') < push_left (prod s)"
  "sq_step cap s e s' \<Longrightarrow> cons s \<noteq> C_idle \<Longrightarrow> cons s' = cons s \<or> pop_left (cons s') < pop_left (cons s)"
  by (erule sq_step.cases; simp)+

subsection \<open>Properties\<close>

text \<open>The capacity of a queue declared for \<open>n\<close> elements is the least power of two that is at least \<open>n\<close>, for every \<open>n\<close> up to \<open>2\<^sup>63\<close>.\<close>

theorem spsc_capacity:
  assumes "0 < unat n" "unat n \<le> 2 ^ 63"
  shows "\<exists>k < 64. unat (next_pow2 n) = 2 ^ k \<and> unat n \<le> 2 ^ k \<and> (\<forall>j. unat n \<le> 2 ^ j \<longrightarrow> k \<le> j)"
  using next_pow2_least [OF assms] unat_exp by auto

theorem spsc_capacity_witness:
  "\<exists>k < 64. unat (next_pow2 100) = 2 ^ k \<and> unat (100 :: usize) \<le> 2 ^ k \<and> (\<forall>j. unat (100 :: usize) \<le> 2 ^ j \<longrightarrow> k \<le> j)"
  by (rule spsc_capacity) simp_all

text \<open>C3: However the accesses of one producer and one consumer interleave, and however often the 64-bit indices wrap around, the
  ring is a first-in first-out queue: the values got are a prefix of the values sent, at most the capacity is in between, the
  indices give the size, and every step of either side is a step of the abstract queue: a push adds at the end when there is
  room, a pop takes the oldest value, a refused push found the queue full and a refused pop found it empty.\<close>

theorem spsc_concurrent_fifo:
  assumes "0 < unat n" "unat n \<le> 2 ^ 63" "sq_run zero (next_pow2 n) s sent got"
  shows "take (length got) sent = got
       \<and> length (drop (length got) sent) \<le> unat (next_pow2 n)
       \<and> unat (sq_size (ring s)) = length (drop (length got) sent)
       \<and> (\<forall>e s'. sq_step (next_pow2 n) s e s' \<longrightarrow>
            fifo_step (unat (next_pow2 n)) (drop (length got) sent) e (drop (length (got @ popped_of e)) (sent @ pushed_of e)))"
proof -
  obtain k where k: "k < 64" "next_pow2 n = 2 ^ k" using next_pow2_least [OF assms(1,2)] by blast
  have u: "unat (next_pow2 n) = 2 ^ k" using k unat_exp by simp
  have g: "sq_good k s sent got" using sq_run_good assms(3) k by simp
  then obtain c d where r: "ring_ok k (ring s) sent got c d" by (auto simp: sq_good_def)
  then have h: "sq_holds k (ring s) (drop (length got) sent)" by (rule sq_holdsI) simp
  have "fifo_step (2 ^ k) (drop (length got) sent) e (drop (length (got @ popped_of e)) (sent @ pushed_of e))"
    if "sq_step (next_pow2 n) s e s'" for e s' using sq_good_fifo [OF k(1) g] that k(2) by simp
  moreover have "take (length got) sent = got" "length (drop (length got) sent) \<le> 2 ^ k"
    using r by (auto simp: ring_ok_def)
  ultimately show ?thesis unfolding u using sq_observers(2) [OF k(1) h] by blast
qed

lemma spsc_demo_run:
  "\<exists>s. sq_run (0::nat) (next_pow2 1) s [7] []"
proof -
  let ?s0 = "\<lparr>ring = sq_new (0::nat) (next_pow2 1), prod = P_idle, cons = C_idle\<rparr>"
  have "sq_run 0 (next_pow2 1) (?s0\<lparr>prod := P_begin 7\<rparr>) [] []"
    using step [OF start [of 0 "next_pow2 1"] push_call] by simp
  then have "sq_run 0 (next_pow2 1) (?s0\<lparr>prod := P_write 7 0\<rparr>) [] []"
    using step [OF _ push_cached [of "?s0\<lparr>prod := P_begin 7\<rparr>" 7 0 "next_pow2 1"], of 0 "[]" "[]"]
    by (simp add: sq_new_def next_pow2_def)
  from step [OF this push_write [OF _ refl, of _ 7 0]] have "\<exists>r. sq_run 0 (next_pow2 1) (?s0\<lparr>ring := r, prod := P_publish 7 0\<rparr>) [] []"
    by auto
  then obtain r where "sq_run 0 (next_pow2 1) (?s0\<lparr>ring := r, prod := P_publish 7 0\<rparr>) [] []" ..
  from step [OF this push_publish [OF _ refl, of _ 7 0]] show ?thesis by auto
qed

theorem spsc_concurrent_fifo_witness:
  "\<exists>s. sq_run (0::nat) (next_pow2 1) s [7] [] \<and> unat (sq_size (ring s)) = 1"
proof -
  obtain s where s: "sq_run (0::nat) (next_pow2 1) s [7] []" using spsc_demo_run by blast
  have "unat (sq_size (ring s)) = length (drop (length ([] :: nat list)) [7 :: nat])"
    using spsc_concurrent_fifo [of 1 0 s "[7]" "[]"] s by simp
  then show ?thesis using s by auto
qed

text \<open>C29: The calls are wait-free: in every state a \<open>push\<close> or a \<open>pop\<close> that has begun can take its next access, whatever the other side
  is doing, its own accesses bring it strictly closer to its end, at most four of them away, and the other side's do not set
  it back.\<close>

theorem spsc_wait_free:
  fixes s :: "'a sys"
  shows "(prod s = P_idle \<or> (\<exists>e s'. sq_step cap s e s' \<and> cons s' = cons s \<and> push_left (prod s') < push_left (prod s)))
       \<and> (cons s = C_idle \<or> (\<exists>e s'. sq_step cap s e s' \<and> prod s' = prod s \<and> pop_left (cons s') < pop_left (cons s)))
       \<and> push_left (prod s) \<le> 4 \<and> pop_left (cons s) \<le> 4
       \<and> (push_left (prod s) = 0 \<longleftrightarrow> prod s = P_idle) \<and> (pop_left (cons s) = 0 \<longleftrightarrow> cons s = C_idle)
       \<and> (\<forall>e s'. sq_step cap s e s' \<longrightarrow>
            (prod s \<noteq> P_idle \<longrightarrow> prod s' = prod s \<or> push_left (prod s') < push_left (prod s)) \<and>
            (cons s \<noteq> C_idle \<longrightarrow> cons s' = cons s \<or> pop_left (cons s') < pop_left (cons s)))"
proof (intro conjI allI impI)
  show "push_left (prod s) \<le> 4" "push_left (prod s) = 0 \<longleftrightarrow> prod s = P_idle" by (cases "prod s"; simp)+
  show "pop_left (cons s) \<le> 4" "pop_left (cons s) = 0 \<longleftrightarrow> cons s = C_idle" by (cases "cons s"; simp)+
  show "prod s = P_idle \<or> (\<exists>e s'. sq_step cap s e s' \<and> cons s' = cons s \<and> push_left (prod s') < push_left (prod s))"
    using push_enabled by blast
  show "cons s = C_idle \<or> (\<exists>e s'. sq_step cap s e s' \<and> prod s' = prod s \<and> pop_left (cons s') < pop_left (cons s))"
    using pop_enabled by blast
qed (use step_progress in \<open>blast+\<close>)

theorem spsc_wait_free_witness:
  "\<exists>e s'. sq_step 4 \<lparr>ring = sq_new (0::nat) 4, prod = P_begin 7, cons = C_idle\<rparr> e s' \<and> push_left (prod s') < 4"
  using spsc_wait_free [of "\<lparr>ring = sq_new (0::nat) 4, prod = P_begin 7, cons = C_idle\<rparr>" 4] by auto

text \<open>Whole calls on a ring of the capacity the queue is declared with, one after another: any sequence of pushes and pops on a
  new queue returns what the abstract bounded queue returns; the queue made from a list holds the list cut at the capacity;
  and on a ring that holds \<open>q\<close> the batches store what fits and take what there is, in order, and the observers show \<open>q\<close>.\<close>

theorem spsc_calls_refine:
  assumes "k < 64" "sq_holds k r q" "length items < 2 ^ 64" "m < 2 ^ 64"
  shows "fst (run_ops (queue_call (sq_push (2 ^ k)) (sq_pop (2 ^ k))) (sq_new zero (2 ^ k)) xs) = fst (run_ops (fifo_op (2 ^ k)) [] xs)
       \<and> sq_holds k (sq_of_list zero (2 ^ k) vs) (take (2 ^ k) vs)
       \<and> sq_holds k (sq_clear zero (2 ^ k) r) []
       \<and> fst (sq_drop (2 ^ k) zero r) = (q \<noteq> []) \<and> sq_holds k (snd (sq_drop (2 ^ k) zero r)) (tl q)
       \<and> fst (sq_push_batch (2 ^ k) r items) = min (length items) (2 ^ k - length q)
       \<and> sq_holds k (snd (sq_push_batch (2 ^ k) r items)) (q @ take (2 ^ k - length q) items)
       \<and> fst (sq_pop_batch (2 ^ k) r m) = take m q \<and> sq_holds k (snd (sq_pop_batch (2 ^ k) r m)) (drop m q)
       \<and> sq_empty r = (q = []) \<and> unat (sq_size r) = length q
       \<and> sq_peek (2 ^ k) r = (if q = [] then None else Some (hd q))
       \<and> (q = [] \<or> sq_front (2 ^ k) r = hd q \<and> sq_last (2 ^ k) r = last q)"
proof (intro conjI)
  note k = assms(1) and h = assms(2)
  show "fst (run_ops (queue_call (sq_push (2 ^ k)) (sq_pop (2 ^ k))) (sq_new zero (2 ^ k)) xs) = fst (run_ops (fifo_op (2 ^ k)) [] xs)"
    by (rule spq.run_refines [THEN conjunct1]) (rule conjI [OF k sq_holds_new [OF k]])
  show "sq_holds k (snd (sq_push_batch (2 ^ k) r items)) (q @ take (2 ^ k - length q) items)"
  proof -
    have "take (min (length items) (2 ^ k - length q)) items = take (2 ^ k - length q) items" by (simp add: min_def)
    then show ?thesis using sq_push_batch_holds(2) [OF k h assms(3)] by simp
  qed
  show "q = [] \<or> sq_front (2 ^ k) r = hd q \<and> sq_last (2 ^ k) r = last q" using sq_observers(4) [OF k h] by blast
qed (use assms in \<open>simp_all add: sq_of_list_holds sq_holds_clear sq_drop_holds sq_push_batch_holds(1) sq_pop_batch_holds sq_observers\<close>)

theorem spsc_calls_refine_witness:
  "sq_holds 2 (snd (sq_push_batch (2 ^ 2) (sq_new (0::nat) (2 ^ 2)) [5, 6])) [5, 6]"
  using spsc_calls_refine [of 2 "sq_new (0::nat) (2 ^ 2)" "[]" "[5, 6]" 1 0 "[]" "[]"] sq_holds_new [of 2 "0::nat"] by simp

end
