(* ===== verification/Queue_Mpmc.thy ===== *)
theory Queue_Mpmc
  imports Lock_Base Queue_Spsc
begin

text \<open>
  The bounded queues for several producers and consumers, \<^verbatim>\<open>src/src/queue/static_mpmc.hpp\<close> and \<^verbatim>\<open>src/src/queue/crossbeam.hpp\<close>.  Every cell has a tag.
  A producer claims a position by a compare-and-swap on the tail when the tag of its cell says that the cell is free for this position,
  writes the value and raises the tag; consumers do the same at the head.
\<close>

unbundle bit_operations_syntax

subsection \<open>The queue\<close>

datatype 'a mpmc_pc =
    Q_idle
  | P_load 'a
  | P_seq 'a usize
  | P_cas 'a usize
  | P_write 'a usize
  | P_tag usize
  | P_full usize
  | G_load
  | G_seq usize
  | G_cas usize
  | G_read usize
  | G_tag usize 'a
  | G_done usize 'a
  | G_empty usize

text \<open>\<open>sent\<close> holds the values in the order in which producers claimed their positions, \<open>got\<close> is the number of positions that consumers claimed, and
  \<open>out\<close> lists the positions that have been handed out with their values.  No step depends on them.\<close>

record ('t, 'a) mpmc =
  q_seq :: "usize list"
  q_val :: "'a list"
  q_tail :: usize
  q_head :: usize
  q_pc :: "'t \<Rightarrow> 'a mpmc_pc"
  sent :: "'a list"
  got :: nat
  out :: "(nat \<times> 'a) list"

definition mpmc_new :: "nat \<Rightarrow> 'a \<Rightarrow> ('t, 'a) mpmc" where
  "mpmc_new N dflt = \<lparr>q_seq = map of_nat [0..<N], q_val = replicate N dflt, q_tail = 0, q_head = 0, q_pc = (\<lambda>_. Q_idle), sent = [], got = 0, out = []\<rparr>"

definition cell :: "nat \<Rightarrow> usize \<Rightarrow> nat" where
  "cell N pos = unat (pos AND (of_nat N - 1))"

definition mpmc_size :: "('t, 'a) mpmc \<Rightarrow> usize" where
  "mpmc_size l = q_tail l - q_head l"

definition mpmc_empty :: "('t, 'a) mpmc \<Rightarrow> bool" where
  "mpmc_empty l \<longleftrightarrow> q_tail l = q_head l"

definition mpmc_maybe_nonempty :: "('t, 'a) mpmc \<Rightarrow> bool" where
  "mpmc_maybe_nonempty l \<longleftrightarrow> q_tail l \<noteq> q_head l"

definition qat :: "'t \<Rightarrow> 'a mpmc_pc \<Rightarrow> ('t, 'a) mpmc \<Rightarrow> ('t, 'a) mpmc" where
  "qat t p l = l\<lparr>q_pc := (q_pc l)(t := p)\<rparr>"

text \<open>The difference of a tag and a position, as a signed number; \<^verbatim>\<open>crossbeam\<close> converts both to signed numbers before it subtracts, which is the same while both
  are below \<open>2 ^ 63\<close>.\<close>

definition dif :: "nat \<Rightarrow> ('t, 'a) mpmc \<Rightarrow> usize \<Rightarrow> usize \<Rightarrow> int" where
  "dif N l c pos = sint (q_seq l ! cell N c - pos)"

text \<open>The flag tells \<^verbatim>\<open>crossbeam\<close>, which reads the index again after a failed compare-and-swap, from \<^verbatim>\<open>static_mpmc\<close>, which takes the value that the
  operation returned.\<close>

inductive mpmc_step :: "bool \<Rightarrow> nat \<Rightarrow> ('t, 'a) mpmc \<Rightarrow> ('t, 'a) mpmc \<Rightarrow> bool" for cb N where
  push_call: "q_pc l t = Q_idle \<Longrightarrow> mpmc_step cb N l (qat t (P_load v) l)"
| push_load: "q_pc l t = P_load v \<Longrightarrow> mpmc_step cb N l (qat t (P_seq v (q_tail l)) l)"
| push_free: "q_pc l t = P_seq v pos \<Longrightarrow> dif N l pos pos = 0 \<Longrightarrow> mpmc_step cb N l (qat t (P_cas v pos) l)"
| push_full: "q_pc l t = P_seq v pos \<Longrightarrow> dif N l pos pos < 0 \<Longrightarrow> mpmc_step cb N l (qat t (P_full pos) l)"
| push_stale: "q_pc l t = P_seq v pos \<Longrightarrow> dif N l pos pos > 0 \<Longrightarrow> mpmc_step cb N l (qat t (P_load v) l)"
| push_won: "q_pc l t = P_cas v pos \<Longrightarrow> q_tail l = pos \<Longrightarrow> mpmc_step cb N l (qat t (P_write v pos) l\<lparr>q_tail := pos + 1, sent := sent l @ [v]\<rparr>)"
| push_lost: "q_pc l t = P_cas v pos \<Longrightarrow> mpmc_step cb N l (qat t (if cb then P_load v else P_seq v (q_tail l)) l)"
| push_write: "q_pc l t = P_write v pos \<Longrightarrow> mpmc_step cb N l (qat t (P_tag pos) l\<lparr>q_val := (q_val l)[cell N pos := v]\<rparr>)"
| push_tag: "q_pc l t = P_tag pos \<Longrightarrow> mpmc_step cb N l (qat t Q_idle l\<lparr>q_seq := (q_seq l)[cell N pos := pos + 1]\<rparr>)"
| push_false: "q_pc l t = P_full pos \<Longrightarrow> mpmc_step cb N l (qat t Q_idle l)"
| pop_call: "q_pc l t = Q_idle \<Longrightarrow> mpmc_step cb N l (qat t G_load l)"
| pop_load: "q_pc l t = G_load \<Longrightarrow> mpmc_step cb N l (qat t (G_seq (q_head l)) l)"
| pop_full: "q_pc l t = G_seq pos \<Longrightarrow> dif N l pos (pos + 1) = 0 \<Longrightarrow> mpmc_step cb N l (qat t (G_cas pos) l)"
| pop_empty: "q_pc l t = G_seq pos \<Longrightarrow> dif N l pos (pos + 1) < 0 \<Longrightarrow> mpmc_step cb N l (qat t (G_empty pos) l)"
| pop_stale: "q_pc l t = G_seq pos \<Longrightarrow> dif N l pos (pos + 1) > 0 \<Longrightarrow> mpmc_step cb N l (qat t G_load l)"
| pop_won: "q_pc l t = G_cas pos \<Longrightarrow> q_head l = pos \<Longrightarrow> mpmc_step cb N l (qat t (G_read pos) l\<lparr>q_head := pos + 1, got := got l + 1\<rparr>)"
| pop_lost: "q_pc l t = G_cas pos \<Longrightarrow> mpmc_step cb N l (qat t (if cb then G_load else G_seq (q_head l)) l)"
| pop_read: "q_pc l t = G_read pos \<Longrightarrow> mpmc_step cb N l (qat t (G_tag pos (q_val l ! cell N pos)) l)"
| pop_tag: "q_pc l t = G_tag pos x \<Longrightarrow> mpmc_step cb N l (qat t (G_done pos x) l\<lparr>q_seq := (q_seq l)[cell N pos := pos + of_nat N], out := out l @ [(unat pos, x)]\<rparr>)"
| pop_true: "q_pc l t = G_done pos x \<Longrightarrow> mpmc_step cb N l (qat t Q_idle l)"
| pop_false: "q_pc l t = G_empty pos \<Longrightarrow> mpmc_step cb N l (qat t Q_idle l)"

text \<open>The capacity of \<^verbatim>\<open>crossbeam\<close> is rounded up by spreading the highest bit over the lower ones.\<close>

definition smear :: "nat \<Rightarrow> usize \<Rightarrow> usize" where
  "smear s n = n OR drop_bit s n"

definition crossbeam_next_pow2 :: "usize \<Rightarrow> usize" where
  "crossbeam_next_pow2 n = smear 32 (smear 16 (smear 8 (smear 4 (smear 2 (smear 1 (n - 1)))))) + 1"

definition crossbeam_new :: "usize \<Rightarrow> 'a \<Rightarrow> ('t, 'a) mpmc" where
  "crossbeam_new n dflt = mpmc_new (unat (crossbeam_next_pow2 n)) dflt"

definition crossbeam_step :: "usize \<Rightarrow> ('t, 'a) mpmc \<Rightarrow> ('t, 'a) mpmc \<Rightarrow> bool" where
  "crossbeam_step n = mpmc_step True (unat (crossbeam_next_pow2 n))"

subsection \<open>The invariant\<close>

abbreviation tag :: "('t, 'a) mpmc \<Rightarrow> nat \<Rightarrow> nat" where
  "tag l i \<equiv> unat (q_seq l ! i)"

text \<open>Positions that a thread has claimed for writing or for reading.\<close>

fun writes_at :: "'a mpmc_pc \<Rightarrow> nat option" where
  "writes_at (P_write v pos) = Some (unat pos)"
| "writes_at (P_tag pos) = Some (unat pos)"
| "writes_at _ = None"

fun reads_at :: "'a mpmc_pc \<Rightarrow> nat option" where
  "reads_at (G_read pos) = Some (unat pos)"
| "reads_at (G_tag pos x) = Some (unat pos)"
| "reads_at _ = None"

definition writing :: "('t, 'a) mpmc \<Rightarrow> nat \<Rightarrow> bool" where
  "writing l p \<longleftrightarrow> (\<exists>t. writes_at (q_pc l t) = Some p)"

definition reading :: "('t, 'a) mpmc \<Rightarrow> nat \<Rightarrow> bool" where
  "reading l p \<longleftrightarrow> (\<exists>t. reads_at (q_pc l t) = Some p)"

definition sole :: "('t \<Rightarrow> nat option) \<Rightarrow> bool" where
  "sole f \<longleftrightarrow> (\<forall>t u p. f t = Some p \<longrightarrow> f u = Some p \<longrightarrow> t = u)"

text \<open>What a thread knows.\<close>

fun mpmc_at :: "nat \<Rightarrow> ('t, 'a) mpmc \<Rightarrow> 'a mpmc_pc \<Rightarrow> bool" where
  "mpmc_at N l (P_seq v pos) = (unat pos \<le> length (sent l))"
| "mpmc_at N l (P_cas v pos) = (unat pos \<le> length (sent l) \<and> (unat pos = length (sent l) \<longrightarrow> tag l (unat pos mod N) = unat pos))"
| "mpmc_at N l (P_write v pos) = (unat pos < length (sent l) \<and> tag l (unat pos mod N) = unat pos \<and> v = sent l ! unat pos)"
| "mpmc_at N l (P_tag pos) = (unat pos < length (sent l) \<and> tag l (unat pos mod N) = unat pos \<and> q_val l ! (unat pos mod N) = sent l ! unat pos)"
| "mpmc_at N l (G_seq pos) = (unat pos \<le> got l)"
| "mpmc_at N l (G_cas pos) = (unat pos \<le> got l \<and> (unat pos = got l \<longrightarrow> tag l (unat pos mod N) = unat pos + 1))"
| "mpmc_at N l (G_read pos) = (unat pos < got l \<and> tag l (unat pos mod N) = unat pos + 1)"
| "mpmc_at N l (G_tag pos x) = (unat pos < got l \<and> tag l (unat pos mod N) = unat pos + 1 \<and> x = sent l ! unat pos)"
| "mpmc_at N l (G_done pos x) = ((unat pos, x) \<in> set (out l))"
| "mpmc_at N l _ = True"

text \<open>A cell is free for the position its tag names, until this is claimed and while it is written; or it holds the value of the position before, until that is
  claimed and while it is read.\<close>

definition free_cell :: "nat \<Rightarrow> ('t, 'a) mpmc \<Rightarrow> nat \<Rightarrow> bool" where
  "free_cell N l i \<longleftrightarrow> tag l i mod N = i \<and> tag l i < got l + N \<and> (length (sent l) \<le> tag l i \<or> writing l (tag l i))"

definition full_cell :: "nat \<Rightarrow> ('t, 'a) mpmc \<Rightarrow> nat \<Rightarrow> nat \<Rightarrow> bool" where
  "full_cell N l i p \<longleftrightarrow> tag l i = p + 1 \<and> p mod N = i \<and> p < got l + N \<and> p < length (sent l) \<and> q_val l ! i = sent l ! p \<and> (got l \<le> p \<or> reading l p)"

definition cell_ok :: "nat \<Rightarrow> ('t, 'a) mpmc \<Rightarrow> nat \<Rightarrow> bool" where
  "cell_ok N l i \<longleftrightarrow> free_cell N l i \<or> (\<exists>p. full_cell N l i p)"

definition mpmc_shape :: "nat \<Rightarrow> ('t, 'a) mpmc \<Rightarrow> bool" where
  "mpmc_shape N l \<longleftrightarrow> length (q_seq l) = N \<and> length (q_val l) = N \<and> q_tail l = of_nat (length (sent l)) \<and> q_head l = of_nat (got l) \<and> got l \<le> length (sent l) \<and>
     (\<forall>p < length (sent l). p \<le> tag l (p mod N)) \<and> (\<forall>p < got l. p + 1 \<le> tag l (p mod N))"

text \<open>A position has been handed out, or it is being read, or it has not been claimed by a consumer.\<close>

definition out_ok :: "('t, 'a) mpmc \<Rightarrow> bool" where
  "out_ok l \<longleftrightarrow> distinct (map fst (out l)) \<and> (\<forall>(p, x) \<in> set (out l). p < got l \<and> x = sent l ! p \<and> \<not> reading l p) \<and>
     (\<forall>p < got l. p \<in> fst ` set (out l) \<or> reading l p)"

definition mpmc_inv :: "nat \<Rightarrow> ('t, 'a) mpmc \<Rightarrow> bool" where
  "mpmc_inv N l \<longleftrightarrow> mpmc_shape N l \<and> (\<forall>i < N. cell_ok N l i) \<and> (\<forall>t. mpmc_at N l (q_pc l t)) \<and> out_ok l \<and>
     sole (\<lambda>t. writes_at (q_pc l t)) \<and> sole (\<lambda>t. reads_at (q_pc l t))"

definition mpmc_bounds :: "nat \<Rightarrow> bool" where
  "mpmc_bounds N \<longleftrightarrow> (\<exists>b. N = 2 ^ b) \<and> 2 \<le> N"

subsection \<open>Positions and tags\<close>

lemma pos_unat: "p < 2 ^ 63 \<Longrightarrow> unat (of_nat p :: usize) = p"
  by (simp add: unsigned_of_nat take_bit_nat_eq_self)

lemma pos_eq: "unat a = unat b \<Longrightarrow> a = (b :: usize)"
  by (rule unsigned_word_eqI)

lemma cell_mod: "mpmc_bounds N \<Longrightarrow> N < 2 ^ 63 \<Longrightarrow> cell N pos = unat pos mod N"
proof -
  assume "mpmc_bounds N" "N < 2 ^ 63"
  then obtain b where b: "N = 2 ^ b" by (auto simp: mpmc_bounds_def)
  have "(of_nat N :: usize) - 1 = mask b" by (simp add: b mask_eq_exp_minus_1)
  then have "cell N pos = unat (take_bit b pos)" by (simp only: cell_def take_bit_eq_mask)
  also have "\<dots> = take_bit b (unat pos)" by (rule unsigned_take_bit_eq)
  finally show ?thesis by (simp add: b take_bit_eq_mod)
qed

lemma signed_difference:
  assumes "unat a < 2 ^ 63" "unat b < 2 ^ 63"
  shows "sint (a - b :: usize) = int (unat a) - int (unat b)"
proof -
  have i: "int (unat a) < 2 ^ 63" "int (unat b) < 2 ^ 63" using assms by (simp_all only: of_nat_less_numeral_power_cancel_iff)
  have "a - b = word_of_int (int (unat a) - int (unat b))" by simp
  then have "sint (a - b) = signed_take_bit 63 (int (unat a) - int (unat b))" by (simp only: sint_sbintrunc') simp
  also have "\<dots> = int (unat a) - int (unat b)" using i by (intro signed_take_bit_int_eq_self) linarith+
  finally show ?thesis .
qed

lemma next_residue: "2 \<le> N \<Longrightarrow> Suc p mod N \<noteq> p mod (N :: nat)" "2 \<le> N \<Longrightarrow> p mod N \<noteq> Suc p mod (N :: nat)"
  by (simp_all add: mod_Suc)

subsection \<open>The rounded capacity\<close>

lemma smear_bits:
  assumes "\<And>k. bit x k \<longleftrightarrow> (\<exists>d < m. bit w (k + d))"
  shows "bit (smear m x) k \<longleftrightarrow> (\<exists>d < 2 * m. bit (w :: usize) (k + d))"
proof -
  have "(\<exists>d < m. bit w (m + k + d)) \<longleftrightarrow> (\<exists>d < 2 * m. m \<le> d \<and> bit w (k + d))"
  proof
    assume "\<exists>d < m. bit w (m + k + d)"
    then obtain d where "d < m" "bit w (k + (m + d))" by (auto simp: ac_simps)
    then show "\<exists>d < 2 * m. m \<le> d \<and> bit w (k + d)" by (intro exI [of _ "m + d"]) auto
  next
    assume "\<exists>d < 2 * m. m \<le> d \<and> bit w (k + d)"
    then obtain d where "d < 2 * m" "m \<le> d" "bit w (k + d)" by blast
    then show "\<exists>d < m. bit w (m + k + d)" by (intro exI [of _ "d - m"]) auto
  qed
  then show ?thesis by (auto simp: smear_def bit_or_iff bit_drop_bit_eq assms) (metis linorder_not_le)
qed

lemma smeared:
  "bit (smear 32 (smear 16 (smear 8 (smear 4 (smear 2 (smear 1 w)))))) k \<longleftrightarrow> (\<exists>d < 64. bit (w :: usize) (k + d))"
proof -
  have 0: "bit w k \<longleftrightarrow> (\<exists>d < 1. bit w (k + d))" for k by simp
  note 1 = smear_bits [OF 0, simplified] 
  note 2 = smear_bits [of _ 2, OF 1, simplified]
  note 4 = smear_bits [of _ 4, OF 2, simplified]
  note 8 = smear_bits [of _ 8, OF 4, simplified]
  note 16 = smear_bits [of _ 16, OF 8, simplified]
  show ?thesis using smear_bits [of _ 32, OF 16, simplified] by simp
qed

lemma crossbeam_next_pow2_power:
  assumes "1 < unat n" "unat n \<le> 2 ^ 63"
  shows "\<exists>b. 1 \<le> b \<and> b \<le> 63 \<and> unat (crossbeam_next_pow2 n) = 2 ^ b \<and> unat n \<le> 2 ^ b \<and> 2 ^ b < 2 * unat n"
proof -
  define w where "w = n - 1"
  have w: "unat w = unat n - 1" using assms(1) by (simp add: w_def unat_sub word_le_nat_alt)
  then have "1 \<le> unat w" using assms(1) by simp
  then obtain k where k: "2 ^ k \<le> unat w" "unat w < 2 ^ (k + 1)" using ex_power_ivl1 [of 2 "unat w"] by blast
  have "(2 :: nat) ^ k < 2 ^ 63" using k(1) w assms by linarith
  then have k63: "k < 63" by (rule power_less_imp_less_exp [rotated]) simp
  have top: "bit w k"
  proof -
    have "unat w div 2 ^ k = 1" using k by (intro div_nat_eqI) auto
    then have "bit (unat w) k" by (simp add: bit_iff_odd)
    then show ?thesis by (simp add: bit_unsigned_iff)
  qed
  have above: "\<not> bit w j" if "k < j" for j
  proof -
    have "unat w < 2 ^ j" using k(2) that power_increasing [of "k + 1" j "2 :: nat"] by simp
    then have "\<not> bit (unat w) j" by (simp add: bit_iff_odd)
    then show ?thesis by (auto simp: bit_unsigned_iff dest: bit_imp_le_length)
  qed
  have "smear 32 (smear 16 (smear 8 (smear 4 (smear 2 (smear 1 w))))) = mask (k + 1)" (is "?x = _")
  proof (rule bit_eqI)
    fix j
    have "(\<exists>d < 64. bit w (j + d)) \<longleftrightarrow> j \<le> k"
    proof
      assume "j \<le> k" then show "\<exists>d < 64. bit w (j + d)" using top k63 by (intro exI [of _ "k - j"]) auto
    next
      assume "\<exists>d < 64. bit w (j + d)"
      then obtain d where "bit w (j + d)" by blast
      then show "j \<le> k" using above [of "j + d"] by (cases "k < j + d") auto
    qed
    then show "bit ?x j \<longleftrightarrow> bit (mask (k + 1) :: usize) j" unfolding smeared using k63 by (auto simp: bit_mask_iff)
  qed
  then have "crossbeam_next_pow2 n = 2 ^ (k + 1)" by (simp only: crossbeam_next_pow2_def w_def [symmetric]) (simp add: mask_eq_exp_minus_1)
  moreover have "(2 :: nat) ^ (k + 1) < 2 ^ 64" using k63 by (intro power_strict_increasing) auto
  then have "unat (of_nat (2 ^ (k + 1)) :: usize) = 2 ^ (k + 1)" by (simp only: unsigned_of_nat) (simp add: take_bit_nat_eq_self)
  ultimately show ?thesis using k k63 w assms(1) by (intro exI [of _ "k + 1"]) auto
qed

lemma crossbeam_capacity: "1 < unat n \<Longrightarrow> unat n \<le> 2 ^ 63 \<Longrightarrow> mpmc_bounds (unat (crossbeam_next_pow2 n)) \<and> unat n \<le> unat (crossbeam_next_pow2 n)"
  using crossbeam_next_pow2_power [of n] by (auto simp: mpmc_bounds_def)

text \<open>The ring for one producer and one consumer rounds its capacity in the same way.\<close>

lemma spsc_rounds_alike: "next_pow2 n = crossbeam_next_pow2 n"
  by (simp add: next_pow2_def crossbeam_next_pow2_def smear_def Let_def)

subsection \<open>Steps\<close>

lemma inv_shape:
  assumes "mpmc_inv N l"
  shows "length (q_seq l) = N" "length (q_val l) = N" "q_tail l = of_nat (length (sent l))" "q_head l = of_nat (got l)" "got l \<le> length (sent l)"
    "\<And>p. p < length (sent l) \<Longrightarrow> p \<le> tag l (p mod N)" "\<And>p. p < got l \<Longrightarrow> p + 1 \<le> tag l (p mod N)"
  using assms by (auto simp: mpmc_inv_def mpmc_shape_def)

lemma inv_at: "mpmc_inv N l \<Longrightarrow> mpmc_at N l (q_pc l t)"
  by (simp add: mpmc_inv_def)

lemma inv_cell: "mpmc_inv N l \<Longrightarrow> i < N \<Longrightarrow> cell_ok N l i"
  by (simp add: mpmc_inv_def)

lemma one_writer: "mpmc_inv N l \<Longrightarrow> writes_at (q_pc l t) = Some p \<Longrightarrow> writes_at (q_pc l u) = Some p \<Longrightarrow> t = u"
  by (auto simp: mpmc_inv_def sole_def)

lemma one_reader: "mpmc_inv N l \<Longrightarrow> reads_at (q_pc l t) = Some p \<Longrightarrow> reads_at (q_pc l u) = Some p \<Longrightarrow> t = u"
  by (auto simp: mpmc_inv_def sole_def)

lemma writer_at:
  assumes "mpmc_inv N l" "writes_at (q_pc l t) = Some p"
  shows "p < length (sent l) \<and> tag l (p mod N) = p"
  using inv_at [OF assms(1), of t] assms(2) by (cases "q_pc l t") auto

lemma reader_at:
  assumes "mpmc_inv N l" "reads_at (q_pc l t) = Some p"
  shows "p < got l \<and> tag l (p mod N) = p + 1"
  using inv_at [OF assms(1), of t] assms(2) by (cases "q_pc l t") auto

lemma mpmc_bounds_ge: "mpmc_bounds N \<Longrightarrow> 2 \<le> N"
  by (simp add: mpmc_bounds_def)

lemma mpmc_at_qat [simp]: "mpmc_at N (qat t p l) q = mpmc_at N l q"
  by (cases q) (auto simp: qat_def)

text \<open>A cell whose tag is a position of it is free for that position.\<close>

lemma cell_free:
  assumes "mpmc_inv N l" "mpmc_bounds N" "tag l (p mod N) = p"
  shows "p < got l + N \<and> (length (sent l) \<le> p \<or> writing l p)"
proof -
  have "p mod N < N" using mpmc_bounds_ge [OF assms(2)] by simp
  from inv_cell [OF assms(1) this] show ?thesis
    using assms(3) next_residue(2) [OF mpmc_bounds_ge [OF assms(2)]] by (auto simp: cell_ok_def free_cell_def full_cell_def)
qed

text \<open>A cell whose tag follows a position of it holds the value of that position.\<close>

lemma cell_full:
  assumes "mpmc_inv N l" "mpmc_bounds N" "tag l (p mod N) = p + 1"
  shows "p < got l + N \<and> p < length (sent l) \<and> q_val l ! (p mod N) = sent l ! p \<and> (got l \<le> p \<or> reading l p)"
proof -
  have "p mod N < N" using mpmc_bounds_ge [OF assms(2)] by simp
  from inv_cell [OF assms(1) this] show ?thesis
    using assms(3) next_residue(1) [OF mpmc_bounds_ge [OF assms(2)]] by (auto simp: cell_ok_def free_cell_def full_cell_def)
qed

text \<open>A step of one thread that claims nothing and changes nothing shared.\<close>

lemma inv_local:
  assumes inv: "mpmc_inv N l" and p: "mpmc_at N l p" "writes_at p = writes_at (q_pc l t)" "reads_at p = reads_at (q_pc l t)"
  shows "mpmc_inv N (qat t p l)"
proof -
  have w: "writes_at (q_pc (qat t p l) u) = writes_at (q_pc l u)" "reads_at (q_pc (qat t p l) u) = reads_at (q_pc l u)" for u
    using p by (auto simp: qat_def)
  have s: "q_seq (qat t p l) = q_seq l" "q_val (qat t p l) = q_val l" "sent (qat t p l) = sent l" "got (qat t p l) = got l" "out (qat t p l) = out l"
    "q_tail (qat t p l) = q_tail l" "q_head (qat t p l) = q_head l"
    by (auto simp: qat_def)
  have "mpmc_at N l (q_pc (qat t p l) u)" for u using p inv_at [OF inv, of u] by (auto simp: qat_def)
  then show ?thesis using inv unfolding mpmc_inv_def mpmc_shape_def cell_ok_def free_cell_def full_cell_def out_ok_def writing_def reading_def w s by simp
qed

lemma tag_bound:
  assumes inv: "mpmc_inv N l" and N: "mpmc_bounds N"
  shows "tag l (p mod N) \<le> length (sent l) + N"
proof -
  have "p mod N < N" using mpmc_bounds_ge [OF N] by simp
  from inv_cell [OF inv this] inv_shape(5) [OF inv] show ?thesis by (auto simp: cell_ok_def free_cell_def full_cell_def)
qed

text \<open>Within the bound, the comparisons of tags and positions are those of the numbers.\<close>

lemma dif_nat:
  assumes inv: "mpmc_inv N l" and N: "mpmc_bounds N" "length (sent l) + N < 2 ^ 63" and c: "unat c < 2 ^ 63"
  shows "dif N l pos c = int (tag l (unat pos mod N)) - int (unat c)"
proof -
  have "cell N pos = unat pos mod N" using N by (intro cell_mod) auto
  moreover have "tag l (unat pos mod N) < 2 ^ 63" using tag_bound [OF inv N(1), of "unat pos"] N(2) by linarith
  ultimately show ?thesis using c by (simp only: dif_def signed_difference)
qed

lemma dif_cases:
  assumes "mpmc_inv N l" "mpmc_bounds N" "length (sent l) + N < 2 ^ 63" "unat c < 2 ^ 63"
  shows "dif N l pos c = 0 \<longleftrightarrow> tag l (unat pos mod N) = unat c" "dif N l pos c < 0 \<longleftrightarrow> tag l (unat pos mod N) < unat c"
    "dif N l pos c > 0 \<longleftrightarrow> unat c < tag l (unat pos mod N)"
  unfolding dif_nat [OF assms] by linarith+

lemma pos_succ: "unat (pos :: usize) < 2 ^ 63 \<Longrightarrow> unat (pos + 1) = unat pos + 1"
  by (simp add: unat_word_ariths)

lemma sole_upd:
  assumes "sole (\<lambda>u. f (pc u))" "f q = None \<or> f q = f (pc t) \<or> (\<forall>u. f (pc u) \<noteq> f q)"
  shows "sole (\<lambda>u. f ((pc(t := q)) u))"
  using assms unfolding sole_def by (metis fun_upd_apply option.distinct(1))

lemma inv_sole: "mpmc_inv N l \<Longrightarrow> sole (\<lambda>t. writes_at (q_pc l t))" "mpmc_inv N l \<Longrightarrow> sole (\<lambda>t. reads_at (q_pc l t))"
  by (simp_all add: mpmc_inv_def)

text \<open>Claimed positions lie in different cells.\<close>

lemma writers_apart: "mpmc_inv N l \<Longrightarrow> writes_at (q_pc l t) = Some p \<Longrightarrow> writes_at (q_pc l u) = Some q \<Longrightarrow> u \<noteq> t \<Longrightarrow> q mod N \<noteq> p mod N"
  using writer_at [of N l t p] writer_at [of N l u q] one_writer [of N l t p u] by (metis (no_types))

lemma readers_apart: "mpmc_inv N l \<Longrightarrow> reads_at (q_pc l t) = Some p \<Longrightarrow> reads_at (q_pc l u) = Some q \<Longrightarrow> u \<noteq> t \<Longrightarrow> q mod N \<noteq> p mod N"
  using reader_at [of N l t p] reader_at [of N l u q] one_reader [of N l t p u] by (metis (no_types) add_right_cancel)

lemma writer_reader_apart:
  "mpmc_inv N l \<Longrightarrow> mpmc_bounds N \<Longrightarrow> writes_at (q_pc l t) = Some p \<Longrightarrow> reads_at (q_pc l u) = Some q \<Longrightarrow> q mod N \<noteq> p mod N"
  using writer_at [of N l t p] reader_at [of N l u q] next_residue(1) [of N q] mpmc_bounds_ge [of N] by (metis (no_types) Suc_eq_plus1)

text \<open>What is left to show for a step of a thread.\<close>

lemma inv_upd:
  assumes inv: "mpmc_inv N l" and pc: "q_pc l' = (q_pc l)(t := q)"
    and "mpmc_shape N l'" "\<And>i. i < N \<Longrightarrow> cell_ok N l' i" "out_ok l'"
    and at: "mpmc_at N l' q" "\<And>u. u \<noteq> t \<Longrightarrow> mpmc_at N l (q_pc l u) \<Longrightarrow> mpmc_at N l' (q_pc l u)"
    and sole: "writes_at q = None \<or> writes_at q = writes_at (q_pc l t) \<or> (\<forall>u. writes_at (q_pc l u) \<noteq> writes_at q)"
      "reads_at q = None \<or> reads_at q = reads_at (q_pc l t) \<or> (\<forall>u. reads_at (q_pc l u) \<noteq> reads_at q)"
  shows "mpmc_inv N l'"
proof -
  have "mpmc_at N l' (q_pc l' u)" for u using at inv_at [OF inv, of u] by (cases "u = t") (auto simp: pc)
  then show ?thesis using assms(3-5) sole_upd [of writes_at, OF inv_sole(1) [OF inv] sole(1)]
      sole_upd [of reads_at, OF inv_sole(2) [OF inv] sole(2)] unfolding mpmc_inv_def pc by simp
qed

lemma writing_upd:
  assumes inv: "mpmc_inv N l" and "q_pc l' = (q_pc l)(t := q)"
  shows "writing l' p \<longleftrightarrow> writes_at q = Some p \<or> writing l p \<and> writes_at (q_pc l t) \<noteq> Some p"
  unfolding writing_def assms(2) using one_writer [OF inv] by (metis fun_upd_apply)

lemma reading_upd:
  assumes inv: "mpmc_inv N l" and "q_pc l' = (q_pc l)(t := q)"
  shows "reading l' p \<longleftrightarrow> reads_at q = Some p \<or> reading l p \<and> reads_at (q_pc l t) \<noteq> Some p"
  unfolding reading_def assms(2) using one_reader [OF inv] by (metis fun_upd_apply)

lemma cell_ok_mono:
  "cell_ok N l i \<Longrightarrow> (free_cell N l i \<Longrightarrow> free_cell N l' i) \<Longrightarrow> (\<And>p. full_cell N l i p \<Longrightarrow> full_cell N l' i p) \<Longrightarrow> cell_ok N l' i"
  by (auto simp: cell_ok_def)

text \<open>A producer claims the position at the tail.\<close>

lemma push_won_inv:
  assumes inv: "mpmc_inv N l" and N: "mpmc_bounds N" "Suc (length (sent l)) + N < 2 ^ 63" and pc: "q_pc l t = P_cas v pos" "q_tail l = pos"
  shows "mpmc_inv N (qat t (P_write v pos) l\<lparr>q_tail := pos + 1, sent := sent l @ [v]\<rparr>)" (is "mpmc_inv N ?l")
proof -
  define n where "n = length (sent l)"
  have n: "unat pos = n" "pos = of_nat n" using pc(2) inv_shape(3) [OF inv] N(2) by (auto simp: n_def pos_unat)
  have t: "tag l (n mod N) = n" using inv_at [OF inv, of t] pc n(1) by (simp add: n_def)
  have w: "writes_at (q_pc l u) \<noteq> Some n" for u using writer_at [OF inv, of u n] by (auto simp: n_def)
  have P: "q_pc ?l = (q_pc l)(t := P_write v pos)" by (simp add: qat_def)
  have W: "writing ?l p \<longleftrightarrow> p = n \<or> writing l p" for p using writing_upd [OF inv P, of p] pc(1) n(1) by auto
  have R: "reading ?l p \<longleftrightarrow> reading l p" for p using reading_upd [OF inv P, of p] pc(1) by auto
  show ?thesis
  proof (rule inv_upd [OF inv P])
    show "mpmc_shape N ?l" using inv t n unfolding mpmc_inv_def mpmc_shape_def by (auto simp: qat_def n_def less_Suc_eq)
    show "cell_ok N ?l i" if "i < N" for i
      by (rule cell_ok_mono [OF inv_cell [OF inv that]]) (auto simp: free_cell_def full_cell_def W R; auto simp: qat_def n_def nth_append)+
    show "mpmc_at N ?l (q_pc l u)" if "u \<noteq> t" "mpmc_at N l (q_pc l u)" for u
      using that inv_shape(5) [OF inv] by (cases "q_pc l u") (auto simp: qat_def nth_append)
    show "out_ok ?l" using inv inv_shape(5) [OF inv] unfolding mpmc_inv_def out_ok_def R by (auto simp: qat_def nth_append)
  qed (use t n w in \<open>auto simp: qat_def n_def nth_append\<close>)
qed

text \<open>It writes the value.\<close>

lemma push_write_inv:
  assumes inv: "mpmc_inv N l" and N: "mpmc_bounds N" "length (sent l) + N < 2 ^ 63" and pc: "q_pc l t = P_write v pos"
  shows "mpmc_inv N (qat t (P_tag pos) l\<lparr>q_val := (q_val l)[cell N pos := v]\<rparr>)" (is "mpmc_inv N ?l")
proof -
  define p where "p = unat pos"
  have i: "cell N pos = p mod N" "p mod N < N" using N mpmc_bounds_ge [OF N(1)] by (simp_all add: p_def cell_mod)
  have t: "p < length (sent l)" "tag l (p mod N) = p" "v = sent l ! p" using inv_at [OF inv, of t] pc by (auto simp: p_def)
  have w: "writes_at (q_pc l t) = Some p" using pc by (simp add: p_def)
  have P: "q_pc ?l = (q_pc l)(t := P_tag pos)" by (simp add: qat_def)
  have W: "writing ?l q \<longleftrightarrow> writing l q" for q using writing_upd [OF inv P, of q] w by (auto simp: writing_def p_def)
  have R: "reading ?l q \<longleftrightarrow> reading l q" for q using reading_upd [OF inv P, of q] pc by auto
  have v: "q_val ?l ! j = q_val l ! j" if "j \<noteq> p mod N" for j using that by (simp add: qat_def i)
  show ?thesis
  proof (rule inv_upd [OF inv P])
    show "mpmc_shape N ?l" using inv unfolding mpmc_inv_def mpmc_shape_def by (auto simp: qat_def)
    show "cell_ok N ?l j" if "j < N" for j
    proof (rule cell_ok_mono [OF inv_cell [OF inv that]])
      show "free_cell N ?l j" if "free_cell N l j" using that unfolding free_cell_def W by (simp add: qat_def)
      show "full_cell N ?l j q" if "full_cell N l j q" for q
      proof -
        have "j \<noteq> p mod N" using that t(2) next_residue(2) [OF mpmc_bounds_ge [OF N(1)], of q] by (auto simp: full_cell_def)
        from v [OF this] show ?thesis using that unfolding full_cell_def R by (simp add: qat_def)
      qed
    qed
    show "mpmc_at N ?l (q_pc l u)" if "u \<noteq> t" "mpmc_at N l (q_pc l u)" for u
    proof (cases "q_pc l u")
      case (P_tag c)
      have "unat c mod N \<noteq> p mod N" using writers_apart [OF inv w, of u] that(1) P_tag by simp
      then show ?thesis using that v P_tag by (simp add: qat_def)
    qed (use that in \<open>auto simp: qat_def\<close>)
    show "out_ok ?l" using inv unfolding mpmc_inv_def out_ok_def R by (auto simp: qat_def)
  qed (use t i inv_shape(2) [OF inv] in \<open>auto simp: qat_def p_def pc\<close>)
qed

text \<open>Raising the tag of a cell.\<close>

lemma shape_raise:
  assumes "mpmc_inv N l" "q_seq l' = (q_seq l)[i := w]" "i < N" "tag l i \<le> unat w"
    and "q_val l' = q_val l" "sent l' = sent l" "got l' = got l" "q_tail l' = q_tail l" "q_head l' = q_head l"
  shows "mpmc_shape N l'"
proof -
  have "tag l j \<le> tag l' j" for j using assms inv_shape(1) [OF assms(1)] by (cases "j = i") auto
  then show ?thesis using assms(1,2,5-) by (auto simp: mpmc_inv_def mpmc_shape_def intro: order_trans)
qed

lemma at_raise:
  assumes "mpmc_at N l q" and same: "\<And>j. j \<noteq> i \<Longrightarrow> tag l' j = tag l j" "q_val l' = q_val l" "sent l' = sent l" "got l' = got l" "set (out l) \<subseteq> set (out l')"
    and "\<And>c. writes_at q = Some c \<Longrightarrow> c mod N \<noteq> i" "\<And>c. reads_at q = Some c \<Longrightarrow> c mod N \<noteq> i"
      "tag l (length (sent l) mod N) = length (sent l) \<Longrightarrow> length (sent l) mod N \<noteq> i" "tag l (got l mod N) = got l + 1 \<Longrightarrow> got l mod N \<noteq> i"
  shows "mpmc_at N l' q"
  using assms by (cases q) auto

lemma cell_raise:
  assumes ok: "cell_ok N l j" and j: "j \<noteq> p mod N" "tag l' j = tag l j" and same: "q_val l' = q_val l" "sent l' = sent l" "got l' = got l"
    and claims: "\<And>q. q \<noteq> p \<Longrightarrow> writing l' q = writing l q" "\<And>q. q \<noteq> p \<Longrightarrow> reading l' q = reading l q"
  shows "cell_ok N l' j"
proof (rule cell_ok_mono [OF ok])
  show "free_cell N l' j" if "free_cell N l j"
  proof -
    have "tag l j \<noteq> p" using that j(1) by (auto simp: free_cell_def)
    from claims(1) [OF this] show ?thesis using that by (simp add: free_cell_def j same)
  qed
  show "full_cell N l' j q" if "full_cell N l j q" for q
  proof -
    have "q \<noteq> p" using that j(1) by (auto simp: full_cell_def)
    from claims(2) [OF this] show ?thesis using that by (simp add: full_cell_def j same)
  qed
qed

text \<open>It raises the tag.\<close>

lemma push_tag_inv:
  assumes inv: "mpmc_inv N l" and N: "mpmc_bounds N" "length (sent l) + N < 2 ^ 63" and pc: "q_pc l t = P_tag pos"
  shows "mpmc_inv N (qat t Q_idle l\<lparr>q_seq := (q_seq l)[cell N pos := pos + 1]\<rparr>)" (is "mpmc_inv N ?l")
proof -
  define p where "p = unat pos"
  have i: "cell N pos = p mod N" "p mod N < N" using N mpmc_bounds_ge [OF N(1)] by (simp_all add: p_def cell_mod)
  have t: "p < length (sent l)" "tag l (p mod N) = p" "q_val l ! (p mod N) = sent l ! p" using inv_at [OF inv, of t] pc by (auto simp: p_def)
  have w: "writes_at (q_pc l t) = Some p" using pc by (simp add: p_def)
  have P: "q_pc ?l = (q_pc l)(t := Q_idle)" by (simp add: qat_def)
  have W: "writing ?l q \<longleftrightarrow> writing l q \<and> q \<noteq> p" for q using writing_upd [OF inv P, of q] w by auto
  have R: "reading ?l q \<longleftrightarrow> reading l q" for q using reading_upd [OF inv P, of q] pc by auto
  have same: "tag ?l j = tag l j" if "j \<noteq> p mod N" for j using that by (simp add: qat_def i)
  have new: "tag ?l (p mod N) = p + 1" using i(2) inv_shape(1) [OF inv] pos_succ [of pos] t(1) N(2) by (simp add: qat_def i(1) p_def)
  have g: "got l \<le> p" using inv_shape(7) [OF inv, of p] t(2) by (cases "p < got l") auto
  show ?thesis
  proof (rule inv_upd [OF inv P])
    show "mpmc_shape N ?l"
      using pos_succ [of pos] t N(2) i(2) by (intro shape_raise [OF inv, of _ "p mod N" "pos + 1"]) (auto simp: qat_def i p_def)
    show "cell_ok N ?l j" if "j < N" for j
    proof (cases "j = p mod N")
      case True
      have "full_cell N ?l j p" unfolding full_cell_def R using True new t cell_free [OF inv N(1) t(2)] g by (simp add: qat_def)
      then show ?thesis by (auto simp: cell_ok_def)
    next
      case False
      show ?thesis by (rule cell_raise [OF inv_cell [OF inv that] False same [OF False]]) (auto simp: W R, auto simp: qat_def)
    qed
    show "mpmc_at N ?l (q_pc l u)" if "u \<noteq> t" "mpmc_at N l (q_pc l u)" for u
    proof (rule at_raise [OF that(2) same])
      show "c mod N \<noteq> p mod N" if "writes_at (q_pc l u) = Some c" for c using writers_apart [OF inv w that] \<open>u \<noteq> t\<close> .
      show "c mod N \<noteq> p mod N" if "reads_at (q_pc l u) = Some c" for c using writer_reader_apart [OF inv N(1) w that] .
      show "length (sent l) mod N \<noteq> p mod N" if "tag l (length (sent l) mod N) = length (sent l)" using that t(1,2) by auto
      show "got l mod N \<noteq> p mod N" if "tag l (got l mod N) = got l + 1"
        using that t(2) next_residue(1) [OF mpmc_bounds_ge [OF N(1)], of "got l"] by auto
    qed (auto simp: qat_def)
    show "out_ok ?l" using inv unfolding mpmc_inv_def out_ok_def R by (auto simp: qat_def)
  qed auto
qed

text \<open>A consumer claims the position at the head.\<close>

lemma pop_won_inv:
  assumes inv: "mpmc_inv N l" and N: "mpmc_bounds N" "length (sent l) + N < 2 ^ 63" and pc: "q_pc l t = G_cas pos" "q_head l = pos"
  shows "mpmc_inv N (qat t (G_read pos) l\<lparr>q_head := pos + 1, got := got l + 1\<rparr>)" (is "mpmc_inv N ?l")
proof -
  define g where "g = got l"
  have "g < 2 ^ 63" using inv_shape(5) [OF inv] N(2) by (simp add: g_def)
  then have g: "unat pos = g" "pos = of_nat g" using pc(2) inv_shape(4) [OF inv] by (auto simp: g_def pos_unat)
  have t: "tag l (g mod N) = g + 1" using inv_at [OF inv, of t] pc g(1) by (simp add: g_def)
  have n: "g < length (sent l)" using cell_full [OF inv N(1) t] by simp
  have r: "reads_at (q_pc l u) \<noteq> Some g" for u using reader_at [OF inv, of u g] by (auto simp: g_def)
  have P: "q_pc ?l = (q_pc l)(t := G_read pos)" by (simp add: qat_def)
  have W: "writing ?l p \<longleftrightarrow> writing l p" for p using writing_upd [OF inv P, of p] pc(1) by auto
  have R: "reading ?l p \<longleftrightarrow> p = g \<or> reading l p" for p using reading_upd [OF inv P, of p] pc(1) g(1) by auto
  show ?thesis
  proof (rule inv_upd [OF inv P])
    show "mpmc_shape N ?l" using inv t g n unfolding mpmc_inv_def mpmc_shape_def by (auto simp: qat_def g_def less_Suc_eq)
    show "cell_ok N ?l i" if "i < N" for i
      by (rule cell_ok_mono [OF inv_cell [OF inv that]]) (unfold free_cell_def full_cell_def W R; auto simp: qat_def g_def)+
    show "mpmc_at N ?l (q_pc l u)" if "u \<noteq> t" "mpmc_at N l (q_pc l u)" for u using that by (cases "q_pc l u") (auto simp: qat_def)
    show "out_ok ?l" using inv unfolding mpmc_inv_def out_ok_def R by (auto simp: qat_def g_def less_Suc_eq)
  qed (use t g r in \<open>auto simp: qat_def g_def\<close>)
qed

text \<open>It reads the value.\<close>

lemma pop_read_inv:
  assumes inv: "mpmc_inv N l" and N: "mpmc_bounds N" "length (sent l) + N < 2 ^ 63" and pc: "q_pc l t = G_read pos"
  shows "mpmc_inv N (qat t (G_tag pos (q_val l ! cell N pos)) l)"
proof (rule inv_local [OF inv])
  have "cell N pos = unat pos mod N" using N by (intro cell_mod) auto
  then show "mpmc_at N l (G_tag pos (q_val l ! cell N pos))" using inv_at [OF inv, of t] cell_full [OF inv N(1), of "unat pos"] pc by simp
qed (simp_all add: pc)

text \<open>It opens the cell for the next round.\<close>

lemma pop_tag_inv:
  assumes inv: "mpmc_inv N l" and N: "mpmc_bounds N" "length (sent l) + N < 2 ^ 63" and pc: "q_pc l t = G_tag pos x"
  shows "mpmc_inv N (qat t (G_done pos x) l\<lparr>q_seq := (q_seq l)[cell N pos := pos + of_nat N], out := out l @ [(unat pos, x)]\<rparr>)" (is "mpmc_inv N ?l")
proof -
  define p where "p = unat pos"
  have i: "cell N pos = p mod N" "p mod N < N" using N mpmc_bounds_ge [OF N(1)] by (simp_all add: p_def cell_mod)
  have t: "p < got l" "tag l (p mod N) = p + 1" "x = sent l ! p" using inv_at [OF inv, of t] pc by (auto simp: p_def)
  have r: "reads_at (q_pc l t) = Some p" using pc by (simp add: p_def)
  have P: "q_pc ?l = (q_pc l)(t := G_done pos x)" by (simp add: qat_def)
  have W: "writing ?l q \<longleftrightarrow> writing l q" for q using writing_upd [OF inv P, of q] pc by auto
  have R: "reading ?l q \<longleftrightarrow> reading l q \<and> q \<noteq> p" for q using reading_upd [OF inv P, of q] r by auto
  have same: "tag ?l j = tag l j" if "j \<noteq> p mod N" for j using that by (simp add: qat_def i)
  have "p + N < 2 ^ 63" using t(1) inv_shape(5) [OF inv] N(2) by linarith
  then have sum: "unat (pos + of_nat N) = p + N" by (simp add: unat_word_ariths p_def unsigned_of_nat take_bit_nat_eq_self)
  have new: "tag ?l (p mod N) = p + N" using i(2) inv_shape(1) [OF inv] sum by (simp add: qat_def i(1))
  have fits: "length (sent l) \<le> p + N"
    using inv_shape(6) [OF inv, of "p + N"] t(2) mpmc_bounds_ge [OF N(1)] by (cases "p + N < length (sent l)") auto
  show ?thesis
  proof (rule inv_upd [OF inv P])
    show "mpmc_shape N ?l"
      using sum t mpmc_bounds_ge [OF N(1)] by (intro shape_raise [OF inv, of _ "p mod N" "pos + of_nat N"]) (auto simp: qat_def i)
    show "cell_ok N ?l j" if "j < N" for j
    proof (cases "j = p mod N")
      case True
      have "free_cell N ?l j" unfolding free_cell_def W using True new t fits by (simp add: qat_def)
      then show ?thesis by (auto simp: cell_ok_def)
    next
      case False
      show ?thesis by (rule cell_raise [OF inv_cell [OF inv that] False same [OF False]]) (auto simp: W R, auto simp: qat_def)
    qed
    show "mpmc_at N ?l (q_pc l u)" if "u \<noteq> t" "mpmc_at N l (q_pc l u)" for u
    proof (rule at_raise [OF that(2) same])
      show "c mod N \<noteq> p mod N" if "writes_at (q_pc l u) = Some c" for c using writer_reader_apart [OF inv N(1) that r] by simp
      show "c mod N \<noteq> p mod N" if "reads_at (q_pc l u) = Some c" for c using readers_apart [OF inv r that] \<open>u \<noteq> t\<close> .
      show "length (sent l) mod N \<noteq> p mod N" if "tag l (length (sent l) mod N) = length (sent l)"
        using that t(2) next_residue(1) [OF mpmc_bounds_ge [OF N(1)], of p] by auto
      show "got l mod N \<noteq> p mod N" if "tag l (got l mod N) = got l + 1" using that t(1,2) by auto
    qed (auto simp: qat_def)
    have "out_ok l" "reading l p" using inv r by (auto simp: mpmc_inv_def reading_def)
    then show "out_ok ?l" using t unfolding out_ok_def R by (auto simp: qat_def p_def)
  qed (auto simp: qat_def)
qed

lemma tail_nat: "mpmc_inv N l \<Longrightarrow> length (sent l) < 2 ^ 63 \<Longrightarrow> unat (q_tail l) = length (sent l)"
  by (simp add: inv_shape(3) pos_unat)

lemma head_nat: "mpmc_inv N l \<Longrightarrow> length (sent l) < 2 ^ 63 \<Longrightarrow> unat (q_head l) = got l"
  using inv_shape(5) [of N l] by (simp add: inv_shape(4) pos_unat)

lemma mpmc_step_inv:
  assumes inv: "mpmc_inv N l" and "mpmc_step cb N l l'" and N: "mpmc_bounds N" "length (sent l') + N < 2 ^ 63"
  shows "mpmc_inv N l'"
  using assms(2)
proof cases
  have at: "mpmc_at N l (q_pc l t)" for t by (rule inv_at [OF inv])
  have qat_simps: "sent (qat t p l) = sent l" for t p by (simp add: qat_def)
  {
    case (push_load t v)
    then show ?thesis using N(2) tail_nat [OF inv] by (auto simp: qat_simps intro!: inv_local [OF inv])
  next
    case (push_free t v pos)
    have "unat pos < 2 ^ 63" using at [of t] push_free N(2) by (simp add: qat_simps)
    from dif_cases(1) [OF inv N(1) _ this, of pos] show ?thesis using push_free N(2) at [of t] by (auto simp: qat_simps intro!: inv_local [OF inv])
  next
    case (push_won t v pos) then show ?thesis using push_won_inv [OF inv N(1)] N(2) by (simp add: qat_simps)
  next
    case (push_lost t v pos)
    then show ?thesis using N(2) tail_nat [OF inv] by (auto simp: qat_simps intro!: inv_local [OF inv])
  next
    case (push_write t v pos) then show ?thesis using push_write_inv [OF inv N(1)] N(2) by (simp add: qat_simps)
  next
    case (push_tag t pos) then show ?thesis using push_tag_inv [OF inv N(1)] N(2) by (simp add: qat_simps)
  next
    case (pop_load t)
    then show ?thesis using N(2) head_nat [OF inv] by (auto simp: qat_simps intro!: inv_local [OF inv])
  next
    case (pop_full t pos)
    have p: "unat pos < 2 ^ 63" "unat pos + 1 < 2 ^ 63" using at [of t] pop_full N mpmc_bounds_ge [OF N(1)] inv_shape(5) [OF inv] by (simp_all add: qat_simps)
    have "unat (pos + 1) < 2 ^ 63" using pos_succ [OF p(1)] p(2) by simp
    from dif_cases(1) [OF inv N(1) _ this, of pos] show ?thesis using pop_full N(2) at [of t] pos_succ [OF p(1)] by (auto simp: qat_simps intro!: inv_local [OF inv])
  next
    case (pop_won t pos) then show ?thesis using pop_won_inv [OF inv N(1)] N(2) by (simp add: qat_simps)
  next
    case (pop_lost t pos)
    then show ?thesis using N(2) head_nat [OF inv] by (auto simp: qat_simps intro!: inv_local [OF inv])
  next
    case (pop_read t pos) then show ?thesis using pop_read_inv [OF inv N(1)] N(2) by (simp add: qat_simps)
  next
    case (pop_tag t pos x) then show ?thesis using pop_tag_inv [OF inv N(1)] N(2) by (simp add: qat_simps)
  }
qed (use inv in \<open>auto intro!: inv_local [OF inv]\<close>)

lemma sent_grows: "mpmc_step cb N l l' \<Longrightarrow> length (sent l) \<le> length (sent l')"
  by (auto elim!: mpmc_step.cases simp: qat_def)

lemma mpmc_new_inv: "mpmc_bounds N \<Longrightarrow> N < 2 ^ 63 \<Longrightarrow> mpmc_inv N (mpmc_new N d)"
proof -
  assume N: "mpmc_bounds N" "N < 2 ^ 63"
  have "tag (mpmc_new N d) i = i" if "i < N" for i using that N(2) by (simp add: mpmc_new_def pos_unat)
  then have "cell_ok N (mpmc_new N d) i" if "i < N" for i using that by (simp add: cell_ok_def free_cell_def mpmc_new_def)
  then show ?thesis unfolding mpmc_inv_def mpmc_shape_def out_ok_def sole_def by (auto simp: mpmc_new_def)
qed

interpretation mpmcq: invariant_system "\<lambda>l. l = mpmc_new N d \<and> mpmc_bounds N" "mpmc_step cb N"
  "\<lambda>l. mpmc_bounds N \<and> (length (sent l) + N < 2 ^ 63 \<longrightarrow> mpmc_inv N l)"
proof
  fix l l' :: "('a, 'b) mpmc"
  show "mpmc_bounds N \<and> (length (sent l) + N < 2 ^ 63 \<longrightarrow> mpmc_inv N l)" if "l = mpmc_new N d \<and> mpmc_bounds N"
    using that mpmc_new_inv by (auto simp: mpmc_new_def)
  assume "mpmc_bounds N \<and> (length (sent l) + N < 2 ^ 63 \<longrightarrow> mpmc_inv N l)" "mpmc_step cb N l l'"
  then show "mpmc_bounds N \<and> (length (sent l') + N < 2 ^ 63 \<longrightarrow> mpmc_inv N l')"
    using mpmc_step_inv [of N l cb l'] sent_grows [of cb N l l'] by auto
qed

lemma mpmc_reach_inv:
  "mpmc_bounds N \<Longrightarrow> (mpmc_step cb N)\<^sup>*\<^sup>* (mpmc_new N d) l \<Longrightarrow> length (sent l) + N < 2 ^ 63 \<Longrightarrow> mpmc_inv N l"
  using mpmcq.reach_inv [of "mpmc_new N d" N d cb l] by auto

lemma crossbeam_reach_inv:
  assumes "1 < unat n" "unat n \<le> 2 ^ 63" "(crossbeam_step n)\<^sup>*\<^sup>* (crossbeam_new n d) l" "length (sent l) + unat (crossbeam_next_pow2 n) < 2 ^ 63"
  shows "mpmc_inv (unat (crossbeam_next_pow2 n)) l"
  using mpmc_reach_inv [of "unat (crossbeam_next_pow2 n)" True d l] crossbeam_capacity [OF assms(1,2)] assms(3,4)
  by (simp add: crossbeam_step_def crossbeam_new_def)

subsection \<open>Properties\<close>

text \<open>The tag of the cell at the tail is at most the tail, and that of the cell at the head at most the position after it.\<close>

lemma same_residue: "p mod N = q mod (N :: nat) \<Longrightarrow> p < q + N \<Longrightarrow> p \<le> q"
proof (rule ccontr)
  assume a: "p mod N = q mod N" "p < q + N" "\<not> p \<le> q"
  then have "N dvd p - q" by (simp add: mod_eq_dvd_iff_nat)
  then have "N \<le> p - q" using a(3) by (intro dvd_imp_le) auto
  then show False using a(2,3) by linarith
qed

lemma tail_tag:
  assumes inv: "mpmc_inv N l" and N: "mpmc_bounds N"
  shows "tag l (length (sent l) mod N) \<le> length (sent l)"
proof -
  have "length (sent l) mod N < N" using mpmc_bounds_ge [OF N] by simp
  from inv_cell [OF inv this] show ?thesis unfolding cell_ok_def
  proof (elim disjE exE)
    assume "free_cell N l (length (sent l) mod N)"
    then show ?thesis using inv_shape(5) [OF inv] by (intro same_residue [of _ N]) (auto simp: free_cell_def)
  qed (auto simp: full_cell_def)
qed

lemma head_tag:
  assumes inv: "mpmc_inv N l" and N: "mpmc_bounds N"
  shows "tag l (got l mod N) \<le> got l + 1"
proof -
  have "got l mod N < N" using mpmc_bounds_ge [OF N] by simp
  from inv_cell [OF inv this] show ?thesis unfolding cell_ok_def
  proof (elim disjE exE)
    assume "free_cell N l (got l mod N)"
    then show ?thesis using same_residue [of "tag l (got l mod N)" N "got l"] by (auto simp: free_cell_def)
  next
    fix p assume "full_cell N l (got l mod N) p"
    then show ?thesis using same_residue [of p N "got l"] by (auto simp: full_cell_def)
  qed
qed

text \<open>A position is claimed again, one round later, only after its value has been handed out.\<close>

lemma handed_out:
  assumes inv: "mpmc_inv N l" and N: "mpmc_bounds N" and p: "p + N < length (sent l) \<or> p + N = length (sent l) \<and> p + N \<le> tag l (p mod N)"
  shows "p \<in> fst ` set (out l)"
proof -
  have tag: "p + N \<le> tag l (p mod N)" using inv_shape(6) [OF inv, of "p + N"] p by auto
  have "p mod N < N" using mpmc_bounds_ge [OF N] by simp
  from inv_cell [OF inv this] have "p < got l" unfolding cell_ok_def
  proof (elim disjE exE)
    fix q assume q: "full_cell N l (p mod N) q"
    then show ?thesis using same_residue [of q N p] tag mpmc_bounds_ge [OF N] by (cases "q < p + N") (auto simp: full_cell_def)
  qed (use tag in \<open>auto simp: free_cell_def\<close>)
  moreover have "\<not> reading l p" using reader_at [OF inv] tag mpmc_bounds_ge [OF N] by (fastforce simp: reading_def)
  ultimately show ?thesis using inv by (auto simp: mpmc_inv_def out_ok_def)
qed

lemma refused_push:
  assumes inv: "mpmc_inv N l" and N: "mpmc_bounds N" and tag: "tag l (length (sent l) mod N) < length (sent l)"
  shows "N \<le> length (sent l) \<and> length (sent l) - N \<notin> fst ` set (out l)"
proof -
  define n where "n = length (sent l)"
  have "n mod N < N" using mpmc_bounds_ge [OF N] by simp
  note cell = inv_cell [OF inv this, unfolded cell_ok_def]
  have le: "N \<le> n"
  proof (rule ccontr)
    assume "\<not> N \<le> n" then show False using cell tag by (auto simp: free_cell_def full_cell_def n_def)
  qed
  define p where "p = n - N"
  have p: "n = p + N" "n mod N = p mod N" using le by (simp_all add: p_def le_mod_geq)
  have "p \<notin> fst ` set (out l)"
  proof
    assume "p \<in> fst ` set (out l)"
    then have done_p: "p < got l" "\<not> reading l p" using inv by (auto simp: mpmc_inv_def out_ok_def)
    have tags: "p + 1 \<le> tag l (p mod N)" "tag l (p mod N) < p + N" using inv_shape(7) [OF inv done_p(1)] tag p by (simp_all add: n_def)
    from cell [unfolded p(2)] show False
    proof (elim disjE exE)
      assume "free_cell N l (p mod N)"
      then show False using tags same_residue [of "tag l (p mod N)" N p] by (auto simp: free_cell_def)
    next
      fix q assume "full_cell N l (p mod N) q"
      then show False using tags same_residue [of q N p] done_p by (auto simp: full_cell_def)
    qed
  qed
  then show ?thesis using le by (simp add: n_def p_def)
qed

lemma full_step:
  assumes "mpmc_step cb N l l'" "q_pc l' t = P_full pos" "q_pc l t \<noteq> P_full pos"
  shows "dif N l pos pos < 0 \<and> (\<exists>v. q_pc l t = P_seq v pos)"
  using assms by cases (auto simp: qat_def split: if_splits)

lemma empty_step:
  assumes "mpmc_step cb N l l'" "q_pc l' t = G_empty pos" "q_pc l t \<noteq> G_empty pos"
  shows "dif N l pos (pos + 1) < 0 \<and> q_pc l t = G_seq pos"
  using assms by cases (auto simp: qat_def split: if_splits)

lemma push_gives_up:
  assumes inv: "mpmc_inv N l" and N: "mpmc_bounds N" "length (sent l) + N < 2 ^ 63" and pc: "q_pc l t = P_seq v pos" and neg: "dif N l pos pos < 0"
  shows "pos = q_tail l \<and> N \<le> length (sent l) \<and> length (sent l) - N \<notin> fst ` set (out l)"
proof -
  have le: "unat pos \<le> length (sent l)" using inv_at [OF inv, of t] pc by simp
  then have "unat pos < 2 ^ 63" using N(2) by linarith
  from dif_cases(2) [OF inv N this, of pos] have tag: "tag l (unat pos mod N) < unat pos" using neg by simp
  then have eq: "unat pos = length (sent l)" using inv_shape(6) [OF inv, of "unat pos"] le by linarith
  then have "pos = q_tail l" using tail_nat [OF inv] N(2) by (intro pos_eq) simp
  then show ?thesis using refused_push [OF inv N(1)] tag eq by simp
qed

lemma pop_gives_up:
  assumes inv: "mpmc_inv N l" and N: "mpmc_bounds N" "length (sent l) + N < 2 ^ 63" and pc: "q_pc l t = G_seq pos" and neg: "dif N l pos (pos + 1) < 0"
  shows "pos = q_head l \<and> (got l = length (sent l) \<or> writing l (got l))"
proof -
  have le: "unat pos \<le> got l" using inv_at [OF inv, of t] pc by simp
  then have "unat pos + 2 < 2 ^ 63 + 1" using N mpmc_bounds_ge [OF N(1)] inv_shape(5) [OF inv] by linarith
  then have succ: "unat (pos + 1) = unat pos + 1" "unat (pos + 1) < 2 ^ 63" using pos_succ [of pos] by simp_all
  from dif_cases(2) [OF inv N succ(2), of pos] have tag: "tag l (unat pos mod N) \<le> unat pos" using neg succ(1) by simp
  then have eq: "unat pos = got l" using inv_shape(7) [OF inv, of "unat pos"] le by linarith
  then have "pos = q_head l" using head_nat [OF inv] N(2) by (intro pos_eq) simp
  moreover have "got l = length (sent l) \<or> writing l (got l)"
  proof (rule disjCI)
    assume a: "\<not> writing l (got l)"
    show "got l = length (sent l)"
    proof (rule ccontr)
      assume "got l \<noteq> length (sent l)"
      then have "got l < length (sent l)" using inv_shape(5) [OF inv] by simp
      moreover from inv_shape(6) [OF inv this] have "tag l (got l mod N) = got l" using tag eq by simp
      ultimately show False using cell_free [OF inv N(1), of "got l"] a by auto
    qed
  qed
  ultimately show ?thesis by blast
qed

lemma fresh_tags:
  assumes inv: "mpmc_inv N l" and N: "mpmc_bounds N" "length (sent l) + N < 2 ^ 63"
  shows "dif N l (q_tail l) (q_tail l) \<le> 0" "dif N l (q_head l) (q_head l + 1) \<le> 0"
proof -
  have t: "unat (q_tail l) = length (sent l)" and h: "unat (q_head l) = got l" using tail_nat [OF inv] head_nat [OF inv] N(2) by simp_all
  show "dif N l (q_tail l) (q_tail l) \<le> 0" using dif_cases(3) [OF inv N, of "q_tail l" "q_tail l"] tail_tag [OF inv N(1)] N(2) t by simp
  have "got l + 2 < 2 ^ 63 + 1" using N mpmc_bounds_ge [OF N(1)] inv_shape(5) [OF inv] by linarith
  then have s: "unat (q_head l + 1) = got l + 1" "unat (q_head l + 1) < 2 ^ 63" using pos_succ [of "q_head l"] h by simp_all
  show "dif N l (q_head l) (q_head l + 1) \<le> 0" using dif_cases(3) [OF inv N s(2), of "q_head l"] head_tag [OF inv N(1)] s(1) h by simp
qed

text \<open>
  C13: The bounded queue for several producers and consumers delivers every value at most once and in the order of the claims: in every reachable state, the
  positions that were handed out are distinct, each with the value that was sent at this position; a pop that returns true returns such a value; the positions
  that consumers claimed are exactly those that were handed out and those that a consumer is just reading; and a position is claimed by a producer only when the
  value \<open>N\<close> positions before has been handed out, so that no value is overwritten.  For a capacity of at least two, and fewer than \<open>2 ^ 63\<close> pushes.\<close>

theorem mpmc_fifo:
  assumes "mpmc_bounds N" "(mpmc_step cb N)\<^sup>*\<^sup>* (mpmc_new N d) l" "length (sent l) + N < 2 ^ 63"
  shows "distinct (map fst (out l)) \<and> (\<forall>(p, x) \<in> set (out l). p < length (sent l) \<and> x = sent l ! p) \<and>
    (\<forall>t pos x. q_pc l t = G_done pos x \<longrightarrow> (unat pos, x) \<in> set (out l)) \<and>
    {..<got l} = fst ` set (out l) \<union> {p. reading l p} \<and> fst ` set (out l) \<inter> {p. reading l p} = {} \<and>
    (\<forall>p. p + N < length (sent l) \<longrightarrow> p \<in> fst ` set (out l))"
proof -
  note inv = mpmc_reach_inv [OF assms]
  have o: "out_ok l" using inv by (simp add: mpmc_inv_def)
  have "p < got l" if "reading l p" for p using that reader_at [OF inv] by (auto simp: reading_def)
  then have "{..<got l} = fst ` set (out l) \<union> {p. reading l p}" using o by (auto simp: out_ok_def)
  moreover have "(unat pos, x) \<in> set (out l)" if "q_pc l t = G_done pos x" for t pos x using inv_at [OF inv, of t] that by simp
  moreover have "p < length (sent l) \<and> x = sent l ! p" if "(p, x) \<in> set (out l)" for p x
    using o that inv_shape(5) [OF inv] by (auto simp: out_ok_def)
  moreover have "fst ` set (out l) \<inter> {p. reading l p} = {}" using o by (auto simp: out_ok_def)
  ultimately show ?thesis using o handed_out [OF inv assms(1)] by (auto simp: out_ok_def)
qed

text \<open>
  C27: The answers of the bounded queue, in every reachable state: an attempt whose position is that of the tail or of the head never goes round the loop for a stale tag,
  so only a thread that another one has overtaken, or whose weak compare-and-swap failed without reason, tries again; a push gives up only when the value sent \<open>N\<close> positions before the tail has not been handed out; a pop gives
  up only when every value sent was claimed by a consumer or a producer has claimed the position at the head and not yet finished.\<close>

theorem mpmc_answers:
  assumes "mpmc_bounds N" "(mpmc_step cb N)\<^sup>*\<^sup>* (mpmc_new N d) l" "length (sent l) + N < 2 ^ 63"
  shows "dif N l (q_tail l) (q_tail l) \<le> 0 \<and> dif N l (q_head l) (q_head l + 1) \<le> 0 \<and>
    (\<forall>l' t pos. mpmc_step cb N l l' \<longrightarrow> q_pc l t \<noteq> P_full pos \<longrightarrow> q_pc l' t = P_full pos \<longrightarrow>
      pos = q_tail l \<and> N \<le> length (sent l) \<and> length (sent l) - N \<notin> fst ` set (out l)) \<and>
    (\<forall>l' t pos. mpmc_step cb N l l' \<longrightarrow> q_pc l t \<noteq> G_empty pos \<longrightarrow> q_pc l' t = G_empty pos \<longrightarrow>
      pos = q_head l \<and> (got l = length (sent l) \<or> writing l (got l)))"
proof (intro conjI allI impI)
  note inv = mpmc_reach_inv [OF assms]
  show "dif N l (q_tail l) (q_tail l) \<le> 0" "dif N l (q_head l) (q_head l + 1) \<le> 0" by (rule fresh_tags [OF inv assms(1,3)])+
  {
    fix l' t pos assume "mpmc_step cb N l l'" "q_pc l t \<noteq> P_full pos" "q_pc l' t = P_full pos"
    then have "dif N l pos pos < 0" "\<exists>v. q_pc l t = P_seq v pos" using full_step [of cb N l l' t pos] by auto
    then show "pos = q_tail l" "N \<le> length (sent l)" "length (sent l) - N \<notin> fst ` set (out l)" using push_gives_up [OF inv assms(1,3)] by blast+
  next
    fix l' t pos assume "mpmc_step cb N l l'" "q_pc l t \<noteq> G_empty pos" "q_pc l' t = G_empty pos"
    then have "dif N l pos (pos + 1) < 0" "q_pc l t = G_seq pos" using empty_step [of cb N l l' t pos] by auto
    then show "pos = q_head l" "got l = length (sent l) \<or> writing l (got l)" using pop_gives_up [OF inv assms(1,3)] by blast+
  }
qed

text \<open>A queue with a single cell: the tag that says that the cell is full is the tag that says that it is free for the next position.\<close>

definition stuck_at :: "'a mpmc_pc \<Rightarrow> bool" where
  "stuck_at p \<longleftrightarrow> (case p of Q_idle \<Rightarrow> True | P_load v \<Rightarrow> True | P_seq v pos \<Rightarrow> pos = 2 | P_cas v pos \<Rightarrow> pos = 2 | G_load \<Rightarrow> True | G_seq pos \<Rightarrow> pos = 0 | _ \<Rightarrow> False)"

definition stuck :: "('t, 'a) mpmc \<Rightarrow> bool" where
  "stuck l \<longleftrightarrow> q_seq l = [2] \<and> q_tail l = 2 \<and> q_head l = 0 \<and> got l = 0 \<and> length (sent l) = 2 \<and> (\<forall>t. stuck_at (q_pc l t))"

lemma stuck_facts:
  assumes "stuck l"
  shows "q_tail l = 2" "q_head l = 0" "length (sent l) = 2" "dif 1 l 2 2 = 0" "dif 1 l 0 1 = 1" "stuck_at (q_pc l t)"
  using assms by (simp_all add: stuck_def dif_def cell_def)

lemma stuck_goto: "stuck l \<Longrightarrow> stuck_at p \<Longrightarrow> stuck (qat t p l)"
  by (auto simp: stuck_def qat_def)

lemma stuck_thread:
  assumes "stuck l" "mpmc_step cb 1 l l'" "length (sent l') = 2"
  shows "\<exists>t p. l' = qat t p l \<and> stuck_at p"
  using assms(2)
proof cases
  case (push_won t v pos) then show ?thesis using assms(3) stuck_facts(3) [OF assms(1)] by (simp add: qat_def)
next
  case (push_full t v pos) then show ?thesis using stuck_facts(4) [OF assms(1)] stuck_facts(6) [OF assms(1), of t] by (simp add: stuck_at_def)
next
  case (push_free t v pos) then show ?thesis using stuck_facts(6) [OF assms(1), of t] by (force simp: stuck_at_def)
next
  case (pop_full t pos) then show ?thesis using stuck_facts(5) [OF assms(1)] stuck_facts(6) [OF assms(1), of t] by (simp add: stuck_at_def)
next
  case (pop_empty t pos) then show ?thesis using stuck_facts(5) [OF assms(1)] stuck_facts(6) [OF assms(1), of t] by (simp add: stuck_at_def)
next
  case (push_write t v pos) then show ?thesis using stuck_facts(6) [OF assms(1), of t] by (simp add: stuck_at_def)
next
  case (push_tag t pos) then show ?thesis using stuck_facts(6) [OF assms(1), of t] by (simp add: stuck_at_def)
next
  case (pop_won t pos) then show ?thesis using stuck_facts(6) [OF assms(1), of t] by (simp add: stuck_at_def)
next
  case (pop_tag t pos x) then show ?thesis using stuck_facts(6) [OF assms(1), of t] by (simp add: stuck_at_def)
next
  case (pop_read t pos) then show ?thesis using stuck_facts(6) [OF assms(1), of t] by (simp add: stuck_at_def)
next
  case (push_lost t v pos) then show ?thesis using stuck_facts(1) [OF assms(1)] by (force simp: stuck_at_def)
next
  case (pop_lost t pos) then show ?thesis using stuck_facts(2) [OF assms(1)] by (force simp: stuck_at_def)
next
  case (push_load t v) then show ?thesis using stuck_facts(1) [OF assms(1)] by (force simp: stuck_at_def)
next
  case (pop_load t) then show ?thesis using stuck_facts(2) [OF assms(1)] by (force simp: stuck_at_def)
qed (force simp: stuck_at_def)+

lemma stuck_run:
  assumes "(mpmc_step cb 1)\<^sup>*\<^sup>* l l'" "stuck l" "length (sent l') = 2"
  shows "stuck l'"
  using assms
proof (induction rule: rtranclp_induct)
  case (step l1 l2)
  have "length (sent l) \<le> length (sent l1)" using step.hyps(1) by (induction rule: rtranclp_induct) (auto dest: sent_grows)
  then have "length (sent l1) = 2" using sent_grows [OF step.hyps(2)] step.prems stuck_facts(3) by fastforce
  then have st: "stuck l1" using step.IH step.prems(1) by simp
  then obtain t p where "l2 = qat t p l1" "stuck_at p" using stuck_thread [OF st step.hyps(2) step.prems(2)] by auto
  then show ?case using stuck_goto [OF st] by simp
qed

text \<open>One push, from the call to its return, on a queue with a single cell in which nobody else runs.\<close>

definition one_cell :: "usize \<Rightarrow> 'a \<Rightarrow> 'a list \<Rightarrow> ('t, 'a) mpmc" where
  "one_cell n x vs = \<lparr>q_seq = [n], q_val = [x], q_tail = n, q_head = 0, q_pc = (\<lambda>_. Q_idle), sent = vs, got = 0, out = []\<rparr>"

lemma one_cell_push: "(mpmc_step cb 1)\<^sup>*\<^sup>* (one_cell n x vs) (one_cell (n + 1) v (vs @ [v]))"
proof -
  let ?step = "(mpmc_step cb 1)\<^sup>*\<^sup>*" and ?l = "one_cell n x vs" and ?t = undefined
  let ?w = "?l\<lparr>q_tail := n + 1, sent := vs @ [v]\<rparr>"
  have "?step ?l (qat ?t (P_load v) ?l)" by (rule r_into_rtranclp, rule push_call) (simp add: one_cell_def)
  also have "?step \<dots> (qat ?t (P_seq v n) ?l)"
    using r_into_rtranclp [of "mpmc_step cb 1", OF push_load [of "qat ?t (P_load v) ?l" ?t v cb 1]] by (simp add: one_cell_def qat_def)
  also have "?step \<dots> (qat ?t (P_cas v n) ?l)"
    using r_into_rtranclp [of "mpmc_step cb 1", OF push_free [of "qat ?t (P_seq v n) ?l" ?t v n 1 cb]] by (simp add: one_cell_def qat_def dif_def cell_def)
  also have "?step \<dots> (qat ?t (P_write v n) ?w)"
    using r_into_rtranclp [of "mpmc_step cb 1", OF push_won [of "qat ?t (P_cas v n) ?l" ?t v n cb 1]] by (simp add: one_cell_def qat_def)
  also have "?step \<dots> (qat ?t (P_tag n) (?w\<lparr>q_val := [v]\<rparr>))"
    using r_into_rtranclp [of "mpmc_step cb 1", OF push_write [of "qat ?t (P_write v n) ?w" ?t v n cb 1]] by (simp add: one_cell_def qat_def cell_def)
  also have "?step \<dots> (one_cell (n + 1) v (vs @ [v]))"
    using r_into_rtranclp [of "mpmc_step cb 1", OF push_tag [of "qat ?t (P_tag n) (?w\<lparr>q_val := [v]\<rparr>)" ?t n cb 1]] by (simp add: one_cell_def qat_def cell_def fun_upd_idem)
  finally show ?thesis .
qed

text \<open>
  C39: A queue with a single cell, which the constraint on \<open>N\<close> allows, loses values and then blocks its consumers: after two pushes that both succeed, all threads are idle, two
  values have been sent and none has been handed out, the cell holds the second only, and in every later state that is reached without another
  successful push no pop has claimed a position or returned, with or without a value.\<close>

theorem mpmc_capacity_one:
  "\<exists>l :: ('t, 'a) mpmc. (mpmc_step cb 1)\<^sup>*\<^sup>* (mpmc_new 1 d) l \<and> (\<forall>t. q_pc l t = Q_idle) \<and> sent l = [a, b] \<and> out l = [] \<and> q_val l = [b] \<and>
    (\<forall>l'. (mpmc_step cb 1)\<^sup>*\<^sup>* l l' \<and> length (sent l') = 2 \<longrightarrow>
      got l' = 0 \<and> (\<forall>t pos x. q_pc l' t \<noteq> G_done pos x \<and> q_pc l' t \<noteq> G_empty pos))"
proof (intro exI conjI allI impI)
  let ?l = "one_cell 2 b [a, b] :: ('t, 'a) mpmc"
  have "(mpmc_new 1 d :: ('t, 'a) mpmc) = one_cell 0 d []" by (simp add: mpmc_new_def one_cell_def)
  also have "(mpmc_step cb 1)\<^sup>*\<^sup>* \<dots> (one_cell 1 a [a])" using one_cell_push [of cb 0 d "[]" a] by simp
  also have "(mpmc_step cb 1)\<^sup>*\<^sup>* \<dots> ?l" using one_cell_push [of cb 1 a "[a]" b] by simp
  finally show "(mpmc_step cb 1)\<^sup>*\<^sup>* (mpmc_new 1 d) ?l" .
  fix l' :: "('t, 'a) mpmc" and t pos x
  assume run: "(mpmc_step cb 1)\<^sup>*\<^sup>* ?l l' \<and> length (sent l') = 2"
  have "stuck ?l" by (simp add: stuck_def one_cell_def stuck_at_def)
  then have st: "stuck l'" using run stuck_run by blast
  then show "got l' = 0" by (simp add: stuck_def)
  show "q_pc l' t \<noteq> G_done pos x" "q_pc l' t \<noteq> G_empty pos" using stuck_facts(6) [OF st, of t] by (auto simp: stuck_at_def)
qed (simp_all add: one_cell_def)

text \<open>A run on two cells: a push of 7 and then a pop.\<close>

definition pushed :: "(nat, nat) mpmc" where
  "pushed = \<lparr>q_seq = [1, 1], q_val = [7, 0], q_tail = 1, q_head = 0, q_pc = (\<lambda>_. Q_idle), sent = [7], got = 0, out = []\<rparr>"

definition popped :: "(nat, nat) mpmc" where
  "popped = \<lparr>q_seq = [2, 1], q_val = [7, 0], q_tail = 1, q_head = 1, q_pc = (\<lambda>_. Q_idle)(3 := G_done 0 7), sent = [7], got = 1, out = [(0, 7)]\<rparr>"

lemma run_pushed: "(mpmc_step False 2)\<^sup>*\<^sup>* (mpmc_new 2 0) pushed"
proof -
  let ?step = "(mpmc_step False 2)\<^sup>*\<^sup>*" and ?l = "mpmc_new 2 0 :: (nat, nat) mpmc"
  let ?w = "?l\<lparr>q_tail := 1, sent := [7]\<rparr>"
  have "?step ?l (qat 5 (P_load 7) ?l)" by (rule r_into_rtranclp, rule push_call) (simp add: mpmc_new_def)
  also have "?step \<dots> (qat 5 (P_seq 7 0) ?l)"
    using r_into_rtranclp [of "mpmc_step False 2", OF push_load [of "qat 5 (P_load 7) ?l" 5 7]] by (simp add: mpmc_new_def qat_def)
  also have "?step \<dots> (qat 5 (P_cas 7 0) ?l)"
    using r_into_rtranclp [of "mpmc_step False 2", OF push_free [of "qat 5 (P_seq 7 0) ?l" 5 7 0]] by (simp add: mpmc_new_def qat_def dif_def cell_def upt_rec)
  also have "?step \<dots> (qat 5 (P_write 7 0) ?w)"
    using r_into_rtranclp [of "mpmc_step False 2", OF push_won [of "qat 5 (P_cas 7 0) ?l" 5 7 0]] by (simp add: mpmc_new_def qat_def)
  also have "?step \<dots> (qat 5 (P_tag 0) (?w\<lparr>q_val := [7, 0]\<rparr>))"
    using r_into_rtranclp [of "mpmc_step False 2", OF push_write [of "qat 5 (P_write 7 0) ?w" 5 7 0]]
    by (simp add: mpmc_new_def qat_def cell_def numeral_2_eq_2)
  also have "?step \<dots> pushed"
    using r_into_rtranclp [of "mpmc_step False 2", OF push_tag [of "qat 5 (P_tag 0) (?w\<lparr>q_val := [7, 0]\<rparr>)" 5 0]]
    by (simp add: mpmc_new_def qat_def cell_def pushed_def upt_rec fun_upd_idem)
  finally show ?thesis .
qed

lemma run_popped: "(mpmc_step False 2)\<^sup>*\<^sup>* pushed popped"
proof -
  let ?step = "(mpmc_step False 2)\<^sup>*\<^sup>*"
  let ?w = "pushed\<lparr>q_head := 1, got := 1\<rparr>"
  have "?step pushed (qat 3 G_load pushed)" by (rule r_into_rtranclp, rule pop_call) (simp add: pushed_def)
  also have "?step \<dots> (qat 3 (G_seq 0) pushed)"
    using r_into_rtranclp [of "mpmc_step False 2", OF pop_load [of "qat 3 G_load pushed" 3]] by (simp add: pushed_def qat_def)
  also have "?step \<dots> (qat 3 (G_cas 0) pushed)"
    using r_into_rtranclp [of "mpmc_step False 2", OF pop_full [of "qat 3 (G_seq 0) pushed" 3 0]] by (simp add: pushed_def qat_def dif_def cell_def)
  also have "?step \<dots> (qat 3 (G_read 0) ?w)"
    using r_into_rtranclp [of "mpmc_step False 2", OF pop_won [of "qat 3 (G_cas 0) pushed" 3 0]] by (simp add: pushed_def qat_def)
  also have "?step \<dots> (qat 3 (G_tag 0 7) ?w)"
    using r_into_rtranclp [of "mpmc_step False 2", OF pop_read [of "qat 3 (G_read 0) ?w" 3 0]] by (simp add: pushed_def qat_def cell_def)
  also have "?step \<dots> popped"
    using r_into_rtranclp [of "mpmc_step False 2", OF pop_tag [of "qat 3 (G_tag 0 7) ?w" 3 0 7]] by (simp add: pushed_def popped_def qat_def cell_def)
  finally show ?thesis .
qed

lemma mpmc_bounds_two: "mpmc_bounds 2"
  by (auto simp: mpmc_bounds_def intro: exI [of _ 1])

theorem mpmc_fifo_witness:
  "mpmc_bounds 2 \<and> (mpmc_step False 2)\<^sup>*\<^sup>* (mpmc_new 2 0) popped \<and> length (sent popped) + 2 < 2 ^ 63 \<and>
    q_pc popped 3 = G_done 0 7 \<and> (0, 7) \<in> set (out popped) \<and> {..<got popped} = fst ` set (out popped) \<union> {p. reading popped p}"
proof -
  have run: "(mpmc_step False 2)\<^sup>*\<^sup>* (mpmc_new 2 0) popped" using run_pushed run_popped by (rule rtranclp_trans)
  have len: "length (sent popped) + 2 < 2 ^ 63" and pc: "q_pc popped 3 = G_done 0 7" by (simp_all add: popped_def)
  show ?thesis using mpmc_fifo [OF mpmc_bounds_two run len] run len pc mpmc_bounds_two by fastforce
qed

theorem mpmc_answers_witness:
  "mpmc_bounds 2 \<and> (mpmc_step False 2)\<^sup>*\<^sup>* (mpmc_new 2 0) pushed \<and> length (sent pushed) + 2 < 2 ^ 63 \<and>
    dif 2 pushed (q_tail pushed) (q_tail pushed) \<le> 0 \<and> dif 2 pushed (q_head pushed) (q_head pushed + 1) \<le> 0"
proof -
  have len: "length (sent pushed) + 2 < 2 ^ 63" by (simp add: pushed_def)
  show ?thesis using mpmc_answers [OF mpmc_bounds_two run_pushed len] run_pushed len mpmc_bounds_two by simp
qed

theorem mpmc_capacity_one_witness:
  "\<exists>l :: (nat, nat) mpmc. (mpmc_step False 1)\<^sup>*\<^sup>* (mpmc_new 1 0) l \<and> sent l = [7, 8] \<and> q_val l = [8]"
  using mpmc_capacity_one [of False 0 7 8] by blast

end
