(* ===== verification/Lock_Flag.thy ===== *)
theory Lock_Flag
  imports Lock_Base
begin

text \<open>
  The locks that are one atomic flag: \<^verbatim>\<open>mutex\<close>, \<^verbatim>\<open>weak_mutex\<close> and \<^verbatim>\<open>fast_mutex\<close> of \<^verbatim>\<open>src/src/mutex/mutex.hpp\<close>, \<^verbatim>\<open>spin_lock\<close> and
  \<^verbatim>\<open>ttas_lock\<close> of \<^verbatim>\<open>src/src/mutex/locks\<close>.  They differ in where \<open>lock\<close> and \<open>try_lock\<close> begin: with a look at the flag or with the
  compare-and-swap.  \<^verbatim>\<open>compare_and_swap\<close> is the weak form, which may fail although the flag is open.
\<close>

subsection \<open>The classes\<close>

datatype flag_class = Mutex | Weak_mutex | Fast_mutex | Spin_lock | Ttas_lock

datatype flag_pc = F_out | F_poll | F_cas | F_try_poll | F_try_cas | F_in

fun lock_entry :: "flag_class \<Rightarrow> flag_pc" where
  "lock_entry Mutex = F_cas"
| "lock_entry Weak_mutex = F_cas"
| "lock_entry Fast_mutex = F_cas"
| "lock_entry Spin_lock = F_poll"
| "lock_entry Ttas_lock = F_cas"

fun try_entry :: "flag_class \<Rightarrow> flag_pc" where
  "try_entry Mutex = F_try_cas"
| "try_entry Weak_mutex = F_try_cas"
| "try_entry Fast_mutex = F_try_cas"
| "try_entry Spin_lock = F_try_poll"
| "try_entry Ttas_lock = F_try_poll"

record 't flag_lock =
  tk :: bool
  fpc :: "'t \<Rightarrow> flag_pc"

definition flag_new :: "'t flag_lock" where
  "flag_new = \<lparr>tk = False, fpc = (\<lambda>_. F_out)\<rparr>"

definition flag_is_locked :: "'t flag_lock \<Rightarrow> bool" where
  "flag_is_locked l = tk l"

text \<open>The thread goes to another place, and may change the flag.\<close>

definition goto :: "'t \<Rightarrow> flag_pc \<Rightarrow> 't flag_lock \<Rightarrow> 't flag_lock" where
  "goto t p l = l\<lparr>fpc := (fpc l)(t := p)\<rparr>"

inductive flag_step :: "flag_class \<Rightarrow> 't flag_lock \<Rightarrow> 't flag_lock \<Rightarrow> bool" for c where
  lock_call: "fpc l t = F_out \<Longrightarrow> flag_step c l (goto t (lock_entry c) l)"
| poll_locked: "fpc l t = F_poll \<Longrightarrow> tk l \<Longrightarrow> flag_step c l l"
| poll_open: "fpc l t = F_poll \<Longrightarrow> \<not> tk l \<Longrightarrow> flag_step c l (goto t F_cas l)"
| cas_won: "fpc l t = F_cas \<Longrightarrow> \<not> tk l \<Longrightarrow> flag_step c l (goto t F_in l\<lparr>tk := True\<rparr>)"
| cas_lost: "fpc l t = F_cas \<Longrightarrow> flag_step c l (goto t F_poll l)"
| try_call: "fpc l t = F_out \<Longrightarrow> flag_step c l (goto t (try_entry c) l)"
| try_locked: "fpc l t = F_try_poll \<Longrightarrow> tk l \<Longrightarrow> flag_step c l (goto t F_out l)"
| try_open: "fpc l t = F_try_poll \<Longrightarrow> \<not> tk l \<Longrightarrow> flag_step c l (goto t F_try_cas l)"
| try_won: "fpc l t = F_try_cas \<Longrightarrow> \<not> tk l \<Longrightarrow> flag_step c l (goto t F_in l\<lparr>tk := True\<rparr>)"
| try_lost: "fpc l t = F_try_cas \<Longrightarrow> flag_step c l (goto t F_out l)"
| unlock: "fpc l t = F_in \<Longrightarrow> flag_step c l (goto t F_out l\<lparr>tk := False\<rparr>)"

text \<open>The step relations of the classes.\<close>

definition mutex_step :: "'t flag_lock \<Rightarrow> 't flag_lock \<Rightarrow> bool" where
  "mutex_step = flag_step Mutex"

definition weak_mutex_step :: "'t flag_lock \<Rightarrow> 't flag_lock \<Rightarrow> bool" where
  "weak_mutex_step = flag_step Weak_mutex"

definition fast_mutex_step :: "'t flag_lock \<Rightarrow> 't flag_lock \<Rightarrow> bool" where
  "fast_mutex_step = flag_step Fast_mutex"

definition spin_lock_step :: "'t flag_lock \<Rightarrow> 't flag_lock \<Rightarrow> bool" where
  "spin_lock_step = flag_step Spin_lock"

definition ttas_lock_step :: "'t flag_lock \<Rightarrow> 't flag_lock \<Rightarrow> bool" where
  "ttas_lock_step = flag_step Ttas_lock"

subsection \<open>Exclusion\<close>

definition flag_inv :: "'t flag_lock \<Rightarrow> bool" where
  "flag_inv l \<longleftrightarrow> (if tk l then \<exists>t. \<forall>u. fpc l u = F_in \<longleftrightarrow> u = t else \<forall>u. fpc l u \<noteq> F_in)"

lemma goto_simps [simp]: "tk (goto t p l) = tk l" "fpc (goto t p l) = (fpc l)(t := p)"
  by (simp_all add: goto_def)

lemma entry_outside [simp]: "lock_entry c \<noteq> F_in" "try_entry c \<noteq> F_in"
  by (cases c; simp)+

lemma flag_inv_outside:
  "flag_inv l \<Longrightarrow> fpc l t \<noteq> F_in \<Longrightarrow> p \<noteq> F_in \<Longrightarrow> flag_inv (goto t p l)"
  unfolding flag_inv_def by (auto split: if_splits)

lemma flag_inv_enter: "flag_inv l \<Longrightarrow> \<not> tk l \<Longrightarrow> flag_inv (goto t F_in l\<lparr>tk := True\<rparr>)"
  unfolding flag_inv_def by auto

lemma flag_inv_leave: "flag_inv l \<Longrightarrow> fpc l t = F_in \<Longrightarrow> flag_inv (goto t F_out l\<lparr>tk := False\<rparr>)"
  unfolding flag_inv_def by (auto split: if_splits)

lemma flag_step_inv: "flag_inv l \<Longrightarrow> flag_step c l l' \<Longrightarrow> flag_inv l'"
  by (erule flag_step.cases) (simp_all add: flag_inv_outside flag_inv_enter flag_inv_leave)

lemma flag_inv_new: "flag_inv flag_new"
  by (simp add: flag_inv_def flag_new_def)

lemma flag_inv_unique: "flag_inv l \<Longrightarrow> fpc l t = F_in \<Longrightarrow> fpc l u = F_in \<Longrightarrow> t = u"
  by (auto simp: flag_inv_def split: if_splits)

interpretation flg: exclusive_lock "\<lambda>l. l = flag_new" "flag_step c" flag_inv "\<lambda>l t. fpc l t = F_in" for c
  by unfold_locales (auto intro: flag_inv_new flag_step_inv flag_inv_unique)

text \<open>The lock is never lost: with the flag set some thread is inside, with the flag open every thread that waits can get it.\<close>

lemma flag_available:
  assumes "flag_inv l" "fpc l t \<in> {F_poll, F_cas, F_try_poll, F_try_cas}" "\<not> tk l"
  shows "\<exists>l'. (flag_step c)\<^sup>*\<^sup>* l l' \<and> fpc l' t = F_in"
proof -
  have cas: "\<exists>l'. (flag_step c)\<^sup>*\<^sup>* k l' \<and> fpc l' t = F_in" if "fpc k t = F_cas" "\<not> tk k" for k
    by (rule exI [of _ "goto t F_in k\<lparr>tk := True\<rparr>"]) (use that in \<open>auto intro: r_into_rtranclp cas_won\<close>)
  have tcas: "\<exists>l'. (flag_step c)\<^sup>*\<^sup>* k l' \<and> fpc l' t = F_in" if "fpc k t = F_try_cas" "\<not> tk k" for k
    by (rule exI [of _ "goto t F_in k\<lparr>tk := True\<rparr>"]) (use that in \<open>auto intro: r_into_rtranclp try_won\<close>)
  from assms(2) consider "fpc l t = F_poll" | "fpc l t = F_cas" | "fpc l t = F_try_poll" | "fpc l t = F_try_cas" by blast
  then show ?thesis
  proof cases
    case 1
    then have "flag_step c l (goto t F_cas l)" using assms(3) by (rule poll_open)
    then show ?thesis using cas [of "goto t F_cas l"] assms(3) by (auto intro: converse_rtranclp_into_rtranclp)
  next
    case 3
    then have "flag_step c l (goto t F_try_cas l)" using assms(3) by (rule try_open)
    then show ?thesis using tcas [of "goto t F_try_cas l"] assms(3) by (auto intro: converse_rtranclp_into_rtranclp)
  qed (use cas tcas assms(3) in auto)
qed

subsection \<open>Properties\<close>

text \<open>On every run of each flag lock, with any number of threads and with compare-and-swaps that fail for no reason, at most one thread
  is inside, the flag is set exactly when one is, a holder can always unlock, and while the flag is open every thread in \<open>lock\<close> or
  \<open>try_lock\<close> can still get the lock.\<close>

theorem flag_lock_exclusion:
  assumes "(flag_step c)\<^sup>*\<^sup>* flag_new l"
  shows "(\<forall>t u. fpc l t = F_in \<and> fpc l u = F_in \<longrightarrow> t = u)
       \<and> (flag_is_locked l \<longleftrightarrow> (\<exists>t. fpc l t = F_in))
       \<and> (\<forall>t. fpc l t = F_in \<longrightarrow> (\<exists>l'. flag_step c l l' \<and> \<not> flag_is_locked l' \<and> (\<forall>u. fpc l' u \<noteq> F_in)))
       \<and> (\<forall>t. fpc l t \<in> {F_poll, F_cas, F_try_poll, F_try_cas} \<and> \<not> flag_is_locked l \<longrightarrow>
            (\<exists>l'. (flag_step c)\<^sup>*\<^sup>* l l' \<and> fpc l' t = F_in))"
proof -
  have inv: "flag_inv l" using flg.reach_inv assms by blast
  have ex: "\<forall>t u. fpc l t = F_in \<and> fpc l u = F_in \<longrightarrow> t = u" using flag_inv_unique [OF inv] by blast
  moreover have "flag_is_locked l \<longleftrightarrow> (\<exists>t. fpc l t = F_in)"
    using inv by (auto simp: flag_inv_def flag_is_locked_def split: if_splits)
  moreover have "\<exists>l'. flag_step c l l' \<and> \<not> flag_is_locked l' \<and> (\<forall>u. fpc l' u \<noteq> F_in)" if t: "fpc l t = F_in" for t
  proof -
    have "\<forall>u. fpc (goto t F_out l\<lparr>tk := False\<rparr>) u \<noteq> F_in" using ex t by auto
    then show ?thesis using unlock [OF t, of c] by (auto simp: flag_is_locked_def)
  qed
  moreover have "\<exists>l'. (flag_step c)\<^sup>*\<^sup>* l l' \<and> fpc l' t = F_in"
    if "fpc l t \<in> {F_poll, F_cas, F_try_poll, F_try_cas}" "\<not> flag_is_locked l" for t
    using flag_available [OF inv] that by (simp add: flag_is_locked_def)
  ultimately show ?thesis by blast
qed

theorem flag_lock_exclusion_witness:
  "\<exists>l'. (flag_step Spin_lock)\<^sup>*\<^sup>* (goto (0::nat) F_poll flag_new) l' \<and> fpc l' 0 = F_in"
proof -
  have "flag_step Spin_lock (flag_new :: nat flag_lock) (goto 0 (lock_entry Spin_lock) flag_new)"
    by (rule lock_call) (simp add: flag_new_def)
  then have "(flag_step Spin_lock)\<^sup>*\<^sup>* (flag_new :: nat flag_lock) (goto 0 F_poll flag_new)" by auto
  from flag_lock_exclusion [OF this] show ?thesis by (auto simp: flag_is_locked_def flag_new_def)
qed

end
