(* ===== verification/Lock_Ticket.thy ===== *)
theory Lock_Ticket
  imports Lock_Base
begin

text \<open>
  The first-come first-served lock of \<^verbatim>\<open>src/src/mutex/locks/ticket_lock.hpp\<close>.  Two 32-bit counters wrap around; a thread draws a ticket from
  one and waits until the other shows it.  Every access to a counter is a step, so that the steps of \<open>try_lock\<close> and \<open>unlock\<close>
  interleave with those of other threads.
\<close>

subsection \<open>The lock\<close>

datatype ticket_pc =
    T_out
  | T_check u32
  | T_spin u32
  | T_in
  | T_unlock u32
  | T_serve u32
  | T_try
  | T_try_next u32
  | T_try_cas u32

record 't ticket_lock =
  next_ticket :: u32
  now_serving :: u32
  tpc :: "'t \<Rightarrow> ticket_pc"

definition ticket_new :: "u32 \<Rightarrow> 't ticket_lock" where
  "ticket_new seed = \<lparr>next_ticket = seed, now_serving = seed, tpc = (\<lambda>_. T_out)\<rparr>"

definition ticket_is_locked :: "'t ticket_lock \<Rightarrow> bool" where
  "ticket_is_locked l = (next_ticket l \<noteq> now_serving l)"

definition ticket_queued :: "'t ticket_lock \<Rightarrow> u32" where
  "ticket_queued l = next_ticket l - now_serving l"

text \<open>How long a waiting thread pauses between two looks at the counter.\<close>

definition ticket_pauses :: "u32 \<Rightarrow> u32 \<Rightarrow> u32" where
  "ticket_pauses my s = (let dist = my - s in if dist > 512 div 8 then 512 else dist * 8)"

datatype 't ticket_event = T_tau | Drew 't | Entered 't | Drew_entered 't | Left 't | Misused 't

definition tgoto :: "'t \<Rightarrow> ticket_pc \<Rightarrow> 't ticket_lock \<Rightarrow> 't ticket_lock" where
  "tgoto t p l = l\<lparr>tpc := (tpc l)(t := p)\<rparr>"

text \<open>\<open>ts\<close> are the threads; \<open>tries\<close> says whether they call \<open>try_lock\<close>.\<close>

inductive ticket_step :: "'t set \<Rightarrow> bool \<Rightarrow> 't ticket_lock \<Rightarrow> 't ticket_event \<Rightarrow> 't ticket_lock \<Rightarrow> bool" for ts tries where
  draw: "t \<in> ts \<Longrightarrow> tpc l t = T_out \<Longrightarrow> my = next_ticket l \<Longrightarrow>
    ticket_step ts tries l (Drew t) (tgoto t (T_check my) l\<lparr>next_ticket := my + 1\<rparr>)"
| check_mine: "tpc l t = T_check my \<Longrightarrow> now_serving l = my \<Longrightarrow> ticket_step ts tries l (Entered t) (tgoto t T_in l)"
| check_wait: "tpc l t = T_check my \<Longrightarrow> now_serving l \<noteq> my \<Longrightarrow> ticket_step ts tries l T_tau (tgoto t (T_spin my) l)"
| spin_mine: "tpc l t = T_spin my \<Longrightarrow> now_serving l = my \<Longrightarrow> ticket_step ts tries l (Entered t) (tgoto t T_in l)"
| spin_wait: "tpc l t = T_spin my \<Longrightarrow> now_serving l \<noteq> my \<Longrightarrow> ticket_step ts tries l T_tau l"
| unlock_read: "tpc l t = T_in \<Longrightarrow> s = now_serving l \<Longrightarrow> ticket_step ts tries l T_tau (tgoto t (T_unlock s) l)"
| unlock_misuse: "tpc l t = T_unlock s \<Longrightarrow> s = next_ticket l \<Longrightarrow> ticket_step ts tries l (Misused t) (tgoto t T_out l)"
| unlock_held: "tpc l t = T_unlock s \<Longrightarrow> s \<noteq> next_ticket l \<Longrightarrow> ticket_step ts tries l T_tau (tgoto t (T_serve s) l)"
| unlock_serve: "tpc l t = T_serve s \<Longrightarrow> ticket_step ts tries l (Left t) (tgoto t T_out l\<lparr>now_serving := s + 1\<rparr>)"
| try_call: "t \<in> ts \<Longrightarrow> tries \<Longrightarrow> tpc l t = T_out \<Longrightarrow> ticket_step ts tries l T_tau (tgoto t T_try l)"
| try_read: "tpc l t = T_try \<Longrightarrow> s = now_serving l \<Longrightarrow> ticket_step ts tries l T_tau (tgoto t (T_try_next s) l)"
| try_held: "tpc l t = T_try_next s \<Longrightarrow> s \<noteq> next_ticket l \<Longrightarrow> ticket_step ts tries l T_tau (tgoto t T_out l)"
| try_free: "tpc l t = T_try_next s \<Longrightarrow> n = next_ticket l \<Longrightarrow> s = n \<Longrightarrow> ticket_step ts tries l T_tau (tgoto t (T_try_cas n) l)"
| try_won: "t \<in> ts \<Longrightarrow> tpc l t = T_try_cas n \<Longrightarrow> next_ticket l = n \<Longrightarrow>
    ticket_step ts tries l (Drew_entered t) (tgoto t T_in l\<lparr>next_ticket := n + 1\<rparr>)"
| try_lost: "tpc l t = T_try_cas n \<Longrightarrow> ticket_step ts tries l T_tau (tgoto t T_out l)"

text \<open>The history of a run: who drew, who entered and who left, in order.\<close>

record 't ticket_log =
  drawn :: "'t list"
  entered :: "'t list"
  gone :: "'t list"

fun ticket_note :: "'t ticket_event \<Rightarrow> 't ticket_log \<Rightarrow> 't ticket_log" where
  "ticket_note (Drew t) h = h\<lparr>drawn := drawn h @ [t]\<rparr>"
| "ticket_note (Entered t) h = h\<lparr>entered := entered h @ [t]\<rparr>"
| "ticket_note (Drew_entered t) h = h\<lparr>drawn := drawn h @ [t], entered := entered h @ [t]\<rparr>"
| "ticket_note (Left t) h = h\<lparr>gone := gone h @ [t]\<rparr>"
| "ticket_note _ h = h"

definition ticket_logged_step :: "'t set \<Rightarrow> bool \<Rightarrow> 't ticket_lock \<times> 't ticket_log \<Rightarrow> 't ticket_lock \<times> 't ticket_log \<Rightarrow> bool" where
  "ticket_logged_step ts tries x y \<longleftrightarrow> (\<exists>e. ticket_step ts tries (fst x) e (fst y) \<and> snd y = ticket_note e (snd x))"

text \<open>A run with \<open>try_lock\<close> that is short of a full turn of the counters: a ticket read earlier does not come back.\<close>

definition tickets_fit :: "bool \<Rightarrow> 't ticket_log \<Rightarrow> bool" where
  "tickets_fit tries h \<longleftrightarrow> (tries \<longrightarrow> length (drawn h) < 2 ^ 32)"

definition ticket_start :: "u32 \<Rightarrow> 't ticket_lock \<times> 't ticket_log \<Rightarrow> bool" where
  "ticket_start seed x \<longleftrightarrow> x = (ticket_new seed, \<lparr>drawn = [], entered = [], gone = []\<rparr>)"

subsection \<open>The invariant\<close>

text \<open>
  A thread that is not in the queue is outside the lock or in \<open>try_lock\<close>; the ticket it has read there is an old one.  The \<open>i\<close>-th
  drawer holds ticket \<open>seed + i\<close> and waits, or it is the first of the queue and has entered.
\<close>

fun outside_ok :: "u32 \<Rightarrow> nat \<Rightarrow> nat \<Rightarrow> ticket_pc \<Rightarrow> bool" where
  "outside_ok seed D G T_out = True"
| "outside_ok seed D G T_try = True"
| "outside_ok seed D G (T_try_next s) = (\<exists>i \<le> G. s = seed + of_nat i)"
| "outside_ok seed D G (T_try_cas n) = (\<exists>i \<le> D. n = seed + of_nat i \<and> (i = D \<longrightarrow> G = D))"
| "outside_ok seed D G _ = False"

fun queue_ok :: "u32 \<Rightarrow> nat \<Rightarrow> nat \<Rightarrow> nat \<Rightarrow> ticket_pc \<Rightarrow> bool" where
  "queue_ok seed E G i (T_check m) = (m = seed + of_nat i \<and> E \<le> i)"
| "queue_ok seed E G i (T_spin m) = (m = seed + of_nat i \<and> E \<le> i)"
| "queue_ok seed E G i T_in = (i = G \<and> E = Suc G)"
| "queue_ok seed E G i (T_unlock s) = (i = G \<and> E = Suc G \<and> s = seed + of_nat G)"
| "queue_ok seed E G i (T_serve s) = (i = G \<and> E = Suc G \<and> s = seed + of_nat G)"
| "queue_ok seed E G i _ = False"

definition pcs_ok :: "bool \<Rightarrow> u32 \<Rightarrow> ('t \<Rightarrow> ticket_pc) \<Rightarrow> 't list \<Rightarrow> nat \<Rightarrow> nat \<Rightarrow> bool" where
  "pcs_ok tries seed f D e g \<longleftrightarrow>
     (\<forall>t. t \<notin> set (drop g D) \<longrightarrow> outside_ok seed (length D) g (f t) \<and> (tries \<or> f t = T_out)) \<and>
     (\<forall>i. g \<le> i \<and> i < length D \<longrightarrow> queue_ok seed e g i (f (D ! i)))"

definition log_ok :: "'t set \<Rightarrow> bool \<Rightarrow> 't ticket_log \<Rightarrow> bool" where
  "log_ok ts tries h \<longleftrightarrow>
     (tries \<longrightarrow> length (drawn h) < 2 ^ 32) \<and>
     length (gone h) \<le> length (entered h) \<and> length (entered h) \<le> Suc (length (gone h)) \<and>
     length (entered h) \<le> length (drawn h) \<and>
     take (length (entered h)) (drawn h) = entered h \<and> take (length (gone h)) (drawn h) = gone h \<and>
     distinct (drop (length (gone h)) (drawn h)) \<and> set (drop (length (gone h)) (drawn h)) \<subseteq> ts"

definition ticket_inv :: "'t set \<Rightarrow> bool \<Rightarrow> u32 \<Rightarrow> 't ticket_lock \<times> 't ticket_log \<Rightarrow> bool" where
  "ticket_inv ts tries seed x \<longleftrightarrow>
     (case x of (l, h) \<Rightarrow>
        log_ok ts tries h \<and>
        next_ticket l = seed + of_nat (length (drawn h)) \<and> now_serving l = seed + of_nat (length (gone h)) \<and>
        pcs_ok tries seed (tpc l) (drawn h) (length (entered h)) (length (gone h)))"

subsection \<open>Tickets and the queue\<close>

lemma ticket_inject:
  assumes "(seed :: u32) + of_nat a = seed + of_nat b" "a \<le> b" "b - a < 2 ^ 32"
  shows "a = b"
proof -
  have "(of_nat (b - a) :: u32) = 0" using assms(1,2) by (simp add: of_nat_diff)
  then have "unat (of_nat (b - a) :: u32) = 0" by simp
  moreover have "unat (of_nat (b - a) :: u32) = b - a"
    using assms(3) by (simp add: unsigned_of_nat take_bit_nat_eq_self)
  ultimately show ?thesis using assms(2) by simp
qed

lemma log_window: "log_ok ts tries h \<Longrightarrow> finite ts \<Longrightarrow> length (drawn h) - length (gone h) \<le> card ts"
  unfolding log_ok_def by (metis card_mono distinct_card length_drop)

lemma in_queue: "t \<in> set (drop g D) \<longleftrightarrow> (\<exists>i. g \<le> i \<and> i < length D \<and> D ! i = t)"
proof
  assume "t \<in> set (drop g D)"
  then obtain j where "j < length (drop g D)" "drop g D ! j = t" by (auto simp: in_set_conv_nth)
  then show "\<exists>i. g \<le> i \<and> i < length D \<and> D ! i = t" by (intro exI [of _ "g + j"]) auto
next
  assume "\<exists>i. g \<le> i \<and> i < length D \<and> D ! i = t"
  then obtain i where i: "g \<le> i" "i < length D" "D ! i = t" by blast
  then have "i - g < length (drop g D)" "drop g D ! (i - g) = t" by auto
  then show "t \<in> set (drop g D)" by (metis nth_mem)
qed

lemma queue_index:
  assumes "distinct (drop g D)" "g \<le> i" "i < length D" "g \<le> j" "j < length D" "D ! i = D ! j"
  shows "i = j"
proof -
  have "drop g D ! (i - g) = drop g D ! (j - g)" "i - g < length (drop g D)" "j - g < length (drop g D)" using assms by auto
  then have "i - g = j - g" using assms(1) by (simp only: nth_eq_iff_index_eq)
  then show ?thesis using assms by simp
qed

lemma pcs_ok_queued:
  assumes "pcs_ok tries seed f D e g" "\<not> outside_ok seed (length D) g (f t)"
  obtains i where "g \<le> i" "i < length D" "D ! i = t" "queue_ok seed e g i (f t)"
proof -
  have "t \<in> set (drop g D)" using assms by (auto simp: pcs_ok_def)
  then obtain i where i: "g \<le> i" "i < length D" "D ! i = t" unfolding in_queue by blast
  with assms have "queue_ok seed e g i (f t)" by (auto simp: pcs_ok_def)
  with i that show thesis by blast
qed

lemma pcs_ok_outside:
  assumes "pcs_ok tries seed f D e g" "\<And>i. \<not> queue_ok seed e g i (f t)"
  shows "t \<notin> set (drop g D)" "outside_ok seed (length D) g (f t)" "tries \<or> f t = T_out"
proof -
  have "\<not> (g \<le> i \<and> i < length D \<and> D ! i = t)" for i using assms unfolding pcs_ok_def by blast
  then show "t \<notin> set (drop g D)" unfolding in_queue by blast
  then show "outside_ok seed (length D) g (f t)" "tries \<or> f t = T_out" using assms(1) by (simp_all add: pcs_ok_def)
qed

lemma pcs_ok_move_queued:
  assumes "pcs_ok tries seed f D e g" "distinct (drop g D)" "g \<le> i" "i < length D" "queue_ok seed e g i p"
  shows "pcs_ok tries seed (f(D ! i := p)) D e g"
  unfolding pcs_ok_def
proof (intro conjI allI impI)
  fix j assume j: "g \<le> j \<and> j < length D"
  show "queue_ok seed e g j ((f(D ! i := p)) (D ! j))"
  proof (cases "j = i")
    case False
    then have "D ! j \<noteq> D ! i" using queue_index [OF assms(2)] j assms(3,4) by blast
    then show ?thesis using assms(1) j by (simp add: pcs_ok_def)
  qed (simp add: assms(5))
next
  fix t assume "t \<notin> set (drop g D)"
  moreover from this have "t \<noteq> D ! i" using assms(3,4) by (auto simp: in_queue)
  ultimately show "outside_ok seed (length D) g ((f(D ! i := p)) t)" "tries \<or> (f(D ! i := p)) t = T_out"
    using assms(1) by (simp_all add: pcs_ok_def)
qed

lemma pcs_ok_move_outside:
  assumes "pcs_ok tries seed f D e g" "t \<notin> set (drop g D)" "outside_ok seed (length D) g p" "tries \<or> p = T_out"
  shows "pcs_ok tries seed (f(t := p)) D e g"
proof -
  have "D ! i \<noteq> t" if "g \<le> i" "i < length D" for i using assms(2) that by (auto simp: in_queue)
  then show ?thesis using assms(1,3,4) by (simp add: pcs_ok_def)
qed

lemma outside_ok_draw: "outside_ok seed d g p \<Longrightarrow> outside_ok seed (Suc d) g p"
  by (cases p) (auto intro: le_SucI exI)

lemma outside_ok_leave: "outside_ok seed d g p \<Longrightarrow> g < d \<Longrightarrow> outside_ok seed d (Suc g) p"
proof (cases p)
  case (T_try_next s)
  assume "outside_ok seed d g p"
  then obtain i where "i \<le> g" "s = seed + of_nat i" using T_try_next by auto
  then show ?thesis unfolding T_try_next by (auto intro!: exI [of _ i])
next
  case (T_try_cas n)
  assume "outside_ok seed d g p" "g < d"
  then obtain i where "i \<le> d" "i \<noteq> d" "n = seed + of_nat i" using T_try_cas by auto
  then show ?thesis unfolding T_try_cas by (auto intro!: exI [of _ i])
qed simp_all

lemma pcs_ok_draw:
  assumes "pcs_ok tries seed f D e g" "t \<notin> set (drop g D)" "g \<le> e" "e \<le> length D"
  shows "pcs_ok tries seed (f(t := T_check (seed + of_nat (length D)))) (D @ [t]) e g"
  unfolding pcs_ok_def
proof (intro conjI allI impI)
  fix u assume "u \<notin> set (drop g (D @ [t]))"
  then have "u \<noteq> t" "u \<notin> set (drop g D)" using assms(3,4) by auto
  then have "outside_ok seed (length D) g (f u)" "tries \<or> f u = T_out" using assms(1) by (simp_all add: pcs_ok_def)
  then show "outside_ok seed (length (D @ [t])) g ((f(t := T_check (seed + of_nat (length D)))) u)"
    "tries \<or> (f(t := T_check (seed + of_nat (length D)))) u = T_out"
    using \<open>u \<noteq> t\<close> by (simp_all add: outside_ok_draw)
next
  fix i assume i: "g \<le> i \<and> i < length (D @ [t])"
  show "queue_ok seed e g i ((f(t := T_check (seed + of_nat (length D)))) ((D @ [t]) ! i))"
  proof (cases "i < length D")
    case True
    then have "D ! i \<noteq> t" using assms(2) i by (auto simp: in_queue)
    then show ?thesis using True i assms(1) by (simp add: pcs_ok_def nth_append)
  next
    case False
    then have "i = length D" using i by simp
    then show ?thesis using assms(4) by simp
  qed
qed

lemma pcs_ok_enter:
  assumes "pcs_ok tries seed f D g g" "g < length D" "distinct (drop g D)"
  shows "pcs_ok tries seed (f(D ! g := T_in)) D (Suc g) g"
  unfolding pcs_ok_def
proof (intro conjI allI impI)
  fix t assume "t \<notin> set (drop g D)"
  moreover from this have "t \<noteq> D ! g" using assms(2) by (auto simp: in_queue)
  ultimately show "outside_ok seed (length D) g ((f(D ! g := T_in)) t)" "tries \<or> (f(D ! g := T_in)) t = T_out"
    using assms(1) by (simp_all add: pcs_ok_def)
next
  fix i assume i: "g \<le> i \<and> i < length D"
  show "queue_ok seed (Suc g) g i ((f(D ! g := T_in)) (D ! i))"
  proof (cases "i = g")
    case False
    then have "D ! i \<noteq> D ! g" using queue_index [OF assms(3)] i assms(2) by blast
    moreover have "queue_ok seed g g i (f (D ! i))" using assms(1) i by (simp add: pcs_ok_def)
    ultimately show ?thesis using False i by (cases "f (D ! i)") auto
  qed simp
qed

lemma pcs_ok_leave:
  assumes "pcs_ok tries seed f D (Suc g) g" "g < length D" "distinct (drop g D)"
  shows "pcs_ok tries seed (f(D ! g := T_out)) D (Suc g) (Suc g)"
  unfolding pcs_ok_def
proof (intro conjI allI impI)
  fix t assume t: "t \<notin> set (drop (Suc g) D)"
  have "drop g D = D ! g # drop (Suc g) D" using assms(2) by (simp add: Cons_nth_drop_Suc)
  then have "t = D ! g \<or> t \<notin> set (drop g D)" using t by simp
  moreover have "outside_ok seed (length D) g (f t) \<Longrightarrow> outside_ok seed (length D) (Suc g) (f t)"
    using outside_ok_leave assms(2) by blast
  ultimately show "outside_ok seed (length D) (Suc g) ((f(D ! g := T_out)) t)" "tries \<or> (f(D ! g := T_out)) t = T_out"
    using assms(1) by (auto simp: pcs_ok_def)
next
  fix i assume i: "Suc g \<le> i \<and> i < length D"
  then have "D ! i \<noteq> D ! g" using queue_index [OF assms(3), of i g] assms(2) by auto
  moreover have "queue_ok seed (Suc g) g i (f (D ! i))" using assms(1) i by (simp add: pcs_ok_def)
  ultimately show "queue_ok seed (Suc g) (Suc g) i ((f(D ! g := T_out)) (D ! i))" using i by (cases "f (D ! i)") auto
qed

subsection \<open>Every step keeps the invariant\<close>

lemma ticket_invE:
  assumes "ticket_inv ts tries seed (l, h)"
  obtains "log_ok ts tries h" "next_ticket l = seed + of_nat (length (drawn h))"
    "now_serving l = seed + of_nat (length (gone h))"
    "pcs_ok tries seed (tpc l) (drawn h) (length (entered h)) (length (gone h))"
  using assms by (auto simp: ticket_inv_def)

lemma tgoto_simps [simp]:
  "next_ticket (tgoto t p l) = next_ticket l" "now_serving (tgoto t p l) = now_serving l" "tpc (tgoto t p l) = (tpc l)(t := p)"
  by (simp_all add: tgoto_def)

lemma ticket_inv_move_queued:
  assumes "ticket_inv ts tries seed (l, h)" "length (gone h) \<le> i" "i < length (drawn h)" "drawn h ! i = t"
    "queue_ok seed (length (entered h)) (length (gone h)) i p"
  shows "ticket_inv ts tries seed (tgoto t p l, h)"
  using assms pcs_ok_move_queued [of tries seed "tpc l" "drawn h" "length (entered h)" "length (gone h)" i p]
  by (auto simp: ticket_inv_def log_ok_def)

lemma ticket_inv_move_outside:
  assumes "ticket_inv ts tries seed (l, h)" "t \<notin> set (drop (length (gone h)) (drawn h))"
    "outside_ok seed (length (drawn h)) (length (gone h)) p" "tries \<or> p = T_out"
  shows "ticket_inv ts tries seed (tgoto t p l, h)"
  using assms pcs_ok_move_outside [of tries seed "tpc l" "drawn h" "length (entered h)" "length (gone h)" t p]
  by (auto simp: ticket_inv_def)

lemma log_ok_draw:
  assumes "log_ok ts tries h" "t \<in> ts" "t \<notin> set (drop (length (gone h)) (drawn h))" "tries \<longrightarrow> Suc (length (drawn h)) < 2 ^ 32"
  shows "log_ok ts tries (h\<lparr>drawn := drawn h @ [t]\<rparr>)"
  using assms by (auto simp: log_ok_def)

lemma log_ok_enter:
  assumes "log_ok ts tries h" "length (entered h) = length (gone h)" "length (gone h) < length (drawn h)" "drawn h ! length (gone h) = t"
  shows "log_ok ts tries (h\<lparr>entered := entered h @ [t]\<rparr>)"
proof -
  note * = assms(1) [unfolded log_ok_def]
  then have "take (length (entered h)) (drawn h) = entered h" by blast
  then have "take (Suc (length (entered h))) (drawn h) = entered h @ [t]"
    using assms(2-4) by (simp add: take_Suc_conv_app_nth)
  moreover from * have "take (length (gone h)) (drawn h) = gone h" by blast
  then have "entered h = gone h" using \<open>take (length (entered h)) (drawn h) = entered h\<close> assms(2) by simp
  ultimately show ?thesis unfolding log_ok_def using * assms(3) by (intro conjI) simp_all
qed

lemma log_ok_leave:
  assumes "log_ok ts tries h" "length (entered h) = Suc (length (gone h))" "drawn h ! length (gone h) = t"
  shows "log_ok ts tries (h\<lparr>gone := gone h @ [t]\<rparr>)"
proof -
  have l: "length (gone h) < length (drawn h)" using assms by (simp add: log_ok_def)
  then have "drop (length (gone h)) (drawn h) = t # drop (Suc (length (gone h))) (drawn h)"
    using assms(3) Cons_nth_drop_Suc by fastforce
  then show ?thesis using assms l by (auto simp: log_ok_def take_Suc_conv_app_nth)
qed

lemma ticket_inv_draw:
  assumes "ticket_inv ts tries seed (l, h)" "t \<in> ts" "t \<notin> set (drop (length (gone h)) (drawn h))"
    "tries \<longrightarrow> Suc (length (drawn h)) < 2 ^ 32"
  shows "ticket_inv ts tries seed (tgoto t (T_check (next_ticket l)) l\<lparr>next_ticket := next_ticket l + 1\<rparr>, h\<lparr>drawn := drawn h @ [t]\<rparr>)"
proof -
  from assms(1) have *: "log_ok ts tries h" "next_ticket l = seed + of_nat (length (drawn h))"
    "now_serving l = seed + of_nat (length (gone h))"
    "pcs_ok tries seed (tpc l) (drawn h) (length (entered h)) (length (gone h))" by (auto elim: ticket_invE)
  have "length (gone h) \<le> length (entered h)" "length (entered h) \<le> length (drawn h)" using *(1) by (simp_all add: log_ok_def)
  note p = pcs_ok_draw [OF *(4) assms(3) this]
  show ?thesis using log_ok_draw [OF *(1) assms(2-4)] p *(2,3) by (simp add: ticket_inv_def)
qed

lemma ticket_inv_enter:
  assumes "ticket_inv ts tries seed (l, h)" "length (entered h) = length (gone h)" "length (gone h) < length (drawn h)"
    "drawn h ! length (gone h) = t"
  shows "ticket_inv ts tries seed (tgoto t T_in l, h\<lparr>entered := entered h @ [t]\<rparr>)"
proof -
  from assms(1) have *: "log_ok ts tries h" "next_ticket l = seed + of_nat (length (drawn h))"
    "now_serving l = seed + of_nat (length (gone h))"
    "pcs_ok tries seed (tpc l) (drawn h) (length (entered h)) (length (gone h))" by (auto elim: ticket_invE)
  have "distinct (drop (length (gone h)) (drawn h))" using *(1) by (simp add: log_ok_def)
  note p = pcs_ok_enter [OF *(4) [unfolded assms(2)] assms(3) this, unfolded assms(4)]
  show ?thesis using log_ok_enter [OF *(1) assms(2-4)] p *(2,3) assms(2) by (simp add: ticket_inv_def)
qed

lemma ticket_inv_leave:
  assumes "ticket_inv ts tries seed (l, h)" "length (entered h) = Suc (length (gone h))" "drawn h ! length (gone h) = t"
  shows "ticket_inv ts tries seed (tgoto t T_out l\<lparr>now_serving := now_serving l + 1\<rparr>, h\<lparr>gone := gone h @ [t]\<rparr>)"
proof -
  from assms(1) have *: "log_ok ts tries h" "next_ticket l = seed + of_nat (length (drawn h))"
    "now_serving l = seed + of_nat (length (gone h))"
    "pcs_ok tries seed (tpc l) (drawn h) (length (entered h)) (length (gone h))" by (auto elim: ticket_invE)
  have "length (gone h) < length (drawn h)" "distinct (drop (length (gone h)) (drawn h))"
    using *(1) assms(2) by (simp_all add: log_ok_def)
  note p = pcs_ok_leave [OF *(4) [unfolded assms(2)] this, unfolded assms(3)]
  show ?thesis using log_ok_leave [OF *(1) assms(2,3)] p *(2,3) assms(2) by (simp add: ticket_inv_def)
qed

text \<open>A waiting thread whose ticket is shown is the first of the queue, and nobody is inside.\<close>

lemma ticket_turn:
  assumes "ticket_inv ts tries seed (l, h)" "finite ts" "card ts < 2 ^ 32"
    "tpc l t = T_check m \<or> tpc l t = T_spin m" "now_serving l = m"
  shows "length (entered h) = length (gone h)" "length (gone h) < length (drawn h)" "drawn h ! length (gone h) = t"
proof -
  from assms(1) have *: "log_ok ts tries h" "now_serving l = seed + of_nat (length (gone h))"
    "pcs_ok tries seed (tpc l) (drawn h) (length (entered h)) (length (gone h))" by (auto elim: ticket_invE)
  have "\<not> outside_ok seed (length (drawn h)) (length (gone h)) (tpc l t)" using assms(4) by auto
  with *(3) obtain i where i: "length (gone h) \<le> i" "i < length (drawn h)" "drawn h ! i = t"
    "queue_ok seed (length (entered h)) (length (gone h)) i (tpc l t)" by (rule pcs_ok_queued)
  have m: "m = seed + of_nat i" "length (entered h) \<le> i" using i(4) assms(4) by auto
  have "i - length (gone h) < 2 ^ 32" using log_window [OF *(1) assms(2)] assms(3) i by linarith
  moreover have "seed + of_nat (length (gone h)) = seed + of_nat i" using m(1) *(2) assms(5) by metis
  ultimately have e: "length (gone h) = i" using ticket_inject i(1) by blast
  have "length (gone h) \<le> length (entered h)" using *(1) unfolding log_ok_def by blast
  then show "length (entered h) = length (gone h)" using m(2) e by simp
  show "length (gone h) < length (drawn h)" "drawn h ! length (gone h) = t" using i(2,3) e by simp_all
qed

text \<open>A thread in \<open>unlock\<close> is the first of the queue.\<close>

lemma ticket_holder:
  assumes "ticket_inv ts tries seed (l, h)" "tpc l t = T_in \<or> tpc l t = T_unlock s \<or> tpc l t = T_serve s"
  shows "length (entered h) = Suc (length (gone h))" "length (gone h) < length (drawn h)" "drawn h ! length (gone h) = t"
    "tpc l t \<noteq> T_in \<Longrightarrow> s = now_serving l"
proof -
  from assms(1) have *: "log_ok ts tries h" "now_serving l = seed + of_nat (length (gone h))"
    "pcs_ok tries seed (tpc l) (drawn h) (length (entered h)) (length (gone h))" by (auto elim: ticket_invE)
  have "\<not> outside_ok seed (length (drawn h)) (length (gone h)) (tpc l t)" using assms(2) by auto
  with *(3) obtain i where i: "length (gone h) \<le> i" "i < length (drawn h)" "drawn h ! i = t"
    "queue_ok seed (length (entered h)) (length (gone h)) i (tpc l t)" by (rule pcs_ok_queued)
  then show "length (entered h) = Suc (length (gone h))" "length (gone h) < length (drawn h)" "drawn h ! length (gone h) = t"
    "tpc l t \<noteq> T_in \<Longrightarrow> s = now_serving l" using assms(2) *(2) by auto
qed

lemma ticket_inv_facts:
  assumes "ticket_inv ts tries seed (l, h)" "\<And>i. \<not> queue_ok seed (length (entered h)) (length (gone h)) i (tpc l t)"
  shows "t \<notin> set (drop (length (gone h)) (drawn h))"
    and "outside_ok seed (length (drawn h)) (length (gone h)) (tpc l t)" and "tries \<or> tpc l t = T_out"
  using pcs_ok_outside [of tries seed "tpc l" "drawn h" "length (entered h)" "length (gone h)" t] assms
  by (auto elim!: ticket_invE)

lemma ticket_log_bounds:
  assumes "ticket_inv ts tries seed (l, h)"
  shows "length (gone h) \<le> length (entered h)" "length (entered h) \<le> length (drawn h)" "tries \<Longrightarrow> length (drawn h) < 2 ^ 32"
    "next_ticket l = seed + of_nat (length (drawn h))" "now_serving l = seed + of_nat (length (gone h))"
  using assms unfolding ticket_inv_def log_ok_def by blast+

text \<open>A ticket that \<open>try_lock\<close> finds to be the next one is still the last drawn, and the queue is empty.\<close>

lemma ticket_try_free:
  assumes inv: "ticket_inv ts tries seed (l, h)" and p: "tpc l t = T_try_next (next_ticket l)"
  shows "tries" "outside_ok seed (length (drawn h)) (length (gone h)) (T_try_cas (next_ticket l))"
proof -
  have "outside_ok seed (length (drawn h)) (length (gone h)) (tpc l t)" "tries \<or> tpc l t = T_out"
    using ticket_inv_facts(2,3) [OF inv, of t] p by auto
  then obtain i where i: "i \<le> length (gone h)" "next_ticket l = seed + of_nat i" and t: tries using p by auto
  note b = ticket_log_bounds [OF inv]
  have "i = length (drawn h)"
    using i b(1,2) b(3) [OF t] b(4) by (intro ticket_inject [of seed]) auto
  then have "length (gone h) = length (drawn h)" using i b(1,2) by simp
  then show "outside_ok seed (length (drawn h)) (length (gone h)) (T_try_cas (next_ticket l))"
    using b(4) by (auto intro: exI [of _ "length (drawn h)"])
  show tries by (rule t)
qed

lemma ticket_try_won:
  assumes inv: "ticket_inv ts tries seed (l, h)" and p: "tpc l t = T_try_cas (next_ticket l)"
  shows "length (gone h) = length (drawn h)"
proof -
  have "outside_ok seed (length (drawn h)) (length (gone h)) (tpc l t)" "tries \<or> tpc l t = T_out"
    using ticket_inv_facts(2,3) [OF inv, of t] p by auto
  then obtain i where i: "i \<le> length (drawn h)" "next_ticket l = seed + of_nat i" "i = length (drawn h) \<longrightarrow> length (gone h) = length (drawn h)"
    and t: tries using p by auto
  note b = ticket_log_bounds [OF inv]
  have "i = length (drawn h)" using i b(3) [OF t] b(4) by (intro ticket_inject [of seed]) auto
  then show ?thesis using i(3) by simp
qed

lemma ticket_no_misuse:
  assumes inv: "ticket_inv ts tries seed (l, h)" and fin: "finite ts" "card ts < 2 ^ 32" and p: "tpc l t = T_unlock s"
  shows "s \<noteq> next_ticket l"
proof
  assume s: "s = next_ticket l"
  note b = ticket_log_bounds [OF inv] and k = ticket_holder [OF inv, of t s]
  have lt: "length (gone h) < length (drawn h)" and sv: "s = now_serving l" using k p by auto
  have "length (drawn h) - length (gone h) < 2 ^ 32"
    using log_window [of ts tries h] inv fin by (auto elim!: ticket_invE)
  moreover have "seed + of_nat (length (gone h)) = seed + of_nat (length (drawn h))" using s sv b(4,5) by metis
  ultimately have "length (gone h) = length (drawn h)" using ticket_inject lt by (metis less_imp_le)
  then show False using lt by simp
qed

lemma ticket_step_inv:
  assumes inv: "ticket_inv ts tries seed (l, h)" and fin: "finite ts" "card ts < 2 ^ 32"
    and st: "ticket_step ts tries l e l'" and b: "tries \<longrightarrow> length (drawn (ticket_note e h)) < 2 ^ 32"
  shows "ticket_inv ts tries seed (l', ticket_note e h)"
  using st
proof cases
  case (draw t my)
  then have "t \<notin> set (drop (length (gone h)) (drawn h))" using ticket_inv_facts(1) [OF inv, of t] by auto
  then show ?thesis using ticket_inv_draw [OF inv] draw b by simp
next
  case (check_mine t my)
  then show ?thesis using ticket_inv_enter [OF inv ticket_turn [OF inv fin, of t my]] by simp
next
  case (check_wait t my)
  have "pcs_ok tries seed (tpc l) (drawn h) (length (entered h)) (length (gone h))" using inv by (auto elim: ticket_invE)
  then obtain i where "length (gone h) \<le> i" "i < length (drawn h)" "drawn h ! i = t"
    "queue_ok seed (length (entered h)) (length (gone h)) i (tpc l t)" by (rule pcs_ok_queued [of _ _ _ _ _ _ t]) (simp add: check_wait)
  then show ?thesis using ticket_inv_move_queued [OF inv] check_wait by simp
next
  case (spin_mine t my)
  then show ?thesis using ticket_inv_enter [OF inv ticket_turn [OF inv fin, of t my]] by simp
next
  case (spin_wait t my) then show ?thesis using inv by simp
next
  case (unlock_read t s)
  note k = ticket_holder [OF inv, of t 0] and n = ticket_log_bounds(5) [OF inv]
  have "ticket_inv ts tries seed (tgoto t (T_unlock s) l, h)"
    using k unlock_read n by (intro ticket_inv_move_queued [OF inv, of "length (gone h)"]) auto
  then show ?thesis using unlock_read by simp
next
  case (unlock_misuse t s) then show ?thesis using ticket_no_misuse [OF inv fin] by blast
next
  case (unlock_held t s)
  note k = ticket_holder [OF inv, of t s] and n = ticket_log_bounds(5) [OF inv]
  have "ticket_inv ts tries seed (tgoto t (T_serve s) l, h)"
    using k unlock_held(3) n by (intro ticket_inv_move_queued [OF inv, of "length (gone h)"]) auto
  then show ?thesis using unlock_held by simp
next
  case (unlock_serve t s)
  note k = ticket_holder [OF inv, of t s]
  have "s = now_serving l" using k(4) unlock_serve by simp
  then show ?thesis using ticket_inv_leave [OF inv, of t] k unlock_serve by simp
next
  case (try_call t)
  then show ?thesis using ticket_inv_move_outside [OF inv, of t T_try] ticket_inv_facts(1) [OF inv, of t] by simp
next
  case (try_read t s)
  note f = ticket_inv_facts [OF inv, of t]
  have "ticket_inv ts tries seed (tgoto t (T_try_next s) l, h)"
    using f try_read ticket_log_bounds(5) [OF inv] by (intro ticket_inv_move_outside [OF inv]) auto
  then show ?thesis using try_read by simp
next
  case (try_held t s)
  then show ?thesis using ticket_inv_move_outside [OF inv, of t T_out] ticket_inv_facts(1) [OF inv, of t] by simp
next
  case (try_free t s n)
  note f = ticket_inv_facts(1) [OF inv, of t] and g = ticket_try_free [OF inv, of t]
  have "ticket_inv ts tries seed (tgoto t (T_try_cas n) l, h)"
    using f g try_free by (intro ticket_inv_move_outside [OF inv]) auto
  then show ?thesis using try_free by simp
next
  case (try_lost t n)
  then show ?thesis using ticket_inv_move_outside [OF inv, of t T_out] ticket_inv_facts(1) [OF inv, of t] by simp
next
  case (try_won t n)
  then have g: "length (gone h) = length (drawn h)" using ticket_try_won [OF inv, of t] by simp
  then have e: "length (entered h) = length (drawn h)" using ticket_log_bounds(1,2) [OF inv] by simp
  let ?l = "tgoto t (T_check n) l\<lparr>next_ticket := n + 1\<rparr>" and ?h = "h\<lparr>drawn := drawn h @ [t]\<rparr>"
  have "ticket_inv ts tries seed (?l, ?h)"
    using ticket_inv_draw [OF inv, of t] try_won g b by simp
  then have "ticket_inv ts tries seed (tgoto t T_in ?l, ?h\<lparr>entered := entered ?h @ [t]\<rparr>)"
    using g e by (intro ticket_inv_enter) auto
  moreover have "tgoto t T_in ?l = l'" using try_won by (simp add: tgoto_def)
  ultimately show ?thesis using try_won by simp
qed

subsection \<open>Exclusion and order\<close>

lemma ticket_inv_start: "ticket_start seed x \<Longrightarrow> ticket_inv ts tries seed x"
  by (auto simp: ticket_start_def ticket_new_def ticket_inv_def log_ok_def pcs_ok_def)

definition ticket_inside :: "'t ticket_lock \<Rightarrow> 't \<Rightarrow> bool" where
  "ticket_inside l t \<longleftrightarrow> tpc l t = T_in \<or> (\<exists>s. tpc l t = T_unlock s \<or> tpc l t = T_serve s)"

lemma ticket_inside_first:
  "ticket_inv ts tries seed (l, h) \<Longrightarrow> ticket_inside l t \<Longrightarrow> drawn h ! length (gone h) = t"
  unfolding ticket_inside_def using ticket_holder(3) by metis

text \<open>The number of threads is below the number of tickets.\<close>

definition ticket_threads :: "'t set \<Rightarrow> bool" where
  "ticket_threads ts \<longleftrightarrow> finite ts \<and> card ts < 2 ^ 32"

interpretation tkt: exclusive_lock "ticket_start seed" "\<lambda>x y. ticket_threads ts \<and> ticket_logged_step ts tries x y \<and> tickets_fit tries (snd y)"
  "ticket_inv ts tries seed" "\<lambda>x. ticket_inside (fst x)" for seed :: u32 and ts :: "'t set" and tries
proof unfold_locales
  show "ticket_start seed x \<Longrightarrow> ticket_inv ts tries seed x" for x by (rule ticket_inv_start)
  show "ticket_inv ts tries seed y"
    if "ticket_inv ts tries seed x" "ticket_threads ts \<and> ticket_logged_step ts tries x y \<and> tickets_fit tries (snd y)" for x y
    using that ticket_step_inv [of ts tries seed "fst x" "snd x" _ "fst y"]
    unfolding ticket_logged_step_def ticket_threads_def tickets_fit_def by (metis prod.collapse)
  show "t = u" if "ticket_inv ts tries seed x" "ticket_inside (fst x) t" "ticket_inside (fst x) u" for x t u
    using that ticket_inside_first [of ts tries seed "fst x" "snd x"] by auto
qed

lemma drawn_grows: "ticket_logged_step ts tries x y \<Longrightarrow> length (drawn (snd x)) \<le> length (drawn (snd y))"
  unfolding ticket_logged_step_def by (elim exE conjE, erule ticket_step.cases) simp_all

lemma ticket_runs:
  assumes thr: "ticket_threads ts" and start: "ticket_start seed x" and run: "(ticket_logged_step ts tries)\<^sup>*\<^sup>* x y" and fit: "tickets_fit tries (snd y)"
  shows "ticket_inv ts tries seed y"
proof -
  let ?S = "\<lambda>x y. ticket_threads ts \<and> ticket_logged_step ts tries x y \<and> tickets_fit tries (snd y)"
  from run fit have "?S\<^sup>*\<^sup>* x y"
  proof (induction rule: rtranclp_induct)
    case (step y z)
    then have "tickets_fit tries (snd y)" using drawn_grows [of ts tries y z] by (auto simp: tickets_fit_def)
    then show ?case using step thr by (auto intro: rtranclp.rtrancl_into_rtrancl)
  qed simp
  then show ?thesis by (rule tkt.reach_inv [OF start])
qed

subsection \<open>Progress\<close>

lemma ticket_logged_stepI:
  assumes "ticket_step ts tries l e l'" "h' = ticket_note e h"
  shows "ticket_logged_step ts tries (l, h) (l', h')"
  using assms by (auto simp: ticket_logged_step_def)

lemma ticket_queue_pc:
  assumes "ticket_inv ts tries seed (l, h)" "length (gone h) \<le> i" "i < length (drawn h)"
  shows "queue_ok seed (length (entered h)) (length (gone h)) i (tpc l (drawn h ! i))"
  using assms by (auto simp: ticket_inv_def pcs_ok_def)

text \<open>When nobody is inside, the first of the queue enters with its next step.\<close>

lemma ticket_first_enters:
  assumes inv: "ticket_inv ts tries seed (l, h)" and e: "length (entered h) = length (gone h)" "length (gone h) < length (drawn h)"
  defines "t \<equiv> drawn h ! length (gone h)"
  shows "ticket_logged_step ts tries (l, h) (tgoto t T_in l, h\<lparr>entered := entered h @ [t]\<rparr>)"
proof -
  have q: "queue_ok seed (length (gone h)) (length (gone h)) (length (gone h)) (tpc l t)"
    using ticket_queue_pc [OF inv, of "length (gone h)"] e unfolding t_def by simp
  have "ticket_step ts tries l (Entered t) (tgoto t T_in l)"
  proof (cases "tpc l t")
    case (T_check m) then show ?thesis using q ticket_log_bounds(5) [OF inv] by (intro check_mine) auto
  next
    case (T_spin m) then show ?thesis using q ticket_log_bounds(5) [OF inv] by (intro spin_mine) auto
  qed (use q in auto)
  then show ?thesis by (rule ticket_logged_stepI) simp_all
qed

text \<open>The thread inside leaves with at most three steps of its own.\<close>

lemma ticket_holder_leaves:
  assumes thr: "ticket_threads ts" and inv: "ticket_inv ts tries seed (l, h)" and e: "length (entered h) = Suc (length (gone h))"
  shows "\<exists>l' h'. (ticket_logged_step ts tries)\<^sup>*\<^sup>* (l, h) (l', h') \<and> ticket_inv ts tries seed (l', h') \<and>
    drawn h' = drawn h \<and> entered h' = entered h \<and> length (gone h') = Suc (length (gone h))"
proof -
  let ?S = "ticket_logged_step ts tries"
  define t where "t = drawn h ! length (gone h)"
  have fin: "finite ts" "card ts < 2 ^ 32" using thr by (simp_all add: ticket_threads_def)
  have G: "length (gone h) < length (drawn h)" using e ticket_log_bounds(2) [OF inv] by simp
  have tau: "?S (k, h) (tgoto t p k, h) \<and> ticket_inv ts tries seed (tgoto t p k, h)"
    if "ticket_inv ts tries seed (k, h)" "ticket_step ts tries k T_tau (tgoto t p k)" for k p
    using ticket_logged_stepI [OF that(2), of _ h] ticket_step_inv [OF that(1) fin that(2)] ticket_log_bounds(3) [OF that(1)] by simp
  have serve: ?thesis if k: "?S\<^sup>*\<^sup>* (l, h) (k, h)" "ticket_inv ts tries seed (k, h)" "tpc k t = T_serve s" for k s
  proof -
    have st: "ticket_step ts tries k (Left t) (tgoto t T_out k\<lparr>now_serving := s + 1\<rparr>)" using k(3) by (rule unlock_serve)
    note ticket_logged_stepI [OF st refl, of h] ticket_step_inv [OF k(2) fin st] ticket_log_bounds(3) [OF k(2)]
    then show ?thesis using k(1)
      by (intro exI [of _ "tgoto t T_out k\<lparr>now_serving := s + 1\<rparr>"] exI [of _ "h\<lparr>gone := gone h @ [t]\<rparr>"])
        (auto intro: rtranclp.rtrancl_into_rtrancl)
  qed
  have unlock: ?thesis if k: "?S\<^sup>*\<^sup>* (l, h) (k, h)" "ticket_inv ts tries seed (k, h)" "tpc k t = T_unlock s" for k s
  proof -
    have "ticket_step ts tries k T_tau (tgoto t (T_serve s) k)"
      using k(3) ticket_no_misuse [OF k(2) fin k(3)] by (rule unlock_held)
    note * = tau [OF k(2) this]
    then show ?thesis using k(1) by (intro serve [of "tgoto t (T_serve s) k" s]) auto
  qed
  have "queue_ok seed (Suc (length (gone h))) (length (gone h)) (length (gone h)) (tpc l t)"
    using ticket_queue_pc [OF inv, of "length (gone h)"] G e by (simp add: t_def)
  then consider "tpc l t = T_in" | s where "tpc l t = T_unlock s" | s where "tpc l t = T_serve s"
    by (cases "tpc l t") auto
  then show ?thesis
  proof cases
    case 1
    then have "ticket_step ts tries l T_tau (tgoto t (T_unlock (now_serving l)) l)" by (rule unlock_read) simp
    note * = tau [OF inv this]
    then show ?thesis by (intro unlock [of "tgoto t (T_unlock (now_serving l)) l" "now_serving l"]) auto
  next
    case 2 then show ?thesis by (rule unlock [OF rtranclp.rtrancl_refl inv])
  next
    case 3 then show ?thesis by (rule serve [OF rtranclp.rtrancl_refl inv])
  qed
qed

lemma ticket_waiter_enters:
  assumes thr: "ticket_threads ts"
  shows "ticket_inv ts tries seed (l, h) \<Longrightarrow> length (entered h) \<le> i \<Longrightarrow> i < length (drawn h) \<Longrightarrow>
    \<exists>y. (ticket_logged_step ts tries)\<^sup>*\<^sup>* (l, h) y \<and> tpc (fst y) (drawn h ! i) = T_in \<and> drawn (snd y) = drawn h"
proof (induction "i - length (gone h)" arbitrary: l h rule: less_induct)
  case less
  note inv = less.prems(1) and b = ticket_log_bounds [OF less.prems(1)]
  have fin: "finite ts" "card ts < 2 ^ 32" using thr by (simp_all add: ticket_threads_def)
  have le: "length (entered h) = length (gone h) \<or> length (entered h) = Suc (length (gone h))"
    using inv by (auto simp: ticket_inv_def log_ok_def)
  have leave: ?case if k: "(ticket_logged_step ts tries)\<^sup>*\<^sup>* (l, h) (k, j)" "ticket_inv ts tries seed (k, j)"
    "drawn j = drawn h" "gone j = gone h" "length (entered j) = Suc (length (gone h))" "length (gone h) < i" for k j
  proof -
    obtain l' h' where h': "(ticket_logged_step ts tries)\<^sup>*\<^sup>* (k, j) (l', h')" "ticket_inv ts tries seed (l', h')"
      "drawn h' = drawn h" "entered h' = entered j" "length (gone h') = Suc (length (gone h))"
      using ticket_holder_leaves [OF thr k(2)] k by auto
    then obtain y where "(ticket_logged_step ts tries)\<^sup>*\<^sup>* (l', h') y" "tpc (fst y) (drawn h ! i) = T_in" "drawn (snd y) = drawn h"
      using less.hyps [of h' l'] less.prems(3) k(5,6) by (metis Suc_leI diff_less_mono2 lessI)
    then show ?thesis using k(1) h'(1) by (meson rtranclp_trans)
  qed
  show ?case
  proof (cases "length (entered h) = length (gone h)")
    case True
    have lt: "length (gone h) < length (drawn h)" using less.prems True by simp
    let ?t = "drawn h ! length (gone h)"
    let ?y = "(tgoto ?t T_in l, h\<lparr>entered := entered h @ [?t]\<rparr>)"
    have st: "ticket_logged_step ts tries (l, h) ?y" by (rule ticket_first_enters [OF inv True lt])
    have inv': "ticket_inv ts tries seed ?y" by (rule ticket_inv_enter [OF inv True lt refl])
    show ?thesis
    proof (cases "i = length (gone h)")
      case True then show ?thesis using st by (intro exI [of _ ?y]) auto
    next
      case False then show ?thesis using st inv' less.prems True by (intro leave [of "fst ?y" "snd ?y"]) auto
    qed
  next
    case False
    then show ?thesis using le less.prems by (intro leave [of l h]) auto
  qed
qed

lemma ticket_queued_count:
  assumes "ticket_threads ts" "ticket_inv ts tries seed (l, h)"
  shows "unat (ticket_queued l) = length (drawn h) - length (gone h)"
    and "ticket_is_locked l \<longleftrightarrow> length (gone h) < length (drawn h)"
proof -
  note b = ticket_log_bounds [OF assms(2)]
  have le: "length (gone h) \<le> length (drawn h)" using b by simp
  have lt: "length (drawn h) - length (gone h) < 2 ^ 32"
    using log_window [of ts tries h] assms by (auto elim!: ticket_invE simp: ticket_threads_def)
  have "ticket_queued l = of_nat (length (drawn h) - length (gone h))"
    using b(4,5) le by (simp add: ticket_queued_def of_nat_diff)
  then show u: "unat (ticket_queued l) = length (drawn h) - length (gone h)"
    using lt by (simp add: unsigned_of_nat take_bit_nat_eq_self)
  have "ticket_is_locked l \<longleftrightarrow> ticket_queued l \<noteq> 0" by (auto simp: ticket_is_locked_def ticket_queued_def)
  also have "\<dots> \<longleftrightarrow> unat (ticket_queued l) \<noteq> 0" by (simp add: unat_eq_0)
  finally show "ticket_is_locked l \<longleftrightarrow> length (gone h) < length (drawn h)" unfolding u by auto
qed

lemma ticket_pauses_bound: "ticket_pauses my s \<le> 512"
proof -
  have "x * 8 \<le> (512 :: u32)" if "x \<le> 64" for x :: u32
  proof -
    have u: "unat x \<le> 64" using that by (simp add: word_le_nat_alt)
    have "unat (x * 8) \<le> unat x * 8" by (simp add: unat_word_ariths)
    then show ?thesis using u by (simp add: word_le_nat_alt)
  qed
  from this [of "my - s"] show ?thesis unfolding ticket_pauses_def Let_def by (cases "my - s \<le> 64") (simp_all add: not_le)
qed

lemma ticket_inv_misuse:
  assumes "ticket_threads ts" "ticket_inv ts tries seed (l, h)" "ticket_step ts tries l e l'"
  shows "e \<noteq> Misused t"
  using assms(3) ticket_no_misuse [OF assms(2)] assms(1) by cases (auto simp: ticket_threads_def)

subsection \<open>A full turn under \<open>try_lock\<close>\<close>

abbreviation no_tickets :: "'t ticket_log" where
  "no_tickets \<equiv> \<lparr>drawn = [], entered = [], gone = []\<rparr>"

text \<open>A thread draws, enters and leaves while nobody else moves.\<close>

lemma ticket_round:
  assumes "b \<in> ts" "tpc l b = T_out" "next_ticket l = k" "now_serving l = k"
  shows "(ticket_logged_step ts tries)\<^sup>*\<^sup>* (l, h)
    (l\<lparr>next_ticket := k + 1, now_serving := k + 1\<rparr>, h\<lparr>drawn := drawn h @ [b], entered := entered h @ [b], gone := gone h @ [b]\<rparr>)"
proof -
  let ?S = "(ticket_logged_step ts tries)\<^sup>*\<^sup>*" and ?l = "l\<lparr>next_ticket := k + 1\<rparr>"
  let ?d = "h\<lparr>drawn := drawn h @ [b]\<rparr>"
  let ?e = "?d\<lparr>entered := entered h @ [b]\<rparr>"
  have s1: "?S (l, h) (tgoto b (T_check k) ?l, ?d)"
    using r_into_rtranclp [of "ticket_logged_step ts tries", OF ticket_logged_stepI, OF draw [of b ts l k] refl, of h] assms
    by (cases l) (simp add: tgoto_def)
  have s2: "?S (tgoto b (T_check k) ?l, ?d) (tgoto b T_in ?l, ?e)"
    using r_into_rtranclp [of "ticket_logged_step ts tries", OF ticket_logged_stepI, OF check_mine [of "tgoto b (T_check k) ?l" b k] refl, of ?d] assms
    by (simp add: tgoto_def)
  have s3: "?S (tgoto b T_in ?l, ?e) (tgoto b (T_unlock k) ?l, ?e)"
    using r_into_rtranclp [of "ticket_logged_step ts tries", OF ticket_logged_stepI, OF unlock_read [of "tgoto b T_in ?l" b k] refl, of ?e] assms
    by (simp add: tgoto_def)
  have s4: "?S (tgoto b (T_unlock k) ?l, ?e) (tgoto b (T_serve k) ?l, ?e)"
    using r_into_rtranclp [of "ticket_logged_step ts tries", OF ticket_logged_stepI, OF unlock_held [of "tgoto b (T_unlock k) ?l" b k] refl, of ?e] assms
    by (simp add: tgoto_def)
  have s5: "?S (tgoto b (T_serve k) ?l, ?e) (l\<lparr>next_ticket := k + 1, now_serving := k + 1\<rparr>, ?e\<lparr>gone := gone h @ [b]\<rparr>)"
    using r_into_rtranclp [of "ticket_logged_step ts tries", OF ticket_logged_stepI, OF unlock_serve [of "tgoto b (T_serve k) ?l" b k] refl, of ?e] assms
    by (simp add: tgoto_def fun_upd_idem)
  show ?thesis using rtranclp_trans [OF s1 rtranclp_trans [OF s2 rtranclp_trans [OF s3 rtranclp_trans [OF s4 s5]]]] by simp
qed

lemma ticket_rounds:
  assumes "b \<in> ts" "tpc l b = T_out" "next_ticket l = k" "now_serving l = k"
  shows "\<exists>h'. (ticket_logged_step ts tries)\<^sup>*\<^sup>* (l, h) (l\<lparr>next_ticket := k + of_nat m, now_serving := k + of_nat m\<rparr>, h') \<and>
    length (drawn h') = length (drawn h) + m"
proof (induction m)
  case 0
  have "l\<lparr>next_ticket := k, now_serving := k\<rparr> = l" using assms by simp
  then show ?case by (intro exI [of _ h]) simp
next
  case (Suc m)
  let ?l = "\<lambda>m. l\<lparr>next_ticket := k + of_nat m, now_serving := k + of_nat m\<rparr>"
  obtain h' where h': "(ticket_logged_step ts tries)\<^sup>*\<^sup>* (l, h) (?l m, h')" "length (drawn h') = length (drawn h) + m" using Suc by blast
  let ?h = "h'\<lparr>drawn := drawn h' @ [b], entered := entered h' @ [b], gone := gone h' @ [b]\<rparr>"
  have "(ticket_logged_step ts tries)\<^sup>*\<^sup>* (?l m, h') (?l (Suc m), ?h)"
    using ticket_round [of b ts "?l m" "k + of_nat m" tries h'] assms by (simp add: add.assoc add.commute [of 1])
  then show ?case using h' by (intro exI [of _ ?h]) (auto intro: rtranclp_trans)
qed

text \<open>A thread that has read the counter in \<open>try_lock\<close> sleeps while another draws \<open>2\<^sup>32\<close> tickets and keeps the last: its compare-and-swap then succeeds.\<close>

lemma ticket_turn_breaks:
  assumes "a \<in> ts" "b \<in> ts" "a \<noteq> b"
  shows "\<exists>l h. (ticket_logged_step ts True)\<^sup>*\<^sup>* (ticket_new seed, no_tickets) (l, h) \<and> length (drawn h) = 2 ^ 32 + 1 \<and> tpc l a = T_in \<and> tpc l b = T_in"
proof -
  let ?S = "(ticket_logged_step ts True)\<^sup>*\<^sup>*" and ?l = "ticket_new seed"
  note step = r_into_rtranclp [of "ticket_logged_step ts True", OF ticket_logged_stepI, OF _ refl]
  have s1: "?S (?l, no_tickets) (tgoto a T_try ?l, no_tickets)"
    using step [OF try_call [of a ts True ?l], of no_tickets] assms(1) by (simp add: ticket_new_def)
  have s2: "?S (tgoto a T_try ?l, no_tickets) (tgoto a (T_try_next seed) ?l, no_tickets)"
    using step [OF try_read [of "tgoto a T_try ?l" a seed], of no_tickets] by (simp add: ticket_new_def tgoto_def)
  have s3: "?S (tgoto a (T_try_next seed) ?l, no_tickets) (tgoto a (T_try_cas seed) ?l, no_tickets)"
    using step [OF try_free [of "tgoto a (T_try_next seed) ?l" a seed seed], of no_tickets] by (simp add: ticket_new_def tgoto_def)
  note start = rtranclp_trans [OF s1 rtranclp_trans [OF s2 s3]]
  let ?m = "(2 :: nat) ^ 32 - 1"
  let ?t = "tgoto a (T_try_cas seed) ?l\<lparr>next_ticket := seed + of_nat ?m, now_serving := seed + of_nat ?m\<rparr>"
  obtain h where h: "?S (tgoto a (T_try_cas seed) ?l, no_tickets) (?t, h)" "length (drawn h) = ?m"
    using ticket_rounds [of b ts "tgoto a (T_try_cas seed) ?l" seed True no_tickets ?m] assms(2,3) by (auto simp: ticket_new_def tgoto_def)
  have turn: "(4294967296 :: u32) = 0" by simp
  let ?d = "tgoto b (T_check (seed + of_nat ?m)) ?t\<lparr>next_ticket := seed\<rparr>"
  have s4: "?S (?t, h) (?d, h\<lparr>drawn := drawn h @ [b]\<rparr>)"
    using step [OF draw [of b ts ?t "seed + of_nat ?m"], of h] assms(2,3) turn by (simp add: ticket_new_def tgoto_def)
  have s5: "?S (?d, h\<lparr>drawn := drawn h @ [b]\<rparr>) (tgoto b T_in ?d, h\<lparr>drawn := drawn h @ [b], entered := entered h @ [b]\<rparr>)"
    using step [OF check_mine [of ?d b "seed + of_nat ?m"], of "h\<lparr>drawn := drawn h @ [b]\<rparr>"] by (simp add: ticket_new_def tgoto_def)
  have s6: "?S (tgoto b T_in ?d, h\<lparr>drawn := drawn h @ [b], entered := entered h @ [b]\<rparr>) (tgoto a T_in (tgoto b T_in ?d)\<lparr>next_ticket := seed + 1\<rparr>, h\<lparr>drawn := drawn h @ [b, a], entered := entered h @ [b, a]\<rparr>)"
    using step [OF try_won [of a ts "tgoto b T_in ?d" seed], of "h\<lparr>drawn := drawn h @ [b], entered := entered h @ [b]\<rparr>"] assms
    by (simp add: ticket_new_def tgoto_def)
  show ?thesis using rtranclp_trans [OF start rtranclp_trans [OF h(1) rtranclp_trans [OF s4 rtranclp_trans [OF s5 s6]]]] h(2) assms(3)
    by (intro exI [of _ "tgoto a T_in (tgoto b T_in ?d)\<lparr>next_ticket := seed + 1\<rparr>"] exI [of _ "h\<lparr>drawn := drawn h @ [b, a], entered := entered h @ [b, a]\<rparr>"])
      (simp add: tgoto_def)
qed

subsection \<open>Properties\<close>

text \<open>C8: On every run of the ticket lock with fewer than \<open>2\<^sup>32\<close> threads which does not call \<open>try_lock\<close>, over any number of turns of the 32-bit counters, and on
  every run with \<open>try_lock\<close> that draws fewer than \<open>2\<^sup>32\<close> tickets, at most one thread is inside, threads enter and leave in the order in which they
  drew their tickets, \<open>queued\<close> counts those that have drawn and not left, \<open>is_locked\<close> says whether there are any, an \<open>unlock\<close> by the
  holder is never taken for misuse, and a waiting thread pauses at most 512 times between two looks.  The limit on \<open>try_lock\<close> is needed: once the counter has
  made a full turn between the read and the compare-and-swap of \<open>try_lock\<close>, two threads can be inside.\<close>

theorem ticket_lock_fifo:
  assumes "ticket_threads ts" "ticket_start seed x" "(ticket_logged_step ts tries)\<^sup>*\<^sup>* x (l, h)" "tries \<longrightarrow> length (drawn h) < 2 ^ 32"
  shows "(\<forall>t u. ticket_inside l t \<and> ticket_inside l u \<longrightarrow> t = u)
       \<and> entered h = take (length (entered h)) (drawn h) \<and> gone h = take (length (gone h)) (entered h)
       \<and> length (entered h) \<le> Suc (length (gone h))
       \<and> unat (ticket_queued l) = length (drawn h) - length (gone h)
       \<and> (ticket_is_locked l \<longleftrightarrow> length (gone h) < length (drawn h))
       \<and> (\<forall>e l' t. ticket_step ts tries l e l' \<longrightarrow> e \<noteq> Misused t)
       \<and> (\<forall>my s. ticket_pauses my s \<le> 512)
       \<and> (\<forall>a \<in> ts. \<forall>b \<in> ts. a \<noteq> b \<longrightarrow> (\<exists>l' h'. (ticket_logged_step ts True)\<^sup>*\<^sup>* x (l', h') \<and> length (drawn h') = 2 ^ 32 + 1 \<and>
            ticket_inside l' a \<and> ticket_inside l' b))"
proof -
  have inv: "ticket_inv ts tries seed (l, h)" using ticket_runs [OF assms(1-3)] assms(4) by (simp add: tickets_fit_def)
  then have lo: "log_ok ts tries h" by (rule ticket_invE)
  have en: "take (length (entered h)) (drawn h) = entered h" "take (length (gone h)) (drawn h) = gone h"
    "length (gone h) \<le> length (entered h)" "length (entered h) \<le> Suc (length (gone h))"
    using lo unfolding log_ok_def by blast+
  have "take (length (gone h)) (entered h) = take (length (gone h)) (take (length (entered h)) (drawn h))" using en(1) by simp
  also have "\<dots> = gone h" using en(2,3) by (simp add: min_def)
  finally have "gone h = take (length (gone h)) (entered h)" by simp
  moreover have "\<forall>t u. ticket_inside l t \<and> ticket_inside l u \<longrightarrow> t = u" using ticket_inside_first [OF inv] by blast
  moreover have "\<forall>a \<in> ts. \<forall>b \<in> ts. a \<noteq> b \<longrightarrow> (\<exists>l' h'. (ticket_logged_step ts True)\<^sup>*\<^sup>* x (l', h') \<and> length (drawn h') = 2 ^ 32 + 1 \<and>
      ticket_inside l' a \<and> ticket_inside l' b)"
    using ticket_turn_breaks assms(2) unfolding ticket_start_def ticket_inside_def by metis
  ultimately show ?thesis
    using ticket_queued_count [OF assms(1) inv] ticket_inv_misuse [OF assms(1) inv] en ticket_pauses_bound by metis
qed

lemma ticket_demo_run:
  "(ticket_logged_step {0 :: nat, 1} True)\<^sup>*\<^sup>* (ticket_new 5, no_tickets)
     (tgoto 0 (T_check 5) (ticket_new 5)\<lparr>next_ticket := 6\<rparr>, \<lparr>drawn = [0], entered = [], gone = []\<rparr>)"
proof -
  have "ticket_step {0 :: nat, 1} True (ticket_new 5) (Drew 0) (tgoto 0 (T_check 5) (ticket_new 5)\<lparr>next_ticket := 5 + 1\<rparr>)"
    by (rule draw) (simp_all add: ticket_new_def)
  then have "ticket_logged_step {0 :: nat, 1} True (ticket_new 5, no_tickets)
     (tgoto 0 (T_check 5) (ticket_new 5)\<lparr>next_ticket := 6\<rparr>, \<lparr>drawn = [0], entered = [], gone = []\<rparr>)"
    by (auto simp: ticket_logged_step_def)
  then show ?thesis by blast
qed

theorem ticket_lock_fifo_witness:
  "unat (ticket_queued (tgoto (0 :: nat) (T_check 5) (ticket_new 5)\<lparr>next_ticket := 6\<rparr>)) = 1"
proof -
  have "ticket_threads {0 :: nat, 1}" by (simp add: ticket_threads_def)
  from ticket_lock_fifo [OF this _ ticket_demo_run, of 5] show ?thesis by (simp add: ticket_start_def)
qed

text \<open>C28: No thread that has drawn a ticket is shut out: from every reachable state in which it waits (reached with fewer than \<open>2\<^sup>32\<close> tickets if
  \<open>try_lock\<close> is called), the threads before it can leave, one after another, and it then enters, without any thread drawing a ticket.\<close>

theorem ticket_lock_progress:
  assumes "ticket_threads ts" "ticket_start seed x" "(ticket_logged_step ts tries)\<^sup>*\<^sup>* x (l, h)" "tries \<longrightarrow> length (drawn h) < 2 ^ 32"
    "tpc l t = T_check my \<or> tpc l t = T_spin my"
  shows "\<exists>y. (ticket_logged_step ts tries)\<^sup>*\<^sup>* (l, h) y \<and> tpc (fst y) t = T_in \<and> drawn (snd y) = drawn h"
proof -
  have inv: "ticket_inv ts tries seed (l, h)" using ticket_runs [OF assms(1-3)] assms(4) by (simp add: tickets_fit_def)
  then have "pcs_ok tries seed (tpc l) (drawn h) (length (entered h)) (length (gone h))" by (rule ticket_invE)
  moreover have "\<not> outside_ok seed (length (drawn h)) (length (gone h)) (tpc l t)" using assms(5) by auto
  ultimately obtain i where i: "i < length (drawn h)" "drawn h ! i = t" "queue_ok seed (length (entered h)) (length (gone h)) i (tpc l t)"
    by (rule pcs_ok_queued)
  then have "length (entered h) \<le> i" using assms(5) by auto
  from ticket_waiter_enters [OF assms(1) inv this i(1)] show ?thesis unfolding i(2) .
qed

theorem ticket_lock_progress_witness:
  "\<exists>y. (ticket_logged_step {0 :: nat, 1} True)\<^sup>*\<^sup>*
      (tgoto 0 (T_check 5) (ticket_new 5)\<lparr>next_ticket := 6\<rparr>, \<lparr>drawn = [0], entered = [], gone = []\<rparr>) y \<and> tpc (fst y) 0 = T_in \<and> drawn (snd y) = [0]"
proof -
  have "ticket_threads {0 :: nat, 1}" by (simp add: ticket_threads_def)
  from ticket_lock_progress [OF this _ ticket_demo_run, of 5 0 5] show ?thesis by (simp add: ticket_start_def)
qed

end
