(* ===== verification/Lock_Shared.thy ===== *)
theory Lock_Shared
  imports Lock_Base
begin

text \<open>
  The reader-writer lock of \<^verbatim>\<open>src/src/mutex/locks/shared_mutex.hpp\<close>.  One 32-bit word holds the writer bit and the number of readers,
  another counts the writers that wait; threads that cannot enter may go to sleep on the first word (\<^verbatim>\<open>__park_on\<close>), which the
  kernel does only while the word still has the value they saw.
\<close>

unbundle bit_operations_syntax

subsection \<open>The lock\<close>

definition wr_bit :: u32 where
  "wr_bit = 0x80000000"

definition reader_mask :: u32 where
  "reader_mask = 0x7FFFFFFF"

datatype shared_pc =
    S_out
  | W_read
  | W_seen u32
  | W_parked
  | W_dec
  | W_in
  | R_check
  | R_read
  | R_seen u32
  | R_parked
  | R_cas u32
  | R_in
  | R_undo
  | RT_read
  | RT_cas u32
  | S_wake

record 't shared_mutex =
  word_s :: u32
  word_ww :: u32
  spc :: "'t \<Rightarrow> shared_pc"

definition shared_new :: "'t shared_mutex" where
  "shared_new = \<lparr>word_s = 0, word_ww = 0, spc = (\<lambda>_. S_out)\<rparr>"

definition shared_is_locked :: "'t shared_mutex \<Rightarrow> bool" where
  "shared_is_locked l = (word_s l \<noteq> 0)"

definition is_writer_held :: "'t shared_mutex \<Rightarrow> bool" where
  "is_writer_held l = (word_s l AND wr_bit \<noteq> 0)"

definition shared_readers :: "'t shared_mutex \<Rightarrow> u32" where
  "shared_readers l = word_s l AND reader_mask"

definition writers_queued :: "'t shared_mutex \<Rightarrow> u32" where
  "writers_queued l = word_ww l"

definition sgoto :: "'t \<Rightarrow> shared_pc \<Rightarrow> 't shared_mutex \<Rightarrow> 't shared_mutex" where
  "sgoto t p l = l\<lparr>spc := (spc l)(t := p)\<rparr>"

text \<open>\<^verbatim>\<open>__wake_all\<close>: every sleeper goes back to its look at the lock.\<close>

fun woken :: "shared_pc \<Rightarrow> shared_pc" where
  "woken W_parked = W_read"
| "woken R_parked = R_check"
| "woken p = p"

definition wake_all :: "'t shared_mutex \<Rightarrow> 't shared_mutex" where
  "wake_all l = l\<lparr>spc := (\<lambda>t. woken (spc l t))\<rparr>"

text \<open>Exclusive side: \<open>lock\<close> (\<open>writer_\<close>), \<open>try_lock\<close> and \<open>unlock\<close>; then the shared side.  A sleeper may also be interrupted by a signal.\<close>

inductive shared_step :: "'t set \<Rightarrow> 't shared_mutex \<Rightarrow> 't shared_mutex \<Rightarrow> bool" for ts where
  writer_call: "t \<in> ts \<Longrightarrow> spc l t = S_out \<Longrightarrow> shared_step ts l (sgoto t W_read l\<lparr>word_ww := word_ww l + 1\<rparr>)"
| writer_look: "spc l t = W_read \<Longrightarrow> shared_step ts l (sgoto t (W_seen (word_s l)) l)"
| writer_won: "spc l t = W_seen 0 \<Longrightarrow> word_s l = 0 \<Longrightarrow> shared_step ts l (sgoto t W_dec l\<lparr>word_s := wr_bit\<rparr>)"
| writer_lost: "spc l t = W_seen 0 \<Longrightarrow> shared_step ts l (sgoto t W_read l)"
| writer_spin: "spc l t = W_seen s \<Longrightarrow> s \<noteq> 0 \<Longrightarrow> shared_step ts l (sgoto t W_read l)"
| writer_park: "spc l t = W_seen s \<Longrightarrow> s \<noteq> 0 \<Longrightarrow> word_s l = s \<Longrightarrow> shared_step ts l (sgoto t W_parked l)"
| writer_interrupted: "spc l t = W_parked \<Longrightarrow> shared_step ts l (sgoto t W_read l)"
| writer_done: "spc l t = W_dec \<Longrightarrow> shared_step ts l (sgoto t W_in l\<lparr>word_ww := word_ww l - 1\<rparr>)"
| try_won: "t \<in> ts \<Longrightarrow> spc l t = S_out \<Longrightarrow> word_s l = 0 \<Longrightarrow> shared_step ts l (sgoto t W_in l\<lparr>word_s := wr_bit\<rparr>)"
| try_lost: "t \<in> ts \<Longrightarrow> spc l t = S_out \<Longrightarrow> word_s l \<noteq> 0 \<Longrightarrow> shared_step ts l l"
| unlock: "spc l t = W_in \<Longrightarrow> shared_step ts l (sgoto t S_wake l\<lparr>word_s := 0\<rparr>)"
| wake: "spc l t = S_wake \<Longrightarrow> shared_step ts l (wake_all (sgoto t S_out l))"
| reader_call: "t \<in> ts \<Longrightarrow> spc l t = S_out \<Longrightarrow> shared_step ts l (sgoto t R_check l)"
| reader_defer: "spc l t = R_check \<Longrightarrow> word_ww l \<noteq> 0 \<Longrightarrow> shared_step ts l l"
| reader_clear: "spc l t = R_check \<Longrightarrow> word_ww l = 0 \<Longrightarrow> shared_step ts l (sgoto t R_read l)"
| reader_blocked: "spc l t = R_read \<Longrightarrow> s = word_s l \<Longrightarrow> s AND wr_bit \<noteq> 0 \<Longrightarrow> shared_step ts l (sgoto t (R_seen s) l)"
| reader_spin: "spc l t = R_seen s \<Longrightarrow> shared_step ts l (sgoto t R_check l)"
| reader_park: "spc l t = R_seen s \<Longrightarrow> word_s l = s \<Longrightarrow> shared_step ts l (sgoto t R_parked l)"
| reader_interrupted: "spc l t = R_parked \<Longrightarrow> shared_step ts l (sgoto t R_check l)"
| reader_free: "spc l t = R_read \<Longrightarrow> s = word_s l \<Longrightarrow> s AND wr_bit = 0 \<Longrightarrow> shared_step ts l (sgoto t (R_cas s) l)"
| reader_won: "spc l t = R_cas s \<Longrightarrow> word_s l = s \<Longrightarrow> shared_step ts l (sgoto t R_in l\<lparr>word_s := s + 1\<rparr>)"
| reader_lost: "spc l t = R_cas s \<Longrightarrow> shared_step ts l (sgoto t R_check l)"
| rtry_call: "t \<in> ts \<Longrightarrow> spc l t = S_out \<Longrightarrow> word_ww l = 0 \<Longrightarrow> shared_step ts l (sgoto t RT_read l)"
| rtry_queued: "t \<in> ts \<Longrightarrow> spc l t = S_out \<Longrightarrow> word_ww l \<noteq> 0 \<Longrightarrow> shared_step ts l l"
| rtry_blocked: "spc l t = RT_read \<Longrightarrow> word_s l AND wr_bit \<noteq> 0 \<Longrightarrow> shared_step ts l (sgoto t S_out l)"
| rtry_free: "spc l t = RT_read \<Longrightarrow> s = word_s l \<Longrightarrow> s AND wr_bit = 0 \<Longrightarrow> shared_step ts l (sgoto t (RT_cas s) l)"
| rtry_won: "spc l t = RT_cas s \<Longrightarrow> word_s l = s \<Longrightarrow> shared_step ts l (sgoto t R_in l\<lparr>word_s := s + 1\<rparr>)"
| rtry_lost: "spc l t = RT_cas s \<Longrightarrow> word_s l \<noteq> s \<Longrightarrow> shared_step ts l (sgoto t S_out l)"
| runlock_bad: "spc l t = R_in \<Longrightarrow> n = word_s l - 1 \<Longrightarrow> n AND reader_mask = reader_mask \<Longrightarrow>
    shared_step ts l (sgoto t R_undo l\<lparr>word_s := n\<rparr>)"
| runlock_undo: "spc l t = R_undo \<Longrightarrow> shared_step ts l (sgoto t S_wake l\<lparr>word_s := word_s l + 1\<rparr>)"
| runlock_last: "spc l t = R_in \<Longrightarrow> n = word_s l - 1 \<Longrightarrow> n AND reader_mask \<noteq> reader_mask \<Longrightarrow> n AND reader_mask = 0 \<Longrightarrow>
    shared_step ts l (sgoto t S_wake l\<lparr>word_s := n\<rparr>)"
| runlock_some: "spc l t = R_in \<Longrightarrow> n = word_s l - 1 \<Longrightarrow> n AND reader_mask \<noteq> reader_mask \<Longrightarrow> n AND reader_mask \<noteq> 0 \<Longrightarrow>
    shared_step ts l (sgoto t S_out l\<lparr>word_s := n\<rparr>)"

subsection \<open>The two halves of the word\<close>

lemma wr_bit_alt: "wr_bit = 2 ^ 31"
  by (simp add: wr_bit_def)

lemma reader_mask_alt: "reader_mask = mask 31"
  by (simp add: reader_mask_def mask_eq_exp_minus_1)

lemma unat_count: "r < 2 ^ 31 \<Longrightarrow> unat (of_nat r :: u32) = r"
  by (simp add: unsigned_of_nat take_bit_nat_eq_self)

lemma count_no_writer:
  assumes "r < 2 ^ 31"
  shows "(of_nat r :: u32) AND wr_bit = 0"
proof -
  have "\<not> bit r 31" using assms by (simp add: bit_iff_odd)
  then have "\<not> bit (of_nat r :: u32) 31" by (simp add: bit_of_nat_iff)
  then show ?thesis unfolding wr_bit_alt and_exp_eq_0_iff_not_bit .
qed

lemma count_masked:
  assumes "r < 2 ^ 31"
  shows "(of_nat r :: u32) AND reader_mask = of_nat r"
proof -
  have "(of_nat r :: u32) AND reader_mask = take_bit 31 (of_nat r)" by (simp add: reader_mask_alt take_bit_eq_mask)
  also have "\<dots> = of_nat (take_bit 31 r)" by (simp add: take_bit_of_nat)
  finally show ?thesis using assms by (simp add: take_bit_nat_eq_self)
qed

lemma count_below_mask: "r < 2 ^ 31 - 1 \<Longrightarrow> (of_nat r :: u32) \<noteq> reader_mask"
proof
  assume r: "r < 2 ^ 31 - 1" and "(of_nat r :: u32) = reader_mask"
  then have "unat (of_nat r :: u32) = unat reader_mask" by simp
  then show False using r unat_count [of r] by (simp add: reader_mask_def)
qed

lemma count_zero: "r < 2 ^ 31 \<Longrightarrow> (of_nat r :: u32) = 0 \<longleftrightarrow> r = 0"
  using unat_count [of r] unat_eq_0 [of "of_nat r :: u32"] by auto

lemma wr_bit_held [simp]: "wr_bit AND wr_bit \<noteq> 0" "wr_bit \<noteq> 0"
  by (simp_all add: wr_bit_def)

subsection \<open>The invariant\<close>

fun writes :: "shared_pc \<Rightarrow> bool" where
  "writes W_dec = True"
| "writes W_in = True"
| "writes _ = False"

fun pc_fine :: "shared_pc \<Rightarrow> bool" where
  "pc_fine (R_cas s) = (s AND wr_bit = 0)"
| "pc_fine (RT_cas s) = (s AND wr_bit = 0)"
| "pc_fine (R_seen s) = (s AND wr_bit \<noteq> 0)"
| "pc_fine R_undo = False"
| "pc_fine _ = True"

text \<open>Either nobody writes and the word counts the readers, or one thread writes, nobody reads and the word is the writer bit.\<close>

definition word_ok :: "'t set \<Rightarrow> ('t \<Rightarrow> shared_pc) \<Rightarrow> u32 \<Rightarrow> bool" where
  "word_ok ts f s \<longleftrightarrow>
     {t. f t \<noteq> S_out} \<subseteq> ts \<and> (\<forall>t. pc_fine (f t)) \<and>
     ({t. writes (f t)} = {} \<and> s = of_nat (card {t. f t = R_in}) \<or>
      (\<exists>w. {t. writes (f t)} = {w}) \<and> {t. f t = R_in} = {} \<and> s = wr_bit)"

fun writer_queued :: "shared_pc \<Rightarrow> bool" where
  "writer_queued W_read = True"
| "writer_queued (W_seen s) = True"
| "writer_queued W_parked = True"
| "writer_queued W_dec = True"
| "writer_queued _ = False"

definition queue_count_ok :: "('t \<Rightarrow> shared_pc) \<Rightarrow> u32 \<Rightarrow> bool" where
  "queue_count_ok f ww \<longleftrightarrow> ww = of_nat (card {t. writer_queued (f t)})"

fun parked :: "shared_pc \<Rightarrow> bool" where
  "parked W_parked = True"
| "parked R_parked = True"
| "parked _ = False"

text \<open>Nobody sleeps on a free lock unless a thread is about to wake the sleepers.\<close>

definition sleep_ok :: "('t \<Rightarrow> shared_pc) \<Rightarrow> u32 \<Rightarrow> bool" where
  "sleep_ok f s \<longleftrightarrow> (\<forall>t. parked (f t) \<and> s = 0 \<longrightarrow> (\<exists>u. f u = S_wake))"

definition shared_inv :: "'t set \<Rightarrow> 't shared_mutex \<Rightarrow> bool" where
  "shared_inv ts l \<longleftrightarrow> word_ok ts (spc l) (word_s l) \<and> queue_count_ok (spc l) (word_ww l) \<and> sleep_ok (spc l) (word_s l)"

text \<open>The number of threads is below the number of readers that the word can count.\<close>

definition shared_threads :: "'t set \<Rightarrow> bool" where
  "shared_threads ts \<longleftrightarrow> finite ts \<and> card ts < 2 ^ 31"

subsection \<open>The word\<close>

lemma Collect_upd: "{u. Q ((f(t := p)) u)} = (if Q p then insert t {u. Q (f u)} else {u. Q (f u)} - {t})"
  by auto

lemma word_ok_thread: "word_ok ts f s \<Longrightarrow> f t \<noteq> S_out \<Longrightarrow> t \<in> ts"
  by (auto simp: word_ok_def)

lemma word_ok_readers:
  assumes "word_ok ts f s" "shared_threads ts"
  shows "finite {t. f t = R_in}" "card {t. f t = R_in} < 2 ^ 31"
    "t \<in> ts \<Longrightarrow> f t \<noteq> R_in \<Longrightarrow> Suc (card {t. f t = R_in}) < 2 ^ 31"
proof -
  have fin: "finite ts" "card ts < 2 ^ 31" using assms(2) by (simp_all add: shared_threads_def)
  have sub: "{t. f t = R_in} \<subseteq> ts" using assms(1) by (auto simp: word_ok_def)
  show "finite {t. f t = R_in}" using sub fin(1) by (rule finite_subset)
  show "card {t. f t = R_in} < 2 ^ 31" using card_mono [OF fin(1) sub] fin(2) by simp
  assume "t \<in> ts" "f t \<noteq> R_in"
  then have "{t. f t = R_in} \<subset> ts" using sub by blast
  from psubset_card_mono [OF fin(1) this] show "Suc (card {t. f t = R_in}) < 2 ^ 31" using fin(2) by simp
qed

lemma word_ok_neutral:
  assumes "word_ok ts f s" "t \<in> ts" "\<not> writes (f t)" "f t \<noteq> R_in" "\<not> writes p" "p \<noteq> R_in" "pc_fine p"
  shows "word_ok ts (f(t := p)) s"
proof -
  have "{u. writes ((f(t := p)) u)} = {u. writes (f u)}" "{u. (f(t := p)) u = R_in} = {u. f u = R_in}"
    using assms(3-6) by auto
  then show ?thesis using assms(1,2,7) unfolding word_ok_def by auto
qed

lemma word_ok_write:
  assumes "word_ok ts f 0" "shared_threads ts" "t \<in> ts" "writes p"
  shows "word_ok ts (f(t := p)) wr_bit"
proof -
  have r: "{u. writes (f u)} = {}" "(of_nat (card {u. f u = R_in}) :: u32) = 0" using assms(1) by (auto simp: word_ok_def)
  then have "{u. f u = R_in} = {}" using count_zero word_ok_readers [OF assms(1,2)] by auto
  moreover have "p \<noteq> R_in" "pc_fine p" using assms(4) by (cases p; simp)+
  ultimately show ?thesis using r(1) assms(1,3,4) unfolding word_ok_def by auto
qed

lemma word_ok_written:
  assumes "word_ok ts f s" "writes (f t)" "writes p"
  shows "word_ok ts (f(t := p)) s"
proof -
  have "{u. writes ((f(t := p)) u)} = {u. writes (f u)}" using assms(2,3) by auto
  moreover have "{u. (f(t := p)) u = R_in} = {u. f u = R_in}" using assms(2,3) by (auto split: if_splits)
  moreover have "f t \<noteq> S_out" "p \<noteq> S_out" using assms(2,3) by auto
  then have "t \<in> ts" using word_ok_thread [OF assms(1)] by blast
  then have "{u. (f(t := p)) u \<noteq> S_out} \<subseteq> ts" using assms(1) by (auto simp: word_ok_def)
  moreover have "pc_fine p" using assms(3) by (cases p) simp_all
  ultimately show ?thesis using assms(1) unfolding word_ok_def by simp
qed

lemma word_ok_unlock:
  assumes "word_ok ts f s" "writes (f t)"
  shows "word_ok ts (f(t := S_wake)) 0"
proof -
  have ne: "{u. writes (f u)} \<noteq> {}" using assms(2) by blast
  obtain w where w: "{u. writes (f u)} = {w}" and r: "{u. f u = R_in} = {}" using assms(1) ne unfolding word_ok_def by blast
  have "{u. writes ((f(t := S_wake)) u)} = {u. writes (f u)} - {t}" by auto
  also have "\<dots> = {}"
  proof -
    have "t \<in> {w}" using assms(2) unfolding w [symmetric] by simp
    then show ?thesis unfolding w by simp
  qed
  finally have "{u. writes ((f(t := S_wake)) u)} = {}" .
  moreover have "{u. (f(t := S_wake)) u = R_in} = {}" using r by auto
  moreover have "f t \<noteq> S_out" using assms(2) by auto
  then have "t \<in> ts" using word_ok_thread [OF assms(1)] by blast
  ultimately show ?thesis using assms(1) unfolding word_ok_def by auto
qed

lemma word_ok_read:
  assumes "word_ok ts f s" "shared_threads ts" "t \<in> ts" "f t \<noteq> R_in" "s AND wr_bit = 0"
  shows "word_ok ts (f(t := R_in)) (s + 1)"
proof -
  have r: "{u. writes (f u)} = {}" "s = of_nat (card {u. f u = R_in})" using assms(1,5) unfolding word_ok_def by auto
  have "{u. (f(t := R_in)) u = R_in} = insert t {u. f u = R_in}" by auto
  then have "card {u. (f(t := R_in)) u = R_in} = Suc (card {u. f u = R_in})"
    using assms(4) word_ok_readers(1) [OF assms(1,2)] by simp
  moreover have "{u. writes ((f(t := R_in)) u)} = {}" using r(1) by auto
  ultimately show ?thesis using r(2) assms(1,3) unfolding word_ok_def by auto
qed

lemma word_ok_read_nonzero:
  assumes "word_ok ts f s" "shared_threads ts" "t \<in> ts" "f t \<noteq> R_in" "s AND wr_bit = 0"
  shows "s + 1 \<noteq> 0"
proof -
  have "s = of_nat (card {u. f u = R_in})" using assms(1,5) unfolding word_ok_def by auto
  then have "s + 1 = of_nat (Suc (card {u. f u = R_in}))" by simp
  then show ?thesis using count_zero [OF word_ok_readers(3) [OF assms(1-4)]] by (metis Zero_not_Suc)
qed

lemma word_ok_reading:
  assumes "word_ok ts f s" "shared_threads ts" "f t = R_in"
  obtains r where "s = of_nat (Suc r)" "card {u. f u = R_in} = Suc r" "Suc r < 2 ^ 31" "s - 1 = of_nat r"
    "s - 1 \<noteq> reader_mask" "(s - 1) AND reader_mask = s - 1"
proof -
  note b = word_ok_readers [OF assms(1,2)]
  have "card {u. f u = R_in} \<noteq> 0" using b(1) assms(3) by auto
  then obtain r where r: "card {u. f u = R_in} = Suc r" by (cases "card {u. f u = R_in}") auto
  have s: "s = of_nat (card {u. f u = R_in})" using assms(1,3) unfolding word_ok_def by auto
  then have s1: "s - 1 = of_nat r" using r by simp
  have "Suc r < 2 ^ 31" using b(2) r by simp
  moreover from this have "s - 1 \<noteq> reader_mask" "(s - 1) AND reader_mask = s - 1"
    unfolding s1 by (simp_all add: count_below_mask count_masked)
  ultimately show thesis using that r s s1 by auto
qed

lemma word_ok_unread:
  assumes "word_ok ts f s" "shared_threads ts" "f t = R_in" "p = S_out \<or> p = S_wake"
  shows "word_ok ts (f(t := p)) (s - 1)"
proof -
  obtain r where r: "card {u. f u = R_in} = Suc r" "s - 1 = of_nat r" using word_ok_reading [OF assms(1-3)] by metis
  have w: "{u. writes (f u)} = {}" using assms(1,3) unfolding word_ok_def by auto
  have "{u. (f(t := p)) u = R_in} = {u. f u = R_in} - {t}" using assms(4) by auto
  then have "card {u. (f(t := p)) u = R_in} = r" using r(1) assms(3) word_ok_readers(1) [OF assms(1,2)] by simp
  moreover have "{u. writes ((f(t := p)) u)} = {}" using w assms(4) by auto
  moreover have "t \<in> ts" using word_ok_thread [OF assms(1), of t] assms(3) by simp
  ultimately show ?thesis using r(2) assms(1,4) unfolding word_ok_def by auto
qed

lemma word_ok_wake: "word_ok ts f s \<Longrightarrow> word_ok ts (\<lambda>t. woken (f t)) s"
proof -
  assume a: "word_ok ts f s"
  have "writes (woken p) = writes p" "(woken p = R_in) = (p = R_in)" "(woken p = S_out) = (p = S_out)" "pc_fine (woken p) = pc_fine p" for p
    by (cases p; simp)+
  then show ?thesis using a by (simp add: word_ok_def)
qed

subsection \<open>The count of waiting writers and the sleepers\<close>

lemma queue_count_same:
  "queue_count_ok f ww \<Longrightarrow> writer_queued (f t) = writer_queued p \<Longrightarrow> queue_count_ok (f(t := p)) ww"
proof -
  assume "queue_count_ok f ww" and "writer_queued (f t) = writer_queued p"
  moreover from this have "{u. writer_queued ((f(t := p)) u)} = {u. writer_queued (f u)}" by auto
  ultimately show ?thesis by (simp add: queue_count_ok_def)
qed

lemma queue_count_join:
  assumes "queue_count_ok f ww" "finite {u. writer_queued (f u)}" "\<not> writer_queued (f t)" "writer_queued p"
  shows "queue_count_ok (f(t := p)) (ww + 1)"
proof -
  have "{u. writer_queued ((f(t := p)) u)} = insert t {u. writer_queued (f u)}" using assms(4) by auto
  then show ?thesis using assms by (simp add: queue_count_ok_def)
qed

lemma queue_count_quit:
  assumes "queue_count_ok f ww" "finite {u. writer_queued (f u)}" "writer_queued (f t)" "\<not> writer_queued p"
  shows "queue_count_ok (f(t := p)) (ww - 1)"
proof -
  have "{u. writer_queued ((f(t := p)) u)} = {u. writer_queued (f u)} - {t}" using assms(4) by auto
  moreover have "card {u. writer_queued (f u)} \<noteq> 0" using assms(2,3) by auto
  ultimately show ?thesis using assms by (cases "card {u. writer_queued (f u)}") (auto simp: queue_count_ok_def)
qed

lemma queue_count_wake: "queue_count_ok f ww \<Longrightarrow> queue_count_ok (\<lambda>t. woken (f t)) ww"
proof -
  have "writer_queued (woken p) = writer_queued p" for p by (cases p) simp_all
  then show "queue_count_ok f ww \<Longrightarrow> queue_count_ok (\<lambda>t. woken (f t)) ww" by (simp add: queue_count_ok_def)
qed

lemma sleep_same: "sleep_ok f s \<Longrightarrow> f t \<noteq> S_wake \<Longrightarrow> \<not> parked p \<Longrightarrow> sleep_ok (f(t := p)) s"
  unfolding sleep_ok_def by (metis fun_upd_other fun_upd_same)

lemma sleep_park: "s \<noteq> 0 \<Longrightarrow> sleep_ok f s"
  by (simp add: sleep_ok_def)

lemma sleep_waker: "sleep_ok (f(t := S_wake)) s"
  unfolding sleep_ok_def by (metis fun_upd_same)

lemma sleep_wake: "sleep_ok (\<lambda>t. woken (f t)) s"
proof -
  have "\<not> parked (woken p)" for p by (cases p) simp_all
  then show ?thesis by (simp add: sleep_ok_def)
qed

subsection \<open>Every step keeps the invariant\<close>

lemma sgoto_simps [simp]:
  "word_s (sgoto t p l) = word_s l" "word_ww (sgoto t p l) = word_ww l" "spc (sgoto t p l) = (spc l)(t := p)"
  "word_s (wake_all l) = word_s l" "word_ww (wake_all l) = word_ww l" "spc (wake_all l) = (\<lambda>t. woken (spc l t))"
  by (simp_all add: sgoto_def wake_all_def)

lemma shared_inv_queued:
  assumes "shared_inv ts l" "shared_threads ts"
  shows "finite {t. writer_queued (spc l t)}"
proof -
  have "{t. writer_queued (spc l t)} \<subseteq> ts" using assms(1) by (auto simp: shared_inv_def word_ok_def)
  then show ?thesis using assms(2) finite_subset by (auto simp: shared_threads_def)
qed

text \<open>A step that touches only the place of its thread.\<close>

lemma shared_inv_move:
  assumes "shared_inv ts l" "t \<in> ts" "\<not> writes (spc l t)" "spc l t \<noteq> R_in" "spc l t \<noteq> S_wake" "\<not> writes p" "p \<noteq> R_in" "pc_fine p"
    "writer_queued (spc l t) = writer_queued p" "parked p \<longrightarrow> word_s l \<noteq> 0"
  shows "shared_inv ts (sgoto t p l)"
  using assms word_ok_neutral [of ts "spc l" "word_s l" t p] queue_count_same [of "spc l" "word_ww l" t p]
    sleep_same [of "spc l" "word_s l" t p] sleep_park [of "word_s l"]
  by (auto simp: shared_inv_def)

lemma shared_step_inv:
  assumes inv: "shared_inv ts l" and thr: "shared_threads ts" and st: "shared_step ts l l'"
  shows "shared_inv ts l'"
proof -
  have w: "word_ok ts (spc l) (word_s l)" and q: "queue_count_ok (spc l) (word_ww l)" and sl: "sleep_ok (spc l) (word_s l)"
    using inv by (simp_all add: shared_inv_def)
  have mem: "t \<in> ts" if "spc l t \<noteq> S_out" for t using word_ok_thread [OF w that] .
  have fine: "pc_fine (spc l t)" for t using w by (simp add: word_ok_def)
  note fin = shared_inv_queued [OF inv thr]
  from st show ?thesis
  proof cases
    case (writer_call t)
    then show ?thesis using word_ok_neutral [OF w, of t W_read] queue_count_join [OF q fin, of t W_read] sleep_same [OF sl, of t W_read]
      by (simp add: shared_inv_def)
  next
    case (writer_won t)
    then show ?thesis using word_ok_write [of ts "spc l" t W_dec] w thr mem [of t] queue_count_same [OF q, of t W_dec]
      by (simp add: shared_inv_def sleep_park)
  next
    case (writer_done t)
    then show ?thesis using word_ok_written [OF w, of t W_in] queue_count_quit [OF q fin, of t W_in] sleep_same [OF sl, of t W_in]
      by (simp add: shared_inv_def)
  next
    case (try_won t)
    then show ?thesis using word_ok_write [of ts "spc l" t W_in] w thr queue_count_same [OF q, of t W_in]
      by (simp add: shared_inv_def sleep_park)
  next
    case (unlock t)
    then show ?thesis using word_ok_unlock [OF w, of t] queue_count_same [OF q, of t S_wake] sleep_waker
      by (simp add: shared_inv_def)
  next
    case (wake t)
    then have "word_ok ts ((spc l)(t := S_out)) (word_s l)" "queue_count_ok ((spc l)(t := S_out)) (word_ww l)"
      using word_ok_neutral [OF w, of t S_out] mem [of t] queue_count_same [OF q, of t S_out] by simp_all
    from word_ok_wake [OF this(1)] queue_count_wake [OF this(2)] sleep_wake [of "(spc l)(t := S_out)"]
    show ?thesis unfolding shared_inv_def wake(1) sgoto_simps by blast
  next
    case (reader_won t s)
    then show ?thesis using word_ok_read [OF w thr, of t] word_ok_read_nonzero [OF w thr, of t] mem [of t] fine [of t]
        queue_count_same [OF q, of t R_in] by (simp add: shared_inv_def sleep_park)
  next
    case (rtry_won t s)
    then show ?thesis using word_ok_read [OF w thr, of t] word_ok_read_nonzero [OF w thr, of t] mem [of t] fine [of t]
        queue_count_same [OF q, of t R_in] by (simp add: shared_inv_def sleep_park)
  next
    case (runlock_bad t n)
    then have "n AND reader_mask \<noteq> reader_mask" using word_ok_reading [OF w thr, of t] by metis
    then show ?thesis using runlock_bad by simp
  next
    case (runlock_undo t)
    then show ?thesis using fine [of t] by simp
  next
    case (runlock_last t n)
    then show ?thesis using word_ok_unread [OF w thr, of t S_wake] queue_count_same [OF q, of t S_wake] sleep_waker
      by (simp add: shared_inv_def)
  next
    case (runlock_some t n)
    then have "n \<noteq> 0" by auto
    then show ?thesis using runlock_some word_ok_unread [OF w thr, of t S_out] queue_count_same [OF q, of t S_out]
      by (simp add: shared_inv_def sleep_park)
  next
    case (writer_look t) then show ?thesis using shared_inv_move [OF inv] mem [of t] by simp
  next
    case (writer_lost t) then show ?thesis using shared_inv_move [OF inv] mem [of t] by simp
  next
    case (writer_spin t s) then show ?thesis using shared_inv_move [OF inv] mem [of t] by simp
  next
    case (writer_park t s) then show ?thesis using shared_inv_move [OF inv] mem [of t] by simp
  next
    case (writer_interrupted t) then show ?thesis using shared_inv_move [OF inv] mem [of t] by simp
  next
    case (reader_interrupted t) then show ?thesis using shared_inv_move [OF inv] mem [of t] by simp
  next
    case (reader_call t) then show ?thesis using shared_inv_move [OF inv] by simp
  next
    case (reader_clear t) then show ?thesis using shared_inv_move [OF inv] mem [of t] by simp
  next
    case (reader_blocked t s) then show ?thesis using shared_inv_move [OF inv] mem [of t] by simp
  next
    case (reader_spin t s) then show ?thesis using shared_inv_move [OF inv] mem [of t] by simp
  next
    case (reader_park t s)
    then have "word_s l \<noteq> 0" using fine [of t] by (intro notI) simp
    then show ?thesis using reader_park shared_inv_move [OF inv, of t R_parked] mem [of t] by simp
  next
    case (reader_free t s) then show ?thesis using shared_inv_move [OF inv] mem [of t] by simp
  next
    case (reader_lost t s) then show ?thesis using shared_inv_move [OF inv] mem [of t] by simp
  next
    case (rtry_call t) then show ?thesis using shared_inv_move [OF inv] by simp
  next
    case (rtry_blocked t) then show ?thesis using shared_inv_move [OF inv] mem [of t] by simp
  next
    case (rtry_free t s) then show ?thesis using shared_inv_move [OF inv] mem [of t] by simp
  next
    case (rtry_lost t s) then show ?thesis using shared_inv_move [OF inv] mem [of t] by simp
  qed (use inv in simp_all)
qed

lemma shared_inv_new: "shared_inv ts shared_new"
  by (simp add: shared_inv_def shared_new_def word_ok_def queue_count_ok_def sleep_ok_def)

lemma shared_inv_exclusion:
  "shared_inv ts l \<Longrightarrow> spc l t = W_in \<Longrightarrow> spc l u = W_in \<Longrightarrow> t = u"
  "shared_inv ts l \<Longrightarrow> spc l t = W_in \<Longrightarrow> spc l u \<noteq> R_in"
proof -
  assume inv: "shared_inv ts l" and t: "spc l t = W_in"
  then have "t \<in> {v. writes (spc l v)}" by simp
  then obtain w where w: "{v. writes (spc l v)} = {w}" "{v. spc l v = R_in} = {}"
    using inv unfolding shared_inv_def word_ok_def by blast
  show "spc l u \<noteq> R_in" using w(2) by blast
  assume "spc l u = W_in"
  then have "t \<in> {w}" "u \<in> {w}" using t unfolding w(1) [symmetric] by simp_all
  then show "t = u" by simp
qed

interpretation shr: shared_exclusive_lock "\<lambda>l. l = shared_new" "\<lambda>x y. shared_threads ts \<and> shared_step ts x y"
  "shared_inv ts" "\<lambda>l t. spc l t = R_in" "\<lambda>l t. spc l t = W_in" for ts :: "'t set"
  by unfold_locales (auto intro: shared_inv_new shared_step_inv shared_inv_exclusion(1) dest: shared_inv_exclusion(2))

lemma shared_runs: "shared_threads ts \<Longrightarrow> (shared_step ts)\<^sup>*\<^sup>* shared_new l \<Longrightarrow> shared_inv ts l"
  using shr.reach_inv [of shared_new ts l] by simp

lemma shared_inv_observers:
  assumes "shared_inv ts l" "shared_threads ts"
  shows "is_writer_held l \<longleftrightarrow> (\<exists>t. writes (spc l t))"
    and "unat (shared_readers l) = card {t. spc l t = R_in}"
proof -
  have w: "word_ok ts (spc l) (word_s l)" using assms(1) by (simp add: shared_inv_def)
  note c = word_ok_readers(2) [OF w assms(2)]
  consider "{t. writes (spc l t)} = {}" "word_s l = of_nat (card {t. spc l t = R_in})" |
    x where "{t. writes (spc l t)} = {x}" "{t. spc l t = R_in} = {}" "word_s l = wr_bit"
    using w unfolding word_ok_def by blast
  then show "is_writer_held l \<longleftrightarrow> (\<exists>t. writes (spc l t))"
    by cases (use count_no_writer [OF c] in \<open>auto simp: is_writer_held_def\<close>)
  consider "word_s l = of_nat (card {t. spc l t = R_in})" | "{t. spc l t = R_in} = {}" "word_s l = wr_bit"
    using w unfolding word_ok_def by blast
  then show "unat (shared_readers l) = card {t. spc l t = R_in}"
  proof cases
    case 1 then show ?thesis by (simp add: shared_readers_def count_masked [OF c] unat_count [OF c])
  next
    case 2 then show ?thesis by (simp add: shared_readers_def wr_bit_def reader_mask_def)
  qed
qed

subsection \<open>Properties\<close>

text \<open>The second word counts the writers that are waiting or have just been admitted.  A writer takes itself off as soon as it holds the lock, although the
  declaration calls the word the number of writers that hold or wait.\<close>

lemma shared_writers_queued:
  assumes "shared_threads ts" "(shared_step ts)\<^sup>*\<^sup>* shared_new l"
  shows "writers_queued l = of_nat (card {t. writer_queued (spc l t)})"
proof -
  have "shared_inv ts l" using shared_runs assms by blast
  then show ?thesis by (simp add: shared_inv_def queue_count_ok_def writers_queued_def)
qed

text \<open>C11: On every run of the reader-writer lock with fewer than \<open>2\<^sup>31\<close> threads a writer is alone: no other thread writes and none reads;
  \<open>is_writer_held\<close> shows the writer and \<open>readers\<close> counts the readers; and the branch of
  \<open>unlock_shared\<close> that repairs an unlock without a lock is never taken.\<close>

theorem shared_mutex_exclusion:
  assumes "shared_threads ts" "(shared_step ts)\<^sup>*\<^sup>* shared_new l"
  shows "(\<forall>t. spc l t = W_in \<longrightarrow> (\<forall>u. spc l u \<noteq> R_in \<and> (spc l u = W_in \<longrightarrow> u = t)))
       \<and> (is_writer_held l \<longleftrightarrow> (\<exists>t. writes (spc l t)))
       \<and> unat (shared_readers l) = card {t. spc l t = R_in}
       \<and> (\<forall>t. spc l t \<noteq> R_undo)"
proof -
  have inv: "shared_inv ts l" using shared_runs assms by blast
  then have "\<forall>t. pc_fine (spc l t)" by (simp add: shared_inv_def word_ok_def)
  then show ?thesis using shared_inv_exclusion [OF inv] shared_inv_observers [OF inv assms(1)] by (metis pc_fine.simps(4))
qed

text \<open>Two states of runs: two readers inside while a writer waits, and a writer inside while a reader waits.\<close>

definition two_readers :: "nat shared_mutex" where
  "two_readers = \<lparr>word_s = 2, word_ww = 1, spc = (\<lambda>_. S_out)(0 := R_in, 1 := R_in, 2 := W_read)\<rparr>"

definition one_writer :: "nat shared_mutex" where
  "one_writer = \<lparr>word_s = wr_bit, word_ww = 0, spc = (\<lambda>_. S_out)(0 := W_in, 1 := R_check)\<rparr>"

lemma run_two_readers: "(shared_step {0, 1, 2})\<^sup>*\<^sup>* shared_new two_readers"
proof -
  let ?S = "(shared_step {0, 1, 2 :: nat})\<^sup>*\<^sup>*" and ?l = "shared_new :: nat shared_mutex"
  let ?a = "sgoto 0 R_in ?l\<lparr>word_s := 1\<rparr>"
  let ?b = "sgoto 1 R_in ?a\<lparr>word_s := 2\<rparr>"
  have "?S ?l (sgoto 0 RT_read ?l)" by (rule r_into_rtranclp, rule rtry_call) (simp_all add: shared_new_def)
  also have "?S \<dots> (sgoto 0 (RT_cas 0) ?l)"
    using r_into_rtranclp [of "shared_step {0, 1, 2 :: nat}", OF rtry_free [of "sgoto 0 RT_read ?l" 0 0]] by (simp add: sgoto_def shared_new_def)
  also have "?S \<dots> ?a"
    using r_into_rtranclp [of "shared_step {0, 1, 2 :: nat}", OF rtry_won [of "sgoto 0 (RT_cas 0) ?l" 0 0]] by (simp add: sgoto_def shared_new_def)
  also have "?S \<dots> (sgoto 1 RT_read ?a)" by (rule r_into_rtranclp, rule rtry_call) (simp_all add: shared_new_def)
  also have "?S \<dots> (sgoto 1 (RT_cas 1) ?a)"
    using r_into_rtranclp [of "shared_step {0, 1, 2 :: nat}", OF rtry_free [of "sgoto 1 RT_read ?a" 1 1]] by (simp add: sgoto_def shared_new_def wr_bit_def)
  also have "?S \<dots> ?b"
    using r_into_rtranclp [of "shared_step {0, 1, 2 :: nat}", OF rtry_won [of "sgoto 1 (RT_cas 1) ?a" 1 1]] by (simp add: sgoto_def shared_new_def)
  also have "?S \<dots> two_readers"
    using r_into_rtranclp [of "shared_step {0, 1, 2 :: nat}", OF writer_call [of 2 _ ?b]] by (simp add: sgoto_def shared_new_def two_readers_def)
  finally show ?thesis .
qed

lemma run_one_writer: "(shared_step {0, 1, 2})\<^sup>*\<^sup>* shared_new one_writer"
proof -
  let ?S = "(shared_step {0, 1, 2 :: nat})\<^sup>*\<^sup>*" and ?l = "shared_new :: nat shared_mutex"
  let ?a = "sgoto 0 W_in ?l\<lparr>word_s := wr_bit\<rparr>"
  have "?S ?l ?a" by (rule r_into_rtranclp, rule try_won) (simp_all add: shared_new_def)
  also have "?S \<dots> one_writer"
    using r_into_rtranclp [of "shared_step {0, 1, 2 :: nat}", OF reader_call [of 1 _ ?a]] by (simp add: sgoto_def shared_new_def one_writer_def)
  finally show ?thesis .
qed

theorem shared_mutex_exclusion_witness:
  "unat (shared_readers two_readers) = card {t. spc two_readers t = R_in} \<and> card {t. spc two_readers t = R_in} = 2 \<and> \<not> is_writer_held two_readers \<and>
   spc one_writer 0 = W_in \<and> is_writer_held one_writer \<and> (\<forall>u. spc one_writer u \<noteq> R_in)"
proof -
  have ts: "shared_threads {0, 1, 2 :: nat}" by (simp add: shared_threads_def)
  note two = shared_mutex_exclusion [OF ts run_two_readers] and one = shared_mutex_exclusion [OF ts run_one_writer]
  have "{t. spc two_readers t = R_in} = {0, 1}" by (auto simp: two_readers_def)
  then have c: "card {t. spc two_readers t = R_in} = 2" by simp
  have "\<not> writes (spc two_readers t)" for t by (simp add: two_readers_def)
  then have n: "\<not> is_writer_held two_readers" using two by blast
  have w: "spc one_writer 0 = W_in" "writes (spc one_writer 0)" by (simp_all add: one_writer_def)
  then have h: "is_writer_held one_writer" "\<forall>u. spc one_writer u \<noteq> R_in" using one by blast+
  show ?thesis using two c n w(1) h by blast
qed

text \<open>C32: No wake-up is lost: on every run, when a thread sleeps and the lock is free, some thread is about to wake all sleepers, and
  that step leaves no thread asleep.\<close>

theorem shared_mutex_no_lost_wakeup:
  assumes "shared_threads ts" "(shared_step ts)\<^sup>*\<^sup>* shared_new l" "parked (spc l t)" "\<not> shared_is_locked l"
  shows "\<exists>u. spc l u = S_wake \<and> shared_step ts l (wake_all (sgoto u S_out l)) \<and> (\<forall>v. \<not> parked (spc (wake_all (sgoto u S_out l)) v))"
proof -
  have "sleep_ok (spc l) (word_s l)" using shared_runs assms(1,2) by (auto simp: shared_inv_def)
  then obtain u where u: "spc l u = S_wake" using assms(3,4) by (auto simp: sleep_ok_def shared_is_locked_def)
  have "\<not> parked (woken p)" for p by (cases p) simp_all
  then show ?thesis using u shared_step.wake [OF u] by auto
qed

text \<open>A writer sleeps while another holds the lock, and the holder unlocks.\<close>

lemma shared_demo_run:
  "\<exists>l. (shared_step {0, 1 :: nat})\<^sup>*\<^sup>* shared_new l \<and> parked (spc l 1) \<and> \<not> shared_is_locked l"
proof -
  let ?S = "shared_step {0, 1 :: nat}"
  let ?a = "sgoto 0 W_in shared_new\<lparr>word_s := wr_bit\<rparr> :: nat shared_mutex"
  let ?b = "sgoto 1 W_read ?a\<lparr>word_ww := word_ww ?a + 1\<rparr>"
  let ?c = "sgoto 1 (W_seen (word_s ?b)) ?b"
  let ?d = "sgoto 1 W_parked ?c"
  let ?e = "sgoto 0 S_wake ?d\<lparr>word_s := 0\<rparr>"
  have "?S shared_new ?a" by (rule try_won) (simp_all add: shared_new_def)
  moreover have "?S ?a ?b" by (rule writer_call) (simp_all add: shared_new_def)
  moreover have "?S ?b ?c" by (rule writer_look) simp
  moreover have "?S ?c ?d" by (rule writer_park [of _ _ wr_bit]) simp_all
  moreover have "?S ?d ?e" by (rule unlock) simp
  ultimately have "?S\<^sup>*\<^sup>* shared_new ?e"
    by (intro rtranclp.rtrancl_into_rtrancl [OF rtranclp.rtrancl_into_rtrancl [OF rtranclp.rtrancl_into_rtrancl
          [OF rtranclp.rtrancl_into_rtrancl [OF r_into_rtranclp]]]])
  moreover have "parked (spc ?e 1)" "\<not> shared_is_locked ?e" by (simp_all add: shared_is_locked_def)
  ultimately show ?thesis by blast
qed

theorem shared_mutex_no_lost_wakeup_witness:
  "\<exists>l u. parked (spc (l :: nat shared_mutex) 1) \<and> \<not> shared_is_locked l \<and> spc l u = S_wake"
proof -
  obtain l where l: "(shared_step {0, 1 :: nat})\<^sup>*\<^sup>* shared_new l" "parked (spc l 1)" "\<not> shared_is_locked l"
    using shared_demo_run by blast
  have "shared_threads {0, 1 :: nat}" by (simp add: shared_threads_def)
  from shared_mutex_no_lost_wakeup [OF this l] l show ?thesis by blast
qed

end
