(* ===== verification/Lock_Seq.thy ===== *)
theory Lock_Seq
  imports Lock_Base
begin

text \<open>
  The sequence lock of \<^verbatim>\<open>src/src/mutex/locks/seqlock.hpp\<close>.  Writers take an inner lock, which lets one of them in at a time, and make the
  sequence number odd while they change the value; readers copy the value without a lock and copy again if the number has changed.
  The value is copied byte by byte, in any order, so that a reader may see parts of several values.
\<close>

unbundle bit_operations_syntax

subsection \<open>The lock\<close>

text \<open>What a writer does to the value: \<^verbatim>\<open>store\<close> copies one over it, \<^verbatim>\<open>write\<close> applies a function in place.\<close>

datatype 'b seq_write = Copy "'b list" | Apply "'b list \<Rightarrow> 'b list"

text \<open>
  Where a thread is: \<open>W_body\<close> holds the sequence number that was read and the value before; \<open>R_look\<close>, \<open>R_copy\<close> and \<open>R_done\<close> are a reader's, with a
  flag for \<^verbatim>\<open>try_load\<close>, the number it saw and the bytes copied so far.
\<close>

datatype 'b seq_pc =
    Q_out
  | W_wait "'b seq_write"
  | W_held "'b seq_write"
  | W_seq "'b seq_write" u32
  | W_body "'b seq_write" u32 "'b list"
  | W_end u32
  | W_unlock
  | R_look bool
  | R_copy bool u32 "nat \<rightharpoonup> 'b"
  | R_done "'b list option"

text \<open>
  The last three fields record the history: the values that were complete, and for each reader how many of them there were when it was called
  and when it read the sequence number.  No step depends on them.
\<close>

record ('t, 'b) seqlock =
  word_seq :: u32
  w_owner :: "'t option"
  payload :: "'b list"
  qpc :: "'t \<Rightarrow> 'b seq_pc"
  past :: "'b list list"
  since :: "'t \<Rightarrow> nat"
  seen :: "'t \<Rightarrow> nat"

definition seq_new :: "'b list \<Rightarrow> ('t, 'b) seqlock" where
  "seq_new init = \<lparr>word_seq = 0, w_owner = None, payload = init, qpc = (\<lambda>_. Q_out), past = [init], since = (\<lambda>_. 1), seen = (\<lambda>_. 1)\<rparr>"

definition seq_sequence :: "('t, 'b) seqlock \<Rightarrow> u32" where
  "seq_sequence l = word_seq l"

definition seq_writing :: "('t, 'b) seqlock \<Rightarrow> bool" where
  "seq_writing l \<longleftrightarrow> word_seq l AND 1 \<noteq> 0"

definition qgoto :: "'t \<Rightarrow> 'b seq_pc \<Rightarrow> ('t, 'b) seqlock \<Rightarrow> ('t, 'b) seqlock" where
  "qgoto t p l = l\<lparr>qpc := (qpc l)(t := p)\<rparr>"

fun write_fits :: "'b seq_write \<Rightarrow> nat \<Rightarrow> bool" where
  "write_fits (Copy n) k = (length n = k)"
| "write_fits (Apply f) k = (\<forall>v. length v = k \<longrightarrow> length (f v) = k)"

definition copied :: "nat \<Rightarrow> (nat \<rightharpoonup> 'b) \<Rightarrow> 'b list" where
  "copied k out = map (\<lambda>i. the (out i)) [0..<k]"

inductive seq_step :: "('t, 'b) seqlock \<Rightarrow> ('t, 'b) seqlock \<Rightarrow> bool" where
  write_call: "qpc l t = Q_out \<Longrightarrow> write_fits w (length (payload l)) \<Longrightarrow> seq_step l (qgoto t (W_wait w) l)"
| write_lock: "qpc l t = W_wait w \<Longrightarrow> w_owner l = None \<Longrightarrow> seq_step l (qgoto t (W_held w) l\<lparr>w_owner := Some t\<rparr>)"
| write_read: "qpc l t = W_held w \<Longrightarrow> seq_step l (qgoto t (W_seq w (word_seq l)) l)"
| write_begin: "qpc l t = W_seq w s \<Longrightarrow> seq_step l (qgoto t (W_body w s (payload l)) l\<lparr>word_seq := s + 1\<rparr>)"
| store_byte: "qpc l t = W_body (Copy n) s old \<Longrightarrow> i < length n \<Longrightarrow> seq_step l (l\<lparr>payload := (payload l)[i := n ! i]\<rparr>)"
| store_copied: "qpc l t = W_body (Copy n) s old \<Longrightarrow> payload l = n \<Longrightarrow> seq_step l (qgoto t (W_end s) l)"
| write_byte: "qpc l t = W_body (Apply f) s old \<Longrightarrow> i < length (payload l) \<Longrightarrow> seq_step l (l\<lparr>payload := (payload l)[i := x]\<rparr>)"
| write_applied: "qpc l t = W_body (Apply f) s old \<Longrightarrow> payload l = f old \<Longrightarrow> seq_step l (qgoto t (W_end s) l)"
| write_publish: "qpc l t = W_end s \<Longrightarrow> seq_step l (qgoto t W_unlock l\<lparr>word_seq := s + 2, past := past l @ [payload l]\<rparr>)"
| write_unlock: "qpc l t = W_unlock \<Longrightarrow> seq_step l (qgoto t Q_out l\<lparr>w_owner := None\<rparr>)"
| load_call: "qpc l t = Q_out \<Longrightarrow> seq_step l (qgoto t (R_look tr) l\<lparr>since := (since l)(t := length (past l))\<rparr>)"
| load_odd: "qpc l t = R_look tr \<Longrightarrow> word_seq l AND 1 \<noteq> 0 \<Longrightarrow> seq_step l (qgoto t (if tr then R_done None else R_look False) l)"
| load_even: "qpc l t = R_look tr \<Longrightarrow> word_seq l AND 1 = 0 \<Longrightarrow>
    seq_step l (qgoto t (R_copy tr (word_seq l) Map.empty) l\<lparr>seen := (seen l)(t := length (past l))\<rparr>)"
| load_byte: "qpc l t = R_copy tr s0 out \<Longrightarrow> i < length (payload l) \<Longrightarrow> seq_step l (qgoto t (R_copy tr s0 (out(i \<mapsto> payload l ! i))) l)"
| load_same: "qpc l t = R_copy tr s0 out \<Longrightarrow> dom out = {..<length (payload l)} \<Longrightarrow> word_seq l = s0 \<Longrightarrow>
    seq_step l (qgoto t (R_done (Some (copied (length (payload l)) out))) l)"
| load_changed: "qpc l t = R_copy tr s0 out \<Longrightarrow> dom out = {..<length (payload l)} \<Longrightarrow> word_seq l \<noteq> s0 \<Longrightarrow>
    seq_step l (qgoto t (if tr then R_done None else R_look False) l)"
| load_return: "qpc l t = R_done r \<Longrightarrow> seq_step l (qgoto t Q_out l)"

subsection \<open>The invariant\<close>

fun holds_lock :: "'b seq_pc \<Rightarrow> bool" where
  "holds_lock (W_held w) = True"
| "holds_lock (W_seq w s) = True"
| "holds_lock (W_body w s old) = True"
| "holds_lock (W_end s) = True"
| "holds_lock W_unlock = True"
| "holds_lock _ = False"

fun changing :: "'b seq_pc \<Rightarrow> bool" where
  "changing (W_body w s old) = True"
| "changing (W_end s) = True"
| "changing _ = False"

definition busy :: "('t, 'b) seqlock \<Rightarrow> bool" where
  "busy l \<longleftrightarrow> (\<exists>t. changing (qpc l t))"

text \<open>The number of changes of the sequence number so far.\<close>

definition ticks :: "('t, 'b) seqlock \<Rightarrow> nat" where
  "ticks l = 2 * (length (past l) - 1) + (if busy l then 1 else 0)"

fun pc_ok :: "('t, 'b) seqlock \<Rightarrow> 't \<Rightarrow> 'b seq_pc \<Rightarrow> bool" where
  "pc_ok l t (W_wait w) = write_fits w (length (payload l))"
| "pc_ok l t (W_held w) = write_fits w (length (payload l))"
| "pc_ok l t (W_seq w s) = (write_fits w (length (payload l)) \<and> s = word_seq l)"
| "pc_ok l t (W_body w s old) = (write_fits w (length (payload l)) \<and> s = of_nat (2 * (length (past l) - 1)))"
| "pc_ok l t (W_end s) = (s = of_nat (2 * (length (past l) - 1)))"
| "pc_ok l t (R_look tr) = (1 \<le> since l t \<and> since l t \<le> length (past l))"
| "pc_ok l t (R_copy tr s0 out) =
    (1 \<le> since l t \<and> since l t \<le> seen l t \<and> seen l t \<le> length (past l) \<and> s0 = of_nat (2 * (seen l t - 1)) \<and>
     (seen l t = length (past l) \<and> \<not> busy l \<longrightarrow> (\<forall>i x. out i = Some x \<longrightarrow> x = payload l ! i)))"
| "pc_ok l t (R_done (Some out)) =
    ((\<exists>j. since l t - 1 \<le> j \<and> j < length (past l) \<and> out = past l ! j) \<or> 2 ^ 31 \<le> length (past l) - seen l t)"
| "pc_ok l t _ = True"

definition seq_inv :: "('t, 'b) seqlock \<Rightarrow> bool" where
  "seq_inv l \<longleftrightarrow> past l \<noteq> [] \<and> (\<forall>t. holds_lock (qpc l t) \<longleftrightarrow> w_owner l = Some t) \<and> word_seq l = of_nat (ticks l) \<and>
     (\<not> busy l \<longrightarrow> payload l = last (past l)) \<and> (\<forall>t. pc_ok l t (qpc l t))"

lemma changing_holds: "changing p \<Longrightarrow> holds_lock p"
  by (cases p) auto

lemma seq_invD:
  assumes "seq_inv l"
  shows "past l \<noteq> []" "\<And>t. holds_lock (qpc l t) \<longleftrightarrow> w_owner l = Some t" "word_seq l = of_nat (ticks l)"
    "\<not> busy l \<Longrightarrow> payload l = last (past l)" "\<And>t. pc_ok l t (qpc l t)"
  using assms by (auto simp: seq_inv_def)

lemma busy_owner: "seq_inv l \<Longrightarrow> holds_lock (qpc l t) \<Longrightarrow> busy l \<longleftrightarrow> changing (qpc l t)"
  using changing_holds seq_invD(2) [of l] by (force simp: busy_def)

text \<open>A thread that does not hold the lock does not mind what the others do, as long as the value stays when its number of completions does.\<close>

lemma pc_ok_mono:
  assumes "pc_ok l u p" "\<not> holds_lock p" "length (payload l') = length (payload l)" "past l' = past l @ ws" "since l' u = since l u" "seen l' u = seen l u"
    and stay: "ws = [] \<Longrightarrow> \<not> busy l' \<Longrightarrow> \<not> busy l \<and> payload l' = payload l"
  shows "pc_ok l' u p"
proof (cases p)
  case (R_copy tr s0 out)
  show ?thesis
  proof (cases "ws = [] \<and> \<not> busy l'")
    case True then show ?thesis using assms R_copy stay by auto
  next
    case False then show ?thesis using assms R_copy by auto
  qed
next
  case (R_done r)
  show ?thesis
  proof (cases r)
    case (Some out)
    from assms(1) have "(\<exists>j. since l u - 1 \<le> j \<and> j < length (past l) \<and> out = past l ! j) \<or> 2 ^ 31 \<le> length (past l) - seen l u" by (simp add: R_done Some)
    then show ?thesis
    proof
      assume "\<exists>j. since l u - 1 \<le> j \<and> j < length (past l) \<and> out = past l ! j"
      then obtain j where "since l u - 1 \<le> j" "j < length (past l)" "out = past l ! j" by blast
      then have "since l u - 1 \<le> j \<and> j < length (past l') \<and> out = past l' ! j" using assms(4) by (simp add: nth_append)
      then show ?thesis using R_done Some assms(5) by auto
    qed (use R_done Some assms(4,6) in auto)
  qed (use R_done in simp)
qed (use assms in auto)

text \<open>A step of one thread that leaves the lock as it is.\<close>

lemma seq_inv_local:
  assumes inv: "seq_inv l" and t: "changing p = changing (qpc l t)" "holds_lock p = holds_lock (qpc l t)"
    and l': "l' = qgoto t p l\<lparr>since := (since l)(t := a), seen := (seen l)(t := b)\<rparr>"
    and ok: "busy l' = busy l \<Longrightarrow> pc_ok l' t p"
  shows "seq_inv l'"
proof -
  note D = seq_invD [OF inv]
  have pc: "qpc l' = (qpc l)(t := p)" "word_seq l' = word_seq l" "w_owner l' = w_owner l" "payload l' = payload l" "past l' = past l"
    "u \<noteq> t \<Longrightarrow> since l' u = since l u \<and> seen l' u = seen l u" for u
    using l' by (simp_all add: qgoto_def)
  have b: "busy l' = busy l" using t(1) pc(1) by (auto simp: busy_def)
  have "pc_ok l' u (qpc l' u)" for u
  proof (cases "u = t")
    case True then show ?thesis using ok b pc(1) by simp
  next
    case False
    have "pc_ok l' u (qpc l u) = pc_ok l u (qpc l u)" using pc(2-6) False b by (cases "(l, u, qpc l u)" rule: pc_ok.cases) auto
    then show ?thesis using D(5) False pc(1) by simp
  qed
  then show ?thesis using D(1-4) t(2) pc(1-5) b by (auto simp: seq_inv_def ticks_def)
qed

lemma seq_inv_goto:
  assumes inv: "seq_inv l" and t: "changing p = changing (qpc l t)" "holds_lock p = holds_lock (qpc l t)"
  shows "(busy (qgoto t p l) = busy l \<Longrightarrow> pc_ok (qgoto t p l) t p) \<Longrightarrow> seq_inv (qgoto t p l)"
    "(busy (qgoto t p l\<lparr>since := (since l)(t := a)\<rparr>) = busy l \<Longrightarrow> pc_ok (qgoto t p l\<lparr>since := (since l)(t := a)\<rparr>) t p) \<Longrightarrow>
      seq_inv (qgoto t p l\<lparr>since := (since l)(t := a)\<rparr>)"
    "(busy (qgoto t p l\<lparr>seen := (seen l)(t := a)\<rparr>) = busy l \<Longrightarrow> pc_ok (qgoto t p l\<lparr>seen := (seen l)(t := a)\<rparr>) t p) \<Longrightarrow>
      seq_inv (qgoto t p l\<lparr>seen := (seen l)(t := a)\<rparr>)"
  by (rule seq_inv_local [OF inv t, where a = "since l t" and b = "seen l t"], simp add: qgoto_def, simp)
    (rule seq_inv_local [OF inv t, where a = a and b = "seen l t"], simp add: qgoto_def, simp,
     rule seq_inv_local [OF inv t, where a = "since l t" and b = a], simp add: qgoto_def, simp)

text \<open>A step of the thread that holds the lock.\<close>

lemma seq_inv_holder:
  assumes inv: "seq_inv l" and own: "w_owner l = Some t"
    and l': "past l' = past l @ ws" "length (payload l') = length (payload l)" "qpc l' = (qpc l)(t := p)" "since l' = since l" "seen l' = seen l"
      "w_owner l' = (if holds_lock p then Some t else None)"
    and stay: "ws = [] \<Longrightarrow> \<not> changing p \<Longrightarrow> \<not> changing (qpc l t) \<and> payload l' = payload l"
    and new: "word_seq l' = of_nat (2 * (length (past l') - 1) + (if changing p then 1 else 0))"
      "\<not> changing p \<Longrightarrow> payload l' = last (past l')" "pc_ok l' t p"
  shows "seq_inv l'"
proof -
  note D = seq_invD [OF inv]
  have others: "\<not> holds_lock (qpc l u)" if "u \<noteq> t" for u using D(2) own that by auto
  then have b: "busy l' = changing p" using l'(3) changing_holds by (auto simp: busy_def)
  have bl: "busy l = changing (qpc l t)" using busy_owner [OF inv] D(2) own by blast
  have "pc_ok l' u (qpc l' u)" for u
  proof (cases "u = t")
    case False
    then have "pc_ok l' u (qpc l u)" using others D(5) [of u] l' stay b bl by (intro pc_ok_mono [of l u "qpc l u" l' ws]) auto
    then show ?thesis using False l'(3) by simp
  qed (use new(3) l'(3) in simp)
  then show ?thesis using D(1) l'(1,3,6) new(1,2) others b by (auto simp: seq_inv_def ticks_def)
qed

text \<open>What the second look at the sequence number shows.\<close>

lemma even_number: "(of_nat (2 * n) :: u32) AND 1 = 0" "(of_nat (2 * n + 1) :: u32) AND 1 = 1"
  by (simp_all add: and_one_eq mod_2_eq_odd)

lemma same_number:
  assumes "(of_nat (2 * a) :: u32) = of_nat (2 * b)" "a \<le> b" "b - a < 2 ^ 31"
  shows "a = b"
proof -
  have "2 * b mod 2 ^ 32 = 2 * a mod 2 ^ 32" using assms(1) unfolding word_of_nat_eq_iff take_bit_eq_mod by simp
  then have "2 ^ 32 dvd (2 * b - 2 * a)" using mod_eq_dvd_iff_nat [of "2 * a" "2 * b"] assms(2) by simp
  moreover have "2 * b - 2 * a < 2 ^ 32" using assms(3) by simp
  ultimately have "2 * b - 2 * a = 0" using nat_dvd_not_less by blast
  then show ?thesis using assms(2) by simp
qed

lemma word_seq_quiet: "seq_inv l \<Longrightarrow> word_seq l AND 1 = 0 \<longleftrightarrow> \<not> busy l"
proof -
  assume "seq_inv l"
  then have "word_seq l = of_nat (ticks l)" by (rule seq_invD(3))
  then show ?thesis unfolding ticks_def using even_number [of "length (past l) - 1"] by (cases "busy l") (simp_all only: if_True if_False add_0_right, simp_all)
qed

lemma loaded:
  assumes inv: "seq_inv l" and t: "qpc l t = R_copy tr s0 out" and c: "dom out = {..<length (payload l)}" "word_seq l = s0"
    and l': "past l' = past l" "since l' t = since l t" "seen l' t = seen l t"
  shows "pc_ok l' t (R_done (Some (copied (length (payload l)) out)))"
proof (cases "length (past l) - seen l t < 2 ^ 31")
  case True
  note D = seq_invD [OF inv]
  have r: "1 \<le> since l t" "since l t \<le> seen l t" "seen l t \<le> length (past l)" "s0 = of_nat (2 * (seen l t - 1))"
    "seen l t = length (past l) \<and> \<not> busy l \<longrightarrow> (\<forall>i x. out i = Some x \<longrightarrow> x = payload l ! i)"
    using D(5) [of t] t by simp_all
  have nb: "\<not> busy l" using word_seq_quiet [OF inv] c(2) r(4) even_number(1) by metis
  then have "word_seq l = of_nat (2 * (length (past l) - 1))" using D(3) by (simp add: ticks_def)
  then have "seen l t - 1 = length (past l) - 1" using same_number [of "seen l t - 1" "length (past l) - 1"] c(2) r True by simp
  then have e: "seen l t = length (past l)" using r(1-3) by simp
  have "copied (length (payload l)) out = payload l"
    using r(5) e nb c(1) by (intro nth_equalityI) (auto simp: copied_def domD lessThan_def)
  also have "\<dots> = past l ! (length (past l) - 1)" using D(4) [OF nb] last_conv_nth [OF D(1)] by simp
  finally show ?thesis using r(2) e D(1) l' by (auto intro!: exI [of _ "length (past l) - 1"])
qed (use l' in auto)

lemma seq_step_inv:
  assumes inv: "seq_inv l" and "seq_step l l'"
  shows "seq_inv l'"
  using assms(2)
proof cases
  note D = seq_invD [OF inv]
  have own: "w_owner l = Some t" if "holds_lock (qpc l t)" for t using D(2) that by blast
  have pc: "pc_ok l t (qpc l t)" for t using D(5) .
  have len: "1 \<le> length (past l)" using D(1) by (simp add: Suc_leI)
  {
    case (write_call t w) then show ?thesis using pc [of t] unfolding write_call(1) by (intro seq_inv_goto(1) [OF inv]) (auto simp: qgoto_def)
  next
    case (write_lock t w)
    have "\<not> changing (qpc l u)" for u using changing_holds [of "qpc l u"] D(2) [of u] write_lock(3) by auto
    then have b: "busy l' = busy l" using write_lock(1) by (auto simp: busy_def qgoto_def)
    have "pc_ok l' u (qpc l' u)" for u
      using pc [of u] pc [of t] write_lock b by (cases "(l, u, qpc l u)" rule: pc_ok.cases) (auto simp: qgoto_def)
    then show ?thesis using D(1-4) write_lock b by (auto simp: seq_inv_def ticks_def qgoto_def)
  next
    case (write_read t w)
    then show ?thesis using pc [of t] unfolding write_read(1) by (intro seq_inv_goto(1) [OF inv]) (auto simp: qgoto_def)
  next
    case (write_begin t w s)
    have nb: "\<not> busy l" using busy_owner [OF inv, of t] write_begin(2) by simp
    then have "s = of_nat (2 * (length (past l) - 1))" using pc [of t] write_begin(2) D(3) by (simp add: ticks_def)
    then show ?thesis using write_begin pc [of t] own [of t]
      by (intro seq_inv_holder [OF inv, where t = t and ws = "[]" and p = "W_body w s (payload l)"]) (auto simp: qgoto_def)
  next
    case (store_byte t n s old i)
    have b: "busy l" using store_byte(2) by (auto simp: busy_def intro: exI [of _ t])
    then show ?thesis using store_byte pc [of t] own [of t] D(3)
      by (intro seq_inv_holder [OF inv, where t = t and ws = "[]" and p = "qpc l t"]) (auto simp: ticks_def)
  next
    case (store_copied t n s old)
    then show ?thesis using pc [of t] unfolding store_copied(1) by (intro seq_inv_goto(1) [OF inv]) (auto simp: qgoto_def)
  next
    case (write_byte t f s old i x)
    have b: "busy l" using write_byte(2) by (auto simp: busy_def intro: exI [of _ t])
    then show ?thesis using write_byte pc [of t] own [of t] D(3)
      by (intro seq_inv_holder [OF inv, where t = t and ws = "[]" and p = "qpc l t"]) (auto simp: ticks_def)
  next
    case (write_applied t f s old)
    then show ?thesis using pc [of t] unfolding write_applied(1) by (intro seq_inv_goto(1) [OF inv]) (auto simp: qgoto_def)
  next
    case (write_publish t s)
    have "s + 2 = of_nat (2 * length (past l))"
    proof -
      have "2 * length (past l) = 2 * (length (past l) - 1) + 2" using len by simp
      then show ?thesis using pc [of t] write_publish(2) by simp
    qed
    then show ?thesis using write_publish pc [of t] own [of t]
      by (intro seq_inv_holder [OF inv, where t = t and ws = "[payload l]" and p = W_unlock]) (auto simp: qgoto_def)
  next
    case (write_unlock t)
    then have nb: "\<not> busy l" using busy_owner [OF inv, of t] by simp
    then show ?thesis using write_unlock own [of t] D(3,4)
      by (intro seq_inv_holder [OF inv, where t = t and ws = "[]" and p = Q_out]) (auto simp: qgoto_def ticks_def)
  next
    case (load_call t tr)
    then show ?thesis using len unfolding load_call(1) by (intro seq_inv_goto(2) [OF inv]) (auto simp: qgoto_def)
  next
    case (load_odd t tr)
    then show ?thesis using pc [of t]
      unfolding load_odd(1) by (intro seq_inv_goto(1) [OF inv]) (auto simp: qgoto_def)
  next
    case (load_even t tr)
    have "word_seq l = of_nat (2 * (length (past l) - 1))" using D(3) word_seq_quiet [OF inv] load_even(3) by (simp add: ticks_def)
    then show ?thesis using load_even pc [of t] len
      unfolding load_even(1) by (intro seq_inv_goto(3) [OF inv]) (auto simp: qgoto_def)
  next
    case (load_byte t tr s0 out i)
    then show ?thesis using pc [of t]
      unfolding load_byte(1) by (intro seq_inv_goto(1) [OF inv]) (auto simp: qgoto_def)
  next
    case (load_same t tr s0 out)
    have "pc_ok l' t (R_done (Some (copied (length (payload l)) out)))" by (rule loaded [OF inv load_same(2-4)]) (simp_all add: load_same(1) qgoto_def)
    then show ?thesis using load_same
      unfolding load_same(1) by (intro seq_inv_goto(1) [OF inv]) auto
  next
    case (load_changed t tr s0 out)
    then show ?thesis using pc [of t]
      unfolding load_changed(1) by (intro seq_inv_goto(1) [OF inv]) (auto simp: qgoto_def)
  next
    case (load_return t r)
    then show ?thesis unfolding load_return(1) by (intro seq_inv_goto(1) [OF inv]) (auto simp: qgoto_def)
  }
qed

interpretation slock: exclusive_lock "\<lambda>l. \<exists>init. l = seq_new init" seq_step seq_inv "\<lambda>l t. holds_lock (qpc l t)"
proof
  fix l l' :: "('a, 'b) seqlock" and t u
  show "seq_inv l" if "\<exists>init. l = seq_new init" using that by (auto simp: seq_inv_def seq_new_def ticks_def busy_def)
  show "seq_inv l'" if "seq_inv l" "seq_step l l'" using seq_step_inv [OF that] .
  show "t = u" if "seq_inv l" "holds_lock (qpc l t)" "holds_lock (qpc l u)" using seq_invD(2) [OF that(1)] that(2,3) by auto
qed

subsection \<open>A reader that is left alone\<close>

lemma load_bytes:
  assumes "qpc l t = R_copy tr s0 Map.empty" "m \<le> length (payload l)"
  shows "seq_step\<^sup>*\<^sup>* l (qgoto t (R_copy tr s0 (\<lambda>i. if i < m then Some (payload l ! i) else None)) l)"
  using assms(2)
proof (induction m)
  case 0
  have "qgoto t (R_copy tr s0 (\<lambda>i. None)) l = l" using assms(1) fun_upd_triv [of "qpc l" t] by (simp add: qgoto_def)
  then show ?case by simp
next
  case (Suc m)
  let ?g = "\<lambda>m. qgoto t (R_copy tr s0 (\<lambda>i. if i < m then Some (payload l ! i) else None)) l"
  have "(\<lambda>i. if i < m then Some (payload l ! i) else None)(m \<mapsto> payload l ! m) = (\<lambda>i. if i < Suc m then Some (payload l ! i) else None)"
    by (auto simp: fun_eq_iff less_Suc_eq)
  then have "seq_step (?g m) (?g (Suc m))"
    using load_byte [of "?g m" t tr s0 _ m] Suc.prems by (simp add: qgoto_def)
  then show ?case using Suc by (meson Suc_leD rtranclp.rtrancl_into_rtrancl)
qed

lemma load_alone:
  assumes "qpc l t = R_look tr" "word_seq l AND 1 = 0"
  shows "\<exists>l'. seq_step\<^sup>*\<^sup>* l l' \<and> qpc l' t = R_done (Some (payload l))"
proof -
  let ?k = "length (payload l)" and ?f = "\<lambda>i. if i < length (payload l) then Some (payload l ! i) else None"
  let ?l1 = "qgoto t (R_copy tr (word_seq l) Map.empty) l\<lparr>seen := (seen l)(t := length (past l))\<rparr>"
  have a: "seq_step l ?l1" using load_even [OF assms] .
  have eq: "payload ?l1 = payload l" "word_seq ?l1 = word_seq l" "qpc ?l1 t = R_copy tr (word_seq l) Map.empty" by (simp_all add: qgoto_def)
  let ?l2 = "qgoto t (R_copy tr (word_seq l) ?f) ?l1"
  have b: "seq_step\<^sup>*\<^sup>* ?l1 ?l2" using load_bytes [OF eq(3), of ?k] unfolding eq(1) by simp
  have "copied ?k ?f = payload l" by (intro nth_equalityI) (simp_all add: copied_def)
  moreover have "dom ?f = {..<?k}" by (auto simp: dom_def split: if_splits)
  ultimately have "seq_step ?l2 (qgoto t (R_done (Some (payload l))) ?l2)"
    using load_same [of ?l2 t tr "word_seq l" ?f] by (simp add: qgoto_def)
  then have "seq_step\<^sup>*\<^sup>* l (qgoto t (R_done (Some (payload l))) ?l2)" using a b by (meson converse_rtranclp_into_rtranclp rtranclp.rtrancl_into_rtrancl)
  then show ?thesis by (intro exI conjI) (auto simp: qgoto_def)
qed

text \<open>
  C12: In every run of the sequence lock one writer at a time holds the inner lock and the number is odd exactly while it changes the value.  A
  value that \<^verbatim>\<open>load\<close> or \<^verbatim>\<open>try_load\<close> returns is never torn: it was the value of the lock at some time since the call, provided that
  fewer than \<open>2\<^sup>31\<close> writes completed since the reader looked at the number.  A reader that looks while nobody writes and is left alone
  returns the current value.
\<close>

theorem seqlock_never_torn:
  assumes "seq_step\<^sup>*\<^sup>* (seq_new init) l"
  shows "(\<forall>t out. qpc l t = R_done (Some out) \<and> length (past l) - seen l t < 2 ^ 31 \<longrightarrow>
      (\<exists>j. since l t - 1 \<le> j \<and> j < length (past l) \<and> out = past l ! j)) \<and>
    (\<forall>t u. holds_lock (qpc l t) \<and> holds_lock (qpc l u) \<longrightarrow> t = u) \<and>
    (seq_writing l \<longleftrightarrow> (\<exists>t. changing (qpc l t))) \<and> (\<not> seq_writing l \<longrightarrow> payload l = last (past l)) \<and>
    (\<forall>t tr. qpc l t = R_look tr \<and> \<not> seq_writing l \<longrightarrow> (\<exists>l'. seq_step\<^sup>*\<^sup>* l l' \<and> qpc l' t = R_done (Some (payload l))))"
proof -
  have inv: "seq_inv l" using slock.reach_inv [OF _ assms] by blast
  have w: "seq_writing l \<longleftrightarrow> busy l" using word_seq_quiet [OF inv] by (auto simp: seq_writing_def)
  have torn: "\<exists>j. since l t - 1 \<le> j \<and> j < length (past l) \<and> out = past l ! j" if "qpc l t = R_done (Some out)" "length (past l) - seen l t < 2 ^ 31" for t out
    using seq_invD(5) [OF inv, of t] that by auto
  have excl: "t = u" if "holds_lock (qpc l t)" "holds_lock (qpc l u)" for t u using slock.inv_exclusive [OF inv] that by blast
  have alone: "\<exists>l'. seq_step\<^sup>*\<^sup>* l l' \<and> qpc l' t = R_done (Some (payload l))" if "qpc l t = R_look tr" "\<not> seq_writing l" for t tr
    using load_alone [OF that(1)] that(2) by (simp add: seq_writing_def)
  show ?thesis using torn excl alone w seq_invD(4) [OF inv] by (auto simp: busy_def)
qed

theorem seqlock_never_torn_witness:
  "\<exists>l :: (nat, nat) seqlock. seq_step\<^sup>*\<^sup>* (seq_new [1, 2]) l \<and> qpc l 0 = R_done (Some [1, 2])"
proof -
  let ?n = "seq_new [1, 2] :: (nat, nat) seqlock" let ?l = "qgoto 0 (R_look False) ?n\<lparr>since := (since ?n)(0 := length (past ?n))\<rparr>"
  have step: "seq_step ?n ?l" by (rule load_call) (simp add: seq_new_def)
  then have "seq_step\<^sup>*\<^sup>* ?n ?l" by blast
  moreover have "qpc ?l 0 = R_look False \<and> \<not> seq_writing ?l" "payload ?l = [1, 2]" by (simp_all add: seq_new_def qgoto_def seq_writing_def)
  ultimately obtain l' where "seq_step\<^sup>*\<^sup>* ?l l'" "qpc l' 0 = R_done (Some [1, 2])" using seqlock_never_torn [of "[1, 2]" ?l] by metis
  then show ?thesis using step by (meson converse_rtranclp_into_rtranclp)
qed

end
