(* ===== verification/Lock_Recursive.thy ===== *)
theory Lock_Recursive
  imports Lock_Base
begin

text \<open>
  The recursive lock of \<^verbatim>\<open>src/src/mutex/locks/recursive_lock.hpp\<close>.  The lock stores the stamp of its owner and how often the owner has taken it.
  A thread gets its stamp from a counter when it calls the lock for the first time.
\<close>

type_synonym u64 = "64 word"

subsection \<open>The lock\<close>

text \<open>The flag tells \<^verbatim>\<open>try_lock\<close> from \<^verbatim>\<open>lock\<close>; the states beginning with \<open>U\<close> are those of \<^verbatim>\<open>reset\<close>, which \<^verbatim>\<open>unlock\<close> calls.\<close>

datatype rec_pc = C_out | L_read bool | L_again | L_cas bool | L_set | U_read | U_depth | U_less u64 | U_zero | U_owner

text \<open>\<open>held\<close> counts the acquisitions of a thread that it has not given back; no step depends on it.\<close>

record 't recursive_lock =
  rc_owner :: u64
  rc_depth :: u64
  owner_ids :: u64
  stamp :: "'t \<Rightarrow> u64"
  rpc :: "'t \<Rightarrow> rec_pc"
  held :: "'t \<Rightarrow> nat"

definition rec_new :: "'t recursive_lock" where
  "rec_new = \<lparr>rc_owner = 0, rc_depth = 0, owner_ids = 1, stamp = (\<lambda>_. 0), rpc = (\<lambda>_. C_out), held = (\<lambda>_. 0)\<rparr>"

definition rec_is_locked :: "'t recursive_lock \<Rightarrow> bool" where
  "rec_is_locked l \<longleftrightarrow> rc_owner l \<noteq> 0"

definition lock_depth :: "'t recursive_lock \<Rightarrow> u64" where
  "lock_depth l = rc_depth l"

definition rgoto :: "'t \<Rightarrow> rec_pc \<Rightarrow> 't recursive_lock \<Rightarrow> 't recursive_lock" where
  "rgoto t p l = l\<lparr>rpc := (rpc l)(t := p)\<rparr>"

definition set_held :: "'t \<Rightarrow> nat \<Rightarrow> 't recursive_lock \<Rightarrow> 't recursive_lock" where
  "set_held t n l = l\<lparr>held := (held l)(t := n)\<rparr>"

text \<open>The counter of stamps and the depth do not wrap around.  The compare-and-swap is of the weak form and may fail on a free lock.\<close>

inductive rec_step :: "'t recursive_lock \<Rightarrow> 't recursive_lock \<Rightarrow> bool" where
  first_call: "stamp l t = 0 \<Longrightarrow> owner_ids l + 1 \<noteq> 0 \<Longrightarrow>
    rec_step l (l\<lparr>stamp := (stamp l)(t := owner_ids l), owner_ids := owner_ids l + 1\<rparr>)"
| lock_call: "rpc l t = C_out \<Longrightarrow> stamp l t \<noteq> 0 \<Longrightarrow> rec_step l (rgoto t (L_read tr) l)"
| read_mine: "rpc l t = L_read tr \<Longrightarrow> rc_owner l = stamp l t \<Longrightarrow> rec_step l (rgoto t L_again l)"
| read_free: "rpc l t = L_read tr \<Longrightarrow> rc_owner l \<noteq> stamp l t \<Longrightarrow> rc_owner l = 0 \<Longrightarrow> rec_step l (rgoto t (L_cas tr) l)"
| read_taken: "rpc l t = L_read tr \<Longrightarrow> rc_owner l \<noteq> stamp l t \<Longrightarrow> rc_owner l \<noteq> 0 \<Longrightarrow> rec_step l (rgoto t (if tr then C_out else L_read False) l)"
| again: "rpc l t = L_again \<Longrightarrow> rc_depth l + 1 \<noteq> 0 \<Longrightarrow>
    rec_step l (set_held t (held l t + 1) (rgoto t C_out l)\<lparr>rc_depth := rc_depth l + 1\<rparr>)"
| cas_won: "rpc l t = L_cas tr \<Longrightarrow> rc_owner l = 0 \<Longrightarrow> rec_step l (rgoto t L_set l\<lparr>rc_owner := stamp l t\<rparr>)"
| cas_lost: "rpc l t = L_cas tr \<Longrightarrow> rec_step l (rgoto t (if tr then C_out else L_read False) l)"
| set_depth: "rpc l t = L_set \<Longrightarrow> rec_step l (set_held t 1 (rgoto t C_out l)\<lparr>rc_depth := 1\<rparr>)"
| unlock_call: "rpc l t = C_out \<Longrightarrow> stamp l t \<noteq> 0 \<Longrightarrow> rec_step l (rgoto t U_read l)"
| unlock_other: "rpc l t = U_read \<Longrightarrow> rc_owner l \<noteq> stamp l t \<Longrightarrow> rec_step l (rgoto t C_out l)"
| unlock_mine: "rpc l t = U_read \<Longrightarrow> rc_owner l = stamp l t \<Longrightarrow> rec_step l (rgoto t U_depth l)"
| depth_none: "rpc l t = U_depth \<Longrightarrow> rc_depth l = 0 \<Longrightarrow> rec_step l (rgoto t C_out l)"
| depth_more: "rpc l t = U_depth \<Longrightarrow> rc_depth l > 1 \<Longrightarrow> rec_step l (rgoto t (U_less (rc_depth l)) l)"
| depth_last: "rpc l t = U_depth \<Longrightarrow> rc_depth l = 1 \<Longrightarrow> rec_step l (rgoto t U_zero l)"
| less: "rpc l t = U_less d \<Longrightarrow> rec_step l (set_held t (held l t - 1) (rgoto t C_out l)\<lparr>rc_depth := d - 1\<rparr>)"
| zero: "rpc l t = U_zero \<Longrightarrow> rec_step l (set_held t 0 (rgoto t U_owner l)\<lparr>rc_depth := 0\<rparr>)"
| release: "rpc l t = U_owner \<Longrightarrow> rec_step l (rgoto t C_out l\<lparr>rc_owner := 0\<rparr>)"

subsection \<open>The invariant\<close>

text \<open>What a thread knows at each point, if it is the owner or not.\<close>

fun owner_at :: "u64 \<Rightarrow> nat \<Rightarrow> rec_pc \<Rightarrow> bool" where
  "owner_at d n L_set = (d = 0 \<and> n = 0)"
| "owner_at d n U_owner = (d = 0 \<and> n = 0)"
| "owner_at d n (L_cas tr) = False"
| "owner_at d n (U_less e) = (d = e \<and> 1 < d \<and> unat d = n)"
| "owner_at d n U_zero = (d = 1 \<and> n = 1)"
| "owner_at d n p = (unat d = n \<and> 0 < n)"

fun other_at :: "rec_pc \<Rightarrow> bool" where
  "other_at C_out = True"
| "other_at (L_read tr) = True"
| "other_at (L_cas tr) = True"
| "other_at U_read = True"
| "other_at p = False"

definition stamps_ok :: "'t recursive_lock \<Rightarrow> bool" where
  "stamps_ok l \<longleftrightarrow> owner_ids l \<noteq> 0 \<and> (\<forall>t. stamp l t < owner_ids l) \<and> (\<forall>t u. stamp l t = stamp l u \<longrightarrow> stamp l t = 0 \<or> t = u) \<and>
     (\<forall>t. stamp l t = 0 \<longrightarrow> rpc l t = C_out)"

definition owns :: "'t recursive_lock \<Rightarrow> 't \<Rightarrow> bool" where
  "owns l t \<longleftrightarrow> rc_owner l \<noteq> 0 \<and> rc_owner l = stamp l t"

definition at_ok :: "'t recursive_lock \<Rightarrow> 't \<Rightarrow> bool" where
  "at_ok l t \<longleftrightarrow> (if owns l t then owner_at (rc_depth l) (held l t) (rpc l t) else held l t = 0 \<and> other_at (rpc l t))"

definition rec_inv :: "'t recursive_lock \<Rightarrow> bool" where
  "rec_inv l \<longleftrightarrow> stamps_ok l \<and> (rc_owner l = 0 \<longrightarrow> rc_depth l = 0) \<and> (rc_owner l \<noteq> 0 \<longrightarrow> (\<exists>t. rc_owner l = stamp l t)) \<and> (\<forall>t. at_ok l t)"

lemma rec_invD:
  assumes "rec_inv l"
  shows "stamps_ok l" "rc_owner l = 0 \<Longrightarrow> rc_depth l = 0" "rc_owner l \<noteq> 0 \<Longrightarrow> \<exists>t. rc_owner l = stamp l t" "at_ok l t"
  using assms by (auto simp: rec_inv_def)

lemma owns_unique: "rec_inv l \<Longrightarrow> owns l t \<Longrightarrow> owns l u \<Longrightarrow> t = u"
  using rec_invD(1) [of l] unfolding owns_def stamps_ok_def by metis

lemma called_stamp: "rec_inv l \<Longrightarrow> rpc l t \<noteq> C_out \<Longrightarrow> stamp l t \<noteq> 0"
  using rec_invD(1) [of l] by (auto simp: stamps_ok_def)

text \<open>A step of one thread that has a stamp.\<close>

lemma rec_inv_thread:
  assumes inv: "rec_inv l" and st: "stamp l t \<noteq> 0"
    and l': "stamp l' = stamp l" "owner_ids l' = owner_ids l" "rpc l' = (rpc l)(t := p)" "held l' = (held l)(t := n)"
    and ow: "rc_owner l' = rc_owner l \<and> (rc_depth l' = rc_depth l \<or> owns l t) \<or> rc_owner l = 0 \<and> rc_owner l' = stamp l t \<or> owns l t \<and> rc_owner l' = 0"
    and d: "rc_owner l' = 0 \<Longrightarrow> rc_depth l' = 0" and ok: "at_ok l' t"
  shows "rec_inv l'"
proof -
  note D = rec_invD [OF inv]
  have "at_ok l' u" for u
  proof (cases "u = t")
    case False
    have ne: "stamp l u \<noteq> stamp l t" using False D(1) st unfolding stamps_ok_def by metis
    have nu: "owns l t \<Longrightarrow> \<not> owns l u" using owns_unique [OF inv] False by blast
    have "owns l' u = owns l u \<and> (owns l u \<longrightarrow> rc_depth l' = rc_depth l)"
      using ow
    proof (elim disjE conjE)
      assume "rc_owner l = 0" "rc_owner l' = stamp l t" then show ?thesis using ne l'(1) by (simp add: owns_def)
    next
      assume "owns l t" "rc_owner l' = 0" then show ?thesis using nu by (auto simp: owns_def [of l'])
    qed (use nu l'(1) in \<open>auto simp: owns_def\<close>)
    then show ?thesis using D(4) [of u] l'(3,4) False by (auto simp: at_ok_def)
  qed (use ok in simp)
  moreover have "stamps_ok l'" using D(1) l'(1-3) st by (auto simp: stamps_ok_def)
  moreover have "\<exists>t. rc_owner l' = stamp l' t" if "rc_owner l' \<noteq> 0" using ow that D(3) l'(1) by auto
  ultimately show ?thesis using d by (auto simp: rec_inv_def)
qed

lemma rec_first_call:
  assumes inv: "rec_inv l" and c: "stamp l t = 0" "owner_ids l + 1 \<noteq> 0"
  shows "rec_inv (l\<lparr>stamp := (stamp l)(t := owner_ids l), owner_ids := owner_ids l + 1\<rparr>)" (is "rec_inv ?l")
proof -
  note D = rec_invD [OF inv]
  have S: "owner_ids l \<noteq> 0" "\<And>u. stamp l u < owner_ids l" "\<And>u. stamp l u = 0 \<Longrightarrow> rpc l u = C_out"
    "\<And>u w. stamp l u = stamp l w \<Longrightarrow> stamp l u = 0 \<or> u = w" using D(1) by (auto simp: stamps_ok_def)
  have up: "owner_ids l < owner_ids l + 1" using c(2) unatSuc [of "owner_ids l"] by (simp add: word_less_nat_alt add.commute)
  have ne: "stamp l u \<noteq> owner_ids l" for u using S(2) [of u] by simp
  have "stamps_ok ?l" using S up c ne by (auto simp: stamps_ok_def intro: less_trans) (metis ne)+
  moreover have fresh: "rc_owner l \<noteq> owner_ids l" using D(3) S(1) ne by metis
  moreover have "owns ?l u = owns l u" for u using fresh c(1) by (auto simp: owns_def)
  moreover have "\<exists>u. rc_owner l = stamp ?l u" if o: "rc_owner l \<noteq> 0"
  proof -
    obtain u where u: "rc_owner l = stamp l u" using D(3) o by blast
    then have "u \<noteq> t" using o c(1) by auto
    then show ?thesis using u by (intro exI [of _ u]) simp
  qed
  ultimately show ?thesis using D(2,4) by (auto simp: rec_inv_def at_ok_def)
qed

lemma unat_next: "(d :: u64) + 1 \<noteq> 0 \<Longrightarrow> unat (d + 1) = unat d + 1"
  using unatSuc [of d] by (simp add: add.commute)

lemma unat_prev: "1 < (d :: u64) \<Longrightarrow> unat (d - 1) = unat d - 1 \<and> 0 < unat (d - 1)"
proof -
  assume d: "1 < d"
  then have "d \<noteq> 0" by auto
  then have "unat (d - 1) = unat d - 1" by (rule unat_minus_one)
  then show ?thesis using d by (simp add: word_less_nat_alt)
qed

lemma rec_step_inv:
  assumes inv: "rec_inv l" and "rec_step l l'"
  shows "rec_inv l'"
  using assms(2)
proof cases
  have ok: "at_ok l t" for t using rec_invD(4) [OF inv] .
  have z: "rc_owner l = 0 \<Longrightarrow> rc_depth l = 0" using rec_invD(2) [OF inv] .
  note st = called_stamp [OF inv]
  {
    case (first_call t) then show ?thesis using rec_first_call [OF inv] by simp
  next
    case (lock_call t tr) then show ?thesis using ok [of t] z by (intro rec_inv_thread [OF inv, of t l' "L_read tr" "held l t"]) (auto simp: rgoto_def at_ok_def owns_def)
  next
    case (read_mine t tr) then show ?thesis using ok [of t] z st [of t] by (intro rec_inv_thread [OF inv, of t l' L_again "held l t"]) (auto simp: rgoto_def at_ok_def owns_def)
  next
    case (read_free t tr) then show ?thesis using ok [of t] z st [of t] by (intro rec_inv_thread [OF inv, of t l' "L_cas tr" "held l t"]) (auto simp: rgoto_def at_ok_def owns_def)
  next
    case (read_taken t tr) then show ?thesis using ok [of t] z st [of t] by (intro rec_inv_thread [OF inv, of t l' "if tr then C_out else L_read False" "held l t"]) (auto simp: rgoto_def at_ok_def owns_def)
  next
    case (again t)
    then have o: "owns l t" using ok [of t] by (auto simp: at_ok_def split: if_splits)
    then show ?thesis using again ok [of t] st [of t] unat_next [of "rc_depth l"]
      by (intro rec_inv_thread [OF inv, of t l' C_out "held l t + 1"]) (auto simp: rgoto_def set_held_def at_ok_def owns_def)
  next
    case (cas_won t tr) then show ?thesis using ok [of t] z st [of t] by (intro rec_inv_thread [OF inv, of t l' L_set "held l t"]) (auto simp: rgoto_def at_ok_def owns_def)
  next
    case (cas_lost t tr) then show ?thesis using ok [of t] z st [of t] by (intro rec_inv_thread [OF inv, of t l' "if tr then C_out else L_read False" "held l t"]) (auto simp: rgoto_def at_ok_def owns_def split: if_splits)
  next
    case (set_depth t)
    then have o: "owns l t" using ok [of t] by (auto simp: at_ok_def split: if_splits)
    then show ?thesis using set_depth st [of t] by (intro rec_inv_thread [OF inv, of t l' C_out 1]) (auto simp: rgoto_def set_held_def at_ok_def owns_def)
  next
    case (unlock_call t) then show ?thesis using ok [of t] z by (intro rec_inv_thread [OF inv, of t l' U_read "held l t"]) (auto simp: rgoto_def at_ok_def owns_def)
  next
    case (unlock_other t) then show ?thesis using ok [of t] z st [of t] by (intro rec_inv_thread [OF inv, of t l' C_out "held l t"]) (auto simp: rgoto_def at_ok_def owns_def)
  next
    case (unlock_mine t) then show ?thesis using ok [of t] z st [of t] by (intro rec_inv_thread [OF inv, of t l' U_depth "held l t"]) (auto simp: rgoto_def at_ok_def owns_def)
  next
    case (depth_none t) then show ?thesis using ok [of t] z st [of t] by (intro rec_inv_thread [OF inv, of t l' C_out "held l t"]) (auto simp: rgoto_def at_ok_def owns_def split: if_splits)
  next
    case (depth_more t)
    then show ?thesis using ok [of t] z st [of t] by (intro rec_inv_thread [OF inv, of t l' "U_less (rc_depth l)" "held l t"]) (auto simp: rgoto_def at_ok_def owns_def split: if_splits)
  next
    case (depth_last t)
    then show ?thesis using ok [of t] z st [of t] by (intro rec_inv_thread [OF inv, of t l' U_zero "held l t"]) (auto simp: rgoto_def at_ok_def owns_def split: if_splits)
  next
    case (less t d)
    then have o: "owns l t" using ok [of t] by (auto simp: at_ok_def split: if_splits)
    then show ?thesis using less ok [of t] st [of t] unat_prev [of d]
      by (intro rec_inv_thread [OF inv, of t l' C_out "held l t - 1"]) (auto simp: rgoto_def set_held_def at_ok_def owns_def)
  next
    case (zero t)
    then have o: "owns l t" using ok [of t] by (auto simp: at_ok_def split: if_splits)
    then show ?thesis using zero st [of t] by (intro rec_inv_thread [OF inv, of t l' U_owner 0]) (auto simp: rgoto_def set_held_def at_ok_def owns_def)
  next
    case (release t)
    then have o: "owns l t" "rc_depth l = 0" "held l t = 0" using ok [of t] by (auto simp: at_ok_def split: if_splits)
    then show ?thesis using release st [of t] by (intro rec_inv_thread [OF inv, of t l' C_out "held l t"]) (auto simp: rgoto_def at_ok_def owns_def)
  }
qed

interpretation rlock: exclusive_lock "\<lambda>l. l = rec_new" rec_step rec_inv "\<lambda>l t. 0 < held l t"
proof
  fix l l' :: "'a recursive_lock" and t u
  show "rec_inv l" if "l = rec_new" using that by (auto simp: rec_new_def rec_inv_def stamps_ok_def at_ok_def owns_def)
  show "rec_inv l'" if "rec_inv l" "rec_step l l'" using rec_step_inv [OF that] .
  show "t = u" if inv: "rec_inv l" and h: "0 < held l t" "0 < held l u"
  proof -
    have "owns l t" "owns l u" using rec_invD(4) [OF inv, of t] rec_invD(4) [OF inv, of u] h by (auto simp: at_ok_def split: if_splits)
    then show ?thesis using owns_unique [OF inv] by blast
  qed
qed

text \<open>A thread takes a free lock in three steps, and takes one it holds again in two.\<close>

lemma take_free:
  assumes "rpc l t = L_read tr" "rc_owner l = 0" "stamp l t \<noteq> 0"
  shows "\<exists>l'. rec_step\<^sup>*\<^sup>* l l' \<and> held l' t = 1 \<and> rpc l' t = C_out"
proof -
  have 1: "rec_step l (rgoto t (L_cas tr) l)" (is "rec_step l ?a") using assms by (intro read_free) simp_all
  have 2: "rec_step ?a (rgoto t L_set ?a\<lparr>rc_owner := stamp ?a t\<rparr>)" (is "rec_step ?a ?b") using assms(2) by (intro cas_won) (simp_all add: rgoto_def)
  have 3: "rec_step ?b (set_held t 1 (rgoto t C_out ?b)\<lparr>rc_depth := 1\<rparr>)" (is "rec_step ?b ?c") by (rule set_depth) (simp add: rgoto_def)
  have "rec_step\<^sup>*\<^sup>* l ?c" using 1 2 3 by (meson converse_rtranclp_into_rtranclp r_into_rtranclp)
  moreover have "held ?c t = 1" "rpc ?c t = C_out" by (simp_all add: rgoto_def set_held_def)
  ultimately show ?thesis by blast
qed

text \<open>
  C40: In every run of the recursive lock at most one thread holds it.  While a thread holds it and is not inside a call, the depth is the number of its
  acquisitions that it has not given back; the lock reports that it is locked then; an \<^verbatim>\<open>unlock\<close> by a thread that is not the owner
  changes nothing; and a thread that looks at a free lock can take it.
\<close>

theorem recursive_lock_exclusion:
  assumes "rec_step\<^sup>*\<^sup>* rec_new l"
  shows "(\<forall>t u. 0 < held l t \<and> 0 < held l u \<longrightarrow> t = u) \<and>
    (\<forall>t. 0 < held l t \<and> rpc l t = C_out \<longrightarrow> rec_is_locked l \<and> unat (lock_depth l) = held l t) \<and>
    (\<forall>t l'. held l t = 0 \<and> rpc l t = U_read \<and> rec_step l l' \<and> rpc l' t \<noteq> U_read \<longrightarrow> l' = rgoto t C_out l) \<and>
    (\<forall>t tr. rpc l t = L_read tr \<and> \<not> rec_is_locked l \<longrightarrow> (\<exists>l'. rec_step\<^sup>*\<^sup>* l l' \<and> held l' t = 1 \<and> rpc l' t = C_out))"
proof -
  have inv: "rec_inv l" using rlock.reach_inv [OF _ assms] by blast
  have excl: "t = u" if "0 < held l t" "0 < held l u" for t u using rlock.inv_exclusive [OF inv that] .
  have depth: "rec_is_locked l \<and> unat (lock_depth l) = held l t" if "0 < held l t" "rpc l t = C_out" for t
    using rec_invD(4) [OF inv, of t] that by (auto simp: at_ok_def owns_def rec_is_locked_def lock_depth_def split: if_splits)
  have other: "l' = rgoto t C_out l" if "held l t = 0" "rpc l t = U_read" "rec_step l l'" "rpc l' t \<noteq> U_read" for t l'
  proof -
    have "\<not> owns l t" using rec_invD(4) [OF inv, of t] that(1,2) by (auto simp: at_ok_def)
    then have no: "rc_owner l \<noteq> stamp l t" using called_stamp [OF inv, of t] that(2) by (auto simp: owns_def)
    from that(3) show ?thesis
      by cases (use that(2,4) no in \<open>auto simp: rgoto_def set_held_def split: if_splits\<close>)
  qed
  have free: "\<exists>l'. rec_step\<^sup>*\<^sup>* l l' \<and> held l' t = 1 \<and> rpc l' t = C_out" if "rpc l t = L_read tr" "\<not> rec_is_locked l" for t tr
    using take_free [OF that(1)] that called_stamp [OF inv, of t] by (simp add: rec_is_locked_def)
  show ?thesis using excl depth other free by blast
qed

theorem recursive_lock_exclusion_witness:
  "\<exists>l l' :: nat recursive_lock. rec_step\<^sup>*\<^sup>* rec_new l \<and> rpc l 0 = L_read False \<and> rec_step\<^sup>*\<^sup>* l l' \<and> held l' 0 = 1 \<and> rpc l' 0 = C_out"
proof -
  let ?n = "rec_new :: nat recursive_lock" let ?a = "?n\<lparr>stamp := (stamp ?n)(0 := owner_ids ?n), owner_ids := owner_ids ?n + 1\<rparr>"
  have 1: "rec_step rec_new ?a" by (rule first_call) (simp_all add: rec_new_def)
  have 2: "rec_step ?a (rgoto 0 (L_read False) ?a)" by (rule lock_call) (simp_all add: rec_new_def)
  have r: "rec_step\<^sup>*\<^sup>* rec_new (rgoto 0 (L_read False) ?a)" using 1 2 by (meson converse_rtranclp_into_rtranclp r_into_rtranclp)
  have "rpc (rgoto 0 (L_read False) ?a) 0 = L_read False" "\<not> rec_is_locked (rgoto 0 (L_read False) ?a)" by (simp_all add: rgoto_def rec_new_def rec_is_locked_def)
  then show ?thesis using recursive_lock_exclusion [OF r] r by blast
qed

end
