(* ===== verification/Sync_Base.thy ===== *)
theory Sync_Base
  imports Lock_Base Micron_Prelude
begin

text \<open>
  Threads counted by what they are doing, for the primitives of \<^verbatim>\<open>src/src/sync\<close>.  They sleep through the futex call of the kernel: a thread goes
  to sleep only while the word it sleeps on has the value it names, a wake-up lets one sleeper or all of them go on, and a sleeper may also be
  interrupted.  This is what the kernel documents; a call that fails otherwise is a step of its own in the models.
\<close>

definition tally :: "'t set \<Rightarrow> ('p \<Rightarrow> bool) \<Rightarrow> ('t \<Rightarrow> 'p) \<Rightarrow> int" where
  "tally ts P f = (\<Sum>t\<in>ts. if P (f t) then 1 else 0)"

lemma tally_upd:
  assumes "finite ts" "t \<in> ts"
  shows "tally ts P (f(t := p)) = tally ts P f - (if P (f t) then 1 else 0) + (if P p then 1 else 0)"
proof -
  have "(\<Sum>u\<in>ts - {t}. if P ((f(t := p)) u) then 1 else 0 :: int) = (\<Sum>u\<in>ts - {t}. if P (f u) then 1 else 0)" by (rule sum.cong) auto
  then show ?thesis using sum.remove [OF assms, of "\<lambda>u. if P ((f(t := p)) u) then 1 else 0 :: int"] sum.remove [OF assms, of "\<lambda>u. if P (f u) then 1 else 0 :: int"]
    by (simp add: tally_def)
qed

lemma tally_card: "finite ts \<Longrightarrow> tally ts P f = int (card {t \<in> ts. P (f t)})"
  by (simp add: tally_def sum.inter_filter [symmetric])

lemma tally_ge0: "0 \<le> tally ts P f"
  by (simp add: tally_def sum_nonneg)

lemma tally_zero: "finite ts \<Longrightarrow> tally ts P f = 0 \<longleftrightarrow> (\<forall>t\<in>ts. \<not> P (f t))"
  by (auto simp: tally_def sum_nonneg_eq_0_iff)

lemma tally_none: "(\<And>t. t \<in> ts \<Longrightarrow> \<not> P (f t)) \<Longrightarrow> tally ts P f = 0"
  by (simp add: tally_def)

lemma tally_le: "finite ts \<Longrightarrow> tally ts P f \<le> int (card ts)"
proof -
  assume "finite ts"
  have "tally ts P f \<le> (\<Sum>t\<in>ts. 1)" unfolding tally_def by (rule sum_mono) auto
  then show ?thesis by simp
qed

lemma tally_split: "finite ts \<Longrightarrow> (\<And>p. P p \<longleftrightarrow> Q p \<or> R p) \<Longrightarrow> (\<And>p. \<not> (Q p \<and> R p)) \<Longrightarrow> tally ts P f = tally ts Q f + tally ts R f"
  unfolding tally_def sum.distrib [symmetric] by (rule sum.cong) auto

lemma tally_pos: "finite ts \<Longrightarrow> t \<in> ts \<Longrightarrow> P (f t) \<Longrightarrow> 0 < tally ts P f"
  using tally_ge0 [of ts P f] tally_zero [of ts P f] by force

end
