(* ===== verification/Sync_Semaphore.thy ===== *)
theory Sync_Semaphore
  imports Sync_Base
begin

text \<open>
  The semaphore of \<^verbatim>\<open>src/src/sync/semaphore.hpp\<close>.  The counter holds the permits, or below zero the number of waiters that have none; a waiter
  that finds no permit waits for a token in a second word, on which it may sleep.
\<close>

subsection \<open>The semaphore\<close>

datatype sem_pc = M_out | M_slow | M_try Micron_Prelude.u32 | M_futex | M_sleep | T_try i32 | F_token | F_wake

text \<open>The last two fields count the permits that were given and taken; no step depends on them.\<close>

record 't basic_semaphore =
  counter :: i32
  wakeups :: Micron_Prelude.u32
  mpc :: "'t \<Rightarrow> sem_pc"
  given :: nat
  taken :: nat

definition sem_new :: "i32 \<Rightarrow> 't basic_semaphore" where
  "sem_new init = \<lparr>counter = init, wakeups = 0, mpc = (\<lambda>_. M_out), given = 0, taken = 0\<rparr>"

definition sem_value :: "'t basic_semaphore \<Rightarrow> i32" where
  "sem_value l = counter l"

definition mgoto :: "'t \<Rightarrow> sem_pc \<Rightarrow> 't basic_semaphore \<Rightarrow> 't basic_semaphore" where
  "mgoto t p l = l\<lparr>mpc := (mpc l)(t := p)\<rparr>"

definition took :: "'t basic_semaphore \<Rightarrow> 't basic_semaphore" where
  "took l = l\<lparr>taken := taken l + 1\<rparr>"

text \<open>\<^verbatim>\<open>wait\<close>: with a permit at once, or as a waiter that looks for a token, sleeps while there is none, and takes one.  \<^verbatim>\<open>fault\<close>: the kernel
  reports an error other than that the word has changed or that a signal came.\<close>

inductive sem_step :: "bool \<Rightarrow> 't set \<Rightarrow> 't basic_semaphore \<Rightarrow> 't basic_semaphore \<Rightarrow> bool" for fault ts where
  wait_fast: "t \<in> ts \<Longrightarrow> mpc l t = M_out \<Longrightarrow> c = to_i32 (counter l - 1) \<Longrightarrow> c \<ge> 0 \<Longrightarrow> sem_step fault ts l (took l\<lparr>counter := c\<rparr>)"
| wait_slow: "t \<in> ts \<Longrightarrow> mpc l t = M_out \<Longrightarrow> c = to_i32 (counter l - 1) \<Longrightarrow> c < 0 \<Longrightarrow> sem_step fault ts l (mgoto t M_slow l\<lparr>counter := c\<rparr>)"
| slow_some: "t \<in> ts \<Longrightarrow> mpc l t = M_slow \<Longrightarrow> wakeups l > 0 \<Longrightarrow> sem_step fault ts l (mgoto t (M_try (wakeups l)) l)"
| slow_none: "t \<in> ts \<Longrightarrow> mpc l t = M_slow \<Longrightarrow> wakeups l = 0 \<Longrightarrow> sem_step fault ts l (mgoto t M_futex l)"
| token_won: "t \<in> ts \<Longrightarrow> mpc l t = M_try w \<Longrightarrow> wakeups l = w \<Longrightarrow> sem_step fault ts l (took (mgoto t M_out l)\<lparr>wakeups := to_u32 (w - 1)\<rparr>)"
| token_lost: "t \<in> ts \<Longrightarrow> mpc l t = M_try w \<Longrightarrow> sem_step fault ts l (mgoto t (if wakeups l > 0 then M_try (wakeups l) else M_futex) l)"
| sleep: "t \<in> ts \<Longrightarrow> mpc l t = M_futex \<Longrightarrow> wakeups l = 0 \<Longrightarrow> sem_step fault ts l (mgoto t M_sleep l)"
| no_sleep: "t \<in> ts \<Longrightarrow> mpc l t = M_futex \<Longrightarrow> sem_step fault ts l (mgoto t M_slow l)"
| interrupted: "t \<in> ts \<Longrightarrow> mpc l t = M_sleep \<Longrightarrow> sem_step fault ts l (mgoto t M_slow l)"
| gave_up: "fault \<Longrightarrow> t \<in> ts \<Longrightarrow> mpc l t = M_futex \<Longrightarrow> sem_step fault ts l (mgoto t M_out l)"
| try_none: "t \<in> ts \<Longrightarrow> mpc l t = M_out \<Longrightarrow> counter l \<le> 0 \<Longrightarrow> sem_step fault ts l l"
| try_some: "t \<in> ts \<Longrightarrow> mpc l t = M_out \<Longrightarrow> counter l > 0 \<Longrightarrow> sem_step fault ts l (mgoto t (T_try (counter l)) l)"
| try_won: "t \<in> ts \<Longrightarrow> mpc l t = T_try old \<Longrightarrow> counter l = old \<Longrightarrow> sem_step fault ts l (took (mgoto t M_out l)\<lparr>counter := to_i32 (old - 1)\<rparr>)"
| try_lost: "t \<in> ts \<Longrightarrow> mpc l t = T_try old \<Longrightarrow> sem_step fault ts l (mgoto t (if counter l > 0 then T_try (counter l) else M_out) l)"
| flag_free: "t \<in> ts \<Longrightarrow> mpc l t = M_out \<Longrightarrow> c = to_i32 (counter l + 1) \<Longrightarrow> c > 0 \<Longrightarrow> sem_step fault ts l (l\<lparr>counter := c, given := given l + 1\<rparr>)"
| flag_hand: "t \<in> ts \<Longrightarrow> mpc l t = M_out \<Longrightarrow> c = to_i32 (counter l + 1) \<Longrightarrow> c \<le> 0 \<Longrightarrow>
    sem_step fault ts l (mgoto t F_token l\<lparr>counter := c, given := given l + 1\<rparr>)"
| flag_token: "t \<in> ts \<Longrightarrow> mpc l t = F_token \<Longrightarrow> sem_step fault ts l (mgoto t F_wake l\<lparr>wakeups := to_u32 (wakeups l + 1)\<rparr>)"
| wake_one: "t \<in> ts \<Longrightarrow> mpc l t = F_wake \<Longrightarrow> u \<in> ts \<Longrightarrow> mpc l u = M_sleep \<Longrightarrow> sem_step fault ts l (mgoto u M_slow (mgoto t M_out l))"
| wake_none: "t \<in> ts \<Longrightarrow> mpc l t = F_wake \<Longrightarrow> (\<forall>u\<in>ts. mpc l u \<noteq> M_sleep) \<Longrightarrow> sem_step fault ts l (mgoto t M_out l)"

text \<open>\<^verbatim>\<open>reset\<close> and \<^verbatim>\<open>abort\<close>, for a semaphore that nobody else calls meanwhile.\<close>

definition sem_reset :: "i32 \<Rightarrow> 't basic_semaphore \<Rightarrow> 't basic_semaphore" where
  "sem_reset init l = l\<lparr>counter := init, wakeups := 0\<rparr>"

definition sem_abort :: "'t basic_semaphore \<Rightarrow> 't basic_semaphore" where
  "sem_abort l = l\<lparr>counter := 0x40000000, wakeups := 0x7FFFFFFF, mpc := (\<lambda>t. if mpc l t = M_sleep then M_slow else mpc l t)\<rparr>"

subsection \<open>The invariant\<close>

fun waiting :: "sem_pc \<Rightarrow> bool" where
  "waiting M_slow = True"
| "waiting (M_try w) = True"
| "waiting M_futex = True"
| "waiting M_sleep = True"
| "waiting _ = False"

definition awake :: "sem_pc \<Rightarrow> bool" where
  "awake p \<longleftrightarrow> waiting p \<and> p \<noteq> M_sleep"

text \<open>Permits are conserved; every waiter is owed by the counter, or a token is there or on its way for it; tokens have somebody awake to take them.\<close>

definition sem_inv :: "int \<Rightarrow> 't set \<Rightarrow> 't basic_semaphore \<Rightarrow> bool" where
  "sem_inv init ts l \<longleftrightarrow>
     counter l + int (taken l) + tally ts waiting (mpc l) = init + int (given l) \<and>
     tally ts waiting (mpc l) = wakeups l + tally ts ((=) F_token) (mpc l) + max 0 (- counter l) \<and>
     0 \<le> wakeups l \<and> wakeups l \<le> tally ts awake (mpc l) + tally ts ((=) F_wake) (mpc l) \<and>
     (\<forall>t\<in>ts. \<forall>old. mpc l t = T_try old \<longrightarrow> old > 0) \<and> (\<forall>t\<in>ts. \<forall>w. mpc l t = M_try w \<longrightarrow> w > 0)"

text \<open>Fewer than \<open>2\<^sup>31\<close> threads.\<close>

definition sem_bounds :: "int \<Rightarrow> 't set \<Rightarrow> bool" where
  "sem_bounds init ts \<longleftrightarrow> finite ts \<and> card ts < 2 ^ 31 \<and> 0 \<le> init"

lemma sem_ranges:
  assumes b: "sem_bounds init ts" and inv: "sem_inv init ts l" and g: "init + int (given l) < 2 ^ 31"
  shows "- (2 ^ 31) < counter l" "counter l < 2 ^ 31" "wakeups l < 2 ^ 31" "0 \<le> tally ts waiting (mpc l)" "0 \<le> tally ts ((=) F_token) (mpc l)"
    "tally ts waiting (mpc l) = tally ts awake (mpc l) + tally ts ((=) M_sleep) (mpc l)"
proof -
  have fin: "finite ts" and c: "int (card ts) < 2 ^ 31" using b by (auto simp: sem_bounds_def)
  show nn: "0 \<le> tally ts waiting (mpc l)" "0 \<le> tally ts ((=) F_token) (mpc l)" by (rule tally_ge0)+
  have w: "tally ts waiting (mpc l) < 2 ^ 31" using tally_le [OF fin, of waiting "mpc l"] c by linarith
  show "- (2 ^ 31) < counter l" "counter l < 2 ^ 31" "wakeups l < 2 ^ 31" using inv g w nn unfolding sem_inv_def by (auto simp: max_def split: if_splits)
  show "tally ts waiting (mpc l) = tally ts awake (mpc l) + tally ts ((=) M_sleep) (mpc l)"
    by (rule tally_split [OF fin]) (auto simp: awake_def)
qed

lemma sem_step_given: "sem_step fault ts l l' \<Longrightarrow> given l \<le> given l'"
  by (induction rule: sem_step.induct) (auto simp: mgoto_def took_def)

lemma sem_step_inv:
  assumes b: "sem_bounds init ts" and inv: "sem_inv init ts l" and "sem_step False ts l l'" and g: "init + int (given l') < 2 ^ 31"
  shows "sem_inv init ts l'"
  using assms(3)
proof cases
  have fin: "finite ts" using b by (simp add: sem_bounds_def)
  have gl: "init + int (given l) < 2 ^ 31" using sem_step_given [OF assms(3)] g by linarith
  note R = sem_ranges [OF b inv gl] note U = tally_upd [OF fin]
  note I = inv [unfolded sem_inv_def]
  {
    case (wait_fast t c)
    then have "c = counter l - 1" using R(1,2) by (auto simp: cast_simps)
    then show ?thesis using I wait_fast by (auto simp: sem_inv_def took_def)
  next
    case (wait_slow t c)
    then have "c = counter l - 1" using R(1,2) by (auto simp: cast_simps)
    then show ?thesis using I wait_slow by (auto simp: sem_inv_def U [OF wait_slow(2)] mgoto_def awake_def)
  next
    case (slow_some t) then show ?thesis using I by (auto simp: sem_inv_def U [OF slow_some(2)] mgoto_def awake_def)
  next
    case (slow_none t) then show ?thesis using I by (auto simp: sem_inv_def U [OF slow_none(2)] mgoto_def awake_def)
  next
    case (token_won t w)
    then have "to_u32 (w - 1) = wakeups l - 1" "w > 0" using I R(3) by (auto simp: to_u32_def)
    then show ?thesis using I token_won by (auto simp: sem_inv_def U [OF token_won(2)] mgoto_def took_def awake_def)
  next
    case (token_lost t w) then show ?thesis using I by (auto simp: sem_inv_def U [OF token_lost(2)] mgoto_def awake_def split: if_splits)
  next
    case (sleep t) then show ?thesis using I tally_ge0 [of ts awake "mpc l'"] tally_ge0 [of ts "(=) F_wake" "mpc l'"] by (auto simp: sem_inv_def U [OF sleep(2)] mgoto_def awake_def)
  next
    case (no_sleep t) then show ?thesis using I by (auto simp: sem_inv_def U [OF no_sleep(2)] mgoto_def awake_def)
  next
    case (interrupted t) then show ?thesis using I by (auto simp: sem_inv_def U [OF interrupted(2)] mgoto_def awake_def)
  next
    case (gave_up t) then show ?thesis by simp
  next
    case (try_none t) then show ?thesis using inv by simp
  next
    case (try_some t) then show ?thesis using I by (auto simp: sem_inv_def U [OF try_some(2)] mgoto_def awake_def)
  next
    case (try_won t old)
    then have "to_i32 (old - 1) = counter l - 1" "counter l > 0" using I R(1,2) by (auto simp: cast_simps)
    then show ?thesis using I try_won by (auto simp: sem_inv_def U [OF try_won(2)] mgoto_def took_def awake_def)
  next
    case (try_lost t old) then show ?thesis using I by (auto simp: sem_inv_def U [OF try_lost(2)] mgoto_def awake_def split: if_splits)
  next
    case (flag_free t c)
    then have "c = counter l + 1" using R g I by (auto simp: cast_simps)
    then show ?thesis using I flag_free by (auto simp: sem_inv_def)
  next
    case (flag_hand t c)
    then have "c = counter l + 1" using R g I by (auto simp: cast_simps mgoto_def)
    then show ?thesis using I flag_hand by (auto simp: sem_inv_def U [OF flag_hand(2)] mgoto_def awake_def)
  next
    case (flag_token t)
    then have "to_u32 (wakeups l + 1) = wakeups l + 1" using I R(3) by (auto simp: to_u32_def)
    then show ?thesis using I flag_token by (auto simp: sem_inv_def U [OF flag_token(2)] mgoto_def awake_def)
  next
    case (wake_one t u)
    then show ?thesis using I by (auto simp: sem_inv_def U [OF wake_one(2)] U [OF wake_one(4)] mgoto_def awake_def)
  next
    case (wake_none t)
    then have "tally ts ((=) M_sleep) (mpc l) = 0" by (intro tally_none) auto
    then show ?thesis using I R(5,6) wake_none tally_ge0 [of ts "(=) F_wake" "mpc l'"] by (auto simp: sem_inv_def U [OF wake_none(2)] mgoto_def awake_def)
  }
qed

interpretation sem: invariant_system "\<lambda>l. l = sem_new init" "sem_step False ts"
  "\<lambda>l. sem_bounds init ts \<and> init + int (given l) < 2 ^ 31 \<longrightarrow> sem_inv init ts l"
proof
  fix l l' :: "'a basic_semaphore"
  show "sem_bounds init ts \<and> init + int (given l) < 2 ^ 31 \<longrightarrow> sem_inv init ts l" if "l = sem_new init"
    using that tally_none [of ts _ "\<lambda>_. M_out"] by (auto simp: sem_new_def sem_inv_def sem_bounds_def awake_def)
  show "sem_bounds init ts \<and> init + int (given l') < 2 ^ 31 \<longrightarrow> sem_inv init ts l'"
    if "sem_bounds init ts \<and> init + int (given l) < 2 ^ 31 \<longrightarrow> sem_inv init ts l" "sem_step False ts l l'"
    using that sem_step_inv [OF _ _ that(2)] sem_step_given [OF that(2)] by auto
qed

text \<open>A waiter that is awake takes a token that is there.\<close>

lemma take_token:
  assumes "t \<in> ts" "awake (mpc l t)" "wakeups l > 0"
  shows "\<exists>l'. (sem_step fault ts)\<^sup>*\<^sup>* l l' \<and> mpc l' t = M_out \<and> taken l' = taken l + 1"
proof -
  let ?w = "wakeups l" let ?a = "mgoto t (M_try ?w) l" let ?b = "took (mgoto t M_out ?a)\<lparr>wakeups := to_u32 (?w - 1)\<rparr>"
  have "sem_step fault ts ?a ?b" using assms(1) by (intro token_won) (simp_all add: mgoto_def)
  moreover have "(sem_step fault ts)\<^sup>*\<^sup>* l ?a"
  proof (cases "mpc l t")
    case M_slow then show ?thesis using slow_some [of t ts l fault] assms by blast
  next
    case (M_try w) then show ?thesis using token_lost [of t ts l w fault] assms by auto
  next
    case M_futex
    let ?s = "mgoto t M_slow l"
    have "sem_step fault ts l ?s" using no_sleep [of t ts l fault] M_futex assms(1) by blast
    moreover have "sem_step fault ts ?s (mgoto t (M_try ?w) ?s)" using slow_some [of t ts ?s fault] assms(1,3) by (simp add: mgoto_def)
    moreover have "mgoto t (M_try ?w) ?s = ?a" by (simp add: mgoto_def)
    ultimately show ?thesis by (metis converse_rtranclp_into_rtranclp r_into_rtranclp)
  qed (use assms(2) in \<open>auto simp: awake_def\<close>)
  moreover have "mpc ?b t = M_out" "taken ?b = taken l + 1" by (simp_all add: mgoto_def took_def)
  ultimately show ?thesis by (meson rtranclp.rtrancl_into_rtrancl)
qed

text \<open>After \<^verbatim>\<open>abort\<close> every waiter can leave.\<close>

lemma abort_releases:
  assumes "t \<in> ts" "waiting (mpc l t)"
  shows "\<exists>l'. (sem_step fault ts)\<^sup>*\<^sup>* (sem_abort l) l' \<and> mpc l' t = M_out"
proof -
  have "awake (mpc (sem_abort l) t)" "wakeups (sem_abort l) > 0" using assms(2) by (auto simp: sem_abort_def awake_def)
  then show ?thesis using take_token [OF assms(1)] by blast
qed

text \<open>
  C17: In every run of the semaphore with fewer than \<open>2\<^sup>31\<close> threads and permits, permits are conserved: the waits that were let through never exceed
  the initial permits and the flags, and the counter is what is left less the waiters.  A wake-up is never lost: when a thread sleeps while a
  token is there, another waiter is awake or a wake-up is on its way, and a waiter that is awake can take the token.  If every thread is idle or asleep and one sleeps, all
  permits have been used.
\<close>

theorem semaphore_conserves_permits:
  assumes "sem_bounds init ts" "(sem_step False ts)\<^sup>*\<^sup>* (sem_new init) l" "init + int (given l) < 2 ^ 31"
  shows "int (taken l) \<le> init + int (given l) \<and>
    sem_value l = init + int (given l) - int (taken l) - int (card {t \<in> ts. waiting (mpc l t)}) \<and>
    ((\<exists>t\<in>ts. mpc l t = M_sleep) \<and> wakeups l > 0 \<longrightarrow> (\<exists>u\<in>ts. awake (mpc l u) \<or> mpc l u = F_wake)) \<and>
    (\<forall>t\<in>ts. awake (mpc l t) \<and> wakeups l > 0 \<longrightarrow> (\<exists>l'. (sem_step False ts)\<^sup>*\<^sup>* l l' \<and> mpc l' t = M_out \<and> taken l' = taken l + 1)) \<and>
    ((\<forall>t\<in>ts. mpc l t = M_out \<or> mpc l t = M_sleep) \<and> (\<exists>t\<in>ts. mpc l t = M_sleep) \<longrightarrow> int (taken l) = init + int (given l))"
proof -
  have fin: "finite ts" using assms(1) by (simp add: sem_bounds_def)
  have inv: "sem_inv init ts l" using sem.reach_inv [OF refl assms(2)] assms(1,3) by blast
  note R = sem_ranges [OF assms(1) inv assms(3)] and I = inv [unfolded sem_inv_def]
  have tw: "tally ts waiting (mpc l) = int (card {t \<in> ts. waiting (mpc l t)})" using tally_card [OF fin] .
  have use: "int (taken l) \<le> init + int (given l)" using I R(4,5) by (auto simp: max_def split: if_splits)
  have live: "\<exists>u\<in>ts. awake (mpc l u) \<or> mpc l u = F_wake" if "wakeups l > 0"
  proof (rule ccontr)
    assume "\<not> ?thesis"
    then have "tally ts awake (mpc l) = 0" "tally ts ((=) F_wake) (mpc l) = 0" by (auto intro!: tally_none)
    then show False using I that by simp
  qed
  have idle: "int (taken l) = init + int (given l)" if q: "\<forall>t\<in>ts. mpc l t = M_out \<or> mpc l t = M_sleep" "\<exists>t\<in>ts. mpc l t = M_sleep"
  proof -
    have z: "tally ts awake (mpc l) = 0" "tally ts ((=) F_wake) (mpc l) = 0" "tally ts ((=) F_token) (mpc l) = 0"
      using q(1) by (auto intro!: tally_none simp: awake_def)
    obtain t where "t \<in> ts" "mpc l t = M_sleep" using q(2) by blast
    then have "0 < tally ts waiting (mpc l)" using tally_pos [OF fin, of t waiting] by simp
    then show ?thesis using I z by (auto simp: max_def split: if_splits)
  qed
  have "sem_value l = init + int (given l) - int (taken l) - int (card {t \<in> ts. waiting (mpc l t)})" using I tw by (simp add: sem_value_def)
  then show ?thesis using use live idle take_token [of _ ts l False] by blast
qed

theorem semaphore_conserves_permits_witness:
  "\<exists>l :: nat basic_semaphore. (sem_step False {0, 1})\<^sup>*\<^sup>* (sem_new 0) l \<and> mpc l 0 = M_slow \<and> int (taken l) \<le> 0 + int (given l) \<and> sem_value l = - 1"
proof -
  let ?l = "mgoto 0 M_slow (sem_new 0 :: nat basic_semaphore)\<lparr>counter := - 1\<rparr>"
  have "sem_step False {0, 1} (sem_new 0) ?l" by (rule wait_slow) (simp_all add: sem_new_def to_i32_def)
  then have r: "(sem_step False {0, 1})\<^sup>*\<^sup>* (sem_new 0) ?l" by blast
  have "sem_bounds 0 {0 :: nat, 1}" "0 + int (given ?l) < 2 ^ 31" "mpc ?l 0 = M_slow" "sem_value ?l = - 1" by (simp_all add: sem_bounds_def sem_new_def mgoto_def sem_value_def)
  then show ?thesis using semaphore_conserves_permits [OF _ r] r by blast
qed

end
