(* ===== verification/Sync_Latch.thy ===== *)
theory Sync_Latch
  imports Sync_Base
begin

text \<open>
  The latch of \<^verbatim>\<open>src/src/sync/latch.hpp\<close>: threads wait until a counter has been counted down to zero, and sleep on the counter meanwhile.
\<close>

subsection \<open>The latch\<close>

datatype latch_pc = K_out | D_cas i32 i32 | D_wake | K_read | K_park i32 | K_sleep | K_passed

text \<open>\<open>counted\<close> adds up what \<^verbatim>\<open>count_down\<close> was asked to count; no step depends on it.\<close>

record 't latch =
  lcount :: i32
  lpc :: "'t \<Rightarrow> latch_pc"
  counted :: int

definition latch_new :: "i32 \<Rightarrow> 't latch" where
  "latch_new n = \<lparr>lcount = n, lpc = (\<lambda>_. K_out), counted = 0\<rparr>"

definition latch_try_wait :: "'t latch \<Rightarrow> bool" where
  "latch_try_wait l \<longleftrightarrow> lcount l \<le> 0"

definition latch_expected :: "'t latch \<Rightarrow> i32" where
  "latch_expected l = lcount l"

definition lgoto :: "'t \<Rightarrow> latch_pc \<Rightarrow> 't latch \<Rightarrow> 't latch" where
  "lgoto t p l = l\<lparr>lpc := (lpc l)(t := p)\<rparr>"

definition counts :: "int \<Rightarrow> 't latch \<Rightarrow> 't latch" where
  "counts n l = l\<lparr>counted := counted l + n\<rparr>"

definition latch_wake_all :: "'t latch \<Rightarrow> 't latch" where
  "latch_wake_all l = l\<lparr>lpc := (\<lambda>t. if lpc l t = K_sleep then K_read else lpc l t)\<rparr>"

inductive latch_step :: "bool \<Rightarrow> 't latch \<Rightarrow> 't latch \<Rightarrow> bool" for fault where
  down_nothing: "lpc l t = K_out \<Longrightarrow> (n :: i32) \<le> 0 \<Longrightarrow> latch_step fault l l"
| down_open: "lpc l t = K_out \<Longrightarrow> n > 0 \<Longrightarrow> lcount l \<le> 0 \<Longrightarrow> latch_step fault l (counts n l)"
| down_call: "lpc l t = K_out \<Longrightarrow> n > 0 \<Longrightarrow> lcount l > 0 \<Longrightarrow> latch_step fault l (lgoto t (D_cas n (lcount l)) l)"
| down_won: "lpc l t = D_cas n cur \<Longrightarrow> lcount l = cur \<Longrightarrow> c = cur - (if cur < n then cur else n) \<Longrightarrow>
    latch_step fault l (counts n (lgoto t (if c \<le> 0 then D_wake else K_out) l)\<lparr>lcount := c\<rparr>)"
| down_lost: "lpc l t = D_cas n cur \<Longrightarrow> lcount l > 0 \<Longrightarrow> latch_step fault l (lgoto t (D_cas n (lcount l)) l)"
| down_late: "lpc l t = D_cas n cur \<Longrightarrow> lcount l \<le> 0 \<Longrightarrow> latch_step fault l (counts n (lgoto t K_out l))"
| wake: "lpc l t = D_wake \<Longrightarrow> latch_step fault l (latch_wake_all (lgoto t K_out l))"
| wait_call: "lpc l t = K_out \<Longrightarrow> latch_step fault l (lgoto t K_read l)"
| wait_pass: "lpc l t = K_read \<Longrightarrow> lcount l \<le> 0 \<Longrightarrow> latch_step fault l (lgoto t K_passed l)"
| wait_spin: "lpc l t = K_read \<Longrightarrow> lcount l > 0 \<Longrightarrow> latch_step fault l l"
| wait_park: "lpc l t = K_read \<Longrightarrow> lcount l > 0 \<Longrightarrow> latch_step fault l (lgoto t (K_park (lcount l)) l)"
| sleep: "lpc l t = K_park c \<Longrightarrow> lcount l = c \<Longrightarrow> latch_step fault l (lgoto t K_sleep l)"
| no_sleep: "lpc l t = K_park c \<Longrightarrow> latch_step fault l (lgoto t K_read l)"
| interrupted: "lpc l t = K_sleep \<Longrightarrow> latch_step fault l (lgoto t K_read l)"
| gave_up: "fault \<Longrightarrow> lpc l t = K_park c \<Longrightarrow> latch_step fault l (lgoto t K_passed l)"
| wait_return: "lpc l t = K_passed \<Longrightarrow> latch_step fault l (lgoto t K_out l)"

subsection \<open>The invariant\<close>

fun latch_at :: "int \<Rightarrow> latch_pc \<Rightarrow> bool" where
  "latch_at c K_passed = (c = 0)"
| "latch_at c (D_cas n d) = (0 < n \<and> 0 < d)"
| "latch_at c (K_park d) = (0 < d)"
| "latch_at c _ = True"

text \<open>Nobody sleeps at an open latch unless the sleepers are about to be woken.\<close>

definition latch_sleep :: "int \<Rightarrow> ('t \<Rightarrow> latch_pc) \<Rightarrow> bool" where
  "latch_sleep c f \<longleftrightarrow> (c = 0 \<and> (\<exists>t. f t = K_sleep) \<longrightarrow> (\<exists>t. f t = D_wake))"

definition latch_inv :: "int \<Rightarrow> 't latch \<Rightarrow> bool" where
  "latch_inv e l \<longleftrightarrow> lcount l = max 0 (e - counted l) \<and> 0 \<le> counted l \<and> (\<forall>t. latch_at (lcount l) (lpc l t)) \<and> latch_sleep (lcount l) (lpc l)"

lemma latch_sleep_upd:
  assumes "latch_sleep c f" "f t \<noteq> D_wake" "p = K_sleep \<Longrightarrow> c \<noteq> 0"
  shows "latch_sleep c (f(t := p))"
  unfolding latch_sleep_def
proof (intro impI)
  assume a: "c = 0 \<and> (\<exists>u. (f(t := p)) u = K_sleep)"
  then obtain u where "(f(t := p)) u = K_sleep" by blast
  then have "f u = K_sleep" using a assms(3) by (cases "u = t") auto
  then obtain w where "f w = D_wake" using a assms(1) by (auto simp: latch_sleep_def)
  then show "\<exists>w. (f(t := p)) w = D_wake" using assms(2) by (intro exI [of _ w]) auto
qed

text \<open>A step of one thread that leaves the count as it is and does not wake anybody.\<close>

lemma latch_inv_goto:
  assumes "latch_inv e l" "lpc l t \<noteq> D_wake" "latch_at (lcount l) p" "p = K_sleep \<Longrightarrow> lcount l \<noteq> 0"
  shows "latch_inv e (lgoto t p l)"
proof -
  have "latch_sleep (lcount l) ((lpc l)(t := p))" using assms by (intro latch_sleep_upd) (auto simp: latch_inv_def)
  moreover have "\<forall>u. latch_at (lcount l) (((lpc l)(t := p)) u)" using assms by (auto simp: latch_inv_def)
  ultimately show ?thesis using assms(1) by (auto simp: latch_inv_def lgoto_def)
qed

lemma latch_counts:
  assumes "latch_inv e l" "lcount l \<le> 0" "0 < n"
  shows "latch_inv e (counts n l)"
  using assms by (auto simp: latch_inv_def counts_def max_def split: if_splits)

lemma latch_at_open: "latch_at c p \<Longrightarrow> c \<noteq> 0 \<Longrightarrow> latch_at d p"
  by (cases p) auto

lemma latch_down:
  assumes inv: "latch_inv e l" and d: "lpc l t = D_cas n cur" "lcount l = cur" "c = cur - (if cur < n then cur else n)"
  shows "latch_inv e (counts n (lgoto t (if c \<le> 0 then D_wake else K_out) l)\<lparr>lcount := c\<rparr>)" (is "latch_inv e ?l")
proof -
  have at: "latch_at cur (lpc l u)" for u using inv d(2) by (auto simp: latch_inv_def)
  have n: "0 < n" "0 < cur" using at [of t] d(1) by auto
  have c: "c = max 0 (cur - n)" using d(3) n by auto
  have "latch_at c (lpc ?l u)" for u using latch_at_open [OF at [of u], of c] n(2) by (auto simp: counts_def lgoto_def)
  moreover have "latch_sleep c (lpc ?l)"
    using c by (auto simp: latch_sleep_def counts_def lgoto_def)
  moreover have "c = max 0 (e - (counted l + n))" "0 \<le> counted l" using inv c d(2) n by (auto simp: latch_inv_def)
  ultimately show ?thesis using n(1) by (simp add: latch_inv_def) (simp add: counts_def lgoto_def)
qed

lemma latch_step_inv:
  assumes inv: "latch_inv e l" and "latch_step False l l'"
  shows "latch_inv e l'"
  using assms(2)
proof cases
  have at: "latch_at (lcount l) (lpc l u)" for u using inv by (auto simp: latch_inv_def)
  have ge: "0 \<le> lcount l" using inv by (simp add: latch_inv_def)
  {
    case (down_open t n) then show ?thesis using latch_counts [OF inv] by simp
  next
    case (down_won t n cur c) then show ?thesis using latch_down [OF inv] by simp
  next
    case (down_lost t n cur) then show ?thesis using at [of t] by (auto intro!: latch_inv_goto [OF inv])
  next
    case (down_late t n cur)
    have "latch_inv e (lgoto t K_out l)" using down_late by (intro latch_inv_goto [OF inv]) auto
    then show ?thesis using latch_counts [of e "lgoto t K_out l" n] down_late at [of t] by (auto simp: lgoto_def)
  next
    case (wake t)
    have "latch_at (lcount l') (lpc l' u)" for u using at [of u] wake(1) by (auto simp: latch_wake_all_def lgoto_def)
    moreover have "latch_sleep (lcount l') (lpc l')" using wake(1) by (auto simp: latch_sleep_def latch_wake_all_def lgoto_def)
    ultimately show ?thesis using inv wake(1) by (auto simp: latch_inv_def latch_wake_all_def lgoto_def)
  next
    case (sleep t c) then show ?thesis using at [of t] by (auto intro!: latch_inv_goto [OF inv])
  next
    case (wait_pass t) then show ?thesis using ge by (auto intro!: latch_inv_goto [OF inv])
  }
qed (use inv in \<open>auto intro!: latch_inv_goto [OF inv]\<close>)

interpretation ltch: invariant_system "\<lambda>l. l = latch_new e \<and> 0 \<le> e" "latch_step False" "latch_inv e"
proof
  fix l l' :: "'a latch"
  show "latch_inv e l" if "l = latch_new e \<and> 0 \<le> e" using that by (auto simp: latch_new_def latch_inv_def latch_sleep_def)
  show "latch_inv e l'" if "latch_inv e l" "latch_step False l l'" using latch_step_inv [OF that] .
qed

text \<open>
  C30: In every run of a latch that expects \<open>e \<ge> 0\<close>, the count is what is missing to \<open>e\<close>; a wait returns only once \<open>e\<close> has been counted down, and
  \<^verbatim>\<open>try_wait\<close> says exactly that.  Nobody sleeps through the opening: while a thread sleeps at an open latch, a wake-up of all sleepers is on its way;
  and a waiter that looks at an open latch passes.
\<close>

theorem latch_opens:
  assumes "0 \<le> e" "(latch_step False)\<^sup>*\<^sup>* (latch_new e) l"
  shows "latch_expected l = max 0 (e - counted l) \<and> (latch_try_wait l \<longleftrightarrow> e \<le> counted l) \<and>
    (\<forall>t. lpc l t = K_passed \<longrightarrow> e \<le> counted l) \<and>
    (\<forall>t. lpc l t = K_sleep \<and> e \<le> counted l \<longrightarrow> (\<exists>u. lpc l u = D_wake \<and>
       (\<exists>l'. latch_step False l l' \<and> lpc l' t = K_read \<and> (\<exists>l''. latch_step False l' l'' \<and> lpc l'' t = K_passed))))"
proof -
  have inv: "latch_inv e l" using ltch.reach_inv [OF _ assms(2)] assms(1) by blast
  have sl: "\<exists>u. lpc l u = D_wake \<and> (\<exists>l'. latch_step False l l' \<and> lpc l' t = K_read \<and> (\<exists>l''. latch_step False l' l'' \<and> lpc l'' t = K_passed))"
    if t: "lpc l t = K_sleep" "e \<le> counted l" for t
  proof -
    have z: "lcount l = 0" using inv t(2) by (simp add: latch_inv_def)
    then obtain u where u: "lpc l u = D_wake" using inv t(1) by (auto simp: latch_inv_def latch_sleep_def)
    let ?a = "latch_wake_all (lgoto u K_out l)"
    have a: "latch_step False l ?a" by (rule wake) (rule u)
    have "u \<noteq> t" using u t(1) by auto
    then have r: "lpc ?a t = K_read" "lcount ?a = 0" using t(1) z by (simp_all add: latch_wake_all_def lgoto_def)
    have "latch_step False ?a (lgoto t K_passed ?a)" by (rule wait_pass) (simp_all add: r)
    moreover have "lpc (lgoto t K_passed ?a) t = K_passed" by (simp add: lgoto_def)
    ultimately show ?thesis using u a r(1) by blast
  qed
  have cnt: "lcount l = max 0 (e - counted l)" using inv by (simp add: latch_inv_def)
  have "e \<le> counted l" if "lpc l t = K_passed" for t
  proof -
    have "latch_at (lcount l) (lpc l t)" using inv unfolding latch_inv_def by blast
    then have "lcount l = 0" using that by simp
    then show ?thesis using cnt by linarith
  qed
  then show ?thesis using cnt sl by (auto simp: latch_expected_def latch_try_wait_def)
qed

theorem latch_opens_witness:
  "\<exists>l :: nat latch. (latch_step False)\<^sup>*\<^sup>* (latch_new 2) l \<and> lpc l 0 = D_wake \<and> latch_try_wait l \<and> 2 \<le> counted l"
proof -
  let ?a = "lgoto 0 (D_cas 3 2) (latch_new 2 :: nat latch)"
  let ?b = "counts 3 (lgoto 0 D_wake ?a)\<lparr>lcount := 0\<rparr>"
  have 1: "latch_step False (latch_new 2) ?a" using down_call [of "latch_new 2 :: nat latch" 0 3 False] by (simp add: latch_new_def)
  have 2: "latch_step False ?a ?b" using down_won [of ?a 0 3 2 0 False] by (simp add: latch_new_def lgoto_def)
  have r: "(latch_step False)\<^sup>*\<^sup>* (latch_new 2) ?b" using 1 2 by (meson converse_rtranclp_into_rtranclp r_into_rtranclp)
  have "lpc ?b 0 = D_wake" "2 \<le> counted ?b" by (simp_all add: counts_def lgoto_def latch_new_def)
  then show ?thesis using latch_opens [OF _ r] r by auto
qed

end
