(* ===== verification/Sync_Barrier.thy ===== *)
theory Sync_Barrier
  imports Sync_Base
begin

text \<open>
  The barrier of \<^verbatim>\<open>src/src/sync/latch.hpp\<close> over the event count of \<^verbatim>\<open>src/src/sync/event_count.hpp\<close>.  One 64-bit word holds the generation and the number
  of arrivals that are missing; the last to arrive starts the next generation and wakes the threads that sleep on the epoch of the event count.  The steps use sequentially consistent memory.  The property that nobody sleeps through the end of a
  generation needs it: the notifier raises the epoch and then reads the number of waiters, the waiter raises that number and then reads the epoch and the
  word, and the source orders these accesses by acquire and release only.
\<close>

unbundle bit_operations_syntax

subsection \<open>The barrier\<close>

definition pack :: "32 word \<Rightarrow> 32 word \<Rightarrow> 64 word" where
  "pack gen cnt = push_bit 32 (ucast gen) OR ucast cnt"

definition gen_of :: "64 word \<Rightarrow> 32 word" where
  "gen_of s = ucast (drop_bit 32 s)"

definition cnt_of :: "64 word \<Rightarrow> 32 word" where
  "cnt_of s = ucast s"

text \<open>
  Where a thread is.  It carries the generation in which it arrived, and between \<^verbatim>\<open>prepare_wait\<close> and \<^verbatim>\<open>commit_wait\<close> its key;
  the flag tells \<^verbatim>\<open>arrive_and_drop\<close> from \<^verbatim>\<open>arrive_and_wait\<close>.
\<close>

datatype barrier_pc =
    B_out
  | B_cas bool "64 word"
  | B_notify "32 word"
  | B_look "32 word"
  | B_wake "32 word"
  | B_spin "32 word"
  | B_prep "32 word"
  | B_key "32 word"
  | B_check "32 word" "32 word"
  | B_cancel "32 word"
  | B_commit "32 word" "32 word"
  | B_futex "32 word" "32 word"
  | B_sleep "32 word" "32 word"
  | B_leave "32 word"
  | B_done "32 word"

text \<open>\<open>gens\<close> and \<open>arrivals\<close> count the generations that are over and all arrivals; no step depends on them.\<close>

record 't barrier =
  bstate :: "64 word"
  threshold :: "32 word"
  epoch :: "32 word"
  ewaiters :: "32 word"
  bpc :: "'t \<Rightarrow> barrier_pc"
  gens :: nat
  arrivals :: nat

definition barrier_new :: "32 word \<Rightarrow> 't barrier" where
  "barrier_new n = \<lparr>bstate = pack 0 n, threshold = n, epoch = 0, ewaiters = 0, bpc = (\<lambda>_. B_out), gens = 0, arrivals = 0\<rparr>"

definition barrier_expected :: "'t barrier \<Rightarrow> 32 word" where
  "barrier_expected l = cnt_of (bstate l)"

definition bgoto :: "'t \<Rightarrow> barrier_pc \<Rightarrow> 't barrier \<Rightarrow> 't barrier" where
  "bgoto t p l = l\<lparr>bpc := (bpc l)(t := p)\<rparr>"

fun roused :: "barrier_pc \<Rightarrow> barrier_pc" where
  "roused (B_sleep g k) = B_commit g k"
| "roused p = p"

definition rouse_all :: "'t barrier \<Rightarrow> 't barrier" where
  "rouse_all l = l\<lparr>bpc := (\<lambda>t. roused (bpc l t))\<rparr>"

inductive barrier_step :: "bool \<Rightarrow> 't set \<Rightarrow> 't barrier \<Rightarrow> 't barrier \<Rightarrow> bool" for fault ts where
  arrive_call: "t \<in> ts \<Longrightarrow> bpc l t = B_out \<Longrightarrow> barrier_step fault ts l (bgoto t (B_cas dr (bstate l)) l)"
| arrive_last: "t \<in> ts \<Longrightarrow> bpc l t = B_cas dr cur \<Longrightarrow> bstate l = cur \<Longrightarrow> cnt_of cur = 1 \<Longrightarrow>
    barrier_step fault ts l (bgoto t (B_notify (gen_of cur)) l\<lparr>bstate := pack (gen_of cur + 1) (threshold l), gens := gens l + 1, arrivals := arrivals l + 1\<rparr>)"
| arrive_more: "t \<in> ts \<Longrightarrow> bpc l t = B_cas dr cur \<Longrightarrow> bstate l = cur \<Longrightarrow> cnt_of cur \<noteq> 1 \<Longrightarrow>
    barrier_step fault ts l (bgoto t (if dr then B_out else B_spin (gen_of cur)) l\<lparr>bstate := pack (gen_of cur) (cnt_of cur - 1), arrivals := arrivals l + 1\<rparr>)"
| arrive_lost: "t \<in> ts \<Longrightarrow> bpc l t = B_cas dr cur \<Longrightarrow> barrier_step fault ts l (bgoto t (B_cas dr (bstate l)) l)"
| notify: "t \<in> ts \<Longrightarrow> bpc l t = B_notify g \<Longrightarrow> barrier_step fault ts l (bgoto t (B_look g) l\<lparr>epoch := epoch l + 1\<rparr>)"
| look_none: "t \<in> ts \<Longrightarrow> bpc l t = B_look g \<Longrightarrow> ewaiters l = 0 \<Longrightarrow> barrier_step fault ts l (bgoto t (B_done g) l)"
| look_some: "t \<in> ts \<Longrightarrow> bpc l t = B_look g \<Longrightarrow> ewaiters l \<noteq> 0 \<Longrightarrow> barrier_step fault ts l (bgoto t (B_wake g) l)"
| wake: "t \<in> ts \<Longrightarrow> bpc l t = B_wake g \<Longrightarrow> barrier_step fault ts l (rouse_all (bgoto t (B_done g) l))"
| spin_over: "t \<in> ts \<Longrightarrow> bpc l t = B_spin g \<Longrightarrow> gen_of (bstate l) \<noteq> g \<Longrightarrow> barrier_step fault ts l (bgoto t (B_done g) l)"
| spin_more: "t \<in> ts \<Longrightarrow> bpc l t = B_spin g \<Longrightarrow> gen_of (bstate l) = g \<Longrightarrow> barrier_step fault ts l l"
| spin_park: "t \<in> ts \<Longrightarrow> bpc l t = B_spin g \<Longrightarrow> gen_of (bstate l) = g \<Longrightarrow> barrier_step fault ts l (bgoto t (B_prep g) l)"
| prepare: "t \<in> ts \<Longrightarrow> bpc l t = B_prep g \<Longrightarrow> barrier_step fault ts l (bgoto t (B_key g) l\<lparr>ewaiters := ewaiters l + 1\<rparr>)"
| read_key: "t \<in> ts \<Longrightarrow> bpc l t = B_key g \<Longrightarrow> barrier_step fault ts l (bgoto t (B_check g (epoch l)) l)"
| check_over: "t \<in> ts \<Longrightarrow> bpc l t = B_check g k \<Longrightarrow> gen_of (bstate l) \<noteq> g \<Longrightarrow> barrier_step fault ts l (bgoto t (B_cancel g) l)"
| cancel: "t \<in> ts \<Longrightarrow> bpc l t = B_cancel g \<Longrightarrow> barrier_step fault ts l (bgoto t (B_done g) l\<lparr>ewaiters := ewaiters l - 1\<rparr>)"
| check_wait: "t \<in> ts \<Longrightarrow> bpc l t = B_check g k \<Longrightarrow> gen_of (bstate l) = g \<Longrightarrow> barrier_step fault ts l (bgoto t (B_commit g k) l)"
| commit_over: "t \<in> ts \<Longrightarrow> bpc l t = B_commit g k \<Longrightarrow> epoch l \<noteq> k \<Longrightarrow> barrier_step fault ts l (bgoto t (B_leave g) l)"
| commit_same: "t \<in> ts \<Longrightarrow> bpc l t = B_commit g k \<Longrightarrow> epoch l = k \<Longrightarrow> barrier_step fault ts l (bgoto t (B_futex g k) l)"
| sleep: "t \<in> ts \<Longrightarrow> bpc l t = B_futex g k \<Longrightarrow> epoch l = k \<Longrightarrow> barrier_step fault ts l (bgoto t (B_sleep g k) l)"
| no_sleep: "t \<in> ts \<Longrightarrow> bpc l t = B_futex g k \<Longrightarrow> barrier_step fault ts l (bgoto t (B_commit g k) l)"
| interrupted: "t \<in> ts \<Longrightarrow> bpc l t = B_sleep g k \<Longrightarrow> barrier_step fault ts l (bgoto t (B_commit g k) l)"
| gave_up: "fault \<Longrightarrow> t \<in> ts \<Longrightarrow> bpc l t = B_futex g k \<Longrightarrow> barrier_step fault ts l (bgoto t (B_leave g) l)"
| leave: "t \<in> ts \<Longrightarrow> bpc l t = B_leave g \<Longrightarrow> barrier_step fault ts l (bgoto t (B_spin g) l\<lparr>ewaiters := ewaiters l - 1\<rparr>)"
| returns: "t \<in> ts \<Longrightarrow> bpc l t = B_done g \<Longrightarrow> barrier_step fault ts l (bgoto t B_out l)"

subsection \<open>The two halves of the word\<close>

lemma pack_halves [simp]: "gen_of (pack g c) = g" "cnt_of (pack g c) = c"
proof -
  show "gen_of (pack g c) = g"
    by (rule bit_word_eqI) (auto simp: gen_of_def pack_def bit_simps dest: bit_imp_le_length)
  show "cnt_of (pack g c) = c"
    by (rule bit_word_eqI) (auto simp: cnt_of_def pack_def bit_simps)
qed

subsection \<open>The invariant\<close>

fun registered :: "barrier_pc \<Rightarrow> bool" where
  "registered (B_key g) = True"
| "registered (B_check g k) = True"
| "registered (B_cancel g) = True"
| "registered (B_commit g k) = True"
| "registered (B_futex g k) = True"
| "registered (B_sleep g k) = True"
| "registered (B_leave g) = True"
| "registered _ = False"

fun notifying :: "barrier_pc \<Rightarrow> bool" where
  "notifying (B_notify g) = True"
| "notifying _ = False"

text \<open>The number of times the epoch was raised.\<close>

definition epochs :: "'t set \<Rightarrow> 't barrier \<Rightarrow> int" where
  "epochs ts l = int (gens l) - tally ts notifying (bpc l)"

text \<open>What the generation and the key of a thread are, given the numbers of generations and epochs.\<close>

fun phase_ok :: "int \<Rightarrow> int \<Rightarrow> barrier_pc \<Rightarrow> bool" where
  "phase_ok n e (B_notify g) = (uint g < n)"
| "phase_ok n e (B_look g) = (uint g < n)"
| "phase_ok n e (B_wake g) = (uint g < n)"
| "phase_ok n e (B_done g) = (uint g < n)"
| "phase_ok n e (B_cancel g) = (uint g < n)"
| "phase_ok n e (B_spin g) = (uint g \<le> n)"
| "phase_ok n e (B_prep g) = (uint g \<le> n)"
| "phase_ok n e (B_key g) = (uint g \<le> n)"
| "phase_ok n e (B_leave g) = (uint g \<le> n)"
| "phase_ok n e (B_check g k) = (uint g \<le> n \<and> uint k \<le> e)"
| "phase_ok n e (B_commit g k) = (uint g \<le> n \<and> uint k \<le> e \<and> uint k \<le> uint g)"
| "phase_ok n e (B_futex g k) = (uint g \<le> n \<and> uint k \<le> e \<and> uint k \<le> uint g)"
| "phase_ok n e (B_sleep g k) = (uint g \<le> n \<and> uint k \<le> e \<and> uint k \<le> uint g)"
| "phase_ok n e _ = True"

fun waking :: "barrier_pc \<Rightarrow> bool" where
  "waking (B_look g) = True"
| "waking (B_wake g) = True"
| "waking _ = False"

text \<open>A thread that sleeps although the epoch has passed its key is about to be woken.\<close>

definition rest_ok :: "'t set \<Rightarrow> int \<Rightarrow> ('t \<Rightarrow> barrier_pc) \<Rightarrow> bool" where
  "rest_ok ts e f \<longleftrightarrow> (\<forall>t\<in>ts. \<forall>g k. f t = B_sleep g k \<and> uint k < e \<longrightarrow> (\<exists>u\<in>ts. waking (f u)))"

definition park_ok :: "'t set \<Rightarrow> 't barrier \<Rightarrow> bool" where
  "park_ok ts l \<longleftrightarrow> ewaiters l = word_of_int (tally ts registered (bpc l)) \<and> epoch l = word_of_int (epochs ts l) \<and> 0 \<le> epochs ts l \<and>
     (\<forall>t\<in>ts. phase_ok (int (gens l)) (epochs ts l) (bpc l t)) \<and> rest_ok ts (epochs ts l) (bpc l)"

definition count_ok :: "nat \<Rightarrow> 't barrier \<Rightarrow> bool" where
  "count_ok n l \<longleftrightarrow> threshold l = of_nat n \<and>
     (\<exists>c. 1 \<le> c \<and> c \<le> n \<and> bstate l = pack (of_nat (gens l)) (of_nat c) \<and> arrivals l + c = n * gens l + n)"

definition barrier_bounds :: "nat \<Rightarrow> 't set \<Rightarrow> bool" where
  "barrier_bounds n ts \<longleftrightarrow> finite ts \<and> card ts < 2 ^ 32 \<and> 1 \<le> n \<and> n < 2 ^ 32"

lemma phase_ok_mono: "phase_ok n e p \<Longrightarrow> n \<le> n' \<Longrightarrow> e \<le> e' \<Longrightarrow> phase_ok n' e' p"
  by (cases p) auto

lemma small_word: "0 \<le> x \<Longrightarrow> x < 2 ^ 32 \<Longrightarrow> uint (word_of_int x :: 32 word) = x"
  by (simp add: uint_word_of_int)

lemma epochs_le: "epochs ts l \<le> int (gens l)"
  using tally_ge0 [of ts notifying "bpc l"] by (simp add: epochs_def)

text \<open>A step of one thread: the epoch rises only with a thread that goes on to wake the sleepers.\<close>

lemma park_move:
  assumes ok: "park_ok ts l" and t: "finite ts" "t \<in> ts"
    and l': "bpc l' = (bpc l)(t := p)" "gens l \<le> gens l'"
      "ewaiters l' = ewaiters l + word_of_int ((if registered p then 1 else 0) - (if registered (bpc l t) then 1 else 0))"
      "epoch l' = epoch l + word_of_int (epochs ts l' - epochs ts l)" "epochs ts l \<le> epochs ts l'"
    and p: "phase_ok (int (gens l')) (epochs ts l') p" "waking (bpc l t) \<Longrightarrow> waking p \<or> ewaiters l = 0" "epochs ts l < epochs ts l' \<Longrightarrow> waking p"
      "\<And>g k. p = B_sleep g k \<Longrightarrow> \<not> uint k < epochs ts l'" and bd: "tally ts registered (bpc l) < 2 ^ 32"
  shows "park_ok ts l'"
proof -
  have w: "ewaiters l = word_of_int (tally ts registered (bpc l))" "epoch l = word_of_int (epochs ts l)" "0 \<le> epochs ts l"
    and ph: "\<And>u. u \<in> ts \<Longrightarrow> phase_ok (int (gens l)) (epochs ts l) (bpc l u)" and r: "rest_ok ts (epochs ts l) (bpc l)" using ok by (auto simp: park_ok_def)
  have "ewaiters l' = word_of_int (tally ts registered (bpc l'))" unfolding l'(1,3) w(1) tally_upd [OF t] by simp
  moreover have "epoch l' = word_of_int (epochs ts l')" using l'(4) w(2) by simp
  moreover have "phase_ok (int (gens l')) (epochs ts l') (bpc l' u)" if "u \<in> ts" for u
    using phase_ok_mono [OF ph [OF that]] l'(1,2,5) p(1) by (cases "u = t") auto
  moreover have "rest_ok ts (epochs ts l') (bpc l')"
    unfolding rest_ok_def
  proof (intro ballI allI impI)
    fix u g k assume u: "u \<in> ts" "bpc l' u = B_sleep g k \<and> uint k < epochs ts l'"
    then have ut: "u \<noteq> t" using p(4) l'(1) by auto
    show "\<exists>x\<in>ts. waking (bpc l' x)"
    proof (cases "epochs ts l < epochs ts l'")
      case True then show ?thesis using p(3) t(2) l'(1) by (intro bexI [of _ t]) simp_all
    next
      case False
      then obtain x where x: "x \<in> ts" "waking (bpc l x)" using r u ut l'(1,5) by (auto simp: rest_ok_def)
      have "0 < tally ts registered (bpc l)" using tally_pos [OF t(1) u(1), of registered "bpc l"] u(2) ut l'(1) by auto
      then have "uint (ewaiters l) \<noteq> 0" using small_word [of "tally ts registered (bpc l)"] w(1) bd by simp
      then have "ewaiters l \<noteq> 0" by auto
      then have "waking (bpc l' x)" using x(2) p(2) l'(1) by (cases "x = t") auto
      then show ?thesis using x(1) by blast
    qed
  qed
  ultimately show ?thesis using w(3) l'(5) by (auto simp: park_ok_def)
qed

lemma count_step:
  assumes b: "barrier_bounds n ts" and ok: "count_ok n l" and "barrier_step fault ts l l'"
  shows "count_ok n l'"
proof -
  obtain c where c: "1 \<le> c" "c \<le> n" "bstate l = pack (of_nat (gens l)) (of_nat c)" "arrivals l + c = n * gens l + n" and th: "threshold l = of_nat n"
    using ok by (auto simp: count_ok_def)
  have one: "(of_nat c :: 32 word) = 1 \<longleftrightarrow> c = 1"
  proof
    assume "(of_nat c :: 32 word) = 1"
    then have "unat (of_nat c :: 32 word) = unat (1 :: 32 word)" by simp
    then show "c = 1" using c(2) b by (simp add: barrier_bounds_def unsigned_of_nat take_bit_nat_eq_self)
  qed simp
  from assms(3) show ?thesis
  proof cases
    case (arrive_last t dr cur)
    then have "c = 1" using pack_halves(2) [of "of_nat (gens l)" "of_nat c"] c(3) one by metis
    then show ?thesis using arrive_last c th b by (auto simp: count_ok_def bgoto_def barrier_bounds_def add.commute intro!: exI [of _ n])
  next
    case (arrive_more t dr cur)
    then have "c \<noteq> 1" using pack_halves(2) [of "of_nat (gens l)" "of_nat c"] c(3) one by metis
    then have "1 \<le> c - 1" "(of_nat c :: 32 word) - 1 = of_nat (c - 1)" using c(1) by (auto simp: of_nat_diff)
    then show ?thesis using arrive_more c th by (auto simp: count_ok_def bgoto_def intro!: exI [of _ "c - 1"])
  qed (use ok in \<open>auto simp: count_ok_def bgoto_def rouse_all_def\<close>)
qed

lemma barrier_step_gens: "barrier_step fault ts l l' \<Longrightarrow> gens l \<le> gens l'"
  by (induction rule: barrier_step.induct) (auto simp: bgoto_def rouse_all_def)

lemma epochs_goto:
  "finite ts \<Longrightarrow> t \<in> ts \<Longrightarrow> bpc l' = (bpc l)(t := p) \<Longrightarrow>
    epochs ts l' = epochs ts l + (int (gens l') - int (gens l)) + (if notifying (bpc l t) then 1 else 0) - (if notifying p then 1 else 0)"
  by (simp add: epochs_def tally_upd)

lemma park_wake:
  assumes ok: "park_ok ts l" and t: "finite ts" "t \<in> ts" "bpc l t = B_wake g"
  shows "park_ok ts (rouse_all (bgoto t (B_done g) l))" (is "park_ok ts ?l")
proof -
  have ph: "\<And>u. u \<in> ts \<Longrightarrow> phase_ok (int (gens l)) (epochs ts l) (bpc l u)" using ok by (auto simp: park_ok_def)
  have same: "registered (roused q) = registered q" "notifying (roused q) = notifying q" "phase_ok a b (roused q) = phase_ok a b q" "roused q \<noteq> B_sleep x y" for a b q x y
    by (cases q; simp)+
  have "tally ts P (bpc ?l) = tally ts P ((bpc l)(t := B_done g))" if "\<And>q. P (roused q) = P q" for P
    using that by (simp add: tally_def rouse_all_def bgoto_def)
  then have ty: "tally ts registered (bpc ?l) = tally ts registered (bpc l)" "tally ts notifying (bpc ?l) = tally ts notifying (bpc l)"
    using same(1,2) t by (simp_all add: tally_upd)
  then have e: "epochs ts ?l = epochs ts l" by (simp add: epochs_def) (simp add: rouse_all_def bgoto_def)
  have "phase_ok (int (gens ?l)) (epochs ts ?l) (bpc ?l u)" if "u \<in> ts" for u
    using ph [OF that] ph [OF t(2)] t(3) e by (auto simp: rouse_all_def bgoto_def same(3))
  moreover have "rest_ok ts (epochs ts ?l) (bpc ?l)" using same(4) by (auto simp: rest_ok_def rouse_all_def)
  ultimately show ?thesis using ok ty(1) e by (auto simp: park_ok_def) (simp_all add: rouse_all_def bgoto_def)
qed

lemma park_step:
  assumes b: "barrier_bounds n ts" and ok: "park_ok ts l" and c: "count_ok n l" and "barrier_step False ts l l'" and g: "gens l' < 2 ^ 32"
  shows "park_ok ts l'"
proof -
  have fin: "finite ts" and card: "int (card ts) < 2 ^ 32" using b by (auto simp: barrier_bounds_def)
  have bd: "tally ts registered (bpc l) < 2 ^ 32" using tally_le [OF fin, of registered "bpc l"] card by linarith
  have ph: "\<And>u. u \<in> ts \<Longrightarrow> phase_ok (int (gens l)) (epochs ts l) (bpc l u)" using ok by (auto simp: park_ok_def)
  have gl: "int (gens l) < 2 ^ 32" using barrier_step_gens [OF assms(4)] g by simp
  have gen: "gen_of (bstate l) = of_nat (gens l)" using c by (auto simp: count_ok_def)
  have ug: "uint (of_nat (gens l) :: 32 word) = int (gens l)" using small_word [of "int (gens l)"] gl by simp
  have e0: "0 \<le> epochs ts l" "epoch l = word_of_int (epochs ts l)" using ok by (auto simp: park_ok_def)
  have ep: "uint (epoch l) = epochs ts l" using small_word [of "epochs ts l"] e0 epochs_le [of ts l] gl by simp
  note E = epochs_goto [OF fin] and mv = park_move [OF ok fin _ _ _ _ _ _ _ _ _ _ bd]
  have other: "gen_of (bstate l) \<noteq> x \<Longrightarrow> uint x \<le> int (gens l) \<Longrightarrow> uint x < int (gens l)" for x
    using gen ug by (metis order_le_less word_uint_eqI)
  from assms(4) show ?thesis
  proof cases
    case (arrive_call t dr) then show ?thesis by (intro mv [of t l' "B_cas dr (bstate l)"]) (auto simp: bgoto_def E)
  next
    case (arrive_last t dr cur)
    then show ?thesis using gen ug by (intro mv [of t l' "B_notify (gen_of cur)"]) (auto simp: bgoto_def E)
  next
    case (arrive_more t dr cur)
    then show ?thesis using gen ug by (intro mv [of t l' "if dr then B_out else B_spin (gen_of cur)"]) (auto simp: bgoto_def E split: if_splits)
  next
    case (arrive_lost t dr cur) then show ?thesis by (intro mv [of t l' "B_cas dr (bstate l)"]) (auto simp: bgoto_def E)
  next
    case (notify t x) then show ?thesis using ph [of t] by (intro mv [of t l' "B_look x"]) (auto simp: bgoto_def E)
  next
    case (look_none t x) then show ?thesis using ph [of t] by (intro mv [of t l' "B_done x"]) (auto simp: bgoto_def E)
  next
    case (look_some t x) then show ?thesis using ph [of t] by (intro mv [of t l' "B_wake x"]) (auto simp: bgoto_def E)
  next
    case (wake t x) then show ?thesis using park_wake [OF ok fin] by simp
  next
    case (spin_over t x) then show ?thesis using ph [of t] other [of x] by (intro mv [of t l' "B_done x"]) (auto simp: bgoto_def E)
  next
    case (spin_more t x) then show ?thesis using ok by simp
  next
    case (spin_park t x) then show ?thesis using ph [of t] by (intro mv [of t l' "B_prep x"]) (auto simp: bgoto_def E)
  next
    case (prepare t x) then show ?thesis using ph [of t] by (intro mv [of t l' "B_key x"]) (auto simp: bgoto_def E)
  next
    case (read_key t x) then show ?thesis using ph [of t] ep by (intro mv [of t l' "B_check x (epoch l)"]) (auto simp: bgoto_def E)
  next
    case (check_over t x k) then show ?thesis using ph [of t] other [of x] by (intro mv [of t l' "B_cancel x"]) (auto simp: bgoto_def E)
  next
    case (cancel t x) then show ?thesis using ph [of t] by (intro mv [of t l' "B_done x"]) (auto simp: bgoto_def E)
  next
    case (check_wait t x k)
    have "uint x = int (gens l)" using check_wait(4) gen ug by simp
    then show ?thesis using check_wait ph [of t] epochs_le [of ts l] by (intro mv [of t l' "B_commit x k"]) (auto simp: bgoto_def E)
  next
    case (commit_over t x k) then show ?thesis using ph [of t] by (intro mv [of t l' "B_leave x"]) (auto simp: bgoto_def E)
  next
    case (commit_same t x k) then show ?thesis using ph [of t] by (intro mv [of t l' "B_futex x k"]) (auto simp: bgoto_def E)
  next
    case (sleep t x k) then show ?thesis using ph [of t] ep by (intro mv [of t l' "B_sleep x k"]) (auto simp: bgoto_def E)
  next
    case (no_sleep t x k) then show ?thesis using ph [of t] by (intro mv [of t l' "B_commit x k"]) (auto simp: bgoto_def E)
  next
    case (interrupted t x k) then show ?thesis using ph [of t] by (intro mv [of t l' "B_commit x k"]) (auto simp: bgoto_def E)
  next
    case (leave t x) then show ?thesis using ph [of t] by (intro mv [of t l' "B_spin x"]) (auto simp: bgoto_def E)
  next
    case (returns t x) then show ?thesis by (intro mv [of t l' B_out]) (auto simp: bgoto_def E)
  qed simp
qed

interpretation barr: invariant_system "\<lambda>l. l = barrier_new (of_nat n)" "barrier_step False ts"
  "\<lambda>l. barrier_bounds n ts \<and> gens l < 2 ^ 32 \<longrightarrow> count_ok n l \<and> park_ok ts l"
proof
  fix l l' :: "'a barrier"
  show "barrier_bounds n ts \<and> gens l < 2 ^ 32 \<longrightarrow> count_ok n l \<and> park_ok ts l" if "l = barrier_new (of_nat n)"
    using that tally_none [of ts _ "\<lambda>_. B_out"]
    by (auto simp: barrier_new_def barrier_bounds_def count_ok_def park_ok_def epochs_def rest_ok_def intro!: exI [of _ n])
  show "barrier_bounds n ts \<and> gens l' < 2 ^ 32 \<longrightarrow> count_ok n l' \<and> park_ok ts l'"
    if inv: "barrier_bounds n ts \<and> gens l < 2 ^ 32 \<longrightarrow> count_ok n l \<and> park_ok ts l" and st: "barrier_step False ts l l'"
  proof (intro impI)
    assume b: "barrier_bounds n ts \<and> gens l' < 2 ^ 32"
    then have "count_ok n l" "park_ok ts l" using inv barrier_step_gens [OF st] by auto
    then show "count_ok n l' \<and> park_ok ts l'" using b count_step [OF _ _ st] park_step [OF _ _ _ st] by blast
  qed
qed

lemma phase_over:
  assumes "count_ok n l" "1 \<le> n"
  shows "n * (g + 1) \<le> arrivals l \<longleftrightarrow> g < gens l"
proof -
  obtain c where c: "1 \<le> c" "c \<le> n" "arrivals l + c = n * gens l + n" using assms(1) by (auto simp: count_ok_def)
  then have a: "n * gens l \<le> arrivals l" "arrivals l < n * (gens l + 1)" by (simp_all add: algebra_simps)
  show ?thesis
  proof
    assume "n * (g + 1) \<le> arrivals l"
    then have "n * (g + 1) < n * (gens l + 1)" using a(2) by linarith
    then show "g < gens l" by simp
  next
    assume "g < gens l"
    then have "n * (g + 1) \<le> n * gens l" by (intro mult_le_mono2) simp
    then show "n * (g + 1) \<le> arrivals l" using a(1) by linarith
  qed
qed

text \<open>
  C25: Under sequentially consistent memory, in every run of a barrier for \<open>n\<close> threads with fewer than \<open>2\<^sup>32\<close> generations, the word counts the arrivals that the generation still needs, and a
  thread leaves \<^verbatim>\<open>arrive_and_wait\<close> only when all \<open>n\<close> arrivals of its generation have happened.  Nobody sleeps through the end of a
  generation: while a thread sleeps although all have arrived, another one is about to raise the epoch or to wake the sleepers.
\<close>

theorem barrier_phases:
  assumes "barrier_bounds n ts" "(barrier_step False ts)\<^sup>*\<^sup>* (barrier_new (of_nat n)) l" "gens l < 2 ^ 32"
  shows "arrivals l + unat (barrier_expected l) = n * gens l + n \<and> 1 \<le> unat (barrier_expected l) \<and> unat (barrier_expected l) \<le> n \<and>
    (\<forall>t\<in>ts. \<forall>g. bpc l t = B_done g \<longrightarrow> n * (unat g + 1) \<le> arrivals l) \<and>
    (\<forall>t\<in>ts. \<forall>g k. bpc l t = B_sleep g k \<and> n * (unat g + 1) \<le> arrivals l \<longrightarrow> (\<exists>u\<in>ts. notifying (bpc l u) \<or> waking (bpc l u)))"
proof -
  have c: "count_ok n l" and p: "park_ok ts l" using barr.reach_inv [OF refl assms(2)] assms(1,3) by blast+
  have n: "1 \<le> n" "n < 2 ^ 32" "finite ts" using assms(1) by (auto simp: barrier_bounds_def)
  have ph: "\<And>t. t \<in> ts \<Longrightarrow> phase_ok (int (gens l)) (epochs ts l) (bpc l t)" and r: "rest_ok ts (epochs ts l) (bpc l)" using p by (auto simp: park_ok_def)
  have un: "int (unat g) = uint g" for g :: "32 word" by simp
  obtain k where k: "1 \<le> k" "k \<le> n" "bstate l = pack (of_nat (gens l)) (of_nat k)" "arrivals l + k = n * gens l + n" using c by (auto simp: count_ok_def)
  have "unat (barrier_expected l) = k" using k n(2) by (simp add: barrier_expected_def unsigned_of_nat take_bit_nat_eq_self)
  moreover have "n * (unat g + 1) \<le> arrivals l" if "t \<in> ts" "bpc l t = B_done g" for t g
    using ph [OF that(1)] that(2) phase_over [OF c n(1), of "unat g"] un [of g] by simp
  moreover have "\<exists>u\<in>ts. notifying (bpc l u) \<or> waking (bpc l u)" if t: "t \<in> ts" "bpc l t = B_sleep g x" "n * (unat g + 1) \<le> arrivals l" for t g x
  proof (cases "uint x < epochs ts l")
    case True then show ?thesis using r t(1,2) by (auto simp: rest_ok_def)
  next
    case False
    have "unat g < gens l" using phase_over [OF c n(1)] t(3) by blast
    then have "uint g < int (gens l)" using un [of g] by linarith
    then have "epochs ts l < int (gens l)" using ph [OF t(1)] t(2) False by simp
    then have "tally ts notifying (bpc l) \<noteq> 0" by (simp add: epochs_def)
    then show ?thesis using tally_zero [OF n(3), of notifying "bpc l"] by blast
  qed
  ultimately show ?thesis using k by blast
qed

theorem barrier_phases_witness:
  "\<exists>l :: nat barrier. (barrier_step False {0, 1})\<^sup>*\<^sup>* (barrier_new (of_nat 1)) l \<and> gens l = 1 \<and> arrivals l + unat (barrier_expected l) = 2"
proof -
  let ?n = "barrier_new (of_nat 1) :: nat barrier" let ?a = "bgoto 0 (B_cas False (bstate ?n)) ?n"
  let ?b = "bgoto 0 (B_notify (gen_of (bstate ?n))) ?a\<lparr>bstate := pack (gen_of (bstate ?n) + 1) (threshold ?a), gens := gens ?a + 1, arrivals := arrivals ?a + 1\<rparr>"
  have 1: "barrier_step False {0, 1} ?n ?a" by (rule arrive_call) (simp_all add: barrier_new_def)
  have 2: "barrier_step False {0, 1} ?a ?b" by (rule arrive_last [where dr = False]) (simp_all add: bgoto_def barrier_new_def)
  have r: "(barrier_step False {0, 1})\<^sup>*\<^sup>* ?n ?b" using 1 2 by (meson converse_rtranclp_into_rtranclp r_into_rtranclp)
  have "gens ?b = 1" "barrier_bounds 1 {0 :: nat, 1}" by (simp_all add: bgoto_def barrier_new_def barrier_bounds_def)
  then show ?thesis using barrier_phases [OF _ r] r by fastforce
qed

end
