(* ===== verification/Regex_Class.thy ===== *)
theory Regex_Class
  imports "HOL-Library.Word"
begin

text \<open>
  Sets of bytes (\<^verbatim>\<open>src/src/regex/charreach.hpp\<close>): 256 bits in four 64-bit words, with the operations on them, and the nibble tables
  by which a run of text is scanned for a byte of a set (\<^verbatim>\<open>src/src/regex/classscan.hpp\<close>, the loop that needs no vector unit).
\<close>

unbundle bit_operations_syntax

type_synonym byte = "8 word"

subsection \<open>The four words\<close>

type_synonym charreach = "64 word list"

definition cr_none :: charreach where
  "cr_none = [0, 0, 0, 0]"

definition cr_word :: "byte \<Rightarrow> nat" where
  "cr_word c = unat (drop_bit 6 c)"

definition cr_bit :: "byte \<Rightarrow> 64 word" where
  "cr_bit c = push_bit (unat (c AND 63)) 1"

definition cr_set :: "charreach \<Rightarrow> byte \<Rightarrow> charreach" where
  "cr_set r c = r[cr_word c := (r ! cr_word c) OR cr_bit c]"

definition cr_unset :: "charreach \<Rightarrow> byte \<Rightarrow> charreach" where
  "cr_unset r c = r[cr_word c := (r ! cr_word c) AND NOT (cr_bit c)]"

definition cr_test :: "charreach \<Rightarrow> byte \<Rightarrow> bool" where
  "cr_test r c = (drop_bit (unat (c AND 63)) (r ! cr_word c) AND 1 \<noteq> 0)"

definition cr_set_range :: "charreach \<Rightarrow> byte \<Rightarrow> byte \<Rightarrow> charreach" where
  "cr_set_range r lo hi = fold (\<lambda>c r. cr_set r (of_nat c)) [unat lo..<Suc (unat hi)] r"

definition cr_set_all :: "charreach \<Rightarrow> charreach" where
  "cr_set_all r = [NOT 0, NOT 0, NOT 0, NOT 0]"

definition cr_clear :: "charreach \<Rightarrow> charreach" where
  "cr_clear r = [0, 0, 0, 0]"

definition cr_flip :: "charreach \<Rightarrow> charreach" where
  "cr_flip r = [NOT (r ! 0), NOT (r ! 1), NOT (r ! 2), NOT (r ! 3)]"

definition cr_negated :: "charreach \<Rightarrow> charreach" where
  "cr_negated r = cr_flip r"

definition cr_or :: "charreach \<Rightarrow> charreach \<Rightarrow> charreach" where
  "cr_or r u = [r ! 0 OR u ! 0, r ! 1 OR u ! 1, r ! 2 OR u ! 2, r ! 3 OR u ! 3]"

definition cr_and :: "charreach \<Rightarrow> charreach \<Rightarrow> charreach" where
  "cr_and r u = [r ! 0 AND u ! 0, r ! 1 AND u ! 1, r ! 2 AND u ! 2, r ! 3 AND u ! 3]"

definition cr_any :: "charreach \<Rightarrow> bool" where
  "cr_any r = (r ! 0 OR r ! 1 OR r ! 2 OR r ! 3 \<noteq> 0)"

definition cr_empty :: "charreach \<Rightarrow> bool" where
  "cr_empty r = (\<not> cr_any r)"

definition popcount :: "64 word \<Rightarrow> nat" where
  "popcount w = length (filter (bit w) [0..<64])"

definition cr_count :: "charreach \<Rightarrow> nat" where
  "cr_count r = popcount (r ! 0) + popcount (r ! 1) + popcount (r ! 2) + popcount (r ! 3)"

definition cr_single :: "charreach \<Rightarrow> nat" where
  "cr_single r = (if cr_count r \<noteq> 1 then 256
     else case find (\<lambda>c. cr_test r (of_nat c)) [0..<256] of Some c \<Rightarrow> c | None \<Rightarrow> 256)"

definition cr_equal :: "charreach \<Rightarrow> charreach \<Rightarrow> bool" where
  "cr_equal r u = (r ! 0 = u ! 0 \<and> r ! 1 = u ! 1 \<and> r ! 2 = u ! 2 \<and> r ! 3 = u ! 3)"

subsection \<open>The nibble tables\<close>

record truffle_masks =
  lo_clear :: "byte list"
  lo_set :: "byte list"

definition truffle_add :: "byte \<Rightarrow> truffle_masks \<Rightarrow> truffle_masks" where
  "truffle_add c t =
     (let i = unat (c AND 0x0F); b = push_bit (unat (drop_bit 4 c AND 7)) 1
      in if c AND 0x80 \<noteq> 0 then t\<lparr>lo_set := (lo_set t)[i := lo_set t ! i OR b]\<rparr>
         else t\<lparr>lo_clear := (lo_clear t)[i := lo_clear t ! i OR b]\<rparr>)"

definition truffle_build :: "charreach \<Rightarrow> truffle_masks" where
  "truffle_build cls =
     fold (\<lambda>c t. if cr_test cls (of_nat c) then truffle_add (of_nat c) t else t) [0..<256]
       \<lparr>lo_clear = replicate 16 0, lo_set = replicate 16 0\<rparr>"

definition truffle_test :: "truffle_masks \<Rightarrow> byte \<Rightarrow> bool" where
  "truffle_test t c =
     (let tbl = (if c AND 0x80 \<noteq> 0 then lo_set t ! unat (c AND 0x0F) else lo_clear t ! unat (c AND 0x0F))
      in drop_bit (unat (drop_bit 4 c AND 7)) tbl AND 1 \<noteq> 0)"

fun truffle_find_first :: "byte list \<Rightarrow> truffle_masks \<Rightarrow> nat" where
  "truffle_find_first [] t = 0"
| "truffle_find_first (c # cs) t = (if truffle_test t c then 0 else Suc (truffle_find_first cs t))"

text \<open>\<^verbatim>\<open>micron::memchr\<close>: the offset of the first occurrence of a byte.\<close>

fun memchr :: "byte list \<Rightarrow> byte \<Rightarrow> nat option" where
  "memchr [] b = None"
| "memchr (c # cs) b = (if c = b then Some 0 else map_option Suc (memchr cs b))"

subsection \<open>Sets\<close>

abbreviation cr_wf :: "charreach \<Rightarrow> bool" where
  "cr_wf r \<equiv> length r = 4"

text \<open>The word and the bit of a byte are its quotient and its remainder by 64.\<close>

lemma unat_byte_less: "unat (c :: byte) < 256"
  using unsigned_less [of c] by simp

lemma unat_drop_byte: "unat (drop_bit n (c :: byte)) = unat c div 2 ^ n"
proof -
  have "take_bit 8 (unat c) = unat c" using unat_byte_less [of c] by (simp add: take_bit_nat_eq_self)
  then show ?thesis unfolding unsigned_drop_bit_eq by (simp add: drop_bit_eq_div)
qed

lemma unat_mask_byte: "unat ((c :: byte) AND mask n) = unat c mod 2 ^ n"
  by (metis take_bit_eq_mask take_bit_eq_mod unsigned_take_bit_eq)

lemma cr_word_alt: "cr_word c = unat c div 64"
  unfolding cr_word_def unat_drop_byte by simp

lemma cr_rem: "unat ((c :: byte) AND 63) = unat c mod 64"
  using unat_mask_byte [of c 6] by (simp add: mask_eq_exp_minus_1)

lemma cr_word_less [simp]: "cr_word c < 4"
  using unat_byte_less [of c] by (simp add: cr_word_alt)

lemma cr_test_bit: "cr_test r c = bit (r ! cr_word c) (unat c mod 64)"
  unfolding cr_test_def cr_rem by (simp add: bit_iff_odd_drop_bit and_one_eq odd_iff_mod_2_eq_one)

lemma cr_bit_bit: "bit (cr_bit c) i \<longleftrightarrow> i = unat c mod 64"
proof -
  have "unat c mod 64 < 64" by simp
  then show ?thesis unfolding cr_bit_def cr_rem by (auto simp: bit_exp_iff)
qed

lemma cr_place_eq: "cr_word c = cr_word d \<and> unat c mod 64 = unat d mod 64 \<longleftrightarrow> c = d"
  unfolding cr_word_alt by (metis div_mult_mod_eq word_unat_eq_iff)

definition cr_bytes :: "charreach \<Rightarrow> byte set" where
  "cr_bytes r = {c. cr_test r c}"

lemma cr_test_bytes: "cr_test r c \<longleftrightarrow> c \<in> cr_bytes r"
  by (simp add: cr_bytes_def)

lemma cr_wf_ops [simp]:
  "cr_wf cr_none" "cr_wf r \<Longrightarrow> cr_wf (cr_set r c)" "cr_wf r \<Longrightarrow> cr_wf (cr_unset r c)" "cr_wf (cr_set_all r)" "cr_wf (cr_clear r)"
  "cr_wf (cr_flip r)" "cr_wf (cr_or r u)" "cr_wf (cr_and r u)"
  by (simp_all add: cr_none_def cr_set_def cr_unset_def cr_set_all_def cr_clear_def cr_flip_def cr_or_def cr_and_def)

lemma cr_bytes_set [simp]: "cr_wf r \<Longrightarrow> cr_bytes (cr_set r c) = insert c (cr_bytes r)"
proof -
  assume r: "cr_wf r"
  have "cr_test (cr_set r c) d \<longleftrightarrow> d = c \<or> cr_test r d" for d
  proof (cases "cr_word d = cr_word c")
    case True
    then show ?thesis using r cr_place_eq [of d c] by (auto simp: cr_set_def cr_test_bit bit_or_iff cr_bit_bit)
  next
    case False then show ?thesis using r by (auto simp: cr_set_def cr_test_bit)
  qed
  then show ?thesis by (auto simp: cr_bytes_def)
qed

lemma cr_bytes_unset [simp]: "cr_wf r \<Longrightarrow> cr_bytes (cr_unset r c) = cr_bytes r - {c}"
proof -
  assume r: "cr_wf r"
  have "cr_test (cr_unset r c) d \<longleftrightarrow> d \<noteq> c \<and> cr_test r d" for d
  proof (cases "cr_word d = cr_word c")
    case True
    have "unat d mod 64 < 64" by simp
    then show ?thesis using True r cr_place_eq [of d c]
      by (auto simp: cr_unset_def cr_test_bit bit_and_iff bit_not_iff cr_bit_bit)
  next
    case False then show ?thesis using r by (auto simp: cr_unset_def cr_test_bit)
  qed
  then show ?thesis by (auto simp: cr_bytes_def)
qed

text \<open>An operation on all four words.\<close>

lemma less_four: "i < 4 \<Longrightarrow> i = 0 \<or> i = 1 \<or> i = 2 \<or> i = (3 :: nat)"
  by auto

lemma cr_nth:
  assumes "i < 4"
  shows "cr_or r u ! i = r ! i OR u ! i" "cr_and r u ! i = r ! i AND u ! i" "cr_flip r ! i = NOT (r ! i)"
    "cr_set_all r ! i = NOT 0" "cr_clear r ! i = 0" "cr_none ! i = 0"
  using less_four [OF assms]
  by (auto simp: cr_or_def cr_and_def cr_flip_def cr_set_all_def cr_clear_def cr_none_def numeral_eq_Suc)

lemma cr_bytes_ops [simp]:
  "cr_bytes (cr_or r u) = cr_bytes r \<union> cr_bytes u" "cr_bytes (cr_and r u) = cr_bytes r \<inter> cr_bytes u"
  "cr_bytes (cr_flip r) = - cr_bytes r" "cr_bytes (cr_set_all r) = UNIV" "cr_bytes (cr_clear r) = {}" "cr_bytes cr_none = {}"
proof -
  have k: "unat c mod 64 < 64" for c :: byte by simp
  show "cr_bytes (cr_or r u) = cr_bytes r \<union> cr_bytes u" "cr_bytes (cr_and r u) = cr_bytes r \<inter> cr_bytes u"
    "cr_bytes (cr_flip r) = - cr_bytes r" "cr_bytes (cr_set_all r) = UNIV" "cr_bytes (cr_clear r) = {}" "cr_bytes cr_none = {}"
    using k by (auto simp: cr_bytes_def cr_test_bit cr_nth bit_or_iff bit_and_iff bit_not_iff)
qed

lemma cr_bytes_fold_set:
  "cr_wf r \<Longrightarrow> cr_wf (fold (\<lambda>c r. cr_set r (f c)) xs r) \<and> cr_bytes (fold (\<lambda>c r. cr_set r (f c)) xs r) = f ` set xs \<union> cr_bytes r"
  by (induction xs arbitrary: r) auto

lemma cr_set_range_wf [simp]: "cr_wf r \<Longrightarrow> cr_wf (cr_set_range r lo hi)"
  using cr_bytes_fold_set [of r "\<lambda>c. of_nat c"] by (simp add: cr_set_range_def)

lemma cr_bytes_set_range [simp]: "cr_wf r \<Longrightarrow> cr_bytes (cr_set_range r lo hi) = {lo..hi} \<union> cr_bytes r"
proof -
  assume r: "cr_wf r"
  have "(of_nat :: nat \<Rightarrow> byte) ` set [unat lo..<Suc (unat hi)] = {lo..hi}"
  proof
    show "(of_nat :: nat \<Rightarrow> byte) ` set [unat lo..<Suc (unat hi)] \<subseteq> {lo..hi}"
    proof
      fix c :: byte assume "c \<in> of_nat ` set [unat lo..<Suc (unat hi)]"
      then obtain k where k: "c = of_nat k" "unat lo \<le> k" "k \<le> unat hi" by auto
      then have "unat c = k" using unat_byte_less [of hi] by (simp add: unsigned_of_nat take_bit_nat_eq_self)
      then show "c \<in> {lo..hi}" using k by (simp add: word_le_nat_alt)
    qed
    show "{lo..hi} \<subseteq> (of_nat :: nat \<Rightarrow> byte) ` set [unat lo..<Suc (unat hi)]"
    proof
      fix c assume "c \<in> {lo..hi}"
      then have "unat lo \<le> unat c" "unat c \<le> unat hi" by (simp_all add: word_le_nat_alt)
      then show "c \<in> of_nat ` set [unat lo..<Suc (unat hi)]" by (intro image_eqI [of _ _ "unat c"]) auto
    qed
  qed
  then show ?thesis using cr_bytes_fold_set [OF r, of "\<lambda>c. of_nat c"] by (simp add: cr_set_range_def)
qed

text \<open>The bytes of a set, word by word.\<close>

definition cr_part :: "charreach \<Rightarrow> nat \<Rightarrow> byte set" where
  "cr_part r i = (\<lambda>k. of_nat (64 * i + k)) ` {k. k < 64 \<and> bit (r ! i) k}"

lemma unat_place: "i < 4 \<Longrightarrow> k < 64 \<Longrightarrow> unat (of_nat (64 * i + k) :: byte) = 64 * i + k"
  by (subst unsigned_of_nat) (simp add: take_bit_nat_eq_self)

lemma cr_bytes_parts: "cr_bytes r = (\<Union>i<4. cr_part r i)"
proof
  show "cr_bytes r \<subseteq> (\<Union>i<4. cr_part r i)"
  proof
    fix c assume "c \<in> cr_bytes r"
    then have "bit (r ! cr_word c) (unat c mod 64)" by (simp add: cr_bytes_def cr_test_bit)
    moreover have "c = of_nat (64 * cr_word c + unat c mod 64)" unfolding cr_word_alt by simp
    ultimately have "c \<in> cr_part r (cr_word c)" unfolding cr_part_def by (intro image_eqI [of _ _ "unat c mod 64"]) auto
    then show "c \<in> (\<Union>i<4. cr_part r i)" by auto
  qed
  show "(\<Union>i<4. cr_part r i) \<subseteq> cr_bytes r"
  proof
    fix c assume "c \<in> (\<Union>i<4. cr_part r i)"
    then obtain i k where i: "i < 4" "k < 64" "bit (r ! i) k" "c = of_nat (64 * i + k)" by (auto simp: cr_part_def)
    then have "unat c = 64 * i + k" by (simp only: unat_place)
    then have "cr_word c = i" "unat c mod 64 = k" using i by (simp_all add: cr_word_alt)
    then show "c \<in> cr_bytes r" using i by (simp add: cr_bytes_def cr_test_bit)
  qed
qed

lemma cr_part_disjoint: "i < 4 \<Longrightarrow> j < 4 \<Longrightarrow> i \<noteq> j \<Longrightarrow> cr_part r i \<inter> cr_part r j = {}"
proof (rule ccontr)
  assume ij: "i < 4" "j < 4" "i \<noteq> j" and "cr_part r i \<inter> cr_part r j \<noteq> {}"
  then obtain k l where "k < 64" "l < 64" "(of_nat (64 * i + k) :: byte) = of_nat (64 * j + l)" by (auto simp: cr_part_def)
  then have "64 * i + k = 64 * j + l" using unat_place [of i k] unat_place [of j l] ij by simp
  then have "(64 * i + k) div 64 = (64 * j + l) div 64" by simp
  then show False using \<open>k < 64\<close> \<open>l < 64\<close> ij by simp
qed

lemma popcount_card: "popcount w = card {k. k < 64 \<and> bit w k}"
proof -
  have "popcount w = card (set (filter (bit w) [0..<64]))" unfolding popcount_def by (intro distinct_card [symmetric]) simp
  also have "set (filter (bit w) [0..<64]) = {k. k < 64 \<and> bit w k}" by auto
  finally show ?thesis .
qed

lemma card_cr_part: "i < 4 \<Longrightarrow> card (cr_part r i) = popcount (r ! i)"
proof -
  assume i: "i < 4"
  have "inj_on (\<lambda>k. of_nat (64 * i + k) :: byte) {k. k < 64 \<and> bit (r ! i) k}"
  proof (rule inj_onI)
    fix k l assume kl: "k \<in> {k. k < 64 \<and> bit (r ! i) k}" "l \<in> {k. k < 64 \<and> bit (r ! i) k}"
      "(of_nat (64 * i + k) :: byte) = of_nat (64 * i + l)"
    have "64 * i + k = unat (of_nat (64 * i + k) :: byte)" using kl(1) unat_place [OF i] by simp
    also have "\<dots> = 64 * i + l" unfolding kl(3) using kl(2) unat_place [OF i] by simp
    finally show "k = l" by simp
  qed
  then show ?thesis unfolding cr_part_def popcount_card by (rule card_image)
qed

lemma cr_count_card: "cr_count r = card (cr_bytes r)"
proof -
  have "card (cr_bytes r) = (\<Sum>i<4. card (cr_part r i))"
    unfolding cr_bytes_parts using cr_part_disjoint by (intro card_UN_disjoint) (auto simp: cr_part_def)
  also have "\<dots> = (\<Sum>i<4. popcount (r ! i))" by (intro sum.cong) (auto simp: card_cr_part)
  also have "\<dots> = cr_count r" by (simp add: cr_count_def numeral_eq_Suc)
  finally show ?thesis by simp
qed

lemma popcount_zero: "popcount w = 0 \<longleftrightarrow> w = 0"
proof -
  have "popcount w = 0 \<longleftrightarrow> {k. k < 64 \<and> bit w k} = {}" unfolding popcount_card by simp
  also have "\<dots> \<longleftrightarrow> w = 0" by (auto intro: bit_eqI dest: bit_imp_le_length)
  finally show ?thesis .
qed

lemma cr_any_bytes: "cr_any r \<longleftrightarrow> cr_bytes r \<noteq> {}"
proof -
  have "cr_bytes r = {} \<longleftrightarrow> cr_count r = 0" unfolding cr_count_card by simp
  then show ?thesis by (simp add: cr_any_def cr_count_def popcount_zero or_eq_0_iff)
qed

lemma cr_single_bytes:
  assumes "cr_count r = 1"
  shows "cr_single r < 256 \<and> cr_bytes r = {of_nat (cr_single r)}"
proof -
  obtain c where c: "cr_bytes r = {c}" using assms unfolding cr_count_card by (auto simp: card_1_singleton_iff)
  have "\<exists>k\<in>set [0..<256]. cr_test r (of_nat k)"
    using c unat_byte_less [of c] by (intro bexI [of _ "unat c"]) (auto simp: cr_test_bytes)
  then obtain k where k: "find (\<lambda>c. cr_test r (of_nat c)) [0..<256] = Some k"
    by (metis find_None_iff not_None_eq)
  then have "cr_test r (of_nat k)" "k < 256" by (auto simp: find_Some_iff)
  then show ?thesis using assms k c by (simp add: cr_single_def cr_test_bytes)
qed

lemma cr_bit_bytes: "i < 4 \<Longrightarrow> k < 64 \<Longrightarrow> bit (r ! i) k \<longleftrightarrow> of_nat (64 * i + k) \<in> cr_bytes r"
proof -
  assume i: "i < 4" "k < 64"
  then have "unat (of_nat (64 * i + k) :: byte) = 64 * i + k" by (rule unat_place)
  then have "cr_word (of_nat (64 * i + k)) = i" "unat (of_nat (64 * i + k) :: byte) mod 64 = k"
    using i by (simp_all only: cr_word_alt) simp_all
  then show ?thesis by (simp add: cr_bytes_def cr_test_bit del: of_nat_add)
qed

lemma cr_equal_bytes: "cr_equal r u \<longleftrightarrow> cr_bytes r = cr_bytes u"
proof
  assume "cr_equal r u"
  then have "r ! i = u ! i" if "i < 4" for i using less_four [OF that] by (auto simp: cr_equal_def)
  then show "cr_bytes r = cr_bytes u" by (simp add: cr_bytes_def cr_test_bit)
next
  assume e: "cr_bytes r = cr_bytes u"
  have "r ! i = u ! i" if "i < 4" for i using cr_bit_bytes [OF that] e by (intro bit_eqI) simp
  then show "cr_equal r u" by (simp add: cr_equal_def)
qed

lemma cr_wf_eqI: "cr_wf r \<Longrightarrow> cr_wf u \<Longrightarrow> cr_bytes r = cr_bytes u \<Longrightarrow> r = u"
  unfolding cr_equal_bytes [symmetric] cr_equal_def by (intro nth_equalityI) (auto dest!: less_four)

subsection \<open>Scanning\<close>

lemma memchr_None: "memchr cs b = None \<longleftrightarrow> b \<notin> set cs"
  by (induction cs) auto

lemma memchr_Some: "memchr cs b = Some k \<Longrightarrow> k < length cs \<and> cs ! k = b \<and> (\<forall>j<k. cs ! j \<noteq> b)"
  by (induction cs arbitrary: k) (auto split: if_splits simp: nth_Cons less_Suc_eq_0_disj split: nat.splits)

text \<open>A byte is its top bit, the three bits below it and its low nibble.\<close>

lemma byte_top: "(c :: byte) AND 0x80 \<noteq> 0 \<longleftrightarrow> 128 \<le> unat c"
proof -
  have "c AND 2 ^ 7 = 0 \<longleftrightarrow> \<not> bit c 7" by (rule and_exp_eq_0_iff_not_bit)
  moreover have "bit c 7 \<longleftrightarrow> odd (unat c div 2 ^ 7)" by (metis bit_iff_odd bit_unsigned_iff possible_bit_nat)
  moreover have "unat c div 2 ^ 7 < 2" using unat_byte_less [of c] by simp
  then have "odd (unat c div 2 ^ 7) \<longleftrightarrow> unat c div 2 ^ 7 = 1" by (auto simp: less_2_cases_iff)
  moreover have "unat c div 2 ^ 7 = 1 \<longleftrightarrow> 128 \<le> unat c" using unat_byte_less [of c] by auto
  ultimately show ?thesis by simp
qed

lemma byte_low: "unat ((c :: byte) AND 0x0F) = unat c mod 16"
  using unat_mask_byte [of c 4] by (simp add: mask_eq_exp_minus_1)

lemma byte_mid: "unat (drop_bit 4 (c :: byte) AND 7) = unat c div 16 mod 8"
proof -
  have "unat (drop_bit 4 c AND mask 3) = unat (drop_bit 4 c) mod 2 ^ 3" by (rule unat_mask_byte)
  then show ?thesis unfolding unat_drop_byte by (simp add: mask_eq_exp_minus_1)
qed

lemma byte_parts_eq:
  assumes "128 \<le> unat (c :: byte) \<longleftrightarrow> 128 \<le> unat d" "unat c mod 16 = unat d mod 16" "unat c div 16 mod 8 = unat d div 16 mod 8"
  shows "c = d"
proof -
  have split: "unat x = 128 * (unat x div 128) + 16 * (unat x div 16 mod 8) + unat x mod 16" for x :: byte
  proof -
    have "unat x mod (16 * 8) = 16 * (unat x div 16 mod 8) + unat x mod 16" by (rule mod_mult2_eq)
    moreover have "unat x = 128 * (unat x div 128) + unat x mod 128" by simp
    ultimately show ?thesis by simp
  qed
  have top: "unat x div 128 = (if 128 \<le> unat x then 1 else 0)" for x :: byte using unat_byte_less [of x] by auto
  have "unat c = unat d" using split [of c] split [of d] top [of c] top [of d] assms by simp
  then show ?thesis by (simp add: word_unat_eq_iff)
qed

definition truffle_bytes :: "truffle_masks \<Rightarrow> byte set" where
  "truffle_bytes t = {c. truffle_test t c}"

abbreviation truffle_wf :: "truffle_masks \<Rightarrow> bool" where
  "truffle_wf t \<equiv> length (lo_clear t) = 16 \<and> length (lo_set t) = 16"

lemma truffle_test_bit:
  "truffle_test t c = bit (if 128 \<le> unat c then lo_set t ! (unat c mod 16) else lo_clear t ! (unat c mod 16)) (unat c div 16 mod 8)"
  unfolding truffle_test_def Let_def byte_top byte_low byte_mid
  by (simp add: bit_iff_odd_drop_bit and_one_eq odd_iff_mod_2_eq_one)

lemma truffle_add_alt:
  "truffle_add c t =
     (let i = unat c mod 16; b = push_bit (unat c div 16 mod 8) 1
      in if 128 \<le> unat c then t\<lparr>lo_set := (lo_set t)[i := lo_set t ! i OR b]\<rparr>
         else t\<lparr>lo_clear := (lo_clear t)[i := lo_clear t ! i OR b]\<rparr>)"
  unfolding truffle_add_def byte_top byte_low byte_mid ..

lemma truffle_add_bytes: "truffle_wf t \<Longrightarrow> truffle_wf (truffle_add c t) \<and> truffle_bytes (truffle_add c t) = insert c (truffle_bytes t)"
proof -
  assume wf: "truffle_wf t"
  define low mid where "low = (\<lambda>x :: byte. unat x mod 16)" and "mid = (\<lambda>x :: byte. unat x div 16 mod 8)"
  define top where "top = (\<lambda>x :: byte. 128 \<le> unat x)"
  have lt: "low x < 16" "mid x < 8" for x by (simp_all add: low_def mid_def)
  have eq: "top d = top c \<Longrightarrow> low d = low c \<Longrightarrow> mid d = mid c \<Longrightarrow> d = c" for d
    using byte_parts_eq [of d c] by (simp add: low_def mid_def top_def)
  have b: "bit (push_bit (mid c) 1 :: byte) k \<longleftrightarrow> k = mid c" for k using lt(2) [of c] by (auto simp: bit_exp_iff)
  have test: "truffle_test u d = bit (if top d then lo_set u ! low d else lo_clear u ! low d) (mid d)" for u d
    unfolding truffle_test_bit low_def mid_def top_def ..
  have add: "truffle_add c t = (if top c then t\<lparr>lo_set := (lo_set t)[low c := lo_set t ! low c OR push_bit (mid c) 1]\<rparr>
      else t\<lparr>lo_clear := (lo_clear t)[low c := lo_clear t ! low c OR push_bit (mid c) 1]\<rparr>)"
    unfolding truffle_add_alt low_def mid_def top_def Let_def ..
  have "truffle_test (truffle_add c t) d \<longleftrightarrow> d = c \<or> truffle_test t d" for d
    unfolding test add using wf lt(1) [of c] eq [of d] b [of "mid d"]
    by (auto simp: nth_list_update bit_or_iff b simp del: push_bit_of_1)
  moreover have "truffle_wf (truffle_add c t)" using wf by (simp add: truffle_add_def Let_def)
  ultimately show ?thesis by (auto simp: truffle_bytes_def)
qed

lemma truffle_build_bytes: "truffle_bytes (truffle_build cls) = cr_bytes cls"
proof -
  have "truffle_wf (fold (\<lambda>c t. if cr_test cls (of_nat c) then truffle_add (of_nat c) t else t) xs t) \<and>
    truffle_bytes (fold (\<lambda>c t. if cr_test cls (of_nat c) then truffle_add (of_nat c) t else t) xs t) =
      {of_nat c | c. c \<in> set xs \<and> cr_test cls (of_nat c)} \<union> truffle_bytes t" if "truffle_wf t" for xs t
    using that by (induction xs arbitrary: t) (auto simp: truffle_add_bytes)
  moreover have "truffle_bytes \<lparr>lo_clear = replicate 16 0, lo_set = replicate 16 0\<rparr> = {}"
    by (simp add: truffle_bytes_def truffle_test_bit)
  moreover have "{of_nat c | c. c \<in> set [0..<256] \<and> cr_test cls (of_nat c)} = cr_bytes cls"
  proof
    show "cr_bytes cls \<subseteq> {of_nat c | c. c \<in> set [0..<256] \<and> cr_test cls (of_nat c)}"
    proof
      fix c assume "c \<in> cr_bytes cls"
      then show "c \<in> {of_nat c | c. c \<in> set [0..<256] \<and> cr_test cls (of_nat c)}"
        using unat_byte_less [of c] by (intro CollectI exI [of _ "unat c"]) (auto simp: cr_bytes_def)
    qed
  qed (auto simp: cr_bytes_def)
  ultimately show ?thesis unfolding truffle_build_def by simp
qed

lemma truffle_find_first_le: "truffle_find_first cs t \<le> length cs"
  by (induction cs) auto

lemma truffle_find_first_spec:
  "(\<forall>j < truffle_find_first cs t. cs ! j \<notin> truffle_bytes t) \<and>
   (truffle_find_first cs t < length cs \<longrightarrow> cs ! truffle_find_first cs t \<in> truffle_bytes t)"
  by (induction cs) (auto simp: truffle_bytes_def nth_Cons split: nat.splits)

subsection \<open>Scanning with a vector unit\<close>

text \<open>
  The loops over blocks of 32 bytes (AVX2) and of 16 bytes (NEON), lane by lane.  A byte shuffle gives 0 for a control byte whose top bit is
  set and the table entry of its low nibble otherwise; a NEON table lookup gives 0 for an index beyond the table.
\<close>

definition shuffle_lane :: "byte list \<Rightarrow> byte \<Rightarrow> byte" where
  "shuffle_lane src ctl = (if ctl AND 0x80 \<noteq> 0 then 0 else src ! unat (ctl AND 0x0F))"

definition tbl1_lane :: "byte list \<Rightarrow> byte \<Rightarrow> byte" where
  "tbl1_lane src i = (if unat i < 16 then src ! unat i else 0)"

definition pow2 :: "byte list" where
  "pow2 = [1, 2, 4, 8, 16, 32, 64, 128, 1, 2, 4, 8, 16, 32, 64, 128]"

text \<open>A shift of 16-bit lanes brings bits of the upper byte into the lower one.\<close>

definition shr_i16_lane :: "byte list \<Rightarrow> nat \<Rightarrow> byte" where
  "shr_i16_lane v k = (if even k then drop_bit 4 (v ! k) OR push_bit 4 (v ! (k + 1)) else drop_bit 4 (v ! k))"

definition avx2_lane :: "truffle_masks \<Rightarrow> byte list \<Rightarrow> nat \<Rightarrow> bool" where
  "avx2_lane t v k =
     (let s1 = shuffle_lane (lo_clear t) (v ! k);
          s2 = shuffle_lane (lo_set t) (v ! k XOR 0x80);
          clo = s1 OR s2;
          hi3 = shr_i16_lane v k AND 0x07;
          bv = shuffle_lane pow2 hi3
      in clo AND bv \<noteq> 0)"

definition neon_lane :: "truffle_masks \<Rightarrow> byte list \<Rightarrow> nat \<Rightarrow> bool" where
  "neon_lane t v k =
     (let s1 = tbl1_lane (lo_clear t) (v ! k AND 0x8F);
          s2 = tbl1_lane (lo_set t) ((v ! k XOR 0x80) AND 0x8F);
          clo = s1 OR s2;
          hi3 = drop_bit 4 (v ! k) AND 0x07;
          bv = tbl1_lane pow2 hi3
      in clo AND bv \<noteq> 0)"

text \<open>The index of the lowest bit of the mask of a block, block after block, and the bytes that do not fill one.\<close>

function truffle_blocks :: "nat \<Rightarrow> (truffle_masks \<Rightarrow> byte list \<Rightarrow> nat \<Rightarrow> bool) \<Rightarrow> byte list \<Rightarrow> truffle_masks \<Rightarrow> nat" where
  "truffle_blocks width lane p t =
     (if 0 < width \<and> width \<le> length p then
        case find (lane t (take width p)) [0..<width] of
          Some k \<Rightarrow> k
        | None \<Rightarrow> width + truffle_blocks width lane (drop width p) t
      else truffle_find_first p t)"
  by auto
termination by (relation "measure (\<lambda>(_, _, p, _). length p)") auto

declare truffle_blocks.simps [simp del]

definition truffle_find_first_avx2 :: "byte list \<Rightarrow> truffle_masks \<Rightarrow> nat" where
  "truffle_find_first_avx2 p t = truffle_blocks 32 avx2_lane p t"

definition truffle_find_first_neon :: "byte list \<Rightarrow> truffle_masks \<Rightarrow> nat" where
  "truffle_find_first_neon p t = truffle_blocks 16 neon_lane p t"

text \<open>The search for one byte goes block by block as well, when there are at least 32 bytes.\<close>

function memchr_blocks :: "nat \<Rightarrow> byte list \<Rightarrow> byte \<Rightarrow> nat option" where
  "memchr_blocks width p c =
     (if 0 < width \<and> width \<le> length p then
        case find (\<lambda>k. take width p ! k = c) [0..<width] of
          Some k \<Rightarrow> Some k
        | None \<Rightarrow> map_option (\<lambda>k. width + k) (memchr_blocks width (drop width p) c)
      else memchr p c)"
  by auto
termination by (relation "measure (\<lambda>(_, p, _). length p)") auto

declare memchr_blocks.simps [simp del]

definition memchr128 :: "byte list \<Rightarrow> byte \<Rightarrow> nat option" where
  "memchr128 p c = memchr_blocks 16 p c"

definition memchr256 :: "byte list \<Rightarrow> byte \<Rightarrow> nat option" where
  "memchr256 p c = memchr_blocks 32 p c"

definition simd_dispatch_threshold :: nat where
  "simd_dispatch_threshold = 32"

definition memchr_dispatch :: "bool \<Rightarrow> byte list \<Rightarrow> byte \<Rightarrow> nat option" where
  "memchr_dispatch avx2 p c =
     (if length p < simd_dispatch_threshold then memchr p c else if avx2 then memchr256 p c else memchr128 p c)"

lemma byte_flip_top:
  "(c XOR 0x80) AND 0x80 \<noteq> 0 \<longleftrightarrow> (c :: byte) AND 0x80 = 0" "(c XOR 0x80) AND 0x0F = c AND (0x0F :: byte)"
proof -
  have top: "x AND 0x80 \<noteq> 0 \<longleftrightarrow> bit x 7" for x :: byte using and_exp_eq_0_iff_not_bit [of x 7] by simp
  have "bit (0x80 :: byte) 7" by simp
  then show "(c XOR 0x80) AND 0x80 \<noteq> 0 \<longleftrightarrow> c AND 0x80 = 0" using top [of "c XOR 0x80"] top [of c] by (auto simp: bit_xor_iff)
  show "(c XOR 0x80) AND 0x0F = c AND 0x0F" by (simp add: bit.conj_xor_distrib2)
qed

lemma pow2_lane:
  assumes "h < 8"
  shows "pow2 ! h = push_bit h 1"
  using assms unfolding pow2_def by (auto simp: less_Suc_eq numeral_eq_Suc nth_Cons split: nat.splits)

lemma shr_i16_mask: "shr_i16_lane v k AND 0x07 = drop_bit 4 (v ! k) AND 0x07"
proof -
  have "push_bit 4 x AND mask 3 = (0 :: byte)" for x by (rule bit_eqI) (auto simp: bit_and_iff bit_push_bit_iff bit_mask_iff)
  then have "push_bit 4 x AND 7 = (0 :: byte)" for x by (simp add: mask_eq_exp_minus_1)
  then show ?thesis by (simp add: shr_i16_lane_def bit.conj_disj_distrib2)
qed

text \<open>Both kinds of lanes test the byte the way the scalar loop does.\<close>

lemma lane_test:
  assumes "clo = (if c AND 0x80 \<noteq> 0 then lo_set t ! unat (c AND 0x0F) else lo_clear t ! unat (c AND 0x0F))" "h = unat (drop_bit 4 c AND 7)"
  shows "clo AND pow2 ! h \<noteq> 0 \<longleftrightarrow> truffle_test t c"
proof -
  have "h < 8" using assms(2) by (simp add: byte_mid)
  then have "clo AND pow2 ! h \<noteq> 0 \<longleftrightarrow> bit clo h"
    by (simp add: pow2_lane and_exp_eq_0_iff_not_bit)
  then show ?thesis unfolding truffle_test_def Let_def using assms
    by (simp add: bit_iff_odd_drop_bit and_one_eq odd_iff_mod_2_eq_one)
qed

lemma low_nibble: "x AND 0x07 = (x :: byte) \<Longrightarrow> x AND 0x80 = 0 \<and> x AND 0x0F = x"
proof -
  assume x: "x AND 0x07 = x"
  have "x AND 0x80 = x AND (0x07 AND 0x80)" "x AND 0x0F = x AND (0x07 AND 0x0F)" by (metis and.assoc x)+
  then show ?thesis using x by simp
qed

lemma avx2_lane_test: "avx2_lane t v k = truffle_test t (v ! k)"
proof -
  let ?c = "v ! k" let ?h = "drop_bit 4 ?c AND 0x07"
  have "?h AND 0x07 = ?h" by (simp add: and.assoc)
  then have "shuffle_lane pow2 ?h = pow2 ! unat ?h" using low_nibble by (simp add: shuffle_lane_def)
  moreover have "shuffle_lane (lo_clear t) ?c OR shuffle_lane (lo_set t) (?c XOR 0x80) =
      (if ?c AND 0x80 \<noteq> 0 then lo_set t ! unat (?c AND 0x0F) else lo_clear t ! unat (?c AND 0x0F))"
    unfolding shuffle_lane_def byte_flip_top by simp
  ultimately show ?thesis using lane_test [OF refl refl, where c = ?c and t = t]
    unfolding avx2_lane_def Let_def shr_i16_mask by simp
qed

lemma neon_lane_test: "neon_lane t v k = truffle_test t (v ! k)"
proof -
  let ?c = "v ! k" let ?h = "drop_bit 4 ?c AND 0x07"
  have tbl: "tbl1_lane src (c AND 0x8F) = (if c AND 0x80 \<noteq> 0 then 0 else src ! unat (c AND 0x0F))" for src and c :: byte
  proof -
    have "unat (c AND 0x8F) < 16 \<longleftrightarrow> c AND 0x80 = 0" "c AND 0x80 = 0 \<Longrightarrow> c AND 0x8F = c AND 0x0F"
    proof -
      have "c AND (0x80 OR 0x0F) = (c AND 0x80) OR (c AND 0x0F)" by (rule bit.conj_disj_distrib)
      then have or: "c AND 0x8F = (c AND 0x80) OR (c AND 0x0F)" by simp
      then show low: "c AND 0x80 = 0 \<Longrightarrow> c AND 0x8F = c AND 0x0F" by simp
      have "(c AND 0x8F) AND 0x80 = c AND 0x80" by (simp add: and.assoc)
      then have "128 \<le> unat (c AND 0x8F)" if "c AND 0x80 \<noteq> 0" using byte_top [of "c AND 0x8F"] that by simp
      then show "unat (c AND 0x8F) < 16 \<longleftrightarrow> c AND 0x80 = 0" using low byte_low [of c] by fastforce
    qed
    then show ?thesis by (simp add: tbl1_lane_def)
  qed
  have "unat ?h < 8" by (simp add: byte_mid)
  then have "tbl1_lane pow2 ?h = pow2 ! unat ?h" by (simp add: tbl1_lane_def)
  moreover have "tbl1_lane (lo_clear t) (?c AND 0x8F) OR tbl1_lane (lo_set t) ((?c XOR 0x80) AND 0x8F) =
      (if ?c AND 0x80 \<noteq> 0 then lo_set t ! unat (?c AND 0x0F) else lo_clear t ! unat (?c AND 0x0F))"
    unfolding tbl byte_flip_top by simp
  ultimately show ?thesis using lane_test [OF refl refl, where c = ?c and t = t]
    unfolding neon_lane_def Let_def by simp
qed

lemma find_upt_append:
  "truffle_find_first (p @ q) t = (if truffle_find_first p t < length p then truffle_find_first p t else length p + truffle_find_first q t)"
  by (induction p) auto

lemma truffle_find_first_find:
  "truffle_find_first p t = (case find (\<lambda>k. truffle_test t (p ! k)) [0..<length p] of Some k \<Rightarrow> k | None \<Rightarrow> length p)"
proof (induction p)
  case (Cons c p)
  have "[0..<length (c # p)] = 0 # map Suc [0..<length p]" by (simp add: upt_conv_Cons map_Suc_upt del: upt_Suc)
  moreover have "find P (map Suc xs) = map_option Suc (find (\<lambda>k. P (Suc k)) xs)" for P xs by (induction xs) simp_all
  ultimately show ?case using Cons by (simp add: split: option.splits)
qed simp

lemma truffle_blocks_scalar:
  assumes "\<And>v k. lane t v k = truffle_test t (v ! k)"
  shows "truffle_blocks width lane p t = truffle_find_first p t"
proof (induction "length p" arbitrary: p rule: less_induct)
  case less
  show ?case
  proof (cases "0 < width \<and> width \<le> length p")
    case True
    have "truffle_find_first p t = truffle_find_first (take width p @ drop width p) t" by simp
    also have "\<dots> = (if truffle_find_first (take width p) t < width then truffle_find_first (take width p) t
        else width + truffle_find_first (drop width p) t)" using True unfolding find_upt_append by simp
    also have "\<dots> = (case find (lane t (take width p)) [0..<width] of Some k \<Rightarrow> k | None \<Rightarrow> width + truffle_find_first (drop width p) t)"
    proof -
      have eq: "lane t (take width p) = (\<lambda>k. truffle_test t (take width p ! k))" "length (take width p) = width" using True assms by auto
      have lt: "k < width" if "find (\<lambda>k. truffle_test t (take width p ! k)) [0..<width] = Some k" for k
        using that by (auto simp: find_Some_iff)
      show ?thesis
        unfolding truffle_find_first_find [of "take width p"] eq
        by (cases "find (\<lambda>k. truffle_test t (take width p ! k)) [0..<width]") (simp_all add: lt)
    qed
    also have "\<dots> = truffle_blocks width lane p t" using True less by (subst truffle_blocks.simps) (auto split: option.splits)
    finally show ?thesis by simp
  qed (subst truffle_blocks.simps, auto)
qed

lemma truffle_find_first_takeWhile: "truffle_find_first p t = length (takeWhile (\<lambda>c. c \<notin> truffle_bytes t) p)"
  by (induction p) (auto simp: truffle_bytes_def)

lemma memchr_find: "memchr p c = find (\<lambda>k. p ! k = c) [0..<length p]"
proof (induction p)
  case (Cons b p)
  have "[0..<length (b # p)] = 0 # map Suc [0..<length p]" by (simp add: upt_conv_Cons map_Suc_upt del: upt_Suc)
  moreover have "find P (map Suc xs) = map_option Suc (find (\<lambda>k. P (Suc k)) xs)" for P xs by (induction xs) simp_all
  ultimately show ?case using Cons by simp
qed simp

lemma memchr_append:
  "memchr (p @ q) c = (case memchr p c of Some k \<Rightarrow> Some k | None \<Rightarrow> map_option (\<lambda>k. length p + k) (memchr q c))"
proof (induction p)
  case Nil then show ?case by (cases "memchr q c") simp_all
next
  case (Cons b p) then show ?case by (cases "memchr q c") (auto split: option.splits)
qed

lemma memchr_blocks_scalar: "memchr_blocks width p c = memchr p c"
proof (induction "length p" arbitrary: p rule: less_induct)
  case less
  show ?case
  proof (cases "0 < width \<and> width \<le> length p")
    case True
    then have len: "length (take width p) = width" by simp
    have "memchr p c = (case find (\<lambda>k. take width p ! k = c) [0..<width] of
        Some k \<Rightarrow> Some k | None \<Rightarrow> map_option (\<lambda>k. width + k) (memchr (drop width p) c))"
      using memchr_append [of "take width p" "drop width p" c] unfolding memchr_find [of "take width p"] len append_take_drop_id .
    also have "\<dots> = memchr_blocks width p c" using True less by (subst memchr_blocks.simps) (auto split: option.splits)
    finally show ?thesis by simp
  qed (subst memchr_blocks.simps, auto)
qed

subsection \<open>Results\<close>

text \<open>
  The operations on the four words are those on sets of bytes: setting and clearing a byte, ranges, union, intersection, complement,
  the count, the emptiness test, the only element and equality.
\<close>

theorem charreach_denotes_sets:
  assumes "cr_wf r" "cr_wf u"
  shows "(cr_test r c \<longleftrightarrow> c \<in> cr_bytes r) \<and> cr_bytes (cr_set r c) = insert c (cr_bytes r) \<and>
    cr_bytes (cr_unset r c) = cr_bytes r - {c} \<and> cr_bytes (cr_set_range r lo hi) = cr_bytes r \<union> {lo..hi} \<and>
    cr_bytes (cr_or r u) = cr_bytes r \<union> cr_bytes u \<and> cr_bytes (cr_and r u) = cr_bytes r \<inter> cr_bytes u \<and>
    cr_bytes (cr_negated r) = - cr_bytes r \<and> cr_bytes (cr_set_all r) = UNIV \<and> cr_bytes (cr_clear r) = {} \<and>
    cr_count r = card (cr_bytes r) \<and> (cr_empty r \<longleftrightarrow> cr_bytes r = {}) \<and>
    (cr_count r = 1 \<longrightarrow> cr_bytes r = {of_nat (cr_single r)}) \<and> (cr_equal r u \<longleftrightarrow> r = u)"
proof (intro conjI)
  show "cr_test r c \<longleftrightarrow> c \<in> cr_bytes r" by (rule cr_test_bytes)
  show "cr_bytes (cr_negated r) = - cr_bytes r" by (simp add: cr_negated_def)
  show "cr_count r = card (cr_bytes r)" by (rule cr_count_card)
  show "cr_empty r \<longleftrightarrow> cr_bytes r = {}" by (simp add: cr_empty_def cr_any_bytes)
  show "cr_count r = 1 \<longrightarrow> cr_bytes r = {of_nat (cr_single r)}" using cr_single_bytes by blast
  show "cr_equal r u \<longleftrightarrow> r = u" using cr_wf_eqI [OF assms] by (auto simp: cr_equal_bytes)
qed (simp_all add: assms Un_commute)

theorem charreach_denotes_sets_witness:
  "cr_wf (cr_set cr_none 65) \<and> cr_bytes (cr_unset (cr_set cr_none 65) 66) = cr_bytes (cr_set cr_none 65) - {66} \<and>
   (cr_equal (cr_set cr_none 65) cr_none \<longleftrightarrow> cr_set cr_none 65 = cr_none)"
proof -
  have w: "cr_wf (cr_set cr_none 65)" "cr_wf cr_none" by simp_all
  show ?thesis using charreach_denotes_sets [OF w, of 66 0 0] w(1) by (elim conjE) (intro conjI)
qed

text \<open>
  The scans with the vector units of AVX2 and NEON find the same byte as the scalar loop: the first one that is in the class, or
  the end of the text when there is none; and the search for one byte finds its first occurrence, whichever way it is dispatched.
\<close>

theorem truffle_scans_agree:
  "truffle_find_first_avx2 p (truffle_build r) = truffle_find_first p (truffle_build r) \<and>
   truffle_find_first_neon p (truffle_build r) = truffle_find_first p (truffle_build r) \<and>
   truffle_find_first p (truffle_build r) = length (takeWhile (\<lambda>c. \<not> cr_test r c) p) \<and>
   memchr_dispatch avx2 p b = find (\<lambda>k. p ! k = b) [0..<length p]"
  by (simp add: memchr_dispatch_def memchr128_def memchr256_def memchr_blocks_scalar memchr_find truffle_find_first_avx2_def truffle_find_first_neon_def truffle_blocks_scalar avx2_lane_test neon_lane_test
      truffle_find_first_takeWhile truffle_build_bytes cr_test_bytes)

end
