(* ===== verification/Regex_Ast.thy ===== *)
theory Regex_Ast
  imports Regex_Class "HOL-Library.Monad_Syntax" "HOL-Library.Sublist"
begin

text \<open>
  The parser of extended regular expressions (\<^verbatim>\<open>src/src/regex/ast.hpp\<close>): recursive descent over the bytes of the pattern, into a table of
  nodes that refer to each other by index.  The five functions that call each other carry a bound on the depth of the calls;
  the bound that \<open>parse\<close> gives them is shown to be enough for every pattern.
\<close>

type_synonym u32 = "32 word"

subsection \<open>Nodes\<close>

datatype node =
    N_Empty
  | N_Char byte
  | N_Class nat
  | N_Any
  | N_Concat nat nat
  | N_Alt nat nat
  | N_Star nat
  | N_Plus nat
  | N_Quest nat
  | N_Repeat nat u32 u32
  | N_Group nat nat
  | N_Bol
  | N_Eol

definition kInf :: u32 where
  "kInf = 0xFFFFFFFF"

definition ascii :: "string \<Rightarrow> byte list" where
  "ascii s = map of_char s"

abbreviation chr :: "char \<Rightarrow> byte" where
  "chr c \<equiv> of_char c"

subsection \<open>Named classes\<close>

definition posix_class :: "byte list \<Rightarrow> charreach \<Rightarrow> bool \<times> charreach" where
  "posix_class name r =
     (if name = ascii ''digit'' then (True, cr_set_range r (chr CHR ''0'') (chr CHR ''9''))
      else if name = ascii ''alpha'' then
        (True, cr_set_range (cr_set_range r (chr CHR ''A'') (chr CHR ''Z'')) (chr CHR ''a'') (chr CHR ''z''))
      else if name = ascii ''alnum'' then
        (True, cr_set_range (cr_set_range (cr_set_range r (chr CHR ''0'') (chr CHR ''9''))
                 (chr CHR ''A'') (chr CHR ''Z'')) (chr CHR ''a'') (chr CHR ''z''))
      else if name = ascii ''upper'' then (True, cr_set_range r (chr CHR ''A'') (chr CHR ''Z''))
      else if name = ascii ''lower'' then (True, cr_set_range r (chr CHR ''a'') (chr CHR ''z''))
      else if name = ascii ''space'' then
        (True, cr_set (cr_set (cr_set (cr_set (cr_set (cr_set r 32) 9) 10) 13) 11) 12)
      else if name = ascii ''blank'' then (True, cr_set (cr_set r 32) 9)
      else if name = ascii ''xdigit'' then
        (True, cr_set_range (cr_set_range (cr_set_range r (chr CHR ''0'') (chr CHR ''9''))
                 (chr CHR ''A'') (chr CHR ''F'')) (chr CHR ''a'') (chr CHR ''f''))
      else if name = ascii ''cntrl'' then (True, cr_set (cr_set_range r 0 31) 127)
      else if name = ascii ''print'' then (True, cr_set_range r 32 126)
      else if name = ascii ''graph'' then (True, cr_set_range r 33 126)
      else if name = ascii ''punct'' then
        (True, cr_set_range (cr_set_range (cr_set_range (cr_set_range r 33 47) 58 64) 91 96) 123 126)
      else (False, r))"

subsection \<open>The parser\<close>

record parser =
  pat :: "byte list"
  pos :: nat
  nodes :: "node list"
  maxn :: nat
  cls :: "charreach list"
  maxc :: nat
  ngroups :: nat
  ok :: bool

definition fail :: "parser \<Rightarrow> parser" where
  "fail p = p\<lparr>ok := False\<rparr>"

definition skip :: "parser \<Rightarrow> parser" where
  "skip p = p\<lparr>pos := Suc (pos p)\<rparr>"

definition peek :: "parser \<Rightarrow> nat \<Rightarrow> byte option" where
  "peek p off = (if pos p + off < length (pat p) then Some (pat p ! (pos p + off)) else None)"

definition advance :: "parser \<Rightarrow> byte option \<times> parser" where
  "advance p = (if pos p < length (pat p) then (Some (pat p ! pos p), skip p) else (None, p))"

definition mk :: "node \<Rightarrow> parser \<Rightarrow> nat \<times> parser" where
  "mk k p = (if length (nodes p) \<ge> maxn p then (0, fail p) else (length (nodes p), p\<lparr>nodes := nodes p @ [k]\<rparr>))"

definition add_class :: "charreach \<Rightarrow> parser \<Rightarrow> nat \<times> parser" where
  "add_class r p = (if length (cls p) \<ge> maxc p then (0, fail p) else (length (cls p), p\<lparr>cls := cls p @ [r]\<rparr>))"

definition digit :: "byte \<Rightarrow> bool" where
  "digit c \<longleftrightarrow> chr CHR ''0'' \<le> c \<and> c \<le> chr CHR ''9''"

fun skip_digits :: "byte list \<Rightarrow> nat" where
  "skip_digits [] = 0"
| "skip_digits (c # cs) = (if digit c then Suc (skip_digits cs) else 0)"

definition looks_like_interval :: "parser \<Rightarrow> bool" where
  "looks_like_interval p =
     (let i = pos p + 1
      in if i \<ge> length (pat p) \<or> \<not> digit (pat p ! i) then False
         else
           let i1 = i + skip_digits (drop i (pat p));
               i2 = (if i1 < length (pat p) \<and> pat p ! i1 = chr CHR '','' then
                       i1 + 1 + skip_digits (drop (i1 + 1) (pat p)) else i1)
           in i2 < length (pat p) \<and> pat p ! i2 = chr CHR ''}'')"

text \<open>A run of digits as a 32-bit number, with the overflow of the source.\<close>

function parse_digits :: "u32 \<Rightarrow> parser \<Rightarrow> u32 \<times> parser" where
  "parse_digits v p =
     (case peek p 0 of
        None \<Rightarrow> (v, p)
      | Some c \<Rightarrow> if digit c then parse_digits (v * 10 + ucast (c - chr CHR ''0'')) (skip p) else (v, p))"
  by auto
termination
  by (relation "measure (\<lambda>(_, p). length (pat p) - pos p)") (auto simp: peek_def skip_def split: if_splits)

declare parse_digits.simps [simp del]

definition parse_interval :: "nat \<Rightarrow> parser \<Rightarrow> nat \<times> parser" where
  "parse_interval atom p0 =
     (let p1 = skip p0;
          (lo, p2) = parse_digits 0 p1;
          (hi, p3) = (if peek p2 0 = Some (chr CHR '','') then
                        let q = skip p2
                        in if peek q 0 = Some (chr CHR ''}'') then (kInf, q) else parse_digits 0 q
                      else (lo, p2));
          p4 = (if peek p3 0 = Some (chr CHR ''}'') then skip p3 else fail p3);
          p5 = (if hi \<noteq> kInf \<and> hi < lo then fail p4 else p4)
      in mk (N_Repeat atom lo hi) p5)"

text \<open>The operators that follow an atom.\<close>

function piece_loop :: "nat \<Rightarrow> parser \<Rightarrow> nat \<times> parser" where
  "piece_loop atom p =
     (if ok p then
        case peek p 0 of
          None \<Rightarrow> (atom, p)
        | Some ch \<Rightarrow>
            if ch = chr CHR ''*'' then let (a, q) = mk (N_Star atom) (skip p) in piece_loop a q
            else if ch = chr CHR ''+'' then let (a, q) = mk (N_Plus atom) (skip p) in piece_loop a q
            else if ch = chr CHR ''?'' then let (a, q) = mk (N_Quest atom) (skip p) in piece_loop a q
            else if ch = chr CHR ''{'' \<and> looks_like_interval p then
              let (a, q) = parse_interval atom p in piece_loop a q
            else (atom, p)
      else (atom, p))"
  by auto


lemma skip_simps [simp]:
  "pos (skip p) = Suc (pos p)" "pat (skip p) = pat p" "nodes (skip p) = nodes p" "maxn (skip p) = maxn p" "cls (skip p) = cls p"
  "maxc (skip p) = maxc p" "ngroups (skip p) = ngroups p" "ok (skip p) = ok p"
  by (simp_all add: skip_def)

lemma fail_simps [simp]:
  "pos (fail p) = pos p" "pat (fail p) = pat p" "nodes (fail p) = nodes p" "maxn (fail p) = maxn p" "cls (fail p) = cls p"
  "maxc (fail p) = maxc p" "ngroups (fail p) = ngroups p" "ok (fail p) = False"
  by (simp_all add: fail_def)

lemma mk_pos [simp]: "pos (snd (mk k p)) = pos p" "pat (snd (mk k p)) = pat p"
  by (simp_all add: mk_def)

text \<open>A parser that has gone on from another one: the same pattern, no node or class changed, no failure forgotten.\<close>

definition ext :: "parser \<Rightarrow> parser \<Rightarrow> bool" where
  "ext p q \<longleftrightarrow> pat q = pat p \<and> pos p \<le> pos q \<and> maxn q = maxn p \<and> maxc q = maxc p \<and> ngroups p \<le> ngroups q \<and>
     prefix (nodes p) (nodes q) \<and> prefix (cls p) (cls q) \<and> (ok q \<longrightarrow> ok p)"

lemma ext_refl [simp]: "ext p p"
  by (simp add: ext_def)

lemma ext_trans [trans]: "ext p q \<Longrightarrow> ext q r \<Longrightarrow> ext p r"
  by (auto simp: ext_def)

lemma ext_skip [simp]: "ext p (skip p)" and ext_fail [simp]: "ext p (fail p)"
  by (simp_all add: ext_def)

lemma ext_mk [simp]: "ext p (snd (mk k p))"
  by (simp add: ext_def mk_def)

lemma ext_add_class [simp]: "ext p (snd (add_class r p))"
  by (simp add: ext_def add_class_def)

text \<open>A change of the position and of the status only.\<close>

definition moved :: "nat \<Rightarrow> parser \<Rightarrow> parser \<Rightarrow> bool" where
  "moved d p q \<longleftrightarrow> (\<exists>i e. q = p\<lparr>pos := pos p + d + i, ok := ok p \<and> e\<rparr>)"

lemma moved_refl [simp]: "moved 0 p p"
  unfolding moved_def by (rule exI [of _ 0], rule exI [of _ True]) simp

lemma moved_trans: "moved d p q \<Longrightarrow> moved e q r \<Longrightarrow> moved (d + e) p r"
  unfolding moved_def
proof (elim exE)
  fix i b j c
  assume "q = p\<lparr>pos := pos p + d + i, ok := ok p \<and> b\<rparr>" "r = q\<lparr>pos := pos q + e + j, ok := ok q \<and> c\<rparr>"
  then show "\<exists>i b. r = p\<lparr>pos := pos p + (d + e) + i, ok := ok p \<and> b\<rparr>"
    by (intro exI [of _ "i + j"] exI [of _ "b \<and> c"]) (simp add: add.assoc add.left_commute)
qed

lemma moved_less: "moved d p q \<Longrightarrow> e \<le> d \<Longrightarrow> moved e p q"
  unfolding moved_def
proof (elim exE)
  fix i b
  assume "q = p\<lparr>pos := pos p + d + i, ok := ok p \<and> b\<rparr>" "e \<le> d"
  then show "\<exists>i b. q = p\<lparr>pos := pos p + e + i, ok := ok p \<and> b\<rparr>"
    by (intro exI [of _ "d - e + i"] exI [of _ b]) simp
qed

lemma moved_skip: "moved 1 p (skip p)"
  unfolding moved_def by (rule exI [of _ 0], rule exI [of _ True]) (simp add: skip_def)

lemma moved_skip_more: "moved d p q \<Longrightarrow> moved d p (skip q)"
  using moved_trans [OF _ moved_skip, THEN moved_less] by simp

lemma moved_fail: "moved d p q \<Longrightarrow> moved d p (fail q)"
  unfolding moved_def fail_def by (elim exE, rule_tac x = i in exI, rule exI [of _ False]) simp

lemma advance_frame: "\<exists>i. snd (advance p) = p\<lparr>pos := pos p + i\<rparr>"
  by (auto simp: advance_def skip_def intro: exI [of _ 0] exI [of _ 1])

lemma moved_advance: "moved d p q \<Longrightarrow> moved d p (snd (advance q))"
proof -
  assume "moved d p q"
  moreover obtain i where "snd (advance q) = q\<lparr>pos := pos q + i\<rparr>" using advance_frame by blast
  then have "moved 0 q (snd (advance q))" unfolding moved_def by (intro exI [of _ i] exI [of _ True]) simp
  ultimately show ?thesis using moved_trans [of d p q 0] by simp
qed

lemma moved_ext: "moved d p q \<Longrightarrow> ext p q \<and> pos p + d \<le> pos q \<and> pat q = pat p \<and> nodes q = nodes p \<and> cls q = cls p \<and> ngroups q = ngroups p"
  by (auto simp: moved_def ext_def)

lemma moved_parse_digits: "moved d p q \<Longrightarrow> moved d p (snd (parse_digits v q))"
proof (induction v q rule: parse_digits.induct)
  case (1 v q)
  have "moved d p (skip q)" using "1.prems" by (rule moved_skip_more)
  with 1 show ?case by (subst parse_digits.simps) (auto split: option.splits)
qed

text \<open>The text of an interval is read without a change of the tables: what follows is one node.\<close>

lemma parse_interval_moved: "\<exists>lo hi q. parse_interval a p = mk (N_Repeat a lo hi) q \<and> moved 1 p q \<and> (ok q \<longrightarrow> lo \<le> hi)"
proof -
  obtain lo p2 where d1: "parse_digits 0 (skip p) = (lo, p2)" by fastforce
  then have m2: "moved 1 p p2" using moved_parse_digits [OF moved_skip [of p], where v = 0] by simp
  have m2': "moved 1 p (skip p2)" using m2 by (rule moved_skip_more)
  obtain hi p3 where d2: "(if peek p2 0 = Some (chr CHR '','') then
                        let q = skip p2
                        in if peek q 0 = Some (chr CHR ''}'') then (kInf, q) else parse_digits 0 q
                      else (lo, p2)) = (hi, p3)" by fastforce
  then have m3: "moved 1 p p3"
    using m2 m2' moved_parse_digits [OF m2', where v = 0] by (auto simp: Let_def split: if_splits)
  define p4 where "p4 = (if peek p3 0 = Some (chr CHR ''}'') then skip p3 else fail p3)"
  have m4: "moved 1 p p4"
    using moved_skip_more [OF m3] moved_fail [OF m3] by (simp add: p4_def)
  have "parse_interval a p = mk (N_Repeat a lo hi) (if hi \<noteq> kInf \<and> hi < lo then fail p4 else p4)"
    unfolding parse_interval_def Let_def d1 prod.case d2 [unfolded Let_def] p4_def ..
  moreover have "moved 1 p (if hi \<noteq> kInf \<and> hi < lo then fail p4 else p4)" using m4 moved_fail [OF m4] by simp
  moreover have "lo \<le> kInf" using unsigned_less [of lo, where 'a = nat] by (simp add: kInf_def word_le_nat_alt)
  then have "ok (if hi \<noteq> kInf \<and> hi < lo then fail p4 else p4) \<longrightarrow> lo \<le> hi" by (auto simp: not_less)
  ultimately show ?thesis by blast
qed

lemma parse_interval_pos: "pos p < pos (snd (parse_interval a p))" "pat (snd (parse_interval a p)) = pat p"
  using parse_interval_moved [of a p] moved_ext by fastforce+

lemma peek_Some: "peek p n = Some c \<Longrightarrow> pos p + n < length (pat p)"
  by (auto simp: peek_def split: if_splits)

lemma loop_shorter:
  assumes "peek p 0 = Some c"
  shows "(case mk k (skip p) of (_, q) \<Rightarrow> length (pat q) - pos q) < length (pat p) - pos p"
    "(case parse_interval a p of (_, q) \<Rightarrow> length (pat q) - pos q) < length (pat p) - pos p"
  using peek_Some [OF assms] parse_interval_pos [where a = a and p = p] by (auto simp: case_prod_beta)

termination piece_loop
  by (relation "measure (\<lambda>(_, p). length (pat p) - pos p)") (auto elim: loop_shorter)

declare piece_loop.simps [simp del]

text \<open>
  One round of the loop over the items of a bracket expression, entered when a byte is left: a named class, a byte or a range.
  The first component tells whether the loop goes on.
\<close>

definition class_item :: "charreach \<Rightarrow> parser \<Rightarrow> bool \<times> charreach \<times> parser" where
  "class_item r p =
     (let start = pos p + 2;
          i = start + length (takeWhile (\<lambda>c. c \<noteq> chr CHR '':'') (drop start (pat p)))
      in if peek p 0 = Some (chr CHR ''['') \<and> peek p 1 = Some (chr CHR '':'') \<and>
            i + 1 < length (pat p) \<and> pat p ! i = chr CHR '':'' \<and> pat p ! (i + 1) = chr CHR '']'' then
           let (known, r') = posix_class (take (i - start) (drop start (pat p))) r
           in (True, r', (if known then p else fail p)\<lparr>pos := i + 2\<rparr>)
         else
           let (lo0, p1) = advance p;
               (lo, p2) = (if lo0 = Some (chr (CHR 0x5C)) then advance p1 else (lo0, p1))
           in case lo of
                None \<Rightarrow> (False, r, fail p2)
              | Some l \<Rightarrow>
                  if peek p2 0 = Some (chr CHR ''-'') \<and> peek p2 1 \<noteq> Some (chr CHR '']'') \<and> peek p2 1 \<noteq> None then
                    let (hi0, p3) = advance (skip p2);
                        (hi, p4) = (if hi0 = Some (chr (CHR 0x5C)) then advance p3 else (hi0, p3))
                    in case hi of
                         None \<Rightarrow> (False, r, fail p4)
                       | Some h \<Rightarrow> if l \<le> h then (True, cr_set_range r l h, p4) else (True, r, fail p4)
                  else (True, cr_set r l, p2))"

lemma posix_class_wf: "cr_wf r \<Longrightarrow> cr_wf (snd (posix_class name r))"
  by (simp add: posix_class_def)

lemma advance_Some: "peek p 0 = Some c \<Longrightarrow> advance p = (Some c, skip p)"
  by (auto simp: advance_def peek_def split: if_splits)

lemma class_item_moved:
  assumes "peek p 0 = Some c" "class_item r p = (go, r', q)"
  shows "moved 1 p q \<and> (cr_wf r \<longrightarrow> cr_wf r')"
proof -
  define i where "i = pos p + 2 + length (takeWhile (\<lambda>c. c \<noteq> chr CHR '':'') (drop (pos p + 2) (pat p)))"
  define name where "name = take (i - (pos p + 2)) (drop (pos p + 2) (pat p))"
  define named where "named \<longleftrightarrow> peek p 0 = Some (chr CHR ''['') \<and> peek p 1 = Some (chr CHR '':'') \<and>
    i + 1 < length (pat p) \<and> pat p ! i = chr CHR '':'' \<and> pat p ! (i + 1) = chr CHR '']''"
  show ?thesis
  proof (cases named)
    case True
    have eq: "class_item r p = (True, snd (posix_class name r), (if fst (posix_class name r) then p else fail p)\<lparr>pos := i + 2\<rparr>)"
      using True unfolding named_def class_item_def Let_def i_def [symmetric] name_def [symmetric]
      by (simp add: case_prod_beta)
    have "moved 1 p ((if e then p else fail p)\<lparr>pos := i + 2\<rparr>)" for e
    proof -
      have "i + 2 = pos p + 1 + (i - pos p + 1)" by (simp add: i_def)
      then show ?thesis unfolding moved_def by (intro exI [of _ "i - pos p + 1"] exI [of _ e]) (simp add: fail_def)
    qed
    then show ?thesis using eq assms(2) posix_class_wf [of r name] by simp
  next
    case False
    have s1: "moved 1 p (skip p)" by (rule moved_skip)
    have s2: "moved 1 p (snd (advance (skip p)))" by (rule moved_advance [OF s1])
    note more = moved_skip_more moved_advance moved_fail
    have eq: "class_item r p = (let (lo0, p1) = advance p;
               (lo, p2) = (if lo0 = Some (chr (CHR 0x5C)) then advance p1 else (lo0, p1))
           in case lo of
                None \<Rightarrow> (False, r, fail p2)
              | Some l \<Rightarrow>
                  if peek p2 0 = Some (chr CHR ''-'') \<and> peek p2 1 \<noteq> Some (chr CHR '']'') \<and> peek p2 1 \<noteq> None then
                    let (hi0, p3) = advance (skip p2);
                        (hi, p4) = (if hi0 = Some (chr (CHR 0x5C)) then advance p3 else (hi0, p3))
                    in case hi of
                         None \<Rightarrow> (False, r, fail p4)
                       | Some h \<Rightarrow> if l \<le> h then (True, cr_set_range r l h, p4) else (True, r, fail p4)
                  else (True, cr_set r l, p2))"
      using False unfolding named_def class_item_def Let_def i_def [symmetric] by (simp only: if_False)
    show ?thesis
      using assms(2) s1 s2 unfolding eq advance_Some [OF assms(1)]
      by (auto simp: Let_def case_prod_beta split: if_splits option.splits intro!: more)
  qed
qed

function class_loop :: "bool \<Rightarrow> charreach \<Rightarrow> parser \<Rightarrow> charreach \<times> parser" where
  "class_loop first r p =
     (if ok p then
        case peek p 0 of
          None \<Rightarrow> (r, fail p)
        | Some ch \<Rightarrow>
            if ch = chr CHR '']'' \<and> \<not> first then (r, skip p)
            else let (go, r', q) = class_item r p in if go then class_loop False r' q else (r', q)
      else (r, p))"
  by auto
termination
proof (relation "measure (\<lambda>(_, _, p). length (pat p) - pos p)", goal_cases)
  case (2 first r p ch x go y r' q)
  have "class_item r p = (go, r', q)" using 2 by simp
  from class_item_moved [OF 2(2) this] moved_ext [of 1 p q] peek_Some [OF 2(2)] show ?case by auto
qed simp

declare class_loop.simps [simp del]

lemma class_loop_moved:
  "moved d p q \<Longrightarrow> moved d p (snd (class_loop first r q))"
proof (induction first r q rule: class_loop.induct)
  case (1 first r q)
  have go: "moved d p q'" if "peek q 0 = Some ch" "class_item r q = (b, r', q')" for ch b r' q'
    using moved_trans [OF "1.prems", of 1 q'] class_item_moved [OF that] by (auto elim: moved_less)
  have sk: "moved d p (skip q)" using "1.prems" by (rule moved_skip_more)
  show ?case using "1.prems" go sk moved_fail [OF "1.prems"]
    by (subst class_loop.simps) (auto simp: Let_def split: option.splits prod.splits intro!: "1.IH")
qed

lemma class_loop_wf: "cr_wf r \<Longrightarrow> cr_wf (fst (class_loop first r q))"
proof (induction first r q rule: class_loop.induct)
  case (1 first r q)
  have "cr_wf r'" if "peek q 0 = Some ch" "class_item r q = (b, r', q')" for ch b r' q'
    using class_item_moved [OF that] "1.prems" by simp
  with "1.prems" show ?case
    by (subst class_loop.simps) (auto simp: Let_def split: option.splits prod.splits intro!: "1.IH")
qed

definition parse_class :: "parser \<Rightarrow> nat \<times> parser" where
  "parse_class p =
     (let p1 = skip p;
          negate = (peek p1 0 = Some (chr CHR ''^''));
          p2 = (if negate then skip p1 else p1);
          (r, p3) = class_loop True cr_none p2;
          r' = (if negate then cr_flip r else r);
          (c, p4) = add_class r' p3
      in mk (N_Class c) p4)"

text \<open>The functions that call each other.\<close>

fun parse_alt :: "nat \<Rightarrow> parser \<Rightarrow> (nat \<times> parser) option"
  and alt_loop :: "nat \<Rightarrow> nat \<Rightarrow> parser \<Rightarrow> (nat \<times> parser) option"
  and parse_concat :: "nat \<Rightarrow> parser \<Rightarrow> (nat \<times> parser) option"
  and concat_loop :: "nat \<Rightarrow> bool \<Rightarrow> nat \<Rightarrow> parser \<Rightarrow> (bool \<times> nat \<times> parser) option"
  and parse_piece :: "nat \<Rightarrow> parser \<Rightarrow> (nat \<times> parser) option"
  and parse_atom :: "nat \<Rightarrow> parser \<Rightarrow> (nat \<times> parser) option"
where
  "parse_alt 0 p = None"
| "parse_alt (Suc f) p = do { (left, q) \<leftarrow> parse_concat f p; alt_loop f left q }"
| "alt_loop 0 left p = None"
| "alt_loop (Suc f) left p =
     (if ok p \<and> peek p 0 = Some (chr CHR ''|'') then
        do { (right, q) \<leftarrow> parse_concat f (skip p);
             let (left', q') = mk (N_Alt left right) q in alt_loop f left' q' }
      else Some (left, p))"
| "parse_concat 0 p = None"
| "parse_concat (Suc f) p =
     do { (have, left, q) \<leftarrow> concat_loop f False 0 p;
          Some (if have then (left, q) else mk N_Empty q) }"
| "concat_loop 0 have left p = None"
| "concat_loop (Suc f) have left p =
     (if ok p then
        case peek p 0 of
          None \<Rightarrow> Some (have, left, p)
        | Some ch \<Rightarrow>
            if ch = chr CHR ''|'' \<or> ch = chr CHR '')'' then Some (have, left, p)
            else
              do { (piece, q) \<leftarrow> parse_piece f p;
                   if \<not> ok q then Some (have, left, q)
                   else if \<not> have then concat_loop f True piece q
                   else let (left', q') = mk (N_Concat left piece) q in concat_loop f have left' q' }
      else Some (have, left, p))"
| "parse_piece 0 p = None"
| "parse_piece (Suc f) p = do { (atom, q) \<leftarrow> parse_atom f p; Some (piece_loop atom q) }"
| "parse_atom 0 p = None"
| "parse_atom (Suc f) p =
     (case peek p 0 of
        None \<Rightarrow> Some (mk N_Empty p)
      | Some ch \<Rightarrow>
          if ch = chr CHR ''('' then
            let p1 = skip p; g = Suc (ngroups p1)
            in do { (inner, q) \<leftarrow> parse_alt f (p1\<lparr>ngroups := g\<rparr>);
                    Some (mk (N_Group inner g) (if peek q 0 = Some (chr CHR '')'') then skip q else fail q)) }
          else if ch = chr CHR ''['' then Some (parse_class p)
          else if ch = chr CHR ''.'' then Some (mk N_Any (skip p))
          else if ch = chr CHR ''^'' then Some (mk N_Bol (skip p))
          else if ch = chr CHR ''$'' then Some (mk N_Eol (skip p))
          else if ch = chr (CHR 0x5C) then
            (case advance (skip p) of
               (None, q) \<Rightarrow> Some (0, fail q)
             | (Some e, q) \<Rightarrow> Some (mk (N_Char e) q))
          else Some (mk (N_Char ch) (skip p)))"

definition parse_fuel :: "parser \<Rightarrow> nat" where
  "parse_fuel p = 5 * (length (pat p) - pos p) + 3"

definition parse :: "parser \<Rightarrow> (nat \<times> parser) option" where
  "parse p = do { (r, q) \<leftarrow> parse_alt (parse_fuel p) p; Some (r, if pos q \<noteq> length (pat q) then fail q else q) }"

definition parser_of :: "byte list \<Rightarrow> nat \<Rightarrow> nat \<Rightarrow> parser" where
  "parser_of s mn mc = \<lparr>pat = s, pos = 0, nodes = [], maxn = mn, cls = [], maxc = mc, ngroups = 0, ok = True\<rparr>"

subsection \<open>The node table\<close>

text \<open>A node refers to earlier nodes, to a class of the table and to a group of the pattern.\<close>

fun node_wf :: "nat \<Rightarrow> nat \<Rightarrow> nat \<Rightarrow> node \<Rightarrow> bool" where
  "node_wf nc ng i (N_Class c) = (c < nc)"
| "node_wf nc ng i (N_Concat a b) = (a < i \<and> b < i)"
| "node_wf nc ng i (N_Alt a b) = (a < i \<and> b < i)"
| "node_wf nc ng i (N_Star a) = (a < i)"
| "node_wf nc ng i (N_Plus a) = (a < i)"
| "node_wf nc ng i (N_Quest a) = (a < i)"
| "node_wf nc ng i (N_Repeat a lo hi) = (a < i \<and> lo \<le> hi)"
| "node_wf nc ng i (N_Group a g) = (a < i \<and> 0 < g \<and> g \<le> ng)"
| "node_wf nc ng i _ = True"

definition table_wf :: "parser \<Rightarrow> bool" where
  "table_wf p \<longleftrightarrow> (\<forall>i < length (nodes p). node_wf (length (cls p)) (ngroups p) i (nodes p ! i)) \<and>
     (\<forall>r \<in> set (cls p). cr_wf r) \<and> length (nodes p) \<le> maxn p \<and> length (cls p) \<le> maxc p"

lemma node_wf_mono: "node_wf nc ng i k \<Longrightarrow> nc \<le> nc' \<Longrightarrow> ng \<le> ng' \<Longrightarrow> node_wf nc' ng' i k"
  by (cases k) auto

text \<open>
  While nothing has failed the table is well-formed and the given indices are in it; every function of the parser goes on from its argument and keeps that.
\<close>

definition sound :: "parser \<Rightarrow> nat list \<Rightarrow> bool" where
  "sound p is \<longleftrightarrow> (ok p \<longrightarrow> table_wf p \<and> (\<forall>i \<in> set is. i < length (nodes p)))"

definition goes :: "parser \<Rightarrow> nat list \<Rightarrow> nat \<times> parser \<Rightarrow> bool" where
  "goes p is r \<longleftrightarrow> ext p (snd r) \<and> (sound p is \<longrightarrow> sound (snd r) [fst r])"

lemma sound_ext: "sound p is \<Longrightarrow> ext p q \<Longrightarrow> sound q js \<Longrightarrow> sound q (is @ js)"
  by (auto simp: sound_def ext_def dest!: prefix_length_le)

lemma sound_sub: "sound p is \<Longrightarrow> set js \<subseteq> set is \<Longrightarrow> sound p js"
  by (auto simp: sound_def)

lemma sound_skip [simp]: "sound (skip p) is = sound p is"
  by (simp add: sound_def table_wf_def)

lemma sound_fail [simp]: "sound (fail p) is"
  by (simp add: sound_def)

lemma sound_moved: "moved d p q \<Longrightarrow> sound p is \<Longrightarrow> sound q is"
  by (auto simp: moved_def sound_def table_wf_def)

lemma sound_group: "sound p is \<Longrightarrow> sound (p\<lparr>ngroups := Suc (ngroups p)\<rparr>) is"
  by (auto simp: sound_def table_wf_def intro: node_wf_mono)

text \<open>A new node whose indices are in the table.\<close>

lemma sound_mk:
  assumes "sound q is" "ok q \<Longrightarrow> node_wf (length (cls q)) (ngroups q) (length (nodes q)) k"
  shows "sound (snd (mk k q)) [fst (mk k q)]"
  using assms by (auto simp: sound_def mk_def table_wf_def nth_append less_Suc_eq)

lemma goes_mk:
  assumes "ext p q" "sound p is \<Longrightarrow> sound q js" "ok q \<Longrightarrow> sound q js \<Longrightarrow> node_wf (length (cls q)) (ngroups q) (length (nodes q)) k"
  shows "goes p is (mk k q)"
  unfolding goes_def using assms ext_trans [OF assms(1) ext_mk] sound_mk by blast

lemma goes_trans: "goes p is r \<Longrightarrow> goes (snd r) [fst r] r' \<Longrightarrow> goes p is r'"
  unfolding goes_def using ext_trans by blast

lemma goes_mk1:
  assumes "moved d p q" "\<And>i. a < i \<Longrightarrow> ok q \<Longrightarrow> node_wf (length (cls q)) (ngroups q) i k"
  shows "goes p [a] (mk k q)"
proof (rule goes_mk [where js = "[a]"])
  show "ext p q" and "sound p [a] \<Longrightarrow> sound q [a]" using assms(1) by (simp_all add: moved_ext sound_moved)
  show "ok q \<Longrightarrow> sound q [a] \<Longrightarrow> node_wf (length (cls q)) (ngroups q) (length (nodes q)) k"
    by (rule assms(2)) (simp_all add: sound_def)
qed

lemma piece_loop_goes: "goes p [a] (piece_loop a p)"
proof (induction a p rule: piece_loop.induct)
  case (1 a p)
  have m: "goes p [a] (mk (N_Star a) (skip p))" "goes p [a] (mk (N_Plus a) (skip p))" "goes p [a] (mk (N_Quest a) (skip p))"
    by (auto intro!: goes_mk1 [OF moved_skip])
  obtain lo hi q where q: "parse_interval a p = mk (N_Repeat a lo hi) q" "moved 1 p q" "ok q \<longrightarrow> lo \<le> hi"
    using parse_interval_moved by blast
  have r: "goes p [a] (parse_interval a p)" unfolding q(1) using q(2,3) by (intro goes_mk1) auto
  have refl: "goes p [a] (a, p)" by (simp add: goes_def)
  show ?case
    using refl m [THEN goes_trans] r [THEN goes_trans] 1
    by (subst piece_loop.simps) (auto split: option.splits prod.splits)
qed

lemma parse_class_goes: "goes p [] (parse_class p)" "pos p < pos (snd (parse_class p))"
proof -
  define p2 where "p2 = (if peek (skip p) 0 = Some (chr CHR ''^'') then skip (skip p) else skip p)"
  obtain r p3 where l: "class_loop True cr_none p2 = (r, p3)" by fastforce
  define r' where "r' = (if peek (skip p) 0 = Some (chr CHR ''^'') then cr_flip r else r)"
  have m2: "moved 1 p p2" using moved_skip [of p] moved_skip_more [OF moved_skip, of p] by (simp add: p2_def)
  have m3: "moved 1 p p3" using class_loop_moved [OF m2, of True cr_none] l by simp
  have r': "cr_wf r'" using class_loop_wf [of cr_none True p2] l by (simp add: r'_def)
  obtain c p4 where c: "add_class r' p3 = (c, p4)" by fastforce
  have eq: "parse_class p = mk (N_Class c) p4"
    unfolding parse_class_def Let_def p2_def [symmetric] l prod.case r'_def [symmetric] c ..
  have e4: "ext p p4" using ext_trans [OF _ ext_add_class, of p p3 r'] moved_ext [OF m3] c by simp
  have mono: "node_wf n g i k \<Longrightarrow> node_wf (Suc n) g i k" for n g i k by (rule node_wf_mono) auto
  have s4: "sound p4 [] \<and> (ok p4 \<longrightarrow> c < length (cls p4))" if "sound p []"
    using sound_moved [OF m3 that] c r'
    by (auto simp: sound_def add_class_def table_wf_def split: if_splits intro!: mono)
  have c4: "ok p4 \<Longrightarrow> c < length (cls p4)" using c by (auto simp: add_class_def split: if_splits)
  show "goes p [] (parse_class p)" unfolding eq using e4 s4 c4 by (intro goes_mk [where js = "[]"]) auto
  have "pos p3 = pos p4" using c by (auto simp: add_class_def split: if_splits)
  then show "pos p < pos (snd (parse_class p))" unfolding eq using moved_ext [OF m3] by simp
qed

text \<open>The bound on the depth is enough, and a call that reads something moves on.\<close>

abbreviation rest :: "parser \<Rightarrow> nat" where
  "rest p \<equiv> length (pat p) - pos p"

definition alt_ok :: "nat \<Rightarrow> bool" where
  "alt_ok f \<longleftrightarrow> (\<forall>p. 5 * rest p + 3 \<le> f \<longrightarrow> (\<exists>r. parse_alt f p = Some r \<and> goes p [] r))"

definition alt_loop_ok :: "nat \<Rightarrow> bool" where
  "alt_loop_ok f \<longleftrightarrow> (\<forall>p a. 5 * rest p + 1 \<le> f \<longrightarrow> (\<exists>r. alt_loop f a p = Some r \<and> goes p [a] r))"

definition concat_ok :: "nat \<Rightarrow> bool" where
  "concat_ok f \<longleftrightarrow> (\<forall>p. 5 * rest p + 2 \<le> f \<longrightarrow> (\<exists>r. parse_concat f p = Some r \<and> goes p [] r))"

definition concat_loop_ok :: "nat \<Rightarrow> bool" where
  "concat_loop_ok f \<longleftrightarrow> (\<forall>p h a. 5 * rest p + 1 \<le> f \<longrightarrow>
     (\<exists>h' b q. concat_loop f h a p = Some (h', b, q) \<and> ext p q \<and>
        (sound p (if h then [a] else []) \<longrightarrow> sound q (if h' then [b] else []))))"

definition piece_ok :: "nat \<Rightarrow> bool" where
  "piece_ok f \<longleftrightarrow> (\<forall>p. 0 < rest p \<longrightarrow> 5 * rest p \<le> f \<longrightarrow> (\<exists>r. parse_piece f p = Some r \<and> goes p [] r \<and> pos p < pos (snd r)))"

definition atom_ok :: "nat \<Rightarrow> bool" where
  "atom_ok f \<longleftrightarrow> (\<forall>p. 0 < rest p \<longrightarrow> 5 * rest p \<le> f + 1 \<longrightarrow> (\<exists>r. parse_atom f p = Some r \<and> goes p [] r \<and> pos p < pos (snd r)))"

lemma goes_rest: "goes p is r \<Longrightarrow> rest (snd r) \<le> rest p"
  by (auto simp: goes_def ext_def)

lemma alt_step: assumes "concat_ok f" "alt_loop_ok f" shows "alt_ok (Suc f)"
  unfolding alt_ok_def
proof (intro allI impI)
  fix p assume f: "5 * rest p + 3 \<le> Suc f"
  then obtain r where r: "parse_concat f p = Some r" "goes p [] r"
    using assms(1) unfolding concat_ok_def by (metis Suc_le_mono add_Suc_right eval_nat_numeral(3))
  have "5 * rest (snd r) + 1 \<le> f" using goes_rest [OF r(2)] f by simp
  then obtain r' where r': "alt_loop f (fst r) (snd r) = Some r'" "goes (snd r) [fst r] r'"
    using assms(2) unfolding alt_loop_ok_def by blast
  show "\<exists>r. parse_alt (Suc f) p = Some r \<and> goes p [] r"
    using r r' goes_trans [OF r(2) r'(2)] by (simp add: case_prod_beta)
qed

lemma alt_loop_step: assumes "concat_ok f" "alt_loop_ok f" shows "alt_loop_ok (Suc f)"
  unfolding alt_loop_ok_def
proof (intro allI impI)
  fix p a assume f: "5 * rest p + 1 \<le> Suc f"
  show "\<exists>r. alt_loop (Suc f) a p = Some r \<and> goes p [a] r"
  proof (cases "ok p \<and> peek p 0 = Some (chr CHR ''|'')")
    case True
    then have "rest (skip p) < rest p" using peek_Some [of p 0] by auto
    note shorter = this
    from this f have "5 * rest (skip p) + 2 \<le> f" by simp
    then obtain r where r: "parse_concat f (skip p) = Some r" "goes (skip p) [] r"
      using assms(1) unfolding concat_ok_def by blast
    let ?m = "mk (N_Alt a (fst r)) (snd r)"
    have m: "goes p [a] ?m"
    proof (rule goes_mk [where js = "[a, fst r]"])
      show e: "ext p (snd r)" using r(2) ext_trans [OF ext_skip] unfolding goes_def by blast
      show "sound p [a] \<Longrightarrow> sound (snd r) [a, fst r]"
        using r(2) sound_ext [OF _ e, of "[a]" "[fst r]"] sound_sub [of p "[a]" "[]"] unfolding goes_def by simp
    qed (simp add: sound_def)
    have "5 * rest (snd ?m) + 1 \<le> f" using goes_rest [OF r(2)] shorter f by simp
    then obtain r' where "alt_loop f (fst ?m) (snd ?m) = Some r'" "goes (snd ?m) [fst ?m] r'"
      using assms(2) unfolding alt_loop_ok_def by blast
    then show ?thesis using True r goes_trans [OF m] by (simp add: case_prod_beta Let_def)
  next
    case False then show ?thesis by (auto simp: goes_def)
  qed
qed

lemma concat_step: assumes "concat_loop_ok f" shows "concat_ok (Suc f)"
  unfolding concat_ok_def
proof (intro allI impI)
  fix p assume f: "5 * rest p + 2 \<le> Suc f"
  then have "5 * rest p + 1 \<le> f" by simp
  then obtain h b q where q: "concat_loop f False 0 p = Some (h, b, q)" "ext p q" "sound p [] \<longrightarrow> sound q (if h then [b] else [])"
    using assms [unfolded concat_loop_ok_def, rule_format, of p False 0] by auto
  have "goes p [] (mk N_Empty q)" if "\<not> h" using that q by (intro goes_mk [where js = "[]"]) auto
  then show "\<exists>r. parse_concat (Suc f) p = Some r \<and> goes p [] r" using q by (cases h) (simp_all add: goes_def)
qed

lemma concat_loop_step: assumes "piece_ok f" "concat_loop_ok f" shows "concat_loop_ok (Suc f)"
  unfolding concat_loop_ok_def
proof (intro allI impI)
  fix p h a assume f: "5 * rest p + 1 \<le> Suc f"
  let ?goal = "\<exists>h' b q. concat_loop (Suc f) h a p = Some (h', b, q) \<and> ext p q \<and>
        (sound p (if h then [a] else []) \<longrightarrow> sound q (if h' then [b] else []))"
  show ?goal
  proof (cases "ok p \<and> (\<exists>c. peek p 0 = Some c \<and> c \<noteq> chr CHR ''|'' \<and> c \<noteq> chr CHR '')'')")
    case False then show ?goal by (auto split: option.splits)
  next
    case True
    then obtain c where c: "ok p" "peek p 0 = Some c" "c \<noteq> chr CHR ''|''" "c \<noteq> chr CHR '')''" by blast
    then have "0 < rest p" using peek_Some [of p 0] by auto
    then obtain i q where r: "parse_piece f p = Some (i, q)" "goes p [] (i, q)" "pos p < pos q"
      using assms(1) f unfolding piece_ok_def by (metis Suc_le_mono add.commute plus_1_eq_Suc prod.collapse snd_conv)
    have e: "ext p q" using r(2) by (simp add: goes_def)
    have s: "sound q ((if h then [a] else []) @ [i])" if "sound p (if h then [a] else [])"
      using sound_ext [OF that e] r(2) sound_sub [OF that, of "[]"] by (simp add: goes_def)
    show ?goal
    proof (cases "ok q")
      case False
      have "sound q (if h then [a] else [])" using False by (simp add: sound_def)
      then show ?goal using c r e False by auto
    next
      case True
      define m where "m = (if h then mk (N_Concat a i) q else (i, q))"
      have em: "ext p (snd m)" using ext_trans [OF e ext_mk] e by (simp add: m_def)
      have sm: "sound (snd m) [fst m]" if "sound p (if h then [a] else [])"
        using s [OF that] sound_mk [of q "[a, i]" "N_Concat a i"] by (auto simp: m_def sound_def)
      have pm: "pat (snd m) = pat p" "pos (snd m) = pos q" using e by (auto simp: m_def ext_def)
      have "5 * rest (snd m) + 1 \<le> f" using pm r(3) f \<open>0 < rest p\<close> by simp
      then obtain h' b q' where l: "concat_loop f True (fst m) (snd m) = Some (h', b, q')" "ext (snd m) q'"
          "sound (snd m) [fst m] \<longrightarrow> sound q' (if h' then [b] else [])"
        using assms(2) [unfolded concat_loop_ok_def, rule_format, of "snd m" True "fst m"] by auto
      have "concat_loop (Suc f) h a p = concat_loop f True (fst m) (snd m)"
        using c r True by (cases h) (simp_all add: m_def Let_def case_prod_beta)
      then show ?goal using l sm ext_trans [OF em l(2)] by auto
    qed
  qed
qed

lemma piece_step: assumes "atom_ok f" shows "piece_ok (Suc f)"
  unfolding piece_ok_def
proof (intro allI impI)
  fix p assume f: "0 < rest p" "5 * rest p \<le> Suc f"
  then obtain i q where r: "parse_atom f p = Some (i, q)" "goes p [] (i, q)" "pos p < pos q"
    using assms [unfolded atom_ok_def, rule_format, of p] by auto
  have g: "goes p [] (piece_loop i q)" using goes_trans [OF r(2)] piece_loop_goes by simp
  have "pos q \<le> pos (snd (piece_loop i q))" using piece_loop_goes [of q i] by (simp add: goes_def ext_def)
  then show "\<exists>r. parse_piece (Suc f) p = Some r \<and> goes p [] r \<and> pos p < pos (snd r)" using g r by simp
qed

lemma goes_leaf: "moved d p q \<Longrightarrow> node_wf 0 0 0 k \<Longrightarrow> goes p [] (mk k q)"
  by (intro goes_mk [where js = "[]"]) (auto simp: moved_ext sound_moved intro: node_wf_mono elim: node_wf.elims)

lemma group_goes:
  assumes "goes (skip p\<lparr>ngroups := Suc (ngroups p)\<rparr>) [] (i, q)" "q' = (if c then skip q else fail q)"
  shows "goes p [] (mk (N_Group i (Suc (ngroups p))) q')"
proof (rule goes_mk [where js = "[i]"])
  have e: "ext (skip p\<lparr>ngroups := Suc (ngroups p)\<rparr>) q" using assms(1) by (simp add: goes_def)
  have e': "ext p (skip p\<lparr>ngroups := Suc (ngroups p)\<rparr>)" by (simp add: ext_def)
  show "ext p q'" using ext_trans [OF ext_trans [OF e' e]] assms(2) by simp
  show "sound p [] \<Longrightarrow> sound q' [i]" using assms sound_group [of "skip p" "[]"] by (simp add: goes_def)
  have "Suc (ngroups p) \<le> ngroups q" using e by (simp add: ext_def)
  then show "ok q' \<Longrightarrow> sound q' [i] \<Longrightarrow> node_wf (length (cls q')) (ngroups q') (length (nodes q')) (N_Group i (Suc (ngroups p)))"
    using assms(2) by (simp add: sound_def)
qed

lemma atom_step: assumes "alt_ok f" shows "atom_ok (Suc f)"
  unfolding atom_ok_def
proof (intro allI impI)
  fix p assume f: "0 < rest p" "5 * rest p \<le> Suc f + 1"
  let ?goal = "\<exists>r. parse_atom (Suc f) p = Some r \<and> goes p [] r \<and> pos p < pos (snd r)"
  obtain c where c: "peek p 0 = Some c" using f(1) by (simp add: peek_def)
  have leaf: "goes p [] (mk k (skip p))" if "node_wf 0 0 0 k" for k using moved_skip that by (rule goes_leaf)
  consider "c = chr CHR ''(''" | "c = chr (CHR 0x5C)" | "c \<noteq> chr CHR ''(''" "c \<noteq> chr (CHR 0x5C)" by blast
  then show ?goal
  proof cases
    case 1
    let ?p = "skip p\<lparr>ngroups := Suc (ngroups p)\<rparr>"
    have "5 * rest ?p + 3 \<le> f" using f by simp
    then obtain i q where r: "parse_alt f ?p = Some (i, q)" "goes ?p [] (i, q)"
      using assms [unfolded alt_ok_def, rule_format, of ?p] by auto
    have "pos p < pos q" using r(2) by (simp add: goes_def ext_def)
    then show ?goal using 1 c r group_goes [OF r(2) refl, of "peek q 0 = Some (chr CHR '')'')"] by (simp add: Let_def)
  next
    case 2
    obtain x q where a: "advance (skip p) = (x, q)" by fastforce
    have m: "moved 1 p q" using moved_advance [OF moved_skip, of p] a by simp
    have "goes p [] (0, fail q)" using moved_ext [OF m] by (simp add: goes_def ext_def)
    moreover have "goes p [] (mk (N_Char e) q) \<and> pos p < pos (snd (mk (N_Char e) q))" for e
      using goes_leaf [OF m] moved_ext [OF m] by simp
    ultimately show ?goal using 2 c a moved_ext [OF m] by (cases x) auto
  next
    case 3
    have lf: "goes p [] (mk k (skip p)) \<and> pos p < pos (snd (mk k (skip p)))" if "node_wf 0 0 0 k" for k
      using leaf [OF that] by simp
    have "\<exists>k. parse_atom (Suc f) p = Some (mk k (skip p)) \<and> node_wf 0 0 0 k" if "c \<noteq> chr CHR ''[''"
      using 3 c that
      by (intro exI [of _ "if c = chr CHR ''.'' then N_Any else if c = chr CHR ''^'' then N_Bol
            else if c = chr CHR ''$'' then N_Eol else N_Char c"]) simp
    moreover have "parse_atom (Suc f) p = Some (parse_class p)" if "c = chr CHR ''[''" using c that by simp
    ultimately show ?goal using lf parse_class_goes [of p] by blast
  qed
qed

lemma parser_total: "alt_ok f \<and> alt_loop_ok f \<and> concat_ok f \<and> concat_loop_ok f \<and> piece_ok f \<and> atom_ok f"
proof (induction f)
  case 0
  have "\<not> 5 * n \<le> (0 + 1 :: nat)" if "0 < n" for n using that by simp
  then have "atom_ok 0" unfolding atom_ok_def by blast
  then show ?case by (simp add: alt_ok_def alt_loop_ok_def concat_ok_def concat_loop_ok_def piece_ok_def)
next
  case (Suc f)
  then show ?case using alt_step alt_loop_step concat_step concat_loop_step piece_step atom_step by blast
qed

lemma parse_returns:
  obtains r q where "parse p = Some (r, q)" "goes p [] (r, q)"
proof -
  obtain r q where r: "parse_alt (parse_fuel p) p = Some (r, q)" "goes p [] (r, q)"
    using parser_total [of "parse_fuel p"] unfolding alt_ok_def parse_fuel_def by force
  moreover have "goes p [] (r, fail q)" using r(2) by (simp add: goes_def ext_def)
  ultimately show thesis using that by (auto simp: parse_def split: if_splits)
qed

lemma sound_parser_of [simp]: "sound (parser_of s mn mc) []"
  by (simp add: sound_def table_wf_def parser_of_def)

lemma goes_parser_of: "goes (parser_of s mn mc) [] (r, q) \<Longrightarrow> sound q [r]"
  by (simp add: goes_def)

text \<open>
  C31: the parser always returns.  When it accepts, the whole pattern has been read, every node refers to earlier nodes only, to a
  class of the class table and to a group that was counted, and the root is in the table.
\<close>

theorem parse_well_formed:
  "\<exists>r q. parse (parser_of s mn mc) = Some (r, q) \<and>
     (ok q \<longrightarrow> pos q = length s \<and> r < length (nodes q) \<and> length (nodes q) \<le> mn \<and> length (cls q) \<le> mc \<and>
        (\<forall>i < length (nodes q). node_wf (length (cls q)) (ngroups q) i (nodes q ! i)))"
proof -
  let ?p = "parser_of s mn mc"
  obtain r q where r: "parse ?p = Some (r, q)" "goes ?p [] (r, q)" by (rule parse_returns)
  have e: "ext ?p q" and s: "sound q [r]" using r(2) by (simp_all add: goes_def)
  have "pos q = length (pat q)" if "ok q" using r(1) that by (auto simp: parse_def bind_eq_Some_conv split: if_splits dest: arg_cong [where f = ok])
  then show ?thesis using r(1) e s by (simp add: sound_def table_wf_def ext_def parser_of_def)
qed


lemma parse_example: "map_option (ok \<circ> snd) (parse (parser_of (ascii ''a(b|[c-e])*$'') 60 20)) = Some True"
  by code_simp

theorem parse_well_formed_witness:
  "\<exists>r q. parse (parser_of (ascii ''a(b|[c-e])*$'') 60 20) = Some (r, q) \<and> pos q = 12 \<and> r < length (nodes q) \<and>
     (\<forall>i < length (nodes q). node_wf (length (cls q)) (ngroups q) i (nodes q ! i))"
  using parse_well_formed [of "ascii ''a(b|[c-e])*$''" 60 20] parse_example by (auto simp: ascii_def)

end
