(* ===== verification/Regex_Program.thy ===== *)
theory Regex_Program
  imports Regex_Ast
begin

text \<open>
  The compiler (\<^verbatim>\<open>src/src/regex/program.hpp\<close>): the node table becomes a program of the matching machine, in one pass that patches
  the targets of jumps afterwards.  It is shown to produce the code of a structural compiler of syntax trees, and that code is
  shown to reach its end exactly along the matches of the expression.
\<close>

subsection \<open>Instructions\<close>

datatype op = Op_Char | Op_Class | Op_Any | Op_Match | Op_Jmp | Op_Split | Op_Save | Op_Bol | Op_Eol

record inst =
  opc :: op
  ix :: nat
  iy :: nat

definition inst_of :: "op \<Rightarrow> nat \<Rightarrow> nat \<Rightarrow> inst" where
  "inst_of c x y = \<lparr>opc = c, ix = x, iy = y\<rparr>"

lemma inst_of_simps [simp]:
  "opc (inst_of c x y) = c" "ix (inst_of c x y) = x" "iy (inst_of c x y) = y"
  by (simp_all add: inst_of_def)

record prog_view =
  pv_code :: "inst list"
  pv_cls :: "charreach list"
  pv_ngroups :: nat

record emitter =
  code :: "inst list"
  maxi :: nat
  e_ok :: bool

definition emit :: "op \<Rightarrow> nat \<Rightarrow> nat \<Rightarrow> emitter \<Rightarrow> nat \<times> emitter" where
  "emit c x y e =
     (if length (code e) \<ge> maxi e then (if maxi e \<noteq> 0 then maxi e - 1 else 0, e\<lparr>e_ok := False\<rparr>)
      else (length (code e), e\<lparr>code := code e @ [inst_of c x y]\<rparr>))"

definition set_x :: "nat \<Rightarrow> nat \<Rightarrow> emitter \<Rightarrow> emitter" where
  "set_x i v e = e\<lparr>code := (code e)[i := (code e ! i)\<lparr>ix := v\<rparr>]\<rparr>"

definition set_y :: "nat \<Rightarrow> nat \<Rightarrow> emitter \<Rightarrow> emitter" where
  "set_y i v e = e\<lparr>code := (code e)[i := (code e ! i)\<lparr>iy := v\<rparr>]\<rparr>"

text \<open>
  \<^verbatim>\<open>emit_node\<close> and its two counted loops.  The children of a node have smaller indices in every table the parser makes; the
  recursion follows a child only then.
\<close>

function emit_node :: "node list \<Rightarrow> nat \<Rightarrow> emitter \<Rightarrow> emitter"
  and emit_copies :: "node list \<Rightarrow> nat \<Rightarrow> nat \<Rightarrow> emitter \<Rightarrow> emitter"
  and emit_options :: "node list \<Rightarrow> nat \<Rightarrow> nat \<Rightarrow> emitter \<Rightarrow> emitter"
where
  "emit_node ns idx e =
     (if \<not> e_ok e then e
      else
        let child = (\<lambda>a e. if a < idx then emit_node ns a e else e)
        in case ns ! idx of
             N_Empty \<Rightarrow> e
           | N_Char c \<Rightarrow> snd (emit Op_Char (unat c) 0 e)
           | N_Class c \<Rightarrow> snd (emit Op_Class c 0 e)
           | N_Any \<Rightarrow> snd (emit Op_Any 0 0 e)
           | N_Bol \<Rightarrow> snd (emit Op_Bol 0 0 e)
           | N_Eol \<Rightarrow> snd (emit Op_Eol 0 0 e)
           | N_Concat a b \<Rightarrow> child b (child a e)
           | N_Alt a b \<Rightarrow>
               let (sp, e1) = emit Op_Split 0 0 e;
                   e2 = child a e1;
                   (jm, e3) = emit Op_Jmp 0 0 e2;
                   l2 = length (code e3);
                   e4 = child b e3;
                   ni = length (code e4)
               in set_x jm ni (set_y sp l2 (set_x sp (sp + 1) e4))
           | N_Star a \<Rightarrow>
               let (l1, e1) = emit Op_Split 0 0 e;
                   bs = length (code e1);
                   e2 = child a e1;
                   (_, e3) = emit Op_Jmp l1 0 e2
               in set_y l1 (length (code e3)) (set_x l1 bs e3)
           | N_Plus a \<Rightarrow>
               let bs = length (code e);
                   e1 = child a e;
                   (sp, e2) = emit Op_Split 0 0 e1
               in set_y sp (length (code e2)) (set_x sp bs e2)
           | N_Quest a \<Rightarrow>
               let (sp, e1) = emit Op_Split 0 0 e;
                   e2 = child a e1
               in set_y sp (length (code e2)) (set_x sp (sp + 1) e2)
           | N_Group a g \<Rightarrow>
               let (_, e1) = emit Op_Save (2 * g) 0 e;
                   e2 = child a e1
               in snd (emit Op_Save (2 * g + 1) 0 e2)
           | N_Repeat a lo hi \<Rightarrow>
               let e0 = (if a < idx then emit_copies ns a (unat lo) e else e)
               in if hi = kInf then
                    let (l1, e1) = emit Op_Split 0 0 e0;
                        bs = length (code e1);
                        e2 = child a e1;
                        (_, e3) = emit Op_Jmp l1 0 e2
                    in set_y l1 (length (code e3)) (set_x l1 bs e3)
                  else if a < idx then emit_options ns a (unat hi - unat lo) e0 else e0)"
| "emit_copies ns a k e =
     (case k of 0 \<Rightarrow> e | Suc k' \<Rightarrow> if e_ok e then emit_copies ns a k' (emit_node ns a e) else e)"
| "emit_options ns a k e =
     (case k of
        0 \<Rightarrow> e
      | Suc k' \<Rightarrow>
          if e_ok e then
            let (sp, e1) = emit Op_Split 0 0 e;
                bs = length (code e1);
                e2 = emit_node ns a e1
            in emit_options ns a k' (set_y sp (length (code e2)) (set_x sp bs e2))
          else e)"
  by pat_completeness auto
termination
  by (relation "measures [\<lambda>x. case x of Inl (_, i, _) \<Rightarrow> i | Inr (Inl (_, a, _, _)) \<Rightarrow> a | Inr (Inr (_, a, _, _)) \<Rightarrow> a,
                          \<lambda>x. case x of Inl _ \<Rightarrow> 0 | Inr (Inl (_, _, k, _)) \<Rightarrow> Suc k | Inr (Inr (_, _, k, _)) \<Rightarrow> Suc k]")
    auto

declare emit_node.simps [simp del] emit_copies.simps [simp del] emit_options.simps [simp del]

definition compile_regex :: "byte list \<Rightarrow> nat \<Rightarrow> nat \<Rightarrow> nat \<Rightarrow> prog_view option" where
  "compile_regex s mn mc mi =
     (case parse (parser_of s mn mc) of
        None \<Rightarrow> None
      | Some (root, p) \<Rightarrow>
          if \<not> ok p then None
          else
            let e0 = \<lparr>code = [], maxi = mi, e_ok = True\<rparr>;
                e1 = snd (emit Op_Save 0 0 e0);
                e2 = emit_node (nodes p) root e1;
                e3 = snd (emit Op_Save 1 0 e2);
                e4 = snd (emit Op_Match 0 0 e3)
            in if \<not> e_ok e4 then None
               else Some \<lparr>pv_code = code e4, pv_cls = cls p, pv_ngroups = ngroups p\<rparr>)"


subsection \<open>Syntax trees and a structural compiler\<close>

datatype re =
    R_Empty
  | R_Char byte
  | R_Class nat
  | R_Any
  | R_Bol
  | R_Eol
  | R_Cat re re
  | R_Alt re re
  | R_Star re
  | R_Plus re
  | R_Quest re
  | R_Repeat re u32 u32
  | R_Group re nat

text \<open>The tree below a node of the table.\<close>

function tree_of :: "node list \<Rightarrow> nat \<Rightarrow> re" where
  "tree_of ns idx =
     (let child = (\<lambda>a. if a < idx then tree_of ns a else R_Empty)
      in case ns ! idx of
           N_Empty \<Rightarrow> R_Empty
         | N_Char c \<Rightarrow> R_Char c
         | N_Class c \<Rightarrow> R_Class c
         | N_Any \<Rightarrow> R_Any
         | N_Bol \<Rightarrow> R_Bol
         | N_Eol \<Rightarrow> R_Eol
         | N_Concat a b \<Rightarrow> R_Cat (child a) (child b)
         | N_Alt a b \<Rightarrow> R_Alt (child a) (child b)
         | N_Star a \<Rightarrow> R_Star (child a)
         | N_Plus a \<Rightarrow> R_Plus (child a)
         | N_Quest a \<Rightarrow> R_Quest (child a)
         | N_Group a g \<Rightarrow> R_Group (child a) g
         | N_Repeat a lo hi \<Rightarrow> R_Repeat (child a) lo hi)"
  by auto
termination by (relation "measure snd") auto

declare tree_of.simps [simp del]

text \<open>\<open>cat_pow r k s\<close> is \<open>k\<close> copies of \<open>r\<close> and then \<open>s\<close>.\<close>

primrec cat_pow :: "re \<Rightarrow> nat \<Rightarrow> re \<Rightarrow> re" where
  "cat_pow r 0 s = s"
| "cat_pow r (Suc k) s = R_Cat r (cat_pow r k s)"

text \<open>Counted repetition written out.\<close>

primrec desugar :: "re \<Rightarrow> re" where
  "desugar R_Empty = R_Empty"
| "desugar (R_Char c) = R_Char c"
| "desugar (R_Class c) = R_Class c"
| "desugar R_Any = R_Any"
| "desugar R_Bol = R_Bol"
| "desugar R_Eol = R_Eol"
| "desugar (R_Cat r s) = R_Cat (desugar r) (desugar s)"
| "desugar (R_Alt r s) = R_Alt (desugar r) (desugar s)"
| "desugar (R_Star r) = R_Star (desugar r)"
| "desugar (R_Plus r) = R_Plus (desugar r)"
| "desugar (R_Quest r) = R_Quest (desugar r)"
| "desugar (R_Group r g) = R_Group (desugar r) g"
| "desugar (R_Repeat r lo hi) =
     cat_pow (desugar r) (unat lo)
       (if hi = kInf then R_Star (desugar r) else cat_pow (R_Quest (desugar r)) (unat hi - unat lo) R_Empty)"

primrec compile :: "re \<Rightarrow> nat \<Rightarrow> inst list" where
  "compile R_Empty b = []"
| "compile (R_Char c) b = [inst_of Op_Char (unat c) 0]"
| "compile (R_Class c) b = [inst_of Op_Class c 0]"
| "compile R_Any b = [inst_of Op_Any 0 0]"
| "compile R_Bol b = [inst_of Op_Bol 0 0]"
| "compile R_Eol b = [inst_of Op_Eol 0 0]"
| "compile (R_Cat r s) b = (let cr = compile r b in cr @ compile s (b + length cr))"
| "compile (R_Alt r s) b =
     (let cr = compile r (b + 1); l2 = b + 2 + length cr; cs = compile s l2
      in inst_of Op_Split (b + 1) l2 # cr @ inst_of Op_Jmp (l2 + length cs) 0 # cs)"
| "compile (R_Star r) b =
     (let cr = compile r (b + 1) in inst_of Op_Split (b + 1) (b + 2 + length cr) # cr @ [inst_of Op_Jmp b 0])"
| "compile (R_Plus r) b = (let cr = compile r b in cr @ [inst_of Op_Split b (b + length cr + 1)])"
| "compile (R_Quest r) b = (let cr = compile r (b + 1) in inst_of Op_Split (b + 1) (b + 1 + length cr) # cr)"
| "compile (R_Group r g) b = (let cr = compile r (b + 1) in inst_of Op_Save (2 * g) 0 # cr @ [inst_of Op_Save (2 * g + 1) 0])"
| "compile (R_Repeat r lo hi) b = []"

text \<open>
  The emitter appends the code of the tree when there is room for it and fails otherwise.
\<close>

definition emits :: "emitter \<Rightarrow> inst list \<Rightarrow> emitter \<Rightarrow> bool" where
  "emits e c e' \<longleftrightarrow> maxi e' = maxi e \<and>
     (if e_ok e \<and> length (code e) + length c \<le> maxi e then e' = e\<lparr>code := code e @ c\<rparr> else \<not> e_ok e')"

definition fits :: "emitter \<Rightarrow> bool" where
  "fits e \<longleftrightarrow> (e_ok e \<longrightarrow> length (code e) \<le> maxi e)"

lemma emits_fits: "emits e c e' \<Longrightarrow> fits e'"
  by (auto simp: emits_def fits_def split: if_splits)

lemma emits_ok: "emits e c e' \<Longrightarrow> e_ok e' \<Longrightarrow> e_ok e \<and> code e' = code e @ c \<and> length (code e) + length c \<le> maxi e"
  by (auto simp: emits_def split: if_splits)

lemma emits_ok_iff: "emits e c e' \<Longrightarrow> e_ok e' \<longleftrightarrow> e_ok e \<and> length (code e) + length c \<le> maxi e"
  by (auto simp: emits_def split: if_splits)

lemma emits_refl: "fits e \<Longrightarrow> emits e [] e"
  by (auto simp: emits_def fits_def)

lemma emits_failed: "\<not> e_ok e \<Longrightarrow> emits e c e"
  by (auto simp: emits_def)

lemma emits_emit:
  "emits e [inst_of c x y] (snd (emit c x y e))"
  "e_ok (snd (emit c x y e)) \<Longrightarrow> fst (emit c x y e) = length (code e)"
proof -
  show "emits e [inst_of c x y] (snd (emit c x y e))" by (auto simp: emits_def emit_def)
  show "fst (emit c x y e) = length (code e)" if "e_ok (snd (emit c x y e))"
    using that by (auto simp: emit_def split: if_splits)
qed

lemma emits_trans:
  assumes "emits e c e'" "emits e' d e''"
  shows "emits e (c @ d) e''"
  using assms by (auto simp: emits_def split: if_splits)

lemma set_xy_simps [simp]:
  "maxi (set_x i v e) = maxi e" "e_ok (set_x i v e) = e_ok e" "length (code (set_x i v e)) = length (code e)"
  "maxi (set_y i v e) = maxi e" "e_ok (set_y i v e) = e_ok e" "length (code (set_y i v e)) = length (code e)"
  by (simp_all add: set_x_def set_y_def)

lemma compile_length: "length (compile r b) = length (compile r c)"
proof (induction r arbitrary: b c)
  case (R_Alt r s)
  show ?case using R_Alt.IH(1) [of "b + 1" "c + 1"] R_Alt.IH(2) by (simp add: Let_def)
next
  case (R_Cat r s)
  show ?case using R_Cat.IH(1) [of b c] R_Cat.IH(2) by (simp add: Let_def)
next
  case (R_Star r)
  show ?case using R_Star.IH by (simp add: Let_def)
next
  case (R_Plus r)
  show ?case using R_Plus.IH [of b c] by (simp add: Let_def)
next
  case (R_Quest r)
  show ?case using R_Quest.IH by (simp add: Let_def)
next
  case (R_Group r g)
  show ?case using R_Group.IH by (simp add: Let_def)
qed simp_all

text \<open>Instructions already emitted are patched.\<close>

lemma emits_patch:
  assumes "emits e c e'" "length c' = length c" "maxi e'' = maxi e'" "e_ok e'' = e_ok e'"
    and "e_ok e' \<Longrightarrow> code e' = code e @ c \<Longrightarrow> e'' = e'\<lparr>code := code e @ c'\<rparr>"
  shows "emits e c' e''"
  using assms by (auto simp: emits_def split: if_splits)

lemma set_xy_at:
  "code e = c @ inst_of k x y # d \<Longrightarrow> i = length c \<Longrightarrow> set_x i v e = e\<lparr>code := c @ inst_of k v y # d\<rparr>"
  "code e = c @ inst_of k x y # d \<Longrightarrow> i = length c \<Longrightarrow> set_y i v e = e\<lparr>code := c @ inst_of k x v # d\<rparr>"
  by (simp_all add: set_x_def set_y_def inst_of_def nth_append list_update_append)

lemma emits_star:
  assumes "emit Op_Split 0 0 e = (l1, e1)" "emits e1 (compile r (length (code e1))) e2" "emit Op_Jmp l1 0 e2 = (j, e3)"
  shows "emits e (compile (R_Star r) (length (code e))) (set_y l1 (length (code e3)) (set_x l1 (length (code e1)) e3))"
proof (rule emits_patch)
  have e1: "emits e [inst_of Op_Split 0 0] e1" and l1: "e_ok e1 \<Longrightarrow> l1 = length (code e)"
    using emits_emit [where e = e and c = Op_Split and x = 0 and y = 0] assms(1) by simp_all
  have e3: "emits e2 [inst_of Op_Jmp l1 0] e3" using emits_emit(1) [of e2 Op_Jmp l1 0] assms(3) by simp
  show "emits e ([inst_of Op_Split 0 0] @ compile r (length (code e1)) @ [inst_of Op_Jmp l1 0]) e3"
    by (rule emits_trans [OF e1 emits_trans [OF assms(2) e3]])
  show "length (compile (R_Star r) (length (code e))) = length ([inst_of Op_Split 0 0] @ compile r (length (code e1)) @ [inst_of Op_Jmp l1 0])"
    using compile_length [of r "length (code e1)" "length (code e) + 1"] by (simp add: Let_def)
  assume "e_ok e3" and c: "code e3 = code e @ [inst_of Op_Split 0 0] @ compile r (length (code e1)) @ [inst_of Op_Jmp l1 0]"
  then have "e_ok e1" using emits_ok [OF assms(2)] emits_ok [OF e3] by blast
  then have "l1 = length (code e)" "length (code e1) = length (code e) + 1" using l1 emits_ok [OF e1] by auto
  then show "set_y l1 (length (code e3)) (set_x l1 (length (code e1)) e3) = e3\<lparr>code := code e @ compile (R_Star r) (length (code e))\<rparr>"
    using c by (simp add: set_xy_at [where c = "code e"] Let_def)
qed simp_all

lemma emits_quest:
  assumes "emit Op_Split 0 0 e = (sp, e1)" "emits e1 (compile r (length (code e1))) e2"
    and "e_ok e1 \<Longrightarrow> v = length (code e) + 1"
  shows "emits e (compile (R_Quest r) (length (code e))) (set_y sp (length (code e2)) (set_x sp v e2))"
proof (rule emits_patch)
  have e1: "emits e [inst_of Op_Split 0 0] e1" and l1: "e_ok e1 \<Longrightarrow> sp = length (code e)"
    using emits_emit [where e = e and c = Op_Split and x = 0 and y = 0] assms(1) by simp_all
  show "emits e ([inst_of Op_Split 0 0] @ compile r (length (code e1))) e2" by (rule emits_trans [OF e1 assms(2)])
  show "length (compile (R_Quest r) (length (code e))) = length ([inst_of Op_Split 0 0] @ compile r (length (code e1)))"
    using compile_length [of r "length (code e1)" "length (code e) + 1"] by (simp add: Let_def)
  assume "e_ok e2" and c: "code e2 = code e @ [inst_of Op_Split 0 0] @ compile r (length (code e1))"
  then have "e_ok e1" using emits_ok [OF assms(2)] by blast
  then have "sp = length (code e)" "length (code e1) = length (code e) + 1" "v = length (code e) + 1"
    using l1 assms(3) emits_ok [OF e1] by auto
  then show "set_y sp (length (code e2)) (set_x sp v e2) = e2\<lparr>code := code e @ compile (R_Quest r) (length (code e))\<rparr>"
    using c by (simp add: set_xy_at [where c = "code e"] Let_def)
qed simp_all

lemma emits_plus:
  assumes "emits e (compile r (length (code e))) e1" "emit Op_Split 0 0 e1 = (sp, e2)"
  shows "emits e (compile (R_Plus r) (length (code e))) (set_y sp (length (code e2)) (set_x sp (length (code e)) e2))"
proof (rule emits_patch)
  have e2: "emits e1 [inst_of Op_Split 0 0] e2" and l1: "e_ok e2 \<Longrightarrow> sp = length (code e1)"
    using emits_emit [where e = e1 and c = Op_Split and x = 0 and y = 0] assms(2) by simp_all
  show "emits e (compile r (length (code e)) @ [inst_of Op_Split 0 0]) e2" by (rule emits_trans [OF assms(1) e2])
  show "length (compile (R_Plus r) (length (code e))) = length (compile r (length (code e)) @ [inst_of Op_Split 0 0])"
    by (simp add: Let_def)
  assume k: "e_ok e2" and c: "code e2 = code e @ compile r (length (code e)) @ [inst_of Op_Split 0 0]"
  then have "sp = length (code e @ compile r (length (code e)))" using l1 emits_ok [OF e2 k] emits_ok [OF assms(1)] by auto
  then show "set_y sp (length (code e2)) (set_x sp (length (code e)) e2) = e2\<lparr>code := code e @ compile (R_Plus r) (length (code e))\<rparr>"
    using c by (simp add: set_xy_at [where c = "code e @ compile r (length (code e))"] Let_def)
qed simp_all

lemma emits_alt:
  assumes "emit Op_Split 0 0 e = (sp, e1)" "emits e1 (compile r (length (code e1))) e2" "emit Op_Jmp 0 0 e2 = (jm, e3)"
    and "emits e3 (compile s (length (code e3))) e4"
  shows "emits e (compile (R_Alt r s) (length (code e)))
           (set_x jm (length (code e4)) (set_y sp (length (code e3)) (set_x sp (sp + 1) e4)))"
proof (rule emits_patch)
  have e1: "emits e [inst_of Op_Split 0 0] e1" and l1: "e_ok e1 \<Longrightarrow> sp = length (code e)"
    using emits_emit [where e = e and c = Op_Split and x = 0 and y = 0] assms(1) by simp_all
  have e3: "emits e2 [inst_of Op_Jmp 0 0] e3" and l3: "e_ok e3 \<Longrightarrow> jm = length (code e2)"
    using emits_emit [where e = e2 and c = Op_Jmp and x = 0 and y = 0] assms(3) by simp_all
  let ?c = "[inst_of Op_Split 0 0] @ compile r (length (code e1)) @ [inst_of Op_Jmp 0 0] @ compile s (length (code e3))"
  show "emits e ?c e4" by (rule emits_trans [OF e1 emits_trans [OF assms(2) emits_trans [OF e3 assms(4)]]])
  show "length (compile (R_Alt r s) (length (code e))) = length ?c"
    using compile_length [of r "length (code e1)" "length (code e) + 1"] compile_length [of s "length (code e3)" "length (code e) + 2 + length (compile r (length (code e) + 1))"] by (simp add: Let_def)
  assume "e_ok e4" and c: "code e4 = code e @ ?c"
  then have o: "e_ok e3" "e_ok e2" "e_ok e1" using emits_ok [OF assms(2)] emits_ok [OF e3] emits_ok [OF assms(4)] by blast+
  let ?cr = "compile r (length (code e1))"
  have p: "sp = length (code e)" "length (code e1) = length (code e) + 1" "jm = length (code e @ inst_of k x y # ?cr)"
      "length (code e3) = length (code e) + 2 + length ?cr" for k x y
    using l1 l3 o emits_ok [OF e1] emits_ok [OF e3] emits_ok [OF assms(2)] by auto
  have "set_x jm v e' = e'\<lparr>code := code e @ inst_of k x y # ?cr @ inst_of Op_Jmp v 0 # d\<rparr>"
    if "code e' = code e @ inst_of k x y # ?cr @ inst_of Op_Jmp 0 0 # d" for e' :: emitter and v k x y d
    using set_xy_at(1) [of e' "code e @ inst_of k x y # ?cr" Op_Jmp 0 0 d jm v] that p(3) by simp
  then show "set_x jm (length (code e4)) (set_y sp (length (code e3)) (set_x sp (sp + 1) e4)) =
      e4\<lparr>code := code e @ compile (R_Alt r s) (length (code e))\<rparr>"
    using c p by (simp add: set_xy_at [where c = "code e"] Let_def)
qed simp_all

lemma emits_group:
  assumes "emit Op_Save (2 * g) 0 e = (i, e1)" "emits e1 (compile r (length (code e1))) e2"
  shows "emits e (compile (R_Group r g) (length (code e))) (snd (emit Op_Save (2 * g + 1) 0 e2))"
proof -
  have e1: "emits e [inst_of Op_Save (2 * g) 0] e1" using emits_emit(1) [of e Op_Save "2 * g" 0] assms(1) by simp
  have "emits e ([inst_of Op_Save (2 * g) 0] @ compile r (length (code e1)) @ [inst_of Op_Save (2 * g + 1) 0])
          (snd (emit Op_Save (2 * g + 1) 0 e2))"
    by (rule emits_trans [OF e1 emits_trans [OF assms(2) emits_emit(1)]])
  then show ?thesis
  proof (rule emits_patch)
    assume "e_ok (snd (emit Op_Save (2 * g + 1) 0 e2))"
    then have "e_ok e1" using emits_ok [OF assms(2)] emits_ok [OF emits_emit(1)] by blast
    then have "length (code e1) = length (code e) + 1" using emits_ok [OF e1] by simp
    then show "snd (emit Op_Save (2 * g + 1) 0 e2) =
        snd (emit Op_Save (2 * g + 1) 0 e2)\<lparr>code := code e @ compile (R_Group r g) (length (code e))\<rparr>"
      if "code (snd (emit Op_Save (2 * g + 1) 0 e2)) =
        code e @ [inst_of Op_Save (2 * g) 0] @ compile r (length (code e1)) @ [inst_of Op_Save (2 * g + 1) 0]"
      using that by (simp add: Let_def)
  qed (use compile_length [of r "length (code e1)" "length (code e) + 1"] in \<open>simp_all add: Let_def\<close>)
qed

lemma compile_cat_pow:
  "compile (cat_pow r k s) b = (let c = compile (cat_pow r k R_Empty) b in c @ compile s (b + length c))"
  by (induction k arbitrary: b) (simp_all add: Let_def add.assoc)

text \<open>Two pieces in a row.\<close>

lemma emits_then:
  assumes "emits e (compile r (length (code e))) e1" "emits e1 (compile s (length (code e1))) e2"
  shows "emits e (compile (R_Cat r s) (length (code e))) e2"
  using emits_trans [OF assms]
proof (rule emits_patch)
  show "length (compile (R_Cat r s) (length (code e))) = length (compile r (length (code e)) @ compile s (length (code e1)))"
    using compile_length [of s "length (code e1)" "length (code e) + length (compile r (length (code e)))"] by (simp add: Let_def)
  assume "e_ok e2"
  then have "length (code e1) = length (code e) + length (compile r (length (code e)))"
    using emits_ok [OF assms(1)] emits_ok [OF assms(2)] by simp
  then show "e2 = e2\<lparr>code := code e @ compile (R_Cat r s) (length (code e))\<rparr>"
    if "code e2 = code e @ compile r (length (code e)) @ compile s (length (code e1))"
    using that by (simp add: Let_def)
qed simp_all

lemma emits_cat_pow:
  assumes "emits e (compile (cat_pow r k R_Empty) (length (code e))) e1" "emits e1 (compile s (length (code e1))) e2"
  shows "emits e (compile (cat_pow r k s) (length (code e))) e2"
  using emits_then [OF assms] by (simp add: compile_cat_pow [of r k s] Let_def)

lemma emits_copies:
  assumes "\<And>e. fits e \<Longrightarrow> emits e (compile r (length (code e))) (emit_node ns a e)"
  shows "fits e \<Longrightarrow> emits e (compile (cat_pow r k R_Empty) (length (code e))) (emit_copies ns a k e)"
proof (induction k arbitrary: e)
  case 0 then show ?case by (simp add: emit_copies.simps emits_refl)
next
  case (Suc k)
  show ?case
  proof (cases "e_ok e")
    case True
    have "emits e (compile r (length (code e))) (emit_node ns a e)" using Suc.prems by (rule assms)
    from emits_then [OF this Suc.IH [OF emits_fits [OF this]]] show ?thesis using True by (simp add: emit_copies.simps)
  qed (simp add: emit_copies.simps emits_failed)
qed

lemma emits_options:
  assumes "\<And>e. fits e \<Longrightarrow> emits e (compile r (length (code e))) (emit_node ns a e)"
  shows "fits e \<Longrightarrow> emits e (compile (cat_pow (R_Quest r) k R_Empty) (length (code e))) (emit_options ns a k e)"
proof (induction k arbitrary: e)
  case 0 then show ?case by (simp add: emit_options.simps emits_refl)
next
  case (Suc k)
  show ?case
  proof (cases "e_ok e")
    case True
    obtain sp e1 where s: "emit Op_Split 0 0 e = (sp, e1)" by fastforce
    have e1: "emits e [inst_of Op_Split 0 0] e1" using emits_emit(1) [of e Op_Split 0 0] s by simp
    have "emits e (compile (R_Quest r) (length (code e)))
       (set_y sp (length (code (emit_node ns a e1))) (set_x sp (length (code e1)) (emit_node ns a e1)))" (is "emits _ _ ?e")
      by (rule emits_quest [OF s assms [OF emits_fits [OF e1]]]) (use emits_ok [OF e1] in simp)
    from emits_then [OF this Suc.IH [OF emits_fits [OF this]]] show ?thesis
      using True s by (simp add: emit_options.simps [where k = "Suc k"] Let_def)
  qed (simp add: emit_options.simps [where k = "Suc k"] emits_failed)
qed

lemma emits_emit_node:
  assumes "\<And>i. i < length ns \<Longrightarrow> node_wf nc ng i (ns ! i)"
  shows "idx < length ns \<Longrightarrow> fits e \<Longrightarrow> emits e (compile (desugar (tree_of ns idx)) (length (code e))) (emit_node ns idx e)"
proof (induction idx arbitrary: e rule: less_induct)
  case (less idx)
  define child where "child = (\<lambda>a e. if a < idx then emit_node ns a e else e)"
  define ct where "ct = (\<lambda>a. if a < idx then tree_of ns a else R_Empty)"
  have child: "emits e (compile (desugar (ct a)) (length (code e))) (child a e)" if "fits e" for a e
    using that less.IH less.prems(1) by (simp add: child_def ct_def emits_refl)
  show ?case
  proof (cases "e_ok e")
    case False then show ?thesis by (simp add: emit_node.simps emits_failed)
  next
    case True
    note emitted = emit_node.simps [of ns idx e, folded child_def] tree_of.simps [of ns idx, folded ct_def]
    note next_child = child [OF emits_fits]
    have split: "emits e [inst_of c x y] (snd (emit c x y e))" for c x y and e :: emitter by (rule emits_emit(1))
    show ?thesis
    proof (cases "ns ! idx")
      case N_Empty then show ?thesis using less.prems(2) by (simp add: emitted emits_refl)
    next
      case (N_Concat a b)
      have "emits e (compile (R_Cat (desugar (ct a)) (desugar (ct b))) (length (code e))) (child b (child a e))"
        by (intro emits_then [OF child next_child [OF child]] less.prems)
      then show ?thesis using True N_Concat by (simp add: emitted)
    next
      case (N_Alt a b)
      obtain sp e1 where s: "emit Op_Split 0 0 e = (sp, e1)" by fastforce
      obtain jm e3 where j: "emit Op_Jmp 0 0 (child a e1) = (jm, e3)" by fastforce
      have e1: "emits e [inst_of Op_Split 0 0] e1" using split [of e Op_Split 0 0] s by simp
      have e3: "emits (child a e1) [inst_of Op_Jmp 0 0] e3" using split [of "child a e1" Op_Jmp 0 0] j by simp
      from emits_alt [OF s next_child [OF e1] j next_child [OF e3]]
      show ?thesis using True N_Alt s j by (simp add: emitted Let_def)
    next
      case (N_Repeat a lo hi)
      let ?e = "emit_copies ns a (unat lo) e" and ?r = "desugar (tree_of ns a)"
      have a: "a < idx" using assms [OF less.prems(1)] N_Repeat by simp
      note node = less.IH [OF a order.strict_trans [OF a less.prems(1)]]
      note cp = emits_copies [OF node less.prems(2), of "unat lo"]
      show ?thesis
      proof (cases "hi = kInf")
        case inf: True
        obtain l1 e1 where s: "emit Op_Split 0 0 ?e = (l1, e1)" by fastforce
        obtain j e3 where j: "emit Op_Jmp l1 0 (child a e1) = (j, e3)" by fastforce
        have e1: "emits ?e [inst_of Op_Split 0 0] e1" using split [of ?e Op_Split 0 0] s by simp
        have star: "emits ?e (compile (R_Star ?r) (length (code ?e))) (set_y l1 (length (code e3)) (set_x l1 (length (code e1)) e3))"
          using emits_star [OF s next_child [OF e1] j] a by (simp add: ct_def)
        from emits_cat_pow [OF cp star] show ?thesis using True N_Repeat inf s j a by (simp add: emitted ct_def Let_def)
      next
        case False
        from emits_cat_pow [OF cp emits_options [OF node emits_fits [OF cp]]] show ?thesis
          using True N_Repeat False a by (simp add: emitted ct_def)
      qed
    next
      case (N_Star a)
      obtain l1 e1 where s: "emit Op_Split 0 0 e = (l1, e1)" by fastforce
      obtain j e3 where j: "emit Op_Jmp l1 0 (child a e1) = (j, e3)" by fastforce
      have e1: "emits e [inst_of Op_Split 0 0] e1" using split [of e Op_Split 0 0] s by simp
      from emits_star [OF s next_child [OF e1] j] show ?thesis using True N_Star s j by (simp add: emitted Let_def)
    next
      case (N_Plus a)
      obtain sp e2 where s: "emit Op_Split 0 0 (child a e) = (sp, e2)" by fastforce
      from emits_plus [OF child [OF less.prems(2)] s] show ?thesis using True N_Plus s by (simp add: emitted Let_def)
    next
      case (N_Quest a)
      obtain sp e1 where s: "emit Op_Split 0 0 e = (sp, e1)" by fastforce
      have e1: "emits e [inst_of Op_Split 0 0] e1" using split [of e Op_Split 0 0] s by simp
      have "e_ok e1 \<Longrightarrow> sp + 1 = length (code e) + 1"
        using emits_emit(2) [of Op_Split 0 0 e] s by simp
      from emits_quest [OF s next_child [OF e1] this] show ?thesis using True N_Quest s by (simp add: emitted Let_def)
    next
      case (N_Group a g)
      obtain i e1 where s: "emit Op_Save (2 * g) 0 e = (i, e1)" by fastforce
      have e1: "emits e [inst_of Op_Save (2 * g) 0] e1" using split [of e Op_Save "2 * g" 0] s by simp
      from emits_group [OF s next_child [OF e1]] show ?thesis using True N_Group s by (simp add: emitted Let_def)
    qed (use True emits_emit(1) in \<open>simp_all add: emitted\<close>)
  qed
qed

subsection \<open>What an expression matches\<close>

text \<open>The pairs of offsets of a text between which an expression matches.\<close>

primrec sem :: "byte list \<Rightarrow> charreach list \<Rightarrow> re \<Rightarrow> (nat \<times> nat) set" where
  "sem w cs R_Empty = Id"
| "sem w cs (R_Char c) = {(i, Suc i) | i. i < length w \<and> w ! i = c}"
| "sem w cs (R_Class k) = {(i, Suc i) | i. i < length w \<and> w ! i \<in> cr_bytes (cs ! k)}"
| "sem w cs R_Any = {(i, Suc i) | i. i < length w}"
| "sem w cs R_Bol = {(0, 0)}"
| "sem w cs R_Eol = {(length w, length w)}"
| "sem w cs (R_Cat r s) = sem w cs r O sem w cs s"
| "sem w cs (R_Alt r s) = sem w cs r \<union> sem w cs s"
| "sem w cs (R_Star r) = (sem w cs r)\<^sup>*"
| "sem w cs (R_Plus r) = (sem w cs r)\<^sup>+"
| "sem w cs (R_Quest r) = Id \<union> sem w cs r"
| "sem w cs (R_Repeat r lo hi) = (\<Union>k \<in> {k. unat lo \<le> k \<and> (hi = kInf \<or> k \<le> unat hi)}. sem w cs r ^^ k)"
| "sem w cs (R_Group r g) = sem w cs r"

primrec re_wf :: "nat \<Rightarrow> nat \<Rightarrow> re \<Rightarrow> bool" where
  "re_wf nc ng R_Empty = True"
| "re_wf nc ng (R_Char c) = True"
| "re_wf nc ng (R_Class k) = (k < nc)"
| "re_wf nc ng R_Any = True"
| "re_wf nc ng R_Bol = True"
| "re_wf nc ng R_Eol = True"
| "re_wf nc ng (R_Cat r s) = (re_wf nc ng r \<and> re_wf nc ng s)"
| "re_wf nc ng (R_Alt r s) = (re_wf nc ng r \<and> re_wf nc ng s)"
| "re_wf nc ng (R_Star r) = re_wf nc ng r"
| "re_wf nc ng (R_Plus r) = re_wf nc ng r"
| "re_wf nc ng (R_Quest r) = re_wf nc ng r"
| "re_wf nc ng (R_Repeat r lo hi) = (re_wf nc ng r \<and> lo \<le> hi)"
| "re_wf nc ng (R_Group r g) = (re_wf nc ng r \<and> 0 < g \<and> g \<le> ng)"

lemma re_wf_tree_of:
  assumes "\<And>i. i < length ns \<Longrightarrow> node_wf nc ng i (ns ! i)"
  shows "idx < length ns \<Longrightarrow> re_wf nc ng (tree_of ns idx)"
proof (induction idx rule: less_induct)
  case (less idx)
  have "re_wf nc ng (tree_of ns a)" if "a < idx" for a
    using less that by simp
  then show ?case using assms [OF less.prems] by (cases "ns ! idx") (simp_all add: tree_of.simps [of ns idx] Let_def)
qed

lemma sem_cat_pow: "sem w cs (cat_pow r k s) = (sem w cs r ^^ k) O sem w cs s"
proof (induction k)
  case (Suc k)
  have "sem w cs r O (sem w cs r ^^ k) = (sem w cs r ^^ k) O sem w cs r" by (rule relpow_commute)
  with Suc show ?case by (simp add: O_assoc [symmetric])
qed simp

lemma relpow_quest: "(Id \<union> R) ^^ m = (\<Union>k \<le> m. R ^^ k)"
proof (induction m)
  case (Suc m)
  have "(Id \<union> R) ^^ Suc m = (\<Union>k \<le> m. R ^^ k) \<union> (\<Union>k \<le> m. R ^^ Suc k)" by (auto simp: Suc)
  also have "\<dots> = (\<Union>k \<le> Suc m. R ^^ k)"
  proof (intro equalityI subsetI)
    fix x assume "x \<in> (\<Union>k \<le> Suc m. R ^^ k)"
    then obtain k where "k \<le> Suc m" "x \<in> R ^^ k" by blast
    then show "x \<in> (\<Union>k \<le> m. R ^^ k) \<union> (\<Union>k \<le> m. R ^^ Suc k)" by (cases k) (auto simp del: relpow.simps)
  next
    fix x assume "x \<in> (\<Union>k \<le> m. R ^^ k) \<union> (\<Union>k \<le> m. R ^^ Suc k)"
    then show "x \<in> (\<Union>k \<le> Suc m. R ^^ k)" by (auto simp del: relpow.simps intro: le_SucI)
  qed
  finally show ?case .
qed simp

lemma relpow_add_UN: "(R ^^ m) O (\<Union>k \<in> A. R ^^ k) = (\<Union>k \<in> A. R ^^ (m + k))"
  by (auto simp: relpow_add relcomp_UNION_distrib)

text \<open>Repetition written out matches the same.\<close>

lemma sem_desugar: "re_wf nc ng r \<Longrightarrow> sem w cs (desugar r) = sem w cs r"
proof (induction r)
  case (R_Repeat r lo hi)
  let ?S = "sem w cs r"
  have ih: "sem w cs (desugar r) = ?S" and le: "unat lo \<le> unat hi" using R_Repeat by (simp_all add: word_le_nat_alt)
  have inf: "(?S ^^ unat lo) O ?S\<^sup>* = (\<Union>k \<in> {k. unat lo \<le> k}. ?S ^^ k)"
    unfolding rtrancl_is_UN_relpow relpow_add_UN
  proof (intro equalityI subsetI)
    fix x assume "x \<in> (\<Union>k \<in> {k. unat lo \<le> k}. ?S ^^ k)"
    then obtain k where "unat lo \<le> k" "x \<in> ?S ^^ k" by blast
    then have "x \<in> ?S ^^ (unat lo + (k - unat lo))" by simp
    then show "x \<in> (\<Union>k. ?S ^^ (unat lo + k))" by blast
  qed (use le_add1 in blast)
  have fin: "(?S ^^ unat lo) O ((Id \<union> ?S) ^^ (unat hi - unat lo)) = (\<Union>k \<in> {k. unat lo \<le> k \<and> k \<le> unat hi}. ?S ^^ k)"
    unfolding relpow_quest relpow_add_UN
  proof (intro equalityI subsetI)
    fix x assume "x \<in> (\<Union>k \<in> {k. unat lo \<le> k \<and> k \<le> unat hi}. ?S ^^ k)"
    then obtain k where "unat lo \<le> k" "k \<le> unat hi" "x \<in> ?S ^^ k" by blast
    then have "x \<in> ?S ^^ (unat lo + (k - unat lo))" "k - unat lo \<le> unat hi - unat lo" by simp_all
    then show "x \<in> (\<Union>k \<le> unat hi - unat lo. ?S ^^ (unat lo + k))" by blast
  next
    fix x assume "x \<in> (\<Union>k \<le> unat hi - unat lo. ?S ^^ (unat lo + k))"
    then obtain k where "k \<le> unat hi - unat lo" and x: "x \<in> ?S ^^ (unat lo + k)" by blast
    then have "unat lo + k \<le> unat hi" using le by simp
    with x show "x \<in> (\<Union>k \<in> {k. unat lo \<le> k \<and> k \<le> unat hi}. ?S ^^ k)" using le_add1 by blast
  qed
  show ?case using ih inf fin by (simp add: sem_cat_pow)
qed simp_all

subsection \<open>The machine\<close>

text \<open>The instructions reached without reading, and those that read a byte.\<close>

definition eps :: "nat \<Rightarrow> nat \<Rightarrow> inst \<Rightarrow> nat \<Rightarrow> nat list" where
  "eps n sp I pc =
     (case opc I of
        Op_Jmp \<Rightarrow> [ix I]
      | Op_Split \<Rightarrow> [ix I, iy I]
      | Op_Save \<Rightarrow> [pc + 1]
      | Op_Bol \<Rightarrow> if sp = 0 then [pc + 1] else []
      | Op_Eol \<Rightarrow> if sp = n then [pc + 1] else []
      | _ \<Rightarrow> [])"

definition consumes :: "charreach list \<Rightarrow> inst \<Rightarrow> byte \<Rightarrow> bool" where
  "consumes cs I c =
     (case opc I of
        Op_Char \<Rightarrow> ix I = unat c
      | Op_Class \<Rightarrow> cr_test (cs ! ix I) c
      | Op_Any \<Rightarrow> True
      | _ \<Rightarrow> False)"

inductive mstep :: "inst list \<Rightarrow> charreach list \<Rightarrow> byte list \<Rightarrow> nat \<times> nat \<Rightarrow> nat \<times> nat \<Rightarrow> bool"
  for P :: "inst list" and cs :: "charreach list" and w :: "byte list"
where
  silent: "pc < length P \<Longrightarrow> pc' \<in> set (eps (length w) i (P ! pc) pc) \<Longrightarrow> mstep P cs w (pc, i) (pc', i)"
| reads: "pc < length P \<Longrightarrow> i < length w \<Longrightarrow> consumes cs (P ! pc) (w ! i) \<Longrightarrow> mstep P cs w (pc, i) (Suc pc, Suc i)"

inductive_simps mstep_iff: "mstep P cs w (pc, i) (pc', j)"

text \<open>A stretch of a program.\<close>

primrec block :: "inst list \<Rightarrow> nat \<Rightarrow> inst list \<Rightarrow> bool" where
  "block P b [] = True"
| "block P b (I # c) = (b < length P \<and> P ! b = I \<and> block P (Suc b) c)"

lemma block_append [simp]: "block P b (c @ d) \<longleftrightarrow> block P b c \<and> block P (b + length c) d"
  by (induction c arbitrary: b) auto

lemma block_self: "block (pre @ c @ post) (length pre) c"
proof (induction c arbitrary: pre)
  case (Cons I c)
  show ?case using Cons [of "pre @ [I]"] by simp
qed simp

primrec plain :: "re \<Rightarrow> bool" where
  "plain R_Empty = True" | "plain (R_Char c) = True" | "plain (R_Class k) = True" | "plain R_Any = True"
| "plain R_Bol = True" | "plain R_Eol = True"
| "plain (R_Cat r s) = (plain r \<and> plain s)" | "plain (R_Alt r s) = (plain r \<and> plain s)"
| "plain (R_Star r) = plain r" | "plain (R_Plus r) = plain r" | "plain (R_Quest r) = plain r"
| "plain (R_Repeat r lo hi) = False" | "plain (R_Group r g) = plain r"

lemma plain_cat_pow: "plain r \<Longrightarrow> plain s \<Longrightarrow> plain (cat_pow r k s)"
  by (induction k) simp_all

lemma plain_desugar [simp]: "plain (desugar r)"
  by (induction r) (simp_all add: plain_cat_pow)

lemma path_between: "r x y \<Longrightarrow> r\<^sup>*\<^sup>* y z \<Longrightarrow> r z u \<Longrightarrow> r\<^sup>*\<^sup>* x u"
  by (meson converse_rtranclp_into_rtranclp rtranclp.rtrancl_into_rtrancl)

text \<open>Every match of an expression is a path through its code.\<close>

lemma compile_complete:
  assumes "plain r" "block P b (compile r b)" "(i, j) \<in> sem w cs r"
  shows "(mstep P cs w)\<^sup>*\<^sup>* (b, i) (b + length (compile r b), j)"
  using assms
proof (induction r arbitrary: b i j)
  case (R_Cat r s)
  then obtain k where k: "(i, k) \<in> sem w cs r" "(k, j) \<in> sem w cs s" by auto
  have "(mstep P cs w)\<^sup>*\<^sup>* (b, i) (b + length (compile r b), k)" using R_Cat k by (simp add: Let_def)
  moreover have "(mstep P cs w)\<^sup>*\<^sup>* (b + length (compile r b), k)
     (b + length (compile r b) + length (compile s (b + length (compile r b))), j)"
    using R_Cat k by (simp add: Let_def)
  ultimately show ?case by (simp add: Let_def add.assoc)
next
  case (R_Alt r s)
  let ?cr = "compile r (Suc b)" let ?l2 = "Suc (Suc (b + length ?cr))" let ?cs = "compile s ?l2"
  have c: "b < length P" "P ! b = inst_of Op_Split (Suc b) ?l2" "block P (Suc b) ?cr"
      "Suc (b + length ?cr) < length P" "P ! Suc (b + length ?cr) = inst_of Op_Jmp (?l2 + length ?cs) 0" "block P ?l2 ?cs"
    using R_Alt.prems(2) by (simp_all add: Let_def)
  have s1: "mstep P cs w (b, i) (Suc b, i)" and s2: "mstep P cs w (b, i) (?l2, i)"
    and s3: "mstep P cs w (Suc (b + length ?cr), j) (?l2 + length ?cs, j)"
    using c by (simp_all add: mstep_iff eps_def)
  show ?case
  proof (cases "(i, j) \<in> sem w cs r")
    case True
    then have "(mstep P cs w)\<^sup>*\<^sup>* (Suc b, i) (Suc (b + length ?cr), j)" using R_Alt c(3) by fastforce
    from path_between [OF s1 this s3] show ?thesis by (simp add: Let_def add.assoc)
  next
    case False
    then have "(mstep P cs w)\<^sup>*\<^sup>* (?l2, i) (?l2 + length ?cs, j)"
      using R_Alt.IH(2) [of ?l2 i j] R_Alt.prems c(6) by simp
    with s2 have "(mstep P cs w)\<^sup>*\<^sup>* (b, i) (?l2 + length ?cs, j)" by (rule converse_rtranclp_into_rtranclp)
    then show ?thesis by (simp add: Let_def add.assoc)
  qed
next
  case (R_Star r)
  let ?cr = "compile r (Suc b)" let ?e = "Suc (Suc (b + length ?cr))"
  have c: "b < length P" "P ! b = inst_of Op_Split (Suc b) ?e" "block P (Suc b) ?cr"
      "Suc (b + length ?cr) < length P" "P ! Suc (b + length ?cr) = inst_of Op_Jmp b 0"
    using R_Star.prems(2) by (simp_all add: Let_def)
  have round: "(mstep P cs w)\<^sup>*\<^sup>* (b, i) (b, k)" if "(i, k) \<in> sem w cs r" for i k
  proof (rule path_between)
    show "mstep P cs w (b, i) (Suc b, i)" "mstep P cs w (Suc (b + length ?cr), k) (b, k)" using c by (simp_all add: mstep_iff eps_def)
    show "(mstep P cs w)\<^sup>*\<^sup>* (Suc b, i) (Suc (b + length ?cr), k)" using R_Star.IH [of "Suc b" i k] R_Star.prems(1) c(3) that by simp
  qed
  have "(i, j) \<in> (sem w cs r)\<^sup>*" using R_Star.prems(3) by simp
  then have "(mstep P cs w)\<^sup>*\<^sup>* (b, i) (b, j)"
    by (induction rule: rtrancl_induct) (auto intro: rtranclp_trans [OF _ round])
  moreover have "mstep P cs w (b, j) (?e, j)" using c by (simp add: mstep_iff eps_def)
  ultimately show ?case by (simp add: Let_def rtranclp.rtrancl_into_rtrancl)
next
  case (R_Plus r)
  let ?cr = "compile r b" let ?m = "b + length ?cr"
  have c: "?m < length P" "P ! ?m = inst_of Op_Split b (Suc ?m)" "block P b ?cr"
    using R_Plus.prems(2) by (simp_all add: Let_def)
  have round: "(mstep P cs w)\<^sup>*\<^sup>* (b, i) (?m, k)" if "(i, k) \<in> sem w cs r" for i k
    using R_Plus.IH [OF _ c(3) that] R_Plus.prems(1) by simp
  have again: "mstep P cs w (?m, k) (b, k)" for k using c by (simp add: mstep_iff eps_def)
  have "(i, j) \<in> (sem w cs r)\<^sup>+" using R_Plus.prems(3) by simp
  then have "(mstep P cs w)\<^sup>*\<^sup>* (b, i) (?m, j)"
  proof (induction rule: trancl_induct)
    case (step k l)
    show ?case using step.IH converse_rtranclp_into_rtranclp [OF again round [OF step.hyps(2)]] by (rule rtranclp_trans)
  qed (rule round)
  moreover have "mstep P cs w (?m, j) (Suc ?m, j)" using c by (simp add: mstep_iff eps_def)
  ultimately show ?case by (simp add: Let_def rtranclp.rtrancl_into_rtrancl)
next
  case (R_Quest r)
  let ?cr = "compile r (Suc b)" let ?e = "Suc (b + length ?cr)"
  have c: "b < length P" "P ! b = inst_of Op_Split (Suc b) ?e" "block P (Suc b) ?cr"
    using R_Quest.prems(2) by (simp_all add: Let_def)
  have s: "mstep P cs w (b, i) (Suc b, i)" "mstep P cs w (b, i) (?e, i)" using c by (simp_all add: mstep_iff eps_def)
  show ?case
  proof (cases "i = j")
    case True then show ?thesis using s(2) by (simp add: Let_def r_into_rtranclp)
  next
    case False
    then have "(mstep P cs w)\<^sup>*\<^sup>* (Suc b, i) (?e, j)" using R_Quest.IH [of "Suc b" i j] R_Quest.prems c(3) by simp
    with s(1) show ?thesis by (simp add: Let_def converse_rtranclp_into_rtranclp)
  qed
next
  case (R_Group r g)
  let ?cr = "compile r (Suc b)" let ?m = "Suc (b + length ?cr)"
  have c: "b < length P" "P ! b = inst_of Op_Save (2 * g) 0" "block P (Suc b) ?cr" "?m < length P" "P ! ?m = inst_of Op_Save (2 * g + 1) 0"
    using R_Group.prems(2) by (simp_all add: Let_def)
  have s: "mstep P cs w (b, i) (Suc b, i)" "mstep P cs w (?m, j) (Suc ?m, j)" using c by (simp_all add: mstep_iff eps_def)
  have "(mstep P cs w)\<^sup>*\<^sup>* (Suc b, i) (?m, j)" using R_Group.IH [of "Suc b" i j] R_Group.prems c(3) by simp
  from path_between [OF s(1) this s(2)] show ?case by (simp add: Let_def)
qed (auto simp: mstep_iff eps_def consumes_def cr_test_bytes intro!: r_into_rtranclp)

text \<open>Every path through the code of an expression that leaves it has made a match.\<close>

lemma path_first:
  assumes "(mstep P cs w ^^ n) (b, i) (pc, j)" "b \<noteq> pc"
  obtains m pc' i' where "n = Suc m" "mstep P cs w (b, i) (pc', i')" "(mstep P cs w ^^ m) (pc', i') (pc, j)"
proof (cases n)
  case 0 then show thesis using assms by simp
next
  case (Suc m)
  then show thesis using assms(1) relpowp_Suc_D2 [of m "mstep P cs w" "(b, i)" "(pc, j)"] that by force
qed

definition leaves :: "inst list \<Rightarrow> charreach list \<Rightarrow> byte list \<Rightarrow> nat \<Rightarrow> nat \<Rightarrow> (nat \<times> nat) set \<Rightarrow> bool" where
  "leaves P cs w b e S \<longleftrightarrow>
     (\<forall>n i pc j. (mstep P cs w ^^ n) (b, i) (pc, j) \<longrightarrow> pc \<notin> {b..<e} \<longrightarrow>
        (\<exists>m \<le> n. \<exists>k. (i, k) \<in> S \<and> (mstep P cs w ^^ m) (e, k) (pc, j)))"

lemma leavesD:
  assumes "leaves P cs w b e S" "(mstep P cs w ^^ n) (b, i) (pc, j)" "pc \<notin> {b..<e}"
  obtains m k where "m \<le> n" "(i, k) \<in> S" "(mstep P cs w ^^ m) (e, k) (pc, j)"
  using assms unfolding leaves_def by blast

lemma leaves_leaf:
  assumes "\<And>i pc' i'. mstep P cs w (b, i) (pc', i') \<Longrightarrow> pc' = Suc b \<and> (i, i') \<in> S"
  shows "leaves P cs w b (Suc b) S"
  unfolding leaves_def
proof (intro allI impI)
  fix n i pc j assume n: "(mstep P cs w ^^ n) (b, i) (pc, j)" "pc \<notin> {b..<Suc b}"
  then have "b \<noteq> pc" by auto
  obtain m pc' i' where "n = Suc m" "mstep P cs w (b, i) (pc', i')" "(mstep P cs w ^^ m) (pc', i') (pc, j)"
    using path_first [OF n(1) \<open>b \<noteq> pc\<close>] .
  with assms show "\<exists>m \<le> n. \<exists>k. (i, k) \<in> S \<and> (mstep P cs w ^^ m) (Suc b, k) (pc, j)" by (metis le_SucI order_refl)
qed

lemma leaves_cat:
  assumes "leaves P cs w b m S" "leaves P cs w m e T" "b \<le> m" "m \<le> e"
  shows "leaves P cs w b e (S O T)"
  unfolding leaves_def
proof (intro allI impI)
  fix n i pc j assume n: "(mstep P cs w ^^ n) (b, i) (pc, j)" "pc \<notin> {b..<e}"
  then have "pc \<notin> {b..<m}" "pc \<notin> {m..<e}" using assms by auto
  obtain n' k where k: "n' \<le> n" "(i, k) \<in> S" "(mstep P cs w ^^ n') (m, k) (pc, j)"
    using leavesD [OF assms(1) n(1) \<open>pc \<notin> {b..<m}\<close>] .
  obtain n'' l where "n'' \<le> n'" "(k, l) \<in> T" "(mstep P cs w ^^ n'') (e, l) (pc, j)"
    using leavesD [OF assms(2) k(3) \<open>pc \<notin> {m..<e}\<close>] .
  with k show "\<exists>m \<le> n. \<exists>k. (i, k) \<in> S O T \<and> (mstep P cs w ^^ m) (e, k) (pc, j)" by (meson le_trans relcomp.relcompI)
qed

lemma leaves_alt:
  assumes "b < length P" "P ! b = inst_of Op_Split (Suc b) (Suc m)" "leaves P cs w (Suc b) m S" "Suc b \<le> m"
    and "m < length P" "P ! m = inst_of Op_Jmp e 0" "leaves P cs w (Suc m) e T" "Suc m \<le> e"
  shows "leaves P cs w b e (S \<union> T)"
  unfolding leaves_def
proof (intro allI impI)
  fix n i pc j assume n: "(mstep P cs w ^^ n) (b, i) (pc, j)" "pc \<notin> {b..<e}"
  have out: "b \<noteq> pc" "pc \<notin> {Suc b..<m}" "m \<noteq> pc" "pc \<notin> {Suc m..<e}" using n(2) assms(4,8) by auto
  obtain n1 pc' i' where n1: "n = Suc n1" "mstep P cs w (b, i) (pc', i')" "(mstep P cs w ^^ n1) (pc', i') (pc, j)"
    using path_first [OF n(1) out(1)] .
  then consider "pc' = Suc b" "i' = i" | "pc' = Suc m" "i' = i" using assms(1,2) by (auto simp: mstep_iff eps_def consumes_def)
  then show "\<exists>m \<le> n. \<exists>k. (i, k) \<in> S \<union> T \<and> (mstep P cs w ^^ m) (e, k) (pc, j)"
  proof cases
    case 1
    obtain n2 k where k: "n2 \<le> n1" "(i, k) \<in> S" "(mstep P cs w ^^ n2) (m, k) (pc, j)"
      using leavesD [OF assms(3) n1(3) [unfolded 1] out(2)] .
    obtain n3 pc'' i'' where "n2 = Suc n3" "mstep P cs w (m, k) (pc'', i'')" "(mstep P cs w ^^ n3) (pc'', i'') (pc, j)"
      using path_first [OF k(3) out(3)] .
    moreover from this(2) have "pc'' = e" "i'' = k" using assms(5,6) by (auto simp: mstep_iff eps_def consumes_def)
    ultimately show ?thesis using k n1(1) by (intro exI [of _ n3]) auto
  next
    case 2
    obtain n2 k where "n2 \<le> n1" "(i, k) \<in> T" "(mstep P cs w ^^ n2) (e, k) (pc, j)"
      using leavesD [OF assms(7) n1(3) [unfolded 2] out(4)] .
    then show ?thesis using n1(1) by (intro exI [of _ n2]) auto
  qed
qed

lemma leaves_quest:
  assumes "b < length P" "P ! b = inst_of Op_Split (Suc b) e" "leaves P cs w (Suc b) e S" "Suc b \<le> e"
  shows "leaves P cs w b e (Id \<union> S)"
  unfolding leaves_def
proof (intro allI impI)
  fix n i pc j assume n: "(mstep P cs w ^^ n) (b, i) (pc, j)" "pc \<notin> {b..<e}"
  have out: "b \<noteq> pc" "pc \<notin> {Suc b..<e}" using n(2) assms(4) by auto
  obtain n1 pc' i' where n1: "n = Suc n1" "mstep P cs w (b, i) (pc', i')" "(mstep P cs w ^^ n1) (pc', i') (pc, j)"
    using path_first [OF n(1) out(1)] .
  then consider "pc' = Suc b" "i' = i" | "pc' = e" "i' = i" using assms(1,2) by (auto simp: mstep_iff eps_def consumes_def)
  then show "\<exists>m \<le> n. \<exists>k. (i, k) \<in> Id \<union> S \<and> (mstep P cs w ^^ m) (e, k) (pc, j)"
  proof cases
    case 1
    obtain n2 k where "n2 \<le> n1" "(i, k) \<in> S" "(mstep P cs w ^^ n2) (e, k) (pc, j)"
      using leavesD [OF assms(3) n1(3) [unfolded 1] out(2)] .
    then show ?thesis using n1(1) by (intro exI [of _ n2]) auto
  next
    case 2 then show ?thesis using n1 by (intro exI [of _ n1]) auto
  qed
qed

text \<open>A loop: the tests at its head or at its foot, and the way back.\<close>

lemma leaves_star:
  assumes "b < length P" "P ! b = inst_of Op_Split (Suc b) (Suc m)" "leaves P cs w (Suc b) m S" "Suc b \<le> m"
    and "m < length P" "P ! m = inst_of Op_Jmp b 0"
  shows "leaves P cs w b (Suc m) (S\<^sup>*)"
  unfolding leaves_def
proof (intro allI impI)
  fix n i pc j assume "(mstep P cs w ^^ n) (b, i) (pc, j)" "pc \<notin> {b..<Suc m}"
  then show "\<exists>n' \<le> n. \<exists>k. (i, k) \<in> S\<^sup>* \<and> (mstep P cs w ^^ n') (Suc m, k) (pc, j)"
  proof (induction n arbitrary: i rule: less_induct)
    case (less n)
    have out: "b \<noteq> pc" "pc \<notin> {Suc b..<m}" "m \<noteq> pc" using less.prems(2) assms(4) by auto
    obtain n1 pc' i' where n1: "n = Suc n1" "mstep P cs w (b, i) (pc', i')" "(mstep P cs w ^^ n1) (pc', i') (pc, j)"
      using path_first [OF less.prems(1) out(1)] .
    then consider "pc' = Suc b" "i' = i" | "pc' = Suc m" "i' = i" using assms(1,2) by (auto simp: mstep_iff eps_def consumes_def)
    then show ?case
    proof cases
      case 1
      obtain n2 k where k: "n2 \<le> n1" "(i, k) \<in> S" "(mstep P cs w ^^ n2) (m, k) (pc, j)"
        using leavesD [OF assms(3) n1(3) [unfolded 1] out(2)] .
      obtain n3 pc'' i'' where n3: "n2 = Suc n3" "mstep P cs w (m, k) (pc'', i'')" "(mstep P cs w ^^ n3) (pc'', i'') (pc, j)"
        using path_first [OF k(3) out(3)] .
      have "pc'' = b" "i'' = k" using n3(2) assms(5,6) by (auto simp: mstep_iff eps_def consumes_def)
      then obtain n' l where "n' \<le> n3" "(k, l) \<in> S\<^sup>*" "(mstep P cs w ^^ n') (Suc m, l) (pc, j)"
        using less.IH [of n3 k] less.prems(2) n3 k(1) n1(1) by auto
      then show ?thesis using k n3(1) n1(1) by (intro exI [of _ n']) (auto intro: converse_rtrancl_into_rtrancl)
    next
      case 2 then show ?thesis using n1 by (intro exI [of _ n1]) auto
    qed
  qed
qed

lemma leaves_plus:
  assumes "leaves P cs w b m S" "b \<le> m" "m < length P" "P ! m = inst_of Op_Split b (Suc m)"
  shows "leaves P cs w b (Suc m) (S\<^sup>+)"
  unfolding leaves_def
proof (intro allI impI)
  fix n i pc j assume "(mstep P cs w ^^ n) (b, i) (pc, j)" "pc \<notin> {b..<Suc m}"
  then show "\<exists>n' \<le> n. \<exists>k. (i, k) \<in> S\<^sup>+ \<and> (mstep P cs w ^^ n') (Suc m, k) (pc, j)"
  proof (induction n arbitrary: i rule: less_induct)
    case (less n)
    have out: "pc \<notin> {b..<m}" "m \<noteq> pc" using less.prems(2) assms(2) by auto
    obtain n2 k where k: "n2 \<le> n" "(i, k) \<in> S" "(mstep P cs w ^^ n2) (m, k) (pc, j)"
      using leavesD [OF assms(1) less.prems(1) out(1)] .
    obtain n3 pc'' i'' where n3: "n2 = Suc n3" "mstep P cs w (m, k) (pc'', i'')" "(mstep P cs w ^^ n3) (pc'', i'') (pc, j)"
      using path_first [OF k(3) out(2)] .
    then consider "pc'' = b" "i'' = k" | "pc'' = Suc m" "i'' = k" using assms(3,4) by (auto simp: mstep_iff eps_def consumes_def)
    then show ?case
    proof cases
      case 1
      then obtain n' l where "n' \<le> n3" "(k, l) \<in> S\<^sup>+" "(mstep P cs w ^^ n') (Suc m, l) (pc, j)"
        using less.IH [of n3 k] less.prems(2) n3 k(1) by auto
      then show ?thesis using k n3(1) by (intro exI [of _ n']) (auto intro: trancl_into_trancl2)
    next
      case 2 then show ?thesis using n3 k by (intro exI [of _ n3]) auto
    qed
  qed
qed

lemma compile_sound:
  "plain r \<Longrightarrow> block P b (compile r b) \<Longrightarrow> leaves P cs w b (b + length (compile r b)) (sem w cs r)"
proof (induction r arbitrary: b)
  case R_Empty
  then show ?case by (auto simp: leaves_def)
next
  case (R_Cat r s)
  let ?m = "b + length (compile r b)"
  have "leaves P cs w b ?m (sem w cs r)" "leaves P cs w ?m (?m + length (compile s ?m)) (sem w cs s)"
    using R_Cat by (simp_all add: Let_def)
  then have "leaves P cs w b (?m + length (compile s ?m)) (sem w cs r O sem w cs s)" by (rule leaves_cat) simp_all
  then show ?case by (simp add: Let_def add.assoc)
next
  case (R_Alt r s)
  show ?case using R_Alt.prems R_Alt.IH(1) [of "Suc b"] R_Alt.IH(2) [of "Suc (Suc (b + length (compile r (Suc b))))"]
    leaves_alt [of b P "Suc (b + length (compile r (Suc b)))"] by (simp add: Let_def add.assoc)
next
  case (R_Star r)
  show ?case using R_Star.prems R_Star.IH [of "Suc b"] leaves_star [of b P "Suc (b + length (compile r (Suc b)))"] by (simp add: Let_def)
next
  case (R_Plus r)
  show ?case using R_Plus.prems R_Plus.IH [of b] leaves_plus [of P cs w b "b + length (compile r b)"] by (simp add: Let_def)
next
  case (R_Quest r)
  show ?case using R_Quest.prems R_Quest.IH [of "Suc b"] leaves_quest [of b P "Suc (b + length (compile r (Suc b)))"] by (simp add: Let_def)
next
  case (R_Group r g)
  let ?m = "Suc (b + length (compile r (Suc b)))"
  have c: "b < length P" "P ! b = inst_of Op_Save (2 * g) 0" "?m < length P" "P ! ?m = inst_of Op_Save (2 * g + 1) 0"
    using R_Group.prems(2) by (simp_all add: Let_def)
  have "leaves P cs w b (Suc b) Id" "leaves P cs w ?m (Suc ?m) Id"
    using c by (auto intro!: leaves_leaf simp: mstep_iff eps_def consumes_def)
  moreover have "leaves P cs w (Suc b) ?m (sem w cs r)" using R_Group.prems R_Group.IH [of "Suc b"] by (simp add: Let_def)
  ultimately have "leaves P cs w b (Suc ?m) (Id O sem w cs r O Id)" by (intro leaves_cat) auto
  then show ?case by (simp add: Let_def)
next
  case (R_Char c)
  then show ?case by (auto intro!: leaves_leaf simp: mstep_iff eps_def consumes_def word_unat_eq_iff)
qed (auto intro!: leaves_leaf simp: mstep_iff eps_def consumes_def cr_test_bytes)

subsection \<open>The compiled program\<close>

text \<open>The targets of an instruction are in the program, its class in the table, and it saves a position of a group.\<close>

definition inst_ok :: "nat \<Rightarrow> nat \<Rightarrow> nat \<Rightarrow> nat \<Rightarrow> inst \<Rightarrow> bool" where
  "inst_ok nc ng n pc I =
     (case opc I of
        Op_Match \<Rightarrow> False
      | Op_Jmp \<Rightarrow> 0 < ix I \<and> ix I \<le> n
      | Op_Split \<Rightarrow> 0 < ix I \<and> ix I \<le> n \<and> 0 < iy I \<and> iy I \<le> n
      | Op_Save \<Rightarrow> Suc pc \<le> n \<and> 2 \<le> ix I \<and> ix I < 2 * (ng + 1)
      | Op_Class \<Rightarrow> Suc pc \<le> n \<and> ix I < nc
      | Op_Char \<Rightarrow> Suc pc \<le> n \<and> ix I < 256
      | _ \<Rightarrow> Suc pc \<le> n)"

primrec insts_ok :: "nat \<Rightarrow> nat \<Rightarrow> nat \<Rightarrow> nat \<Rightarrow> inst list \<Rightarrow> bool" where
  "insts_ok nc ng n b [] = True"
| "insts_ok nc ng n b (I # c) = (inst_ok nc ng n b I \<and> insts_ok nc ng n (Suc b) c)"

lemma insts_ok_append [simp]: "insts_ok nc ng n b (c @ d) \<longleftrightarrow> insts_ok nc ng n b c \<and> insts_ok nc ng n (b + length c) d"
  by (induction c arbitrary: b) auto

lemma insts_ok_nth: "insts_ok nc ng n b c \<Longrightarrow> k < length c \<Longrightarrow> inst_ok nc ng n (b + k) (c ! k)"
proof (induction c arbitrary: b k)
  case (Cons I c) then show ?case by (cases k) fastforce+
qed simp

lemma inst_ok_inst_of [simp]:
  "inst_ok nc ng n pc (inst_of Op_Jmp x y) \<longleftrightarrow> 0 < x \<and> x \<le> n"
  "inst_ok nc ng n pc (inst_of Op_Split x y) \<longleftrightarrow> 0 < x \<and> x \<le> n \<and> 0 < y \<and> y \<le> n"
  "inst_ok nc ng n pc (inst_of Op_Save x y) \<longleftrightarrow> Suc pc \<le> n \<and> 2 \<le> x \<and> x < 2 * (ng + 1)"
  "inst_ok nc ng n pc (inst_of Op_Class x y) \<longleftrightarrow> Suc pc \<le> n \<and> x < nc"
  "inst_ok nc ng n pc (inst_of Op_Char x y) \<longleftrightarrow> Suc pc \<le> n \<and> x < 256"
  "inst_ok nc ng n pc (inst_of Op_Any x y) \<longleftrightarrow> Suc pc \<le> n"
  "inst_ok nc ng n pc (inst_of Op_Bol x y) \<longleftrightarrow> Suc pc \<le> n"
  "inst_ok nc ng n pc (inst_of Op_Eol x y) \<longleftrightarrow> Suc pc \<le> n"
  by (simp_all add: inst_ok_def)

lemma compile_insts_ok: "re_wf nc ng r \<Longrightarrow> 0 < b \<Longrightarrow> b + length (compile r b) \<le> n \<Longrightarrow> insts_ok nc ng n b (compile r b)"
  by (induction r arbitrary: b) (auto simp: Let_def unat_byte_less)

lemma re_wf_cat_pow: "re_wf nc ng r \<Longrightarrow> re_wf nc ng s \<Longrightarrow> re_wf nc ng (cat_pow r k s)"
  by (induction k) simp_all

lemma re_wf_desugar: "re_wf nc ng r \<Longrightarrow> re_wf nc ng (desugar r)"
  by (induction r) (simp_all add: re_wf_cat_pow)

definition program_of :: "re \<Rightarrow> inst list" where
  "program_of r = inst_of Op_Save 0 0 # compile r 1 @ [inst_of Op_Save 1 0, inst_of Op_Match 0 0]"

text \<open>A program the compiler can produce.\<close>

definition compiled :: "prog_view \<Rightarrow> re \<Rightarrow> bool" where
  "compiled pv r \<longleftrightarrow> plain r \<and> re_wf (length (pv_cls pv)) (pv_ngroups pv) r \<and> pv_code pv = program_of r \<and> (\<forall>c \<in> set (pv_cls pv). cr_wf c)"

lemma compile_regex_program:
  "compile_regex s mn mc mi =
     (case parse (parser_of s mn mc) of
        Some (root, p) \<Rightarrow>
          if ok p \<and> length (program_of (desugar (tree_of (nodes p) root))) \<le> mi
          then Some \<lparr>pv_code = program_of (desugar (tree_of (nodes p) root)), pv_cls = cls p, pv_ngroups = ngroups p\<rparr>
          else None
      | None \<Rightarrow> None)"
proof -
  obtain root p where p: "parse (parser_of s mn mc) = Some (root, p)" "goes (parser_of s mn mc) [] (root, p)" by (rule parse_returns)
  show ?thesis
  proof (cases "ok p")
    case False then show ?thesis using p by (simp add: compile_regex_def)
  next
    case True
    then have wf: "root < length (nodes p)" "\<And>i. i < length (nodes p) \<Longrightarrow> node_wf (length (cls p)) (ngroups p) i (nodes p ! i)"
      using goes_parser_of [OF p(2)] by (auto simp: sound_def table_wf_def)
    define e0 :: emitter where "e0 = \<lparr>code = [], maxi = mi, e_ok = True\<rparr>"
    let ?r = "desugar (tree_of (nodes p) root)"
    let ?e1 = "snd (emit Op_Save 0 0 e0)" let ?e2 = "emit_node (nodes p) root ?e1" let ?e3 = "snd (emit Op_Save 1 0 ?e2)"
    let ?e4 = "snd (emit Op_Match 0 0 ?e3)"
    have s1: "emits e0 [inst_of Op_Save 0 0] ?e1" by (rule emits_emit(1))
    have s2: "emits ?e1 (compile ?r (length (code ?e1))) ?e2" using emits_emit_node [OF wf(2,1)] emits_fits [OF s1] by blast
    have all: "emits e0 ([inst_of Op_Save 0 0] @ compile ?r (length (code ?e1)) @ [inst_of Op_Save 1 0] @ [inst_of Op_Match 0 0]) ?e4"
      by (rule emits_trans [OF s1 emits_trans [OF s2 emits_trans [OF emits_emit(1) emits_emit(1)]]])
    have len: "length ([inst_of Op_Save 0 0] @ compile ?r (length (code ?e1)) @ [inst_of Op_Save 1 0] @ [inst_of Op_Match 0 0]) = length (program_of ?r)"
      using compile_length [of ?r "length (code ?e1)" 1] by (simp add: program_of_def)
    have "code ?e1 = [inst_of Op_Save 0 0]" if "e_ok ?e1" using emits_ok [OF s1 that] by (simp add: e0_def)
    moreover have "e_ok ?e1" if "e_ok ?e4"
      using that emits_ok [OF s2] emits_ok [OF emits_emit(1) [of ?e2 Op_Save 1 0]] emits_ok [OF emits_emit(1) [of ?e3 Op_Match 0 0]] by blast
    ultimately have "e_ok ?e4 \<longrightarrow> code ?e4 = program_of ?r" using emits_ok [OF all] by (auto simp: program_of_def e0_def)
    moreover have "e_ok ?e4 \<longleftrightarrow> length (program_of ?r) \<le> mi" using emits_ok_iff [OF all] len by (simp add: e0_def)
    ultimately show ?thesis using p True by (simp add: compile_regex_def e0_def [symmetric] Let_def)
  qed
qed

lemma compile_regex_compiled:
  assumes "compile_regex s mn mc mi = Some pv"
  obtains root p where "parse (parser_of s mn mc) = Some (root, p)" "ok p" "pv_cls pv = cls p" "pv_ngroups pv = ngroups p"
    "re_wf (length (cls p)) (ngroups p) (tree_of (nodes p) root)" "compiled pv (desugar (tree_of (nodes p) root))"
proof -
  obtain root p where p: "parse (parser_of s mn mc) = Some (root, p)" "goes (parser_of s mn mc) [] (root, p)" by (rule parse_returns)
  then have ok: "ok p" and pv: "pv = \<lparr>pv_code = program_of (desugar (tree_of (nodes p) root)), pv_cls = cls p, pv_ngroups = ngroups p\<rparr>"
    using assms by (auto simp: compile_regex_program split: if_splits)
  then have "root < length (nodes p)" "\<And>i. i < length (nodes p) \<Longrightarrow> node_wf (length (cls p)) (ngroups p) i (nodes p ! i)"
      "\<forall>c \<in> set (cls p). cr_wf c"
    using goes_parser_of [OF p(2)] by (auto simp: sound_def table_wf_def)
  moreover have wf: "re_wf (length (cls p)) (ngroups p) (tree_of (nodes p) root)" using calculation by (intro re_wf_tree_of) auto
  ultimately show thesis using that [OF p(1) ok] pv by (simp add: compiled_def re_wf_desugar)
qed

lemma program_length: "length (program_of r) = length (compile r 1) + 3"
  by (simp add: program_of_def)

abbreviation last_pc :: "inst list \<Rightarrow> nat" where
  "last_pc P \<equiv> length P - 1"

text \<open>The paths from the first instruction to the last are the matches.\<close>

lemma program_matches:
  assumes "plain r"
  shows "(mstep (program_of r) cs w)\<^sup>*\<^sup>* (0, i) (last_pc (program_of r), j) \<longleftrightarrow> (i, j) \<in> sem w cs r"
proof -
  let ?P = "program_of r" let ?m = "1 + length (compile r 1)"
  have "block ?P 1 (compile r 1)"
    using block_self [of "[inst_of Op_Save 0 0]" "compile r 1" "[inst_of Op_Save 1 0, inst_of Op_Match 0 0]"] by (simp add: program_of_def)
  then have c: "\<And>i j. (i, j) \<in> sem w cs r \<Longrightarrow> (mstep ?P cs w)\<^sup>*\<^sup>* (1, i) (?m, j)" and l: "leaves ?P cs w 1 ?m (sem w cs r)"
    using compile_complete [OF assms] compile_sound [OF assms] by blast+
  have at: "?P ! 0 = inst_of Op_Save 0 0" "?P ! ?m = inst_of Op_Save 1 0" "last_pc ?P = Suc ?m" "?m < length ?P" "0 < length ?P"
    by (simp_all add: program_of_def nth_append)
  have s0: "mstep ?P cs w (0, i) (pc, j) \<longleftrightarrow> pc = 1 \<and> j = i" for i pc j
    using at by (auto simp: mstep_iff eps_def consumes_def)
  have sm: "mstep ?P cs w (?m, i) (pc, j) \<longleftrightarrow> pc = Suc ?m \<and> j = i" for i pc j
    using at(2,4) by (auto simp: mstep_iff eps_def consumes_def)
  have "leaves ?P cs w 0 (Suc 0) Id" "leaves ?P cs w ?m (Suc ?m) Id" using s0 sm by (auto intro!: leaves_leaf)
  then have "leaves ?P cs w 0 (Suc ?m) (Id O sem w cs r O Id)" using l by (intro leaves_cat) auto
  then have lv: "leaves ?P cs w 0 (Suc ?m) (sem w cs r)" by simp
  show ?thesis
  proof
    assume "(mstep ?P cs w)\<^sup>*\<^sup>* (0, i) (last_pc ?P, j)"
    then obtain n where n: "(mstep ?P cs w ^^ n) (0, i) (Suc ?m, j)" unfolding at(3) by (auto dest: rtranclp_imp_relpowp)
    have "Suc ?m \<notin> {0..<Suc ?m}" by simp
    from leavesD [OF lv n this]
    obtain k' k where k: "(i, k) \<in> sem w cs r" "(mstep ?P cs w ^^ k') (Suc ?m, k) (Suc ?m, j)" by blast
    have "\<not> mstep ?P cs w (Suc ?m, k) x" for x
      by (cases x) (simp add: mstep_iff eps_def consumes_def program_of_def nth_append)
    then have "k = j" using k(2) by (cases k') (auto dest: relpowp_Suc_D2 simp del: relpowp.simps(2))
    with k show "(i, j) \<in> sem w cs r" by simp
  next
    assume "(i, j) \<in> sem w cs r"
    from path_between [OF _ c [OF this], of "(0, i)"] s0 sm
    show "(mstep ?P cs w)\<^sup>*\<^sup>* (0, i) (last_pc ?P, j)" unfolding at(3) by auto
  qed
qed

text \<open>Where the instructions of a program stand.\<close>

lemma compiled_inst:
  assumes "compiled pv r" "pc < length (pv_code pv)"
  shows "pc = 0 \<and> pv_code pv ! pc = inst_of Op_Save 0 0 \<or>
    pc = last_pc (pv_code pv) \<and> pv_code pv ! pc = inst_of Op_Match 0 0 \<or>
    pc = last_pc (pv_code pv) - 1 \<and> 0 < pc \<and> pv_code pv ! pc = inst_of Op_Save 1 0 \<or>
    0 < pc \<and> pc < last_pc (pv_code pv) - 1 \<and>
      inst_ok (length (pv_cls pv)) (pv_ngroups pv) (last_pc (pv_code pv) - 1) pc (pv_code pv ! pc)"
proof -
  let ?P = "pv_code pv"
  have P: "?P = program_of r" and wf: "re_wf (length (pv_cls pv)) (pv_ngroups pv) r" using assms(1) by (simp_all add: compiled_def)
  consider "pc = 0" | "0 < pc" "pc < 1 + length (compile r 1)" | "pc = 1 + length (compile r 1)" | "pc = 2 + length (compile r 1)"
    using assms(2) unfolding P program_length by linarith
  then show ?thesis
  proof cases
    case 2
    have "insts_ok (length (pv_cls pv)) (pv_ngroups pv) (1 + length (compile r 1)) 1 (compile r 1)"
      using wf by (rule compile_insts_ok) simp_all
    from insts_ok_nth [OF this, of "pc - 1"] 2 show ?thesis by (auto simp: P program_of_def nth_append nth_Cons')
  qed (simp_all add: P program_of_def nth_append)
qed

lemma compiled_length: "compiled pv r \<Longrightarrow> 3 \<le> length (pv_code pv)"
  by (simp add: compiled_def program_length)

lemma compiled_eps:
  assumes "compiled pv r" "pc < length (pv_code pv)" "y \<in> set (eps n sp (pv_code pv ! pc) pc)"
  shows "0 < y" "y < length (pv_code pv)" "y = last_pc (pv_code pv) \<Longrightarrow> pc = last_pc (pv_code pv) - 1"
  using compiled_inst [OF assms(1,2)] compiled_length [OF assms(1)] assms(3)
  by (auto simp: eps_def inst_ok_def split: op.splits if_splits)

lemma compiled_match:
  assumes "compiled pv r" "pc < length (pv_code pv)"
  shows "opc (pv_code pv ! pc) = Op_Match \<longleftrightarrow> pc = last_pc (pv_code pv)"
  using compiled_inst [OF assms] compiled_length [OF assms(1)] by (auto simp: inst_ok_def)

lemma compiled_consumes:
  assumes "compiled pv r" "pc < length (pv_code pv)" "opc (pv_code pv ! pc) \<in> {Op_Char, Op_Class, Op_Any}"
  shows "Suc pc < last_pc (pv_code pv)"
  using compiled_inst [OF assms(1,2)] compiled_length [OF assms(1)] assms(3) by (auto simp: inst_ok_def)

lemma compiled_save:
  assumes "compiled pv r" "pc < length (pv_code pv)" "opc (pv_code pv ! pc) = Op_Save"
  shows "ix (pv_code pv ! pc) = 0 \<longleftrightarrow> pc = 0" "ix (pv_code pv ! pc) = 1 \<longleftrightarrow> pc = last_pc (pv_code pv) - 1"
    "ix (pv_code pv ! pc) < 2 * (pv_ngroups pv + 1)"
  using compiled_inst [OF assms(1,2)] compiled_length [OF assms(1)] assms(3) by (auto simp: inst_ok_def)

lemma compiled_char:
  assumes "compiled pv r" "pc < length (pv_code pv)" "opc (pv_code pv ! pc) = Op_Char"
  shows "ix (pv_code pv ! pc) < 256"
  using compiled_inst [OF assms(1,2)] assms(3) by (auto simp: inst_ok_def)

lemma compiled_class:
  assumes "compiled pv r" "pc < length (pv_code pv)" "opc (pv_code pv ! pc) = Op_Class"
  shows "ix (pv_code pv ! pc) < length (pv_cls pv)"
  using compiled_inst [OF assms(1,2)] assms(3) by (auto simp: inst_ok_def)

subsection \<open>Results\<close>

text \<open>
  The emitter, which fills a bounded array and patches the targets of its jumps, produces the code of the structural compiler,
  with counted repetition written out; it fails exactly when the pattern is refused or the program does not fit.
\<close>

theorem emitter_refines_compiler:
  "compile_regex s mn mc mi =
     (case parse (parser_of s mn mc) of
        Some (root, p) \<Rightarrow>
          if ok p \<and> length (program_of (desugar (tree_of (nodes p) root))) \<le> mi
          then Some \<lparr>pv_code = program_of (desugar (tree_of (nodes p) root)), pv_cls = cls p, pv_ngroups = ngroups p\<rparr>
          else None
      | None \<Rightarrow> None)"
  by (rule compile_regex_program)

text \<open>
  C10: the compiled program is correct: it can go from its first instruction at an offset of a text to its accepting one at another
  exactly when the expression that was parsed matches between the two.
\<close>

theorem compiled_program_matches:
  assumes "compile_regex s mn mc mi = Some pv"
  shows "\<exists>root p. parse (parser_of s mn mc) = Some (root, p) \<and> ok p \<and>
    (\<forall>w i j. (mstep (pv_code pv) (pv_cls pv) w)\<^sup>*\<^sup>* (0, i) (last_pc (pv_code pv), j) \<longleftrightarrow>
       (i, j) \<in> sem w (cls p) (tree_of (nodes p) root))"
proof -
  from compile_regex_compiled [OF assms]
  obtain root p where p: "parse (parser_of s mn mc) = Some (root, p)" "ok p" "pv_cls pv = cls p"
    "re_wf (length (cls p)) (ngroups p) (tree_of (nodes p) root)" "compiled pv (desugar (tree_of (nodes p) root))" by metis
  then show ?thesis using program_matches [of "desugar (tree_of (nodes p) root)"] sem_desugar [OF p(4)] by (auto simp: compiled_def)
qed

lemma compile_example: "compile_regex (ascii ''a(b|[c-e])*$'') 60 20 120 \<noteq> None"
  by code_simp

theorem compiled_program_matches_witness:
  "\<exists>pv. compile_regex (ascii ''a(b|[c-e])*$'') 60 20 120 = Some pv \<and>
     (\<exists>root p. parse (parser_of (ascii ''a(b|[c-e])*$'') 60 20) = Some (root, p) \<and> ok p \<and>
        (\<forall>w i j. (mstep (pv_code pv) (pv_cls pv) w)\<^sup>*\<^sup>* (0, i) (last_pc (pv_code pv), j) \<longleftrightarrow>
           (i, j) \<in> sem w (cls p) (tree_of (nodes p) root)))"
proof -
  obtain pv where "compile_regex (ascii ''a(b|[c-e])*$'') 60 20 120 = Some pv" using compile_example by auto
  from this compiled_program_matches [OF this] show ?thesis by blast
qed

end
