(* ===== verification/Regex_Pike.thy ===== *)
theory Regex_Pike
  imports Regex_Program
begin

text \<open>
  The Pike machine (\<^verbatim>\<open>src/src/regex/pike.hpp\<close>): all threads of the program advance over the text together, one per
  instruction, in the order of their priority.  Each thread carries the offsets it has saved.  A run is shown to end and to
  report the leftmost match and, among the matches that start there, the longest.
\<close>

subsection \<open>The machine\<close>

type_synonym threads = "(nat \<times> int list) list"

record vm =
  pv :: prog_view
  nslots :: nat
  cap :: nat
  inp :: "byte list"
  anchored :: bool
  start_at :: nat
  a_thr :: threads
  b_thr :: threads
  seen :: "u32 list"
  gen :: u32
  work :: "int list"
  mcaps :: "int list"
  matched :: bool
  mstart :: int
  mend :: int

text \<open>
  \<^verbatim>\<open>addthread\<close> follows the instructions that read nothing, depth first.  The saved offsets are passed by value: the source
  writes a slot, makes the call and restores it.  The first argument bounds the depth of the calls.
\<close>

fun addthread :: "nat \<Rightarrow> vm \<Rightarrow> nat \<Rightarrow> nat \<Rightarrow> int list \<Rightarrow> u32 list \<times> threads \<Rightarrow> (u32 list \<times> threads) option" where
  "addthread 0 m pc sp sav (sn, l) = None"
| "addthread (Suc f) m pc sp sav (sn, l) =
     (if sn ! pc = gen m then Some (sn, l)
      else
        let sn' = sn[pc := gen m]; I = pv_code (pv m) ! pc
        in case opc I of
             Op_Jmp \<Rightarrow> addthread f m (ix I) sp sav (sn', l)
           | Op_Split \<Rightarrow> do { r \<leftarrow> addthread f m (ix I) sp sav (sn', l); addthread f m (iy I) sp sav r }
           | Op_Save \<Rightarrow>
               if ix I < nslots m then addthread f m (pc + 1) sp (sav[ix I := int sp]) (sn', l)
               else addthread f m (pc + 1) sp sav (sn', l)
           | Op_Bol \<Rightarrow> if sp = 0 then addthread f m (pc + 1) sp sav (sn', l) else Some (sn', l)
           | Op_Eol \<Rightarrow> if sp = length (inp m) then addthread f m (pc + 1) sp sav (sn', l) else Some (sn', l)
           | _ \<Rightarrow> Some (sn', if length l < cap m then l @ [(pc, take (nslots m) sav)] else l))"

text \<open>A call from the machine: into the first or the second list.\<close>

definition depth :: "vm \<Rightarrow> nat" where
  "depth m = length (seen m) + 1"

definition add_a :: "nat \<Rightarrow> nat \<Rightarrow> int list \<Rightarrow> vm \<Rightarrow> vm option" where
  "add_a pc sp sav m = do { (sn, l) \<leftarrow> addthread (depth m) m pc sp sav (seen m, a_thr m); Some (m\<lparr>seen := sn, a_thr := l\<rparr>) }"

definition add_b :: "nat \<Rightarrow> nat \<Rightarrow> int list \<Rightarrow> vm \<Rightarrow> vm option" where
  "add_b pc sp sav m = do { (sn, l) \<leftarrow> addthread (depth m) m pc sp sav (seen m, b_thr m); Some (m\<lparr>seen := sn, b_thr := l\<rparr>) }"

text \<open>One thread at one offset; \<open>None\<close> is the end of the text.\<close>

definition thread_step :: "nat \<Rightarrow> byte option \<Rightarrow> nat \<times> int list \<Rightarrow> vm \<Rightarrow> vm option" where
  "thread_step sp c t m =
     (let pc = fst t; sav = snd t; I = pv_code (pv m) ! pc
      in case opc I of
           Op_Char \<Rightarrow>
             (case c of Some b \<Rightarrow> if unat b = ix I then add_b (pc + 1) (sp + 1) sav m else Some m | None \<Rightarrow> Some m)
         | Op_Class \<Rightarrow>
             (case c of Some b \<Rightarrow> if cr_test (pv_cls (pv m) ! ix I) b then add_b (pc + 1) (sp + 1) sav m else Some m | None \<Rightarrow> Some m)
         | Op_Any \<Rightarrow> (case c of Some b \<Rightarrow> add_b (pc + 1) (sp + 1) sav m | None \<Rightarrow> Some m)
         | Op_Match \<Rightarrow>
             let st = sav ! 0; en = int sp
             in Some (if \<not> matched m \<or> st < mstart m \<or> st = mstart m \<and> en > mend m
                      then m\<lparr>mcaps := take (nslots m) sav, mstart := st, mend := en, matched := True\<rparr> else m)
         | _ \<Rightarrow> Some m)"

primrec threads_step :: "nat \<Rightarrow> byte option \<Rightarrow> threads \<Rightarrow> vm \<Rightarrow> vm option" where
  "threads_step sp c [] m = Some m"
| "threads_step sp c (t # ts) m = do { m' \<leftarrow> thread_step sp c t m; threads_step sp c ts m' }"

definition vm_step :: "nat \<Rightarrow> byte option \<Rightarrow> vm \<Rightarrow> vm option" where
  "vm_step sp c m =
     do { m1 \<leftarrow> threads_step sp c (a_thr m) (m\<lparr>gen := gen m + 1, b_thr := []\<rparr>);
          m2 \<leftarrow> (if \<not> matched m1 \<and> \<not> anchored m1 \<and> sp + 1 \<le> length (inp m1) then add_b 0 (sp + 1) (work m1) m1 else Some m1);
          Some (m2\<lparr>a_thr := b_thr m2, b_thr := a_thr m2\<rparr>) }"

text \<open>The loop over the offsets, on the text that is left.\<close>

fun run_loop :: "byte list \<Rightarrow> nat \<Rightarrow> vm \<Rightarrow> vm option" where
  "run_loop [] sp m =
     (if a_thr m = [] \<and> (matched m \<or> anchored m) then Some m else vm_step sp None m)"
| "run_loop (c # cs) sp m =
     (if a_thr m = [] \<and> (matched m \<or> anchored m) then Some m
      else do { m' \<leftarrow> vm_step sp (Some c) m; run_loop cs (sp + 1) m' })"

definition run :: "vm \<Rightarrow> vm option" where
  "run m =
     (let m0 = m\<lparr>work := replicate (nslots m) (- 1), mcaps := replicate (nslots m) (- 1), matched := False,
                  a_thr := [], b_thr := [], gen := gen m + 1\<rparr>
      in do { m1 \<leftarrow> add_a 0 (start_at m) (work m0) m0; run_loop (drop (start_at m) (inp m)) (start_at m) m1 })"

subsection \<open>The closure of a thread\<close>

abbreviation insts :: "vm \<Rightarrow> inst list" where
  "insts m \<equiv> pv_code (pv m)"

definition succs :: "vm \<Rightarrow> nat \<Rightarrow> nat \<Rightarrow> nat list" where
  "succs m sp pc = eps (length (inp m)) sp (insts m ! pc) pc"

definition leaf :: "inst \<Rightarrow> bool" where
  "leaf I \<longleftrightarrow> opc I \<in> {Op_Char, Op_Class, Op_Any, Op_Match}"

definition save :: "vm \<Rightarrow> nat \<Rightarrow> nat \<Rightarrow> int list \<Rightarrow> int list" where
  "save m sp pc sav = (if opc (insts m ! pc) = Op_Save \<and> ix (insts m ! pc) < nslots m then sav[ix (insts m ! pc) := int sp] else sav)"

primrec visit :: "nat \<Rightarrow> vm \<Rightarrow> nat list \<Rightarrow> nat \<Rightarrow> int list \<Rightarrow> u32 list \<times> threads \<Rightarrow> (u32 list \<times> threads) option" where
  "visit f m [] sp sav r = Some r"
| "visit f m (y # ys) sp sav r = do { r' \<leftarrow> addthread f m y sp sav r; visit f m ys sp sav r' }"

text \<open>The cases of \<^const>\<open>addthread\<close>: an instruction seen, one that reads or accepts, one with successors.\<close>

lemma addthread_marked: "sn ! pc = gen m \<Longrightarrow> addthread (Suc f) m pc sp sav (sn, l) = Some (sn, l)"
  by simp

lemma addthread_leaf:
  "sn ! pc \<noteq> gen m \<Longrightarrow> leaf (insts m ! pc) \<Longrightarrow>
   addthread (Suc f) m pc sp sav (sn, l) = Some (sn[pc := gen m], if length l < cap m then l @ [(pc, take (nslots m) sav)] else l)"
  by (auto simp: leaf_def)

lemma addthread_node:
  "sn ! pc \<noteq> gen m \<Longrightarrow> \<not> leaf (insts m ! pc) \<Longrightarrow>
   addthread (Suc f) m pc sp sav (sn, l) = visit f m (succs m sp pc) sp (save m sp pc sav) (sn[pc := gen m], l)"
  by (cases "opc (insts m ! pc)") (simp_all add: leaf_def succs_def eps_def save_def Let_def)

declare addthread.simps(2) [simp del]

lemma leaf_no_succs: "leaf (insts m ! pc) \<Longrightarrow> succs m sp pc = []"
  by (auto simp: leaf_def succs_def eps_def)

definition marked_in :: "vm \<Rightarrow> u32 list \<Rightarrow> nat set" where
  "marked_in m sn = {x. x < length sn \<and> sn ! x = gen m}"

definition reach :: "vm \<Rightarrow> nat \<Rightarrow> nat \<Rightarrow> nat \<Rightarrow> bool" where
  "reach m sp = (\<lambda>x y. y \<in> set (succs m sp x))\<^sup>*\<^sup>*"

text \<open>The marks after the instructions \<open>Y\<close> have been followed.\<close>

definition marks :: "vm \<Rightarrow> nat \<Rightarrow> nat set \<Rightarrow> u32 list \<Rightarrow> u32 list \<Rightarrow> bool" where
  "marks m sp Y sn sn' \<longleftrightarrow>
     length sn' = length sn \<and> (\<forall>x < length sn. sn' ! x = sn ! x \<or> sn' ! x = gen m) \<and>
     marked_in m sn \<subseteq> marked_in m sn' \<and> Y \<subseteq> marked_in m sn' \<and>
     (\<forall>x \<in> marked_in m sn' - marked_in m sn. (\<exists>y \<in> Y. reach m sp y x) \<and> set (succs m sp x) \<subseteq> marked_in m sn')"

text \<open>
  The threads added on the way, for the newly marked instructions \<open>X\<close>: one for each that reads or accepts, with the offset \<open>v\<close> in
  slot 0 and, for the accepting one, the present offset in slot 1.
\<close>

definition thread_for :: "vm \<Rightarrow> nat \<Rightarrow> nat set \<Rightarrow> int \<Rightarrow> int list \<Rightarrow> nat \<times> int list \<Rightarrow> bool" where
  "thread_for m sp Y v sav t \<longleftrightarrow> length (snd t) = nslots m \<and> snd t ! 0 = v \<and>
     (fst t = last_pc (insts m) \<longrightarrow> snd t ! 1 = int sp \<or> last_pc (insts m) \<in> Y \<and> snd t = sav)"

definition threads_for :: "vm \<Rightarrow> nat \<Rightarrow> nat set \<Rightarrow> int \<Rightarrow> int list \<Rightarrow> nat set \<Rightarrow> threads \<Rightarrow> bool" where
  "threads_for m sp Y v sav X new \<longleftrightarrow> distinct (map fst new) \<and> fst ` set new = {x \<in> X. leaf (insts m ! x)} \<and>
     (\<forall>t \<in> set new. thread_for m sp Y v sav t)"

definition closes :: "vm \<Rightarrow> nat \<Rightarrow> nat set \<Rightarrow> int \<Rightarrow> int list \<Rightarrow> u32 list \<times> threads \<Rightarrow> u32 list \<times> threads \<Rightarrow> bool" where
  "closes m sp Y v sav r r' \<longleftrightarrow> marks m sp Y (fst r) (fst r') \<and>
     (\<exists>new. snd r' = snd r @ new \<and> threads_for m sp Y v sav (marked_in m (fst r') - marked_in m (fst r)) new)"

lemma closes_nil: "closes m sp {} v sav r r"
  by (simp add: closes_def marks_def threads_for_def)

lemma marks_trans: 
  assumes "marks m sp Y s0 s1" "marks m sp Z s1 s2"
  shows "marks m sp (Y \<union> Z) s0 s2"
proof -
  have M: "marked_in m s0 \<subseteq> marked_in m s1" "marked_in m s1 \<subseteq> marked_in m s2" using assms by (auto simp: marks_def)
  have "length s2 = length s0" "\<forall>x < length s0. s2 ! x = s0 ! x \<or> s2 ! x = gen m"
    using assms unfolding marks_def by metis+
  moreover have "(\<exists>y \<in> Y \<union> Z. reach m sp y x) \<and> set (succs m sp x) \<subseteq> marked_in m s2" if "x \<in> marked_in m s2 - marked_in m s0" for x
  proof (cases "x \<in> marked_in m s1")
    case True then show ?thesis using assms(1) M that unfolding marks_def by blast
  next
    case False then show ?thesis using assms(2) that unfolding marks_def by blast
  qed
  moreover have "Y \<union> Z \<subseteq> marked_in m s2" using assms M unfolding marks_def by blast
  ultimately show ?thesis using M unfolding marks_def by blast
qed

lemma thread_for_mono: "thread_for m sp Y v sav t \<Longrightarrow> Y \<subseteq> Z \<Longrightarrow> thread_for m sp Z v sav t"
  by (auto simp: thread_for_def)

lemma closes_append:
  assumes "closes m sp Y v sav r r1" "closes m sp Z v sav r1 r2"
  shows "closes m sp (Y \<union> Z) v sav r r2"
proof -
  let ?M = "\<lambda>r :: u32 list \<times> threads. marked_in m (fst r)"
  obtain n1 where n1: "snd r1 = snd r @ n1" "threads_for m sp Y v sav (?M r1 - ?M r) n1" using assms(1) unfolding closes_def by blast
  obtain n2 where n2: "snd r2 = snd r1 @ n2" "threads_for m sp Z v sav (?M r2 - ?M r1) n2" using assms(2) unfolding closes_def by blast
  have M: "?M r \<subseteq> ?M r1" "?M r1 \<subseteq> ?M r2" using assms by (auto simp: closes_def marks_def)
  have d: "distinct (map fst n1)" "distinct (map fst n2)" using n1(2) n2(2) by (auto simp: threads_for_def)
  have i: "fst ` set n1 = {x \<in> ?M r1 - ?M r. leaf (insts m ! x)}" "fst ` set n2 = {x \<in> ?M r2 - ?M r1. leaf (insts m ! x)}"
    using n1(2) n2(2) unfolding threads_for_def by blast+
  have "set (map fst n1) \<inter> set (map fst n2) = {}" unfolding set_map i by blast
  with d have "distinct (map fst (n1 @ n2))" by simp
  moreover have "fst ` set (n1 @ n2) = {x \<in> ?M r2 - ?M r. leaf (insts m ! x)}" unfolding set_append image_Un i using M by blast
  moreover have "thread_for m sp (Y \<union> Z) v sav t" if "t \<in> set (n1 @ n2)" for t
    using that n1(2) n2(2) thread_for_mono [of m sp _ v sav t "Y \<union> Z"] unfolding threads_for_def by auto
  ultimately have "threads_for m sp (Y \<union> Z) v sav (?M r2 - ?M r) (n1 @ n2)" unfolding threads_for_def by blast
  moreover have "marks m sp (Y \<union> Z) (fst r) (fst r2)" using assms marks_trans unfolding closes_def by blast
  ultimately show ?thesis using n1(1) n2(1) unfolding closes_def by auto
qed

lemma marked_in_update: "pc < length sn \<Longrightarrow> marked_in m (sn[pc := gen m]) = insert pc (marked_in m sn)"
  by (auto simp: marked_in_def nth_list_update)

lemma marks_node:
  assumes "pc < length sn" "sn ! pc \<noteq> gen m" "marks m sp (set (succs m sp pc)) (sn[pc := gen m]) sn'"
  shows "marks m sp {pc} sn sn'"
proof -
  let ?M' = "marked_in m sn'" and ?S = "set (succs m sp pc)"
  have h: "length sn' = length sn" "insert pc (marked_in m sn) \<subseteq> ?M'" "?S \<subseteq> ?M'"
      "\<forall>x \<in> ?M' - insert pc (marked_in m sn). (\<exists>y \<in> ?S. reach m sp y x) \<and> set (succs m sp x) \<subseteq> ?M'"
    using assms(3) unfolding marks_def marked_in_update [OF assms(1)] by auto
  have "sn' ! x = sn ! x \<or> sn' ! x = gen m" if "x < length sn" for x
    using assms(3) that unfolding marks_def by (metis length_list_update nth_list_update_eq nth_list_update_neq)
  moreover have "reach m sp pc x" if "y \<in> ?S" "reach m sp y x" for x y
    using that unfolding reach_def by (meson converse_rtranclp_into_rtranclp)
  then have "reach m sp pc x \<and> set (succs m sp x) \<subseteq> ?M'" if "x \<in> ?M' - marked_in m sn" for x
  proof (cases "x = pc")
    case True then show ?thesis using h(3) by (simp add: reach_def)
  next
    case False then show ?thesis using that h(4) \<open>\<And>y x. y \<in> ?S \<Longrightarrow> reach m sp y x \<Longrightarrow> reach m sp pc x\<close> by blast
  qed
  ultimately show ?thesis using h(1,2) unfolding marks_def by blast
qed

lemma closes_node:
  assumes "pc < length sn" "sn ! pc \<noteq> gen m" "\<not> leaf (insts m ! pc)"
    and "closes m sp (set (succs m sp pc)) v sav' (sn[pc := gen m], l) r'"
    and "last_pc (insts m) \<in> set (succs m sp pc) \<Longrightarrow> sav' ! 1 = int sp" "pc \<noteq> last_pc (insts m)"
  shows "closes m sp {pc} v sav (sn, l) r'"
proof -
  let ?M' = "marked_in m (fst r')"
  obtain new where n: "snd r' = l @ new" "threads_for m sp (set (succs m sp pc)) v sav' (?M' - insert pc (marked_in m sn)) new"
    using assms(4) unfolding closes_def marked_in_update [OF assms(1)] fst_conv snd_conv by blast
  have "marks m sp {pc} sn (fst r')" using assms(4) marks_node [OF assms(1,2)] unfolding closes_def by simp
  moreover have "{x \<in> ?M' - insert pc (marked_in m sn). leaf (insts m ! x)} = {x \<in> ?M' - marked_in m sn. leaf (insts m ! x)}"
    using assms(3) by blast
  then have "threads_for m sp {pc} v sav (?M' - marked_in m sn) new"
    using n(2) assms(5,6) unfolding threads_for_def thread_for_def by auto
  ultimately show ?thesis using n(1) unfolding closes_def by auto
qed

lemma closes_leaf:
  assumes "pc < length sn" "sn ! pc \<noteq> gen m" "leaf (insts m ! pc)" "length sav = nslots m" "sav ! 0 = v"
  shows "closes m sp {pc} v sav (sn, l) (sn[pc := gen m], l @ [(pc, take (nslots m) sav)])"
proof -
  have "marks m sp {pc} sn (sn[pc := gen m])"
    using leaf_no_succs [OF assms(3), of sp] assms(1) by (intro marks_node [OF assms(1,2)]) (simp add: marks_def)
  moreover have "insert pc (marked_in m sn) - marked_in m sn = {pc}" using assms(2) by (auto simp: marked_in_def)
  then have "threads_for m sp {pc} v sav (marked_in m (sn[pc := gen m]) - marked_in m sn) [(pc, take (nslots m) sav)]"
    using assms(3-5) by (auto simp: threads_for_def thread_for_def marked_in_update [OF assms(1)])
  ultimately show ?thesis unfolding closes_def by auto
qed

lemma closes_marked: "pc < length sn \<Longrightarrow> sn ! pc = gen m \<Longrightarrow> closes m sp {pc} v sav (sn, l) (sn, l)"
  by (auto simp: closes_def marks_def threads_for_def marked_in_def)

text \<open>
  The machine runs a compiled program: the offsets of the match are among its slots, a list has room for every instruction and the
  stamps of the instructions are not ahead of the present one.
\<close>

definition vm_ok :: "vm \<Rightarrow> bool" where
  "vm_ok m \<longleftrightarrow> (\<exists>r. compiled (pv m) r) \<and> nslots m = 2 * (pv_ngroups (pv m) + 1) \<and> cap m = length (insts m) \<and>
     length (seen m) = length (insts m)"

definition unmarked :: "vm \<Rightarrow> u32 list \<Rightarrow> nat" where
  "unmarked m sn = card ({..<length sn} - marked_in m sn)"

lemma marked_in_bound: "marked_in m sn \<subseteq> {..<length sn}"
  by (auto simp: marked_in_def)

lemma finite_marked_in [simp]: "finite (marked_in m sn)"
  using marked_in_bound finite_subset by blast

lemma unmarked_mono: "marked_in m sn \<subseteq> marked_in m sn' \<Longrightarrow> length sn' = length sn \<Longrightarrow> unmarked m sn' \<le> unmarked m sn"
  unfolding unmarked_def by (intro card_mono) auto

lemma unmarked_update:
  assumes "pc < length sn" "sn ! pc \<noteq> gen m"
  shows "unmarked m (sn[pc := gen m]) < unmarked m sn"
proof -
  have "{..<length sn} - insert pc (marked_in m sn) \<subset> {..<length sn} - marked_in m sn" using assms by (auto simp: marked_in_def)
  then show ?thesis unfolding unmarked_def marked_in_update [OF assms(1)] by (simp add: psubset_card_mono)
qed

text \<open>A list never has more threads than there are marks.\<close>

lemma closes_room:
  assumes "closes m sp Y v sav r r'" "length (snd r) \<le> card (marked_in m (fst r))"
  shows "length (snd r') \<le> card (marked_in m (fst r'))"
proof -
  let ?M = "marked_in m (fst r)" and ?M' = "marked_in m (fst r')"
  obtain new where n: "snd r' = snd r @ new" "threads_for m sp Y v sav (?M' - ?M) new" and M: "?M \<subseteq> ?M'"
    using assms(1) by (auto simp: closes_def marks_def)
  have "length new = card (fst ` set new)" using n(2) unfolding threads_for_def by (metis distinct_card length_map list.set_map)
  also have "\<dots> \<le> card (?M' - ?M)" using n(2) unfolding threads_for_def by (auto intro!: card_mono)
  also have "\<dots> = card ?M' - card ?M" using M by (simp add: card_Diff_subset)
  finally show ?thesis using n(1) assms(2) card_mono [OF _ M] by simp
qed

lemma save_slots:
  assumes "vm_ok m" "pc < length (insts m)" "length sav = nslots m"
  shows "save m sp pc sav ! 0 = (if pc = 0 then int sp else sav ! 0)"
    "last_pc (insts m) \<in> set (succs m sp pc) \<Longrightarrow> save m sp pc sav ! 1 = int sp"
proof -
  obtain r where r: "compiled (pv m) r" and n: "nslots m = 2 * (pv_ngroups (pv m) + 1)" using assms by (auto simp: vm_ok_def)
  note c = compiled_inst [OF r assms(2)] compiled_length [OF r]
  show "save m sp pc sav ! 0 = (if pc = 0 then int sp else sav ! 0)"
  proof (cases "opc (insts m ! pc) = Op_Save")
    case True
    then show ?thesis using compiled_save [OF r assms(2)] assms(3) n by (auto simp: save_def nth_list_update)
  next
    case False then show ?thesis using c by (auto simp: save_def)
  qed
  assume "last_pc (insts m) \<in> set (succs m sp pc)"
  then have pc: "pc = last_pc (insts m) - 1" using compiled_eps(3) [OF r assms(2)] by (auto simp: succs_def)
  then have "insts m ! pc = inst_of Op_Save 1 0" using c by auto
  then show "save m sp pc sav ! 1 = int sp" using assms(3) n by (simp add: save_def)
qed

lemma addthread_closes:
  assumes "vm_ok m"
  shows "unmarked m sn < f \<Longrightarrow> pc < length sn \<Longrightarrow> length sn = length (insts m) \<Longrightarrow> length sav = nslots m \<Longrightarrow>
    length l \<le> card (marked_in m sn) \<Longrightarrow>
    \<exists>r'. addthread f m pc sp sav (sn, l) = Some r' \<and> closes m sp {pc} (if pc = 0 then int sp else sav ! 0) sav (sn, l) r'"
proof (induction f arbitrary: pc sn l sav)
  case (Suc f)
  obtain r where r: "compiled (pv m) r" using assms by (auto simp: vm_ok_def)
  have slots: "2 \<le> nslots m" using assms by (simp add: vm_ok_def)
  have lp: "pc < length (insts m)" using Suc.prems by simp
  show ?case
  proof (cases "sn ! pc = gen m")
    case True then show ?thesis using closes_marked addthread_marked Suc.prems(2) by blast
  next
    case unm: False
    have up: "unmarked m (sn[pc := gen m]) < f" using unmarked_update [OF Suc.prems(2) unm] Suc.prems(1) by simp
    show ?thesis
    proof (cases "leaf (insts m ! pc)")
      case True
      have "pc \<noteq> 0" using True compiled_inst [OF r lp] compiled_length [OF r] by (auto simp: leaf_def)
      have "card (marked_in m sn) < length sn"
        using unm Suc.prems(2) psubset_card_mono [of "{..<length sn}" "marked_in m sn"] by (auto simp: marked_in_def)
      then have "length l < cap m" using Suc.prems(3,5) assms by (simp add: vm_ok_def)
      then show ?thesis using closes_leaf [OF Suc.prems(2) unm True Suc.prems(4) refl] addthread_leaf [OF unm True] \<open>pc \<noteq> 0\<close> by auto
    next
      case False
      let ?s = "save m sp pc sav" and ?v = "if pc = 0 then int sp else sav ! 0"
      have len: "length ?s = nslots m" using Suc.prems(4) by (simp add: save_def)
      have v: "?s ! 0 = ?v" using save_slots(1) [OF assms lp Suc.prems(4)] .
      have "set ys \<subseteq> {0<..<length sn} \<Longrightarrow> unmarked m (fst q) < f \<Longrightarrow> length (fst q) = length sn \<Longrightarrow> length (snd q) \<le> card (marked_in m (fst q)) \<Longrightarrow>
          \<exists>r'. visit f m ys sp ?s q = Some r' \<and> closes m sp (set ys) ?v ?s q r'" for ys q
      proof (induction ys arbitrary: q)
        case Nil then show ?case by (simp add: closes_nil)
      next
        case (Cons y ys)
        have "\<exists>q1. addthread f m y sp ?s q = Some q1 \<and> closes m sp {y} ?v ?s q q1"
          using Suc.IH [of "fst q" y ?s "snd q"] Cons.prems Suc.prems(3) len v by auto
        then obtain q1 where q1: "addthread f m y sp ?s q = Some q1" "closes m sp {y} ?v ?s q q1" by blast
        have "unmarked m (fst q1) < f" using q1(2) unmarked_mono [of m "fst q" "fst q1"] Cons.prems(2) by (auto simp: closes_def marks_def)
        moreover have "length (fst q1) = length sn" using q1(2) Cons.prems(3) by (simp add: closes_def marks_def)
        ultimately obtain q2 where q2: "visit f m ys sp ?s q1 = Some q2" "closes m sp (set ys) ?v ?s q1 q2"
          using Cons.IH [of q1] Cons.prems(1) closes_room [OF q1(2) Cons.prems(4)] by auto
        show ?case using q1 q2 closes_append [OF q1(2) q2(2)] by simp
      qed
      moreover have "set (succs m sp pc) \<subseteq> {0<..<length sn}"
        using compiled_eps [OF r lp] Suc.prems(3) unfolding succs_def by fastforce
      moreover have "length l \<le> card (marked_in m (sn[pc := gen m]))"
        using Suc.prems(5) by (simp add: marked_in_update [OF Suc.prems(2)] card_insert_if)
      ultimately obtain r' where r': "visit f m (succs m sp pc) sp ?s (sn[pc := gen m], l) = Some r'"
          "closes m sp (set (succs m sp pc)) ?v ?s (sn[pc := gen m], l) r'"
        using up by (metis fst_conv length_list_update snd_conv)
      note save_slots(2) [OF assms lp Suc.prems(4)]
      moreover have "pc \<noteq> last_pc (insts m)" using False compiled_match [OF r lp] by (auto simp: leaf_def)
      ultimately show ?thesis using r'(1) closes_node [OF Suc.prems(2) unm False r'(2)] addthread_node [OF unm False] by auto
    qed
  qed
qed simp

subsection \<open>Lists of threads\<close>

abbreviation steps :: "vm \<Rightarrow> nat \<times> nat \<Rightarrow> nat \<times> nat \<Rightarrow> bool" where
  "steps m \<equiv> (mstep (insts m) (pv_cls (pv m)) (inp m))\<^sup>*\<^sup>*"

definition allowed :: "vm \<Rightarrow> nat \<Rightarrow> bool" where
  "allowed m i \<longleftrightarrow> start_at m \<le> i \<and> i \<le> length (inp m) \<and> (anchored m \<longrightarrow> i = start_at m)"

abbreviation start :: "nat \<times> int list \<Rightarrow> int" where
  "start t \<equiv> snd t ! 0"

text \<open>A thread at an offset: it stands at an instruction that reads or accepts, reached from the start in slot 0.\<close>

definition good :: "vm \<Rightarrow> nat \<Rightarrow> nat \<times> int list \<Rightarrow> bool" where
  "good m sp t \<longleftrightarrow> fst t < length (insts m) \<and> leaf (insts m ! fst t) \<and> length (snd t) = nslots m \<and>
     (fst t = last_pc (insts m) \<longrightarrow> snd t ! 1 = int sp) \<and>
     (\<exists>i. start t = int i \<and> allowed m i \<and> i \<le> sp \<and> steps m (0, i) (fst t, sp))"

text \<open>
  A list under construction: one thread for every marked instruction that reads or accepts, in the order of their starts.  The pairs in \<open>D\<close>
  are the instructions followed so far with their starts: what they reach has a thread that starts no later.
\<close>

definition building :: "vm \<Rightarrow> nat \<Rightarrow> (nat \<times> int) set \<Rightarrow> u32 list \<times> threads \<Rightarrow> bool" where
  "building m sp D r \<longleftrightarrow> length (fst r) = length (insts m) \<and> distinct (map fst (snd r)) \<and>
     fst ` set (snd r) = {x \<in> marked_in m (fst r). leaf (insts m ! x)} \<and>
     (\<forall>x \<in> marked_in m (fst r). set (succs m sp x) \<subseteq> marked_in m (fst r)) \<and>
     sorted (map start (snd r)) \<and> (\<forall>t \<in> set (snd r). good m sp t) \<and>
     (\<forall>(y, v) \<in> D. \<forall>x. reach m sp y x \<longrightarrow> leaf (insts m ! x) \<longrightarrow> (\<exists>t \<in> set (snd r). fst t = x \<and> start t \<le> v))"

lemma building_empty: "length sn = length (insts m) \<Longrightarrow> marked_in m sn = {} \<Longrightarrow> building m sp {} (sn, [])"
  by (simp add: building_def)

lemma reach_closed:
  assumes "reach m sp y x" "y \<in> M" "\<And>x. x \<in> M \<Longrightarrow> set (succs m sp x) \<subseteq> M"
  shows "x \<in> M"
  using assms(1,2) unfolding reach_def by (induction rule: rtranclp_induct) (use assms(3) in blast)+

lemma reach_steps:
  assumes "compiled (pv m) r" "reach m sp y x" "y < length (insts m)"
  shows "x < length (insts m) \<and> steps m (y, sp) (x, sp)"
  using assms(2,3) unfolding reach_def
proof (induction rule: rtranclp_induct)
  case (step x z)
  then have "mstep (insts m) (pv_cls (pv m)) (inp m) (x, sp) (z, sp)" by (auto simp: succs_def intro: mstep.silent)
  then show ?case using step compiled_eps(2) [OF assms(1)] by (auto simp: succs_def intro: rtranclp.rtrancl_into_rtrancl)
qed simp

lemma building_step:
  assumes "vm_ok m" "building m sp D (sn, l)" "pc < length (insts m)" "length sav = nslots m" "depth m = length (insts m) + 1"
    and v: "v = (if pc = 0 then int sp else sav ! 0)" and late: "\<forall>t \<in> set l. start t \<le> v"
    and i: "v = int i" "allowed m i" "i \<le> sp" "steps m (0, i) (pc, sp)" and pc: "pc \<noteq> last_pc (insts m)"
  obtains sn' l' where "addthread (depth m) m pc sp sav (sn, l) = Some (sn', l')" "building m sp (insert (pc, v) D) (sn', l')"
    "\<forall>t \<in> set l'. start t \<le> v" "\<forall>x < length sn. sn' ! x = sn ! x \<or> sn' ! x = gen m"
proof -
  obtain r where r: "compiled (pv m) r" using assms(1) by (auto simp: vm_ok_def)
  have len: "length sn = length (insts m)" using assms(2) by (simp add: building_def)
  have b: "distinct (map fst l)" "fst ` set l = {x \<in> marked_in m sn. leaf (insts m ! x)}"
    "\<forall>x \<in> marked_in m sn. set (succs m sp x) \<subseteq> marked_in m sn" "sorted (map start l)" "\<forall>t \<in> set l. good m sp t"
    "\<forall>(y, v) \<in> D. \<forall>x. reach m sp y x \<longrightarrow> leaf (insts m ! x) \<longrightarrow> (\<exists>t \<in> set l. fst t = x \<and> start t \<le> v)"
    using assms(2) unfolding building_def fst_conv snd_conv by blast+
  have "unmarked m sn \<le> length (insts m)" 
    using card_mono [of "{..<length sn}" "{..<length sn} - marked_in m sn"] unfolding unmarked_def len [symmetric] by simp
  then have "unmarked m sn < depth m" using assms(5) by simp
  moreover have "length l \<le> card (marked_in m sn)"
    using b(1,2) card_mono [of "marked_in m sn" "{x \<in> marked_in m sn. leaf (insts m ! x)}"] distinct_card [OF b(1)] by auto
  ultimately obtain sn' l' where a: "addthread (depth m) m pc sp sav (sn, l) = Some (sn', l')" "closes m sp {pc} v sav (sn, l) (sn', l')"
    using addthread_closes [OF assms(1), of sn "depth m" pc sav l sp] assms(3,4) len v by auto
  let ?M = "marked_in m sn" and ?M' = "marked_in m sn'"
  obtain new where new: "l' = l @ new" "threads_for m sp {pc} v sav (?M' - ?M) new"
    using a(2) unfolding closes_def by auto
  have mk: "length sn' = length sn" "\<forall>x < length sn. sn' ! x = sn ! x \<or> sn' ! x = gen m" "?M \<subseteq> ?M'" "pc \<in> ?M'"
      "\<forall>x \<in> ?M' - ?M. reach m sp pc x \<and> set (succs m sp x) \<subseteq> ?M'"
    using a(2) unfolding closes_def marks_def by auto
  have nw: "distinct (map fst new)" "fst ` set new = {x \<in> ?M' - ?M. leaf (insts m ! x)}" "\<forall>t \<in> set new. thread_for m sp {pc} v sav t"
    using new(2) unfolding threads_for_def by blast+
  have closed: "\<forall>x \<in> ?M'. set (succs m sp x) \<subseteq> ?M'" using b(3) mk(3,5) by blast
  have good: "good m sp t" if "t \<in> set new" for t
  proof -
    have "fst t \<in> ?M' - ?M" and lf: "leaf (insts m ! fst t)" using nw(2) that by blast+
    then have "fst t < length (insts m) \<and> steps m (pc, sp) (fst t, sp)" using mk(5) reach_steps [OF r _ assms(3)] by blast
    then show ?thesis using nw(3) that i pc lf unfolding good_def thread_for_def by (auto intro: rtranclp_trans)
  qed
  have st: "start t = v" if "t \<in> set new" for t using nw(3) that by (simp add: thread_for_def)
  have "building m sp (insert (pc, v) D) (sn', l')"
    unfolding building_def fst_conv snd_conv
  proof (intro conjI)
    show "distinct (map fst l')" using b(1,2) nw(1,2) unfolding new(1) by auto
    show "fst ` set l' = {x \<in> ?M'. leaf (insts m ! x)}" unfolding new(1) set_append image_Un b(2) nw(2) using mk(3) by blast
    have "map start new = map (\<lambda>_. v) new" using st by (simp add: map_eq_conv)
    then show "sorted (map start l')" using b(4) late unfolding new(1) map_append by (auto simp: sorted_append map_replicate_const)
    show "\<forall>t \<in> set l'. good m sp t" using b(5) good unfolding new(1) by auto
    show "\<forall>(y, v) \<in> insert (pc, v) D. \<forall>x. reach m sp y x \<longrightarrow> leaf (insts m ! x) \<longrightarrow> (\<exists>t \<in> set l'. fst t = x \<and> start t \<le> v)"
    proof (intro ballI, clarify)
      fix y u x assume yu: "(y, u) \<in> insert (pc, v) D" and x: "reach m sp y x" "leaf (insts m ! x)"
      show "\<exists>t \<in> set l'. fst t = x \<and> start t \<le> u"
      proof (cases "(y, u) = (pc, v)")
        case True
        then have "x \<in> ?M'" using reach_closed [OF x(1)] mk(4) closed by blast
        then have "x \<in> fst ` set l'" using x(2) b(2) nw(2) unfolding new(1) set_append image_Un by blast
        then show ?thesis using True late st unfolding new(1) by auto
      next
        case False then show ?thesis using yu b(6) x unfolding new(1) by fastforce
      qed
    qed
  qed (use mk(1) len closed in auto)
  moreover have "\<forall>t \<in> set l'. start t \<le> v" using late st unfolding new(1) by auto
  ultimately show thesis using that a(1) mk(2) by blast
qed

subsection \<open>One offset\<close>

definition upd_match :: "nat \<Rightarrow> int list \<Rightarrow> vm \<Rightarrow> vm" where
  "upd_match sp sav m =
     (if \<not> matched m \<or> sav ! 0 < mstart m \<or> sav ! 0 = mstart m \<and> int sp > mend m
      then m\<lparr>mcaps := take (nslots m) sav, mstart := sav ! 0, mend := int sp, matched := True\<rparr> else m)"

definition reads_byte :: "vm \<Rightarrow> byte option \<Rightarrow> nat \<Rightarrow> bool" where
  "reads_byte m c pc \<longleftrightarrow> (case c of None \<Rightarrow> False | Some b \<Rightarrow> consumes (pv_cls (pv m)) (insts m ! pc) b)"

lemma thread_step_eq:
  "leaf (insts m ! pc) \<Longrightarrow> thread_step sp c (pc, sav) m =
     (if opc (insts m ! pc) = Op_Match then Some (upd_match sp sav m)
      else if reads_byte m c pc then add_b (pc + 1) (sp + 1) sav m else Some m)"
  by (auto simp: leaf_def thread_step_def upd_match_def reads_byte_def consumes_def Let_def split: option.splits)

text \<open>The parts of the machine that a step leaves alone.\<close>

definition same :: "vm \<Rightarrow> vm \<Rightarrow> bool" where
  "same m m' \<longleftrightarrow> pv m' = pv m \<and> nslots m' = nslots m \<and> cap m' = cap m \<and> inp m' = inp m \<and> anchored m' = anchored m \<and>
     start_at m' = start_at m \<and> work m' = work m \<and> gen m' = gen m \<and> a_thr m' = a_thr m \<and> length (seen m') = length (seen m)"

definition same_match :: "vm \<Rightarrow> vm \<Rightarrow> bool" where
  "same_match m m' \<longleftrightarrow> mcaps m' = mcaps m \<and> matched m' = matched m \<and> mstart m' = mstart m \<and> mend m' = mend m"

lemma same_refl [simp]: "same m m" "same_match m m"
  by (simp_all add: same_def same_match_def)

lemma same_trans: "same m m' \<Longrightarrow> same m' m'' \<Longrightarrow> same m m''"
  by (simp add: same_def)

lemma same_upd [simp]: "same m (upd_match sp sav m)" "seen (upd_match sp sav m) = seen m" "b_thr (upd_match sp sav m) = b_thr m"
  by (simp_all add: same_def upd_match_def)

lemma upd_same: "same_match m m' \<Longrightarrow> same m m' \<Longrightarrow> same_match (upd_match sp sav m) (upd_match sp sav m')"
  by (simp add: same_match_def upd_match_def same_def)

lemma same_notions:
  assumes "same m m'"
  shows "vm_ok m' = vm_ok m" "good m' = good m" "building m' = building m" "allowed m' = allowed m" "marked_in m' = marked_in m"
    "reads_byte m' = reads_byte m" "depth m' = depth m" "reach m' = reach m"
proof -
  have e: "succs m' = succs m" "allowed m' = allowed m" "marked_in m' = marked_in m"
    using assms by (auto simp: fun_eq_iff same_def succs_def allowed_def marked_in_def)
  then have "reach m' = reach m" "good m' = good m" using assms by (auto simp: fun_eq_iff same_def reach_def good_def)
  then show "vm_ok m' = vm_ok m" "good m' = good m" "building m' = building m" "allowed m' = allowed m" "marked_in m' = marked_in m"
    "reads_byte m' = reads_byte m" "depth m' = depth m" "reach m' = reach m"
    using e assms by (auto simp: fun_eq_iff same_def vm_ok_def building_def reads_byte_def depth_def split: option.splits)
qed

definition b_state :: "vm \<Rightarrow> u32 list \<times> threads" where
  "b_state m = (seen m, b_thr m)"

text \<open>Stamps do not run ahead.\<close>

definition stamped :: "vm \<Rightarrow> bool" where
  "stamped m \<longleftrightarrow> (\<forall>x < length (seen m). unat (seen m ! x) \<le> unat (gen m))"

lemma add_b_builds:
  assumes "vm_ok m" "building m sp D (b_state m)" "pc < length (insts m)" "length sav = nslots m" "stamped m"
    and "v = (if pc = 0 then int sp else sav ! 0)" "\<forall>t \<in> set (b_thr m). start t \<le> v"
    and "v = int i" "allowed m i" "i \<le> sp" "steps m (0, i) (pc, sp)" "pc \<noteq> last_pc (insts m)"
  obtains m' where "add_b pc sp sav m = Some m'" "same m m'" "same_match m m'" "building m sp (insert (pc, v) D) (b_state m')"
    "\<forall>t \<in> set (b_thr m'). start t \<le> v" "stamped m'"
proof -
  have d: "depth m = length (insts m) + 1" using assms(1) by (simp add: depth_def vm_ok_def)
  obtain sn l where r: "addthread (depth m) m pc sp sav (seen m, b_thr m) = Some (sn, l)" "building m sp (insert (pc, v) D) (sn, l)"
      "\<forall>t \<in> set l. start t \<le> v" "\<forall>x < length (seen m). sn ! x = seen m ! x \<or> sn ! x = gen m"
    using building_step [OF assms(1) assms(2)[unfolded b_state_def] assms(3,4) d assms(6-12)] .
  have "length sn = length (seen m)" using r(2) assms(1) by (simp add: building_def vm_ok_def)
  moreover have "unat (sn ! x) \<le> unat (gen m)" if "x < length (seen m)" for x
    using r(4) assms(5) that by (metis order_refl stamped_def)
  ultimately have "same m (m\<lparr>seen := sn, b_thr := l\<rparr>)" "stamped (m\<lparr>seen := sn, b_thr := l\<rparr>)"
    by (simp_all add: same_def stamped_def)
  then show thesis using r by (intro that [of "m\<lparr>seen := sn, b_thr := l\<rparr>"]) (simp_all add: add_b_def b_state_def same_match_def)
qed

text \<open>The instructions that the threads of a list step to.\<close>

definition demands :: "vm \<Rightarrow> byte option \<Rightarrow> threads \<Rightarrow> (nat \<times> int) set" where
  "demands m c ts = {(Suc (fst t), start t) | t. t \<in> set ts \<and> reads_byte m c (fst t)}"

lemma threads_step_builds:
  assumes "c = (if sp < length (inp m) then Some (inp m ! sp) else None)"
    and "vm_ok m" "\<forall>t \<in> set ts. good m sp t" "sorted (map start ts)" "distinct (map fst ts)"
    and "building m (Suc sp) D (b_state m)" "\<forall>t \<in> set (b_thr m). \<forall>u \<in> set ts. start t \<le> start u" "stamped m"
  shows "\<exists>m'. threads_step sp c ts m = Some m' \<and> same m m' \<and> stamped m' \<and> building m (Suc sp) (D \<union> demands m c ts) (b_state m') \<and>
    (\<forall>t \<in> set (b_thr m'). start t \<le> int sp \<or> t \<in> set (b_thr m)) \<and>
    (\<forall>t \<in> set ts. fst t = last_pc (insts m) \<longrightarrow> same_match (upd_match sp (snd t) m) m') \<and>
    (last_pc (insts m) \<notin> fst ` set ts \<longrightarrow> same_match m m')"
  using assms
proof (induction ts arbitrary: m D)
  case Nil then show ?case by (auto simp: demands_def)
next
  case (Cons t ts)
  obtain pc sav where t: "t = (pc, sav)" by fastforce
  obtain r where r: "compiled (pv m) r" using Cons.prems(2) by (auto simp: vm_ok_def)
  obtain i where g: "pc < length (insts m)" "leaf (insts m ! pc)" "length sav = nslots m" "sav ! 0 = int i" "allowed m i" "i \<le> sp"
      "steps m (0, i) (pc, sp)"
    using Cons.prems(3) t by (auto simp: good_def)
  have lp: "opc (insts m ! pc) = Op_Match \<longleftrightarrow> pc = last_pc (insts m)" using compiled_match [OF r g(1)] .
  \<comment> \<open>the thread itself\<close>
  have "\<exists>m1. thread_step sp c t m = Some m1 \<and> same m m1 \<and> stamped m1 \<and>
      building m (Suc sp) (D \<union> demands m c [t]) (b_state m1) \<and>
      (\<forall>u \<in> set (b_thr m1). start u \<le> int i) \<and> (\<forall>u \<in> set (b_thr m1). start u \<le> int sp \<or> u \<in> set (b_thr m)) \<and>
      (if pc = last_pc (insts m) then m1 = upd_match sp sav m else same_match m m1)"
  proof -
    have b: "\<forall>u \<in> set (b_thr m). start u \<le> int i" using Cons.prems(7) t g(4) by auto
    consider "pc = last_pc (insts m)" | "pc \<noteq> last_pc (insts m)" "\<not> reads_byte m c pc" | "pc \<noteq> last_pc (insts m)" "reads_byte m c pc" by blast
    then show ?thesis
    proof cases
      case 1
      then have "\<not> reads_byte m c pc" using lp by (auto simp: reads_byte_def consumes_def split: option.splits)
      then have "demands m c [t] = {}" by (simp add: demands_def t)
      then show ?thesis using 1 b lp g(2) Cons.prems(6,8) t by (auto simp: thread_step_eq b_state_def stamped_def same_upd [unfolded same_def])
    next
      case 2
      then have "demands m c [t] = {}" by (simp add: demands_def t)
      then show ?thesis using 2 b lp g(2) Cons.prems(6,8) t by (auto simp: thread_step_eq)
    next
      case 3
      then have dm: "demands m c [t] = {(Suc pc, int i)}" by (simp add: demands_def t g(4))
      have sp: "sp < length (inp m)" "consumes (pv_cls (pv m)) (insts m ! pc) (inp m ! sp)"
        using 3(2) Cons.prems(1) by (auto simp: reads_byte_def split: if_splits)
      have "Suc pc < last_pc (insts m)" using compiled_consumes [OF r g(1)] g(2) 3(1) lp by (auto simp: leaf_def)
      then have pc: "Suc pc < length (insts m)" "Suc pc \<noteq> last_pc (insts m)" by simp_all
      have s: "steps m (0, i) (Suc pc, Suc sp)" using g(7) mstep.reads [OF g(1) sp] by (rule rtranclp.rtrancl_into_rtrancl)
      have v: "int i = (if Suc pc = 0 then int (Suc sp) else sav ! 0)" using g(4) by simp
      obtain m1 where "add_b (Suc pc) (Suc sp) sav m = Some m1" "same m m1" "same_match m m1"
          "building m (Suc sp) (insert (Suc pc, int i) D) (b_state m1)" "\<forall>t \<in> set (b_thr m1). start t \<le> int i" "stamped m1"
        using add_b_builds [OF Cons.prems(2,6) pc(1) g(3) Cons.prems(8) v b refl g(5) le_SucI [OF g(6)] s pc(2)] .
      then show ?thesis using 3 lp g(2,6) t dm by (fastforce simp: thread_step_eq)
    qed
  qed
  then obtain m1 where m1: "thread_step sp c t m = Some m1" "same m m1" "stamped m1" "building m (Suc sp) (D \<union> demands m c [t]) (b_state m1)"
      "\<forall>u \<in> set (b_thr m1). start u \<le> int i" "\<forall>u \<in> set (b_thr m1). start u \<le> int sp \<or> u \<in> set (b_thr m)"
      "if pc = last_pc (insts m) then m1 = upd_match sp sav m else same_match m m1" by blast
  note sm = same_notions [OF m1(2)]
  have later: "\<forall>u \<in> set ts. int i \<le> start u" using Cons.prems(4) t g(4) by auto
  have st: "inp m1 = inp m" "insts m1 = insts m" using m1(2) by (simp_all add: same_def)
  have "\<exists>m'. threads_step sp c ts m1 = Some m' \<and> same m1 m' \<and> stamped m' \<and>
      building m1 (Suc sp) (D \<union> demands m c [t] \<union> demands m1 c ts) (b_state m') \<and>
      (\<forall>t \<in> set (b_thr m'). start t \<le> int sp \<or> t \<in> set (b_thr m1)) \<and>
      (\<forall>t \<in> set ts. fst t = last_pc (insts m1) \<longrightarrow> same_match (upd_match sp (snd t) m1) m') \<and>
      (last_pc (insts m1) \<notin> fst ` set ts \<longrightarrow> same_match m1 m')"
    by (rule Cons.IH) (use Cons.prems(1-5) m1(3-5) later in \<open>auto simp: sm st intro: order_trans\<close>)
  then obtain m' where m': "threads_step sp c ts m1 = Some m'" "same m1 m'" "stamped m'"
      "building m (Suc sp) (D \<union> demands m c [t] \<union> demands m c ts) (b_state m')"
      "\<forall>t \<in> set (b_thr m'). start t \<le> int sp \<or> t \<in> set (b_thr m1)"
      "\<forall>t \<in> set ts. fst t = last_pc (insts m) \<longrightarrow> same_match (upd_match sp (snd t) m1) m'"
      "last_pc (insts m) \<notin> fst ` set ts \<longrightarrow> same_match m1 m'"
    unfolding sm st demands_def by blast
  have "D \<union> demands m c [t] \<union> demands m c ts = D \<union> demands m c (t # ts)" by (auto simp: demands_def)
  moreover have "same_match (upd_match sp (snd u) m) m'" if "u \<in> set (t # ts)" "fst u = last_pc (insts m)" for u
  proof (cases "u = t")
    case True
    then have "pc = last_pc (insts m)" "last_pc (insts m) \<notin> fst ` set ts" using that t Cons.prems(5) by auto
    then show ?thesis using True m1(7) m'(7) t by simp
  next
    case False
    then have u: "u \<in> set ts" using that by simp
    then have "pc \<noteq> last_pc (insts m)" using that(2) t Cons.prems(5) by (metis distinct.simps(2) fst_conv image_eqI list.set_map list.simps(9))
    note u = u this
    then have "same_match (upd_match sp (snd u) m) (upd_match sp (snd u) m1)" using m1(2,7) upd_same by simp
    moreover have "same_match (upd_match sp (snd u) m1) m'" using m'(6) u that(2) by blast
    ultimately show ?thesis by (simp add: same_match_def)
  qed
  moreover have "same_match m m'" if "last_pc (insts m) \<notin> fst ` set (t # ts)"
    using that m1(7) m'(7) t by (auto simp: same_match_def)
  ultimately show ?case using m1 m' same_trans [OF m1(2) m'(2)] by (intro exI [of _ m']) auto
qed

text \<open>How a path arrives at an instruction: from the start at the same offset, or by reading the byte before.\<close>

lemma path_arrives:
  assumes "steps m (0, i) (x, k)"
  shows "k = i \<and> reach m k 0 x \<or>
    (\<exists>p pc. k = Suc p \<and> i \<le> p \<and> p < length (inp m) \<and> pc < length (insts m) \<and> steps m (0, i) (pc, p) \<and>
       consumes (pv_cls (pv m)) (insts m ! pc) (inp m ! p) \<and> reach m k (Suc pc) x)"
proof -
  have "snd c = i \<and> reach m i 0 (fst c) \<or>
    (\<exists>p pc. snd c = Suc p \<and> i \<le> p \<and> p < length (inp m) \<and> pc < length (insts m) \<and> steps m (0, i) (pc, p) \<and>
       consumes (pv_cls (pv m)) (insts m ! pc) (inp m ! p) \<and> reach m (Suc p) (Suc pc) (fst c))" if "steps m (0, i) c" for c
    using that
  proof (induction rule: rtranclp_induct)
    case base show ?case by (simp add: reach_def)
  next
    case (step c d)
    from step.hyps(2) show ?case
    proof cases
      case (silent pc pc' k)
      then have "reach m k y pc \<Longrightarrow> reach m k y pc'" for y
        unfolding reach_def succs_def by (auto intro: rtranclp.rtrancl_into_rtrancl)
      then show ?thesis using step.IH silent(1,2) by auto
    next
      case (reads pc k)
      have "i \<le> k" using step.IH reads(1) by auto
      then show ?thesis using reads step.hyps(1) by (auto simp: reach_def)
    qed
  qed
  from this [OF assms] show ?thesis by auto
qed

lemma steps_mono: "steps m (0, i) (x, k) \<Longrightarrow> i \<le> k"
  using path_arrives by fastforce

definition a_inv :: "vm \<Rightarrow> nat \<Rightarrow> bool" where
  "a_inv m sp \<longleftrightarrow> distinct (map fst (a_thr m)) \<and> sorted (map start (a_thr m)) \<and> (\<forall>t \<in> set (a_thr m). good m sp t) \<and>
     (\<forall>i x. allowed m i \<longrightarrow> i \<le> sp \<longrightarrow> leaf (insts m ! x) \<longrightarrow> steps m (0, i) (x, sp) \<longrightarrow>
        (\<exists>t \<in> set (a_thr m). fst t = x \<and> start t \<le> int i) \<or> matched m \<and> mstart m < int i)"

text \<open>The match recorded so far is a match, and none that ends earlier is better.\<close>

definition m_inv :: "vm \<Rightarrow> nat \<Rightarrow> bool" where
  "m_inv m sp \<longleftrightarrow>
     (matched m \<longrightarrow> (\<exists>i j. mstart m = int i \<and> mend m = int j \<and> allowed m i \<and> i \<le> j \<and> j < sp \<and>
        steps m (0, i) (last_pc (insts m), j) \<and> length (mcaps m) = nslots m \<and> mcaps m ! 0 = int i \<and> mcaps m ! 1 = int j)) \<and>
     (\<forall>i j. allowed m i \<longrightarrow> j < sp \<longrightarrow> steps m (0, i) (last_pc (insts m), j) \<longrightarrow>
        matched m \<and> (mstart m < int i \<or> mstart m = int i \<and> int j \<le> mend m))"

definition static :: "vm \<Rightarrow> vm \<Rightarrow> bool" where
  "static m m' \<longleftrightarrow> pv m' = pv m \<and> nslots m' = nslots m \<and> cap m' = cap m \<and> inp m' = inp m \<and> anchored m' = anchored m \<and>
     start_at m' = start_at m \<and> work m' = work m \<and> length (seen m') = length (seen m)"

lemma static_notions:
  assumes "static m m'"
  shows "vm_ok m' = vm_ok m" "good m' = good m" "allowed m' = allowed m" "steps m' = steps m" "insts m' = insts m"
    "nslots m' = nslots m" "inp m' = inp m" "start_at m' = start_at m" "anchored m' = anchored m" "pv m' = pv m"
    "reads_byte m' = reads_byte m" "succs m' = succs m" "reach m' = reach m" "work m' = work m"
proof -
  have "succs m' = succs m" "allowed m' = allowed m" using assms by (auto simp: fun_eq_iff static_def succs_def allowed_def)
  then show "succs m' = succs m" "reach m' = reach m" "good m' = good m" "allowed m' = allowed m"
    using assms by (auto simp: fun_eq_iff static_def reach_def good_def)
qed (use assms in \<open>auto simp: fun_eq_iff static_def vm_ok_def reads_byte_def split: option.splits\<close>)

lemma m_inv_step:
  assumes "vm_ok m" "a_inv m sp" "m_inv m sp" "static m m'"
    and hit: "\<forall>t \<in> set (a_thr m). fst t = last_pc (insts m) \<longrightarrow> same_match (upd_match sp (snd t) m) m'"
    and miss: "last_pc (insts m) \<notin> fst ` set (a_thr m) \<longrightarrow> same_match m m'"
  shows "m_inv m' (Suc sp)" "matched m \<Longrightarrow> matched m' \<and> mstart m' \<le> mstart m"
proof -
  obtain r where r: "compiled (pv m) r" using assms(1) by (auto simp: vm_ok_def)
  let ?L = "last_pc (insts m)"
  note st = static_notions [OF assms(4)]
  have lf: "leaf (insts m ! ?L)"
    using compiled_match [OF r, of ?L] compiled_length [OF r] by (simp add: leaf_def)
  have m1: "matched m \<Longrightarrow> \<exists>i j. mstart m = int i \<and> mend m = int j \<and> allowed m i \<and> i \<le> j \<and> j < sp \<and>
        steps m (0, i) (?L, j) \<and> length (mcaps m) = nslots m \<and> mcaps m ! 0 = int i \<and> mcaps m ! 1 = int j"
    and m2: "\<And>i j. allowed m i \<Longrightarrow> j < sp \<Longrightarrow> steps m (0, i) (?L, j) \<Longrightarrow>
        matched m \<and> (mstart m < int i \<or> mstart m = int i \<and> int j \<le> mend m)"
    using assms(3) unfolding m_inv_def by blast+
  have a: "\<And>i. allowed m i \<Longrightarrow> steps m (0, i) (?L, sp) \<Longrightarrow>
        (\<exists>t \<in> set (a_thr m). fst t = ?L \<and> start t \<le> int i) \<or> matched m \<and> mstart m < int i"
    using assms(2) lf steps_mono unfolding a_inv_def by blast
  show less: "matched m' \<and> mstart m' \<le> mstart m" if "matched m"
  proof (cases "?L \<in> fst ` set (a_thr m)")
    case True then show ?thesis using hit that by (auto simp: same_match_def upd_match_def split: if_splits)
  next
    case False then show ?thesis using miss that by (auto simp: same_match_def)
  qed
  show "m_inv m' (Suc sp)"
  proof (cases "?L \<in> fst ` set (a_thr m)")
    case False
    then have sm: "same_match m m'" using miss by blast
    have "matched m \<and> (mstart m < int i \<or> mstart m = int i \<and> int j \<le> mend m)"
      if "allowed m i" "j < Suc sp" "steps m (0, i) (?L, j)" for i j
    proof (cases "j = sp")
      case True then show ?thesis using a [OF that(1)] that(3) False by (auto simp: image_iff)
    next
      case False then show ?thesis using m2 [OF that(1) _ that(3)] that(2) by simp
    qed
    then show ?thesis using m1 sm unfolding m_inv_def st same_match_def by (metis less_Suc_eq)
  next
    case True
    then obtain t where t: "t \<in> set (a_thr m)" "fst t = ?L" by auto
    obtain i0 where g: "start t = int i0" "allowed m i0" "i0 \<le> sp" "steps m (0, i0) (?L, sp)" "snd t ! 1 = int sp" "length (snd t) = nslots m"
      using assms(2) t unfolding a_inv_def good_def by auto
    have only: "u = t" if "u \<in> set (a_thr m)" "fst u = ?L" for u
      using assms(2) that t unfolding a_inv_def by (metis eq_key_imp_eq_value prod.collapse)
    have now: "int i0 \<le> int i \<or> matched m \<and> mstart m < int i" if "allowed m i" "steps m (0, i) (?L, sp)" for i
      using a [OF that] only g(1) by auto
    let ?U = "\<not> matched m \<or> start t < mstart m \<or> start t = mstart m \<and> int sp > mend m"
    show ?thesis
    proof (cases ?U)
      case True
      then have m': "matched m'" "mstart m' = int i0" "mend m' = int sp" "mcaps m' = snd t"
        using hit t g(1,6) by (auto simp: same_match_def upd_match_def)
      have "int i0 < int i \<or> int i0 = int i \<and> int j \<le> int sp" if "allowed m i" "j < Suc sp" "steps m (0, i) (?L, j)" for i j
      proof (cases "j = sp")
        case True then show ?thesis using now [OF that(1)] that(3) less m'(2) by fastforce
      next
        case False then show ?thesis using m2 [OF that(1) _ that(3)] that(2) less m'(2) by fastforce
      qed
      then show ?thesis using m' g unfolding m_inv_def st by auto
    next
      case False
      then have m: "matched m" "mstart m < int i0" using m1 g(1) by fastforce+
      have sm: "same_match m m'" using False hit t by (auto simp: upd_match_def)
      have "matched m \<and> (mstart m < int i \<or> mstart m = int i \<and> int j \<le> mend m)"
        if "allowed m i" "j < Suc sp" "steps m (0, i) (?L, j)" for i j
      proof (cases "j = sp")
        case True then show ?thesis using now [OF that(1)] that(3) m by auto
      next
        case False then show ?thesis using m2 [OF that(1) _ that(3)] that(2) by simp
      qed
      then show ?thesis using m1 sm unfolding m_inv_def st same_match_def by (metis less_Suc_eq)
    qed
  qed
qed

lemma marked_in_fresh:
  assumes "stamped m" "unat (gen m) + 1 < 2 ^ 32"
  shows "marked_in (m\<lparr>gen := gen m + 1, b_thr := l\<rparr>) (seen m) = {}" "unat (gen m + 1) = unat (gen m) + 1"
proof -
  show g: "unat (gen m + 1) = unat (gen m) + 1" using assms(2) by (simp add: unat_word_ariths)
  show "marked_in (m\<lparr>gen := gen m + 1, b_thr := l\<rparr>) (seen m) = {}"
    using assms(1) g unfolding marked_in_def stamped_def by (auto dest: arg_cong [where f = unat])
qed

definition next_byte :: "vm \<Rightarrow> nat \<Rightarrow> byte option" where
  "next_byte m sp = (if sp < length (inp m) then Some (inp m ! sp) else None)"

lemma vm_step_inv:
  assumes ok: "vm_ok m" and stamp: "stamped m" "unat (gen m) + 1 < 2 ^ 32" and inv: "a_inv m sp" "m_inv m sp"
    and sp: "start_at m \<le> sp" "length (work m) = nslots m"
  shows "\<exists>m'. vm_step sp (next_byte m sp) m = Some m' \<and> static m m' \<and> stamped m' \<and> unat (gen m') = unat (gen m) + 1 \<and>
    m_inv m' (Suc sp) \<and> (sp < length (inp m) \<longrightarrow> a_inv m' (Suc sp))"
proof -
  define m0 where "m0 = m\<lparr>gen := gen m + 1, b_thr := []\<rparr>"
  let ?c = "next_byte m sp"
  have s0: "static m m0" by (simp add: static_def m0_def)
  note st0 = static_notions [OF s0]
  have b0: "b_thr m0 = []" by (simp add: m0_def)
  have fresh: "marked_in m0 (seen m0) = {}" "unat (gen m0) = unat (gen m) + 1"
    using marked_in_fresh(1) [OF stamp, of "[]"] marked_in_fresh(2) [OF stamp] by (simp_all add: m0_def)
  have "stamped m0" using stamp(1) fresh(2) by (auto simp: stamped_def m0_def intro: le_SucI)
  moreover have "building m0 (Suc sp) {} (b_state m0)"
    using building_empty [OF _ fresh(1)] ok by (simp add: b_state_def m0_def vm_ok_def)
  ultimately have "\<exists>m1. threads_step sp ?c (a_thr m) m0 = Some m1 \<and> same m0 m1 \<and> stamped m1 \<and>
      building m0 (Suc sp) ({} \<union> demands m0 ?c (a_thr m)) (b_state m1) \<and>
      (\<forall>t \<in> set (b_thr m1). start t \<le> int sp \<or> t \<in> set (b_thr m0)) \<and>
      (\<forall>t \<in> set (a_thr m). fst t = last_pc (insts m0) \<longrightarrow> same_match (upd_match sp (snd t) m0) m1) \<and>
      (last_pc (insts m0) \<notin> fst ` set (a_thr m) \<longrightarrow> same_match m0 m1)"
    using ok inv(1) by (intro threads_step_builds) (auto simp: next_byte_def a_inv_def st0 b0)
  then obtain m1 where m1: "threads_step sp ?c (a_thr m) m0 = Some m1" "same m0 m1" "stamped m1"
      "building m0 (Suc sp) (demands m0 ?c (a_thr m)) (b_state m1)" "\<forall>t \<in> set (b_thr m1). start t \<le> int sp"
      "\<forall>t \<in> set (a_thr m). fst t = last_pc (insts m) \<longrightarrow> same_match (upd_match sp (snd t) m0) m1"
      "last_pc (insts m) \<notin> fst ` set (a_thr m) \<longrightarrow> same_match m0 m1"
    by (auto simp: st0 b0)
  note sm1 = same_notions [OF m1(2)]
  have s1: "static m m1" using m1(2) s0 by (simp add: same_def static_def)
  note st1 = static_notions [OF s1]
  define seed where "seed \<longleftrightarrow> \<not> matched m1 \<and> \<not> anchored m1 \<and> sp + 1 \<le> length (inp m1)"
  have "\<exists>m2. (if seed then add_b 0 (sp + 1) (work m1) m1 else Some m1) = Some m2 \<and> same m1 m2 \<and> same_match m1 m2 \<and> stamped m2 \<and>
      building m0 (Suc sp) (demands m0 ?c (a_thr m) \<union> (if seed then {(0, int (Suc sp))} else {})) (b_state m2)"
  proof (cases seed)
    case True
    obtain r where r: "compiled (pv m) r" using ok by (auto simp: vm_ok_def)
    have p: "0 < length (insts m1)" "0 \<noteq> last_pc (insts m1)" using compiled_length [OF r] st1(10) by auto
    have al: "allowed m1 (Suc sp)" using True sp(1) st1 by (auto simp: allowed_def seed_def)
    have b: "\<forall>t \<in> set (b_thr m1). start t \<le> int (Suc sp)" using m1(5) by force
    have ok1: "vm_ok m1" and w1: "length (work m1) = nslots m1" using ok sp(2) st1 by simp_all
    have b1: "building m1 (Suc sp) (demands m0 ?c (a_thr m)) (b_state m1)" using m1(4) sm1 by simp
    have v: "int (Suc sp) = (if (0 :: nat) = 0 then int (Suc sp) else work m1 ! 0)" by simp
    obtain m2 where "add_b 0 (Suc sp) (work m1) m1 = Some m2" "same m1 m2" "same_match m1 m2"
        "building m1 (Suc sp) (insert (0, int (Suc sp)) (demands m0 ?c (a_thr m))) (b_state m2)"
        "\<forall>t \<in> set (b_thr m2). start t \<le> int (Suc sp)" "stamped m2"
      using add_b_builds [OF ok1 b1 p(1) w1 m1(3) v b refl al order_refl rtranclp.rtrancl_refl p(2)] .
    then show ?thesis using True sm1 by auto
  next
    case False then show ?thesis using m1 by auto
  qed
  then obtain m2 where m2: "(if seed then add_b 0 (sp + 1) (work m1) m1 else Some m1) = Some m2" "same m1 m2" "same_match m1 m2" "stamped m2"
      "building m0 (Suc sp) (demands m0 ?c (a_thr m) \<union> (if seed then {(0, int (Suc sp))} else {})) (b_state m2)" by blast
  define m' where "m' = m2\<lparr>a_thr := b_thr m2, b_thr := a_thr m2\<rparr>"
  have step: "vm_step sp ?c m = Some m'"
    using m1(1) m2(1) unfolding vm_step_def m0_def [symmetric] seed_def m'_def by (simp split: if_splits)
  have s': "static m m'" using s1 m2(2) by (simp add: same_def static_def m'_def)
  note st' = static_notions [OF s']
  have g': "gen m' = gen m0" using m1(2) m2(2) by (simp add: same_def m'_def)
  have mm: "same_match m1 m'" using m2(3) by (simp add: same_match_def m'_def)
  have up: "same_match (upd_match sp sav m) (upd_match sp sav m0)" "same_match m m0" for sav
    by (simp_all add: same_match_def upd_match_def m0_def)
  have hit: "\<forall>t \<in> set (a_thr m). fst t = last_pc (insts m) \<longrightarrow> same_match (upd_match sp (snd t) m) m'"
    and miss: "last_pc (insts m) \<notin> fst ` set (a_thr m) \<longrightarrow> same_match m m'"
    using m1(6,7) mm up unfolding same_match_def by metis+
  note mi = m_inv_step [OF ok inv s' hit miss]
  have "a_inv m' (Suc sp)" if n: "sp < length (inp m)"
  proof -
    have at: "a_thr m' = snd (b_state m2)" by (simp add: m'_def b_state_def)
    have bd: "distinct (map fst (a_thr m'))" "sorted (map start (a_thr m'))" "\<forall>t \<in> set (a_thr m'). good m (Suc sp) t"
      "\<And>y v x. (y, v) \<in> demands m0 ?c (a_thr m) \<or> seed \<and> (y, v) = (0, int (Suc sp)) \<Longrightarrow>
        reach m (Suc sp) y x \<Longrightarrow> leaf (insts m ! x) \<Longrightarrow> \<exists>t \<in> set (a_thr m'). fst t = x \<and> start t \<le> v"
      using m2(5) unfolding building_def at st0 by (auto split: if_splits)
    have "(\<exists>t \<in> set (a_thr m'). fst t = x \<and> start t \<le> int i) \<or> matched m' \<and> mstart m' < int i"
      if i: "allowed m i" "i \<le> Suc sp" and x: "leaf (insts m ! x)" "steps m (0, i) (x, Suc sp)" for i x
      using path_arrives [OF x(2)]
    proof
      assume "Suc sp = i \<and> reach m (Suc sp) 0 x"
      then have e: "i = Suc sp" "reach m (Suc sp) 0 x" by auto
      show ?thesis
      proof (cases seed)
        case True then show ?thesis using bd(4) [of 0 "int (Suc sp)" x] e x(1) by auto
      next
        case False
        then have "matched m1" using n i(1) e(1) sp(1) st1 by (auto simp: seed_def allowed_def)
        then have "matched m'" using mm by (simp add: same_match_def)
        then obtain j k where "mstart m' = int j" "j \<le> k" "k < Suc sp" using mi(1) unfolding m_inv_def by blast
        then show ?thesis using e(1) \<open>matched m'\<close> by simp
      qed
    next
      assume "\<exists>p pc. Suc sp = Suc p \<and> i \<le> p \<and> p < length (inp m) \<and> pc < length (insts m) \<and> steps m (0, i) (pc, p) \<and>
        consumes (pv_cls (pv m)) (insts m ! pc) (inp m ! p) \<and> reach m (Suc sp) (Suc pc) x"
      then obtain pc where p: "i \<le> sp" "pc < length (insts m)" "steps m (0, i) (pc, sp)"
          "consumes (pv_cls (pv m)) (insts m ! pc) (inp m ! sp)" "reach m (Suc sp) (Suc pc) x" by auto
      have "leaf (insts m ! pc)" using p(4) by (auto simp: consumes_def leaf_def split: op.splits)
      then consider t where "t \<in> set (a_thr m)" "fst t = pc" "start t \<le> int i" | "matched m" "mstart m < int i"
        using inv(1) i(1) p(1,3) unfolding a_inv_def by blast
      then show ?thesis
      proof cases
        case (1 t)
        have "reads_byte m0 ?c pc" using p(4) n by (simp add: reads_byte_def next_byte_def m0_def)
        then have "(Suc pc, start t) \<in> demands m0 ?c (a_thr m)" using 1 unfolding demands_def by blast
        then show ?thesis using bd(4) [of "Suc pc" "start t" x] p(5) x(1) 1(3) by (meson order_trans)
      next
        case 2 then show ?thesis using mi(2) by fastforce
      qed
    qed
    then show ?thesis using bd(1-3) unfolding a_inv_def st' by blast
  qed
  then show ?thesis using step s' mi(1) m2(4) g' fresh(2) by (auto simp: stamped_def m'_def)
qed

subsection \<open>A run\<close>

lemma path_crosses:
  assumes "steps m (0, i) (x, j)" "i \<le> sp" "sp \<le> j" "leaf (insts m ! x)"
  shows "\<exists>pc. leaf (insts m ! pc) \<and> steps m (0, i) (pc, sp)"
  using assms
proof (induction j arbitrary: x)
  case 0 then show ?case by auto
next
  case (Suc j)
  show ?case
  proof (cases "sp = Suc j")
    case True then show ?thesis using Suc.prems by blast
  next
    case False
    then have "Suc j \<noteq> i" "sp \<le> j" using Suc.prems by auto
    with path_arrives [OF Suc.prems(1)] obtain pc where "steps m (0, i) (pc, j)" "consumes (pv_cls (pv m)) (insts m ! pc) (inp m ! j)" by auto
    moreover from this(2) have "leaf (insts m ! pc)" by (auto simp: consumes_def leaf_def split: op.splits)
    ultimately show ?thesis using Suc.IH \<open>sp \<le> j\<close> Suc.prems(2) by blast
  qed
qed

lemma m_inv_no_threads:
  assumes "vm_ok m" "a_inv m sp" "m_inv m sp" "a_thr m = []" "matched m \<or> anchored m" "start_at m \<le> sp" "sp \<le> n"
  shows "m_inv m (Suc n)"
proof -
  obtain r where r: "compiled (pv m) r" using assms(1) by (auto simp: vm_ok_def)
  let ?L = "last_pc (insts m)"
  have lf: "leaf (insts m ! ?L)" using compiled_match [OF r, of ?L] compiled_length [OF r] by (simp add: leaf_def)
  have "matched m \<and> (mstart m < int i \<or> mstart m = int i \<and> int j \<le> mend m)" if i: "allowed m i" "steps m (0, i) (?L, j)" for i j
  proof (cases "j < sp")
    case True then show ?thesis using assms(3) i unfolding m_inv_def by blast
  next
    case False
    show ?thesis
    proof (cases "i \<le> sp")
      case True
      then obtain pc where "leaf (insts m ! pc)" "steps m (0, i) (pc, sp)" 
        using path_crosses [OF i(2) True _ lf] False by (auto simp: not_less)
      then show ?thesis using assms(2,4) i(1) True unfolding a_inv_def by auto
    next
      case False
      then have mt: "matched m" using assms(5,6) i(1) by (auto simp: allowed_def)
      then obtain a b where "mstart m = int a" "a \<le> b" "b < sp" using assms(3) unfolding m_inv_def by blast
      then show ?thesis using mt False by auto
    qed
  qed
  then show ?thesis using assms(3,7) unfolding m_inv_def by (meson le_imp_less_Suc less_le_trans less_or_eq_imp_le)
qed

lemma static_trans: "static m m' \<Longrightarrow> static m' m'' \<Longrightarrow> static m m''"
  by (simp add: static_def)

lemma run_loop_inv:
  assumes "ws = drop sp (inp m)" "sp \<le> length (inp m)" "vm_ok m" "stamped m" "unat (gen m) + length ws + 1 < 2 ^ 32"
    and "a_inv m sp" "m_inv m sp" "start_at m \<le> sp" "length (work m) = nslots m"
  shows "\<exists>m'. run_loop ws sp m = Some m' \<and> static m m' \<and> stamped m' \<and> unat (gen m') \<le> unat (gen m) + length ws + 1 \<and>
    m_inv m' (Suc (length (inp m)))"
  using assms
proof (induction ws arbitrary: sp m)
  case Nil
  then have sp: "sp = length (inp m)" by simp
  show ?case
  proof (cases "a_thr m = [] \<and> (matched m \<or> anchored m)")
    case True
    then have "run_loop [] sp m = Some m" "m_inv m (Suc (length (inp m)))"
      using m_inv_no_threads [OF Nil.prems(3,6,7) _ _ Nil.prems(8,2)] by auto
    then show ?thesis using Nil.prems(4) by (simp add: static_def)
  next
    case False
    have "next_byte m sp = None" using sp by (simp add: next_byte_def)
    then show ?thesis using vm_step_inv [OF Nil.prems(3,4) _ Nil.prems(6-9)] Nil.prems(5) False sp by auto
  qed
next
  case (Cons c ws)
  have sp: "sp < length (inp m)" using Cons.prems(1) by (metis drop_all linorder_not_le list.distinct(1))
  then have c: "next_byte m sp = Some c" and ws: "ws = drop (Suc sp) (inp m)"
    using Cons.prems(1) by (auto simp: next_byte_def Cons_nth_drop_Suc [symmetric])
  show ?case
  proof (cases "a_thr m = [] \<and> (matched m \<or> anchored m)")
    case True
    then have "run_loop (c # ws) sp m = Some m" "m_inv m (Suc (length (inp m)))"
      using m_inv_no_threads [OF Cons.prems(3,6,7) _ _ Cons.prems(8,2)] by auto
    then show ?thesis using Cons.prems(4) by (simp add: static_def)
  next
    case False
    obtain m1 where m1: "vm_step sp (Some c) m = Some m1" "static m m1" "stamped m1" "unat (gen m1) = unat (gen m) + 1"
        "m_inv m1 (Suc sp)" "a_inv m1 (Suc sp)"
      using vm_step_inv [OF Cons.prems(3,4) _ Cons.prems(6-9)] Cons.prems(5) sp c by auto
    note st = static_notions [OF m1(2)]
    have "\<exists>m'. run_loop ws (Suc sp) m1 = Some m' \<and> static m1 m' \<and> stamped m' \<and> unat (gen m') \<le> unat (gen m1) + length ws + 1 \<and>
        m_inv m' (Suc (length (inp m1)))"
      using Cons.prems(3,5,8,9) m1 ws sp by (intro Cons.IH) (simp_all add: st)
    then show ?thesis using m1 False static_trans [OF m1(2)] st by (auto simp: c)
  qed
qed

lemma vm_run_inv:
  assumes "vm_ok m" "stamped m" "unat (gen m) + length (inp m) + 2 < 2 ^ 32" "start_at m \<le> length (inp m)"
  shows "\<exists>m'. run m = Some m' \<and> static (m\<lparr>work := replicate (nslots m) (- 1)\<rparr>) m' \<and> stamped m' \<and>
    unat (gen m') \<le> unat (gen m) + length (inp m) + 2 \<and> m_inv m' (Suc (length (inp m)))"
proof -
  let ?w = "replicate (nslots m) (- 1 :: int)" and ?s = "start_at m"
  define m0 where "m0 = m\<lparr>work := ?w, mcaps := ?w, matched := False, a_thr := [], b_thr := [], gen := gen m + 1\<rparr>"
  have s0: "static (m\<lparr>work := ?w\<rparr>) m0" by (simp add: static_def m0_def)
  obtain r where r: "compiled (pv m) r" using assms(1) by (auto simp: vm_ok_def)
  have ok0: "vm_ok m0" using assms(1) by (simp add: vm_ok_def m0_def)
  have g0: "unat (gen m0) = unat (gen m) + 1" using marked_in_fresh(2) [OF assms(2)] assms(3) by (simp add: m0_def)
  have fresh: "marked_in m0 (seen m0) = {}" using marked_in_fresh(1) [OF assms(2)] assms(3) by (simp add: marked_in_def m0_def)
  have b0: "building m0 ?s {} (seen m0, [])" using building_empty [OF _ fresh] ok0 by (simp add: vm_ok_def)
  have p: "0 < length (insts m0)" "0 \<noteq> last_pc (insts m0)" using compiled_length [OF r] by (auto simp: m0_def)
  have d: "depth m0 = length (insts m0) + 1" using ok0 by (simp add: depth_def vm_ok_def)
  have al: "allowed m0 ?s" using assms(4) by (simp add: allowed_def m0_def)
  have w: "length (work m0) = nslots m0" by (simp add: m0_def)
  have v: "int ?s = (if (0 :: nat) = 0 then int ?s else work m0 ! 0)" by simp
  have e: "\<forall>t \<in> set []. start t \<le> int ?s" by simp
  obtain sn l where a: "addthread (depth m0) m0 0 ?s (work m0) (seen m0, []) = Some (sn, l)" "building m0 ?s (insert (0, int ?s) {}) (sn, l)"
      "\<forall>t \<in> set l. start t \<le> int ?s" "\<forall>x < length (seen m0). sn ! x = seen m0 ! x \<or> sn ! x = gen m0"
    using building_step [OF ok0 b0 p(1) w d v e refl al order_refl rtranclp.rtrancl_refl p(2)] .
  define m1 where "m1 = m0\<lparr>seen := sn, a_thr := l\<rparr>"
  have add: "add_a 0 ?s (work m0) m0 = Some m1" using a(1) by (simp add: add_a_def m1_def m0_def)
  have s1: "static m0 m1" using a(2) ok0 by (simp add: static_def m1_def building_def vm_ok_def)
  note st = static_notions [OF s1]
  have len: "length sn = length (seen m)" using a(2) ok0 by (simp add: building_def vm_ok_def m0_def)
  have stamp: "stamped m1"
    using a(4) assms(2) g0 len unfolding stamped_def m1_def by (auto simp: m0_def) (metis le_SucI order_refl)
  have ai: "a_inv m1 ?s"
  proof -
    have "\<exists>t \<in> set l. fst t = x \<and> start t \<le> int i" if "allowed m0 i" "i \<le> ?s" "leaf (insts m0 ! x)" "steps m0 (0, i) (x, ?s)" for i x
    proof -
      have "i = ?s" using that(1,2) by (simp add: allowed_def m0_def)
      then have "reach m0 ?s 0 x" using path_arrives [OF that(4)] by auto
      then show ?thesis using a(2) that(3) \<open>i = ?s\<close> unfolding building_def by auto
    qed
    moreover have "a_thr m1 = l" by (simp add: m1_def)
    ultimately show ?thesis using a(2) unfolding a_inv_def building_def st by auto
  qed
  have mi: "m_inv m1 ?s"
  proof -
    have "\<not> steps m0 (0, i) (last_pc (insts m0), j)" if "allowed m0 i" "j < ?s" for i j
      using that steps_mono [of m0 i _ j] by (fastforce simp: allowed_def m0_def)
    moreover have "\<not> matched m1" by (simp add: m1_def m0_def)
    ultimately show ?thesis unfolding m_inv_def st by blast
  qed
  have i1: "inp m1 = inp m" "gen m1 = gen m0" "start_at m1 = start_at m" by (simp_all add: m1_def m0_def)
  have "\<exists>m'. run_loop (drop ?s (inp m)) ?s m1 = Some m' \<and> static m1 m' \<and> stamped m' \<and>
      unat (gen m') \<le> unat (gen m1) + length (drop ?s (inp m)) + 1 \<and> m_inv m' (Suc (length (inp m1)))"
    using ok0 stamp ai mi assms(3,4) g0 w by (intro run_loop_inv) (simp_all add: i1 st)
  then obtain m' where m': "run_loop (drop ?s (inp m)) ?s m1 = Some m'" "static m1 m'" "stamped m'"
      "unat (gen m') \<le> unat (gen m) + length (inp m) + 2" "m_inv m' (Suc (length (inp m)))"
    using g0 i1 by force
  have "run m = Some m'" using add m'(1) unfolding run_def Let_def m0_def [symmetric] by (simp add: m0_def)
  then show ?thesis using m' static_trans [OF s0 static_trans [OF s1 m'(2)]] by blast
qed

subsection \<open>The match that is reported\<close>

text \<open>The leftmost match and, of those that start there, the longest.\<close>

definition best :: "(nat \<times> nat) set \<Rightarrow> nat \<Rightarrow> nat \<Rightarrow> bool" where
  "best S i j \<longleftrightarrow> (i, j) \<in> S \<and> (\<forall>(a, b) \<in> S. i < a \<or> i = a \<and> b \<le> j)"

text \<open>The matches of an expression that a machine may report.\<close>

definition matches :: "vm \<Rightarrow> re \<Rightarrow> (nat \<times> nat) set" where
  "matches m r = {(i, j). allowed m i \<and> (i, j) \<in> sem (inp m) (pv_cls (pv m)) r}"

definition reports :: "vm \<Rightarrow> (nat \<times> nat) set \<Rightarrow> bool" where
  "reports m S \<longleftrightarrow> (matched m \<longleftrightarrow> S \<noteq> {}) \<and>
     (matched m \<longrightarrow> length (mcaps m) = nslots m \<and> (\<exists>i j. best S i j \<and> mcaps m ! 0 = int i \<and> mcaps m ! 1 = int j))"

lemma m_inv_reports:
  assumes "compiled (pv m) r" "m_inv m (Suc (length (inp m)))"
  shows "reports m (matches m r)"
proof -
  let ?L = "last_pc (insts m)"
  have P: "insts m = program_of r" "plain r" using assms(1) by (simp_all add: compiled_def)
  have st: "steps m (0, i) (?L, j) \<longleftrightarrow> (i, j) \<in> sem (inp m) (pv_cls (pv m)) r" for i j
    using program_matches [OF P(2)] by (simp add: P(1))
  have le: "j < Suc (length (inp m))" if "allowed m i" "steps m (0, i) (?L, j)" for i j
    using path_arrives [OF that(2)] that(1) by (auto simp: allowed_def)
  have m1: "matched m \<Longrightarrow> \<exists>i j. mstart m = int i \<and> mend m = int j \<and> allowed m i \<and> i \<le> j \<and> j < Suc (length (inp m)) \<and>
        steps m (0, i) (?L, j) \<and> length (mcaps m) = nslots m \<and> mcaps m ! 0 = int i \<and> mcaps m ! 1 = int j"
    and m2: "\<And>i j. allowed m i \<Longrightarrow> steps m (0, i) (?L, j) \<Longrightarrow> matched m \<and> (mstart m < int i \<or> mstart m = int i \<and> int j \<le> mend m)"
    using assms(2) le unfolding m_inv_def by blast+
  note m1 = m1 [unfolded st] and m2 = m2 [unfolded st]
  show ?thesis
  proof (cases "matched m")
    case True
    then obtain i j where ij: "mstart m = int i" "mend m = int j" "allowed m i" "(i, j) \<in> sem (inp m) (pv_cls (pv m)) r" "length (mcaps m) = nslots m"
        "mcaps m ! 0 = int i" "mcaps m ! 1 = int j" using m1 by blast
    have "i < a \<or> i = a \<and> b \<le> j" if "(a, b) \<in> matches m r" for a b
      using m2 [of a b] that ij(1,2) by (auto simp: matches_def)
    then have "best (matches m r) i j" using ij(3,4) by (auto simp: best_def matches_def)
    then show ?thesis using True ij unfolding reports_def best_def by blast
  next
    case False then show ?thesis using m2 by (auto simp: reports_def matches_def)
  qed
qed

lemma run_reports:
  assumes "vm_ok m" "compiled (pv m) r" "stamped m" "unat (gen m) + length (inp m) + 2 < 2 ^ 32" "start_at m \<le> length (inp m)"
  obtains m' where "run m = Some m'" "static (m\<lparr>work := replicate (nslots m) (- 1)\<rparr>) m'" "stamped m'"
    "unat (gen m') \<le> unat (gen m) + length (inp m) + 2" "reports m' (matches m r)"
proof -
  obtain m' where m': "run m = Some m'" "static (m\<lparr>work := replicate (nslots m) (- 1)\<rparr>) m'" "stamped m'"
      "unat (gen m') \<le> unat (gen m) + length (inp m) + 2" "m_inv m' (Suc (length (inp m)))"
    using vm_run_inv [OF assms(1,3,4,5)] by blast
  have e: "pv m' = pv m" "inp m' = inp m" "matches m' r = matches m r"
    using m'(2) by (auto simp: static_def matches_def allowed_def)
  show thesis using that m' m_inv_reports [of m' r] assms(2) e by simp
qed

text \<open>A machine for a program and a text, as \<^verbatim>\<open>cmatch\<close> and \<^verbatim>\<open>do_search\<close> set it up.\<close>

definition vm_for :: "prog_view \<Rightarrow> byte list \<Rightarrow> bool \<Rightarrow> vm" where
  "vm_for p w anch =
     \<lparr>pv = p, nslots = 2 * (pv_ngroups p + 1), cap = length (pv_code p), inp = w, anchored = anch, start_at = 0,
      a_thr = [], b_thr = [], seen = replicate (length (pv_code p)) 0, gen = 0,
      work = replicate (2 * (pv_ngroups p + 1)) 0, mcaps = replicate (2 * (pv_ngroups p + 1)) 0,
      matched = False, mstart = 0, mend = 0\<rparr>"

lemma vm_for_ok:
  assumes "compiled p r"
  shows "vm_ok (vm_for p w anch)" "stamped (vm_for p w anch)"
  using assms by (auto simp: vm_ok_def vm_for_def stamped_def)

text \<open>
  C7: the Pike machine ends on every text and reports the leftmost-longest match.  For a pattern that compiles and any offset of the text,
  the run from there finds a match exactly when the parsed expression has one that starts at this offset or, when the run is not
  anchored, at a later one; slots 0 and 1 are then the smallest start and the largest end for it.
\<close>

theorem pike_leftmost_longest:
  assumes "compile_regex s mn mc mi = Some p" "parse (parser_of s mn mc) = Some (root, q)"
    and "k \<le> length w" "length w + 2 < 2 ^ 32"
  shows "\<exists>m'. run ((vm_for p w anch)\<lparr>start_at := k\<rparr>) = Some m' \<and>
    reports m' {(i, j). k \<le> i \<and> i \<le> length w \<and> (anch \<longrightarrow> i = k) \<and> (i, j) \<in> sem w (cls q) (tree_of (nodes q) root)}"
proof -
  let ?m = "(vm_for p w anch)\<lparr>start_at := k\<rparr>"
  from compile_regex_compiled [OF assms(1)] assms(2)
  have q: "pv_cls p = cls q" "re_wf (length (cls q)) (ngroups q) (tree_of (nodes q) root)" "compiled p (desugar (tree_of (nodes q) root))"
    by (metis option.inject prod.inject)+
  have m: "vm_ok ?m" "stamped ?m" using vm_for_ok [OF q(3), of w anch] by (simp_all add: vm_ok_def stamped_def)
  have c: "compiled (pv ?m) (desugar (tree_of (nodes q) root))" using q(3) by (simp add: vm_for_def)
  have "unat (gen ?m) + length (inp ?m) + 2 < 2 ^ 32" "start_at ?m \<le> length (inp ?m)" using assms(3,4) by (simp_all add: vm_for_def)
  then obtain m' where "run ?m = Some m'" "reports m' (matches ?m (desugar (tree_of (nodes q) root)))"
    using run_reports [OF m(1) c m(2)] by blast
  moreover have "matches ?m (desugar (tree_of (nodes q) root)) =
      {(i, j). k \<le> i \<and> i \<le> length w \<and> (anch \<longrightarrow> i = k) \<and> (i, j) \<in> sem w (cls q) (tree_of (nodes q) root)}"
    using sem_desugar [OF q(2)] q(1) by (auto simp: matches_def allowed_def vm_for_def)
  ultimately show ?thesis by auto
qed

theorem pike_leftmost_longest_witness:
  "\<exists>p root q. compile_regex (ascii ''a(b|[c-e])*$'') 60 20 120 = Some p \<and> parse (parser_of (ascii ''a(b|[c-e])*$'') 60 20) = Some (root, q) \<and>
     (\<exists>m'. run ((vm_for p (ascii ''xabcd'') False)\<lparr>start_at := 0\<rparr>) = Some m' \<and>
       reports m' {(i, j). 0 \<le> i \<and> i \<le> length (ascii ''xabcd'') \<and> (False \<longrightarrow> i = 0) \<and>
         (i, j) \<in> sem (ascii ''xabcd'') (cls q) (tree_of (nodes q) root)})"
proof -
  obtain p where p: "compile_regex (ascii ''a(b|[c-e])*$'') 60 20 120 = Some p" using compile_example by auto
  moreover obtain root q where q: "parse (parser_of (ascii ''a(b|[c-e])*$'') 60 20) = Some (root, q)" using parse_returns by metis
  ultimately show ?thesis using pike_leftmost_longest [OF p q, of 0 "ascii ''xabcd''" False] by (auto simp: ascii_def)
qed

end
