(* ===== verification/Regex_Dfa.thy ===== *)
theory Regex_Dfa
  imports Regex_Pike
begin

text \<open>
  The automaton that answers whether a text has a match (\<^verbatim>\<open>src/src/regex/dfa.hpp\<close>): its states are sets of instructions, found by
  the closure of the program under the instructions that read nothing, and interned in a table of at most 255.  Three loops run
  it: one through the table, one that skips over bytes a state ignores, one that shuffles a vector.
\<close>

subsection \<open>Closure\<close>

definition kDfaMaxStates :: nat where
  "kDfaMaxStates = 255"

record closure =
  c_seen :: "bool list"
  c_key :: charreach
  c_accept :: bool
  c_eol :: bool

definition key_set :: "charreach \<Rightarrow> nat \<Rightarrow> charreach" where
  "key_set k pc = k[pc div 64 := k ! (pc div 64) OR push_bit (pc mod 64) 1]"

definition key_test :: "charreach \<Rightarrow> nat \<Rightarrow> bool" where
  "key_test k pc = (drop_bit (pc mod 64) (k ! (pc div 64)) AND 1 \<noteq> 0)"

text \<open>The first argument bounds the depth of the calls.\<close>

fun dfa_eclose :: "nat \<Rightarrow> prog_view \<Rightarrow> nat \<Rightarrow> bool \<Rightarrow> bool \<Rightarrow> closure \<Rightarrow> closure option" where
  "dfa_eclose 0 p pc at_start in_eol s = None"
| "dfa_eclose (Suc f) p pc at_start in_eol s =
     (if pc \<ge> length (pv_code p) then Some s
      else
        let I = pv_code p ! pc
        in if opc I = Op_Match then Some (if in_eol then s\<lparr>c_eol := True\<rparr> else s\<lparr>c_accept := True\<rparr>)
           else if c_seen s ! pc then Some s
           else
             let s1 = s\<lparr>c_seen := (c_seen s)[pc := True]\<rparr>
             in case opc I of
                  Op_Jmp \<Rightarrow> dfa_eclose f p (ix I) at_start in_eol s1
                | Op_Split \<Rightarrow> do { s2 \<leftarrow> dfa_eclose f p (ix I) at_start in_eol s1; dfa_eclose f p (iy I) at_start in_eol s2 }
                | Op_Save \<Rightarrow> dfa_eclose f p (pc + 1) at_start in_eol s1
                | Op_Bol \<Rightarrow> if at_start then dfa_eclose f p (pc + 1) at_start in_eol s1 else Some s1
                | Op_Eol \<Rightarrow> dfa_eclose f p (pc + 1) at_start True s1
                | _ \<Rightarrow> Some (if \<not> in_eol then s1\<lparr>c_key := key_set (c_key s1) pc\<rparr> else s1))"

definition dfa_consumes :: "prog_view \<Rightarrow> inst \<Rightarrow> byte \<Rightarrow> bool" where
  "dfa_consumes p I c =
     (case opc I of
        Op_Char \<Rightarrow> of_nat (ix I) = c
      | Op_Class \<Rightarrow> ix I < length (pv_cls p) \<and> cr_test (pv_cls p ! ix I) c
      | Op_Any \<Rightarrow> True
      | _ \<Rightarrow> False)"

subsection \<open>Construction\<close>

definition no_closure :: "prog_view \<Rightarrow> closure" where
  "no_closure p = \<lparr>c_seen = replicate (length (pv_code p)) False, c_key = [0, 0, 0, 0], c_accept = False, c_eol = False\<rparr>"

definition eclose_depth :: "prog_view \<Rightarrow> nat" where
  "eclose_depth p = length (pv_code p) + 2"

definition has_bol :: "prog_view \<Rightarrow> bool" where
  "has_bol p \<longleftrightarrow> list_ex (\<lambda>I. opc I = Op_Bol) (pv_code p)"

text \<open>No way to begin a match without passing an assertion of the start of the text.\<close>

definition start_anchored :: "prog_view \<Rightarrow> bool option" where
  "start_anchored p =
     (if has_bol p then
        do { s \<leftarrow> dfa_eclose (eclose_depth p) p 0 False False (no_closure p);
             Some (c_key s ! 0 = 0 \<and> c_key s ! 1 = 0 \<and> c_key s ! 2 = 0 \<and> c_key s ! 3 = 0 \<and> \<not> c_accept s \<and> \<not> c_eol s) }
      else Some False)"

text \<open>The states found so far: the set of instructions and the two flags.\<close>

type_synonym dfa_state = "charreach \<times> bool \<times> bool"

definition same_state :: "dfa_state \<Rightarrow> dfa_state \<Rightarrow> bool" where
  "same_state x y = (case (x, y) of ((k, a, e), (k', a', e')) \<Rightarrow>
     a' = a \<and> e' = e \<and> k' ! 0 = k ! 0 \<and> k' ! 1 = k ! 1 \<and> k' ! 2 = k ! 2 \<and> k' ! 3 = k ! 3)"

definition intern :: "dfa_state \<Rightarrow> dfa_state list \<Rightarrow> nat option \<times> dfa_state list" where
  "intern x sts =
     (case find (\<lambda>i. same_state x (sts ! i)) [0..<length sts] of
        Some i \<Rightarrow> (Some i, sts)
      | None \<Rightarrow> if length sts \<ge> kDfaMaxStates then (None, sts) else (Some (length sts), sts @ [x]))"

definition state_of :: "closure \<Rightarrow> dfa_state" where
  "state_of s = (c_key s, c_accept s, c_eol s)"

text \<open>The state after a byte.\<close>

fun follow :: "prog_view \<Rightarrow> charreach \<Rightarrow> byte \<Rightarrow> nat list \<Rightarrow> closure \<Rightarrow> closure option" where
  "follow p ks c [] s = Some s"
| "follow p ks c (pc # pcs) s =
     do { s' \<leftarrow> (if key_test ks pc \<and> dfa_consumes p (pv_code p ! pc) c then dfa_eclose (eclose_depth p) p (pc + 1) False False s else Some s);
          follow p ks c pcs s' }"

definition next_state :: "prog_view \<Rightarrow> bool \<Rightarrow> charreach \<Rightarrow> byte \<Rightarrow> dfa_state option" where
  "next_state p restart ks c =
     do { s0 \<leftarrow> (if restart then dfa_eclose (eclose_depth p) p 0 False False (no_closure p) else Some (no_closure p));
          s \<leftarrow> follow p ks c [0..<length (pv_code p)] s0;
          Some (state_of s) }"

text \<open>
  The row of a state, byte by byte; \<open>None\<close> in its second component is the overflow of the table.  The outer option is the depth of the
  closures.
\<close>

fun dfa_row :: "prog_view \<Rightarrow> bool \<Rightarrow> charreach \<Rightarrow> nat list \<Rightarrow> byte list \<Rightarrow> dfa_state list \<Rightarrow> (dfa_state list \<times> byte list option) option" where
  "dfa_row p restart ks [] row sts = Some (sts, Some row)"
| "dfa_row p restart ks (c # cs) row sts =
     do { x \<leftarrow> next_state p restart ks (of_nat c);
          (case intern x sts of
             (None, sts') \<Rightarrow> Some (sts', None)
           | (Some nid, sts') \<Rightarrow> dfa_row p restart ks cs (row @ [of_nat nid]) sts') }"

fun dfa_rows :: "nat \<Rightarrow> prog_view \<Rightarrow> bool \<Rightarrow> byte list list \<Rightarrow> dfa_state list \<Rightarrow> (dfa_state list \<times> byte list list) option option" where
  "dfa_rows 0 p restart tbl sts = None"
| "dfa_rows (Suc f) p restart tbl sts =
     (if length tbl < length sts then
        do { (sts', row) \<leftarrow> dfa_row p restart (fst (sts ! length tbl)) [0..<256] [] sts;
             (case row of None \<Rightarrow> Some None | Some r \<Rightarrow> dfa_rows f p restart (tbl @ [r]) sts') }
      else Some (Some (sts, tbl)))"

record dfa =
  d_start :: nat
  d_table :: "byte list list"
  d_accept :: "bool list"
  d_eol_accept :: "bool list"
  d_accel_type :: "nat list"
  d_accel_byte :: "byte list"
  d_accel_set :: "truffle_masks list"
  d_has_accel :: bool
  d_has_sheng :: bool
  d_masks :: "byte list list"
  d_start_byte :: byte

text \<open>The bytes on which a state does not stay.\<close>

definition escapes :: "nat \<Rightarrow> byte list \<Rightarrow> nat list" where
  "escapes s row = filter (\<lambda>c. row ! c \<noteq> of_nat s) [0..<256]"

definition accel_of :: "bool \<Rightarrow> nat \<Rightarrow> byte list \<Rightarrow> nat \<times> byte \<times> truffle_masks" where
  "accel_of acc s row =
     (let esc = escapes s row; set = fold (\<lambda>c r. cr_set r (of_nat c)) esc cr_none; none = \<lparr>lo_clear = replicate 16 0, lo_set = replicate 16 0\<rparr>
      in if acc then (0, 0, none)
         else if length esc = 1 then (1, of_nat (hd esc), none)
         else if 2 \<le> length esc \<and> length esc \<le> 32 then (2, 0, truffle_build set)
         else (0, 0, none))"

definition kShengAccept :: byte where "kShengAccept = 0x10"

definition kShengEol :: byte where "kShengEol = 0x20"

definition sbyte :: "bool list \<Rightarrow> bool list \<Rightarrow> nat \<Rightarrow> byte" where
  "sbyte acc eol s = of_nat s OR (if acc ! s then kShengAccept else 0) OR (if eol ! s then kShengEol else 0)"

text \<open>\<open>sheng\<close> tells whether the target has a byte shuffle.\<close>

definition finish_dfa :: "bool \<Rightarrow> nat \<Rightarrow> dfa_state list \<Rightarrow> byte list list \<Rightarrow> dfa" where
  "finish_dfa sheng st sts tbl =
     (let acc = map (\<lambda>(k, a, e). a) sts; eol = map (\<lambda>(k, a, e). e) sts;
          acl = map (\<lambda>s. accel_of (acc ! s) s (tbl ! s)) [0..<length sts];
          small = (sheng \<and> length sts \<le> 16)
      in \<lparr>d_start = st, d_table = tbl, d_accept = acc, d_eol_accept = eol,
          d_accel_type = map fst acl, d_accel_byte = map (fst \<circ> snd) acl, d_accel_set = map (snd \<circ> snd) acl,
          d_has_accel = list_ex (\<lambda>a. fst a \<noteq> 0) acl, d_has_sheng = small,
          d_masks = (if small then
                       map (\<lambda>c. map (\<lambda>s. sbyte acc eol (if s < length sts then unat (tbl ! s ! c) else 0)) [0..<16]) [0..<256]
                     else []),
          d_start_byte = (if small then sbyte acc eol st else 0)\<rparr>)"

text \<open>\<open>Some None\<close> is the null pointer: no automaton for this program.\<close>

definition build_dfa :: "bool \<Rightarrow> prog_view \<Rightarrow> dfa option option" where
  "build_dfa sheng p =
     (if length (pv_code p) = 0 \<or> length (pv_code p) > 256 then Some None
      else
        do { anch \<leftarrow> start_anchored p;
             if has_bol p \<and> \<not> anch then Some None
             else
               do { s0 \<leftarrow> dfa_eclose (eclose_depth p) p 0 True False (no_closure p);
                    (case intern (state_of s0) [] of
                       (None, sts) \<Rightarrow> Some None
                     | (Some st, sts) \<Rightarrow>
                         do { r \<leftarrow> dfa_rows (kDfaMaxStates + 1) p (\<not> anch) [] sts;
                              (case r of
                                 None \<Rightarrow> Some None
                               | Some (sts', tbl) \<Rightarrow> Some (Some (finish_dfa sheng st sts' tbl))) }) } })"

subsection \<open>The three loops\<close>

abbreviation d_step :: "dfa \<Rightarrow> nat \<Rightarrow> byte \<Rightarrow> nat" where
  "d_step d s c \<equiv> unat (d_table d ! s ! unat c)"

fun table_loop :: "dfa \<Rightarrow> nat \<Rightarrow> byte list \<Rightarrow> bool" where
  "table_loop d s [] = d_eol_accept d ! s"
| "table_loop d s (c # cs) = (let s' = d_step d s c in if d_accept d ! s' then True else table_loop d s' cs)"

definition dfa_table_has_match :: "dfa \<Rightarrow> byte list \<Rightarrow> bool" where
  "dfa_table_has_match d w =
     (if d_accept d ! d_start d then True
      else if w = [] then d_eol_accept d ! d_start d
      else table_loop d (d_start d) w)"

function accel_loop :: "dfa \<Rightarrow> nat \<Rightarrow> byte list \<Rightarrow> bool" where
  "accel_loop d s w =
     (if w = [] then d_eol_accept d ! s
      else
        let at = d_accel_type d ! s;
            skip = (if at = 1 then memchr w (d_accel_byte d ! s)
                    else if at = 2 then
                      (let idx = truffle_find_first w (d_accel_set d ! s) in if idx \<ge> length w then None else Some idx)
                    else Some 0)
        in case skip of
             None \<Rightarrow> d_eol_accept d ! s
           | Some i \<Rightarrow>
               let s' = d_step d s (w ! i)
               in if d_accept d ! s' then True else accel_loop d s' (drop (Suc i) w))"
  by pat_completeness auto
termination by (relation "measure (\<lambda>(_, _, w). length w)") auto

declare accel_loop.simps [simp del]

definition dfa_accel_has_match :: "dfa \<Rightarrow> byte list \<Rightarrow> bool" where
  "dfa_accel_has_match d w = (if d_accept d ! d_start d then True else accel_loop d (d_start d) w)"

text \<open>All lanes of the vector hold the same byte; the first one is read back.\<close>

definition sheng_step :: "dfa \<Rightarrow> byte \<Rightarrow> byte \<Rightarrow> byte" where
  "sheng_step d cur c = shuffle_lane (d_masks d ! unat c) cur"

fun sheng_loop :: "dfa \<Rightarrow> byte \<Rightarrow> byte list \<Rightarrow> bool" where
  "sheng_loop d cur (c1 # c2 # c3 # c4 # cs) =
     (let a1 = sheng_step d cur c1; a2 = sheng_step d a1 c2; a3 = sheng_step d a2 c3; a4 = sheng_step d a3 c4
      in if (a1 OR a2 OR a3 OR a4) AND kShengAccept \<noteq> 0 then True else sheng_loop d a4 cs)"
| "sheng_loop d cur (c # cs) =
     (let a = sheng_step d cur c in if a AND kShengAccept \<noteq> 0 then True else sheng_loop d a cs)"
| "sheng_loop d cur [] = (cur AND kShengEol \<noteq> 0)"

definition dfa_sheng_has_match :: "dfa \<Rightarrow> byte list \<Rightarrow> bool" where
  "dfa_sheng_has_match d w =
     (if d_start_byte d AND kShengAccept \<noteq> 0 then True
      else if w = [] then d_start_byte d AND kShengEol \<noteq> 0
      else sheng_loop d (d_start_byte d) w)"

definition dfa_has_match :: "dfa \<Rightarrow> byte list \<Rightarrow> bool" where
  "dfa_has_match d w =
     (if d_has_accel d then dfa_accel_has_match d w
      else if d_has_sheng d then dfa_sheng_has_match d w
      else dfa_table_has_match d w)"

subsection \<open>What a closure holds\<close>

text \<open>A key is a set of instructions.\<close>

definition key_pcs :: "charreach \<Rightarrow> nat set" where
  "key_pcs k = {x. x < 256 \<and> key_test k x}"

lemma byte_of_pc: "x < 256 \<Longrightarrow> unat (of_nat x :: byte) = x"
  by (simp add: unsigned_of_nat take_bit_nat_eq_self)

lemma key_cr:
  assumes "x < 256"
  shows "key_test k x = cr_test k (of_nat x)" "key_set k x = cr_set k (of_nat x)"
  unfolding key_test_def key_set_def cr_test_def cr_set_def cr_bit_def cr_rem cr_word_alt byte_of_pc [OF assms] by simp_all

lemma key_pcs_alt: "key_pcs k = unat ` cr_bytes k"
proof (intro equalityI subsetI)
  fix x assume "x \<in> key_pcs k"
  then show "x \<in> unat ` cr_bytes k" using byte_of_pc [of x] by (auto simp: key_pcs_def key_cr cr_bytes_def intro!: image_eqI [of _ _ "of_nat x"])
qed (auto simp: key_pcs_def key_cr cr_bytes_def unat_byte_less)

lemma key_set_simps [simp]:
  assumes "x < 256" "cr_wf k"
  shows "key_pcs (key_set k x) = insert x (key_pcs k)" "cr_wf (key_set k x)"
  using assms by (simp_all add: key_pcs_alt key_cr byte_of_pc)

definition is_match :: "prog_view \<Rightarrow> nat \<Rightarrow> bool" where
  "is_match p x \<longleftrightarrow> opc (pv_code p ! x) = Op_Match"

definition reader :: "prog_view \<Rightarrow> nat \<Rightarrow> bool" where
  "reader p x \<longleftrightarrow> opc (pv_code p ! x) \<in> {Op_Char, Op_Class, Op_Any}"

definition kids :: "prog_view \<Rightarrow> bool \<Rightarrow> bool \<Rightarrow> nat \<Rightarrow> (bool \<times> nat) list" where
  "kids p at_start e pc =
     (case opc (pv_code p ! pc) of
        Op_Jmp \<Rightarrow> [(e, ix (pv_code p ! pc))]
      | Op_Split \<Rightarrow> [(e, ix (pv_code p ! pc)), (e, iy (pv_code p ! pc))]
      | Op_Save \<Rightarrow> [(e, pc + 1)]
      | Op_Bol \<Rightarrow> if at_start then [(e, pc + 1)] else []
      | Op_Eol \<Rightarrow> [(True, pc + 1)]
      | _ \<Rightarrow> [])"

primrec walk :: "nat \<Rightarrow> prog_view \<Rightarrow> bool \<Rightarrow> (bool \<times> nat) list \<Rightarrow> closure \<Rightarrow> closure option" where
  "walk f p at_start [] s = Some s"
| "walk f p at_start (z # zs) s = do { s' \<leftarrow> dfa_eclose f p (snd z) at_start (fst z) s; walk f p at_start zs s' }"

lemma eclose_match:
  "pc < length (pv_code p) \<Longrightarrow> is_match p pc \<Longrightarrow>
   dfa_eclose (Suc f) p pc at_start e s = Some (if e then s\<lparr>c_eol := True\<rparr> else s\<lparr>c_accept := True\<rparr>)"
  by (simp add: is_match_def)

lemma eclose_seen:
  "pc < length (pv_code p) \<Longrightarrow> \<not> is_match p pc \<Longrightarrow> c_seen s ! pc \<Longrightarrow> dfa_eclose (Suc f) p pc at_start e s = Some s"
  by (simp add: is_match_def)

lemma eclose_reader:
  "pc < length (pv_code p) \<Longrightarrow> reader p pc \<Longrightarrow> \<not> c_seen s ! pc \<Longrightarrow> dfa_eclose (Suc f) p pc at_start e s =
     Some (s\<lparr>c_seen := (c_seen s)[pc := True], c_key := (if e then c_key s else key_set (c_key s) pc)\<rparr>)"
  by (auto simp: reader_def)

lemma eclose_node:
  "pc < length (pv_code p) \<Longrightarrow> \<not> is_match p pc \<Longrightarrow> \<not> reader p pc \<Longrightarrow> \<not> c_seen s ! pc \<Longrightarrow> dfa_eclose (Suc f) p pc at_start e s =
     walk f p at_start (kids p at_start e pc) (s\<lparr>c_seen := (c_seen s)[pc := True]\<rparr>)"
  by (cases "opc (pv_code p ! pc)") (simp_all add: reader_def is_match_def kids_def Let_def)

declare dfa_eclose.simps(2) [simp del]

definition seen_pcs :: "closure \<Rightarrow> nat set" where
  "seen_pcs s = {x. x < length (c_seen s) \<and> c_seen s ! x}"

lemma reader_not_match: "reader p x \<Longrightarrow> \<not> is_match p x"
  by (auto simp: reader_def is_match_def)

text \<open>Everything a closure claims satisfies a property of instructions and of the flag for the end of the text.\<close>

definition claims :: "prog_view \<Rightarrow> (bool \<Rightarrow> nat \<Rightarrow> bool) \<Rightarrow> closure \<Rightarrow> bool" where
  "claims p Q s \<longleftrightarrow> (\<forall>x \<in> key_pcs (c_key s). x < length (pv_code p) \<and> reader p x \<and> Q False x) \<and>
     (c_accept s \<longrightarrow> (\<exists>x < length (pv_code p). is_match p x \<and> Q False x)) \<and>
     (c_eol s \<longrightarrow> (\<exists>x < length (pv_code p). is_match p x \<and> Q True x))"

definition visited :: "prog_view \<Rightarrow> closure \<Rightarrow> nat set" where
  "visited p s = seen_pcs s \<union> {x. is_match p x \<and> c_accept s}"

definition sane :: "prog_view \<Rightarrow> closure \<Rightarrow> bool" where
  "sane p s \<longleftrightarrow> length (c_seen s) = length (pv_code p) \<and> cr_wf (c_key s) \<and> (\<forall>x \<in> seen_pcs s. \<not> is_match p x)"

definition no_eol :: "prog_view \<Rightarrow> bool" where
  "no_eol p \<longleftrightarrow> (\<forall>I \<in> set (pv_code p). opc I \<noteq> Op_Eol)"

text \<open>A property that passes from an instruction to those it leads to without reading.\<close>

definition passes :: "prog_view \<Rightarrow> bool \<Rightarrow> (bool \<Rightarrow> nat \<Rightarrow> bool) \<Rightarrow> bool" where
  "passes p at_start Q \<longleftrightarrow> (\<forall>e x. Q e x \<longrightarrow> x < length (pv_code p) \<longrightarrow> (\<forall>(e', y) \<in> set (kids p at_start e x). Q e' y))"

text \<open>
  What a closure has gained from the pairs in \<open>Z\<close>: only what can be reached from them and, in a program with no assertion of the end, all of it.
\<close>

definition grows :: "prog_view \<Rightarrow> closure \<Rightarrow> closure \<Rightarrow> bool" where
  "grows p s s' \<longleftrightarrow> sane p s' \<and> seen_pcs s \<subseteq> seen_pcs s' \<and> (c_accept s \<longrightarrow> c_accept s')"

definition gains_only :: "prog_view \<Rightarrow> bool \<Rightarrow> (bool \<times> nat) set \<Rightarrow> closure \<Rightarrow> closure \<Rightarrow> bool" where
  "gains_only p at_start Z s s' \<longleftrightarrow> (\<forall>Q. passes p at_start Q \<longrightarrow> (\<forall>(e, x) \<in> Z. Q e x) \<longrightarrow> claims p Q s \<longrightarrow> claims p Q s')"

definition gains_all :: "prog_view \<Rightarrow> bool \<Rightarrow> (bool \<times> nat) set \<Rightarrow> closure \<Rightarrow> closure \<Rightarrow> bool" where
  "gains_all p at_start Z s s' \<longleftrightarrow> (no_eol p \<longrightarrow> (\<forall>z \<in> Z. \<not> fst z) \<longrightarrow> snd ` Z \<subseteq> visited p s' \<and> key_pcs (c_key s) \<subseteq> key_pcs (c_key s') \<and>
     (\<forall>x \<in> seen_pcs s' - seen_pcs s. snd ` set (kids p at_start False x) \<subseteq> visited p s' \<and> (reader p x \<longrightarrow> x \<in> key_pcs (c_key s'))))"

definition gains :: "prog_view \<Rightarrow> bool \<Rightarrow> (bool \<times> nat) set \<Rightarrow> closure \<Rightarrow> closure \<Rightarrow> bool" where
  "gains p at_start Z s s' \<longleftrightarrow> grows p s s' \<and> gains_only p at_start Z s s' \<and> gains_all p at_start Z s s'"

lemma visited_mono: "grows p s s' \<Longrightarrow> visited p s \<subseteq> visited p s'"
  by (auto simp: grows_def visited_def)

lemma gains_nil: "sane p s \<Longrightarrow> gains p at_start {} s s"
  by (simp add: gains_def grows_def gains_only_def gains_all_def)

lemma gains_append:
  assumes "gains p at_start Y s s1" "gains p at_start Z s1 s2"
  shows "gains p at_start (Y \<union> Z) s s2"
proof -
  have g: "grows p s s1" "grows p s1 s2" using assms by (simp_all add: gains_def)
  have "gains_only p at_start (Y \<union> Z) s s2" using assms unfolding gains_def gains_only_def by blast
  moreover have "gains_all p at_start (Y \<union> Z) s s2"
    unfolding gains_all_def
  proof (intro impI)
    assume n: "no_eol p" "\<forall>z \<in> Y \<union> Z. \<not> fst z"
    have 1: "snd ` Y \<subseteq> visited p s1" "key_pcs (c_key s) \<subseteq> key_pcs (c_key s1)"
        "\<And>x. x \<in> seen_pcs s1 - seen_pcs s \<Longrightarrow> snd ` set (kids p at_start False x) \<subseteq> visited p s1 \<and> (reader p x \<longrightarrow> x \<in> key_pcs (c_key s1))"
      and 2: "snd ` Z \<subseteq> visited p s2" "key_pcs (c_key s1) \<subseteq> key_pcs (c_key s2)"
        "\<And>x. x \<in> seen_pcs s2 - seen_pcs s1 \<Longrightarrow> snd ` set (kids p at_start False x) \<subseteq> visited p s2 \<and> (reader p x \<longrightarrow> x \<in> key_pcs (c_key s2))"
      using assms n unfolding gains_def gains_all_def by (meson UnI1 UnI2)+
    have "snd ` set (kids p at_start False x) \<subseteq> visited p s2 \<and> (reader p x \<longrightarrow> x \<in> key_pcs (c_key s2))"
      if "x \<in> seen_pcs s2 - seen_pcs s" for x
      using 1(3) [of x] 2(2,3) visited_mono [OF g(2)] that by (cases "x \<in> seen_pcs s1") auto
    then show "snd ` (Y \<union> Z) \<subseteq> visited p s2 \<and> key_pcs (c_key s) \<subseteq> key_pcs (c_key s2) \<and>
      (\<forall>x \<in> seen_pcs s2 - seen_pcs s. snd ` set (kids p at_start False x) \<subseteq> visited p s2 \<and> (reader p x \<longrightarrow> x \<in> key_pcs (c_key s2)))"
      using 1(1,2) 2(1,2) visited_mono [OF g(2)] by auto
  qed
  ultimately show ?thesis using g unfolding gains_def grows_def by auto
qed

lemma seen_pcs_update: "pc < length (c_seen s) \<Longrightarrow> seen_pcs (s\<lparr>c_seen := (c_seen s)[pc := True]\<rparr>) = insert pc (seen_pcs s)"
  by (auto simp: seen_pcs_def nth_list_update)

lemma gains_node:
  assumes "sane p s" "pc < length (pv_code p)" "\<not> is_match p pc" "\<not> reader p pc"
    and "gains p at_start (set (kids p at_start e pc)) (s\<lparr>c_seen := (c_seen s)[pc := True]\<rparr>) s'"
  shows "gains p at_start {(e, pc)} s s'"
proof -
  let ?s = "s\<lparr>c_seen := (c_seen s)[pc := True]\<rparr>" and ?K = "set (kids p at_start e pc)"
  have sn: "seen_pcs ?s = insert pc (seen_pcs s)" using assms(1,2) by (simp add: seen_pcs_update sane_def)
  have g: "grows p ?s s'" "gains_only p at_start ?K ?s s'" "gains_all p at_start ?K ?s s'" using assms(5) by (simp_all add: gains_def)
  have "grows p s s'" using g(1) sn by (simp add: grows_def)
  moreover have "gains_only p at_start {(e, pc)} s s'"
    unfolding gains_only_def
  proof (intro allI impI)
    fix Q assume q: "passes p at_start Q" "\<forall>(e, x) \<in> {(e, pc)}. Q e x" "claims p Q s"
    then have "\<forall>(e', y) \<in> ?K. Q e' y" using assms(2) by (simp add: passes_def)
    moreover have "claims p Q ?s" using q(3) by (simp add: claims_def)
    ultimately show "claims p Q s'" using g(2) q(1) unfolding gains_only_def by blast
  qed
  moreover have "gains_all p at_start {(e, pc)} s s'"
    unfolding gains_all_def
  proof (intro impI)
    assume n: "no_eol p" "\<forall>z \<in> {(e, pc)}. \<not> fst z"
    then have "opc (pv_code p ! pc) \<noteq> Op_Eol" using assms(2) by (auto simp: no_eol_def)
    then have "\<forall>z \<in> ?K. \<not> fst z" using n(2) by (auto simp: kids_def split: op.splits if_splits)
    then have k: "snd ` ?K \<subseteq> visited p s'" "key_pcs (c_key s) \<subseteq> key_pcs (c_key s')"
        "\<And>x. x \<in> seen_pcs s' - insert pc (seen_pcs s) \<Longrightarrow>
          snd ` set (kids p at_start False x) \<subseteq> visited p s' \<and> (reader p x \<longrightarrow> x \<in> key_pcs (c_key s'))"
      using g(3) n(1) sn unfolding gains_all_def by auto
    have "snd ` set (kids p at_start False x) \<subseteq> visited p s' \<and> (reader p x \<longrightarrow> x \<in> key_pcs (c_key s'))" if "x \<in> seen_pcs s' - seen_pcs s" for x
      using that k(1,3) n(2) assms(4) by (cases "x = pc") auto
    moreover have "pc \<in> visited p s'" using g(1) sn by (auto simp: grows_def visited_def)
    ultimately show "snd ` {(e, pc)} \<subseteq> visited p s' \<and> key_pcs (c_key s) \<subseteq> key_pcs (c_key s') \<and>
      (\<forall>x \<in> seen_pcs s' - seen_pcs s. snd ` set (kids p at_start False x) \<subseteq> visited p s' \<and> (reader p x \<longrightarrow> x \<in> key_pcs (c_key s')))"
      using k(2) by auto
  qed
  ultimately show ?thesis unfolding gains_def by blast
qed

lemma gains_reader:
  assumes "sane p s" "pc < length (pv_code p)" "reader p pc" "pc < 256"
  shows "gains p at_start {(e, pc)} s (s\<lparr>c_seen := (c_seen s)[pc := True], c_key := (if e then c_key s else key_set (c_key s) pc)\<rparr>)" (is "gains p at_start _ s ?s")
proof -
  have sn: "seen_pcs (s\<lparr>c_seen := (c_seen s)[pc := True], c_key := k\<rparr>) = insert pc (seen_pcs s)" for k
    using seen_pcs_update [of pc s] assms(1,2) by (simp add: seen_pcs_def sane_def)
  have "grows p s ?s" using sn assms(1,4) reader_not_match [OF assms(3)] by (auto simp: grows_def sane_def)
  moreover have "gains_only p at_start {(e, pc)} s ?s" using assms by (auto simp: gains_only_def claims_def sane_def)
  moreover have "kids p at_start False pc = []" using assms(3) by (auto simp: kids_def reader_def)
  then have "gains_all p at_start {(e, pc)} s ?s"
    using assms by (auto simp: gains_all_def sane_def visited_def sn)
  ultimately show ?thesis by (simp add: gains_def)
qed

lemma gains_seen:
  assumes "sane p s" "pc < length (pv_code p)" "c_seen s ! pc"
  shows "gains p at_start {(e, pc)} s s"
  using assms by (auto simp: gains_def grows_def gains_only_def gains_all_def visited_def seen_pcs_def sane_def)

lemma gains_match:
  assumes "sane p s" "pc < length (pv_code p)" "is_match p pc"
  shows "gains p at_start {(e, pc)} s (if e then s\<lparr>c_eol := True\<rparr> else s\<lparr>c_accept := True\<rparr>)"
proof -
  have "claims p Q (s\<lparr>c_eol := True\<rparr>)" if "claims p Q s" "Q True pc" for Q using assms(2,3) that by (auto simp: claims_def)
  moreover have "claims p Q (s\<lparr>c_accept := True\<rparr>)" if "claims p Q s" "Q False pc" for Q using assms(2,3) that by (auto simp: claims_def)
  ultimately have "gains_only p at_start {(e, pc)} s (if e then s\<lparr>c_eol := True\<rparr> else s\<lparr>c_accept := True\<rparr>)"
    by (auto simp: gains_only_def)
  then show ?thesis using assms by (auto simp: gains_def grows_def gains_all_def visited_def seen_pcs_def sane_def)
qed

definition unseen :: "prog_view \<Rightarrow> closure \<Rightarrow> nat" where
  "unseen p s = card ({..<length (pv_code p)} - seen_pcs s)"

lemma unseen_mono: "grows p s s' \<Longrightarrow> unseen p s' \<le> unseen p s"
  unfolding unseen_def grows_def by (intro card_mono) auto

lemma unseen_update:
  assumes "sane p s" "pc < length (pv_code p)" "\<not> c_seen s ! pc"
  shows "unseen p (s\<lparr>c_seen := (c_seen s)[pc := True]\<rparr>) < unseen p s"
proof -
  have "{..<length (pv_code p)} - insert pc (seen_pcs s) \<subset> {..<length (pv_code p)} - seen_pcs s"
    using assms by (auto simp: seen_pcs_def)
  then show ?thesis using assms(1,2) unfolding unseen_def by (simp add: seen_pcs_update sane_def psubset_card_mono)
qed

lemma kids_range:
  assumes "compiled p r" "pc < length (pv_code p)" "(e', y) \<in> set (kids p at_start e pc)"
  shows "y < length (pv_code p)"
proof -
  have "y \<in> set (eps n sp (pv_code p ! pc) pc)" if "sp = 0" "n = 0" for n sp
    using assms(3) that by (auto simp: kids_def eps_def split: op.splits if_splits)
  then show ?thesis using compiled_eps(2) [OF assms(1,2)] by blast
qed

lemma eclose_gains:
  assumes "compiled p r" "length (pv_code p) \<le> 256"
  shows "unseen p s < f \<Longrightarrow> pc < length (pv_code p) \<Longrightarrow> sane p s \<Longrightarrow>
    \<exists>s'. dfa_eclose f p pc at_start e s = Some s' \<and> gains p at_start {(e, pc)} s s'"
proof (induction f arbitrary: pc e s)
  case (Suc f)
  consider "is_match p pc" | "\<not> is_match p pc" "c_seen s ! pc" | "reader p pc" "\<not> is_match p pc" "\<not> c_seen s ! pc"
    | "\<not> is_match p pc" "\<not> reader p pc" "\<not> c_seen s ! pc" by blast
  then show ?case
  proof cases
    case 1 then show ?thesis using eclose_match [OF Suc.prems(2)] gains_match [OF Suc.prems(3,2)] by blast
  next
    case 2 then show ?thesis using eclose_seen [OF Suc.prems(2)] gains_seen [OF Suc.prems(3,2)] by blast
  next
    case 3 
    have "pc < 256" using Suc.prems(2) assms(2) by simp
    with 3 show ?thesis using eclose_reader [OF Suc.prems(2)] gains_reader [OF Suc.prems(3,2)] by blast
  next
    case 4
    let ?s = "s\<lparr>c_seen := (c_seen s)[pc := True]\<rparr>"
    have walk: "\<exists>s'. walk f p at_start zs s = Some s' \<and> gains p at_start (set zs) s s'"
      if "unseen p s < f" "\<forall>(e, y) \<in> set zs. y < length (pv_code p)" "sane p s" for zs s
      using that
    proof (induction zs arbitrary: s)
      case Nil then show ?case by (simp add: gains_nil)
    next
      case (Cons z zs)
      obtain s1 where s1: "dfa_eclose f p (snd z) at_start (fst z) s = Some s1" "gains p at_start {z} s s1"
        using Suc.IH [OF Cons.prems(1) _ Cons.prems(3), of "snd z" "fst z"] Cons.prems(2) by auto
      have "unseen p s1 < f" "sane p s1" using unseen_mono [of p s s1] s1(2) Cons.prems(1) by (auto simp: gains_def grows_def)
      then obtain s2 where s2: "walk f p at_start zs s1 = Some s2" "gains p at_start (set zs) s1 s2"
        using Cons.IH [of s1] Cons.prems(2) by auto
      show ?case using s1 s2 gains_append [OF s1(2) s2(2)] by simp
    qed
    have "unseen p ?s < f" using unseen_update [OF Suc.prems(3,2) 4(3)] Suc.prems(1) by simp
    moreover have "\<forall>(e', y) \<in> set (kids p at_start e pc). y < length (pv_code p)" using kids_range [OF assms(1) Suc.prems(2)] by blast
    moreover have "sane p ?s" using Suc.prems(2,3) 4(1) by (auto simp: sane_def seen_pcs_update)
    ultimately obtain s' where "walk f p at_start (kids p at_start e pc) ?s = Some s'" "gains p at_start (set (kids p at_start e pc)) ?s s'"
      using walk by blast
    then show ?thesis using eclose_node [OF Suc.prems(2) 4] gains_node [OF Suc.prems(3,2) 4(1,2)] by auto
  qed
qed simp

subsection \<open>States and texts\<close>

definition st_claims :: "prog_view \<Rightarrow> (bool \<Rightarrow> nat \<Rightarrow> bool) \<Rightarrow> dfa_state \<Rightarrow> bool" where
  "st_claims p Q st = claims p Q \<lparr>c_seen = [], c_key = fst st, c_accept = fst (snd st), c_eol = snd (snd st)\<rparr>"

lemma st_claims_state_of [simp]: "st_claims p Q (state_of s) = claims p Q s"
  by (simp add: st_claims_def claims_def state_of_def)

definition closed_at :: "prog_view \<Rightarrow> bool \<Rightarrow> closure \<Rightarrow> bool" where
  "closed_at p at_start s \<longleftrightarrow>
     (\<forall>x \<in> seen_pcs s. snd ` set (kids p at_start False x) \<subseteq> visited p s \<and> (reader p x \<longrightarrow> x \<in> key_pcs (c_key s)))"

lemma closed_at_gains:
  assumes "gains p at_start Z s s'" "closed_at p at_start s" "no_eol p" "\<forall>z \<in> Z. \<not> fst z"
  shows "closed_at p at_start s'"
proof -
  have g: "grows p s s'" "gains_all p at_start Z s s'" using assms(1) by (simp_all add: gains_def)
  then have a: "key_pcs (c_key s) \<subseteq> key_pcs (c_key s')"
      "\<And>x. x \<in> seen_pcs s' - seen_pcs s \<Longrightarrow> snd ` set (kids p at_start False x) \<subseteq> visited p s' \<and> (reader p x \<longrightarrow> x \<in> key_pcs (c_key s'))"
    using assms(3,4) unfolding gains_all_def by auto
  show ?thesis
    unfolding closed_at_def
  proof
    fix x assume "x \<in> seen_pcs s'"
    then show "snd ` set (kids p at_start False x) \<subseteq> visited p s' \<and> (reader p x \<longrightarrow> x \<in> key_pcs (c_key s'))"
      using a(2) [of x] a(1) assms(2) visited_mono [OF g(1)] unfolding closed_at_def by (cases "x \<in> seen_pcs s") auto
  qed
qed

lemma no_closure_facts [simp]:
  "sane p (no_closure p)" "seen_pcs (no_closure p) = {}" "claims p Q (no_closure p)" "closed_at p at_start (no_closure p)"
proof -
  have "key_pcs [0, 0, 0, 0] = {}"
  proof -
    have "[0, 0, 0, 0] = cr_none" by (simp add: cr_none_def)
    then show ?thesis by (simp only: key_pcs_alt) simp
  qed
  then show "sane p (no_closure p)" "seen_pcs (no_closure p) = {}" "claims p Q (no_closure p)" "closed_at p at_start (no_closure p)"
    by (auto simp: no_closure_def sane_def seen_pcs_def claims_def closed_at_def)
qed

lemma unseen_depth: "unseen p s < eclose_depth p"
proof -
  have "unseen p s \<le> card {..<length (pv_code p)}" unfolding unseen_def by (intro card_mono) auto
  then show ?thesis by (simp add: eclose_depth_def)
qed

lemma eclose_from:
  assumes "compiled p r" "length (pv_code p) \<le> 256" "pc < length (pv_code p)" "sane p s"
  obtains s' where "dfa_eclose (eclose_depth p) p pc at_start e s = Some s'" "gains p at_start {(e, pc)} s s'"
  using eclose_gains [OF assms(1,2) unseen_depth assms(3,4)] by blast

text \<open>The instructions a state steps to on a byte.\<close>

definition targets :: "prog_view \<Rightarrow> charreach \<Rightarrow> byte \<Rightarrow> nat set \<Rightarrow> (bool \<times> nat) set" where
  "targets p ks c X = {(False, Suc pc) | pc. pc \<in> X \<and> key_test ks pc \<and> dfa_consumes p (pv_code p ! pc) c}"

lemma dfa_consumes_reader: "dfa_consumes p (pv_code p ! pc) c \<Longrightarrow> reader p pc"
  by (auto simp: dfa_consumes_def reader_def split: op.splits)

lemma follow_gains:
  assumes "compiled p r" "length (pv_code p) \<le> 256"
  shows "set pcs \<subseteq> {..<length (pv_code p)} \<Longrightarrow> sane p s \<Longrightarrow>
    \<exists>s'. follow p ks c pcs s = Some s' \<and> gains p False (targets p ks c (set pcs)) s s'"
proof (induction pcs arbitrary: s)
  case Nil
  then show ?case by (simp add: targets_def gains_nil)
next
  case (Cons pc pcs)
  have pc: "pc < length (pv_code p)" using Cons.prems(1) by simp
  have "\<exists>s1. (if key_test ks pc \<and> dfa_consumes p (pv_code p ! pc) c then dfa_eclose (eclose_depth p) p (pc + 1) False False s else Some s) = Some s1 \<and>
      gains p False (targets p ks c {pc}) s s1"
  proof (cases "key_test ks pc \<and> dfa_consumes p (pv_code p ! pc) c")
    case True
    then have "Suc pc < last_pc (pv_code p)"
      using compiled_consumes [OF assms(1) pc] dfa_consumes_reader [of p pc c] by (simp add: reader_def)
    then have "pc + 1 < length (pv_code p)" by simp
    from eclose_from [OF assms this Cons.prems(2)]
    obtain s1 where "dfa_eclose (eclose_depth p) p (pc + 1) False False s = Some s1" "gains p False {(False, pc + 1)} s s1" by blast
    moreover have "targets p ks c {pc} = {(False, pc + 1)}" using True by (auto simp: targets_def)
    ultimately show ?thesis using True by simp
  next
    case False
    then have "targets p ks c {pc} = {}" by (auto simp: targets_def)
    then show ?thesis using False gains_nil [OF Cons.prems(2)] by auto
  qed
  then obtain s1 where s1: "(if key_test ks pc \<and> dfa_consumes p (pv_code p ! pc) c then dfa_eclose (eclose_depth p) p (pc + 1) False False s else Some s) = Some s1"
      "gains p False (targets p ks c {pc}) s s1" by blast
  have "sane p s1" using s1(2) by (simp add: gains_def grows_def)
  then obtain s2 where s2: "follow p ks c pcs s1 = Some s2" "gains p False (targets p ks c (set pcs)) s1 s2" using Cons by auto
  have "targets p ks c {pc} \<union> targets p ks c (set pcs) = targets p ks c (set (pc # pcs))" by (auto simp: targets_def)
  then show ?case using s1(1) s2(1) gains_append [OF s1(2) s2(2)] by auto
qed

text \<open>The state after a byte, as one closure.\<close>

lemma next_state_gains:
  assumes "compiled p r" "length (pv_code p) \<le> 256"
  obtains s where "next_state p restart ks c = Some (state_of s)"
    "gains p False ((if restart then {(False, 0)} else {}) \<union> targets p ks c {..<length (pv_code p)}) (no_closure p) s"
proof -
  have "0 < length (pv_code p)" using compiled_length [OF assms(1)] by linarith
  then have "\<exists>s0. (if restart then dfa_eclose (eclose_depth p) p 0 False False (no_closure p) else Some (no_closure p)) = Some s0 \<and>
      gains p False (if restart then {(False, 0)} else {}) (no_closure p) s0"
    using eclose_from [OF assms, of 0 "no_closure p" False False] gains_nil [of p "no_closure p"] by auto
  then obtain s0 where s0: "(if restart then dfa_eclose (eclose_depth p) p 0 False False (no_closure p) else Some (no_closure p)) = Some s0"
      "gains p False (if restart then {(False, 0)} else {}) (no_closure p) s0" by blast
  have "sane p s0" using s0(2) by (simp add: gains_def grows_def)
  then obtain s where s: "follow p ks c [0..<length (pv_code p)] s0 = Some s" "gains p False (targets p ks c {..<length (pv_code p)}) s0 s"
    using follow_gains [OF assms, of "[0..<length (pv_code p)]" s0 ks c] by (auto simp: atLeast0LessThan)
  show thesis using that [of s] s0(1) s(1) gains_append [OF s0(2) s(2)] by (simp add: next_state_def)
qed

text \<open>
  The paths of the program over a text, in the terms of the machine.  A text is entered at offset 0 only when the automaton is anchored.
\<close>

definition entered :: "prog_view \<Rightarrow> byte list \<Rightarrow> bool \<Rightarrow> nat \<Rightarrow> nat \<Rightarrow> bool" where
  "entered p w anch k x \<longleftrightarrow> (\<exists>i \<le> k. (anch \<longrightarrow> i = 0) \<and> steps (vm_for p w False) (0, i) (x, k))"

definition at_offset :: "prog_view \<Rightarrow> byte list \<Rightarrow> bool \<Rightarrow> nat \<Rightarrow> bool \<Rightarrow> nat \<Rightarrow> bool" where
  "at_offset p w anch k e x \<longleftrightarrow> ((e \<longrightarrow> k = length w) \<longrightarrow> entered p w anch k x)"

lemma vm_for_simps [simp]: "pv (vm_for p w a) = p" "inp (vm_for p w a) = w"
  by (simp_all add: vm_for_def)

lemma at_offset_passes: "passes p (k = 0) (at_offset p w anch k)"
  unfolding passes_def
proof (intro allI impI, clarify)
  fix e x e' y
  assume q: "at_offset p w anch k e x" "x < length (pv_code p)" and kid: "(e', y) \<in> set (kids p (k = 0) e x)"
  show "at_offset p w anch k e' y"
    unfolding at_offset_def
  proof
    assume k: "e' \<longrightarrow> k = length w"
    then have "e \<longrightarrow> k = length w" and y: "y \<in> set (eps (length w) k (pv_code p ! x) x)"
      using kid by (auto simp: kids_def eps_def split: op.splits if_splits)
    then obtain i where i: "i \<le> k" "anch \<longrightarrow> i = 0" "steps (vm_for p w False) (0, i) (x, k)"
      using q(1) by (auto simp: at_offset_def entered_def)
    moreover have "mstep (pv_code p) (pv_cls p) w (x, k) (y, k)" using q(2) y by (rule mstep.silent)
    ultimately show "entered p w anch k y" unfolding entered_def by (auto intro: rtranclp.rtrancl_into_rtrancl)
  qed
qed

text \<open>In a program with no assertion of the end a closure is closed under the steps of the machine.\<close>

lemma closed_reach:
  assumes "compiled p r" "no_eol p" "closed_at p (k = 0) s" "reach (vm_for p w False) k y x" "y \<in> visited p s" "sane p s" "y < length (pv_code p)"
  shows "x \<in> visited p s"
proof -
  define M where "M = {x \<in> visited p s. x < length (pv_code p)}"
  have "x \<in> M" using assms(4)
  proof (rule reach_closed)
    show "y \<in> M" using assms(5,7) by (simp add: M_def)
    fix x assume x: "x \<in> M"
    show "set (succs (vm_for p w False) k x) \<subseteq> M"
    proof
      fix z assume z: "z \<in> set (succs (vm_for p w False) k x)"
      have "opc (pv_code p ! x) \<noteq> Op_Eol" using assms(2) x by (auto simp: no_eol_def M_def)
      then have "z \<in> snd ` set (kids p (k = 0) False x)" and "\<not> is_match p x"
        using z by (auto simp: succs_def eps_def kids_def is_match_def split: op.splits if_splits)
      then have "z \<in> visited p s" using assms(3) x unfolding closed_at_def M_def visited_def by auto
      moreover have "z < length (pv_code p)" using compiled_eps(2) [OF assms(1), of x z "length w" k] x z by (simp add: succs_def M_def)
      ultimately show "z \<in> M" by (simp add: M_def)
    qed
  qed
  then show ?thesis by (simp add: M_def)
qed

text \<open>A state that claims nothing but what is entered at an offset, and one that has all of it.\<close>

definition st_full :: "prog_view \<Rightarrow> (nat \<Rightarrow> bool) \<Rightarrow> dfa_state \<Rightarrow> bool" where
  "st_full p E st \<longleftrightarrow> (\<forall>x < length (pv_code p). E x \<longrightarrow> (reader p x \<longrightarrow> x \<in> key_pcs (fst st)) \<and> (is_match p x \<longrightarrow> fst (snd st)))"

lemma st_full_visited:
  assumes "closed_at p at_start s" "sane p s" "\<And>x. x < length (pv_code p) \<Longrightarrow> E x \<Longrightarrow> x \<in> visited p s"
  shows "st_full p E (state_of s)"
  unfolding st_full_def
proof (intro allI impI)
  fix x assume x: "x < length (pv_code p)" "E x"
  then have "x \<in> visited p s" using assms(3) by blast
  then show "(reader p x \<longrightarrow> x \<in> key_pcs (fst (state_of s))) \<and> (is_match p x \<longrightarrow> fst (snd (state_of s)))"
    using assms(1,2) reader_not_match [of p x] by (auto simp: visited_def closed_at_def state_of_def sane_def)
qed

lemma gains_from_nothing:
  assumes "gains p at_start Z (no_closure p) s"
  shows "sane p s" "passes p at_start Q \<Longrightarrow> (\<And>e x. (e, x) \<in> Z \<Longrightarrow> Q e x) \<Longrightarrow> claims p Q s"
    "no_eol p \<Longrightarrow> \<forall>z \<in> Z. \<not> fst z \<Longrightarrow> closed_at p at_start s \<and> snd ` Z \<subseteq> visited p s"
proof -
  show "sane p s" using assms by (simp add: gains_def grows_def)
  show "passes p at_start Q \<Longrightarrow> (\<And>e x. (e, x) \<in> Z \<Longrightarrow> Q e x) \<Longrightarrow> claims p Q s"
    using assms no_closure_facts(3) [of p Q] unfolding gains_def gains_only_def by blast
  show "no_eol p \<Longrightarrow> \<forall>z \<in> Z. \<not> fst z \<Longrightarrow> closed_at p at_start s \<and> snd ` Z \<subseteq> visited p s"
    using closed_at_gains [OF assms] assms by (simp add: gains_def gains_all_def)
qed

lemma start_state_ok:
  assumes "compiled p r" "length (pv_code p) \<le> 256"
  obtains s where "dfa_eclose (eclose_depth p) p 0 True False (no_closure p) = Some s" "cr_wf (c_key s)"
    "claims p (at_offset p w anch 0) s" "no_eol p \<Longrightarrow> st_full p (entered p w anch 0) (state_of s)"
proof -
  have p0: "0 < length (pv_code p)" using compiled_length [OF assms(1)] by linarith
  from eclose_from [OF assms p0 no_closure_facts(1)]
  obtain s where s: "dfa_eclose (eclose_depth p) p 0 True False (no_closure p) = Some s" "gains p True {(False, 0)} (no_closure p) s" by blast
  have "at_offset p w anch 0 False 0" by (auto simp: at_offset_def entered_def)
  then have c: "claims p (at_offset p w anch 0) s" using gains_from_nothing(2) [OF s(2)] at_offset_passes [of p 0 w anch] by auto
  have "st_full p (entered p w anch 0) (state_of s)" if "no_eol p"
  proof (rule st_full_visited)
    show cl: "closed_at p True s" and "sane p s" using gains_from_nothing(1,3) [OF s(2)] that by auto
    fix x assume "x < length (pv_code p)" "entered p w anch 0 x"
    then have "steps (vm_for p w False) (0, 0) (x, 0)" by (auto simp: entered_def)
    then have "reach (vm_for p w False) 0 0 x" using path_arrives by fastforce
    moreover have "0 \<in> visited p s" using gains_from_nothing(3) [OF s(2)] that by simp
    ultimately show "x \<in> visited p s" using closed_reach [OF assms(1) that, of 0 s w 0 x] cl \<open>sane p s\<close> p0 by simp
  qed
  then show thesis using that s c gains_from_nothing(1) [OF s(2)] by (auto simp: sane_def)
qed

lemma dfa_consumes_iff:
  assumes "compiled p r" "pc < length (pv_code p)"
  shows "dfa_consumes p (pv_code p ! pc) c \<longleftrightarrow> consumes (pv_cls p) (pv_code p ! pc) c"
proof (cases "opc (pv_code p ! pc) = Op_Char")
  case True
  then have "ix (pv_code p ! pc) < 256" using compiled_char [OF assms] by simp
  then show ?thesis using True byte_of_pc by (auto simp: dfa_consumes_def consumes_def)
next
  case False
  then show ?thesis using compiled_class [OF assms] by (auto simp: dfa_consumes_def consumes_def split: op.splits)
qed

lemma next_state_ok:
  assumes "compiled p r" "length (pv_code p) \<le> 256" "k < length w" "st_claims p (at_offset p w anch k) st"
  obtains st' where "next_state p (\<not> anch) (fst st) (w ! k) = Some st'" "cr_wf (fst st')" "st_claims p (at_offset p w anch (Suc k)) st'"
    "no_eol p \<Longrightarrow> st_full p (entered p w anch k) st \<Longrightarrow> st_full p (entered p w anch (Suc k)) st'"
proof -
  let ?Z = "(if \<not> anch then {(False, 0)} else {}) \<union> targets p (fst st) (w ! k) {..<length (pv_code p)}"
  obtain s where s: "next_state p (\<not> anch) (fst st) (w ! k) = Some (state_of s)" "gains p False ?Z (no_closure p) s"
    using next_state_gains [OF assms(1,2)] by blast
  have ent: "entered p w anch (Suc k) (Suc pc)" if x: "pc < length (pv_code p)" "entered p w anch k pc" "dfa_consumes p (pv_code p ! pc) (w ! k)" for pc
  proof -
    have "mstep (pv_code p) (pv_cls p) w (pc, k) (Suc pc, Suc k)"
      using x(1) assms(3) x(3) by (intro mstep.reads) (simp_all add: dfa_consumes_iff [OF assms(1)])
    moreover obtain i where "i \<le> k" "anch \<longrightarrow> i = 0" "steps (vm_for p w False) (0, i) (pc, k)" using x(2) by (auto simp: entered_def)
    ultimately show ?thesis unfolding entered_def by (intro exI [of _ i]) (auto intro: rtranclp.rtrancl_into_rtrancl)
  qed
  have key: "pc \<in> key_pcs (fst st) \<Longrightarrow> entered p w anch k pc" for pc
    using assms(4) by (auto simp: st_claims_def claims_def at_offset_def)
  have roots: "at_offset p w anch (Suc k) e x" if z: "(e, x) \<in> ?Z" for e x
  proof (cases "x = 0")
    case True
    then have "\<not> anch" "\<not> e" using z by (auto simp: targets_def split: if_splits)
    then show ?thesis using True by (auto simp: at_offset_def entered_def)
  next
    case False
    then obtain pc where pc: "x = Suc pc" "pc < length (pv_code p)" "key_test (fst st) pc" "dfa_consumes p (pv_code p ! pc) (w ! k)"
      using z by (auto simp: targets_def split: if_splits)
    then have "pc \<in> key_pcs (fst st)" using assms(2) by (simp add: key_pcs_def)
    then show ?thesis using ent [OF pc(2) key pc(4)] pc(1) by (simp add: at_offset_def)
  qed
  have fl: "\<forall>z \<in> ?Z. \<not> fst z" by (auto simp: targets_def)
  have "claims p (at_offset p w anch (Suc k)) s"
    using gains_from_nothing(2) [OF s(2), of "at_offset p w anch (Suc k)"] roots at_offset_passes [of p "Suc k" w anch] by simp
  moreover have "st_full p (entered p w anch (Suc k)) (state_of s)" if ne: "no_eol p" and full: "st_full p (entered p w anch k) st"
  proof (rule st_full_visited)
    show cl: "closed_at p False s" and sn: "sane p s" using gains_from_nothing(1,3) [OF s(2)] ne fl by auto
    have vis: "snd ` ?Z \<subseteq> visited p s" using gains_from_nothing(3) [OF s(2) ne fl] by simp
    fix x assume "x < length (pv_code p)" "entered p w anch (Suc k) x"
    then obtain i where i: "i \<le> Suc k" "anch \<longrightarrow> i = 0" "steps (vm_for p w False) (0, i) (x, Suc k)" by (auto simp: entered_def)
    have "\<exists>y. (False, y) \<in> ?Z \<and> y < length (pv_code p) \<and> reach (vm_for p w False) (Suc k) y x"
      using path_arrives [OF i(3)]
    proof
      assume "Suc k = i \<and> reach (vm_for p w False) (Suc k) 0 x"
      then show ?thesis using i(2) compiled_length [OF assms(1)] by (intro exI [of _ 0]) auto
    next
      assume "\<exists>q pc. Suc k = Suc q \<and> i \<le> q \<and> q < length (inp (vm_for p w False)) \<and> pc < length (insts (vm_for p w False)) \<and>
        steps (vm_for p w False) (0, i) (pc, q) \<and> consumes (pv_cls (pv (vm_for p w False))) (insts (vm_for p w False) ! pc) (inp (vm_for p w False) ! q) \<and>
        reach (vm_for p w False) (Suc k) (Suc pc) x"
      then obtain pc where pc: "i \<le> k" "pc < length (pv_code p)" "steps (vm_for p w False) (0, i) (pc, k)"
          "dfa_consumes p (pv_code p ! pc) (w ! k)" "reach (vm_for p w False) (Suc k) (Suc pc) x"
        using dfa_consumes_iff [OF assms(1)] by auto
      have "pc \<in> key_pcs (fst st)"
        using full pc(1-4) i(2) dfa_consumes_reader unfolding st_full_def entered_def by blast
      moreover have "Suc pc < length (pv_code p)"
        using compiled_consumes [OF assms(1) pc(2)] dfa_consumes_reader [OF pc(4)] by (simp add: reader_def)
      ultimately show ?thesis using pc(2,4,5) by (intro exI [of _ "Suc pc"]) (auto simp: targets_def key_pcs_def)
    qed
    then obtain y where y: "(False, y) \<in> ?Z" "y < length (pv_code p)" "reach (vm_for p w False) (Suc k) y x" by blast
    then have "y \<in> visited p s" using vis by force
    then show "x \<in> visited p s" using closed_reach [OF assms(1) ne, of "Suc k" s w y x] cl sn y(2,3) by simp
  qed
  moreover have "cr_wf (fst (state_of s))" using gains_from_nothing(1) [OF s(2)] by (simp add: sane_def state_of_def)
  ultimately show thesis using that [of "state_of s"] s(1) by simp
qed

subsection \<open>The table\<close>

lemma intern_spec:
  assumes "\<forall>st \<in> set sts. cr_wf (fst st)" "cr_wf (fst x)" "length sts \<le> kDfaMaxStates" "intern x sts = (oi, sts')"
  shows "prefix sts sts' \<and> (\<forall>st \<in> set sts'. cr_wf (fst st)) \<and> length sts' \<le> kDfaMaxStates \<and>
    (\<forall>i. oi = Some i \<longrightarrow> i < length sts' \<and> sts' ! i = x)"
proof (cases "find (\<lambda>i. same_state x (sts ! i)) [0..<length sts]")
  case None
  then show ?thesis using assms by (auto simp: intern_def nth_append split: if_splits)
next
  case (Some i)
  then have i: "i < length sts" "same_state x (sts ! i)" by (auto simp: find_Some_iff)
  have "sts ! i = x"
  proof -
    obtain k a e where x: "x = (k, a, e)" by (cases x)
    obtain k' a' e' where y: "sts ! i = (k', a', e')" by (cases "sts ! i")
    have "cr_wf k'" "cr_wf k" using assms(1,2) i(1) x y nth_mem [OF i(1)] by force+
    moreover have "k' ! j = k ! j" if "j < 4" for j using i(2) x y less_four [OF that] by (auto simp: same_state_def)
    ultimately have "k' = k" by (intro nth_equalityI) auto
    then show ?thesis using i(2) x y by (auto simp: same_state_def)
  qed
  then show ?thesis using assms Some i(1) by (auto simp: intern_def)
qed

lemma next_state_wf:
  assumes "compiled p r" "length (pv_code p) \<le> 256"
  shows "\<exists>x. next_state p restart ks c = Some x \<and> cr_wf (fst x)"
proof -
  obtain s where s: "next_state p restart ks c = Some (state_of s)"
      "gains p False ((if restart then {(False, 0)} else {}) \<union> targets p ks c {..<length (pv_code p)}) (no_closure p) s"
    using next_state_gains [OF assms] by blast
  then show ?thesis using gains_from_nothing(1) [OF s(2)] by (simp add: sane_def state_of_def)
qed

definition row_ok :: "prog_view \<Rightarrow> bool \<Rightarrow> dfa_state list \<Rightarrow> charreach \<Rightarrow> nat list \<Rightarrow> byte list \<Rightarrow> bool" where
  "row_ok p restart sts ks cs row \<longleftrightarrow> length row = length cs \<and>
     (\<forall>j < length cs. unat (row ! j) < length sts \<and> next_state p restart ks (of_nat (cs ! j)) = Some (sts ! unat (row ! j)))"

lemma row_ok_prefix:
  assumes "row_ok p restart sts ks cs row" "prefix sts sts'"
  shows "row_ok p restart sts' ks cs row"
proof -
  obtain zs where "sts' = sts @ zs" using assms(2) by (auto simp: prefix_def)
  then show ?thesis using assms(1) by (auto simp: row_ok_def nth_append)
qed

definition states_ok :: "dfa_state list \<Rightarrow> bool" where
  "states_ok sts \<longleftrightarrow> (\<forall>st \<in> set sts. cr_wf (fst st)) \<and> length sts \<le> kDfaMaxStates"

lemma dfa_row_ok:
  assumes "compiled p r" "length (pv_code p) \<le> 256"
  shows "states_ok sts \<Longrightarrow> row_ok p restart sts ks done row \<Longrightarrow>
    \<exists>sts' res. dfa_row p restart ks cs row sts = Some (sts', res) \<and> prefix sts sts' \<and> states_ok sts' \<and>
      (\<forall>row'. res = Some row' \<longrightarrow> row_ok p restart sts' ks (done @ cs) row')"
proof (induction cs arbitrary: row sts "done")
  case Nil then show ?case by simp
next
  case (Cons c cs)
  obtain x where x: "next_state p restart ks (of_nat c) = Some x" "cr_wf (fst x)" using next_state_wf [OF assms] by blast
  obtain oi sts1 where i: "intern x sts = (oi, sts1)" by fastforce
  have s1: "prefix sts sts1" "states_ok sts1" "\<And>i. oi = Some i \<Longrightarrow> i < length sts1 \<and> sts1 ! i = x"
    using intern_spec [OF _ x(2) _ i] Cons.prems(1) unfolding states_ok_def by blast+
  show ?case
  proof (cases oi)
    case None then show ?thesis using x i s1 by auto
  next
    case (Some n)
    have n: "n < length sts1" "sts1 ! n = x" using s1(3) Some by auto
    then have un: "unat (of_nat n :: byte) = n" using s1(2) by (intro byte_of_pc) (auto simp: states_ok_def kDfaMaxStates_def)
    have "row_ok p restart sts1 ks done row" using row_ok_prefix [OF Cons.prems(2) s1(1)] .
    then have "row_ok p restart sts1 ks (done @ [c]) (row @ [of_nat n])"
      using n un x(1) by (auto simp: row_ok_def nth_append less_Suc_eq)
    from Cons.IH [OF s1(2) this] obtain sts2 res where
      "dfa_row p restart ks cs (row @ [of_nat n]) sts1 = Some (sts2, res)" "prefix sts1 sts2" "states_ok sts2"
      "\<forall>row'. res = Some row' \<longrightarrow> row_ok p restart sts2 ks ((done @ [c]) @ cs) row'" by blast
    then show ?thesis using x i Some s1(1) by auto
  qed
qed

definition table_ok :: "prog_view \<Rightarrow> bool \<Rightarrow> dfa_state list \<Rightarrow> byte list list \<Rightarrow> bool" where
  "table_ok p restart sts tbl \<longleftrightarrow> states_ok sts \<and> length tbl \<le> length sts \<and>
     (\<forall>s < length tbl. row_ok p restart sts (fst (sts ! s)) [0..<256] (tbl ! s))"

lemma dfa_rows_ok:
  assumes "compiled p r" "length (pv_code p) \<le> 256"
  shows "table_ok p restart sts tbl \<Longrightarrow> kDfaMaxStates < f + length tbl \<Longrightarrow>
    \<exists>res. dfa_rows f p restart tbl sts = Some res \<and>
      (\<forall>sts' tbl'. res = Some (sts', tbl') \<longrightarrow> table_ok p restart sts' tbl' \<and> length tbl' = length sts' \<and> prefix sts sts')"
proof (induction f arbitrary: sts tbl)
  case 0 then show ?case by (simp add: table_ok_def states_ok_def)
next
  case (Suc f)
  show ?case
  proof (cases "length tbl < length sts")
    case False then show ?thesis using Suc.prems by (auto simp: table_ok_def)
  next
    case True
    let ?ks = "fst (sts ! length tbl)"
    have "row_ok p restart sts ?ks [] []" by (simp add: row_ok_def)
    from dfa_row_ok [OF assms _ this, of "[0..<256]"] Suc.prems(1)
    obtain sts1 res where r: "dfa_row p restart ?ks [0..<256] [] sts = Some (sts1, res)" "prefix sts sts1" "states_ok sts1"
        "\<forall>row'. res = Some row' \<longrightarrow> row_ok p restart sts1 ?ks [0..<256] row'"
      by (auto simp: table_ok_def)
    show ?thesis
    proof (cases res)
      case None then show ?thesis using r True by simp
    next
      case (Some row)
      obtain zs where zs: "sts1 = sts @ zs" using r(2) by (auto simp: prefix_def)
      have "row_ok p restart sts1 (fst (sts1 ! s)) [0..<256] ((tbl @ [row]) ! s)" if "s < length (tbl @ [row])" for s
      proof (cases "s < length tbl")
        case t: True
        then have "row_ok p restart sts (fst (sts ! s)) [0..<256] (tbl ! s)" using Suc.prems(1) by (simp add: table_ok_def)
        from row_ok_prefix [OF this r(2)] show ?thesis using t True zs by (simp add: nth_append)
      next
        case False
        then have "s = length tbl" using that by simp
        then show ?thesis using r(4) Some True zs by (simp add: nth_append)
      qed
      moreover have "length (tbl @ [row]) \<le> length sts1" using True zs by simp
      ultimately have "table_ok p restart sts1 (tbl @ [row])" using r(3) by (simp add: table_ok_def)
      from Suc.IH [OF this] Suc.prems(2) obtain res' where
        "dfa_rows f p restart (tbl @ [row]) sts1 = Some res'"
        "\<forall>sts' tbl'. res' = Some (sts', tbl') \<longrightarrow> table_ok p restart sts' tbl' \<and> length tbl' = length sts' \<and> prefix sts1 sts'" by auto
      then show ?thesis using r True Some by (auto simp: prefix_order.trans)
    qed
  qed
qed

subsection \<open>The loops agree\<close>

text \<open>An automaton made from states and a table whose entries are states.\<close>

definition made :: "dfa \<Rightarrow> nat \<Rightarrow> bool" where
  "made d n \<longleftrightarrow> (\<exists>sheng st sts tbl. d = finish_dfa sheng st sts tbl \<and> n = length sts \<and> length tbl = n \<and> st < n \<and> n \<le> kDfaMaxStates \<and>
     (\<forall>s < n. length (tbl ! s) = 256 \<and> (\<forall>c < 256. unat (tbl ! s ! c) < n)))"

lemma made_step: "made d n \<Longrightarrow> s < n \<Longrightarrow> d_step d s c < n"
  by (auto simp: made_def finish_dfa_def Let_def unat_byte_less)

lemma table_skip:
  "\<forall>c \<in> set u. d_step d s c = s \<Longrightarrow> \<not> d_accept d ! s \<Longrightarrow> table_loop d s (u @ v) = table_loop d s v"
  by (induction u) (auto simp: Let_def)

lemma escapes_iff:
  fixes c :: byte
  assumes "length row = 256" "s < 256"
  shows "unat c \<in> set (escapes s row) \<longleftrightarrow> unat (row ! unat c) \<noteq> s" "set (escapes s row) \<subseteq> {..<256}"
proof -
  have "row ! unat c = of_nat s \<longleftrightarrow> unat (row ! unat c) = s" using byte_of_pc [OF assms(2)] by (simp add: word_unat_eq_iff)
  then show "unat c \<in> set (escapes s row) \<longleftrightarrow> unat (row ! unat c) \<noteq> s"
    using unat_byte_less [of c] by (simp add: escapes_def)
  show "set (escapes s row) \<subseteq> {..<256}" by (auto simp: escapes_def)
qed

text \<open>The byte or the class by which a state is left.\<close>

lemma accel_of_spec:
  fixes c :: byte
  assumes "length row = 256" "s < 256" "accel_of acc s row = (t, b, m)"
  shows "t = 1 \<Longrightarrow> unat (row ! unat c) \<noteq> s \<longleftrightarrow> c = b" "t = 2 \<Longrightarrow> unat (row ! unat c) \<noteq> s \<longleftrightarrow> c \<in> truffle_bytes m" "t \<in> {0, 1, 2}"
proof -
  let ?e = "escapes s row"
  note e = escapes_iff [OF assms(1,2)]
  show "unat (row ! unat c) \<noteq> s \<longleftrightarrow> c = b" if "t = 1"
  proof -
    have l: "length ?e = 1" "b = of_nat (hd ?e)" using assms(3) that by (auto simp: accel_of_def Let_def split: if_splits)
    then have h: "set ?e = {hd ?e}" by (cases ?e) auto
    then have "hd ?e < 256" using e(2) by auto
    then have "unat b = hd ?e" using l(2) byte_of_pc by simp
    then show ?thesis using e(1) [of c] h by (auto simp: word_unat_eq_iff)
  qed
  show "unat (row ! unat c) \<noteq> s \<longleftrightarrow> c \<in> truffle_bytes m" if "t = 2"
  proof -
    have "m = truffle_build (fold (\<lambda>c r. cr_set r (of_nat c)) ?e cr_none)" using assms(3) that by (auto simp: accel_of_def Let_def split: if_splits)
    then have "truffle_bytes m = of_nat ` set ?e" using cr_bytes_fold_set [of cr_none "of_nat" ?e] by (simp add: truffle_build_bytes)
    moreover have "c \<in> of_nat ` set ?e \<longleftrightarrow> unat c \<in> set ?e"
      using e(2) byte_of_pc by (auto intro!: image_eqI [of _ _ "unat c"])
    ultimately show ?thesis using e(1) [of c] by simp
  qed
  show "t \<in> {0, 1, 2}" using assms(3) by (auto simp: accel_of_def Let_def split: if_splits)
qed

text \<open>Where the next byte to look at is.\<close>

definition accel_skip :: "dfa \<Rightarrow> nat \<Rightarrow> byte list \<Rightarrow> nat option" where
  "accel_skip d s w =
     (let at = d_accel_type d ! s
      in if at = 1 then memchr w (d_accel_byte d ! s)
         else if at = 2 then
           (let idx = truffle_find_first w (d_accel_set d ! s) in if idx \<ge> length w then None else Some idx)
         else Some 0)"

lemma accel_skip_spec:
  assumes "made d n" "s < n" "w \<noteq> []"
  shows "(case accel_skip d s w of None \<Rightarrow> \<forall>c \<in> set w. d_step d s c = s | Some i \<Rightarrow> i < length w \<and> (\<forall>c \<in> set (take i w). d_step d s c = s))"
proof -
  obtain sheng st sts tbl where d: "d = finish_dfa sheng st sts tbl" "n = length sts" "length tbl = n" "n \<le> kDfaMaxStates" "length (tbl ! s) = 256"
    using assms(1,2) unfolding made_def by blast
  obtain t b m where a: "accel_of (d_accept d ! s) s (tbl ! s) = (t, b, m)" by (cases "accel_of (d_accept d ! s) s (tbl ! s)")
  have f: "d_accel_type d ! s = t" "d_accel_byte d ! s = b" "d_accel_set d ! s = m" "d_table d = tbl"
    using a assms(2) d by (simp_all add: finish_dfa_def Let_def)
  have s: "s < 256" using assms(2) d(4) by (simp add: kDfaMaxStates_def)
  note sp = accel_of_spec [OF d(5) s a]
  show ?thesis
  proof (cases "t = 1")
    case True
    have e: "accel_skip d s w = memchr w b" using True f by (simp add: accel_skip_def)
    show ?thesis
    proof (cases "memchr w b")
      case None
      then have "b \<notin> set w" using memchr_None [of w b] by simp
      then have "\<forall>c \<in> set w. d_step d s c = s" using sp(1) [OF True] f(4) by metis
      then show ?thesis unfolding e None by simp
    next
      case (Some i)
      then have "i < length w" "\<forall>c \<in> set (take i w). c \<noteq> b" using memchr_Some [OF Some] by (auto simp: in_set_conv_nth)
      then show ?thesis unfolding e Some using sp(1) [OF True] f(4) by auto
    qed
  next
    case t1: False
    show ?thesis
    proof (cases "t = 2")
      case True
      let ?i = "truffle_find_first w m"
      have e: "accel_skip d s w = (if ?i \<ge> length w then None else Some ?i)" using True f by (simp add: accel_skip_def Let_def)
      have "c \<notin> truffle_bytes m" if "c \<in> set (take ?i w)" for c
        using that truffle_find_first_spec [of w m] by (auto simp: in_set_conv_nth)
      then have "\<forall>c \<in> set (take ?i w). d_step d s c = s" using sp(2) [OF True] f(4) by auto
      then show ?thesis unfolding e by auto
    next
      case False
      then show ?thesis using t1 f(1) assms(3) by (simp add: accel_skip_def)
    qed
  qed
qed

lemma accel_loop_alt:
  "accel_loop d s w =
     (if w = [] then d_eol_accept d ! s
      else case accel_skip d s w of
             None \<Rightarrow> d_eol_accept d ! s
           | Some i \<Rightarrow> let s' = d_step d s (w ! i) in if d_accept d ! s' then True else accel_loop d s' (drop (Suc i) w))"
  unfolding accel_skip_def Let_def by (subst accel_loop.simps) (simp only: Let_def)

lemma accel_loop_table:
  assumes "made d n"
  shows "s < n \<Longrightarrow> \<not> d_accept d ! s \<Longrightarrow> accel_loop d s w = table_loop d s w"
proof (induction "length w" arbitrary: s w rule: less_induct)
  case less
  show ?case
  proof (cases "w = []")
    case True then show ?thesis by (simp add: accel_loop_alt)
  next
    case False
    note sk = accel_skip_spec [OF assms less.prems(1) False]
    show ?thesis
    proof (cases "accel_skip d s w")
      case None
      then have "table_loop d s (w @ []) = table_loop d s []" using sk less.prems(2) by (intro table_skip) auto
      then show ?thesis using None False by (simp add: accel_loop_alt [of d s w])
    next
      case (Some i)
      then have i: "i < length w" "\<forall>c \<in> set (take i w). d_step d s c = s" using sk by auto
      have "w = take i w @ w ! i # drop (Suc i) w" using i(1) by (simp add: id_take_nth_drop)
      then have "table_loop d s w = table_loop d s (w ! i # drop (Suc i) w)" using table_skip [OF i(2) less.prems(2)] by metis
      moreover have "d_step d s (w ! i) < n" using made_step [OF assms less.prems(1)] .
      ultimately show ?thesis using Some False i(1) less.hyps [of "drop (Suc i) w" "d_step d s (w ! i)"]
        by (subst accel_loop_alt) (auto simp: Let_def)
    qed
  qed
qed

text \<open>The byte of a state in the vector: its number and its two flags.\<close>

lemma sbyte_bits:
  assumes "s < 16"
  shows "sbyte acc eol s AND kShengAccept \<noteq> 0 \<longleftrightarrow> acc ! s" "sbyte acc eol s AND kShengEol \<noteq> 0 \<longleftrightarrow> eol ! s"
    "sbyte acc eol s AND 0x80 = 0" "unat (sbyte acc eol s AND 0x0F) = s"
proof -
  have "s \<in> {0, 1, 2, 3, 4, 5, 6, 7, 8, 9, 10, 11, 12, 13, 14, 15}" using assms by (simp only: insert_iff empty_iff) presburger
  then show "sbyte acc eol s AND kShengAccept \<noteq> 0 \<longleftrightarrow> acc ! s" "sbyte acc eol s AND kShengEol \<noteq> 0 \<longleftrightarrow> eol ! s"
    "sbyte acc eol s AND 0x80 = 0" "unat (sbyte acc eol s AND 0x0F) = s"
    by (auto simp: sbyte_def kShengAccept_def kShengEol_def)
qed

lemma sheng_step_sbyte:
  assumes "made d n" "d_has_sheng d" "s < n"
  shows "sheng_step d (sbyte (d_accept d) (d_eol_accept d) s) c = sbyte (d_accept d) (d_eol_accept d) (d_step d s c)" "n \<le> 16"
proof -
  obtain sheng st sts tbl where d: "d = finish_dfa sheng st sts tbl" "n = length sts" using assms(1) unfolding made_def by blast
  show n: "n \<le> 16" using assms(2) d by (simp add: finish_dfa_def Let_def)
  then have "s < 16" using assms(3) by simp
  have m: "d_masks d ! unat c ! s = sbyte (d_accept d) (d_eol_accept d) (d_step d s c)"
    using assms(2,3) d n unat_byte_less [of c] by (simp add: finish_dfa_def Let_def)
  then show "sheng_step d (sbyte (d_accept d) (d_eol_accept d) s) c = sbyte (d_accept d) (d_eol_accept d) (d_step d s c)"
    using sbyte_bits(3,4) [OF \<open>s < 16\<close>] by (simp add: sheng_step_def shuffle_lane_def)
qed

lemma sheng_loop_table:
  assumes "made d n" "d_has_sheng d"
  shows "s < n \<Longrightarrow> sheng_loop d (sbyte (d_accept d) (d_eol_accept d) s) w = table_loop d s w"
proof (induction "length w" arbitrary: s w rule: less_induct)
  case less
  let ?B = "sbyte (d_accept d) (d_eol_accept d)"
  note step = sheng_step_sbyte(1) [OF assms] and lt = made_step [OF assms(1)]
  have bits: "?B t AND kShengAccept \<noteq> 0 \<longleftrightarrow> d_accept d ! t" "?B t AND kShengEol \<noteq> 0 \<longleftrightarrow> d_eol_accept d ! t" if "t < n" for t
    using sbyte_bits(1,2) [of t] sheng_step_sbyte(2) [OF assms that] that by auto
  consider c1 c2 c3 c4 cs where "w = c1 # c2 # c3 # c4 # cs" | c cs where "w = c # cs" "length cs < 3" | "w = []"
  proof -
    show thesis
    proof (cases "length w < 4")
      case True then show thesis using that(2,3) by (cases w) auto
    next
      case False
      then have "Suc (Suc (Suc (Suc 0))) \<le> length w" by simp
      then obtain c1 c2 c3 c4 cs where "w = c1 # c2 # c3 # c4 # cs" by (auto simp: Suc_le_length_iff)
      then show thesis by (rule that(1))
    qed
  qed
  then show ?case
  proof cases
    case (1 c1 c2 c3 c4 cs)
    define s1 s2 s3 s4 where "s1 = d_step d s c1" and "s2 = d_step d s1 c2" and "s3 = d_step d s2 c3" and "s4 = d_step d s3 c4"
    have n: "s1 < n" "s2 < n" "s3 < n" "s4 < n" using less.prems lt by (simp_all add: s1_def s2_def s3_def s4_def)
    have st: "sheng_step d (?B s) c1 = ?B s1" "sheng_step d (?B s1) c2 = ?B s2" "sheng_step d (?B s2) c3 = ?B s3" "sheng_step d (?B s3) c4 = ?B s4"
      using step less.prems n by (simp_all add: s1_def s2_def s3_def s4_def)
    have "(?B s1 OR ?B s2 OR ?B s3 OR ?B s4) AND kShengAccept \<noteq> 0 \<longleftrightarrow>
        d_accept d ! s1 \<or> d_accept d ! s2 \<or> d_accept d ! s3 \<or> d_accept d ! s4"
      unfolding bits(1) [OF n(1), symmetric] bits(1) [OF n(2), symmetric] bits(1) [OF n(3), symmetric] bits(1) [OF n(4), symmetric]
      by (simp add: bit.conj_disj_distrib2 or_eq_0_iff)
    moreover have "sheng_loop d (?B s4) cs = table_loop d s4 cs" using less.hyps [OF _ n(4), of cs] 1 by simp
    ultimately have "sheng_loop d (?B s) w = (d_accept d ! s1 \<or> d_accept d ! s2 \<or> d_accept d ! s3 \<or> d_accept d ! s4 \<or> table_loop d s4 cs)"
      unfolding 1 by (simp add: st Let_def)
    also have "\<dots> = table_loop d s w" unfolding 1 by (simp add: Let_def s1_def s2_def s3_def s4_def)
    finally show ?thesis .
  next
    case (2 c cs)
    have "sheng_loop d (?B s) (c # cs) =
        (let a = sheng_step d (?B s) c in if a AND kShengAccept \<noteq> 0 then True else sheng_loop d a cs)"
      using 2(2) by (cases cs; cases "tl cs"; cases "tl (tl cs)") auto
    then show ?thesis using 2 less.hyps [of cs "d_step d s c"] step [OF less.prems] lt [OF less.prems] bits(1) by (simp add: Let_def)
  next
    case 3 then show ?thesis using bits(2) [OF less.prems] by simp
  qed
qed

lemma dfa_has_match_table:
  assumes "made d n"
  shows "dfa_has_match d w = dfa_table_has_match d w" "dfa_accel_has_match d w = dfa_table_has_match d w"
    "d_has_sheng d \<Longrightarrow> dfa_sheng_has_match d w = dfa_table_has_match d w"
proof -
  have st: "d_start d < n" using assms by (auto simp: made_def finish_dfa_def Let_def)
  show a: "dfa_accel_has_match d w = dfa_table_has_match d w"
    using accel_loop_table [OF assms st] by (simp add: dfa_accel_has_match_def dfa_table_has_match_def)
  show s: "dfa_sheng_has_match d w = dfa_table_has_match d w" if "d_has_sheng d"
  proof -
    have sb: "d_start_byte d = sbyte (d_accept d) (d_eol_accept d) (d_start d)"
      using assms that by (auto simp: made_def finish_dfa_def Let_def)
    have "d_start d < 16" using sheng_step_sbyte(2) [OF assms that st] st by simp
    then show ?thesis using sbyte_bits(1,2) [of "d_start d"] sheng_loop_table [OF assms that st, of w]
      by (simp add: dfa_sheng_has_match_def dfa_table_has_match_def sb)
  qed
  show "dfa_has_match d w = dfa_table_has_match d w" using a s by (simp add: dfa_has_match_def)
qed

lemma table_has_match_alt: "dfa_table_has_match d w \<longleftrightarrow> d_accept d ! d_start d \<or> table_loop d (d_start d) w"
  by (auto simp: dfa_table_has_match_def)

subsection \<open>What the automaton answers\<close>

text \<open>An automaton as it is built for a program.\<close>

definition built :: "prog_view \<Rightarrow> bool \<Rightarrow> bool \<Rightarrow> dfa_state list \<Rightarrow> dfa \<Rightarrow> bool" where
  "built p sheng anch sts d \<longleftrightarrow> length (pv_code p) \<le> 256 \<and> start_anchored p = Some anch \<and>
     (\<exists>st tbl s0. d = finish_dfa sheng st sts tbl \<and> st < length sts \<and> sts ! st = state_of s0 \<and>
        dfa_eclose (eclose_depth p) p 0 True False (no_closure p) = Some s0 \<and>
        table_ok p (\<not> anch) sts tbl \<and> length tbl = length sts)"

lemma build_dfa_built:
  assumes "compiled p r"
  shows "\<exists>res. build_dfa sheng p = Some res \<and> (\<forall>d. res = Some d \<longrightarrow> (\<exists>anch sts. built p sheng anch sts d))"
proof (cases "length (pv_code p) > 256")
  case True then show ?thesis by (simp add: build_dfa_def)
next
  case False
  then have le: "length (pv_code p) \<le> 256" by simp
  have p0: "0 < length (pv_code p)" using compiled_length [OF assms] by linarith
  obtain s1 where "dfa_eclose (eclose_depth p) p 0 False False (no_closure p) = Some s1"
    using eclose_from [OF assms le p0 no_closure_facts(1)] by metis
  then have "start_anchored p \<noteq> None" by (auto simp: start_anchored_def)
  then obtain anch where an: "start_anchored p = Some anch" by blast
  obtain s0 where s0: "dfa_eclose (eclose_depth p) p 0 True False (no_closure p) = Some s0" "cr_wf (c_key s0)"
    using start_state_ok [OF assms le] by metis
  have i: "intern (state_of s0) [] = (Some 0, [state_of s0])" by (simp add: intern_def kDfaMaxStates_def)
  have "table_ok p (\<not> anch) [state_of s0] []"
    using s0(2) by (simp add: table_ok_def states_ok_def state_of_def kDfaMaxStates_def)
  from dfa_rows_ok [OF assms le this, of "kDfaMaxStates + 1"] obtain res where
    r: "dfa_rows (kDfaMaxStates + 1) p (\<not> anch) [] [state_of s0] = Some res"
      "\<forall>sts' tbl'. res = Some (sts', tbl') \<longrightarrow> table_ok p (\<not> anch) sts' tbl' \<and> length tbl' = length sts' \<and> prefix [state_of s0] sts'"
    by auto
  show ?thesis
  proof (cases "has_bol p \<and> \<not> anch")
    case True then show ?thesis using False p0 an by (simp add: build_dfa_def)
  next
    case bol: False
    show ?thesis
    proof (cases res)
      case None then show ?thesis using False p0 an bol s0 i r by (simp add: build_dfa_def)
    next
      case (Some x)
      obtain sts tbl where x: "x = (sts, tbl)" by fastforce
      then have t: "table_ok p (\<not> anch) sts tbl" "length tbl = length sts" "prefix [state_of s0] sts" using r(2) Some by auto
      then have "sts ! 0 = state_of s0" "0 < length sts" by (auto simp: prefix_def)
      then have "built p sheng anch sts (finish_dfa sheng 0 sts tbl)" using le an s0(1) t by (auto simp: built_def)
      moreover have "build_dfa sheng p = Some (Some (finish_dfa sheng 0 sts tbl))"
        using False p0 an bol s0 i r Some x by (simp add: build_dfa_def)
      ultimately show ?thesis by auto
    qed
  qed
qed

lemma built_made: "built p sheng anch sts d \<Longrightarrow> made d (length sts)"
proof -
  assume "built p sheng anch sts d"
  then obtain st tbl where t: "d = finish_dfa sheng st sts tbl" "st < length sts" "table_ok p (\<not> anch) sts tbl" "length tbl = length sts"
    unfolding built_def by blast
  then have "length sts \<le> kDfaMaxStates" "\<forall>s < length sts. length (tbl ! s) = 256 \<and> (\<forall>c < 256. unat (tbl ! s ! c) < length sts)"
    by (auto simp: table_ok_def states_ok_def row_ok_def)
  then show ?thesis using t(1,2,4) unfolding made_def by blast
qed

lemma built_facts:
  assumes "built p sheng anch sts d" "s < length sts"
  shows "d_accept d ! s = fst (snd (sts ! s))" "d_eol_accept d ! s = snd (snd (sts ! s))"
    "next_state p (\<not> anch) (fst (sts ! s)) c = Some (sts ! d_step d s c)"
proof -
  obtain st tbl where d: "d = finish_dfa sheng st sts tbl" "table_ok p (\<not> anch) sts tbl" "length tbl = length sts"
    using assms(1) unfolding built_def by blast
  show "d_accept d ! s = fst (snd (sts ! s))" "d_eol_accept d ! s = snd (snd (sts ! s))"
    using d(1) assms(2) by (simp_all add: finish_dfa_def Let_def case_prod_beta)
  have "row_ok p (\<not> anch) sts (fst (sts ! s)) [0..<256] (tbl ! s)" using d assms(2) by (simp add: table_ok_def)
  then have "next_state p (\<not> anch) (fst (sts ! s)) (of_nat j) = Some (sts ! unat (tbl ! s ! j))" if "j < 256" for j
    using that by (simp add: row_ok_def)
  from this [OF unat_byte_less] show "next_state p (\<not> anch) (fst (sts ! s)) c = Some (sts ! d_step d s c)"
    using d(1) by (simp add: finish_dfa_def Let_def)
qed

definition found :: "prog_view \<Rightarrow> byte list \<Rightarrow> bool \<Rightarrow> bool" where
  "found p w anch \<longleftrightarrow> (\<exists>k \<le> length w. \<exists>x < length (pv_code p). is_match p x \<and> entered p w anch k x)"

lemma table_loop_sound:
  assumes "compiled p r" "built p sheng anch sts d"
  shows "ws = drop k w \<Longrightarrow> k \<le> length w \<Longrightarrow> s < length sts \<Longrightarrow> st_claims p (at_offset p w anch k) (sts ! s) \<Longrightarrow> table_loop d s ws \<Longrightarrow> found p w anch"
proof (induction ws arbitrary: k s)
  case Nil
  then have "k = length w" "snd (snd (sts ! s))" using built_facts(2) [OF assms(2) Nil.prems(3)] by auto
  then show ?case using Nil.prems(4) by (auto simp: st_claims_def claims_def at_offset_def found_def)
next
  case (Cons c ws)
  have k: "k < length w" using Cons.prems(1) by (metis drop_all linorder_not_le list.distinct(1))
  then have c: "c = w ! k" "ws = drop (Suc k) w" using Cons.prems(1) by (auto simp: Cons_nth_drop_Suc [symmetric])
  have le: "length (pv_code p) \<le> 256" using assms(2) by (simp add: built_def)
  let ?s = "d_step d s c"
  have s: "?s < length sts" using made_step [OF built_made [OF assms(2)] Cons.prems(3)] .
  have cl: "st_claims p (at_offset p w anch (Suc k)) (sts ! ?s)"
    using next_state_ok [OF assms(1) le k Cons.prems(4)] built_facts(3) [OF assms(2) Cons.prems(3), of c] c(1) by (metis option.inject)
  show ?case
  proof (cases "d_accept d ! ?s")
    case True
    then have "fst (snd (sts ! ?s))" using built_facts(1) [OF assms(2) s] by simp
    then obtain x where "x < length (pv_code p)" "is_match p x" "entered p w anch (Suc k) x"
      using cl by (auto simp: st_claims_def claims_def at_offset_def)
    then show ?thesis using k unfolding found_def by (intro exI [of _ "Suc k"]) auto
  next
    case False
    then show ?thesis using Cons.IH [OF c(2) _ s cl] Cons.prems(5) k by (simp add: Let_def)
  qed
qed

lemma table_loop_complete:
  assumes "compiled p r" "built p sheng anch sts d" "no_eol p"
  shows "ws = drop k w \<Longrightarrow> k \<le> length w \<Longrightarrow> s < length sts \<Longrightarrow> st_claims p (at_offset p w anch k) (sts ! s) \<Longrightarrow>
    st_full p (entered p w anch k) (sts ! s) \<Longrightarrow>
    k < j \<Longrightarrow> j \<le> length w \<Longrightarrow> x < length (pv_code p) \<Longrightarrow> is_match p x \<Longrightarrow> entered p w anch j x \<Longrightarrow> table_loop d s ws"
proof (induction ws arbitrary: k s)
  case Nil then show ?case by simp
next
  case (Cons c ws)
  have k: "k < length w" using Cons.prems(6,7) by simp
  then have c: "c = w ! k" "ws = drop (Suc k) w" using Cons.prems(1) by (auto simp: Cons_nth_drop_Suc [symmetric])
  have le: "length (pv_code p) \<le> 256" using assms(2) by (simp add: built_def)
  let ?s = "d_step d s c"
  have s: "?s < length sts" using made_step [OF built_made [OF assms(2)] Cons.prems(3)] .
  have cl: "st_claims p (at_offset p w anch (Suc k)) (sts ! ?s)" "st_full p (entered p w anch (Suc k)) (sts ! ?s)"
    using next_state_ok [OF assms(1) le k Cons.prems(4)] built_facts(3) [OF assms(2) Cons.prems(3), of c] c(1) assms(3) Cons.prems(5)
    by (metis option.inject)+
  show ?case
  proof (cases "d_accept d ! ?s")
    case True then show ?thesis by (simp add: Let_def)
  next
    case False
    then have "j \<noteq> Suc k" using cl(2) Cons.prems(8-10) built_facts(1) [OF assms(2) s] unfolding st_full_def by blast
    then show ?thesis using Cons.IH [OF c(2) _ s cl] Cons.prems(6-10) k False by (simp add: Let_def)
  qed
qed

lemma found_sem:
  assumes "compiled p r"
  shows "found p w anch \<longleftrightarrow> (\<exists>i j. i \<le> length w \<and> (anch \<longrightarrow> i = 0) \<and> (i, j) \<in> sem w (pv_cls p) r)"
proof -
  have P: "pv_code p = program_of r" "plain r" using assms by (simp_all add: compiled_def)
  have L: "last_pc (pv_code p) < length (pv_code p)" using compiled_length [OF assms] by simp
  have st: "steps (vm_for p w False) (0, i) (last_pc (pv_code p), j) \<longleftrightarrow> (i, j) \<in> sem w (pv_cls p) r" for i j
    using program_matches [OF P(2)] by (simp add: P(1))
  have m: "is_match p x \<longleftrightarrow> x = last_pc (pv_code p)" if "x < length (pv_code p)" for x
    using compiled_match [OF assms that] by (simp add: is_match_def)
  show ?thesis
  proof
    assume "found p w anch"
    then obtain k i where k: "k \<le> length w" "i \<le> k" "anch \<longrightarrow> i = 0" "steps (vm_for p w False) (0, i) (last_pc (pv_code p), k)"
      using m by (auto simp: found_def entered_def)
    then have "i \<le> length w" "(i, k) \<in> sem w (pv_cls p) r" using st by auto
    with k(3) show "\<exists>i j. i \<le> length w \<and> (anch \<longrightarrow> i = 0) \<and> (i, j) \<in> sem w (pv_cls p) r" by blast
  next
    assume "\<exists>i j. i \<le> length w \<and> (anch \<longrightarrow> i = 0) \<and> (i, j) \<in> sem w (pv_cls p) r"
    then obtain i j where i: "i \<le> length w" "anch \<longrightarrow> i = 0" "steps (vm_for p w False) (0, i) (last_pc (pv_code p), j)" using st by blast
    have "i \<le> j" using steps_mono [OF i(3)] .
    moreover have "j \<le> length w" using path_arrives [OF i(3)] i(1) by auto
    ultimately show "found p w anch" using i(2,3) m [OF L] L unfolding found_def entered_def by blast
  qed
qed

lemma dfa_sound:
  assumes "compiled p r" "built p sheng anch sts d" "dfa_has_match d w"
  shows "found p w anch"
proof -
  have le: "length (pv_code p) \<le> 256" using assms(2) by (simp add: built_def)
  obtain s0 where s0: "d_start d < length sts" "sts ! d_start d = state_of s0" "dfa_eclose (eclose_depth p) p 0 True False (no_closure p) = Some s0"
    using assms(2) by (auto simp: built_def finish_dfa_def Let_def)
  have cl: "st_claims p (at_offset p w anch 0) (sts ! d_start d)"
    using start_state_ok [OF assms(1) le] s0(2,3) by (metis option.inject st_claims_state_of)
  have "d_accept d ! d_start d \<or> table_loop d (d_start d) w"
    using assms(3) dfa_has_match_table(1) [OF built_made [OF assms(2)]] table_has_match_alt by simp
  then show ?thesis
  proof
    assume "d_accept d ! d_start d"
    then have "fst (snd (sts ! d_start d))" using built_facts(1) [OF assms(2) s0(1)] by simp
    then show ?thesis using cl by (auto simp: st_claims_def claims_def at_offset_def found_def)
  next
    assume "table_loop d (d_start d) w"
    then show ?thesis using table_loop_sound [OF assms(1,2), of w 0 w] s0(1) cl by simp
  qed
qed

lemma dfa_complete:
  assumes "compiled p r" "built p sheng anch sts d" "no_eol p" "found p w anch"
  shows "dfa_has_match d w"
proof -
  have le: "length (pv_code p) \<le> 256" using assms(2) by (simp add: built_def)
  obtain s0 where s0: "d_start d < length sts" "sts ! d_start d = state_of s0" "dfa_eclose (eclose_depth p) p 0 True False (no_closure p) = Some s0"
    using assms(2) by (auto simp: built_def finish_dfa_def Let_def)
  have cl: "st_claims p (at_offset p w anch 0) (sts ! d_start d)" "st_full p (entered p w anch 0) (sts ! d_start d)"
    using start_state_ok [OF assms(1) le] s0(2,3) assms(3) by (metis option.inject st_claims_state_of)+
  obtain k x where k: "k \<le> length w" "x < length (pv_code p)" "is_match p x" "entered p w anch k x" using assms(4) by (auto simp: found_def)
  have "d_accept d ! d_start d \<or> table_loop d (d_start d) w"
  proof (cases "k = 0")
    case True then show ?thesis using cl(2) k built_facts(1) [OF assms(2) s0(1)] by (auto simp: st_full_def)
  next
    case False
    then show ?thesis using table_loop_complete [OF assms(1-3), of w 0 w "d_start d" k x] s0(1) cl k by simp
  qed
  then show ?thesis using dfa_has_match_table(1) [OF built_made [OF assms(2)]] table_has_match_alt by simp
qed

text \<open>An anchored automaton misses nothing: no match can begin later.\<close>

lemma anchored_starts:
  assumes "compiled p r" "length (pv_code p) \<le> 256" "start_anchored p = Some True" "no_eol p" "i \<le> length w" "(i, j) \<in> sem w (pv_cls p) r"
  shows "i = 0"
proof (rule ccontr)
  assume "i \<noteq> 0"
  have P: "pv_code p = program_of r" "plain r" using assms(1) by (simp_all add: compiled_def)
  let ?m = "vm_for p w False" let ?L = "last_pc (pv_code p)"
  have st: "steps ?m (0, i) (?L, j)" using program_matches [OF P(2)] assms(6) by (simp add: P(1))
  have p0: "0 < length (pv_code p)" "?L < length (pv_code p)" using compiled_length [OF assms(1)] by linarith+
  have lf: "leaf (insts ?m ! ?L)" using compiled_match [OF assms(1) p0(2)] by (simp add: leaf_def)
  obtain pc where pc: "leaf (pv_code p ! pc)" "steps ?m (0, i) (pc, i)"
    using path_crosses [OF st order_refl steps_mono [OF st] lf] by auto
  then have rc: "reach ?m i 0 pc" using path_arrives [OF pc(2)] by auto
  from eclose_from [OF assms(1,2) p0(1) no_closure_facts(1)]
  obtain s where s: "dfa_eclose (eclose_depth p) p 0 False False (no_closure p) = Some s" "gains p False {(False, 0)} (no_closure p) s" by metis
  have cl: "closed_at p False s" "0 \<in> visited p s" "sane p s" using gains_from_nothing(1,3) [OF s(2)] assms(4) by auto
  have v: "pc \<in> visited p s" using closed_reach [OF assms(1,4) _ rc cl(2,3) p0(1)] cl(1) \<open>i \<noteq> 0\<close> by simp
  have none: "c_key s ! 0 = 0" "c_key s ! 1 = 0" "c_key s ! 2 = 0" "c_key s ! 3 = 0" "\<not> c_accept s"
    using assms(3) s(1) by (auto simp: start_anchored_def split: if_splits)
  then have "\<not> cr_any (c_key s)" by (simp add: cr_any_def)
  then have "key_pcs (c_key s) = {}" by (simp add: key_pcs_alt cr_any_bytes)
  then have "\<not> reader p pc" "\<not> is_match p pc" using v cl(1,3) none(5) by (auto simp: visited_def closed_at_def sane_def)
  then show False using pc(1) by (auto simp: leaf_def reader_def is_match_def)
qed

lemma dfa_answers:
  assumes "compiled p r" "built p sheng anch sts d"
  shows "dfa_has_match d w \<Longrightarrow> \<exists>i j. i \<le> length w \<and> (i, j) \<in> sem w (pv_cls p) r"
    "no_eol p \<Longrightarrow> i \<le> length w \<Longrightarrow> (i, j) \<in> sem w (pv_cls p) r \<Longrightarrow> dfa_has_match d w"
proof -
  show "dfa_has_match d w \<Longrightarrow> \<exists>i j. i \<le> length w \<and> (i, j) \<in> sem w (pv_cls p) r"
    using dfa_sound [OF assms] found_sem [OF assms(1)] by blast
  assume n: "no_eol p" "i \<le> length w" "(i, j) \<in> sem w (pv_cls p) r"
  have "i = 0" if anch
    using anchored_starts [OF assms(1) _ _ n] assms(2) that by (simp add: built_def)
  then show "dfa_has_match d w" using dfa_complete [OF assms n(1)] found_sem [OF assms(1)] n(2,3) by blast
qed

end
