(* ===== verification/Regex_Search.thy ===== *)
theory Regex_Search
  imports Regex_Dfa
begin

text \<open>
  The searching interface (\<^verbatim>\<open>src/src/regex/regex.hpp\<close>, \<^verbatim>\<open>prefilter.hpp\<close>): a pattern is compiled once, with the bytes that can begin a
  match and perhaps an automaton; a search scans for such a byte and runs the machine from there, or from the start of the
  text when this does not pay; the test for a match may ask the automaton instead.
\<close>

subsection \<open>The bytes that can begin a match\<close>

record first_info =
  fi_seen :: "bool list"
  fi_first :: charreach
  fi_nullable :: bool

fun first_walk :: "nat \<Rightarrow> prog_view \<Rightarrow> nat \<Rightarrow> first_info \<Rightarrow> first_info option" where
  "first_walk 0 p pc s = None"
| "first_walk (Suc f) p pc s =
     (if pc \<ge> length (pv_code p) \<or> fi_seen s ! pc then Some s
      else
        let s1 = s\<lparr>fi_seen := (fi_seen s)[pc := True]\<rparr>; I = pv_code p ! pc
        in case opc I of
             Op_Char \<Rightarrow> Some (s1\<lparr>fi_first := cr_set (fi_first s1) (of_nat (ix I))\<rparr>)
           | Op_Class \<Rightarrow> Some (if ix I < length (pv_cls p) then s1\<lparr>fi_first := cr_or (fi_first s1) (pv_cls p ! ix I)\<rparr> else s1)
           | Op_Any \<Rightarrow> Some (s1\<lparr>fi_first := cr_set_all (fi_first s1)\<rparr>)
           | Op_Match \<Rightarrow> Some (s1\<lparr>fi_nullable := True\<rparr>)
           | Op_Jmp \<Rightarrow> first_walk f p (ix I) s1
           | Op_Split \<Rightarrow> do { s2 \<leftarrow> first_walk f p (ix I) s1; first_walk f p (iy I) s2 }
           | _ \<Rightarrow> first_walk f p (pc + 1) s1)"

definition compute_first :: "prog_view \<Rightarrow> first_info option" where
  "compute_first p =
     (let s0 = \<lparr>fi_seen = replicate (length (pv_code p)) False, fi_first = cr_none, fi_nullable = False\<rparr>
      in if length (pv_code p) \<noteq> 0 then first_walk (length (pv_code p) + 1) p 0 s0 else Some s0)"

subsection \<open>Compiling\<close>

definition kMaxGroups :: nat where
  "kMaxGroups = 32"

record regex =
  rx_pv :: prog_view
  rx_ok :: bool
  rx_first :: charreach
  rx_nullable :: bool
  rx_dfa :: "dfa option"
  rx_prefer_dfa :: bool

definition empty_view :: prog_view where
  "empty_view = \<lparr>pv_code = [], pv_cls = [], pv_ngroups = 0\<rparr>"

definition invalid_regex :: regex where
  "invalid_regex = \<lparr>rx_pv = empty_view, rx_ok = False, rx_first = cr_none, rx_nullable = False, rx_dfa = None, rx_prefer_dfa = False\<rparr>"

text \<open>An instruction over which a run of the machine is long.\<close>

definition prefers_dfa :: "prog_view \<Rightarrow> inst \<Rightarrow> bool" where
  "prefers_dfa p I \<longleftrightarrow> opc I = Op_Any \<or> opc I = Op_Bol \<or>
     opc I = Op_Class \<and> ix I < length (pv_cls p) \<and> cr_count (pv_cls p ! ix I) > 200"

definition build :: "bool \<Rightarrow> byte list \<Rightarrow> regex option" where
  "build sheng pattern =
     (let len = length pattern; mn = len * 4 + 16; mc = len + 8; mi = len * 8 + 32
      in case compile_regex pattern mn mc mi of
           None \<Rightarrow> Some invalid_regex
         | Some p \<Rightarrow>
             if pv_ngroups p > kMaxGroups then Some (invalid_regex\<lparr>rx_pv := p\<rparr>)
             else
               do { fi \<leftarrow> compute_first p;
                    d \<leftarrow> build_dfa sheng p;
                    let fc = cr_count (fi_first fi); pf_usable = (\<not> fi_nullable fi \<and> fc \<ge> 1 \<and> fc < 256);
                        prefer = (case d of
                                    None \<Rightarrow> False
                                  | Some a \<Rightarrow>
                                      if \<not> pf_usable then True
                                      else if d_accel_type a ! d_start a \<noteq> 0 then True
                                      else list_ex (prefers_dfa p) (pv_code p))
                    in Some \<lparr>rx_pv = p, rx_ok = True, rx_first = fi_first fi, rx_nullable = fi_nullable fi, rx_dfa = d, rx_prefer_dfa = prefer\<rparr> })"

subsection \<open>Results of a search\<close>

record rmatch =
  r_matched :: bool
  r_ng :: nat
  r_base :: "byte list option"
  r_caps :: "int list"

definition no_match :: rmatch where
  "no_match = \<lparr>r_matched = False, r_ng = 0, r_base = None, r_caps = replicate (2 * (kMaxGroups + 1)) 0\<rparr>"

definition groups :: "rmatch \<Rightarrow> nat" where
  "groups r = r_ng r"

definition group_start :: "rmatch \<Rightarrow> nat \<Rightarrow> int" where
  "group_start r i = (if r_matched r \<and> i < r_ng r then r_caps r ! (2 * i) else - 1)"

definition group_end :: "rmatch \<Rightarrow> nat \<Rightarrow> int" where
  "group_end r i = (if r_matched r \<and> i < r_ng r then r_caps r ! (2 * i + 1) else - 1)"

definition group :: "rmatch \<Rightarrow> nat \<Rightarrow> byte list" where
  "group r i =
     (if \<not> r_matched r \<or> i \<ge> r_ng r then []
      else
        let a = r_caps r ! (2 * i); b = r_caps r ! (2 * i + 1)
        in if a < 0 \<or> b < 0 \<or> b < a then []
           else case r_base r of None \<Rightarrow> [] | Some w \<Rightarrow> take (nat (b - a)) (drop (nat a) w))"

text \<open>Slots are copied as far as both arrays go.\<close>

definition copy_caps :: "vm \<Rightarrow> int list \<Rightarrow> int list" where
  "copy_caps m caps = fold (\<lambda>s c. if s < 2 * (kMaxGroups + 1) then c[s := mcaps m ! s] else c) [0..<nslots m] caps"

definition finish_match :: "rmatch \<Rightarrow> vm \<Rightarrow> byte list \<Rightarrow> nat \<Rightarrow> rmatch option" where
  "finish_match r m w ng =
     do { m' \<leftarrow> run m;
          Some (r\<lparr>r_matched := matched m', r_base := Some w, r_ng := ng + 1,
                  r_caps := (if matched m' then copy_caps m' (r_caps r) else r_caps r)\<rparr>) }"

subsection \<open>Searching\<close>

definition candidate :: "byte list \<Rightarrow> nat \<Rightarrow> byte \<Rightarrow> truffle_masks \<Rightarrow> nat \<Rightarrow> nat option" where
  "candidate w fc single tm at =
     (if fc = 1 then map_option (\<lambda>i. at + i) (memchr (drop at w) single)
      else
        let idx = truffle_find_first (drop at w) tm
        in if idx \<ge> length w - at then None else Some (at + idx))"

definition kMaxFailedAttempts :: nat where
  "kMaxFailedAttempts = 32"

function search_loop :: "byte list \<Rightarrow> nat \<Rightarrow> byte \<Rightarrow> truffle_masks \<Rightarrow> nat \<Rightarrow> nat \<Rightarrow> vm \<Rightarrow> (bool \<times> nat \<times> vm) option" where
  "search_loop w fc single tm at attempts m =
     (if at < length w then
        case candidate w fc single tm at of
          None \<Rightarrow> Some (False, attempts, m)
        | Some cstart \<Rightarrow>
            do { m' \<leftarrow> run (m\<lparr>start_at := cstart\<rparr>);
                 if matched m' then Some (True, attempts, m')
                 else if attempts + 1 > kMaxFailedAttempts then Some (False, attempts + 1, m')
                 else search_loop w fc single tm (cstart + 1) (attempts + 1) m' }
      else Some (False, attempts, m))"
  by pat_completeness auto
termination
  by (relation "measure (\<lambda>(w, _, _, _, at, _, _). length w - at)")
    (auto simp: candidate_def Let_def split: if_splits)

declare search_loop.simps [simp del]

definition do_search :: "regex \<Rightarrow> byte list \<Rightarrow> bool \<Rightarrow> rmatch option" where
  "do_search x w anch =
     (if \<not> rx_ok x then Some no_match
      else
        let m0 = vm_for (rx_pv x) w anch; ng = pv_ngroups (rx_pv x); fc = cr_count (rx_first x)
        in if \<not> anch \<and> \<not> rx_nullable x \<and> fc \<ge> 1 \<and> fc < 256 then
             let single = (if fc = 1 then of_nat (cr_single (rx_first x)) else 0);
                 tm = (if fc > 1 then truffle_build (rx_first x) else \<lparr>lo_clear = replicate 16 0, lo_set = replicate 16 0\<rparr>)
             in do { (hit, attempts, m) \<leftarrow> search_loop w fc single tm 0 0 (m0\<lparr>anchored := True\<rparr>);
                     if hit then
                       Some (no_match\<lparr>r_matched := True, r_base := Some w, r_ng := ng + 1, r_caps := copy_caps m (r_caps no_match)\<rparr>)
                     else if attempts \<le> kMaxFailedAttempts then
                       Some (no_match\<lparr>r_matched := False, r_base := Some w, r_ng := ng + 1\<rparr>)
                     else finish_match no_match (m\<lparr>anchored := anch, start_at := 0\<rparr>) w ng }
           else finish_match no_match (m0\<lparr>anchored := anch, start_at := 0\<rparr>) w ng)"

definition search :: "regex \<Rightarrow> byte list \<Rightarrow> rmatch option" where
  "search x w = do_search x w False"

definition has_match :: "regex \<Rightarrow> byte list \<Rightarrow> bool option" where
  "has_match x w =
     (if \<not> rx_ok x then Some False
      else
        case (rx_dfa x, rx_prefer_dfa x) of
          (Some d, True) \<Rightarrow> Some (dfa_has_match d w)
        | _ \<Rightarrow> map_option r_matched (do_search x w False))"

definition has_match_path :: "regex \<Rightarrow> nat" where
  "has_match_path x =
     (case (rx_dfa x, rx_prefer_dfa x) of
        (Some d, True) \<Rightarrow> if d_has_accel d then 4 else if d_has_sheng d then 3 else 2
      | _ \<Rightarrow>
          if \<not> rx_nullable x \<and> cr_count (rx_first x) \<ge> 1 \<and> cr_count (rx_first x) < 256 then 1 else 0)"

definition valid :: "regex \<Rightarrow> bool" where
  "valid x = rx_ok x"

definition uses_sheng :: "regex \<Rightarrow> bool" where
  "uses_sheng x = (case rx_dfa x of None \<Rightarrow> False | Some d \<Rightarrow> d_has_sheng d)"

definition uses_dfa :: "regex \<Rightarrow> bool" where
  "uses_dfa x = (rx_dfa x \<noteq> None)"

definition dfa_states :: "regex \<Rightarrow> nat" where
  "dfa_states x = (case rx_dfa x of None \<Rightarrow> 0 | Some d \<Rightarrow> length (d_table d))"

text \<open>
  Moving: the new object takes everything, the old one keeps its flags but loses its arrays (empty here) and is no longer valid.  Assignment
  to itself does nothing.  Both return the new object and the old one.
\<close>

definition move_construct :: "regex \<Rightarrow> regex \<times> regex" where
  "move_construct o' = (o', o'\<lparr>rx_pv := (rx_pv o')\<lparr>pv_code := [], pv_cls := []\<rparr>, rx_dfa := None, rx_ok := False\<rparr>)"

definition move_assign :: "bool \<Rightarrow> regex \<Rightarrow> regex \<Rightarrow> regex \<times> regex" where
  "move_assign self x o' = (if self then (x, x) else move_construct o')"

text \<open>\<^verbatim>\<open>cmatch\<close>: the pattern is compiled for one match, with arrays sized from it.\<close>

definition cmatch :: "byte list \<Rightarrow> byte list \<Rightarrow> rmatch option" where
  "cmatch pattern w =
     (let n = length pattern; mn = n * 4 + 8; mc = n + 4; mi = n * 8 + 16; maxg = (if n < kMaxGroups then n else kMaxGroups)
      in case compile_regex pattern mn mc mi of
           None \<Rightarrow> Some no_match
         | Some p \<Rightarrow>
             if pv_ngroups p > maxg then Some no_match
             else finish_match no_match (vm_for p w False) w (pv_ngroups p))"

text \<open>The subject of a search that is given as a C string ends at its first zero byte.\<close>

definition as_subject :: "byte list \<Rightarrow> byte list" where
  "as_subject s = takeWhile (\<lambda>c. c \<noteq> 0) s"

subsection \<open>The prefilter loses no match\<close>

text \<open>The successors the walk follows: every assertion may hold.\<close>

definition after :: "prog_view \<Rightarrow> nat \<Rightarrow> nat list" where
  "after p pc =
     (case opc (pv_code p ! pc) of
        Op_Jmp \<Rightarrow> [ix (pv_code p ! pc)]
      | Op_Split \<Rightarrow> [ix (pv_code p ! pc), iy (pv_code p ! pc)]
      | Op_Save \<Rightarrow> [pc + 1]
      | Op_Bol \<Rightarrow> [pc + 1]
      | Op_Eol \<Rightarrow> [pc + 1]
      | _ \<Rightarrow> [])"

primrec first_walks :: "nat \<Rightarrow> prog_view \<Rightarrow> nat list \<Rightarrow> first_info \<Rightarrow> first_info option" where
  "first_walks f p [] s = Some s"
| "first_walks f p (y # ys) s = do { s' \<leftarrow> first_walk f p y s; first_walks f p ys s' }"

definition fi_pcs :: "first_info \<Rightarrow> nat set" where
  "fi_pcs s = {x. x < length (fi_seen s) \<and> fi_seen s ! x}"

text \<open>The part of an instruction in the result.\<close>

definition noted :: "prog_view \<Rightarrow> first_info \<Rightarrow> nat \<Rightarrow> bool" where
  "noted p s x \<longleftrightarrow> (\<forall>c. consumes (pv_cls p) (pv_code p ! x) c \<longrightarrow> c \<in> cr_bytes (fi_first s)) \<and> (is_match p x \<longrightarrow> fi_nullable s)"

definition fi_fits :: "prog_view \<Rightarrow> first_info \<Rightarrow> bool" where
  "fi_fits p s \<longleftrightarrow> length (fi_seen s) = length (pv_code p) \<and> cr_wf (fi_first s)"

definition widens :: "first_info \<Rightarrow> first_info \<Rightarrow> bool" where
  "widens s s' \<longleftrightarrow> fi_pcs s \<subseteq> fi_pcs s' \<and> cr_bytes (fi_first s) \<subseteq> cr_bytes (fi_first s') \<and> (fi_nullable s \<longrightarrow> fi_nullable s')"

definition collects :: "prog_view \<Rightarrow> nat set \<Rightarrow> first_info \<Rightarrow> first_info \<Rightarrow> bool" where
  "collects p Y s s' \<longleftrightarrow> fi_fits p s' \<and> widens s s' \<and> Y \<subseteq> fi_pcs s' \<and>
     (\<forall>x \<in> fi_pcs s' - fi_pcs s. set (after p x) \<subseteq> fi_pcs s' \<and> noted p s' x)"

lemma widens_trans: "widens s s1 \<Longrightarrow> widens s1 s2 \<Longrightarrow> widens s s2"
  by (auto simp: widens_def)

lemma noted_widens: "noted p s x \<Longrightarrow> widens s s' \<Longrightarrow> noted p s' x"
  by (auto simp: noted_def widens_def)

lemma collects_append:
  assumes "collects p Y s s1" "collects p Z s1 s2"
  shows "collects p (Y \<union> Z) s s2"
proof -
  have w: "widens s s2" "widens s1 s2" using assms widens_trans by (auto simp: collects_def)
  have "set (after p x) \<subseteq> fi_pcs s2 \<and> noted p s2 x" if "x \<in> fi_pcs s2 - fi_pcs s" for x
  proof (cases "x \<in> fi_pcs s1")
    case True
    then have "set (after p x) \<subseteq> fi_pcs s1" "noted p s1 x" using assms(1) that by (auto simp: collects_def)
    then show ?thesis using w(2) noted_widens [OF _ w(2)] by (auto simp: widens_def)
  next
    case False then show ?thesis using assms(2) that by (auto simp: collects_def)
  qed
  moreover have "Y \<union> Z \<subseteq> fi_pcs s2" "fi_fits p s2" using assms w(2) by (auto simp: collects_def widens_def)
  ultimately show ?thesis using w(1) by (simp add: collects_def)
qed

lemma fi_pcs_mark:
  "pc < length (fi_seen s) \<Longrightarrow> fi_pcs (s\<lparr>fi_seen := (fi_seen s)[pc := True]\<rparr>) = insert pc (fi_pcs s)"
  by (auto simp: fi_pcs_def nth_list_update)

lemma collects_mark:
  assumes "pc < length (pv_code p)" "fi_fits p s" "collects p (set (after p pc)) (s\<lparr>fi_seen := (fi_seen s)[pc := True]\<rparr>) s'" "noted p s' pc"
  shows "collects p {pc} s s'"
  using assms fi_pcs_mark [of pc s] unfolding collects_def widens_def fi_fits_def by auto

lemma walk_seen: "fi_seen s ! pc \<Longrightarrow> first_walk (Suc f) p pc s = Some s"
  by simp

lemma walk_node:
  assumes "pc < length (pv_code p)" "\<not> fi_seen s ! pc" "\<not> leaf (pv_code p ! pc)"
  shows "first_walk (Suc f) p pc s = first_walks f p (after p pc) (s\<lparr>fi_seen := (fi_seen s)[pc := True]\<rparr>)"
  using assms by (cases "opc (pv_code p ! pc)") (simp_all add: leaf_def after_def Let_def)

lemma walk_leaf:
  assumes "compiled p r" "pc < length (pv_code p)" "\<not> fi_seen s ! pc" "leaf (pv_code p ! pc)" "fi_fits p s"
  shows "\<exists>s'. first_walk (Suc f) p pc s = Some s' \<and> collects p {pc} s s'"
proof -
  let ?s1 = "s\<lparr>fi_seen := (fi_seen s)[pc := True]\<rparr>" and ?I = "pv_code p ! pc"
  have wf: "cr_wf (pv_cls p ! ix ?I)" if "opc ?I = Op_Class"
    using assms(1) compiled_class [OF assms(1,2) that] by (auto simp: compiled_def)
  have a: "after p pc = []" using assms(4) by (auto simp: leaf_def after_def)
  have fin: "\<exists>s'. first_walk (Suc f) p pc s = Some s' \<and> collects p {pc} s s'"
    if "first_walk (Suc f) p pc s = Some s'" "fi_seen s' = fi_seen ?s1" "fi_fits p s'" "widens ?s1 s'" "noted p s' pc" for s'
  proof -
    have "fi_pcs s' = fi_pcs ?s1" using that(2) by (simp add: fi_pcs_def)
    then have "collects p (set (after p pc)) ?s1 s'" using that a by (simp add: collects_def)
    then show ?thesis using that(1) collects_mark [OF assms(2,5) _ that(5)] by blast
  qed
  consider "opc ?I = Op_Char" | "opc ?I = Op_Class" | "opc ?I = Op_Any" | "opc ?I = Op_Match" using assms(4) by (auto simp: leaf_def)
  then show ?thesis
  proof cases
    case 1
    then have "c = of_nat (ix ?I)" if "consumes (pv_cls p) ?I c" for c using that by (simp add: consumes_def)
    then show ?thesis using assms 1 by (intro fin [of "?s1\<lparr>fi_first := cr_set (fi_first s) (of_nat (ix ?I))\<rparr>"])
        (auto simp: fi_fits_def widens_def fi_pcs_def noted_def is_match_def)
  next
    case 2
    then show ?thesis using assms wf compiled_class [OF assms(1,2) 2] by (intro fin [of "?s1\<lparr>fi_first := cr_or (fi_first s) (pv_cls p ! ix ?I)\<rparr>"])
        (auto simp: fi_fits_def widens_def fi_pcs_def noted_def is_match_def consumes_def cr_test_bytes)
  next
    case 3
    then show ?thesis using assms by (intro fin [of "?s1\<lparr>fi_first := cr_set_all (fi_first s)\<rparr>"])
        (auto simp: fi_fits_def widens_def fi_pcs_def noted_def is_match_def)
  next
    case 4
    then show ?thesis using assms by (intro fin [of "?s1\<lparr>fi_nullable := True\<rparr>"])
        (auto simp: fi_fits_def widens_def fi_pcs_def noted_def consumes_def)
  qed
qed

declare first_walk.simps(2) [simp del]

lemma after_range:
  assumes "compiled p r" "pc < length (pv_code p)" "y \<in> set (after p pc)"
  shows "y < length (pv_code p)"
  using compiled_inst [OF assms(1,2)] compiled_length [OF assms(1)] assms(3)
  by (auto simp: after_def inst_ok_def split: op.splits)

definition fi_left :: "prog_view \<Rightarrow> first_info \<Rightarrow> nat" where
  "fi_left p s = card ({..<length (pv_code p)} - fi_pcs s)"

lemma fi_left_mono: "widens s s' \<Longrightarrow> fi_left p s' \<le> fi_left p s"
  unfolding fi_left_def by (intro card_mono) (auto simp: widens_def)

lemma fi_left_mark:
  assumes "pc < length (pv_code p)" "\<not> fi_seen s ! pc" "fi_fits p s"
  shows "fi_left p (s\<lparr>fi_seen := (fi_seen s)[pc := True]\<rparr>) < fi_left p s"
proof -
  have "fi_pcs (s\<lparr>fi_seen := (fi_seen s)[pc := True]\<rparr>) = insert pc (fi_pcs s)" using assms by (simp add: fi_pcs_mark fi_fits_def)
  moreover have "pc \<notin> fi_pcs s" using assms(2) by (simp add: fi_pcs_def)
  ultimately show ?thesis unfolding fi_left_def using assms(1) by (intro psubset_card_mono) auto
qed

lemma collects_refl: "fi_fits p s \<Longrightarrow> Y \<subseteq> fi_pcs s \<Longrightarrow> collects p Y s s"
  by (simp add: collects_def widens_def)

lemma noted_node: "\<not> leaf (pv_code p ! pc) \<Longrightarrow> noted p s pc"
  by (auto simp: noted_def leaf_def is_match_def consumes_def split: op.splits)

lemma first_walks_collects:
  assumes "\<And>y s. y \<in> set ys \<Longrightarrow> fi_fits p s \<Longrightarrow> fi_left p s < f \<Longrightarrow> \<exists>s'. first_walk f p y s = Some s' \<and> collects p {y} s s'"
  shows "fi_fits p s \<Longrightarrow> fi_left p s < f \<Longrightarrow> \<exists>s'. first_walks f p ys s = Some s' \<and> collects p (set ys) s s'"
  using assms
proof (induction ys arbitrary: s)
  case Nil then show ?case by (simp add: collects_refl)
next
  case (Cons y ys)
  obtain s1 where s1: "first_walk f p y s = Some s1" "collects p {y} s s1" using Cons.prems by fastforce
  then have "fi_fits p s1" "fi_left p s1 < f" using Cons.prems(2) fi_left_mono [of s s1 p] by (auto simp: collects_def)
  then obtain s2 where "first_walks f p ys s1 = Some s2" "collects p (set ys) s1 s2" using Cons.IH Cons.prems(3) by fastforce
  then show ?case using s1 collects_append [OF s1(2)] by auto
qed

lemma first_walk_collects:
  assumes "compiled p r"
  shows "pc < length (pv_code p) \<Longrightarrow> fi_fits p s \<Longrightarrow> fi_left p s < f \<Longrightarrow> \<exists>s'. first_walk f p pc s = Some s' \<and> collects p {pc} s s'"
proof (induction f arbitrary: pc s)
  case (Suc f)
  let ?s1 = "s\<lparr>fi_seen := (fi_seen s)[pc := True]\<rparr>"
  consider "fi_seen s ! pc" | "\<not> fi_seen s ! pc" "leaf (pv_code p ! pc)" | "\<not> fi_seen s ! pc" "\<not> leaf (pv_code p ! pc)" by blast
  then show ?case
  proof cases
    case 1
    then have "collects p {pc} s s" using Suc.prems(1,2) by (intro collects_refl) (auto simp: fi_pcs_def fi_fits_def)
    then show ?thesis using 1 by (simp add: first_walk.simps(2))
  next
    case 2 then show ?thesis using walk_leaf [OF assms Suc.prems(1)] Suc.prems(2) by blast
  next
    case 3
    have "fi_fits p ?s1" "fi_left p ?s1 < f" using fi_left_mark [OF Suc.prems(1) 3(1) Suc.prems(2)] Suc.prems(2,3) by (auto simp: fi_fits_def)
    then obtain s' where "first_walks f p (after p pc) ?s1 = Some s'" "collects p (set (after p pc)) ?s1 s'"
      using first_walks_collects [of "after p pc" p f ?s1] Suc.IH after_range [OF assms Suc.prems(1)] by blast
    then show ?thesis using walk_node [OF Suc.prems(1) 3] collects_mark [OF Suc.prems(1,2)] noted_node [OF 3(2)] by auto
  qed
qed simp

lemma compute_first_closed:
  assumes "compiled p r"
  obtains fi where "compute_first p = Some fi" "cr_wf (fi_first fi)" "0 \<in> fi_pcs fi" "\<forall>x \<in> fi_pcs fi. set (after p x) \<subseteq> fi_pcs fi \<and> noted p fi x"
proof -
  let ?s = "\<lparr>fi_seen = replicate (length (pv_code p)) False, fi_first = cr_none, fi_nullable = False\<rparr>"
  have "0 < length (pv_code p)" using compiled_length [OF assms] by linarith
  moreover have "fi_fits p ?s" "fi_pcs ?s = {}" by (auto simp: fi_fits_def fi_pcs_def)
  moreover have "fi_left p ?s < length (pv_code p) + 1" by (simp add: fi_left_def \<open>fi_pcs ?s = {}\<close>)
  ultimately obtain s' where "first_walk (length (pv_code p) + 1) p 0 ?s = Some s'" "collects p {0} ?s s'"
    using first_walk_collects [OF assms] by blast
  then show thesis using that [of s'] \<open>0 < length (pv_code p)\<close> \<open>fi_pcs ?s = {}\<close>
    unfolding compute_first_def Let_def collects_def fi_fits_def by auto
qed

lemma path_departs:
  assumes "steps m (0, i) (x, j)"
  shows "j = i \<and> reach m i 0 x \<or>
    (\<exists>pc < length (insts m). reach m i 0 pc \<and> i < length (inp m) \<and> consumes (pv_cls (pv m)) (insts m ! pc) (inp m ! i))"
proof -
  have "snd c = i \<and> reach m i 0 (fst c) \<or>
    (\<exists>pc < length (insts m). reach m i 0 pc \<and> i < length (inp m) \<and> consumes (pv_cls (pv m)) (insts m ! pc) (inp m ! i))"
    if "steps m (0, i) c" for c
    using that
  proof (induction rule: rtranclp_induct)
    case base show ?case by (simp add: reach_def)
  next
    case (step y z)
    show ?case
    proof (cases "snd y = i \<and> reach m i 0 (fst y)")
      case True
      show ?thesis using step.hyps(2) True unfolding reach_def
        by (cases rule: mstep.cases) (auto simp: succs_def intro: rtranclp.rtrancl_into_rtrancl)
    next
      case False then show ?thesis using step.IH by blast
    qed
  qed
  from this [OF assms] show ?thesis by simp
qed

text \<open>A match is empty, and the pattern is then noted as nullable, or begins with a byte that was collected.\<close>

lemma first_bytes:
  assumes "compiled p r" "compute_first p = Some fi" "i \<le> length w" "(i, j) \<in> sem w (pv_cls p) r" "\<not> fi_nullable fi"
  shows "i < length w \<and> w ! i \<in> cr_bytes (fi_first fi)"
proof -
  let ?m = "vm_for p w False" let ?L = "last_pc (pv_code p)"
  have P: "pv_code p = program_of r" "plain r" using assms(1) by (simp_all add: compiled_def)
  have st: "steps ?m (0, i) (?L, j)" using program_matches [OF P(2)] assms(4) by (simp add: P(1))
  have L: "?L < length (pv_code p)" using compiled_length [OF assms(1)] by linarith
  obtain "0 \<in> fi_pcs fi" and cl: "\<forall>x \<in> fi_pcs fi. set (after p x) \<subseteq> fi_pcs fi \<and> noted p fi x"
    using compute_first_closed [OF assms(1)] assms(2) by (metis option.inject)
  have sub: "set (succs ?m i x) \<subseteq> set (after p x)" for x by (auto simp: succs_def eps_def after_def split: op.splits if_splits)
  have r: "x \<in> fi_pcs fi" if "reach ?m i 0 x" for x
    using that unfolding reach_def by (induction rule: rtranclp_induct) (use \<open>0 \<in> fi_pcs fi\<close> cl sub in blast)+
  have "\<not> reach ?m i 0 ?L" using r [of ?L] cl assms(5) compiled_match [OF assms(1) L] by (auto simp: noted_def is_match_def)
  then obtain pc where "reach ?m i 0 pc" "i < length w" "consumes (pv_cls p) (pv_code p ! pc) (w ! i)"
    using path_departs [OF st] by auto
  then show ?thesis using r cl by (auto simp: noted_def)
qed

subsection \<open>The search\<close>

text \<open>The next offset at or after a given one with a byte of a set.\<close>

definition scans :: "byte set \<Rightarrow> byte list \<Rightarrow> nat \<Rightarrow> nat option \<Rightarrow> bool" where
  "scans B w at res \<longleftrightarrow>
     (case res of
        None \<Rightarrow> \<forall>i. at \<le> i \<longrightarrow> i < length w \<longrightarrow> w ! i \<notin> B
      | Some c \<Rightarrow> at \<le> c \<and> c < length w \<and> w ! c \<in> B \<and> (\<forall>i. at \<le> i \<longrightarrow> i < c \<longrightarrow> w ! i \<notin> B))"

lemma scans_drop:
  assumes "at \<le> length w" "\<And>i. res = Some i \<Longrightarrow> i < length w - at \<and> drop at w ! i \<in> B"
    and "\<And>i. i < (case res of None \<Rightarrow> length w - at | Some k \<Rightarrow> k) \<Longrightarrow> drop at w ! i \<notin> B"
  shows "scans B w at (map_option (\<lambda>i. at + i) res)"
proof -
  have d: "drop at w ! (i - at) = w ! i" if "at \<le> i" for i using that assms(1) by simp
  have "w ! i \<notin> B" if "at \<le> i" "i - at < (case res of None \<Rightarrow> length w - at | Some k \<Rightarrow> k)" for i
    using assms(3) [OF that(2)] d [OF that(1)] by simp
  then show ?thesis using assms(1,2) by (cases res) (force simp: scans_def)+
qed

text \<open>The parameters of the scan for a set of bytes.\<close>

definition scan_byte :: "charreach \<Rightarrow> byte" where
  "scan_byte B = (if cr_count B = 1 then of_nat (cr_single B) else 0)"

definition scan_masks :: "charreach \<Rightarrow> truffle_masks" where
  "scan_masks B = (if cr_count B > 1 then truffle_build B else \<lparr>lo_clear = replicate 16 0, lo_set = replicate 16 0\<rparr>)"

lemma candidate_scans:
  assumes "1 \<le> cr_count B" "at \<le> length w"
  shows "scans (cr_bytes B) w at (candidate w (cr_count B) (scan_byte B) (scan_masks B) at)"
proof (cases "cr_count B = 1")
  case True
  then have B: "cr_bytes B = {scan_byte B}" using cr_single_bytes [of B] by (simp add: scan_byte_def)
  have "scans (cr_bytes B) w at (map_option (\<lambda>i. at + i) (memchr (drop at w) (scan_byte B)))"
  proof (intro scans_drop assms(2))
    fix i assume "i < (case memchr (drop at w) (scan_byte B) of None \<Rightarrow> length w - at | Some k \<Rightarrow> k)"
    then show "drop at w ! i \<notin> cr_bytes B"
      using memchr_None [of "drop at w"] memchr_Some [of "drop at w"] nth_mem [of i "drop at w"] unfolding B
      by (auto split: option.splits)
  qed (use memchr_Some [of "drop at w"] B in auto)
  then show ?thesis using True by (simp add: candidate_def)
next
  case False
  then have B: "truffle_bytes (scan_masks B) = cr_bytes B" using assms(1) by (simp add: scan_masks_def truffle_build_bytes)
  let ?i = "truffle_find_first (drop at w) (scan_masks B)"
  note sp = truffle_find_first_spec [of "drop at w" "scan_masks B", unfolded B]
  have "scans (cr_bytes B) w at (map_option (\<lambda>i. at + i) (if ?i \<ge> length w - at then None else Some ?i))"
    using sp truffle_find_first_le [of "drop at w" "scan_masks B"] by (intro scans_drop assms(2)) (auto split: if_splits)
  then show ?thesis using False by (auto simp: candidate_def Let_def split: if_splits)
qed

text \<open>The matches of an expression in a text.\<close>

definition spans :: "byte list \<Rightarrow> charreach list \<Rightarrow> re \<Rightarrow> (nat \<times> nat) set" where
  "spans w cs r = {(i, j). i \<le> length w \<and> (i, j) \<in> sem w cs r}"

text \<open>A machine that is ready for another run on the text, after \<open>k\<close> of them.\<close>

definition ready :: "prog_view \<Rightarrow> byte list \<Rightarrow> nat \<Rightarrow> vm \<Rightarrow> bool" where
  "ready p w k m \<longleftrightarrow> vm_ok m \<and> pv m = p \<and> inp m = w \<and> stamped m \<and> unat (gen m) \<le> k * (length w + 2)"

lemma ready_run:
  assumes "compiled p r" "ready p w k m" "(k + 1) * (length w + 2) < 2 ^ 32" "start_at m \<le> length w"
  obtains m' where "run m = Some m'" "ready p w (k + 1) m'" "anchored m' = anchored m"
    "reports m' {(i, j) \<in> spans w (pv_cls p) r. start_at m \<le> i \<and> (anchored m \<longrightarrow> i = start_at m)}"
proof -
  have m: "vm_ok m" "compiled (pv m) r" "stamped m" "start_at m \<le> length (inp m)" using assms by (simp_all add: ready_def)
  have "unat (gen m) + length (inp m) + 2 < 2 ^ 32" using assms(2,3) by (simp add: ready_def)
  from run_reports [OF m(1-3) this m(4)]
  obtain m' where m': "run m = Some m'" "static (m\<lparr>work := replicate (nslots m) (- 1)\<rparr>) m'" "stamped m'"
    "unat (gen m') \<le> unat (gen m) + length (inp m) + 2" "reports m' (matches m r)" .
  have st: "pv m' = pv m" "inp m' = inp m" "anchored m' = anchored m" using m'(2) by (simp_all add: static_def)
  have "vm_ok m'" using m(1) static_notions(1) [OF m'(2)] by (simp add: vm_ok_def)
  then have "ready p w (k + 1) m'" using m' assms(2) st by (simp add: ready_def)
  moreover have "matches m r = {(i, j) \<in> spans w (pv_cls p) r. start_at m \<le> i \<and> (anchored m \<longrightarrow> i = start_at m)}"
    using assms(2) by (auto simp: matches_def allowed_def spans_def ready_def)
  ultimately show thesis using that m'(1,5) st(3) by simp
qed

text \<open>What the loop over the candidates leaves: a match, the proof that there is none, or a machine to start over with.\<close>

definition looped :: "prog_view \<Rightarrow> byte list \<Rightarrow> re \<Rightarrow> bool \<times> nat \<times> vm \<Rightarrow> bool" where
  "looped p w r res =
     (case res of (hit, a, m) \<Rightarrow>
        if hit then matched m \<and> vm_ok m \<and> pv m = p \<and> reports m (spans w (pv_cls p) r)
        else if a \<le> kMaxFailedAttempts then spans w (pv_cls p) r = {}
        else ready p w (kMaxFailedAttempts + 1) m)"

lemma search_loop_finds:
  assumes "compiled p r" "34 * (length w + 2) < (2 :: nat) ^ 32" "1 \<le> cr_count B"
    and departs: "\<And>i j. (i, j) \<in> spans w (pv_cls p) r \<Longrightarrow> i < length w \<and> w ! i \<in> cr_bytes B"
  shows "ready p w k m \<Longrightarrow> anchored m \<Longrightarrow> at \<le> length w \<Longrightarrow> k \<le> 32 \<Longrightarrow> \<forall>(i, j) \<in> spans w (pv_cls p) r. at \<le> i \<Longrightarrow>
    \<exists>res. search_loop w (cr_count B) (scan_byte B) (scan_masks B) at k m = Some res \<and> looped p w r res"
proof (induction "length w - at" arbitrary: at k m rule: less_induct)
  case less
  let ?c = "candidate w (cr_count B) (scan_byte B) (scan_masks B) at" and ?S = "spans w (pv_cls p) r"
  have sc: "scans (cr_bytes B) w at ?c" using candidate_scans [OF assms(3) less.prems(3)] .
  show ?case
  proof (cases "at < length w")
    case False
    then have "?S = {}" using departs less.prems(5) by fastforce
    then show ?thesis using False less.prems(4) by (simp add: search_loop.simps [of w] looped_def kMaxFailedAttempts_def)
  next
    case at: True
    show ?thesis
    proof (cases ?c)
      case None
      then have "?S = {}" using sc departs less.prems(5) by (fastforce simp: scans_def)
      then show ?thesis using at None less.prems(4) by (simp add: search_loop.simps [of w] looped_def kMaxFailedAttempts_def)
    next
      case (Some c)
      then have c: "at \<le> c" "c < length w" "\<And>i. at \<le> i \<Longrightarrow> i < c \<Longrightarrow> w ! i \<notin> cr_bytes B" using sc by (auto simp: scans_def)
      have fromc: "c \<le> i" if "(i, j) \<in> ?S" for i j using c(3) [of i] departs [OF that] less.prems(5) that by fastforce
      let ?m = "m\<lparr>start_at := c\<rparr>"
      have rd: "ready p w k ?m" "start_at ?m \<le> length w" "anchored ?m" 
        using less.prems(1,2) c(2) by (auto simp: ready_def vm_ok_def stamped_def)
      have "(k + 1) * (length w + 2) \<le> 34 * (length w + 2)" using less.prems(4) by (intro mult_le_mono1) simp
      with assms(2) have "(k + 1) * (length w + 2) < 2 ^ 32" by linarith
      from ready_run [OF assms(1) rd(1) this rd(2)]
      obtain m' where m': "run ?m = Some m'" "ready p w (k + 1) m'" "anchored m'"
        "reports m' {(i, j) \<in> ?S. c \<le> i \<and> (anchored m \<longrightarrow> i = c)}" using rd(3) by auto
      show ?thesis
      proof (cases "matched m'")
        case True
        then obtain i j where "best {(i, j) \<in> ?S. c \<le> i \<and> (anchored m \<longrightarrow> i = c)} i j" "mcaps m' ! 0 = int i" "mcaps m' ! 1 = int j"
            "length (mcaps m') = nslots m'" using m'(4) unfolding reports_def by blast
        moreover from this have "best ?S i j" using fromc less.prems(2) unfolding best_def by fastforce
        ultimately have "reports m' ?S" using True unfolding reports_def best_def by blast
        then show ?thesis using at Some m' True by (simp add: search_loop.simps [of w] ready_def looped_def)
      next
        case nm: False
        then have nc: "(i, j) \<notin> ?S" if "i = c" for i j using m'(4) that less.prems(2) unfolding reports_def by auto
        show ?thesis
        proof (cases "k + 1 > 32")
          case True
          then have "k = 32" using less.prems(4) by simp
          then show ?thesis using at Some m' nm by (simp add: search_loop.simps [of w] kMaxFailedAttempts_def looped_def)
        next
          case False
          have "c + 1 \<le> i" if "(i, j) \<in> ?S" for i j using fromc [OF that] nc that by (cases "i = c") auto
          then have "\<exists>res. search_loop w (cr_count B) (scan_byte B) (scan_masks B) (c + 1) (k + 1) m' = Some res \<and> looped p w r res"
            using c at m'(2,3) False by (intro less.hyps) auto
          then show ?thesis using at Some m' nm False by (simp add: search_loop.simps [of w _ _ _ at] kMaxFailedAttempts_def)
        qed
      qed
    qed
  qed
qed

text \<open>Copying the slots of the machine.\<close>

lemma copy_caps_nth:
  "length (copy_caps m caps) = length caps"
  "s < nslots m \<Longrightarrow> nslots m \<le> 2 * (kMaxGroups + 1) \<Longrightarrow> length caps = 2 * (kMaxGroups + 1) \<Longrightarrow> copy_caps m caps ! s = mcaps m ! s"
proof -
  have l: "length (fold (\<lambda>s c. if s < n then c[s := f s] else c) xs cs) = length cs" for n xs and cs :: "int list" and f
    by (induction xs arbitrary: cs) auto
  then show "length (copy_caps m caps) = length caps" by (simp add: copy_caps_def)
  have "fold (\<lambda>s c. if s < n then c[s := f s] else c) [0..<k] cs ! s = f s" if "s < k" "k \<le> n" "length cs = n" for k n and cs :: "int list" and f
    using that by (induction k) (auto simp: nth_list_update l less_Suc_eq)
  then show "copy_caps m caps ! s = mcaps m ! s" if "s < nslots m" "nslots m \<le> 2 * (kMaxGroups + 1)" "length caps = 2 * (kMaxGroups + 1)"
    using that by (simp add: copy_caps_def)
qed

text \<open>What a result tells of the matches in a text.\<close>

definition answers :: "byte list \<Rightarrow> (nat \<times> nat) set \<Rightarrow> rmatch \<Rightarrow> bool" where
  "answers w S r \<longleftrightarrow> (r_matched r \<longleftrightarrow> S \<noteq> {}) \<and>
     (r_matched r \<longrightarrow> (\<exists>i j. best S i j \<and> group_start r 0 = int i \<and> group_end r 0 = int j \<and> group r 0 = take (j - i) (drop i w)))"

lemma answers_caps:
  assumes "vm_ok m" "pv_ngroups (pv m) \<le> kMaxGroups" "matched m" "reports m S" "\<And>i j. (i, j) \<in> S \<Longrightarrow> i \<le> j"
  shows "answers w S (no_match\<lparr>r_matched := True, r_base := Some w, r_ng := ng + 1, r_caps := copy_caps m (r_caps no_match)\<rparr>)"
proof -
  obtain i j where b: "S \<noteq> {}" "best S i j" "mcaps m ! 0 = int i" "mcaps m ! 1 = int j" using assms(3,4) by (auto simp: reports_def)
  have n: "1 < nslots m" "nslots m \<le> 2 * (kMaxGroups + 1)" using assms(1,2) by (auto simp: vm_ok_def)
  have c: "copy_caps m (r_caps no_match) ! 0 = int i" "copy_caps m (r_caps no_match) ! 1 = int j"
    using b(3,4) n copy_caps_nth(2) [of _ m] by (simp_all add: no_match_def)
  have "i \<le> j" using b(2) assms(5) by (auto simp: best_def)
  then have "nat (int j - int i) = j - i" by linarith
  with \<open>i \<le> j\<close> show ?thesis unfolding answers_def using b(1,2) c by (auto simp: group_start_def group_end_def group_def Let_def intro!: exI [of _ i] exI [of _ j])
qed

lemma answers_none: "S = {} \<Longrightarrow> \<not> r_matched r \<Longrightarrow> answers w S r"
  by (simp add: answers_def)

lemma finish_match_answers:
  assumes "compiled p r" "ready p w k m" "(k + 1) * (length w + 2) < 2 ^ 32" "start_at m = 0" "\<not> anchored m" "pv_ngroups p \<le> kMaxGroups"
    and "\<And>i j. (i, j) \<in> spans w (pv_cls p) r \<Longrightarrow> i \<le> j"
  shows "\<exists>res. finish_match no_match m w ng = Some res \<and> answers w (spans w (pv_cls p) r) res"
proof -
  from ready_run [OF assms(1-3)] obtain m' where m': "run m = Some m'" "ready p w (k + 1) m'" "reports m' (spans w (pv_cls p) r)"
    using assms(4,5) by auto
  show ?thesis
  proof (cases "matched m'")
    case True
    have "vm_ok m'" "pv_ngroups (pv m') \<le> kMaxGroups" using m'(2) assms(6) by (auto simp: ready_def)
    from answers_caps [OF this True m'(3) assms(7)] show ?thesis using m'(1) True by (simp add: finish_match_def)
  next
    case False
    then show ?thesis using m'(1,3) by (auto simp: finish_match_def reports_def intro!: answers_none)
  qed
qed

subsection \<open>The interface\<close>

text \<open>A compiled pattern, its first bytes and its automaton.\<close>

definition prepared :: "bool \<Rightarrow> regex \<Rightarrow> re \<Rightarrow> bool" where
  "prepared sheng x r \<longleftrightarrow> rx_ok x \<and> compiled (rx_pv x) r \<and> pv_ngroups (rx_pv x) \<le> kMaxGroups \<and>
     (\<exists>fi. compute_first (rx_pv x) = Some fi \<and> rx_first x = fi_first fi \<and> rx_nullable x = fi_nullable fi) \<and>
     (\<forall>d. rx_dfa x = Some d \<longrightarrow> (\<exists>anch sts. built (rx_pv x) sheng anch sts d))"

lemma build_prepared:
  assumes "compile_regex pattern (length pattern * 4 + 16) (length pattern + 8) (length pattern * 8 + 32) = Some p" "compiled p r" "pv_ngroups p \<le> kMaxGroups"
  shows "\<exists>x. build sheng pattern = Some x \<and> rx_pv x = p \<and> prepared sheng x r"
proof -
  obtain fi where fi: "compute_first p = Some fi" using compute_first_closed [OF assms(2)] by blast
  obtain d where d: "build_dfa sheng p = Some d" "\<forall>a. d = Some a \<longrightarrow> (\<exists>anch sts. built p sheng anch sts a)"
    using build_dfa_built [OF assms(2)] by blast
  show ?thesis using assms fi d by (simp add: build_def Let_def prepared_def)
qed

text \<open>A match ends after it begins.\<close>

lemma spans_le:
  assumes "compiled p r" "(i, j) \<in> spans w (pv_cls p) r"
  shows "i \<le> j"
proof -
  have P: "pv_code p = program_of r" "plain r" using assms(1) by (simp_all add: compiled_def)
  have "steps (vm_for p w False) (0, i) (last_pc (pv_code p), j)"
    using program_matches [OF P(2)] assms(2) by (simp add: P(1) spans_def)
  then show ?thesis by (rule steps_mono)
qed

lemma ready_vm_for: "compiled p r \<Longrightarrow> ready p w 0 (vm_for p w a)"
  using vm_for_ok [of p r w a] by (simp add: ready_def vm_for_def)

lemma ready_restart:
  "ready p w k m \<Longrightarrow> ready p w k (m\<lparr>anchored := a\<rparr>)"
  "ready p w k m \<Longrightarrow> ready p w k (m\<lparr>anchored := a, start_at := s\<rparr>)"
  by (auto simp: ready_def vm_ok_def stamped_def)

lemma search_answers:
  assumes "prepared sheng x r" "34 * (length w + 2) < (2 :: nat) ^ 32"
  shows "\<exists>res. search x w = Some res \<and> answers w (spans w (pv_cls (rx_pv x)) r) res"
proof -
  let ?p = "rx_pv x" and ?B = "rx_first x" let ?S = "spans w (pv_cls ?p) r" let ?m = "vm_for ?p w False"
  obtain fi where fi: "compute_first ?p = Some fi" "?B = fi_first fi" "rx_nullable x = fi_nullable fi" using assms(1) by (auto simp: prepared_def)
  have p: "rx_ok x" "compiled ?p r" "pv_ngroups ?p \<le> kMaxGroups" using assms(1) by (simp_all add: prepared_def)
  have le: "i \<le> j" if "(i, j) \<in> ?S" for i j using spans_le [OF p(2) that] .
  show ?thesis
  proof (cases "\<not> rx_nullable x \<and> cr_count ?B \<ge> 1 \<and> cr_count ?B < 256")
    case False
    have "\<exists>res. finish_match no_match (?m\<lparr>anchored := False, start_at := 0\<rparr>) w (pv_ngroups ?p) = Some res \<and> answers w ?S res"
      using assms(2) ready_restart(2) [OF ready_vm_for [OF p(2)]] le by (intro finish_match_answers [OF p(2), of _ 0] p(3)) auto
    then show ?thesis using False p(1) by (auto simp: search_def do_search_def Let_def)
  next
    case True
    have departs: "i < length w \<and> w ! i \<in> cr_bytes ?B" if "(i, j) \<in> ?S" for i j
      using first_bytes [OF p(2) fi(1)] fi(2,3) True that by (auto simp: spans_def)
    have "ready ?p w 0 (?m\<lparr>anchored := True\<rparr>)" by (rule ready_restart(1) [OF ready_vm_for [OF p(2)]])
    then have "\<exists>res. search_loop w (cr_count ?B) (scan_byte ?B) (scan_masks ?B) 0 0 (?m\<lparr>anchored := True\<rparr>) = Some res \<and> looped ?p w r res"
      using True departs by (intro search_loop_finds [OF p(2) assms(2)]) auto
    then obtain hit a m where l: "search_loop w (cr_count ?B) (scan_byte ?B) (scan_masks ?B) 0 0 (?m\<lparr>anchored := True\<rparr>) = Some (hit, a, m)"
      "looped ?p w r (hit, a, m)" by auto
    have ds: "search x w = do { (hit, attempts, m) \<leftarrow> search_loop w (cr_count ?B) (scan_byte ?B) (scan_masks ?B) 0 0 (?m\<lparr>anchored := True\<rparr>);
                     if hit then
                       Some (no_match\<lparr>r_matched := True, r_base := Some w, r_ng := pv_ngroups ?p + 1, r_caps := copy_caps m (r_caps no_match)\<rparr>)
                     else if attempts \<le> kMaxFailedAttempts then
                       Some (no_match\<lparr>r_matched := False, r_base := Some w, r_ng := pv_ngroups ?p + 1\<rparr>)
                     else finish_match no_match (m\<lparr>anchored := False, start_at := 0\<rparr>) w (pv_ngroups ?p) }"
      using True p(1) by (simp add: search_def do_search_def Let_def scan_byte_def scan_masks_def)
    consider "hit" | "\<not> hit" "a \<le> kMaxFailedAttempts" | "\<not> hit" "\<not> a \<le> kMaxFailedAttempts" by blast
    then show ?thesis
    proof cases
      case 1
      then have "matched m" "vm_ok m" "pv m = ?p" "reports m ?S" using l(2) by (simp_all add: looped_def)
      from answers_caps [OF this(2) _ this(1,4) le] this(3) p(3) show ?thesis using l(1) 1 unfolding ds by simp
    next
      case 2
      then have "?S = {}" using l(2) by (simp add: looped_def)
      then show ?thesis using l(1) 2 unfolding ds by (auto intro!: answers_none)
    next
      case 3
      then have "ready ?p w 33 (m\<lparr>anchored := False, start_at := 0\<rparr>)"
        using l(2) ready_restart(2) [of ?p w 33 m] by (simp add: looped_def kMaxFailedAttempts_def)
      then have "\<exists>res. finish_match no_match (m\<lparr>anchored := False, start_at := 0\<rparr>) w (pv_ngroups ?p) = Some res \<and> answers w ?S res"
        using assms(2) le by (intro finish_match_answers [OF p(2), of _ 33] p(3)) auto
      then show ?thesis using l(1) 3 unfolding ds by simp
    qed
  qed
qed

lemma has_match_answers:
  assumes "prepared sheng x r" "34 * (length w + 2) < (2 :: nat) ^ 32"
  shows "\<exists>b. has_match x w = Some b \<and> (b \<longrightarrow> spans w (pv_cls (rx_pv x)) r \<noteq> {}) \<and>
    (no_eol (rx_pv x) \<or> \<not> rx_prefer_dfa x \<longrightarrow> spans w (pv_cls (rx_pv x)) r \<noteq> {} \<longrightarrow> b)"
proof (cases "\<exists>d. rx_dfa x = Some d \<and> rx_prefer_dfa x")
  case True
  then obtain d where d: "rx_dfa x = Some d" "rx_prefer_dfa x" by blast
  then obtain anch sts where "built (rx_pv x) sheng anch sts d" using assms(1) by (auto simp: prepared_def)
  moreover have "compiled (rx_pv x) r" "rx_ok x" using assms(1) by (simp_all add: prepared_def)
  ultimately show ?thesis using d dfa_answers [of "rx_pv x" r sheng anch sts d] by (fastforce simp: has_match_def spans_def)
next
  case False
  obtain res where "search x w = Some res" "answers w (spans w (pv_cls (rx_pv x)) r) res" using search_answers [OF assms] by blast
  moreover have "rx_ok x" using assms(1) by (simp add: prepared_def)
  ultimately show ?thesis using False by (auto simp: has_match_def search_def answers_def split: option.splits bool.splits)
qed

lemma moved_answers:
  assumes "move_assign False x y = (x', y')"
  shows "search x' w = search y w" "has_match x' w = has_match y w" "search y' w = Some no_match" "has_match y' w = Some False"
  using assms by (auto simp: move_assign_def move_construct_def search_def do_search_def has_match_def)

end
