(* ===== verification/Regex_Results.thy ===== *)
theory Regex_Results
  imports Regex_Search
begin

text \<open>
  The regular expression engine as a whole: compiling always returns; the search, the test for a match and the one-shot match
  find what the expression that was parsed matches; the three loops of the automaton agree.  The last part shows where the test for a match
  goes wrong on assertions of the end of the text.
\<close>

subsection \<open>The end of the text\<close>

text \<open>
  The marks of a closure are shared by the paths that have passed an assertion of the end of the text and those that have not.
  In the program of \<^verbatim>\<open>a$|a\<close> the first branch marks the common tail, and the second, which needs no end of the text, stops there.
\<close>

definition eol_view :: prog_view where
  "eol_view = \<lparr>pv_code = [inst_of Op_Save 0 0, inst_of Op_Split 2 5, inst_of Op_Char 97 0, inst_of Op_Eol 0 0, inst_of Op_Jmp 6 0,
     inst_of Op_Char 97 0, inst_of Op_Save 1 0, inst_of Op_Match 0 0], pv_cls = [], pv_ngroups = 0\<rparr>"

definition eol_key :: charreach where "eol_key = [36, 0, 0, 0]"

definition eol_s0 :: dfa_state where "eol_s0 = (eol_key, False, False)"

definition eol_s1 :: dfa_state where "eol_s1 = (eol_key, False, True)"

definition eol_row :: "nat list \<Rightarrow> byte list" where
  "eol_row cs = map (\<lambda>c. if of_nat c = (97 :: byte) then 1 else 0) cs"

lemma eol_next: "next_state eol_view True eol_key c = Some (if c = 97 then eol_s1 else eol_s0)"
proof (cases "c = 97")
  case True
  have "next_state eol_view True eol_key 97 = Some eol_s1" by code_simp
  with True show ?thesis by simp
next
  case False
  have len: "length (pv_code eol_view) = 8" by (simp add: eol_view_def)
  have s: "dfa_eclose (eclose_depth eol_view) eol_view 0 False False (no_closure eol_view) =
     Some \<lparr>c_seen = [True, True, True, False, False, True, False, False], c_key = eol_key, c_accept = False, c_eol = False\<rparr>" by code_simp
  have "\<not> dfa_consumes eol_view (pv_code eol_view ! k) c" if "k \<in> set [0..<8]" for k
    using that False by (auto simp: upt_rec eol_view_def dfa_consumes_def)
  then have "follow eol_view eol_key c ks s = Some s" if "set ks \<subseteq> set [0..<8]" for ks s
    using that by (induction ks) auto
  then show ?thesis using False by (simp add: next_state_def state_of_def eol_s0_def len s del: upt.simps)
qed

lemma eol_intern:
  "intern eol_s0 [eol_s0] = (Some 0, [eol_s0])" "intern eol_s1 [eol_s0] = (Some 1, [eol_s0, eol_s1])"
  "intern eol_s0 [eol_s0, eol_s1] = (Some 0, [eol_s0, eol_s1])" "intern eol_s1 [eol_s0, eol_s1] = (Some 1, [eol_s0, eol_s1])"
  by code_simp+

lemma eol_rows:
  "dfa_row eol_view True eol_key cs row [eol_s0, eol_s1] = Some ([eol_s0, eol_s1], Some (row @ eol_row cs))"
  "\<forall>c \<in> set cs. of_nat c \<noteq> (97 :: byte) \<Longrightarrow>
     dfa_row eol_view True eol_key (cs @ ds) row [eol_s0] = dfa_row eol_view True eol_key ds (row @ eol_row cs) [eol_s0]"
  by (induction cs arbitrary: row) (auto simp: eol_next eol_intern eol_row_def)

lemma eol_first_row: "dfa_row eol_view True eol_key [0..<256] [] [eol_s0] = Some ([eol_s0, eol_s1], Some (eol_row [0..<256]))"
proof -
  have "[0..<256] = [0..<97] @ [97..<97 + 159]" by (subst upt_add_eq_append [symmetric]) simp_all
  then have u: "[0..<256] = [0..<97] @ 97 # [98..<256]" by (simp add: upt_conv_Cons)
  have "of_nat k \<noteq> (97 :: byte)" if "k \<in> set [0..<97]" for k
  proof
    assume "of_nat k = (97 :: byte)"
    then have "unat (of_nat k :: byte) = 97" by simp
    then show False using byte_of_pc [of k] that by simp
  qed
  then show ?thesis unfolding u by (subst eol_rows(2)) (simp_all add: eol_rows eol_next eol_intern, simp add: eol_row_def)
qed

lemma eol_table:
  "dfa_rows (kDfaMaxStates + 1) eol_view True [] [eol_s0] = Some (Some ([eol_s0, eol_s1], [eol_row [0..<256], eol_row [0..<256]]))"
proof -
  have "kDfaMaxStates + 1 = Suc (Suc (Suc 253))" by (simp add: kDfaMaxStates_def)
  moreover have "fst eol_s0 = eol_key" "fst eol_s1 = eol_key" by (simp_all add: eol_s0_def eol_s1_def)
  moreover note eol_first_row eol_rows(1) [of "[0..<256]" "[]"]
  ultimately show ?thesis by (simp only: dfa_rows.simps) simp
qed

lemma eol_build_dfa:
  "build_dfa sheng eol_view = Some (Some (finish_dfa sheng 0 [eol_s0, eol_s1] [eol_row [0..<256], eol_row [0..<256]]))"
proof -
  have "length (pv_code eol_view) = 8" "has_bol eol_view = False" "start_anchored eol_view = Some False" by code_simp+
  moreover have "dfa_eclose (eclose_depth eol_view) eol_view 0 True False (no_closure eol_view) =
     Some \<lparr>c_seen = [True, True, True, False, False, True, False, False], c_key = eol_key, c_accept = False, c_eol = False\<rparr>" by code_simp
  moreover have "intern eol_s0 [] = (Some 0, [eol_s0])" by (simp add: intern_def kDfaMaxStates_def)
  ultimately show ?thesis using eol_table by (simp add: build_dfa_def state_of_def eol_s0_def [symmetric] del: dfa_rows.simps)
qed

lemma eol_build:
  "\<exists>d. build sheng (ascii ''a$|a'') =
     Some \<lparr>rx_pv = eol_view, rx_ok = True, rx_first = [0, 0x200000000, 0, 0], rx_nullable = False, rx_dfa = Some d, rx_prefer_dfa = True\<rparr> \<and>
     \<not> dfa_has_match d (ascii ''ab'')"
proof -
  let ?R = "eol_row [0..<256]" let ?d = "finish_dfa sheng 0 [eol_s0, eol_s1] [?R, ?R]"
  have p: "compile_regex (ascii ''a$|a'') 32 12 64 = Some eol_view" by code_simp
  have f: "compute_first eol_view = Some \<lparr>fi_seen = [True, True, True, False, False, True, False, False], fi_first = [0, 0x200000000, 0, 0], fi_nullable = False\<rparr>"
    by code_simp
  have c: "cr_count [0, 0x200000000, 0, 0] = 1" by code_simp
  have a: "d_accel_type ?d ! d_start ?d = 1"
  proof -
    have "fst (accel_of False 0 ?R) = 1" by code_simp
    then show ?thesis by (simp add: finish_dfa_def Let_def eol_s0_def)
  qed
  have R: "?R ! unat b = (if b = 97 then 1 else 0)" "length ?R = 256" for b :: byte
    using unat_byte_less [of b] by (simp_all add: eol_row_def)
  have "made ?d 2" unfolding made_def by (rule exI [of _ sheng], rule exI [of _ 0], rule exI [of _ "[eol_s0, eol_s1]"], rule exI [of _ "[?R, ?R]"])
     (auto simp: less_2_cases_iff kDfaMaxStates_def eol_row_def)
  then have "dfa_has_match ?d (ascii ''ab'') = dfa_table_has_match ?d (ascii ''ab'')" by (rule dfa_has_match_table(1))
  moreover have "d_start ?d = 0" "d_table ?d = [?R, ?R]" "d_accept ?d = [False, False]" "d_eol_accept ?d = [False, True]"
    by (simp_all add: finish_dfa_def Let_def eol_s0_def eol_s1_def)
  then have "\<not> dfa_table_has_match ?d (ascii ''ab'')" using R(1) [of 97] R(1) [of 98] by (simp add: dfa_table_has_match_def ascii_def Let_def)
  ultimately have "\<not> dfa_has_match ?d (ascii ''ab'')" by simp
  moreover have "length (ascii ''a$|a'') = 4" by (simp add: ascii_def)
  then have "build sheng (ascii ''a$|a'') =
     Some \<lparr>rx_pv = eol_view, rx_ok = True, rx_first = [0, 0x200000000, 0, 0], rx_nullable = False, rx_dfa = Some ?d, rx_prefer_dfa = True\<rparr>"
    using p f c a eol_build_dfa by (simp add: build_def Let_def eol_view_def kMaxGroups_def)
  ultimately show ?thesis by blast
qed

text \<open>
  C37: the test for a match and the search differ on the pattern \<^verbatim>\<open>a$|a\<close>: in the text \<^verbatim>\<open>ab\<close> the search finds the first byte, and the test, which
  prefers the automaton, denies that there is a match.
\<close>

theorem has_match_misses_end_alternative:
  "\<exists>x. build sheng (ascii ''a$|a'') = Some x \<and> has_match x (ascii ''ab'') = Some False \<and>
     map_option (\<lambda>r. (r_matched r, group_start r 0, group_end r 0)) (search x (ascii ''ab'')) = Some (True, 0, 1)"
proof -
  obtain d where d: "build sheng (ascii ''a$|a'') =
     Some \<lparr>rx_pv = eol_view, rx_ok = True, rx_first = [0, 0x200000000, 0, 0], rx_nullable = False, rx_dfa = Some d, rx_prefer_dfa = True\<rparr>"
     "\<not> dfa_has_match d (ascii ''ab'')" using eol_build by blast
  have "map_option (\<lambda>r. (r_matched r, group_start r 0, group_end r 0))
     (search \<lparr>rx_pv = eol_view, rx_ok = True, rx_first = [0, 0x200000000, 0, 0], rx_nullable = False, rx_dfa = Some d, rx_prefer_dfa = True\<rparr> (ascii ''ab''))
     = Some (True, 0, 1)" by code_simp
  with d show ?thesis by (simp add: has_match_def)
qed

subsection \<open>Counts of more than 32 bits\<close>

text \<open>The bounds of an interval are read modulo \<open>2 ^ 32\<close>, so that a huge count is accepted as a small one, or as no bound.\<close>

lemma interval_counts_wrap:
  "map_option (\<lambda>(root, q). (ok q, nodes q ! root)) (parse (parser_of (ascii ''a{4294967297}'') 20 9)) = Some (True, N_Repeat 0 1 1)"
  "map_option (\<lambda>(root, q). (ok q, nodes q ! root)) (parse (parser_of (ascii ''a{1,4294967295}'') 20 9)) = Some (True, N_Repeat 0 1 kInf)"
  by code_simp+

subsection \<open>Results\<close>

text \<open>The sizes of the arrays that \<^verbatim>\<open>regex::build\<close> takes.\<close>

abbreviation parsed :: "byte list \<Rightarrow> nat \<times> parser \<Rightarrow> bool" where
  "parsed pattern x \<equiv> parse (parser_of pattern (length pattern * 4 + 16) (length pattern + 8)) = Some x"

lemma compile_parsed:
  assumes "compile_regex s mn mc mi = Some p" "parse (parser_of s mn mc) = Some (root, q)"
  shows "compiled p (desugar (tree_of (nodes q) root))" "spans w (pv_cls p) (desugar (tree_of (nodes q) root)) = spans w (cls q) (tree_of (nodes q) root)"
proof -
  from compile_regex_compiled [OF assms(1)] assms(2)
  have q: "pv_cls p = cls q" "re_wf (length (cls q)) (ngroups q) (tree_of (nodes q) root)" "compiled p (desugar (tree_of (nodes q) root))"
    by (metis option.inject prod.inject)+
  then show "compiled p (desugar (tree_of (nodes q) root))"
    "spans w (pv_cls p) (desugar (tree_of (nodes q) root)) = spans w (cls q) (tree_of (nodes q) root)"
    using sem_desugar [OF q(2)] by (simp_all add: spans_def)
qed

lemma build_cases:
  obtains (bad) x where "build sheng pattern = Some x" "\<not> rx_ok x"
      "\<not> (\<exists>p. compile_regex pattern (length pattern * 4 + 16) (length pattern + 8) (length pattern * 8 + 32) = Some p \<and> pv_ngroups p \<le> kMaxGroups)"
  | (good) x p r where "build sheng pattern = Some x" "rx_pv x = p" "prepared sheng x r"
      "compile_regex pattern (length pattern * 4 + 16) (length pattern + 8) (length pattern * 8 + 32) = Some p" "pv_ngroups p \<le> kMaxGroups"
      "compiled p r"
proof (cases "compile_regex pattern (length pattern * 4 + 16) (length pattern + 8) (length pattern * 8 + 32)")
  case None
  then show thesis by (intro bad [of invalid_regex]) (simp_all add: build_def Let_def invalid_regex_def)
next
  case (Some p)
  then obtain r where r: "compiled p r" using compile_regex_compiled by metis
  show thesis
  proof (cases "pv_ngroups p \<le> kMaxGroups")
    case False
    then show thesis using Some by (intro bad [of "invalid_regex\<lparr>rx_pv := p\<rparr>"]) (simp_all add: build_def Let_def invalid_regex_def)
  next
    case True
    from build_prepared [OF Some r this, of sheng] show thesis using good Some True r by blast
  qed
qed

lemma build_parsed:
  assumes "build sheng pattern = Some x" "rx_ok x" "parsed pattern (root, q)"
  obtains r where "prepared sheng x r" "spans w (pv_cls (rx_pv x)) r = spans w (cls q) (tree_of (nodes q) root)" 
proof (rule build_cases [of sheng pattern])
  fix x' p r assume h: "build sheng pattern = Some x'" "rx_pv x' = p" "prepared sheng x' r" "pv_ngroups p \<le> kMaxGroups"
    "compile_regex pattern (length pattern * 4 + 16) (length pattern + 8) (length pattern * 8 + 32) = Some p"
  let ?r = "desugar (tree_of (nodes q) root)"
  have c: "compiled p ?r" "spans w (pv_cls p) ?r = spans w (cls q) (tree_of (nodes q) root)" using compile_parsed [OF h(5) assms(3)] .
  have "prepared sheng x ?r" using h c(1) assms(1) by (simp add: prepared_def)
  then show thesis using that [of ?r] c(2) h(1,2) assms(1) by simp
next
  fix x' assume "build sheng pattern = Some x'" "\<not> rx_ok x'"
  then show thesis using assms(1,2) by simp
qed

text \<open>
  C35: compiling a pattern always returns.  The result is valid exactly when the pattern is accepted, its program fits and it has at most 32
  groups; otherwise a search reports nothing and the test for a match says no.
\<close>

theorem build_returns:
  "\<exists>x. build sheng pattern = Some x \<and>
     (rx_ok x \<longleftrightarrow> (\<exists>p. compile_regex pattern (length pattern * 4 + 16) (length pattern + 8) (length pattern * 8 + 32) = Some p \<and>
        pv_ngroups p \<le> 32)) \<and>
     (rx_ok x \<or> search x w = Some no_match \<and> has_match x w = Some False)"
proof (rule build_cases [of sheng pattern])
  fix x p r assume "build sheng pattern = Some x" "rx_pv x = p" "prepared sheng x r" "pv_ngroups p \<le> kMaxGroups"
    "compile_regex pattern (length pattern * 4 + 16) (length pattern + 8) (length pattern * 8 + 32) = Some p"
  then show ?thesis by (simp add: prepared_def kMaxGroups_def)
next
  fix x assume "build sheng pattern = Some x" "\<not> rx_ok x"
    "\<not> (\<exists>p. compile_regex pattern (length pattern * 4 + 16) (length pattern + 8) (length pattern * 8 + 32) = Some p \<and> pv_ngroups p \<le> kMaxGroups)"
  then show ?thesis by (auto simp: kMaxGroups_def search_def do_search_def has_match_def)
qed

text \<open>
  C2: a search returns and is correct, through the scan for first bytes, the attempts anchored at the candidates and the run over the
  whole text when there are too many of them.  It reports a match exactly when the parsed expression has one, and then the leftmost and, among
  those that start there, the longest, with the text it covers.
\<close>

theorem search_leftmost_longest:
  assumes "build sheng pattern = Some x" "rx_ok x" "parsed pattern (root, q)" "34 * (length w + 2) < (2 :: nat) ^ 32"
  shows "\<exists>res. search x w = Some res \<and> answers w (spans w (cls q) (tree_of (nodes q) root)) res"
proof -
  obtain r where "prepared sheng x r" "spans w (pv_cls (rx_pv x)) r = spans w (cls q) (tree_of (nodes q) root)" using build_parsed [OF assms(1-3)] .
  with search_answers [OF this(1) assms(4)] show ?thesis by simp
qed

lemma example_builds:
  "\<exists>x root q. build True (ascii ''a(b|[c-e])*$'') = Some x \<and> rx_ok x \<and> parsed (ascii ''a(b|[c-e])*$'') (root, q)"
proof -
  let ?s = "ascii ''a(b|[c-e])*$''"
  have "map_option pv_ngroups (compile_regex ?s (length ?s * 4 + 16) (length ?s + 8) (length ?s * 8 + 32)) = Some 1" by code_simp
  then obtain p where p: "compile_regex ?s (length ?s * 4 + 16) (length ?s + 8) (length ?s * 8 + 32) = Some p" "pv_ngroups p = 1" by auto
  obtain root q where "parsed ?s (root, q)" using parse_returns by metis
  moreover from this have "compiled p (desugar (tree_of (nodes q) root))" using compile_parsed(1) [OF p(1)] by blast
  from build_prepared [OF p(1) this, of True] p(2)
  obtain x where "build True ?s = Some x" "prepared True x (desugar (tree_of (nodes q) root))" by (auto simp: kMaxGroups_def)
  ultimately show ?thesis by (auto simp: prepared_def)
qed

theorem search_leftmost_longest_witness:
  "\<exists>x root q. build True (ascii ''a(b|[c-e])*$'') = Some x \<and> rx_ok x \<and> parsed (ascii ''a(b|[c-e])*$'') (root, q) \<and>
     (\<exists>res. search x (ascii ''xabcd'') = Some res \<and> answers (ascii ''xabcd'') (spans (ascii ''xabcd'') (cls q) (tree_of (nodes q) root)) res)"
proof -
  obtain x root q where x: "build True (ascii ''a(b|[c-e])*$'') = Some x" "rx_ok x" "parsed (ascii ''a(b|[c-e])*$'') (root, q)" using example_builds by blast
  have "34 * (length (ascii ''xabcd'') + 2) < (2 :: nat) ^ 32" by (simp add: ascii_def)
  from search_leftmost_longest [OF x this] x show ?thesis by blast
qed

text \<open>
  C18: the test for a match never claims one that is not there, whichever path it takes; and when it goes through the search, or
  the program has no assertion of the end of the text, it misses none.
\<close>

theorem has_match_agrees:
  assumes "build sheng pattern = Some x" "rx_ok x" "parsed pattern (root, q)" "34 * (length w + 2) < (2 :: nat) ^ 32"
  shows "\<exists>b. has_match x w = Some b \<and> (b \<longrightarrow> spans w (cls q) (tree_of (nodes q) root) \<noteq> {}) \<and>
    (no_eol (rx_pv x) \<or> \<not> rx_prefer_dfa x \<longrightarrow> spans w (cls q) (tree_of (nodes q) root) \<noteq> {} \<longrightarrow> b)"
proof -
  obtain r where "prepared sheng x r" "spans w (pv_cls (rx_pv x)) r = spans w (cls q) (tree_of (nodes q) root)" using build_parsed [OF assms(1-3)] .
  with has_match_answers [OF this(1) assms(4)] show ?thesis by simp
qed

theorem has_match_agrees_witness:
  "\<exists>x root q. build True (ascii ''a(b|[c-e])*$'') = Some x \<and> rx_ok x \<and> parsed (ascii ''a(b|[c-e])*$'') (root, q) \<and>
     (\<exists>b. has_match x (ascii ''xabcd'') = Some b \<and> (b \<longrightarrow> spans (ascii ''xabcd'') (cls q) (tree_of (nodes q) root) \<noteq> {}) \<and>
       (no_eol (rx_pv x) \<or> \<not> rx_prefer_dfa x \<longrightarrow> spans (ascii ''xabcd'') (cls q) (tree_of (nodes q) root) \<noteq> {} \<longrightarrow> b))"
proof -
  obtain x root q where x: "build True (ascii ''a(b|[c-e])*$'') = Some x" "rx_ok x" "parsed (ascii ''a(b|[c-e])*$'') (root, q)" using example_builds by blast
  have "34 * (length (ascii ''xabcd'') + 2) < (2 :: nat) ^ 32" by (simp add: ascii_def)
  from has_match_agrees [OF x this] x show ?thesis by blast
qed

text \<open>
  C23: building the automaton returns, with at most 255 states, and the loops that skip over ignored bytes and that shuffle a vector
  give the answer of the plain loop over the table, on every text.
\<close>

theorem dfa_loops_agree:
  assumes "compile_regex s mn mc mi = Some p"
  shows "\<exists>res. build_dfa sheng p = Some res \<and>
    (\<forall>d. res = Some d \<longrightarrow> length (d_table d) \<le> kDfaMaxStates \<and>
       (\<forall>w. dfa_has_match d w = dfa_table_has_match d w \<and> dfa_accel_has_match d w = dfa_table_has_match d w \<and>
          (d_has_sheng d \<longrightarrow> dfa_sheng_has_match d w = dfa_table_has_match d w)))"
proof -
  obtain r where "compiled p r" using compile_regex_compiled [OF assms] by metis
  then obtain res where res: "build_dfa sheng p = Some res" "\<forall>d. res = Some d \<longrightarrow> (\<exists>anch sts. built p sheng anch sts d)"
    using build_dfa_built by blast
  have "length (d_table d) \<le> kDfaMaxStates" "made d (length (d_table d))" if "res = Some d" for d
  proof -
    obtain anch sts where "built p sheng anch sts d" using res(2) \<open>res = Some d\<close> by blast
    then have m: "made d (length sts)" by (rule built_made)
    moreover from m have "length (d_table d) = length sts" "length sts \<le> kDfaMaxStates" by (auto simp: made_def finish_dfa_def Let_def)
    ultimately show "length (d_table d) \<le> kDfaMaxStates" "made d (length (d_table d))" by simp_all
  qed
  then show ?thesis using res(1) dfa_has_match_table by blast
qed

theorem dfa_loops_agree_witness:
  "\<exists>d. build_dfa True eol_view = Some (Some d) \<and> length (d_table d) \<le> kDfaMaxStates \<and>
     (\<forall>w. dfa_has_match d w = dfa_table_has_match d w \<and> dfa_accel_has_match d w = dfa_table_has_match d w \<and>
        dfa_sheng_has_match d w = dfa_table_has_match d w)"
proof -
  obtain d where d: "build_dfa True eol_view = Some (Some d)" "d_has_sheng d" using eol_build_dfa [of True] by (auto simp: finish_dfa_def Let_def)
  have "compile_regex (ascii ''a$|a'') 32 12 64 = Some eol_view" by code_simp
  from dfa_loops_agree [OF this, of True] d show ?thesis by auto
qed

text \<open>Both interfaces keep one contract: they refuse a pattern or answer for the expression it denotes.\<close>

locale matcher =
  fixes accepts :: "byte list \<Rightarrow> bool" and spans_of :: "byte list \<Rightarrow> byte list \<Rightarrow> (nat \<times> nat) set"
    and apply_to :: "byte list \<Rightarrow> byte list \<Rightarrow> rmatch option" and short :: "byte list \<Rightarrow> bool"
  assumes accepted: "accepts ptn \<Longrightarrow> short w \<Longrightarrow> \<exists>res. apply_to ptn w = Some res \<and> answers w (spans_of ptn w) res"
    and refused: "\<not> accepts ptn \<Longrightarrow> apply_to ptn w = Some no_match"
begin

lemma total: "short w \<Longrightarrow> \<exists>res. apply_to ptn w = Some res"
  using accepted refused by blast

lemma matched_iff: "short w \<Longrightarrow> apply_to ptn w = Some res \<Longrightarrow> r_matched res \<longleftrightarrow> accepts ptn \<and> spans_of ptn w \<noteq> {}"
  using accepted [of ptn w] refused [of ptn w] by (cases "accepts ptn") (auto simp: answers_def no_match_def)

text \<open>The answer does not depend on anything but the matches: the best one is unique.\<close>

lemma group_zero:
  assumes "short w" "apply_to ptn w = Some res" "accepts ptn" "best (spans_of ptn w) i j"
  shows "group_start res 0 = int i \<and> group_end res 0 = int j \<and> group res 0 = take (j - i) (drop i w)"
proof -
  have "answers w (spans_of ptn w) res" using accepted [OF assms(3,1)] assms(2) by simp
  moreover have "spans_of ptn w \<noteq> {}" using assms(4) by (auto simp: best_def)
  ultimately obtain a b where "best (spans_of ptn w) a b" "group_start res 0 = int a" "group_end res 0 = int b" "group res 0 = take (b - a) (drop a w)"
    by (auto simp: answers_def)
  moreover from this(1) assms(4) have "a = i" "b = j" unfolding best_def by fastforce+
  ultimately show ?thesis by simp
qed

end

definition pattern_ok :: "nat \<Rightarrow> nat \<Rightarrow> nat \<Rightarrow> nat \<Rightarrow> byte list \<Rightarrow> bool" where
  "pattern_ok mn mc mi maxg ptn = (case compile_regex ptn mn mc mi of None \<Rightarrow> False | Some p \<Rightarrow> pv_ngroups p \<le> maxg)"

definition pattern_spans :: "nat \<Rightarrow> nat \<Rightarrow> byte list \<Rightarrow> byte list \<Rightarrow> (nat \<times> nat) set" where
  "pattern_spans mn mc ptn w = (case parse (parser_of ptn mn mc) of None \<Rightarrow> {} | Some (root, q) \<Rightarrow> spans w (cls q) (tree_of (nodes q) root))"

lemma pattern_okE:
  assumes "pattern_ok mn mc mi maxg ptn"
  obtains p r where "compile_regex ptn mn mc mi = Some p" "pv_ngroups p \<le> maxg" "compiled p r" "\<And>w. spans w (pv_cls p) r = pattern_spans mn mc ptn w"
proof -
  obtain p where p: "compile_regex ptn mn mc mi = Some p" "pv_ngroups p \<le> maxg" using assms by (auto simp: pattern_ok_def split: option.splits)
  obtain root q where q: "parse (parser_of ptn mn mc) = Some (root, q)" using parse_returns by metis
  show thesis using that [OF p compile_parsed(1) [OF p(1) q]] compile_parsed(2) [OF p(1) q] q by (simp add: pattern_spans_def)
qed

interpretation rs: matcher
  "\<lambda>ptn. pattern_ok (length ptn * 4 + 16) (length ptn + 8) (length ptn * 8 + 32) kMaxGroups ptn"
  "\<lambda>ptn. pattern_spans (length ptn * 4 + 16) (length ptn + 8) ptn"
  "\<lambda>ptn w. do { x \<leftarrow> build sheng ptn; search x w }" "\<lambda>w. 34 * (length w + 2) < (2 :: nat) ^ 32" for sheng
proof
  fix ptn w :: "byte list"
  assume ok: "pattern_ok (length ptn * 4 + 16) (length ptn + 8) (length ptn * 8 + 32) kMaxGroups ptn" and w: "34 * (length w + 2) < (2 :: nat) ^ 32"
  obtain p r where p: "compile_regex ptn (length ptn * 4 + 16) (length ptn + 8) (length ptn * 8 + 32) = Some p" "pv_ngroups p \<le> kMaxGroups" "compiled p r"
    "\<And>w. spans w (pv_cls p) r = pattern_spans (length ptn * 4 + 16) (length ptn + 8) ptn w" using ok by (rule pattern_okE) blast
  obtain x where x: "build sheng ptn = Some x" "rx_pv x = p" "prepared sheng x r" using build_prepared [OF p(1,3,2)] by blast
  from search_answers [OF x(3) w] x(1,2) p(4)
  show "\<exists>res. do { x \<leftarrow> build sheng ptn; search x w } = Some res \<and> answers w (pattern_spans (length ptn * 4 + 16) (length ptn + 8) ptn w) res"
    by simp
next
  fix ptn w :: "byte list" assume "\<not> pattern_ok (length ptn * 4 + 16) (length ptn + 8) (length ptn * 8 + 32) kMaxGroups ptn"
  then show "do { x \<leftarrow> build sheng ptn; search x w } = Some no_match"
    by (cases rule: build_cases [of sheng ptn]) (auto simp: pattern_ok_def search_def do_search_def split: option.splits)
qed

interpretation cm: matcher
  "\<lambda>ptn. pattern_ok (length ptn * 4 + 8) (length ptn + 4) (length ptn * 8 + 16) (min (length ptn) kMaxGroups) ptn"
  "\<lambda>ptn. pattern_spans (length ptn * 4 + 8) (length ptn + 4) ptn" cmatch "\<lambda>w. length w + 2 < (2 :: nat) ^ 32"
proof
  fix ptn w :: "byte list" assume ok: "pattern_ok (length ptn * 4 + 8) (length ptn + 4) (length ptn * 8 + 16) (min (length ptn) kMaxGroups) ptn"
    and w: "length w + 2 < (2 :: nat) ^ 32"
  obtain p r where p: "compile_regex ptn (length ptn * 4 + 8) (length ptn + 4) (length ptn * 8 + 16) = Some p" "pv_ngroups p \<le> min (length ptn) kMaxGroups"
    "compiled p r" "\<And>w. spans w (pv_cls p) r = pattern_spans (length ptn * 4 + 8) (length ptn + 4) ptn w" using ok by (rule pattern_okE) blast
  have "\<exists>res. finish_match no_match (vm_for p w False) w (pv_ngroups p) = Some res \<and> answers w (spans w (pv_cls p) r) res"
    using p(2) w ready_vm_for [OF p(3)] spans_le [OF p(3)] by (intro finish_match_answers [OF p(3), of _ 0]) (auto simp: vm_for_def)
  moreover have "\<not> pv_ngroups p > (if length ptn < kMaxGroups then length ptn else kMaxGroups)" using p(2) by auto
  ultimately show "\<exists>res. cmatch ptn w = Some res \<and> answers w (pattern_spans (length ptn * 4 + 8) (length ptn + 4) ptn w) res"
    using p(1,4) by (simp add: cmatch_def Let_def)
next
  fix ptn w :: "byte list" assume "\<not> pattern_ok (length ptn * 4 + 8) (length ptn + 4) (length ptn * 8 + 16) (min (length ptn) kMaxGroups) ptn"
  then show "cmatch ptn w = Some no_match" by (auto simp: pattern_ok_def cmatch_def Let_def split: option.splits)
qed

text \<open>
  The one-shot match, which compiles its pattern into arrays sized from it, returns; it finds a match exactly when the pattern is
  accepted and the parsed expression has one, and the offsets and the text of group 0 are then those of the leftmost-longest match.
\<close>

theorem cmatch_leftmost_longest:
  assumes "length w + 2 < 2 ^ 32"
  shows "\<exists>res. cmatch ptn w = Some res \<and>
    (r_matched res \<longleftrightarrow> pattern_ok (length ptn * 4 + 8) (length ptn + 4) (length ptn * 8 + 16) (min (length ptn) 32) ptn \<and>
       pattern_spans (length ptn * 4 + 8) (length ptn + 4) ptn w \<noteq> {}) \<and>
    (\<forall>i j. r_matched res \<and> best (pattern_spans (length ptn * 4 + 8) (length ptn + 4) ptn w) i j \<longrightarrow>
       group_start res 0 = int i \<and> group_end res 0 = int j \<and> group res 0 = take (j - i) (drop i w))"
proof -
  obtain res where res: "cmatch ptn w = Some res" using cm.total [OF assms] by blast
  have k: "kMaxGroups = 32" by (simp add: kMaxGroups_def)
  show ?thesis using res cm.matched_iff [OF assms res] cm.group_zero [OF assms res] unfolding k by blast
qed

theorem cmatch_leftmost_longest_witness:
  "\<exists>res. cmatch (ascii ''a$|a'') (ascii ''ab'') = Some res \<and> r_matched res \<and> pattern_ok 24 8 48 4 (ascii ''a$|a'') \<and>
     (\<forall>i j. best (pattern_spans 24 8 (ascii ''a$|a'') (ascii ''ab'')) i j \<longrightarrow>
        group_start res 0 = int i \<and> group_end res 0 = int j \<and> group res 0 = take (j - i) (drop i (ascii ''ab'')))"
proof -
  let ?s = "ascii ''a$|a''"
  have l: "length ?s * 4 + 8 = 24" "length ?s + 4 = 8" "length ?s * 8 + 16 = 48" "min (length ?s) 32 = 4" by (simp_all add: ascii_def)
  have "length (ascii ''ab'') + 2 < 2 ^ 32" by (simp add: ascii_def)
  from cmatch_leftmost_longest [OF this, of ?s, unfolded l]
  obtain res where "cmatch ?s (ascii ''ab'') = Some res" "r_matched res \<longleftrightarrow> pattern_ok 24 8 48 4 ?s \<and> pattern_spans 24 8 ?s (ascii ''ab'') \<noteq> {}"
    "\<forall>i j. r_matched res \<and> best (pattern_spans 24 8 ?s (ascii ''ab'')) i j \<longrightarrow>
       group_start res 0 = int i \<and> group_end res 0 = int j \<and> group res 0 = take (j - i) (drop i (ascii ''ab''))" by blast
  moreover have "map_option r_matched (cmatch ?s (ascii ''ab'')) = Some True" by code_simp
  ultimately show ?thesis by auto
qed

end
