(* ===== verification/Map_Base.thy ===== *)
theory Map_Base
  imports Main "HOL-Library.Monad_Syntax"
begin

text \<open>
  What a map of bounded capacity promises (\<^verbatim>\<open>src/src/maps\<close>): the locale \<open>bounded_map\<close> relates its operations to a partial function, and shows
  that a run of operations on it is a run on the partial function.  The set adapters (\<^verbatim>\<open>src/src/sets\<close>) are clients of the contract.
\<close>

subsection \<open>Runs\<close>

datatype ('k, 'v) map_op = Put 'k 'v | Del 'k | Wipe

text \<open>A run stops at the first operation that throws.\<close>

fun run_ops :: "('k \<Rightarrow> 'v \<Rightarrow> 't \<Rightarrow> 't option) \<Rightarrow> ('k \<Rightarrow> 't \<Rightarrow> bool \<times> 't) \<Rightarrow> ('t \<Rightarrow> 't) \<Rightarrow> ('k, 'v) map_op list \<Rightarrow> 't \<Rightarrow> 't option" where
  "run_ops put del wipe [] t = Some t"
| "run_ops put del wipe (Put k v # ops) t = do { t' \<leftarrow> put k v t; run_ops put del wipe ops t' }"
| "run_ops put del wipe (Del k # ops) t = run_ops put del wipe ops (snd (del k t))"
| "run_ops put del wipe (Wipe # ops) t = run_ops put del wipe ops (wipe t)"

fun spec_op :: "('k, 'v) map_op \<Rightarrow> ('k \<rightharpoonup> 'v) \<Rightarrow> ('k \<rightharpoonup> 'v)" where
  "spec_op (Put k v) m = m(k \<mapsto> v)"
| "spec_op (Del k) m = m(k := None)"
| "spec_op Wipe m = Map.empty"

definition spec_run :: "('k, 'v) map_op list \<Rightarrow> ('k \<rightharpoonup> 'v) \<Rightarrow> ('k \<rightharpoonup> 'v)" where
  "spec_run ops m = fold spec_op ops m"

lemma spec_run_simps [simp]: "spec_run [] m = m" "spec_run (x # ops) m = spec_run ops (spec_op x m)"
  by (simp_all add: spec_run_def)

subsection \<open>The contract\<close>

locale bounded_map =
  fixes invar :: "'t \<Rightarrow> bool" and view :: "'t \<Rightarrow> 'k \<rightharpoonup> 'v" and size_of :: "'t \<Rightarrow> nat"
    and look :: "'k \<Rightarrow> 't \<Rightarrow> 'v option" and put :: "'k \<Rightarrow> 'v \<Rightarrow> 't \<Rightarrow> 't option"
    and del :: "'k \<Rightarrow> 't \<Rightarrow> bool \<times> 't" and wipe :: "'t \<Rightarrow> 't"
  assumes look_view: "invar t \<Longrightarrow> look k t = view t k"
    and put_view: "invar t \<Longrightarrow> put k v t = Some t' \<Longrightarrow> invar t' \<and> view t' = (view t)(k \<mapsto> v)"
    and del_view: "invar t \<Longrightarrow> del k t = (b, t') \<Longrightarrow> invar t' \<and> view t' = (view t)(k := None) \<and> (b \<longleftrightarrow> view t k \<noteq> None)"
    and wipe_view: "invar t \<Longrightarrow> invar (wipe t) \<and> view (wipe t) = Map.empty"
    and size_view: "invar t \<Longrightarrow> finite (dom (view t)) \<and> size_of t = card (dom (view t))"
begin

lemma del_snd: "invar t \<Longrightarrow> invar (snd (del k t)) \<and> view (snd (del k t)) = (view t)(k := None)"
  using del_view [of t k "fst (del k t)" "snd (del k t)"] by simp

lemma run_refines:
  "invar t \<Longrightarrow> run_ops put del wipe ops t = Some t' \<Longrightarrow> invar t' \<and> view t' = spec_run ops (view t)"
proof (induction ops arbitrary: t)
  case (Cons x ops)
  show ?case
  proof (cases x)
    case (Put k v)
    then obtain t1 where t1: "put k v t = Some t1" "run_ops put del wipe ops t1 = Some t'" using Cons.prems(2) by (auto split: Option.bind_splits)
    then have "invar t1" "view t1 = (view t)(k \<mapsto> v)" using put_view [OF Cons.prems(1)] by blast+
    then show ?thesis using Cons.IH [OF _ t1(2)] Put by (simp add: fun_upd_def)
  next
    case (Del k) then show ?thesis using Cons.IH [of "snd (del k t)"] Cons.prems del_snd [of t k] by (simp add: fun_upd_def)
  next
    case Wipe then show ?thesis using Cons.IH [of "wipe t"] Cons.prems wipe_view [of t] by simp
  qed
qed simp

text \<open>Every observation after a run is one of the partial function.\<close>

lemma run_observed:
  assumes "invar t" "run_ops put del wipe ops t = Some t'"
  shows "look k t' = spec_run ops (view t) k \<and> size_of t' = card (dom (spec_run ops (view t)))"
  using run_refines [OF assms] look_view [of t' k] size_view [of t'] by simp

lemma size_zero: "invar t \<Longrightarrow> size_of t = 0 \<longleftrightarrow> view t = Map.empty"
  using size_view [of t] by auto

end

subsection \<open>Sets over maps\<close>

text \<open>The adapters map a key to a value without content.\<close>

definition set_contains :: "('k \<Rightarrow> 't \<Rightarrow> unit option) \<Rightarrow> 'k \<Rightarrow> 't \<Rightarrow> bool" where
  "set_contains look k s = (look k s \<noteq> None)"

definition set_insert :: "('k \<Rightarrow> 't \<Rightarrow> unit option) \<Rightarrow> ('k \<Rightarrow> unit \<Rightarrow> 't \<Rightarrow> 't option) \<Rightarrow> 'k \<Rightarrow> 't \<Rightarrow> (bool \<times> 't) option" where
  "set_insert look put k s = (if set_contains look k s then Some (False, s) else do { s' \<leftarrow> put k () s; Some (True, s') })"

locale bounded_set = bounded_map invar view size_of look put del wipe
  for invar :: "'t \<Rightarrow> bool" and view :: "'t \<Rightarrow> 'k \<Rightarrow> unit option" and size_of look put del wipe
begin

lemma set_insert_view:
  assumes "invar s" "set_insert look put k s = Some (b, s')"
  shows "invar s' \<and> dom (view s') = insert k (dom (view s)) \<and> (b \<longleftrightarrow> k \<notin> dom (view s)) \<and> size_of s' = size_of s + (if b then 1 else 0)"
proof (cases "set_contains look k s")
  case True
  then have "view s k \<noteq> None" "b = False" "s' = s" using assms look_view [OF assms(1)] by (auto simp: set_contains_def set_insert_def)
  then show ?thesis using assms(1) by (auto simp: insert_absorb dom_def)
next
  case False
  then have n: "view s k = None" using look_view [OF assms(1), of k] by (cases "view s k") (auto simp: set_contains_def)
  obtain "put k () s = Some s'" "b = True" using False assms(2) by (auto simp: set_insert_def split: Option.bind_splits)
  then have p: "invar s'" "view s' = (view s)(k \<mapsto> ())" "b = True" using put_view [OF assms(1)] by blast+
  have "finite (dom (view s))" "size_of s = card (dom (view s))" "size_of s' = card (dom (view s'))" using size_view assms(1) p(1) by blast+
  moreover have "dom (view s') = insert k (dom (view s))" "k \<notin> dom (view s)" using n p(2) by (auto simp: domIff)
  ultimately show ?thesis using p(1,3) by simp
qed

lemma set_contains_view: "invar s \<Longrightarrow> set_contains look k s \<longleftrightarrow> k \<in> dom (view s)"
  using look_view [of s k] by (auto simp: set_contains_def)

end

end
