(* ===== verification/Map_Robin.thy ===== *)
theory Map_Robin
  imports Map_Base "HOL-Library.Word"
begin

text \<open>
  The Robin Hood map (\<^verbatim>\<open>src/src/maps/robin.hpp\<close>): open addressing in a fixed power-of-two number of slots.  A control byte per slot holds the
  distance from the home of its element, plus one; an element that is farther from home takes the slot of one that is nearer.  Erasing
  shifts the elements behind the gap back.  Lookups go through the control bytes with a vector unit, or one by one.
\<close>

unbundle bit_operations_syntax

lemma ctrl_less: "unat (c :: 8 word) < 256"
  using unsigned_less [of c] by simp

subsection \<open>The map\<close>

record ('k, 'v) rnode =
  nd_hash :: "64 word"
  nd_key :: 'k
  nd_val :: 'v

text \<open>A slot without a constructed node is \<open>None\<close>; null arrays are empty.\<close>

record ('k, 'v) robin =
  rm_mem :: "('k, 'v) rnode option list"
  rm_len :: nat
  rm_ctrl :: "8 word list"
  rm_slots :: nat
  rm_mask :: nat

datatype rm_error = Load_limit | Distance_limit | Probe_limit | Key_missing

definition load_num :: nat where "load_num = 7"

definition load_denom :: nat where "load_denom = 8"

definition max_probe :: nat where "max_probe = 512"

definition min_cap :: nat where "min_cap = 16"

definition max_stored_dist :: nat where "max_stored_dist = 253"

text \<open>Doubling stops when it wraps around.\<close>

function pow2_loop :: "nat \<Rightarrow> nat \<Rightarrow> nat" where
  "pow2_loop n p = (if p < n then let np = 2 * p mod 2 ^ 64 in if np \<le> p then p else pow2_loop n np else p)"
  by auto
termination by (relation "measure (\<lambda>(n, p). n - p)") auto

declare pow2_loop.simps [simp del]

definition round_pow2 :: "nat \<Rightarrow> nat" where
  "round_pow2 n = (if n \<le> min_cap then min_cap else pow2_loop n 1)"

definition default_n_slots :: "nat \<Rightarrow> nat \<Rightarrow> nat" where
  "default_n_slots auto_size node_size =
     (let auto_elems = auto_size div node_size in round_pow2 (if auto_elems < min_cap then min_cap else auto_elems))"

definition rm_alloc :: "nat \<Rightarrow> ('k, 'v) robin" where
  "rm_alloc n = \<lparr>rm_mem = replicate n None, rm_len = 0, rm_ctrl = replicate n 0, rm_slots = n, rm_mask = n - 1\<rparr>"

definition rm_new :: "nat \<Rightarrow> ('k, 'v) robin" where
  "rm_new n = rm_alloc (round_pow2 n)"

definition rm_default :: "nat \<Rightarrow> nat \<Rightarrow> ('k, 'v) robin" where
  "rm_default auto_size node_size = rm_alloc (default_n_slots auto_size node_size)"

definition node_at :: "('k, 'v) robin \<Rightarrow> nat \<Rightarrow> ('k, 'v) rnode" where
  "node_at t i = the (rm_mem t ! i)"

definition encode_dist :: "nat \<Rightarrow> 8 word" where
  "encode_dist d = (let v = d + 1 in of_nat (if v > 254 then 254 else v))"

definition occupied :: "('k, 'v) robin \<Rightarrow> nat \<Rightarrow> bool" where
  "occupied t i \<longleftrightarrow> rm_ctrl t ! i \<noteq> 0"

definition stored_dist :: "('k, 'v) robin \<Rightarrow> nat \<Rightarrow> nat" where
  "stored_dist t i = unat (rm_ctrl t ! i) - 1"

definition set_slot :: "nat \<Rightarrow> ('k, 'v) rnode option \<Rightarrow> 8 word \<Rightarrow> ('k, 'v) robin \<Rightarrow> ('k, 'v) robin" where
  "set_slot i nd c t = t\<lparr>rm_mem := (rm_mem t)[i := nd], rm_ctrl := (rm_ctrl t)[i := c]\<rparr>"

definition destroy_at :: "nat \<Rightarrow> ('k, 'v) robin \<Rightarrow> ('k, 'v) robin" where
  "destroy_at i t = set_slot i None 0 t"

text \<open>The first argument bounds the number of slots that are shifted.\<close>

fun backward_shift :: "nat \<Rightarrow> nat \<Rightarrow> ('k, 'v) robin \<Rightarrow> ('k, 'v) robin option" where
  "backward_shift 0 i t = None"
| "backward_shift (Suc f) i t =
     (let j = (i + 1) AND rm_mask t
      in if \<not> occupied t j \<or> stored_dist t j = 0 then Some t
         else
           let new_dist = stored_dist t j - 1
           in backward_shift f j (set_slot j None 0 (set_slot i (Some (node_at t j)) (encode_dist new_dist) t)))"

subsection \<open>Inserting\<close>

text \<open>
  The hashes are exchanged under a mask, the keys and values when the slot is taken.  The result is the slot of the new element and the map, or
  an error and the map as it is when the exception leaves.
\<close>

function insert_loop ::
  "nat \<Rightarrow> 64 word \<Rightarrow> 'k \<Rightarrow> 'v \<Rightarrow> nat \<Rightarrow> nat \<Rightarrow> nat option \<Rightarrow> ('k, 'v) robin \<Rightarrow> (rm_error + nat) \<times> ('k, 'v) robin" where
  "insert_loop total_steps kh k v index plen res t =
     (if plen > max_stored_dist then (Inl Distance_limit, t)
      else if \<not> occupied t index then
        (Inr (case res of None \<Rightarrow> index | Some r \<Rightarrow> r),
         (set_slot index (Some \<lparr>nd_hash = kh, nd_key = k, nd_val = v\<rparr>) (encode_dist plen) t)\<lparr>rm_len := rm_len t + 1\<rparr>)
      else
        let nd = node_at t index
        in if nd_hash nd = kh \<and> nd_key nd = k then
             (Inr index, t\<lparr>rm_mem := (rm_mem t)[index := Some (nd\<lparr>nd_val := v\<rparr>)]\<rparr>)
           else
             let sd = stored_dist t index;
                 steal = sd < plen;
                 hmask = - (if steal then 1 else 0);
                 dh = (kh XOR nd_hash nd) AND hmask;
                 nd' = \<lparr>nd_hash = nd_hash nd XOR dh, nd_key = (if steal then k else nd_key nd), nd_val = (if steal then v else nd_val nd)\<rparr>;
                 t' = set_slot index (Some nd') (if steal then encode_dist plen else rm_ctrl t ! index) t;
                 plen' = (if steal then sd else plen);
                 res' = (if steal \<and> res = None then Some index else res)
             in if total_steps + 1 > max_probe then (Inl Probe_limit, t')
                else insert_loop (total_steps + 1) (kh XOR dh) (if steal then nd_key nd else k) (if steal then nd_val nd else v)
                       ((index + 1) AND rm_mask t) (plen' + 1) res' t')"
  by pat_completeness auto
termination by (relation "measure (\<lambda>(total_steps, _). Suc max_probe - total_steps)") auto

declare insert_loop.simps [simp del]

definition home :: "('k, 'v) robin \<Rightarrow> 64 word \<Rightarrow> nat" where
  "home t kh = unat kh AND rm_mask t"

definition insert_hash :: "64 word \<Rightarrow> 'k \<Rightarrow> 'v \<Rightarrow> ('k, 'v) robin \<Rightarrow> (rm_error + nat) \<times> ('k, 'v) robin" where
  "insert_hash kh k v t = insert_loop 0 kh k v (home t kh) 0 None t"

subsection \<open>Probing\<close>

datatype isa = Avx2 | Sse2 | Neon | Scalar

definition ctrl_window :: "isa \<Rightarrow> nat" where
  "ctrl_window a = (case a of Avx2 \<Rightarrow> 32 | Sse2 \<Rightarrow> 16 | Neon \<Rightarrow> 16 | Scalar \<Rightarrow> 0)"

definition add_sat_u8 :: "8 word \<Rightarrow> 8 word \<Rightarrow> 8 word" where
  "add_sat_u8 x y = of_nat (min 255 (unat x + unat y))"

text \<open>The x86 comparison is signed, so the top bits are flipped.\<close>

definition lane_gt :: "isa \<Rightarrow> 8 word \<Rightarrow> 8 word \<Rightarrow> bool" where
  "lane_gt a cv thres = (case a of Neon \<Rightarrow> thres < cv | _ \<Rightarrow> thres XOR 0x80 <s cv XOR 0x80)"

text \<open>The lowest lane of the window that does not hold a distance beyond the threshold.\<close>

definition ctrl_scan :: "isa \<Rightarrow> 8 word list \<Rightarrow> nat \<Rightarrow> nat" where
  "ctrl_scan a p plen =
     (let bv = (if plen \<le> 255 then of_nat plen else 255 :: 8 word)
      in case find (\<lambda>i. \<not> lane_gt a (p ! i) (add_sat_u8 bv (of_nat i))) [0..<ctrl_window a] of
           None \<Rightarrow> ctrl_window a
         | Some i \<Rightarrow> i)"

definition hits :: "('k, 'v) robin \<Rightarrow> 64 word \<Rightarrow> 'k \<Rightarrow> nat \<Rightarrow> bool" where
  "hits t kh k i \<longleftrightarrow> nd_hash (node_at t i) = kh \<and> nd_key (node_at t i) = k"

function probe_loop :: "('k, 'v) robin \<Rightarrow> 64 word \<Rightarrow> 'k \<Rightarrow> nat \<Rightarrow> nat \<Rightarrow> nat option" where
  "probe_loop t kh k index plen =
     (if unat (rm_ctrl t ! index) > plen then
        if hits t kh k index then Some index else probe_loop t kh k ((index + 1) AND rm_mask t) (plen + 1)
      else None)"
  by pat_completeness auto
termination
proof (relation "measure (\<lambda>(_, _, _, _, plen). 256 - plen)")
  fix t :: "('k, 'v) robin" and kh k index plen assume "unat (rm_ctrl t ! index) > plen"
  then show "((t, kh, k, (index + 1) AND rm_mask t, plen + 1), (t, kh, k, index, plen)) \<in> measure (\<lambda>(_, _, _, _, plen). 256 - plen)"
    using ctrl_less [of "rm_ctrl t ! index"] by simp
qed simp

declare probe_loop.simps [simp del]

function window_loop :: "isa \<Rightarrow> ('k, 'v) robin \<Rightarrow> 64 word \<Rightarrow> 'k \<Rightarrow> nat \<Rightarrow> nat \<Rightarrow> nat option" where
  "window_loop a t kh k index plen =
     (let W = ctrl_window a
      in if W \<noteq> 0 \<and> plen \<le> max_stored_dist \<and> index + W \<le> rm_slots t then
           let stop = ctrl_scan a (drop index (rm_ctrl t)) plen
           in case find (\<lambda>i. hits t kh k (index + i)) [0..<stop] of
                Some i \<Rightarrow> Some (index + i)
              | None \<Rightarrow> if stop < W then None else window_loop a t kh k ((index + W) AND rm_mask t) (plen + W)
         else probe_loop t kh k index plen)"
  by pat_completeness auto
termination by (relation "measure (\<lambda>(_, _, _, _, _, plen). Suc max_stored_dist - plen)") auto

declare window_loop.simps [simp del]

definition probe_find :: "isa \<Rightarrow> 64 word \<Rightarrow> 'k \<Rightarrow> ('k, 'v) robin \<Rightarrow> nat option" where
  "probe_find a kh k t = (if rm_ctrl t = [] \<or> rm_slots t = 0 then None else window_loop a t kh k (home t kh) 0)"

subsection \<open>The interface\<close>

text \<open>\<open>hash\<close> is the hash function of the keys; a pointer to a value is the number of its slot.\<close>

definition rm_size :: "('k, 'v) robin \<Rightarrow> nat" where "rm_size t = rm_len t"

definition rm_max_size :: "('k, 'v) robin \<Rightarrow> nat" where "rm_max_size t = rm_slots t"

definition rm_empty :: "('k, 'v) robin \<Rightarrow> bool" where "rm_empty t \<longleftrightarrow> rm_len t = 0"

definition rm_clear :: "('k, 'v) robin \<Rightarrow> ('k, 'v) robin" where
  "rm_clear t = t\<lparr>rm_mem := replicate (rm_slots t) None, rm_ctrl := (if rm_ctrl t \<noteq> [] then replicate (rm_slots t) 0 else []), rm_len := 0\<rparr>"

definition rm_find :: "isa \<Rightarrow> ('k \<Rightarrow> 64 word) \<Rightarrow> 'k \<Rightarrow> ('k, 'v) robin \<Rightarrow> nat option" where
  "rm_find a hash k t = probe_find a (hash k) k t"

definition rm_contains :: "isa \<Rightarrow> ('k \<Rightarrow> 64 word) \<Rightarrow> 'k \<Rightarrow> ('k, 'v) robin \<Rightarrow> bool" where
  "rm_contains a hash k t \<longleftrightarrow> probe_find a (hash k) k t \<noteq> None"

definition rm_count :: "isa \<Rightarrow> ('k \<Rightarrow> 64 word) \<Rightarrow> 'k \<Rightarrow> ('k, 'v) robin \<Rightarrow> nat" where
  "rm_count a hash k t = (if probe_find a (hash k) k t \<noteq> None then 1 else 0)"

definition rm_at :: "isa \<Rightarrow> ('k \<Rightarrow> 64 word) \<Rightarrow> 'k \<Rightarrow> ('k, 'v) robin \<Rightarrow> rm_error + 'v" where
  "rm_at a hash k t = (case probe_find a (hash k) k t of None \<Rightarrow> Inl Key_missing | Some i \<Rightarrow> Inr (nd_val (node_at t i)))"

definition rm_insert :: "('k \<Rightarrow> 64 word) \<Rightarrow> 'k \<Rightarrow> 'v \<Rightarrow> ('k, 'v) robin \<Rightarrow> (rm_error + nat) \<times> ('k, 'v) robin" where
  "rm_insert hash k v t =
     (if rm_len t \<ge> rm_slots t * load_num div load_denom then (Inl Load_limit, t) else insert_hash (hash k) k v t)"

definition rm_index :: "isa \<Rightarrow> ('k \<Rightarrow> 64 word) \<Rightarrow> 'v \<Rightarrow> 'k \<Rightarrow> ('k, 'v) robin \<Rightarrow> (rm_error + nat) \<times> ('k, 'v) robin" where
  "rm_index a hash dflt k t =
     (case probe_find a (hash k) k t of Some i \<Rightarrow> (Inr i, t) | None \<Rightarrow> rm_insert hash k dflt t)"

function erase_loop :: "64 word \<Rightarrow> 'k \<Rightarrow> nat \<Rightarrow> nat \<Rightarrow> ('k, 'v) robin \<Rightarrow> (bool \<times> ('k, 'v) robin) option" where
  "erase_loop kh k index plen t =
     (if unat (rm_ctrl t ! index) > plen then
        if hits t kh k index then
          do { t' \<leftarrow> backward_shift (rm_slots t) index ((destroy_at index t)\<lparr>rm_len := rm_len t - 1\<rparr>); Some (True, t') }
        else erase_loop kh k ((index + 1) AND rm_mask t) (plen + 1) t
      else Some (False, t))"
  by pat_completeness auto
termination
proof (relation "measure (\<lambda>(_, _, _, plen, _). 256 - plen)")
  fix t :: "('k, 'v) robin" and kh k index plen assume "unat (rm_ctrl t ! index) > plen"
  then show "((kh, k, (index + 1) AND rm_mask t, plen + 1, t), (kh, k, index, plen, t)) \<in> measure (\<lambda>(_, _, _, plen, _). 256 - plen)"
    using ctrl_less [of "rm_ctrl t ! index"] by simp
qed simp

declare erase_loop.simps [simp del]

definition rm_erase :: "('k \<Rightarrow> 64 word) \<Rightarrow> 'k \<Rightarrow> ('k, 'v) robin \<Rightarrow> (bool \<times> ('k, 'v) robin) option" where
  "rm_erase hash k t = (if rm_ctrl t = [] \<or> rm_slots t = 0 then Some (False, t) else erase_loop (hash k) k (home t (hash k)) 0 t)"

text \<open>Moving leaves a map without arrays; swapping exchanges everything.\<close>

definition rm_moved_out :: "('k, 'v) robin" where
  "rm_moved_out = \<lparr>rm_mem = [], rm_len = 0, rm_ctrl = [], rm_slots = 0, rm_mask = 0\<rparr>"

definition rm_move :: "('k, 'v) robin \<Rightarrow> ('k, 'v) robin \<times> ('k, 'v) robin" where
  "rm_move o' = (o', rm_moved_out)"

definition rm_move_assign :: "bool \<Rightarrow> ('k, 'v) robin \<Rightarrow> ('k, 'v) robin \<Rightarrow> ('k, 'v) robin \<times> ('k, 'v) robin" where
  "rm_move_assign self t o' = (if self then (t, t) else rm_move o')"

definition rm_swap :: "('k, 'v) robin \<Rightarrow> ('k, 'v) robin \<Rightarrow> ('k, 'v) robin \<times> ('k, 'v) robin" where
  "rm_swap t o' = (o', t)"

definition slot_occupied :: "('k, 'v) robin \<Rightarrow> nat \<Rightarrow> bool" where
  "slot_occupied t i \<longleftrightarrow> rm_ctrl t \<noteq> [] \<and> i < rm_slots t \<and> occupied t i"

subsection \<open>Walking\<close>

text \<open>An iterator is the number of a slot; a walk is the list of slots it visits.\<close>

function skip_empty :: "('k, 'v) robin \<Rightarrow> nat \<Rightarrow> nat" where
  "skip_empty t i = (if i < rm_slots t \<and> rm_ctrl t ! i = 0 then skip_empty t (i + 1) else i)"
  by pat_completeness auto
termination by (relation "measure (\<lambda>(t, i). rm_slots t - i)") auto

declare skip_empty.simps [simp del]

lemma skip_empty_ge: "i \<le> skip_empty t i"
  by (induction t i rule: skip_empty.induct) (subst skip_empty.simps, auto)

function iterate_from :: "('k, 'v) robin \<Rightarrow> nat \<Rightarrow> nat list" where
  "iterate_from t i = (if i < rm_slots t then i # iterate_from t (skip_empty t (i + 1)) else [])"
  by pat_completeness auto
termination
proof (relation "measure (\<lambda>(t, i). rm_slots t - i)")
  fix t :: "('k, 'v) robin" and i assume "i < rm_slots t"
  then show "((t, skip_empty t (i + 1)), (t, i)) \<in> measure (\<lambda>(t, i). rm_slots t - i)" using skip_empty_ge [of "i + 1" t] by simp
qed simp

declare iterate_from.simps [simp del]

definition rm_iterate :: "('k, 'v) robin \<Rightarrow> nat list" where
  "rm_iterate t = iterate_from t (skip_empty t 0)"

text \<open>The slots of a block whose control byte is not zero, lowest bit first, block after block.\<close>

definition occ_block :: "('k, 'v) robin \<Rightarrow> nat \<Rightarrow> nat \<Rightarrow> nat list" where
  "occ_block t i w = filter (\<lambda>s. rm_ctrl t ! s \<noteq> 0) [i..<i + w]"

function occ_blocks :: "nat \<Rightarrow> ('k, 'v) robin \<Rightarrow> nat \<Rightarrow> nat list \<times> nat" where
  "occ_blocks w t i =
     (if w \<noteq> 0 \<and> i + w \<le> rm_slots t then let (xs, e) = occ_blocks w t (i + w) in (occ_block t i w @ xs, e) else ([], i))"
  by pat_completeness auto
termination by (relation "measure (\<lambda>(w, t, i). rm_slots t - i)") auto

declare occ_blocks.simps [simp del]

definition rm_for_each :: "isa \<Rightarrow> ('k, 'v) robin \<Rightarrow> nat list" where
  "rm_for_each a t =
     (if rm_ctrl t = [] \<or> rm_slots t = 0 then []
      else
        let (xs, i) = (if a = Avx2 \<and> rm_slots t \<ge> 32 then occ_blocks 32 t 0 else ([], 0));
            (ys, j) = (if a = Scalar then ([], i) else occ_blocks 16 t i)
        in xs @ ys @ filter (\<lambda>s. rm_ctrl t ! s \<noteq> 0) [j..<rm_slots t])"

subsection \<open>Cyclic offsets\<close>

definition nxt :: "nat \<Rightarrow> nat \<Rightarrow> nat" where "nxt n i = (i + 1) mod n"

definition prv :: "nat \<Rightarrow> nat \<Rightarrow> nat" where "prv n i = (i + n - 1) mod n"

text \<open>The number of steps forward from one slot to another.\<close>

definition gap :: "nat \<Rightarrow> nat \<Rightarrow> nat \<Rightarrow> nat" where "gap n e i = (e + n - i) mod n"

lemma nxt_alt: "i < n \<Longrightarrow> nxt n i = (if i + 1 = n then 0 else i + 1)"
  by (simp add: nxt_def)

lemma prv_alt: "i < n \<Longrightarrow> prv n i = (if i = 0 then n - 1 else i - 1)"
proof -
  assume "i < n"
  then have "i \<noteq> 0 \<Longrightarrow> (i + n - 1) mod n = i - 1" using mod_add_self2 [of "i - 1" n] by (simp add: less_imp_diff_less)
  then show ?thesis using \<open>i < n\<close> by (simp add: prv_def)
qed

lemma nxt_less [simp]: "0 < n \<Longrightarrow> nxt n i < n"
  by (simp add: nxt_def)

lemma nxt_prv:
  assumes "i < n" "1 < n"
  shows "nxt n (prv n i) = i" "prv n (nxt n i) = i" "prv n i < n" "nxt n i \<noteq> i" "prv n i \<noteq> i" "j < n \<Longrightarrow> nxt n j = nxt n i \<longleftrightarrow> j = i"
  using assms by (auto simp: nxt_alt prv_alt)

lemma mod_step: "(h + (p + 1)) mod n = nxt n ((h + p) mod n)"
  by (simp add: nxt_def mod_Suc_eq)

lemma gap_simps:
  assumes "i < n" "e < n"
  shows "gap n e i = 0 \<longleftrightarrow> i = e" "gap n e i < n" "i \<noteq> e \<Longrightarrow> gap n e (nxt n i) + 1 = gap n e i"
proof -
  have g: "gap n e i = (if i \<le> e then e - i else e + n - i)" if "i < n" for i
    using that assms(2) by (auto simp: gap_def le_mod_geq)
  show "gap n e i = 0 \<longleftrightarrow> i = e" "gap n e i < n" using g [OF assms(1)] assms by auto
  show "gap n e (nxt n i) + 1 = gap n e i" if "i \<noteq> e"
    using that g [OF assms(1)] g [of "nxt n i"] assms by (auto simp: nxt_alt)
qed

subsection \<open>Well-formed maps\<close>

abbreviation ct :: "('k, 'v) robin \<Rightarrow> nat \<Rightarrow> nat" where
  "ct t i \<equiv> unat (rm_ctrl t ! i)"

definition shaped :: "('k, 'v) robin \<Rightarrow> bool" where
  "shaped t \<longleftrightarrow> (\<exists>b. rm_slots t = 2 ^ b) \<and> 4 \<le> rm_slots t \<and> rm_mask t = rm_slots t - 1 \<and>
     length (rm_mem t) = rm_slots t \<and> length (rm_ctrl t) = rm_slots t"

text \<open>A node lies as far behind the home of its hash as its control byte says.\<close>

definition slot_ok :: "('k \<Rightarrow> 64 word) \<Rightarrow> ('k, 'v) robin \<Rightarrow> nat \<Rightarrow> bool" where
  "slot_ok hash t i \<longleftrightarrow> ct t i \<le> 254 \<and>
     (case rm_mem t ! i of
        None \<Rightarrow> ct t i = 0
      | Some nd \<Rightarrow> 0 < ct t i \<and> nd_hash nd = hash (nd_key nd) \<and> (home t (nd_hash nd) + (ct t i - 1)) mod rm_slots t = i)"

text \<open>From one slot to the next the distance grows by one at most; an empty slot counts as distance \<open>-1\<close>.\<close>

definition step_ok :: "('k, 'v) robin \<Rightarrow> nat \<Rightarrow> bool" where
  "step_ok t i \<longleftrightarrow> ct t (nxt (rm_slots t) i) \<le> ct t i + 1"

definition keys_once :: "('k, 'v) robin \<Rightarrow> bool" where
  "keys_once t \<longleftrightarrow> (\<forall>i < rm_slots t. \<forall>j < rm_slots t. \<forall>a b.
     rm_mem t ! i = Some a \<longrightarrow> rm_mem t ! j = Some b \<longrightarrow> nd_key a = nd_key b \<longrightarrow> i = j)"

definition placed :: "('k \<Rightarrow> 64 word) \<Rightarrow> ('k, 'v) robin \<Rightarrow> bool" where
  "placed hash t \<longleftrightarrow> shaped t \<and> (\<forall>i < rm_slots t. slot_ok hash t i) \<and> (\<forall>i < rm_slots t. step_ok t i) \<and> keys_once t"

definition taken :: "('k, 'v) robin \<Rightarrow> nat set" where
  "taken t = {i. i < rm_slots t \<and> ct t i \<noteq> 0}"

definition robin_ok :: "('k \<Rightarrow> 64 word) \<Rightarrow> ('k, 'v) robin \<Rightarrow> bool" where
  "robin_ok hash t \<longleftrightarrow> placed hash t \<and> rm_len t = card (taken t) \<and> rm_len t < rm_slots t"

definition stored :: "('k, 'v) robin \<Rightarrow> ('k \<times> 'v) set" where
  "stored t = {(nd_key nd, nd_val nd) | i nd. i < rm_slots t \<and> rm_mem t ! i = Some nd}"

definition key_at :: "('k, 'v) robin \<Rightarrow> 'k \<Rightarrow> nat \<Rightarrow> bool" where
  "key_at t k i \<longleftrightarrow> (case rm_mem t ! i of None \<Rightarrow> False | Some nd \<Rightarrow> nd_key nd = k)"

definition rm_view :: "('k, 'v) robin \<Rightarrow> 'k \<rightharpoonup> 'v" where
  "rm_view t k = map_option (\<lambda>i. nd_val (node_at t i)) (find (key_at t k) [0..<rm_slots t])"

lemma shaped_pos: "shaped t \<Longrightarrow> 0 < rm_slots t" "shaped t \<Longrightarrow> 1 < rm_slots t"
  by (auto simp: shaped_def)

lemma shaped_and: "shaped t \<Longrightarrow> x AND rm_mask t = x mod rm_slots t"
proof -
  assume "shaped t"
  then obtain b where b: "rm_slots t = 2 ^ b" "rm_mask t = 2 ^ b - 1" by (auto simp: shaped_def)
  have "x AND (2 ^ b - 1) = take_bit b x" using take_bit_eq_mask [of b x] by (simp add: mask_eq_exp_minus_1)
  then show ?thesis using b by (simp add: take_bit_eq_mod)
qed

lemma shaped_next: "shaped t \<Longrightarrow> (i + 1) AND rm_mask t = nxt (rm_slots t) i"
  by (simp add: shaped_and nxt_def)

lemma home_mod: "shaped t \<Longrightarrow> home t h = unat h mod rm_slots t"
  by (simp add: home_def shaped_and)

lemma home_less [simp]: "shaped t \<Longrightarrow> home t h < rm_slots t"
  using shaped_pos [of t] by (simp add: home_mod)

lemma shaped_set_slot [simp]:
  "shaped (set_slot i nd c t) = shaped t" "shaped (t\<lparr>rm_len := l\<rparr>) = shaped t"
  by (simp_all add: shaped_def set_slot_def)

lemma set_slot_simps [simp]:
  "rm_slots (set_slot i nd c t) = rm_slots t" "rm_mask (set_slot i nd c t) = rm_mask t" "rm_len (set_slot i nd c t) = rm_len t"
  "home (set_slot i nd c t) h = home t h"
  by (simp_all add: set_slot_def home_def)

lemma set_slot_nth:
  assumes "shaped t" "i < rm_slots t" "j < rm_slots t"
  shows "rm_mem (set_slot i nd c t) ! j = (if j = i then nd else rm_mem t ! j)"
    "rm_ctrl (set_slot i nd c t) ! j = (if j = i then c else rm_ctrl t ! j)"
  using assms by (simp_all add: set_slot_def shaped_def)

lemma encode_dist_unat: "d \<le> 253 \<Longrightarrow> unat (encode_dist d) = d + 1"
proof -
  assume "d \<le> 253"
  then have "unat (of_nat (d + 1) :: 8 word) = d + 1" by (subst unsigned_of_nat) (simp add: take_bit_nat_eq_self)
  with \<open>d \<le> 253\<close> show ?thesis by (simp add: encode_dist_def Let_def)
qed

lemma stored_iff: "(k, v) \<in> stored t \<longleftrightarrow> (\<exists>i < rm_slots t. \<exists>nd. rm_mem t ! i = Some nd \<and> nd_key nd = k \<and> nd_val nd = v)"
  by (auto simp: stored_def)

lemma stored_once: "keys_once t \<Longrightarrow> (k, v) \<in> stored t \<Longrightarrow> (k, v') \<in> stored t \<Longrightarrow> v = v'"
  unfolding stored_iff keys_once_def by fastforce

lemma rm_view_iff:
  assumes "keys_once t"
  shows "rm_view t k = Some v \<longleftrightarrow> (k, v) \<in> stored t"
proof
  assume "rm_view t k = Some v"
  then obtain i where i: "find (key_at t k) [0..<rm_slots t] = Some i" "nd_val (node_at t i) = v" by (auto simp: rm_view_def)
  then have "i < rm_slots t" "key_at t k i" by (auto simp: find_Some_iff)
  then show "(k, v) \<in> stored t" using i(2) unfolding stored_iff key_at_def node_at_def by (auto split: option.splits)
next
  assume "(k, v) \<in> stored t"
  then obtain i nd where i: "i < rm_slots t" "rm_mem t ! i = Some nd" "nd_key nd = k" "nd_val nd = v" by (auto simp: stored_iff)
  then have "key_at t k i" by (simp add: key_at_def)
  then obtain j where j: "find (key_at t k) [0..<rm_slots t] = Some j" using i(1) by (cases "find (key_at t k) [0..<rm_slots t]") (auto simp: find_None_iff)
  then have "j < rm_slots t" "key_at t k j" by (auto simp: find_Some_iff)
  then have "j = i" using assms i unfolding keys_once_def key_at_def by (auto split: option.splits)
  then show "rm_view t k = Some v" using j i by (simp add: rm_view_def node_at_def)
qed

lemma rm_view_None: "keys_once t \<Longrightarrow> rm_view t k = None \<longleftrightarrow> k \<notin> fst ` stored t"
proof -
  assume u: "keys_once t"
  show ?thesis
  proof (cases "rm_view t k")
    case None then show ?thesis using rm_view_iff [OF u, of k] by auto
  next
    case (Some v)
    then have "(k, v) \<in> stored t" using rm_view_iff [OF u] by blast
    then show ?thesis using Some by (auto intro: rev_image_eqI)
  qed
qed

subsection \<open>Looking up\<close>

text \<open>The slots between the home of an element and its place are farther from their homes than the probe has come.\<close>

lemma placed_between:
  assumes "shaped t" "\<forall>i < rm_slots t. step_ok t i" "d + 1 \<le> ct t ((h + d) mod rm_slots t)"
  shows "p \<le> d \<Longrightarrow> p + 1 \<le> ct t ((h + p) mod rm_slots t)"
proof (induction "d - p" arbitrary: p)
  case 0 then show ?case using assms(3) by simp
next
  case (Suc m)
  then have "p + 1 + 1 \<le> ct t ((h + (p + 1)) mod rm_slots t)" by (intro Suc.hyps(1)) auto
  moreover have "step_ok t ((h + p) mod rm_slots t)" using assms(2) shaped_pos [OF assms(1)] by simp
  ultimately show ?case unfolding step_ok_def mod_step by simp
qed

lemma probe_loop_Some:
  "shaped t \<Longrightarrow> index < rm_slots t \<Longrightarrow> probe_loop t kh k index plen = Some i \<Longrightarrow> i < rm_slots t \<and> 0 < ct t i \<and> hits t kh k i"
proof (induction t kh k index plen rule: probe_loop.induct)
  case (1 t kh k index plen)
  show ?case
  proof (cases "plen < ct t index \<and> \<not> hits t kh k index")
    case True
    then have "probe_loop t kh k ((index + 1) AND rm_mask t) (plen + 1) = Some i" using 1(4) by (subst (asm) probe_loop.simps) simp
    moreover have "(index + 1) AND rm_mask t < rm_slots t" using 1(2) by (simp only: shaped_next shaped_pos nxt_less)
    ultimately show ?thesis using 1(1,2) True by blast
  next
    case False
    then show ?thesis using 1(3,4) by (subst (asm) probe_loop.simps) (auto split: if_splits)
  qed
qed

lemma placed_at:
  assumes "placed hash t" "i < rm_slots t" "rm_mem t ! i = Some nd"
  shows "0 < ct t i" "ct t i \<le> 254" "nd_hash nd = hash (nd_key nd)" "(home t (hash (nd_key nd)) + (ct t i - 1)) mod rm_slots t = i"
  using assms unfolding placed_def slot_ok_def by (auto split: option.splits)

lemma placed_occupied:
  assumes "placed hash t" "i < rm_slots t" "0 < ct t i"
  obtains nd where "rm_mem t ! i = Some nd"
  using assms unfolding placed_def slot_ok_def by (auto split: option.splits)

lemma placed_hits:
  assumes "placed hash t" "i < rm_slots t" "rm_mem t ! i = Some nd" "j < rm_slots t" "0 < ct t j" "hits t kh (nd_key nd) j"
  shows "j = i"
proof -
  obtain b where b: "rm_mem t ! j = Some b" using placed_occupied [OF assms(1,4,5)] .
  then have "nd_key b = nd_key nd" using assms(6) by (simp add: hits_def node_at_def)
  then show ?thesis using assms(1-4) b unfolding placed_def keys_once_def by blast
qed

lemma probe_loop_finds:
  assumes "placed hash t" "i < rm_slots t" "rm_mem t ! i = Some nd"
  shows "p < ct t i \<Longrightarrow> probe_loop t (hash (nd_key nd)) (nd_key nd) ((home t (hash (nd_key nd)) + p) mod rm_slots t) p = Some i"
proof (induction "ct t i - p" arbitrary: p)
  case (Suc m)
  let ?h = "home t (hash (nd_key nd))" and ?n = "rm_slots t"
  have sh: "shaped t" "\<forall>i < ?n. step_ok t i" using assms(1) by (simp_all add: placed_def)
  have at: "(?h + (ct t i - 1)) mod ?n = i" using placed_at(4) [OF assms] .
  have "ct t i - 1 + 1 \<le> ct t ((?h + (ct t i - 1)) mod ?n)" using placed_at(1) [OF assms] at by simp
  from placed_between [OF sh this, of p] Suc.prems have c: "p < ct t ((?h + p) mod ?n)" by linarith
  have lt: "(?h + p) mod ?n < ?n" using shaped_pos [OF sh(1)] by simp
  show ?case
  proof (cases "hits t (hash (nd_key nd)) (nd_key nd) ((?h + p) mod ?n)")
    case True
    then show ?thesis using placed_hits [OF assms lt _ True] c by (subst probe_loop.simps) simp
  next
    case False
    have "\<not> p + 1 \<ge> ct t i"
    proof
      assume "p + 1 \<ge> ct t i"
      then have "p = ct t i - 1" using Suc.prems by simp
      then have "(?h + p) mod ?n = i" using at by simp
      then show False using False assms(3) placed_at(3) [OF assms] by (simp add: hits_def node_at_def)
    qed
    then have "probe_loop t (hash (nd_key nd)) (nd_key nd) ((?h + (p + 1)) mod ?n) (p + 1) = Some i" using Suc.hyps by (intro Suc.hyps(1)) auto
    then show ?thesis using False c by (subst probe_loop.simps) (simp only: mod_step shaped_next [OF sh(1)] if_True if_False)
  qed
qed simp

lemma probe_loop_iff:
  assumes "placed hash t"
  shows "probe_loop t (hash k) k (home t (hash k)) 0 = Some i \<longleftrightarrow> i < rm_slots t \<and> (\<exists>nd. rm_mem t ! i = Some nd \<and> nd_key nd = k)"
proof
  have sh: "shaped t" using assms by (simp add: placed_def)
  assume "probe_loop t (hash k) k (home t (hash k)) 0 = Some i"
  from probe_loop_Some [OF sh home_less [OF sh] this] have i: "i < rm_slots t" "0 < ct t i" "hits t (hash k) k i" by auto
  obtain nd where "rm_mem t ! i = Some nd" using placed_occupied [OF assms i(1,2)] .
  then show "i < rm_slots t \<and> (\<exists>nd. rm_mem t ! i = Some nd \<and> nd_key nd = k)" using i by (simp add: hits_def node_at_def)
next
  assume "i < rm_slots t \<and> (\<exists>nd. rm_mem t ! i = Some nd \<and> nd_key nd = k)"
  then obtain nd where nd: "i < rm_slots t" "rm_mem t ! i = Some nd" "nd_key nd = k" by blast
  have "shaped t" using assms by (simp add: placed_def)
  then show "probe_loop t (hash k) k (home t (hash k)) 0 = Some i"
    using probe_loop_finds [OF assms nd(1,2), of 0] placed_at(1) [OF assms nd(1,2)] nd(3) by simp
qed

text \<open>The vector units see the same order on control bytes.\<close>

lemma flip_sless: "x XOR 0x80 <s y XOR 0x80 \<longleftrightarrow> (x :: 8 word) < y"
proof -
  have "list_all (\<lambda>k. sint ((of_nat k :: 8 word) XOR 0x80) = int k - 128) [0..<256]" by code_simp
  then have all: "sint ((of_nat k :: 8 word) XOR 0x80) = int k - 128" if "k < 256" for k using that by (simp add: list_all_iff)
  have "sint (z XOR 0x80) = int (unat z) - 128" for z :: "8 word"
  proof -
    have "(of_nat (unat z) :: 8 word) = z" by simp
    with all [OF ctrl_less [of z]] show ?thesis by (metis)
  qed
  then show ?thesis by (simp add: word_sless_alt word_less_def)
qed

lemma lane_gt_less: "lane_gt a cv th \<longleftrightarrow> th < cv"
  by (cases a) (simp_all add: lane_gt_def flip_sless)

lemma ctrl_scan_lane:
  assumes "unat c \<le> 254" "i < 32"
  shows "lane_gt a c (add_sat_u8 (if plen \<le> 255 then of_nat plen else 255) (of_nat i)) \<longleftrightarrow> plen + i < unat c"
proof -
  have u: "unat (of_nat k :: 8 word) = k" if "k \<le> 255" for k using that by (subst unsigned_of_nat) (simp add: take_bit_nat_eq_self)
  have "unat (if plen \<le> 255 then of_nat plen else 255 :: 8 word) = min 255 plen" using u [of plen] by simp
  moreover have "unat (of_nat i :: 8 word) = i" using u [of i] assms(2) by simp
  ultimately have "unat (add_sat_u8 (if plen \<le> 255 then of_nat plen else 255) (of_nat i)) = min 255 (min 255 plen + i)"
    using u [of "min 255 (min 255 plen + i)"] by (simp add: add_sat_u8_def)
  then show ?thesis using assms(1) by (simp add: lane_gt_less word_less_nat_alt) linarith
qed

lemma window_le: "ctrl_window a \<le> 32"
  by (cases a) (simp_all add: ctrl_window_def)

lemma ctrl_scan_spec:
  assumes "\<forall>i < ctrl_window a. unat (p ! i) \<le> 254"
  shows "ctrl_scan a p plen \<le> ctrl_window a" "i < ctrl_scan a p plen \<Longrightarrow> plen + i < unat (p ! i)"
    "ctrl_scan a p plen < ctrl_window a \<Longrightarrow> \<not> plen + ctrl_scan a p plen < unat (p ! ctrl_scan a p plen)"
proof -
  let ?Q = "\<lambda>i. \<not> plen + i < unat (p ! i)"
  have "find (\<lambda>i. \<not> lane_gt a (p ! i) (add_sat_u8 (if plen \<le> 255 then of_nat plen else 255) (of_nat i))) [0..<ctrl_window a] =
      find ?Q [0..<ctrl_window a]"
  proof (intro find_cong refl)
    fix i assume "i \<in> set [0..<ctrl_window a]"
    then show "(\<not> lane_gt a (p ! i) (add_sat_u8 (if plen \<le> 255 then of_nat plen else 255) (of_nat i))) = ?Q i"
      using ctrl_scan_lane [of "p ! i" i a plen] assms window_le [of a] by simp
  qed
  then have s: "ctrl_scan a p plen = (case find ?Q [0..<ctrl_window a] of None \<Rightarrow> ctrl_window a | Some i \<Rightarrow> i)" by (simp add: ctrl_scan_def Let_def)
  show "ctrl_scan a p plen \<le> ctrl_window a" unfolding s by (auto split: option.splits simp: find_Some_iff)
  show "plen + i < unat (p ! i)" if "i < ctrl_scan a p plen"
    using that unfolding s by (auto split: option.splits simp: find_Some_iff find_None_iff)
  show "\<not> plen + ctrl_scan a p plen < unat (p ! ctrl_scan a p plen)" if less: "ctrl_scan a p plen < ctrl_window a"
  proof (cases "find ?Q [0..<ctrl_window a]")
    case None then show ?thesis using less s by simp
  next
    case (Some i)
    then have "ctrl_scan a p plen = i" "?Q i" using s by (simp, auto simp: find_Some_iff)
    then show ?thesis by simp
  qed
qed

lemma find_snoc: "find P (xs @ [x]) = (case find P xs of Some y \<Rightarrow> Some y | None \<Rightarrow> if P x then Some x else None)"
  by (induction xs) auto

lemma probe_unroll:
  assumes "shaped t" "index < rm_slots t"
  shows "index + m \<le> rm_slots t \<Longrightarrow> (\<And>i. i < m \<Longrightarrow> plen + i < ct t (index + i)) \<Longrightarrow>
    probe_loop t kh k index plen = (case find (\<lambda>i. hits t kh k (index + i)) [0..<m] of
      Some i \<Rightarrow> Some (index + i) | None \<Rightarrow> probe_loop t kh k ((index + m) mod rm_slots t) (plen + m))"
proof (induction m)
  case 0 then show ?case using assms(2) by simp
next
  case (Suc m)
  have c: "plen + m < ct t (index + m)" and lt: "(index + m) mod rm_slots t = index + m" using Suc.prems by simp_all
  have "probe_loop t kh k (index + m) (plen + m) =
    (if hits t kh k (index + m) then Some (index + m) else probe_loop t kh k ((index + Suc m) mod rm_slots t) (plen + Suc m))"
    using c by (subst probe_loop.simps) (simp add: shaped_and [OF assms(1)])
  then show ?case using Suc lt by (auto simp: find_snoc split: option.splits)
qed

lemma window_loop_scalar:
  "shaped t \<Longrightarrow> \<forall>i < rm_slots t. ct t i \<le> 254 \<Longrightarrow> index < rm_slots t \<Longrightarrow> window_loop a t kh k index plen = probe_loop t kh k index plen"
proof (induction a t kh k index plen rule: window_loop.induct)
  case (1 a t kh k index plen)
  let ?W = "ctrl_window a" and ?n = "rm_slots t"
  show ?case
  proof (cases "?W \<noteq> 0 \<and> plen \<le> max_stored_dist \<and> index + ?W \<le> ?n")
    case False then show ?thesis by (subst window_loop.simps) (auto simp: Let_def)
  next
    case True
    let ?p = "drop index (rm_ctrl t)" let ?s = "ctrl_scan a ?p plen"
    have len: "length (rm_ctrl t) = ?n" using 1(2) by (simp add: shaped_def)
    have p: "?p ! i = rm_ctrl t ! (index + i)" for i using 1(4) len by simp
    have "\<forall>i < ?W. unat (?p ! i) \<le> 254" using 1(3) True by (simp add: p)
    note sp = ctrl_scan_spec(1) [OF this, of plen] ctrl_scan_spec(2) [OF this, where plen = plen, unfolded p]
      ctrl_scan_spec(3) [OF this, of plen, unfolded p]
    have s: "index + ?s \<le> ?n" using sp(1) True by simp
    have u: "probe_loop t kh k index plen = (case find (\<lambda>i. hits t kh k (index + i)) [0..<?s] of
        Some i \<Rightarrow> Some (index + i) | None \<Rightarrow> probe_loop t kh k ((index + ?s) mod ?n) (plen + ?s))"
      by (rule probe_unroll [OF 1(2,4) s]) (rule sp(2))
    have w: "window_loop a t kh k index plen = (case find (\<lambda>i. hits t kh k (index + i)) [0..<?s] of
        Some i \<Rightarrow> Some (index + i) | None \<Rightarrow> if ?s < ?W then None else window_loop a t kh k ((index + ?W) AND rm_mask t) (plen + ?W))"
      using True by (subst window_loop.simps) (simp add: Let_def)
    show ?thesis
    proof (cases "find (\<lambda>i. hits t kh k (index + i)) [0..<?s]")
      case Some then show ?thesis using u w by simp
    next
      case None
      show ?thesis
      proof (cases "?s < ?W")
        case less: True
        then have "(index + ?s) mod ?n = index + ?s" using True by simp
        then have "probe_loop t kh k ((index + ?s) mod ?n) (plen + ?s) = None" using sp(3) less by (subst probe_loop.simps) simp
        then show ?thesis using u w None less by simp
      next
        case False
        then have e: "?s = ?W" using sp(1) by simp
        have "(index + ?W) AND rm_mask t < ?n" using 1(2) shaped_pos [OF 1(2)] by (simp add: shaped_and)
        then have "window_loop a t kh k ((index + ?W) AND rm_mask t) (plen + ?W) = probe_loop t kh k ((index + ?W) AND rm_mask t) (plen + ?W)"
          using 1(1) [OF refl True refl None] False 1(2,3) by simp
        then show ?thesis using u w None e by (simp add: shaped_and [OF 1(2)])
      qed
    qed
  qed
qed

lemma probe_find_scalar:
  assumes "placed hash t"
  shows "probe_find a kh k t = probe_loop t kh k (home t kh) 0"
proof -
  have sh: "shaped t" "\<forall>i < rm_slots t. ct t i \<le> 254" using assms by (auto simp: placed_def slot_ok_def)
  then have "rm_ctrl t \<noteq> []" "rm_slots t \<noteq> 0" by (auto simp: shaped_def)
  then show ?thesis using window_loop_scalar [OF sh home_less [OF sh(1)]] by (simp add: probe_find_def)
qed

lemma rm_find_iff:
  assumes "placed hash t"
  shows "rm_find a hash k t = Some i \<longleftrightarrow> i < rm_slots t \<and> (\<exists>nd. rm_mem t ! i = Some nd \<and> nd_key nd = k)"
  using probe_loop_iff [OF assms, of k i] probe_find_scalar [OF assms, of a "hash k" k] by (simp add: rm_find_def)

text \<open>A lookup returns the slot that holds the value of the key.\<close>

lemma rm_find_view:
  assumes "placed hash t"
  shows "map_option (\<lambda>i. nd_val (node_at t i)) (rm_find a hash k t) = rm_view t k"
proof (cases "rm_find a hash k t")
  case None
  have "keys_once t" using assms by (simp add: placed_def)
  moreover have "k \<notin> fst ` stored t"
  proof
    assume "k \<in> fst ` stored t"
    then obtain i nd where "i < rm_slots t" "rm_mem t ! i = Some nd" "nd_key nd = k" by (auto simp: stored_def)
    then have "rm_find a hash k t = Some i" using rm_find_iff [OF assms] by blast
    with None show False by simp
  qed
  ultimately have "rm_view t k = None" by (simp add: rm_view_None)
  with None show ?thesis by simp
next
  case (Some i)
  then obtain nd where nd: "i < rm_slots t" "rm_mem t ! i = Some nd" "nd_key nd = k" using rm_find_iff [OF assms] by blast
  have "rm_view t k = Some (nd_val nd)" using assms nd by (subst rm_view_iff) (auto simp: placed_def stored_iff)
  with Some nd show ?thesis by (simp add: node_at_def)
qed

end
