(* ===== verification/Map_Robin_Insert.thy ===== *)
theory Map_Robin_Insert
  imports Map_Robin
begin

text \<open>
  Inserting into the Robin Hood map: an element on its way takes the slot of one that is nearer to home, and that one goes on.
\<close>

unbundle bit_operations_syntax

subsection \<open>Inserting keeps the order of distances\<close>

text \<open>An element on its way: not in the map, at a slot of its probe sequence that follows one at least as far from home.\<close>

definition carries :: "('k \<Rightarrow> 64 word) \<Rightarrow> ('k, 'v) robin \<Rightarrow> 'k \<Rightarrow> nat \<Rightarrow> nat \<Rightarrow> bool" where
  "carries hash t k index plen \<longleftrightarrow> placed hash t \<and> index = (home t (hash k) + plen) mod rm_slots t \<and>
     (0 < plen \<longrightarrow> plen \<le> ct t (prv (rm_slots t) index)) \<and>
     (\<forall>i < rm_slots t. \<forall>nd. rm_mem t ! i = Some nd \<longrightarrow> nd_key nd \<noteq> k)"

lemma carriesD:
  assumes "carries hash t k index plen"
  shows "placed hash t" "shaped t" "index < rm_slots t" "index = (home t (hash k) + plen) mod rm_slots t"
    "0 < plen \<Longrightarrow> plen \<le> ct t (prv (rm_slots t) index)"
    "i < rm_slots t \<Longrightarrow> rm_mem t ! i = Some nd \<Longrightarrow> nd_key nd \<noteq> k"
  using assms shaped_pos [of t] unfolding carries_def placed_def by auto

lemma placedI:
  assumes "shaped t" "\<And>i. i < rm_slots t \<Longrightarrow> slot_ok hash t i" "\<And>i. i < rm_slots t \<Longrightarrow> step_ok t i" "keys_once t"
  shows "placed hash t"
  using assms by (simp add: placed_def)

text \<open>Putting the element into its slot, whether that was empty or held one nearer to home.\<close>

lemma placed_put:
  assumes c: "carries hash t k index plen" and p: "plen \<le> 253" "ct t index \<le> plen + 1"
    and nd: "nd_key nd = k" "nd_hash nd = hash k"
  shows "placed hash (set_slot index (Some nd) (encode_dist plen) t)"
proof (rule placedI)
  let ?n = "rm_slots t" and ?t = "set_slot index (Some nd) (encode_dist plen) t"
  note D = carriesD [OF c]
  have n: "1 < ?n" using shaped_pos [OF D(2)] by simp
  have ok: "slot_ok hash t i" "step_ok t i" if "i < ?n" for i using D(1) that by (auto simp: placed_def)
  have ct: "ct ?t j = (if j = index then plen + 1 else ct t j)" if "j < ?n" for j
    using set_slot_nth(2) [OF D(2,3) that] encode_dist_unat [OF p(1)] by simp
  show "shaped ?t" using D(2) by simp
  show "slot_ok hash ?t i" if i: "i < rm_slots ?t" for i
  proof (cases "i = index")
    case True then show ?thesis using set_slot_nth(1) [OF D(2,3,3)] ct [OF D(3)] D(4) p(1) nd by (simp add: slot_ok_def)
  next
    case False
    then have "slot_ok hash ?t i \<longleftrightarrow> slot_ok hash t i" using i ct [of i] set_slot_nth(1) [OF D(2,3), of i] by (simp add: slot_ok_def split: option.splits)
    then show ?thesis using ok i by simp
  qed
  show "step_ok ?t i" if i: "i < rm_slots ?t" for i
  proof -
    have i: "i < ?n" using i by simp
    have nx: "nxt ?n i < ?n" using n by simp
    consider "i = index" | "nxt ?n i = index" "i \<noteq> index" | "i \<noteq> index" "nxt ?n i \<noteq> index" by blast
    then show ?thesis
    proof cases
      case 1
      then have "nxt ?n i \<noteq> index" using nxt_prv(4) [OF i n] by simp
      then show ?thesis using 1 ok(2) [OF i] p(2) ct [OF i] ct [OF nx] by (simp add: step_ok_def)
    next
      case 2
      then have "i = prv ?n index" using nxt_prv(2) [OF i n] by simp
      then show ?thesis using 2 D(5) ct [OF i] ct [OF nx] by (cases "plen = 0") (auto simp: step_ok_def)
    next
      case 3 then show ?thesis using ok(2) [OF i] ct [OF i] ct [OF nx] by (simp add: step_ok_def)
    qed
  qed
  show "keys_once ?t"
    unfolding keys_once_def
  proof (intro allI impI)
    fix i j a b assume i: "i < rm_slots ?t" "j < rm_slots ?t" "rm_mem ?t ! i = Some a" "rm_mem ?t ! j = Some b" "nd_key a = nd_key b"
    have "keys_once t" using D(1) by (simp add: placed_def)
    then show "i = j" using i D(6) nd(1) set_slot_nth(1) [OF D(2,3)] unfolding keys_once_def by (auto split: if_splits)
  qed
qed

text \<open>The element that is taken out goes on.\<close>

lemma carries_steal:
  assumes c: "carries hash t k index plen" and p: "plen \<le> 253" "rm_mem t ! index = Some old" "stored_dist t index < plen"
    and nd: "nd_key nd = k" "nd_hash nd = hash k"
  shows "carries hash (set_slot index (Some nd) (encode_dist plen) t) (nd_key old) (nxt (rm_slots t) index) (stored_dist t index + 1)"
proof -
  let ?n = "rm_slots t" and ?t = "set_slot index (Some nd) (encode_dist plen) t" and ?d = "stored_dist t index"
  note D = carriesD [OF c]
  have n: "1 < ?n" using shaped_pos [OF D(2)] by simp
  have at: "0 < ct t index" "(home t (hash (nd_key old)) + (ct t index - 1)) mod ?n = index" using placed_at [OF D(1,3) p(2)] by auto
  then have "placed hash ?t" using placed_put [OF c p(1) _ nd] p(3) by (simp add: stored_dist_def)
  moreover have "nxt ?n index = (home ?t (hash (nd_key old)) + (?d + 1)) mod ?n"
    using at(2) by (simp only: mod_step set_slot_simps stored_dist_def)
  moreover have "?d + 1 \<le> ct ?t (prv ?n (nxt ?n index))"
    using nxt_prv(2) [OF D(3) n] set_slot_nth(2) [OF D(2,3,3)] encode_dist_unat [OF p(1)] p(3) by simp
  moreover have "nd_key a \<noteq> nd_key old" if "i < ?n" "rm_mem ?t ! i = Some a" for i a
  proof (cases "i = index")
    case True then show ?thesis using that(2) set_slot_nth(1) [OF D(2,3,3)] D(6) [OF D(3) p(2)] nd(1) by auto
  next
    case False
    then have "rm_mem t ! i = Some a" using that set_slot_nth(1) [OF D(2,3) that(1)] by simp
    then show ?thesis using False D(1,3) p(2) that(1) unfolding placed_def keys_once_def by blast
  qed
  ultimately show ?thesis unfolding carries_def by simp
qed

lemma carries_pass:
  assumes c: "carries hash t k index plen" and "occupied t index" "plen \<le> stored_dist t index"
  shows "carries hash t k (nxt (rm_slots t) index) (plen + 1)"
proof -
  let ?n = "rm_slots t"
  note D = carriesD [OF c]
  have n: "1 < ?n" using shaped_pos [OF D(2)] by simp
  have "nxt ?n index = (home t (hash k) + (plen + 1)) mod ?n" using D(4) by (simp only: mod_step)
  moreover have "0 < ct t index" using assms(2) by (simp add: occupied_def unat_gt_0)
  then have "plen + 1 \<le> ct t (prv ?n (nxt ?n index))" using nxt_prv(2) [OF D(3) n] assms(3) by (simp add: stored_dist_def)
  ultimately show ?thesis using D(1,6) unfolding carries_def by blast
qed

subsection \<open>What is stored\<close>

definition live :: "('k, 'v) robin \<Rightarrow> ('k, 'v) rnode \<Rightarrow> bool" where
  "live t nd \<longleftrightarrow> (\<exists>i < rm_slots t. rm_mem t ! i = Some nd)"

lemma stored_live: "stored t = (\<lambda>nd. (nd_key nd, nd_val nd)) ` {nd. live t nd}"
  by (auto simp: stored_def live_def)

lemma live_set_slot:
  assumes "shaped t" "x < rm_slots t"
  shows "live (set_slot x nd c t) a \<longleftrightarrow> nd = Some a \<or> (\<exists>i < rm_slots t. i \<noteq> x \<and> rm_mem t ! i = Some a)"
  unfolding live_def set_slot_simps
proof
  assume "\<exists>i < rm_slots t. rm_mem (set_slot x nd c t) ! i = Some a"
  then obtain i where "i < rm_slots t" "rm_mem (set_slot x nd c t) ! i = Some a" by blast
  then show "nd = Some a \<or> (\<exists>i < rm_slots t. i \<noteq> x \<and> rm_mem t ! i = Some a)" using set_slot_nth(1) [OF assms, of i nd c] by (cases "i = x") auto
next
  assume "nd = Some a \<or> (\<exists>i < rm_slots t. i \<noteq> x \<and> rm_mem t ! i = Some a)"
  then show "\<exists>i < rm_slots t. rm_mem (set_slot x nd c t) ! i = Some a"
  proof
    assume "nd = Some a" then show ?thesis using set_slot_nth(1) [OF assms assms(2), of nd c] assms(2) by auto
  next
    assume "\<exists>i < rm_slots t. i \<noteq> x \<and> rm_mem t ! i = Some a"
    then obtain i where "i < rm_slots t" "i \<noteq> x" "rm_mem t ! i = Some a" by blast
    then show ?thesis using set_slot_nth(1) [OF assms, of i nd c] by auto
  qed
qed

lemma stored_put:
  assumes "shaped t" "index < rm_slots t" "rm_mem t ! index = None"
  shows "stored (set_slot index (Some nd) c t) = insert (nd_key nd, nd_val nd) (stored t)"
proof -
  have "live (set_slot index (Some nd) c t) a \<longleftrightarrow> a = nd \<or> live t a" for a
    using live_set_slot [OF assms(1,2)] assms(3) by (auto simp: live_def)
  then have "{a. live (set_slot index (Some nd) c t) a} = insert nd {a. live t a}" by auto
  then show ?thesis by (simp add: stored_live)
qed

lemma stored_exchange:
  assumes "shaped t" "index < rm_slots t" "rm_mem t ! index = Some old"
  shows "insert (nd_key old, nd_val old) (stored (set_slot index (Some nd) c t)) = insert (nd_key nd, nd_val nd) (stored t)"
proof -
  have "a = old \<or> live (set_slot index (Some nd) c t) a \<longleftrightarrow> a = nd \<or> live t a" for a
    using live_set_slot [OF assms(1,2)] assms(2,3) by (auto simp: live_def)
  then have "insert old {a. live (set_slot index (Some nd) c t) a} = insert nd {a. live t a}" by auto
  from arg_cong [OF this, of "image (\<lambda>nd. (nd_key nd, nd_val nd))"] show ?thesis by (simp add: stored_live)
qed

lemma taken_set_slot:
  assumes "shaped t" "index < rm_slots t"
  shows "taken (set_slot index nd c t) = (if c = 0 then taken t - {index} else insert index (taken t))"
  using assms set_slot_nth(2) [OF assms] by (auto simp: taken_def unat_gt_0 split: if_splits)

lemma encode_nonzero: "d \<le> 253 \<Longrightarrow> encode_dist d \<noteq> 0"
  using encode_dist_unat [of d] by auto

text \<open>The exchange under a mask.\<close>

lemma xor_mask:
  "kh XOR ((kh XOR h) AND - (if b then 1 else 0)) = (if b then h else kh)" "h XOR ((kh XOR h) AND - (if b then 1 else 0)) = (if b then kh else (h :: 64 word))"
proof -
  have "x XOR (x XOR y) = y" "y XOR (x XOR y) = x" for x y :: "64 word" by (auto intro!: bit_word_eqI simp: bit_xor_iff)
  then show "kh XOR ((kh XOR h) AND - (if b then 1 else 0)) = (if b then h else kh)" "h XOR ((kh XOR h) AND - (if b then 1 else 0)) = (if b then kh else h)"
    by simp_all
qed

text \<open>The four ways of a step.\<close>

lemma insert_loop_far: "plen > max_stored_dist \<Longrightarrow> insert_loop s kh k v index plen res t = (Inl Distance_limit, t)"
  by (subst insert_loop.simps) simp

lemma insert_loop_empty:
  "plen \<le> max_stored_dist \<Longrightarrow> \<not> occupied t index \<Longrightarrow> insert_loop s kh k v index plen res t =
     (Inr (case res of None \<Rightarrow> index | Some r \<Rightarrow> r),
      (set_slot index (Some \<lparr>nd_hash = kh, nd_key = k, nd_val = v\<rparr>) (encode_dist plen) t)\<lparr>rm_len := rm_len t + 1\<rparr>)"
  by (subst insert_loop.simps) simp

lemma insert_loop_found:
  "plen \<le> max_stored_dist \<Longrightarrow> occupied t index \<Longrightarrow> hits t kh k index \<Longrightarrow> insert_loop s kh k v index plen res t =
     (Inr index, t\<lparr>rm_mem := (rm_mem t)[index := Some ((node_at t index)\<lparr>nd_val := v\<rparr>)]\<rparr>)"
  by (subst insert_loop.simps) (simp add: hits_def Let_def)

lemma insert_loop_steal:
  assumes "plen \<le> max_stored_dist" "occupied t index" "\<not> hits t kh k index" "stored_dist t index < plen"
  shows "insert_loop s kh k v index plen res t =
    (let old = node_at t index; t' = set_slot index (Some \<lparr>nd_hash = kh, nd_key = k, nd_val = v\<rparr>) (encode_dist plen) t
     in if s + 1 > max_probe then (Inl Probe_limit, t')
        else insert_loop (s + 1) (nd_hash old) (nd_key old) (nd_val old) ((index + 1) AND rm_mask t) (stored_dist t index + 1)
               (case res of None \<Rightarrow> Some index | Some r \<Rightarrow> Some r) t')"
proof -
  have "(if res = None then Some index else res) = (case res of None \<Rightarrow> Some index | Some r \<Rightarrow> Some r)" by (cases res) auto
  moreover have "(nd_hash (node_at t index) = kh \<and> nd_key (node_at t index) = k) = False" using assms(3) by (simp add: hits_def)
  ultimately show ?thesis using assms(1,2,4) xor_mask [where b = True] by (subst insert_loop.simps) (auto simp: Let_def)
qed

lemma set_slot_same:
  assumes "rm_mem t ! index = Some nd"
  shows "set_slot index (Some nd) (rm_ctrl t ! index) t = t"
  using assms list_update_id [of "rm_mem t" index] list_update_id [of "rm_ctrl t" index] by (simp add: set_slot_def)

lemma insert_loop_pass:
  assumes "plen \<le> max_stored_dist" "occupied t index" "\<not> hits t kh k index" "\<not> stored_dist t index < plen" "rm_mem t ! index = Some nd"
  shows "insert_loop s kh k v index plen res t =
    (if s + 1 > max_probe then (Inl Probe_limit, t)
     else insert_loop (s + 1) kh k v ((index + 1) AND rm_mask t) (plen + 1) res t)"
proof -
  have "set_slot index (Some \<lparr>nd_hash = nd_hash nd, nd_key = nd_key nd, nd_val = nd_val nd\<rparr>) (rm_ctrl t ! index) t = t"
    using set_slot_same [OF assms(5)] by (cases nd) simp
  moreover have "(nd_hash nd = kh \<and> nd_key nd = k) = False" "node_at t index = nd" using assms(3,5) by (simp_all add: hits_def node_at_def)
  ultimately show ?thesis using assms(1,2,4) by (subst insert_loop.simps) (auto simp: Let_def)
qed

text \<open>Where the new element lies once it has taken a slot: behind the one that is looked at, seen from an empty slot.\<close>

definition lies :: "('k, 'v) robin \<Rightarrow> nat \<Rightarrow> nat \<Rightarrow> 'k \<times> 'v \<Rightarrow> nat option \<Rightarrow> 'k \<times> 'v \<Rightarrow> bool" where
  "lies t e index new res cur \<longleftrightarrow>
     (case res of
        None \<Rightarrow> cur = new
      | Some r \<Rightarrow> r < rm_slots t \<and> gap (rm_slots t) e index < gap (rm_slots t) e r \<and>
          (\<exists>nd. rm_mem t ! r = Some nd \<and> (nd_key nd, nd_val nd) = new))"

text \<open>
  The outcome of inserting a new key: it is stored at the slot that is returned; or the insertion fails, and one element, the new one or
  one that was stored before, is missing.
\<close>

definition added :: "('k \<Rightarrow> 64 word) \<Rightarrow> ('k, 'v) robin \<Rightarrow> 'k \<times> 'v \<Rightarrow> ('k \<times> 'v) set \<Rightarrow> (rm_error + nat) \<times> ('k, 'v) robin \<Rightarrow> bool" where
  "added hash t new all out \<longleftrightarrow> placed hash (snd out) \<and> rm_slots (snd out) = rm_slots t \<and>
     (case fst out of
        Inr r \<Rightarrow> stored (snd out) = all \<and> rm_len (snd out) = rm_len t + 1 \<and> card (taken (snd out)) = card (taken t) + 1 \<and>
          r < rm_slots t \<and> (\<exists>nd. rm_mem (snd out) ! r = Some nd \<and> (nd_key nd, nd_val nd) = new)
      | Inl e \<Rightarrow> rm_len (snd out) = rm_len t \<and> taken (snd out) = taken t \<and>
          (\<exists>lost. fst lost \<notin> fst ` stored (snd out) \<and> insert lost (stored (snd out)) = all))"

lemma carries_fresh: "carries hash t k index plen \<Longrightarrow> k \<notin> fst ` stored t"
  using carriesD(6) by (fastforce simp: stored_def)

lemma taken_len [simp]: "taken (t\<lparr>rm_len := l\<rparr>) = taken t" "stored (t\<lparr>rm_len := l\<rparr>) = stored t"
  "placed hash (t\<lparr>rm_len := l\<rparr>) = placed hash t"
proof -
  have "slot_ok hash (t\<lparr>rm_len := l\<rparr>) i = slot_ok hash t i" for i by (cases "rm_mem t ! i") (simp_all add: slot_ok_def home_def)
  then show "placed hash (t\<lparr>rm_len := l\<rparr>) = placed hash t" by (simp add: placed_def step_ok_def keys_once_def)
qed (simp_all add: taken_def stored_def)

lemma taken_finite: "finite (taken t)"
  by (simp add: taken_def)

text \<open>The element on its way, with its value, the slot it looks at, its distance, the slot that is returned and the map.\<close>

type_synonym ('k, 'v) going = "'k \<times> 'v \<times> nat \<times> nat \<times> nat option \<times> ('k, 'v) robin"

fun going_map :: "('k, 'v) going \<Rightarrow> ('k, 'v) robin" where
  "going_map (k, v, index, plen, res, t) = t"

fun going_loop :: "('k \<Rightarrow> 64 word) \<Rightarrow> nat \<Rightarrow> ('k, 'v) going \<Rightarrow> (rm_error + nat) \<times> ('k, 'v) robin" where
  "going_loop hash s (k, v, index, plen, res, t) = insert_loop s (hash k) k v index plen res t"

inductive carry_step :: "('k \<Rightarrow> 64 word) \<Rightarrow> ('k, 'v) going \<Rightarrow> ('k, 'v) going \<Rightarrow> bool" for hash where
  pass: "plen \<le> 253 \<Longrightarrow> plen < ct t index \<Longrightarrow> carry_step hash (k, v, index, plen, res, t) (k, v, nxt (rm_slots t) index, plen + 1, res, t)"
| steal: "plen \<le> 253 \<Longrightarrow> 0 < ct t index \<Longrightarrow> ct t index \<le> plen \<Longrightarrow> rm_mem t ! index = Some old \<Longrightarrow>
    carry_step hash (k, v, index, plen, res, t)
      (nd_key old, nd_val old, nxt (rm_slots t) index, ct t index, (case res of None \<Rightarrow> Some index | Some r \<Rightarrow> Some r),
       set_slot index (Some \<lparr>nd_hash = hash k, nd_key = k, nd_val = v\<rparr>) (encode_dist plen) t)"

text \<open>What holds on the way: \<open>e\<close> is an empty slot, so that the loop stops there.\<close>

definition under_way :: "('k \<Rightarrow> 64 word) \<Rightarrow> nat \<Rightarrow> 'k \<times> 'v \<Rightarrow> ('k, 'v) going \<Rightarrow> bool" where
  "under_way hash e new = (\<lambda>(k, v, index, plen, res, t).
     carries hash t k index plen \<and> e < rm_slots t \<and> ct t e = 0 \<and> lies t e index new res (k, v))"

lemma insert_loop_cases:
  assumes c: "carries hash t k index plen"
  obtains
    (far) "253 < plen" "insert_loop s (hash k) k v index plen res t = (Inl Distance_limit, t)"
  | (empty) "plen \<le> 253" "ct t index = 0" "rm_mem t ! index = None"
      "insert_loop s (hash k) k v index plen res t =
       (Inr (case res of None \<Rightarrow> index | Some r \<Rightarrow> r),
        (set_slot index (Some \<lparr>nd_hash = hash k, nd_key = k, nd_val = v\<rparr>) (encode_dist plen) t)\<lparr>rm_len := rm_len t + 1\<rparr>)"
  | (step) g where "carry_step hash (k, v, index, plen, res, t) g"
      "insert_loop s (hash k) k v index plen res t =
       (if s + 1 > max_probe then (Inl Probe_limit, going_map g) else going_loop hash (s + 1) g)"
proof -
  note D = carriesD [OF c]
  consider "253 < plen" | "plen \<le> 253" "\<not> occupied t index" | "plen \<le> 253" "occupied t index" by linarith
  then show thesis
  proof cases
    case 1 then show ?thesis by (intro far insert_loop_far) (simp_all add: max_stored_dist_def)
  next
    case 2
    then have z: "ct t index = 0" by (simp add: occupied_def)
    then have "rm_mem t ! index = None" using placed_at(1) [OF D(1,3)] by (cases "rm_mem t ! index") auto
    then show ?thesis using empty [OF 2(1) z _ insert_loop_empty [OF _ 2(2)]] 2(1) by (simp add: max_stored_dist_def)
  next
    case 3
    then have ct: "0 < ct t index" and far: "plen \<le> max_stored_dist" by (simp_all add: occupied_def unat_gt_0 max_stored_dist_def)
    obtain old where old: "rm_mem t ! index = Some old" using placed_occupied [OF D(1,3) ct] .
    have nh: "\<not> hits t (hash k) k index" using D(6) [OF D(3) old] old by (simp add: hits_def node_at_def)
    have sd: "stored_dist t index + 1 = ct t index" using ct by (simp add: stored_dist_def)
    note nx = shaped_next [OF D(2)]
    show ?thesis
    proof (cases "stored_dist t index < plen")
      case True
      have h: "nd_hash old = hash (nd_key old)" "node_at t index = old" using placed_at(3) [OF D(1,3) old] old by (auto simp: node_at_def)
      show ?thesis
        using step [OF steal [OF 3(1) ct _ old]] insert_loop_steal [OF far 3(2) nh True, of s v res] True sd h nx by (simp add: Let_def)
    next
      case False
      then show ?thesis using step [OF pass [OF 3(1)]] insert_loop_pass [OF far 3(2) nh False old, of s v res] sd nx by simp
    qed
  qed
qed

text \<open>A step keeps what holds on the way, the set of the elements and of the slots in use, and comes nearer to the empty slot.\<close>

definition elements :: "('k, 'v) going \<Rightarrow> ('k \<times> 'v) set" where
  "elements = (\<lambda>(k, v, index, plen, res, t). insert (k, v) (stored t))"

fun going_gap :: "nat \<Rightarrow> ('k, 'v) going \<Rightarrow> nat" where
  "going_gap e (k, v, index, plen, res, t) = gap (rm_slots t) e index"

lemma carry_step_keeps:
  assumes "carry_step hash g g'" "under_way hash e new g"
  shows "under_way hash e new g' \<and> elements g' = elements g \<and> rm_slots (going_map g') = rm_slots (going_map g) \<and>
    rm_len (going_map g') = rm_len (going_map g) \<and> taken (going_map g') = taken (going_map g) \<and> going_gap e g' + 1 = going_gap e g"
proof -
  obtain k v index plen res t where g: "g = (k, v, index, plen, res, t)" by (cases g) auto
  then have c: "carries hash t k index plen" and e: "e < rm_slots t" "ct t e = 0" and l: "lies t e index new res (k, v)"
    using assms(2) by (auto simp: under_way_def)
  note D = carriesD [OF c]
  let ?n = "rm_slots t"
  from assms(1)[unfolded g] show ?thesis
  proof cases
    case pass
    have "index \<noteq> e" using pass(3) e(2) by auto
    then have gp: "gap ?n e (nxt ?n index) + 1 = gap ?n e index" using gap_simps(3) [OF D(3) e(1)] by simp
    have "occupied t index" "plen \<le> stored_dist t index" using pass(3) by (auto simp: occupied_def stored_dist_def)
    then have "carries hash t k (nxt ?n index) (plen + 1)" using carries_pass [OF c] by simp
    then show ?thesis using pass(1) g gp e l by (auto simp: under_way_def lies_def elements_def split: option.splits)
  next
    case (steal old)
    let ?nd = "\<lparr>nd_hash = hash k, nd_key = k, nd_val = v\<rparr>" let ?t = "set_slot index (Some ?nd) (encode_dist plen) t"
    have ie: "index \<noteq> e" using steal(3) e(2) by auto
    then have gp: "gap ?n e (nxt ?n index) + 1 = gap ?n e index" using gap_simps(3) [OF D(3) e(1)] by simp
    have sd: "stored_dist t index < plen" "stored_dist t index + 1 = ct t index" using steal(3,4) by (simp_all add: stored_dist_def)
    have c': "carries hash ?t (nd_key old) (nxt ?n index) (ct t index)" using carries_steal [OF c steal(2,5) sd(1), of ?nd] sd(2) by simp
    have nth: "rm_mem ?t ! j = (if j = index then Some ?nd else rm_mem t ! j)" "ct ?t j = (if j = index then plen + 1 else ct t j)" if "j < ?n" for j
      using set_slot_nth [OF D(2,3) that] encode_dist_unat [OF steal(2)] by simp_all
    have l': "lies ?t e (nxt ?n index) new (case res of None \<Rightarrow> Some index | Some r \<Rightarrow> Some r) (nd_key old, nd_val old)"
      using l gp nth(1) D(3) by (auto simp: lies_def split: option.splits)
    have tk: "taken ?t = taken t" using taken_set_slot [OF D(2,3)] encode_nonzero [OF steal(2)] steal(3) D(3) by (auto simp: taken_def)
    have sx: "insert (nd_key old, nd_val old) (stored ?t) = insert (k, v) (stored t)" using stored_exchange [OF D(2,3) steal(5), of ?nd] by simp
    have e': "e < rm_slots ?t" "ct ?t e = 0" using e nth(2) ie by auto
    show ?thesis unfolding steal(1) g using c' l' e' gp tk sx by (simp add: under_way_def elements_def)
  qed
qed

lemma added_cong:
  "rm_slots t' = rm_slots t \<Longrightarrow> rm_len t' = rm_len t \<Longrightarrow> taken t' = taken t \<Longrightarrow> added hash t' new all out = added hash t new all out"
  by (simp add: added_def split: sum.splits)

lemma added_lost: "under_way hash e new g \<Longrightarrow> added hash (going_map g) new (elements g) (Inl er, going_map g)"
  using carries_fresh carriesD(1) by (fastforce simp: under_way_def added_def elements_def)

lemma added_empty:
  assumes u: "under_way hash e new (k, v, index, plen, res, t)" and p: "plen \<le> 253" "ct t index = 0" "rm_mem t ! index = None"
  shows "added hash t new (insert (k, v) (stored t)) (Inr (case res of None \<Rightarrow> index | Some r \<Rightarrow> r),
    (set_slot index (Some \<lparr>nd_hash = hash k, nd_key = k, nd_val = v\<rparr>) (encode_dist plen) t)\<lparr>rm_len := rm_len t + 1\<rparr>)"
proof -
  let ?n = "rm_slots t" and ?nd = "\<lparr>nd_hash = hash k, nd_key = k, nd_val = v\<rparr>"
  let ?t = "set_slot index (Some ?nd) (encode_dist plen) t"
  have c: "carries hash t k index plen" and l: "lies t e index new res (k, v)" using u by (auto simp: under_way_def)
  note D = carriesD [OF c]
  have pl: "placed hash ?t" using placed_put [OF c p(1)] p(2) by simp
  have st: "stored ?t = insert (k, v) (stored t)" using stored_put [OF D(2,3) p(3)] by simp
  have "index \<notin> taken t" using p(2) by (simp add: taken_def)
  then have tk: "card (taken ?t) = card (taken t) + 1"
    using taken_set_slot [OF D(2,3)] encode_nonzero [OF p(1)] taken_finite [of t] by simp
  have "\<exists>nd. rm_mem ?t ! (case res of None \<Rightarrow> index | Some r \<Rightarrow> r) = Some nd \<and> (nd_key nd, nd_val nd) = new"
    "(case res of None \<Rightarrow> index | Some r \<Rightarrow> r) < ?n"
    using l set_slot_nth(1) [OF D(2,3)] D(3) by (auto simp: lies_def split: option.splits)
  then show ?thesis using pl st tk by (simp add: added_def)
qed

lemma going_loop_adds: "under_way hash e new g \<Longrightarrow> added hash (going_map g) new (elements g) (going_loop hash s g)"
proof (induction "Suc max_probe - s" arbitrary: s g rule: less_induct)
  case less
  obtain k v index plen res t where g: "g = (k, v, index, plen, res, t)" by (cases g) auto
  note u = less.prems [unfolded g]
  have c: "carries hash t k index plen" using u by (simp add: under_way_def)
  show ?case
    using c
  proof (cases rule: insert_loop_cases [where s = s and v = v and res = res])
    case far then show ?thesis using added_lost [OF u] g by simp
  next
    case empty then show ?thesis using added_empty [OF u empty(1-3)] g by (simp add: elements_def)
  next
    case (step g')
    note keeps = carry_step_keeps [OF step(1) u]
    have "added hash (going_map g') new (elements g') (if s + 1 > max_probe then (Inl Probe_limit, going_map g') else going_loop hash (s + 1) g')"
      using less.hyps [of "s + 1" g'] keeps added_lost [of hash e new g'] by simp
    then show ?thesis using step(2) keeps added_cong [of "going_map g'" t] g by simp
  qed
qed

text \<open>A slot is no farther from its home than from the last empty slot before it.\<close>

lemma ct_from_empty:
  assumes "placed hash t" "e < rm_slots t" "ct t e = 0"
  shows "ct t ((e + m) mod rm_slots t) \<le> m"
proof (induction m)
  case 0 then show ?case using assms by simp
next
  case (Suc m)
  have "step_ok t ((e + m) mod rm_slots t)" using assms(1) shaped_pos(1) [of t] by (simp add: placed_def)
  then show ?case using Suc mod_step [of e m "rm_slots t"] by (simp add: step_ok_def)
qed

lemma ct_less_slots:
  assumes "placed hash t" "e < rm_slots t" "ct t e = 0" "i < rm_slots t"
  shows "ct t i < rm_slots t"
proof -
  let ?m = "gap (rm_slots t) i e"
  have "(e + ?m) mod rm_slots t = i" using assms(2,4) by (simp add: gap_def mod_add_right_eq)
  then show ?thesis using ct_from_empty [OF assms(1-3), of ?m] gap_simps(2) [OF assms(2,4)] by simp
qed

text \<open>All slots from the home of an element to its place are in use.\<close>

lemma ct_le_taken:
  assumes "placed hash t" "e < rm_slots t" "ct t e = 0" "i < rm_slots t"
  shows "ct t i \<le> card (taken t)"
proof (cases "ct t i")
  case (Suc d)
  let ?n = "rm_slots t"
  obtain nd where nd: "rm_mem t ! i = Some nd" using placed_occupied [OF assms(1,4)] Suc by auto
  let ?h = "home t (hash (nd_key nd))"
  have sh: "shaped t" "\<forall>i < ?n. step_ok t i" using assms(1) by (simp_all add: placed_def)
  have "d + 1 \<le> ct t ((?h + d) mod ?n)" using placed_at(4) [OF assms(1,4) nd] Suc by simp
  then have "(?h + p) mod ?n \<in> taken t" if "p \<le> d" for p
    using placed_between [OF sh, of d ?h p] that shaped_pos [OF sh(1)] by (simp add: taken_def)
  then have sub: "(\<lambda>p. (?h + p) mod ?n) ` {..d} \<subseteq> taken t" by auto
  have dn: "d < ?n" using ct_less_slots [OF assms] Suc by simp
  have h: "(?h + p) mod ?n = (if ?h + p < ?n then ?h + p else ?h + p - ?n)" if "p \<le> d" for p
    using that dn home_less [OF sh(1), of "hash (nd_key nd)"] by (simp add: le_mod_geq)
  have "inj_on (\<lambda>p. (?h + p) mod ?n) {..d}" using h dn home_less [OF sh(1)] by (intro inj_onI) (auto split: if_splits)
  then have "card {..d} \<le> card (taken t)" using card_inj_on_le [OF _ sub taken_finite] by blast
  then show ?thesis using Suc by simp
qed simp

lemma going_loop_errors:
  "under_way hash e new g \<Longrightarrow> s + going_gap e g < rm_slots (going_map g) \<Longrightarrow> fst (going_loop hash s g) = Inl er \<Longrightarrow>
    er = Distance_limit \<and> 253 < card (taken (going_map g)) \<or> er = Probe_limit \<and> 512 < rm_slots (going_map g)"
proof (induction "Suc max_probe - s" arbitrary: s g rule: less_induct)
  case less
  obtain k v index plen res t where g: "g = (k, v, index, plen, res, t)" by (cases g) auto
  note u = less.prems(1) [unfolded g]
  have c: "carries hash t k index plen" and e: "e < rm_slots t" "ct t e = 0" using u by (auto simp: under_way_def)
  note D = carriesD [OF c]
  show ?case
    using c
  proof (cases rule: insert_loop_cases [where s = s and v = v and res = res])
    case far
    then have "plen \<le> ct t (prv (rm_slots t) index)" using D(5) by simp
    moreover have "ct t (prv (rm_slots t) index) \<le> card (taken t)" using ct_le_taken [OF D(1) e] nxt_prv(3) [OF D(3) shaped_pos(2) [OF D(2)]] by simp
    ultimately show ?thesis using far less.prems(3) g by auto
  next
    case empty then show ?thesis using less.prems(3) g by simp
  next
    case (step g')
    note keeps = carry_step_keeps [OF step(1) u]
    show ?thesis
    proof (cases "s + 1 > max_probe")
      case True
      then have "512 < rm_slots t" using less.prems(2) keeps g by (simp add: max_probe_def)
      then show ?thesis using True step(2) less.prems(3) g by simp
    next
      case False
      then show ?thesis using less.hyps [of "s + 1" g'] keeps less.prems(2,3) step(2) g by simp
    qed
  qed
qed

subsection \<open>Inserting a key that is stored\<close>

text \<open>No element on the way is nearer to home, so that the loop reaches the slot without an exchange.\<close>

lemma insert_loop_present:
  assumes "placed hash t" "i < rm_slots t" "rm_mem t ! i = Some nd"
  shows "p < ct t i \<Longrightarrow> insert_loop p (hash (nd_key nd)) (nd_key nd) v ((home t (hash (nd_key nd)) + p) mod rm_slots t) p res t =
    (Inr i, t\<lparr>rm_mem := (rm_mem t)[i := Some (nd\<lparr>nd_val := v\<rparr>)]\<rparr>)"
proof (induction "ct t i - p" arbitrary: p)
  case (Suc m)
  let ?h = "home t (hash (nd_key nd))" and ?n = "rm_slots t" let ?x = "(?h + p) mod ?n"
  have sh: "shaped t" "\<forall>i < ?n. step_ok t i" using assms(1) by (simp_all add: placed_def)
  have at: "(?h + (ct t i - 1)) mod ?n = i" using placed_at(4) [OF assms] .
  have "ct t i - 1 + 1 \<le> ct t ((?h + (ct t i - 1)) mod ?n)" using placed_at(1) [OF assms] at by simp
  from placed_between [OF sh this, of p] Suc.prems have c: "p < ct t ?x" by linarith
  have lt: "?x < ?n" using shaped_pos [OF sh(1)] by simp
  have p: "p \<le> max_stored_dist" "occupied t ?x" using Suc.prems placed_at(2) [OF assms] c by (auto simp: max_stored_dist_def occupied_def)
  show ?case
  proof (cases "hits t (hash (nd_key nd)) (nd_key nd) ?x")
    case True
    then have "?x = i" using placed_hits [OF assms lt _ True] c by simp
    moreover have "node_at t i = nd" using assms(3) by (simp add: node_at_def)
    ultimately show ?thesis using insert_loop_found [OF p True, of p v res] by simp
  next
    case False
    have "p + 1 < ct t i"
    proof (rule ccontr)
      assume "\<not> p + 1 < ct t i"
      then have "p = ct t i - 1" using Suc.prems by simp
      then have "?x = i" using at by simp
      then show False using False assms(3) placed_at(3) [OF assms] by (simp add: hits_def node_at_def)
    qed
    moreover obtain b where b: "rm_mem t ! ?x = Some b" using placed_occupied [OF assms(1) lt] c by auto
    moreover have "\<not> stored_dist t ?x < p" using c by (simp add: stored_dist_def)
    moreover have "\<not> p + 1 > max_probe" using p(1) by (simp add: max_stored_dist_def max_probe_def)
    ultimately show ?thesis
      using Suc.hyps(1) [of "p + 1"] Suc.hyps(2) insert_loop_pass [OF p False _ b, of p v res]
      by (simp only: mod_step shaped_next [OF sh(1)] if_False) simp
  qed
qed simp

lemma insert_hash_present:
  assumes "placed hash t" "i < rm_slots t" "rm_mem t ! i = Some nd"
  shows "insert_hash (hash (nd_key nd)) (nd_key nd) v t = (Inr i, t\<lparr>rm_mem := (rm_mem t)[i := Some (nd\<lparr>nd_val := v\<rparr>)]\<rparr>)"
proof -
  have "shaped t" using assms(1) by (simp add: placed_def)
  then show ?thesis
    using insert_loop_present [OF assms, of 0 v None] placed_at(1) [OF assms] by (simp add: insert_hash_def)
qed

lemma view_eqI: "keys_once t \<Longrightarrow> (\<And>k v. (k, v) \<in> stored t \<longleftrightarrow> m k = Some v) \<Longrightarrow> rm_view t = m"
proof
  fix k assume a: "keys_once t" "\<And>k v. (k, v) \<in> stored t \<longleftrightarrow> m k = Some v"
  then have "rm_view t k = Some v \<longleftrightarrow> m k = Some v" for v by (simp add: rm_view_iff)
  then show "rm_view t k = m k" by (cases "m k"; cases "rm_view t k") auto
qed

lemma placed_once: "placed hash t \<Longrightarrow> keys_once t" "placed hash t \<Longrightarrow> shaped t"
  by (simp_all add: placed_def)

text \<open>Overwriting a value.\<close>

lemma replace_value:
  assumes "placed hash t" "i < rm_slots t" "rm_mem t ! i = Some nd"
  shows "placed hash (t\<lparr>rm_mem := (rm_mem t)[i := Some (nd\<lparr>nd_val := v\<rparr>)]\<rparr>)"
    "rm_view (t\<lparr>rm_mem := (rm_mem t)[i := Some (nd\<lparr>nd_val := v\<rparr>)]\<rparr>) = (rm_view t)(nd_key nd \<mapsto> v)"
    "taken (t\<lparr>rm_mem := (rm_mem t)[i := Some (nd\<lparr>nd_val := v\<rparr>)]\<rparr>) = taken t"
proof -
  let ?t = "t\<lparr>rm_mem := (rm_mem t)[i := Some (nd\<lparr>nd_val := v\<rparr>)]\<rparr>"
  note once = placed_once(1) [OF assms(1)] note sh = placed_once(2) [OF assms(1)]
  have nth: "rm_mem ?t ! j = (if j = i then Some (nd\<lparr>nd_val := v\<rparr>) else rm_mem t ! j)" if "j < rm_slots t" for j
    using that sh by (simp add: shaped_def)
  have key: "\<exists>b. rm_mem t ! j = Some b \<and> nd_key b = nd_key a \<and> nd_hash b = nd_hash a" if "j < rm_slots t" "rm_mem ?t ! j = Some a" for j a
    using that nth assms(3) by (cases "j = i") auto
  show pl: "placed hash ?t"
  proof (rule placedI)
    show "shaped ?t" using sh by (simp add: shaped_def)
    show "slot_ok hash ?t j" if "j < rm_slots ?t" for j
    proof -
      have "slot_ok hash t j" using that assms(1) by (simp add: placed_def)
      then show ?thesis using that nth [of j] assms(3) by (auto simp: slot_ok_def home_def split: option.splits if_splits)
    qed
    show "step_ok ?t j" if "j < rm_slots ?t" for j using that assms(1) by (simp add: placed_def step_ok_def)
    show "keys_once ?t"
      unfolding keys_once_def
    proof (intro allI impI)
      fix x y a b assume x: "x < rm_slots ?t" "y < rm_slots ?t" "rm_mem ?t ! x = Some a" "rm_mem ?t ! y = Some b" "nd_key a = nd_key b"
      obtain a' where "rm_mem t ! x = Some a'" "nd_key a' = nd_key a" using key [OF _ x(3)] x(1) by auto
      moreover obtain b' where "rm_mem t ! y = Some b'" "nd_key b' = nd_key b" using key [OF _ x(4)] x(2) by auto
      ultimately show "x = y" using once x(1,2,5) unfolding keys_once_def by simp
    qed
  qed
  show "taken ?t = taken t" by (simp add: taken_def)
  have "?t = set_slot i (Some (nd\<lparr>nd_val := v\<rparr>)) (rm_ctrl t ! i) t" by (simp add: set_slot_def)
  then have ex: "insert (nd_key nd, nd_val nd) (stored ?t) = insert (nd_key nd, v) (stored t)"
    using stored_exchange [OF sh assms(2,3), of "nd\<lparr>nd_val := v\<rparr>"] by simp
  have new: "(nd_key nd, v) \<in> stored ?t" using nth [OF assms(2)] assms(2) unfolding stored_iff by (intro exI [of _ i]) auto
  show "rm_view ?t = (rm_view t)(nd_key nd \<mapsto> v)"
  proof (rule view_eqI [OF placed_once(1) [OF pl]])
    fix k w
    have "(k, w) \<in> stored ?t \<longleftrightarrow> (if k = nd_key nd then w = v else (k, w) \<in> stored t)"
      using ex new stored_once [OF placed_once(1) [OF pl] new] by auto
    then show "(k, w) \<in> stored ?t \<longleftrightarrow> ((rm_view t)(nd_key nd \<mapsto> v)) k = Some w" using rm_view_iff [OF once] by auto
  qed
qed

subsection \<open>The outcome of inserting\<close>

lemma robin_okD:
  assumes "robin_ok hash t"
  shows "placed hash t" "shaped t" "keys_once t" "rm_len t = card (taken t)" "rm_len t < rm_slots t"
  using assms by (auto simp: robin_ok_def placed_def)

lemma robin_gap:
  assumes "robin_ok hash t"
  obtains e where "e < rm_slots t" "ct t e = 0"
proof -
  have "taken t \<noteq> {..<rm_slots t}" using robin_okD(4,5) [OF assms] by (metis card_lessThan less_irrefl)
  moreover have "taken t \<subseteq> {..<rm_slots t}" by (auto simp: taken_def)
  ultimately obtain e where "e < rm_slots t" "e \<notin> taken t" by blast
  then show thesis using that by (auto simp: taken_def)
qed

lemma load_less: "shaped t \<Longrightarrow> rm_slots t * load_num div load_denom < rm_slots t"
  using shaped_pos(1) [of t] by (simp add: load_num_def load_denom_def)

lemma absent_under_way:
  assumes "robin_ok hash t" "rm_view t k = None"
  obtains e where "under_way hash e (k, v) (k, v, home t (hash k), 0, None, t)" "going_gap e (k, v, home t (hash k), 0, None :: nat option, t) < rm_slots t"
proof -
  note D = robin_okD [OF assms(1)]
  obtain e where e: "e < rm_slots t" "ct t e = 0" using robin_gap [OF assms(1)] .
  have "k \<notin> fst ` stored t" using assms(2) rm_view_None [OF D(3)] by simp
  then have "carries hash t k (home t (hash k)) 0"
    using D(1) home_less [OF D(2)] by (force simp: carries_def stored_def)
  then have "under_way hash e (k, v) (k, v, home t (hash k), 0, None, t)" using e by (simp add: under_way_def lies_def)
  moreover have "gap (rm_slots t) e (home t (hash k)) < rm_slots t" using gap_simps(2) home_less [OF D(2)] e(1) by blast
  ultimately show thesis using that by simp
qed

lemma insert_hash_absent:
  assumes "robin_ok hash t" "rm_view t k = None"
  shows "added hash t (k, v) (insert (k, v) (stored t)) (insert_hash (hash k) k v t)"
    "fst (insert_hash (hash k) k v t) = Inl er \<Longrightarrow> er = Distance_limit \<and> 253 < rm_len t \<or> er = Probe_limit \<and> 512 < rm_slots t"
proof -
  obtain e where e: "under_way hash e (k, v) (k, v, home t (hash k), 0, None, t)" "going_gap e (k, v, home t (hash k), 0, None :: nat option, t) < rm_slots t"
    using absent_under_way [OF assms] .
  show "added hash t (k, v) (insert (k, v) (stored t)) (insert_hash (hash k) k v t)"
    using going_loop_adds [OF e(1), of 0] by (simp add: insert_hash_def elements_def)
  show "er = Distance_limit \<and> 253 < rm_len t \<or> er = Probe_limit \<and> 512 < rm_slots t" if "fst (insert_hash (hash k) k v t) = Inl er"
    using going_loop_errors [OF e(1), of 0 er] e(2) that robin_okD(4) [OF assms(1)] by (simp add: insert_hash_def)
qed

lemma rm_insert_done:
  assumes ok: "robin_ok hash t" and ins: "rm_insert hash k v t = (Inr r, t')"
  shows "robin_ok hash t'" "rm_view t' = (rm_view t)(k \<mapsto> v)" "rm_slots t' = rm_slots t" "rm_find a hash k t' = Some r" "nd_val (node_at t' r) = v"
proof -
  note D = robin_okD [OF ok]
  have load: "rm_len t + 1 < rm_slots t" and ih: "insert_hash (hash k) k v t = (Inr r, t')"
    using ins load_less [OF D(2)] by (auto simp: rm_insert_def split: if_splits)
  have "robin_ok hash t' \<and> rm_view t' = (rm_view t)(k \<mapsto> v) \<and> rm_slots t' = rm_slots t \<and>
      r < rm_slots t \<and> (\<exists>nd. rm_mem t' ! r = Some nd \<and> nd_key nd = k \<and> nd_val nd = v)"
  proof (cases "rm_view t k")
    case None
    have ad: "placed hash t'" "rm_slots t' = rm_slots t" "stored t' = insert (k, v) (stored t)" "rm_len t' = rm_len t + 1"
      "card (taken t') = card (taken t) + 1" "r < rm_slots t" "\<exists>nd. rm_mem t' ! r = Some nd \<and> (nd_key nd, nd_val nd) = (k, v)"
      using insert_hash_absent(1) [OF ok None, of v] ih by (auto simp: added_def)
    have "(k, w) \<notin> stored t" for w using None rm_view_iff [OF D(3), of k w] by simp
    then have "rm_view t' = (rm_view t)(k \<mapsto> v)"
      using ad(3) rm_view_iff [OF D(3)] by (intro view_eqI [OF placed_once(1) [OF ad(1)]]) auto
    then show ?thesis using ad load D(4) by (auto simp: robin_ok_def)
  next
    case (Some w)
    then obtain i nd where i: "i < rm_slots t" "rm_mem t ! i = Some nd" "nd_key nd = k" using rm_view_iff [OF D(3)] by (auto simp: stored_iff)
    have eq: "r = i" "t' = t\<lparr>rm_mem := (rm_mem t)[i := Some (nd\<lparr>nd_val := v\<rparr>)]\<rparr>" using insert_hash_present [OF D(1) i(1,2), of v] i(3) ih by auto
    have "rm_mem t' ! r = Some (nd\<lparr>nd_val := v\<rparr>)" using eq i(1) D(2) by (simp add: shaped_def)
    then show ?thesis using replace_value [OF D(1) i(1,2), of v] eq i(1,3) D(4,5) by (simp add: robin_ok_def)
  qed
  then show "robin_ok hash t'" "rm_view t' = (rm_view t)(k \<mapsto> v)" "rm_slots t' = rm_slots t" "rm_find a hash k t' = Some r" "nd_val (node_at t' r) = v"
    using rm_find_iff [OF robin_okD(1), of hash t' a k r] by (auto simp: node_at_def)
qed

text \<open>A failure beyond the load limit: the new key was not in the map, the limits are reached, and the map has lost one of the elements.\<close>

lemma rm_insert_failed:
  assumes ok: "robin_ok hash t" and ins: "rm_insert hash k v t = (Inl er, t')"
  shows "robin_ok hash t' \<and> rm_slots t' = rm_slots t \<and>
    (if rm_slots t * load_num div load_denom \<le> rm_len t then er = Load_limit \<and> t' = t
     else (er = Distance_limit \<and> 253 < rm_len t \<or> er = Probe_limit \<and> 512 < rm_slots t) \<and> rm_view t k = None \<and>
       (\<exists>lost \<in> insert k (dom (rm_view t)). rm_view t' = ((rm_view t)(k \<mapsto> v))(lost := None)))"
proof (cases "rm_slots t * load_num div load_denom \<le> rm_len t")
  case True then show ?thesis using ins ok by (auto simp: rm_insert_def)
next
  case False
  note D = robin_okD [OF ok]
  have ih: "insert_hash (hash k) k v t = (Inl er, t')" using False ins by (simp add: rm_insert_def)
  have none: "rm_view t k = None"
  proof (rule ccontr)
    assume "rm_view t k \<noteq> None"
    then obtain w where "rm_view t k = Some w" by blast
    then obtain i nd where "i < rm_slots t" "rm_mem t ! i = Some nd" "nd_key nd = k" using rm_view_iff [OF D(3)] by (auto simp: stored_iff)
    then show False using insert_hash_present [OF D(1), of i nd v] ih by simp
  qed
  obtain lk lv where ad: "placed hash t'" "rm_slots t' = rm_slots t" "rm_len t' = rm_len t" "taken t' = taken t"
    "lk \<notin> fst ` stored t'" "insert (lk, lv) (stored t') = insert (k, v) (stored t)"
    using insert_hash_absent(1) [OF ok none, of v] ih by (auto simp: added_def)
  note once = placed_once(1) [OF ad(1)]
  have nk: "(k, w) \<notin> stored t" for w using none rm_view_iff [OF D(3), of k w] by simp
  have nl: "(lk, w) \<notin> stored t'" for w using ad(5) by force
  have lost: "(lk, lv) \<in> insert (k, v) (stored t)" using ad(6) by blast
  have "rm_view t' = ((rm_view t)(k \<mapsto> v))(lk := None)"
  proof (rule view_eqI [OF once])
    fix x w
    have "(x, w) \<in> stored t' \<longleftrightarrow> x \<noteq> lk \<and> ((x, w) = (k, v) \<or> (x, w) \<in> stored t)" using ad(6) nl by blast
    then show "(x, w) \<in> stored t' \<longleftrightarrow> (((rm_view t)(k \<mapsto> v))(lk := None)) x = Some w" using nk rm_view_iff [OF D(3)] by auto
  qed
  moreover have "lk \<in> insert k (dom (rm_view t))" using lost rm_view_iff [OF D(3), of lk lv] by auto
  ultimately show ?thesis
    using False insert_hash_absent(2) [OF ok none, of v er] ih none ad D(4,5) by (auto simp: robin_ok_def)
qed

text \<open>A map of 512 slots at most with 253 elements at most fails at its load limit only.\<close>

lemma rm_insert_small:
  assumes "robin_ok hash t" "rm_slots t \<le> 512" "rm_len t \<le> 253" "rm_len t < rm_slots t * load_num div load_denom"
  shows "\<exists>r. fst (rm_insert hash k v t) = Inr r"
proof (cases "rm_insert hash k v t")
  case (Pair out t')
  show ?thesis
  proof (cases out)
    case (Inl er) then show ?thesis using rm_insert_failed [OF assms(1), of k v er t'] Pair assms(2-4) by auto
  next
    case (Inr r) then show ?thesis using Pair by simp
  qed
qed

end
