(* ===== verification/Map_Robin_Erase.thy ===== *)
theory Map_Robin_Erase
  imports Map_Robin_Insert
begin

text \<open>
  Erasing from the Robin Hood map: the gap moves forward until the next element is at home.  The contract of a bounded map holds of the whole.
\<close>

unbundle bit_operations_syntax

subsection \<open>Shifting back\<close>

text \<open>A map with a gap: the order of distances holds everywhere but behind it.\<close>

definition holed :: "('k \<Rightarrow> 64 word) \<Rightarrow> nat \<Rightarrow> ('k, 'v) robin \<Rightarrow> bool" where
  "holed hash i t \<longleftrightarrow> shaped t \<and> i < rm_slots t \<and> ct t i = 0 \<and> (\<forall>j < rm_slots t. slot_ok hash t j) \<and> keys_once t \<and>
     (\<forall>j < rm_slots t. j \<noteq> i \<longrightarrow> step_ok t j) \<and> ct t (nxt (rm_slots t) i) \<le> ct t (prv (rm_slots t) i) + 2"

lemma holedD:
  assumes "holed hash i t"
  shows "shaped t" "i < rm_slots t" "ct t i = 0" "\<And>j. j < rm_slots t \<Longrightarrow> slot_ok hash t j" "keys_once t"
    "\<And>j. j < rm_slots t \<Longrightarrow> j \<noteq> i \<Longrightarrow> ct t (nxt (rm_slots t) j) \<le> ct t j + 1" "ct t (nxt (rm_slots t) i) \<le> ct t (prv (rm_slots t) i) + 2"
  using assms by (auto simp: holed_def step_ok_def)

lemma holed_stop:
  assumes "holed hash i t" "ct t (nxt (rm_slots t) i) \<le> 1"
  shows "placed hash t"
proof (rule placedI)
  note D = holedD [OF assms(1)]
  show "shaped t" "keys_once t" using D by auto
  show "slot_ok hash t j" if "j < rm_slots t" for j using D(4) that .
  show "step_ok t j" if "j < rm_slots t" for j using D(3,6) that assms(2) by (cases "j = i") (auto simp: step_ok_def)
qed

lemma slot_ok_cong:
  "rm_slots t' = rm_slots t \<Longrightarrow> (\<And>h. home t' h = home t h) \<Longrightarrow> rm_mem t' ! j = rm_mem t ! j \<Longrightarrow> ct t' j = ct t j \<Longrightarrow>
    slot_ok hash t' j = slot_ok hash t j"
  by (simp add: slot_ok_def split: option.splits)

lemma destroyed_holed:
  assumes "placed hash t" "i < rm_slots t"
  shows "holed hash i (destroy_at i t)"
proof -
  let ?n = "rm_slots t" and ?t = "destroy_at i t"
  note sh = placed_once(2) [OF assms(1)]
  have n: "1 < ?n" using shaped_pos [OF sh] by simp
  have nth: "rm_mem ?t ! j = (if j = i then None else rm_mem t ! j)" "ct ?t j = (if j = i then 0 else ct t j)" if "j < ?n" for j
    using set_slot_nth [OF sh assms(2) that] by (simp_all add: destroy_at_def)
  have sl: "rm_slots ?t = ?n" "home ?t h = home t h" for h by (simp_all add: destroy_at_def)
  have step: "ct t (nxt ?n j) \<le> ct t j + 1" if "j < ?n" for j using that assms(1) by (simp add: placed_def step_ok_def)
  have "slot_ok hash ?t j" if "j < ?n" for j
  proof (cases "j = i")
    case True then show ?thesis using nth [OF assms(2)] by (simp add: slot_ok_def)
  next
    case False
    have "slot_ok hash t j" using that assms(1) by (simp add: placed_def)
    then show ?thesis using False nth [OF that] slot_ok_cong [of ?t t j hash] sl by simp
  qed
  moreover have "keys_once ?t" using placed_once(1) [OF assms(1)] nth(1) unfolding keys_once_def sl by (auto split: if_splits)
  moreover have "step_ok ?t j" if "j < ?n" "j \<noteq> i" for j
    using step [OF that(1)] nth(2) [of "nxt ?n j"] nth(2) [OF that(1)] that(2) n by (simp add: step_ok_def sl)
  moreover have "ct ?t (nxt ?n i) \<le> ct ?t (prv ?n i) + 2"
    using step [OF assms(2)] step [of "prv ?n i"] nth(2) nxt_prv [OF assms(2) n] n by simp
  ultimately show ?thesis using sh assms(2) nth(2) [OF assms(2)] by (simp add: holed_def sl) (simp add: destroy_at_def)
qed

text \<open>One shift moves the gap by one slot.\<close>

definition shift_one :: "nat \<Rightarrow> nat \<Rightarrow> ('k, 'v) robin \<Rightarrow> ('k, 'v) robin" where
  "shift_one i j t = set_slot j None 0 (set_slot i (Some (node_at t j)) (encode_dist (stored_dist t j - 1)) t)"

lemma shift_one_simps [simp]:
  "rm_slots (shift_one i j t) = rm_slots t" "rm_len (shift_one i j t) = rm_len t" "shaped (shift_one i j t) = shaped t" "home (shift_one i j t) h = home t h"
  by (simp_all add: shift_one_def)

lemma shift_one_nth:
  assumes "holed hash i t" "j = nxt (rm_slots t) i" "1 < ct t j" "x < rm_slots t" "rm_mem t ! j = Some nd"
  shows "rm_mem (shift_one i j t) ! x = (if x = j then None else if x = i then Some nd else rm_mem t ! x)"
    "ct (shift_one i j t) x = (if x = j then 0 else if x = i then ct t j - 1 else ct t x)"
proof -
  note D = holedD [OF assms(1)]
  have j: "j < rm_slots t" using assms(2) shaped_pos [OF D(1)] by simp
  have "ct t j \<le> 254" using D(4) [OF j] by (simp add: slot_ok_def)
  then have "unat (encode_dist (stored_dist t j - 1)) = ct t j - 1" using encode_dist_unat [of "ct t j - 2"] assms(3) by (simp add: stored_dist_def numeral_2_eq_2)
  then show "rm_mem (shift_one i j t) ! x = (if x = j then None else if x = i then Some nd else rm_mem t ! x)"
    "ct (shift_one i j t) x = (if x = j then 0 else if x = i then ct t j - 1 else ct t x)"
    using set_slot_nth [of "set_slot i (Some (node_at t j)) (encode_dist (stored_dist t j - 1)) t" j x None 0]
      set_slot_nth [OF D(1,2) assms(4)] D(1) j assms(4,5) by (simp_all add: shift_one_def node_at_def)
qed

lemma holed_shift:
  assumes h: "holed hash i t" and j: "j = nxt (rm_slots t) i" "1 < ct t j"
  shows "holed hash j (shift_one i j t)"
proof -
  let ?n = "rm_slots t" and ?t = "shift_one i j t"
  note D = holedD [OF h]
  have n: "4 \<le> ?n" using D(1) by (simp add: shaped_def)
  have jn: "j < ?n" "j \<noteq> i" using j(1) n nxt_prv(4) [OF D(2)] by auto
  obtain nd where nd: "rm_mem t ! j = Some nd" using D(4) [OF jn(1)] j(2) by (auto simp: slot_ok_def split: option.splits)
  note nth = shift_one_nth [OF h j _ nd]
  have far: "nxt ?n j \<noteq> i" "nxt ?n j \<noteq> j" "prv ?n j = i" "prv ?n i \<noteq> j" "prv ?n i \<noteq> i" "prv ?n i < ?n"
    using n jn j(1) D(2) by (auto simp: nxt_alt prv_alt split: if_splits)
  have at: "ct t j \<le> 254" "nd_hash nd = hash (nd_key nd)" "(home t (hash (nd_key nd)) + (ct t j - 1)) mod ?n = j"
    using D(4) [OF jn(1)] nd by (auto simp: slot_ok_def)
  have "nxt ?n ((home t (hash (nd_key nd)) + (ct t j - 2)) mod ?n) = nxt ?n i"
    using at(3) j mod_step [of "home t (hash (nd_key nd))" "ct t j - 2" ?n] by (simp add: numeral_2_eq_2 Suc_diff_Suc)
  then have hm: "(home t (hash (nd_key nd)) + (ct t j - 2)) mod ?n = i"
    using nxt_prv(6) [OF D(2)] n by simp
  have "slot_ok hash ?t x" if x: "x < ?n" for x
  proof -
    consider "x = j" | "x = i" | "x \<noteq> j" "x \<noteq> i" by blast
    then show ?thesis
    proof cases
      case 1 then show ?thesis using nth [OF jn(1)] by (simp add: slot_ok_def)
    next
      case 2 then show ?thesis using nth [OF D(2)] jn(2) hm at(1,2) j(2) by (simp add: slot_ok_def numeral_2_eq_2)
    next
      case 3 then show ?thesis using D(4) [OF x] nth [OF x] slot_ok_cong [of ?t t x hash] by simp
    qed
  qed
  moreover have "keys_once ?t"
    unfolding keys_once_def
  proof (intro allI impI)
    fix x y a b assume x: "x < rm_slots ?t" "y < rm_slots ?t" "rm_mem ?t ! x = Some a" "rm_mem ?t ! y = Some b" "nd_key a = nd_key b"
    have "rm_mem t ! (if x = i then j else x) = Some a" "rm_mem t ! (if y = i then j else y) = Some b"
      using x(1-4) nth(1) [of x] nth(1) [of y] nd by (auto split: if_splits)
    then have "(if x = i then j else x) = (if y = i then j else y)" 
      using D(5) [unfolded keys_once_def, rule_format, of "if x = i then j else x" "if y = i then j else y" a b] x(1,2,5) jn(1) by simp
    then show "x = y" using x(1-4) nth(1) [of x] nth(1) [of y] by (auto split: if_splits)
  qed
  moreover have "step_ok ?t x" if x: "x < ?n" "x \<noteq> j" for x
  proof -
    have nx: "nxt ?n x < ?n" using n by simp
    consider "x = i" | "x = prv ?n i" | "x \<noteq> i" "x \<noteq> prv ?n i" by blast
    then show ?thesis
    proof cases
      case 1 then show ?thesis using nth(2) [OF nx] j(1) by (simp add: step_ok_def)
    next
      case 2
      then show ?thesis using nth(2) [OF D(2)] nth(2) [OF x(1)] far D(7) j jn(2) nxt_prv(1) [OF D(2)] n by (simp add: step_ok_def)
    next
      case 3
      then have "nxt ?n x \<noteq> i" using nxt_prv(2) [OF x(1)] n by auto
      then show ?thesis using 3 x nth(2) [OF nx] nth(2) [OF x(1)] D(6) [OF x(1)] by (simp add: step_ok_def)
    qed
  qed
  moreover have "ct ?t (nxt ?n j) \<le> ct ?t (prv ?n j) + 2"
    using nth(2) [of "nxt ?n j"] nth(2) [OF D(2)] D(6) [OF jn] far jn n j(2) by simp
  ultimately show ?thesis using D(1) jn nth(2) [OF jn(1)] by (simp add: holed_def)
qed

lemma shift_one_contents:
  assumes h: "holed hash i t" and j: "j = nxt (rm_slots t) i" "1 < ct t j"
  shows "stored (shift_one i j t) = stored t" "card (taken (shift_one i j t)) = card (taken t)"
proof -
  let ?n = "rm_slots t" and ?t = "shift_one i j t"
  note D = holedD [OF h]
  have n: "1 < ?n" using shaped_pos [OF D(1)] by simp
  have jn: "j < ?n" "j \<noteq> i" using j(1) n nxt_prv(4) [OF D(2)] by auto
  obtain nd where nd: "rm_mem t ! j = Some nd" using D(4) [OF jn(1)] j(2) by (auto simp: slot_ok_def split: option.splits)
  have none: "rm_mem t ! i = None" using D(3) D(4) [OF D(2)] by (auto simp: slot_ok_def split: option.splits)
  note nth = shift_one_nth [OF h j _ nd]
  have "live ?t a \<longleftrightarrow> live t a" for a
  proof
    assume "live ?t a"
    then obtain x where x: "x < ?n" "rm_mem ?t ! x = Some a" by (auto simp: live_def)
    then have "rm_mem t ! (if x = i then j else x) = Some a" using nth(1) nd by (auto split: if_splits)
    then show "live t a" using x(1) jn(1) unfolding live_def by (intro exI [of _ "if x = i then j else x"]) simp
  next
    assume "live t a"
    then obtain x where x: "x < ?n" "rm_mem t ! x = Some a" by (auto simp: live_def)
    then have "x \<noteq> i" using none by auto
    then have "rm_mem ?t ! (if x = j then i else x) = Some a" using nth(1) [of "if x = j then i else x"] x nd D(2) jn(2) by auto
    then show "live ?t a" using x(1) D(2) unfolding live_def by (intro exI [of _ "if x = j then i else x"]) simp
  qed
  then show "stored ?t = stored t" by (simp add: stored_live)
  have "taken ?t = insert i (taken t - {j})" using nth(2) j(2) D(2) jn by (auto simp: taken_def split: if_splits)
  moreover have "i \<notin> taken t" "j \<in> taken t" using D(3) j(2) jn(1) by (auto simp: taken_def)
  ultimately show "card (taken ?t) = card (taken t)" using taken_finite [of t] card_Suc_Diff1 [of "taken t" j] by simp
qed

text \<open>The gap stops before another empty slot, so that the number of slots is fuel enough.\<close>

lemma backward_shift_done:
  assumes "holed hash i t" "e < rm_slots t" "ct t e = 0" "e \<noteq> i" "gap (rm_slots t) e i \<le> f"
  shows "\<exists>t'. backward_shift f i t = Some t' \<and> placed hash t' \<and> rm_slots t' = rm_slots t \<and> rm_len t' = rm_len t \<and>
    card (taken t') = card (taken t) \<and> stored t' = stored t"
  using assms
proof (induction f arbitrary: i t)
  case 0 then show ?case using gap_simps(1) [OF holedD(2) [OF 0(1)] 0(2)] by simp
next
  case (Suc f)
  let ?n = "rm_slots t" let ?j = "nxt ?n i"
  note h = Suc.prems(1) note D = holedD [OF h]
  have nx: "(i + 1) AND rm_mask t = ?j" using shaped_next [OF D(1)] .
  show ?case
  proof (cases "ct t ?j \<le> 1")
    case True
    then have "backward_shift (Suc f) i t = Some t" using nx by (auto simp: occupied_def stored_dist_def Let_def)
    then show ?thesis using holed_stop [OF h True] by simp
  next
    case False
    then have j: "1 < ct t ?j" by simp
    have n: "1 < ?n" using shaped_pos [OF D(1)] by simp
    have jn: "?j < ?n" using n by simp
    obtain nd where nd: "rm_mem t ! ?j = Some nd" using D(4) [OF jn] j by (auto simp: slot_ok_def split: option.splits)
    have "occupied t ?j" "stored_dist t ?j \<noteq> 0" using j by (auto simp: occupied_def stored_dist_def)
    then have eq: "backward_shift (Suc f) i t = backward_shift f ?j (shift_one i ?j t)" using nx by (simp add: shift_one_def Let_def)
    have "e \<noteq> ?j" using j Suc.prems(3) by auto
    moreover have "ct (shift_one i ?j t) e = 0" using shift_one_nth(2) [OF h refl j Suc.prems(2) nd] Suc.prems(3,4) \<open>e \<noteq> ?j\<close> by simp
    moreover have "gap ?n e ?j \<le> f" using gap_simps(3) [OF D(2) Suc.prems(2)] Suc.prems(4,5) by auto
    ultimately show ?thesis
      using Suc.IH [OF holed_shift [OF h refl j]] shift_one_contents [OF h refl j] Suc.prems(2) eq by simp
  qed
qed

subsection \<open>Erasing\<close>

text \<open>Erasing looks for the key as the scalar lookup does.\<close>

lemma erase_loop_probe:
  "erase_loop kh k index plen t =
    (case probe_loop t kh k index plen of
       None \<Rightarrow> Some (False, t)
     | Some i \<Rightarrow> do { t' \<leftarrow> backward_shift (rm_slots t) i ((destroy_at i t)\<lparr>rm_len := rm_len t - 1\<rparr>); Some (True, t') })"
proof (induction t kh k index plen rule: probe_loop.induct)
  case (1 t kh k index plen)
  show ?case
  proof (cases "plen < ct t index \<and> \<not> hits t kh k index")
    case True
    then show ?thesis using 1 by (subst erase_loop.simps, subst probe_loop.simps) simp
  next
    case False
    then show ?thesis by (subst erase_loop.simps, subst probe_loop.simps) auto
  qed
qed

lemma holed_len [simp]: "holed hash i (t\<lparr>rm_len := l\<rparr>) = holed hash i t"
proof -
  have "slot_ok hash (t\<lparr>rm_len := l\<rparr>) j = slot_ok hash t j" for j by (rule slot_ok_cong) (simp_all add: home_def)
  then show ?thesis by (simp add: holed_def step_ok_def keys_once_def)
qed

lemma destroyed_stored:
  assumes "placed hash t" "i < rm_slots t" "rm_mem t ! i = Some nd"
  shows "stored (destroy_at i t) = {x \<in> stored t. fst x \<noteq> nd_key nd}" "taken (destroy_at i t) = taken t - {i}"
proof -
  note sh = placed_once(2) [OF assms(1)] note once = placed_once(1) [OF assms(1)]
  have "live (destroy_at i t) a \<longleftrightarrow> live t a \<and> nd_key a \<noteq> nd_key nd" for a
  proof -
    have "x = i \<longleftrightarrow> nd_key a = nd_key nd" if "x < rm_slots t" "rm_mem t ! x = Some a" for x
      using once [unfolded keys_once_def, rule_format, OF that(1) assms(2) that(2) assms(3)] that(2) assms(3) by auto
    then show ?thesis using live_set_slot [OF sh assms(2), of None 0 a] by (auto simp: destroy_at_def live_def)
  qed
  then have "{a. live (destroy_at i t) a} = {a. live t a} \<inter> {a. nd_key a \<noteq> nd_key nd}" by blast
  moreover have "(\<lambda>a. (nd_key a, nd_val a)) ` ({a. live t a} \<inter> {a. nd_key a \<noteq> nd_key nd}) =
      {x \<in> (\<lambda>a. (nd_key a, nd_val a)) ` {a. live t a}. fst x \<noteq> nd_key nd}" by force
  ultimately show "stored (destroy_at i t) = {x \<in> stored t. fst x \<noteq> nd_key nd}" by (simp add: stored_live)
  show "taken (destroy_at i t) = taken t - {i}" using taken_set_slot [OF sh assms(2)] by (simp add: destroy_at_def)
qed

lemma rm_erase_spec:
  assumes ok: "robin_ok hash t"
  shows "\<exists>t'. rm_erase hash k t = Some (rm_view t k \<noteq> None, t') \<and> robin_ok hash t' \<and> rm_view t' = (rm_view t)(k := None) \<and> rm_slots t' = rm_slots t"
proof -
  note D = robin_okD [OF ok]
  have "rm_ctrl t \<noteq> []" "rm_slots t \<noteq> 0" using D(2) by (auto simp: shaped_def)
  then have er: "rm_erase hash k t = erase_loop (hash k) k (home t (hash k)) 0 t" by (simp add: rm_erase_def)
  show ?thesis
  proof (cases "probe_loop t (hash k) k (home t (hash k)) 0")
    case None
    then have "rm_view t k = None" using rm_find_view [OF D(1), of Scalar k] probe_find_scalar [OF D(1), of Scalar] by (simp add: rm_find_def)
    moreover from this have "(rm_view t)(k := None) = rm_view t" by auto
    ultimately show ?thesis using er erase_loop_probe [of "hash k" k _ 0 t] None ok by simp
  next
    case (Some i)
    then obtain nd where nd: "i < rm_slots t" "rm_mem t ! i = Some nd" "nd_key nd = k" using probe_loop_iff [OF D(1)] by blast
    let ?u = "(destroy_at i t)\<lparr>rm_len := rm_len t - 1\<rparr>"
    have slots: "rm_slots ?u = rm_slots t" by (simp add: destroy_at_def)
    obtain e where e: "e < rm_slots t" "ct t e = 0" using robin_gap [OF ok] .
    have occ: "0 < ct t i" using placed_at(1) [OF D(1) nd(1,2)] .
    have "ct ?u e = 0" using set_slot_nth(2) [OF D(2) nd(1) e(1)] e(2) by (simp add: destroy_at_def)
    moreover have "e \<noteq> i" using e(2) occ by auto
    moreover have "gap (rm_slots t) e i \<le> rm_slots t" using gap_simps(2) [OF nd(1) e(1)] by simp
    ultimately obtain t' where t': "backward_shift (rm_slots t) i ?u = Some t'" "placed hash t'" "rm_slots t' = rm_slots t" "rm_len t' = rm_len t - 1"
      "card (taken t') = card (taken (destroy_at i t))" "stored t' = stored (destroy_at i t)"
      using backward_shift_done [of hash i ?u e "rm_slots t"] destroyed_holed [OF D(1) nd(1)] e(1) slots by auto
    note ds = destroyed_stored [OF D(1) nd(1,2), unfolded nd(3)]
    have "i \<in> taken t" using nd(1) occ by (simp add: taken_def)
    then have "rm_len t' = card (taken t')" using t'(4,5) ds(2) D(4) taken_finite [of t] by simp
    then have "robin_ok hash t'" using t'(2-4) D(5) by (simp add: robin_ok_def)
    moreover have "rm_view t' = (rm_view t)(k := None)"
      using t'(6) ds(1) rm_view_iff [OF D(3)] by (intro view_eqI [OF placed_once(1) [OF t'(2)]]) auto
    moreover have "rm_view t k \<noteq> None" using nd rm_view_None [OF D(3), of k] by (force simp: stored_def)
    ultimately show ?thesis using er erase_loop_probe [of "hash k" k _ 0 t] Some t'(1,3) by simp
  qed
qed

end
