(* ===== verification/Map_Contract.thy ===== *)
theory Map_Contract
  imports Map_Robin_Erase
begin

text \<open>
  The Robin Hood map and the set over it (\<^verbatim>\<open>src/src/sets/robin_set.hpp\<close>) as maps and sets: creation, clearing, walks, the contract and
  what it says of the program.
\<close>

subsection \<open>Operations as the contract sees them\<close>

text \<open>A value that is found, an insertion that throws or not, an erasure that ends.\<close>

definition rm_look :: "isa \<Rightarrow> ('k \<Rightarrow> 64 word) \<Rightarrow> 'k \<Rightarrow> ('k, 'v) robin \<Rightarrow> 'v option" where
  "rm_look a hash k t = map_option (\<lambda>i. nd_val (node_at t i)) (rm_find a hash k t)"

definition rm_put :: "('k \<Rightarrow> 64 word) \<Rightarrow> 'k \<Rightarrow> 'v \<Rightarrow> ('k, 'v) robin \<Rightarrow> ('k, 'v) robin option" where
  "rm_put hash k v t = (case rm_insert hash k v t of (Inr _, t') \<Rightarrow> Some t' | (Inl _, _) \<Rightarrow> None)"

definition rm_del :: "('k \<Rightarrow> 64 word) \<Rightarrow> 'k \<Rightarrow> ('k, 'v) robin \<Rightarrow> bool \<times> ('k, 'v) robin" where
  "rm_del hash k t = (case rm_erase hash k t of Some r \<Rightarrow> r | None \<Rightarrow> (False, t))"

text \<open>The set stores a value without content with each key.\<close>

type_synonym 'k robin_set = "('k, unit) robin"

definition rs_new :: "nat \<Rightarrow> 'k robin_set" where "rs_new n = rm_new n"

definition rs_size :: "'k robin_set \<Rightarrow> nat" where "rs_size s = rm_size s"

definition rs_clear :: "'k robin_set \<Rightarrow> 'k robin_set" where "rs_clear s = rm_clear s"

definition rs_contains :: "isa \<Rightarrow> ('k \<Rightarrow> 64 word) \<Rightarrow> 'k \<Rightarrow> 'k robin_set \<Rightarrow> bool" where
  "rs_contains a hash k s \<longleftrightarrow> rm_contains a hash k s"

definition rs_insert :: "isa \<Rightarrow> ('k \<Rightarrow> 64 word) \<Rightarrow> 'k \<Rightarrow> 'k robin_set \<Rightarrow> (rm_error + bool) \<times> 'k robin_set" where
  "rs_insert a hash k s =
     (if rm_contains a hash k s then (Inr False, s)
      else case rm_insert hash k () s of (Inr _, s') \<Rightarrow> (Inr True, s') | (Inl e, s') \<Rightarrow> (Inl e, s'))"

definition rs_erase :: "('k \<Rightarrow> 64 word) \<Rightarrow> 'k \<Rightarrow> 'k robin_set \<Rightarrow> (bool \<times> 'k robin_set) option" where
  "rs_erase hash k s = rm_erase hash k s"

definition rs_for_each :: "isa \<Rightarrow> 'k robin_set \<Rightarrow> 'k list" where
  "rs_for_each a s = map (\<lambda>i. nd_key (node_at s i)) (rm_for_each a s)"

definition rs_iterate :: "'k robin_set \<Rightarrow> 'k list" where
  "rs_iterate s = map (\<lambda>i. nd_key (node_at s i)) (rm_iterate s)"

subsection \<open>Creation\<close>

lemma pow2_loop_power:
  "b \<le> 63 \<Longrightarrow> \<exists>c. b \<le> c \<and> c \<le> 63 \<and> pow2_loop n (2 ^ b) = 2 ^ c \<and> (n \<le> 2 ^ 63 \<longrightarrow> n \<le> 2 ^ c) \<and> (2 ^ 63 < n \<longrightarrow> c = 63)"
proof (induction "63 - b" arbitrary: b)
  case 0
  then have "b = 63" by simp
  then show ?case by (intro exI [of _ 63]) (subst pow2_loop.simps, simp add: Let_def)
next
  case (Suc m)
  then have lt: "b < 63" by simp
  have "(2 :: nat) ^ Suc b < 2 ^ 64" using lt by (intro power_strict_increasing) simp_all
  then have np: "2 * 2 ^ b mod 2 ^ 64 = (2 :: nat) ^ Suc b" by simp
  show ?case
  proof (cases "2 ^ b < n")
    case True
    have "pow2_loop n (2 ^ b) = pow2_loop n (2 ^ Suc b)" using True np by (subst pow2_loop.simps) (simp add: Let_def)
    moreover have "m = 63 - Suc b" "Suc b \<le> 63" using Suc.hyps(2) lt by simp_all
    then obtain c where "Suc b \<le> c" "c \<le> 63" "pow2_loop n (2 ^ Suc b) = 2 ^ c" "n \<le> 2 ^ 63 \<longrightarrow> n \<le> 2 ^ c" "2 ^ 63 < n \<longrightarrow> c = 63"
      using Suc.hyps(1) by blast
    ultimately show ?thesis by (intro exI [of _ c]) (simp del: power_Suc)
  next
    case False
    have "(2 :: nat) ^ b \<le> 2 ^ 63" using lt by (intro power_increasing) simp_all
    then have "\<not> 2 ^ 63 < n" using False by linarith
    then show ?thesis using False lt by (intro exI [of _ b]) (subst pow2_loop.simps, simp)
  qed
qed

lemma round_pow2_power: "\<exists>c. 4 \<le> c \<and> c \<le> 63 \<and> round_pow2 n = 2 ^ c \<and> (n \<le> 2 ^ 63 \<longrightarrow> n \<le> 2 ^ c)"
proof (cases "n \<le> min_cap")
  case True then show ?thesis by (intro exI [of _ 4]) (simp add: round_pow2_def min_cap_def)
next
  case False
  obtain c where c: "c \<le> 63" "pow2_loop n (2 ^ 0) = 2 ^ c" "n \<le> 2 ^ 63 \<longrightarrow> n \<le> 2 ^ c" "2 ^ 63 < n \<longrightarrow> c = 63" using pow2_loop_power [of 0 n] by auto
  have "4 \<le> c"
  proof (rule ccontr)
    assume "\<not> 4 \<le> c"
    then have "(2 :: nat) ^ c \<le> 2 ^ 4" by (intro power_increasing) simp_all
    then show False using False c(3,4) \<open>\<not> 4 \<le> c\<close> by (cases "n \<le> 2 ^ 63") (auto simp: min_cap_def)
  qed
  then show ?thesis using c False by (auto simp: round_pow2_def)
qed

lemma alloc_ok:
  assumes "2 \<le> b"
  shows "robin_ok hash (rm_alloc (2 ^ b) :: ('k, 'v) robin)" "rm_view (rm_alloc (2 ^ b) :: ('k, 'v) robin) = Map.empty"
proof -
  let ?t = "rm_alloc (2 ^ b) :: ('k, 'v) robin"
  have four: "(4 :: nat) \<le> 2 ^ b" using power_increasing [OF assms, of "2 :: nat"] by simp
  have sh: "shaped ?t" using four by (auto simp: shaped_def rm_alloc_def)
  have nth: "rm_mem ?t ! i = None" "ct ?t i = 0" if "i < 2 ^ b" for i using that by (simp_all add: rm_alloc_def)
  have sl: "rm_slots ?t = 2 ^ b" by (simp add: rm_alloc_def)
  have pl: "placed hash ?t"
    using sh nth nxt_less [of "2 ^ b"] by (intro placedI) (auto simp: slot_ok_def step_ok_def keys_once_def sl)
  have "taken ?t = {}" using nth(2) by (auto simp: taken_def sl)
  then show "robin_ok hash ?t" using pl by (simp add: robin_ok_def) (simp add: rm_alloc_def)
  have "stored ?t = {}" using nth(1) by (auto simp: stored_def sl)
  then show "rm_view ?t = Map.empty" by (intro view_eqI [OF placed_once(1) [OF pl]]) simp
qed

lemma new_ok: "robin_ok hash (rm_new n)" "rm_view (rm_new n) = Map.empty"
proof -
  obtain c where "4 \<le> c" "round_pow2 n = 2 ^ c" using round_pow2_power by blast
  then show "robin_ok hash (rm_new n)" "rm_view (rm_new n) = Map.empty" using alloc_ok [of c] by (simp_all add: rm_new_def)
qed

lemma default_new: "\<exists>n. rm_default auto_size node_size = rm_new n"
  by (auto simp: rm_default_def rm_new_def default_n_slots_def Let_def)

subsection \<open>Clearing and the number of elements\<close>

lemma clear_ok:
  assumes "robin_ok hash t"
  shows "robin_ok hash (rm_clear t)" "rm_view (rm_clear t) = Map.empty" "rm_slots (rm_clear t) = rm_slots t"
proof -
  have sh: "shaped t" using robin_okD(2) [OF assms] .
  then obtain b where b: "rm_slots t = 2 ^ b" "4 \<le> rm_slots t" "rm_mask t = rm_slots t - 1" "length (rm_ctrl t) = rm_slots t" unfolding shaped_def by blast
  then have ne: "rm_ctrl t \<noteq> []" by auto
  have "2 \<le> b"
  proof (rule ccontr)
    assume "\<not> 2 \<le> b"
    then have "(2 :: nat) ^ b \<le> 2 ^ 1" by (intro power_increasing) simp_all
    then show False using b(1,2) by simp
  qed
  moreover have "rm_clear t = rm_alloc (2 ^ b)" using b ne by (simp add: rm_clear_def rm_alloc_def)
  ultimately show "robin_ok hash (rm_clear t)" "rm_view (rm_clear t) = Map.empty" using alloc_ok [of b] by simp_all
  show "rm_slots (rm_clear t) = rm_slots t" by (simp add: rm_clear_def)
qed

lemma placed_node:
  assumes "placed hash t" "i < rm_slots t" "occupied t i"
  shows "rm_mem t ! i = Some (node_at t i)"
proof -
  have "0 < ct t i" using assms(3) by (simp add: occupied_def unat_gt_0)
  then obtain nd where "rm_mem t ! i = Some nd" using placed_occupied [OF assms(1,2)] by blast
  then show ?thesis by (simp add: node_at_def)
qed

lemma size_dom:
  assumes "robin_ok hash t"
  shows "finite (dom (rm_view t))" "rm_size t = card (dom (rm_view t))"
proof -
  note D = robin_okD [OF assms]
  let ?key = "\<lambda>i. nd_key (node_at t i)"
  have node: "\<exists>nd. rm_mem t ! i = Some nd \<and> node_at t i = nd" if "i \<in> taken t" for i
    using placed_node [OF D(1), of i] that by (cases "rm_ctrl t ! i = 0") (auto simp: taken_def occupied_def)
  have "inj_on ?key (taken t)"
  proof (rule inj_onI)
    fix i j assume i: "i \<in> taken t" "j \<in> taken t" "?key i = ?key j"
    then obtain a b where "rm_mem t ! i = Some a" "nd_key a = ?key i" "rm_mem t ! j = Some b" "nd_key b = ?key j" using node by blast
    then show "i = j" using D(3) [unfolded keys_once_def, rule_format, of i j a b] i by (simp add: taken_def)
  qed
  moreover have "dom (rm_view t) = ?key ` taken t"
  proof (intro equalityI subsetI)
    fix k assume "k \<in> dom (rm_view t)"
    then obtain v where "(k, v) \<in> stored t" using rm_view_iff [OF D(3)] by auto
    then obtain i nd where i: "i < rm_slots t" "rm_mem t ! i = Some nd" "nd_key nd = k" by (auto simp: stored_iff)
    then have "i \<in> taken t" using placed_at(1) [OF D(1) i(1,2)] by (simp add: taken_def)
    then show "k \<in> ?key ` taken t" using i by (auto simp: node_at_def intro!: rev_image_eqI)
  next
    fix k assume "k \<in> ?key ` taken t"
    then obtain i where i: "i \<in> taken t" "k = ?key i" by blast
    then obtain nd where "rm_mem t ! i = Some nd" "nd_key nd = k" using node by auto
    then have "(k, nd_val nd) \<in> stored t" using i(1) by (auto simp: stored_iff taken_def)
    then show "k \<in> dom (rm_view t)" using rm_view_iff [OF D(3)] by blast
  qed
  ultimately show "finite (dom (rm_view t))" "rm_size t = card (dom (rm_view t))"
    using taken_finite [of t] D(4) by (simp_all add: card_image rm_size_def)
qed

subsection \<open>Walks\<close>

lemma iterate_filter: "iterate_from t (skip_empty t i) = filter (\<lambda>s. rm_ctrl t ! s \<noteq> 0) [i..<rm_slots t]"
proof (induction "rm_slots t - i" arbitrary: i)
  case 0 then show ?case by (subst skip_empty.simps, subst iterate_from.simps) simp
next
  case (Suc m)
  then have i: "i < rm_slots t" and ih: "iterate_from t (skip_empty t (i + 1)) = filter (\<lambda>s. rm_ctrl t ! s \<noteq> 0) [i + 1..<rm_slots t]" by simp_all
  have up: "[i..<rm_slots t] = i # [i + 1..<rm_slots t]" using i by (simp add: upt_conv_Cons)
  show ?case
  proof (cases "rm_ctrl t ! i = 0")
    case True
    then have "skip_empty t i = skip_empty t (i + 1)" using i by (subst skip_empty.simps) simp
    then show ?thesis using ih up True by simp
  next
    case False
    then have "skip_empty t i = i" by (subst skip_empty.simps) simp
    then show ?thesis using ih up False i by (subst iterate_from.simps) simp
  qed
qed

lemma occ_blocks_filter:
  "i \<le> rm_slots t \<Longrightarrow> \<exists>e. occ_blocks w t i = (filter (\<lambda>s. rm_ctrl t ! s \<noteq> 0) [i..<e], e) \<and> i \<le> e \<and> e \<le> rm_slots t"
proof (induction w t i rule: occ_blocks.induct)
  case (1 w t i)
  show ?case
  proof (cases "w \<noteq> 0 \<and> i + w \<le> rm_slots t")
    case True
    then obtain e where e: "occ_blocks w t (i + w) = (filter (\<lambda>s. rm_ctrl t ! s \<noteq> 0) [i + w..<e], e)" "i + w \<le> e" "e \<le> rm_slots t" using 1 by auto
    have "[i..<e] = [i..<i + w] @ [i + w..<e]" using upt_add_eq_append [of i "i + w" "e - (i + w)"] e(2) by simp
    then show ?thesis using True e by (subst occ_blocks.simps) (simp add: occ_block_def)
  next
    case False then show ?thesis using 1(2) by (subst occ_blocks.simps) auto
  qed
qed

text \<open>The iterator and the vector units visit the occupied slots in order.\<close>

lemma walks_filter:
  assumes "shaped t"
  shows "rm_iterate t = filter (occupied t) [0..<rm_slots t]" "rm_for_each a t = filter (occupied t) [0..<rm_slots t]"
proof -
  let ?f = "filter (\<lambda>s. rm_ctrl t ! s \<noteq> 0)" and ?n = "rm_slots t"
  have occ: "occupied t = (\<lambda>s. rm_ctrl t ! s \<noteq> 0)" by (simp add: occupied_def fun_eq_iff)
  show "rm_iterate t = filter (occupied t) [0..<?n]" using iterate_filter [of t 0] by (simp add: rm_iterate_def occ)
  have ne: "rm_ctrl t \<noteq> []" "?n \<noteq> 0" using assms by (auto simp: shaped_def)
  obtain e where e: "(if a = Avx2 \<and> ?n \<ge> 32 then occ_blocks 32 t 0 else ([], 0)) = (?f [0..<e], e)" "e \<le> ?n"
    using occ_blocks_filter [of 0 t 32] by (cases "a = Avx2 \<and> ?n \<ge> 32") auto
  obtain j where j: "(if a = Scalar then ([], e) else occ_blocks 16 t e) = (?f [e..<j], j)" "e \<le> j" "j \<le> ?n"
    using occ_blocks_filter [OF e(2), of 16] e(2) by (cases "a = Scalar") auto
  have "[0..<?n] = [0..<e] @ [e..<j] @ [j..<?n]" using upt_add_eq_append [of 0 e "j - e"] upt_add_eq_append [of 0 j "?n - j"] j by simp
  then show "rm_for_each a t = filter (occupied t) [0..<?n]" using ne e(1) j(1) by (simp add: rm_for_each_def occ)
qed

lemma walk_pairs:
  assumes "placed hash t"
  shows "distinct (map (\<lambda>i. nd_key (node_at t i)) (filter (occupied t) [0..<rm_slots t]))"
    "set (map (\<lambda>i. (nd_key (node_at t i), nd_val (node_at t i))) (filter (occupied t) [0..<rm_slots t])) = stored t"
proof -
  have node: "rm_mem t ! i = Some (node_at t i)" if "i < rm_slots t" "occupied t i" for i
    using placed_node [OF assms that] .
  have "inj_on (\<lambda>i. nd_key (node_at t i)) (set (filter (occupied t) [0..<rm_slots t]))"
    using placed_once(1) [OF assms] node by (intro inj_onI) (simp add: keys_once_def)
  then show "distinct (map (\<lambda>i. nd_key (node_at t i)) (filter (occupied t) [0..<rm_slots t]))" by (simp add: distinct_map)
  have occ: "occupied t i" if "i < rm_slots t" "rm_mem t ! i = Some nd" for i nd
    using placed_at(1) [OF assms that] by (auto simp: occupied_def)
  show "set (map (\<lambda>i. (nd_key (node_at t i), nd_val (node_at t i))) (filter (occupied t) [0..<rm_slots t])) = stored t" (is "?L = _")
  proof (intro equalityI subsetI)
    fix x assume "x \<in> ?L" then show "x \<in> stored t" using node by (auto simp: stored_def)
  next
    fix x assume "x \<in> stored t"
    then obtain i nd where i: "i < rm_slots t" "rm_mem t ! i = Some nd" "x = (nd_key nd, nd_val nd)" by (auto simp: stored_def)
    then show "x \<in> ?L" using occ [OF i(1,2)] by (auto simp: node_at_def intro!: rev_image_eqI)
  qed
qed

lemma option_ext: "(\<And>v. x = Some v \<longleftrightarrow> y = Some v) \<Longrightarrow> x = y"
  by (cases x; cases y) auto

lemma walk_view:
  assumes "robin_ok hash t"
  shows "map_of (map (\<lambda>i. (nd_key (node_at t i), nd_val (node_at t i))) (filter (occupied t) [0..<rm_slots t])) = rm_view t" (is "map_of ?L = _")
proof
  fix k
  note D = robin_okD [OF assms]
  have "distinct (map fst ?L)" using walk_pairs(1) [OF D(1)] by (simp add: comp_def)
  then have "map_of ?L k = Some v \<longleftrightarrow> rm_view t k = Some v" for v
    using map_of_eq_Some_iff [of ?L k v] walk_pairs(2) [OF D(1)] rm_view_iff [OF D(3), of k v] by simp
  then show "map_of ?L k = rm_view t k" by (rule option_ext)
qed

subsection \<open>The contract\<close>

interpretation rh: bounded_map "robin_ok hash" rm_view rm_size "rm_look a hash" "rm_put hash" "rm_del hash" rm_clear
proof
  fix t t' :: "('a, 'b) robin" and k v b
  assume ok: "robin_ok hash t"
  show "rm_look a hash k t = rm_view t k" using rm_find_view [OF robin_okD(1) [OF ok]] by (simp add: rm_look_def)
  show "robin_ok hash t' \<and> rm_view t' = (rm_view t)(k \<mapsto> v)" if "rm_put hash k v t = Some t'"
    using that rm_insert_done [OF ok] by (auto simp: rm_put_def split: prod.splits sum.splits)
  show "robin_ok hash t' \<and> rm_view t' = (rm_view t)(k := None) \<and> b = (rm_view t k \<noteq> None)" if "rm_del hash k t = (b, t')"
    using that rm_erase_spec [OF ok, of k] by (auto simp: rm_del_def)
  show "robin_ok hash (rm_clear t) \<and> rm_view (rm_clear t) = Map.empty" using clear_ok [OF ok] by simp
  show "finite (dom (rm_view t)) \<and> rm_size t = card (dom (rm_view t))" using size_dom [OF ok] by simp
qed

interpretation rs: bounded_set "robin_ok hash" rm_view rm_size "rm_look a hash" "rm_put hash" "rm_del hash" rm_clear
  by unfold_locales

lemma contains_look: "rm_contains a hash k t \<longleftrightarrow> rm_look a hash k t \<noteq> None"
  by (simp add: rm_contains_def rm_look_def rm_find_def)

lemma at_look: "rm_at a hash k t = (case rm_look a hash k t of None \<Rightarrow> Inl Key_missing | Some v \<Rightarrow> Inr v)"
  by (simp add: rm_at_def rm_look_def rm_find_def split: option.splits)

lemma rs_insert_set:
  "set_insert (rm_look a hash) (rm_put hash) k s = (case rs_insert a hash k s of (Inr b, s') \<Rightarrow> Some (b, s') | (Inl _, _) \<Rightarrow> None)"
  by (auto simp: set_insert_def rs_insert_def set_contains_def contains_look rm_put_def split: prod.splits sum.splits)

text \<open>A small run with keys that share a home.\<close>

definition sample_ops :: "(nat, nat) map_op list" where
  "sample_ops = [Put 1 10, Put 17 20, Put 2 30, Put 17 40, Del 1]"

lemma sample_run: "run_ops (rm_put of_nat) (rm_del of_nat) rm_clear sample_ops (rm_new 0) \<noteq> None"
  by code_simp

lemma sample_spec: "spec_run sample_ops Map.empty = [2 \<mapsto> 30, 17 \<mapsto> 40]"
  by (auto simp: sample_ops_def fun_eq_iff)

lemma sample_map:
  obtains t where "run_ops (rm_put of_nat) (rm_del of_nat) rm_clear sample_ops (rm_new 0) = Some t" "robin_ok of_nat t" "rm_view t = [2 \<mapsto> 30, 17 \<mapsto> 40]"
  using sample_run rh.run_refines [OF new_ok(1), of of_nat sample_ops 0] by (auto simp: new_ok(2) sample_spec)

subsection \<open>Properties\<close>

text \<open>
  C6: After any run of insertions, erasures and clearings on a new map in which no insertion throws, lookups, \<^verbatim>\<open>at\<close>, \<^verbatim>\<open>contains\<close>, the size,
  the iterator and \<^verbatim>\<open>for_each\<close> on every vector unit agree with the partial function the run describes, for every hash function.
\<close>

theorem robin_refines_map:
  assumes "run_ops (rm_put hash) (rm_del hash) rm_clear ops (rm_new n) = Some t"
  shows "rm_look a hash k t = spec_run ops Map.empty k \<and>
    rm_at a hash k t = (case spec_run ops Map.empty k of None \<Rightarrow> Inl Key_missing | Some v \<Rightarrow> Inr v) \<and>
    (rm_contains a hash k t \<longleftrightarrow> k \<in> dom (spec_run ops Map.empty)) \<and>
    rm_size t = card (dom (spec_run ops Map.empty)) \<and>
    map_of (map (\<lambda>i. (nd_key (node_at t i), nd_val (node_at t i))) (rm_for_each a t)) = spec_run ops Map.empty \<and>
    distinct (map (\<lambda>i. nd_key (node_at t i)) (rm_for_each a t)) \<and>
    rm_iterate t = rm_for_each a t"
proof (intro conjI)
  have t: "robin_ok hash t" "rm_view t = spec_run ops Map.empty" using rh.run_refines [OF new_ok(1) assms] by (simp_all add: new_ok(2))
  note D = robin_okD [OF t(1)]
  show look: "rm_look a hash k t = spec_run ops Map.empty k" using rh.look_view [OF t(1)] t(2) by simp
  show "rm_at a hash k t = (case spec_run ops Map.empty k of None \<Rightarrow> Inl Key_missing | Some v \<Rightarrow> Inr v)" by (simp add: at_look look)
  show "rm_contains a hash k t \<longleftrightarrow> k \<in> dom (spec_run ops Map.empty)" by (simp add: contains_look look domIff)
  show "rm_size t = card (dom (spec_run ops Map.empty))" using size_dom(2) [OF t(1)] t(2) by simp
  show "map_of (map (\<lambda>i. (nd_key (node_at t i), nd_val (node_at t i))) (rm_for_each a t)) = spec_run ops Map.empty"
    using walk_view [OF t(1)] walks_filter(2) [OF D(2)] t(2) by simp
  show "distinct (map (\<lambda>i. nd_key (node_at t i)) (rm_for_each a t))" using walk_pairs(1) [OF D(1)] walks_filter(2) [OF D(2)] by simp
  show "rm_iterate t = rm_for_each a t" using walks_filter [OF D(2)] by simp
qed

theorem robin_refines_map_witness:
  "\<exists>t. run_ops (rm_put of_nat) (rm_del of_nat) rm_clear sample_ops (rm_new 0) = Some t \<and> rm_look Avx2 of_nat 17 t = Some 40 \<and>
    rm_at Neon of_nat 1 t = Inl Key_missing \<and> rm_size t = 2 \<and> rm_iterate t = rm_for_each Sse2 t"
proof -
  obtain t where t: "run_ops (rm_put of_nat) (rm_del of_nat) rm_clear sample_ops (rm_new 0) = Some t" using sample_map .
  show ?thesis using t robin_refines_map [OF t, of Avx2 17] robin_refines_map [OF t, of Neon 1] robin_refines_map [OF t, of Sse2 1] by (simp add: sample_spec)
qed

text \<open>
  C24: On a well-formed map the probe that compares control bytes a window at a time, on every vector unit, returns what the byte-by-byte probe
  returns, and that is the slot of the key, or nothing if it is not stored.
\<close>

theorem robin_probe_windows:
  assumes "robin_ok hash t"
  shows "probe_find a kh k t = probe_loop t kh k (home t kh) 0 \<and>
    (probe_find a (hash k) k t = Some i \<longleftrightarrow> i < rm_slots t \<and> (\<exists>nd. rm_mem t ! i = Some nd \<and> nd_key nd = k))"
  using probe_find_scalar [OF robin_okD(1) [OF assms]] rm_find_iff [OF robin_okD(1) [OF assms]] by (simp add: rm_find_def)

theorem robin_probe_windows_witness:
  "\<exists>t :: (nat, nat) robin. rm_view t 17 = Some 40 \<and> (\<exists>i. probe_find Avx2 (of_nat 17) 17 t = Some i \<and> nd_key (node_at t i) = 17) \<and>
    probe_find Neon 5 5 t = probe_loop t 5 5 (home t 5) 0"
proof -
  obtain t :: "(nat, nat) robin" where t: "robin_ok of_nat t" "rm_view t = [2 \<mapsto> 30, 17 \<mapsto> 40]" using sample_map .
  then obtain i nd where "i < rm_slots t" "rm_mem t ! i = Some nd" "nd_key nd = 17"
    using rm_view_iff [OF robin_okD(3) [OF t(1)], of 17 40] by (auto simp: stored_iff)
  then have "probe_find Avx2 (of_nat 17) 17 t = Some i" "nd_key (node_at t i) = 17" using robin_probe_windows [OF t(1), of Avx2 17 17 i] by (auto simp: node_at_def)
  moreover have "rm_view t 17 = Some 40" using t(2) by simp
  ultimately show ?thesis using robin_probe_windows [OF t(1), of Neon 5 5 i] by blast
qed

text \<open>
  C15: Inserting into a well-formed map leaves it well-formed.  If it returns a slot, the slot holds the value, a lookup finds it, and nothing else has
  changed.  It throws at the load limit without a change; or, with more than 253 elements or 512 slots, for a key that was not stored, at one of the
  probe limits, and then the map has lost one of its elements or the new one.
\<close>

theorem robin_insert_outcomes:
  assumes "robin_ok hash t" "rm_insert hash k v t = (out, t')"
  shows "robin_ok hash t' \<and> rm_slots t' = rm_slots t \<and>
    (case out of
       Inr r \<Rightarrow> rm_view t' = (rm_view t)(k \<mapsto> v) \<and> rm_find a hash k t' = Some r \<and> nd_val (node_at t' r) = v
     | Inl er \<Rightarrow>
         if rm_slots t * load_num div load_denom \<le> rm_len t then er = Load_limit \<and> t' = t
         else (er = Distance_limit \<and> 253 < rm_len t \<or> er = Probe_limit \<and> 512 < rm_slots t) \<and> rm_view t k = None \<and>
           (\<exists>lost \<in> insert k (dom (rm_view t)). rm_view t' = ((rm_view t)(k \<mapsto> v))(lost := None)))"
  using assms rm_insert_done [OF assms(1), of k v _ t'] rm_insert_failed [OF assms(1), of k v _ t'] by (cases out) auto

theorem robin_insert_outcomes_witness:
  "\<exists>r t'. rm_insert of_nat (3 :: nat) (7 :: nat) (rm_new 0) = (Inr r, t') \<and> rm_view t' = [3 \<mapsto> 7] \<and> rm_find Scalar of_nat 3 t' = Some r"
proof -
  have "fst (rm_insert of_nat (3 :: nat) (7 :: nat) (rm_new 0)) = Inr 3" by code_simp
  then obtain t' where t': "rm_insert of_nat (3 :: nat) (7 :: nat) (rm_new 0) = (Inr 3, t')" by (metis prod.collapse)
  then show ?thesis using robin_insert_outcomes [OF new_ok(1) t', of Scalar] by (simp add: new_ok(2))
qed

text \<open>
  C34: Erasing ends: the shift stops before the number of slots is used up.  It reports whether the key was stored and removes it alone.
\<close>

theorem robin_erase_returns:
  assumes "robin_ok hash t"
  shows "\<exists>t'. rm_erase hash k t = Some (rm_view t k \<noteq> None, t') \<and> robin_ok hash t' \<and> rm_view t' = (rm_view t)(k := None) \<and>
    rm_slots t' = rm_slots t \<and> rm_len t' = rm_len t - (if rm_view t k = None then 0 else 1)"
proof -
  obtain t' where t': "rm_erase hash k t = Some (rm_view t k \<noteq> None, t')" "robin_ok hash t'" "rm_view t' = (rm_view t)(k := None)" "rm_slots t' = rm_slots t"
    using rm_erase_spec [OF assms] by blast
  have "rm_len t' = card (dom (rm_view t) - {k})" using size_dom(2) [OF t'(2)] t'(3) by (simp add: rm_size_def)
  then have "rm_len t' = rm_len t - (if rm_view t k = None then 0 else 1)"
    using size_dom [OF assms] by (auto simp: rm_size_def card_Diff_singleton domIff)
  then show ?thesis using t' by blast
qed

theorem robin_erase_returns_witness:
  "\<exists>(t :: (nat, nat) robin) t'. rm_view t 17 = Some 40 \<and> rm_erase of_nat 17 t = Some (True, t') \<and> rm_view t' 17 = None \<and> rm_view t' 2 = Some 30"
proof -
  obtain t :: "(nat, nat) robin" where t: "robin_ok of_nat t" "rm_view t = [2 \<mapsto> 30, 17 \<mapsto> 40]" using sample_map .
  from robin_erase_returns [OF t(1), of 17] obtain t' where "rm_erase of_nat 17 t = Some (True, t')" "rm_view t' = (rm_view t)(17 := None)" using t(2) by auto
  moreover from this have "rm_view t 17 = Some 40" "rm_view t' 17 = None" "rm_view t' 2 = Some 30" using t(2) by simp_all
  ultimately show ?thesis by blast
qed

text \<open>
  The set over the map is a set: membership, insertion (which reports whether the key is new), erasure, the size and both walks.
\<close>

theorem robin_set_refines:
  assumes "robin_ok hash s"
  shows "(rs_contains a hash k s \<longleftrightarrow> k \<in> dom (rm_view s)) \<and>
    (\<forall>b s'. rs_insert a hash k s = (Inr b, s') \<longrightarrow> robin_ok hash s' \<and> dom (rm_view s') = insert k (dom (rm_view s)) \<and>
      (b \<longleftrightarrow> k \<notin> dom (rm_view s)) \<and> rs_size s' = rs_size s + (if b then 1 else 0)) \<and>
    (\<forall>er s'. rs_insert a hash k s = (Inl er, s') \<longrightarrow> robin_ok hash s' \<and> k \<notin> dom (rm_view s)) \<and>
    (\<exists>s'. rs_erase hash k s = Some (k \<in> dom (rm_view s), s') \<and> robin_ok hash s' \<and> dom (rm_view s') = dom (rm_view s) - {k}) \<and>
    distinct (rs_for_each a s) \<and> set (rs_for_each a s) = dom (rm_view s) \<and> rs_iterate s = rs_for_each a s \<and> rs_size s = length (rs_for_each a s)"
proof -
  note D = robin_okD [OF assms]
  have mem: "rs_contains a hash k s \<longleftrightarrow> k \<in> dom (rm_view s)"
    using rh.look_view [OF assms, of a k] by (auto simp: rs_contains_def contains_look)
  have ins: "robin_ok hash s' \<and> dom (rm_view s') = insert k (dom (rm_view s)) \<and> (b \<longleftrightarrow> k \<notin> dom (rm_view s)) \<and> rs_size s' = rs_size s + (if b then 1 else 0)"
    if "rs_insert a hash k s = (Inr b, s')" for b s'
    using rs.set_insert_view [OF assms, of a k b s'] that by (simp add: rs_insert_set rs_size_def)
  have err: "robin_ok hash s' \<and> k \<notin> dom (rm_view s)" if "rs_insert a hash k s = (Inl er, s')" for er s'
    using that mem rm_insert_failed [OF assms, of k "()" er s'] by (auto simp: rs_insert_def rs_contains_def split: if_splits prod.splits sum.splits)
  have del: "\<exists>s'. rs_erase hash k s = Some (k \<in> dom (rm_view s), s') \<and> robin_ok hash s' \<and> dom (rm_view s') = dom (rm_view s) - {k}"
    using rm_erase_spec [OF assms, of k] by (auto simp: rs_erase_def domIff)
  have each: "rs_for_each a s = map (\<lambda>i. nd_key (node_at s i)) (filter (occupied s) [0..<rm_slots s])" "rs_iterate s = rs_for_each a s"
    using walks_filter [OF D(2)] by (simp_all add: rs_for_each_def rs_iterate_def)
  have dist: "distinct (rs_for_each a s)" using walk_pairs(1) [OF D(1)] each(1) by simp
  have "set (rs_for_each a s) = fst ` stored s" unfolding walk_pairs(2) [OF D(1), symmetric] each(1) by (simp add: image_image)
  also have "\<dots> = dom (rm_view s)" by (simp add: set_eq_iff domIff rm_view_None [OF D(3)])
  finally have "set (rs_for_each a s) = dom (rm_view s) \<and> rs_size s = length (rs_for_each a s)"
    using size_dom(2) [OF assms] distinct_card [OF dist] by (simp add: rs_size_def)
  then show ?thesis using mem ins err del each(2) dist by blast
qed

theorem robin_set_refines_witness:
  "\<exists>s'. rs_insert Avx2 of_nat (3 :: nat) (rs_new 0) = (Inr True, s') \<and> dom (rm_view s') = {3} \<and> rs_size s' = 1"
proof -
  have "fst (rs_insert Avx2 of_nat (3 :: nat) (rs_new 0)) = Inr True" "rs_size (rs_new 0 :: nat robin_set) = 0" by code_simp+
  moreover from this obtain s' where "rs_insert Avx2 of_nat (3 :: nat) (rs_new 0) = (Inr True, s')" by (metis prod.collapse)
  ultimately show ?thesis using robin_set_refines [OF new_ok(1) [of of_nat 0], of Avx2 3] by (auto simp: rs_new_def new_ok(2))
qed

end
