(* ===== verification/Map_Crowd.thy ===== *)
theory Map_Crowd
  imports Map_Contract
begin

text \<open>
  A Robin Hood map that loses an element: a run of insertions into 512 slots, after which inserting one more key fails and takes another key
  out of the map.
\<close>

unbundle bit_operations_syntax

subsection \<open>Crowded homes\<close>

text \<open>The keys below 253 have their home at slot 0, the next two at slot 1, and 255 at slot 0 again.\<close>

definition crowd_hash :: "nat \<Rightarrow> 64 word" where
  "crowd_hash k = (if k = 253 \<or> k = 254 then 1 else 0)"

definition crowd :: "nat \<Rightarrow> (nat, nat) robin" where
  "crowd m = \<lparr>rm_mem = map (\<lambda>i. if i < m then Some \<lparr>nd_hash = crowd_hash i, nd_key = i, nd_val = i\<rparr> else None) [0..<512], rm_len = m,
     rm_ctrl = map (\<lambda>i. if i < m then encode_dist (if i < 253 then i else i - 1) else 0) [0..<512], rm_slots = 512, rm_mask = 511\<rparr>"

lemma insert_passes:
  assumes "shaped t"
  shows "index + m < rm_slots t \<Longrightarrow> plen + m \<le> 254 \<Longrightarrow> s + m \<le> 512 \<Longrightarrow>
    (\<And>i. i < m \<Longrightarrow> plen + i < ct t (index + i) \<and> \<not> hits t kh k (index + i) \<and> rm_mem t ! (index + i) \<noteq> None) \<Longrightarrow>
    insert_loop s kh k v index plen res t = insert_loop (s + m) kh k v (index + m) (plen + m) res t"
proof (induction m)
  case (Suc m)
  let ?x = "index + m"
  have c: "plen + m < ct t ?x" "\<not> hits t kh k ?x" "rm_mem t ! ?x \<noteq> None" using Suc.prems(4) [of m] by simp_all
  have p: "plen + m \<le> max_stored_dist" "occupied t ?x" "\<not> stored_dist t ?x < plen + m" "\<not> s + m + 1 > max_probe"
    using Suc.prems(2,3) c(1) by (auto simp: max_stored_dist_def max_probe_def occupied_def stored_dist_def)
  obtain nd where nd: "rm_mem t ! ?x = Some nd" using c(3) by blast
  have "(?x + 1) AND rm_mask t = ?x + 1" using shaped_and [OF assms] Suc.prems(1) by simp
  then have "insert_loop (s + m) kh k v ?x (plen + m) res t = insert_loop (s + Suc m) kh k v (index + Suc m) (plen + Suc m) res t"
    using insert_loop_pass [OF p(1,2) c(2) p(3) nd, of "s + m" v res] p(4) by simp
  then show ?case using Suc by simp
qed simp

lemma crowd_simps [simp]:
  "rm_slots (crowd m) = 512" "rm_mask (crowd m) = 511" "rm_len (crowd m) = m" "shaped (crowd m)"
  by (auto simp: crowd_def shaped_def intro!: exI [of _ 9])

lemma crowd_nth:
  assumes "i < 512" "m \<le> 255"
  shows "rm_mem (crowd m) ! i = (if i < m then Some \<lparr>nd_hash = crowd_hash i, nd_key = i, nd_val = i\<rparr> else None)"
    "ct (crowd m) i = (if i < m then if i < 253 then i + 1 else i else 0)"
  using assms encode_dist_unat [of i] encode_dist_unat [of "i - 1"] by (auto simp: crowd_def)

lemma crowd_misses: "i < m \<Longrightarrow> m \<le> 255 \<Longrightarrow> k \<noteq> i \<Longrightarrow> \<not> hits (crowd m) kh k i"
  using crowd_nth(1) [of i m] by (simp add: hits_def node_at_def)

lemma crowd_home: "home (crowd m) (crowd_hash k) = (if k = 253 \<or> k = 254 then 1 else 0)"
  by (simp add: home_mod crowd_hash_def)

lemma crowd_walk:
  assumes "m \<le> 255" "k \<ge> m" "h = home (crowd m) (crowd_hash k)" "h \<le> x" "x \<le> m" "h = 0 \<longrightarrow> x \<le> 253"
  shows "insert_hash (crowd_hash k) k v (crowd m) = insert_loop (x - h) (crowd_hash k) k v x (x - h) None (crowd m)"
proof -
  have "h \<le> 1" using assms(3) crowd_home by (simp split: if_splits)
  have "insert_loop 0 (crowd_hash k) k v h 0 None (crowd m) = insert_loop (0 + (x - h)) (crowd_hash k) k v (h + (x - h)) (0 + (x - h)) None (crowd m)"
  proof (rule insert_passes)
    fix i assume "i < x - h"
    then have i: "h + i < m" "h + i < 512" using assms by auto
    then show "0 + i < ct (crowd m) (h + i) \<and> \<not> hits (crowd m) (crowd_hash k) k (h + i) \<and> rm_mem (crowd m) ! (h + i) \<noteq> None"
      using crowd_nth [OF i(2) assms(1)] crowd_misses [OF i(1) assms(1), of k] assms(2,6) \<open>h \<le> 1\<close> \<open>i < x - h\<close> by (cases "h = 0") auto
  qed (use assms \<open>h \<le> 1\<close> in \<open>auto\<close>)
  then show ?thesis using assms(3,4) by (simp add: insert_hash_def)
qed

lemma crowd_grow:
  assumes "m < 255"
  shows "rm_insert crowd_hash m m (crowd m) = (Inr m, crowd (Suc m))"
proof -
  let ?h = "home (crowd m) (crowd_hash m)"
  have d: "m - ?h = (if m < 253 then m else m - 1)" using assms by (auto simp: crowd_home)
  have emp: "\<not> occupied (crowd m) m" using crowd_nth(2) [of m m] assms by (simp add: occupied_def unat_eq_zero)
  moreover have "insert_hash (crowd_hash m) m m (crowd m) = insert_loop (m - ?h) (crowd_hash m) m m m (m - ?h) None (crowd m)"
    using assms by (intro crowd_walk [OF _ _ refl]) (auto simp: crowd_home split: if_splits)
  moreover have "m - ?h \<le> max_stored_dist" using assms unfolding d max_stored_dist_def by simp linarith
  ultimately have "insert_hash (crowd_hash m) m m (crowd m) =
      (Inr m, (set_slot m (Some \<lparr>nd_hash = crowd_hash m, nd_key = m, nd_val = m\<rparr>) (encode_dist (m - ?h)) (crowd m))\<lparr>rm_len := m + 1\<rparr>)"
    using insert_loop_empty [of "m - ?h" "crowd m" m] emp by simp
  moreover have "(set_slot m (Some \<lparr>nd_hash = crowd_hash m, nd_key = m, nd_val = m\<rparr>) (encode_dist (m - ?h)) (crowd m))\<lparr>rm_len := m + 1\<rparr> = crowd (Suc m)"
    unfolding d using assms by (auto simp: crowd_def set_slot_def nth_list_update less_Suc_eq intro!: nth_equalityI)
  ultimately show ?thesis using assms by (simp add: rm_insert_def load_num_def load_denom_def)
qed

lemma crowd_new: "rm_new 512 = crowd 0"
proof -
  have "round_pow2 512 = 512" by (simp add: round_pow2_def min_cap_def pow2_loop.simps Let_def)
  then show ?thesis by (simp add: rm_new_def rm_alloc_def crowd_def map_replicate_const)
qed

lemma crowd_run: "n + m \<le> 255 \<Longrightarrow> run_ops (rm_put crowd_hash) del wipe (map (\<lambda>k. Put k k) [n..<n + m]) (crowd n) = Some (crowd (n + m))"
proof (induction m arbitrary: n)
  case (Suc m)
  have "rm_put crowd_hash n n (crowd n) = Some (crowd (Suc n))" using crowd_grow [of n] Suc.prems by (simp add: rm_put_def)
  then show ?case using Suc.IH [of "Suc n"] Suc.prems by (simp add: upt_conv_Cons del: upt_Suc)
qed simp

subsection \<open>The insertion that loses a key\<close>

lemma crowd_fails:
  "\<exists>t'. rm_insert crowd_hash 255 v (crowd 255) = (Inl Distance_limit, t') \<and>
    rm_mem t' = (rm_mem (crowd 255))[253 := Some \<lparr>nd_hash = 0, nd_key = 255, nd_val = v\<rparr>]"
proof -
  let ?t = "crowd 255" let ?nd = "\<lparr>nd_hash = 0, nd_key = 255, nd_val = v\<rparr>"
  let ?u = "set_slot 253 (Some ?nd) (encode_dist 253) ?t"
  have nth: "rm_mem ?t ! 253 = Some \<lparr>nd_hash = 1, nd_key = 253, nd_val = 253\<rparr>" "ct ?t 253 = 253" "rm_mem ?t ! 254 = Some \<lparr>nd_hash = 1, nd_key = 254, nd_val = 254\<rparr>" "ct ?t 254 = 254"
    using crowd_nth [of 253 255] crowd_nth [of 254 255] by (simp_all add: crowd_hash_def)
  have u: "rm_mem ?u ! 254 = rm_mem ?t ! 254" "ct ?u 254 = 254" "shaped ?u" using set_slot_nth [of ?t 253 254] nth(4) by simp_all
  have h0: "crowd_hash 255 = 0" by (simp add: crowd_hash_def)
  have "insert_hash 0 255 v ?t = insert_loop 253 0 255 v 253 253 None ?t"
    using crowd_walk [of 255 255 0 253 v] crowd_home [of 255 255] h0 by simp
  also have "\<dots> = insert_loop 254 1 253 253 254 253 (Some 253) ?u"
  proof -
    have "occupied ?t 253" using nth(2) by (auto simp: occupied_def)
    moreover have "\<not> hits ?t 0 255 253" using nth(1) by (simp add: hits_def node_at_def)
    moreover have "stored_dist ?t 253 = 252" "node_at ?t 253 = \<lparr>nd_hash = 1, nd_key = 253, nd_val = 253\<rparr>" using nth(1,2) by (simp_all add: stored_dist_def node_at_def)
    moreover have "(254 :: nat) AND 511 = 254" using shaped_and [of ?t 254] by simp
    ultimately show ?thesis using insert_loop_steal [of 253 ?t 253 0 255 253 v None] by (simp add: max_stored_dist_def max_probe_def Let_def)
  qed
  also have "\<dots> = insert_loop 255 1 253 253 255 254 (Some 253) ?u"
  proof -
    have "occupied ?u 254" using u(2) by (auto simp: occupied_def)
    moreover have "\<not> hits ?u 1 253 254" using nth(3) u(1) by (simp add: hits_def node_at_def)
    moreover have "stored_dist ?u 254 = 253" using u(2) by (simp add: stored_dist_def)
    moreover have "(255 :: nat) AND 511 = 255" using shaped_and [of ?t 255] by simp
    ultimately show ?thesis using insert_loop_pass [of 253 ?u 254 1 253 _ 254 253 "Some 253"] u(1) nth(3) by (simp add: max_stored_dist_def max_probe_def)
  qed
  also have "\<dots> = (Inl Distance_limit, ?u)" by (rule insert_loop_far) (simp add: max_stored_dist_def)
  finally have "rm_insert crowd_hash 255 v ?t = (Inl Distance_limit, ?u)" using h0 by (simp add: rm_insert_def load_num_def load_denom_def)
  then show ?thesis by (simp add: set_slot_def)
qed

lemma crowd_ok: "robin_ok crowd_hash (crowd 255)" "rm_view (crowd 255) 253 = Some 253" "rm_view (crowd 255) 255 = None"
proof -
  have run: "run_ops (rm_put crowd_hash) (rm_del crowd_hash) rm_clear (map (\<lambda>k. Put k k) [0..<255]) (rm_new 512) = Some (crowd 255)"
    using crowd_run [of 0 255] by (simp add: crowd_new)
  show ok: "robin_ok crowd_hash (crowd 255)" using rh.run_refines [OF new_ok(1) run] by blast
  have at: "(k, v) \<in> stored (crowd 255) \<longleftrightarrow> k < 255 \<and> v = k" for k v
  proof
    assume "(k, v) \<in> stored (crowd 255)"
    then show "k < 255 \<and> v = k" unfolding stored_iff using crowd_nth(1) [of _ 255] by (auto split: if_splits)
  next
    assume "k < 255 \<and> v = k"
    then show "(k, v) \<in> stored (crowd 255)" unfolding stored_iff using crowd_nth(1) [of k 255] by (intro exI [of _ k]) simp
  qed
  show "rm_view (crowd 255) 253 = Some 253" using rm_view_iff [OF robin_okD(3) [OF ok]] at by simp
  have "rm_view (crowd 255) 255 = Some v \<longleftrightarrow> None = Some v" for v using rm_view_iff [OF robin_okD(3) [OF ok], of 255 v] at by simp
  then show "rm_view (crowd 255) 255 = None" by (rule option_ext)
qed

lemma crowd_loses:
  assumes "rm_insert crowd_hash 255 v (crowd 255) = (Inl Distance_limit, t')" "rm_mem t' = (rm_mem (crowd 255))[253 := Some \<lparr>nd_hash = 0, nd_key = 255, nd_val = v\<rparr>]"
  shows "rm_view t' 253 = None" "rm_view t' 255 = Some v"
proof -
  note f = rm_insert_failed [OF crowd_ok(1) assms(1)]
  have once: "keys_once t'" and slots: "rm_slots t' = 512" using f robin_okD(3) by auto
  have at: "rm_mem t' ! i = (if i = 253 then Some \<lparr>nd_hash = 0, nd_key = 255, nd_val = v\<rparr> else rm_mem (crowd 255) ! i)" if "i < 512" for i
    using that assms(2) crowd_simps(4) [of 255] by (simp add: shaped_def)
  have "(253, w) \<notin> stored t'" for w
    unfolding stored_iff slots using at crowd_nth(1) [of _ 255] by (auto split: if_splits)
  then have "rm_view t' 253 = Some w \<longleftrightarrow> None = Some w" for w using rm_view_iff [OF once, of 253 w] by simp
  then show "rm_view t' 253 = None" by (rule option_ext)
  have "(255, v) \<in> stored t'" unfolding stored_iff slots using at [of 253] by (intro exI [of _ 253]) auto
  then show "rm_view t' 255 = Some v" using rm_view_iff [OF once] by simp
qed

text \<open>
  C38: An insertion that throws can lose another key.  After the keys 0 to 254 have been inserted into a new map of 512 slots, inserting 255 fails
  at the distance limit; afterwards 255 is in the map, and 253, which was stored before, is not.
\<close>

theorem robin_insert_loses:
  "\<exists>t t'. run_ops (rm_put crowd_hash) (rm_del crowd_hash) rm_clear (map (\<lambda>k. Put k k) [0..<255]) (rm_new 512) = Some t \<and>
    rm_view t 253 = Some 253 \<and> rm_view t 255 = None \<and>
    rm_insert crowd_hash 255 v t = (Inl Distance_limit, t') \<and> rm_view t' 253 = None \<and> rm_view t' 255 = Some v"
proof -
  obtain t' where t': "rm_insert crowd_hash 255 v (crowd 255) = (Inl Distance_limit, t')"
    "rm_mem t' = (rm_mem (crowd 255))[253 := Some \<lparr>nd_hash = 0, nd_key = 255, nd_val = v\<rparr>]" using crowd_fails by blast
  have "run_ops (rm_put crowd_hash) (rm_del crowd_hash) rm_clear (map (\<lambda>k. Put k k) [0..<255]) (rm_new 512) = Some (crowd 255)"
    using crowd_run [of 0 255] by (simp add: crowd_new)
  then show ?thesis using t'(1) crowd_loses [OF t'] crowd_ok(2,3) by blast
qed

end
