(* ===== verification/Spec2Isabelle.thy ===== *)
theory Spec2Isabelle
  imports Chrono_Parse Chrono_Epochs Sort_Results Heap_Binomial Heap_Concurrent Queue_Spsc Queue_Mpmc Lock_Flag Lock_Ticket Lock_Shared
    Lock_Seq Lock_Recursive Sync_Semaphore Sync_Latch Sync_Barrier Regex_Results Map_Crowd
begin

text \<open>
  A verification library for micron, a header-only C++ replacement of the standard library (sources under \<^verbatim>\<open>src/src\<close>).
  The headers are independent components that call each other through templates; the parts modelled here are those whose
  correctness is a matter of their own logic: calendar and time arithmetic with its text formats, sorting, heaps, a
  lock-free queue, locks and other synchronisation, the regular expression engine and a hash map with a set over it.

  \<^bold>\<open>Shared.\<close> \<open>Micron_Prelude\<close>: the integer types of the source as integers with their casts written out, C++ division, and the
  collections of facts that all theories use.

  \<^bold>\<open>Time\<close> (\<^verbatim>\<open>chrono/\<close>).
  \<^item> \<open>Chrono_Calendar\<close> (\<^verbatim>\<open>calendar.hpp\<close>): \<open>days_from_civil\<close>, \<open>civil_from_days\<close>, weekdays, ordinals and ISO week dates.  The arithmetic is
    compared with the rules of the Gregorian calendar: consecutive numbers are consecutive dates.
  \<^item> \<open>Chrono_Civil\<close> (\<^verbatim>\<open>civil.hpp\<close>): civil time and time-zone tables; the binary search in a table and the choice between two
    instants that show the same local time.
  \<^item> \<open>Chrono_Format\<close> (\<^verbatim>\<open>format.hpp\<close>): the bounded buffer and every writer built on it; what is stored is always the prefix of the
    text that fits.
  \<^item> \<open>Chrono_Parse\<close> (\<^verbatim>\<open>parse.hpp\<close>): the parsers over arbitrary bytes, and their round trips with the writers.
  \<^item> \<open>Chrono_Epochs\<close> (\<^verbatim>\<open>epochs.hpp\<close>): conversions to other epochs.

  \<^bold>\<open>Sorting\<close> (\<^verbatim>\<open>sort/\<close>).
  \<^item> \<open>Sort_Base\<close>: orders as comparison functions (locale \<open>strict_weak\<close>) and the contracts \<open>sorter\<close> and \<open>stable_sorter\<close>.
  \<^item> \<open>Sort_Simple\<close> (\<^verbatim>\<open>insertion.hpp\<close>, \<^verbatim>\<open>bubble.hpp\<close>, \<^verbatim>\<open>select.hpp\<close>, \<^verbatim>\<open>comb.hpp\<close>, \<^verbatim>\<open>shell.hpp\<close>), \<open>Sort_Heap\<close> (\<^verbatim>\<open>heap.hpp\<close>),
    \<open>Sort_Quick\<close> (\<^verbatim>\<open>quick.hpp\<close>, \<^verbatim>\<open>sort.hpp\<close>, the selections), \<open>Sort_Merge\<close> (\<^verbatim>\<open>merge.hpp\<close>, \<^verbatim>\<open>stable.hpp\<close>), \<open>Sort_Radix\<close> (\<^verbatim>\<open>radix.hpp\<close>,
    \<^verbatim>\<open>counting.hpp\<close>; contract \<open>key_sorter\<close>).  Loops are recursions on their indices over the array as a list; keys are 64-bit words.
    Each routine is an interpretation of the contract it satisfies.
  \<^item> \<open>Sort_Results\<close>: the properties that span the routines.

  \<^bold>\<open>Heaps\<close> (\<^verbatim>\<open>heap/\<close>).
  \<^item> \<open>Heap_Array\<close> (\<^verbatim>\<open>binary_heap.hpp\<close>, \<^verbatim>\<open>heapq.hpp\<close>): the contract \<open>prio_queue\<close> over multisets, both array heaps as interpretations, and
    the loop that drains a heap (\<^verbatim>\<open>sort/extract.hpp\<close>) as its client.  The capacity of the bounded heap is what fits into the block of its allocator
    (\<^verbatim>\<open>memory/allocation/\<close>), whose rounding is modelled; the length of the block the arena returns is a parameter.
  \<^item> \<open>Heap_Binomial\<close> (\<^verbatim>\<open>binomial.hpp\<close>): trees for the linked nodes and paths for the pointers to them.
  \<^item> \<open>Heap_Concurrent\<close> (\<^verbatim>\<open>heapq.hpp\<close> with \<^verbatim>\<open>mutex.hpp\<close>): threads that call heap queues, the mutexes they hold, and the
    address order in which the assignments take two of them.  Without new calls all calls return; the mutex is not fair, so nothing is said of a call that later
    ones keep overtaking.

  \<^bold>\<open>Queues\<close> (\<^verbatim>\<open>queue/\<close>).
  \<^item> \<open>Queue_Base\<close>: the contract \<open>bounded_fifo\<close>.
  \<^item> \<open>Queue_Spsc\<close> (\<^verbatim>\<open>spsc_queue.hpp\<close>): whole calls, and a step relation in which one producer and one consumer interleave their
    accesses.  The 64-bit indices wrap; the invariant relates them to the numbers of values sent and got.
  \<^item> \<open>Queue_Mpmc\<close> (\<^verbatim>\<open>static_mpmc.hpp\<close>, \<^verbatim>\<open>crossbeam.hpp\<close>): any number of producers and consumers on cells with tags.  The invariant says for every tag
    which positions may be claimed; it needs two cells at least, and a queue with one cell is shown to fail.

  \<^bold>\<open>Locks\<close> (\<^verbatim>\<open>mutex/\<close>).
  \<^item> \<open>Lock_Base\<close>: transition systems with an invariant, and the contracts \<open>exclusive_lock\<close> and \<open>shared_exclusive_lock\<close>.
  \<^item> \<open>Lock_Flag\<close> (\<^verbatim>\<open>mutex.hpp\<close>, \<^verbatim>\<open>locks/spin_lock.hpp\<close>, \<^verbatim>\<open>locks/ttas_lock.hpp\<close>), \<open>Lock_Ticket\<close> (\<^verbatim>\<open>locks/ticket_lock.hpp\<close>) and \<open>Lock_Shared\<close>
    (\<^verbatim>\<open>locks/shared_mutex.hpp\<close>): every access to the words of a lock is a step of some thread.
  \<^item> \<open>Lock_Seq\<close> (\<^verbatim>\<open>locks/seqlock.hpp\<close>): readers and writers copy the value byte by byte; a history of complete values says what a reader may
    return.  \<open>Lock_Recursive\<close> (\<^verbatim>\<open>locks/recursive_lock.hpp\<close>): owner stamps and the depth.

  \<^bold>\<open>Synchronisation\<close> (\<^verbatim>\<open>sync/\<close>).
  \<^item> \<open>Sync_Base\<close>: threads counted by what they are doing, and the futex as the kernel documents it.
  \<^item> \<open>Sync_Semaphore\<close> (\<^verbatim>\<open>semaphore.hpp\<close>), \<open>Sync_Latch\<close> and \<open>Sync_Barrier\<close> (\<^verbatim>\<open>latch.hpp\<close>, \<^verbatim>\<open>event_count.hpp\<close>): step relations whose invariants
    account for permits, counts and generations, and show that no wake-up is lost.

  \<^bold>\<open>Regular expressions\<close> (\<^verbatim>\<open>regex/\<close>).  A pattern is parsed into a table of nodes, compiled to a program and run by a machine; an automaton
  and a scan for first bytes make this fast.
  \<^item> \<open>Regex_Class\<close> (\<^verbatim>\<open>charreach.hpp\<close>, \<^verbatim>\<open>classscan.hpp\<close>, \<^verbatim>\<open>memchr\<close>): sets of bytes in four words; the scalar scans and those of the vector units,
    lane by lane.
  \<^item> \<open>Regex_Ast\<close> (\<^verbatim>\<open>ast.hpp\<close>): the recursive-descent parser.  It returns on every pattern and its nodes refer to what exists.
  \<^item> \<open>Regex_Program\<close> (\<^verbatim>\<open>program.hpp\<close>): the emitter, its refinement of a structural compiler, the meaning \<open>sem\<close> of an expression as the set of
    pairs of offsets it matches between, and that the paths of the program are these pairs.
  \<^item> \<open>Regex_Pike\<close> (\<^verbatim>\<open>pike.hpp\<close>): the machine; it ends and reports the leftmost-longest match.
  \<^item> \<open>Regex_Dfa\<close> (\<^verbatim>\<open>dfa.hpp\<close>): closures, the table of states and the three loops over it, which agree; what the automaton claims is true, and
    without assertions of the end of the text it misses nothing.
  \<^item> \<open>Regex_Search\<close> (\<^verbatim>\<open>prefilter.hpp\<close>, \<^verbatim>\<open>regex.hpp\<close>): the first bytes of a match, compiling, the search with its candidates and its fallback.
  \<^item> \<open>Regex_Results\<close>: the properties of the engine as a whole, the contract \<open>matcher\<close> that \<open>search\<close> and \<open>cmatch\<close> keep, and
    the patterns on which the test for a match and the counts of intervals go wrong.

  \<^bold>\<open>Maps and sets\<close> (\<^verbatim>\<open>maps/\<close>, \<^verbatim>\<open>sets/\<close>).
  \<^item> \<open>Map_Base\<close>: runs of operations, and the contracts \<open>bounded_map\<close> and \<open>bounded_set\<close> over partial functions and sets.
  \<^item> \<open>Map_Robin\<close> (\<^verbatim>\<open>robin.hpp\<close>): the slots, control bytes and operations of the Robin Hood map, its invariant \<open>robin_ok\<close> (each element as far
    behind its home as its control byte says; distances grow by one at most), and that the probes by windows are the scalar probe.
  \<^item> \<open>Map_Robin_Insert\<close>: an insertion as a chain of exchanges (\<open>carry_step\<close>), its success and its failures.  \<open>Map_Robin_Erase\<close>: the gap that an
    erasure shifts (\<open>holed\<close>).
  \<^item> \<open>Map_Contract\<close> (\<^verbatim>\<open>robin_set.hpp\<close>): creation, clearing and walks; the map and the set as interpretations of the contracts, and what follows
    for the program.  \<open>Map_Crowd\<close>: a run whose last insertion throws and takes another key out of the map.

  \<^bold>\<open>Conventions and bounds.\<close>  Errors are values of a sum type, loops are total functions with a termination proof.  The functions of
  the regular expression engine that recurse through a pattern or a program carry a bound on the depth of their calls; a lemma
  shows that the bound they are given is enough: five times the length of the pattern and three more for the parser, the length of the
  program and one more for a thread or a walk, and two more for a closure.  The stamps of the machine are 32-bit words; a run needs at
  most two more of them than the text has bytes, and a search at most 34 runs, which bounds the texts of the theorems.  The shift of an
  erasure carries the number of slots as its bound, which suffices because a second slot is empty.
  Step relations assume sequentially consistent memory.  The acquire and release orders of the source give this for the data that a lock or an index
  guards; they do not order a store before a later load of another word, which the event count under the barrier relies on, so that its property holds under
  the assumption only.  A compare-and-swap of the weak form may fail without reason.  The ticket lock
  has fewer than \<open>2\<^sup>32\<close> threads, and fewer than \<open>2\<^sup>32\<close> tickets are drawn in a run with \<open>try_lock\<close>, where a
  full turn of the counter brings back a ticket that was read earlier, which is shown to break exclusion; the reader-writer lock has fewer than \<open>2\<^sup>31\<close>
  threads, the readers its word can count.  A reader of the sequence lock is overtaken by fewer than \<open>2\<^sup>31\<close> writes; the semaphore has fewer
  than \<open>2\<^sup>31\<close> threads and permits, the barrier fewer than \<open>2\<^sup>32\<close> threads and generations; the stamps and the depth of the recursive lock
  do not wrap; the rings for several producers and consumers take fewer than \<open>2\<^sup>63\<close> pushes.  Ranges of years and seconds are stated with each property.

  \<^bold>\<open>Not modelled.\<close>  System calls, clocks and input-output; raw memory, object lifetimes and allocation behind the containers;
  intrinsics; backoff and statistics of the locks; floating-point kernels; and, still to come, the other maps, trees, the unbounded
  queues and the queue locks.  In the regular expression engine the offsets of the groups beyond group 0 are computed
  by the model, but no property is stated of them.
\<close>

end
